(* ===== verification/Prelude.thy ===== *)
theory Prelude
  imports Main "HOL-Library.Word" "HOL-Library.Monad_Syntax"
begin

text \<open>
  Shared vocabulary of the development: machine integers as words, C character buffers as
  byte lists, bounds-checked memory accesses, the big-endian wire encodings the protocol uses
  (\<open>htonl\<close>, \<open>htobe64\<close> and their inverses, on a little-endian host, followed by a store),
  and the C string functions the sources call.

  Conventions. A buffer is a \<open>byte list\<close> whose length is the size of the C array. A memory
  access is an operation into \<open>option\<close>: \<open>None\<close> is an access outside the array (undefined
  behaviour in C), so that memory safety is a statement, not an assumption. A NUL-terminated
  string that the code only reads is the byte list of its characters, without the terminator.
\<close>

unbundle bit_operations_syntax

type_synonym byte = "8 word"
type_synonym u16 = "16 word"
type_synonym u32 = "32 word"
type_synonym u64 = "64 word"
type_synonym addr = nat

named_theorems mem_simps \<open>reading and writing of buffers\<close>
named_theorems wire_simps \<open>encoding and decoding of integers\<close>

subsection \<open>Lists\<close>

lemma takeWhile_take_drop:
  "takeWhile P xs @ dropWhile P xs = xs"
  by simp

lemma length_takeWhile_less_eq: "length (takeWhile P (take n xs)) \<le> n"
  using length_takeWhile_le [of P "take n xs"] by simp

lemma find_Some_first:
  assumes "i < n" and "P i" and "\<And>j. j < i \<Longrightarrow> \<not> P j"
  shows "List.find P [0..<n] = Some i"
  using assms
proof (induction n)
  case 0
  then show ?case by simp
next
  case (Suc n)
  show ?case
  proof (cases "i < n")
    case True
    then have "List.find P [0..<n] = Some i" using Suc by blast
    then have "List.find P ([0..<n] @ [n]) = Some i" by (induction "[0..<n]") (auto simp: find_Some_iff nth_append)
    then show ?thesis by simp
  next
    case False
    then have "i = n" using Suc.prems(1) by simp
    then show ?thesis using Suc.prems by (auto simp: find_Some_iff nth_append intro!: exI [of _ n])
  qed
qed

lemma find_SomeD: "List.find P xs = Some x \<Longrightarrow> x \<in> set xs \<and> P x"
  by (induction xs) (auto split: if_splits)

lemma find_upt_Some_iff:
  "List.find P [0..<n] = Some i \<longleftrightarrow> i < n \<and> P i \<and> (\<forall>j<i. \<not> P j)"
proof
  assume "List.find P [0..<n] = Some i"
  then obtain k where "k < length [0..<n]" "P ([0..<n] ! k)" "i = [0..<n] ! k"
    "\<forall>j<k. \<not> P ([0..<n] ! j)"
    unfolding find_Some_iff by blast
  then show "i < n \<and> P i \<and> (\<forall>j<i. \<not> P j)" by auto
next
  assume "i < n \<and> P i \<and> (\<forall>j<i. \<not> P j)"
  then show "List.find P [0..<n] = Some i" by (intro find_Some_first) auto
qed

lemma find_upt_None_iff: "List.find P [0..<n] = None \<longleftrightarrow> (\<forall>j<n. \<not> P j)"
  by (auto simp: find_None_iff)

lemma nth_concat_pairs:
  assumes "i < length xs"
  shows "concat (map (\<lambda>x. [f x, g x]) xs) ! (2 * i) = f (xs ! i)"
    and "concat (map (\<lambda>x. [f x, g x]) xs) ! Suc (2 * i) = g (xs ! i)"
  using assms by (induction xs arbitrary: i) (auto simp: nth_Cons split: nat.splits)

subsection \<open>Exclusive or\<close>

lemma xor_cancel_left: "a XOR (a XOR b) = (b :: 'a :: len word)"
  by (simp flip: xor.assoc)

lemma xor_inject_left [simp]: "a XOR b = a XOR c \<longleftrightarrow> b = (c :: 'a :: len word)"
  by (metis xor_cancel_left)

lemma xor_inject_right [simp]: "b XOR a = c XOR a \<longleftrightarrow> b = (c :: 'a :: len word)"
  by (metis xor_cancel_left xor.commute)

subsection \<open>Bounds-checked memory\<close>

text \<open>Reading and writing \<open>n\<close> bytes at an offset; \<open>None\<close> when the access leaves the array.\<close>

definition mem_read :: "byte list \<Rightarrow> nat \<Rightarrow> nat \<Rightarrow> byte list option" where
  "mem_read buf off n = (if off + n \<le> length buf then Some (take n (drop off buf)) else None)"

definition mem_write :: "byte list \<Rightarrow> nat \<Rightarrow> byte list \<Rightarrow> byte list option" where
  "mem_write buf off bs =
     (if off + length bs \<le> length buf
      then Some (take off buf @ bs @ drop (off + length bs) buf) else None)"

definition memset0 :: "byte list \<Rightarrow> nat \<Rightarrow> nat \<Rightarrow> byte list option" where
  "memset0 buf off n = mem_write buf off (replicate n 0)"

lemma mem_write_length: "mem_write buf off bs = Some buf' \<Longrightarrow> length buf' = length buf"
  by (auto simp: mem_write_def split: if_splits)

lemma mem_write_None_iff: "mem_write buf off bs = None \<longleftrightarrow> length buf < off + length bs"
  by (auto simp: mem_write_def)

lemma mem_write_Some_iff:
  "mem_write buf off bs = Some buf' \<longleftrightarrow>
     off + length bs \<le> length buf \<and> buf' = take off buf @ bs @ drop (off + length bs) buf"
  by (auto simp: mem_write_def)

lemma mem_read_length: "mem_read buf off n = Some bs \<Longrightarrow> length bs = n"
  by (auto simp: mem_read_def split: if_splits)

lemma mem_read_None_iff: "mem_read buf off n = None \<longleftrightarrow> length buf < off + n"
  by (auto simp: mem_read_def)

text \<open>The laws of the store: a read of what was just written, a read elsewhere, and the bytes of a
  read one by one.\<close>

lemma mem_read_write_same [mem_simps]:
  "mem_write buf off bs = Some buf' \<Longrightarrow> n = length bs \<Longrightarrow> mem_read buf' off n = Some bs"
  by (auto simp: mem_write_Some_iff mem_read_def)

lemma mem_read_write_other [mem_simps]:
  assumes "mem_write buf off bs = Some buf'" and "o' + n \<le> off \<or> off + length bs \<le> o'"
  shows "mem_read buf' o' n = mem_read buf o' n"
proof -
  from assms(1) have len: "off + length bs \<le> length buf"
    and buf': "buf' = take off buf @ bs @ drop (off + length bs) buf"
    by (auto simp: mem_write_Some_iff)
  from assms(2) have "take n (drop o' buf') = take n (drop o' buf)"
  proof
    assume "o' + n \<le> off"
    then show ?thesis using len by (simp add: buf' take_drop min_def add.commute)
  next
    assume "off + length bs \<le> o'"
    then show ?thesis using len by (simp add: buf')
  qed
  then show ?thesis using mem_write_length [OF assms(1)] by (simp add: mem_read_def)
qed

lemma mem_read_append:
  "mem_read buf off n = Some xs \<Longrightarrow> mem_read buf (off + n) m = Some ys \<Longrightarrow>
   mem_read buf off (n + m) = Some (xs @ ys)"
  by (auto simp: mem_read_def take_add split: if_splits) (simp add: add.commute)+

lemma mem_write_exists: "off + length bs \<le> length buf \<Longrightarrow> \<exists>buf'. mem_write buf off bs = Some buf' \<and> length buf' = length buf"
  by (simp add: mem_write_def)

subsection \<open>Loads of integers\<close>

definition load8 :: "byte list \<Rightarrow> nat \<Rightarrow> byte option" where
  "load8 buf off = (if off < length buf then Some (buf ! off) else None)"

subsection \<open>Integers on the wire\<close>

text \<open>\<open>be32 w\<close> is what the four bytes of \<open>htonl(w)\<close> are in memory; \<open>of_be32\<close> is \<open>ntohl\<close> of
  a load of four bytes. The 16- and 64-bit forms are \<open>htons\<close> and \<open>htobe64\<close>.\<close>

definition be16 :: "u16 \<Rightarrow> byte list" where
  "be16 w = [ucast (drop_bit 8 w), ucast w]"

definition of_be16 :: "byte list \<Rightarrow> u16" where
  "of_be16 bs = push_bit 8 (ucast (bs ! 0)) OR ucast (bs ! 1)"

definition be32 :: "u32 \<Rightarrow> byte list" where
  "be32 w = [ucast (drop_bit 24 w), ucast (drop_bit 16 w), ucast (drop_bit 8 w), ucast w]"

definition of_be32 :: "byte list \<Rightarrow> u32" where
  "of_be32 bs = push_bit 24 (ucast (bs ! 0)) OR push_bit 16 (ucast (bs ! 1))
     OR push_bit 8 (ucast (bs ! 2)) OR ucast (bs ! 3)"

definition be64 :: "u64 \<Rightarrow> byte list" where
  "be64 w = be32 (ucast (drop_bit 32 w)) @ be32 (ucast w)"

definition of_be64 :: "byte list \<Rightarrow> u64" where
  "of_be64 bs = push_bit 32 (ucast (of_be32 (take 4 bs))) OR ucast (of_be32 (drop 4 bs))"

lemma length_be [simp]: "length (be16 w) = 2" "length (be32 v) = 4" "length (be64 x) = 8"
  by (simp_all add: be16_def be32_def be64_def)

lemma less_8_cases: "(n::nat) < 8 \<longleftrightarrow> n \<in> {0,1,2,3,4,5,6,7}"
  by auto

lemma of_be16_be16 [wire_simps]: "of_be16 (be16 w) = w"
  by (rule bit_word_eqI) (auto simp: of_be16_def be16_def bit_simps)

lemma of_be32_be32 [wire_simps]: "of_be32 (be32 w) = w"
proof (rule bit_word_eqI)
  fix n assume "n < LENGTH(32)"
  then consider "n < 8" | "8 \<le> n" "n < 16" | "16 \<le> n" "n < 24" | "24 \<le> n" "n < 32" by fastforce
  then show "bit (of_be32 (be32 w)) n = bit w n"
    by cases (auto simp: of_be32_def be32_def bit_simps less_diff_conv2)
qed

lemma of_be64_be64 [wire_simps]: "of_be64 (be64 w) = w"
proof -
  have "of_be64 (be64 w) = push_bit 32 (ucast (ucast (drop_bit 32 w) :: u32)) OR ucast (ucast w :: u32)"
    by (simp add: of_be64_def be64_def of_be32_be32)
  also have "\<dots> = w"
    by (rule bit_word_eqI) (auto simp: bit_simps)
  finally show ?thesis .
qed

text \<open>A load followed by the conversion to host order.\<close>

definition load16 :: "byte list \<Rightarrow> nat \<Rightarrow> u16 option" where
  "load16 buf off = map_option of_be16 (mem_read buf off 2)"

definition load32 :: "byte list \<Rightarrow> nat \<Rightarrow> u32 option" where
  "load32 buf off = map_option of_be32 (mem_read buf off 4)"

definition load64 :: "byte list \<Rightarrow> nat \<Rightarrow> u64 option" where
  "load64 buf off = map_option of_be64 (mem_read buf off 8)"

lemma load8_conv_read: "load8 buf off = map_option hd (mem_read buf off 1)"
  by (auto simp: load8_def mem_read_def hd_drop_conv_nth take_Suc split: if_splits)

subsection \<open>C strings\<close>

text \<open>\<open>cstr_at buf i\<close> is the string that starts at index \<open>i\<close>: the bytes up to the first NUL.\<close>

definition cstr_at :: "byte list \<Rightarrow> nat \<Rightarrow> byte list" where
  "cstr_at buf i = takeWhile (\<lambda>b. b \<noteq> 0) (drop i buf)"

abbreviation cstr :: "byte list \<Rightarrow> byte list" where
  "cstr buf \<equiv> takeWhile (\<lambda>b. b \<noteq> 0) buf"

definition strnlen :: "byte list \<Rightarrow> nat \<Rightarrow> nat" where
  "strnlen buf n = length (cstr (take n buf))"

text \<open>The \<open>n\<close> bytes that \<open>strncpy(dest, src, n)\<close> stores.\<close>

definition strncpy_bytes :: "byte list \<Rightarrow> nat \<Rightarrow> byte list" where
  "strncpy_bytes src n = (let s = take n (cstr src) in s @ replicate (n - length s) 0)"

text \<open>\<open>strncmp\<close>: its sign is that of the difference at the first difference. A read behind the end of
  a list is not reached by the calls here.\<close>

fun strncmp :: "byte list \<Rightarrow> byte list \<Rightarrow> nat \<Rightarrow> int" where
  "strncmp (x # xs) (y # ys) (Suc n) =
     (if x \<noteq> y then uint x - uint y else if x = 0 then 0 else strncmp xs ys n)"
| "strncmp _ _ _ = 0"

lemma strncmp_0_iff:
  "n \<le> length xs \<Longrightarrow> n \<le> length ys \<Longrightarrow>
   strncmp xs ys n = 0 \<longleftrightarrow> takeWhile (\<lambda>b. b \<noteq> 0) (take n xs) = takeWhile (\<lambda>b. b \<noteq> 0) (take n ys)"
  by (induction xs ys n rule: strncmp.induct) (auto dest: word_uint_eqI simp: uint_0_iff)

text \<open>A C string literal.\<close>

definition lit :: "string \<Rightarrow> byte list" where
  "lit s = map of_char s"

definition tolower :: "byte \<Rightarrow> byte" where
  "tolower c = (if 65 \<le> c \<and> c \<le> 90 then c + 32 else c)"

lemma length_strncpy_bytes [simp]: "length (strncpy_bytes src n) = n"
  by (simp add: strncpy_bytes_def Let_def)

lemma cstr_padded: "0 \<notin> set s \<Longrightarrow> cstr (s @ replicate k 0) = s"
  by (induction s) (auto simp: takeWhile_eq_Nil_iff)

lemma cstr_no_NUL: "0 \<notin> set s \<Longrightarrow> cstr s = s"
  by (induction s) auto

lemma no_NUL_cstr: "0 \<notin> set (cstr buf)"
  by (auto dest: set_takeWhileD)

lemma cstr_strncpy_bytes: "cstr (strncpy_bytes src n) = take n (cstr src)"
  unfolding strncpy_bytes_def Let_def
  by (rule cstr_padded) (use no_NUL_cstr in \<open>auto dest: in_set_takeD\<close>)

lemma strnlen_le: "strnlen buf n \<le> n"
  unfolding strnlen_def by (rule length_takeWhile_less_eq)

text \<open>Encoding is onto: a decoded word encodes to the bytes it was read from.\<close>

lemma be32_of_be32: "length bs = 4 \<Longrightarrow> be32 (of_be32 bs) = bs"
proof -
  assume "length bs = 4"
  then obtain a b c d where bs: "bs = [a, b, c, d]"
    by (auto simp: length_Suc_conv numeral_eq_Suc)
  have no_bit: "\<not> bit x n" if "8 \<le> n" for x :: byte and n
    using that by (auto dest: bit_imp_le_length)
  show ?thesis
    unfolding bs be32_def of_be32_def
    by (auto intro!: bit_word_eqI simp: bit_simps no_bit)
qed

lemma of_be32_inject: "length a = 4 \<Longrightarrow> length b = 4 \<Longrightarrow> of_be32 a = of_be32 b \<longleftrightarrow> a = b"
  by (metis be32_of_be32)

end
