(* ===== verification/Timerheap.thy ===== *)
theory Timerheap
  imports Prelude "HOL-Library.Multiset"
begin

text \<open>
  The client record of \<open>server/clhandle.h\<close> and the timer heap of \<open>server/cltimerheap.c\<close>: an array
  of pointers to clients, ordered as a binary heap by the clients' deadlines, where each client stores
  its own position. Clients live in a store from addresses to records; address 0 is NULL.
  \<open>None\<close> is a failed assertion. The time read by \<open>clock_gettime\<close> is an argument.

  Indices are \<open>uint32_t\<close> in the code. They are natural numbers here because they cannot wrap: a heap
  has at most \<open>2 ^ 31\<close> slots (\<open>resize_slots\<close>), and both callers of the sift-down decrement
  \<open>num_clients\<close> first, so that \<open>2 * index + 2 < 2 ^ 32\<close>.
\<close>

subsection \<open>Deadlines\<close>

datatype timespec = Timespec (tv_sec: int) (tv_nsec: int)

instantiation timespec :: linorder
begin

definition less_eq_timespec :: "timespec \<Rightarrow> timespec \<Rightarrow> bool" where
  "less_eq_timespec a b \<longleftrightarrow> tv_sec a < tv_sec b \<or> tv_sec a = tv_sec b \<and> tv_nsec a \<le> tv_nsec b"

definition less_timespec :: "timespec \<Rightarrow> timespec \<Rightarrow> bool" where
  "less_timespec a b \<longleftrightarrow> tv_sec a < tv_sec b \<or> tv_sec a = tv_sec b \<and> tv_nsec a < tv_nsec b"

instance
proof
  fix a b c :: timespec
  show "(a < b) = (a \<le> b \<and> \<not> b \<le> a)" by (auto simp: less_eq_timespec_def less_timespec_def)
  show "a \<le> a" by (simp add: less_eq_timespec_def)
  show "a \<le> b \<Longrightarrow> b \<le> c \<Longrightarrow> a \<le> c" by (auto simp: less_eq_timespec_def)
  show "a \<le> b \<Longrightarrow> b \<le> a \<Longrightarrow> a = b" by (cases a; cases b) (auto simp: less_eq_timespec_def)
  show "a \<le> b \<or> b \<le> a" by (auto simp: less_eq_timespec_def)
qed

end

subsection \<open>Clients\<close>

datatype client_state = INIT | ACCEPTING | ACCEPTED | DISCONNECTED | REGISTERED | AUTHENTICATED

record client =
  sock_fd :: int
  timerheap_index :: int
  auth_deadline :: timespec
  peer_name :: u32
  cl_state :: client_state

abbreviation (input) INVAL_TH_IND :: int where "INVAL_TH_IND \<equiv> - 1"

subsection \<open>The heap\<close>

record cl_timerheap =
  clients :: "addr list"
  num_clients :: nat
  num_slots :: nat

abbreviation (input) CLTH_EMPTY :: int where "CLTH_EMPTY \<equiv> - 1"
abbreviation (input) CLTH_TIMEOUT :: int where "CLTH_TIMEOUT \<equiv> - 2"
abbreviation (input) CLTH_NOT_APPLICABLE :: int where "CLTH_NOT_APPLICABLE \<equiv> - 3"

definition dl :: "cl_timerheap \<Rightarrow> (addr \<Rightarrow> 'a client_scheme) \<Rightarrow> nat \<Rightarrow> timespec" where
  "dl h s i = auth_deadline (s (clients h ! i))"

text \<open>The macro \<open>MIN\<close> is not parenthesised. As a whole expression it is \<open>heap_MIN\<close>; in
  \<open>MIN(h, a, b) == c\<close> the comparison belongs to the last operand of its outermost conditional, and
  the whole is used as a condition: that is \<open>heap_MIN_eq\<close>.\<close>

definition heap_MIN :: "cl_timerheap \<Rightarrow> (addr \<Rightarrow> 'a client_scheme) \<Rightarrow> nat \<Rightarrow> nat \<Rightarrow> nat" where
  "heap_MIN h s a b =
     (if tv_sec (dl h s a) < tv_sec (dl h s b) then a
      else if tv_sec (dl h s a) \<noteq> tv_sec (dl h s b) then b
      else if tv_nsec (dl h s a) < tv_nsec (dl h s b) then a else b)"

definition heap_MIN_eq :: "cl_timerheap \<Rightarrow> (addr \<Rightarrow> 'a client_scheme) \<Rightarrow> nat \<Rightarrow> nat \<Rightarrow> nat \<Rightarrow> bool" where
  "heap_MIN_eq h s a b c =
     (if tv_sec (dl h s a) < tv_sec (dl h s b) then a \<noteq> 0
      else (if tv_sec (dl h s a) \<noteq> tv_sec (dl h s b) then b
            else if tv_nsec (dl h s a) < tv_nsec (dl h s b) then a else b) = c)"

definition swap :: "cl_timerheap \<Rightarrow> (addr \<Rightarrow> 'a client_scheme) \<Rightarrow> nat \<Rightarrow> nat \<Rightarrow>
    cl_timerheap \<times> (addr \<Rightarrow> 'a client_scheme)" where
  "swap h s i j =
     (let a = clients h ! i; b = clients h ! j;
          a_idx = timerheap_index (s a) mod 2 ^ 32;
          b_idx = timerheap_index (s b) mod 2 ^ 32;
          s = s(b := (s b)\<lparr>timerheap_index := a_idx\<rparr>);
          s = s(a := (s a)\<lparr>timerheap_index := b_idx\<rparr>)
      in (h\<lparr>clients := (clients h)[i := b, j := a]\<rparr>, s))"

definition cl_timerheap_resize :: "cl_timerheap \<Rightarrow> cl_timerheap option" where
  "cl_timerheap_resize h =
     (let new_num_slots = (num_slots h * 2) mod 2 ^ 32 in
      if new_num_slots < num_slots h then None
      else Some (h\<lparr>clients := clients h @ replicate (new_num_slots - num_slots h) 0,
                    num_slots := new_num_slots\<rparr>))"

function cl_timerheap_heapify_up :: "cl_timerheap \<Rightarrow> (addr \<Rightarrow> 'a client_scheme) \<Rightarrow> nat \<Rightarrow>
    cl_timerheap \<times> (addr \<Rightarrow> 'a client_scheme)" where
  "cl_timerheap_heapify_up h s index =
     (if index > 0 \<and> heap_MIN_eq h s index ((index - 1) div 2) index
      then case swap h s index ((index - 1) div 2) of
        (h, s) \<Rightarrow> cl_timerheap_heapify_up h s ((index - 1) div 2)
      else (h, s))"
  by pat_completeness auto
termination by (relation "measure (\<lambda>(h, s, i). i)") auto

function cl_timerheap_heapify_down :: "cl_timerheap \<Rightarrow> (addr \<Rightarrow> 'a client_scheme) \<Rightarrow> nat \<Rightarrow>
    cl_timerheap \<times> (addr \<Rightarrow> 'a client_scheme)" where
  "cl_timerheap_heapify_down h s index =
     (let max_index = (num_clients h + (2 ^ 32 - 1)) mod 2 ^ 32;
          lchild_index = 2 * index + 1;
          rchild_index = 2 * index + 2;
          lchild = if lchild_index \<le> max_index then clients h ! lchild_index else 0;
          rchild = if rchild_index \<le> max_index then clients h ! rchild_index else 0
      in if lchild = 0 \<and> rchild = 0 then (h, s)
         else let new_index = if rchild = 0 then lchild_index else heap_MIN h s lchild_index rchild_index
           in if heap_MIN_eq h s index new_index new_index
              then case swap h s index new_index of
                (h, s) \<Rightarrow> cl_timerheap_heapify_down h s new_index
              else (h, s))"
  by pat_completeness auto
termination
proof (relation "measure (\<lambda>(h, s, i). 2 ^ 32 - i)", goal_cases)
  case (2 h s index max_index l r lc rc ni h' s')
  have "max_index < 2 ^ 32" using 2(1) by simp
  moreover have "l \<le> max_index" using 2(2-6) by (auto split: if_splits)
  ultimately have "index < 2 ^ 32" "index < ni"
    using 2(2,3,7) by (auto simp: heap_MIN_def split: if_splits)
  then show ?case by simp
qed simp

declare cl_timerheap_heapify_up.simps [simp del] cl_timerheap_heapify_down.simps [simp del]

definition cl_timerheap_add :: "cl_timerheap \<Rightarrow> (addr \<Rightarrow> 'a client_scheme) \<Rightarrow> addr \<Rightarrow> timespec \<Rightarrow> int \<Rightarrow>
    (bool \<times> cl_timerheap \<times> (addr \<Rightarrow> 'a client_scheme)) option" where
  "cl_timerheap_add h s cl now deadline_time_len =
     (if num_slots h = 0 \<or> cl = 0 then None
      else case (if num_clients h = num_slots h then cl_timerheap_resize h else Some h) of
        None \<Rightarrow> Some (False, h, s)
      | Some h \<Rightarrow>
          let index = num_clients h;
              h = h\<lparr>num_clients := Suc index, clients := (clients h)[index := cl]\<rparr>;
              s = s(cl := (s cl)\<lparr>auth_deadline := Timespec (tv_sec now + deadline_time_len) (tv_nsec now),
                               timerheap_index := int index\<rparr>)
          in Some (True, cl_timerheap_heapify_up h s index))"

definition cl_timerheap_peek :: "cl_timerheap \<Rightarrow> addr option" where
  "cl_timerheap_peek h =
     (if num_slots h = 0 then None
      else if num_clients h \<noteq> 0 then Some (clients h ! 0) else Some 0)"

definition cl_timerheap_compute_root_timediff ::
    "cl_timerheap \<Rightarrow> (addr \<Rightarrow> 'a client_scheme) \<Rightarrow> timespec \<Rightarrow> client_state \<Rightarrow> int option" where
  "cl_timerheap_compute_root_timediff h s now target_state =
     (case cl_timerheap_peek h of None \<Rightarrow> None
      | Some cl \<Rightarrow>
          if cl = 0 then Some CLTH_EMPTY
          else let timediff_sec = tv_sec (auth_deadline (s cl)) - tv_sec now in
            if cl_state (s cl) \<noteq> target_state then Some CLTH_NOT_APPLICABLE
            else if timediff_sec \<le> 0 then Some CLTH_TIMEOUT
            else Some (timediff_sec * 1000))"

definition cl_timerheap_pop :: "cl_timerheap \<Rightarrow> (addr \<Rightarrow> 'a client_scheme) \<Rightarrow>
    (addr \<times> cl_timerheap \<times> (addr \<Rightarrow> 'a client_scheme)) option" where
  "cl_timerheap_pop h s =
     (if num_slots h = 0 then None
      else if num_clients h = 0 then Some (0, h, s)
      else let popped = clients h ! 0;
               max_index = num_clients h - 1;
               h = h\<lparr>num_clients := max_index\<rparr>
           in if max_index = 0 then Some (popped, h, s(popped := (s popped)\<lparr>timerheap_index := INVAL_TH_IND\<rparr>))
              else case swap h s 0 max_index of (h, s) \<Rightarrow>
                Some (popped, cl_timerheap_heapify_down h (s(popped := (s popped)\<lparr>timerheap_index := INVAL_TH_IND\<rparr>)) 0))"

definition cl_timerheap_remove :: "cl_timerheap \<Rightarrow> (addr \<Rightarrow> 'a client_scheme) \<Rightarrow> addr \<Rightarrow>
    (cl_timerheap \<times> (addr \<Rightarrow> 'a client_scheme)) option" where
  "cl_timerheap_remove h s cl =
     (if num_slots h = 0 \<or> cl = 0 then None
      else if num_clients h = 0 \<or> timerheap_index (s cl) = INVAL_TH_IND then Some (h, s)
      else let index = nat (timerheap_index (s cl) mod 2 ^ 32);
               h = h\<lparr>num_clients := num_clients h - 1\<rparr>
           in if num_clients h = 0 \<or> index = num_clients h
              then Some (h, s(cl := (s cl)\<lparr>timerheap_index := INVAL_TH_IND\<rparr>))
              else case swap h s index (num_clients h) of (h, s) \<Rightarrow>
                let s = s(cl := (s cl)\<lparr>timerheap_index := INVAL_TH_IND\<rparr>) in
                if index = 0 then Some (cl_timerheap_heapify_down h s index)
                else if heap_MIN_eq h s index ((index - 1) div 2) index
                then Some (cl_timerheap_heapify_up h s index)
                else Some (cl_timerheap_heapify_down h s index))"

subsection \<open>Bookkeeping\<close>

definition heap_members :: "cl_timerheap \<Rightarrow> addr set" where
  "heap_members h = set (take (num_clients h) (clients h))"

text \<open>The array has the size it claims, and the first \<open>num_clients\<close> slots hold distinct clients that
  know their position.\<close>

definition heap_ok :: "cl_timerheap \<Rightarrow> (addr \<Rightarrow> 'a client_scheme) \<Rightarrow> bool" where
  "heap_ok h s \<longleftrightarrow>
     num_clients h \<le> num_slots h \<and> length (clients h) = num_slots h \<and>
     0 < num_slots h \<and> num_slots h \<le> 2 ^ 31 \<and> (\<exists>k. num_slots h = 2 ^ k) \<and>
     distinct (take (num_clients h) (clients h)) \<and> 0 \<notin> heap_members h \<and>
     (\<forall>i < num_clients h. timerheap_index (s (clients h ! i)) = int i)"

text \<open>The clients of \<open>A\<close> may have moved; nothing else of the store has changed.\<close>

definition reindexed :: "addr set \<Rightarrow> (addr \<Rightarrow> 'a client_scheme) \<Rightarrow> (addr \<Rightarrow> 'a client_scheme) \<Rightarrow> bool" where
  "reindexed A s s' \<longleftrightarrow>
     (\<forall>c. c \<notin> A \<longrightarrow> s' c = s c) \<and> (\<forall>c. \<exists>i. s' c = (s c)\<lparr>timerheap_index := i\<rparr>)"

definition rearranged :: "cl_timerheap \<Rightarrow> (addr \<Rightarrow> 'a client_scheme) \<Rightarrow>
    cl_timerheap \<Rightarrow> (addr \<Rightarrow> 'a client_scheme) \<Rightarrow> bool" where
  "rearranged h s h' s' \<longleftrightarrow>
     heap_ok h' s' \<and> num_clients h' = num_clients h \<and> num_slots h' = num_slots h \<and>
     heap_members h' = heap_members h \<and> reindexed (heap_members h) s s'"

lemma reindexed_refl [simp]: "reindexed A s s"
proof -
  have "\<exists>i. s c = (s c)\<lparr>timerheap_index := i\<rparr>" for c
    by (rule exI [of _ "timerheap_index (s c)"]) simp
  then show ?thesis by (simp add: reindexed_def)
qed

lemma reindexed_trans: "reindexed A s s' \<Longrightarrow> reindexed A s' s'' \<Longrightarrow> reindexed A s s''"
  unfolding reindexed_def by (metis client.surjective client.update_convs(2))

lemma reindexed_mono: "reindexed A s s' \<Longrightarrow> A \<subseteq> B \<Longrightarrow> reindexed B s s'"
  by (auto simp: reindexed_def)

lemma reindexed_fields:
  assumes "reindexed A s s'"
  shows "auth_deadline (s' c) = auth_deadline (s c)" "cl_state (s' c) = cl_state (s c)"
    "sock_fd (s' c) = sock_fd (s c)" "peer_name (s' c) = peer_name (s c)"
    "client.more (s' c) = client.more (s c)"
proof -
  obtain i where "s' c = (s c)\<lparr>timerheap_index := i\<rparr>" using assms by (auto simp: reindexed_def)
  then show "auth_deadline (s' c) = auth_deadline (s c)" "cl_state (s' c) = cl_state (s c)"
    "sock_fd (s' c) = sock_fd (s c)" "peer_name (s' c) = peer_name (s c)"
    "client.more (s' c) = client.more (s c)" by simp_all
qed

lemma rearranged_refl: "heap_ok h s \<Longrightarrow> rearranged h s h s"
  by (simp add: rearranged_def)

lemma rearranged_trans: "rearranged h s h' s' \<Longrightarrow> rearranged h' s' h'' s'' \<Longrightarrow> rearranged h s h'' s''"
  by (auto simp: rearranged_def intro: reindexed_trans)

lemma heap_members_conv:
  assumes "heap_ok h s"
  shows "heap_members h = {clients h ! i | i. i < num_clients h}"
proof -
  have "length (take (num_clients h) (clients h)) = num_clients h" using assms by (simp add: heap_ok_def)
  then show ?thesis unfolding heap_members_def set_conv_nth by (metis (mono_tags, opaque_lifting) nth_take)
qed

lemma heap_nth_eq_iff:
  assumes "heap_ok h s" and "i < num_clients h" and "j < num_clients h"
  shows "clients h ! i = clients h ! j \<longleftrightarrow> i = j"
  using assms by (auto simp: heap_ok_def) (metis of_nat_eq_iff)

lemma heap_nth_member: "heap_ok h s \<Longrightarrow> i < num_clients h \<Longrightarrow> clients h ! i \<in> heap_members h"
  by (auto simp: heap_members_conv)

lemma heap_nth_nonzero: "heap_ok h s \<Longrightarrow> i < num_clients h \<Longrightarrow> clients h ! i \<noteq> 0"
  by (metis heap_nth_member heap_ok_def)

lemma take_swap:
  assumes "i < n" and "j < n" and "n \<le> length xs"
  shows "take n (xs[i := xs ! j, j := xs ! i]) = (take n xs)[i := take n xs ! j, j := take n xs ! i]"
  using assms by (simp add: take_update_swap)

lemma swap_rearranged:
  assumes ok: "heap_ok h s" and i: "i < num_clients h" and j: "j < num_clients h" and ne: "i \<noteq> j"
    and sw: "swap h s i j = (h', s')"
  shows "rearranged h s h' s'"
    and "clients h' = (clients h)[i := clients h ! j, j := clients h ! i]"
    and "k < num_clients h \<Longrightarrow> dl h' s' k = dl h s (if k = i then j else if k = j then i else k)"
proof -
  have n: "num_clients h \<le> length (clients h)" "num_clients h \<le> 2 ^ 31" using ok by (auto simp: heap_ok_def)
  define a b where "a = clients h ! i" and "b = clients h ! j"
  have ab: "a \<noteq> b" using heap_nth_eq_iff [OF ok i j] ne by (simp add: a_def b_def)
  have idx: "timerheap_index (s a) = int i" "timerheap_index (s b) = int j"
    using ok i j by (auto simp: heap_ok_def a_def b_def)
  have h': "h' = h\<lparr>clients := (clients h)[i := b, j := a]\<rparr>"
    and s': "s' = s(b := (s b)\<lparr>timerheap_index := int i\<rparr>, a := (s a)\<lparr>timerheap_index := int j\<rparr>)"
    using sw ab idx i j n by (auto simp: swap_def Let_def a_def [symmetric] b_def [symmetric])
  show clients: "clients h' = (clients h)[i := clients h ! j, j := clients h ! i]"
    by (simp add: h' a_def b_def)
  have tk: "take (num_clients h) (clients h') =
      (take (num_clients h) (clients h))[i := take (num_clients h) (clients h) ! j, j := take (num_clients h) (clients h) ! i]"
    unfolding clients using i j n by (intro take_swap) simp_all
  have mem: "heap_members h' = heap_members h"
  proof -
    have "set (take (num_clients h) (clients h')) = set (take (num_clients h) (clients h))"
      unfolding tk by (rule set_swap) (use i j n in simp_all)
    then show ?thesis by (simp add: heap_members_def h')
  qed
  show dl: "k < num_clients h \<Longrightarrow> dl h' s' k = dl h s (if k = i then j else if k = j then i else k)"
    using i j n ab by (auto simp: dl_def h' s' a_def b_def nth_list_update)
  have "timerheap_index (s' (clients h' ! k)) = int k" if k: "k < num_clients h" for k
  proof -
    have "clients h ! k \<noteq> a" "clients h ! k \<noteq> b" if "k \<noteq> i" "k \<noteq> j"
      using heap_nth_eq_iff [OF ok k i] heap_nth_eq_iff [OF ok k j] that by (auto simp: a_def b_def)
    then show ?thesis using k n i j ab ok by (auto simp: h' s' nth_list_update heap_ok_def)
  qed
  moreover have "distinct (take (num_clients h) (clients h'))"
    unfolding tk using ok i j n by (subst distinct_swap) (simp_all add: heap_ok_def)
  ultimately have "heap_ok h' s'" using ok mem by (simp add: heap_ok_def h')
  moreover have "reindexed (heap_members h) s s'"
    using heap_nth_member [OF ok i] heap_nth_member [OF ok j] ab
    by (auto simp: reindexed_def s' a_def [symmetric] b_def [symmetric])
      (metis client.surjective client.update_convs(2))
  ultimately show "rearranged h s h' s'" using mem by (simp add: rearranged_def h')
qed

text \<open>Moving clients up or down only rearranges the heap.\<close>

lemma heapify_up_rearranged:
  assumes "heap_ok h s" and "index < num_clients h"
  shows "case cl_timerheap_heapify_up h s index of (h', s') \<Rightarrow> rearranged h s h' s'"
  using assms
proof (induction h s index rule: cl_timerheap_heapify_up.induct)
  case (1 h s index)
  show ?case
  proof (cases "index > 0 \<and> heap_MIN_eq h s index ((index - 1) div 2) index")
    case True
    obtain h' s' where sw: "swap h s index ((index - 1) div 2) = (h', s')" by fastforce
    have r: "rearranged h s h' s'"
      by (rule swap_rearranged(1) [OF "1.prems" _ _ sw]) (use True "1.prems" in auto)
    then have "case cl_timerheap_heapify_up h' s' ((index - 1) div 2) of (h'', s'') \<Rightarrow> rearranged h' s' h'' s''"
      using "1.IH" [OF True sw [symmetric]] "1.prems" True by (auto simp: rearranged_def)
    then show ?thesis
      using True sw r by (subst cl_timerheap_heapify_up.simps) (auto intro: rearranged_trans)
  next
    case False
    then show ?thesis using "1.prems" by (subst cl_timerheap_heapify_up.simps) (auto intro: rearranged_refl)
  qed
qed

definition heap_child :: "cl_timerheap \<Rightarrow> (addr \<Rightarrow> 'a client_scheme) \<Rightarrow> nat \<Rightarrow> nat option" where
  "heap_child h s index =
     (if 2 * index + 1 < num_clients h
      then Some (if 2 * index + 2 < num_clients h then heap_MIN h s (2 * index + 1) (2 * index + 2) else 2 * index + 1)
      else None)"

lemma heap_child_bounds:
  "heap_child h s index = Some c \<Longrightarrow> index < c \<and> c < num_clients h \<and> (c = 2 * index + 1 \<or> c = 2 * index + 2)"
  by (auto simp: heap_child_def heap_MIN_def split: if_splits)

text \<open>One step of the sift-down on a well-formed heap.\<close>

lemma heapify_down_step:
  assumes ok: "heap_ok h s" and n: "0 < num_clients h"
  shows "cl_timerheap_heapify_down h s index =
    (case heap_child h s index of
       None \<Rightarrow> (h, s)
     | Some c \<Rightarrow> if heap_MIN_eq h s index c c
         then case swap h s index c of (h, s) \<Rightarrow> cl_timerheap_heapify_down h s c else (h, s))"
proof -
  have n31: "num_clients h \<le> 2 ^ 31" using ok by (auto simp: heap_ok_def)
  have m: "(num_clients h + 4294967295) mod 4294967296 = num_clients h - 1"
  proof -
    have "num_clients h + 4294967295 = 4294967296 + (num_clients h - 1)" using n by simp
    then have "(num_clients h + 4294967295) mod 4294967296 = (4294967296 + (num_clients h - 1)) mod 4294967296"
      by (simp only:)
    also have "\<dots> = num_clients h - 1" using n31 by simp
    finally show ?thesis .
  qed
  have le: "j \<le> (num_clients h + 4294967295) mod 4294967296 \<longleftrightarrow> j < num_clients h" for j
    using m n by auto
  have nz: "clients h ! j \<noteq> 0" if "j < num_clients h" for j using heap_nth_nonzero [OF ok that] .
  show ?thesis
    by (subst cl_timerheap_heapify_down.simps)
      (auto simp: Let_def heap_child_def le nz)
qed

lemma heapify_down_rearranged:
  assumes "heap_ok h s" and "index < num_clients h"
  shows "case cl_timerheap_heapify_down h s index of (h', s') \<Rightarrow> rearranged h s h' s'"
  using assms
proof (induction "num_clients h - index" arbitrary: h s index rule: less_induct)
  case (less h index s)
  have n: "0 < num_clients h" using less.prems by simp
  show ?case
  proof (cases "heap_child h s index")
    case None
    then show ?thesis using less.prems by (simp add: heapify_down_step [OF less.prems(1) n] rearranged_refl)
  next
    case (Some c)
    note c = heap_child_bounds [OF Some]
    show ?thesis
    proof (cases "heap_MIN_eq h s index c c")
      case True
      obtain h' s' where sw: "swap h s index c = (h', s')" by fastforce
      have r: "rearranged h s h' s'"
        by (rule swap_rearranged(1) [OF less.prems _ _ sw]) (use c in auto)
      then have "case cl_timerheap_heapify_down h' s' c of (h'', s'') \<Rightarrow> rearranged h' s' h'' s''"
        using c by (intro less.hyps) (auto simp: rearranged_def)
      then show ?thesis
        using Some True sw r by (auto simp: heapify_down_step [OF less.prems(1) n] intro: rearranged_trans)
    next
      case False
      then show ?thesis
        using Some less.prems by (simp add: heapify_down_step [OF less.prems(1) n] rearranged_refl)
    qed
  qed
qed

subsection \<open>Order\<close>

definition heap_ordered :: "cl_timerheap \<Rightarrow> (addr \<Rightarrow> 'a client_scheme) \<Rightarrow> bool" where
  "heap_ordered h s \<longleftrightarrow> (\<forall>j. 0 < j \<and> j < num_clients h \<longrightarrow> dl h s ((j - 1) div 2) \<le> dl h s j)"

text \<open>The order with an exception at \<open>i\<close>, which may be earlier than its parent.\<close>

definition up_inv :: "(nat \<Rightarrow> timespec) \<Rightarrow> nat \<Rightarrow> nat \<Rightarrow> bool" where
  "up_inv d n i \<longleftrightarrow>
     (\<forall>j. 0 < j \<and> j < n \<and> j \<noteq> i \<longrightarrow> d ((j - 1) div 2) \<le> d j) \<and>
     (\<forall>j. 0 < i \<and> 0 < j \<and> j < n \<and> (j - 1) div 2 = i \<longrightarrow> d ((i - 1) div 2) \<le> d j)"

lemma heap_MIN_eq_up:
  assumes "0 < i" and "p \<noteq> i"
  shows "heap_MIN_eq h s i p i \<longleftrightarrow> dl h s i < dl h s p"
  using assms by (auto simp: heap_MIN_eq_def less_timespec_def)

lemma up_inv_swap:
  assumes inv: "up_inv d n i" and i: "0 < i" "i < n" and lt: "d i < d p" and p: "p = (i - 1) div 2"
    and d': "\<And>k. k < n \<Longrightarrow> d' k = d (if k = i then p else if k = p then i else k)"
  shows "up_inv d' n p"
proof -
  have pi: "p < i" using i p by auto
  have ord: "d ((j - 1) div 2) \<le> d j" if "0 < j" "j < n" "j \<noteq> i" for j
    using inv that by (simp add: up_inv_def)
  have grand: "d p \<le> d j" if "0 < j" "j < n" "(j - 1) div 2 = i" for j
    using inv that i p by (auto simp: up_inv_def)
  have "d' ((j - 1) div 2) \<le> d' j" if j: "0 < j" "j < n" "j \<noteq> p" for j
  proof -
    have pj: "(j - 1) div 2 < j" using j by auto
    consider "j = i" | "j \<noteq> i" "(j - 1) div 2 = i" | "j \<noteq> i" "(j - 1) div 2 = p" | "j \<noteq> i" "(j - 1) div 2 \<noteq> i" "(j - 1) div 2 \<noteq> p"
      by blast
    then show ?thesis
    proof cases
      case 1
      then show ?thesis using lt p pi i by (simp add: d')
    next
      case 2
      then show ?thesis using grand j pj by (simp add: d')
    next
      case 3
      have "d p \<le> d j" using ord [of j] j 3 by simp
      then show ?thesis using 3 j pj pi i lt by (simp add: d')
    next
      case 4
      then show ?thesis using ord [of j] j pj by (simp add: d')
    qed
  qed
  moreover have "d' ((p - 1) div 2) \<le> d' j" if j: "0 < p" "0 < j" "j < n" "(j - 1) div 2 = p" for j
  proof -
    have pp: "(p - 1) div 2 < p" using j by auto
    have "d ((p - 1) div 2) \<le> d p" using ord [of p] j pi i by simp
    moreover have "d p \<le> d' j"
    proof (cases "j = i")
      case True
      then show ?thesis using i pi by (simp add: d')
    next
      case False
      moreover have "j \<noteq> p" using j by auto
      ultimately show ?thesis using ord [of j] j by (simp add: d')
    qed
    ultimately show ?thesis using pp pi i by (simp add: d')
  qed
  ultimately show ?thesis by (simp add: up_inv_def)
qed

lemma heapify_up_ordered:
  assumes "heap_ok h s" and "index < num_clients h" and "up_inv (dl h s) (num_clients h) index"
  shows "case cl_timerheap_heapify_up h s index of (h', s') \<Rightarrow> heap_ordered h' s'"
  using assms
proof (induction h s index rule: cl_timerheap_heapify_up.induct)
  case (1 h s index)
  define p where "p = (index - 1) div 2"
  have p: "0 < index \<Longrightarrow> p < index" by (auto simp: p_def)
  show ?case
  proof (cases "index > 0 \<and> heap_MIN_eq h s index ((index - 1) div 2) index")
    case True
    obtain h' s' where sw: "swap h s index ((index - 1) div 2) = (h', s')" by fastforce
    have bnd: "p < num_clients h" "index \<noteq> p" using True "1.prems"(2) p by auto
    note swr = swap_rearranged [OF "1.prems"(1,2) bnd sw [folded p_def]]
    have lt: "dl h s index < dl h s p" using True p unfolding p_def [symmetric] by (simp add: heap_MIN_eq_up)
    have "up_inv (dl h' s') (num_clients h) p"
      by (rule up_inv_swap [OF "1.prems"(3) _ "1.prems"(2) lt p_def swr(3)]) (use True in simp_all)
    then have "case cl_timerheap_heapify_up h' s' ((index - 1) div 2) of (h'', s'') \<Rightarrow> heap_ordered h'' s''"
      using "1.IH" [OF True sw [symmetric]] swr(1) bnd by (simp add: rearranged_def p_def)
    then show ?thesis using True sw by (subst cl_timerheap_heapify_up.simps) simp
  next
    case False
    then have "0 < index \<Longrightarrow> dl h s p \<le> dl h s index"
      using p unfolding p_def [symmetric] by (auto simp: heap_MIN_eq_up)
    then have "heap_ordered h s"
      using "1.prems"(3) unfolding up_inv_def heap_ordered_def by (metis p_def)
    then show ?thesis using False by (subst cl_timerheap_heapify_up.simps) auto
  qed
qed

lemma heap_ordered_root:
  assumes "heap_ordered h s" and "i < num_clients h"
  shows "dl h s 0 \<le> dl h s i"
  using assms(2)
proof (induction i rule: less_induct)
  case (less i)
  show ?case
  proof (cases "i = 0")
    case False
    then have "dl h s 0 \<le> dl h s ((i - 1) div 2)" using less by auto
    also have "\<dots> \<le> dl h s i" using assms(1) less.prems False by (simp add: heap_ordered_def)
    finally show ?thesis .
  qed simp
qed

text \<open>The slots of a full heap are doubled, up to \<open>2 ^ 31\<close>.\<close>

lemma resize_slots:
  assumes "heap_ok h s" and "num_slots h < 2 ^ 31"
  obtains h' where "cl_timerheap_resize h = Some h'" "heap_ok h' s" "num_slots h' = 2 * num_slots h"
    "num_clients h' = num_clients h" "\<And>i. i < num_clients h \<Longrightarrow> clients h' ! i = clients h ! i"
    "take (num_clients h) (clients h') = take (num_clients h) (clients h)"
proof -
  from assms(1) obtain k where k: "num_slots h = 2 ^ k" by (auto simp: heap_ok_def)
  have "k < 31" using assms(2) k by (metis nat_power_less_imp_less zero_less_numeral)
  then have "(2::nat) ^ Suc k \<le> 2 ^ 31" by (intro power_increasing) auto
  then have le: "2 * num_slots h \<le> 2 ^ 31" by (simp add: k)
  define h' where "h' = h\<lparr>clients := clients h @ replicate (num_slots h) 0, num_slots := 2 * num_slots h\<rparr>"
  have r: "cl_timerheap_resize h = Some h'"
    using le by (simp add: cl_timerheap_resize_def h'_def mult.commute)
  have tk: "take (num_clients h) (clients h') = take (num_clients h) (clients h)"
    using assms(1) by (simp add: h'_def heap_ok_def)
  have nth: "clients h' ! i = clients h ! i" if "i < num_clients h" for i
    using assms(1) that by (simp add: h'_def heap_ok_def nth_append)
  have n': "num_slots h' = 2 * num_slots h" "num_clients h' = num_clients h" by (simp_all add: h'_def)
  have "\<exists>j. 2 * num_slots h = 2 ^ j" using k by (metis power_Suc)
  then have "heap_ok h' s"
    using assms(1) le tk nth n' by (simp add: heap_ok_def heap_members_def) (simp add: h'_def)
  then show thesis by (rule that [OF r _ n' nth tk])
qed

text \<open>Appending a client.\<close>

lemma append_client:
  assumes ok: "heap_ok h s" and free: "num_clients h < num_slots h" and cl: "cl \<noteq> 0" "cl \<notin> heap_members h"
    and h': "h' = h\<lparr>num_clients := Suc (num_clients h), clients := (clients h)[num_clients h := cl]\<rparr>"
    and s': "s' = s(cl := (s cl)\<lparr>auth_deadline := t, timerheap_index := int (num_clients h)\<rparr>)"
  shows "heap_ok h' s'" "heap_members h' = insert cl (heap_members h)"
    "heap_ordered h s \<Longrightarrow> up_inv (dl h' s') (num_clients h') (num_clients h)"
proof -
  have tk: "take (num_clients h') (clients h') = take (num_clients h) (clients h) @ [cl]"
    using ok free by (simp add: h' heap_ok_def take_Suc_conv_app_nth)
  then show mem: "heap_members h' = insert cl (heap_members h)" by (simp add: heap_members_def)
  have ne: "clients h ! k \<noteq> cl" if "k < num_clients h" for k
    using heap_nth_member [OF ok that] cl by auto
  have "timerheap_index (s' (clients h' ! i)) = int i" if "i < num_clients h'" for i
    using ok free that ne by (cases "i = num_clients h") (auto simp: h' s' heap_ok_def)
  moreover have "distinct (take (num_clients h') (clients h'))"
    unfolding tk using ok cl by (simp add: heap_ok_def heap_members_def)
  ultimately show "heap_ok h' s'" using ok free cl mem by (simp add: heap_ok_def h')
  assume "heap_ordered h s"
  moreover have "dl h' s' k = dl h s k" if "k < num_clients h" for k
    using ne that by (simp add: dl_def h' s')
  ultimately show "up_inv (dl h' s') (num_clients h') (num_clients h)"
    by (auto simp: up_inv_def heap_ordered_def h' less_Suc_eq)
qed

lemma add_client:
  assumes ok: "heap_ok h s" and cl: "cl \<noteq> 0" "cl \<notin> heap_members h" and n: "num_clients h < 2 ^ 31"
  shows "\<exists>h' s'. cl_timerheap_add h s cl now len = Some (True, h', s') \<and>
    heap_ok h' s' \<and> heap_members h' = insert cl (heap_members h) \<and> num_clients h' = Suc (num_clients h) \<and>
    (heap_ordered h s \<longrightarrow> heap_ordered h' s') \<and>
    reindexed (insert cl (heap_members h)) (s(cl := (s cl)\<lparr>auth_deadline := Timespec (tv_sec now + len) (tv_nsec now)\<rparr>)) s'"
proof -
  obtain h0 where h0: "(if num_clients h = num_slots h then cl_timerheap_resize h else Some h) = Some h0"
    "heap_ok h0 s" "heap_ordered h s \<longrightarrow> heap_ordered h0 s" "heap_members h0 = heap_members h" "num_clients h0 < num_slots h0" "num_clients h0 = num_clients h"
  proof (cases "num_clients h = num_slots h")
    case True
    then have "num_slots h < 2 ^ 31" using n by simp
    from resize_slots [OF ok this] obtain h' where h': "cl_timerheap_resize h = Some h'" "heap_ok h' s"
      "num_slots h' = 2 * num_slots h" "num_clients h' = num_clients h"
      "\<And>i. i < num_clients h \<Longrightarrow> clients h' ! i = clients h ! i"
      "take (num_clients h) (clients h') = take (num_clients h) (clients h)" by blast
    have "heap_ordered h s \<longrightarrow> heap_ordered h' s" using h'(4,5) by (auto simp: heap_ordered_def dl_def)
    moreover have "0 < num_slots h" using ok by (simp add: heap_ok_def)
    ultimately show thesis using that [of h'] h' True by (simp add: heap_members_def)
  next
    case False
    then show thesis using that [of h] ok by (simp add: heap_ok_def)
  qed
  define h1 where "h1 = h0\<lparr>num_clients := Suc (num_clients h0), clients := (clients h0)[num_clients h0 := cl]\<rparr>"
  define s1 where "s1 = s(cl := (s cl)\<lparr>auth_deadline := Timespec (tv_sec now + len) (tv_nsec now),
      timerheap_index := int (num_clients h0)\<rparr>)"
  note app = append_client [OF h0(2,5) cl(1) cl(2) [folded h0(4)] h1_def s1_def]
  obtain h' s' where up: "cl_timerheap_heapify_up h1 s1 (num_clients h0) = (h', s')" by fastforce
  have lt: "num_clients h0 < num_clients h1" by (simp add: h1_def)
  have r: "rearranged h1 s1 h' s'" using heapify_up_rearranged [OF app(1) lt] up by simp
  have "heap_ordered h s \<longrightarrow> heap_ordered h' s'" using heapify_up_ordered [OF app(1) lt app(3)] h0(3) up by simp
  moreover have "cl_timerheap_add h s cl now len = Some (True, h', s')"
    using ok cl(1) h0(1) up by (simp add: cl_timerheap_add_def heap_ok_def h1_def s1_def Let_def)
  moreover have "reindexed (insert cl (heap_members h)) (s(cl := (s cl)\<lparr>auth_deadline := Timespec (tv_sec now + len) (tv_nsec now)\<rparr>)) s1"
    unfolding reindexed_def s1_def by (metis client.surjective client.update_convs(2,3) fun_upd_apply insert_iff)
  moreover have "reindexed (insert cl (heap_members h)) s1 s'" using r app(2) h0(4) by (simp add: rearranged_def)
  ultimately show ?thesis using r app(2) h0(4,6) by (auto simp: rearranged_def h1_def intro: reindexed_trans)
qed

text \<open>Adding a client: as long as the heap has fewer than \<open>2 ^ 31\<close> clients, a client that is not in a well-formed
  heap is added with the deadline \<open>now + deadline_time_len\<close>; the heap stays well-formed (the array
  may have doubled, every client knows its position) and ordered by deadline.\<close>

lemma cl_timerheap_add_correct:
  assumes ok: "heap_ok h s" and ord: "heap_ordered h s" and cl: "cl \<noteq> 0" "cl \<notin> heap_members h"
    and n: "num_clients h < 2 ^ 31"
  shows "\<exists>h' s'. cl_timerheap_add h s cl now len = Some (True, h', s') \<and>
    heap_ok h' s' \<and> heap_ordered h' s' \<and> heap_members h' = insert cl (heap_members h) \<and>
    auth_deadline (s' cl) = Timespec (tv_sec now + len) (tv_nsec now) \<and>
    (\<forall>c. c \<noteq> cl \<longrightarrow> auth_deadline (s' c) = auth_deadline (s c)) \<and> (\<forall>c. cl_state (s' c) = cl_state (s c))"
proof -
  obtain h' s' where a: "cl_timerheap_add h s cl now len = Some (True, h', s')" "heap_ok h' s'" "heap_ordered h' s'"
    "heap_members h' = insert cl (heap_members h)"
    "reindexed (insert cl (heap_members h)) (s(cl := (s cl)\<lparr>auth_deadline := Timespec (tv_sec now + len) (tv_nsec now)\<rparr>)) s'"
    using add_client [OF ok cl n] ord by blast
  note reindexed_fields [OF a(5)]
  then show ?thesis using a(1-4) by simp
qed

text \<open>A heap with one client, used by the witnesses.\<close>

definition heap_client :: "int \<Rightarrow> int \<Rightarrow> client" where
  "heap_client i t = \<lparr>sock_fd = 7, timerheap_index = i, auth_deadline = Timespec t 0, peer_name = 1, cl_state = ACCEPTED\<rparr>"

definition example_heap :: cl_timerheap where
  "example_heap = \<lparr>clients = [5], num_clients = 1, num_slots = 1\<rparr>"

definition example_store :: "addr \<Rightarrow> client" where
  "example_store a = (if a = 5 then heap_client 0 10 else heap_client (-1) 0)"

lemma example_heap_ok: "heap_ok example_heap example_store" "heap_ordered example_heap example_store"
  "heap_members example_heap = {5}"
proof -
  have "\<exists>k. (1::nat) = 2 ^ k" by (rule exI [of _ 0]) simp
  then show "heap_ok example_heap example_store"
    by (simp add: heap_ok_def example_heap_def example_store_def heap_client_def heap_members_def)
  show "heap_ordered example_heap example_store" by (simp add: heap_ordered_def example_heap_def)
  show "heap_members example_heap = {5}" by (simp add: heap_members_def example_heap_def)
qed

lemma cl_timerheap_add_correct_witness:
  "\<exists>h' s'. cl_timerheap_add example_heap example_store 9 (Timespec 3 0) 4 = Some (True, h', s') \<and>
    heap_ok h' s' \<and> heap_ordered h' s' \<and> heap_members h' = {9, 5} \<and> auth_deadline (s' 9) = Timespec 7 0"
proof -
  have "num_clients example_heap < 2 ^ 31" by (simp add: example_heap_def)
  moreover have "(9::addr) \<notin> heap_members example_heap" by (simp add: example_heap_ok(3))
  ultimately show ?thesis
    using cl_timerheap_add_correct [OF example_heap_ok(1,2), of 9 "Timespec 3 0" 4] by (auto simp: example_heap_ok(3))
qed

text \<open>As long as the heap is ordered, its root is the client with the earliest deadline, and the waiting
  time computed from the root is the time to that deadline in milliseconds; a deadline in the current
  second or earlier is a timeout.\<close>

lemma cl_timerheap_root_earliest:
  assumes "heap_ok h s" and "heap_ordered h s" and "c \<in> heap_members h" and "cl_timerheap_peek h = Some r"
  shows "r \<in> heap_members h \<and> auth_deadline (s r) \<le> auth_deadline (s c) \<and>
    cl_timerheap_compute_root_timediff h s now target =
      Some (if cl_state (s r) \<noteq> target then CLTH_NOT_APPLICABLE
            else if tv_sec (auth_deadline (s r)) \<le> tv_sec now then CLTH_TIMEOUT
            else (tv_sec (auth_deadline (s r)) - tv_sec now) * 1000)"
proof -
  from assms(1,3) obtain i where i: "i < num_clients h" "c = clients h ! i" by (auto simp: heap_members_conv)
  then have r: "r = clients h ! 0" "r \<in> heap_members h"
    using assms(1,4) heap_nth_member [OF assms(1), of 0] by (auto simp: cl_timerheap_peek_def split: if_splits)
  have "r \<noteq> 0" using heap_nth_nonzero [OF assms(1), of 0] i r by auto
  then show ?thesis
    using heap_ordered_root [OF assms(2) i(1)] assms(4) i r
    by (simp add: dl_def cl_timerheap_compute_root_timediff_def Let_def)
qed

lemma cl_timerheap_root_earliest_witness:
  "cl_timerheap_compute_root_timediff example_heap example_store (Timespec 4 0) ACCEPTED = Some 6000"
proof -
  have "cl_timerheap_peek example_heap = Some 5" "(5::addr) \<in> heap_members example_heap"
    by (simp_all add: cl_timerheap_peek_def example_heap_def heap_members_def)
  from cl_timerheap_root_earliest [OF example_heap_ok(1,2) this(2,1), of "Timespec 4 0" ACCEPTED]
  show ?thesis by (simp add: example_store_def heap_client_def)
qed

subsection \<open>Removal\<close>

lemma swap_num_clients:
  "swap (h\<lparr>num_clients := k\<rparr>) s i j = (case swap h s i j of (h', s') \<Rightarrow> (h'\<lparr>num_clients := k\<rparr>, s'))"
  by (simp add: swap_def Let_def)

lemma drop_last_client:
  assumes ok: "heap_ok h s" and n: "num_clients h = Suc m" and cl: "cl = clients h ! m"
    and h': "h' = h\<lparr>num_clients := m\<rparr>" and s': "s' = s(cl := (s cl)\<lparr>timerheap_index := INVAL_TH_IND\<rparr>)"
  shows "heap_ok h' s'" "heap_members h' = heap_members h - {cl}" "reindexed (heap_members h) s s'"
proof -
  have tk: "take (num_clients h) (clients h) = take m (clients h) @ [cl]"
    using ok by (simp add: n cl heap_ok_def take_Suc_conv_app_nth)
  have dist: "distinct (take (num_clients h) (clients h))" using ok by (simp add: heap_ok_def)
  have d: "distinct (take m (clients h))" and nin: "cl \<notin> set (take m (clients h))"
    using dist unfolding tk by simp_all
  show mem: "heap_members h' = heap_members h - {cl}"
    using nin unfolding heap_members_def tk by (simp add: h' tk)
  have "clients h ! i \<noteq> cl" if "i < m" for i
    using heap_nth_eq_iff [OF ok, of i m] that n cl by simp
  then show "heap_ok h' s'" using ok mem n d by (simp add: heap_ok_def h' s')
  have "cl \<in> heap_members h" using heap_nth_member [OF ok, of m] n cl by simp
  then show "reindexed (heap_members h) s s'"
    unfolding reindexed_def s' by (metis client.surjective client.update_convs(2) fun_upd_apply)
qed

text \<open>What a removal of \<open>cl\<close> promises.\<close>

definition removed :: "addr \<Rightarrow> cl_timerheap \<Rightarrow> (addr \<Rightarrow> 'a client_scheme) \<Rightarrow>
    cl_timerheap \<Rightarrow> (addr \<Rightarrow> 'a client_scheme) \<Rightarrow> bool" where
  "removed cl h s h' s' \<longleftrightarrow>
     heap_ok h' s' \<and> heap_members h' = heap_members h - {cl} \<and> num_clients h' = num_clients h - 1 \<and>
     timerheap_index (s' cl) = INVAL_TH_IND \<and> reindexed (heap_members h) s s'"

lemma removed_rearranged:
  assumes "removed cl h s h' s'" and "rearranged h' s' h'' s''"
  shows "removed cl h s h'' s''"
proof -
  have r: "reindexed (heap_members h - {cl}) s' s''" using assms by (simp add: removed_def rearranged_def)
  then have "s'' cl = s' cl" by (simp add: reindexed_def)
  moreover have "reindexed (heap_members h) s s''"
    using assms(1) reindexed_mono [OF r] by (auto simp: removed_def intro: reindexed_trans)
  ultimately show ?thesis using assms by (simp add: removed_def rearranged_def)
qed

lemma swap_out_client:
  assumes ok: "heap_ok h s" and n: "num_clients h = Suc m" and i: "i < m"
    and sw: "swap (h\<lparr>num_clients := m\<rparr>) s i m = (h', s')" and cl: "cl = clients h ! i"
  shows "removed cl h s h' (s'(cl := (s' cl)\<lparr>timerheap_index := INVAL_TH_IND\<rparr>))" "i < num_clients h'"
proof -
  obtain h0 where h0: "swap h s i m = (h0, s')" and h': "h' = h0\<lparr>num_clients := m\<rparr>"
    using sw by (auto simp: swap_num_clients split: prod.splits)
  have im: "i < num_clients h" "m < num_clients h" "i \<noteq> m" using i n by simp_all
  note sr = swap_rearranged [OF ok im h0]
  have ok0: "heap_ok h0 s'" and n0: "num_clients h0 = Suc m" and mem: "heap_members h0 = heap_members h"
    and re: "reindexed (heap_members h) s s'"
    using sr(1) n by (simp_all add: rearranged_def)
  have len: "m < length (clients h)" using ok n by (simp add: heap_ok_def)
  then have c0: "cl = clients h0 ! m" unfolding sr(2) by (simp add: cl)
  note dr = drop_last_client [OF ok0 n0 c0 h' refl]
  show "removed cl h s h' (s'(cl := (s' cl)\<lparr>timerheap_index := INVAL_TH_IND\<rparr>))"
    using dr mem reindexed_trans [OF re, of "s'(cl := (s' cl)\<lparr>timerheap_index := INVAL_TH_IND\<rparr>)"]
    by (simp add: removed_def n h')
  show "i < num_clients h'" using i by (simp add: h')
qed

lemma remove_lemma:
  assumes ok: "heap_ok h s" and cl: "cl \<in> heap_members h"
  shows "\<exists>h' s'. cl_timerheap_remove h s cl = Some (h', s') \<and> removed cl h s h' s'"
proof -
  from ok cl obtain i where i: "i < num_clients h" "cl = clients h ! i" by (auto simp: heap_members_conv)
  then obtain m where n: "num_clients h = Suc m" by (cases "num_clients h") auto
  have n31: "num_clients h \<le> 2 ^ 31" using ok by (auto simp: heap_ok_def)
  have idx: "timerheap_index (s cl) = int i" using ok i by (simp add: heap_ok_def)
  have cl0: "cl \<noteq> 0" "num_slots h \<noteq> 0" using ok cl by (metis heap_ok_def, simp add: heap_ok_def)
  have ind: "nat (timerheap_index (s cl) mod 2 ^ 32) = i" using idx i n31 by simp
  show ?thesis
  proof (cases "i = m")
    case True
    note dr = drop_last_client [OF ok n i(2) [unfolded True] refl refl]
    then show ?thesis
      using cl0 n idx ind True by (simp add: cl_timerheap_remove_def Let_def removed_def)
  next
    case False
    then have im: "i < m" using i n by simp
    obtain h1 s1 where sw: "swap (h\<lparr>num_clients := m\<rparr>) s i m = (h1, s1)" by fastforce
    define s2 where "s2 = s1(cl := (s1 cl)\<lparr>timerheap_index := INVAL_TH_IND\<rparr>)"
    note so = swap_out_client [OF ok n im sw i(2), folded s2_def]
    have ok1: "heap_ok h1 s2" using so(1) by (simp add: removed_def)
    define r where "r = (if i = 0 then cl_timerheap_heapify_down h1 s2 i
      else if heap_MIN_eq h1 s2 i ((i - 1) div 2) i then cl_timerheap_heapify_up h1 s2 i
      else cl_timerheap_heapify_down h1 s2 i)"
    obtain h3 s3 where r3: "r = (h3, s3)" by fastforce
    have "rearranged h1 s2 h3 s3"
      using heapify_up_rearranged [OF ok1 so(2)] heapify_down_rearranged [OF ok1 so(2)] r3
      by (auto simp: r_def split: if_splits)
    then have "removed cl h s h3 s3" using so(1) by (blast intro: removed_rearranged)
    moreover have "cl_timerheap_remove h s cl = Some r"
      unfolding cl_timerheap_remove_def ind using cl0 n idx im sw
      by (simp add: Let_def s2_def [symmetric]) (auto simp: r_def)
    ultimately show ?thesis using r3 by simp
  qed
qed

lemma pop_lemma:
  assumes ok: "heap_ok h s" and "0 < num_clients h"
  shows "\<exists>h' s'. cl_timerheap_pop h s = Some (clients h ! 0, h', s') \<and> removed (clients h ! 0) h s h' s'"
proof -
  from assms(2) obtain m where n: "num_clients h = Suc m" by (cases "num_clients h") auto
  have ns: "num_slots h \<noteq> 0" using ok by (simp add: heap_ok_def)
  show ?thesis
  proof (cases "m = 0")
    case True
    note dr = drop_last_client [OF ok n refl refl refl]
    then show ?thesis using ns n True by (simp add: cl_timerheap_pop_def Let_def removed_def)
  next
    case False
    obtain h1 s1 where sw: "swap (h\<lparr>num_clients := m\<rparr>) s 0 m = (h1, s1)" by fastforce
    define s2 where "s2 = s1(clients h ! 0 := (s1 (clients h ! 0))\<lparr>timerheap_index := INVAL_TH_IND\<rparr>)"
    have so: "removed (clients h ! 0) h s h1 s2" "0 < num_clients h1"
      using swap_out_client [OF ok n _ sw refl] False by (simp_all add: s2_def)
    have ok1: "heap_ok h1 s2" using so(1) by (simp add: removed_def)
    obtain h3 s3 where r3: "cl_timerheap_heapify_down h1 s2 0 = (h3, s3)" by fastforce
    have "rearranged h1 s2 h3 s3" using heapify_down_rearranged [OF ok1 so(2)] r3 by simp
    then have "removed (clients h ! 0) h s h3 s3" using so(1) by (blast intro: removed_rearranged)
    moreover have "cl_timerheap_pop h s = Some (clients h ! 0, h3, s3)"
      using ns n False sw r3 by (simp add: cl_timerheap_pop_def Let_def s2_def)
    ultimately show ?thesis by blast
  qed
qed

lemma heap_ok_cong:
  assumes "heap_ok h s" and "\<And>c. c \<in> heap_members h \<Longrightarrow> timerheap_index (s' c) = timerheap_index (s c)"
  shows "heap_ok h s'"
  using assms heap_nth_member [OF assms(1)] by (simp add: heap_ok_def)

lemma heap_ok_other: "heap_ok h s \<Longrightarrow> c \<notin> heap_members h \<Longrightarrow> (\<And>x. x \<noteq> c \<Longrightarrow> s' x = s x) \<Longrightarrow> heap_ok h s'"
  by (erule heap_ok_cong) metis

lemma heap_remove_outside:
  assumes "heap_ok h s" and "c \<noteq> 0" and "timerheap_index (s c) = INVAL_TH_IND"
  shows "cl_timerheap_remove h s c = Some (h, s)"
  using assms by (simp add: cl_timerheap_remove_def heap_ok_def)

lemma heap_members_bound:
  assumes "heap_ok h s" and "heap_members h \<subseteq> set xs"
  shows "num_clients h \<le> length xs"
proof -
  have "num_clients h = card (heap_members h)"
    using assms(1) by (simp add: heap_ok_def heap_members_def distinct_card)
  also have "\<dots> \<le> card (set xs)" by (rule card_mono [OF finite_set assms(2)])
  also have "\<dots> \<le> length xs" by (rule card_length)
  finally show ?thesis .
qed

text \<open>C39. Removal, by the owner or by popping the root: it removes exactly the one client, marks it as being in no
  heap, and leaves a well-formed heap in which every other client knows its position; no other field
  of any client changes. (The order of deadlines is not part of this: see \<open>pop_breaks_order\<close>.)\<close>

theorem cl_timerheap_removal_correct:
  assumes ok: "heap_ok h s"
  shows "(cl \<in> heap_members h \<longrightarrow>
      (\<exists>h' s'. cl_timerheap_remove h s cl = Some (h', s') \<and> removed cl h s h' s')) \<and>
    (0 < num_clients h \<longrightarrow>
      (\<exists>h' s'. cl_timerheap_pop h s = Some (clients h ! 0, h', s') \<and> removed (clients h ! 0) h s h' s'))"
  using remove_lemma [OF ok] pop_lemma [OF ok] by blast

theorem cl_timerheap_removal_correct_witness:
  "\<exists>h' s'. cl_timerheap_remove example_heap example_store 5 = Some (h', s') \<and> heap_members h' = {}"
  using cl_timerheap_removal_correct [OF example_heap_ok(1), of 5] by (auto simp: removed_def example_heap_ok(3))

subsection \<open>The order does not survive a removal\<close>

text \<open>Because of the missing parentheses, below the root the sift-down exchanges a client with its
  earlier child or its later child alike: from index 1 on, \<open>heap_MIN_eq\<close> is also true when the
  client at the index is strictly earlier. The moved client therefore sinks past clients with later
  deadlines.\<close>

lemma heap_MIN_eq_down:
  assumes "0 < i" and "c \<noteq> i"
  shows "heap_MIN_eq h s i c c \<longleftrightarrow>
    tv_sec (dl h s i) \<noteq> tv_sec (dl h s c) \<or> tv_nsec (dl h s c) \<le> tv_nsec (dl h s i)"
  using assms by (auto simp: heap_MIN_eq_def)

definition sunk_heap :: cl_timerheap where
  "sunk_heap = \<lparr>clients = [1, 2, 3, 5, 6, 7, 4, 0], num_clients = 7, num_slots = 8\<rparr>"

definition sunk_store :: "addr \<Rightarrow> client" where
  "sunk_store a = heap_client (if a = 4 then 6 else if a < 4 then int a - 1 else int a - 2) (int a)"

fun pops :: "nat \<Rightarrow> cl_timerheap \<times> (addr \<Rightarrow> 'a client_scheme) \<Rightarrow> (cl_timerheap \<times> (addr \<Rightarrow> 'a client_scheme)) option" where
  "pops 0 hs = Some hs"
| "pops (Suc k) (h, s) = (case cl_timerheap_pop h s of None \<Rightarrow> None | Some (_, h, s) \<Rightarrow> pops k (h, s))"

text \<open>Popping breaks the order of a well-formed, ordered heap: of seven clients whose deadlines are the seconds
  1 to 7, after three pops the root is the client due at 5 while the one due at 4 is still in the heap,
  so that its timeout is noticed late.\<close>

lemma pop_breaks_order:
  "heap_ok sunk_heap sunk_store \<and> heap_ordered sunk_heap sunk_store \<and>
   (\<exists>h s. pops 3 (sunk_heap, sunk_store) = Some (h, s) \<and> cl_timerheap_peek h = Some 5 \<and>
     4 \<in> heap_members h \<and> tv_sec (auth_deadline (s 5)) = 5 \<and> tv_sec (auth_deadline (s 4)) = 4)"
proof (intro conjI)
  have i7: "i < 7 \<longleftrightarrow> i \<in> {0, 1, 2, 3, 4, 5, 6}" for i :: nat by auto
  have "\<exists>k. (8::nat) = 2 ^ k" by (rule exI [of _ 3]) simp
  moreover have "\<forall>i<7. timerheap_index (sunk_store (clients sunk_heap ! i)) = int i"
    unfolding i7 by (simp add: sunk_heap_def sunk_store_def heap_client_def)
  ultimately show "heap_ok sunk_heap sunk_store"
    by (simp add: heap_ok_def heap_members_def) (simp add: sunk_heap_def)
  have "dl sunk_heap sunk_store ((j - 1) div 2) \<le> dl sunk_heap sunk_store j" if "0 < j" "j < 7" for j
    using that unfolding i7
    by (auto simp: dl_def sunk_heap_def sunk_store_def heap_client_def less_eq_timespec_def)
  then show "heap_ordered sunk_heap sunk_store"
    by (auto simp: heap_ordered_def) (simp add: sunk_heap_def)
  show "\<exists>h s. pops 3 (sunk_heap, sunk_store) = Some (h, s) \<and> cl_timerheap_peek h = Some 5 \<and>
     4 \<in> heap_members h \<and> tv_sec (auth_deadline (s 5)) = 5 \<and> tv_sec (auth_deadline (s 4)) = 4"
    by (simp add: numeral_3_eq_3 sunk_heap_def sunk_store_def heap_client_def cl_timerheap_pop_def swap_def Let_def
      cl_timerheap_heapify_down.simps heap_MIN_eq_def heap_MIN_def dl_def cl_timerheap_peek_def heap_members_def)
qed

end
