(* ===== verification/Htable.thy ===== *)
theory Htable
  imports Prelude
begin

text \<open>
  The striped hash table of \<open>server/htable.c\<close>, with the intrusive lists and node arrays of the same
  file. A node lives in a store at an address; a bucket is the list of the addresses its chain links
  together, in chain order. A key is the list of its \<open>key_size\<close> bytes. The outer \<open>None\<close> of an
  operation is a failed assertion (or, for a bucket, an access outside the bucket array); NULL
  results are \<open>None\<close> inside it.

  Every operation returns the locks it takes and releases, in order, as a trace, so that the locking
  discipline is a theorem. Operations on one bucket exclude each other by the bucket's lock and a
  resize excludes everything else, so each operation is one atomic step of the model. What the locks
  answer, and whether reallocation succeeds, are arguments.
\<close>

subsection \<open>Nodes\<close>

type_synonym hkey = "byte list"

record node =
  key :: hkey
  ref_cnt :: u32
  freed :: bool

text \<open>\<open>free_fn\<close> gives the node's memory back; here it marks the node.\<close>

definition node_get :: "(addr \<Rightarrow> 'a node_scheme) \<Rightarrow> addr \<Rightarrow> addr \<Rightarrow> 'a node_scheme" where
  "node_get s n = s(n := (s n)\<lparr>ref_cnt := ref_cnt (s n) + 1\<rparr>)"

definition node_put :: "(addr \<Rightarrow> 'a node_scheme) \<Rightarrow> addr \<Rightarrow> addr \<Rightarrow> 'a node_scheme" where
  "node_put s n =
     (let refcnt = ref_cnt (s n) - 1;
          s = s(n := (s n)\<lparr>ref_cnt := refcnt\<rparr>)
      in if refcnt = 0 then s(n := (s n)\<lparr>freed := True\<rparr>) else s)"

subsection \<open>Locks\<close>

datatype lock = Resize_lock | Stripe nat
datatype lock_event = Rd lock | Wr lock | Unlock lock

record lock_env =
  rd_fails :: "lock \<Rightarrow> bool"
  wr_fails :: "lock \<Rightarrow> bool"
  try_wr :: bool

text \<open>The locks held after a trace; \<open>None\<close> when a lock is released that is not held.\<close>

fun held :: "lock_event list \<Rightarrow> lock list \<Rightarrow> lock list option" where
  "held [] ls = Some ls"
| "held (Rd l # tr) ls = held tr (l # ls)"
| "held (Wr l # tr) ls = held tr (l # ls)"
| "held (Unlock l # tr) ls = (if l \<in> set ls then held tr (remove1 l ls) else None)"

lemma held_append: "held (tr1 @ tr2) ls = Option.bind (held tr1 ls) (held tr2)"
  by (induction tr1 ls rule: held.induct) simp_all

subsection \<open>The table\<close>

record htable =
  buckets :: "addr list list"
  cmpfn :: "hkey \<Rightarrow> hkey \<Rightarrow> int"
  bucket_count :: nat
  element_count :: nat
  resize_thres_elem_count :: nat
  lock_count :: nat
  buckets_per_lock_pow2 :: nat
  threshold_load_factor :: nat
  htable_pow2_resize_factor :: nat

definition C_THRES_ELEM :: "nat \<Rightarrow> nat \<Rightarrow> nat" where
  "C_THRES_ELEM thres_factor bucket_cnt = (bucket_cnt * thres_factor) mod 2 ^ 64 div 100"

definition fnv1a_32_hash :: "hkey \<Rightarrow> u32 option" where
  "fnv1a_32_hash input =
     (if input = [] then None
      else Some (foldl (\<lambda>hash b. (hash XOR ucast b) * 0x01000193) 0x811C9DC5 input))"

text \<open>\<open>hash & (bucket_count - 1)\<close>, in 64 bits.\<close>

definition bucket_of :: "nat \<Rightarrow> u32 \<Rightarrow> nat" where
  "bucket_of count h = unat (ucast h AND (of_nat count - 1 :: u64))"

definition bucket_index :: "nat \<Rightarrow> hkey \<Rightarrow> nat option" where
  "bucket_index count k = map_option (bucket_of count) (fnv1a_32_hash k)"

definition htable_create :: "nat \<Rightarrow> nat \<Rightarrow> nat \<Rightarrow> nat \<Rightarrow> (hkey \<Rightarrow> hkey \<Rightarrow> int) \<Rightarrow> bool \<Rightarrow> htable option option" where
  "htable_create size_factor resize_factor thres_load_factor per_lock_pow2 cmp init_ok =
     (if thres_load_factor \<noteq> 0 \<and> per_lock_pow2 \<le> size_factor \<and> resize_factor \<noteq> 0 \<and>
         resize_factor < 64 \<and> size_factor < 64
      then let count = 2 ^ size_factor mod 2 ^ 64;
               locks = count div 2 ^ per_lock_pow2;
               locks = if locks \<noteq> 0 then locks else 1
           in Some (if init_ok then Some
             \<lparr>buckets = replicate count [], cmpfn = cmp, bucket_count = count, element_count = 0,
              resize_thres_elem_count = C_THRES_ELEM thres_load_factor count, lock_count = locks,
              buckets_per_lock_pow2 = per_lock_pow2, threshold_load_factor = thres_load_factor,
              htable_pow2_resize_factor = resize_factor\<rparr> else None)
      else None)"

subsection \<open>Resizing\<close>

text \<open>The loop that computes the new bucket count: \<open>None\<close> if it does not end, \<open>Some None\<close> on overflow.
  Its state is the bucket count, the threshold and the number of rounds.\<close>

partial_function (option) resize_grow :: "nat \<Rightarrow> htable \<Rightarrow> nat \<Rightarrow> (htable \<times> nat option) option" where
  "resize_grow old_count ht rounds =
     (if element_count ht \<ge> resize_thres_elem_count ht
      then let count = (bucket_count ht * 2 ^ htable_pow2_resize_factor ht) mod 2 ^ 64 in
        if count < old_count then Some (ht\<lparr>bucket_count := old_count\<rparr>, None)
        else resize_grow old_count
          (ht\<lparr>bucket_count := count, resize_thres_elem_count := C_THRES_ELEM (threshold_load_factor ht) count\<rparr>)
          (Suc rounds mod 256)
      else Some (ht, Some rounds))"

text \<open>Insertion of a node into the chain of another bucket, which is known not to hold its key.\<close>

fun chain_reinsert :: "(addr \<Rightarrow> hkey) \<Rightarrow> (hkey \<Rightarrow> hkey \<Rightarrow> int) \<Rightarrow> addr \<Rightarrow> addr list \<Rightarrow> addr list" where
  "chain_reinsert ky cmp src [] = [src]"
| "chain_reinsert ky cmp src (dest # dests) =
     (if cmp (ky src) (ky dest) < 0 then src # dest # dests
      else if dests = [] then [dest, src]
      else dest # chain_reinsert ky cmp src dests)"

text \<open>The walk along one source chain; \<open>kept\<close> are the nodes before \<open>src\<close>, which stay.\<close>

fun rehash_chain :: "(addr \<Rightarrow> hkey) \<Rightarrow> htable \<Rightarrow> nat \<Rightarrow> addr list \<Rightarrow> addr list \<Rightarrow> addr list list \<Rightarrow> addr list list option" where
  "rehash_chain ky ht i kept [] bs = Some bs"
| "rehash_chain ky ht i kept (src # rest) bs =
     (case bucket_index (bucket_count ht) (ky src) of
        None \<Rightarrow> None
      | Some d \<Rightarrow>
          if i = d then rehash_chain ky ht i (kept @ [src]) rest bs
          else if d < length bs
          then rehash_chain ky ht i kept rest
            (let bs = bs[i := kept @ rest] in bs[d := chain_reinsert ky (cmpfn ht) src (bs ! d)])
          else None)"

fun rehash_from :: "(addr \<Rightarrow> hkey) \<Rightarrow> htable \<Rightarrow> nat list \<Rightarrow> addr list list \<Rightarrow> addr list list option" where
  "rehash_from ky ht [] bs = Some bs"
| "rehash_from ky ht (i # is) bs =
     (case rehash_chain ky ht i [] (bs ! i) bs of None \<Rightarrow> None | Some bs \<Rightarrow> rehash_from ky ht is bs)"

text \<open>What \<open>realloc\<close> and \<open>pthread_rwlock_init\<close> answer: growing the buckets, growing the locks,
  initialising the new locks, and shrinking locks and buckets again on failure. If the locks cannot be
  shrunk the code aborts (\<open>None\<close>).\<close>

record resize_env =
  grow_buckets_ok :: bool
  grow_locks_ok :: bool
  init_locks_ok :: bool
  shrink_locks_ok :: bool
  shrink_buckets_ok :: bool

definition htable_resize :: "resize_env \<Rightarrow> (addr \<Rightarrow> 'a node_scheme) \<Rightarrow> htable \<Rightarrow> htable option" where
  "htable_resize env s ht =
     (let old_count = bucket_count ht; old_lock_count = lock_count ht;
          restore = (\<lambda>ht. ht\<lparr>bucket_count := old_count,
            resize_thres_elem_count := C_THRES_ELEM (threshold_load_factor ht) old_count\<rparr>)
      in case resize_grow old_count ht 0 of
        None \<Rightarrow> None
      | Some (ht, None) \<Rightarrow> Some ht
      | Some (ht, Some rounds) \<Rightarrow>
          if rounds = 0 then Some ht
          else if \<not> grow_buckets_ok env then Some (restore ht)
          else if grow_locks_ok env \<and> \<not> init_locks_ok env \<and> \<not> shrink_locks_ok env then None
          else if \<not> grow_locks_ok env \<or> \<not> init_locks_ok env
          then if shrink_buckets_ok env then Some (restore ht) else Some ht
          else let ht = ht\<lparr>lock_count := bucket_count ht div 2 ^ buckets_per_lock_pow2 ht\<rparr> in
            map_option (\<lambda>bs. ht\<lparr>buckets := bs\<rparr>)
              (rehash_from (\<lambda>n. key (s n)) ht [0..<old_count]
                 (buckets ht @ replicate (bucket_count ht - old_count) [])))"

subsection \<open>Adding\<close>

text \<open>The walk along the chain: the chain afterwards and whether the element was linked in.\<close>

fun chain_insert :: "(addr \<Rightarrow> hkey) \<Rightarrow> (hkey \<Rightarrow> hkey \<Rightarrow> int) \<Rightarrow> addr \<Rightarrow> addr list \<Rightarrow> addr list \<times> bool" where
  "chain_insert ky cmp element [] = ([element], True)"
| "chain_insert ky cmp element (c # cs) =
     (let comp_res = cmp (ky element) (ky c) in
      if comp_res = 0 then (c # cs, False)
      else if comp_res < 0 then (element # c # cs, True)
      else case chain_insert ky cmp element cs of (cs, result) \<Rightarrow> (c # cs, result))"

definition htable_add :: "lock_env \<Rightarrow> resize_env \<Rightarrow> (addr \<Rightarrow> 'a node_scheme) \<Rightarrow> htable \<Rightarrow> addr \<Rightarrow>
    (bool \<times> htable \<times> lock_event list) option" where
  "htable_add lenv renv s ht element =
     (let full = element_count ht \<ge> resize_thres_elem_count ht \<and> try_wr lenv;
          tr = if full then [Wr Resize_lock, Unlock Resize_lock] else []
      in case (if full then htable_resize renv s ht else Some ht) of
        None \<Rightarrow> None
      | Some ht \<Rightarrow>
          if rd_fails lenv Resize_lock then Some (False, ht, tr)
          else (case bucket_index (bucket_count ht) (key (s element)) of
            None \<Rightarrow> None
          | Some i \<Rightarrow>
              let l = Stripe (i div 2 ^ buckets_per_lock_pow2 ht) in
              if wr_fails lenv l then Some (False, ht, tr @ [Rd Resize_lock, Unlock Resize_lock])
              else if i < length (buckets ht)
              then case chain_insert (\<lambda>n. key (s n)) (cmpfn ht) element (buckets ht ! i) of
                (chain, result) \<Rightarrow>
                  Some (result, ht\<lparr>buckets := (buckets ht)[i := chain],
                                   element_count := element_count ht + (if result then 1 else 0)\<rparr>,
                        tr @ [Rd Resize_lock, Wr l, Unlock l, Unlock Resize_lock])
              else None))"

subsection \<open>Removing and looking up\<close>

fun chain_remove :: "(addr \<Rightarrow> hkey) \<Rightarrow> (hkey \<Rightarrow> hkey \<Rightarrow> int) \<Rightarrow> hkey \<Rightarrow> addr list \<Rightarrow> addr list \<times> addr option" where
  "chain_remove ky cmp k [] = ([], None)"
| "chain_remove ky cmp k (c # cs) =
     (if cmp k (ky c) = 0 then (cs, Some c)
      else case chain_remove ky cmp k cs of (cs, found) \<Rightarrow> (c # cs, found))"

definition htable_remove :: "lock_env \<Rightarrow> (addr \<Rightarrow> 'a node_scheme) \<Rightarrow> htable \<Rightarrow> hkey \<Rightarrow>
    (htable \<times> (addr \<Rightarrow> 'a node_scheme) \<times> lock_event list) option" where
  "htable_remove lenv s ht k =
     (if k = [] then None
      else if rd_fails lenv Resize_lock then Some (ht, s, [])
      else case bucket_index (bucket_count ht) k of
        None \<Rightarrow> None
      | Some i \<Rightarrow>
          let l = Stripe (i div 2 ^ buckets_per_lock_pow2 ht) in
          if wr_fails lenv l then Some (ht, s, [Rd Resize_lock, Unlock Resize_lock])
          else if i < length (buckets ht)
          then case chain_remove (\<lambda>n. key (s n)) (cmpfn ht) k (buckets ht ! i) of
            (chain, found) \<Rightarrow>
              let tr = [Rd Resize_lock, Wr l, Unlock l, Unlock Resize_lock] in
              (case found of
                None \<Rightarrow> Some (ht, s, tr)
              | Some n \<Rightarrow> Some (ht\<lparr>buckets := (buckets ht)[i := chain], element_count := element_count ht - 1\<rparr>,
                                node_put s n, tr))
          else None)"

definition htable_get :: "lock_env \<Rightarrow> (addr \<Rightarrow> 'a node_scheme) \<Rightarrow> htable \<Rightarrow> hkey \<Rightarrow> bool \<Rightarrow>
    (addr option \<times> (addr \<Rightarrow> 'a node_scheme) \<times> lock_event list) option" where
  "htable_get lenv s ht k ref_inc =
     (if k = [] then None
      else if rd_fails lenv Resize_lock then Some (None, s, [])
      else case bucket_index (bucket_count ht) k of
        None \<Rightarrow> None
      | Some i \<Rightarrow>
          let l = Stripe (i div 2 ^ buckets_per_lock_pow2 ht) in
          if rd_fails lenv l then Some (None, s, [Rd Resize_lock, Unlock Resize_lock])
          else if i < length (buckets ht)
          then let target = List.find (\<lambda>n. cmpfn ht k (key (s n)) = 0) (buckets ht ! i) in
            Some (target,
                  (case target of None \<Rightarrow> s | Some n \<Rightarrow> if ref_inc then node_get s n else s),
                  [Rd Resize_lock, Rd l, Unlock l, Unlock Resize_lock])
          else None)"

text \<open>The condition is given the address of the node: the code's predicates look at the object that the
  node is a member of.\<close>

definition htable_get_cond :: "lock_env \<Rightarrow> (addr \<Rightarrow> 'a node_scheme) \<Rightarrow> htable \<Rightarrow> hkey \<Rightarrow> (addr \<Rightarrow> bool) \<Rightarrow>
    (addr option \<times> (addr \<Rightarrow> 'a node_scheme) \<times> lock_event list) option" where
  "htable_get_cond lenv s ht k cond_fn =
     (if k = [] \<or> hd k = 0 then Some (None, s, [])
      else case htable_get lenv s ht k True of
        None \<Rightarrow> None
      | Some (None, s, tr) \<Rightarrow> Some (None, s, tr)
      | Some (Some n, s, tr) \<Rightarrow> if cond_fn n then Some (Some n, s, tr) else Some (None, node_put s n, tr))"

definition htable_get_elem_cnt :: "htable \<Rightarrow> nat" where
  "htable_get_elem_cnt ht = element_count ht"

text \<open>The load factor is a quotient of doubles in the code; here it is its numerator and denominator.\<close>

definition htable_get_ldfactor :: "htable \<Rightarrow> (nat \<times> nat) option" where
  "htable_get_ldfactor ht = (if bucket_count ht = 0 then None else Some (element_count ht, bucket_count ht))"

subsection \<open>Copying all keys\<close>

datatype copy_result = BUF_TOOSMALL | KEY_SKIP | Copied "byte list"

partial_function (option) copy_grow :: "(nat \<Rightarrow> copy_result) \<Rightarrow> nat \<Rightarrow> nat \<Rightarrow> (copy_result \<times> nat) option" where
  "copy_grow copy_fn buf_size buf_offset =
     (case copy_fn (buf_size - buf_offset) of
        BUF_TOOSMALL \<Rightarrow> copy_grow copy_fn (2 * buf_size) buf_offset
      | r \<Rightarrow> Some (r, buf_size))"

text \<open>\<open>out\<close> is what the buffer holds, \<open>buf_offset\<close> bytes of it.\<close>

fun copy_chain :: "(addr \<Rightarrow> nat \<Rightarrow> copy_result) \<Rightarrow> addr list \<Rightarrow> byte list \<times> nat \<Rightarrow> (byte list \<times> nat) option" where
  "copy_chain copy_fn [] st = Some st"
| "copy_chain copy_fn (n # ns) (out, buf_size) =
     (case copy_grow (copy_fn n) buf_size (length out) of
        None \<Rightarrow> None
      | Some (Copied bs, buf_size) \<Rightarrow> copy_chain copy_fn ns (out @ bs, buf_size)
      | Some (_, buf_size) \<Rightarrow> copy_chain copy_fn ns (out, buf_size))"

fun copy_buckets :: "(addr \<Rightarrow> nat \<Rightarrow> copy_result) \<Rightarrow> htable \<Rightarrow> nat list \<Rightarrow> byte list \<times> nat \<Rightarrow> (byte list \<times> nat) option" where
  "copy_buckets copy_fn ht [] st = Some st"
| "copy_buckets copy_fn ht (j # js) st =
     (if j < length (buckets ht)
      then case copy_chain copy_fn (buckets ht ! j) st of
        None \<Rightarrow> None | Some st \<Rightarrow> copy_buckets copy_fn ht js st
      else None)"

fun copy_stripes :: "(addr \<Rightarrow> nat \<Rightarrow> copy_result) \<Rightarrow> htable \<Rightarrow> nat list \<Rightarrow> byte list \<times> nat \<Rightarrow> (byte list \<times> nat \<times> lock_event list) option" where
  "copy_stripes copy_fn ht [] (out, sz) = Some (out, sz, [])"
| "copy_stripes copy_fn ht (i # is) st =
     (case copy_buckets copy_fn ht [i * 2 ^ buckets_per_lock_pow2 ht ..< (i + 1) * 2 ^ buckets_per_lock_pow2 ht] st of
        None \<Rightarrow> None
      | Some st \<Rightarrow> (case copy_stripes copy_fn ht is st of
          None \<Rightarrow> None
        | Some (out, sz, tr) \<Rightarrow> Some (out, sz, Rd (Stripe i) # Unlock (Stripe i) # tr)))"

definition htable_copy_all_keys :: "(addr \<Rightarrow> nat \<Rightarrow> copy_result) \<Rightarrow> htable \<Rightarrow> (byte list \<times> lock_event list) option" where
  "htable_copy_all_keys copy_fn ht =
     (if bucket_count ht = 0 \<or> element_count ht = 0 then Some ([], [Rd Resize_lock, Unlock Resize_lock])
      else case copy_stripes copy_fn ht [0..<lock_count ht] ([], 1024) of
        None \<Rightarrow> None
      | Some (out, _, tr) \<Rightarrow> Some (out, Rd Resize_lock # tr @ [Unlock Resize_lock]))"

subsection \<open>Deleting the table, lists and arrays of nodes\<close>

definition htable_delete :: "(addr \<Rightarrow> 'a node_scheme) \<Rightarrow> htable \<Rightarrow> addr \<Rightarrow> 'a node_scheme" where
  "htable_delete s ht = foldl (\<lambda>s n. s(n := (s n)\<lparr>freed := True\<rparr>)) s (concat (take (bucket_count ht) (buckets ht)))"

definition intrusive_list_create :: "addr list" where
  "intrusive_list_create = []"

definition intrusive_list_add :: "addr list \<Rightarrow> addr \<Rightarrow> addr list" where
  "intrusive_list_add list nd = (if list = [] then [nd] else nd # list)"

fun intrusive_list_remove :: "addr list \<Rightarrow> addr \<Rightarrow> addr list" where
  "intrusive_list_remove [] nd = []"
| "intrusive_list_remove (c # cs) nd = (if nd = c then cs else c # intrusive_list_remove cs nd)"

record node_arr =
  nodes :: "addr list"
  arr_size :: nat

abbreviation (input) DEF_STDCL_DCONARR_SIZE :: nat where "DEF_STDCL_DCONARR_SIZE \<equiv> 256"

definition node_arr_add :: "node_arr \<Rightarrow> addr \<Rightarrow> node_arr" where
  "node_arr_add a nd =
     (if length (nodes a) = arr_size a then \<lparr>nodes = nodes a @ [nd], arr_size = (2 * arr_size a) mod 2 ^ 32\<rparr>
      else a\<lparr>nodes := nodes a @ [nd]\<rparr>)"

fun remove_all :: "lock_env \<Rightarrow> (addr \<Rightarrow> 'a node_scheme) \<Rightarrow> htable \<Rightarrow> addr list \<Rightarrow> (htable \<times> (addr \<Rightarrow> 'a node_scheme)) option" where
  "remove_all lenv s ht [] = Some (ht, s)"
| "remove_all lenv s ht (n # ns) =
     (case htable_remove lenv s ht (key (s n)) of None \<Rightarrow> None | Some (ht, s, _) \<Rightarrow> remove_all lenv s ht ns)"

definition node_arr_sweep :: "lock_env \<Rightarrow> (addr \<Rightarrow> 'a node_scheme) \<Rightarrow> htable \<Rightarrow> node_arr \<Rightarrow>
    (htable \<times> (addr \<Rightarrow> 'a node_scheme) \<times> node_arr) option" where
  "node_arr_sweep lenv s ht a =
     (case remove_all lenv s ht (nodes a) of
        None \<Rightarrow> None
      | Some (ht, s) \<Rightarrow> Some (ht, s, \<lparr>nodes = [], arr_size = DEF_STDCL_DCONARR_SIZE\<rparr>))"

subsection \<open>What a comparison function promises\<close>

locale key_order =
  fixes cmp :: "hkey \<Rightarrow> hkey \<Rightarrow> int" and valid :: "hkey \<Rightarrow> bool"
  assumes cmp_eq: "valid a \<Longrightarrow> valid b \<Longrightarrow> cmp a b = 0 \<longleftrightarrow> a = b"
    and cmp_antisym: "valid a \<Longrightarrow> valid b \<Longrightarrow> cmp a b < 0 \<longleftrightarrow> 0 < cmp b a"
    and cmp_trans: "valid a \<Longrightarrow> valid b \<Longrightarrow> valid c \<Longrightarrow> cmp a b < 0 \<Longrightarrow> cmp b c < 0 \<Longrightarrow> cmp a c < 0"
    and valid_nonempty: "valid a \<Longrightarrow> a \<noteq> []"
begin

text \<open>A chain is strictly ascending in its keys.\<close>

definition chain_ok :: "(addr \<Rightarrow> hkey) \<Rightarrow> addr list \<Rightarrow> bool" where
  "chain_ok ky ch \<longleftrightarrow> (\<forall>n \<in> set ch. valid (ky n)) \<and> sorted_wrt (\<lambda>a b. cmp (ky a) (ky b) < 0) ch"

lemma chain_ok_Nil [simp]: "chain_ok ky []"
  by (simp add: chain_ok_def)

lemma chain_ok_Cons:
  "chain_ok ky (c # cs) \<longleftrightarrow> valid (ky c) \<and> (\<forall>n \<in> set cs. cmp (ky c) (ky n) < 0) \<and> chain_ok ky cs"
  by (auto simp: chain_ok_def)

lemma chain_ok_inj: "chain_ok ky ch \<Longrightarrow> distinct ch \<and> inj_on ky (set ch)"
proof (induction ch)
  case (Cons c cs)
  then have "\<forall>n \<in> set cs. ky n \<noteq> ky c"
    using cmp_eq by (fastforce simp: chain_ok_Cons chain_ok_def)
  then show ?case using Cons by (auto simp: chain_ok_Cons)
qed simp

lemma chain_ok_sublist: "chain_ok ky (xs @ y # zs) \<Longrightarrow> chain_ok ky (xs @ zs)"
  by (auto simp: chain_ok_def sorted_wrt_append)

lemma find_cmp:
  assumes "chain_ok ky ch" and "valid k"
  shows "List.find (\<lambda>n. cmp k (ky n) = 0) ch = List.find (\<lambda>n. ky n = k) ch"
  using assms by (intro find_cong) (auto simp: chain_ok_def cmp_eq)

lemma chain_insert_correct:
  assumes "chain_ok ky ch" and "valid (ky el)"
  shows "case chain_insert ky cmp el ch of (ch', result) \<Rightarrow>
    if ky el \<in> ky ` set ch then ch' = ch \<and> \<not> result
    else result \<and> chain_ok ky ch' \<and> set ch' = insert el (set ch) \<and> length ch' = Suc (length ch)"
  using assms
proof (induction ch)
  case Nil
  then show ?case by (simp add: chain_ok_def)
next
  case (Cons c cs)
  have c: "valid (ky c)" "\<forall>n \<in> set cs. cmp (ky c) (ky n) < 0" "chain_ok ky cs"
    using Cons.prems(1) by (simp_all add: chain_ok_Cons)
  have v: "valid (ky n)" if "n \<in> set cs" for n using c(3) that by (simp add: chain_ok_def)
  consider (eq) "cmp (ky el) (ky c) = 0" | (less) "cmp (ky el) (ky c) < 0" | (greater) "0 < cmp (ky el) (ky c)"
    by fastforce
  then show ?case
  proof cases
    case eq
    then show ?thesis using cmp_eq [OF Cons.prems(2) c(1)] by simp
  next
    case less
    have lt: "cmp (ky el) (ky n) < 0" if "n \<in> set cs" for n
      using cmp_trans [OF Cons.prems(2) c(1) v [OF that] less] c(2) that by blast
    have "ky el \<noteq> ky n" if "n \<in> set (c # cs)" for n
      using lt less that cmp_eq [OF Cons.prems(2), of "ky n"] v c(1) by fastforce
    then have "ky el \<notin> ky ` set (c # cs)" by blast
    then show ?thesis using less lt c Cons.prems by (simp add: chain_ok_Cons)
  next
    case greater
    then have ne: "ky el \<noteq> ky c" using cmp_eq [OF Cons.prems(2) c(1)] by simp
    have "cmp (ky c) (ky el) < 0" using greater cmp_antisym [OF c(1) Cons.prems(2)] by simp
    then show ?thesis
      using Cons.IH [OF c(3) Cons.prems(2)] greater ne c
      by (auto simp: chain_ok_Cons Let_def split: prod.splits if_splits)
  qed
qed

lemma chain_reinsert_insert:
  assumes "chain_ok ky ch" and "valid (ky el)" and "ky el \<notin> ky ` set ch"
  shows "chain_reinsert ky cmp el ch = fst (chain_insert ky cmp el ch)"
  using assms
proof (induction ch)
  case (Cons c cs)
  then have "cmp (ky el) (ky c) \<noteq> 0" using cmp_eq by (auto simp: chain_ok_Cons)
  then show ?case using Cons by (auto simp: chain_ok_Cons Let_def split: prod.splits)
qed simp

lemma chain_reinsert_correct:
  assumes "chain_ok ky ch" and "valid (ky el)" and "ky el \<notin> ky ` set ch"
  shows "chain_ok ky (chain_reinsert ky cmp el ch)" "set (chain_reinsert ky cmp el ch) = insert el (set ch)"
    "length (chain_reinsert ky cmp el ch) = Suc (length ch)"
  using chain_insert_correct [OF assms(1,2)] assms(3)
  by (auto simp: chain_reinsert_insert [OF assms] split: prod.splits)

lemma chain_remove_correct:
  assumes "chain_ok ky ch" and "valid k"
  shows "case chain_remove ky cmp k ch of (ch', found) \<Rightarrow>
    found = List.find (\<lambda>n. ky n = k) ch \<and> chain_ok ky ch' \<and>
    (case found of None \<Rightarrow> ch' = ch | Some n \<Rightarrow> set ch' = set ch - {n} \<and> length ch = Suc (length ch'))"
  using assms
proof (induction ch)
  case (Cons c cs)
  have c: "valid (ky c)" "\<forall>n \<in> set cs. cmp (ky c) (ky n) < 0" "chain_ok ky cs"
    using Cons.prems(1) by (simp_all add: chain_ok_Cons)
  show ?case
  proof (cases "cmp k (ky c) = 0")
    case True
    then have "ky c = k" using cmp_eq [OF Cons.prems(2) c(1)] by simp
    moreover have "c \<notin> set cs" using chain_ok_inj [OF Cons.prems(1)] by simp
    ultimately show ?thesis using True c by simp
  next
    case False
    then have ne: "ky c \<noteq> k" using cmp_eq [OF Cons.prems(2) c(1)] by simp
    then have nc: "c \<noteq> n" if "List.find (\<lambda>n. ky n = k) cs = Some n" for n
      using that by (auto simp: find_Some_iff)
    obtain cs' found where r: "chain_remove ky cmp k cs = (cs', found)" by fastforce
    then have "set cs' \<subseteq> set cs" using Cons.IH [OF c(3) Cons.prems(2)] by (auto split: option.splits)
    then show ?thesis
      using Cons.IH [OF c(3) Cons.prems(2)] False ne c r nc
      by (auto simp: chain_ok_Cons split: option.splits)
  qed
qed simp

end

subsection \<open>The invariant and the map a table stands for\<close>

lemma bucket_of_mod:
  assumes "k < 64"
  shows "bucket_of (2 ^ k) h = unat h mod 2 ^ k"
proof -
  have "(of_nat (2 ^ k) - 1 :: u64) = mask k" by (simp add: mask_eq_exp_minus_1)
  then have "bucket_of (2 ^ k) h = unat (take_bit k (ucast h :: u64))"
    by (simp add: bucket_of_def take_bit_eq_mask)
  also have "\<dots> = take_bit k (unat (ucast h :: u64))" by (simp add: unsigned_take_bit_eq)
  also have "unat (ucast h :: u64) = unat h" by (simp add: unsigned_ucast_eq take_bit_nat_eq_self_iff)
       (rule less_trans [OF unsigned_less], simp)
  finally show ?thesis by (simp add: take_bit_eq_mod)
qed

definition ht_nodes :: "htable \<Rightarrow> addr set" where
  "ht_nodes ht = set (concat (buckets ht))"

definition ht_map :: "(addr \<Rightarrow> 'a node_scheme) \<Rightarrow> htable \<Rightarrow> hkey \<Rightarrow> addr option" where
  "ht_map s ht k = List.find (\<lambda>n. key (s n) = k) (concat (buckets ht))"

text \<open>The part of the invariant about the sizes, which also holds while a table is being resized.\<close>

definition ht_sizes :: "htable \<Rightarrow> bool" where
  "ht_sizes ht \<longleftrightarrow>
     (\<exists>k < 64. bucket_count ht = 2 ^ k \<and> buckets_per_lock_pow2 ht \<le> k) \<and>
     0 < htable_pow2_resize_factor ht \<and> htable_pow2_resize_factor ht < 64"

definition ht_ok :: "(hkey \<Rightarrow> bool) \<Rightarrow> (addr \<Rightarrow> 'a node_scheme) \<Rightarrow> htable \<Rightarrow> bool" where
  "ht_ok V s ht \<longleftrightarrow>
     ht_sizes ht \<and> lock_count ht * 2 ^ buckets_per_lock_pow2 ht = bucket_count ht \<and>
     length (buckets ht) = bucket_count ht \<and>
     element_count ht = length (concat (buckets ht)) \<and>
     (\<forall>i < bucket_count ht.
        key_order.chain_ok (cmpfn ht) V (\<lambda>n. key (s n)) (buckets ht ! i) \<and>
        (\<forall>n \<in> set (buckets ht ! i). bucket_index (bucket_count ht) (key (s n)) = Some i))"

lemma bucket_index_less:
  assumes "ht_sizes ht" and "bucket_index (bucket_count ht) k = Some i"
  shows "i < bucket_count ht"
  using assms by (auto simp: ht_sizes_def bucket_index_def bucket_of_mod)

lemma bucket_index_Some: "k \<noteq> [] \<Longrightarrow> \<exists>i. bucket_index c k = Some i"
  by (simp add: bucket_index_def fnv1a_32_hash_def)

lemma in_ht_nodes: "n \<in> ht_nodes ht \<longleftrightarrow> (\<exists>i < length (buckets ht). n \<in> set (buckets ht ! i))"
  unfolding ht_nodes_def set_concat by (auto simp: in_set_conv_nth [of _ "buckets ht"] intro: bexI [OF _ nth_mem])

context key_order
begin

lemma ht_ok_bucket:
  assumes "ht_ok valid s ht" and "cmpfn ht = cmp" and "i < bucket_count ht"
  shows "chain_ok (\<lambda>n. key (s n)) (buckets ht ! i)"
    and "n \<in> set (buckets ht ! i) \<Longrightarrow> bucket_index (bucket_count ht) (key (s n)) = Some i \<and> valid (key (s n))"
  using assms by (auto simp: ht_ok_def chain_ok_def)

lemma ht_nodes_inj:
  assumes ok: "ht_ok valid s ht" "cmpfn ht = cmp"
  shows "inj_on (\<lambda>n. key (s n)) (ht_nodes ht)"
proof (rule inj_onI)
  fix a b assume ab: "a \<in> ht_nodes ht" "b \<in> ht_nodes ht" "key (s a) = key (s b)"
  have len: "length (buckets ht) = bucket_count ht" using ok by (simp add: ht_ok_def)
  from ab obtain i j where ij: "i < bucket_count ht" "a \<in> set (buckets ht ! i)" "j < bucket_count ht" "b \<in> set (buckets ht ! j)"
    by (auto simp: in_ht_nodes len)
  then have "Some i = Some j"
    using ht_ok_bucket(2) [OF ok ij(1,2)] ht_ok_bucket(2) [OF ok ij(3,4)] ab(3) by simp
  then have "i = j" by simp
  then show "a = b" using chain_ok_inj [OF ht_ok_bucket(1) [OF ok ij(1)]] ij ab(3) by (auto dest: inj_onD)
qed

lemma ht_map_Some_iff:
  assumes "ht_ok valid s ht" "cmpfn ht = cmp"
  shows "ht_map s ht k = Some n \<longleftrightarrow> n \<in> ht_nodes ht \<and> key (s n) = k"
proof
  assume "ht_map s ht k = Some n"
  then show "n \<in> ht_nodes ht \<and> key (s n) = k" unfolding ht_map_def ht_nodes_def by (rule find_SomeD)
next
  assume n: "n \<in> ht_nodes ht \<and> key (s n) = k"
  then obtain m where m: "ht_map s ht k = Some m"
    by (cases "ht_map s ht k") (auto simp: ht_map_def ht_nodes_def find_None_iff)
  then have "m \<in> ht_nodes ht" "key (s m) = k"
    unfolding ht_map_def ht_nodes_def by (auto dest: find_SomeD)
  then have "m = n" using n ht_nodes_inj [OF assms] by (auto dest: inj_onD)
  then show "ht_map s ht k = Some n" using m by simp
qed

lemma ht_map_None_iff: "ht_map s ht k = None \<longleftrightarrow> (\<forall>n \<in> ht_nodes ht. key (s n) \<noteq> k)"
  by (auto simp: ht_map_def ht_nodes_def find_None_iff)

text \<open>The bucket of a key decides what the map says of it.\<close>

lemma ht_map_bucket:
  assumes ok: "ht_ok valid s ht" "cmpfn ht = cmp" and i: "bucket_index (bucket_count ht) k = Some i"
  shows "ht_map s ht k = List.find (\<lambda>n. key (s n) = k) (buckets ht ! i)"
proof -
  have len: "length (buckets ht) = bucket_count ht" and sz: "ht_sizes ht" using ok by (simp_all add: ht_ok_def)
  have il: "i < bucket_count ht" by (rule bucket_index_less [OF sz i])
  have here: "n \<in> ht_nodes ht \<and> key (s n) = k \<longleftrightarrow> n \<in> set (buckets ht ! i) \<and> key (s n) = k" for n
  proof
    assume n: "n \<in> ht_nodes ht \<and> key (s n) = k"
    then obtain j where j: "j < bucket_count ht" "n \<in> set (buckets ht ! j)" by (auto simp: in_ht_nodes len)
    then show "n \<in> set (buckets ht ! i) \<and> key (s n) = k" using ht_ok_bucket(2) [OF ok j] n i by simp
  qed (use il len in \<open>auto simp: in_ht_nodes\<close>)
  show ?thesis
  proof (cases "List.find (\<lambda>n. key (s n) = k) (buckets ht ! i)")
    case None
    then have "\<forall>n \<in> ht_nodes ht. key (s n) \<noteq> k" using here by (auto simp: find_None_iff)
    then show ?thesis using None by (simp add: ht_map_None_iff)
  next
    case (Some n)
    then have "n \<in> set (buckets ht ! i) \<and> key (s n) = k" by (rule find_SomeD)
    then have "n \<in> ht_nodes ht \<and> key (s n) = k" using here by blast
    then show ?thesis using Some by (simp add: ht_map_Some_iff [OF ok])
  qed
qed

end

subsection \<open>Growing\<close>

lemma resize_grow_correct:
  assumes "ht_sizes ht" and "2 ^ k0 \<le> bucket_count ht" and "k0 < 64" and "bucket_count ht = 2 ^ k" and "k < 64"
    and "r + (63 - k) < 256"
  shows "\<exists>c t res. resize_grow (2 ^ k0) ht r =
      Some (ht\<lparr>bucket_count := c, resize_thres_elem_count := t\<rparr>, res) \<and>
    (case res of None \<Rightarrow> c = 2 ^ k0
     | Some r' \<Rightarrow> \<exists>k'. k \<le> k' \<and> k' < 64 \<and> c = 2 ^ k' \<and> r \<le> r' \<and> (r' = r \<longrightarrow> k' = k) \<and> element_count ht < t)"
  using assms
proof (induction "64 - k" arbitrary: ht k r rule: less_induct)
  case (less k ht r)
  define f where "f = htable_pow2_resize_factor ht"
  have f: "0 < f" "f < 64" using less.prems(1) by (simp_all add: f_def ht_sizes_def)
  have cnt: "bucket_count ht * 2 ^ f = 2 ^ (k + f)" by (simp add: less.prems(4) power_add)
  show ?case
  proof (cases "element_count ht \<ge> resize_thres_elem_count ht")
    case False
    have "resize_grow (2 ^ k0) ht r = Some (ht, Some r)" using False by (subst resize_grow.simps) simp
    moreover have "ht = ht\<lparr>bucket_count := bucket_count ht, resize_thres_elem_count := resize_thres_elem_count ht\<rparr>"
      by simp
    ultimately show ?thesis
      using less.prems(4,5) False
      by (intro exI [of _ "bucket_count ht"] exI [of _ "resize_thres_elem_count ht"] exI [of _ "Some r"]) simp
  next
    case full: True
    show ?thesis
    proof (cases "k + f < 64")
      case False
      then have "(2::nat) ^ 64 dvd 2 ^ (k + f)" by (intro le_imp_power_dvd) simp
      then have "(bucket_count ht * 2 ^ f) mod 2 ^ 64 = 0" unfolding cnt by (rule dvd_imp_mod_0)
      then have "resize_grow (2 ^ k0) ht r = Some (ht\<lparr>bucket_count := 2 ^ k0\<rparr>, None)"
        using full by (subst resize_grow.simps) (simp add: f_def [symmetric] Let_def)
      moreover have "ht\<lparr>bucket_count := 2 ^ k0\<rparr> =
          ht\<lparr>bucket_count := 2 ^ k0, resize_thres_elem_count := resize_thres_elem_count ht\<rparr>" by simp
      ultimately show ?thesis
        by (intro exI [of _ "2 ^ k0"] exI [of _ "resize_thres_elem_count ht"] exI [of _ None]) simp
    next
      case True
      define c where "c = (2::nat) ^ (k + f)"
      have "(2::nat) ^ (k + f) < 2 ^ 64" using True by (intro power_strict_increasing) simp_all
      then have c: "(bucket_count ht * 2 ^ f) mod 2 ^ 64 = c" unfolding cnt c_def by (rule mod_less)
      have ge: "2 ^ k0 \<le> c"
        using less.prems(2,4) power_increasing [of k "k + f" "2::nat"] by (simp add: c_def)
      define ht' where "ht' = ht\<lparr>bucket_count := c, resize_thres_elem_count := C_THRES_ELEM (threshold_load_factor ht) c\<rparr>"
      have r: "Suc r mod 256 = Suc r" using less.prems(5,6) True f by simp
      have step: "resize_grow (2 ^ k0) ht r = resize_grow (2 ^ k0) ht' (Suc r)"
        using full ge r by (subst resize_grow.simps) (simp add: f_def [symmetric] c [simplified] Let_def ht'_def)
      have "\<exists>c t res. resize_grow (2 ^ k0) ht' (Suc r) =
          Some (ht'\<lparr>bucket_count := c, resize_thres_elem_count := t\<rparr>, res) \<and>
        (case res of None \<Rightarrow> c = 2 ^ k0
         | Some r' \<Rightarrow> \<exists>k'. k + f \<le> k' \<and> k' < 64 \<and> c = 2 ^ k' \<and> Suc r \<le> r' \<and> (r' = Suc r \<longrightarrow> k' = k + f) \<and> element_count ht' < t)"
      proof (rule less.hyps)
        show "64 - (k + f) < 64 - k" using True f by simp
        have "buckets_per_lock_pow2 ht \<le> k" using less.prems(1,4) by (auto simp: ht_sizes_def)
        then show "ht_sizes ht'" using less.prems(1) True by (auto simp: ht_sizes_def ht'_def c_def)
        show "Suc r + (63 - (k + f)) < 256" using less.prems(5,6) f True by simp
      qed (use ge less.prems True in \<open>simp_all add: ht'_def c_def\<close>)
      then obtain c' t res where r1: "resize_grow (2 ^ k0) ht' (Suc r) = Some (ht'\<lparr>bucket_count := c', resize_thres_elem_count := t\<rparr>, res)"
        and r2: "case res of None \<Rightarrow> c' = 2 ^ k0
         | Some r' \<Rightarrow> \<exists>k'. k + f \<le> k' \<and> k' < 64 \<and> c' = 2 ^ k' \<and> Suc r \<le> r' \<and> (r' = Suc r \<longrightarrow> k' = k + f) \<and> element_count ht' < t"
        by blast
      show ?thesis
        using r1 r2 step
        by (intro exI [of _ c'] exI [of _ t] exI [of _ res]) (auto simp: ht'_def split: option.splits)
    qed
  qed
qed

text \<open>The rehash. \<open>mid_rehash\<close> is the state of the buckets while the chain of bucket \<open>i\<close> is walked:
  \<open>kept\<close> has been looked at, \<open>rest\<close> has not, buckets below \<open>i\<close> and new buckets hold only nodes
  that belong there.\<close>

context key_order
begin

definition mid_rehash :: "(addr \<Rightarrow> hkey) \<Rightarrow> nat \<Rightarrow> nat \<Rightarrow> addr list list \<Rightarrow> nat \<Rightarrow> addr list \<Rightarrow> addr list \<Rightarrow> addr list list \<Rightarrow> bool" where
  "mid_rehash ky old new bs0 i kept rest bs \<longleftrightarrow>
     length bs = new \<and> bs ! i = kept @ rest \<and>
     (\<forall>j < new. chain_ok ky (bs ! j)) \<and>
     set (concat bs) = set (concat bs0) \<and> length (concat bs) = length (concat bs0) \<and>
     (\<forall>j < new. j \<noteq> i \<longrightarrow> (\<forall>n \<in> set (bs ! j).
        bucket_index (if i < j \<and> j < old then old else new) (ky n) = Some j)) \<and>
     (\<forall>n \<in> set kept. bucket_index new (ky n) = Some i) \<and>
     (\<forall>n \<in> set rest. bucket_index old (ky n) = Some i)"

lemma length_concat_update:
  assumes "i < length bs"
  shows "length (concat (bs[i := xs])) + length (bs ! i) = length (concat bs) + length xs"
  using assms by (induction bs arbitrary: i) (auto split: nat.splits simp: nth_Cons)

lemma set_concat_nth: "set (concat bs) = (\<Union>i < length bs. set (bs ! i))"
  by (auto simp: in_set_conv_nth [of _ bs] intro: bexI [OF _ nth_mem])

lemma distinct_concat_disjoint:
  "distinct (concat bs) \<Longrightarrow> i < length bs \<Longrightarrow> j < length bs \<Longrightarrow> i \<noteq> j \<Longrightarrow> set (bs ! i) \<inter> set (bs ! j) = {}"
proof (induction bs arbitrary: i j)
  case (Cons b bs)
  have sub: "set (bs ! m) \<subseteq> set (concat bs)" if "m < length bs" for m
    using that by (metis UN_upper lessThan_iff set_concat_nth)
  show ?case
    using Cons sub [of "i - 1"] sub [of "j - 1"] by (cases i; cases j) (auto simp del: set_concat)
qed simp

lemma bucket_index_grow:
  assumes "bucket_index (2 ^ k') x = Some d" and "bucket_index (2 ^ k) x = Some i" and "k \<le> k'" and "k' < 64"
  shows "d < 2 ^ k' \<and> (d = i \<or> 2 ^ k \<le> d)"
proof -
  from assms obtain h where h: "fnv1a_32_hash x = Some h" "d = unat h mod 2 ^ k'" "i = unat h mod 2 ^ k"
    by (auto simp: bucket_index_def bucket_of_mod)
  have "d mod 2 ^ k = i" using h assms(3) by (simp add: mod_mod_cancel le_imp_power_dvd)
  moreover have "d < 2 ^ k'" using h by simp
  ultimately show ?thesis by (cases "d < 2 ^ k") auto
qed

lemma rehash_chain_correct:
  assumes "mid_rehash ky (2 ^ k) (2 ^ k') bs0 i kept rest bs"
    and ht: "cmpfn ht = cmp" "bucket_count ht = 2 ^ k'" and k: "k \<le> k'" "k' < 64" and i: "i < 2 ^ k"
    and inj: "inj_on ky (set (concat bs0))" and dist: "distinct (concat bs0)"
  shows "\<exists>bs' kept'. rehash_chain ky ht i kept rest bs = Some bs' \<and> mid_rehash ky (2 ^ k) (2 ^ k') bs0 i kept' [] bs'"
  using assms(1)
proof (induction rest arbitrary: kept bs)
  case Nil
  then show ?case by auto
next
  case (Cons src rest)
  note mid = Cons.prems [unfolded mid_rehash_def]
  have len: "length bs = 2 ^ k'" and bsi: "bs ! i = kept @ src # rest" using mid by simp_all
  have kk: "(2::nat) ^ k \<le> 2 ^ k'" using k(1) by (intro power_increasing) simp_all
  have il: "i < length bs" unfolding len using i kk by (rule less_le_trans)
  have old: "bucket_index (2 ^ k) (ky src) = Some i" using mid by simp
  have ch: "chain_ok ky (bs ! j)" if "j < 2 ^ k'" for j using mid that by blast
  have src_ok: "valid (ky src)" using ch [of i] il len bsi by (simp add: chain_ok_def)
  obtain d where d: "bucket_index (2 ^ k') (ky src) = Some d"
    using bucket_index_Some [OF valid_nonempty [OF src_ok]] by blast
  note grow = bucket_index_grow [OF d old k]
  show ?case
  proof (cases "i = d")
    case True
    then have "mid_rehash ky (2 ^ k) (2 ^ k') bs0 i (kept @ [src]) rest bs"
      using mid d by (simp add: mid_rehash_def)
    then show ?thesis using Cons.IH d True by (simp add: ht)
  next
    case False
    then have dk: "2 ^ k \<le> d" "d < 2 ^ k'" "d \<noteq> i" using grow by auto
    define bs1 where "bs1 = bs[i := kept @ rest]"
    have len1: "length bs1 = 2 ^ k'" by (simp add: bs1_def len)
    have b1: "bs1 ! i = kept @ rest" "bs1 ! d = bs ! d" using il dk by (simp_all add: bs1_def)
    define bs2 where "bs2 = bs1[d := chain_reinsert ky cmp src (bs1 ! d)]"
    have dl: "d < length bs" using dk len by simp
    have src_in: "src \<in> set (bs ! i)" using bsi by simp
    have sub: "set (bs ! j) \<subseteq> set (concat bs0)" if "j < length bs" for j
      using mid that by (metis UN_upper lessThan_iff set_concat_nth)
    have "distinct (concat bs)"
      using mid dist by (intro card_distinct) (metis distinct_card)
    then have disj: "set (bs ! i) \<inter> set (bs ! d) = {}"
      using il dl dk by (intro distinct_concat_disjoint) simp_all
    have fresh: "ky src \<notin> ky ` set (bs ! d)"
    proof
      assume "ky src \<in> ky ` set (bs ! d)"
      then obtain n where n: "n \<in> set (bs ! d)" "ky n = ky src" by force
      then have "n = src" using inj sub [OF dl] sub [OF il] src_in by (blast dest: inj_onD)
      then show False using n(1) src_in disj by blast
    qed
    note ins = chain_reinsert_correct [OF ch [OF dk(2)] src_ok fresh]
    have nth2: "bs2 ! j = (if j = d then chain_reinsert ky cmp src (bs ! d) else if j = i then kept @ rest else bs ! j)"
      if "j < 2 ^ k'" for j using that dk il len by (simp add: bs2_def bs1_def nth_list_update)
    have len2: "length bs2 = 2 ^ k'" by (simp add: bs2_def len1)
    have "set (concat bs2) = set (concat bs)"
    proof -
      have "(\<Union>j < 2 ^ k'. set (bs2 ! j)) = (\<Union>j < 2 ^ k'. set (bs ! j))"
      proof (intro subset_antisym subsetI)
        fix n assume "n \<in> (\<Union>j < 2 ^ k'. set (bs2 ! j))"
        then obtain j where j: "j < 2 ^ k'" "n \<in> set (bs2 ! j)" by blast
        then have "n \<in> set (bs ! j) \<or> n = src \<or> n \<in> set (bs ! i)" by (auto simp: nth2 ins bsi split: if_splits)
        then show "n \<in> (\<Union>j < 2 ^ k'. set (bs ! j))" using j(1) src_in il len by auto
      next
        fix n assume "n \<in> (\<Union>j < 2 ^ k'. set (bs ! j))"
        then obtain j where j: "j < 2 ^ k'" "n \<in> set (bs ! j)" by blast
        then have "n \<in> set (bs2 ! j) \<or> n \<in> set (bs2 ! d)"
          using dk by (auto simp: nth2 ins bsi)
        then show "n \<in> (\<Union>j < 2 ^ k'. set (bs2 ! j))" using j(1) dk(2) by blast
      qed
      then show ?thesis by (simp only: set_concat_nth len len2)
    qed
    moreover have "length (concat bs2) = length (concat bs)"
      using length_concat_update [OF il, of "kept @ rest"]
        length_concat_update [of d bs1 "chain_reinsert ky cmp src (bs1 ! d)"] len1 dk(2)
      by (simp add: bs1_def [symmetric] bs2_def b1 bsi ins)
    moreover have "chain_ok ky (kept @ rest)"
      using chain_ok_sublist [of ky kept src rest] ch [of i] il len bsi by simp
    moreover have "bucket_index (if i < j \<and> j < 2 ^ k then 2 ^ k else 2 ^ k') (ky n) = Some j"
      if "j < 2 ^ k'" "j \<noteq> i" "n \<in> set (bs2 ! j)" for j n
      using that mid d dk by (cases "j = d") (auto simp: nth2 ins split: if_splits)
    ultimately have "mid_rehash ky (2 ^ k) (2 ^ k') bs0 i kept rest bs2"
      using mid ch ins(1) il len dk(3) unfolding mid_rehash_def by (simp add: len2 nth2 del: set_concat)
    then show ?thesis using Cons.IH [of kept bs2] d False dk len1 by (simp add: ht bs1_def bs2_def Let_def)
  qed
qed

end

context key_order
begin

lemma rehash_from_correct:
  assumes "length bs = 2 ^ k'" and "m \<le> 2 ^ k"
    and chains: "\<forall>j < 2 ^ k'. chain_ok ky (bs ! j)"
    and all: "set (concat bs) = set (concat bs0)" "length (concat bs) = length (concat bs0)"
    and idx: "\<forall>j < 2 ^ k'. \<forall>n \<in> set (bs ! j).
      bucket_index (if 2 ^ k - m \<le> j \<and> j < 2 ^ k then 2 ^ k else 2 ^ k') (ky n) = Some j"
    and ht: "cmpfn ht = cmp" "bucket_count ht = 2 ^ k'" and k: "k \<le> k'" "k' < 64"
    and inj: "inj_on ky (set (concat bs0))" and dist: "distinct (concat bs0)"
  shows "\<exists>bs'. rehash_from ky ht [2 ^ k - m ..< 2 ^ k] bs = Some bs' \<and> length bs' = 2 ^ k' \<and>
    set (concat bs') = set (concat bs0) \<and> length (concat bs') = length (concat bs0) \<and>
    (\<forall>j < 2 ^ k'. chain_ok ky (bs' ! j) \<and> (\<forall>n \<in> set (bs' ! j). bucket_index (2 ^ k') (ky n) = Some j))"
  using assms(1-6)
proof (induction m arbitrary: bs)
  case 0
  have "bucket_index (2 ^ k') (ky n) = Some j" if "j < 2 ^ k'" "n \<in> set (bs ! j)" for j n
  proof -
    have c: "(2 ^ k - 0 \<le> j \<and> j < 2 ^ k) = False" by simp
    show ?thesis using "0.prems"(6) [rule_format, OF that] unfolding c by simp
  qed
  then show ?case using 0 by simp
next
  case (Suc m)
  define i where "i = 2 ^ k - Suc m"
  have i: "i < 2 ^ k" "2 ^ k - m = Suc i" using Suc.prems(2) by (auto simp: i_def)
  have kk: "(2::nat) ^ k \<le> 2 ^ k'" using k(1) by (intro power_increasing) simp_all
  then have il: "i < 2 ^ k'" using i(1) by (rule less_le_trans [rotated])
  have "bucket_index (if i < j \<and> j < 2 ^ k then 2 ^ k else 2 ^ k') (ky n) = Some j"
    if "j < 2 ^ k'" "j \<noteq> i" "n \<in> set (bs ! j)" for j n
  proof -
    have c: "(2 ^ k - Suc m \<le> j \<and> j < 2 ^ k) = (i < j \<and> j < 2 ^ k)" using that(2) by (auto simp: i_def)
    show ?thesis using Suc.prems(6) [rule_format, OF that(1,3)] unfolding c .
  qed
  moreover have "bucket_index (2 ^ k) (ky n) = Some i" if "n \<in> set (bs ! i)" for n
  proof -
    have c: "(2 ^ k - Suc m \<le> i \<and> i < 2 ^ k) = True" using i by (simp add: i_def)
    show ?thesis using Suc.prems(6) [rule_format, OF il that] unfolding c by simp
  qed
  ultimately have "mid_rehash ky (2 ^ k) (2 ^ k') bs0 i [] (bs ! i) bs"
    using Suc.prems(1,3,4,5) by (simp add: mid_rehash_def del: set_concat)
  from rehash_chain_correct [OF this ht k i(1) inj dist] obtain bs' kept' where
    r: "rehash_chain ky ht i [] (bs ! i) bs = Some bs'"
    and mid: "mid_rehash ky (2 ^ k) (2 ^ k') bs0 i kept' [] bs'" by blast
  note m = mid [unfolded mid_rehash_def]
  have "bucket_index (if Suc i \<le> j \<and> j < 2 ^ k then 2 ^ k else 2 ^ k') (ky n) = Some j"
    if "j < 2 ^ k'" "n \<in> set (bs' ! j)" for j n
    using m that by (cases "j = i") (auto simp: Suc_le_eq)
  then have "\<exists>bs''. rehash_from ky ht [2 ^ k - m ..< 2 ^ k] bs' = Some bs'' \<and> length bs'' = 2 ^ k' \<and>
    set (concat bs'') = set (concat bs0) \<and> length (concat bs'') = length (concat bs0) \<and>
    (\<forall>j < 2 ^ k'. chain_ok ky (bs'' ! j) \<and> (\<forall>n \<in> set (bs'' ! j). bucket_index (2 ^ k') (ky n) = Some j))"
    using m Suc.prems(2) by (intro Suc.IH) (simp_all add: i(2) del: set_concat)
  moreover have "[2 ^ k - Suc m ..< 2 ^ k] = i # [2 ^ k - m ..< 2 ^ k]"
    using i by (simp add: upt_conv_Cons i_def [symmetric])
  ultimately show ?case using r by simp
qed

end

text \<open>Resizing keeps the contents. The only failure it does not survive is that of shrinking an
  array, which the code treats as impossible.\<close>

lemma ht_ok_thres [simp]:
  "ht_ok V s (ht\<lparr>resize_thres_elem_count := t\<rparr>) = ht_ok V s ht"
  by (simp add: ht_ok_def ht_sizes_def)

context key_order
begin

lemma distinct_concatI:
  assumes "\<And>i. i < length bs \<Longrightarrow> distinct (bs ! i)"
    and "\<And>i j. i < j \<Longrightarrow> j < length bs \<Longrightarrow> set (bs ! i) \<inter> set (bs ! j) = {}"
  shows "distinct (concat bs)"
  using assms
proof (induction bs)
  case (Cons b bs)
  have "distinct (concat bs)"
    using Cons.prems(1) [of "Suc i" for i] Cons.prems(2) [of "Suc i" "Suc j" for i j]
    by (intro Cons.IH) auto
  moreover have "set b \<inter> set (bs ! j) = {}" if "j < length bs" for j
    using Cons.prems(2) [of 0 "Suc j"] that by simp
  then have "set b \<inter> set (concat bs) = {}" unfolding set_concat_nth by blast
  ultimately show ?case using Cons.prems(1) [of 0] by simp
qed simp

lemma ht_distinct:
  assumes "ht_ok valid s ht" "cmpfn ht = cmp"
  shows "distinct (concat (buckets ht))"
proof (rule distinct_concatI)
  have len: "length (buckets ht) = bucket_count ht" using assms by (simp add: ht_ok_def)
  show "distinct (buckets ht ! i)" if "i < length (buckets ht)" for i
    using chain_ok_inj [OF ht_ok_bucket(1) [OF assms]] that len by simp
  show "set (buckets ht ! i) \<inter> set (buckets ht ! j) = {}" if "i < j" "j < length (buckets ht)" for i j
    using ht_ok_bucket(2) [OF assms, of i] ht_ok_bucket(2) [OF assms, of j] that len by fastforce
qed

lemma htable_resize_correct:
  assumes ok: "ht_ok valid s ht" and cmp: "cmpfn ht = cmp" and env: "shrink_locks_ok env" "shrink_buckets_ok env"
  shows "\<exists>ht'. htable_resize env s ht = Some ht' \<and> ht_ok valid s ht' \<and> cmpfn ht' = cmp \<and>
    ht_nodes ht' = ht_nodes ht \<and> element_count ht' = element_count ht"
proof -
  from ok obtain k where k: "k < 64" "bucket_count ht = 2 ^ k" "buckets_per_lock_pow2 ht \<le> k"
    by (auto simp: ht_ok_def ht_sizes_def)
  have sz: "ht_sizes ht" using ok by (simp add: ht_ok_def)
  have le: "0 + (63 - k) < (256::nat)" by simp
  from resize_grow_correct [OF sz eq_refl [OF k(2) [symmetric]] k(1,2,1) le] obtain c t res where
    g: "resize_grow (2 ^ k) ht 0 = Some (ht\<lparr>bucket_count := c, resize_thres_elem_count := t\<rparr>, res)"
    and res: "case res of None \<Rightarrow> c = 2 ^ k
     | Some r' \<Rightarrow> \<exists>k'. k \<le> k' \<and> k' < 64 \<and> c = 2 ^ k' \<and> 0 \<le> r' \<and> (r' = 0 \<longrightarrow> k' = k) \<and> element_count ht < t"
    by blast
  have same: "ht\<lparr>bucket_count := 2 ^ k, resize_thres_elem_count := t'\<rparr> = ht\<lparr>resize_thres_elem_count := t'\<rparr>" for t'
    using k(2) by simp
  have keeps: "ht_ok valid s (ht\<lparr>resize_thres_elem_count := t'\<rparr>)" "ht_nodes (ht\<lparr>resize_thres_elem_count := t'\<rparr>) = ht_nodes ht" for t'
    using ok by (simp_all add: ht_nodes_def)
  show ?thesis
  proof (cases res)
    case None
    then have "htable_resize env s ht = Some (ht\<lparr>resize_thres_elem_count := t\<rparr>)"
      using g res same by (simp add: htable_resize_def k(2) Let_def)
    then show ?thesis using keeps cmp by simp
  next
    case (Some r)
    then obtain k' where k': "k \<le> k'" "k' < 64" "c = 2 ^ k'" "r = 0 \<longrightarrow> k' = k" using res by auto
    show ?thesis
    proof (cases "r = 0 \<or> \<not> grow_buckets_ok env \<or> \<not> grow_locks_ok env \<or> \<not> init_locks_ok env")
      case True
      have "htable_resize env s ht = Some (ht\<lparr>resize_thres_elem_count :=
          (if r = 0 then t else C_THRES_ELEM (threshold_load_factor ht) (2 ^ k))\<rparr>)"
      proof (cases "r = 0")
        case True
        then show ?thesis using g Some k'(3,4) by (simp add: htable_resize_def k(2) Let_def same)
      next
        case False
        then show ?thesis
          using g Some \<open>r = 0 \<or> _\<close> env by (simp add: htable_resize_def k(2) Let_def same)
      qed
      then show ?thesis using keeps cmp by simp
    next
      case False
      define bs0 where "bs0 = buckets ht @ replicate (2 ^ k' - 2 ^ k) []"
      define h1 where "h1 = ht\<lparr>bucket_count := c, resize_thres_elem_count := t,
        lock_count := c div 2 ^ buckets_per_lock_pow2 ht\<rparr>"
      have kk: "(2::nat) ^ k \<le> 2 ^ k'" using k'(1) by (intro power_increasing) simp_all
      have lenb: "length (buckets ht) = 2 ^ k" using ok k by (simp add: ht_ok_def)
      have len0: "length bs0 = 2 ^ k'" using kk by (simp add: bs0_def lenb)
      have nth0: "bs0 ! j = (if j < 2 ^ k then buckets ht ! j else [])" if "j < 2 ^ k'" for j
        using that by (simp add: bs0_def lenb nth_append)
      have con: "concat bs0 = concat (buckets ht)" by (simp add: bs0_def)
      have inj: "inj_on (\<lambda>n. key (s n)) (set (concat bs0))"
        using ht_nodes_inj [OF ok cmp] by (simp add: con ht_nodes_def)
      have dist: "distinct (concat bs0)" using ht_distinct [OF ok cmp] by (simp add: con)
      have "\<exists>bs'. rehash_from (\<lambda>n. key (s n)) h1 [2 ^ k - 2 ^ k ..< 2 ^ k] bs0 = Some bs' \<and> length bs' = 2 ^ k' \<and>
        set (concat bs') = set (concat bs0) \<and> length (concat bs') = length (concat bs0) \<and>
        (\<forall>j < 2 ^ k'. chain_ok (\<lambda>n. key (s n)) (bs' ! j) \<and> (\<forall>n \<in> set (bs' ! j). bucket_index (2 ^ k') (key (s n)) = Some j))"
      proof (rule rehash_from_correct [OF len0 order.refl _ refl refl _ _ _ k'(1,2) inj dist])
        show "\<forall>j < 2 ^ k'. chain_ok (\<lambda>n. key (s n)) (bs0 ! j)"
          using ht_ok_bucket(1) [OF ok cmp] by (simp add: nth0 k(2))
        show "\<forall>j < 2 ^ k'. \<forall>n \<in> set (bs0 ! j).
            bucket_index (if 2 ^ k - 2 ^ k \<le> j \<and> j < 2 ^ k then 2 ^ k else 2 ^ k') (key (s n)) = Some j"
          using ht_ok_bucket(2) [OF ok cmp] by (simp add: nth0 k(2))
      qed (simp_all add: h1_def cmp k'(3))
      then obtain bs' where bs': "rehash_from (\<lambda>n. key (s n)) h1 [0 ..< 2 ^ k] bs0 = Some bs'" "length bs' = 2 ^ k'"
        "set (concat bs') = set (concat bs0)" "length (concat bs') = length (concat bs0)"
        "\<forall>j < 2 ^ k'. chain_ok (\<lambda>n. key (s n)) (bs' ! j) \<and> (\<forall>n \<in> set (bs' ! j). bucket_index (2 ^ k') (key (s n)) = Some j)"
        by auto
      have r: "htable_resize env s ht = Some (h1\<lparr>buckets := bs'\<rparr>)"
        using g Some False bs'(1) by (simp add: htable_resize_def k(2) Let_def h1_def bs0_def k'(3))
      have "c div 2 ^ buckets_per_lock_pow2 ht * 2 ^ buckets_per_lock_pow2 ht = c"
        using k(3) k'(1,3) by (intro dvd_div_mult_self) (simp add: le_imp_power_dvd)
      then have "ht_ok valid s (h1\<lparr>buckets := bs'\<rparr>)"
        using ok bs'(2,4,5) k'(2) k(3) k'(1) cmp con
        by (auto simp: ht_ok_def ht_sizes_def h1_def k'(3) intro: order.trans)
      moreover have "ht_nodes (h1\<lparr>buckets := bs'\<rparr>) = ht_nodes ht" using bs'(3) con by (simp add: ht_nodes_def)
      ultimately show ?thesis using r by (simp add: h1_def cmp)
    qed
  qed
qed

end

subsection \<open>The operations on the map\<close>

text \<open>The locking discipline: everything taken is released again, and stripes are stripes of the table.\<close>

definition trace_ok :: "htable \<Rightarrow> lock_event list \<Rightarrow> bool" where
  "trace_ok ht tr \<longleftrightarrow> held tr [] = Some [] \<and>
     (\<forall>i. Rd (Stripe i) \<in> set tr \<or> Wr (Stripe i) \<in> set tr \<longrightarrow> i < lock_count ht)"

definition never_fails :: "lock_env \<Rightarrow> bool" where
  "never_fails lenv \<longleftrightarrow> (\<forall>l. \<not> rd_fails lenv l \<and> \<not> wr_fails lenv l)"

lemma ht_map_cong: "(\<And>n. key (s' n) = key (s n)) \<Longrightarrow> ht_map s' ht = ht_map s ht"
  by (rule ext) (simp add: ht_map_def)

lemma ht_ok_cong: "(\<And>n. key (s' n) = key (s n)) \<Longrightarrow> ht_ok V s' ht = ht_ok V s ht"
  by (simp add: ht_ok_def)

lemma key_node_put [simp]: "key (node_put s n m) = key (s m)"
  by (simp add: node_put_def Let_def)

lemma key_node_get [simp]: "key (node_get s n m) = key (s m)"
  by (simp add: node_get_def)

lemma option_eqI: "(\<And>x. a = Some x \<longleftrightarrow> b = Some x) \<Longrightarrow> a = b"
  by (cases a; cases b) auto

context key_order
begin

lemma ht_stripe:
  assumes "ht_ok valid s ht" and "bucket_index (bucket_count ht) k = Some i"
  shows "i < length (buckets ht)" "i < bucket_count ht" "i div 2 ^ buckets_per_lock_pow2 ht < lock_count ht"
proof -
  show i: "i < bucket_count ht" by (rule bucket_index_less) (use assms in \<open>auto simp: ht_ok_def\<close>)
  then show "i < length (buckets ht)" using assms by (simp add: ht_ok_def)
  have "i < lock_count ht * 2 ^ buckets_per_lock_pow2 ht" using i assms(1) by (simp add: ht_ok_def)
  then show "i div 2 ^ buckets_per_lock_pow2 ht < lock_count ht" by (simp add: less_mult_imp_div_less)
qed

lemma ht_update:
  assumes ok: "ht_ok valid s ht" "cmpfn ht = cmp" and i: "i < bucket_count ht"
    and ch: "chain_ok (\<lambda>n. key (s n)) ch" "\<And>n. n \<in> set ch \<Longrightarrow> bucket_index (bucket_count ht) (key (s n)) = Some i"
    and c: "c + length (buckets ht ! i) = element_count ht + length ch"
    and ht': "ht' = ht\<lparr>buckets := (buckets ht)[i := ch], element_count := c\<rparr>"
  shows "ht_ok valid s ht'" "ht_nodes ht' = (ht_nodes ht - set (buckets ht ! i)) \<union> set ch"
proof -
  have len: "length (buckets ht) = bucket_count ht" using ok by (simp add: ht_ok_def)
  have "element_count ht = length (concat (buckets ht))" using ok by (simp add: ht_ok_def)
  then have "c = length (concat ((buckets ht)[i := ch]))"
    using length_concat_update [of i "buckets ht" ch] c i len by simp
  then show "ht_ok valid s ht'"
    using ok ch i len by (simp add: ht_ok_def ht' nth_list_update ht_sizes_def)
  have disj: "set (buckets ht ! i) \<inter> set (buckets ht ! j) = {}" if "j < bucket_count ht" "j \<noteq> i" for j
    using distinct_concat_disjoint [OF ht_distinct [OF ok]] i that len by simp
  show "ht_nodes ht' = (ht_nodes ht - set (buckets ht ! i)) \<union> set ch"
  proof (intro subset_antisym subsetI)
    fix n assume "n \<in> ht_nodes ht'"
    then obtain j where "j < bucket_count ht" "n \<in> set ((buckets ht)[i := ch] ! j)" by (auto simp: in_ht_nodes ht' len)
    then show "n \<in> (ht_nodes ht - set (buckets ht ! i)) \<union> set ch"
      using disj [of j] len by (cases "j = i") (auto simp: in_ht_nodes)
  next
    fix n assume "n \<in> (ht_nodes ht - set (buckets ht ! i)) \<union> set ch"
    then show "n \<in> ht_nodes ht'"
    proof
      assume "n \<in> set ch"
      then show ?thesis using i len by (auto simp: in_ht_nodes ht' intro!: exI [of _ i])
    next
      assume "n \<in> ht_nodes ht - set (buckets ht ! i)"
      then obtain j where "j < bucket_count ht" "n \<in> set (buckets ht ! j)" "j \<noteq> i" by (auto simp: in_ht_nodes len)
      then show ?thesis using len by (auto simp: in_ht_nodes ht' intro!: exI [of _ j])
    qed
  qed
qed

lemma htable_add_correct:
  assumes ok: "ht_ok valid s ht" and cmp: "cmpfn ht = cmp" and el: "valid (key (s el))"
    and renv: "shrink_locks_ok renv" "shrink_buckets_ok renv"
  shows "\<exists>result ht' tr. htable_add lenv renv s ht el = Some (result, ht', tr) \<and>
    ht_ok valid s ht' \<and> cmpfn ht' = cmp \<and> trace_ok ht' tr \<and>
    (result \<longrightarrow> ht_map s ht (key (s el)) = None) \<and>
    (never_fails lenv \<longrightarrow> result = (ht_map s ht (key (s el)) = None)) \<and>
    ht_map s ht' = (if result then (ht_map s ht)(key (s el) \<mapsto> el) else ht_map s ht)"
proof -
  define full where "full \<longleftrightarrow> element_count ht \<ge> resize_thres_elem_count ht \<and> try_wr lenv"
  define tr0 where "tr0 = (if full then [Wr Resize_lock, Unlock Resize_lock] else [])"
  obtain h1 where h1: "(if full then htable_resize renv s ht else Some ht) = Some h1" "ht_ok valid s h1"
    "cmpfn h1 = cmp" "ht_nodes h1 = ht_nodes ht"
  proof (cases full)
    case True
    then show thesis using htable_resize_correct [OF ok cmp renv] that by auto
  next
    case False
    then show thesis using that [of ht] ok cmp by simp
  qed
  have maps: "ht_map s h1 = ht_map s ht"
    by (rule ext, rule option_eqI) (simp add: ht_map_Some_iff [OF ok cmp] ht_map_Some_iff [OF h1(2,3)] h1(4))
  have tr0: "held tr0 [] = Some []" "Rd (Stripe j) \<notin> set tr0" "Wr (Stripe j) \<notin> set tr0" for j
    by (simp_all add: tr0_def)
  obtain i where i: "bucket_index (bucket_count h1) (key (s el)) = Some i"
    using bucket_index_Some [OF valid_nonempty [OF el]] by blast
  note st = ht_stripe [OF h1(2) i]
  define l where "l = Stripe (i div 2 ^ buckets_per_lock_pow2 h1)"
  note defs = full_def [symmetric] tr0_def [symmetric] l_def [symmetric]
  show ?thesis
  proof (cases "rd_fails lenv Resize_lock \<or> wr_fails lenv l")
    case True
    then have "\<exists>tr. htable_add lenv renv s ht el = Some (False, h1, tr) \<and> trace_ok h1 tr"
      using h1(1) i tr0 by (auto simp: htable_add_def defs Let_def trace_ok_def held_append)
    then show ?thesis using True h1 maps by (auto simp: never_fails_def)
  next
    case False
    obtain ch result where r: "chain_insert (\<lambda>n. key (s n)) cmp el (buckets h1 ! i) = (ch, result)" by fastforce
    define ht' where "ht' = h1\<lparr>buckets := (buckets h1)[i := ch], element_count := element_count h1 + (if result then 1 else 0)\<rparr>"
    define tr where "tr = tr0 @ [Rd Resize_lock, Wr l, Unlock l, Unlock Resize_lock]"
    have add: "htable_add lenv renv s ht el = Some (result, ht', tr)"
      using h1(1,3) i False st r by (simp add: htable_add_def defs Let_def ht'_def tr_def)
    have tr: "trace_ok ht' tr" using tr0 st by (auto simp: trace_ok_def tr_def held_append l_def ht'_def)
    note ins = chain_insert_correct [OF ht_ok_bucket(1) [OF h1(2,3) st(2)] el, unfolded r prod.case]
    have none: "ht_map s ht (key (s el)) = None \<longleftrightarrow> key (s el) \<notin> (\<lambda>n. key (s n)) ` set (buckets h1 ! i)"
      unfolding maps [symmetric] ht_map_bucket [OF h1(2,3) i] by (simp add: find_None_iff image_iff) metis
    show ?thesis
    proof (cases "key (s el) \<in> (\<lambda>n. key (s n)) ` set (buckets h1 ! i)")
      case True
      then have "ch = buckets h1 ! i" "\<not> result" using ins by simp_all
      then have "ht' = h1" by (simp add: ht'_def)
      then show ?thesis using add tr True none \<open>\<not> result\<close> h1 maps by auto
    next
      case fresh: False
      then have res: "result" "chain_ok (\<lambda>n. key (s n)) ch" "set ch = insert el (set (buckets h1 ! i))"
        "length ch = Suc (length (buckets h1 ! i))" using ins by simp_all
      have "ht_ok valid s ht' \<and> ht_nodes ht' = (ht_nodes h1 - set (buckets h1 ! i)) \<union> set ch"
        using ht_update [OF h1(2,3) st(2) res(2) _ _ ht'_def] ht_ok_bucket(2) [OF h1(2,3) st(2)] res i by auto
      moreover have "set (buckets h1 ! i) \<subseteq> ht_nodes h1" using st(1) by (auto simp: in_ht_nodes)
      ultimately have ok': "ht_ok valid s ht'" and nodes: "ht_nodes ht' = insert el (ht_nodes h1)" using res(3) by auto
      have cmp': "cmpfn ht' = cmp" using h1(3) by (simp add: ht'_def)
      have absent: "\<forall>n \<in> ht_nodes h1. key (s n) \<noteq> key (s el)"
        using fresh none unfolding maps [symmetric] by (simp add: ht_map_None_iff)
      have "ht_map s ht' = (ht_map s h1)(key (s el) \<mapsto> el)"
      proof (rule ext, rule option_eqI)
        fix k n
        show "ht_map s ht' k = Some n \<longleftrightarrow> ((ht_map s h1)(key (s el) \<mapsto> el)) k = Some n"
          using absent by (auto simp: ht_map_Some_iff [OF ok' cmp'] ht_map_Some_iff [OF h1(2,3)] nodes)
      qed
      then show ?thesis using add tr ok' cmp' fresh none res(1) maps by auto
    qed
  qed
qed

end

context key_order
begin

lemma htable_remove_correct:
  assumes ok: "ht_ok valid s ht" and cmp: "cmpfn ht = cmp" and k: "valid k"
  shows "\<exists>ht' s' tr. htable_remove lenv s ht k = Some (ht', s', tr) \<and>
    ht_ok valid s' ht' \<and> cmpfn ht' = cmp \<and> trace_ok ht' tr \<and>
    (never_fails lenv \<longrightarrow>
      ht_map s' ht' = (ht_map s ht)(k := None) \<and>
      s' = (case ht_map s ht k of None \<Rightarrow> s | Some n \<Rightarrow> node_put s n))"
proof -
  obtain i where i: "bucket_index (bucket_count ht) k = Some i"
    using bucket_index_Some [OF valid_nonempty [OF k]] by blast
  note st = ht_stripe [OF ok i]
  define l where "l = Stripe (i div 2 ^ buckets_per_lock_pow2 ht)"
  note defs = l_def [symmetric]
  have kne: "k \<noteq> []" using valid_nonempty [OF k] .
  show ?thesis
  proof (cases "rd_fails lenv Resize_lock \<or> wr_fails lenv l")
    case True
    then have "\<exists>tr. htable_remove lenv s ht k = Some (ht, s, tr) \<and> trace_ok ht tr"
      using i kne by (auto simp: htable_remove_def defs Let_def trace_ok_def)
    then show ?thesis using True ok cmp by (auto simp: never_fails_def)
  next
    case False
    obtain ch found where r: "chain_remove (\<lambda>n. key (s n)) cmp k (buckets ht ! i) = (ch, found)" by fastforce
    note rem = chain_remove_correct [OF ht_ok_bucket(1) [OF ok cmp st(2)] k, unfolded r prod.case]
    have map_k: "ht_map s ht k = found" using rem ht_map_bucket [OF ok cmp i] by simp
    define tr where "tr = [Rd Resize_lock, Wr l, Unlock l, Unlock Resize_lock]"
    have tr: "trace_ok ht tr" using st by (auto simp: trace_ok_def tr_def l_def)
    show ?thesis
    proof (cases found)
      case None
      then have "htable_remove lenv s ht k = Some (ht, s, tr)"
        using i False kne st(1) r cmp by (simp add: htable_remove_def defs Let_def tr_def)
      moreover have "ht_map s ht = (ht_map s ht)(k := None)" using map_k None by (simp add: fun_upd_idem)
      ultimately show ?thesis using ok cmp tr map_k None by auto
    next
      case (Some n)
      define ht' where "ht' = ht\<lparr>buckets := (buckets ht)[i := ch], element_count := element_count ht - 1\<rparr>"
      have remove: "htable_remove lenv s ht k = Some (ht', node_put s n, tr)"
        using i False kne st(1) r cmp Some by (simp add: htable_remove_def defs Let_def tr_def ht'_def)
      have sub: "set ch = set (buckets ht ! i) - {n}" "length (buckets ht ! i) = Suc (length ch)"
        "chain_ok (\<lambda>n. key (s n)) ch" using rem Some by simp_all
      have "length (buckets ht ! i) \<le> length (concat (buckets ht))"
        using length_concat_update [OF st(1), of "[]"] by simp
      then have cnt: "element_count ht - 1 + length (buckets ht ! i) = element_count ht + length ch"
        using ok sub(2) by (simp add: ht_ok_def)
      have "ht_ok valid s ht' \<and> ht_nodes ht' = (ht_nodes ht - set (buckets ht ! i)) \<union> set ch"
        using ht_update [OF ok cmp st(2) sub(3) _ cnt ht'_def] ht_ok_bucket(2) [OF ok cmp st(2)] sub(1) by auto
      moreover have "set (buckets ht ! i) \<subseteq> ht_nodes ht" using st(1) by (auto simp: in_ht_nodes)
      moreover have n: "n \<in> set (buckets ht ! i)" "key (s n) = k" 
        using find_SomeD [of "\<lambda>n. key (s n) = k" "buckets ht ! i" n] rem Some by simp_all
      ultimately have ok': "ht_ok valid s ht'" and nodes: "ht_nodes ht' = ht_nodes ht - {n}"
        and nin: "n \<in> ht_nodes ht" using sub(1) by auto
      have cmp': "cmpfn ht' = cmp" using cmp by (simp add: ht'_def)
      have "ht_map s ht' = (ht_map s ht)(k := None)"
      proof (rule ext, rule option_eqI)
        fix k' m
        have "m = n" if "m \<in> ht_nodes ht" "key (s m) = k"
          using that n(2) nin ht_nodes_inj [OF ok cmp] by (auto dest: inj_onD)
        then show "ht_map s ht' k' = Some m \<longleftrightarrow> ((ht_map s ht)(k := None)) k' = Some m"
          using n(2) by (auto simp: ht_map_Some_iff [OF ok' cmp'] ht_map_Some_iff [OF ok cmp] nodes)
      qed
      moreover have "ht_ok valid (node_put s n) ht'" using ok' ht_ok_cong [of "node_put s n" s valid ht'] by simp
      moreover have "ht_map (node_put s n) ht' = ht_map s ht'" by (rule ht_map_cong) simp
      moreover have "trace_ok ht' tr" using tr by (simp add: trace_ok_def ht'_def)
      ultimately show ?thesis using remove cmp' map_k Some by auto
    qed
  qed
qed

lemma htable_get_correct:
  assumes ok: "ht_ok valid s ht" and cmp: "cmpfn ht = cmp" and k: "valid k"
  shows "\<exists>r s' tr. htable_get lenv s ht k ref_inc = Some (r, s', tr) \<and> trace_ok ht tr \<and>
    (r \<noteq> None \<longrightarrow> r = ht_map s ht k) \<and> (never_fails lenv \<longrightarrow> r = ht_map s ht k) \<and>
    s' = (case r of None \<Rightarrow> s | Some n \<Rightarrow> if ref_inc then node_get s n else s)"
proof -
  obtain i where i: "bucket_index (bucket_count ht) k = Some i"
    using bucket_index_Some [OF valid_nonempty [OF k]] by blast
  note st = ht_stripe [OF ok i]
  define l where "l = Stripe (i div 2 ^ buckets_per_lock_pow2 ht)"
  have kne: "k \<noteq> []" using valid_nonempty [OF k] .
  show ?thesis
  proof (cases "rd_fails lenv Resize_lock \<or> rd_fails lenv l")
    case True
    then show ?thesis using i kne by (auto simp: htable_get_def l_def [symmetric] Let_def trace_ok_def never_fails_def)
  next
    case False
    have "ht_map s ht k = List.find (\<lambda>n. cmp k (key (s n)) = 0) (buckets ht ! i)"
      using ht_map_bucket [OF ok cmp i] find_cmp [OF ht_ok_bucket(1) [OF ok cmp st(2)] k] by simp
    then show ?thesis
      using i kne False st cmp
      by (simp add: htable_get_def l_def [symmetric] Let_def) (auto simp: trace_ok_def l_def)
  qed
qed

end

text \<open>A new table is empty.\<close>

lemma length_concat_replicate_Nil [simp]: "concat (replicate n []) = []"
  by (induction n) simp_all

lemma htable_create_correct:
  assumes "key_order cmp V"
    and "thres \<noteq> 0" "per_lock \<le> k" "k < 64" "resize_factor \<noteq> 0" "resize_factor < 64"
  shows "\<exists>ht. htable_create k resize_factor thres per_lock cmp True = Some (Some ht) \<and>
    ht_ok V s ht \<and> cmpfn ht = cmp \<and> ht_map s ht = Map.empty"
proof -
  have "(2::nat) ^ k < 2 ^ 64" using assms(4) by (intro power_strict_increasing) simp_all
  then have c: "(2::nat) ^ k mod 2 ^ 64 = 2 ^ k" by (rule mod_less)
  have d: "(2::nat) ^ k div 2 ^ per_lock = 2 ^ (k - per_lock)" using assms(3) by (simp add: power_diff)
  have m: "2 ^ (k - per_lock) * 2 ^ per_lock = (2::nat) ^ k" using assms(3) by (simp flip: power_add)
  define ht where "ht = \<lparr>buckets = replicate (2 ^ k) [], cmpfn = cmp, bucket_count = 2 ^ k, element_count = 0,
    resize_thres_elem_count = C_THRES_ELEM thres (2 ^ k), lock_count = 2 ^ (k - per_lock),
    buckets_per_lock_pow2 = per_lock, threshold_load_factor = thres, htable_pow2_resize_factor = resize_factor\<rparr>"
  have "htable_create k resize_factor thres per_lock cmp True = Some (Some ht)"
    unfolding htable_create_def c d Let_def using assms by (simp add: ht_def)
  moreover have "ht_ok V s ht"
    using assms m by (simp add: ht_ok_def ht_sizes_def ht_def key_order.chain_ok_Nil)
  moreover have "ht_map s ht = Map.empty" by (rule ext) (simp add: ht_map_def ht_def)
  ultimately show ?thesis by (simp add: ht_def)
qed

subsection \<open>Copying all keys\<close>

text \<open>A copy function that copies \<open>out n\<close> when it fits, and skips a node without output, in buffers of up to \<open>B\<close> bytes.\<close>

definition copies_upto :: "nat \<Rightarrow> (addr \<Rightarrow> nat \<Rightarrow> copy_result) \<Rightarrow> (addr \<Rightarrow> byte list option) \<Rightarrow> bool" where
  "copies_upto B copy_fn out \<longleftrightarrow> (\<forall>n sz. sz \<le> B \<longrightarrow> copy_fn n sz =
     (case out n of None \<Rightarrow> KEY_SKIP | Some bs \<Rightarrow> if length bs \<le> sz then Copied bs else BUF_TOOSMALL))"

abbreviation (input) put_out :: "(addr \<Rightarrow> byte list option) \<Rightarrow> addr list \<Rightarrow> byte list" where
  "put_out out ns \<equiv> concat (map (\<lambda>n. case out n of None \<Rightarrow> [] | Some bs \<Rightarrow> bs) ns)"

lemma copy_grow_correct:
  assumes "copies_upto B copy_fn out" and "0 < sz" and "off \<le> sz" and "sz \<le> B"
    and "2 * (off + (case out n of None \<Rightarrow> 0 | Some bs \<Rightarrow> length bs)) \<le> B"
  shows "\<exists>sz'. sz \<le> sz' \<and> sz' \<le> B \<and> copy_grow (copy_fn n) sz off =
      Some (case out n of None \<Rightarrow> KEY_SKIP | Some bs \<Rightarrow> Copied bs, sz') \<and>
    off + (case out n of None \<Rightarrow> 0 | Some bs \<Rightarrow> length bs) \<le> sz'"
  using assms(2-4)
proof (induction "(case out n of None \<Rightarrow> 0 | Some bs \<Rightarrow> length bs) + off - sz" arbitrary: sz rule: less_induct)
  case less
  have c: "copy_fn n (sz - off) = (case out n of None \<Rightarrow> KEY_SKIP | Some bs \<Rightarrow> if length bs \<le> sz - off then Copied bs else BUF_TOOSMALL)"
    using assms(1) less.prems(3) by (simp add: copies_upto_def)
  show ?case
  proof (cases "case out n of None \<Rightarrow> False | Some bs \<Rightarrow> sz - off < length bs")
    case True
    then obtain bs where bs: "out n = Some bs" "sz - off < length bs" by (auto split: option.splits)
    have "\<exists>sz'. 2 * sz \<le> sz' \<and> sz' \<le> B \<and> copy_grow (copy_fn n) (2 * sz) off =
        Some (case out n of None \<Rightarrow> KEY_SKIP | Some bs \<Rightarrow> Copied bs, sz') \<and>
      off + (case out n of None \<Rightarrow> 0 | Some bs \<Rightarrow> length bs) \<le> sz'"
      by (rule less.hyps) (use bs less.prems assms(5) in auto)
    moreover have "copy_grow (copy_fn n) sz off = copy_grow (copy_fn n) (2 * sz) off"
      using bs by (subst copy_grow.simps) (simp add: c)
    ultimately show ?thesis by auto
  next
    case False
    then show ?thesis
      using less.prems by (subst copy_grow.simps) (auto simp: c split: option.splits)
  qed
qed

lemma copy_chain_correct:
  assumes "copies_upto B copy_fn out" and "0 < sz" and "length acc \<le> sz" and "sz \<le> B" and "2 * length (acc @ put_out out ns) \<le> B"
  shows "\<exists>sz'. sz \<le> sz' \<and> sz' \<le> B \<and> copy_chain copy_fn ns (acc, sz) = Some (acc @ put_out out ns, sz') \<and>
    length (acc @ put_out out ns) \<le> sz'"
  using assms(2-5)
proof (induction ns arbitrary: acc sz)
  case (Cons n ns)
  have "2 * (length acc + (case out n of None \<Rightarrow> 0 | Some bs \<Rightarrow> length bs)) \<le> B"
    using Cons.prems(4) by (auto split: option.splits)
  from copy_grow_correct [OF assms(1) Cons.prems(1-3) this] obtain sz1 where
    g: "sz \<le> sz1" "sz1 \<le> B" "copy_grow (copy_fn n) sz (length acc) = Some (case out n of None \<Rightarrow> KEY_SKIP | Some bs \<Rightarrow> Copied bs, sz1)"
    "length acc + (case out n of None \<Rightarrow> 0 | Some bs \<Rightarrow> length bs) \<le> sz1" by blast
  have "0 < sz1" using g(1) Cons.prems by simp
  then show ?case
    using g Cons.prems(4) Cons.IH [of sz1 "acc @ (case out n of None \<Rightarrow> [] | Some bs \<Rightarrow> bs)"]
    by (auto split: option.splits intro: order.trans)
qed auto

lemma copy_buckets_correct:
  assumes "copies_upto B copy_fn out" and "0 < sz" and "length acc \<le> sz" and "sz \<le> B"
    and "2 * length (acc @ put_out out (concat (map ((!) (buckets ht)) js))) \<le> B" and "\<forall>j \<in> set js. j < length (buckets ht)"
  shows "\<exists>sz'. sz \<le> sz' \<and> sz' \<le> B \<and> copy_buckets copy_fn ht js (acc, sz) =
      Some (acc @ put_out out (concat (map ((!) (buckets ht)) js)), sz') \<and>
    length (acc @ put_out out (concat (map ((!) (buckets ht)) js))) \<le> sz'"
  using assms(2-6)
proof (induction js arbitrary: acc sz)
  case (Cons j js)
  have "2 * length (acc @ put_out out (buckets ht ! j)) \<le> B" using Cons.prems(4) by simp
  from copy_chain_correct [OF assms(1) Cons.prems(1-3) this] obtain sz1 where
    g: "sz \<le> sz1" "sz1 \<le> B" "copy_chain copy_fn (buckets ht ! j) (acc, sz) = Some (acc @ put_out out (buckets ht ! j), sz1)"
    "length (acc @ put_out out (buckets ht ! j)) \<le> sz1" by blast
  have "0 < sz1" using g(1) Cons.prems by simp
  from Cons.IH [OF this g(4,2)] Cons.prems(4,5) g(1,3) show ?case
    by (auto intro: order.trans)
qed auto

lemma copy_buckets_append:
  "copy_buckets copy_fn ht (js1 @ js2) st = Option.bind (copy_buckets copy_fn ht js1 st) (copy_buckets copy_fn ht js2)"
  by (induction js1 arbitrary: st) (auto split: option.splits)

lemma copy_stripes_buckets:
  "copy_stripes copy_fn ht is st = map_option
     (\<lambda>(out, sz). (out, sz, concat (map (\<lambda>i. [Rd (Stripe i), Unlock (Stripe i)]) is)))
     (copy_buckets copy_fn ht (concat (map (\<lambda>i. [i * 2 ^ buckets_per_lock_pow2 ht ..< (i + 1) * 2 ^ buckets_per_lock_pow2 ht]) is)) st)"
proof (induction "is" arbitrary: st)
  case Nil
  then show ?case by (cases st) simp
next
  case (Cons i "is")
  then show ?case
    by (auto simp: copy_buckets_append split: option.splits prod.splits bind_splits)
qed

lemma stripes_cover: "concat (map (\<lambda>i. [i * w ..< (i + 1) * w]) [0..<n]) = [0..<n * w]"
proof (induction n)
  case (Suc n)
  have "[0..<n * w] @ [n * w ..< n * w + w] = [0..<n * w + w]" by (metis add_0 upt_add_eq_append zero_le)
  then show ?case using Suc by (simp add: add.commute)
qed simp

lemma held_stripes: "held (concat (map (\<lambda>i. [Rd (Stripe i), Unlock (Stripe i)]) is) @ tr) ls = held tr ls"
  by (induction "is") simp_all

lemma htable_copy_all_keys_upto:
  assumes ok: "ht_ok V s ht" and copy: "copies_upto B copy_fn out" and B: "1024 \<le> B" "2 * length (put_out out (concat (buckets ht))) \<le> B"
  shows "\<exists>tr. htable_copy_all_keys copy_fn ht = Some (put_out out (concat (buckets ht)), tr) \<and> trace_ok ht tr"
proof (cases "element_count ht = 0")
  case True
  then have "length (concat (buckets ht)) = 0" using ok by (simp add: ht_ok_def)
  then show ?thesis using True by (auto simp: htable_copy_all_keys_def trace_ok_def)
next
  case False
  define w where "w = (2::nat) ^ buckets_per_lock_pow2 ht"
  have cover: "concat (map (\<lambda>i. [i * w ..< (i + 1) * w]) [0..<lock_count ht]) = [0..<length (buckets ht)]"
    unfolding stripes_cover using ok by (simp add: w_def ht_ok_def)
  have ne: "bucket_count ht \<noteq> 0" using ok by (auto simp: ht_ok_def ht_sizes_def)
  have nths: "map ((!) (buckets ht)) [0..<length (buckets ht)] = buckets ht" by (rule map_nth)
  from copy_buckets_correct [OF copy, of 1024 "[]" ht "[0..<length (buckets ht)]"]
  obtain sz where "copy_buckets copy_fn ht [0..<length (buckets ht)] ([], 1024) = Some (put_out out (concat (buckets ht)), sz)"
    unfolding nths using B by auto
  then show ?thesis
    using False ne held_stripes [of "[0..<lock_count ht]" "[Unlock Resize_lock]" "[Resize_lock]"]
    by (auto simp: htable_copy_all_keys_def copy_stripes_buckets w_def [symmetric] cover [simplified] trace_ok_def)
qed

lemma htable_copy_all_keys_correct:
  assumes ok: "ht_ok V s ht" and copy: "\<And>B. copies_upto B copy_fn out"
  shows "\<exists>tr. htable_copy_all_keys copy_fn ht = Some (put_out out (concat (buckets ht)), tr) \<and> trace_ok ht tr"
  by (rule htable_copy_all_keys_upto [OF ok copy, of "max 1024 (2 * length (put_out out (concat (buckets ht))))"]) simp_all

subsection \<open>The contract of a keyed table\<close>

text \<open>What the code relies on when it keeps clients and address records in tables: \<open>add\<close> refuses a
  key that is present, \<open>remove\<close> forgets a key, and nothing else changes.\<close>

locale keyed_table =
  fixes lookup :: "'t \<Rightarrow> 'k \<Rightarrow> 'v option"
    and key_of :: "'t \<Rightarrow> 'v \<Rightarrow> 'k"
    and add :: "'t \<Rightarrow> 'v \<Rightarrow> (bool \<times> 't) option"
    and remove :: "'t \<Rightarrow> 'k \<Rightarrow> 't option"
    and inv :: "'t \<Rightarrow> bool"
    and good :: "'k \<Rightarrow> bool"
  assumes add_law: "inv t \<Longrightarrow> good (key_of t v) \<Longrightarrow>
      \<exists>r t'. add t v = Some (r, t') \<and> inv t' \<and> key_of t' = key_of t \<and> r = (lookup t (key_of t v) = None) \<and>
        lookup t' = (if r then (lookup t)(key_of t v \<mapsto> v) else lookup t)"
    and remove_law: "inv t \<Longrightarrow> good k \<Longrightarrow>
      \<exists>t'. remove t k = Some t' \<and> inv t' \<and> key_of t' = key_of t \<and> lookup t' = (lookup t)(k := None)"
begin

lemma add_then_remove:
  assumes "inv t" and "good (key_of t v)" and "lookup t (key_of t v) = None"
  shows "\<exists>t' t''. add t v = Some (True, t') \<and> lookup t' (key_of t v) = Some v \<and>
    remove t' (key_of t v) = Some t'' \<and> lookup t'' = lookup t"
proof -
  from add_law [OF assms(1,2)] assms(3) obtain t' where t': "add t v = Some (True, t')" "inv t'"
    "lookup t' = (lookup t)(key_of t v \<mapsto> v)" by auto
  from remove_law [OF t'(2) assms(2)] obtain t'' where "remove t' (key_of t v) = Some t''"
    "lookup t'' = (lookup t')(key_of t v := None)" by auto
  then show ?thesis using t' assms(3) by (auto simp: fun_upd_idem)
qed

text \<open>A history of additions (\<open>Inl\<close>) and removals (\<open>Inr\<close>), on the table and on a map.\<close>

fun run_table :: "('v + 'k) list \<Rightarrow> 't \<Rightarrow> (bool list \<times> 't) option" where
  "run_table [] t = Some ([], t)"
| "run_table (Inl v # ops) t =
     (case add t v of None \<Rightarrow> None
      | Some (r, t) \<Rightarrow> map_option (\<lambda>(rs, t). (r # rs, t)) (run_table ops t))"
| "run_table (Inr k # ops) t = (case remove t k of None \<Rightarrow> None | Some t \<Rightarrow> run_table ops t)"

fun run_map :: "('v \<Rightarrow> 'k) \<Rightarrow> ('v + 'k) list \<Rightarrow> ('k \<rightharpoonup> 'v) \<Rightarrow> bool list \<times> ('k \<rightharpoonup> 'v)" where
  "run_map ky [] m = ([], m)"
| "run_map ky (Inl v # ops) m =
     (if m (ky v) = None then case run_map ky ops (m(ky v \<mapsto> v)) of (rs, m) \<Rightarrow> (True # rs, m)
      else case run_map ky ops m of (rs, m) \<Rightarrow> (False # rs, m))"
| "run_map ky (Inr k # ops) m = run_map ky ops (m(k := None))"

lemma run_table_refines:
  assumes "inv t" and "\<And>v. Inl v \<in> set ops \<Longrightarrow> good (key_of t v)" and "\<And>k. Inr k \<in> set ops \<Longrightarrow> good k"
  shows "\<exists>rs t'. run_table ops t = Some (rs, t') \<and> inv t' \<and> run_map (key_of t) ops (lookup t) = (rs, lookup t')"
  using assms
proof (induction ops arbitrary: t)
  case (Cons oper ops)
  show ?case
  proof (cases oper)
    case (Inl v)
    with add_law [of t v] Cons.prems(1,2) obtain r t' where
      t': "add t v = Some (r, t')" "inv t'" "key_of t' = key_of t" "r = (lookup t (key_of t v) = None)"
      "lookup t' = (if r then (lookup t)(key_of t v \<mapsto> v) else lookup t)" by auto
    with Cons.IH [OF t'(2)] Cons.prems(2,3) obtain rs t'' where
      "run_table ops t' = Some (rs, t'')" "inv t''" "run_map (key_of t) ops (lookup t') = (rs, lookup t'')"
      by auto
    then show ?thesis using t' Inl by (auto split: if_splits)
  next
    case (Inr k)
    with remove_law [of t k] Cons.prems(1,3) obtain t' where
      t': "remove t k = Some t'" "inv t'" "key_of t' = key_of t" "lookup t' = (lookup t)(k := None)" by auto
    with Cons.IH [OF t'(2)] Cons.prems(2,3) show ?thesis using Inr by (auto simp: fun_upd_def)
  qed
qed simp

end

text \<open>The hash table with locks and allocations that do not fail.\<close>

definition calm_locks :: lock_env where
  "calm_locks = \<lparr>rd_fails = \<lambda>_. False, wr_fails = \<lambda>_. False, try_wr = True\<rparr>"

definition calm_resize :: resize_env where
  "calm_resize = \<lparr>grow_buckets_ok = True, grow_locks_ok = True, init_locks_ok = True, shrink_locks_ok = True, shrink_buckets_ok = True\<rparr>"

definition tbl_lookup :: "htable \<times> (addr \<Rightarrow> 'a node_scheme) \<Rightarrow> hkey \<Rightarrow> addr option" where
  "tbl_lookup t k = (case t of (ht, s) \<Rightarrow> ht_map s ht k)"

definition tbl_key :: "htable \<times> (addr \<Rightarrow> 'a node_scheme) \<Rightarrow> addr \<Rightarrow> hkey" where
  "tbl_key t n = key (snd t n)"

definition tbl_add :: "htable \<times> (addr \<Rightarrow> 'a node_scheme) \<Rightarrow> addr \<Rightarrow> (bool \<times> htable \<times> (addr \<Rightarrow> 'a node_scheme)) option" where
  "tbl_add t n = (case t of (ht, s) \<Rightarrow>
     map_option (\<lambda>(r, ht', _). (r, ht', s)) (htable_add calm_locks calm_resize s ht n))"

definition tbl_remove :: "htable \<times> (addr \<Rightarrow> 'a node_scheme) \<Rightarrow> hkey \<Rightarrow> (htable \<times> (addr \<Rightarrow> 'a node_scheme)) option" where
  "tbl_remove t k = (case t of (ht, s) \<Rightarrow> map_option (\<lambda>(ht', s', _). (ht', s')) (htable_remove calm_locks s ht k))"

lemma never_fails_calm [simp]: "never_fails calm_locks"
  by (simp add: never_fails_def calm_locks_def)

sublocale key_order \<subseteq> tbl: keyed_table tbl_lookup tbl_key tbl_add tbl_remove
  "\<lambda>(ht, s). ht_ok valid s ht \<and> cmpfn ht = cmp" valid
proof
  fix t :: "htable \<times> (addr \<Rightarrow> 'a node_scheme)" and v k
  assume "case t of (ht, s) \<Rightarrow> ht_ok valid s ht \<and> cmpfn ht = cmp"
  then obtain ht s where t: "t = (ht, s)" "ht_ok valid s ht" "cmpfn ht = cmp" by (cases t) auto
  have key: "tbl_key (h, s') = (\<lambda>n. key (s' n))" for h and s' :: "addr \<Rightarrow> 'a node_scheme"
    by (rule ext) (simp add: tbl_key_def)
  have lk: "tbl_lookup (h, s') = ht_map s' h" for h and s' :: "addr \<Rightarrow> 'a node_scheme"
    by (rule ext) (simp add: tbl_lookup_def)
  {
    assume "valid (tbl_key t v)"
    then have v: "valid (key (s v))" by (simp add: t(1) key)
    have "shrink_locks_ok calm_resize" "shrink_buckets_ok calm_resize" by (simp_all add: calm_resize_def)
    from htable_add_correct [OF t(2,3) v this, of calm_locks] obtain r ht' tr where
      "htable_add calm_locks calm_resize s ht v = Some (r, ht', tr)" "ht_ok valid s ht'" "cmpfn ht' = cmp"
      "r = (ht_map s ht (key (s v)) = None)"
      "ht_map s ht' = (if r then (ht_map s ht)(key (s v) \<mapsto> v) else ht_map s ht)"
      by auto
    then show "\<exists>r t'. tbl_add t v = Some (r, t') \<and> (case t' of (ht, s) \<Rightarrow> ht_ok valid s ht \<and> cmpfn ht = cmp) \<and>
        tbl_key t' = tbl_key t \<and> r = (tbl_lookup t (tbl_key t v) = None) \<and>
        tbl_lookup t' = (if r then (tbl_lookup t)(tbl_key t v \<mapsto> v) else tbl_lookup t)"
      by (intro exI [of _ r] exI [of _ "(ht', s)"]) (simp add: tbl_add_def t(1) key lk)
  }
  assume "valid k"
  from htable_remove_correct [OF t(2,3) this, of calm_locks] obtain ht' s' tr where
    r: "htable_remove calm_locks s ht k = Some (ht', s', tr)" "ht_ok valid s' ht'" "cmpfn ht' = cmp"
    "ht_map s' ht' = (ht_map s ht)(k := None)"
    "s' = (case ht_map s ht k of None \<Rightarrow> s | Some n \<Rightarrow> node_put s n)" by auto
  have "key (s' n) = key (s n)" for n using r(5) by (simp split: option.splits)
  then show "\<exists>t'. tbl_remove t k = Some t' \<and> (case t' of (ht, s) \<Rightarrow> ht_ok valid s ht \<and> cmpfn ht = cmp) \<and>
      tbl_key t' = tbl_key t \<and> tbl_lookup t' = (tbl_lookup t)(k := None)"
    using r(1-4) by (intro exI [of _ "(ht', s')"]) (simp add: tbl_remove_def t(1) key lk)
qed

subsection \<open>Conditional lookup, sweeping\<close>

lemma node_put_get: "ref_cnt (s n) \<noteq> 0 \<Longrightarrow> node_put (node_get s n) n = s"
  by (simp add: node_put_def node_get_def Let_def)

context key_order
begin

lemma htable_get_cond_correct:
  assumes ok: "ht_ok valid s ht" and cmp: "cmpfn ht = cmp" and nf: "never_fails lenv"
    and k: "k \<noteq> [] \<Longrightarrow> hd k \<noteq> 0 \<Longrightarrow> valid k"
    and refs: "\<And>n. n \<in> ht_nodes ht \<Longrightarrow> ref_cnt (s n) \<noteq> 0"
  shows "\<exists>tr. htable_get_cond lenv s ht k cond_fn =
     (case (if k = [] \<or> hd k = 0 then None else ht_map s ht k) of
        Some n \<Rightarrow> if cond_fn n then Some (Some n, node_get s n, tr) else Some (None, s, tr)
      | None \<Rightarrow> Some (None, s, tr))"
proof (cases "k = [] \<or> hd k = 0")
  case False
  then have "valid k" using k by simp
  from htable_get_correct [OF ok cmp this, of lenv True] nf obtain r s' tr where
    r: "htable_get lenv s ht k True = Some (r, s', tr)" "r = ht_map s ht k"
    "s' = (case r of None \<Rightarrow> s | Some n \<Rightarrow> if True then node_get s n else s)" by blast
  have "node_put (node_get s n) n = s" if "ht_map s ht k = Some n" for n
  proof -
    have "n \<in> ht_nodes ht" using that by (auto simp: ht_map_def ht_nodes_def dest!: find_SomeD)
    then show ?thesis using refs node_put_get by blast
  qed
  then show ?thesis using False r by (auto simp: htable_get_cond_def split: option.splits)
qed (auto simp: htable_get_cond_def)

lemma remove_all_correct:
  assumes "ht_ok valid s ht" and "cmpfn ht = cmp" and "\<forall>n \<in> set ns. valid (key (s n))" and nf: "never_fails lenv"
  shows "\<exists>ht' s'. remove_all lenv s ht ns = Some (ht', s') \<and> ht_ok valid s' ht' \<and> cmpfn ht' = cmp \<and>
    (\<forall>n. key (s' n) = key (s n)) \<and>
    (\<forall>k. ht_map s' ht' k = (if k \<in> (\<lambda>n. key (s n)) ` set ns then None else ht_map s ht k))"
  using assms(1-3)
proof (induction ns arbitrary: s ht)
  case (Cons n ns)
  have "valid (key (s n))" using Cons.prems(3) by simp
  from htable_remove_correct [OF Cons.prems(1,2) this, of lenv] nf obtain ht1 s1 tr where
    r: "htable_remove lenv s ht (key (s n)) = Some (ht1, s1, tr)" "ht_ok valid s1 ht1" "cmpfn ht1 = cmp"
    "ht_map s1 ht1 = (ht_map s ht)(key (s n) := None)"
    "s1 = (case ht_map s ht (key (s n)) of None \<Rightarrow> s | Some n \<Rightarrow> node_put s n)" by auto
  have keys: "key (s1 m) = key (s m)" for m using r(5) by (simp split: option.splits)
  from Cons.IH [OF r(2,3)] Cons.prems(3) keys obtain ht2 s2 where
    "remove_all lenv s1 ht1 ns = Some (ht2, s2)" "ht_ok valid s2 ht2" "cmpfn ht2 = cmp" "\<forall>n. key (s2 n) = key (s1 n)"
    "\<forall>k. ht_map s2 ht2 k = (if k \<in> (\<lambda>n. key (s1 n)) ` set ns then None else ht_map s1 ht1 k)" by auto
  then show ?case using r(1,4) keys by auto
qed simp

text \<open>Only the keys of the nodes in the table matter; and the nodes after an addition or a removal.\<close>

lemma ht_agree:
  assumes "cmpfn ht = cmp" and "\<And>n. n \<in> ht_nodes ht \<Longrightarrow> key (s' n) = key (s n)"
  shows "ht_ok valid s' ht = ht_ok valid s ht" and "ht_map s' ht = ht_map s ht"
proof -
  have ch: "chain_ok (\<lambda>n. key (s' n)) ch = chain_ok (\<lambda>n. key (s n)) ch" if "set ch \<subseteq> ht_nodes ht" for ch
  proof -
    have "sorted_wrt (\<lambda>a b. cmp (key (s' a)) (key (s' b)) < 0) ch = sorted_wrt (\<lambda>a b. cmp (key (s a)) (key (s b)) < 0) ch"
      using that assms(2) by (induction ch) (simp_all add: subset_iff)
    then show ?thesis unfolding chain_ok_def using that assms(2) by (simp add: subset_iff)
  qed
  have mem: "n \<in> ht_nodes ht" if "i < length (buckets ht)" "n \<in> set (buckets ht ! i)" for i n
    using that by (auto simp: in_ht_nodes)
  have sub: "set (buckets ht ! i) \<subseteq> ht_nodes ht" if "i < length (buckets ht)" for i using mem that by blast
  show "ht_ok valid s' ht = ht_ok valid s ht"
    unfolding ht_ok_def assms(1) using ch sub mem assms(2) by (smt (verit, best))
  show "ht_map s' ht = ht_map s ht"
  proof (rule ext)
    fix k
    show "ht_map s' ht k = ht_map s ht k"
      unfolding ht_map_def by (rule find_cong) (auto simp: assms(2) ht_nodes_def)
  qed
qed

lemma nodes_after_add:
  assumes "ht_ok valid s ht" and "cmpfn ht = cmp" and "ht_ok valid s ht'" and "cmpfn ht' = cmp"
    and "ht_map s ht' = (ht_map s ht)(key (s a) \<mapsto> a)" and "ht_map s ht (key (s a)) = None"
  shows "ht_nodes ht' = insert a (ht_nodes ht)"
proof (rule set_eqI)
  fix m
  have "m \<in> ht_nodes ht' \<longleftrightarrow> ht_map s ht' (key (s m)) = Some m"
    using ht_map_Some_iff [OF assms(3,4), of "key (s m)" m] by simp
  also have "\<dots> \<longleftrightarrow> (if key (s m) = key (s a) then m = a else ht_map s ht (key (s m)) = Some m)"
    unfolding assms(5) by auto
  also have "\<dots> \<longleftrightarrow> m = a \<or> m \<in> ht_nodes ht"
    using ht_map_Some_iff [OF assms(1,2), of "key (s m)" m] assms(6) by auto
  finally show "m \<in> ht_nodes ht' \<longleftrightarrow> m \<in> insert a (ht_nodes ht)" by simp
qed

lemma nodes_after_remove:
  assumes "ht_ok valid s ht" and "cmpfn ht = cmp" and "ht_ok valid s' ht'" and "cmpfn ht' = cmp"
    and "ht_map s' ht' = (ht_map s ht)(key (s n) := None)" and "\<And>m. key (s' m) = key (s m)" and "n \<in> ht_nodes ht"
  shows "ht_nodes ht' = ht_nodes ht - {n}"
proof (rule set_eqI)
  fix m
  have "m \<in> ht_nodes ht' \<longleftrightarrow> ht_map s' ht' (key (s m)) = Some m"
    using ht_map_Some_iff [OF assms(3,4), of "key (s m)" m] assms(6) by simp
  also have "\<dots> \<longleftrightarrow> key (s m) \<noteq> key (s n) \<and> m \<in> ht_nodes ht"
    using assms(5) ht_map_Some_iff [OF assms(1,2), of "key (s m)" m] by simp
  also have "\<dots> \<longleftrightarrow> m \<in> ht_nodes ht - {n}"
    using assms(7) ht_nodes_inj [OF assms(1,2)] by (auto dest: inj_onD)
  finally show "m \<in> ht_nodes ht' \<longleftrightarrow> m \<in> ht_nodes ht - {n}" .
qed

end

end
