(* ===== verification/Mpscq.thy ===== *)
theory Mpscq
  imports Prelude
begin

text \<open>
  The message queues of \<open>server/thrdmsg_mpscq.c\<close>: a doubly linked list threaded through message nodes,
  the newest message first and \<open>tail\<close> the oldest, with an event counter (\<open>eventfd\<close> in semaphore mode)
  that readers wait for. Nodes live in a store from addresses to records; address 0 is NULL. In mode
  \<open>MODE_MPSC\<close> every operation holds the queue's mutex from its first to its last access, so it is one
  atomic step here; in mode \<open>MODE_SPSC\<close> only the owning thread uses the queue.
\<close>

datatype msgq_mode = MODE_SPSC | MODE_MPSC

record mpsc_msg_node =
  msg_next :: addr
  msg_prev :: addr
  buf :: "byte list"
  buf_size :: nat
  buf_offset :: nat
  subject_name :: "byte list"
  msg_freed :: bool

record mpsc_msg_queue =
  head_next :: addr
  tail :: addr
  efd :: nat
  qmode :: msgq_mode

type_synonym msg_store = "addr \<Rightarrow> mpsc_msg_node"

text \<open>\<open>eventfd\<close> and \<open>pthread_mutex_init\<close> may fail.\<close>

definition mpscq_create :: "msgq_mode \<Rightarrow> bool \<Rightarrow> bool \<Rightarrow> bool \<times> mpsc_msg_queue" where
  "mpscq_create queue_mode efd_ok mutex_ok =
     (let dest = \<lparr>head_next = 0, tail = 0, efd = 0, qmode = queue_mode\<rparr> in
      if queue_mode = MODE_MPSC \<and> (\<not> efd_ok \<or> \<not> mutex_ok) then (False, dest) else (True, dest))"

definition mpscq_enqueue :: "mpsc_msg_queue \<Rightarrow> msg_store \<Rightarrow> addr \<Rightarrow> mpsc_msg_queue \<times> msg_store" where
  "mpscq_enqueue q s msg =
     (if msg = 0 then (q, s)
      else let s = s(msg := (s msg)\<lparr>msg_prev := 0\<rparr>);
               (q, s) =
                 (if head_next q = 0
                  then (q\<lparr>tail := msg, head_next := msg\<rparr>, s(msg := (s msg)\<lparr>msg_next := 0\<rparr>))
                  else let s = s(msg := (s msg)\<lparr>msg_next := head_next q\<rparr>);
                           s = s(head_next q := (s (head_next q))\<lparr>msg_prev := msg\<rparr>)
                       in (q\<lparr>head_next := msg\<rparr>, s))
           in (if qmode q = MODE_MPSC then q\<lparr>efd := efd q + 1\<rparr> else q, s))"

definition mpscq_dequeue :: "mpsc_msg_queue \<Rightarrow> msg_store \<Rightarrow> addr option \<times> mpsc_msg_queue \<times> msg_store" where
  "mpscq_dequeue q s =
     (if tail q = 0 then (None, q, s)
      else let q = (if qmode q = MODE_MPSC then q\<lparr>efd := efd q - 1\<rparr> else q);
               temp = tail q;
               (q, s) =
                 (if msg_prev (s temp) = 0 then (q\<lparr>head_next := 0, tail := 0\<rparr>, s)
                  else (q\<lparr>tail := msg_prev (s temp)\<rparr>, s(msg_prev (s temp) := (s (msg_prev (s temp)))\<lparr>msg_next := 0\<rparr>)))
           in (Some temp, q, s(temp := (s temp)\<lparr>msg_prev := 0\<rparr>)))"

text \<open>The two walks along the list; \<open>None\<close> is a walk that does not end.\<close>

partial_function (option) destroy_walk :: "msg_store \<Rightarrow> addr \<Rightarrow> msg_store option" where
  "destroy_walk s temp =
     (if temp = 0 then Some s
      else let temp2 = temp; temp = msg_next (s temp) in destroy_walk (s(temp2 := (s temp2)\<lparr>msg_freed := True\<rparr>)) temp)"

definition mpscq_destroy :: "mpsc_msg_queue \<Rightarrow> msg_store \<Rightarrow> msg_store option" where
  "mpscq_destroy q s = destroy_walk s (head_next q)"

definition unlink_msg :: "mpsc_msg_queue \<Rightarrow> msg_store \<Rightarrow> addr \<Rightarrow> mpsc_msg_queue \<times> msg_store" where
  "unlink_msg q s mnode =
     (let q = (if tail q = mnode then q\<lparr>tail := msg_prev (s mnode)\<rparr> else q);
          (q, s) = (if msg_prev (s mnode) \<noteq> 0
                    then (q, s(msg_prev (s mnode) := (s (msg_prev (s mnode)))\<lparr>msg_next := msg_next (s mnode)\<rparr>))
                    else (q\<lparr>head_next := msg_next (s mnode)\<rparr>, s));
          s = (if msg_next (s mnode) \<noteq> 0
               then s(msg_next (s mnode) := (s (msg_next (s mnode)))\<lparr>msg_prev := msg_prev (s mnode)\<rparr>) else s)
      in (q, s))"

partial_function (option) flush_walk :: "byte list \<Rightarrow> mpsc_msg_queue \<Rightarrow> msg_store \<Rightarrow> addr \<Rightarrow> (mpsc_msg_queue \<times> msg_store) option" where
  "flush_walk subject q s mnode =
     (if mnode = 0 then Some (q, s)
      else if strncmp (subject_name (s mnode)) subject 32 \<noteq> 0 then flush_walk subject q s (msg_next (s mnode))
      else case unlink_msg q s mnode of (q, s) \<Rightarrow>
        let temp = mnode; mnode = msg_next (s mnode)
        in flush_walk subject (q\<lparr>efd := efd q - 1\<rparr>)
             (s(temp := (s temp)\<lparr>msg_next := 0, msg_prev := 0, msg_freed := True\<rparr>)) mnode)"

definition mpscq_flush_msgs_with_subject :: "mpsc_msg_queue \<Rightarrow> msg_store \<Rightarrow> byte list \<Rightarrow> (mpsc_msg_queue \<times> msg_store) option" where
  "mpscq_flush_msgs_with_subject q s subject =
     (if qmode q = MODE_SPSC then Some (q, s) else flush_walk subject q s (head_next q))"

text \<open>\<open>uninit\<close> is what the fresh buffer holds.\<close>

definition msg_node_create :: "byte list option \<Rightarrow> nat \<Rightarrow> byte list option \<Rightarrow> byte list \<Rightarrow> mpsc_msg_node" where
  "msg_node_create src sz subject uninit =
     \<lparr>msg_next = 0, msg_prev = 0, buf = (case src of None \<Rightarrow> take sz uninit | Some bs \<Rightarrow> take sz bs),
      buf_size = sz mod 2 ^ 32, buf_offset = 0,
      subject_name = (case subject of None \<Rightarrow> replicate 32 0 | Some nm \<Rightarrow> strncpy_bytes nm 32), msg_freed = False\<rparr>"

subsection \<open>The list a queue stands for\<close>

fun dll :: "msg_store \<Rightarrow> addr \<Rightarrow> addr list \<Rightarrow> addr \<Rightarrow> bool" where
  "dll s p [] n = True"
| "dll s p (x # xs) n = (msg_prev (s x) = p \<and> msg_next (s x) = (if xs = [] then n else hd xs) \<and> dll s x xs n)"

lemma dll_append:
  "dll s p (xs @ ys) n \<longleftrightarrow>
     dll s p xs (if ys = [] then n else hd ys) \<and> dll s (if xs = [] then p else last xs) ys n"
  by (induction xs arbitrary: p) auto

lemma dll_cong: "(\<And>x. x \<in> set xs \<Longrightarrow> msg_prev (s' x) = msg_prev (s x) \<and> msg_next (s' x) = msg_next (s x)) \<Longrightarrow> dll s' p xs n = dll s p xs n"
  by (induction xs arbitrary: p) auto

text \<open>\<open>queue_is q s ms\<close>: the queue holds the messages \<open>ms\<close>, the oldest first.\<close>

definition queue_is :: "mpsc_msg_queue \<Rightarrow> msg_store \<Rightarrow> addr list \<Rightarrow> bool" where
  "queue_is q s ms \<longleftrightarrow>
     distinct ms \<and> 0 \<notin> set ms \<and> dll s 0 (rev ms) 0 \<and>
     head_next q = (if ms = [] then 0 else last ms) \<and> tail q = (if ms = [] then 0 else hd ms) \<and>
     (qmode q = MODE_MPSC \<longrightarrow> efd q = length ms)"

text \<open>What a queue operation leaves alone in the nodes.\<close>

definition same_payload :: "mpsc_msg_node \<Rightarrow> mpsc_msg_node \<Rightarrow> bool" where
  "same_payload m m' \<longleftrightarrow> buf m' = buf m \<and> buf_size m' = buf_size m \<and> buf_offset m' = buf_offset m \<and>
     subject_name m' = subject_name m"

lemma same_payload_refl [simp]: "same_payload m m"
  by (simp add: same_payload_def)

lemma same_payload_trans: "same_payload a b \<Longrightarrow> same_payload b c \<Longrightarrow> same_payload a c"
  by (simp add: same_payload_def)

lemma mpscq_create_correct:
  "mpscq_create mode efd_ok mutex_ok = (True, q) \<Longrightarrow> queue_is q s [] \<and> qmode q = mode"
  by (auto simp: mpscq_create_def queue_is_def Let_def split: if_splits)

lemma enqueue_lemma:
  assumes "queue_is q s ms" and "m \<noteq> 0" and "m \<notin> set ms"
  shows "case mpscq_enqueue q s m of (q', s') \<Rightarrow> queue_is q' s' (ms @ [m]) \<and> qmode q' = qmode q \<and>
    (\<forall>x. same_payload (s x) (s' x) \<and> msg_freed (s' x) = msg_freed (s x))"
proof (cases "ms = []")
  case True
  then show ?thesis
    using assms by (simp add: mpscq_enqueue_def queue_is_def same_payload_def)
next
  case False
  then obtain y ys where ms: "rev ms = y # ys" by (cases "rev ms") auto
  then have last: "last ms = y" by (metis hd_rev list.sel(1))
  have y: "y \<noteq> 0" "y \<noteq> m" "y \<notin> set ys" "m \<notin> set ys"
  proof -
    have "distinct (y # ys)" "set (y # ys) = set ms" "0 \<notin> set ms"
      using assms(1) unfolding ms [symmetric] by (simp_all add: queue_is_def)
    then show "y \<noteq> 0" "y \<noteq> m" "y \<notin> set ys" "m \<notin> set ys"
      using assms(3) by (metis distinct.simps(2) list.set_intros)+
  qed
  have hn: "head_next q = y" using assms(1) False last by (simp add: queue_is_def)
  define s' where "s' = (s(m := (s m)\<lparr>msg_prev := 0, msg_next := y\<rparr>))(y := (s y)\<lparr>msg_prev := m\<rparr>)"
  define q' where "q' = (if qmode q = MODE_MPSC then q\<lparr>head_next := m, efd := efd q + 1\<rparr> else q\<lparr>head_next := m\<rparr>)"
  have e: "mpscq_enqueue q s m = (q', s')"
    using assms(2) hn y by (simp add: mpscq_enqueue_def Let_def s'_def q'_def)
  have "dll s' y ys 0 = dll s y ys 0" by (rule dll_cong) (use y in \<open>auto simp: s'_def\<close>)
  then have "dll s' 0 (rev (ms @ [m])) 0"
    using assms(1) y ms by (simp add: queue_is_def s'_def)
  then have "queue_is q' s' (ms @ [m])"
    using assms False by (auto simp: queue_is_def q'_def)
  then show ?thesis by (auto simp: e q'_def s'_def same_payload_def)
qed

lemma dequeue_empty: "queue_is q s [] \<Longrightarrow> mpscq_dequeue q s = (None, q, s)"
  by (simp add: queue_is_def mpscq_dequeue_def)

lemma dequeue_lemma:
  assumes "queue_is q s (m # ms)"
  shows "case mpscq_dequeue q s of (r, q', s') \<Rightarrow> r = Some m \<and> queue_is q' s' ms \<and> qmode q' = qmode q \<and>
    (\<forall>x. same_payload (s x) (s' x) \<and> msg_freed (s' x) = msg_freed (s x))"
proof (cases "ms = []")
  case True
  then show ?thesis
    using assms by (auto simp: mpscq_dequeue_def queue_is_def same_payload_def Let_def)
next
  case False
  define p where "p = hd ms"
  have "0 \<notin> set ms" "m \<notin> set ms" using assms by (simp_all add: queue_is_def)
  moreover have "p \<in> set ms" using False by (simp add: p_def)
  ultimately have p: "p \<in> set ms" "p \<noteq> 0" "p \<noteq> m" by metis+
  have lst: "last (rev ms) = p" "rev ms \<noteq> []" using False by (simp_all add: last_rev p_def)
  have d: "dll s 0 (rev ms) m" "msg_prev (s m) = p"
    using assms lst by (simp_all add: queue_is_def dll_append)
  obtain ys where ys: "rev ms = ys @ [p]" using lst by (metis append_butlast_last_id)
  have dist: "distinct (rev ms)" "m \<notin> set (rev ms)" using assms by (simp_all add: queue_is_def)
  define s' where "s' = s(p := (s p)\<lparr>msg_next := 0\<rparr>, m := (s m)\<lparr>msg_prev := 0\<rparr>)"
  define q' where "q' = (if qmode q = MODE_MPSC then q\<lparr>efd := efd q - 1, tail := p\<rparr> else q\<lparr>tail := p\<rparr>)"
  have e: "mpscq_dequeue q s = (Some m, q', s')"
    using assms d(2) p by (simp add: mpscq_dequeue_def queue_is_def Let_def s'_def q'_def)
  have "dll s' 0 ys p = dll s 0 ys p"
    by (rule dll_cong) (use dist ys in \<open>auto simp: s'_def\<close>)
  then have "dll s' 0 (rev ms) 0"
    using d(1) ys p by (auto simp: dll_append s'_def)
  then have "queue_is q' s' ms"
    using assms False by (auto simp: queue_is_def q'_def p_def)
  then show ?thesis by (auto simp: e q'_def s'_def same_payload_def)
qed

lemma queue_is_rev:
  "queue_is q s (rev zs) \<longleftrightarrow>
     distinct zs \<and> 0 \<notin> set zs \<and> dll s 0 zs 0 \<and>
     head_next q = (if zs = [] then 0 else hd zs) \<and> tail q = (if zs = [] then 0 else last zs) \<and>
     (qmode q = MODE_MPSC \<longrightarrow> efd q = length zs)"
  by (simp add: queue_is_def last_rev hd_rev)

lemma unlink_lemma:
  assumes q: "queue_is q s (rev (xs @ m # ys))" and u: "unlink_msg q s m = (q1, s1)" and mode: "qmode q = MODE_MPSC"
    and s2: "s2 = s1(m := (s1 m)\<lparr>msg_next := 0, msg_prev := 0, msg_freed := True\<rparr>)"
  shows "queue_is (q1\<lparr>efd := efd q1 - 1\<rparr>) s2 (rev (xs @ ys))" "qmode q1 = MODE_MPSC"
    "msg_next (s1 m) = (if ys = [] then 0 else hd ys)"
    "\<forall>x. same_payload (s x) (s2 x) \<and> msg_freed (s2 x) = (msg_freed (s x) \<or> x = m)"
proof -
  define p where "p = (if xs = [] then 0 else last xs)"
  define n where "n = (if ys = [] then 0 else hd ys)"
  have dist: "distinct xs" "distinct ys" "m \<notin> set xs" "m \<notin> set ys" "\<forall>x. \<not> (x \<in> set xs \<and> x \<in> set ys)"
    and nz: "m \<noteq> 0" "0 \<notin> set xs" "0 \<notin> set ys"
    using q by (auto simp: queue_is_def)
  have m: "msg_prev (s m) = p" "msg_next (s m) = n" and d: "dll s 0 xs m" "dll s m ys 0"
    using q by (auto simp: queue_is_def dll_append p_def n_def)
  have p: "p = 0 \<longleftrightarrow> xs = []" "xs \<noteq> [] \<Longrightarrow> p \<in> set xs" "p \<noteq> m" "p \<notin> set ys"
  proof -
    have lx: "xs \<noteq> [] \<Longrightarrow> p \<in> set xs" and e: "xs = [] \<Longrightarrow> p = 0" by (simp_all add: p_def)
    show "p = 0 \<longleftrightarrow> xs = []" "xs \<noteq> [] \<Longrightarrow> p \<in> set xs" "p \<noteq> m" "p \<notin> set ys"
      using lx e nz dist by metis+
  qed
  have n: "n = 0 \<longleftrightarrow> ys = []" "ys \<noteq> [] \<Longrightarrow> n \<in> set ys" "n \<noteq> m" "n \<notin> set xs"
  proof -
    have hy: "ys \<noteq> [] \<Longrightarrow> n \<in> set ys" and e: "ys = [] \<Longrightarrow> n = 0" by (simp_all add: n_def)
    show "n = 0 \<longleftrightarrow> ys = []" "ys \<noteq> [] \<Longrightarrow> n \<in> set ys" "n \<noteq> m" "n \<notin> set xs"
      using hy e nz dist by metis+
  qed
  have tl: "tail q = (if ys = [] then m else last ys)" and hd: "head_next q = (if xs = [] then m else hd xs)"
    and efd: "efd q = Suc (length xs + length ys)"
    using q mode by (auto simp: queue_is_def hd_append last_rev hd_rev)
  have tm: "tail q = m \<longleftrightarrow> ys = []" using tl dist by (auto dest: last_in_set)
  define sa where "sa = (if p = 0 then s else s(p := (s p)\<lparr>msg_next := n\<rparr>))"
  define sb where "sb = (if n = 0 then sa else sa(n := (sa n)\<lparr>msg_prev := p\<rparr>))"
  have pn: "p \<noteq> n \<or> p = 0 \<and> n = 0" using p n by metis
  have sam: "msg_prev (sa m) = p" "msg_next (sa m) = n" using m p by (simp_all add: sa_def)
  have s1: "s1 = sb" and q1: "q1 = (let q = (if ys = [] then q\<lparr>tail := p\<rparr> else q) in if xs = [] then q\<lparr>head_next := n\<rparr> else q)"
    using u m p(1) by (auto simp: unlink_msg_def Let_def sa_def sb_def tm sam split: if_splits)
  have s1m: "s1 m = s m" using p n by (simp add: s1 sb_def sa_def)
  show "qmode q1 = MODE_MPSC" using mode by (simp add: q1 Let_def)
  show "msg_next (s1 m) = (if ys = [] then 0 else hd ys)" using m s1m by (simp add: n_def)
  show "\<forall>x. same_payload (s x) (s2 x) \<and> msg_freed (s2 x) = (msg_freed (s x) \<or> x = m)"
    by (auto simp: s2 s1 sa_def sb_def same_payload_def)
  have fields: "msg_next (s2 x) = (if x = p then n else msg_next (s x))"
    "msg_prev (s2 x) = (if x = n then p else msg_prev (s x))" if "x \<noteq> m" "x \<noteq> 0" for x
    using that by (auto simp: s2 s1 sa_def sb_def)
  have "dll s2 0 xs n"
  proof (cases "xs = []")
    case False
    then obtain xs' where xs: "xs = xs' @ [p]" by (metis append_butlast_last_id p_def)
    have ne: "x \<noteq> p \<and> x \<noteq> n \<and> x \<noteq> m \<and> x \<noteq> 0" if "x \<in> set xs'" for x
      using that dist(1,3) nz(2) n(4) by (auto simp: xs intro!: gr0I)
    have "dll s2 0 xs' p = dll s 0 xs' p" by (rule dll_cong) (simp add: fields ne)
    moreover have "p \<noteq> m" "p \<noteq> 0" "p \<noteq> n" using p n False by auto
    ultimately show ?thesis using d(1) by (simp add: xs dll_append fields)
  qed simp
  moreover have "dll s2 p ys 0"
  proof (cases ys)
    case (Cons y ys')
    then have y: "n = y" by (simp add: n_def)
    have ne: "x \<noteq> p \<and> x \<noteq> n \<and> x \<noteq> m \<and> x \<noteq> 0" if "x \<in> set ys'" for x
      using that dist(2,4) nz(3) p(4) by (auto simp: Cons y intro!: gr0I)
    have "dll s2 y ys' 0 = dll s y ys' 0" by (rule dll_cong) (simp add: fields ne)
    moreover have "y \<noteq> m" "y \<noteq> 0" "y \<noteq> p" using n p Cons y by auto
    ultimately show ?thesis using d(2) by (simp add: Cons y fields)
  qed simp
  ultimately have "dll s2 0 (xs @ ys) 0" by (simp add: dll_append p_def n_def)
  moreover have "head_next q1 = (if xs @ ys = [] then 0 else hd (xs @ ys))"
    using hd by (simp add: q1 n_def Let_def hd_append)
  moreover have "tail q1 = (if xs @ ys = [] then 0 else last (xs @ ys))"
    using tl by (simp add: q1 p_def Let_def last_append)
  moreover have "efd q1 = efd q" by (simp add: q1 Let_def)
  ultimately show "queue_is (q1\<lparr>efd := efd q1 - 1\<rparr>) s2 (rev (xs @ ys))"
    unfolding queue_is_rev using dist nz efd by (simp add: disjoint_iff)
qed

lemma flush_walk_correct:
  assumes "queue_is q s (rev (kept @ rest))" and "qmode q = MODE_MPSC" and "mnode = (if rest = [] then 0 else hd rest)"
  shows "\<exists>q' s'. flush_walk subject q s mnode = Some (q', s') \<and> qmode q' = MODE_MPSC \<and>
    queue_is q' s' (rev (kept @ filter (\<lambda>x. strncmp (subject_name (s x)) subject 32 \<noteq> 0) rest)) \<and>
    (\<forall>x. same_payload (s x) (s' x) \<and>
       msg_freed (s' x) = (msg_freed (s x) \<or> x \<in> set rest \<and> strncmp (subject_name (s x)) subject 32 = 0))"
  using assms
proof (induction rest arbitrary: kept q s mnode)
  case Nil
  then show ?case by (subst flush_walk.simps) auto
next
  case (Cons m rest)
  have m: "mnode = m" "m \<noteq> 0" using Cons.prems by (auto simp: queue_is_def)
  show ?case
  proof (cases "strncmp (subject_name (s m)) subject 32 = 0")
    case False
    have nx: "msg_next (s m) = (if rest = [] then 0 else hd rest)"
      using Cons.prems(1) by (auto simp: queue_is_def dll_append)
    have "flush_walk subject q s mnode = flush_walk subject q s (msg_next (s m))"
      using m False by (subst flush_walk.simps) simp
    then show ?thesis
      using Cons.IH [of q s "kept @ [m]" "msg_next (s m)"] Cons.prems(1,2) nx False by auto
  next
    case True
    obtain q1 s1 where u: "unlink_msg q s m = (q1, s1)" by fastforce
    define s2 where "s2 = s1(m := (s1 m)\<lparr>msg_next := 0, msg_prev := 0, msg_freed := True\<rparr>)"
    note ul = unlink_lemma [OF Cons.prems(1) u Cons.prems(2) s2_def]
    have "flush_walk subject q s mnode = flush_walk subject (q1\<lparr>efd := efd q1 - 1\<rparr>) s2 (msg_next (s1 m))"
      using m True u by (subst flush_walk.simps) (simp add: Let_def s2_def)
    moreover have subj: "subject_name (s2 x) = subject_name (s x)" for x
      using ul(4) by (simp add: same_payload_def)
    ultimately show ?thesis
      using Cons.IH [OF ul(1) _ ul(3)] ul(2,4) True same_payload_trans [of "s x" "s2 x" for x]
      by (fastforce simp: subj)
  qed
qed

text \<open>No operation touches a node outside the queue, so separate queues do not disturb each other.\<close>

lemma queue_is_cong:
  assumes "queue_is q s ms" and "\<And>x. x \<in> set ms \<Longrightarrow> s' x = s x"
  shows "queue_is q s' ms"
proof -
  have "dll s' 0 (rev ms) 0 = dll s 0 (rev ms) 0" by (rule dll_cong) (use assms(2) in simp)
  then show ?thesis using assms(1) by (simp add: queue_is_def)
qed

lemma enqueue_frame:
  assumes "queue_is q s ms" and "mpscq_enqueue q s m = (q', s')" and "x \<notin> set ms" and "x \<noteq> m"
  shows "s' x = s x"
proof -
  have "ms \<noteq> [] \<Longrightarrow> last ms \<noteq> x" using assms(3) last_in_set by metis
  then show ?thesis
    using assms by (auto simp: mpscq_enqueue_def queue_is_def Let_def split: if_splits)
qed

lemma dll_prev_in:
  "dll s p xs n \<Longrightarrow> x \<in> set xs \<Longrightarrow> msg_prev (s x) = p \<or> msg_prev (s x) \<in> set xs"
  by (induction xs arbitrary: p) auto

lemma dll_next_in:
  "dll s p xs n \<Longrightarrow> x \<in> set xs \<Longrightarrow> msg_next (s x) = n \<or> msg_next (s x) \<in> set xs"
proof (induction xs arbitrary: p)
  case (Cons y ys)
  then show ?case by (cases ys) auto
qed simp

lemma dequeue_frame:
  assumes "queue_is q s ms" and "mpscq_dequeue q s = (r, q', s')" and "x \<notin> set ms"
  shows "s' x = s x"
proof (cases "ms = []")
  case True
  then show ?thesis using dequeue_empty [of q s] assms(1,2) by simp
next
  case False
  then have t: "tail q \<in> set ms" "0 \<notin> set ms" using assms(1) by (simp_all add: queue_is_def)
  then have "msg_prev (s (tail q)) = 0 \<or> msg_prev (s (tail q)) \<in> set ms"
    using assms(1) dll_prev_in [of s 0 "rev ms" 0 "tail q"] by (auto simp: queue_is_def)
  then show ?thesis using assms(2,3) t by (auto simp: mpscq_dequeue_def Let_def split: if_splits)
qed

lemma flush_walk_frame:
  assumes "queue_is q s (rev (before @ todo))" and "qmode q = MODE_MPSC" and "mnode = (if todo = [] then 0 else hd todo)"
    and "x \<notin> set (before @ todo)" and "flush_walk subject q s mnode = Some (q', s')"
  shows "s' x = s x"
  using assms
proof (induction todo arbitrary: before q s mnode)
  case Nil
  then show ?case by (subst (asm) flush_walk.simps) simp
next
  case (Cons m todo)
  have m: "mnode = m" "m \<noteq> 0" using Cons.prems by (auto simp: queue_is_def)
  have d: "dll s 0 (before @ m # todo) 0" using Cons.prems(1) by (simp add: queue_is_def)
  have x: "x \<noteq> m" "x \<notin> set before" "x \<notin> set todo" using Cons.prems(4) by auto
  show ?case
  proof (cases "strncmp (subject_name (s m)) subject 32 = 0")
    case False
    have nx: "msg_next (s m) = (if todo = [] then 0 else hd todo)" using d by (auto simp: dll_append)
    have "flush_walk subject q s (msg_next (s m)) = Some (q', s')"
      using Cons.prems(5) m False by (subst (asm) flush_walk.simps) simp
    then show ?thesis
      using Cons.IH [of q s "before @ [m]" "msg_next (s m)"] Cons.prems(1,2,4) nx by auto
  next
    case True
    obtain q1 s1 where u: "unlink_msg q s m = (q1, s1)" by fastforce
    define s2 where "s2 = s1(m := (s1 m)\<lparr>msg_next := 0, msg_prev := 0, msg_freed := True\<rparr>)"
    note ul = unlink_lemma [OF Cons.prems(1) u Cons.prems(2) s2_def]
    have w: "flush_walk subject (q1\<lparr>efd := efd q1 - 1\<rparr>) s2 (msg_next (s1 m)) = Some (q', s')"
      using Cons.prems(5) m True u by (subst (asm) flush_walk.simps) (simp add: Let_def s2_def)
    have "x \<noteq> msg_prev (s m) \<or> msg_prev (s m) = 0" "x \<noteq> msg_next (s m) \<or> msg_next (s m) = 0"
      using dll_prev_in [OF d, of m] dll_next_in [OF d, of m] Cons.prems(4) by auto
    then have "s1 x = s x"
      using u x by (auto simp: unlink_msg_def Let_def split: if_splits)
    then have "s2 x = s x" using x by (simp add: s2_def)
    then show ?thesis
      using Cons.IH [OF ul(1) _ ul(3) _ w] ul(2) Cons.prems(4) by simp
  qed
qed

lemma flush_frame:
  assumes "queue_is q s ms" and "mpscq_flush_msgs_with_subject q s subject = Some (q', s')" and "x \<notin> set ms"
  shows "s' x = s x"
proof (cases "qmode q")
  case MODE_MPSC
  have "head_next q = (if rev ms = [] then 0 else hd (rev ms))" using assms(1) by (simp add: queue_is_def hd_rev)
  then show ?thesis
    using flush_walk_frame [of q s "[]" "rev ms" "head_next q" x subject q' s'] assms MODE_MPSC
    by (simp add: mpscq_flush_msgs_with_subject_def)
qed (use assms(2) in \<open>simp add: mpscq_flush_msgs_with_subject_def\<close>)

lemma flush_lemma:
  assumes "queue_is q s ms" and "qmode q = MODE_MPSC"
  shows "\<exists>q' s'. mpscq_flush_msgs_with_subject q s subject = Some (q', s') \<and> qmode q' = MODE_MPSC \<and>
    queue_is q' s' (filter (\<lambda>x. strncmp (subject_name (s x)) subject 32 \<noteq> 0) ms) \<and>
    (\<forall>x. same_payload (s x) (s' x) \<and>
       msg_freed (s' x) = (msg_freed (s x) \<or> x \<in> set ms \<and> strncmp (subject_name (s x)) subject 32 = 0))"
proof -
  have "queue_is q s (rev ([] @ rev ms))" using assms(1) by simp
  moreover have "head_next q = (if rev ms = [] then 0 else hd (rev ms))"
    using assms(1) by (simp add: queue_is_def hd_rev)
  ultimately show ?thesis
    using flush_walk_correct [of q s "[]" "rev ms" "head_next q" subject] assms(2)
    by (auto simp: mpscq_flush_msgs_with_subject_def rev_filter)
qed

definition freed_msgs :: "addr set \<Rightarrow> msg_store \<Rightarrow> msg_store" where
  "freed_msgs A s = (\<lambda>x. if x \<in> A then (s x)\<lparr>msg_freed := True\<rparr> else s x)"

lemma destroy_walk_correct:
  assumes "dll s p xs 0" and "distinct xs" and "0 \<notin> set xs" and "m = (if xs = [] then 0 else hd xs)"
  shows "destroy_walk s m = Some (freed_msgs (set xs) s)"
  using assms
proof (induction xs arbitrary: s p m)
  case Nil
  then show ?case by (subst destroy_walk.simps) (simp add: freed_msgs_def)
next
  case (Cons x xs)
  define s1 where "s1 = s(x := (s x)\<lparr>msg_freed := True\<rparr>)"
  have "dll s1 x xs 0 = dll s x xs 0" by (rule dll_cong) (simp add: s1_def)
  then have "destroy_walk s1 (if xs = [] then 0 else hd xs) = Some (freed_msgs (set xs) s1)"
    using Cons.IH [of s1 x] Cons.prems by auto
  moreover have "destroy_walk s m = destroy_walk s1 (if xs = [] then 0 else hd xs)"
    using Cons.prems by (subst destroy_walk.simps) (simp add: Let_def s1_def)
  moreover have "freed_msgs (set xs) s1 = freed_msgs (set (x # xs)) s" by (auto simp: freed_msgs_def s1_def)
  ultimately show ?case by simp
qed

lemma destroy_exact: "queue_is q s ms \<Longrightarrow> mpscq_destroy q s = Some (freed_msgs (set ms) s)"
  using destroy_walk_correct [of s 0 "rev ms" "head_next q"]
  by (auto simp: queue_is_def mpscq_destroy_def hd_rev)

lemma destroy_lemma:
  assumes "queue_is q s ms"
  shows "\<exists>s'. mpscq_destroy q s = Some s' \<and> (\<forall>x. msg_freed (s' x) = (msg_freed (s x) \<or> x \<in> set ms))"
  using destroy_exact [OF assms] by (simp add: freed_msgs_def)

subsection \<open>The contract of a queue\<close>

text \<open>What the senders and the owner of a queue rely on. \<open>holds q ms\<close> says that \<open>q\<close> holds the
  messages \<open>ms\<close>, the oldest first.\<close>

locale fifo =
  fixes holds :: "'q \<Rightarrow> 'm list \<Rightarrow> bool"
    and enq :: "'q \<Rightarrow> 'm \<Rightarrow> 'q"
    and deq :: "'q \<Rightarrow> 'm option \<times> 'q"
    and good :: "'m \<Rightarrow> bool"
  assumes enq_law: "holds q ms \<Longrightarrow> good m \<Longrightarrow> m \<notin> set ms \<Longrightarrow> holds (enq q m) (ms @ [m])"
    and deq_empty_law: "holds q [] \<Longrightarrow> deq q = (None, q)"
    and deq_law: "holds q (m # ms) \<Longrightarrow> \<exists>q'. deq q = (Some m, q') \<and> holds q' ms"
begin

lemma enq_all:
  assumes "holds q ms" and "\<forall>m \<in> set ns. good m" and "distinct (ms @ ns)"
  shows "holds (foldl enq q ns) (ms @ ns)"
  using assms
proof (induction ns arbitrary: q ms)
  case (Cons n ns)
  then have "holds (enq q n) (ms @ [n])" by (intro enq_law) auto
  then show ?case using Cons.IH [of "enq q n" "ms @ [n]"] Cons.prems by simp
qed simp

fun deqs :: "nat \<Rightarrow> 'q \<Rightarrow> 'm list \<times> 'q" where
  "deqs 0 q = ([], q)"
| "deqs (Suc n) q = (case deq q of (None, q) \<Rightarrow> ([], q) | (Some m, q) \<Rightarrow> (case deqs n q of (ms, q) \<Rightarrow> (m # ms, q)))"

lemma deqs_holds: "holds q ms \<Longrightarrow> \<exists>q'. deqs n q = (take n ms, q') \<and> holds q' (drop n ms)"
proof (induction n arbitrary: q ms)
  case (Suc n)
  show ?case
  proof (cases ms)
    case Nil
    then show ?thesis using Suc.prems deq_empty_law by auto
  next
    case (Cons m ms')
    then obtain q1 where "deq q = (Some m, q1)" "holds q1 ms'" using deq_law Suc.prems by blast
    then show ?thesis using Suc.IH [of q1 ms'] Cons by auto
  qed
qed auto

text \<open>First in, first out: what is enqueued behind \<open>ms\<close> comes out behind \<open>ms\<close>, in order.\<close>

lemma first_in_first_out:
  assumes "holds q ms" and "\<forall>m \<in> set ns. good m" and "distinct (ms @ ns)"
  shows "fst (deqs (length ms + length ns) (foldl enq q ns)) = ms @ ns"
  using deqs_holds [OF enq_all [OF assms], of "length ms + length ns"] by auto

end

definition q_enq :: "mpsc_msg_queue \<times> msg_store \<Rightarrow> addr \<Rightarrow> mpsc_msg_queue \<times> msg_store" where
  "q_enq qs m = mpscq_enqueue (fst qs) (snd qs) m"

definition q_deq :: "mpsc_msg_queue \<times> msg_store \<Rightarrow> addr option \<times> mpsc_msg_queue \<times> msg_store" where
  "q_deq qs = mpscq_dequeue (fst qs) (snd qs)"

interpretation msgq: fifo "\<lambda>qs. queue_is (fst qs) (snd qs)" q_enq q_deq "\<lambda>m. m \<noteq> 0"
proof
  fix qs ms m
  show "queue_is (fst (q_enq qs m)) (snd (q_enq qs m)) (ms @ [m])"
    if "queue_is (fst qs) (snd qs) ms" "m \<noteq> 0" "m \<notin> set ms"
    using enqueue_lemma [OF that] by (auto simp: q_enq_def split: prod.splits)
  show "q_deq qs = (None, qs)" if "queue_is (fst qs) (snd qs) []"
    using dequeue_empty [OF that] by (simp add: q_deq_def)
  show "\<exists>q'. q_deq qs = (Some m, q') \<and> queue_is (fst q') (snd q') ms" if "queue_is (fst qs) (snd qs) (m # ms)"
    using dequeue_lemma [OF that] by (auto simp: q_deq_def split: prod.splits)
qed

text \<open>Dequeuing up to \<open>n\<close> messages.\<close>

fun q_deqs :: "nat \<Rightarrow> mpsc_msg_queue \<times> msg_store \<Rightarrow> addr list \<times> mpsc_msg_queue \<times> msg_store" where
  "q_deqs 0 qs = ([], qs)"
| "q_deqs (Suc n) qs =
     (case mpscq_dequeue (fst qs) (snd qs) of (None, qs) \<Rightarrow> ([], qs)
      | (Some m, qs) \<Rightarrow> (case q_deqs n qs of (ms, qs) \<Rightarrow> (m # ms, qs)))"

lemma q_deqs_deqs: "q_deqs n qs = msgq.deqs n qs"
  by (induction n arbitrary: qs) (simp_all add: q_deq_def split: option.split prod.split)

subsection \<open>Properties\<close>

definition example_msgs :: msg_store where
  "example_msgs a = msg_node_create (Some (if a = 1 then [1] else [2, 2])) 2 (Some (if a = 1 then [97, 0] else [98, 0])) []"

definition example_queue :: mpsc_msg_queue where
  "example_queue = \<lparr>head_next = 0, tail = 0, efd = 0, qmode = MODE_MPSC\<rparr>"

lemma example_queue_empty: "queue_is example_queue example_msgs []"
  by (simp add: queue_is_def example_queue_def)

text \<open>C38. The message queue is first in, first out: on a queue holding \<open>ms\<close> (the oldest first), after the
  messages \<open>ns\<close> are enqueued one by one, dequeuing returns \<open>ms\<close> and then \<open>ns\<close>, in order, whatever the
  mode of the queue.\<close>

theorem mpscq_first_in_first_out:
  assumes "queue_is q s ms" and "\<forall>m \<in> set ns. m \<noteq> 0" and "distinct (ms @ ns)"
  shows "fst (q_deqs (length ms + length ns) (foldl q_enq (q, s) ns)) = ms @ ns"
  unfolding q_deqs_deqs by (rule msgq.first_in_first_out) (use assms in simp_all)

theorem mpscq_first_in_first_out_witness:
  "fst (q_deqs 2 (foldl q_enq (example_queue, example_msgs) [1, 2])) = [1, 2]"
  using mpscq_first_in_first_out [OF example_queue_empty, of "[1, 2]"] by (simp add: numeral_2_eq_2)

text \<open>In a queue that threads share, the event counter always equals the number of queued messages: creation
  starts both at zero, and enqueuing, dequeuing and flushing keep them equal, so that a reader that
  waits for the event finds a message.\<close>

lemma mpscq_event_counter:
  assumes "queue_is q s ms" and "qmode q = MODE_MPSC"
  shows "efd q = length ms \<and>
    (m \<noteq> 0 \<longrightarrow> m \<notin> set ms \<longrightarrow> efd (fst (mpscq_enqueue q s m)) = length ms + 1) \<and>
    efd (fst (snd (mpscq_dequeue q s))) = length ms - 1 \<and>
    (\<exists>q' s'. mpscq_flush_msgs_with_subject q s subject = Some (q', s') \<and>
       efd q' = length (filter (\<lambda>x. strncmp (subject_name (s x)) subject 32 \<noteq> 0) ms))"
proof (intro conjI impI)
  show "efd q = length ms" using assms by (simp add: queue_is_def)
  show "efd (fst (mpscq_enqueue q s m)) = length ms + 1" if "m \<noteq> 0" "m \<notin> set ms"
    using enqueue_lemma [OF assms(1) that] assms(2) by (auto simp: queue_is_def split: prod.splits)
  show "efd (fst (snd (mpscq_dequeue q s))) = length ms - 1"
  proof (cases ms)
    case Nil
    then show ?thesis using dequeue_empty assms by (simp add: queue_is_def)
  next
    case (Cons x xs)
    then show ?thesis using dequeue_lemma [of q s x xs] assms by (auto simp: queue_is_def split: prod.splits)
  qed
  show "\<exists>q' s'. mpscq_flush_msgs_with_subject q s subject = Some (q', s') \<and>
       efd q' = length (filter (\<lambda>x. strncmp (subject_name (s x)) subject 32 \<noteq> 0) ms)"
    using flush_lemma [OF assms, of subject] by (auto simp: queue_is_def)
qed

lemma mpscq_event_counter_witness: "efd (fst (mpscq_enqueue example_queue example_msgs 1)) = 1"
  using mpscq_event_counter [OF example_queue_empty, of 1] by (simp add: example_queue_def)

text \<open>Flushing terminates, removes and frees exactly the messages of the subject (compared as the C
  strings in the 32-byte name fields), and keeps the other messages, their order and their contents.\<close>

lemma mpscq_flush_correct:
  assumes "queue_is q s ms" and "qmode q = MODE_MPSC" and "length subject = 32"
    and "\<And>x. length (subject_name (s x)) = 32"
  shows "\<exists>q' s'. mpscq_flush_msgs_with_subject q s subject = Some (q', s') \<and>
    queue_is q' s' (filter (\<lambda>x. cstr (subject_name (s x)) \<noteq> cstr subject) ms) \<and>
    (\<forall>x. buf (s' x) = buf (s x) \<and> subject_name (s' x) = subject_name (s x) \<and>
       (msg_freed (s' x) \<longleftrightarrow> msg_freed (s x) \<or> x \<in> set ms \<and> cstr (subject_name (s x)) = cstr subject))"
proof -
  have "strncmp (subject_name (s x)) subject 32 = 0 \<longleftrightarrow> cstr (subject_name (s x)) = cstr subject" for x
    using assms(3,4) by (simp add: strncmp_0_iff)
  then show ?thesis using flush_lemma [OF assms(1,2), of subject] by (auto simp: same_payload_def)
qed

lemma mpscq_flush_correct_witness:
  "\<exists>q' s'. mpscq_flush_msgs_with_subject example_queue example_msgs (97 # replicate 31 0) = Some (q', s') \<and> queue_is q' s' []"
proof -
  have "length (subject_name (example_msgs x)) = 32" for x by (simp add: example_msgs_def msg_node_create_def)
  from mpscq_flush_correct [OF example_queue_empty _ _ this, of "97 # replicate 31 0"]
  show ?thesis by (auto simp: example_queue_def)
qed

end
