(* ===== verification/Crc.thy ===== *)
theory Crc
  imports Prelude
begin

text \<open>
  The checksum of \<open>common/lwmp.c\<close>: the table, one round of the loop of \<open>crc32\<close> and the loop,
  and their specification as a shift register fed one bit at a time. The register is linear
  over XOR and injective, which gives the correctness of the table and the detection of any
  changed byte.
\<close>

definition crc32_table :: "u32 list" where
  "crc32_table =
  [0x00000000, 0x04c11db7, 0x09823b6e, 0x0d4326d9,
   0x130476dc, 0x17c56b6b, 0x1a864db2, 0x1e475005,
   0x2608edb8, 0x22c9f00f, 0x2f8ad6d6, 0x2b4bcb61,
   0x350c9b64, 0x31cd86d3, 0x3c8ea00a, 0x384fbdbd,
   0x4c11db70, 0x48d0c6c7, 0x4593e01e, 0x4152fda9,
   0x5f15adac, 0x5bd4b01b, 0x569796c2, 0x52568b75,
   0x6a1936c8, 0x6ed82b7f, 0x639b0da6, 0x675a1011,
   0x791d4014, 0x7ddc5da3, 0x709f7b7a, 0x745e66cd,
   0x9823b6e0, 0x9ce2ab57, 0x91a18d8e, 0x95609039,
   0x8b27c03c, 0x8fe6dd8b, 0x82a5fb52, 0x8664e6e5,
   0xbe2b5b58, 0xbaea46ef, 0xb7a96036, 0xb3687d81,
   0xad2f2d84, 0xa9ee3033, 0xa4ad16ea, 0xa06c0b5d,
   0xd4326d90, 0xd0f37027, 0xddb056fe, 0xd9714b49,
   0xc7361b4c, 0xc3f706fb, 0xceb42022, 0xca753d95,
   0xf23a8028, 0xf6fb9d9f, 0xfbb8bb46, 0xff79a6f1,
   0xe13ef6f4, 0xe5ffeb43, 0xe8bccd9a, 0xec7dd02d,
   0x34867077, 0x30476dc0, 0x3d044b19, 0x39c556ae,
   0x278206ab, 0x23431b1c, 0x2e003dc5, 0x2ac12072,
   0x128e9dcf, 0x164f8078, 0x1b0ca6a1, 0x1fcdbb16,
   0x018aeb13, 0x054bf6a4, 0x0808d07d, 0x0cc9cdca,
   0x7897ab07, 0x7c56b6b0, 0x71159069, 0x75d48dde,
   0x6b93dddb, 0x6f52c06c, 0x6211e6b5, 0x66d0fb02,
   0x5e9f46bf, 0x5a5e5b08, 0x571d7dd1, 0x53dc6066,
   0x4d9b3063, 0x495a2dd4, 0x44190b0d, 0x40d816ba,
   0xaca5c697, 0xa864db20, 0xa527fdf9, 0xa1e6e04e,
   0xbfa1b04b, 0xbb60adfc, 0xb6238b25, 0xb2e29692,
   0x8aad2b2f, 0x8e6c3698, 0x832f1041, 0x87ee0df6,
   0x99a95df3, 0x9d684044, 0x902b669d, 0x94ea7b2a,
   0xe0b41de7, 0xe4750050, 0xe9362689, 0xedf73b3e,
   0xf3b06b3b, 0xf771768c, 0xfa325055, 0xfef34de2,
   0xc6bcf05f, 0xc27dede8, 0xcf3ecb31, 0xcbffd686,
   0xd5b88683, 0xd1799b34, 0xdc3abded, 0xd8fba05a,
   0x690ce0ee, 0x6dcdfd59, 0x608edb80, 0x644fc637,
   0x7a089632, 0x7ec98b85, 0x738aad5c, 0x774bb0eb,
   0x4f040d56, 0x4bc510e1, 0x46863638, 0x42472b8f,
   0x5c007b8a, 0x58c1663d, 0x558240e4, 0x51435d53,
   0x251d3b9e, 0x21dc2629, 0x2c9f00f0, 0x285e1d47,
   0x36194d42, 0x32d850f5, 0x3f9b762c, 0x3b5a6b9b,
   0x0315d626, 0x07d4cb91, 0x0a97ed48, 0x0e56f0ff,
   0x1011a0fa, 0x14d0bd4d, 0x19939b94, 0x1d528623,
   0xf12f560e, 0xf5ee4bb9, 0xf8ad6d60, 0xfc6c70d7,
   0xe22b20d2, 0xe6ea3d65, 0xeba91bbc, 0xef68060b,
   0xd727bbb6, 0xd3e6a601, 0xdea580d8, 0xda649d6f,
   0xc423cd6a, 0xc0e2d0dd, 0xcda1f604, 0xc960ebb3,
   0xbd3e8d7e, 0xb9ff90c9, 0xb4bcb610, 0xb07daba7,
   0xae3afba2, 0xaafbe615, 0xa7b8c0cc, 0xa379dd7b,
   0x9b3660c6, 0x9ff77d71, 0x92b45ba8, 0x9675461f,
   0x8832161a, 0x8cf30bad, 0x81b02d74, 0x857130c3,
   0x5d8a9099, 0x594b8d2e, 0x5408abf7, 0x50c9b640,
   0x4e8ee645, 0x4a4ffbf2, 0x470cdd2b, 0x43cdc09c,
   0x7b827d21, 0x7f436096, 0x7200464f, 0x76c15bf8,
   0x68860bfd, 0x6c47164a, 0x61043093, 0x65c52d24,
   0x119b4be9, 0x155a565e, 0x18197087, 0x1cd86d30,
   0x029f3d35, 0x065e2082, 0x0b1d065b, 0x0fdc1bec,
   0x3793a651, 0x3352bbe6, 0x3e119d3f, 0x3ad08088,
   0x2497d08d, 0x2056cd3a, 0x2d15ebe3, 0x29d4f654,
   0xc5a92679, 0xc1683bce, 0xcc2b1d17, 0xc8ea00a0,
   0xd6ad50a5, 0xd26c4d12, 0xdf2f6bcb, 0xdbee767c,
   0xe3a1cbc1, 0xe760d676, 0xea23f0af, 0xeee2ed18,
   0xf0a5bd1d, 0xf464a0aa, 0xf9278673, 0xfde69bc4,
   0x89b8fd09, 0x8d79e0be, 0x803ac667, 0x84fbdbd0,
   0x9abc8bd5, 0x9e7d9662, 0x933eb0bb, 0x97ffad0c,
   0xafb010b1, 0xab710d06, 0xa6322bdf, 0xa2f33668,
   0xbcb4666d, 0xb8757bda, 0xb5365d03, 0xb1f740b4]"

text \<open>One round of the loop of \<open>crc32\<close>, and the loop.\<close>

definition crc_step :: "u32 \<Rightarrow> byte \<Rightarrow> u32" where
  "crc_step crc b =
     push_bit 8 crc XOR crc32_table ! unat ((drop_bit 24 crc XOR ucast b) AND 0xFF)"

definition crc32 :: "byte list \<Rightarrow> u32" where
  "crc32 data = foldl crc_step 0xFFFFFFFF data XOR 0xFFFFFFFF"

text \<open>The specification: the same register, fed one bit at a time with the polynomial
  \<open>0x04C11DB7\<close> (most significant bit first, no reflection).\<close>

definition crc_bit :: "u32 \<Rightarrow> u32" where
  "crc_bit c = (if bit c 31 then push_bit 1 c XOR 0x04C11DB7 else push_bit 1 c)"

definition crc_bits8 :: "u32 \<Rightarrow> u32" where
  "crc_bits8 c = crc_bit (crc_bit (crc_bit (crc_bit (crc_bit (crc_bit (crc_bit (crc_bit c)))))))"

definition crc_ref_step :: "u32 \<Rightarrow> byte \<Rightarrow> u32" where
  "crc_ref_step crc b = crc_bits8 (crc XOR push_bit 24 (ucast b))"

definition crc32_ref :: "byte list \<Rightarrow> u32" where
  "crc32_ref data = foldl crc_ref_step 0xFFFFFFFF data XOR 0xFFFFFFFF"

text \<open>The bitwise register is linear over XOR and injective; shifting in zero bits of a value
  whose top byte is clear is a plain shift.\<close>

lemma crc_bit_xor: "crc_bit (a XOR b) = crc_bit a XOR crc_bit b"
  by (cases "bit a 31"; cases "bit b 31")
    (simp_all add: crc_bit_def bit_xor_iff xor_cancel_left ac_simps del: push_bit_Suc One_nat_def)

lemma crc_bits8_xor: "crc_bits8 (a XOR b) = crc_bits8 a XOR crc_bits8 b"
  by (simp add: crc_bits8_def crc_bit_xor)

lemma crc_bit_bit0: "bit (crc_bit c) 0 \<longleftrightarrow> bit c 31"
  by (simp add: crc_bit_def bit_xor_iff bit_push_bit_iff del: push_bit_Suc One_nat_def)

lemma crc_bit_inject: "crc_bit a = crc_bit b \<longleftrightarrow> a = b"
proof
  assume eq: "crc_bit a = crc_bit b"
  then have top: "bit a 31 \<longleftrightarrow> bit b 31" by (metis crc_bit_bit0)
  with eq have sh: "push_bit 1 a = push_bit 1 b"
    by (cases "bit a 31") (auto simp: crc_bit_def xor.assoc simp del: push_bit_Suc One_nat_def
        dest: arg_cong [where f = "\<lambda>x. x XOR 0x04C11DB7"])
  show "a = b"
  proof (rule bit_word_eqI)
    fix n assume n: "n < LENGTH(32)"
    show "bit a n \<longleftrightarrow> bit b n"
    proof (cases "n = 31")
      case False
      with n have "bit (push_bit 1 a) (Suc n) = bit a n" "bit (push_bit 1 b) (Suc n) = bit b n"
        by (auto simp: bit_push_bit_iff simp del: push_bit_Suc One_nat_def)
      with sh show ?thesis by simp
    qed (use top in simp)
  qed
qed simp

lemma crc_bits8_inject: "crc_bits8 a = crc_bits8 b \<longleftrightarrow> a = b"
  by (simp add: crc_bits8_def crc_bit_inject)

lemma crc_bits8_shift:
  assumes "\<And>n. 24 \<le> n \<Longrightarrow> \<not> bit c n"
  shows "crc_bits8 c = push_bit 8 c"
proof -
  have step: "crc_bit (push_bit k c) = push_bit (Suc k) c" if "k < 8" for k
  proof -
    have "\<not> bit (push_bit k c) 31" using assms [of "31 - k"] that by (simp add: bit_push_bit_iff)
    then show ?thesis by (simp add: crc_bit_def push_bit_push_bit)
  qed
  show ?thesis
    using step [of 0] step [of 1] step [of 2] step [of 3] step [of 4] step [of 5] step [of 6] step [of 7]
    by (simp add: crc_bits8_def eval_nat_numeral)
qed


lemma length_crc32_table: "length crc32_table = 256"
  by (simp add: crc32_table_def)

text \<open>Each entry of the table follows from the one at half its index, so that a single pass over
  the literal table checks it.\<close>

lemma crc32_table_doubling:
  "crc32_table = concat (map (\<lambda>t. [crc_bit t, crc_bit t XOR 0x04C11DB7]) (take 128 crc32_table))"
  by (simp add: crc32_table_def crc_bit_def)

lemma crc32_table_double:
  assumes "i < 128"
  shows "crc32_table ! (2 * i) = crc_bit (crc32_table ! i)"
    and "crc32_table ! Suc (2 * i) = crc_bit (crc32_table ! i) XOR 0x04C11DB7"
  using assms nth_concat_pairs [of i "take 128 crc32_table" crc_bit "\<lambda>t. crc_bit t XOR 0x04C11DB7"]
  by (simp_all add: length_crc32_table flip: crc32_table_doubling)

lemma crc_bits8_crc_bit: "crc_bits8 (crc_bit c) = crc_bit (crc_bits8 c)"
  by (simp add: crc_bits8_def)

lemma crc_bits8_top_bit: "crc_bits8 0x1000000 = 0x04C11DB7"
  by (simp add: crc_bits8_def crc_bit_def)

lemma crc32_table_nth:
  "i < 256 \<Longrightarrow> crc32_table ! i = crc_bits8 (push_bit 24 (word_of_nat i))"
proof (induction i rule: less_induct)
  case (less i)
  show ?case
  proof (cases "i = 0")
    case True
    then show ?thesis by (simp add: crc32_table_def crc_bits8_def crc_bit_def)
  next
    case False
    define j where "j = i div 2"
    have j: "j < i" "j < 128" using False less.prems by (auto simp: j_def)
    have top: "\<not> bit (push_bit 24 (word_of_nat j :: u32)) 31"
      using j(2) by (simp add: bit_push_bit_iff bit_of_nat_iff) (simp add: bit_iff_odd)
    have "crc_bit (push_bit 24 (word_of_nat j)) = push_bit 24 (word_of_nat (2 * j))"
      using top by (simp add: crc_bit_def push_bit_eq_mult ac_simps)
    then have dbl: "crc_bit (crc32_table ! j) = crc_bits8 (push_bit 24 (word_of_nat (2 * j)))"
      using less.IH [OF j(1)] j(2) by (simp flip: crc_bits8_crc_bit)
    show ?thesis
    proof (cases "even i")
      case True
      then have "i = 2 * j" by (simp add: j_def)
      then show ?thesis using crc32_table_double(1) [OF j(2)] dbl by simp
    next
      case False
      then have i: "i = Suc (2 * j)" by (simp add: j_def)
      have "(word_of_nat i :: u32) = word_of_nat (2 * j) XOR 1"
        by (simp add: i xor_one_eq)
      then have "push_bit 24 (word_of_nat i :: u32) = push_bit 24 (word_of_nat (2 * j)) XOR 0x1000000"
        by (simp add: push_bit_xor)
      then show ?thesis
        using crc32_table_double(2) [OF j(2)] dbl by (simp add: i crc_bits8_xor crc_bits8_top_bit)
    qed
  qed
qed

lemma crc_step_ref: "crc_step crc b = crc_ref_step crc b"
proof -
  define i where "i = (drop_bit 24 crc XOR ucast b) AND (0xFF :: u32)"
  have i: "unat i < 256"
    using word_and_le1 [of "drop_bit 24 crc XOR ucast b" "0xFF :: u32"]
    by (simp add: i_def word_le_nat_alt)
  have mask: "(0xFF :: u32) = mask 8" by (simp add: mask_eq_exp_minus_1)
  have "crc XOR push_bit 24 (ucast b) = push_bit 24 i XOR take_bit 24 crc"
    unfolding i_def mask by (rule bit_word_eqI) (auto simp: bit_simps)
  moreover have "crc_bits8 (take_bit 24 crc) = push_bit 8 crc"
    by (subst crc_bits8_shift) (auto simp: bit_simps intro!: bit_word_eqI)
  ultimately show ?thesis
    using i by (simp add: crc_step_def crc_ref_step_def crc_bits8_xor crc32_table_nth flip: i_def)
      (simp add: xor.commute)
qed

lemma crc_step_inject_state: "crc_step c b = crc_step d b \<longleftrightarrow> c = d"
  by (simp add: crc_step_ref crc_ref_step_def crc_bits8_inject)

lemma crc_step_inject_byte: "crc_step c a = crc_step c b \<longleftrightarrow> a = b"
proof
  assume "crc_step c a = crc_step c b"
  then have eq: "push_bit 24 (ucast a :: u32) = push_bit 24 (ucast b)"
    by (simp add: crc_step_ref crc_ref_step_def crc_bits8_inject)
  show "a = b"
  proof (rule bit_word_eqI)
    fix n assume "n < LENGTH(8)"
    then show "bit a n \<longleftrightarrow> bit b n"
      using arg_cong [OF eq, of "\<lambda>w. bit w (n + 24)"] by (simp add: bit_simps)
  qed
qed simp

text \<open>A register whose step is injective in the state and in the byte detects the change of any
  one byte of a message.\<close>

locale error_detecting_register =
  fixes step :: "'s \<Rightarrow> byte \<Rightarrow> 's"
  assumes step_inject_state: "step c b = step d b \<longleftrightarrow> c = d"
    and step_inject_byte: "step c a = step c b \<longleftrightarrow> a = b"
begin

lemma foldl_inject: "foldl step c bs = foldl step d bs \<longleftrightarrow> c = d"
  by (induction bs arbitrary: c d) (simp_all add: step_inject_state)

lemma byte_change_detected:
  assumes "i < length bs" and "bs ! i \<noteq> b"
  shows "foldl step c (bs[i := b]) \<noteq> foldl step c bs"
proof -
  have old: "bs = take i bs @ bs ! i # drop (Suc i) bs"
    using assms(1) by (rule id_take_nth_drop)
  have new: "bs[i := b] = take i bs @ b # drop (Suc i) bs"
    using assms(1) by (simp add: upd_conv_take_nth_drop)
  have "foldl step c (bs[i := b]) \<noteq> foldl step c (take i bs @ bs ! i # drop (Suc i) bs)"
    unfolding new using assms(2) by (simp add: foldl_inject step_inject_byte)
  then show ?thesis by (simp flip: old)
qed

end

interpretation crc: error_detecting_register crc_step
  by unfold_locales (simp_all add: crc_step_inject_state crc_step_inject_byte)

text \<open>C33. The table-driven CRC of the code computes the bit-at-a-time CRC-32 of polynomial
  \<open>0x04C11DB7\<close> (MSB first, initial value and final complement all ones) on every message.\<close>

theorem crc32_table_driven_correct: "crc32 data = crc32_ref data"
proof -
  have "foldl crc_step c data = foldl crc_ref_step c data" for c
    by (induction data arbitrary: c) (simp_all add: crc_step_ref)
  then show ?thesis by (simp add: crc32_def crc32_ref_def)
qed

lemma crc32_byte_change:
  "i < length data \<Longrightarrow> data ! i \<noteq> b \<Longrightarrow> crc32 (data[i := b]) \<noteq> crc32 data"
  by (simp add: crc32_def crc.byte_change_detected)

end
