(* ===== verification/Lwmp.thy ===== *)
theory Lwmp
  imports Crc
begin

text \<open>
  The LWMP message format: \<open>common/lwmp.h\<close> and \<open>common/lwmp.c\<close>. A PDU is handled as the bytes of the
  packed struct (the code casts receive buffers to \<open>lwmp_pdu*\<close> and computes CRCs over them), so a
  field access is a load or a store at the field's offset. The group of definitions follows the
  file: constants, CRC, resynchronisation of a stream, header validation, preparation of a
  response and of a chunk.
\<close>

subsection \<open>Constants of lwmp.h\<close>

abbreviation (input) UNAMESIZE :: nat where "UNAMESIZE \<equiv> 32"
abbreviation (input) OPTDATA_LEN :: nat where "OPTDATA_LEN \<equiv> 32"
abbreviation (input) PWDSIZE :: nat where "PWDSIZE \<equiv> 20"
abbreviation (input) LWMP_MAX_PDU_SIZE :: nat where "LWMP_MAX_PDU_SIZE \<equiv> 4096"
abbreviation (input) LWMP_HDR_SIZE :: nat where "LWMP_HDR_SIZE \<equiv> 81"
abbreviation (input) LWMP_CHUNK_HDR_SIZE :: nat where "LWMP_CHUNK_HDR_SIZE \<equiv> 38"
abbreviation (input) LWMP_PDU_BUF_SIZE :: nat where "LWMP_PDU_BUF_SIZE \<equiv> 4015"
abbreviation (input) LWMP_CHUNK_BUF_SIZE :: nat where "LWMP_CHUNK_BUF_SIZE \<equiv> 4058"
abbreviation (input) MAX_TEXTMSG_SIZE :: nat where "MAX_TEXTMSG_SIZE \<equiv> LWMP_PDU_BUF_SIZE"

definition PDU_SYNC_HDR_MARK :: u32 where "PDU_SYNC_HDR_MARK = 0xF7C3EDA8"
definition CHUNK_SYNC_HDR_MARK :: u32 where "CHUNK_SYNC_HDR_MARK = 0x4FE2CD81"

text \<open>Offsets of the packed structs \<open>lwmp_pdu\<close> and \<open>lwmp_chunk\<close>.\<close>

abbreviation (input) off_hdr_mark :: nat where "off_hdr_mark \<equiv> 0"
abbreviation (input) off_msg_type :: nat where "off_msg_type \<equiv> 4"
abbreviation (input) off_subject :: nat where "off_subject \<equiv> 5"
abbreviation (input) off_optional :: nat where "off_optional \<equiv> 37"
abbreviation (input) off_total :: nat where "off_total \<equiv> 69"
abbreviation (input) off_crc32 :: nat where "off_crc32 \<equiv> 77"
abbreviation (input) off_buf :: nat where "off_buf \<equiv> 81"
abbreviation (input) off_chunk_size :: nat where "off_chunk_size \<equiv> 4"
abbreviation (input) off_chunk_subject :: nat where "off_chunk_subject \<equiv> 6"
abbreviation (input) off_chunk_payload :: nat where "off_chunk_payload \<equiv> 38"

datatype hdr_validation_status =
    HV_OK | HV_FILE_NOT_ALLOWED | HV_FILE_TOOBIG | HV_TXTMSG_TOOBIG
  | HV_CRCERR | HV_INVAL_REQ | HV_INVAL_PDU | HV_INVAL_SUBJ

definition RESP_OK :: u32 where "RESP_OK = 0x4F643180"
definition RESP_DISALLOWED_FILE :: u32 where "RESP_DISALLOWED_FILE = 0x7F1C825B"
definition RESP_TOOBIG_FILE :: u32 where "RESP_TOOBIG_FILE = 0x1C337928"
definition RESP_TOOBIG_MSG :: u32 where "RESP_TOOBIG_MSG = 0x4829CD33"
definition RESP_INVAL_CRC :: u32 where "RESP_INVAL_CRC = 0xCC32621A"
definition RESP_INVAL_REQ :: u32 where "RESP_INVAL_REQ = 0x3738AA64"
definition RESP_INVAL_PDU :: u32 where "RESP_INVAL_PDU = 0x337C801A"
definition RESP_DCONN_SUBJ :: u32 where "RESP_DCONN_SUBJ = 0x772A5C19"

lemmas resp_code_defs = RESP_OK_def RESP_DISALLOWED_FILE_def RESP_TOOBIG_FILE_def
  RESP_TOOBIG_MSG_def RESP_INVAL_CRC_def RESP_INVAL_REQ_def RESP_INVAL_PDU_def RESP_DCONN_SUBJ_def

text \<open>The table \<open>resp_codes\<close>, indexed by the validation status.\<close>

fun resp_codes :: "hdr_validation_status \<Rightarrow> u32" where
  "resp_codes HV_OK = RESP_OK"
| "resp_codes HV_FILE_NOT_ALLOWED = RESP_DISALLOWED_FILE"
| "resp_codes HV_FILE_TOOBIG = RESP_TOOBIG_FILE"
| "resp_codes HV_TXTMSG_TOOBIG = RESP_TOOBIG_MSG"
| "resp_codes HV_CRCERR = RESP_INVAL_CRC"
| "resp_codes HV_INVAL_REQ = RESP_INVAL_REQ"
| "resp_codes HV_INVAL_PDU = RESP_INVAL_PDU"
| "resp_codes HV_INVAL_SUBJ = RESP_DCONN_SUBJ"

definition strresp :: "u32 \<Rightarrow> string" where
  "strresp code =
     (if code = RESP_OK then ''RESP_OK''
      else if code = RESP_DISALLOWED_FILE then ''RESP_DISALLOWED_FILE''
      else if code = RESP_TOOBIG_FILE then ''RESP_TOOBIG_FILE''
      else if code = RESP_TOOBIG_MSG then ''RESP_TOOBIG_MSG''
      else if code = RESP_INVAL_CRC then ''RESP_INVAL_CRC''
      else if code = RESP_INVAL_REQ then ''RESP_INVAL_REQ''
      else if code = RESP_INVAL_PDU then ''RESP_INVAL_PDU''
      else if code = RESP_DCONN_SUBJ then ''RESP_DCONN_SUBJ''
      else ''RESP_UNKNOWN'')"

definition MT_NONE :: byte where "MT_NONE = 0"
definition MT_MSG :: byte where "MT_MSG = 1"
definition MT_FILE :: byte where "MT_FILE = 2"
definition MT_REQ :: byte where "MT_REQ = 3"
definition MT_INFO :: byte where "MT_INFO = 4"

lemmas msg_type_defs = MT_NONE_def MT_MSG_def MT_FILE_def MT_REQ_def MT_INFO_def

definition REQ_REGISTRATION :: u32 where "REQ_REGISTRATION = 0x1FE32976"
definition REQ_DELETION :: u32 where "REQ_DELETION = 0xDE1059BC"
definition REQ_AUTHENTICATION :: u32 where "REQ_AUTHENTICATION = 0xF68C104A"
definition REQ_USER_LIST :: u32 where "REQ_USER_LIST = 0"

definition AUTH_RESP_OK :: u32 where "AUTH_RESP_OK = 0x51CEF28D"
definition AUTH_RESP_INVAL_REQ :: u32 where "AUTH_RESP_INVAL_REQ = 0x23A80DBF"
definition AUTH_RESP_INVAL_PARAM :: u32 where "AUTH_RESP_INVAL_PARAM = 0x128CE6DA"
definition AUTH_RESP_TIMEOUT :: u32 where "AUTH_RESP_TIMEOUT = 0x7F0CDE45"
definition AUTH_RESP_DUPLICATE :: u32 where "AUTH_RESP_DUPLICATE = 0x1F7CE628"

lemmas auth_code_defs = REQ_REGISTRATION_def REQ_DELETION_def REQ_AUTHENTICATION_def
  AUTH_RESP_OK_def AUTH_RESP_INVAL_REQ_def AUTH_RESP_INVAL_PARAM_def AUTH_RESP_TIMEOUT_def
  AUTH_RESP_DUPLICATE_def

subsection \<open>Header validation\<close>

text \<open>\<open>hdr_validation_fns\<close>: the callbacks the server passes. The container type of the subject
  check is a type parameter (\<open>void*\<close> in the code).\<close>

record 'c hdr_validation_fns =
  subj_valid_fn :: "'c \<Rightarrow> byte list \<Rightarrow> bool"
  req_valid_fn :: "byte list \<Rightarrow> bool option"
  allow_file_transfers :: bool
  max_filesize_b :: u64

definition lwmp_validate_hdrs ::
  "byte list \<Rightarrow> 'c \<Rightarrow> byte list \<Rightarrow> 'c hdr_validation_fns \<Rightarrow> hdr_validation_status option" where
  "lwmp_validate_hdrs pdu subj_container subject hvfns = do {
     mark \<leftarrow> load32 pdu off_hdr_mark;
     if mark \<noteq> PDU_SYNC_HDR_MARK then Some HV_INVAL_PDU
     else do {
       orig_le_crc32 \<leftarrow> load32 pdu off_crc32;
       hdr \<leftarrow> mem_read pdu 0 off_crc32;
       if crc32 hdr \<noteq> orig_le_crc32 then Some HV_CRCERR
       else do {
         msg_type \<leftarrow> load8 pdu off_msg_type;
         total_msg_size \<leftarrow> load64 pdu off_total;
         if msg_type \<noteq> MT_MSG \<and> msg_type \<noteq> MT_FILE \<and> msg_type \<noteq> MT_REQ then Some HV_INVAL_PDU
         else if msg_type = MT_FILE \<and> \<not> allow_file_transfers hvfns then Some HV_FILE_NOT_ALLOWED
         else if allow_file_transfers hvfns \<and> total_msg_size > max_filesize_b hvfns
         then Some HV_FILE_TOOBIG
         else if msg_type \<noteq> MT_FILE \<and> total_msg_size > of_nat MAX_TEXTMSG_SIZE
         then Some HV_TXTMSG_TOOBIG
         else if msg_type \<noteq> MT_REQ \<and> \<not> subj_valid_fn hvfns subj_container subject
         then Some HV_INVAL_SUBJ
         else if msg_type = MT_REQ
         then do {
           ok \<leftarrow> req_valid_fn hvfns pdu;
           Some (if ok then HV_OK else HV_INVAL_REQ) }
         else Some HV_OK } } }"

subsection \<open>Preparation of a response and of a chunk\<close>

text \<open>The stores of \<open>lwmp_prepare_response\<close>, in the order of the code. \<open>optdata\<close> is the object
  the pointer refers to (\<open>None\<close> for NULL), \<open>text\<close> the string of the pointer.\<close>

definition store_optional :: "byte list \<Rightarrow> byte list option \<Rightarrow> nat \<Rightarrow> byte list option" where
  "store_optional pdu optdata optdata_len =
     (case optdata of
        Some od \<Rightarrow> do {
          d \<leftarrow> mem_read od 0 optdata_len;
          pdu \<leftarrow> mem_write pdu off_optional d;
          memset0 pdu (off_optional + optdata_len) (OPTDATA_LEN - optdata_len) }
      | None \<Rightarrow> memset0 pdu off_optional OPTDATA_LEN)"

definition response_textlen :: "byte list \<Rightarrow> nat" where
  "response_textlen text =
     (if length text \<ge> LWMP_PDU_BUF_SIZE then LWMP_PDU_BUF_SIZE - 1 else length text)"

definition store_text :: "byte list \<Rightarrow> byte list option \<Rightarrow> byte list option" where
  "store_text pdu text =
     (case text of
        Some t \<Rightarrow> do {
          pdu \<leftarrow> mem_write pdu off_buf (take (response_textlen t) t);
          pdu \<leftarrow> mem_write pdu (off_buf + response_textlen t) [0];
          mem_write pdu off_total (be64 (of_nat (response_textlen t) + 1)) }
      | None \<Rightarrow> mem_write pdu off_total (be64 0))"

definition store_crc :: "byte list \<Rightarrow> byte list option" where
  "store_crc pdu = do {
     hdr \<leftarrow> mem_read pdu 0 off_crc32;
     mem_write pdu off_crc32 (be32 (crc32 hdr)) }"

definition lwmp_prepare_response ::
  "byte list \<Rightarrow> byte \<Rightarrow> byte list option \<Rightarrow> nat \<Rightarrow> byte list option \<Rightarrow> byte list option" where
  "lwmp_prepare_response pdu msg_type optdata optdata_len text =
     (if optdata_len > OPTDATA_LEN then Some pdu
      else do {
        pdu \<leftarrow> memset0 pdu off_subject UNAMESIZE;
        pdu \<leftarrow> mem_write pdu off_msg_type [msg_type];
        pdu \<leftarrow> mem_write pdu off_hdr_mark (be32 PDU_SYNC_HDR_MARK);
        pdu \<leftarrow> store_optional pdu optdata optdata_len;
        pdu \<leftarrow> store_text pdu text;
        store_crc pdu })"

definition lwmp_prepare_chunk ::
  "byte list \<Rightarrow> u16 \<Rightarrow> byte list \<Rightarrow> byte list \<Rightarrow> byte list option" where
  "lwmp_prepare_chunk lwc chunk_size subject data =
     (let sz = (if unat chunk_size > LWMP_CHUNK_BUF_SIZE then of_nat LWMP_CHUNK_BUF_SIZE else chunk_size)
      in do {
        lwc \<leftarrow> mem_write lwc 0 (be32 CHUNK_SYNC_HDR_MARK);
        lwc \<leftarrow> mem_write lwc off_chunk_subject (strncpy_bytes subject UNAMESIZE);
        lwc \<leftarrow> mem_write lwc off_chunk_size (be16 sz);
        payload \<leftarrow> mem_read data 0 (unat sz);
        mem_write lwc off_chunk_payload payload })"

subsection \<open>Resynchronisation of a stream\<close>

text \<open>\<open>memmem(buf, buf_size, &be_hdr_mark, 4)\<close>: the first position of the mark.\<close>

definition memmem_mark :: "byte list \<Rightarrow> nat \<Rightarrow> nat option" where
  "memmem_mark buf sz =
     List.find (\<lambda>p. take 4 (drop p buf) = be32 PDU_SYNC_HDR_MARK) [0..<sz - 3]"

definition hdr_crc_matches :: "byte list \<Rightarrow> bool" where
  "hdr_crc_matches buf \<longleftrightarrow> crc32 (take off_crc32 buf) = of_be32 (take 4 (drop off_crc32 buf))"

text \<open>The loop of \<open>lwmp_stream_resync\<close> on the array and the size of the window; the new array and
  the new size. A window larger than the array is undefined behaviour.\<close>

function lwmp_stream_resync :: "byte list \<Rightarrow> nat \<Rightarrow> (byte list \<times> nat) option" where
  "lwmp_stream_resync buf buf_size =
     (if length buf < buf_size then None
      else case memmem_mark buf buf_size of
        None \<Rightarrow> Some (buf, 0)
      | Some p \<Rightarrow>
          let new_size = buf_size - p;
              buf = take new_size (drop p buf) @ drop new_size buf
          in if new_size \<ge> LWMP_HDR_SIZE \<and> \<not> hdr_crc_matches buf
             then lwmp_stream_resync (buf[0 := 0]) new_size
             else Some (buf, new_size))"
  by pat_completeness auto

lemma memmem_mark_Some:
  "memmem_mark buf sz = Some p \<longleftrightarrow>
     p + 3 < sz \<and> take 4 (drop p buf) = be32 PDU_SYNC_HDR_MARK \<and>
     (\<forall>q<p. take 4 (drop q buf) \<noteq> be32 PDU_SYNC_HDR_MARK)"
  by (auto simp: memmem_mark_def find_upt_Some_iff)

lemma mark_first_byte: "take 4 buf = be32 PDU_SYNC_HDR_MARK \<Longrightarrow> buf \<noteq> [] \<and> hd buf = 0xF7"
  by (cases buf) (simp_all add: be32_def PDU_SYNC_HDR_MARK_def)

termination lwmp_stream_resync
proof (relation "measure (\<lambda>(buf, sz). 2 * sz + (if buf \<noteq> [] \<and> hd buf \<noteq> 0 then 1 else 0))", goal_cases)
  case 1
  show ?case by simp
next
  case (2 buf sz p n buf')
  then have p: "p + 3 < sz" "take 4 (drop p buf) = be32 PDU_SYNC_HDR_MARK"
    by (simp_all add: memmem_mark_Some)
  have "hd (buf'[0 := 0]) = 0" if "buf'[0 := 0] \<noteq> []"
    using that by (cases buf') auto
  moreover have "buf \<noteq> [] \<and> hd buf \<noteq> 0" if "p = 0"
    using mark_first_byte [of buf] p(2) that by auto
  ultimately show ?case using 2 p(1) by (cases "p = 0") auto
qed

declare lwmp_stream_resync.simps [simp del]

text \<open>Specification: a position is a resynchronisation point of the window when it carries the mark
  and, if a whole header follows it, the header's CRC is right. The routine moves the bytes from the
  first such point to the front.\<close>

definition resync_point :: "byte list \<Rightarrow> nat \<Rightarrow> nat \<Rightarrow> bool" where
  "resync_point buf sz p \<longleftrightarrow>
     p + 3 < sz \<and> take 4 (drop p buf) = be32 PDU_SYNC_HDR_MARK \<and>
     (LWMP_HDR_SIZE \<le> sz - p \<longrightarrow> hdr_crc_matches (drop p buf))"

definition resync_spec :: "byte list \<Rightarrow> nat \<Rightarrow> byte list \<Rightarrow> nat \<Rightarrow> bool" where
  "resync_spec buf sz buf' n \<longleftrightarrow>
     length buf' = length buf \<and>
     (case List.find (resync_point buf sz) [0..<sz] of
        None \<Rightarrow> n = 0
      | Some p \<Rightarrow> n = sz - p \<and> take n buf' = take n (drop p buf))"

lemma hdr_crc_matches_cong:
  "take LWMP_HDR_SIZE a = take LWMP_HDR_SIZE b \<Longrightarrow> hdr_crc_matches a = hdr_crc_matches b"
proof -
  assume eq: "take LWMP_HDR_SIZE a = take LWMP_HDR_SIZE b"
  have "take 77 (take 81 a) = take 77 (take 81 b)" "take 4 (drop 77 (take 81 a)) = take 4 (drop 77 (take 81 b))"
    using eq by simp_all
  then show ?thesis by (simp add: hdr_crc_matches_def drop_take)
qed

lemma resync_point_shift:
  assumes p: "p + 3 < sz" "sz \<le> length buf"
    and buf': "buf' = take (sz - p) (drop p buf) @ drop (sz - p) buf"
  shows "resync_point (buf'[0 := 0]) (sz - p) q \<longleftrightarrow> 0 < q \<and> resync_point buf sz (p + q)"
proof (cases q)
  case 0
  have "take 4 (buf'[0 := 0]) \<noteq> be32 PDU_SYNC_HDR_MARK"
  proof
    assume "take 4 (buf'[0 := 0]) = be32 PDU_SYNC_HDR_MARK"
    from mark_first_byte [OF this] show False by (cases buf') auto
  qed
  then show ?thesis using 0 by (simp add: resync_point_def)
next
  case (Suc r)
  then have dq: "drop q (buf'[0 := 0]) = drop q buf'" by simp
  have win: "take k (drop q buf') = take k (drop (p + q) buf)" if "q + k \<le> sz - p" for k
    using that p by (simp add: buf' take_drop min_def add.commute)
  have "hdr_crc_matches (drop q buf') = hdr_crc_matches (drop (p + q) buf)" if "81 \<le> sz - p - q"
    by (rule hdr_crc_matches_cong, rule win) (use that in simp)
  moreover have "take 4 (drop q buf') = take 4 (drop (p + q) buf)" if "q + 3 < sz - p"
    by (rule win) (use that in simp)
  moreover have "q + 3 < sz - p \<longleftrightarrow> p + q + 3 < sz" using p by auto
  moreover have "0 < q" using Suc by simp
  ultimately show ?thesis
    unfolding resync_point_def dq by (cases "p + q + 3 < sz"; cases "81 \<le> sz - p - q") simp_all
qed

lemma resync_first_shift:
  assumes p: "p + 3 < sz" "sz \<le> length buf" "\<forall>q<p. take 4 (drop q buf) \<noteq> be32 PDU_SYNC_HDR_MARK"
    and no: "\<not> resync_point buf sz p"
    and shift: "\<And>q. resync_point buf2 (sz - p) q \<longleftrightarrow> 0 < q \<and> resync_point buf sz (p + q)"
  shows "List.find (resync_point buf sz) [0..<sz] =
    map_option (\<lambda>q. p + q) (List.find (resync_point buf2 (sz - p)) [0..<sz - p])"
proof -
  have upto: "resync_point buf sz j \<longleftrightarrow> p < j \<and> resync_point buf2 (sz - p) (j - p)" for j
  proof (cases j p rule: linorder_cases)
    case less
    then show ?thesis using p(3) by (simp add: resync_point_def)
  next
    case equal
    then show ?thesis using no by simp
  next
    case greater
    then show ?thesis using shift [of "j - p"] by simp
  qed
  show ?thesis
  proof (cases "List.find (resync_point buf2 (sz - p)) [0..<sz - p]")
    case None
    then have "\<not> resync_point buf sz j" for j
      using upto [of j] by (auto simp: find_upt_None_iff resync_point_def)
    then have "List.find (resync_point buf sz) [0..<sz] = None" by (simp add: find_upt_None_iff)
    with None show ?thesis by simp
  next
    case (Some q)
    then have q: "q < sz - p" "resync_point buf2 (sz - p) q" "\<forall>j<q. \<not> resync_point buf2 (sz - p) j"
      by (auto simp: find_upt_Some_iff)
    then have "resync_point buf sz (p + q)" using shift by blast
    moreover have "\<not> resync_point buf sz j" if "j < p + q" for j
      using upto [of j] q(3) that by auto
    ultimately have "List.find (resync_point buf sz) [0..<sz] = Some (p + q)"
      using q(1) by (simp add: find_upt_Some_iff)
    with Some show ?thesis by simp
  qed
qed

lemma resync_meets_spec:
  assumes "sz \<le> length buf"
  shows "\<exists>buf' n. lwmp_stream_resync buf sz = Some (buf', n) \<and> resync_spec buf sz buf' n"
  using assms
proof (induction buf sz rule: lwmp_stream_resync.induct)
  case (1 buf sz)
  show ?case
  proof (cases "memmem_mark buf sz")
    case None
    then have "\<not> resync_point buf sz p" for p
      by (auto simp: memmem_mark_def find_upt_None_iff resync_point_def)
    then have "List.find (resync_point buf sz) [0..<sz] = None" by (simp add: find_upt_None_iff)
    then show ?thesis
      using "1.prems" None by (simp add: lwmp_stream_resync.simps resync_spec_def)
  next
    case (Some p)
    define n where "n = sz - p"
    define buf' where "buf' = take n (drop p buf) @ drop n buf"
    have p: "p + 3 < sz" "take 4 (drop p buf) = be32 PDU_SYNC_HDR_MARK"
      "\<forall>q<p. take 4 (drop q buf) \<noteq> be32 PDU_SYNC_HDR_MARK"
      using Some by (simp_all add: memmem_mark_Some)
    have len: "length buf' = length buf" using p(1) "1.prems" by (simp add: buf'_def n_def)
    have crc: "hdr_crc_matches buf' = hdr_crc_matches (drop p buf)" if "81 \<le> n"
      by (rule hdr_crc_matches_cong) (use that p(1) "1.prems" in \<open>simp add: buf'_def n_def\<close>)
    show ?thesis
    proof (cases "81 \<le> n \<and> \<not> hdr_crc_matches buf'")
      case True
      then have "\<not> resync_point buf sz p" using crc by (auto simp: resync_point_def n_def)
      note find = resync_first_shift [OF p(1) "1.prems" p(3) this
          resync_point_shift [OF p(1) "1.prems" buf'_def [unfolded n_def]]]
      have "\<exists>buf'' m. lwmp_stream_resync (buf'[0 := 0]) n = Some (buf'', m) \<and>
          resync_spec (buf'[0 := 0]) n buf'' m"
        using "1.IH" [OF _ Some n_def buf'_def True] "1.prems" len by (simp add: n_def)
      then obtain buf'' m where r: "lwmp_stream_resync (buf'[0 := 0]) n = Some (buf'', m)"
        "resync_spec (buf'[0 := 0]) n buf'' m" by blast
      have "lwmp_stream_resync buf sz = Some (buf'', m)"
        using Some True "1.prems" r(1)
        by (simp add: lwmp_stream_resync.simps [of buf sz] Let_def n_def [symmetric] buf'_def [symmetric])
      moreover have "resync_spec buf sz buf'' m"
      proof (cases "List.find (resync_point (buf'[0 := 0]) n) [0..<n]")
        case None
        then show ?thesis using r(2) len find by (simp add: resync_spec_def n_def buf'_def)
      next
        case (Some q)
        then have q: "0 < q" "q < n"
          using resync_point_shift [OF p(1) "1.prems" buf'_def [unfolded n_def], of q]
          by (auto simp: find_upt_Some_iff n_def)
        have "take (n - q) (drop q (buf'[0 := 0])) = take (n - q) (drop (p + q) buf)"
          using q p(1) "1.prems" by (simp add: buf'_def n_def take_drop min_def add.commute)
        moreover have m: "m = n - q" "length buf'' = length buf"
          using r(2) len Some by (simp_all add: resync_spec_def)
        moreover have "take (n - q) buf'' = take (n - q) (drop q (buf'[0 := 0]))"
          using r(2) len Some by (simp add: resync_spec_def flip: m(1))
        moreover have "List.find (resync_point buf sz) [0..<sz] = Some (p + q)"
          using find Some by (simp add: n_def buf'_def)
        ultimately show ?thesis by (simp add: resync_spec_def n_def)
      qed
      ultimately show ?thesis by blast
    next
      case False
      then have "resync_point buf sz p" using p crc by (auto simp: resync_point_def n_def)
      then have "List.find (resync_point buf sz) [0..<sz] = Some p"
        using p by (auto simp: find_upt_Some_iff resync_point_def)
      moreover have "lwmp_stream_resync buf sz = Some (buf', n)"
        using Some False "1.prems"
        by (auto simp add: lwmp_stream_resync.simps [of buf sz] Let_def n_def [symmetric] buf'_def [symmetric])
      ultimately show ?thesis using len p(1) "1.prems" by (simp add: resync_spec_def buf'_def n_def)
    qed
  qed
qed

text \<open>C32. On a window inside its array, resynchronisation always returns; it moves exactly the bytes
  from the first resynchronisation point of the window to the front and returns their number, and
  returns 0 when the window has no such point.\<close>

theorem lwmp_stream_resync_correct:
  assumes "sz \<le> length buf"
  shows "\<exists>buf' n. lwmp_stream_resync buf sz = Some (buf', n) \<and> resync_spec buf sz buf' n"
  by (rule resync_meets_spec [OF assms])

theorem lwmp_stream_resync_correct_witness:
  "(6::nat) \<le> length [1, 0xF7, 0xC3, 0xED, 0xA8, 9 :: byte] \<and>
   (\<exists>buf' n. lwmp_stream_resync [1, 0xF7, 0xC3, 0xED, 0xA8, 9] 6 = Some (buf', n) \<and>
      n = 5 \<and> take 5 buf' = [0xF7, 0xC3, 0xED, 0xA8, 9])"
proof -
  have "List.find (resync_point [1, 0xF7, 0xC3, 0xED, 0xA8, 9] 6) [0..<6] = Some 1"
    by (auto simp: find_upt_Some_iff resync_point_def be32_def PDU_SYNC_HDR_MARK_def)
  then show ?thesis
    using lwmp_stream_resync_correct [of 6 "[1, 0xF7, 0xC3, 0xED, 0xA8, 9]"]
    by (auto simp: resync_spec_def)
qed

subsection \<open>Correctness of the validation\<close>

lemma load32_Some: "off + 4 \<le> length buf \<Longrightarrow> load32 buf off = Some (of_be32 (take 4 (drop off buf)))"
  by (simp add: load32_def mem_read_def)

lemma load64_Some: "off + 8 \<le> length buf \<Longrightarrow> load64 buf off = Some (of_be64 (take 8 (drop off buf)))"
  by (simp add: load64_def mem_read_def)

lemma load8_Some: "off < length buf \<Longrightarrow> load8 buf off = Some (buf ! off)"
  by (simp add: load8_def)

text \<open>What an acceptable header is, as a predicate on the fields.\<close>

definition pdu_header_intact :: "byte list \<Rightarrow> bool" where
  "pdu_header_intact pdu \<longleftrightarrow>
     load32 pdu off_hdr_mark = Some PDU_SYNC_HDR_MARK \<and>
     load32 pdu off_crc32 = Some (crc32 (take off_crc32 pdu))"

definition pdu_acceptable :: "byte list \<Rightarrow> 'c \<Rightarrow> byte list \<Rightarrow> 'c hdr_validation_fns \<Rightarrow> bool" where
  "pdu_acceptable pdu c subject h \<longleftrightarrow>
     (let mt = pdu ! off_msg_type; total = of_be64 (take 8 (drop off_total pdu)) in
      pdu_header_intact pdu \<and> mt \<in> {MT_MSG, MT_FILE, MT_REQ} \<and>
      (mt = MT_FILE \<longrightarrow> allow_file_transfers h) \<and>
      (allow_file_transfers h \<longrightarrow> total \<le> max_filesize_b h) \<and>
      (mt \<noteq> MT_FILE \<longrightarrow> total \<le> of_nat MAX_TEXTMSG_SIZE) \<and>
      (if mt = MT_REQ then req_valid_fn h pdu = Some True else subj_valid_fn h c subject))"

lemma validate_ok_iff:
  assumes "LWMP_HDR_SIZE \<le> length pdu" and "req_valid_fn h pdu \<noteq> None"
  shows "\<exists>st. lwmp_validate_hdrs pdu c subject h = Some st \<and> (st = HV_OK \<longleftrightarrow> pdu_acceptable pdu c subject h)"
proof -
  have ld: "load32 pdu 0 = Some (of_be32 (take 4 pdu))"
    "load32 pdu 77 = Some (of_be32 (take 4 (drop 77 pdu)))" "mem_read pdu 0 77 = Some (take 77 pdu)"
    "load8 pdu 4 = Some (pdu ! 4)" "load64 pdu 69 = Some (of_be64 (take 8 (drop 69 pdu)))"
    using assms(1) by (simp_all add: load32_Some load64_Some load8_Some mem_read_def)
  show ?thesis
    using assms(2) unfolding lwmp_validate_hdrs_def pdu_acceptable_def pdu_header_intact_def
    by (auto simp: ld Let_def not_le not_less msg_type_defs)
qed

lemma validate_intact:
  "lwmp_validate_hdrs pdu c subject h = Some st \<Longrightarrow> st \<notin> {HV_INVAL_PDU, HV_CRCERR} \<Longrightarrow>
   pdu_header_intact pdu"
  by (auto simp: lwmp_validate_hdrs_def pdu_header_intact_def mem_read_def load32_def Option.bind_eq_Some_conv
      split: if_splits)

lemma validate_not_intact:
  "LWMP_HDR_SIZE \<le> length pdu \<Longrightarrow> \<not> pdu_header_intact pdu \<Longrightarrow>
   \<exists>st \<in> {HV_INVAL_PDU, HV_CRCERR}. lwmp_validate_hdrs pdu c subject h = Some st"
  by (auto simp: lwmp_validate_hdrs_def pdu_header_intact_def load32_Some mem_read_def)

lemma header_intact_changed_byte:
  assumes len: "LWMP_HDR_SIZE \<le> length pdu" and i: "i < LWMP_HDR_SIZE" "pdu ! i \<noteq> b"
    and intact: "pdu_header_intact pdu"
  shows "\<not> pdu_header_intact (pdu[i := b])"
proof
  assume "pdu_header_intact (pdu[i := b])"
  then have new: "of_be32 (take 4 (drop 77 (pdu[i := b]))) = crc32 (take 77 (pdu[i := b]))"
    using len by (simp add: pdu_header_intact_def load32_Some)
  have old: "of_be32 (take 4 (drop 77 pdu)) = crc32 (take 77 pdu)"
    using len intact by (simp add: pdu_header_intact_def load32_Some)
  show False
  proof (cases "i < 77")
    case True
    then have "crc32 ((take 77 pdu)[i := b]) \<noteq> crc32 (take 77 pdu)"
      using len i by (intro crc32_byte_change) simp_all
    then show False using old new True by (simp add: take_update_swap)
  next
    case False
    then have "drop 77 (pdu[i := b]) = (drop 77 pdu)[i - 77 := b]" by (simp add: drop_update_swap)
    then have "of_be32 (take 4 ((drop 77 pdu)[i - 77 := b])) = of_be32 (take 4 (drop 77 pdu))"
      using old new False by simp
    then have "take 4 ((drop 77 pdu)[i - 77 := b]) = take 4 (drop 77 pdu)"
      using len by (subst (asm) of_be32_inject) simp_all
    then have "take 4 ((drop 77 pdu)[i - 77 := b]) ! (i - 77) = take 4 (drop 77 pdu) ! (i - 77)" by simp
    then show False using False i len by simp
  qed
qed

text \<open>C31. Corruption of a header in transit is caught: from a buffer whose header was accepted, changing
  any one of its 81 bytes (the stored checksum included) makes the validation answer \<open>HV_CRCERR\<close> or
  \<open>HV_INVAL_PDU\<close>, whatever the callbacks do.\<close>

theorem corrupted_header_rejected:
  assumes "LWMP_HDR_SIZE \<le> length pdu" and "lwmp_validate_hdrs pdu c subject h = Some HV_OK"
    and "i < LWMP_HDR_SIZE" and "pdu ! i \<noteq> b"
  shows "\<exists>st \<in> {HV_INVAL_PDU, HV_CRCERR}. lwmp_validate_hdrs (pdu[i := b]) c' subject' h' = Some st"
proof -
  have "\<not> pdu_header_intact (pdu[i := b])"
    using assms by (intro header_intact_changed_byte) (auto dest: validate_intact)
  then show ?thesis using assms(1) by (intro validate_not_intact) simp_all
qed

subsection \<open>Correctness of prepared messages\<close>

lemma load8_write_same: "mem_write buf off [b] = Some buf' \<Longrightarrow> load8 buf' off = Some b"
  by (simp add: load8_conv_read mem_read_write_same)

lemma load32_write_same: "mem_write buf off (be32 w) = Some buf' \<Longrightarrow> load32 buf' off = Some w"
  by (simp add: load32_def mem_read_write_same of_be32_be32)

lemma load64_write_same: "mem_write buf off (be64 w) = Some buf' \<Longrightarrow> load64 buf' off = Some w"
  by (simp add: load64_def mem_read_write_same of_be64_be64)

lemma store_crc_correct:
  assumes "LWMP_HDR_SIZE \<le> length pdu" and "load32 pdu off_hdr_mark = Some PDU_SYNC_HDR_MARK"
  obtains pdu' where "store_crc pdu = Some pdu'" "length pdu' = length pdu" "pdu_header_intact pdu'"
    "\<And>off n. off + n \<le> off_crc32 \<or> off_buf \<le> off \<Longrightarrow> mem_read pdu' off n = mem_read pdu off n"
proof -
  define hdr where "hdr = take 77 pdu"
  have hdr: "mem_read pdu 0 77 = Some hdr" using assms(1) by (simp add: mem_read_def hdr_def)
  obtain pdu' where w: "mem_write pdu 77 (be32 (crc32 hdr)) = Some pdu'" "length pdu' = length pdu"
    using mem_write_exists [of 77 "be32 (crc32 hdr)" pdu] assms(1) by auto
  have frame: "mem_read pdu' off n = mem_read pdu off n" if "off + n \<le> 77 \<or> 81 \<le> off" for off n
    by (rule mem_read_write_other [OF w(1)]) (use that in auto)
  have "mem_read pdu' 0 77 = Some hdr" using frame [of 0 77] hdr by simp
  then have "take 77 pdu' = hdr" by (simp add: mem_read_def split: if_splits)
  then have "pdu_header_intact pdu'"
    using load32_write_same [OF w(1)] frame [of 0 4] assms(2)
    by (simp add: pdu_header_intact_def load32_def)
  then show thesis
    using w(2) frame by (intro that [of pdu']) (simp_all add: store_crc_def hdr w(1))
qed

definition response_size :: "byte list option \<Rightarrow> nat" where
  "response_size text =
     (case text of None \<Rightarrow> LWMP_HDR_SIZE | Some t \<Rightarrow> LWMP_HDR_SIZE + response_textlen t + 1)"

definition is_response ::
  "byte list \<Rightarrow> byte \<Rightarrow> byte list \<Rightarrow> byte list option \<Rightarrow> bool" where
  "is_response pdu msg_type opt text \<longleftrightarrow>
     pdu_header_intact pdu \<and> load8 pdu off_msg_type = Some msg_type \<and>
     mem_read pdu off_subject UNAMESIZE = Some (replicate UNAMESIZE 0) \<and>
     mem_read pdu off_optional OPTDATA_LEN = Some opt \<and>
     (case text of
        None \<Rightarrow> load64 pdu off_total = Some 0
      | Some t \<Rightarrow> load64 pdu off_total = Some (of_nat (response_textlen t) + 1) \<and>
          mem_read pdu off_buf (response_textlen t + 1) = Some (take (response_textlen t) t @ [0]))"

definition padded_optional :: "byte list option \<Rightarrow> nat \<Rightarrow> byte list" where
  "padded_optional optdata n =
     (case optdata of None \<Rightarrow> replicate OPTDATA_LEN 0
      | Some od \<Rightarrow> take n od @ replicate (OPTDATA_LEN - n) 0)"

lemma store_optional_correct:
  assumes "LWMP_HDR_SIZE \<le> length pdu" and "n \<le> OPTDATA_LEN"
    and "\<And>od. optdata = Some od \<Longrightarrow> n \<le> length od"
  obtains pdu' where "store_optional pdu optdata n = Some pdu'" "length pdu' = length pdu"
    "mem_read pdu' off_optional OPTDATA_LEN = Some (padded_optional optdata n)"
    "\<And>off k. off + k \<le> off_optional \<or> off_total \<le> off \<Longrightarrow> mem_read pdu' off k = mem_read pdu off k"
proof (cases optdata)
  case None
  obtain pdu' where w: "mem_write pdu 37 (replicate 32 0) = Some pdu'" "length pdu' = length pdu"
    using mem_write_exists [of 37 "replicate 32 0" pdu] assms(1) by auto
  show thesis
  proof (rule that [of pdu'])
    show "mem_read pdu' off k = mem_read pdu off k" if "off + k \<le> 37 \<or> 69 \<le> off" for off k
      by (rule mem_read_write_other [OF w(1)]) (use that in auto)
  qed (use None w in \<open>simp_all add: store_optional_def padded_optional_def memset0_def mem_read_write_same\<close>)
next
  case (Some od)
  have d: "mem_read od 0 n = Some (take n od)" "length (take n od) = n"
    using assms(3) [OF Some] by (simp_all add: mem_read_def)
  obtain p1 where w1: "mem_write pdu 37 (take n od) = Some p1" "length p1 = length pdu"
    using mem_write_exists [of 37 "take n od" pdu] assms(1,2) d(2) by auto
  obtain p2 where w2: "mem_write p1 (37 + n) (replicate (32 - n) 0) = Some p2" "length p2 = length p1"
    using mem_write_exists [of "37 + n" "replicate (32 - n) 0" p1] w1(2) assms(1,2) by auto
  have a: "mem_read p2 37 n = Some (take n od)"
    using mem_read_write_other [OF w2(1), of 37 n] mem_read_write_same [OF w1(1) d(2) [symmetric]] by simp
  have b: "mem_read p2 (37 + n) (32 - n) = Some (replicate (32 - n) 0)"
    by (rule mem_read_write_same [OF w2(1)]) simp
  show thesis
  proof (rule that [of p2])
    show "mem_read p2 37 32 = Some (padded_optional optdata n)"
      using mem_read_append [OF a b] assms(2) Some by (simp add: padded_optional_def)
    show "mem_read p2 off k = mem_read pdu off k" if "off + k \<le> 37 \<or> 69 \<le> off" for off k
      using mem_read_write_other [OF w2(1), of off k] mem_read_write_other [OF w1(1), of off k] that assms(2) d(2)
      by auto
  qed (use Some w1 w2 d in \<open>simp_all add: store_optional_def memset0_def\<close>)
qed

lemma store_text_correct:
  assumes "response_size text \<le> length pdu"
  obtains pdu' where "store_text pdu text = Some pdu'" "length pdu' = length pdu"
    "\<And>off k. off + k \<le> off_total \<Longrightarrow> mem_read pdu' off k = mem_read pdu off k"
    "case text of None \<Rightarrow> load64 pdu' off_total = Some 0
      | Some t \<Rightarrow> load64 pdu' off_total = Some (of_nat (response_textlen t) + 1) \<and>
          mem_read pdu' off_buf (response_textlen t + 1) = Some (take (response_textlen t) t @ [0])"
proof (cases "text")
  case None
  obtain pdu' where w: "mem_write pdu 69 (be64 0) = Some pdu'" "length pdu' = length pdu"
    using mem_write_exists [of 69 "be64 0" pdu] assms None by (auto simp: response_size_def)
  show thesis
  proof (rule that [of pdu'])
    show "mem_read pdu' off k = mem_read pdu off k" if "off + k \<le> 69" for off k
      by (rule mem_read_write_other [OF w(1)]) (use that in auto)
  qed (use None w in \<open>simp_all add: store_text_def load64_write_same [OF w(1)]\<close>)
next
  case (Some t)
  define n where "n = response_textlen t"
  have n: "length (take n t) = n" by (simp add: n_def response_textlen_def)
  obtain p1 where w1: "mem_write pdu 81 (take n t) = Some p1" "length p1 = length pdu"
    using mem_write_exists [of 81 "take n t" pdu] assms Some n by (auto simp: response_size_def n_def)
  obtain p2 where w2: "mem_write p1 (81 + n) [0] = Some p2" "length p2 = length p1"
    using mem_write_exists [of "81 + n" "[0]" p1] w1(2) assms Some by (auto simp: response_size_def n_def)
  obtain p3 where w3: "mem_write p2 69 (be64 (of_nat n + 1)) = Some p3" "length p3 = length p2"
    using mem_write_exists [of 69 "be64 (of_nat n + 1)" p2] w1(2) w2(2) assms Some
    by (auto simp: response_size_def n_def)
  have a: "mem_read p3 81 n = Some (take n t)"
    using mem_read_write_other [OF w3(1), of 81 n] mem_read_write_other [OF w2(1), of 81 n]
      mem_read_write_same [OF w1(1) n [symmetric]] by simp
  have b: "mem_read p3 (81 + n) 1 = Some [0]"
    using mem_read_write_other [OF w3(1), of "81 + n" 1] mem_read_write_same [OF w2(1), of 1] by simp
  show thesis
  proof (rule that [of p3])
    show "mem_read p3 off k = mem_read pdu off k" if "off + k \<le> 69" for off k
      using mem_read_write_other [OF w3(1), of off k] mem_read_write_other [OF w2(1), of off k]
        mem_read_write_other [OF w1(1), of off k] that by simp
  qed (use Some w1 w2 w3 mem_read_append [OF a b] load64_write_same [OF w3(1)]
      in \<open>simp_all add: store_text_def n_def [symmetric]\<close>)
qed

lemma lwmp_prepare_response_ok:
  assumes "response_size tx \<le> length pdu" and "n \<le> OPTDATA_LEN"
    and "\<And>od. optdata = Some od \<Longrightarrow> n \<le> length od"
  shows "\<exists>pdu'. lwmp_prepare_response pdu msg_type optdata n tx = Some pdu' \<and>
    length pdu' = length pdu \<and> is_response pdu' msg_type (padded_optional optdata n) tx"
proof -
  have len: "81 \<le> length pdu"
    using assms(1) by (simp add: response_size_def split: option.splits)
  obtain p1 where w1: "mem_write pdu 5 (replicate 32 0) = Some p1" "length p1 = length pdu"
    using mem_write_exists [of 5 "replicate 32 0" pdu] len by auto
  obtain p2 where w2: "mem_write p1 4 [msg_type] = Some p2" "length p2 = length p1"
    using mem_write_exists [of 4 "[msg_type]" p1] w1(2) len by auto
  obtain p3 where w3: "mem_write p2 0 (be32 PDU_SYNC_HDR_MARK) = Some p3" "length p3 = length p2"
    using mem_write_exists [of 0 "be32 PDU_SYNC_HDR_MARK" p2] w1(2) w2(2) len by auto
  have len3: "length p3 = length pdu" using w1 w2 w3 by simp
  have f3: "mem_read p3 0 4 = Some (be32 PDU_SYNC_HDR_MARK)" "mem_read p3 4 1 = Some [msg_type]"
    "mem_read p3 5 32 = Some (replicate 32 0)"
    using mem_read_write_same [OF w3(1)] mem_read_write_other [OF w3(1)] mem_read_write_same [OF w2(1)]
      mem_read_write_other [OF w2(1)] mem_read_write_same [OF w1(1)] by simp_all
  obtain p4 where p4: "store_optional p3 optdata n = Some p4" "length p4 = length p3"
    "mem_read p4 37 32 = Some (padded_optional optdata n)"
    "\<And>off k. off + k \<le> 37 \<or> 69 \<le> off \<Longrightarrow> mem_read p4 off k = mem_read p3 off k"
    by (rule store_optional_correct [OF len [folded len3] assms(2,3)]) blast+
  obtain p5 where p5: "store_text p4 tx = Some p5" "length p5 = length p4"
    "\<And>off k. off + k \<le> 69 \<Longrightarrow> mem_read p5 off k = mem_read p4 off k"
    "case tx of None \<Rightarrow> load64 p5 69 = Some 0
      | Some t \<Rightarrow> load64 p5 69 = Some (of_nat (response_textlen t) + 1) \<and>
          mem_read p5 81 (response_textlen t + 1) = Some (take (response_textlen t) t @ [0])"
    by (rule store_text_correct [of tx p4]) (use assms(1) len3 p4(2) in \<open>simp, blast\<close>)
  have f5: "mem_read p5 0 4 = Some (be32 PDU_SYNC_HDR_MARK)" "mem_read p5 4 1 = Some [msg_type]"
    "mem_read p5 5 32 = Some (replicate 32 0)" "mem_read p5 37 32 = Some (padded_optional optdata n)"
    using f3 p4 p5(3) by simp_all
  have l5: "load32 p5 0 = Some PDU_SYNC_HDR_MARK" "81 \<le> length p5"
    using f5(1) len len3 p4(2) p5(2) by (simp_all add: load32_def of_be32_be32)
  obtain p6 where p6: "store_crc p5 = Some p6" "length p6 = length p5" "pdu_header_intact p6"
    "\<And>off k. off + k \<le> 77 \<or> 81 \<le> off \<Longrightarrow> mem_read p6 off k = mem_read p5 off k"
    by (rule store_crc_correct [OF l5(2,1)]) blast
  have "is_response p6 msg_type (padded_optional optdata n) tx"
    using p6(3,4) f5 p5(4) by (auto simp: is_response_def load8_conv_read load64_def split: option.splits)
  moreover have "lwmp_prepare_response pdu msg_type optdata n tx = Some p6"
    using w1 w2 w3 p4(1) p5(1) p6(1) assms(2) by (simp add: lwmp_prepare_response_def memset0_def)
  ultimately show ?thesis using p4(2) p5(2) p6(2) len3 by auto
qed

text \<open>A prepared response is well formed and stays in its buffer: when the buffer holds the header
  and the (clipped) text with its terminator, no store leaves it, the header is intact (mark and CRC),
  and the fields read back as what was asked for: type, zero subject, the option bytes padded with
  zeros, and the text with its length.\<close>

lemma lwmp_prepare_response_correct:
  assumes "response_size tx \<le> length pdu" and "n \<le> OPTDATA_LEN"
    and "\<And>od. optdata = Some od \<Longrightarrow> n \<le> length od"
  shows "\<exists>pdu'. lwmp_prepare_response pdu msg_type optdata n tx = Some pdu' \<and>
    length pdu' = length pdu \<and> is_response pdu' msg_type (padded_optional optdata n) tx"
  by (rule lwmp_prepare_response_ok) (use assms in blast)+

lemma lwmp_prepare_response_correct_witness:
  "\<exists>pdu'. lwmp_prepare_response (replicate 84 0) MT_INFO (Some (be32 RESP_OK)) 4 (Some [79, 75]) = Some pdu' \<and>
     is_response pdu' MT_INFO (be32 RESP_OK @ replicate 28 0) (Some [79, 75])"
proof -
  have "response_size (Some [79, 75 :: byte]) \<le> length (replicate 84 (0 :: byte))"
    by (simp add: response_size_def response_textlen_def)
  from lwmp_prepare_response_correct [OF this, of 4 "Some (be32 RESP_OK)" MT_INFO] show ?thesis
    by (auto simp: padded_optional_def)
qed

text \<open>A chunk: the header fields and the payload read back, and nothing outside is touched.\<close>

lemma lwmp_prepare_chunk_correct:
  assumes "unat n \<le> LWMP_CHUNK_BUF_SIZE" and "LWMP_CHUNK_HDR_SIZE + unat n \<le> length lwc"
    and "unat n \<le> length data"
  shows "\<exists>lwc'. lwmp_prepare_chunk lwc n subject data = Some lwc' \<and> length lwc' = length lwc \<and>
    load32 lwc' 0 = Some CHUNK_SYNC_HDR_MARK \<and> load16 lwc' off_chunk_size = Some n \<and>
    mem_read lwc' off_chunk_subject UNAMESIZE = Some (strncpy_bytes subject UNAMESIZE) \<and>
    mem_read lwc' off_chunk_payload (unat n) = Some (take (unat n) data)"
proof -
  obtain p1 where w1: "mem_write lwc 0 (be32 CHUNK_SYNC_HDR_MARK) = Some p1" "length p1 = length lwc"
    using mem_write_exists [of 0 "be32 CHUNK_SYNC_HDR_MARK" lwc] assms(2) by auto
  obtain p2 where w2: "mem_write p1 6 (strncpy_bytes subject 32) = Some p2" "length p2 = length p1"
    using mem_write_exists [of 6 "strncpy_bytes subject 32" p1] w1(2) assms(2) by auto
  obtain p3 where w3: "mem_write p2 4 (be16 n) = Some p3" "length p3 = length p2"
    using mem_write_exists [of 4 "be16 n" p2] w1(2) w2(2) assms(2) by auto
  have d: "mem_read data 0 (unat n) = Some (take (unat n) data)" "length (take (unat n) data) = unat n"
    using assms(3) by (simp_all add: mem_read_def)
  obtain p4 where w4: "mem_write p3 38 (take (unat n) data) = Some p4" "length p4 = length p3"
    using mem_write_exists [of 38 "take (unat n) data" p3] w1(2) w2(2) w3(2) assms(2) d(2) by auto
  have "mem_read p4 0 4 = Some (be32 CHUNK_SYNC_HDR_MARK)"
    using mem_read_write_other [OF w4(1), of 0 4] mem_read_write_other [OF w3(1), of 0 4]
      mem_read_write_other [OF w2(1), of 0 4] mem_read_write_same [OF w1(1), of 4] by simp
  moreover have "mem_read p4 4 2 = Some (be16 n)"
    using mem_read_write_other [OF w4(1), of 4 2] mem_read_write_same [OF w3(1), of 2] by simp
  moreover have "mem_read p4 6 32 = Some (strncpy_bytes subject 32)"
    using mem_read_write_other [OF w4(1), of 6 32] mem_read_write_other [OF w3(1), of 6 32]
      mem_read_write_same [OF w2(1), of 32] by simp
  moreover have "mem_read p4 38 (unat n) = Some (take (unat n) data)"
    by (rule mem_read_write_same [OF w4(1) d(2) [symmetric]])
  moreover have "lwmp_prepare_chunk lwc n subject data = Some p4"
    using w1(1) w2(1) w3(1) w4(1) d(1) assms(1) by (simp add: lwmp_prepare_chunk_def Let_def)
  ultimately show ?thesis
    using w1(2) w2(2) w3(2) w4(2) by (auto simp: load32_def load16_def of_be32_be32 of_be16_be16)
qed

text \<open>A closed example of a header that passes: a user list request.\<close>

definition example_request :: "byte list" where
  "example_request = be32 PDU_SYNC_HDR_MARK @ [3] @ replicate 76 0"

definition example_fns :: "unit hdr_validation_fns" where
  "example_fns = \<lparr>subj_valid_fn = \<lambda>_ _. True, req_valid_fn = \<lambda>_. Some True,
     allow_file_transfers = True, max_filesize_b = 4096\<rparr>"

theorem corrupted_header_rejected_witness:
  "\<exists>pdu. LWMP_HDR_SIZE \<le> length pdu \<and> lwmp_validate_hdrs pdu () [] example_fns = Some HV_OK \<and>
     (\<exists>st \<in> {HV_INVAL_PDU, HV_CRCERR}. lwmp_validate_hdrs (pdu[10 := 255]) () [] example_fns = Some st)"
proof -
  have len: "81 \<le> length example_request" by (simp add: example_request_def)
  have mark: "load32 example_request 0 = Some PDU_SYNC_HDR_MARK"
    by (simp add: example_request_def load32_def mem_read_def of_be32_be32)
  obtain pdu where pdu: "store_crc example_request = Some pdu" "length pdu = length example_request"
    "pdu_header_intact pdu"
    "\<And>off n. off + n \<le> 77 \<or> 81 \<le> off \<Longrightarrow> mem_read pdu off n = mem_read example_request off n"
    by (rule store_crc_correct [OF len mark]) blast
  have "load8 pdu 4 = Some 3" "load8 pdu 10 = Some 0" "load64 pdu 69 = Some 0"
    by (simp_all add: load8_conv_read load64_def pdu(4))
      (simp_all add: example_request_def mem_read_def be32_def nth_append of_be64_def of_be32_def)
  then have fields: "pdu ! 4 = 3" "pdu ! 10 \<noteq> 255" "load64 pdu 69 = Some 0"
    by (auto simp: load8_def split: if_splits)
  have ok: "lwmp_validate_hdrs pdu () [] example_fns = Some HV_OK"
    using pdu(3) fields len pdu(2)
    by (simp add: lwmp_validate_hdrs_def pdu_header_intact_def mem_read_def load8_Some msg_type_defs
        example_fns_def)
  have "81 \<le> length pdu" using len pdu(2) by simp
  from corrupted_header_rejected [OF this ok _ fields(2), of "()" "[]" example_fns] this ok
  show ?thesis by auto
qed

end
