(* ===== verification/Cmdparse.thy ===== *)
theory Cmdparse
  imports Prelude
begin

text \<open>
  The command line tokenizer of \<open>common/cmdparse.c\<close> and the lower-casing of \<open>common/util.c\<close>.
  \<open>line\<close> is the bytes of the string; its terminator is the read at index \<open>length line\<close>. Pointers
  into the line are indices; the tokenizer stores NULs into the line, so it returns the new line and
  the indices at which the tokens start. The specification \<open>split_tokens\<close> works on the text alone.
\<close>

definition rd :: "byte list \<Rightarrow> nat \<Rightarrow> byte" where
  "rd line p = (if p < length line then line ! p else 0)"

definition is_ws :: "byte \<Rightarrow> bool" where
  "is_ws c \<longleftrightarrow> c = 32 \<or> c = 9"

abbreviation (input) QUOTE :: byte where "QUOTE \<equiv> 34"

text \<open>The scanning loops \<open>while (*p && P(*p)) p++\<close>.\<close>

function scan :: "(byte \<Rightarrow> bool) \<Rightarrow> byte list \<Rightarrow> nat \<Rightarrow> nat" where
  "scan P line p = (if rd line p \<noteq> 0 \<and> P (rd line p) then scan P line (Suc p) else p)"
  by pat_completeness auto
termination by (relation "measure (\<lambda>(P, line, p). length line - p)") (auto simp: rd_def split: if_splits)

declare scan.simps [simp del]

lemma scan_ge: "p \<le> scan P line p"
  by (induction P line p rule: scan.induct) (subst scan.simps, auto)

lemma scan_le: "p \<le> length line \<Longrightarrow> scan P line p \<le> length line"
  by (induction P line p rule: scan.induct) (subst scan.simps, auto simp: rd_def split: if_splits)

lemma scan_stops: "rd line (scan P line p) = 0 \<or> \<not> P (rd line (scan P line p))"
  by (induction P line p rule: scan.induct) (subst (1 2) scan.simps, auto)

text \<open>On text without NUL the scan stops where \<open>takeWhile\<close> does.\<close>

lemma scan_takeWhile:
  assumes "p \<le> length line" and "0 \<notin> set (drop p line)"
  shows "scan P line p = p + length (takeWhile P (drop p line))"
  using assms
proof (induction P line p rule: scan.induct)
  case (1 P line p)
  show ?case
  proof (cases "p < length line")
    case True
    then have d: "drop p line = line ! p # drop (Suc p) line" by (rule Cons_nth_drop_Suc [symmetric])
    then have "line ! p \<noteq> 0" "0 \<notin> set (drop (Suc p) line)" using "1.prems"(2) by auto
    then show ?thesis
      using "1.IH" True by (subst scan.simps) (simp add: rd_def d)
  next
    case False
    then show ?thesis by (subst scan.simps) (simp add: rd_def)
  qed
qed

lemma drop_scan:
  assumes "p \<le> length line" and "0 \<notin> set (drop p line)"
  shows "drop (scan P line p) line = dropWhile P (drop p line)"
  using assms by (simp add: scan_takeWhile dropWhile_eq_drop drop_drop add.commute)

lemma scan_text:
  assumes "p \<le> length line" and "0 \<notin> set (drop p line)" and q: "q = scan P line p"
  shows "p \<le> q" "q \<le> length line" "drop q line = dropWhile P (drop p line)"
    "take (q - p) (drop p line) = takeWhile P (drop p line)"
proof -
  show "p \<le> q" "q \<le> length line" using assms(1) by (simp_all add: q scan_ge scan_le)
  show "drop q line = dropWhile P (drop p line)" using assms by (simp add: drop_scan)
  show "take (q - p) (drop p line) = takeWhile P (drop p line)"
    using assms by (simp add: scan_takeWhile takeWhile_eq_take [symmetric])
qed

lemma rd_conv_drop: "0 \<notin> set (drop p line) \<Longrightarrow> rd line p = 0 \<longleftrightarrow> drop p line = []"
  by (auto simp: rd_def) (metis Cons_nth_drop_Suc list.set_intros(1))

lemma rd_hd: "drop p line = c # cs \<Longrightarrow> rd line p = c"
  by (cases "p < length line") (simp_all add: rd_def flip: Cons_nth_drop_Suc)

subsection \<open>The tokenizer\<close>

function cmdparse_loop :: "byte list \<Rightarrow> nat \<Rightarrow> nat list \<Rightarrow> int \<Rightarrow> byte list \<times> nat list" where
  "cmdparse_loop line p tokens max_tokens =
     (if rd line p \<noteq> 0 \<and> int (length tokens) < max_tokens
      then let p = scan is_ws line p in
        if rd line p = 0 then (line, tokens)
        else if rd line p = QUOTE
        then let tok = Suc p; p = scan (\<lambda>c. c \<noteq> QUOTE) line tok in
          if rd line p = QUOTE
          then cmdparse_loop (line[p := 0]) (Suc p) (tokens @ [tok]) max_tokens
          else cmdparse_loop line p (tokens @ [tok]) max_tokens
        else let tok = p; p = scan (\<lambda>c. \<not> is_ws c) line tok in
          if rd line p \<noteq> 0
          then cmdparse_loop (line[p := 0]) (Suc p) (tokens @ [tok]) max_tokens
          else cmdparse_loop line p (tokens @ [tok]) max_tokens
      else (line, tokens))"
  by pat_completeness auto

lemma scan_word_progress: "rd line p \<noteq> 0 \<Longrightarrow> P (rd line p) \<Longrightarrow> p < scan P line p"
  by (subst scan.simps) (auto intro: less_le_trans [OF _ scan_ge])

lemma rd_nonzero_less: "rd line p \<noteq> 0 \<Longrightarrow> p < length line"
  by (auto simp: rd_def split: if_splits)

termination cmdparse_loop
proof (relation "measure (\<lambda>(line, p, tokens, m). length line - p)", goal_cases)
  case (2 line p tokens m p1 tok q)
  then show ?case using scan_ge [of p is_ws line] scan_ge [of tok "\<lambda>c. c \<noteq> QUOTE" line]
    by (auto dest!: rd_nonzero_less)
next
  case (3 line p tokens m p1 tok q)
  then show ?case using scan_ge [of p is_ws line] scan_ge [of tok "\<lambda>c. c \<noteq> QUOTE" line]
    by (auto dest!: rd_nonzero_less)
next
  case (4 line p tokens m p1 tok q)
  then show ?case using scan_ge [of p is_ws line] scan_ge [of tok "\<lambda>c. \<not> is_ws c" line]
    by (auto dest!: rd_nonzero_less)
next
  case (5 line p tokens m p1 tok q)
  then have "\<not> is_ws (rd line p1)" using scan_stops [of line is_ws p] by simp
  then show ?case using 5 scan_ge [of p is_ws line] scan_word_progress [of line p1 "\<lambda>c. \<not> is_ws c"]
    by (auto dest!: rd_nonzero_less)
qed simp

declare cmdparse_loop.simps [simp del]

definition cmdparse_tokenize :: "byte list \<Rightarrow> int \<Rightarrow> byte list \<times> nat list" where
  "cmdparse_tokenize line max_tokens = cmdparse_loop line 0 [] max_tokens"

text \<open>Specification: the texts of the tokens, by recursion on how many are wanted.\<close>

fun split_tokens :: "nat \<Rightarrow> byte list \<Rightarrow> byte list list" where
  "split_tokens 0 xs = []"
| "split_tokens (Suc n) xs =
     (case dropWhile is_ws xs of
        [] \<Rightarrow> []
      | c # cs \<Rightarrow>
          if c = QUOTE
          then takeWhile (\<lambda>c. c \<noteq> QUOTE) cs # split_tokens n (drop 1 (dropWhile (\<lambda>c. c \<noteq> QUOTE) cs))
          else takeWhile (\<lambda>c. \<not> is_ws c) (c # cs)
                 # split_tokens n (drop 1 (dropWhile (\<lambda>c. \<not> is_ws c) (c # cs))))"

lemma split_tokens_Nil [simp]: "split_tokens n [] = []"
  by (cases n) simp_all

lemma length_split_tokens: "length (split_tokens n xs) \<le> n"
  by (induction n xs rule: split_tokens.induct) (auto split: list.splits)

text \<open>The text of a token whose end carries a NUL (or is the end of the line) only depends on the
  line up to that end.\<close>

lemma takeWhile_upto_NUL:
  assumes "i \<le> length xs" and "0 \<notin> set (take i xs)" and "i < length xs \<Longrightarrow> xs ! i = 0"
  shows "takeWhile (\<lambda>b. b \<noteq> (0::byte)) xs = take i xs"
proof (cases "i < length xs")
  case True
  then have "xs = take i xs @ 0 # drop (Suc i) xs" using assms(3) by (metis id_take_nth_drop)
  moreover have "takeWhile (\<lambda>b. b \<noteq> 0) (take i xs @ 0 # drop (Suc i) xs) = take i xs"
    using assms(2) by (subst takeWhile_append2) auto
  ultimately show ?thesis by simp
next
  case False
  then show ?thesis using assms by (simp add: cstr_no_NUL)
qed

lemma cstr_at_closed:
  assumes "tok \<le> q" "q < length line" "0 \<notin> set (drop tok line)"
    and "take (Suc q) line' = take (Suc q) (line[q := 0])" "length line' = length line"
  shows "cstr_at line' tok = take (q - tok) (drop tok line)"
proof -
  have "line' ! q = take (Suc q) line' ! q" by simp
  also have "\<dots> = 0" using assms(2,4) by simp
  finally have "line' ! q = 0" .
  moreover have "take q line' = take q line"
    using assms(4) by (metis take_take min.absorb1 lessI less_imp_le take_update_cancel order.refl)
  then have pre: "take (q - tok) (drop tok line') = take (q - tok) (drop tok line)"
    by (simp flip: drop_take)
  moreover have "0 \<notin> set (take (q - tok) (drop tok line))"
    using assms(3) by (auto dest: in_set_takeD)
  ultimately show ?thesis
    using assms(1,2,5) unfolding cstr_at_def
    by (subst takeWhile_upto_NUL [of "q - tok"]) simp_all
qed

definition loop_post :: "byte list \<Rightarrow> nat \<Rightarrow> nat list \<Rightarrow> int \<Rightarrow> byte list \<Rightarrow> nat list \<Rightarrow> bool" where
  "loop_post line p tokens m line' tokens' \<longleftrightarrow>
     length line' = length line \<and> take p line' = take p line \<and>
     (\<exists>new. tokens' = tokens @ new \<and>
        map (cstr_at line') new = split_tokens (nat (m - int (length tokens))) (drop p line))"

text \<open>One token closed by a NUL at \<open>q\<close>, and a last token that runs to the end of the line.\<close>

lemma loop_post_closed:
  assumes post: "loop_post (line[q := 0]) (Suc q) (tokens @ [tok]) m line' tokens'"
    and q: "p \<le> tok" "tok \<le> q" "q < length line" "0 \<notin> set (drop tok line)" and m: "int (length tokens) < m"
    and spec: "\<And>k. split_tokens (Suc k) (drop p line) =
      take (q - tok) (drop tok line) # split_tokens k (drop (Suc q) line)"
  shows "loop_post line p tokens m line' tokens'"
proof -
  from post obtain new where new: "tokens' = tokens @ tok # new"
    "map (cstr_at line') new = split_tokens (nat (m - int (length tokens) - 1)) (drop (Suc q) line)"
    and line': "length line' = length line" "take (Suc q) line' = take (Suc q) (line[q := 0])"
    by (auto simp: loop_post_def diff_diff_eq add.commute [of 1])
  have "cstr_at line' tok = take (q - tok) (drop tok line)"
    by (rule cstr_at_closed [OF q(2-4) line'(2,1)])
  moreover have "take p line' = take p (take (Suc q) line')" using q by simp
  then have "take p line' = take p line" using q by (simp add: line'(2))
  moreover have "nat (m - int (length tokens)) = Suc (nat (m - int (length tokens) - 1))"
    using m by simp
  ultimately show ?thesis using new line'(1) spec by (simp add: loop_post_def)
qed

lemma loop_post_last:
  assumes "rd line q = 0" "0 \<notin> set (drop q line)" "q \<le> length line" "tok \<le> q"
    and "0 \<notin> set (drop tok line)" and m: "int (length tokens) < m"
    and spec: "\<And>k. split_tokens (Suc k) (drop p line) =
      take (q - tok) (drop tok line) # split_tokens k (drop 1 (drop q line))"
  shows "case cmdparse_loop line q (tokens @ [tok]) m of (line', tokens') \<Rightarrow>
    loop_post line p tokens m line' tokens'"
proof -
  have q: "q = length line" using assms(1-3) by (simp add: rd_conv_drop)
  have "cmdparse_loop line q (tokens @ [tok]) m = (line, tokens @ [tok])"
    using assms(1) by (subst cmdparse_loop.simps) simp
  moreover have "nat (m - int (length tokens)) = Suc (nat (m - int (length tokens) - 1))"
    using m by simp
  moreover have "cstr_at line tok = drop tok line" using assms(5) by (simp add: cstr_at_def cstr_no_NUL)
  ultimately show ?thesis using spec q by (simp add: loop_post_def)
qed

lemma no_NUL_drop: "0 \<notin> set (drop p line) \<Longrightarrow> p \<le> q \<Longrightarrow> 0 \<notin> set (drop q line)"
  by (metis set_drop_subset_set_drop subsetD)

lemma split_tokens_blank: "dropWhile is_ws xs = [] \<Longrightarrow> split_tokens k xs = []"
  by (cases k) (simp_all del: dropWhile_eq_Nil_conv)

lemma split_tokens_quoted:
  assumes "dropWhile is_ws xs = QUOTE # cs"
  shows "split_tokens (Suc k) xs = takeWhile (\<lambda>c. c \<noteq> QUOTE) cs #
    split_tokens k (drop 1 (dropWhile (\<lambda>c. c \<noteq> QUOTE) cs))"
  using assms by simp

lemma split_tokens_word:
  assumes "dropWhile is_ws xs = c # cs" and "c \<noteq> QUOTE"
  shows "split_tokens (Suc k) xs = takeWhile (\<lambda>c. \<not> is_ws c) (c # cs) #
    split_tokens k (drop 1 (dropWhile (\<lambda>c. \<not> is_ws c) (c # cs)))"
  using assms by simp

lemma cmdparse_loop_correct:
  assumes "p \<le> length line" and "0 \<notin> set (drop p line)"
  shows "case cmdparse_loop line p tokens m of (line', tokens') \<Rightarrow> loop_post line p tokens m line' tokens'"
  using assms
proof (induction line p tokens m rule: cmdparse_loop.induct)
  case (1 line p tokens m)
  define p1 where "p1 = scan is_ws line p"
  have p1: "p \<le> p1" "p1 \<le> length line" "drop p1 line = dropWhile is_ws (drop p line)"
    using "1.prems" by (simp_all add: p1_def scan_ge scan_le drop_scan)
  have nn1: "0 \<notin> set (drop p1 line)" using "1.prems"(2) p1(1) by (rule no_NUL_drop)
  consider (stop) "rd line p = 0" | (full) "m \<le> int (length tokens)"
    | (blank) "rd line p \<noteq> 0" "int (length tokens) < m" "rd line p1 = 0"
    | (tok) "rd line p \<noteq> 0" "int (length tokens) < m" "rd line p1 \<noteq> 0"
    by fastforce
  then show ?case
  proof cases
    case stop
    then have "drop p line = []" using "1.prems"(2) by (simp add: rd_conv_drop)
    then show ?thesis using stop by (subst cmdparse_loop.simps) (simp add: loop_post_def)
  next
    case full
    then show ?thesis by (subst cmdparse_loop.simps) (auto simp: loop_post_def)
  next
    case blank
    then have "dropWhile is_ws (drop p line) = []"
      using nn1 by (simp add: rd_conv_drop flip: p1(3) del: dropWhile_eq_Nil_conv)
    then have "split_tokens k (drop p line) = []" for k by (rule split_tokens_blank)
    then show ?thesis
      using blank by (subst cmdparse_loop.simps) (simp add: loop_post_def Let_def p1_def [symmetric])
  next
    case tok
    note cond = conjI [OF tok(1,2)]
    have less: "p1 < length line" using tok(3) by (rule rd_nonzero_less)
    have d1: "drop p1 line = rd line p1 # drop (Suc p1) line"
      using less by (simp add: rd_def Cons_nth_drop_Suc)
    have nn2: "0 \<notin> set (drop (Suc p1) line)" using nn1 by (rule no_NUL_drop) simp
    show ?thesis
    proof (cases "rd line p1 = QUOTE")
      case True
      define q where "q = scan (\<lambda>c. c \<noteq> QUOTE) line (Suc p1)"
      have q: "Suc p1 \<le> q" "q \<le> length line" "drop q line = dropWhile (\<lambda>c. c \<noteq> QUOTE) (drop (Suc p1) line)"
        "take (q - Suc p1) (drop (Suc p1) line) = takeWhile (\<lambda>c. c \<noteq> QUOTE) (drop (Suc p1) line)"
        by (rule scan_text [OF _ nn2 q_def], use less in simp)+
      have nnq: "0 \<notin> set (drop q line)" using nn2 q(1) by (rule no_NUL_drop)
      have spec: "split_tokens (Suc k) (drop p line) =
          take (q - Suc p1) (drop (Suc p1) line) # split_tokens k (drop 1 (drop q line))" for k
        unfolding q(3,4) using p1(3) d1 True by (intro split_tokens_quoted) simp
      show ?thesis
      proof (cases "rd line q = QUOTE")
        case closed: True
        then have ql: "q < length line" by (auto intro: rd_nonzero_less)
        have "case cmdparse_loop (line[q := 0]) (Suc q) (tokens @ [Suc p1]) m of
            (line', tokens') \<Rightarrow> loop_post (line[q := 0]) (Suc q) (tokens @ [Suc p1]) m line' tokens'"
          by (rule "1.IH"(1) [OF cond p1_def tok(3) True refl q_def closed])
            (use ql no_NUL_drop [OF nnq, of "Suc q"] in simp_all)
        moreover have "cmdparse_loop line p tokens m =
            cmdparse_loop (line[q := 0]) (Suc q) (tokens @ [Suc p1]) m"
          using tok True closed by (subst cmdparse_loop.simps) (simp add: Let_def p1_def [symmetric] q_def [symmetric])
        ultimately show ?thesis
          using loop_post_closed [OF _ _ q(1) ql nn2 tok(2) spec [unfolded drop_drop plus_1_eq_Suc]] p1(1)
          by (auto split: prod.splits)
      next
        case False
        then have "rd line q = 0" using scan_stops [of line "\<lambda>c. c \<noteq> QUOTE" "Suc p1"] by (simp add: q_def)
        moreover have "cmdparse_loop line p tokens m = cmdparse_loop line q (tokens @ [Suc p1]) m"
          using tok True False by (subst cmdparse_loop.simps) (simp add: Let_def p1_def [symmetric] q_def [symmetric])
        ultimately show ?thesis using loop_post_last [OF _ nnq q(2,1) nn2 tok(2) spec] by simp
      qed
    next
      case False
      define q where "q = scan (\<lambda>c. \<not> is_ws c) line p1"
      have q: "p1 \<le> q" "q \<le> length line" "drop q line = dropWhile (\<lambda>c. \<not> is_ws c) (drop p1 line)"
        "take (q - p1) (drop p1 line) = takeWhile (\<lambda>c. \<not> is_ws c) (drop p1 line)"
        by (rule scan_text [OF p1(2) nn1 q_def])+
      have nnq: "0 \<notin> set (drop q line)" using nn1 q(1) by (rule no_NUL_drop)
      have spec: "split_tokens (Suc k) (drop p line) =
          take (q - p1) (drop p1 line) # split_tokens k (drop 1 (drop q line))" for k
        unfolding q(3,4) unfolding d1 by (rule split_tokens_word [OF p1(3) [symmetric, unfolded d1] False])
      show ?thesis
      proof (cases "rd line q = 0")
        case False
        then have ql: "q < length line" by (rule rd_nonzero_less)
        have "case cmdparse_loop (line[q := 0]) (Suc q) (tokens @ [p1]) m of
            (line', tokens') \<Rightarrow> loop_post (line[q := 0]) (Suc q) (tokens @ [p1]) m line' tokens'"
          by (rule "1.IH"(3) [OF cond p1_def tok(3) \<open>rd line p1 \<noteq> QUOTE\<close> refl q_def False])
            (use ql no_NUL_drop [OF nnq, of "Suc q"] in simp_all)
        moreover have "cmdparse_loop line p tokens m =
            cmdparse_loop (line[q := 0]) (Suc q) (tokens @ [p1]) m"
          using tok \<open>rd line p1 \<noteq> QUOTE\<close> False
          by (subst cmdparse_loop.simps) (simp add: Let_def p1_def [symmetric] q_def [symmetric])
        ultimately show ?thesis
          using loop_post_closed [OF _ p1(1) q(1) ql nn1 tok(2) spec [unfolded drop_drop plus_1_eq_Suc]]
          by (auto split: prod.splits)
      next
        case fin: True
        moreover have "cmdparse_loop line p tokens m = cmdparse_loop line q (tokens @ [p1]) m"
          using tok \<open>rd line p1 \<noteq> QUOTE\<close> fin
          by (subst cmdparse_loop.simps) (simp add: Let_def p1_def [symmetric] q_def [symmetric])
        ultimately show ?thesis using loop_post_last [OF _ nnq q(2,1) nn1 tok(2) spec] by simp
      qed
    qed
  qed
qed

subsection \<open>The text after the first tokens\<close>

fun rest_loop :: "byte list \<Rightarrow> nat \<Rightarrow> nat \<Rightarrow> nat + nat" where
  "rest_loop line p 0 = Inr p"
| "rest_loop line p (Suc n) =
     (let p = scan is_ws line p in
      if rd line p = 0 then Inl p
      else if rd line p = QUOTE
      then let p = scan (\<lambda>c. c \<noteq> QUOTE) line (Suc p) in
        rest_loop line (if rd line p = QUOTE then Suc p else p) n
      else rest_loop line (scan (\<lambda>c. \<not> is_ws c) line p) n)"

definition cmdparse_rest_after_tokens :: "byte list \<Rightarrow> int \<Rightarrow> nat" where
  "cmdparse_rest_after_tokens line skip =
     (case rest_loop line 0 (nat skip) of Inl p \<Rightarrow> p | Inr p \<Rightarrow> scan is_ws line p)"

lemma split_tokens_skip_ws: "split_tokens k (dropWhile is_ws xs) = split_tokens k xs"
  by (cases k) (simp_all add: dropWhile_idem)

lemma split_tokens_at_sep:
  assumes "xs = [] \<or> is_ws (hd xs)"
  shows "split_tokens k (drop 1 xs) = split_tokens k xs"
  using assms by (cases xs; cases k) simp_all

lemma rest_loop_correct:
  assumes "p \<le> length line" and "0 \<notin> set (drop p line)"
  shows "case rest_loop line p n of
     Inl q \<Rightarrow> q = length line \<and> drop n (split_tokens (k + n) (drop p line)) = []
   | Inr q \<Rightarrow> q \<le> length line \<and> p \<le> q \<and>
       drop n (split_tokens (k + n) (drop p line)) = split_tokens k (drop q line)"
  using assms
proof (induction line p n rule: rest_loop.induct)
  case (1 line p)
  then show ?case by simp
next
  case (2 line p n)
  define p1 where "p1 = scan is_ws line p"
  have p1: "p \<le> p1" "p1 \<le> length line" "drop p1 line = dropWhile is_ws (drop p line)"
    using "2.prems" by (simp_all add: p1_def scan_ge scan_le drop_scan)
  have nn1: "0 \<notin> set (drop p1 line)" using "2.prems"(2) p1(1) by (rule no_NUL_drop)
  show ?case
  proof (cases "rd line p1 = 0")
    case True
    then have d: "drop p1 line = []" using nn1 by (simp add: rd_conv_drop)
    then have "dropWhile is_ws (drop p line) = []" using p1(3) by simp
    then have "split_tokens j (drop p line) = []" for j by (rule split_tokens_blank)
    then show ?thesis using True d p1(2) by (simp add: Let_def p1_def [symmetric])
  next
    case tok: False
    have less: "p1 < length line" using tok by (rule rd_nonzero_less)
    have d1: "drop p1 line = rd line p1 # drop (Suc p1) line"
      using less by (simp add: rd_def Cons_nth_drop_Suc)
    have nn2: "0 \<notin> set (drop (Suc p1) line)" using nn1 by (rule no_NUL_drop) simp
    note dw = p1(3) [symmetric, unfolded d1]
    show ?thesis
    proof (cases "rd line p1 = QUOTE")
      case True
      define q where "q = scan (\<lambda>c. c \<noteq> QUOTE) line (Suc p1)"
      have q: "Suc p1 \<le> q" "q \<le> length line" "drop q line = dropWhile (\<lambda>c. c \<noteq> QUOTE) (drop (Suc p1) line)"
        by (rule scan_text [OF _ nn2 q_def], use less in simp)+
      define q' where "q' = (if rd line q = QUOTE then Suc q else q)"
      have q': "q' \<le> length line" "q \<le> q'" "drop q' line = drop 1 (drop q line)"
      proof -
        have nnq: "0 \<notin> set (drop q line)" using nn2 q(1) by (rule no_NUL_drop)
        have "rd line q = 0 \<or> rd line q = QUOTE"
          using scan_stops [of line "\<lambda>c. c \<noteq> QUOTE" "Suc p1"] by (simp add: q_def)
        then show "drop q' line = drop 1 (drop q line)" using nnq q(2) by (auto simp: q'_def rd_conv_drop)
        show "q' \<le> length line" "q \<le> q'" using q(2) rd_nonzero_less [of line q] by (auto simp: q'_def)
      qed
      have spec: "drop (Suc n) (split_tokens (k + Suc n) (drop p line)) = drop n (split_tokens (k + n) (drop q' line))"
        using split_tokens_quoted [OF dw [unfolded True], of "k + n"] by (simp add: q'(3) q(3) del: split_tokens.simps)
      have "rest_loop line p (Suc n) = rest_loop line q' n"
        using tok True by (simp add: Let_def p1_def [symmetric] q_def [symmetric] q'_def)
      moreover have "0 \<notin> set (drop q' line)" using no_NUL_drop [OF nn2, of q'] q(1) q'(2) by simp
      ultimately show ?thesis
        using "2.IH"(1) [OF p1_def tok True q_def] q'(1,2) q(1) p1(1) spec
        by (auto simp: q'_def split: sum.splits)
    next
      case False
      define q where "q = scan (\<lambda>c. \<not> is_ws c) line p1"
      have q: "p1 \<le> q" "q \<le> length line" "drop q line = dropWhile (\<lambda>c. \<not> is_ws c) (drop p1 line)"
        by (rule scan_text [OF p1(2) nn1 q_def])+
      have nnq: "0 \<notin> set (drop q line)" using nn1 q(1) by (rule no_NUL_drop)
      have "drop q line = [] \<or> is_ws (hd (drop q line))"
        unfolding q(3) using hd_dropWhile [of "\<lambda>c. \<not> is_ws c" "drop p1 line"] by blast
      then have "drop (Suc n) (split_tokens (k + Suc n) (drop p line)) = drop n (split_tokens (k + n) (drop q line))"
        using split_tokens_word [OF dw False, of "k + n"] split_tokens_at_sep [of "drop q line" "k + n"]
        unfolding q(3) unfolding d1 by (simp del: split_tokens.simps)
      moreover have "rest_loop line p (Suc n) = rest_loop line q n"
        using tok False by (simp add: Let_def p1_def [symmetric] q_def [symmetric])
      ultimately show ?thesis
        using "2.IH"(2) [OF p1_def tok False] q nnq p1(1) by (auto simp flip: q_def split: sum.splits)
    qed
  qed
qed

lemma tokenize_texts:
  assumes "0 \<notin> set line"
  shows "case cmdparse_tokenize line max_tokens of (line', tokens) \<Rightarrow>
    length line' = length line \<and> map (cstr_at line') tokens = split_tokens (nat max_tokens) line \<and>
    int (length tokens) \<le> max 0 max_tokens"
proof -
  have "case cmdparse_loop line 0 [] max_tokens of
      (line', tokens') \<Rightarrow> loop_post line 0 [] max_tokens line' tokens'"
    by (rule cmdparse_loop_correct) (use assms in simp_all)
  then obtain line' tokens where t: "cmdparse_tokenize line max_tokens = (line', tokens)"
    and l: "length line' = length line" and m: "map (cstr_at line') tokens = split_tokens (nat max_tokens) line"
    by (auto simp: cmdparse_tokenize_def loop_post_def split: prod.splits)
  have "length tokens = length (split_tokens (nat max_tokens) line)" using m by (metis length_map)
  then have "length tokens \<le> nat max_tokens" using length_split_tokens by metis
  then show ?thesis using t l m by simp
qed

text \<open>The tokenizer cuts a line into the texts the specification \<open>split_tokens\<close> gives: at most
  \<open>max_tokens\<close> tokens, blanks skipped, a quoted token up to its closing quote (or the end), a word up to
  the next blank; each token is a NUL-terminated string inside the line, whose length does not change.\<close>

lemma cmdparse_tokenize_correct:
  assumes "0 \<notin> set line"
  shows "case cmdparse_tokenize line max_tokens of (line', tokens) \<Rightarrow>
    length line' = length line \<and> map (cstr_at line') tokens = split_tokens (nat max_tokens) line \<and>
    int (length tokens) \<le> max 0 max_tokens"
  by (rule tokenize_texts [OF assms])

lemma cmdparse_tokenize_correct_witness:
  "map (cstr_at (fst (cmdparse_tokenize [47, 102, 32, 34, 97, 32, 98, 34, 32, 99] 8)))
      (snd (cmdparse_tokenize [47, 102, 32, 34, 97, 32, 98, 34, 32, 99] 8)) = [[47, 102], [97, 32, 98], [99]]"
proof -
  have "split_tokens (Suc (Suc (Suc (Suc 4)))) [47, 102, 32, 34, 97, 32, 98, 34, 32, 99] =
      [[47, 102], [97, 32, 98], [99]]"
    by (simp add: is_ws_def del: Suc_numeral)
  moreover have "nat 8 = Suc (Suc (Suc (Suc 4)))" by simp
  ultimately show ?thesis
    using cmdparse_tokenize_correct [of "[47, 102, 32, 34, 97, 32, 98, 34, 32, 99]" 8]
    by (simp split: prod.splits)
qed

text \<open>\<open>cmdparse_rest_after_tokens(line, k)\<close> agrees with the tokenizer: it points into the line, and the
  tokens of the rest are the tokens of the line after the first \<open>k\<close>.\<close>

lemma rest_after_tokens_texts:
  assumes "0 \<notin> set line"
  shows "cmdparse_rest_after_tokens line skip \<le> length line \<and>
    split_tokens n (drop (cmdparse_rest_after_tokens line skip) line) =
      drop (nat skip) (split_tokens (n + nat skip) line)"
proof -
  note post = rest_loop_correct [of 0 line "nat skip" n]
  show ?thesis
  proof (cases "rest_loop line 0 (nat skip)")
    case (Inl p)
    then show ?thesis using post assms by (simp add: cmdparse_rest_after_tokens_def)
  next
    case (Inr p)
    then have p: "p \<le> length line" "split_tokens n (drop p line) = drop (nat skip) (split_tokens (n + nat skip) line)"
      using post assms by simp_all
    moreover have "0 \<notin> set (drop p line)" using assms by (auto dest: in_set_dropD)
    ultimately show ?thesis
      using Inr by (simp add: cmdparse_rest_after_tokens_def scan_le drop_scan split_tokens_skip_ws)
  qed
qed

subsection \<open>Lower-casing in place\<close>

text \<open>The loop re-evaluates \<open>strlen(str)\<close> at every step, on the buffer it is changing. \<open>str\<close> is the
  buffer, terminator included.\<close>

function normalize_loop :: "byte list \<Rightarrow> nat \<Rightarrow> byte list" where
  "normalize_loop str i =
     (if i < length (cstr str) then normalize_loop (str[i := tolower (str ! i)]) (Suc i) else str)"
  by pat_completeness auto
termination
  by (relation "measure (\<lambda>(str, i). length str - i)")
    (auto dest: less_le_trans [OF _ length_takeWhile_le])

declare normalize_loop.simps [simp del]

definition normalize_string :: "byte list \<Rightarrow> byte list" where
  "normalize_string str = normalize_loop str 0"

lemma tolower_0_iff [simp]: "tolower c = 0 \<longleftrightarrow> c = 0"
proof -
  have "c + 32 \<noteq> 0" if "65 \<le> c" "c \<le> 90"
    using that by (auto simp: word_le_nat_alt unat_word_ariths eq_neg_iff_add_eq_0 [symmetric])
  then show ?thesis by (auto simp: tolower_def)
qed

lemma cstr_update_tolower:
  assumes "i < length (cstr str)"
  shows "cstr (str[i := tolower (str ! i)]) = (cstr str)[i := tolower (str ! i)]"
  using assms by (induction str arbitrary: i) (auto split: nat.splits if_splits)

lemma normalize_loop_correct:
  assumes "i \<le> length (cstr str)"
  shows "normalize_loop str i = take i str @ map tolower (drop i (cstr str)) @ drop (length (cstr str)) str"
  using assms
proof (induction str i rule: normalize_loop.induct)
  case (1 str i)
  show ?case
  proof (cases "i < length (cstr str)")
    case True
    then have len: "i < length str" by (rule less_le_trans [OF _ length_takeWhile_le])
    have nth: "cstr str ! i = str ! i" using True by (rule takeWhile_nth)
    have "normalize_loop str i = normalize_loop (str[i := tolower (str ! i)]) (Suc i)"
      using True by (subst normalize_loop.simps) simp
    also have "\<dots> = take (Suc i) (str[i := tolower (str ! i)])
        @ map tolower (drop (Suc i) (cstr str)) @ drop (length (cstr str)) str"
      using "1.IH" [OF True] True by (simp add: cstr_update_tolower)
    also have "take (Suc i) (str[i := tolower (str ! i)]) = take i str @ [tolower (str ! i)]"
      using len by (simp add: take_Suc_conv_app_nth)
    finally show ?thesis using True nth by (simp flip: Cons_nth_drop_Suc)
  next
    case False
    then have "i = length (cstr str)" using "1.prems" by simp
    then show ?thesis by (subst normalize_loop.simps) simp
  qed
qed

lemma normalize_string_correct:
  "normalize_string str = map tolower (cstr str) @ drop (length (cstr str)) str"
  by (simp add: normalize_string_def normalize_loop_correct)

lemma cstr_normalize_string: "cstr (normalize_string str) = map tolower (cstr str)"
proof -
  have "cstr (drop (length (cstr str)) str) = []"
    by (simp flip: dropWhile_eq_drop) (metis (mono_tags, lifting) hd_dropWhile takeWhile_eq_Nil_iff)
  moreover have "0 \<notin> set (map tolower (cstr str))" using no_NUL_cstr by auto
  ultimately show ?thesis unfolding normalize_string_correct by (subst takeWhile_append2) auto
qed

end
