(* ===== verification/Netwrap.thy ===== *)
theory Netwrap
  imports Prelude
begin

text \<open>
  The networking wrappers of \<open>common/netwrap.c\<close>. The kernel's and OpenSSL's answers are arguments
  (a return value, an \<open>errno\<close>, an SSL error); a wrapper turns them into what the rest of the code
  works with: data, \<open>EBLOCK\<close> or \<open>ERROR\<close>. The second part is what the handlers of server and client
  see of a connection: a stream of answers to \<open>recv_fn\<close> and one of answers to \<open>send_fn\<close>.
\<close>

abbreviation (input) ERROR :: int where "ERROR \<equiv> - 1"
abbreviation (input) EBLOCK :: int where "EBLOCK \<equiv> - 2"

datatype accpt = ACCPT_DONE | ACCPT_IN_PROGRESS | ACCPT_ERROR

datatype errno_code = EAGAIN | ECONNRESET | EPIPE | EADDRNOTAVAIL | EADDRINUSE | E_OTHER

datatype ssl_error = SSL_ERROR_ZERO_RETURN | SSL_ERROR_SYSCALL | SSL_ERROR_WANT_READ | SSL_ERROR_WANT_WRITE | SSL_ERROR_OTHER

record conn =
  conn_fd :: int
  ssl :: bool

subsection \<open>Plain TCP\<close>

definition accept_tcp :: "conn \<Rightarrow> accpt" where
  "accept_tcp c = ACCPT_DONE"

definition send_tcp :: "int \<Rightarrow> errno_code \<Rightarrow> int" where
  "send_tcp written err =
     (if written = ERROR
      then (case err of EAGAIN \<Rightarrow> EBLOCK | ECONNRESET \<Rightarrow> ERROR | EPIPE \<Rightarrow> ERROR | _ \<Rightarrow> ERROR)
      else if written = 0 then ERROR
      else written)"

definition recv_tcp :: "int \<Rightarrow> errno_code \<Rightarrow> int" where
  "recv_tcp received err =
     (if received = ERROR
      then (case err of EAGAIN \<Rightarrow> EBLOCK | ECONNRESET \<Rightarrow> ERROR | _ \<Rightarrow> ERROR)
      else if received = 0 then ERROR
      else received)"

definition disconnect_tcp :: "conn \<Rightarrow> conn" where
  "disconnect_tcp c = c\<lparr>conn_fd := ERROR\<rparr>"

text \<open>\<open>connect_tcp\<close>: the answers of \<open>socket\<close> and \<open>connect\<close>; the connection and the result.\<close>

definition connect_tcp :: "conn \<Rightarrow> int \<Rightarrow> bool \<Rightarrow> conn \<times> int" where
  "connect_tcp c sock connected =
     (if sock = ERROR then (c, ERROR)
      else if \<not> connected then (c, ERROR)
      else (c\<lparr>conn_fd := sock\<rparr>, 0))"

subsection \<open>TLS\<close>

text \<open>\<open>new_ok\<close> and \<open>set_ok\<close> are the answers of \<open>SSL_new\<close> and \<open>SSL_set_fd\<close>, used when the connection has no
  SSL object yet; \<open>res\<close> and \<open>err\<close> those of \<open>SSL_accept\<close> and \<open>SSL_get_error\<close>.\<close>

definition accept_tls :: "conn \<Rightarrow> bool \<Rightarrow> bool \<Rightarrow> int \<Rightarrow> ssl_error \<Rightarrow> conn \<times> accpt" where
  "accept_tls c new_ok set_ok res err =
     (if \<not> ssl c \<and> \<not> (new_ok \<and> set_ok) then (c, ACCPT_ERROR)
      else let c = c\<lparr>ssl := True\<rparr> in
        if res \<noteq> 1
        then (case err of
            SSL_ERROR_ZERO_RETURN \<Rightarrow> (c, ACCPT_ERROR)
          | SSL_ERROR_SYSCALL \<Rightarrow> (c, ACCPT_ERROR)
          | SSL_ERROR_WANT_READ \<Rightarrow> (c, ACCPT_IN_PROGRESS)
          | SSL_ERROR_WANT_WRITE \<Rightarrow> (c, ACCPT_IN_PROGRESS)
          | _ \<Rightarrow> (c, ACCPT_ERROR))
        else (c, ACCPT_DONE))"

definition connect_tls :: "conn \<Rightarrow> int \<Rightarrow> bool \<Rightarrow> bool \<Rightarrow> bool \<Rightarrow> int \<Rightarrow> conn \<times> int" where
  "connect_tls c sock connected new_ok set_ok ret =
     (if sock = ERROR then (c, ERROR)
      else if \<not> connected then (c, ERROR)
      else let c = c\<lparr>conn_fd := sock\<rparr> in
        if \<not> new_ok then (c\<lparr>conn_fd := ERROR\<rparr>, ERROR)
        else if \<not> set_ok then (c\<lparr>conn_fd := ERROR\<rparr>, ERROR)
        else let c = c\<lparr>ssl := True\<rparr> in
          if ret \<noteq> 1 then (c\<lparr>ssl := False, conn_fd := ERROR\<rparr>, ERROR)
          else (c, 0))"

definition ssl_io_error :: "ssl_error \<Rightarrow> int" where
  "ssl_io_error err =
     (case err of SSL_ERROR_ZERO_RETURN \<Rightarrow> ERROR | SSL_ERROR_SYSCALL \<Rightarrow> ERROR
      | SSL_ERROR_WANT_READ \<Rightarrow> EBLOCK | SSL_ERROR_WANT_WRITE \<Rightarrow> EBLOCK | _ \<Rightarrow> ERROR)"

definition send_tls :: "int \<Rightarrow> ssl_error \<Rightarrow> int" where
  "send_tls res err = (if res \<le> 0 then ssl_io_error err else res)"

definition recv_tls :: "int \<Rightarrow> ssl_error \<Rightarrow> int" where
  "recv_tls res err = (if res \<le> 0 then ssl_io_error err else res)"

definition avail_data_tls :: "int \<Rightarrow> nat" where
  "avail_data_tls pending = (if pending < 0 then 0 else nat pending)"

definition disconnect_tls :: "conn \<Rightarrow> conn" where
  "disconnect_tls c = c\<lparr>ssl := False, conn_fd := ERROR\<rparr>"

subsection \<open>The listening socket\<close>

text \<open>\<open>bind_res p\<close> is the answer of \<open>bind\<close> on port \<open>p\<close>. When the port is taken, the code tries the
  following ones; the port counter is a \<open>uint16_t\<close>.\<close>

datatype bind_result = Bound | Bind_err errno_code

function port_search :: "(u16 \<Rightarrow> bind_result) \<Rightarrow> u16 \<Rightarrow> u16 option" where
  "port_search bind_res new_port =
     (let res = bind_res new_port; next_port = new_port + 1 in
      if res = Bind_err EADDRINUSE \<and> next_port < - 1 then port_search bind_res next_port
      else if res = Bound then Some new_port else None)"
  by pat_completeness auto
termination
proof (relation "measure (\<lambda>(b, p). if p = - 1 then 2 ^ 16 else 2 ^ 16 - 1 - unat p)", goal_cases)
  case (2 bind_res p res q)
  have m: "unat (- 1 :: u16) = 65535" by (simp add: unsigned_minus_1_eq_mask mask_eq_exp_minus_1)
  have q: "q < - 1" "q = p + 1" using 2 by auto
  then have uq: "unat q < 65535" using m by (metis word_less_nat_alt)
  show ?case
  proof (cases "p = - 1")
    case True
    then show ?thesis using q uq by auto
  next
    case False
    then have "1 + p \<noteq> 0" by (metis add_eq_0_iff)
    then have "unat q = Suc (unat p)" using unatSuc q(2) by (metis add.commute)
    moreover have "q \<noteq> - 1" using q(1) by auto
    ultimately show ?thesis using False uq by simp
  qed
qed simp

declare port_search.simps [simp del]

definition server_start_tcp :: "bool \<Rightarrow> (u16 \<Rightarrow> bind_result) \<Rightarrow> u16 \<Rightarrow> u16 option" where
  "server_start_tcp socket_ok bind_res le_port =
     (if \<not> socket_ok then None
      else case bind_res le_port of
        Bound \<Rightarrow> Some le_port
      | Bind_err EADDRINUSE \<Rightarrow> port_search bind_res (le_port + 1)
      | Bind_err _ \<Rightarrow> None)"

subsection \<open>A connection as the handlers see it\<close>

datatype recv_res = RecvError | RecvBlock | RecvData "byte list"
datatype send_res = SendError | SendBlock | Sent nat

text \<open>\<open>recv_fn\<close> on a connection whose pending input is \<open>inp\<close>: at most \<open>len\<close> bytes of the data that has
  arrived. A request for no bytes is answered by 0, which the wrappers report as an error. Exhausted
  input blocks.\<close>

fun recv_fn :: "recv_res list \<Rightarrow> nat \<Rightarrow> recv_res \<times> recv_res list" where
  "recv_fn [] len = (if len = 0 then RecvError else RecvBlock, [])"
| "recv_fn (RecvData bs # inp) len =
     (if len = 0 \<or> bs = [] then (RecvError, inp)
      else (RecvData (take len bs), if length bs \<le> len then inp else RecvData (drop len bs) # inp))"
| "recv_fn (r # inp) len = (r, inp)"

fun send_fn :: "send_res list \<Rightarrow> nat \<Rightarrow> send_res \<times> send_res list" where
  "send_fn [] len = (SendBlock, [])"
| "send_fn (Sent n # outp) len = (if n = 0 \<or> len = 0 then SendError else Sent (min n len), outp)"
| "send_fn (r # outp) len = (r, outp)"

lemma recv_fn_data:
  assumes "recv_fn inp len = (RecvData bs, inp')"
  shows "0 < length bs" "length bs \<le> len"
proof -
  from assms have "0 < length bs \<and> length bs \<le> len"
    by (induction inp len rule: recv_fn.induct) (auto split: if_splits)
  then show "0 < length bs" "length bs \<le> len" by simp_all
qed

lemma send_fn_sent:
  assumes "send_fn outp len = (Sent n, outp')"
  shows "0 < n" "n \<le> len"
proof -
  from assms have "0 < n \<and> n \<le> len"
    by (induction outp len rule: send_fn.induct) (auto split: if_splits)
  then show "0 < n" "n \<le> len" by simp_all
qed

text \<open>How much a pending input holds: every read takes something from it.\<close>

definition input_size :: "recv_res list \<Rightarrow> nat" where
  "input_size inp = sum_list (map (\<lambda>r. case r of RecvData bs \<Rightarrow> Suc (length bs) | _ \<Rightarrow> 1) inp)"

lemma recv_fn_size: "recv_fn inp len = (RecvData bs, inp') \<Longrightarrow> input_size inp' < input_size inp"
  by (induction inp len rule: recv_fn.induct) (auto simp: input_size_def split: if_splits)

text \<open>The bytes of the pending input, and input that neither ends nor blocks.\<close>

definition in_bytes :: "recv_res list \<Rightarrow> byte list" where
  "in_bytes inp = concat (map (\<lambda>r. case r of RecvData bs \<Rightarrow> bs | _ \<Rightarrow> []) inp)"

definition ready :: "recv_res list \<Rightarrow> bool" where
  "ready inp \<longleftrightarrow> (\<forall>r \<in> set inp. \<exists>bs. r = RecvData bs \<and> bs \<noteq> [])"

lemma in_bytes_simps [simp]:
  "in_bytes [] = []" "in_bytes (RecvData bs # inp) = bs @ in_bytes inp"
  "in_bytes (RecvError # inp) = in_bytes inp" "in_bytes (RecvBlock # inp) = in_bytes inp"
  by (simp_all add: in_bytes_def)

lemma recv_fn_bytes: "recv_fn inp len = (RecvData bs, inp') \<Longrightarrow> in_bytes inp = bs @ in_bytes inp'"
  by (induction inp len rule: recv_fn.induct) (auto split: if_splits)

lemma recv_fn_block: "recv_fn inp len = (RecvBlock, inp') \<Longrightarrow> in_bytes inp = in_bytes inp'"
  by (induction inp len rule: recv_fn.induct) (auto split: if_splits)

lemma recv_fn_ready:
  assumes "ready inp" and "0 < len"
  shows "(inp = [] \<and> recv_fn inp len = (RecvBlock, [])) \<or>
    (\<exists>bs inp'. recv_fn inp len = (RecvData bs, inp') \<and> bs \<noteq> [] \<and> length bs \<le> len \<and> ready inp' \<and> in_bytes inp = bs @ in_bytes inp')"
proof (cases inp)
  case (Cons r rs)
  with assms obtain bs where bs: "r = RecvData bs" "bs \<noteq> []" "ready rs" by (auto simp: ready_def)
  have "drop len bs \<noteq> []" if "\<not> length bs \<le> len" using that by simp
  then show ?thesis
    using bs assms Cons by (auto simp: ready_def)
qed (use assms in simp)

text \<open>The streams agree with the wrappers: a positive count is data, everything else is an error or a
  request to wait.\<close>

lemma recv_wrappers:
  "recv_tcp r e > 0 \<longleftrightarrow> r > 0" "recv_tls r err > 0 \<longleftrightarrow> r > 0"
  "r \<ge> - 1 \<Longrightarrow> r \<le> 0 \<Longrightarrow> recv_tcp r e \<in> {ERROR, EBLOCK}"
  "r \<le> 0 \<Longrightarrow> recv_tls r err \<in> {ERROR, EBLOCK}"
  by (auto simp: recv_tcp_def recv_tls_def ssl_io_error_def split: errno_code.splits ssl_error.splits)

lemma port_search_skips:
  "port_search bind_res p = Some q \<Longrightarrow>
   \<exists>k. q = p + of_nat k \<and> bind_res q = Bound \<and> (\<forall>i<k. bind_res (p + of_nat i) = Bind_err EADDRINUSE)"
proof (induction bind_res p rule: port_search.induct)
  case (1 bind_res p)
  show ?case
  proof (cases "bind_res p = Bind_err EADDRINUSE \<and> p + 1 < - 1")
    case True
    then have "port_search bind_res (p + 1) = Some q"
      using "1.prems" by (subst (asm) port_search.simps) (simp add: Let_def)
    from "1.IH" [OF refl refl True this] obtain k where k: "q = p + 1 + of_nat k" "bind_res q = Bound"
      "\<forall>i<k. bind_res (p + 1 + of_nat i) = Bind_err EADDRINUSE" by blast
    have "bind_res (p + of_nat i) = Bind_err EADDRINUSE" if "i < Suc k" for i
      using k(3) True that by (cases i) (auto simp: add.assoc)
    with k show ?thesis by (intro exI [of _ "Suc k"]) (simp add: add.assoc)
  next
    case False
    then show ?thesis using "1.prems"
      by (subst (asm) port_search.simps) (auto simp: Let_def split: if_splits intro!: exI [of _ 0])
  qed
qed

end
