(* ===== verification/Clhandle.thy ===== *)
theory Clhandle
  imports Timerheap Htable Mpscq Lwmp Cmdparse Netwrap
begin

text \<open>
  The client objects of \<open>server/clhandle.c\<close> and the functions on them. A \<open>std_client\<close> contains its hash
  table node, and \<open>container_of\<close> goes from the address of the node to that of the client: in the model a
  client has one address, at which one store holds the \<open>std_client\<close> and another holds its \<open>node\<close>. The key
  of the node is the prefix of \<open>key_size\<close> bytes of the user name.

  It is here that the properties of the hash table are stated for the table of clients, whose comparison
  function is \<open>std_client_cmp\<close>.
\<close>

record buffer =
  rbuf :: "byte list"
  rbuf_size :: u32
  buf_data_offset :: u32

record curr_recv_msg =
  recvbuf :: buffer
  expected_msg_size :: u64
  total_msg_data_recved :: u64
  rmsg_type :: u32
  not_msg_init_pdu :: bool
  is_desynced :: bool
  dest_uname :: "byte list"

record std_client = client +
  temp_recv_storage :: curr_recv_msg
  pending_userdata_queue :: mpsc_msg_queue
  pending_ctrl_queue :: mpsc_msg_queue
  temp_send_storage :: addr
  username :: "byte list"
  owner_thrd_id :: byte

record reg_client = client +
  tmpbuf_recv :: buffer

type_synonym std_store = "addr \<Rightarrow> std_client"
type_synonym node_store = "addr \<Rightarrow> node"

subsection \<open>The list of registration clients\<close>

text \<open>The list without its dummy head, the first element first.\<close>

definition list_create :: "addr list" where
  "list_create = []"

definition list_add :: "addr list \<Rightarrow> addr \<Rightarrow> addr list" where
  "list_add list cl = (if list = [] then [cl] else cl # list)"

fun list_remove :: "addr list \<Rightarrow> addr \<Rightarrow> addr list" where
  "list_remove [] cl = []"
| "list_remove (c # cs) cl = (if cl = c then cs else c # list_remove cs cl)"

subsection \<open>Names\<close>

definition std_client_cmp :: "hkey \<Rightarrow> hkey \<Rightarrow> int" where
  "std_client_cmp cla clb =
     (let lena = length cla; lenb = length clb;
          res = strncmp cla clb (if lena < lenb then lena else lenb)
      in if res \<noteq> 0 then res else int lena - int lenb)"

subsection \<open>Creation, destruction, predicates\<close>

text \<open>The response and what the connection takes of it; the result of the send is ignored.\<close>

definition auth_send_resp :: "send_res list \<Rightarrow> u32 \<Rightarrow> byte list \<times> send_res list" where
  "auth_send_resp outp resp_type =
     (case send_fn outp 4 of
        (Sent n, outp) \<Rightarrow> (take n (be32 resp_type), outp)
      | (_, outp) \<Rightarrow> ([], outp))"

definition free_std_client :: "std_store \<Rightarrow> msg_store \<Rightarrow> addr \<Rightarrow> (std_store \<times> msg_store) option" where
  "free_std_client cls msgs c =
     (let stdc = cls c; cls = cls(c := stdc\<lparr>sock_fd := - 1\<rparr>) in
      case mpscq_destroy (pending_userdata_queue stdc) msgs of
        None \<Rightarrow> None
      | Some msgs \<Rightarrow> (case mpscq_destroy (pending_ctrl_queue stdc) msgs of
          None \<Rightarrow> None
        | Some msgs \<Rightarrow>
            if temp_send_storage stdc \<noteq> 0
            then Some (cls, msgs(temp_send_storage stdc := (msgs (temp_send_storage stdc))\<lparr>msg_freed := True\<rparr>))
            else Some (cls, msgs)))"

definition zero_queue :: mpsc_msg_queue where
  "zero_queue = \<lparr>head_next = 0, tail = 0, efd = 0, qmode = MODE_SPSC\<rparr>"

definition create_std_client :: "u32 \<Rightarrow> int \<Rightarrow> byte \<Rightarrow> byte list \<Rightarrow> std_client \<times> node" where
  "create_std_client peer clsock thrd_id uninit =
     (\<lparr>sock_fd = clsock, timerheap_index = INVAL_TH_IND, auth_deadline = Timespec 0 0, peer_name = peer,
       cl_state = INIT,
       temp_recv_storage =
         \<lparr>recvbuf = \<lparr>rbuf = take LWMP_MAX_PDU_SIZE uninit, rbuf_size = of_nat LWMP_MAX_PDU_SIZE, buf_data_offset = 0\<rparr>,
          expected_msg_size = 0, total_msg_data_recved = 0, rmsg_type = ucast MT_NONE, not_msg_init_pdu = False,
          is_desynced = False, dest_uname = replicate UNAMESIZE 0\<rparr>,
       pending_userdata_queue = zero_queue, pending_ctrl_queue = zero_queue, temp_send_storage = 0,
       username = replicate UNAMESIZE 0, owner_thrd_id = thrd_id\<rparr>,
      \<lparr>key = [], ref_cnt = 1, freed = False\<rparr>)"

definition is_not_disconnected :: "std_store \<Rightarrow> addr \<Rightarrow> bool" where
  "is_not_disconnected cls nd \<longleftrightarrow> cl_state (cls nd) \<noteq> DISCONNECTED"

definition node_copy_username :: "std_store \<Rightarrow> addr \<Rightarrow> nat \<Rightarrow> copy_result" where
  "node_copy_username cls nd sz =
     (if cl_state (cls nd) = DISCONNECTED then KEY_SKIP
      else let uname_len = length (cstr (username (cls nd))) + 1 in
        if uname_len > sz then BUF_TOOSMALL else Copied (cstr (username (cls nd)) @ [0]))"

text \<open>The table and the two stores are what \<open>validate_recipient\<close> reads; the reference it takes it also
  gives back. Its lookup cannot fault on a well-formed table (lemma \<open>validate_recipient_iff\<close>).\<close>

definition validate_recipient :: "htable \<times> node_store \<times> std_store \<Rightarrow> byte list \<Rightarrow> bool" where
  "validate_recipient t rcpt_uname =
     (case t of (ht, nds, cls) \<Rightarrow>
        case htable_get_cond calm_locks nds ht (cstr rcpt_uname) (is_not_disconnected cls) of
          Some (Some nd, nds, _) \<Rightarrow> True
        | _ \<Rightarrow> False)"

definition validate_request :: "byte list \<Rightarrow> bool option" where
  "validate_request pdu = do {
     msg_type \<leftarrow> load8 pdu off_msg_type;
     if msg_type \<noteq> MT_REQ then Some False
     else do {
       req \<leftarrow> load32 pdu off_optional;
       Some (req = REQ_USER_LIST) } }"

subsection \<open>The order of names\<close>

lemma std_client_cmp_Cons:
  "x \<noteq> 0 \<Longrightarrow> std_client_cmp (x # a) (y # b) = (if x \<noteq> y then uint x - uint y else std_client_cmp a b)"
  by (auto simp: std_client_cmp_def Let_def dest: word_uint_eqI)

lemma std_client_cmp_Nil [simp]:
  "std_client_cmp [] b = - int (length b)" "std_client_cmp a [] = int (length a)"
  by (simp_all add: std_client_cmp_def)

lemma std_client_cmp_eq: "0 \<notin> set a \<Longrightarrow> 0 \<notin> set b \<Longrightarrow> std_client_cmp a b = 0 \<longleftrightarrow> a = b"
  by (induction a b rule: list_induct2') (auto simp: std_client_cmp_Cons dest: word_uint_eqI)

lemma std_client_cmp_antisym: "0 \<notin> set a \<Longrightarrow> 0 \<notin> set b \<Longrightarrow> std_client_cmp a b < 0 \<longleftrightarrow> 0 < std_client_cmp b a"
  by (induction a b rule: list_induct2') (auto simp: std_client_cmp_Cons)

lemma std_client_cmp_trans:
  "0 \<notin> set a \<Longrightarrow> 0 \<notin> set b \<Longrightarrow> 0 \<notin> set c \<Longrightarrow> std_client_cmp a b < 0 \<Longrightarrow> std_client_cmp b c < 0 \<Longrightarrow>
   std_client_cmp a c < 0"
proof (induction a arbitrary: b c)
  case Nil
  then show ?case by (cases c) auto
next
  case (Cons x a)
  from Cons.prems obtain y b' where b: "b = y # b'" by (cases b) auto
  with Cons.prems obtain z c' where c: "c = z # c'" by (cases c) auto
  show ?case
    using Cons.prems Cons.IH [of b' c'] by (auto simp: b c std_client_cmp_Cons split: if_splits)
qed

definition name_ok :: "hkey \<Rightarrow> bool" where
  "name_ok k \<longleftrightarrow> k \<noteq> [] \<and> 0 \<notin> set k"

interpretation name_order: key_order std_client_cmp name_ok
proof
  fix a b c
  assume "name_ok a" "name_ok b"
  then have ab: "0 \<notin> set a" "0 \<notin> set b" by (simp_all add: name_ok_def)
  show "(std_client_cmp a b = 0) = (a = b)" by (rule std_client_cmp_eq [OF ab])
  show "(std_client_cmp a b < 0) = (0 < std_client_cmp b a)" by (rule std_client_cmp_antisym [OF ab])
  show "std_client_cmp a b < 0 \<Longrightarrow> std_client_cmp b c < 0 \<Longrightarrow> std_client_cmp a c < 0" if "name_ok c"
    by (rule std_client_cmp_trans [OF ab]) (use that in \<open>auto simp: name_ok_def\<close>)
qed (simp add: name_ok_def)

lemma name_ok_cstr: "cstr s \<noteq> [] \<Longrightarrow> name_ok (cstr s)"
  using no_NUL_cstr [of s] by (simp add: name_ok_def)


subsection \<open>The table of clients\<close>

text \<open>A table of clients: well formed, compared by name, and every node in it is referenced.\<close>

definition client_table :: "node_store \<Rightarrow> htable \<Rightarrow> bool" where
  "client_table nds ht \<longleftrightarrow> ht_ok name_ok nds ht \<and> cmpfn ht = std_client_cmp \<and>
     (\<forall>n \<in> ht_nodes ht. ref_cnt (nds n) \<noteq> 0)"

lemma client_tableD:
  assumes "client_table nds ht"
  shows "ht_ok name_ok nds ht" "cmpfn ht = std_client_cmp" "\<And>n. n \<in> ht_nodes ht \<Longrightarrow> ref_cnt (nds n) \<noteq> 0"
  using assms by (auto simp: client_table_def)

lemma find_client:
  assumes "client_table nds ht"
  shows "\<exists>tr. htable_get_cond calm_locks nds ht (cstr nm) (is_not_disconnected cls) =
    (case (if cstr nm = [] then None else ht_map nds ht (cstr nm)) of
       Some n \<Rightarrow> if is_not_disconnected cls n then Some (Some n, node_get nds n, tr) else Some (None, nds, tr)
     | None \<Rightarrow> Some (None, nds, tr))"
proof -
  note t = client_tableD [OF assms]
  have hd0: "hd (cstr nm) \<noteq> 0" if "cstr nm \<noteq> []"
    using that no_NUL_cstr [of nm] by (metis list.set_sel(1))
  have "name_ok (cstr nm)" if "cstr nm \<noteq> []" using that by (rule name_ok_cstr)
  with name_order.htable_get_cond_correct [OF t(1,2) never_fails_calm, of "cstr nm" "is_not_disconnected cls"] t(3) hd0
  show ?thesis by (cases "cstr nm = []") simp_all
qed

lemma validate_recipient_iff:
  assumes "client_table nds ht"
  shows "validate_recipient (ht, nds, cls) nm \<longleftrightarrow>
    cstr nm \<noteq> [] \<and> (\<exists>n. ht_map nds ht (cstr nm) = Some n \<and> cl_state (cls n) \<noteq> DISCONNECTED)"
  using find_client [OF assms, of nm cls]
  by (auto simp: validate_recipient_def is_not_disconnected_def split: option.splits if_splits)

text \<open>A history of logins (\<open>Inl\<close>: the node to add) and departures (\<open>Inr\<close>: the name to remove), with the
  results of the additions; and the same on a finite map from names to nodes.\<close>

fun table_history :: "(addr + hkey) list \<Rightarrow> htable \<times> node_store \<Rightarrow> (bool list \<times> htable \<times> node_store) option" where
  "table_history [] t = Some ([], t)"
| "table_history (Inl n # ops) (ht, nds) =
     (case htable_add calm_locks calm_resize nds ht n of
        None \<Rightarrow> None
      | Some (r, ht, _) \<Rightarrow> map_option (\<lambda>(rs, t). (r # rs, t)) (table_history ops (ht, nds)))"
| "table_history (Inr k # ops) (ht, nds) =
     (case htable_remove calm_locks nds ht k of
        None \<Rightarrow> None
      | Some (ht, nds, _) \<Rightarrow> table_history ops (ht, nds))"

fun map_history :: "(addr \<Rightarrow> hkey) \<Rightarrow> (addr + hkey) list \<Rightarrow> (hkey \<rightharpoonup> addr) \<Rightarrow> bool list \<times> (hkey \<rightharpoonup> addr)" where
  "map_history ky [] m = ([], m)"
| "map_history ky (Inl n # ops) m =
     (if m (ky n) = None then case map_history ky ops (m(ky n \<mapsto> n)) of (rs, m) \<Rightarrow> (True # rs, m)
      else case map_history ky ops m of (rs, m) \<Rightarrow> (False # rs, m))"
| "map_history ky (Inr k # ops) m = map_history ky ops (m(k := None))"

lemma table_history_run: "table_history ops t = name_order.tbl.run_table ops t"
proof (induction ops t rule: table_history.induct)
  case (2 n ops ht nds)
  have "tbl_add (ht, nds) n = map_option (\<lambda>(r, ht', _). (r, ht', nds)) (htable_add calm_locks calm_resize nds ht n)"
    by (simp add: tbl_add_def)
  with 2 show ?case by (auto split: option.splits)
next
  case (3 k ops ht nds)
  have "tbl_remove (ht, nds) k = map_option (\<lambda>(ht', s', _). (ht', s')) (htable_remove calm_locks nds ht k)"
    by (simp add: tbl_remove_def)
  with 3 show ?case by (auto split: option.splits)
qed simp

lemma map_history_run: "map_history ky ops m = name_order.tbl.run_map ky ops m"
  by (induction ky ops m rule: map_history.induct) (simp_all del: fun_upd_apply)


definition example_nodes :: node_store where
  "example_nodes n = \<lparr>key = (if n = 3 then [98] else [97]), ref_cnt = 1, freed = False\<rparr>"

lemma example_table:
  "\<exists>ht. htable_create 2 1 70 1 std_client_cmp True = Some (Some ht) \<and> ht_ok name_ok nds ht \<and>
     cmpfn ht = std_client_cmp \<and> ht_map nds ht = Map.empty"
  by (rule htable_create_correct [OF name_order.key_order_axioms]) simp_all


lemma user_list_copied:
  assumes "ht_ok name_ok nds ht"
  shows "\<exists>tr. htable_copy_all_keys (node_copy_username cls) ht =
      Some (concat (map (\<lambda>n. cstr (username (cls n)) @ [0]) (filter (is_not_disconnected cls) (concat (buckets ht)))), tr) \<and>
    trace_ok ht tr"
proof -
  define out where "out = (\<lambda>n. if is_not_disconnected cls n then Some (cstr (username (cls n)) @ [0]) else None)"
  have "copies_upto B (node_copy_username cls) out" for B
    by (auto simp: copies_upto_def out_def node_copy_username_def is_not_disconnected_def Let_def)
  from htable_copy_all_keys_correct [OF assms this] obtain tr where
    "htable_copy_all_keys (node_copy_username cls) ht =
      Some (concat (map (\<lambda>n. case out n of None \<Rightarrow> [] | Some bs \<Rightarrow> bs) (concat (buckets ht))), tr)" "trace_ok ht tr" by blast
  moreover have "concat (map (\<lambda>n. case out n of None \<Rightarrow> [] | Some bs \<Rightarrow> bs) ns) =
      concat (map (\<lambda>n. cstr (username (cls n)) @ [0]) (filter (is_not_disconnected cls) ns))" for ns
    by (induction ns) (auto simp: out_def)
  ultimately show ?thesis by simp
qed

definition example_ht :: htable where
  "example_ht = \<lparr>buckets = [[1, 3]], cmpfn = std_client_cmp, bucket_count = 1, element_count = 2,
     resize_thres_elem_count = 1, lock_count = 1, buckets_per_lock_pow2 = 0, threshold_load_factor = 100,
     htable_pow2_resize_factor = 1\<rparr>"

definition example_clients :: std_store where
  "example_clients n = (fst (create_std_client 0 5 0 (replicate LWMP_MAX_PDU_SIZE 0)))
     \<lparr>username := (if n = 3 then [98, 0] else [97, 0]), cl_state := (if n = 3 then DISCONNECTED else AUTHENTICATED)\<rparr>"

lemma example_ht_ok: "ht_ok name_ok example_nodes example_ht" "cmpfn example_ht = std_client_cmp"
proof -
  have "fnv1a_32_hash k \<noteq> None" if "k \<noteq> []" for k using that by (simp add: fnv1a_32_hash_def)
  then have b: "bucket_index 1 [97] = Some 0" "bucket_index 1 [98] = Some 0"
    by (auto simp: bucket_index_def bucket_of_def fnv1a_32_hash_def)
  have c: "std_client_cmp [97] [98] < 0" by (simp add: std_client_cmp_Cons)
  have "ht_sizes example_ht" by (simp add: ht_sizes_def example_ht_def) (rule exI [of _ 0], simp)
  then show "ht_ok name_ok example_nodes example_ht"
    using b c by (auto simp: ht_ok_def example_ht_def name_order.chain_ok_def example_nodes_def name_ok_def)
qed (simp add: example_ht_def)

end
