(* ===== verification/Dbops.thy ===== *)
theory Dbops
  imports Lwmp Cmdparse
begin

text \<open>
  Registration, deletion and authentication of accounts, \<open>server/dbops.c\<close>. SQLite and SHA-256 are not part of
  the sources: they are parameters. \<open>exec\<close> runs one of the two updating statements and gives back whether it
  was done, the number of changed rows and the new database; \<open>fetch\<close> is the query for the password hash of
  a user; \<open>sha\<close> is the hash function. \<open>idx_ok\<close> says that the named parameters of the prepared statement exist.
\<close>

datatype sql = REG_QUERY | DEL_QUERY

record auth_req_group =
  request_type :: u32
  req_username :: "byte list"
  req_password :: "byte list"

abbreviation (input) AUTH_REQ_SIZE :: nat where "AUTH_REQ_SIZE \<equiv> 56"

text \<open>The group in the receive buffer; \<open>request_type\<close> holds what \<open>ntohl\<close> gives.\<close>

definition auth_req_of :: "byte list \<Rightarrow> auth_req_group option" where
  "auth_req_of b = do {
     t \<leftarrow> load32 b 0;
     u \<leftarrow> mem_read b 4 UNAMESIZE;
     p \<leftarrow> mem_read b (4 + UNAMESIZE) PWDSIZE;
     Some \<lparr>request_type = t, req_username = u, req_password = p\<rparr> }"

text \<open>The checks write terminators and lower-case letters into the buffer.\<close>

definition store_auth_req :: "auth_req_group \<Rightarrow> byte list \<Rightarrow> byte list option" where
  "store_auth_req req b = do {
     b \<leftarrow> mem_write b 4 (req_username req);
     mem_write b (4 + UNAMESIZE) (req_password req) }"

text \<open>The terminators the code stores before it uses the two fields as strings.\<close>

definition terminate_fields :: "auth_req_group \<Rightarrow> auth_req_group" where
  "terminate_fields req = req
     \<lparr>req_username := normalize_string ((req_username req)[UNAMESIZE - 1 := 0]),
      req_password := (req_password req)[PWDSIZE - 1 := 0]\<rparr>"

definition process_reg_req ::
  "(sql \<Rightarrow> byte list \<Rightarrow> byte list \<Rightarrow> 'db \<Rightarrow> bool \<times> nat \<times> 'db) \<Rightarrow> (byte list \<Rightarrow> byte list) \<Rightarrow> bool \<Rightarrow>
   sql \<Rightarrow> 'db \<Rightarrow> auth_req_group \<Rightarrow> bool \<times> 'db \<times> auth_req_group" where
  "process_reg_req exec sha idx_ok stmt db req =
     (if \<not> idx_ok then (False, db, req)
      else let req = terminate_fields req;
               (res_done, changes, db) = exec stmt (cstr (req_username req)) (sha (cstr (req_password req))) db
           in if \<not> res_done then (False, db, req)
              else if changes = 0 then (False, db, req)
              else (True, db, req))"

text \<open>\<open>CRYPTO_memcmp\<close> reads 32 bytes of the stored value: a shorter one is an invalid access.\<close>

definition validate_auth ::
  "(byte list \<Rightarrow> 'db \<Rightarrow> byte list option) \<Rightarrow> (byte list \<Rightarrow> byte list) \<Rightarrow> bool \<Rightarrow> bool \<Rightarrow>
   'db \<Rightarrow> auth_req_group \<Rightarrow> (bool \<times> auth_req_group) option" where
  "validate_auth fetch sha use_auth idx_ok db req =
     (if \<not> use_auth then Some (True, req)
      else if \<not> idx_ok then Some (False, req)
      else let req = terminate_fields req in
        case fetch (cstr (req_username req)) db of
          None \<Rightarrow> Some (False, req)
        | Some dbpw \<Rightarrow>
            if length dbpw < 32 then None
            else Some (take 32 dbpw = sha (cstr (req_password req)), req))"

subsection \<open>What the statements do\<close>

text \<open>The documented effect of the statements on the table \<open>users\<close>, whose user names are unique: an insertion
  or deletion that was done and changed a row has the obvious effect on the queried hashes.\<close>

definition users_table ::
  "(sql \<Rightarrow> byte list \<Rightarrow> byte list \<Rightarrow> 'db \<Rightarrow> bool \<times> nat \<times> 'db) \<Rightarrow> (byte list \<Rightarrow> 'db \<Rightarrow> byte list option) \<Rightarrow> bool" where
  "users_table exec fetch \<longleftrightarrow>
     (\<forall>u h db n db'. exec REG_QUERY u h db = (True, n, db') \<and> n \<noteq> 0 \<longrightarrow>
        fetch u db = None \<and> (\<forall>v. fetch v db' = (if v = u then Some h else fetch v db))) \<and>
     (\<forall>u h db n db'. exec DEL_QUERY u h db = (True, n, db') \<and> n \<noteq> 0 \<longrightarrow>
        fetch u db = Some h \<and> (\<forall>v. fetch v db' = (if v = u then None else fetch v db)))"

text \<open>The name and the password that a request stands for.\<close>

definition user_of :: "auth_req_group \<Rightarrow> byte list" where
  "user_of req = map tolower (cstr (take (UNAMESIZE - 1) (req_username req)))"

definition password_of :: "auth_req_group \<Rightarrow> byte list" where
  "password_of req = cstr (take (PWDSIZE - 1) (req_password req))"

definition req_ok :: "auth_req_group \<Rightarrow> bool" where
  "req_ok req \<longleftrightarrow> length (req_username req) = UNAMESIZE \<and> length (req_password req) = PWDSIZE"

lemma cstr_update_0: "n < length xs \<Longrightarrow> cstr (xs[n := 0]) = cstr (take n xs)"
  by (induction xs arbitrary: n) (auto split: nat.splits)

lemma terminate_fields_strings:
  assumes "req_ok req"
  shows "cstr (req_username (terminate_fields req)) = user_of req"
    and "cstr (req_password (terminate_fields req)) = password_of req"
  using assms
  by (simp_all add: terminate_fields_def cstr_normalize_string user_of_def password_of_def req_ok_def cstr_update_0)

lemma process_reg_req_done:
  assumes "process_reg_req exec sha idx_ok stmt db req = (True, db', req')" and "req_ok req"
  obtains n where "exec stmt (user_of req) (sha (password_of req)) db = (True, n, db')" "n \<noteq> 0"
proof -
  from assms(1) have "\<exists>n. exec stmt (user_of req) (sha (password_of req)) db = (True, n, db') \<and> n \<noteq> 0"
    unfolding process_reg_req_def Let_def terminate_fields_strings [OF assms(2)]
    by (auto split: if_splits prod.splits)
  with that show thesis by blast
qed

lemma validate_auth_eq:
  assumes "req_ok req"
  shows "validate_auth fetch sha True True db req =
    (case fetch (user_of req) db of
       None \<Rightarrow> Some (False, terminate_fields req)
     | Some h \<Rightarrow> if length h < 32 then None else Some (take 32 h = sha (password_of req), terminate_fields req))"
  unfolding validate_auth_def Let_def terminate_fields_strings [OF assms] by simp

text \<open>C35. Registration and login fit together: after a registration that was answered with success, a login under
  the same name, whatever its letters' case, is decided by the password alone: it succeeds exactly if the hashes
  of the two passwords agree, and the check never reads behind the stored hash.\<close>

theorem register_then_login:
  assumes "users_table exec fetch" and "\<And>m. length (sha m) = 32" and "req_ok reg" and "req_ok login"
    and "process_reg_req exec sha True REG_QUERY db reg = (True, db', reg')" and "user_of login = user_of reg"
  shows "\<exists>login'. validate_auth fetch sha True True db' login = Some (sha (password_of reg) = sha (password_of login), login')"
proof -
  from process_reg_req_done [OF assms(5,3)] obtain n where
    "exec REG_QUERY (user_of reg) (sha (password_of reg)) db = (True, n, db')" "n \<noteq> 0" .
  with assms(1) have "fetch (user_of login) db' = Some (sha (password_of reg))"
    unfolding users_table_def assms(6) by metis
  then show ?thesis using assms(2) [of "password_of reg"] by (simp add: validate_auth_eq [OF assms(4)])
qed

text \<open>C36. An account is deleted only by whoever knows its password (up to hash collisions): after a deletion that
  was answered with success, a login with the request's name and password would have succeeded before, no
  login under that name succeeds any more, and the logins of all other users are decided as before.\<close>

theorem deletion_needs_password:
  assumes "users_table exec fetch" and "\<And>m. length (sha m) = 32" and "req_ok del"
    and "process_reg_req exec sha True DEL_QUERY db del = (True, db', del')"
  shows "(\<exists>del'. validate_auth fetch sha True True db del = Some (True, del')) \<and>
    (\<forall>login. req_ok login \<longrightarrow>
       (if user_of login = user_of del then validate_auth fetch sha True True db' login = Some (False, terminate_fields login)
        else validate_auth fetch sha True True db' login = validate_auth fetch sha True True db login))"
proof -
  from process_reg_req_done [OF assms(4,3)] obtain n where
    "exec DEL_QUERY (user_of del) (sha (password_of del)) db = (True, n, db')" "n \<noteq> 0" .
  with assms(1) have f: "fetch (user_of del) db = Some (sha (password_of del))"
    "\<And>v. fetch v db' = (if v = user_of del then None else fetch v db)"
    unfolding users_table_def by metis+
  show ?thesis
    using f assms(2) [of "password_of del"] assms(3) by (simp add: validate_auth_eq)
qed

subsection \<open>The request in the buffer\<close>

lemma auth_req_of_ok:
  assumes "auth_req_of b = Some req"
  shows "req_ok req" and "AUTH_REQ_SIZE \<le> length b"
  using assms by (auto simp: auth_req_of_def req_ok_def mem_read_def split: Option.bind_splits if_splits)

lemma auth_req_of_exists: "AUTH_REQ_SIZE \<le> length b \<Longrightarrow> \<exists>req. auth_req_of b = Some req"
  by (simp add: auth_req_of_def load32_def mem_read_def)

lemma auth_req_of_take: "auth_req_of (take AUTH_REQ_SIZE b) = auth_req_of b"
  by (simp add: auth_req_of_def load32_def mem_read_def min_def take_drop)

lemma store_auth_req_ok:
  assumes "req_ok req" and "AUTH_REQ_SIZE \<le> length b"
  shows "\<exists>b'. store_auth_req req b = Some b' \<and> length b' = length b"
proof -
  obtain b1 where b1: "mem_write b 4 (req_username req) = Some b1" "length b1 = length b"
    using mem_write_exists [of 4 "req_username req" b] assms by (auto simp: req_ok_def)
  obtain b2 where "mem_write b1 (4 + 32) (req_password req) = Some b2" "length b2 = length b1"
    using mem_write_exists [of "4 + 32" "req_password req" b1] assms b1(2) by (auto simp: req_ok_def)
  then show ?thesis using b1 by (simp add: store_auth_req_def)
qed

subsection \<open>A database\<close>

definition example_exec :: "sql \<Rightarrow> byte list \<Rightarrow> byte list \<Rightarrow> (byte list \<rightharpoonup> byte list) \<Rightarrow> bool \<times> nat \<times> (byte list \<rightharpoonup> byte list)" where
  "example_exec q u h db =
     (case q of
        REG_QUERY \<Rightarrow> if db u = None then (True, 1, db(u \<mapsto> h)) else (False, 0, db)
      | DEL_QUERY \<Rightarrow> if db u = Some h then (True, 1, db(u := None)) else (True, 0, db))"

definition example_sha :: "byte list \<Rightarrow> byte list" where
  "example_sha m = take 32 (m @ replicate 32 0)"

definition example_req :: "byte list \<Rightarrow> auth_req_group" where
  "example_req nm = \<lparr>request_type = REQ_REGISTRATION, req_username = nm @ replicate (32 - length nm) 0,
     req_password = 112 # replicate 19 0\<rparr>"

lemma example_users_table: "users_table example_exec (\<lambda>u db. db u)"
  by (auto simp: users_table_def example_exec_def split: if_splits)

lemma length_example_sha [simp]: "length (example_sha m) = 32"
  by (simp add: example_sha_def)

lemma example_req_ok: "req_ok (example_req [c])"
  by (simp add: req_ok_def example_req_def)

lemma example_user: "user_of (example_req [65]) = [97]" "user_of (example_req [97]) = [97]"
  "password_of (example_req [c]) = [112]"
  by (simp_all add: user_of_def password_of_def example_req_def tolower_def take_Cons' cstr_padded [of "[]", simplified])

lemma example_process:
  "process_reg_req example_exec example_sha True q db (example_req [65]) =
     (case example_exec q [97] (example_sha [112]) db of
        (d, n, db) \<Rightarrow> (d \<and> n \<noteq> 0, db, terminate_fields (example_req [65])))"
  unfolding process_reg_req_def Let_def terminate_fields_strings [OF example_req_ok] example_user
  by (simp split: prod.splits)

theorem register_then_login_witness:
  "\<exists>login'. validate_auth (\<lambda>u db. db u) example_sha True True [[97] \<mapsto> example_sha [112]] (example_req [97]) = Some (True, login')"
proof -
  have "process_reg_req example_exec example_sha True REG_QUERY Map.empty (example_req [65]) =
      (True, [[97] \<mapsto> example_sha [112]], terminate_fields (example_req [65]))"
    unfolding example_process by (simp add: example_exec_def)
  from register_then_login [OF example_users_table length_example_sha example_req_ok example_req_ok [of 97] this]
  show ?thesis by (simp add: example_user)
qed

theorem deletion_needs_password_witness:
  "validate_auth (\<lambda>u db. db u) example_sha True True Map.empty (example_req [97]) = Some (False, terminate_fields (example_req [97]))"
proof -
  have "process_reg_req example_exec example_sha True DEL_QUERY [[97] \<mapsto> example_sha [112]] (example_req [65]) =
      (True, Map.empty, terminate_fields (example_req [65]))"
    unfolding example_process by (simp add: example_exec_def)
  from deletion_needs_password [OF example_users_table length_example_sha example_req_ok this] example_req_ok
  show ?thesis by (simp add: example_user)
qed

end
