(* ===== verification/Ipblock.thy ===== *)
theory Ipblock
  imports Htable Timerheap
begin

text \<open>
  The address records of \<open>server/ipblock.c\<close>: peers that failed to register or to log in, and the
  white list. A record is a hash table node whose key is the four bytes of its \<open>in_addr_t\<close> in memory
  (little-endian host). The current time is an argument.
\<close>

abbreviation (input) REGBLOCK_FAIL_THRES :: byte where "REGBLOCK_FAIL_THRES \<equiv> 5"
abbreviation (input) REGBLOCK_SUCC_THRES :: byte where "REGBLOCK_SUCC_THRES \<equiv> 1"
abbreviation (input) AUTHBLOCK_FAIL_THRES :: byte where "AUTHBLOCK_FAIL_THRES \<equiv> 5"
abbreviation (input) REGBLOCK_EXPIRY :: int where "REGBLOCK_EXPIRY \<equiv> 7200"
abbreviation (input) AUTHBLOCK_EXPIRY :: int where "AUTHBLOCK_EXPIRY \<equiv> 3600"

datatype record_status = RS_NOT_BLOCKED | RS_BLOCKED | RS_EXPIRED
datatype record_reason = RSN_MANUAL | RSN_REGFAIL | RSN_REGSUCC

record ip_rec = node +
  ip_addr :: u32

record reg_ipb_rec = ip_rec +
  reg_timestamp :: timespec
  succ_regs :: byte
  failed_regs :: byte
  reg_is_manual :: bool

record std_ipb_rec = ip_rec +
  std_timestamp :: timespec
  failed_auths :: byte
  std_is_manual :: bool

type_synonym whitelist_rec = ip_rec

definition ip_key :: "u32 \<Rightarrow> hkey" where
  "ip_key ip = map (\<lambda>i. ucast (drop_bit (8 * i) ip)) [0, 1, 2, 3]"

definition ip_of_key :: "hkey \<Rightarrow> u32" where
  "ip_of_key k = ucast (k ! 0) OR push_bit 8 (ucast (k ! 1)) OR push_bit 16 (ucast (k ! 2)) OR push_bit 24 (ucast (k ! 3))"

definition chk_reg_block :: "timespec \<Rightarrow> reg_ipb_rec \<Rightarrow> record_status" where
  "chk_reg_block now r =
     (if reg_is_manual r then RS_BLOCKED
      else if tv_sec now - tv_sec (reg_timestamp r) \<ge> REGBLOCK_EXPIRY then RS_EXPIRED
      else if failed_regs r \<ge> REGBLOCK_FAIL_THRES \<or> succ_regs r \<ge> REGBLOCK_SUCC_THRES then RS_BLOCKED
      else RS_NOT_BLOCKED)"

fun ip_cmp_loop :: "u32 \<Rightarrow> u32 \<Rightarrow> nat list \<Rightarrow> int" where
  "ip_cmp_loop ip_a ip_b [] = 0"
| "ip_cmp_loop ip_a ip_b (i # is) =
     (let cmpres = uint (ucast (drop_bit (8 * i) ip_a) :: byte) - uint (ucast (drop_bit (8 * i) ip_b) :: byte)
      in if cmpres \<noteq> 0 then cmpres else ip_cmp_loop ip_a ip_b is)"

definition ip_cmp :: "hkey \<Rightarrow> hkey \<Rightarrow> int" where
  "ip_cmp a b = ip_cmp_loop (ip_of_key a) (ip_of_key b) [0..<length a]"

definition reg_ipb_rec_create :: "timespec \<Rightarrow> u32 \<Rightarrow> record_reason \<Rightarrow> reg_ipb_rec" where
  "reg_ipb_rec_create now peer reason =
     \<lparr>key = ip_key peer, ref_cnt = 1, freed = False, ip_addr = peer,
      reg_timestamp = Timespec (tv_sec now + REGBLOCK_EXPIRY) (tv_nsec now),
      succ_regs = (if reason = RSN_REGSUCC then 1 else 0),
      failed_regs = (if reason = RSN_REGFAIL then 1 else 0),
      reg_is_manual = (reason = RSN_MANUAL)\<rparr>"

definition chk_std_block :: "timespec \<Rightarrow> std_ipb_rec \<Rightarrow> record_status" where
  "chk_std_block now r =
     (if std_is_manual r then RS_BLOCKED
      else if tv_sec now - tv_sec (std_timestamp r) \<ge> AUTHBLOCK_EXPIRY then RS_EXPIRED
      else if failed_auths r \<ge> AUTHBLOCK_FAIL_THRES then RS_BLOCKED
      else RS_NOT_BLOCKED)"

definition std_ipb_rec_create :: "timespec \<Rightarrow> u32 \<Rightarrow> bool \<Rightarrow> std_ipb_rec" where
  "std_ipb_rec_create now peer is_manual =
     \<lparr>key = ip_key peer, ref_cnt = 1, freed = False, ip_addr = peer,
      std_timestamp = Timespec (tv_sec now + AUTHBLOCK_EXPIRY) (tv_nsec now),
      failed_auths = (if is_manual then 0 else 1), std_is_manual = is_manual\<rparr>"

definition whitelist_rec_create :: "u32 \<Rightarrow> whitelist_rec" where
  "whitelist_rec_create peer = \<lparr>key = ip_key peer, ref_cnt = 1, freed = False, ip_addr = peer\<rparr>"

text \<open>\<open>inet_ntop\<close>: the four bytes in decimal, separated by dots.\<close>

definition decimal :: "byte \<Rightarrow> byte list" where
  "decimal b =
     (let n = unat b in
      (if n \<ge> 100 then [of_nat (48 + n div 100)] else []) @
      (if n \<ge> 10 then [of_nat (48 + n div 10 mod 10)] else []) @
      [of_nat (48 + n mod 10)])"

definition inet_ntop :: "u32 \<Rightarrow> byte list" where
  "inet_ntop ip =
     (case ip_key ip of [a, b, c, d] \<Rightarrow> decimal a @ 46 # decimal b @ 46 # decimal c @ 46 # decimal d | _ \<Rightarrow> [])"

definition node_copy_peername :: "'a ip_rec_scheme \<Rightarrow> nat \<Rightarrow> copy_result" where
  "node_copy_peername rec buf_size =
     (if length (inet_ntop (ip_addr rec)) + 1 > buf_size mod 2 ^ 32 then BUF_TOOSMALL
      else Copied (inet_ntop (ip_addr rec) @ [0]))"

subsection \<open>Keys\<close>

lemma length_ip_key [simp]: "length (ip_key ip) = 4"
  by (simp add: ip_key_def)

lemma byte_of_ip:
  assumes "length k = 4" and "i < 4"
  shows "ucast (drop_bit (8 * i) (ip_of_key k)) = k ! i"
proof -
  from assms(1) obtain a b c d where k: "k = [a, b, c, d]" by (auto simp: length_Suc_conv numeral_eq_Suc)
  have nb: "\<not> bit x n" if "8 \<le> n" for x :: byte and n using that by (auto dest: bit_imp_le_length)
  from assms(2) consider "i = 0" | "i = 1" | "i = 2" | "i = 3" by linarith
  then show ?thesis
    by cases (auto intro!: bit_word_eqI simp: k ip_of_key_def bit_simps nb)
qed

lemma ip_of_key_ip_key: "ip_of_key (ip_key ip) = ip"
proof (rule bit_word_eqI)
  fix n assume "n < LENGTH(32)"
  then consider "n < 8" | "8 \<le> n" "n < 16" | "16 \<le> n" "n < 24" | "24 \<le> n" "n < 32" by fastforce
  then show "bit (ip_of_key (ip_key ip)) n = bit ip n"
    by cases (auto simp: ip_of_key_def ip_key_def bit_simps less_diff_conv2)
qed

lemma ip_key_inject: "ip_key a = ip_key b \<longleftrightarrow> a = b"
  by (metis ip_of_key_ip_key)

text \<open>Byte-wise lexicographic comparison.\<close>

fun lex_cmp :: "hkey \<Rightarrow> hkey \<Rightarrow> int" where
  "lex_cmp (x # xs) (y # ys) = (if x \<noteq> y then uint x - uint y else lex_cmp xs ys)"
| "lex_cmp _ _ = 0"

lemma ip_cmp_loop_lex:
  assumes "length a = 4" and "length b = 4" and "\<forall>i \<in> set is. i < 4"
  shows "ip_cmp_loop (ip_of_key a) (ip_of_key b) is = lex_cmp (map ((!) a) is) (map ((!) b) is)"
  using assms(3) by (induction "is") (auto simp: byte_of_ip assms(1,2) Let_def dest: word_uint_eqI)

lemma ip_cmp_lex:
  assumes "length a = 4" and "length b = 4"
  shows "ip_cmp a b = lex_cmp a b"
proof -
  have "map ((!) a) [0..<4] = a" "map ((!) b) [0..<4] = b" using map_nth [of a] map_nth [of b] assms by simp_all
  then show ?thesis using ip_cmp_loop_lex [OF assms, of "[0..<4]"] assms by (simp add: ip_cmp_def)
qed

lemma lex_cmp_eq: "length a = length b \<Longrightarrow> lex_cmp a b = 0 \<longleftrightarrow> a = b"
  by (induction a b rule: list_induct2) (auto dest: word_uint_eqI)

lemma lex_cmp_antisym: "length a = length b \<Longrightarrow> lex_cmp a b < 0 \<longleftrightarrow> 0 < lex_cmp b a"
  by (induction a b rule: list_induct2) auto

lemma lex_cmp_trans:
  "length a = length b \<Longrightarrow> length b = length c \<Longrightarrow> lex_cmp a b < 0 \<Longrightarrow> lex_cmp b c < 0 \<Longrightarrow> lex_cmp a c < 0"
  by (induction a b c rule: list_induct3) (auto split: if_splits)

interpretation ip_order: key_order ip_cmp "\<lambda>k. length k = 4"
proof
  fix a b c :: hkey
  assume a: "length a = 4" and b: "length b = 4"
  show "ip_cmp a b = 0 \<longleftrightarrow> a = b" using a b by (simp add: ip_cmp_lex lex_cmp_eq)
  show "ip_cmp a b < 0 \<longleftrightarrow> 0 < ip_cmp b a" using a b by (simp add: ip_cmp_lex lex_cmp_antisym)
  assume "length c = 4" and "ip_cmp a b < 0" and "ip_cmp b c < 0"
  then show "ip_cmp a c < 0" using lex_cmp_trans [of a b c] a b by (simp add: ip_cmp_lex)
qed auto

subsection \<open>When a peer is blocked\<close>

definition std_fail :: "std_ipb_rec \<Rightarrow> std_ipb_rec" where
  "std_fail r = r\<lparr>failed_auths := failed_auths r + 1\<rparr>"

lemma std_fails:
  "(std_fail ^^ n) (std_ipb_rec_create t ip False) = (std_ipb_rec_create t ip False)\<lparr>failed_auths := 1 + of_nat n\<rparr>"
  by (induction n) (simp_all add: std_fail_def std_ipb_rec_create_def algebra_simps)

text \<open>A peer whose logins fail is refused from the fifth failure on, and not before; what the code calls
  an expiry of one hour lets the record expire two hours after the first failure, because the hour is
  added to the time stamp and awaited again by the check. The counter is one byte: the statement is for
  at most 255 failures.\<close>

lemma std_block_timing:
  assumes "n < 255"
  shows "chk_std_block now ((std_fail ^^ n) (std_ipb_rec_create t ip False)) =
    (if tv_sec now \<ge> tv_sec t + 2 * AUTHBLOCK_EXPIRY then RS_EXPIRED
     else if n + 1 \<ge> 5 then RS_BLOCKED else RS_NOT_BLOCKED)"
proof -
  have "(5::byte) \<le> 1 + of_nat n \<longleftrightarrow> 5 \<le> n + 1"
    using assms by (simp add: word_le_nat_alt unat_word_ariths unat_of_nat)
  then show ?thesis
    unfolding std_fails by (auto simp: chk_std_block_def std_ipb_rec_create_def)
qed

lemma std_block_timing_witness:
  "chk_std_block (Timespec 5000 0) ((std_fail ^^ 4) (std_ipb_rec_create (Timespec 0 0) 1 False)) = RS_BLOCKED"
  using std_block_timing [of 4 "Timespec 5000 0" "Timespec 0 0" 1] by simp

text \<open>The same for registrations: one success or five failures block the address, until four hours after
  the record was made.\<close>

lemma reg_block_timing:
  "chk_reg_block now (reg_ipb_rec_create t ip reason) =
    (if reason = RSN_MANUAL then RS_BLOCKED
     else if tv_sec now \<ge> tv_sec t + 2 * REGBLOCK_EXPIRY then RS_EXPIRED
     else if reason = RSN_REGSUCC then RS_BLOCKED else RS_NOT_BLOCKED)"
  by (auto simp: chk_reg_block_def reg_ipb_rec_create_def word_le_nat_alt)

text \<open>\<open>node_copy_peername\<close> is a copy function in the sense of \<open>htable_copy_all_keys\<close>, as long as the
  buffer is smaller than 4 GiB.\<close>

lemma length_decimal: "1 \<le> length (decimal b) \<and> length (decimal b) \<le> 3"
  by (simp add: decimal_def Let_def)

lemma length_inet_ntop: "length (inet_ntop ip) \<le> 15"
  using length_decimal [of "ip_key ip ! 0"] length_decimal [of "ip_key ip ! 1"]
    length_decimal [of "ip_key ip ! 2"] length_decimal [of "ip_key ip ! 3"]
  by (simp add: inet_ntop_def ip_key_def)

lemma node_copy_peername_spec:
  "sz < 2 ^ 32 \<Longrightarrow> node_copy_peername r sz =
    (if length (inet_ntop (ip_addr r) @ [0]) \<le> sz then Copied (inet_ntop (ip_addr r) @ [0]) else BUF_TOOSMALL)"
  by (auto simp: node_copy_peername_def)

end
