(* ===== verification/Servcfg.thy ===== *)
theory Servcfg
  imports Netwrap
begin

text \<open>
  The server's configuration, \<open>server/servcfg.c\<close> and \<open>servcfg.h\<close>: the fields of the X-macro tables with
  their bounds and defaults, loading from and saving to a JSON object (json-c's object is a map from
  names to values; an integer is the 64 bits of an \<open>int64_t\<close>), the choice of the network functions,
  and the test of an interface address. A character array is kept with its padding.
\<close>

datatype json_value = JInt u64 | JBool bool | JString "byte list" | JOther

type_synonym json_object = "string \<Rightarrow> json_value option"

datatype net_kind = Plain_tcp | Tls

record serv_cfg =
  networking_functions :: net_kind
  max_filesize_b :: u64
  reg_port :: u16
  gen_port :: u16
  ctrl_port :: u16
  nr_worker_threads :: byte
  cl_htable_size_pow2 :: byte
  cl_htable_expansion_pow2 :: byte
  cl_htable_loadfactor_exp_thres :: byte
  cl_htable_locks_pow2 :: byte
  autoconf_nr_threads :: byte
  use_tls :: byte
  use_auth :: byte
  allow_registrations :: byte
  allow_file_transfers_flag :: byte
  use_ip_whitelist :: byte
  cert_chain_path :: "byte list"
  private_key_path :: "byte list"
  db_file_path :: "byte list"
  ip_whitelist_path :: "byte list"
  ip_blacklist_path :: "byte list"
  zlog_config_path :: "byte list"
  gen_interface :: "byte list"

definition default_str :: "string \<Rightarrow> nat \<Rightarrow> byte list" where
  "default_str s n = strncpy_bytes (lit s) n"

definition get_default_cfg :: serv_cfg where
  "get_default_cfg = \<lparr>networking_functions = Plain_tcp,
    max_filesize_b = 4194304,
    reg_port = 6671,
    gen_port = 7228,
    ctrl_port = 6777,
    nr_worker_threads = 4,
    cl_htable_size_pow2 = 12,
    cl_htable_expansion_pow2 = 2,
    cl_htable_loadfactor_exp_thres = 70,
    cl_htable_locks_pow2 = 12,
    autoconf_nr_threads = 0,
    use_tls = 1,
    use_auth = 1,
    allow_registrations = 1,
    allow_file_transfers_flag = 1,
    use_ip_whitelist = 0,
    cert_chain_path = default_str ''fullchain.cer'' 32,
    private_key_path = default_str ''lwmsg.duckdns.org.key'' 32,
    db_file_path = default_str ''database.db'' 32,
    ip_whitelist_path = default_str ''ip_whitelist.json'' 32,
    ip_blacklist_path = default_str ''ip_blacklist.json'' 32,
    zlog_config_path = default_str ''zlog.conf'' 32,
    gen_interface = default_str ''0.0.0.0'' 16\<rparr>"

subsection \<open>Loading\<close>

text \<open>\<open>IS_INTEGRAL\<close> and \<open>json_object_get_int64\<close>.\<close>

fun get_integral :: "json_value \<Rightarrow> u64 option" where
  "get_integral (JInt v) = Some v"
| "get_integral (JBool b) = Some (if b then 1 else 0)"
| "get_integral _ = None"

definition ld_int :: "json_object \<Rightarrow> string \<Rightarrow> u64 \<Rightarrow> u64 \<Rightarrow> u64 \<Rightarrow> u64" where
  "ld_int cfg_json mname mmin mmax mdef =
     (case Option.bind (cfg_json mname) get_integral of
        None \<Rightarrow> mdef
      | Some value \<Rightarrow> if value < mmin \<or> value > mmax then mdef else value)"

definition ld_str :: "json_object \<Rightarrow> string \<Rightarrow> nat \<Rightarrow> string \<Rightarrow> byte list" where
  "ld_str cfg_json mname mmax mdef =
     (case cfg_json mname of
        Some (JString s) \<Rightarrow> if length s > mmax - 1 then strncpy_bytes (lit mdef) mmax else strncpy_bytes s mmax
      | _ \<Rightarrow> strncpy_bytes (lit mdef) mmax)"

text \<open>\<open>cfg_json\<close> is \<open>None\<close> when there is no file name or the file cannot be read. The previous value
  of the network functions is left as it is (\<open>load_netfns\<close> sets them).\<close>

definition load_fields :: "json_object \<Rightarrow> serv_cfg" where
  "load_fields j = \<lparr>networking_functions = Plain_tcp,
     max_filesize_b = ld_int j ''max_filesize_b'' 200 (- 1) 4194304,
     reg_port = ucast (ld_int j ''reg_port'' 6500 7000 6671),
     gen_port = ucast (ld_int j ''gen_port'' 7001 65535 7228),
     ctrl_port = ucast (ld_int j ''ctrl_port'' 1024 65535 6777),
     nr_worker_threads = ucast (ld_int j ''nr_worker_threads'' 1 128 4),
     cl_htable_size_pow2 = ucast (ld_int j ''cl_htable_size_pow2'' 1 21 12),
     cl_htable_expansion_pow2 = ucast (ld_int j ''cl_htable_expansion_pow2'' 1 12 2),
     cl_htable_loadfactor_exp_thres = ucast (ld_int j ''cl_htable_loadfactor_exp_thres'' 1 255 70),
     cl_htable_locks_pow2 = ucast (ld_int j ''cl_htable_locks_pow2'' 1 21 12),
     autoconf_nr_threads = ucast (ld_int j ''autoconf_nr_threads'' 0 1 0),
     use_tls = ucast (ld_int j ''use_tls'' 0 1 1),
     use_auth = ucast (ld_int j ''use_auth'' 0 1 1),
     allow_registrations = ucast (ld_int j ''allow_registrations'' 0 1 1),
     allow_file_transfers_flag = ucast (ld_int j ''allow_file_transfers'' 0 1 1),
     use_ip_whitelist = ucast (ld_int j ''use_ip_whitelist'' 0 1 0),
     cert_chain_path = ld_str j ''cert_chain_path'' 32 ''fullchain.cer'',
     private_key_path = ld_str j ''private_key_path'' 32 ''lwmsg.duckdns.org.key'',
     db_file_path = ld_str j ''db_file_path'' 32 ''database.db'',
     ip_whitelist_path = ld_str j ''ip_whitelist_path'' 32 ''ip_whitelist.json'',
     ip_blacklist_path = ld_str j ''ip_blacklist_path'' 32 ''ip_blacklist.json'',
     zlog_config_path = ld_str j ''zlog_config_path'' 32 ''zlog.conf'',
     gen_interface = ld_str j ''gen_interface'' 16 ''0.0.0.0''\<rparr>"

definition load_cfg :: "json_object option \<Rightarrow> serv_cfg" where
  "load_cfg cfg_json =
     (case cfg_json of
        None \<Rightarrow> get_default_cfg
      | Some j \<Rightarrow>
          let temp_cfg = load_fields j
          in if cl_htable_locks_pow2 temp_cfg > cl_htable_size_pow2 temp_cfg
             then temp_cfg\<lparr>cl_htable_locks_pow2 := cl_htable_size_pow2 temp_cfg\<rparr>
             else temp_cfg)"

subsection \<open>Saving\<close>

definition save_cfg :: "serv_cfg \<Rightarrow> json_object" where
  "save_cfg cfg = map_of [
     (''max_filesize_b'', JInt (max_filesize_b cfg)),
     (''reg_port'', JInt (ucast (reg_port cfg))),
     (''gen_port'', JInt (ucast (gen_port cfg))),
     (''ctrl_port'', JInt (ucast (ctrl_port cfg))),
     (''nr_worker_threads'', JInt (ucast (nr_worker_threads cfg))),
     (''cl_htable_size_pow2'', JInt (ucast (cl_htable_size_pow2 cfg))),
     (''cl_htable_expansion_pow2'', JInt (ucast (cl_htable_expansion_pow2 cfg))),
     (''cl_htable_loadfactor_exp_thres'', JInt (ucast (cl_htable_loadfactor_exp_thres cfg))),
     (''cl_htable_locks_pow2'', JInt (ucast (cl_htable_locks_pow2 cfg))),
     (''autoconf_nr_threads'', JInt (ucast (autoconf_nr_threads cfg))),
     (''use_tls'', JInt (ucast (use_tls cfg))),
     (''use_auth'', JInt (ucast (use_auth cfg))),
     (''allow_registrations'', JInt (ucast (allow_registrations cfg))),
     (''allow_file_transfers'', JInt (ucast (allow_file_transfers_flag cfg))),
     (''use_ip_whitelist'', JInt (ucast (use_ip_whitelist cfg))),
     (''cert_chain_path'', JString (cstr (cert_chain_path cfg))),
     (''private_key_path'', JString (cstr (private_key_path cfg))),
     (''db_file_path'', JString (cstr (db_file_path cfg))),
     (''ip_whitelist_path'', JString (cstr (ip_whitelist_path cfg))),
     (''ip_blacklist_path'', JString (cstr (ip_blacklist_path cfg))),
     (''zlog_config_path'', JString (cstr (zlog_config_path cfg))),
     (''gen_interface'', JString (cstr (gen_interface cfg)))]"

definition load_netfns :: "serv_cfg \<Rightarrow> serv_cfg" where
  "load_netfns cfg = cfg\<lparr>networking_functions := if use_tls cfg \<noteq> 0 then Tls else Plain_tcp\<rparr>"

text \<open>\<open>setup_tls\<close>: the answers of the five OpenSSL calls, in order; \<open>None\<close> is the NULL context.\<close>

definition setup_tls :: "serv_cfg \<Rightarrow> int \<Rightarrow> int \<Rightarrow> int \<Rightarrow> int \<Rightarrow> addr \<Rightarrow> addr option" where
  "setup_tls cfg alpn chain keyfile check ctx =
     (if use_tls cfg = 0 then None
      else if alpn \<noteq> 0 then None
      else if chain \<noteq> 1 then None
      else if keyfile \<noteq> 1 then None
      else if check \<noteq> 1 then None
      else Some ctx)"

text \<open>\<open>getifaddrs\<close>: \<open>None\<close> on failure, otherwise the IPv4 addresses of the interfaces (other entries are
  \<open>None\<close> in the list).\<close>

fun find_interface :: "u32 option list \<Rightarrow> u32 \<Rightarrow> bool" where
  "find_interface [] if_addr = False"
| "find_interface (a # as) if_addr = (if a = Some if_addr then True else find_interface as if_addr)"

definition is_if_valid :: "u32 option list option \<Rightarrow> u32 \<Rightarrow> bool" where
  "is_if_valid ifs if_addr =
     (if if_addr = 0 then True else case ifs of None \<Rightarrow> False | Some as \<Rightarrow> find_interface as if_addr)"

subsection \<open>Properties\<close>

text \<open>The bounds of the tables: every integer field between its minimum and maximum, every string
  terminated and padded, and no more lock bits than bucket bits.\<close>

definition good_str :: "nat \<Rightarrow> byte list \<Rightarrow> bool" where
  "good_str n a \<longleftrightarrow> length (cstr a) < n \<and> a = strncpy_bytes (cstr a) n"

definition cfg_in_range :: "serv_cfg \<Rightarrow> bool" where
  "cfg_in_range cfg \<longleftrightarrow>
     200 \<le> max_filesize_b cfg \<and>
     6500 \<le> reg_port cfg \<and> reg_port cfg \<le> 7000 \<and>
     7001 \<le> gen_port cfg \<and> gen_port cfg \<le> 65535 \<and>
     1024 \<le> ctrl_port cfg \<and> ctrl_port cfg \<le> 65535 \<and>
     1 \<le> nr_worker_threads cfg \<and> nr_worker_threads cfg \<le> 128 \<and>
     1 \<le> cl_htable_size_pow2 cfg \<and> cl_htable_size_pow2 cfg \<le> 21 \<and>
     1 \<le> cl_htable_expansion_pow2 cfg \<and> cl_htable_expansion_pow2 cfg \<le> 12 \<and>
     1 \<le> cl_htable_loadfactor_exp_thres cfg \<and> cl_htable_loadfactor_exp_thres cfg \<le> 255 \<and>
     1 \<le> cl_htable_locks_pow2 cfg \<and> cl_htable_locks_pow2 cfg \<le> 21 \<and>
     autoconf_nr_threads cfg \<le> 1 \<and>
     use_tls cfg \<le> 1 \<and>
     use_auth cfg \<le> 1 \<and>
     allow_registrations cfg \<le> 1 \<and>
     allow_file_transfers_flag cfg \<le> 1 \<and>
     use_ip_whitelist cfg \<le> 1 \<and>
     cl_htable_locks_pow2 cfg \<le> cl_htable_size_pow2 cfg \<and>
     good_str 32 (cert_chain_path cfg) \<and>
     good_str 32 (private_key_path cfg) \<and>
     good_str 32 (db_file_path cfg) \<and>
     good_str 32 (ip_whitelist_path cfg) \<and>
     good_str 32 (ip_blacklist_path cfg) \<and>
     good_str 32 (zlog_config_path cfg) \<and>
     good_str 16 (gen_interface cfg)"

lemma ld_int_range: "mmin \<le> mdef \<Longrightarrow> mdef \<le> mmax \<Longrightarrow> mmin \<le> ld_int j nm mmin mmax mdef \<and> ld_int j nm mmin mmax mdef \<le> mmax"
  by (auto simp: ld_int_def not_less split: option.split)

lemma good_str_strncpy: "length s < n \<Longrightarrow> good_str n (strncpy_bytes s n)"
proof -
  assume "length s < n"
  then have "length (cstr s) < n" using le_less_trans [OF length_takeWhile_le] by blast
  then have "cstr (strncpy_bytes s n) = cstr s" by (simp add: cstr_strncpy_bytes)
  moreover have "cstr (cstr s) = cstr s" by (rule cstr_no_NUL) (rule no_NUL_cstr)
  then have "strncpy_bytes (cstr s) n = strncpy_bytes s n" by (simp add: strncpy_bytes_def)
  ultimately show ?thesis using \<open>length (cstr s) < n\<close> by (simp add: good_str_def)
qed

lemma good_ld_str: "length d < n \<Longrightarrow> good_str n (ld_str j nm n d)"
  by (auto simp: ld_str_def lit_def intro!: good_str_strncpy split: option.split json_value.split)

lemma good_default_str: "length d < n \<Longrightarrow> good_str n (default_str d n)"
  by (simp add: default_str_def lit_def good_str_strncpy)

text \<open>A value that fits the narrower type keeps its bounds when it is stored there.\<close>

lemma ucast_bounds:
  fixes v :: u64
  assumes "lo \<le> v" and "v \<le> hi" and "unat hi < 2 ^ LENGTH('a::len)" and "unat lo < 2 ^ LENGTH('a)"
  shows "ucast lo \<le> (ucast v :: 'a word) \<and> (ucast v :: 'a word) \<le> ucast hi"
proof -
  have "unat v < 2 ^ LENGTH('a)" using assms(2,3) by (simp add: word_le_nat_alt)
  then show ?thesis using assms by (simp add: word_le_nat_alt unsigned_ucast_eq take_bit_nat_eq_self)
qed

lemma default_in_range: "cfg_in_range get_default_cfg"
  by (simp add: cfg_in_range_def get_default_cfg_def good_default_str)

lemma ld_int_ucast_range:
  fixes lo hi mdef :: u64
  assumes "lo \<le> mdef" "mdef \<le> hi" and "unat hi < 2 ^ LENGTH('a::len)"
  shows "ucast lo \<le> (ucast (ld_int j nm lo hi mdef) :: 'a word) \<and> (ucast (ld_int j nm lo hi mdef) :: 'a word) \<le> ucast hi"
proof (rule ucast_bounds)
  have "lo \<le> hi" using assms(1,2) by simp
  then show "unat lo < 2 ^ LENGTH('a)" using assms(3) by (simp add: word_le_nat_alt)
qed (use ld_int_range [OF assms(1,2)] assms(3) in simp_all)

text \<open>Whatever the configuration file holds, or if there is none, the loaded configuration is within its
  bounds: every integer lies between the minimum and the maximum of its table entry, every string is
  terminated in its array, and there are never more lock bits than bucket bits (which
  \<open>htable_create\<close> asserts).\<close>

lemma load_cfg_in_range: "cfg_in_range (load_cfg cfg_file)"
proof (cases cfg_file)
  case None
  then show ?thesis by (simp add: load_cfg_def default_in_range)
next
  case (Some j)
  note ranges =
    ld_int_range [of 200 4194304 "- 1" j "''max_filesize_b''"]
    ld_int_ucast_range [where 'a = 16, of 6500 6671 7000 j "''reg_port''"]
    ld_int_ucast_range [where 'a = 16, of 7001 7228 65535 j "''gen_port''"]
    ld_int_ucast_range [where 'a = 16, of 1024 6777 65535 j "''ctrl_port''"]
    ld_int_ucast_range [where 'a = 8, of 1 4 128 j "''nr_worker_threads''"]
    ld_int_ucast_range [where 'a = 8, of 1 12 21 j "''cl_htable_size_pow2''"]
    ld_int_ucast_range [where 'a = 8, of 1 2 12 j "''cl_htable_expansion_pow2''"]
    ld_int_ucast_range [where 'a = 8, of 1 70 255 j "''cl_htable_loadfactor_exp_thres''"]
    ld_int_ucast_range [where 'a = 8, of 1 12 21 j "''cl_htable_locks_pow2''"]
    ld_int_ucast_range [where 'a = 8, of 0 0 1 j "''autoconf_nr_threads''"]
    ld_int_ucast_range [where 'a = 8, of 0 1 1 j "''use_tls''"]
    ld_int_ucast_range [where 'a = 8, of 0 1 1 j "''use_auth''"]
    ld_int_ucast_range [where 'a = 8, of 0 1 1 j "''allow_registrations''"]
    ld_int_ucast_range [where 'a = 8, of 0 1 1 j "''allow_file_transfers''"]
    ld_int_ucast_range [where 'a = 8, of 0 0 1 j "''use_ip_whitelist''"]
  define c where "c = load_fields j"
  have "cl_htable_locks_pow2 c \<le> cl_htable_size_pow2 c \<longrightarrow> cfg_in_range c"
    using ranges by (simp add: c_def load_fields_def cfg_in_range_def good_ld_str)
  moreover have "cfg_in_range (c\<lparr>cl_htable_locks_pow2 := cl_htable_size_pow2 c\<rparr>)"
    using ranges by (simp add: c_def load_fields_def cfg_in_range_def good_ld_str)
  ultimately show ?thesis
    using Some by (simp add: load_cfg_def Let_def not_less flip: c_def)
qed

lemma ld_int_saved:
  fixes x :: "'a::len word" and lo hi :: u64
  assumes "j nm = Some (JInt (ucast x))" and "LENGTH('a) \<le> 64" and "unat hi < 2 ^ LENGTH('a)" and "lo \<le> hi"
    and "ucast lo \<le> x" and "x \<le> ucast hi"
  shows "ucast (ld_int j nm lo hi mdef) = x"
proof -
  have "unat lo \<le> unat hi" using assms(4) by (simp add: word_le_nat_alt)
  then have lo: "unat (ucast lo :: 'a word) = unat lo" and hi: "unat (ucast hi :: 'a word) = unat hi"
    using assms(3) by (simp_all add: unsigned_ucast_eq take_bit_nat_eq_self)
  have "(2::nat) ^ LENGTH('a) \<le> 2 ^ 64" using assms(2) by (intro power_increasing) simp_all
  then have "unat x < 2 ^ 64" using unsigned_less [of x] by (rule less_le_trans [rotated])
  then have x: "unat (ucast x :: u64) = unat x" by (simp add: unsigned_ucast_eq take_bit_nat_eq_self)
  have "lo \<le> ucast x \<and> ucast x \<le> hi" using assms(5,6) lo hi x by (simp add: word_le_nat_alt)
  then have "ld_int j nm lo hi mdef = ucast x" using assms(1) by (auto simp: ld_int_def dest: leD)
  moreover have "(ucast (ucast x :: u64) :: 'a word) = x"
  proof -
    have "unat (ucast (ucast x :: u64) :: 'a word) = take_bit LENGTH('a) (unat (ucast x :: u64))"
      by (rule unsigned_ucast_eq)
    also have "\<dots> = unat x" unfolding x by (simp add: take_bit_nat_eq_self)
    finally show ?thesis by (simp add: word_unat_eq_iff)
  qed
  ultimately show ?thesis by simp
qed

lemma ld_str_saved:
  assumes "j nm = Some (JString (cstr a))" and "good_str n a"
  shows "ld_str j nm n d = a"
proof -
  have "length (cstr a) \<le> n - 1" using assms(2) unfolding good_str_def by linarith
  then show ?thesis using assms by (simp add: ld_str_def good_str_def)
qed

text \<open>C40. Saving and loading: a configuration within its bounds is read back unchanged from the JSON object
  it was saved to (the network functions, which are not stored, are set again by \<open>load_netfns\<close>).\<close>

theorem load_save_cfg:
  assumes "cfg_in_range cfg"
  shows "load_cfg (Some (save_cfg cfg)) = cfg\<lparr>networking_functions := Plain_tcp\<rparr>"
proof -
  note r = assms [unfolded cfg_in_range_def]
  have f_max_filesize_b: "ld_int (save_cfg cfg) ''max_filesize_b'' 200 (- 1) 4194304 = max_filesize_b cfg"
  proof -
    have "200 \<le> max_filesize_b cfg" using r by simp
    then show ?thesis by (auto simp: ld_int_def save_cfg_def dest: leD)
  qed
  have f_reg_port: "ucast (ld_int (save_cfg cfg) ''reg_port'' 6500 7000 6671) = reg_port cfg"
    by (rule ld_int_saved) (use r in \<open>simp_all add: save_cfg_def\<close>)
  have f_gen_port: "ucast (ld_int (save_cfg cfg) ''gen_port'' 7001 65535 7228) = gen_port cfg"
    by (rule ld_int_saved) (use r in \<open>simp_all add: save_cfg_def\<close>)
  have f_ctrl_port: "ucast (ld_int (save_cfg cfg) ''ctrl_port'' 1024 65535 6777) = ctrl_port cfg"
    by (rule ld_int_saved) (use r in \<open>simp_all add: save_cfg_def\<close>)
  have f_nr_worker_threads: "ucast (ld_int (save_cfg cfg) ''nr_worker_threads'' 1 128 4) = nr_worker_threads cfg"
    by (rule ld_int_saved) (use r in \<open>simp_all add: save_cfg_def\<close>)
  have f_cl_htable_size_pow2: "ucast (ld_int (save_cfg cfg) ''cl_htable_size_pow2'' 1 21 12) = cl_htable_size_pow2 cfg"
    by (rule ld_int_saved) (use r in \<open>simp_all add: save_cfg_def\<close>)
  have f_cl_htable_expansion_pow2: "ucast (ld_int (save_cfg cfg) ''cl_htable_expansion_pow2'' 1 12 2) = cl_htable_expansion_pow2 cfg"
    by (rule ld_int_saved) (use r in \<open>simp_all add: save_cfg_def\<close>)
  have f_cl_htable_loadfactor_exp_thres: "ucast (ld_int (save_cfg cfg) ''cl_htable_loadfactor_exp_thres'' 1 255 70) = cl_htable_loadfactor_exp_thres cfg"
    by (rule ld_int_saved) (use r in \<open>simp_all add: save_cfg_def\<close>)
  have f_cl_htable_locks_pow2: "ucast (ld_int (save_cfg cfg) ''cl_htable_locks_pow2'' 1 21 12) = cl_htable_locks_pow2 cfg"
    by (rule ld_int_saved) (use r in \<open>simp_all add: save_cfg_def\<close>)
  have f_autoconf_nr_threads: "ucast (ld_int (save_cfg cfg) ''autoconf_nr_threads'' 0 1 0) = autoconf_nr_threads cfg"
    by (rule ld_int_saved) (use r in \<open>simp_all add: save_cfg_def\<close>)
  have f_use_tls: "ucast (ld_int (save_cfg cfg) ''use_tls'' 0 1 1) = use_tls cfg"
    by (rule ld_int_saved) (use r in \<open>simp_all add: save_cfg_def\<close>)
  have f_use_auth: "ucast (ld_int (save_cfg cfg) ''use_auth'' 0 1 1) = use_auth cfg"
    by (rule ld_int_saved) (use r in \<open>simp_all add: save_cfg_def\<close>)
  have f_allow_registrations: "ucast (ld_int (save_cfg cfg) ''allow_registrations'' 0 1 1) = allow_registrations cfg"
    by (rule ld_int_saved) (use r in \<open>simp_all add: save_cfg_def\<close>)
  have f_allow_file_transfers_flag: "ucast (ld_int (save_cfg cfg) ''allow_file_transfers'' 0 1 1) = allow_file_transfers_flag cfg"
    by (rule ld_int_saved) (use r in \<open>simp_all add: save_cfg_def\<close>)
  have f_use_ip_whitelist: "ucast (ld_int (save_cfg cfg) ''use_ip_whitelist'' 0 1 0) = use_ip_whitelist cfg"
    by (rule ld_int_saved) (use r in \<open>simp_all add: save_cfg_def\<close>)
  have f_cert_chain_path: "ld_str (save_cfg cfg) ''cert_chain_path'' 32 ''fullchain.cer'' = cert_chain_path cfg"
    by (rule ld_str_saved) (use r in \<open>simp_all add: save_cfg_def\<close>)
  have f_private_key_path: "ld_str (save_cfg cfg) ''private_key_path'' 32 ''lwmsg.duckdns.org.key'' = private_key_path cfg"
    by (rule ld_str_saved) (use r in \<open>simp_all add: save_cfg_def\<close>)
  have f_db_file_path: "ld_str (save_cfg cfg) ''db_file_path'' 32 ''database.db'' = db_file_path cfg"
    by (rule ld_str_saved) (use r in \<open>simp_all add: save_cfg_def\<close>)
  have f_ip_whitelist_path: "ld_str (save_cfg cfg) ''ip_whitelist_path'' 32 ''ip_whitelist.json'' = ip_whitelist_path cfg"
    by (rule ld_str_saved) (use r in \<open>simp_all add: save_cfg_def\<close>)
  have f_ip_blacklist_path: "ld_str (save_cfg cfg) ''ip_blacklist_path'' 32 ''ip_blacklist.json'' = ip_blacklist_path cfg"
    by (rule ld_str_saved) (use r in \<open>simp_all add: save_cfg_def\<close>)
  have f_zlog_config_path: "ld_str (save_cfg cfg) ''zlog_config_path'' 32 ''zlog.conf'' = zlog_config_path cfg"
    by (rule ld_str_saved) (use r in \<open>simp_all add: save_cfg_def\<close>)
  have f_gen_interface: "ld_str (save_cfg cfg) ''gen_interface'' 16 ''0.0.0.0'' = gen_interface cfg"
    by (rule ld_str_saved) (use r in \<open>simp_all add: save_cfg_def\<close>)
  have "load_fields (save_cfg cfg) = cfg\<lparr>networking_functions := Plain_tcp\<rparr>"
    unfolding load_fields_def f_max_filesize_b f_reg_port f_gen_port f_ctrl_port f_nr_worker_threads f_cl_htable_size_pow2 f_cl_htable_expansion_pow2 f_cl_htable_loadfactor_exp_thres f_cl_htable_locks_pow2 f_autoconf_nr_threads f_use_tls f_use_auth f_allow_registrations f_allow_file_transfers_flag f_use_ip_whitelist f_cert_chain_path f_private_key_path f_db_file_path f_ip_whitelist_path f_ip_blacklist_path f_zlog_config_path f_gen_interface by (cases cfg) simp
  moreover have "\<not> cl_htable_size_pow2 cfg < cl_htable_locks_pow2 cfg" using r by (auto dest: leD)
  ultimately show ?thesis by (simp add: load_cfg_def Let_def)
qed

theorem load_save_cfg_witness:
  "load_cfg (Some (save_cfg get_default_cfg)) = get_default_cfg\<lparr>networking_functions := Plain_tcp\<rparr>"
  by (rule load_save_cfg [OF default_in_range])

text \<open>A configuration outside its bounds is not read back: the control command \<open>filesize\<close> stores any
  number, for instance 100, and a limit below the minimum of the table is replaced by the default of
  4 MiB at the next start.\<close>

lemma small_filesize_lost:
  "max_filesize_b (load_cfg (Some (save_cfg (get_default_cfg\<lparr>max_filesize_b := 100\<rparr>)))) = 4194304"
  by (simp add: load_cfg_def Let_def load_fields_def save_cfg_def ld_int_def)

end
