(* ===== verification/Workerstate.thy ===== *)
theory Workerstate
  imports Clhandle Dbops Ipblock Servcfg
begin

text \<open>
  The state of a worker thread of \<open>server/worker.c\<close> and the operations its handlers share. One record holds
  the objects (clients, their nodes, messages) by address, the thread's containers (\<open>stdcl_containers\<close>: the
  table of clients, the list of clients that have not logged in, the timer heap, the array of clients to
  sweep), the address tables, and what the handlers do to the outside: the interest set of the thread's
  \<open>epoll\<close> instance and, per client, the pending input, the answers of \<open>send\<close> and of the TLS handshake, and
  the bytes sent so far.

  A handler is a function from the state to \<open>worker option\<close>; \<open>None\<close> is undefined behaviour (an access outside
  a buffer or to a freed object) or a failed assertion. Handlers of one thread run one after the other; what
  other threads do to shared objects between two of them is not part of the state here.
\<close>

record worker =
  cls :: std_store
  nds :: node_store
  msgs :: msg_store
  std_cl_table :: htable
  preauth_list :: "addr list"
  clth :: cl_timerheap
  dconn_clients :: node_arr
  std_ipblock_tbl :: htable
  ipb_recs :: "addr \<Rightarrow> std_ipb_rec"
  ip_whitelist_tbl :: htable
  wl_recs :: "addr \<Rightarrow> whitelist_rec"
  next_addr :: addr
  garbage :: "addr \<Rightarrow> nat \<Rightarrow> byte"
  efd_ok :: bool
  inputs :: "addr \<Rightarrow> recv_res list"
  outputs :: "addr \<Rightarrow> send_res list"
  accepts :: "addr \<Rightarrow> accpt list"
  sent :: "addr \<Rightarrow> byte list"
  sock_events :: "addr \<Rightarrow> (bool \<times> bool) option"
  queue_events :: "addr \<Rightarrow> bool option"
  now :: timespec
  thrd_id :: byte
  cfg :: serv_cfg

text \<open>The interest of \<open>epoll\<close> in a socket: \<open>EPOLLIN\<close> and \<open>EPOLLOUT\<close>; in the event descriptor of a queue: \<open>EPOLLIN\<close>.\<close>

text \<open>\<open>epoll_ctl\<close> with \<open>EPOLL_CTL_MOD\<close> fails for a descriptor that is not watched.\<close>

definition epoll_mod :: "addr \<Rightarrow> 'e \<Rightarrow> (addr \<Rightarrow> 'e option) \<Rightarrow> addr \<Rightarrow> 'e option" where
  "epoll_mod c e evs = evs(c := map_option (\<lambda>_. e) (evs c))"

definition live :: "worker \<Rightarrow> addr \<Rightarrow> bool" where
  "live w c \<longleftrightarrow> c \<noteq> 0 \<and> \<not> freed (nds w c)"

definition upd_cl :: "addr \<Rightarrow> (std_client \<Rightarrow> std_client) \<Rightarrow> worker \<Rightarrow> worker" where
  "upd_cl c f w = w\<lparr>cls := (cls w)(c := f (cls w c))\<rparr>"

text \<open>\<open>malloc\<close> of a message node: a fresh address; \<open>garbage\<close> is what fresh memory holds.\<close>

definition alloc_msg :: "byte list option \<Rightarrow> nat \<Rightarrow> byte list option \<Rightarrow> worker \<Rightarrow> addr \<times> worker" where
  "alloc_msg src sz subject w =
     (let a = next_addr w in
      (a, w\<lparr>next_addr := a + 1,
            msgs := (msgs w)(a := msg_node_create src sz subject (map (garbage w a) [0..<sz]))\<rparr>))"

definition set_msg_buf :: "addr \<Rightarrow> byte list \<Rightarrow> worker \<Rightarrow> worker" where
  "set_msg_buf m b w = w\<lparr>msgs := (msgs w)(m := (msgs w m)\<lparr>buf := b\<rparr>)\<rparr>"

definition free_msg :: "addr \<Rightarrow> worker \<Rightarrow> worker" where
  "free_msg m w = w\<lparr>msgs := (msgs w)(m := (msgs w m)\<lparr>msg_freed := True\<rparr>)\<rparr>"

text \<open>Dropping a reference to a client; the last one frees it (\<open>free_std_client\<close>).\<close>

definition put_client :: "addr \<Rightarrow> worker \<Rightarrow> worker option" where
  "put_client n w =
     (let nds' = node_put (nds w) n in
      if freed (nds' n) \<and> \<not> freed (nds w n)
      then (case free_std_client (cls w) (msgs w) n of
          None \<Rightarrow> None
        | Some (cls', msgs') \<Rightarrow> Some (w\<lparr>nds := nds', cls := cls', msgs := msgs'\<rparr>))
      else Some (w\<lparr>nds := nds'\<rparr>))"

text \<open>\<open>htable_get_cond\<close> with \<open>is_not_disconnected\<close>, which takes a reference, on the table of clients.\<close>

definition get_connected :: "byte list \<Rightarrow> worker \<Rightarrow> (addr option \<times> worker) option" where
  "get_connected name w =
     (case htable_get_cond calm_locks (nds w) (std_cl_table w) (cstr name) (is_not_disconnected (cls w)) of
        None \<Rightarrow> None
      | Some (r, nds', _) \<Rightarrow> Some (r, w\<lparr>nds := nds'\<rparr>))"

subsection \<open>Cleaning up a client\<close>

definition forget_socket :: "addr \<Rightarrow> worker \<Rightarrow> worker" where
  "forget_socket c w = w\<lparr>sock_events := (sock_events w)(c := None)\<rparr>"

definition forget_queue :: "addr \<Rightarrow> worker \<Rightarrow> worker" where
  "forget_queue c w = w\<lparr>queue_events := (queue_events w)(c := None)\<rparr>"

text \<open>The three last labels of the switch, each falling into the next.\<close>

definition cleanup_INIT :: "addr \<Rightarrow> worker \<Rightarrow> worker" where
  "cleanup_INIT c w =
     (let w = upd_cl c (\<lambda>s. s\<lparr>sock_fd := - 1\<rparr>) w
      in w\<lparr>nds := (nds w)(c := (nds w c)\<lparr>freed := True\<rparr>)\<rparr>)"

definition cleanup_ACCEPTING :: "addr \<Rightarrow> worker \<Rightarrow> worker" where
  "cleanup_ACCEPTING c w =
     cleanup_INIT c (forget_socket c (w\<lparr>preauth_list := intrusive_list_remove (preauth_list w) c\<rparr>))"

definition cleanup_ACCEPTED :: "addr \<Rightarrow> worker \<Rightarrow> worker option" where
  "cleanup_ACCEPTED c w =
     (case cl_timerheap_remove (clth w) (cls w) c of
        None \<Rightarrow> None
      | Some (h, s) \<Rightarrow> Some (cleanup_ACCEPTING c (w\<lparr>clth := h, cls := s\<rparr>)))"

definition cleanup_std_client :: "addr \<Rightarrow> worker \<Rightarrow> worker option" where
  "cleanup_std_client c w =
     (if \<not> live w c then None
      else case cl_state (cls w c) of
        AUTHENTICATED \<Rightarrow>
          let w = upd_cl c (\<lambda>s. s\<lparr>cl_state := DISCONNECTED\<rparr>) w;
              w = forget_socket c (forget_queue c w)
          in Some (w\<lparr>dconn_clients := node_arr_add (dconn_clients w) c\<rparr>)
      | ACCEPTED \<Rightarrow> cleanup_ACCEPTED c w
      | ACCEPTING \<Rightarrow> Some (cleanup_ACCEPTING c w)
      | INIT \<Rightarrow> Some (cleanup_INIT c w)
      | _ \<Rightarrow> Some w)"

text \<open>Sweeping: the nodes leave the table, and those whose last reference that was are destroyed.\<close>

fun free_clients :: "addr list \<Rightarrow> worker \<Rightarrow> worker option" where
  "free_clients [] w = Some w"
| "free_clients (n # ns) w =
     (case free_std_client (cls w) (msgs w) n of
        None \<Rightarrow> None
      | Some (cls', msgs') \<Rightarrow> free_clients ns (w\<lparr>cls := cls', msgs := msgs'\<rparr>))"

definition sweep :: "worker \<Rightarrow> worker option" where
  "sweep w =
     (case node_arr_sweep calm_locks (nds w) (std_cl_table w) (dconn_clients w) of
        None \<Rightarrow> None
      | Some (ht, nds', arr) \<Rightarrow>
          free_clients (filter (\<lambda>n. freed (nds' n) \<and> \<not> freed (nds w n)) (nodes (dconn_clients w)))
            (w\<lparr>std_cl_table := ht, nds := nds', dconn_clients := arr\<rparr>))"

subsection \<open>Receiving\<close>

datatype recv_end = Rdone | Rerr | Rblock

definition put_data :: "bool \<Rightarrow> byte list \<Rightarrow> curr_recv_msg \<Rightarrow> curr_recv_msg option" where
  "put_data counted bs rm =
     (case mem_write (rbuf (recvbuf rm)) (unat (buf_data_offset (recvbuf rm))) bs of
        None \<Rightarrow> None
      | Some b \<Rightarrow> Some (rm\<lparr>
          recvbuf := (recvbuf rm)\<lparr>rbuf := b, buf_data_offset := buf_data_offset (recvbuf rm) + of_nat (length bs)\<rparr>,
          total_msg_data_recved := (if counted then total_msg_data_recved rm + of_nat (length bs) else total_msg_data_recved rm)\<rparr>))"

text \<open>The receiving loops of the handlers: while \<open>cond\<close> holds, receive at most \<open>len\<close> bytes to the end of the
  data in the buffer, and count them in \<open>total_msg_data_recved\<close> if the loop does. With \<open>first\<close> the body is
  entered once without the test (\<open>do ... while\<close>).\<close>

function recv_while :: "bool \<Rightarrow> bool \<Rightarrow> (curr_recv_msg \<Rightarrow> bool) \<Rightarrow> (curr_recv_msg \<Rightarrow> u64) \<Rightarrow> curr_recv_msg \<Rightarrow>
    recv_res list \<Rightarrow> (recv_end \<times> curr_recv_msg \<times> recv_res list) option" where
  "recv_while first counted cond len rm inp =
     (if \<not> first \<and> \<not> cond rm then Some (Rdone, rm, inp)
      else case recv_fn inp (unat (len rm)) of
        (RecvError, inp) \<Rightarrow> Some (Rerr, rm, inp)
      | (RecvBlock, inp) \<Rightarrow> Some (Rblock, rm, inp)
      | (RecvData bs, inp) \<Rightarrow>
          (case put_data counted bs rm of
             None \<Rightarrow> None
           | Some rm \<Rightarrow> recv_while False counted cond len rm inp))"
  by pat_completeness auto
termination
  by (relation "measure (\<lambda>(first, counted, cond, len, rm, inp). input_size inp)") (auto dest: recv_fn_size [OF sym])

declare recv_while.simps [simp del]

subsection \<open>What the receiving loops do\<close>

text \<open>The storage after \<open>data\<close> has been received.\<close>

definition received :: "bool \<Rightarrow> byte list \<Rightarrow> curr_recv_msg \<Rightarrow> curr_recv_msg" where
  "received counted data rm =
     (let off = unat (buf_data_offset (recvbuf rm)) in
      rm\<lparr>recvbuf := (recvbuf rm)\<lparr>
           rbuf := take off (rbuf (recvbuf rm)) @ data @ drop (off + length data) (rbuf (recvbuf rm)),
           buf_data_offset := of_nat (off + length data)\<rparr>,
         total_msg_data_recved := (if counted then total_msg_data_recved rm + of_nat (length data) else total_msg_data_recved rm)\<rparr>)"

definition fits :: "byte list \<Rightarrow> curr_recv_msg \<Rightarrow> bool" where
  "fits data rm \<longleftrightarrow> unat (buf_data_offset (recvbuf rm)) + length data \<le> length (rbuf (recvbuf rm)) \<and>
     length (rbuf (recvbuf rm)) < 2 ^ 32"

lemma put_data_fits: "fits bs rm \<Longrightarrow> put_data counted bs rm = Some (received counted bs rm)"
  by (simp add: put_data_def received_def fits_def mem_write_def Let_def)

lemma put_data_overrun: "unat (buf_data_offset (recvbuf rm)) + length bs > length (rbuf (recvbuf rm)) \<Longrightarrow> put_data counted bs rm = None"
  by (simp add: put_data_def mem_write_def)

lemma received_fields [simp]:
  "rmsg_type (received counted d rm) = rmsg_type rm" "expected_msg_size (received counted d rm) = expected_msg_size rm"
  "not_msg_init_pdu (received counted d rm) = not_msg_init_pdu rm" "is_desynced (received counted d rm) = is_desynced rm"
  "dest_uname (received counted d rm) = dest_uname rm" "rbuf_size (recvbuf (received counted d rm)) = rbuf_size (recvbuf rm)"
  by (simp_all add: received_def Let_def)

lemma received_total: "total_msg_data_recved (received counted d rm) =
    (if counted then total_msg_data_recved rm + of_nat (length d) else total_msg_data_recved rm)"
  by (simp add: received_def Let_def)

lemma unat_received_offset:
  assumes "fits d rm"
  shows "unat (buf_data_offset (recvbuf (received counted d rm))) = unat (buf_data_offset (recvbuf rm)) + length d"
proof -
  have "unat (buf_data_offset (recvbuf rm)) + length d < 2 ^ 32" using assms by (simp add: fits_def)
  then show ?thesis by (simp add: received_def Let_def unat_of_nat take_bit_eq_mod del: of_nat_add)
qed

lemma received_rbuf:
  "rbuf (recvbuf (received counted d rm)) = take (unat (buf_data_offset (recvbuf rm))) (rbuf (recvbuf rm)) @ d @
     drop (unat (buf_data_offset (recvbuf rm)) + length d) (rbuf (recvbuf rm))"
  by (simp add: received_def Let_def)

lemma length_received: "fits d rm \<Longrightarrow> length (rbuf (recvbuf (received counted d rm))) = length (rbuf (recvbuf rm))"
  by (simp add: received_rbuf fits_def)

lemma received_Nil: "received counted [] rm = rm"
  by (simp add: received_def Let_def)

lemma fits_append: "fits (a @ b) rm \<longleftrightarrow> fits a rm \<and> fits b (received counted a rm)"
proof (cases "fits a rm")
  case True
  then show ?thesis
    by (simp add: fits_def [of b] length_received unat_received_offset) (auto simp: fits_def)
qed (auto simp: fits_def)

lemma received_append:
  assumes "fits (a @ b) rm"
  shows "received counted b (received counted a rm) = received counted (a @ b) rm"
proof -
  have a: "fits a rm" using assms by (simp add: fits_append [of a b rm counted])
  define off where "off = unat (buf_data_offset (recvbuf rm))"
  have len: "off + length a + length b \<le> length (rbuf (recvbuf rm))" using assms by (simp add: fits_def off_def)
  show ?thesis
    unfolding received_def [of counted b] received_def [of counted "a @ b"] Let_def
      unat_received_offset [OF a] received_rbuf off_def [symmetric]
    using len by (simp add: received_def Let_def off_def [symmetric] ac_simps)
qed

text \<open>A loop that never asks for more than fits: no fault, and what it has done is to receive a prefix of
  the input.\<close>

definition offset_in :: "curr_recv_msg \<Rightarrow> nat" where
  "offset_in rm = unat (buf_data_offset (recvbuf rm))"

lemma fits_Nil: "offset_in rm \<le> B \<Longrightarrow> B \<le> length (rbuf (recvbuf rm)) \<Longrightarrow> length (rbuf (recvbuf rm)) < 2 ^ 32 \<Longrightarrow> fits [] rm"
  by (simp add: fits_def offset_in_def)

lemma recv_while_skip: "\<not> cond rm \<Longrightarrow> recv_while False counted cond len rm inp = Some (Rdone, rm, inp)"
  by (subst recv_while.simps) simp

lemma recv_while_correct:
  assumes fit: "\<And>d. fits d rm \<Longrightarrow> offset_in rm + length d \<le> B \<Longrightarrow> first \<or> cond (received counted d rm) \<Longrightarrow>
      offset_in rm + length d + unat (len (received counted d rm)) \<le> B"
    and "offset_in rm \<le> B" and "B \<le> length (rbuf (recvbuf rm))" and "length (rbuf (recvbuf rm)) < 2 ^ 32"
  shows "\<exists>e d inp'. recv_while first counted cond len rm inp = Some (e, received counted d rm, inp') \<and>
    fits d rm \<and> offset_in rm + length d \<le> B \<and> (e \<noteq> Rerr \<longrightarrow> in_bytes inp = d @ in_bytes inp') \<and> (e = Rdone \<longrightarrow> \<not> cond (received counted d rm))"
  using assms
proof (induction first counted cond len rm inp rule: recv_while.induct)
  case (1 first counted cond len rm inp)
  show ?case
  proof (cases "\<not> first \<and> \<not> cond rm")
    case True
    then show ?thesis using "1.prems"(2-4) fits_Nil
      by (subst recv_while.simps) (auto intro!: exI [of _ "[]"] simp: received_Nil)
  next
    case False
    obtain r inp1 where r: "recv_fn inp (unat (len rm)) = (r, inp1)" by fastforce
    show ?thesis
    proof (cases r)
      case (RecvData bs)
      note bs = recv_fn_data [OF r [unfolded RecvData]]
      have le: "offset_in rm + length bs \<le> B"
        using "1.prems"(1) [of "[]"] "1.prems"(2-4) False fits_Nil bs by (simp add: received_Nil)
      then have fb: "fits bs rm" using "1.prems"(3,4) by (simp add: fits_def offset_in_def)
      define rm1 where "rm1 = received counted bs rm"
      have o1: "offset_in rm1 = offset_in rm + length bs" "length (rbuf (recvbuf rm1)) = length (rbuf (recvbuf rm))"
        using unat_received_offset [OF fb] length_received [OF fb] by (simp_all add: offset_in_def rm1_def)
      have ext: "fits d rm1 \<Longrightarrow> received counted d rm1 = received counted (bs @ d) rm \<and> fits (bs @ d) rm" for d
        using fb received_append [of bs d rm counted] unfolding rm1_def by (simp add: fits_append [of bs d rm counted])
      have f: "\<And>d. fits d rm1 \<Longrightarrow> offset_in rm1 + length d \<le> B \<Longrightarrow> False \<or> cond (received counted d rm1) \<Longrightarrow>
          offset_in rm1 + length d + unat (len (received counted d rm1)) \<le> B"
      proof -
        fix d assume d: "fits d rm1" "offset_in rm1 + length d \<le> B" "False \<or> cond (received counted d rm1)"
        show "?thesis d"
          using "1.prems"(1) [of "bs @ d"] d ext [OF d(1)] o1 by (simp add: add.assoc)
      qed
      from "1.IH" [OF False r [symmetric] RecvData put_data_fits [OF fb], folded rm1_def, OF f] o1 le "1.prems"(3,4) obtain e d inp' where
        ih: "recv_while False counted cond len rm1 inp1 = Some (e, received counted d rm1, inp')"
        "fits d rm1" "offset_in rm1 + length d \<le> B" "e \<noteq> Rerr \<longrightarrow> in_bytes inp1 = d @ in_bytes inp'"
        "e = Rdone \<longrightarrow> \<not> cond (received counted d rm1)" by auto
      have "recv_while first counted cond len rm inp = Some (e, received counted (bs @ d) rm, inp')"
        using False r RecvData put_data_fits [OF fb, of counted] ih(1) ext [OF ih(2)]
        by (subst recv_while.simps) (auto simp: rm1_def)
      then show ?thesis
        using ih(3-5) recv_fn_bytes [OF r [unfolded RecvData]] ext [OF ih(2)] o1
        by (intro exI [of _ e] exI [of _ "bs @ d"] exI [of _ inp']) (auto simp: add.assoc)
    next
      case RecvError
      then have "recv_while first counted cond len rm inp = Some (Rerr, received counted [] rm, inp1)"
        using False r by (subst recv_while.simps) (simp add: received_Nil)
      then show ?thesis using "1.prems"(2-4) fits_Nil by fastforce
    next
      case RecvBlock
      then have "recv_while first counted cond len rm inp = Some (Rblock, received counted [] rm, inp1)"
        using False r by (subst recv_while.simps) (simp add: received_Nil)
      then show ?thesis using "1.prems"(2-4) fits_Nil recv_fn_block [OF r [unfolded RecvBlock]] by fastforce
    qed
  qed
qed


text \<open>A loop that waits for exactly \<open>n\<close> more bytes, on input that neither ends nor blocks: it takes the first
  \<open>n\<close> bytes however they are fragmented, or all there are, and waits.\<close>

lemma recv_while_exact:
  assumes need: "\<And>d. length d \<le> n \<Longrightarrow> fits d rm \<and> (cond (received counted d rm) \<longleftrightarrow> length d < n) \<and>
      (length d < n \<longrightarrow> unat (len (received counted d rm)) = n - length d)"
    and "ready inp"
  shows "\<exists>inp'. recv_while False counted cond len rm inp =
      Some (if n \<le> length (in_bytes inp) then Rdone else Rblock, received counted (take n (in_bytes inp)) rm, inp') \<and>
    ready inp' \<and> in_bytes inp' = drop n (in_bytes inp)"
  using assms
proof (induction False counted cond len rm inp arbitrary: n rule: recv_while.induct)
  case (1 counted cond len rm inp)
  have c: "cond rm \<longleftrightarrow> 0 < n" "0 < n \<Longrightarrow> unat (len rm) = n"
    using "1.prems"(1) [of "[]"] by (simp_all add: received_Nil)
  show ?case
  proof (cases "n = 0")
    case True
    then show ?thesis using c "1.prems"(2) by (subst recv_while.simps) (auto simp: received_Nil)
  next
    case False
    then have n: "0 < n" by simp
    from recv_fn_ready [OF "1.prems"(2), of "unat (len rm)"] c(2) [OF n] n consider
      "inp = []" "recv_fn inp n = (RecvBlock, [])"
      | bs inp1 where "recv_fn inp n = (RecvData bs, inp1)" "bs \<noteq> []" "length bs \<le> n" "ready inp1"
        "in_bytes inp = bs @ in_bytes inp1" by auto
    then show ?thesis
    proof cases
      case 1
      then show ?thesis using c n "1.prems"(2) by (subst recv_while.simps) (auto simp: received_Nil)
    next
      case (2 bs inp1)
      have fb: "fits bs rm" using "1.prems"(1) [of bs] 2(3) by simp
      have ext: "fits (bs @ d) rm \<Longrightarrow> received counted d (received counted bs rm) = received counted (bs @ d) rm" for d
        by (rule received_append)
      have IH: "\<exists>inp'. recv_while False counted cond len (received counted bs rm) inp1 =
          Some (if n - length bs \<le> length (in_bytes inp1) then Rdone else Rblock,
                received counted (take (n - length bs) (in_bytes inp1)) (received counted bs rm), inp') \<and>
        ready inp' \<and> in_bytes inp' = drop (n - length bs) (in_bytes inp1)"
      proof (rule "1.hyps")
        show "\<not> (\<not> False \<and> \<not> cond rm)" using c n by simp
        show "(RecvData bs, inp1) = recv_fn inp (unat (len rm))" using 2(1) c(2) [OF n] by simp
        show "RecvData bs = RecvData bs" "ready inp1" using 2(4) by simp_all
        show "put_data counted bs rm = Some (received counted bs rm)" by (rule put_data_fits [OF fb])
        fix d :: "byte list" assume d: "length d \<le> n - length bs"
        then have l: "length (bs @ d) \<le> n" using 2(3) by simp
        have f: "fits (bs @ d) rm" using "1.prems"(1) [OF l] by blast
        then have "fits d (received counted bs rm)" by (simp add: fits_append [of bs d rm counted])
        then show "fits d (received counted bs rm) \<and>
          cond (received counted d (received counted bs rm)) = (length d < n - length bs) \<and>
          (length d < n - length bs \<longrightarrow> unat (len (received counted d (received counted bs rm))) = n - length bs - length d)"
          using "1.prems"(1) [OF l] 2(3) unfolding ext [OF f] by auto
      qed
      then obtain inp' where ih: "recv_while False counted cond len (received counted bs rm) inp1 =
          Some (if n - length bs \<le> length (in_bytes inp1) then Rdone else Rblock,
                received counted (take (n - length bs) (in_bytes inp1)) (received counted bs rm), inp')"
        "ready inp'" "in_bytes inp' = drop (n - length bs) (in_bytes inp1)" by blast
      have tk: "take n (in_bytes inp) = bs @ take (n - length bs) (in_bytes inp1)" using 2(3,5) by simp
      have "fits (take n (in_bytes inp)) rm" using "1.prems"(1) [of "take n (in_bytes inp)"] by simp
      then have "received counted (take (n - length bs) (in_bytes inp1)) (received counted bs rm) =
          received counted (take n (in_bytes inp)) rm"
        unfolding tk by (rule ext)
      moreover have "recv_while False counted cond len rm inp = recv_while False counted cond len (received counted bs rm) inp1"
        using 2(1) c n put_data_fits [OF fb, of counted] by (subst recv_while.simps) simp
      moreover have "n - length bs \<le> length (in_bytes inp1) \<longleftrightarrow> n \<le> length (in_bytes inp)" using 2(3,5) by auto
      ultimately show ?thesis using ih 2(3,5) by auto
    qed
  qed
qed

subsection \<open>Sending\<close>

datatype send_end = Sdone | Serr | Sblock

text \<open>The sending loops: a message node goes out from its offset on; the state of the connection is the
  answers of \<open>send\<close> still to come and the bytes sent.\<close>

lemma send_fn_length: "send_fn outp len = (Sent n, outp') \<Longrightarrow> length outp' < length outp"
  by (induction outp len rule: send_fn.induct) (auto split: if_splits)

function send_while :: "bool \<Rightarrow> mpsc_msg_node \<Rightarrow> send_res list \<Rightarrow> byte list \<Rightarrow>
    (send_end \<times> mpsc_msg_node \<times> send_res list \<times> byte list) option" where
  "send_while first tss outp out =
     (if \<not> first \<and> \<not> buf_offset tss < buf_size tss then Some (Sdone, tss, outp, out)
      else case mem_read (buf tss) (buf_offset tss) (buf_size tss - buf_offset tss) of
        None \<Rightarrow> None
      | Some bs \<Rightarrow>
          (case send_fn outp (length bs) of
             (SendError, outp) \<Rightarrow> Some (Serr, tss, outp, out)
           | (SendBlock, outp) \<Rightarrow> Some (Sblock, tss, outp, out)
           | (Sent n, outp) \<Rightarrow>
               send_while False (tss\<lparr>buf_offset := (buf_offset tss + n) mod 2 ^ 32\<rparr>) outp (out @ take n bs)))"
  by pat_completeness auto
termination
  by (relation "measure (\<lambda>(first, tss, outp, out). length outp)") (auto dest: send_fn_length [OF sym])

declare send_while.simps [simp del]

text \<open>A node that can be sent, and what the loop does with it: it sends a piece from the offset on, advances
  the offset by its length, and has sent all of it if it ends regularly.\<close>

definition node_ok :: "mpsc_msg_node \<Rightarrow> bool" where
  "node_ok m \<longleftrightarrow> buf_offset m \<le> buf_size m \<and> buf_size m = length (buf m) \<and> length (buf m) < 2 ^ 32"

lemma send_while_correct:
  assumes "node_ok tss"
  shows "\<exists>e n outp'. send_while first tss outp out =
      Some (e, tss\<lparr>buf_offset := buf_offset tss + n\<rparr>, outp', out @ take n (drop (buf_offset tss) (buf tss))) \<and>
    buf_offset tss + n \<le> buf_size tss \<and> (e = Sdone \<longrightarrow> buf_offset tss + n = buf_size tss)"
  using assms
proof (induction first tss outp out rule: send_while.induct)
  case (1 first tss outp out)
  show ?case
  proof (cases "\<not> first \<and> \<not> buf_offset tss < buf_size tss")
    case True
    then show ?thesis using "1.prems"
      by (subst send_while.simps) (auto simp: node_ok_def intro!: exI [of _ 0])
  next
    case False
    define bs where "bs = drop (buf_offset tss) (buf tss)"
    have rd: "mem_read (buf tss) (buf_offset tss) (buf_size tss - buf_offset tss) = Some bs"
      using "1.prems" by (simp add: mem_read_def bs_def node_ok_def)
    obtain r outp1 where r: "send_fn outp (length bs) = (r, outp1)" by fastforce
    have stop: "\<exists>e n outp'. send_while first tss outp out =
        Some (e, tss\<lparr>buf_offset := buf_offset tss + n\<rparr>, outp', out @ take n (drop (buf_offset tss) (buf tss))) \<and>
        buf_offset tss + n \<le> buf_size tss \<and> (e = Sdone \<longrightarrow> buf_offset tss + n = buf_size tss)"
      if "send_while first tss outp out = Some (e, tss, outp1, out)" "e \<noteq> Sdone" for e
      using that "1.prems" by (intro exI [of _ e] exI [of _ 0]) (simp add: node_ok_def)
    show ?thesis
    proof (cases r)
      case SendError
      then show ?thesis using False rd r by (intro stop [of Serr]) (subst send_while.simps, simp_all)
    next
      case SendBlock
      then show ?thesis using False rd r by (intro stop [of Sblock]) (subst send_while.simps, simp_all)
    next
      case (Sent n)
      define tss1 where "tss1 = tss\<lparr>buf_offset := (buf_offset tss + n) mod 2 ^ 32\<rparr>"
      have n: "0 < n" "n \<le> length bs" using send_fn_sent [OF r [unfolded Sent]] by simp_all
      then have b: "buf_offset tss + n \<le> buf_size tss" using "1.prems" by (auto simp: bs_def node_ok_def)
      then have off: "buf_offset tss1 = buf_offset tss + n" "node_ok tss1"
        using "1.prems" by (auto simp: tss1_def node_ok_def)
      from "1.IH" [OF False rd r [symmetric] Sent, folded tss1_def, OF off(2)] obtain e k outp' where
        ih: "send_while False tss1 outp1 (out @ take n bs) =
          Some (e, tss1\<lparr>buf_offset := buf_offset tss1 + k\<rparr>, outp', (out @ take n bs) @ take k (drop (buf_offset tss1) (buf tss1)))"
        "buf_offset tss1 + k \<le> buf_size tss1" "e = Sdone \<longrightarrow> buf_offset tss1 + k = buf_size tss1" by blast
      have "send_while first tss outp out = send_while False tss1 outp1 (out @ take n bs)"
        using False rd r Sent by (subst send_while.simps) (auto simp: tss1_def)
      moreover have "tss1\<lparr>buf_offset := buf_offset tss1 + k\<rparr> = tss\<lparr>buf_offset := buf_offset tss + (n + k)\<rparr>"
        unfolding off(1) by (simp add: tss1_def add.assoc)
      moreover have "(out @ take n bs) @ take k (drop (buf_offset tss1) (buf tss1)) =
          out @ take (n + k) (drop (buf_offset tss) (buf tss))"
        unfolding off(1) take_add by (simp add: tss1_def bs_def add.commute)
      ultimately show ?thesis using ih off(1)
        by (intro exI [of _ e] exI [of _ "n + k"] exI [of _ outp']) (simp add: tss1_def add.assoc)
    qed
  qed
qed

text \<open>Sending the client's \<open>temp_send_storage\<close>: the loop, and what both callers do with its state.\<close>

definition send_storage :: "bool \<Rightarrow> addr \<Rightarrow> worker \<Rightarrow> (send_end \<times> worker) option" where
  "send_storage first c w =
     (let m = temp_send_storage (cls w c) in
      if m = 0 \<or> msg_freed (msgs w m) then None
      else case send_while first (msgs w m) (outputs w c) (sent w c) of
        None \<Rightarrow> None
      | Some (e, tss, outp, out) \<Rightarrow>
          Some (e, w\<lparr>msgs := (msgs w)(m := tss), outputs := (outputs w)(c := outp), sent := (sent w)(c := out)\<rparr>))"

definition drop_storage :: "addr \<Rightarrow> worker \<Rightarrow> worker" where
  "drop_storage c w = upd_cl c (\<lambda>s. s\<lparr>temp_send_storage := 0\<rparr>) (free_msg (temp_send_storage (cls w c)) w)"

text \<open>\<open>auth_send_resp\<close> on a connection of the worker.\<close>

definition send_auth_resp :: "addr \<Rightarrow> u32 \<Rightarrow> worker \<Rightarrow> worker" where
  "send_auth_resp c code w =
     (case auth_send_resp (outputs w c) code of
        (bs, outp) \<Rightarrow> w\<lparr>outputs := (outputs w)(c := outp), sent := (sent w)(c := sent w c @ bs)\<rparr>)"

text \<open>Adding a message to one of a client's queues.\<close>

definition enqueue_ctrl :: "addr \<Rightarrow> addr \<Rightarrow> worker \<Rightarrow> worker" where
  "enqueue_ctrl c m w =
     (case mpscq_enqueue (pending_ctrl_queue (cls w c)) (msgs w) m of
        (q, s) \<Rightarrow> upd_cl c (\<lambda>s. s\<lparr>pending_ctrl_queue := q\<rparr>) (w\<lparr>msgs := s\<rparr>))"

definition enqueue_userdata :: "addr \<Rightarrow> addr \<Rightarrow> worker \<Rightarrow> worker" where
  "enqueue_userdata c m w =
     (case mpscq_enqueue (pending_userdata_queue (cls w c)) (msgs w) m of
        (q, s) \<Rightarrow> upd_cl c (\<lambda>s. s\<lparr>pending_userdata_queue := q\<rparr>) (w\<lparr>msgs := s\<rparr>))"

definition dequeue_ctrl :: "addr \<Rightarrow> worker \<Rightarrow> addr option \<times> worker" where
  "dequeue_ctrl c w =
     (case mpscq_dequeue (pending_ctrl_queue (cls w c)) (msgs w) of
        (r, q, s) \<Rightarrow> (r, upd_cl c (\<lambda>s. s\<lparr>pending_ctrl_queue := q\<rparr>) (w\<lparr>msgs := s\<rparr>)))"

definition dequeue_userdata :: "addr \<Rightarrow> worker \<Rightarrow> addr option \<times> worker" where
  "dequeue_userdata c w =
     (case mpscq_dequeue (pending_userdata_queue (cls w c)) (msgs w) of
        (r, q, s) \<Rightarrow> (r, upd_cl c (\<lambda>s. s\<lparr>pending_userdata_queue := q\<rparr>) (w\<lparr>msgs := s\<rparr>)))"

end
