(* ===== verification/Inbound.thy ===== *)
theory Inbound
  imports Workerstate
begin

text \<open>
  The inbound path of \<open>server/worker.c\<close>: \<open>wt_serve_response\<close>, \<open>handle_request\<close> and
  \<open>wt_handle_inbound_data\<close>, which receives from a client that is logged in, validates headers, answers,
  and forwards messages to the queue of the recipient. A phase of the function either returns with a status
  or goes on to the next one.
\<close>

datatype wt_inb_data_status = WT_DCONN | WT_STOP_EBLK | WT_STOP_BORDER

type_synonym phase = "(wt_inb_data_status option \<times> worker) option"

definition and_then :: "phase \<Rightarrow> (worker \<Rightarrow> phase) \<Rightarrow> phase" where
  "and_then p f =
     (case p of
        None \<Rightarrow> None
      | Some (None, w) \<Rightarrow> f w
      | Some (Some st, w) \<Rightarrow> Some (Some st, w))"

abbreviation (input) rcv :: "worker \<Rightarrow> addr \<Rightarrow> curr_recv_msg" where
  "rcv w c \<equiv> temp_recv_storage (cls w c)"

definition set_rcv :: "addr \<Rightarrow> curr_recv_msg \<Rightarrow> worker \<Rightarrow> worker" where
  "set_rcv c rm w = upd_cl c (\<lambda>s. s\<lparr>temp_recv_storage := rm\<rparr>) w"

definition set_offset :: "u32 \<Rightarrow> curr_recv_msg \<Rightarrow> curr_recv_msg" where
  "set_offset n rm = rm\<lparr>recvbuf := (recvbuf rm)\<lparr>buf_data_offset := n\<rparr>\<rparr>"

text \<open>The \<open>memset\<close> of everything from \<open>expected_msg_size\<close> on, and the reset of the buffer that goes with it.\<close>

definition reset_msg :: "curr_recv_msg \<Rightarrow> curr_recv_msg" where
  "reset_msg rm = set_offset 0 (rm\<lparr>expected_msg_size := 0, total_msg_data_recved := 0, rmsg_type := 0,
     not_msg_init_pdu := False, is_desynced := False, dest_uname := replicate UNAMESIZE 0\<rparr>)"

subsection \<open>Answers\<close>

definition wt_serve_response :: "addr \<Rightarrow> addr \<Rightarrow> worker \<Rightarrow> worker option" where
  "wt_serve_response c m w =
     (if \<not> live w c then None
      else if temp_send_storage (cls w c) \<noteq> 0 then Some (enqueue_ctrl c m w)
      else case send_storage True c (upd_cl c (\<lambda>s. s\<lparr>temp_send_storage := m\<rparr>) w) of
        None \<Rightarrow> None
      | Some (Serr, w) \<Rightarrow> cleanup_std_client c w
      | Some (Sblock, w) \<Rightarrow> Some (w\<lparr>sock_events := epoll_mod c (True, True) (sock_events w)\<rparr>)
      | Some (Sdone, w) \<Rightarrow> Some (drop_storage c w))"

text \<open>A response on a fresh message node: \<open>msg_node_create\<close> and \<open>lwmp_prepare_response\<close>.\<close>

definition new_response :: "nat \<Rightarrow> byte \<Rightarrow> u32 \<Rightarrow> byte list option \<Rightarrow> worker \<Rightarrow> (addr \<times> worker) option" where
  "new_response sz mt code text_opt w =
     (case alloc_msg None sz None w of
        (m, w) \<Rightarrow>
          (case lwmp_prepare_response (buf (msgs w m)) mt (Some (be32 code)) 4 text_opt of
             None \<Rightarrow> None
           | Some b \<Rightarrow> Some (m, set_msg_buf m b w)))"

definition respond :: "addr \<Rightarrow> u32 \<Rightarrow> byte list option \<Rightarrow> worker \<Rightarrow> worker option" where
  "respond c code text_opt w =
     (let sz = (case text_opt of None \<Rightarrow> LWMP_HDR_SIZE | Some t \<Rightarrow> LWMP_HDR_SIZE + length t + 1) in
      case new_response sz MT_INFO code text_opt w of
        None \<Rightarrow> None
      | Some (m, w) \<Rightarrow> wt_serve_response c m w)"

definition handle_request :: "byte list \<Rightarrow> worker \<Rightarrow> byte list option" where
  "handle_request pdu w = do {
     req_type \<leftarrow> load32 pdu off_optional;
     if req_type = REQ_USER_LIST
     then map_option fst (htable_copy_all_keys (node_copy_username (cls w)) (std_cl_table w))
     else Some [] }"

definition unreachable_text :: "byte list \<Rightarrow> byte list" where
  "unreachable_text dest = take 255 (lit ''Unable to reach recipient '' @ cstr dest @ lit ''.'')"

text \<open>The answer to a request: the user list, or a refusal.\<close>

definition serve_user_list :: "addr \<Rightarrow> byte list \<Rightarrow> worker \<Rightarrow> worker option" where
  "serve_user_list c reqbuf w =
     (case new_response (LWMP_HDR_SIZE + length reqbuf) MT_REQ RESP_OK None w of
        None \<Rightarrow> None
      | Some (m, w) \<Rightarrow> do {
          b \<leftarrow> mem_write (buf (msgs w m)) off_buf reqbuf;
          b \<leftarrow> mem_write b off_total (be64 (of_nat (length reqbuf)));
          b \<leftarrow> store_crc b;
          wt_serve_response c m (set_msg_buf m b w) })"

definition answer_request :: "addr \<Rightarrow> worker \<Rightarrow> worker option" where
  "answer_request c w =
     (case handle_request (rbuf (recvbuf (rcv w c))) w of
        None \<Rightarrow> None
      | Some reqbuf \<Rightarrow>
          if reqbuf = [] then respond c RESP_INVAL_REQ (Some (lit ''Failed to process request.'')) w
          else serve_user_list c reqbuf w)"

subsection \<open>Receiving phases\<close>

text \<open>A receiving loop of the function on the client's storage, with the status it returns when the
  connection blocks (\<open>None\<close>: it leaves the loop and goes on).\<close>

definition receive :: "addr \<Rightarrow> bool \<Rightarrow> bool \<Rightarrow> (curr_recv_msg \<Rightarrow> bool) \<Rightarrow> (curr_recv_msg \<Rightarrow> u64) \<Rightarrow>
    wt_inb_data_status option \<Rightarrow> worker \<Rightarrow> phase" where
  "receive c first counted cond len blocked w =
     (case recv_while first counted cond len (rcv w c) (inputs w c) of
        None \<Rightarrow> None
      | Some (e, rm, inp) \<Rightarrow>
          let w = set_rcv c rm (w\<lparr>inputs := (inputs w)(c := inp)\<rparr>) in
          (case e of
             Rerr \<Rightarrow> map_option (\<lambda>w. (Some WT_DCONN, w)) (cleanup_std_client c w)
           | Rblock \<Rightarrow> Some (blocked, w)
           | Rdone \<Rightarrow> Some (None, w)))"

definition off_of :: "curr_recv_msg \<Rightarrow> u32" where
  "off_of rm = buf_data_offset (recvbuf rm)"

definition size_of :: "curr_recv_msg \<Rightarrow> u32" where
  "size_of rm = rbuf_size (recvbuf rm)"

definition inb_resync :: "addr \<Rightarrow> worker \<Rightarrow> phase" where
  "inb_resync c w =
     (if \<not> is_desynced (rcv w c) then Some (None, w)
      else and_then (receive c True False (\<lambda>rm. off_of rm \<noteq> size_of rm) (\<lambda>rm. ucast (size_of rm - off_of rm)) None w)
        (\<lambda>w. case lwmp_stream_resync (rbuf (recvbuf (rcv w c))) (unat (off_of (rcv w c))) of
             None \<Rightarrow> None
           | Some (b, new_offset) \<Rightarrow>
               let rm = (rcv w c)\<lparr>recvbuf := (recvbuf (rcv w c))\<lparr>rbuf := b, buf_data_offset := of_nat new_offset\<rparr>\<rparr>
               in if new_offset \<noteq> 0 then Some (None, set_rcv c (rm\<lparr>is_desynced := False\<rparr>) w)
                  else Some (Some WT_STOP_EBLK, set_rcv c rm w)))"

definition inb_header :: "addr \<Rightarrow> worker \<Rightarrow> phase" where
  "inb_header c w = receive c False False (\<lambda>rm. off_of rm < of_nat LWMP_HDR_SIZE)
     (\<lambda>rm. ucast (of_nat LWMP_HDR_SIZE - off_of rm :: u32)) (Some WT_STOP_EBLK) w"

text \<open>Reading the header of a message into the storage.\<close>

definition parse_header :: "curr_recv_msg \<Rightarrow> curr_recv_msg option" where
  "parse_header rm =
     (if rmsg_type rm \<noteq> 0 \<or> expected_msg_size rm \<noteq> 0 then Some rm
      else let pdu = rbuf (recvbuf rm) in do {
        mt \<leftarrow> load8 pdu off_msg_type;
        subj \<leftarrow> mem_read pdu off_subject UNAMESIZE;
        total \<leftarrow> load64 pdu off_total;
        Some (rm\<lparr>rmsg_type := ucast mt,
                 dest_uname := (if ucast mt \<noteq> (ucast MT_REQ :: u32) then subj[UNAMESIZE - 1 := 0] else dest_uname rm),
                 expected_msg_size := total,
                 total_msg_data_recved := ucast (off_of rm) - of_nat LWMP_HDR_SIZE\<rparr>) })"

definition inb_body :: "addr \<Rightarrow> worker \<Rightarrow> phase" where
  "inb_body c w = receive c False True
     (\<lambda>rm. ucast (off_of rm) < min (of_nat LWMP_HDR_SIZE + expected_msg_size rm) (ucast (size_of rm)))
     (\<lambda>rm. min (expected_msg_size rm - total_msg_data_recved rm) (ucast (size_of rm - off_of rm)))
     (Some WT_STOP_EBLK) w"

definition inb_chunk_data :: "addr \<Rightarrow> worker \<Rightarrow> phase" where
  "inb_chunk_data c w = receive c False True
     (\<lambda>rm. total_msg_data_recved rm < expected_msg_size rm \<and> off_of rm < of_nat LWMP_CHUNK_BUF_SIZE)
     (\<lambda>rm. min (expected_msg_size rm - total_msg_data_recved rm) (ucast (of_nat LWMP_CHUNK_BUF_SIZE - off_of rm :: u32)))
     (Some WT_STOP_EBLK) w"

subsection \<open>Validation and forwarding\<close>

definition hvfns :: "worker \<Rightarrow> (htable \<times> node_store \<times> std_store) hdr_validation_fns" where
  "hvfns w = \<lparr>subj_valid_fn = validate_recipient, req_valid_fn = validate_request,
     allow_file_transfers = (allow_file_transfers_flag (cfg w) \<noteq> 0),
     max_filesize_b = Servcfg.max_filesize_b (cfg w)\<rparr>"

definition forward_pdu :: "addr \<Rightarrow> addr \<Rightarrow> worker \<Rightarrow> worker option" where
  "forward_pdu c rcpt w =
     (case alloc_msg (Some (rbuf (recvbuf (rcv w c)))) (unat (off_of (rcv w c))) (Some (username (cls w c))) w of
        (m, w) \<Rightarrow> do {
          b \<leftarrow> mem_write (buf (msgs w m)) off_subject (strncpy_bytes (username (cls w c)) UNAMESIZE);
          b \<leftarrow> store_crc b;
          put_client rcpt (enqueue_userdata rcpt m (set_msg_buf m b w)) })"

definition forward_chunk :: "addr \<Rightarrow> addr \<Rightarrow> worker \<Rightarrow> worker option" where
  "forward_chunk c rcpt w =
     (let off = off_of (rcv w c) in
      case alloc_msg None (LWMP_CHUNK_HDR_SIZE + unat off) (Some (username (cls w c))) w of
        (m, w) \<Rightarrow> do {
          b \<leftarrow> lwmp_prepare_chunk (buf (msgs w m)) (ucast off) (username (cls w c)) (rbuf (recvbuf (rcv w c)));
          put_client rcpt (enqueue_userdata rcpt m (set_msg_buf m b w)) })"

text \<open>The end of a first PDU: the message is complete, or chunks follow.\<close>

definition finish_pdu :: "addr \<Rightarrow> worker \<Rightarrow> phase" where
  "finish_pdu c w =
     (let rm = rcv w c in
      Some (Some WT_STOP_BORDER,
        set_rcv c (if total_msg_data_recved rm = expected_msg_size rm then reset_msg rm
                   else rm\<lparr>not_msg_init_pdu := True\<rparr>) w))"

definition respond_unreachable :: "addr \<Rightarrow> worker \<Rightarrow> worker option" where
  "respond_unreachable c w = respond c RESP_DCONN_SUBJ (Some (unreachable_text (dest_uname (rcv w c)))) w"

definition inb_validate :: "addr \<Rightarrow> worker \<Rightarrow> phase" where
  "inb_validate c w =
     (case lwmp_validate_hdrs (rbuf (recvbuf (rcv w c))) (std_cl_table w, nds w, cls w) (dest_uname (rcv w c)) (hvfns w) of
        None \<Rightarrow> None
      | Some hdr_val_res \<Rightarrow>
          (case respond c (resp_codes hdr_val_res) None w of
             None \<Rightarrow> None
           | Some w \<Rightarrow>
               if hdr_val_res \<noteq> HV_OK
               then Some (Some WT_STOP_BORDER,
                      set_rcv c ((reset_msg (rcv w c))\<lparr>is_desynced := (hdr_val_res = HV_CRCERR)\<rparr>) w)
               else if rmsg_type (rcv w c) = ucast MT_REQ
               then (case answer_request c w of None \<Rightarrow> None | Some w \<Rightarrow> finish_pdu c w)
               else (case get_connected (dest_uname (rcv w c)) w of
                   None \<Rightarrow> None
                 | Some (None, w) \<Rightarrow>
                     (case respond_unreachable c w of
                        None \<Rightarrow> None
                      | Some w \<Rightarrow> Some (Some WT_STOP_EBLK, set_rcv c (reset_msg (rcv w c)) w))
                 | Some (Some rcpt, w) \<Rightarrow>
                     (case forward_pdu c rcpt w of
                        None \<Rightarrow> None
                      | Some w \<Rightarrow> finish_pdu c (set_rcv c (set_offset 0 (rcv w c)) w)))))"

definition inb_first_pdu :: "addr \<Rightarrow> worker \<Rightarrow> phase" where
  "inb_first_pdu c w =
     and_then (inb_header c w) (\<lambda>w.
       case parse_header (rcv w c) of
         None \<Rightarrow> None
       | Some rm \<Rightarrow>
           and_then (inb_body c (set_rcv c rm w)) (\<lambda>w.
             if total_msg_data_recved (rcv w c) \<ge> expected_msg_size (rcv w c) \<or> off_of (rcv w c) = size_of (rcv w c)
             then inb_validate c w
             else Some (Some WT_STOP_BORDER, w)))"

definition inb_chunk :: "addr \<Rightarrow> worker \<Rightarrow> phase" where
  "inb_chunk c w =
     and_then (inb_chunk_data c w) (\<lambda>w.
       case get_connected (dest_uname (rcv w c)) w of
         None \<Rightarrow> None
       | Some (None, w) \<Rightarrow>
           (case respond_unreachable c w of
              None \<Rightarrow> None
            | Some w \<Rightarrow> Some (Some WT_STOP_EBLK, set_rcv c ((reset_msg (rcv w c))\<lparr>is_desynced := True\<rparr>) w))
       | Some (Some rcpt, w) \<Rightarrow>
           (case forward_chunk c rcpt w of
              None \<Rightarrow> None
            | Some w \<Rightarrow>
                let rm = set_offset 0 (rcv w c) in
                Some (Some WT_STOP_BORDER,
                  set_rcv c (if expected_msg_size rm = total_msg_data_recved rm then reset_msg rm else rm) w)))"

definition wt_handle_inbound_data :: "addr \<Rightarrow> worker \<Rightarrow> (wt_inb_data_status \<times> worker) option" where
  "wt_handle_inbound_data c w =
     (if \<not> live w c then None
      else if cl_state (cls w c) = DISCONNECTED then Some (WT_DCONN, w)
      else case and_then (inb_resync c w)
             (\<lambda>w. if \<not> not_msg_init_pdu (rcv w c) then inb_first_pdu c w else inb_chunk c w) of
        Some (Some st, w) \<Rightarrow> Some (st, w)
      | _ \<Rightarrow> None)"

subsection \<open>What the inbound path leaves alone\<close>

text \<open>The parts of the state that no step of the inbound path changes, and the fields of a client likewise.\<close>

definition kept :: "worker \<Rightarrow> _" where
  "kept w = (nds w, std_cl_table w, preauth_list w, clth w, (std_ipblock_tbl w, ipb_recs w, ip_whitelist_tbl w, wl_recs w),
     (cfg w, now w, thrd_id w, efd_ok w, garbage w, accepts w))"

definition cl_kept :: "std_client \<Rightarrow> _" where
  "cl_kept s = (sock_fd s, timerheap_index s, auth_deadline s, peer_name s, username s, owner_thrd_id s)"

definition cl_own :: "std_client \<Rightarrow> _" where
  "cl_own s = (temp_recv_storage s, cl_state s, temp_send_storage s, pending_ctrl_queue s)"

definition armed :: "worker \<Rightarrow> addr \<Rightarrow> _" where
  "armed w c = (sock_events w c, queue_events w c)"

text \<open>Whether the socket and the queue of a client are out of watch.\<close>

definition unwatched :: "worker \<Rightarrow> addr \<Rightarrow> bool \<times> bool" where
  "unwatched w c = (sock_events w c = None, queue_events w c = None)"

lemma epoll_mod_None [simp]: "epoll_mod c e evs x = None \<longleftrightarrow> evs x = None"
  by (simp add: epoll_mod_def)

lemma epoll_mod_other [simp]: "x \<noteq> c \<Longrightarrow> epoll_mod c e evs x = evs x"
  by (simp add: epoll_mod_def)

text \<open>A step on behalf of client \<open>c\<close>: messages older than address \<open>n\<close> keep their contents, other clients
  keep their state (their queue of user data may grow), and \<open>c\<close> may only become disconnected, which puts it into
  the array of clients to sweep and ends the watch on it.\<close>

definition inb_frame :: "nat \<Rightarrow> addr \<Rightarrow> worker \<Rightarrow> worker \<Rightarrow> bool" where
  "inb_frame n c w w' \<longleftrightarrow> kept w' = kept w \<and> next_addr w \<le> next_addr w' \<and>
     (\<forall>m < n. same_payload (msgs w m) (msgs w' m) \<and> msg_freed (msgs w' m) = msg_freed (msgs w m)) \<and>
     (\<forall>x. cl_kept (cls w' x) = cl_kept (cls w x)) \<and> (\<forall>x. x \<noteq> c \<longrightarrow> cl_own (cls w' x) = cl_own (cls w x)) \<and>
     (\<forall>x. x \<noteq> c \<longrightarrow> armed w' x = armed w x) \<and>
     (cl_state (cls w' c) = cl_state (cls w c) \<and> dconn_clients w' = dconn_clients w \<and> unwatched w' c = unwatched w c \<or>
      cl_state (cls w c) = AUTHENTICATED \<and> cl_state (cls w' c) = DISCONNECTED \<and>
      dconn_clients w' = node_arr_add (dconn_clients w) c \<and> unwatched w' c = (True, True))"

lemma inb_frame_refl: "inb_frame n c w w"
  by (simp add: inb_frame_def)

lemma inb_frame_trans: "inb_frame n c w w1 \<Longrightarrow> inb_frame n c w1 w2 \<Longrightarrow> inb_frame n c w w2"
  unfolding inb_frame_def by (auto intro: same_payload_trans)

definition logged :: "addr \<Rightarrow> worker \<Rightarrow> bool" where
  "logged c w \<longleftrightarrow> live w c \<and> cl_state (cls w c) \<in> {AUTHENTICATED, DISCONNECTED} \<and> client_table (nds w) (std_cl_table w) \<and>
     0 < next_addr w \<and> element_count (std_cl_table w) \<le> 2 ^ 26 \<and>
     (\<forall>n \<in> ht_nodes (std_cl_table w). length (username (cls w n)) = UNAMESIZE)"

lemma logged_frame: "logged c w \<Longrightarrow> inb_frame n c w w' \<Longrightarrow> logged c w'"
  by (auto simp: logged_def inb_frame_def kept_def cl_kept_def live_def)

text \<open>A step on behalf of \<open>c\<close> that does not touch its receive storage.\<close>

definition quiet_step :: "nat \<Rightarrow> addr \<Rightarrow> worker \<Rightarrow> worker \<Rightarrow> bool" where
  "quiet_step n c w w' \<longleftrightarrow> inb_frame n c w w' \<and> rcv w' c = rcv w c \<and> inputs w' = inputs w"

lemma quiet_refl: "quiet_step n c w w"
  by (simp add: quiet_step_def inb_frame_refl)

lemma quiet_trans: "quiet_step n c w w1 \<Longrightarrow> quiet_step n c w1 w2 \<Longrightarrow> quiet_step n c w w2"
  unfolding quiet_step_def using inb_frame_trans by metis

lemma logged_quiet: "logged c w \<Longrightarrow> quiet_step n c w w' \<Longrightarrow> logged c w'"
  by (auto simp: quiet_step_def intro: logged_frame)

lemmas frame_defs = inb_frame_def quiet_step_def kept_def cl_kept_def cl_own_def armed_def unwatched_def

lemma enqueue_payload:
  "mpscq_enqueue q s m = (q', s') \<Longrightarrow> same_payload (s x) (s' x) \<and> msg_freed (s' x) = msg_freed (s x)"
  by (auto simp: mpscq_enqueue_def Let_def same_payload_def split: if_splits)

lemma cleanup_logged:
  assumes "logged c w"
  shows "\<exists>w'. cleanup_std_client c w = Some w' \<and> quiet_step n c w w' \<and> cl_state (cls w' c) = DISCONNECTED \<and>
    msgs w' = msgs w"
  using assms
  by (auto simp: logged_def cleanup_std_client_def Let_def upd_cl_def forget_socket_def forget_queue_def frame_defs)

lemma set_rcv_frame: "inb_frame n c w (set_rcv c rm w)"
  by (simp add: set_rcv_def upd_cl_def frame_defs)

lemma rcv_set_rcv [simp]: "rcv (set_rcv c rm w) c = rm"
  by (simp add: set_rcv_def upd_cl_def)

lemma enqueue_ctrl_quiet: "quiet_step n c w (enqueue_ctrl c m w)"
  using enqueue_payload [of "pending_ctrl_queue (cls w c)" "msgs w" m]
  by (auto simp: enqueue_ctrl_def upd_cl_def frame_defs split: prod.splits)

lemma enqueue_userdata_quiet: "quiet_step n c w (enqueue_userdata r m w)"
  using enqueue_payload [of "pending_userdata_queue (cls w r)" "msgs w" m]
  by (auto simp: enqueue_userdata_def upd_cl_def frame_defs split: prod.splits)

lemma send_storage_quiet:
  assumes "n \<le> temp_send_storage (cls w c)" and "temp_send_storage (cls w c) \<noteq> 0"
    and "\<not> msg_freed (msgs w (temp_send_storage (cls w c)))" and "node_ok (msgs w (temp_send_storage (cls w c)))"
  shows "\<exists>e w'. send_storage first c w = Some (e, w') \<and> quiet_step n c w w' \<and>
    temp_send_storage (cls w' c) = temp_send_storage (cls w c)"
  using send_while_correct [OF assms(4), of first "outputs w c" "sent w c"] assms(1-3)
  by (auto simp: send_storage_def Let_def frame_defs)

lemma drop_storage_quiet: "n \<le> temp_send_storage (cls w c) \<Longrightarrow> quiet_step n c w (drop_storage c w)"
  by (auto simp: drop_storage_def free_msg_def upd_cl_def frame_defs)

lemma serve_response_quiet:
  assumes "logged c w" and "n \<le> m" and "m \<noteq> 0" and "\<not> msg_freed (msgs w m)" and "node_ok (msgs w m)"
  shows "\<exists>w'. wt_serve_response c m w = Some w' \<and> quiet_step n c w w'"
proof (cases "temp_send_storage (cls w c) = 0")
  case True
  define w0 where "w0 = upd_cl c (\<lambda>s. s\<lparr>temp_send_storage := m\<rparr>) w"
  have q0: "quiet_step n c w w0" by (simp add: w0_def upd_cl_def frame_defs)
  have m: "temp_send_storage (cls w0 c) = m" "msgs w0 = msgs w" by (simp_all add: w0_def upd_cl_def)
  obtain e w1 where w1: "send_storage True c w0 = Some (e, w1)" "quiet_step n c w0 w1"
    "temp_send_storage (cls w1 c) = m"
    using send_storage_quiet [of n w0 c True] assms(2-5) m by auto
  have q1: "quiet_step n c w w1" by (rule quiet_trans [OF q0 w1(2)])
  have "live w c" using assms(1) by (simp add: logged_def)
  then have eq: "wt_serve_response c m w = (case e of
      Serr \<Rightarrow> cleanup_std_client c w1
    | Sblock \<Rightarrow> Some (w1\<lparr>sock_events := epoll_mod c (True, True) (sock_events w1)\<rparr>)
    | Sdone \<Rightarrow> Some (drop_storage c w1))"
    using True w1(1) by (cases e) (simp_all add: wt_serve_response_def w0_def)
  show ?thesis
  proof (cases e)
    case Serr
    then show ?thesis
      unfolding eq using cleanup_logged [OF logged_quiet [OF assms(1) q1], of n] quiet_trans [OF q1] by auto
  next
    case Sblock
    then show ?thesis
      unfolding eq using quiet_trans [OF q1, of "w1\<lparr>sock_events := epoll_mod c (True, True) (sock_events w1)\<rparr>"]
      by (simp add: frame_defs)
  next
    case Sdone
    then show ?thesis unfolding eq using quiet_trans [OF q1 drop_storage_quiet] w1(3) assms(2) by simp
  qed
qed (use assms(1) enqueue_ctrl_quiet in \<open>simp add: wt_serve_response_def logged_def\<close>)

lemma new_response_ok:
  assumes "response_size t \<le> sz" and "sz < 2 ^ 32" and "n \<le> next_addr w"
  shows "\<exists>w'. new_response sz mt code t w = Some (next_addr w, w') \<and> quiet_step n c w w' \<and>
    \<not> msg_freed (msgs w' (next_addr w)) \<and> node_ok (msgs w' (next_addr w)) \<and>
    length (buf (msgs w' (next_addr w))) = sz \<and> next_addr w < next_addr w' \<and>
    is_response (buf (msgs w' (next_addr w))) mt (padded_optional (Some (be32 code)) 4) t"
proof -
  obtain m w1 where al: "alloc_msg None sz None w = (m, w1)" by fastforce
  have m: "m = next_addr w" "length (buf (msgs w1 m)) = sz" "buf_size (msgs w1 m) = sz" "buf_offset (msgs w1 m) = 0"
    "\<not> msg_freed (msgs w1 m)" "next_addr w < next_addr w1" "quiet_step n c w w1"
    using al assms(2,3) by (auto simp: alloc_msg_def msg_node_create_def Let_def frame_defs)
  have "response_size t \<le> length (buf (msgs w1 m))" using assms(1) m(2) by simp
  from lwmp_prepare_response_ok [OF this, of 4 "Some (be32 code)" mt] obtain b where
    b: "lwmp_prepare_response (buf (msgs w1 m)) mt (Some (be32 code)) 4 t = Some b" "length b = sz"
      "is_response b mt (padded_optional (Some (be32 code)) 4) t" using m(2) by auto
  define w2 where "w2 = set_msg_buf m b w1"
  have "quiet_step n c w1 w2" using assms(3) m(1) by (auto simp: w2_def set_msg_buf_def frame_defs)
  with m(7) have q: "quiet_step n c w w2" by (rule quiet_trans)
  have "new_response sz mt code t w = Some (m, w2)" using al b(1) by (simp add: new_response_def w2_def)
  with q b(2,3) m show ?thesis
    by (intro exI [of _ w2]) (auto simp: w2_def set_msg_buf_def node_ok_def assms(2)[simplified])
qed

lemma respond_quiet:
  assumes "logged c w" and "n \<le> next_addr w" and "\<And>t. t_opt = Some t \<Longrightarrow> length t < 1024"
  shows "\<exists>w'. respond c code t_opt w = Some w' \<and> quiet_step n c w w'"
proof -
  define sz where "sz = (case t_opt of None \<Rightarrow> LWMP_HDR_SIZE | Some t \<Rightarrow> LWMP_HDR_SIZE + length t + 1)"
  have "response_size t_opt \<le> sz" "sz < 2 ^ 32"
    using assms(3) by (fastforce simp: response_size_def sz_def response_textlen_def split: option.splits)+
  from new_response_ok [OF this assms(2)] obtain w1 where
    w1: "new_response sz MT_INFO code t_opt w = Some (next_addr w, w1)" "quiet_step n c w w1"
      "\<not> msg_freed (msgs w1 (next_addr w))" "node_ok (msgs w1 (next_addr w))" by blast
  have l1: "logged c w1" by (rule logged_quiet [OF assms(1) w1(2)])
  have "next_addr w \<noteq> 0" using assms(1) by (simp add: logged_def)
  from serve_response_quiet [OF l1 assms(2) this w1(3,4)] obtain w2 where
    "wt_serve_response c (next_addr w) w1 = Some w2" "quiet_step n c w1 w2" by blast
  then show ?thesis using w1(1,2) quiet_trans by (auto simp: respond_def sz_def)
qed

text \<open>The message that goes to the recipient: the PDU with the sender in place of the recipient and a new CRC,
  and nothing else changed.\<close>

definition forwarded :: "byte list \<Rightarrow> byte list \<Rightarrow> byte list \<Rightarrow> bool" where
  "forwarded pdu sender b \<longleftrightarrow> length b = length pdu \<and> pdu_header_intact b \<and>
     mem_read b off_subject UNAMESIZE = Some (strncpy_bytes sender UNAMESIZE) \<and>
     (\<forall>p k. p + k \<le> off_subject \<or> off_optional \<le> p \<and> p + k \<le> off_crc32 \<or> off_buf \<le> p \<longrightarrow>
        mem_read b p k = mem_read pdu p k)"

text \<open>A chunk as the recipient gets it.\<close>

definition chunk_of :: "byte list \<Rightarrow> byte list \<Rightarrow> byte list \<Rightarrow> bool" where
  "chunk_of data sender b \<longleftrightarrow> length b = LWMP_CHUNK_HDR_SIZE + length data \<and>
     load32 b 0 = Some CHUNK_SYNC_HDR_MARK \<and> load16 b off_chunk_size = Some (of_nat (length data)) \<and>
     mem_read b off_chunk_subject UNAMESIZE = Some (strncpy_bytes sender UNAMESIZE) \<and>
     mem_read b off_chunk_payload (length data) = Some data"

text \<open>The new node of a forwarded message, as it is put into the recipient's queue.\<close>

definition message_node :: "byte list \<Rightarrow> byte list \<Rightarrow> mpsc_msg_node" where
  "message_node b sender = \<lparr>msg_next = 0, msg_prev = 0, buf = b, buf_size = length b, buf_offset = 0,
     subject_name = strncpy_bytes sender UNAMESIZE, msg_freed = False\<rparr>"

definition deliver :: "addr \<Rightarrow> mpsc_msg_node \<Rightarrow> worker \<Rightarrow> worker" where
  "deliver r m w = enqueue_userdata r (next_addr w) (w\<lparr>next_addr := next_addr w + 1, msgs := (msgs w)(next_addr w := m)\<rparr>)"

lemma deliver_quiet:
  assumes "n \<le> next_addr w"
  shows "quiet_step n c w (deliver r m w)"
proof -
  have "quiet_step n c w (w\<lparr>next_addr := next_addr w + 1, msgs := (msgs w)(next_addr w := m)\<rparr>)"
    using assms by (auto simp: frame_defs)
  then show ?thesis unfolding deliver_def using enqueue_userdata_quiet quiet_trans by blast
qed

lemma enqueue_userdata_nds: "enqueue_userdata r m (w\<lparr>nds := s\<rparr>) = (enqueue_userdata r m w)\<lparr>nds := s\<rparr>"
  by (simp add: enqueue_userdata_def upd_cl_def split: prod.splits)

lemma nds_enqueue_userdata [simp]: "nds (enqueue_userdata r m w) = nds w"
  by (simp add: enqueue_userdata_def upd_cl_def split: prod.splits)

lemma worker_update_order: "w\<lparr>nds := s, next_addr := a, msgs := ms\<rparr> = (w :: worker)\<lparr>next_addr := a, msgs := ms, nds := s\<rparr>"
  by simp

lemma put_client_get:
  assumes "nds w' = nds w" and "ref_cnt (nds w r) \<noteq> 0"
  shows "put_client r (w'\<lparr>nds := node_get (nds w) r\<rparr>) = Some w'"
proof -
  have "freed (node_get (nds w) r r) = freed (nds w r)" by (simp add: node_get_def)
  then show ?thesis
    using node_put_get [where s = "nds w" and n = r, OF assms(2)] by (simp add: put_client_def Let_def) (simp flip: assms(1))
qed

lemma unat_u32_less: "unat (x :: u32) < 2 ^ 32"
  using unsigned_less [of x, where ?'a = nat] by simp

lemma forward_pdu_ok:
  assumes "ref_cnt (nds w r) \<noteq> 0" and "pdu = take (unat (off_of (rcv w c))) (rbuf (recvbuf (rcv w c)))"
    and "length pdu = unat (off_of (rcv w c))" and "LWMP_HDR_SIZE \<le> length pdu"
    and "load32 pdu off_hdr_mark = Some PDU_SYNC_HDR_MARK"
  shows "\<exists>b. forward_pdu c r (w\<lparr>nds := node_get (nds w) r\<rparr>) = Some (deliver r (message_node b (username (cls w c))) w) \<and>
    forwarded pdu (username (cls w c)) b"
proof -
  define nm where "nm = strncpy_bytes (username (cls w c)) 32"
  obtain p1 where p1: "mem_write pdu 5 nm = Some p1" "length p1 = length pdu"
    using mem_write_exists [of 5 nm pdu] assms(4) by (auto simp: nm_def)
  have f1: "mem_read p1 p k = mem_read pdu p k" if "p + k \<le> 5 \<or> 37 \<le> p" for p k
    by (rule mem_read_write_other [OF p1(1)]) (use that in \<open>auto simp: nm_def\<close>)
  have m: "load32 p1 0 = Some PDU_SYNC_HDR_MARK" using f1 [of 0 4] assms(5) by (simp add: load32_def)
  have "81 \<le> length p1" using assms(4) p1(2) by simp
  then obtain b where b: "store_crc p1 = Some b" "length b = length p1" "pdu_header_intact b"
    "\<And>p k. p + k \<le> 77 \<or> 81 \<le> p \<Longrightarrow> mem_read b p k = mem_read p1 p k"
    by (rule store_crc_correct [OF _ m]) blast
  have "mem_read b 5 32 = Some nm"
    using b(4) [of 5 32] mem_read_write_same [OF p1(1), of 32] by (simp add: nm_def)
  then have fw: "forwarded pdu (username (cls w c)) b"
    using b p1(2) f1 by (auto simp: forwarded_def nm_def)
  define w1 where "w1 = w\<lparr>next_addr := next_addr w + 1, msgs := (msgs w)(next_addr w := message_node b (username (cls w c)))\<rparr>"
  have sz: "length b mod 2 ^ 32 = length b" using b(2) p1(2) assms(3) unat_u32_less [of "off_of (rcv w c)"] by simp
  have al: "alloc_msg (Some (rbuf (recvbuf (rcv w c)))) (unat (off_of (rcv w c))) (Some (username (cls w c)))
      (w\<lparr>nds := node_get (nds w) r\<rparr>) = (next_addr w, w0)"
    if "w0 = w\<lparr>nds := node_get (nds w) r, next_addr := next_addr w + 1,
      msgs := (msgs w)(next_addr w := (message_node b (username (cls w c)))\<lparr>buf := pdu\<rparr>)\<rparr>" for w0
    using that sz b(2) p1(2) assms(2,3)
    by (simp add: alloc_msg_def msg_node_create_def Let_def message_node_def)
  have "forward_pdu c r (w\<lparr>nds := node_get (nds w) r\<rparr>) =
      put_client r (enqueue_userdata r (next_addr w) (w1\<lparr>nds := node_get (nds w) r\<rparr>))"
    using p1(1) b(1) by (simp add: forward_pdu_def al nm_def set_msg_buf_def w1_def) (simp add: message_node_def worker_update_order)
  also have "\<dots> = put_client r ((enqueue_userdata r (next_addr w) w1)\<lparr>nds := node_get (nds w) r\<rparr>)"
    by (simp add: enqueue_userdata_nds)
  also have "\<dots> = Some (deliver r (message_node b (username (cls w c))) w)"
    unfolding deliver_def w1_def [symmetric] by (rule put_client_get) (simp_all add: assms(1) w1_def)
  finally show ?thesis using fw by blast
qed

lemma forward_chunk_ok:
  assumes "ref_cnt (nds w r) \<noteq> 0" and "unat (off_of (rcv w c)) \<le> LWMP_CHUNK_BUF_SIZE"
    and "LWMP_CHUNK_BUF_SIZE \<le> length (rbuf (recvbuf (rcv w c)))"
    and "data = take (unat (off_of (rcv w c))) (rbuf (recvbuf (rcv w c)))"
  shows "\<exists>b. forward_chunk c r (w\<lparr>nds := node_get (nds w) r\<rparr>) = Some (deliver r (message_node b (username (cls w c))) w) \<and>
    chunk_of data (username (cls w c)) b"
proof -
  define off where "off = off_of (rcv w c)"
  define g where "g = map (garbage w (next_addr w)) [0..<38 + unat off]"
  have n: "unat (ucast off :: u16) = unat off" "length data = unat off"
    using assms(2,3,4) by (simp_all add: off_def unsigned_ucast_eq take_bit_eq_mod)
  have le: "unat (ucast off :: u16) \<le> 4058" "38 + unat (ucast off :: u16) \<le> length g"
    "unat (ucast off :: u16) \<le> length (rbuf (recvbuf (rcv w c)))"
    using assms(2,3) n(1) by (simp_all add: off_def g_def)
  from lwmp_prepare_chunk_correct [OF le, of "username (cls w c)"] obtain b where
    b: "lwmp_prepare_chunk g (ucast off) (username (cls w c)) (rbuf (recvbuf (rcv w c))) = Some b" "length b = length g"
      "load32 b 0 = Some CHUNK_SYNC_HDR_MARK" "load16 b 4 = Some (ucast off)"
      "mem_read b 6 32 = Some (strncpy_bytes (username (cls w c)) 32)"
      "mem_read b 38 (unat (ucast off :: u16)) = Some (take (unat (ucast off :: u16)) (rbuf (recvbuf (rcv w c))))" by blast
  have "of_nat (unat off) = (ucast off :: u16)" by simp
  then have ck: "chunk_of data (username (cls w c)) b"
    using b n assms(4) by (simp add: chunk_of_def g_def off_def)
  define w1 where "w1 = w\<lparr>next_addr := next_addr w + 1, msgs := (msgs w)(next_addr w := message_node b (username (cls w c)))\<rparr>"
  have sz: "(38 + unat off) mod 2 ^ 32 = length b" using assms(2) b(2) by (simp add: off_def g_def)
  have "forward_chunk c r (w\<lparr>nds := node_get (nds w) r\<rparr>) =
      put_client r (enqueue_userdata r (next_addr w) (w1\<lparr>nds := node_get (nds w) r\<rparr>))"
    using b(1) sz
    by (simp add: forward_chunk_def alloc_msg_def msg_node_create_def Let_def off_def [symmetric] g_def set_msg_buf_def w1_def)
      (simp add: message_node_def worker_update_order)
  also have "\<dots> = put_client r ((enqueue_userdata r (next_addr w) w1)\<lparr>nds := node_get (nds w) r\<rparr>)"
    by (simp add: enqueue_userdata_nds)
  also have "\<dots> = Some (deliver r (message_node b (username (cls w c))) w)"
    unfolding deliver_def w1_def [symmetric] by (rule put_client_get) (simp_all add: assms(1) w1_def)
  finally show ?thesis using ck by blast
qed

lemma get_connected_ok:
  assumes "logged c w"
  shows "get_connected nm w =
    (case (if cstr nm = [] then None else ht_map (nds w) (std_cl_table w) (cstr nm)) of
       Some n \<Rightarrow> if is_not_disconnected (cls w) n then Some (Some n, w\<lparr>nds := node_get (nds w) n\<rparr>) else Some (None, w)
     | None \<Rightarrow> Some (None, w))"
proof -
  have "client_table (nds w) (std_cl_table w)" using assms by (simp add: logged_def)
  moreover define r where "r = (if cstr nm = [] then None else ht_map (nds w) (std_cl_table w) (cstr nm))"
  ultimately show ?thesis
    using find_client [of "nds w" "std_cl_table w" nm "cls w", folded r_def]
    unfolding r_def [symmetric] by (cases r) (auto simp: get_connected_def)
qed

text \<open>The client that a name stands for, if it is connected.\<close>

definition connected :: "byte list \<Rightarrow> worker \<Rightarrow> addr option" where
  "connected nm w =
     (case (if cstr nm = [] then None else ht_map (nds w) (std_cl_table w) (cstr nm)) of
        Some n \<Rightarrow> if is_not_disconnected (cls w) n then Some n else None
      | None \<Rightarrow> None)"

lemma get_connected_cases:
  assumes "logged c w"
  shows "get_connected nm w = (case connected nm w of
      None \<Rightarrow> Some (None, w) | Some n \<Rightarrow> Some (Some n, w\<lparr>nds := node_get (nds w) n\<rparr>))"
  unfolding get_connected_ok [OF assms] connected_def by (simp split: option.splits)

lemma connected_in_table:
  assumes "connected nm w = Some n"
  shows "n \<in> ht_nodes (std_cl_table w)"
  using assms unfolding connected_def
  by (auto simp: ht_map_def ht_nodes_def split: option.splits if_splits dest!: find_SomeD)

lemma connected_ref:
  assumes "logged c w" and "connected nm w = Some n"
  shows "ref_cnt (nds w n) \<noteq> 0"
  using connected_in_table [OF assms(2)] assms(1) by (auto simp: logged_def client_table_def)

lemma user_list_length:
  assumes "length ns \<le> k" and "\<And>n. n \<in> set ns \<Longrightarrow> length (f n) \<le> 32"
  shows "length (concat (map (\<lambda>n. f n @ [0 :: byte]) ns)) \<le> 33 * k"
proof -
  have "length (concat (map (\<lambda>n. f n @ [0]) ns)) \<le> 33 * length ns"
    using assms(2) by (induction ns) (simp, fastforce)
  then show ?thesis using assms(1) by linarith
qed

lemma handle_request_ok:
  assumes "logged c w" and "LWMP_HDR_SIZE \<le> length pdu"
  shows "\<exists>reqbuf. handle_request pdu w = Some reqbuf \<and> length reqbuf < 2 ^ 32 - 128"
proof -
  define ns where "ns = filter (is_not_disconnected (cls w)) (concat (buckets (std_cl_table w)))"
  have ok: "ht_ok name_ok (nds w) (std_cl_table w)" using assms(1) by (simp add: logged_def client_table_def)
  have "length (concat (buckets (std_cl_table w))) \<le> 2 ^ 26"
    using assms(1) ok by (simp add: logged_def ht_ok_def)
  then have "length ns \<le> 2 ^ 26" unfolding ns_def using length_filter_le le_trans by blast
  moreover have "length (cstr (username (cls w n))) \<le> 32" if "n \<in> set ns" for n
  proof -
    have "length (username (cls w n)) = 32"
      using assms(1) that by (auto simp: logged_def ht_nodes_def ns_def)
    then show ?thesis using length_takeWhile_le [of "\<lambda>b. b \<noteq> 0" "username (cls w n)"] by simp
  qed
  ultimately have "length (concat (map (\<lambda>n. cstr (username (cls w n)) @ [0]) ns)) \<le> 33 * 2 ^ 26"
    by (rule user_list_length)
  moreover obtain tr where "htable_copy_all_keys (node_copy_username (cls w)) (std_cl_table w) =
      Some (concat (map (\<lambda>n. cstr (username (cls w n)) @ [0]) ns), tr)"
    using user_list_copied [OF ok, of "cls w"] by (auto simp: ns_def)
  moreover have "load32 pdu 37 = Some (of_be32 (take 4 (drop 37 pdu)))" using assms(2) by (simp add: load32_Some)
  ultimately show ?thesis by (simp add: handle_request_def)
qed

lemma serve_user_list_quiet:
  assumes "logged c w" and "n \<le> next_addr w" and "length reqbuf < 2 ^ 32 - 128"
  shows "\<exists>w'. serve_user_list c reqbuf w = Some w' \<and> quiet_step n c w w'"
proof -
  define m where "m = next_addr w"
  define sz where "sz = 81 + length reqbuf"
  have "response_size None \<le> sz" "sz < 2 ^ 32" using assms(3) by (simp_all add: response_size_def sz_def)
  from new_response_ok [OF this assms(2), of MT_REQ RESP_OK c, folded m_def] obtain w1 where
    w1: "new_response sz MT_REQ RESP_OK None w = Some (m, w1)" "quiet_step n c w w1"
      "\<not> msg_freed (msgs w1 m)" "node_ok (msgs w1 m)" "length (buf (msgs w1 m)) = sz" by blast
  obtain b1 where b1: "mem_write (buf (msgs w1 m)) 81 reqbuf = Some b1" "length b1 = sz"
    using mem_write_exists [of 81 reqbuf "buf (msgs w1 m)"] w1(5) by (auto simp: sz_def)
  obtain b2 where b2: "mem_write b1 69 (be64 (of_nat (length reqbuf))) = Some b2" "length b2 = sz"
    using mem_write_exists [of 69 "be64 (of_nat (length reqbuf))" b1] b1(2) by (auto simp: sz_def)
  have "mem_read b2 0 77 = Some (take 77 b2)" using b2(2) by (simp add: mem_read_def sz_def)
  moreover obtain b3 where b3: "mem_write b2 77 (be32 (crc32 (take 77 b2))) = Some b3" "length b3 = sz"
    using mem_write_exists [of 77 "be32 (crc32 (take 77 b2))" b2] b2(2) by (auto simp: sz_def)
  ultimately have cr: "store_crc b2 = Some b3" by (simp add: store_crc_def)
  define w2 where "w2 = set_msg_buf m b3 w1"
  have "quiet_step n c w1 w2" using assms(2) by (auto simp: w2_def set_msg_buf_def m_def frame_defs)
  with w1(2) have q: "quiet_step n c w w2" by (rule quiet_trans)
  have "m \<noteq> 0" using assms(1) by (simp add: logged_def m_def)
  moreover have "\<not> msg_freed (msgs w2 m)" "node_ok (msgs w2 m)"
    using w1(3,4,5) b3(2) by (simp_all add: w2_def set_msg_buf_def node_ok_def)
  ultimately obtain w3 where "wt_serve_response c m w2 = Some w3" "quiet_step n c w2 w3"
    using serve_response_quiet [OF logged_quiet [OF assms(1) q], of n m] assms(2) by (auto simp: m_def)
  then show ?thesis
    using w1(1) b1(1) b2(1) cr quiet_trans [OF q] by (auto simp: serve_user_list_def sz_def w2_def)
qed

lemma answer_request_quiet:
  assumes "logged c w" and "n \<le> next_addr w" and "LWMP_HDR_SIZE \<le> length (rbuf (recvbuf (rcv w c)))"
  shows "\<exists>w'. answer_request c w = Some w' \<and> quiet_step n c w w'"
proof -
  from handle_request_ok [OF assms(1,3)] obtain rb where
    rb: "handle_request (rbuf (recvbuf (rcv w c))) w = Some rb" "length rb < 2 ^ 32 - 128" by blast
  have "length (lit ''Failed to process request.'') < 1024" by (simp add: lit_def)
  then show ?thesis
    using respond_quiet [OF assms(1,2), of "Some (lit ''Failed to process request.'')" RESP_INVAL_REQ]
      serve_user_list_quiet [OF assms(1,2) rb(2)] rb(1)
    by (cases "rb = []") (simp_all add: answer_request_def)
qed

lemma respond_unreachable_quiet:
  assumes "logged c w" and "n \<le> next_addr w"
  shows "\<exists>w'. respond_unreachable c w = Some w' \<and> quiet_step n c w w'"
proof -
  have "length (unreachable_text d) < 1024" for d by (simp add: unreachable_text_def)
  then show ?thesis unfolding respond_unreachable_def by (intro respond_quiet [OF assms]) auto
qed

subsection \<open>The receive storage between calls\<close>

text \<open>What links the storage of a message whose header has been read to the bytes in the buffer.\<close>

definition header_read :: "curr_recv_msg \<Rightarrow> bool" where
  "header_read rm \<longleftrightarrow> LWMP_HDR_SIZE \<le> unat (off_of rm) \<and>
     load64 (rbuf (recvbuf rm)) off_total = Some (expected_msg_size rm) \<and>
     load8 (rbuf (recvbuf rm)) off_msg_type \<noteq> None \<and>
     rmsg_type rm = ucast (rbuf (recvbuf rm) ! off_msg_type) \<and>
     total_msg_data_recved rm = of_nat (unat (off_of rm) - LWMP_HDR_SIZE)"

definition buf_ok :: "curr_recv_msg \<Rightarrow> bool" where
  "buf_ok rm \<longleftrightarrow> length (rbuf (recvbuf rm)) = LWMP_MAX_PDU_SIZE \<and> size_of rm = of_nat LWMP_MAX_PDU_SIZE \<and>
     length (dest_uname rm) = UNAMESIZE \<and> unat (off_of rm) \<le> LWMP_MAX_PDU_SIZE"

text \<open>Only a message has a recipient.\<close>

definition dest_ok :: "curr_recv_msg \<Rightarrow> bool" where
  "dest_ok rm \<longleftrightarrow> (rmsg_type rm = 0 \<and> expected_msg_size rm = 0 \<or> rmsg_type rm = ucast MT_REQ \<longrightarrow> cstr (dest_uname rm) = [])"

definition recv_ok :: "curr_recv_msg \<Rightarrow> bool" where
  "recv_ok rm \<longleftrightarrow> buf_ok rm \<and> dest_ok rm \<and>
     (is_desynced rm \<longrightarrow> \<not> not_msg_init_pdu rm \<and> rmsg_type rm = 0 \<and> expected_msg_size rm = 0) \<and>
     (not_msg_init_pdu rm \<longrightarrow> unat (off_of rm) \<le> LWMP_CHUNK_BUF_SIZE \<or>
        expected_msg_size rm \<le> total_msg_data_recved rm \<and> cstr (dest_uname rm) = []) \<and>
     (\<not> not_msg_init_pdu rm \<and> (rmsg_type rm \<noteq> 0 \<or> expected_msg_size rm \<noteq> 0) \<longrightarrow> header_read rm)"

lemma cstr_zeros [simp]: "cstr (replicate n 0) = []"
  by (simp add: takeWhile_eq_Nil_iff)

lemma recv_ok_reset: "buf_ok rm \<Longrightarrow> recv_ok (reset_msg rm) \<and> recv_ok ((reset_msg rm)\<lparr>is_desynced := b\<rparr>)"
  by (auto simp: recv_ok_def buf_ok_def dest_ok_def reset_msg_def set_offset_def off_of_def size_of_def)

lemma offset_in_off_of: "offset_in rm = unat (off_of rm)"
  by (simp add: offset_in_def off_of_def)

lemma off_of_received:
  assumes "fits d rm"
  shows "unat (off_of (received counted d rm)) = unat (off_of rm) + length d"
  using unat_received_offset [OF assms] by (simp add: off_of_def)

lemma size_of_received [simp]: "size_of (received counted d rm) = size_of rm"
  by (simp add: size_of_def)

lemma buf_ok_received:
  assumes "buf_ok rm" and "fits d rm"
  shows "buf_ok (received counted d rm)"
  using assms off_of_received [OF assms(2), of counted] length_received [OF assms(2), of counted]
  by (auto simp: buf_ok_def fits_def off_of_def)

text \<open>A receiving phase: it does not fault, and it appends a prefix of the input to the buffer.\<close>

lemma receive_ok:
  assumes "logged c w"
    and "\<And>d. fits d (rcv w c) \<Longrightarrow> offset_in (rcv w c) + length d \<le> B \<Longrightarrow> first \<or> cond (received counted d (rcv w c)) \<Longrightarrow>
      offset_in (rcv w c) + length d + unat (len (received counted d (rcv w c))) \<le> B"
    and "offset_in (rcv w c) \<le> B" and "B \<le> LWMP_MAX_PDU_SIZE" and "buf_ok (rcv w c)"
  shows "\<exists>st d w'. receive c first counted cond len blocked w = Some (st, w') \<and> inb_frame n c w w' \<and>
    rcv w' c = received counted d (rcv w c) \<and> fits d (rcv w c) \<and> offset_in (rcv w c) + length d \<le> B \<and>
    (st = Some WT_DCONN \<or> st = blocked \<or> st = None \<and> \<not> cond (rcv w' c))"
proof -
  have len: "length (rbuf (recvbuf (rcv w c))) = 4096" using assms(5) by (simp add: buf_ok_def)
  from recv_while_correct [of "rcv w c" B first cond counted len "inputs w c", OF assms(2,3)] assms(4) len obtain e d inp' where
    r: "recv_while first counted cond len (rcv w c) (inputs w c) = Some (e, received counted d (rcv w c), inp')"
    "fits d (rcv w c)" "offset_in (rcv w c) + length d \<le> B" "e = Rdone \<longrightarrow> \<not> cond (received counted d (rcv w c))"
    by auto
  define w1 where "w1 = set_rcv c (received counted d (rcv w c)) (w\<lparr>inputs := (inputs w)(c := inp')\<rparr>)"
  have "inb_frame n c w (w\<lparr>inputs := (inputs w)(c := inp')\<rparr>)" by (simp add: frame_defs)
  then have f1: "inb_frame n c w w1" unfolding w1_def by (rule inb_frame_trans) (rule set_rcv_frame)
  have rc: "rcv w1 c = received counted d (rcv w c)" by (simp add: w1_def)
  have eq: "receive c first counted cond len blocked w = (case e of
      Rerr \<Rightarrow> map_option (\<lambda>w. (Some WT_DCONN, w)) (cleanup_std_client c w1)
    | Rblock \<Rightarrow> Some (blocked, w1) | Rdone \<Rightarrow> Some (None, w1))"
    unfolding receive_def r(1) w1_def by (simp add: Let_def)
  show ?thesis
  proof (cases e)
    case Rerr
    from cleanup_logged [OF logged_frame [OF assms(1) f1], of n] obtain w2 where
      "cleanup_std_client c w1 = Some w2" "quiet_step n c w1 w2" by blast
    then show ?thesis
      using Rerr r f1 rc unfolding eq by (auto simp: quiet_step_def intro: inb_frame_trans)
  qed (use r f1 rc in \<open>auto simp: eq\<close>)
qed

end
