(* ===== verification/Ownership.thy ===== *)
theory Ownership
  imports Inbound
begin

text \<open>
  Who owns which message node. Between two handlers of \<open>server/worker.c\<close> every node that is allocated and not
  freed belongs to exactly one client: it is the client's \<open>temp_send_storage\<close>, or it is in its control queue
  or in its queue of user data. The invariant \<open>msgs_ok\<close> says so; the operations of \<open>Workerstate\<close> keep it,
  and none of them loses, repeats or reorders what a client is still to be sent (\<open>stream\<close>, \<open>inbox\<close>).
\<close>

definition temps :: "worker \<Rightarrow> addr \<Rightarrow> addr list" where
  "temps w c = (if temp_send_storage (cls w c) = 0 then [] else [temp_send_storage (cls w c)])"

definition owned :: "(addr \<Rightarrow> addr list) \<Rightarrow> (addr \<Rightarrow> addr list) \<Rightarrow> worker \<Rightarrow> addr \<Rightarrow> addr list" where
  "owned C U w c = temps w c @ C c @ U c"

definition msg_ok :: "worker \<Rightarrow> addr \<Rightarrow> bool" where
  "msg_ok w m \<longleftrightarrow> 0 < m \<and> m < next_addr w \<and> \<not> msg_freed (msgs w m) \<and> node_ok (msgs w m)"

definition local_ok :: "(addr \<Rightarrow> addr list) \<Rightarrow> (addr \<Rightarrow> addr list) \<Rightarrow> worker \<Rightarrow> addr \<Rightarrow> bool" where
  "local_ok C U w c \<longleftrightarrow>
     queue_is (pending_ctrl_queue (cls w c)) (msgs w) (C c) \<and> queue_is (pending_userdata_queue (cls w c)) (msgs w) (U c) \<and>
     qmode (pending_userdata_queue (cls w c)) = MODE_MPSC \<and>
     distinct (owned C U w c) \<and> (\<forall>m \<in> set (owned C U w c). msg_ok w m)"

definition unowned :: "addr set \<Rightarrow> (addr \<Rightarrow> addr list) \<Rightarrow> (addr \<Rightarrow> addr list) \<Rightarrow> worker \<Rightarrow> addr \<Rightarrow> bool" where
  "unowned S C U w m \<longleftrightarrow> (\<forall>c \<in> S. m \<notin> set (owned C U w c))"

definition msgs_ok :: "addr set \<Rightarrow> (addr \<Rightarrow> addr list) \<Rightarrow> (addr \<Rightarrow> addr list) \<Rightarrow> worker \<Rightarrow> bool" where
  "msgs_ok S C U w \<longleftrightarrow> 0 < next_addr w \<and> (\<forall>c \<in> S. local_ok C U w c) \<and>
     (\<forall>c \<in> S. \<forall>c' \<in> S. c \<noteq> c' \<longrightarrow> set (owned C U w c) \<inter> set (owned C U w c') = {})"

text \<open>What a client is still to be sent of its control stream, behind what has been sent; and the messages of
  other users that wait for it, with their senders.\<close>

definition unsent :: "mpsc_msg_node \<Rightarrow> byte list" where
  "unsent m = drop (buf_offset m) (buf m)"

definition stream :: "(addr \<Rightarrow> addr list) \<Rightarrow> worker \<Rightarrow> addr \<Rightarrow> byte list" where
  "stream C w c = sent w c @ concat (map (\<lambda>m. unsent (msgs w m)) (temps w c @ C c))"

definition inbox :: "(addr \<Rightarrow> addr list) \<Rightarrow> worker \<Rightarrow> addr \<Rightarrow> (byte list \<times> byte list) list" where
  "inbox U w c = map (\<lambda>m. (unsent (msgs w m), subject_name (msgs w m))) (U c)"

text \<open>A control queue has something in it only while another message is being sent.\<close>

definition idle :: "(addr \<Rightarrow> addr list) \<Rightarrow> worker \<Rightarrow> addr \<Rightarrow> bool" where
  "idle C w c \<longleftrightarrow> (temp_send_storage (cls w c) = 0 \<longrightarrow> C c = [])"

lemma same_payload_unsent: "same_payload m m' \<Longrightarrow> unsent m' = unsent m \<and> subject_name m' = subject_name m \<and> node_ok m' = node_ok m"
  by (simp add: same_payload_def unsent_def node_ok_def)

subsection \<open>A step that concerns one client\<close>

definition cl_msgs :: "std_client \<Rightarrow> _" where
  "cl_msgs s = (temp_send_storage s, pending_ctrl_queue s, pending_userdata_queue s)"

text \<open>The other clients, and their messages, are left alone.\<close>

definition others_kept :: "addr set \<Rightarrow> (addr \<Rightarrow> addr list) \<Rightarrow> (addr \<Rightarrow> addr list) \<Rightarrow> addr \<Rightarrow> worker \<Rightarrow> worker \<Rightarrow> bool" where
  "others_kept S C U c w w' \<longleftrightarrow> next_addr w \<le> next_addr w' \<and>
     (\<forall>x \<in> S. x \<noteq> c \<longrightarrow> cl_msgs (cls w' x) = cl_msgs (cls w x) \<and> sent w' x = sent w x \<and>
        (\<forall>m \<in> set (owned C U w x). msgs w' m = msgs w m))"

lemma owned_other:
  "cl_msgs (cls w' x) = cl_msgs (cls w x) \<Longrightarrow> C' x = C x \<Longrightarrow> U' x = U x \<Longrightarrow> owned C' U' w' x = owned C U w x"
  by (simp add: owned_def temps_def cl_msgs_def)

lemma msgs_ok_step:
  assumes ok: "msgs_ok S C U w" and k: "others_kept S C U c w w'"
    and CU: "\<And>x. x \<noteq> c \<Longrightarrow> C' x = C x \<and> U' x = U x"
    and loc: "local_ok C' U' w' c" and sub: "set (owned C' U' w' c) \<subseteq> set (owned C U w c) \<union> {m. unowned S C U w m}"
    and c: "c \<in> S"
  shows "msgs_ok S C' U' w'"
proof -
  have o: "owned C' U' w' x = owned C U w x" if "x \<in> S" "x \<noteq> c" for x
    by (rule owned_other) (use k CU that in \<open>simp_all add: others_kept_def\<close>)
  have l: "local_ok C' U' w' x" if x: "x \<in> S" for x
  proof (cases "x = c")
    case False
    have lx: "local_ok C U w x" using ok x by (simp add: msgs_ok_def)
    have e: "msgs w' m = msgs w m" if "m \<in> set (owned C U w x)" for m using k x False that by (simp add: others_kept_def)
    then have q: "queue_is q (msgs w') ms" if "queue_is q (msgs w) ms" "set ms \<subseteq> set (owned C U w x)" for q ms
      by (rule queue_is_cong [OF that(1)]) (use that(2) in auto)
    have sb: "set (C x) \<subseteq> set (owned C U w x)" "set (U x) \<subseteq> set (owned C U w x)" by (auto simp: owned_def)
    have f: "cl_msgs (cls w' x) = cl_msgs (cls w x)" "next_addr w \<le> next_addr w'"
      using k x False by (simp_all add: others_kept_def)
    then have mo: "msg_ok w' m" if "msg_ok w m" "m \<in> set (owned C U w x)" for m
      using that e by (simp add: msg_ok_def)
    show ?thesis
      unfolding local_ok_def o [OF x False]
      using lx q [OF _ sb(1)] q [OF _ sb(2)] CU [OF False] f(1) mo
      by (simp add: local_ok_def cl_msgs_def)
  qed (use loc in simp)
  have d: "set (owned C' U' w' x) \<inter> set (owned C' U' w' y) = {}" if xy: "x \<in> S" "y \<in> S" "x \<noteq> y" for x y
  proof -
    have dis: "set (owned C U w x) \<inter> set (owned C U w y) = {}" using ok xy by (simp add: msgs_ok_def)
    consider "x \<noteq> c" "y \<noteq> c" | "x = c" "y \<noteq> c" | "x \<noteq> c" "y = c" using xy(3) by blast
    then show ?thesis
    proof cases
      case 1
      then show ?thesis using dis o xy by simp
    next
      case 2
      then show ?thesis using dis o [OF xy(2)] sub xy by (auto simp: unowned_def)
    next
      case 3
      then show ?thesis using dis o [OF xy(1)] sub xy by (auto simp: unowned_def)
    qed
  qed
  have "0 < next_addr w'" using ok k by (simp add: msgs_ok_def others_kept_def)
  then show ?thesis using l d by (simp add: msgs_ok_def)
qed

lemma others_streams:
  assumes "others_kept S C U c w w'" and "x \<in> S" and "x \<noteq> c" and "C' x = C x" and "U' x = U x"
  shows "stream C' w' x = stream C w x" and "inbox U' w' x = inbox U w x" and "idle C' w' x = idle C w x"
proof -
  have e: "msgs w' m = msgs w m" if "m \<in> set (owned C U w x)" for m using assms that by (simp add: others_kept_def)
  have t: "temps w' x = temps w x" and se: "sent w' x = sent w x" and f: "cl_msgs (cls w' x) = cl_msgs (cls w x)"
    using assms by (simp_all add: others_kept_def cl_msgs_def temps_def)
  have "map (\<lambda>m. unsent (msgs w' m)) (temps w x @ C x) = map (\<lambda>m. unsent (msgs w m)) (temps w x @ C x)"
    by (rule map_cong) (use e in \<open>auto simp: owned_def\<close>)
  then show "stream C' w' x = stream C w x" by (simp only: stream_def t se assms(4))
  show "inbox U' w' x = inbox U w x" using e assms(5) by (simp add: inbox_def owned_def)
  show "idle C' w' x = idle C w x" using f assms(4) by (simp add: idle_def cl_msgs_def)
qed

lemma msgs_okD:
  assumes "msgs_ok S C U w" and "c \<in> S"
  shows "local_ok C U w c"
  using assms by (simp add: msgs_ok_def)

lemma not_others:
  assumes "msgs_ok S C U w" and "c \<in> S" and "m \<in> set (owned C U w c)" and "x \<in> S" and "x \<noteq> c"
  shows "m \<notin> set (owned C U w x)"
  using assms unfolding msgs_ok_def by blast

text \<open>A step on behalf of \<open>c\<close> that adds \<open>bs\<close> to what \<open>c\<close> is to be sent.\<close>

definition flow :: "addr set \<Rightarrow> (addr \<Rightarrow> addr list) \<Rightarrow> (addr \<Rightarrow> addr list) \<Rightarrow> addr \<Rightarrow> worker \<Rightarrow>
    (addr \<Rightarrow> addr list) \<Rightarrow> worker \<Rightarrow> byte list \<Rightarrow> bool" where
  "flow S C U c w C' w' bs \<longleftrightarrow> msgs_ok S C' U w' \<and> stream C' w' c = stream C w c @ bs \<and> inbox U w' c = inbox U w c \<and>
     others_kept S C U c w w' \<and> (\<forall>x. x \<noteq> c \<longrightarrow> C' x = C x)"

lemma others_kept_refl: "others_kept S C U c w w"
  by (simp add: others_kept_def)

lemma others_kept_trans:
  assumes "others_kept S C U c w w1" and "others_kept S C1 U1 c w1 w2" and "\<And>x. x \<noteq> c \<Longrightarrow> C1 x = C x \<and> U1 x = U x"
  shows "others_kept S C U c w w2"
proof -
  have "owned C1 U1 w1 x = owned C U w x" if "x \<in> S" "x \<noteq> c" for x
    by (rule owned_other) (use assms(1,3) that in \<open>simp_all add: others_kept_def\<close>)
  then show ?thesis using assms(1,2) by (simp add: others_kept_def)
qed

lemma flow_refl: "msgs_ok S C U w \<Longrightarrow> flow S C U c w C w []"
  by (simp add: flow_def others_kept_refl)

lemma flow_trans:
  "flow S C U c w C1 w1 bs \<Longrightarrow> flow S C1 U c w1 C2 w2 bs' \<Longrightarrow> flow S C U c w C2 w2 (bs @ bs')"
  unfolding flow_def using others_kept_trans [of S C U c w w1 C1 U w2] by simp

lemma flow_others:
  assumes "flow S C U c w C' w' bs" and "x \<in> S" and "x \<noteq> c"
  shows "stream C' w' x = stream C w x" and "inbox U w' x = inbox U w x" and "idle C' w' x = idle C w x"
  using others_streams [of S C U c w w' x C' U] assms by (simp_all add: flow_def)

lemma flow_inbox:
  assumes "flow S C U c w C' w' bs" and "x \<in> S"
  shows "inbox U w' x = inbox U w x"
  using flow_others(2) [OF assms(1,2)] assms(1) by (cases "x = c") (simp_all add: flow_def)

text \<open>A step that changes no node and no queue.\<close>

lemma flow_same:
  assumes "msgs_ok S C U w" and "msgs w' = msgs w" and "next_addr w' = next_addr w" and "sent w' = sent w"
    and "\<And>x. cl_msgs (cls w' x) = cl_msgs (cls w x)"
  shows "flow S C U c w C w' []"
proof -
  have o: "owned C U w' x = owned C U w x" for x by (rule owned_other) (simp_all add: assms(5))
  have t: "temps w' x = temps w x" for x using assms(5) [of x] by (simp add: temps_def cl_msgs_def)
  have "local_ok C U w' x = local_ok C U w x" for x
    using assms(5) [of x] by (simp add: local_ok_def o assms msg_ok_def cl_msgs_def)
  then have "msgs_ok S C U w'" using assms(1) by (simp add: msgs_ok_def o assms(3))
  then show ?thesis by (simp add: flow_def stream_def inbox_def t assms others_kept_def)
qed

subsection \<open>New nodes\<close>

definition fresh :: "mpsc_msg_node \<Rightarrow> worker \<Rightarrow> worker" where
  "fresh nd w = w\<lparr>next_addr := next_addr w + 1, msgs := (msgs w)(next_addr w := nd)\<rparr>"

lemma fresh_simps [simp]:
  "cls (fresh nd w) = cls w" "next_addr (fresh nd w) = next_addr w + 1" "sent (fresh nd w) = sent w"
  "msgs (fresh nd w) = (msgs w)(next_addr w := nd)" "nds (fresh nd w) = nds w" "std_cl_table (fresh nd w) = std_cl_table w"
  by (simp_all add: fresh_def)

lemma owned_bound: "msgs_ok S C U w \<Longrightarrow> x \<in> S \<Longrightarrow> m \<in> set (owned C U w x) \<Longrightarrow> msg_ok w m"
  by (simp add: msgs_ok_def local_ok_def)

lemma fresh_ok:
  assumes "msgs_ok S C U w" and "node_ok nd" and "\<not> msg_freed nd" and "c \<in> S"
  shows "flow S C U c w C (fresh nd w) []" and "unowned S C U (fresh nd w) (next_addr w)"
    and "msg_ok (fresh nd w) (next_addr w)"
proof -
  have o: "owned C U (fresh nd w) x = owned C U w x" for x by (simp add: owned_def temps_def)
  have lt: "m < next_addr w" if "x \<in> S" "m \<in> set (owned C U w x)" for x m
    using owned_bound [OF assms(1) that] by (simp add: msg_ok_def)
  have e: "msgs (fresh nd w) m = msgs w m" if "x \<in> S" "m \<in> set (owned C U w x)" for x m
    using lt [OF that] by simp
  show un: "unowned S C U (fresh nd w) (next_addr w)" unfolding unowned_def o using lt by blast
  show "msg_ok (fresh nd w) (next_addr w)" using assms by (simp add: msg_ok_def msgs_ok_def)
  have k: "others_kept S C U c w (fresh nd w)" using e by (simp add: others_kept_def)
  have l: "local_ok C U w c" by (rule msgs_okD [OF assms(1,4)])
  have "queue_is q (msgs (fresh nd w)) ms" if "queue_is q (msgs w) ms" "set ms \<subseteq> set (owned C U w c)" for q ms
    by (rule queue_is_cong [OF that(1)], rule e [OF assms(4)]) (use that(2) in blast)
  moreover have "msg_ok (fresh nd w) m" if "m \<in> set (owned C U w c)" for m
    using owned_bound [OF assms(1,4) that] e [OF assms(4) that] by (simp add: msg_ok_def del: fresh_simps) simp
  ultimately have "local_ok C U (fresh nd w) c"
    using l unfolding local_ok_def o by (auto simp: owned_def)
  then have "msgs_ok S C U (fresh nd w)"
    by (intro msgs_ok_step [OF assms(1) k _ _ _ assms(4)]) (simp_all add: o)
  moreover have "stream C (fresh nd w) c = stream C w c"
  proof -
    have "map (\<lambda>m. unsent (msgs (fresh nd w) m)) (temps w c @ C c) = map (\<lambda>m. unsent (msgs w m)) (temps w c @ C c)"
      by (rule map_cong [OF refl], subst e [OF assms(4)]) (auto simp: owned_def)
    moreover have "temps (fresh nd w) c = temps w c" by (simp add: temps_def)
    ultimately show ?thesis by (simp only: stream_def fresh_simps(3))
  qed
  moreover have "inbox U (fresh nd w) c = inbox U w c"
    unfolding inbox_def
  proof (rule map_cong [OF refl])
    fix m assume "m \<in> set (U c)"
    then have "m \<in> set (owned C U w c)" by (simp add: owned_def)
    then show "(unsent (msgs (fresh nd w) m), subject_name (msgs (fresh nd w) m)) = (unsent (msgs w m), subject_name (msgs w m))"
      using e [OF assms(4)] by (simp del: fresh_simps)
  qed
  ultimately show "flow S C U c w C (fresh nd w) []" using k by (simp add: flow_def)
qed

subsection \<open>Queues and the message being sent\<close>

text \<open>The nodes of a list whose payload is kept.\<close>

lemma kept_payload:
  assumes "\<And>x. same_payload (s x) (s' x) \<and> msg_freed (s' x) = msg_freed (s x)"
  shows "map (\<lambda>m. unsent (s' m)) ms = map (\<lambda>m. unsent (s m)) ms"
    and "map (\<lambda>m. (unsent (s' m), subject_name (s' m))) ms = map (\<lambda>m. (unsent (s m), subject_name (s m))) ms"
  using same_payload_unsent assms by auto

lemma msg_ok_payload:
  assumes "\<And>x. same_payload (msgs w x) (msgs w' x) \<and> msg_freed (msgs w' x) = msg_freed (msgs w x)"
    and "next_addr w' = next_addr w"
  shows "msg_ok w' m = msg_ok w m"
  using same_payload_unsent [of "msgs w m" "msgs w' m"] assms by (simp add: msg_ok_def)

text \<open>A step that touches only the client's own nodes and unowned ones.\<close>

lemma own_nodes:
  assumes "msgs_ok S C U w" and "c \<in> S" and "next_addr w' = next_addr w"
    and "\<And>x. x \<noteq> c \<Longrightarrow> cls w' x = cls w x \<and> sent w' x = sent w x"
    and "\<And>x. x \<notin> N \<Longrightarrow> msgs w' x = msgs w x" and "N \<subseteq> set (owned C U w c) \<union> {m. unowned S C U w m}"
  shows "others_kept S C U c w w'"
  unfolding others_kept_def
proof (intro conjI ballI impI)
  fix x y assume x: "x \<in> S" "x \<noteq> c" and y: "y \<in> set (owned C U w x)"
  have "y \<notin> set (owned C U w c)" using not_others [OF assms(1,2) _ x, of y] y by blast
  moreover have "\<not> unowned S C U w y" using x(1) y by (auto simp: unowned_def)
  ultimately show "msgs w' y = msgs w y" using assms(5,6) by blast
qed (use assms(3,4) in simp_all)

lemma queue_rest:
  assumes "queue_is q (msgs w) ms" and "\<And>x. x \<notin> N \<Longrightarrow> msgs w' x = msgs w x" and "set ms \<inter> N = {}"
  shows "queue_is q (msgs w') ms"
  by (rule queue_is_cong [OF assms(1)]) (use assms(2,3) in blast)

lemma enqueue_ctrl_flow:
  assumes "msgs_ok S C U w" and "c \<in> S" and "unowned S C U w m" and "msg_ok w m"
  shows "flow S C U c w (C(c := C c @ [m])) (enqueue_ctrl c m w) (unsent (msgs w m))"
proof -
  define C' where "C' = C(c := C c @ [m])"
  define w' where "w' = enqueue_ctrl c m w"
  note l = msgs_okD [OF assms(1,2), unfolded local_ok_def]
  obtain q' s' where e: "mpscq_enqueue (pending_ctrl_queue (cls w c)) (msgs w) m = (q', s')" by fastforce
  have w': "msgs w' = s'" "next_addr w' = next_addr w" "sent w' = sent w"
    "cls w' = (cls w)(c := (cls w c)\<lparr>pending_ctrl_queue := q'\<rparr>)"
    by (simp_all add: w'_def enqueue_ctrl_def e upd_cl_def)
  have m: "m \<notin> set (owned C U w c)" "m \<noteq> 0" using assms(2-4) by (auto simp: unowned_def msg_ok_def)
  then have mC: "m \<notin> set (C c)" by (simp add: owned_def)
  from enqueue_lemma [OF _ m(2) mC, of "pending_ctrl_queue (cls w c)" "msgs w"] l e
  have q: "queue_is q' s' (C c @ [m])" "\<And>x. same_payload (msgs w x) (s' x) \<and> msg_freed (s' x) = msg_freed (msgs w x)" by auto
  define N where "N = insert m (set (C c))"
  have fr: "msgs w' x = msgs w x" if "x \<notin> N" for x
    unfolding w' by (rule enqueue_frame [where ms = "C c", OF _ e]) (use l that in \<open>simp_all add: N_def\<close>)
  have k: "others_kept S C U c w w'"
    by (rule own_nodes [where N = N, OF assms(1,2) w'(2) _ fr]) (use w' assms(3) in \<open>auto simp: N_def owned_def\<close>)
  have t: "temps w' c = temps w c" by (simp add: temps_def w')
  have o: "owned C' U w' c = temps w c @ (C c @ [m]) @ U c" by (simp add: owned_def t C'_def)
  have mo: "msg_ok w' x = msg_ok w x" for x by (rule msg_ok_payload) (use q(2) w' in simp_all)
  have "queue_is (pending_userdata_queue (cls w c)) (msgs w') (U c)"
    by (rule queue_rest [where N = N and w = w, OF _ fr]) (use l m in \<open>auto simp: N_def owned_def\<close>)
  then have "local_ok C' U w' c"
    using l q(1) m assms(4) unfolding local_ok_def o
    by (auto simp: w'(4) w'(1) C'_def owned_def mo)
  then have "msgs_ok S C' U w'"
    by (intro msgs_ok_step [OF assms(1) k _ _ _ assms(2)]) (use assms(3) o in \<open>auto simp: C'_def owned_def\<close>)
  moreover have "stream C' w' c = stream C w c @ unsent (msgs w m)"
    by (simp add: stream_def t w' C'_def kept_payload [OF q(2)] same_payload_unsent q(2))
  ultimately show ?thesis
    using k by (simp add: flow_def inbox_def w' kept_payload [OF q(2)] C'_def [symmetric] w'_def [symmetric]) (simp add: C'_def)
qed

text \<open>The next control message becomes the one that is sent.\<close>

lemma take_ctrl_flow:
  assumes "msgs_ok S C U w" and "c \<in> S" and "C c = m # ms" and "temp_send_storage (cls w c) = 0"
  shows "\<exists>w1. dequeue_ctrl c w = (Some m, w1) \<and>
    flow S C U c w (C(c := ms)) (upd_cl c (\<lambda>s. s\<lparr>temp_send_storage := m\<rparr>) w1) [] \<and>
    (\<forall>x. temp_send_storage (cls w1 x) = temp_send_storage (cls w x))"
proof -
  define C' where "C' = C(c := ms)"
  obtain r q' s' where e: "mpscq_dequeue (pending_ctrl_queue (cls w c)) (msgs w) = (r, q', s')" using prod_cases3 by blast
  define w1 where "w1 = upd_cl c (\<lambda>s. s\<lparr>pending_ctrl_queue := q'\<rparr>) (w\<lparr>msgs := s'\<rparr>)"
  define w' where "w' = upd_cl c (\<lambda>s. s\<lparr>temp_send_storage := m\<rparr>) w1"
  note l = msgs_okD [OF assms(1,2), unfolded local_ok_def]
  have w': "msgs w' = s'" "next_addr w' = next_addr w" "sent w' = sent w"
    "cls w' = (cls w)(c := (cls w c)\<lparr>pending_ctrl_queue := q', temp_send_storage := m\<rparr>)"
    by (simp_all add: w'_def w1_def upd_cl_def)
  from dequeue_lemma [of "pending_ctrl_queue (cls w c)" "msgs w" m ms] l e assms(3)
  have q: "queue_is q' s' ms" "\<And>x. same_payload (msgs w x) (s' x) \<and> msg_freed (s' x) = msg_freed (msgs w x)" "r = Some m"
    by auto
  have fr: "msgs w' x = msgs w x" if "x \<notin> set (C c)" for x
    unfolding w' by (rule dequeue_frame [where ms = "C c", OF _ e]) (use l that in simp_all)
  have k: "others_kept S C U c w w'"
    by (rule own_nodes [where N = "set (C c)", OF assms(1,2) w'(2) _ fr]) (use w' in \<open>auto simp: owned_def\<close>)
  have "m \<in> set (owned C U w c)" using assms(3) by (simp add: owned_def)
  then have "0 < m" using owned_bound [OF assms(1,2)] by (simp add: msg_ok_def)
  then have t: "temps w' c = [m]" by (simp add: temps_def w')
  have o: "owned C' U w' c = m # ms @ U c" "owned C U w c = m # ms @ U c"
    using assms(3,4) by (simp_all add: owned_def t C'_def) (simp add: temps_def)
  have mo: "msg_ok w' x = msg_ok w x" for x by (rule msg_ok_payload) (use q(2) w' in simp_all)
  have "queue_is (pending_userdata_queue (cls w c)) (msgs w') (U c)"
    by (rule queue_rest [where N = "set (C c)" and w = w, OF _ fr]) (use l o(2) assms(3) in \<open>auto simp: disjoint_iff\<close>)
  then have "local_ok C' U w' c"
    using l q(1) unfolding local_ok_def o by (simp add: w'(4) w'(1) C'_def mo)
  then have "msgs_ok S C' U w'"
    by (intro msgs_ok_step [OF assms(1) k _ _ _ assms(2)]) (use o in \<open>auto simp: C'_def\<close>)
  moreover have "stream C' w' c = stream C w c"
    using assms(3,4) by (simp add: stream_def t w' C'_def kept_payload [OF q(2)] same_payload_unsent q(2)) (simp add: temps_def)
  ultimately have "flow S C U c w C' w' []"
    using k by (simp add: flow_def inbox_def w' kept_payload [OF q(2)]) (simp add: C'_def)
  moreover have "dequeue_ctrl c w = (Some m, w1)" by (simp add: dequeue_ctrl_def e q(3) w1_def)
  ultimately show ?thesis by (auto simp: C'_def w'_def w1_def upd_cl_def)
qed

lemma dequeue_ctrl_empty:
  assumes "msgs_ok S C U w" and "c \<in> S" and "C c = []"
  shows "\<exists>w1. dequeue_ctrl c w = (None, w1) \<and> flow S C U c w C w1 [] \<and> cl_msgs (cls w1 c) = cl_msgs (cls w c)"
proof -
  note l = msgs_okD [OF assms(1,2), unfolded local_ok_def]
  have "mpscq_dequeue (pending_ctrl_queue (cls w c)) (msgs w) = (None, pending_ctrl_queue (cls w c), msgs w)"
    by (rule dequeue_empty) (use l assms(3) in simp)
  then have "dequeue_ctrl c w = (None, upd_cl c (\<lambda>s. s\<lparr>pending_ctrl_queue := pending_ctrl_queue (cls w c)\<rparr>) (w\<lparr>msgs := msgs w\<rparr>))"
    by (simp add: dequeue_ctrl_def)
  moreover have "flow S C U c w C (upd_cl c (\<lambda>s. s\<lparr>pending_ctrl_queue := pending_ctrl_queue (cls w c)\<rparr>) (w\<lparr>msgs := msgs w\<rparr>)) []"
    by (rule flow_same [OF assms(1)]) (simp_all add: upd_cl_def cl_msgs_def)
  ultimately show ?thesis by (simp add: upd_cl_def cl_msgs_def)
qed

text \<open>Sending from the message in progress moves bytes from what is unsent to what is sent.\<close>

lemma send_storage_flow:
  assumes "msgs_ok S C U w" and "c \<in> S" and "temp_send_storage (cls w c) \<noteq> 0"
  shows "\<exists>e w'. send_storage first c w = Some (e, w') \<and> flow S C U c w C w' [] \<and> cls w' = cls w \<and> nds w' = nds w \<and>
    (e = Sdone \<longrightarrow> unsent (msgs w' (temp_send_storage (cls w c))) = [])"
proof -
  define m where "m = temp_send_storage (cls w c)"
  note l = msgs_okD [OF assms(1,2), unfolded local_ok_def]
  have o: "owned C U w c = m # C c @ U c" using assms(3) by (simp add: owned_def temps_def m_def)
  have ok: "msg_ok w m" using l o by simp
  then have node: "node_ok (msgs w m)" "\<not> msg_freed (msgs w m)" "m \<noteq> 0" by (simp_all add: msg_ok_def)
  from send_while_correct [OF node(1), of first "outputs w c" "sent w c"] obtain e k outp' where
    sw: "send_while first (msgs w m) (outputs w c) (sent w c) = Some (e, (msgs w m)\<lparr>buf_offset := buf_offset (msgs w m) + k\<rparr>,
        outp', sent w c @ take k (drop (buf_offset (msgs w m)) (buf (msgs w m))))"
    "buf_offset (msgs w m) + k \<le> buf_size (msgs w m)"
    "e = Sdone \<longrightarrow> buf_offset (msgs w m) + k = buf_size (msgs w m)" by blast
  define nd where "nd = (msgs w m)\<lparr>buf_offset := buf_offset (msgs w m) + k\<rparr>"
  define w' where "w' = w\<lparr>msgs := (msgs w)(m := nd), outputs := (outputs w)(c := outp'),
    sent := (sent w)(c := sent w c @ take k (unsent (msgs w m)))\<rparr>"
  have eq: "send_storage first c w = Some (e, w')"
    using sw(1) node by (simp add: send_storage_def Let_def m_def [symmetric] w'_def nd_def unsent_def)
  have us: "unsent (msgs w m) = take k (unsent (msgs w m)) @ unsent nd"
    unfolding unsent_def nd_def by (simp add: add.commute flip: drop_drop)
  have nd: "node_ok nd" "\<not> msg_freed nd" "msg_next nd = msg_next (msgs w m)" "msg_prev nd = msg_prev (msgs w m)"
    using node sw(2) by (simp_all add: nd_def node_ok_def)
  have w': "msgs w' x = (if x = m then nd else msgs w x)" "next_addr w' = next_addr w" "cls w' = cls w"
    "sent w' x = (if x = c then sent w c @ take k (unsent (msgs w m)) else sent w x)" for x
    by (simp_all add: w'_def)
  have k: "others_kept S C U c w w'"
    by (rule own_nodes [where N = "{m}", OF assms(1,2) w'(2)]) (simp_all add: w' o)
  have t: "temps w' c = [m]" "temps w c = [m]" "owned C U w' c = owned C U w c"
    using assms(3) by (simp_all add: temps_def w' m_def owned_def)
  have dist: "m \<notin> set (C c)" "m \<notin> set (U c)" using l o by auto
  have "queue_is q (msgs w') ms" if "queue_is q (msgs w) ms" "m \<notin> set ms" for q ms
    by (rule queue_is_cong [OF that(1)]) (use that(2) w' in auto)
  moreover have "msg_ok w' x = msg_ok w x" for x using nd(1,2) node(1,2) by (auto simp: msg_ok_def w')
  ultimately have "local_ok C U w' c"
    using l dist unfolding local_ok_def t(3) by (simp add: w')
  then have "msgs_ok S C U w'" by (intro msgs_ok_step [OF assms(1) k _ _ _ assms(2)]) (simp_all add: t)
  moreover have M: "map (\<lambda>x. unsent (msgs w' x)) (C c) = map (\<lambda>x. unsent (msgs w x)) (C c)"
    and "inbox U w' c = inbox U w c"
    using dist by (auto simp: w' inbox_def)
  moreover have "msgs w' m = nd" "sent w' c = sent w c @ take k (unsent (msgs w m))" by (simp_all add: w')
  then have "stream C w' c = stream C w c"
    by (simp only: stream_def t append_Cons append_Nil list.map concat.simps M append_assoc)
      (simp add: us [symmetric] flip: append_assoc)
  moreover have "unsent nd = []" if "e = Sdone"
    using that sw(3) node(1) by (simp add: unsent_def nd_def node_ok_def)
  ultimately show ?thesis
    using eq k by (auto simp: flow_def w' m_def [symmetric]) (simp_all add: w'_def)
qed

text \<open>A message that has been sent is freed; the next one may take its place.\<close>

lemma drop_storage_flow:
  assumes "msgs_ok S C U w" and "c \<in> S" and "temp_send_storage (cls w c) \<noteq> 0"
    and "unsent (msgs w (temp_send_storage (cls w c))) = []"
  shows "flow S C U c w C (drop_storage c w) []"
proof -
  define m where "m = temp_send_storage (cls w c)"
  define w' where "w' = drop_storage c w"
  note l = msgs_okD [OF assms(1,2), unfolded local_ok_def]
  have o: "owned C U w c = m # C c @ U c" using assms(3) by (simp add: owned_def temps_def m_def)
  have dist: "m \<notin> set (C c)" "m \<notin> set (U c)" using l o by auto
  have w': "msgs w' = (msgs w)(m := (msgs w m)\<lparr>msg_freed := True\<rparr>)" "next_addr w' = next_addr w"
    "cls w' = (cls w)(c := (cls w c)\<lparr>temp_send_storage := 0\<rparr>)" "sent w' = sent w"
    by (simp_all add: w'_def drop_storage_def free_msg_def upd_cl_def m_def)
  have k: "others_kept S C U c w w'"
    by (rule own_nodes [where N = "{m}", OF assms(1,2) w'(2)]) (simp_all add: w' o)
  have t: "temps w' c = []" "temps w c = [m]" "owned C U w' c = C c @ U c"
    using assms(3) by (simp_all add: temps_def w' m_def owned_def)
  have "queue_is q (msgs w') ms" if "queue_is q (msgs w) ms" "m \<notin> set ms" for q ms
    by (rule queue_is_cong [OF that(1)]) (use that(2) w' in auto)
  moreover have "msg_ok w' x = msg_ok w x" if "x \<in> set (C c) \<union> set (U c)" for x
    using that dist by (auto simp: msg_ok_def w')
  ultimately have "local_ok C U w' c"
    using l dist unfolding local_ok_def t(3) o by (simp add: w'(3))
  then have "msgs_ok S C U w'" by (intro msgs_ok_step [OF assms(1) k _ _ _ assms(2)]) (auto simp: t o)
  moreover have M: "map (\<lambda>x. unsent (msgs w' x)) (C c) = map (\<lambda>x. unsent (msgs w x)) (C c)"
    and "inbox U w' c = inbox U w c"
    using dist by (auto simp: w' inbox_def)
  moreover have "stream C w' c = stream C w c"
    by (simp only: stream_def t append_Cons append_Nil list.map concat.simps M w'(4))
      (simp add: assms(4) m_def)
  ultimately show ?thesis using k by (simp add: flow_def w'_def [symmetric])
qed

text \<open>An unowned message becomes the one that is sent.\<close>

lemma set_storage_flow:
  assumes "msgs_ok S C U w" and "c \<in> S" and "unowned S C U w m" and "msg_ok w m"
    and "temp_send_storage (cls w c) = 0" and "C c = []"
  shows "flow S C U c w C (upd_cl c (\<lambda>s. s\<lparr>temp_send_storage := m\<rparr>) w) (unsent (msgs w m))"
proof -
  define w' where "w' = upd_cl c (\<lambda>s. s\<lparr>temp_send_storage := m\<rparr>) w"
  note l = msgs_okD [OF assms(1,2), unfolded local_ok_def]
  have w': "msgs w' = msgs w" "next_addr w' = next_addr w" "cls w' = (cls w)(c := (cls w c)\<lparr>temp_send_storage := m\<rparr>)"
    "sent w' = sent w" by (simp_all add: w'_def upd_cl_def)
  have m: "m \<noteq> 0" "m \<notin> set (owned C U w c)" using assms(2-4) by (auto simp: unowned_def msg_ok_def)
  have t: "temps w' c = [m]" "temps w c = []" using m(1) assms(5) by (simp_all add: temps_def w')
  have o: "owned C U w' c = m # U c" "owned C U w c = U c" using assms(6) by (simp_all add: owned_def t)
  have k: "others_kept S C U c w w'"
    by (rule own_nodes [where N = "{}", OF assms(1,2) w'(2)]) (simp_all add: w')
  have "local_ok C U w' c" using l m assms(4) unfolding local_ok_def o by (simp add: w' msg_ok_def)
  then have "msgs_ok S C U w'"
    by (intro msgs_ok_step [OF assms(1) k _ _ _ assms(2)]) (use assms(3) in \<open>auto simp: o\<close>)
  then show ?thesis using k unfolding w'_def [symmetric] by (simp add: flow_def stream_def inbox_def t w' assms(6))
qed

lemma free_unowned_flow:
  assumes "msgs_ok S C U w" and "c \<in> S" and "unowned S C U w m"
  shows "flow S C U c w C (free_msg m w) []"
proof -
  define w' where "w' = free_msg m w"
  note l = msgs_okD [OF assms(1,2), unfolded local_ok_def]
  have w': "msgs w' = (msgs w)(m := (msgs w m)\<lparr>msg_freed := True\<rparr>)" "next_addr w' = next_addr w" "cls w' = cls w" "sent w' = sent w"
    by (simp_all add: w'_def free_msg_def)
  have t: "temps w' x = temps w x" "owned C U w' x = owned C U w x" for x by (simp_all add: temps_def owned_def w')
  have k: "others_kept S C U c w w'"
    by (rule own_nodes [where N = "{m}", OF assms(1,2) w'(2)]) (use assms(3) in \<open>simp_all add: w'\<close>)
  have e: "msgs w' x = msgs w x" if "x \<in> set (owned C U w c)" for x
    using that assms(2,3) by (auto simp: w' unowned_def)
  have "queue_is (pending_ctrl_queue (cls w c)) (msgs w') (C c)" "queue_is (pending_userdata_queue (cls w c)) (msgs w') (U c)"
    using l e queue_is_cong [of _ "msgs w" _ "msgs w'"] by (auto simp: owned_def)
  moreover have "msg_ok w' x = msg_ok w x" if "x \<in> set (owned C U w c)" for x
    using e [OF that] by (simp add: msg_ok_def w'(2))
  ultimately have "local_ok C U w' c" using l unfolding local_ok_def t by (simp add: w'(3))
  then have "msgs_ok S C U w'" by (intro msgs_ok_step [OF assms(1) k _ _ _ assms(2)]) (simp_all add: t)
  moreover have "map (\<lambda>m. unsent (msgs w' m)) (temps w c @ C c) = map (\<lambda>m. unsent (msgs w m)) (temps w c @ C c)"
    by (rule map_cong) (use e in \<open>auto simp: owned_def\<close>)
  then have "stream C w' c = stream C w c" by (simp only: stream_def t w'(4))
  moreover have "inbox U w' c = inbox U w c" using e by (simp add: inbox_def owned_def)
  ultimately show ?thesis using k by (simp add: flow_def w'_def [symmetric])
qed

subsection \<open>The queue of user data\<close>

lemma enqueue_userdata_inflow:
  assumes "msgs_ok S C U w" and "r \<in> S" and "unowned S C U w m" and "msg_ok w m"
  defines "w' \<equiv> enqueue_userdata r m w"
  shows "msgs_ok S C (U(r := U r @ [m])) w'" and "others_kept S C U r w w'"
    and "stream C w' r = stream C w r" and "idle C w' r = idle C w r"
    and "inbox (U(r := U r @ [m])) w' r = inbox U w r @ [(unsent (msgs w m), subject_name (msgs w m))]"
proof -
  define U' where "U' = U(r := U r @ [m])"
  note l = msgs_okD [OF assms(1,2), unfolded local_ok_def]
  obtain q' s' where e: "mpscq_enqueue (pending_userdata_queue (cls w r)) (msgs w) m = (q', s')" by fastforce
  have w': "msgs w' = s'" "next_addr w' = next_addr w" "sent w' = sent w"
    "cls w' = (cls w)(r := (cls w r)\<lparr>pending_userdata_queue := q'\<rparr>)"
    by (simp_all add: w'_def enqueue_userdata_def e upd_cl_def)
  have m: "m \<notin> set (owned C U w r)" "m \<noteq> 0" using assms(2-4) by (auto simp: unowned_def msg_ok_def)
  then have mU: "m \<notin> set (U r)" by (simp add: owned_def)
  from enqueue_lemma [OF _ m(2) mU, of "pending_userdata_queue (cls w r)" "msgs w"] l e
  have q: "queue_is q' s' (U r @ [m])" "\<And>x. same_payload (msgs w x) (s' x) \<and> msg_freed (s' x) = msg_freed (msgs w x)"
    "qmode q' = MODE_MPSC" by auto
  define N where "N = insert m (set (U r))"
  have fr: "msgs w' x = msgs w x" if "x \<notin> N" for x
    unfolding w' by (rule enqueue_frame [where ms = "U r", OF _ e]) (use l that in \<open>simp_all add: N_def\<close>)
  show k: "others_kept S C U r w w'"
    by (rule own_nodes [where N = N, OF assms(1,2) w'(2) _ fr]) (use w' assms(3) in \<open>auto simp: N_def owned_def\<close>)
  have t: "temps w' r = temps w r" by (simp add: temps_def w')
  have o: "owned C U' w' r = temps w r @ C r @ (U r @ [m])" by (simp add: owned_def t U'_def)
  have mo: "msg_ok w' x = msg_ok w x" for x by (rule msg_ok_payload) (use q(2) w' in simp_all)
  have "queue_is (pending_ctrl_queue (cls w r)) (msgs w') (C r)"
    by (rule queue_rest [where N = N and w = w, OF _ fr]) (use l m in \<open>auto simp: N_def owned_def\<close>)
  then have "local_ok C U' w' r"
    using l q(1,3) m assms(4) unfolding local_ok_def o
    by (auto simp: w'(4) w'(1) U'_def owned_def mo)
  then show "msgs_ok S C (U(r := U r @ [m])) w'" unfolding U'_def [symmetric]
    by (intro msgs_ok_step [OF assms(1) k _ _ _ assms(2)]) (use assms(3) o in \<open>auto simp: U'_def owned_def\<close>)
  show "stream C w' r = stream C w r" by (simp add: stream_def t w' kept_payload [OF q(2)])
  show "idle C w' r = idle C w r" by (simp add: idle_def w')
  show "inbox (U(r := U r @ [m])) w' r = inbox U w r @ [(unsent (msgs w m), subject_name (msgs w m))]"
    by (simp add: inbox_def w' kept_payload [OF q(2)] same_payload_unsent q(2))
qed

lemma dequeue_userdata_outflow:
  assumes "msgs_ok S C U w" and "c \<in> S" and "U c = m # ms"
  shows "\<exists>w'. dequeue_userdata c w = (Some m, w') \<and> msgs_ok S C (U(c := ms)) w' \<and> others_kept S C U c w w' \<and>
    unowned S C (U(c := ms)) w' m \<and> msg_ok w' m \<and> unsent (msgs w' m) = unsent (msgs w m) \<and>
    subject_name (msgs w' m) = subject_name (msgs w m) \<and> stream C w' c = stream C w c \<and>
    inbox (U(c := ms)) w' c = tl (inbox U w c) \<and> nds w' = nds w \<and>
    (\<forall>x. cls w' x = (cls w x)\<lparr>pending_userdata_queue := pending_userdata_queue (cls w' x)\<rparr>)"
proof -
  define U' where "U' = U(c := ms)"
  obtain r q' s' where e: "mpscq_dequeue (pending_userdata_queue (cls w c)) (msgs w) = (r, q', s')" using prod_cases3 by blast
  define w' where "w' = upd_cl c (\<lambda>s. s\<lparr>pending_userdata_queue := q'\<rparr>) (w\<lparr>msgs := s'\<rparr>)"
  note l = msgs_okD [OF assms(1,2), unfolded local_ok_def]
  have w': "msgs w' = s'" "next_addr w' = next_addr w" "sent w' = sent w"
    "cls w' = (cls w)(c := (cls w c)\<lparr>pending_userdata_queue := q'\<rparr>)" "nds w' = nds w"
    by (simp_all add: w'_def upd_cl_def)
  from dequeue_lemma [of "pending_userdata_queue (cls w c)" "msgs w" m ms] l e assms(3)
  have q: "queue_is q' s' ms" "\<And>x. same_payload (msgs w x) (s' x) \<and> msg_freed (s' x) = msg_freed (msgs w x)" "r = Some m"
    "qmode q' = MODE_MPSC"
    by auto
  have fr: "msgs w' x = msgs w x" if "x \<notin> set (U c)" for x
    unfolding w' by (rule dequeue_frame [where ms = "U c", OF _ e]) (use l that in simp_all)
  have k: "others_kept S C U c w w'"
    by (rule own_nodes [where N = "set (U c)", OF assms(1,2) w'(2) _ fr]) (use w' in \<open>auto simp: owned_def\<close>)
  have mem: "m \<in> set (owned C U w c)" using assms(3) by (simp add: owned_def)
  have mo: "msg_ok w' x = msg_ok w x" for x by (rule msg_ok_payload) (use q(2) w' in simp_all)
  have t: "temps w' c = temps w c" by (simp add: temps_def w')
  have o: "owned C U' w' c = temps w c @ C c @ ms" "owned C U w c = temps w c @ C c @ m # ms"
    using assms(3) by (simp_all add: owned_def t U'_def)
  have "queue_is (pending_ctrl_queue (cls w c)) (msgs w') (C c)"
    by (rule queue_rest [where N = "set (U c)" and w = w, OF _ fr]) (use l o(2) assms(3) in \<open>auto simp: disjoint_iff\<close>)
  then have "local_ok C U' w' c"
    using l q(1,4) unfolding local_ok_def o by (simp add: w'(4) w'(1) U'_def mo)
  then have ok: "msgs_ok S C U' w'"
    by (intro msgs_ok_step [OF assms(1) k _ _ _ assms(2)]) (use o in \<open>auto simp: U'_def\<close>)
  have un: "unowned S C U' w' m"
    unfolding unowned_def
  proof
    fix x assume x: "x \<in> S"
    show "m \<notin> set (owned C U' w' x)"
    proof (cases "x = c")
      case True
      then show ?thesis using l o by auto
    next
      case False
      have "owned C U' w' x = owned C U w x" by (rule owned_other) (use False in \<open>simp_all add: w' U'_def\<close>)
      then show ?thesis using not_others [OF assms(1,2) mem x False] by simp
    qed
  qed
  show ?thesis
  proof (intro exI [of _ w'] conjI)
    show "dequeue_userdata c w = (Some m, w')" by (simp add: dequeue_userdata_def e q(3) w'_def)
    show "stream C w' c = stream C w c" by (simp add: stream_def t w' kept_payload [OF q(2)])
    show "inbox (U(c := ms)) w' c = tl (inbox U w c)"
      using assms(3) by (simp add: inbox_def w' kept_payload [OF q(2)])
    show "msg_ok w' m" using owned_bound [OF assms(1,2) mem] mo by simp
    show "unsent (msgs w' m) = unsent (msgs w m)" "subject_name (msgs w' m) = subject_name (msgs w m)"
      using q(2) [of m] same_payload_unsent by (simp_all add: w')
  qed (use ok un k in \<open>simp_all add: U'_def [symmetric] w'\<close>)
qed

lemma dequeue_userdata_empty:
  assumes "msgs_ok S C U w" and "c \<in> S" and "U c = []"
  shows "\<exists>w1. dequeue_userdata c w = (None, w1) \<and> flow S C U c w C w1 [] \<and> cl_msgs (cls w1 c) = cl_msgs (cls w c)"
proof -
  note l = msgs_okD [OF assms(1,2), unfolded local_ok_def]
  have "mpscq_dequeue (pending_userdata_queue (cls w c)) (msgs w) = (None, pending_userdata_queue (cls w c), msgs w)"
    by (rule dequeue_empty) (use l assms(3) in simp)
  then have "dequeue_userdata c w = (None, upd_cl c (\<lambda>s. s\<lparr>pending_userdata_queue := pending_userdata_queue (cls w c)\<rparr>) (w\<lparr>msgs := msgs w\<rparr>))"
    by (simp add: dequeue_userdata_def)
  moreover have "flow S C U c w C (upd_cl c (\<lambda>s. s\<lparr>pending_userdata_queue := pending_userdata_queue (cls w c)\<rparr>) (w\<lparr>msgs := msgs w\<rparr>)) []"
    by (rule flow_same [OF assms(1)]) (simp_all add: upd_cl_def cl_msgs_def)
  ultimately show ?thesis by (simp add: upd_cl_def cl_msgs_def)
qed

subsection \<open>Responses\<close>

definition plain_node :: "byte list \<Rightarrow> mpsc_msg_node" where
  "plain_node b = \<lparr>msg_next = 0, msg_prev = 0, buf = b, buf_size = length b, buf_offset = 0,
     subject_name = replicate UNAMESIZE 0, msg_freed = False\<rparr>"

lemma plain_node_simps [simp]:
  "unsent (plain_node b) = b" "\<not> msg_freed (plain_node b)" "subject_name (plain_node b) = replicate 32 0"
  "node_ok (plain_node b) = (length b < 2 ^ 32)" "buf (plain_node b) = b"
  by (simp_all add: plain_node_def unsent_def node_ok_def)

lemma new_response_fresh:
  assumes "response_size t \<le> sz" and "sz < 2 ^ 32"
  shows "\<exists>b. new_response sz mt code t w = Some (next_addr w, fresh (plain_node b) w) \<and> length b = sz \<and>
    is_response b mt (padded_optional (Some (be32 code)) 4) t"
proof -
  define g where "g = map (garbage w (next_addr w)) [0..<sz]"
  have "response_size t \<le> length g" using assms(1) by (simp add: g_def)
  from lwmp_prepare_response_ok [OF this, of 4 "Some (be32 code)" mt] obtain b where
    b: "lwmp_prepare_response g mt (Some (be32 code)) 4 t = Some b" "length b = sz"
      "is_response b mt (padded_optional (Some (be32 code)) 4) t" by (auto simp: g_def)
  have "take sz g = g" by (simp add: g_def)
  then have "new_response sz mt code t w = Some (next_addr w, fresh (plain_node b) w)"
    using b(1,2) assms(2)
    by (simp add: new_response_def alloc_msg_def msg_node_create_def Let_def g_def [symmetric] set_msg_buf_def fresh_def plain_node_def)
  then show ?thesis using b(2,3) by blast
qed

text \<open>A client whose connection fails keeps its messages until it is swept.\<close>

lemma cleanup_flow:
  assumes "live w c" and "cl_state (cls w c) \<in> {AUTHENTICATED, DISCONNECTED}" and "msgs_ok S C U w"
  shows "\<exists>w'. cleanup_std_client c w = Some w' \<and> flow S C U c w C w' []"
proof -
  let ?w' = "(if cl_state (cls w c) = AUTHENTICATED then (forget_socket c (forget_queue c (upd_cl c (\<lambda>s. s\<lparr>cl_state := DISCONNECTED\<rparr>) w)))
    \<lparr>dconn_clients := node_arr_add (dconn_clients w) c\<rparr> else w)"
  have "cleanup_std_client c w = Some ?w'"
    using assms(1,2) by (auto simp: cleanup_std_client_def Let_def forget_socket_def forget_queue_def upd_cl_def)
  moreover have "flow S C U c w C ?w' []"
    by (rule flow_same [OF assms(3)]) (simp_all add: forget_socket_def forget_queue_def upd_cl_def cl_msgs_def)
  ultimately show ?thesis by blast
qed

lemma serve_response_flow:
  assumes "logged c w" and "msgs_ok S C U w" and "c \<in> S" and "unowned S C U w m" and "msg_ok w m" and "idle C w c"
  shows "\<exists>w' C'. wt_serve_response c m w = Some w' \<and> flow S C U c w C' w' (unsent (msgs w m)) \<and> idle C' w' c"
proof (cases "temp_send_storage (cls w c) = 0")
  case False
  then show ?thesis
    using enqueue_ctrl_flow [OF assms(2,3,4,5)] assms(1)
    by (intro exI [of _ "enqueue_ctrl c m w"] exI [of _ "C(c := C c @ [m])"])
      (simp add: wt_serve_response_def logged_def idle_def enqueue_ctrl_def upd_cl_def split: prod.splits)
next
  case True
  then have C: "C c = []" using assms(6) by (simp add: idle_def)
  define w0 where "w0 = upd_cl c (\<lambda>s. s\<lparr>temp_send_storage := m\<rparr>) w"
  have f0: "flow S C U c w C w0 (unsent (msgs w m))"
    unfolding w0_def by (rule set_storage_flow [OF assms(2-5) True C])
  have t0: "temp_send_storage (cls w0 c) = m" "m \<noteq> 0" using assms(5) by (simp_all add: w0_def upd_cl_def msg_ok_def)
  have ok0: "msgs_ok S C U w0" using f0 by (simp add: flow_def)
  obtain e w1 where w1: "send_storage True c w0 = Some (e, w1)" "flow S C U c w0 C w1 []" "cls w1 = cls w0" "nds w1 = nds w0"
    "e = Sdone \<Longrightarrow> unsent (msgs w1 m) = []"
    using send_storage_flow [OF ok0 assms(3), of True] t0 by auto
  have f1: "flow S C U c w C w1 (unsent (msgs w m))" using flow_trans [OF f0 w1(2)] by simp
  have ok1: "msgs_ok S C U w1" using f1 by (simp add: flow_def)
  have l: "live w c" "live w1 c" and st: "cl_state (cls w1 c) \<in> {AUTHENTICATED, DISCONNECTED}"
    using assms(1) w1(3,4) by (simp_all add: logged_def live_def w0_def upd_cl_def)
  have eq: "wt_serve_response c m w = (case e of
      Serr \<Rightarrow> cleanup_std_client c w1
    | Sblock \<Rightarrow> Some (w1\<lparr>sock_events := epoll_mod c (True, True) (sock_events w1)\<rparr>)
    | Sdone \<Rightarrow> Some (drop_storage c w1))"
    using True w1(1) l(1) by (cases e) (simp_all add: wt_serve_response_def w0_def)
  have id: "idle C w' c" for w' using C by (simp add: idle_def)
  show ?thesis
  proof (cases e)
    case Serr
    obtain w2 where w2: "cleanup_std_client c w1 = Some w2" "flow S C U c w1 C w2 []"
      using cleanup_flow [OF l(2) st ok1] by blast
    then show ?thesis unfolding eq using Serr flow_trans [OF f1 w2(2)] id by auto
  next
    case Sblock
    have "flow S C U c w1 C (w1\<lparr>sock_events := epoll_mod c (True, True) (sock_events w1)\<rparr>) []"
      by (rule flow_same [OF ok1]) simp_all
    then show ?thesis unfolding eq using Sblock flow_trans [OF f1] id by fastforce
  next
    case Sdone
    have "flow S C U c w1 C (drop_storage c w1) []"
      by (rule drop_storage_flow [OF ok1 assms(3)]) (use t0 w1(3,5) Sdone in simp_all)
    then show ?thesis unfolding eq using Sdone flow_trans [OF f1] id by fastforce
  qed
qed

lemma respond_flow:
  assumes "logged c w" and "msgs_ok S C U w" and "c \<in> S" and "idle C w c" and "\<And>t. t_opt = Some t \<Longrightarrow> length t < 1024"
  shows "\<exists>w' C' b. respond c code t_opt w = Some w' \<and> flow S C U c w C' w' b \<and> idle C' w' c \<and>
    is_response b MT_INFO (padded_optional (Some (be32 code)) 4) t_opt"
proof -
  define sz where "sz = (case t_opt of None \<Rightarrow> LWMP_HDR_SIZE | Some t \<Rightarrow> LWMP_HDR_SIZE + length t + 1)"
  have sz: "response_size t_opt \<le> sz" "sz < 2 ^ 32"
    using assms(5) by (fastforce simp: response_size_def sz_def response_textlen_def split: option.splits)+
  obtain b where b: "new_response sz MT_INFO code t_opt w = Some (next_addr w, fresh (plain_node b) w)" "length b = sz"
    "is_response b MT_INFO (padded_optional (Some (be32 code)) 4) t_opt"
    using new_response_fresh [OF sz] by blast
  have n: "node_ok (plain_node b)" using b(2) sz(2) by simp
  note f = fresh_ok [OF assms(2) n plain_node_simps(2) assms(3)]
  have l1: "logged c (fresh (plain_node b) w)" using assms(1) by (simp add: logged_def live_def)
  have "msgs_ok S C U (fresh (plain_node b) w)" using f(1) by (simp add: flow_def)
  moreover have "idle C (fresh (plain_node b) w) c" using assms(4) by (simp add: idle_def)
  ultimately obtain w' C' where "wt_serve_response c (next_addr w) (fresh (plain_node b) w) = Some w'"
    "flow S C U c (fresh (plain_node b) w) C' w' b" "idle C' w' c"
    using serve_response_flow [OF l1 _ assms(3) f(2,3)] by fastforce
  then show ?thesis
    using b(1,3) flow_trans [OF f(1)] by (fastforce simp: respond_def sz_def)
qed

lemma serve_user_list_flow:
  assumes "logged c w" and "msgs_ok S C U w" and "c \<in> S" and "idle C w c" and "length reqbuf < 2 ^ 32 - 128"
  shows "\<exists>w' C' b. serve_user_list c reqbuf w = Some w' \<and> flow S C U c w C' w' b \<and> idle C' w' c"
proof -
  define sz where "sz = 81 + length reqbuf"
  have sz: "response_size None \<le> sz" "sz < 2 ^ 32" using assms(5) by (simp_all add: response_size_def sz_def)
  obtain b where b: "new_response sz MT_REQ RESP_OK None w = Some (next_addr w, fresh (plain_node b) w)" "length b = sz"
    using new_response_fresh [OF sz] by blast
  obtain b1 where b1: "mem_write b 81 reqbuf = Some b1" "length b1 = sz"
    using mem_write_exists [of 81 reqbuf b] b(2) by (auto simp: sz_def)
  obtain b2 where b2: "mem_write b1 69 (be64 (of_nat (length reqbuf))) = Some b2" "length b2 = sz"
    using mem_write_exists [of 69 "be64 (of_nat (length reqbuf))" b1] b1(2) by (auto simp: sz_def)
  have "mem_read b2 0 77 = Some (take 77 b2)" using b2(2) by (simp add: mem_read_def sz_def)
  moreover obtain b3 where b3: "mem_write b2 77 (be32 (crc32 (take 77 b2))) = Some b3" "length b3 = sz"
    using mem_write_exists [of 77 "be32 (crc32 (take 77 b2))" b2] b2(2) by (auto simp: sz_def)
  ultimately have cr: "store_crc b2 = Some b3" by (simp add: store_crc_def)
  have n: "node_ok (plain_node b3)" using b3(2) sz(2) by simp
  note f = fresh_ok [OF assms(2) n plain_node_simps(2) assms(3)]
  have l1: "logged c (fresh (plain_node b3) w)" using assms(1) by (simp add: logged_def live_def)
  have "msgs_ok S C U (fresh (plain_node b3) w)" using f(1) by (simp add: flow_def)
  moreover have "idle C (fresh (plain_node b3) w) c" using assms(4) by (simp add: idle_def)
  ultimately obtain w' C' where s: "wt_serve_response c (next_addr w) (fresh (plain_node b3) w) = Some w'"
    "flow S C U c (fresh (plain_node b3) w) C' w' b3" "idle C' w' c"
    using serve_response_flow [OF l1 _ assms(3) f(2,3)] by fastforce
  have "set_msg_buf (next_addr w) b3 (fresh (plain_node b) w) = fresh (plain_node b3) w"
    using b(2) b3(2) by (simp add: set_msg_buf_def fresh_def plain_node_def)
  then have "serve_user_list c reqbuf w = Some w'"
    using b(1) b1(1) b2(1) cr s(1) by (simp add: serve_user_list_def sz_def)
  then show ?thesis using s(2,3) flow_trans [OF f(1)] by fastforce
qed

lemma answer_request_flow:
  assumes "logged c w" and "msgs_ok S C U w" and "c \<in> S" and "idle C w c" and "LWMP_HDR_SIZE \<le> length (rbuf (recvbuf (rcv w c)))"
  shows "\<exists>w' C' b. answer_request c w = Some w' \<and> flow S C U c w C' w' b \<and> idle C' w' c"
proof -
  from handle_request_ok [OF assms(1,5)] obtain rb where
    rb: "handle_request (rbuf (recvbuf (rcv w c))) w = Some rb" "length rb < 2 ^ 32 - 128" by blast
  have "length (lit ''Failed to process request.'') < 1024" by (simp add: lit_def)
  then show ?thesis
    using respond_flow [OF assms(1-4), of "Some (lit ''Failed to process request.'')" RESP_INVAL_REQ]
      serve_user_list_flow [OF assms(1-4) rb(2)] rb(1)
    by (cases "rb = []") (auto simp: answer_request_def)
qed

lemma respond_unreachable_flow:
  assumes "logged c w" and "msgs_ok S C U w" and "c \<in> S" and "idle C w c"
  shows "\<exists>w' C' b. respond_unreachable c w = Some w' \<and> flow S C U c w C' w' b \<and> idle C' w' c"
proof -
  have "length (unreachable_text d) < 1024" for d by (simp add: unreachable_text_def)
  then show ?thesis
    unfolding respond_unreachable_def
    using respond_flow [OF assms, of "Some (unreachable_text (dest_uname (rcv w c)))" RESP_DCONN_SUBJ] by fastforce
qed

text \<open>Delivery to a client: one message more in its inbox, from the sender.\<close>

lemma deliver_fresh: "deliver r nd w = enqueue_userdata r (next_addr w) (fresh nd w)"
  by (simp add: deliver_def fresh_def)

lemma message_node_simps [simp]:
  "unsent (message_node b nm) = b" "\<not> msg_freed (message_node b nm)" "subject_name (message_node b nm) = strncpy_bytes nm 32"
  "node_ok (message_node b nm) = (length b < 2 ^ 32)"
  by (simp_all add: message_node_def unsent_def node_ok_def)

lemma deliver_inflow:
  assumes "msgs_ok S C U w" and "r \<in> S" and "node_ok nd" and "\<not> msg_freed nd"
  defines "U' \<equiv> U(r := U r @ [next_addr w])"
  shows "msgs_ok S C U' (deliver r nd w)" and "inbox U' (deliver r nd w) r = inbox U w r @ [(unsent nd, subject_name nd)]"
    and "x \<in> S \<Longrightarrow> stream C (deliver r nd w) x = stream C w x \<and> idle C (deliver r nd w) x = idle C w x"
    and "x \<in> S \<Longrightarrow> x \<noteq> r \<Longrightarrow> inbox U' (deliver r nd w) x = inbox U w x"
proof -
  note f = fresh_ok [OF assms(1,3,4,2)]
  have ok: "msgs_ok S C U (fresh nd w)" using f(1) by (simp add: flow_def)
  note d = enqueue_userdata_inflow [OF ok assms(2) f(2,3), folded deliver_fresh]
  show "msgs_ok S C U' (deliver r nd w)" using d(1) by (simp add: U'_def)
  show "inbox U' (deliver r nd w) r = inbox U w r @ [(unsent nd, subject_name nd)]"
    using d(5) f(1) by (simp add: U'_def flow_def)
  have fs: "stream C (fresh nd w) x = stream C w x \<and> idle C (fresh nd w) x = idle C w x \<and> inbox U (fresh nd w) x = inbox U w x"
    if "x \<in> S" for x
    using flow_others [OF f(1) that] f(1) by (cases "x = r") (simp_all add: flow_def idle_def)
  have o: "stream C (deliver r nd w) x = stream C (fresh nd w) x \<and> idle C (deliver r nd w) x = idle C (fresh nd w) x \<and>
      (x \<noteq> r \<longrightarrow> inbox U' (deliver r nd w) x = inbox U (fresh nd w) x)" if "x \<in> S" for x
    using others_streams [OF d(2) that, of C U'] d(3,4) by (cases "x = r") (simp_all add: U'_def)
  show "x \<in> S \<Longrightarrow> stream C (deliver r nd w) x = stream C w x \<and> idle C (deliver r nd w) x = idle C w x"
    and "x \<in> S \<Longrightarrow> x \<noteq> r \<Longrightarrow> inbox U' (deliver r nd w) x = inbox U w x"
    using o [of x] fs [of x] by simp_all
qed

subsection \<open>The steps of the inbound path keep the ownership\<close>

definition owns :: "addr set \<Rightarrow> worker \<Rightarrow> bool" where
  "owns S w \<longleftrightarrow> ht_nodes (std_cl_table w) \<subseteq> S \<and> (\<exists>C U. msgs_ok S C U w \<and> (\<forall>c \<in> S. idle C w c))"

definition own_step :: "addr set \<Rightarrow> nat \<Rightarrow> addr \<Rightarrow> worker \<Rightarrow> worker \<Rightarrow> bool" where
  "own_step S n c w w' \<longleftrightarrow> inb_frame n c w w' \<and> (c \<in> S \<longrightarrow> owns S w \<longrightarrow> owns S w')"

definition own_quiet :: "addr set \<Rightarrow> nat \<Rightarrow> addr \<Rightarrow> worker \<Rightarrow> worker \<Rightarrow> bool" where
  "own_quiet S n c w w' \<longleftrightarrow> quiet_step n c w w' \<and> own_step S n c w w'"

lemma own_step_refl: "own_step S n c w w"
  by (simp add: own_step_def inb_frame_refl)

lemma own_step_trans: "own_step S n c w w1 \<Longrightarrow> own_step S n c w1 w2 \<Longrightarrow> own_step S n c w w2"
  unfolding own_step_def using inb_frame_trans by blast

lemma own_step_frame: "own_step S n c w w' \<Longrightarrow> inb_frame n c w w'"
  by (simp add: own_step_def)

lemma logged_own: "logged c w \<Longrightarrow> own_step S n c w w' \<Longrightarrow> logged c w'"
  using logged_frame own_step_frame by blast

lemma next_addr_own: "own_step S n c w w' \<Longrightarrow> n \<le> next_addr w \<Longrightarrow> n \<le> next_addr w'"
  by (auto simp: own_step_def inb_frame_def)

lemma own_quietD:
  assumes "own_quiet S n c w w'"
  shows "own_step S n c w w'" and "rcv w' c = rcv w c" and "inputs w' = inputs w"
  using assms by (simp_all add: own_quiet_def quiet_step_def)

lemma own_quiet_step: "own_quiet S n c w w' \<Longrightarrow> own_step S n c w w'"
  by (simp add: own_quiet_def)

lemma owns_flow:
  assumes "inb_frame n c w w'"
    and "\<And>C U. c \<in> S \<Longrightarrow> msgs_ok S C U w \<Longrightarrow> idle C w c \<Longrightarrow> \<exists>C' b. flow S C U c w C' w' b \<and> idle C' w' c"
  shows "own_step S n c w w'"
  unfolding own_step_def
proof (intro conjI impI)
  assume c: "c \<in> S" and o: "owns S w"
  then obtain C U where cu: "msgs_ok S C U w" "\<forall>x \<in> S. idle C w x" by (auto simp: owns_def)
  then obtain C' b where f: "flow S C U c w C' w' b" "idle C' w' c" using assms(2) c by blast
  have "idle C' w' x" if "x \<in> S" for x
    using flow_others(3) [OF f(1) that] f(2) cu(2) that by (cases "x = c") auto
  moreover have "std_cl_table w' = std_cl_table w" using assms(1) by (simp add: inb_frame_def kept_def)
  ultimately show "owns S w'" using o f(1) by (auto simp: owns_def flow_def)
qed (rule assms(1))

lemma own_same:
  assumes "inb_frame n c w w'" and "msgs w' = msgs w" and "next_addr w' = next_addr w" and "sent w' = sent w"
    and "\<And>x. cl_msgs (cls w' x) = cl_msgs (cls w x)"
  shows "own_step S n c w w'"
proof (rule owns_flow [OF assms(1)])
  fix C U assume "msgs_ok S C U w" "idle C w c"
  then show "\<exists>C' b. flow S C U c w C' w' b \<and> idle C' w' c"
    using flow_same [OF _ assms(2-5), of S C U c] assms(5) [of c] by (auto simp: idle_def cl_msgs_def)
qed

lemma set_rcv_own: "own_step S n c w (set_rcv c rm w)"
  by (rule own_same [OF set_rcv_frame]) (simp_all add: set_rcv_def upd_cl_def cl_msgs_def)

lemma cleanup_own:
  assumes "logged c w"
  shows "\<exists>w'. cleanup_std_client c w = Some w' \<and> own_quiet S n c w w'"
proof -
  obtain w' where w': "cleanup_std_client c w = Some w'" "quiet_step n c w w'" using cleanup_logged [OF assms] by blast
  have l: "live w c" "cl_state (cls w c) \<in> {AUTHENTICATED, DISCONNECTED}" using assms by (simp_all add: logged_def)
  have "own_step S n c w w'"
  proof (rule own_same)
    show "inb_frame n c w w'" using w'(2) by (simp add: quiet_step_def)
  qed (use w'(1) l in \<open>auto simp: cleanup_std_client_def Let_def forget_socket_def forget_queue_def upd_cl_def cl_msgs_def\<close>)
  then show ?thesis using w' by (auto simp: own_quiet_def)
qed

lemma own_quietI:
  assumes "quiet_step n c w w'"
    and "\<And>C U. c \<in> S \<Longrightarrow> msgs_ok S C U w \<Longrightarrow> idle C w c \<Longrightarrow> \<exists>C' b. flow S C U c w C' w' b \<and> idle C' w' c"
  shows "own_quiet S n c w w'"
  using owns_flow [OF _ assms(2)] assms(1) unfolding own_quiet_def quiet_step_def by blast

lemma respond_own:
  assumes "logged c w" and "n \<le> next_addr w" and "\<And>t. t_opt = Some t \<Longrightarrow> length t < 1024"
  shows "\<exists>w'. respond c code t_opt w = Some w' \<and> own_quiet S n c w w'"
proof -
  obtain w' where w': "respond c code t_opt w = Some w'" "quiet_step n c w w'" using respond_quiet [OF assms] by blast
  have "own_quiet S n c w w'"
    by (rule own_quietI [OF w'(2)]) (use respond_flow [where code = code, OF assms(1) _ _ _ assms(3)] w'(1) in fastforce)
  with w' show ?thesis by blast
qed

lemma answer_request_own:
  assumes "logged c w" and "n \<le> next_addr w" and "LWMP_HDR_SIZE \<le> length (rbuf (recvbuf (rcv w c)))"
  shows "\<exists>w'. answer_request c w = Some w' \<and> own_quiet S n c w w'"
proof -
  obtain w' where w': "answer_request c w = Some w'" "quiet_step n c w w'" using answer_request_quiet [OF assms] by blast
  have "own_quiet S n c w w'"
    by (rule own_quietI [OF w'(2)]) (use answer_request_flow [OF assms(1) _ _ _ assms(3), of S] w'(1) in fastforce)
  with w' show ?thesis by blast
qed

lemma respond_unreachable_own:
  assumes "logged c w" and "n \<le> next_addr w"
  shows "\<exists>w'. respond_unreachable c w = Some w' \<and> own_quiet S n c w w'"
proof -
  obtain w' where w': "respond_unreachable c w = Some w'" "quiet_step n c w w'"
    using respond_unreachable_quiet [OF assms] by blast
  have "own_quiet S n c w w'"
    by (rule own_quietI [OF w'(2)]) (use respond_unreachable_flow [OF assms(1), of S] w'(1) in fastforce)
  with w' show ?thesis by blast
qed

lemma deliver_own:
  assumes "n \<le> next_addr w" and "r \<in> ht_nodes (std_cl_table w)" and "node_ok nd" and "\<not> msg_freed nd"
  shows "own_quiet S n c w (deliver r nd w)"
proof -
  have q: "quiet_step n c w (deliver r nd w)" by (rule deliver_quiet [OF assms(1)])
  have "owns S (deliver r nd w)" if ow: "owns S w"
  proof -
    obtain C U where cu: "msgs_ok S C U w" "\<forall>x \<in> S. idle C w x" and r: "r \<in> S"
      using ow assms(2) unfolding owns_def by blast
    have "std_cl_table (deliver r nd w) = std_cl_table w" using q by (simp add: quiet_step_def inb_frame_def kept_def)
    then show ?thesis
      using deliver_inflow(1,3) [OF cu(1) r assms(3,4)] cu(2) ow by (auto simp: owns_def)
  qed
  then show ?thesis using q by (simp add: own_quiet_def own_step_def quiet_step_def)
qed

text \<open>A receiving phase changes no message.\<close>

lemma receive_own:
  assumes "logged c w" and "receive c first counted cond len blocked w = Some (st, w')" and "inb_frame n c w w'"
  shows "own_step S n c w w'"
proof -
  obtain e rm inp where r: "recv_while first counted cond len (rcv w c) (inputs w c) = Some (e, rm, inp)"
    using assms(2) by (auto simp: receive_def split: option.splits)
  define w1 where "w1 = set_rcv c rm (w\<lparr>inputs := (inputs w)(c := inp)\<rparr>)"
  have f0: "inb_frame n c w (w\<lparr>inputs := (inputs w)(c := inp)\<rparr>)" for n by (simp add: frame_defs)
  have s1: "own_step S n c w w1" for n
  proof (rule own_same)
    show "inb_frame n c w w1" unfolding w1_def by (rule inb_frame_trans [OF f0 set_rcv_frame])
  qed (simp_all add: w1_def set_rcv_def upd_cl_def cl_msgs_def)
  have "logged c w1" by (rule logged_frame [OF assms(1) own_step_frame [OF s1, of n]])
  then obtain w2 where w2: "cleanup_std_client c w1 = Some w2" "own_quiet S n c w1 w2" using cleanup_own by blast
  have "w' = w1 \<or> w' = w2"
    using assms(2) w2(1) by (cases e) (auto simp: receive_def r w1_def)
  then show ?thesis using s1 own_step_trans own_quiet_step w2(2) by blast
qed

end
