(* ===== verification/Delivery.thy ===== *)
theory Delivery
  imports Ownership
begin

text \<open>
  What \<open>wt_handle_inbound_data\<close> of \<open>server/worker.c\<close> guarantees: it stays within its buffers on every input,
  and it delivers what it should. The phases of the function are taken in turn; the invariant \<open>recv_ok\<close> of a
  client's receive storage holds between calls.
\<close>

subsection \<open>The phases keep within the buffer\<close>

lemma off_of_simps [simp]:
  "off_of (rm\<lparr>rmsg_type := a, dest_uname := b, expected_msg_size := e, total_msg_data_recved := t\<rparr>) = off_of rm"
  "off_of (rm\<lparr>is_desynced := d\<rparr>) = off_of rm" "off_of (rm\<lparr>not_msg_init_pdu := d\<rparr>) = off_of rm"
  "off_of (set_offset n rm) = n" "size_of (set_offset n rm) = size_of rm"
  "size_of (rm\<lparr>rmsg_type := a, dest_uname := b, expected_msg_size := e, total_msg_data_recved := t\<rparr>) = size_of rm"
  "size_of (rm\<lparr>is_desynced := d\<rparr>) = size_of rm" "size_of (rm\<lparr>not_msg_init_pdu := d\<rparr>) = size_of rm"
  by (simp_all add: off_of_def size_of_def set_offset_def)

lemma set_offset_fields [simp]:
  "rmsg_type (set_offset n rm) = rmsg_type rm" "expected_msg_size (set_offset n rm) = expected_msg_size rm"
  "total_msg_data_recved (set_offset n rm) = total_msg_data_recved rm" "dest_uname (set_offset n rm) = dest_uname rm"
  "not_msg_init_pdu (set_offset n rm) = not_msg_init_pdu rm" "is_desynced (set_offset n rm) = is_desynced rm"
  "rbuf (recvbuf (set_offset n rm)) = rbuf (recvbuf rm)" "rbuf_size (recvbuf (set_offset n rm)) = rbuf_size (recvbuf rm)"
  by (simp_all add: set_offset_def)

text \<open>The outcome of a phase: it returns, within the frame of the client, with a storage as described.\<close>

definition phase_ok :: "addr set \<Rightarrow> nat \<Rightarrow> addr \<Rightarrow> worker \<Rightarrow> (wt_inb_data_status option \<Rightarrow> curr_recv_msg \<Rightarrow> bool) \<Rightarrow> phase \<Rightarrow> bool" where
  "phase_ok S n c w Q p \<longleftrightarrow> (\<exists>st w'. p = Some (st, w') \<and> own_step S n c w w' \<and> Q st (rcv w' c))"

lemma phase_okI: "p = Some (st, w') \<Longrightarrow> own_step S n c w w' \<Longrightarrow> Q st (rcv w' c) \<Longrightarrow> phase_ok S n c w Q p"
  by (auto simp: phase_ok_def)

lemma phase_ok_mono: "phase_ok S n c w Q p \<Longrightarrow> (\<And>st rm. Q st rm \<Longrightarrow> R st rm) \<Longrightarrow> phase_ok S n c w R p"
  by (auto simp: phase_ok_def)

lemma phase_ok_frame: "own_step S n c w w1 \<Longrightarrow> phase_ok S n c w1 Q p \<Longrightarrow> phase_ok S n c w Q p"
  by (auto simp: phase_ok_def intro: own_step_trans)

text \<open>Sequential composition.\<close>

lemma phase_ok_and_then:
  assumes "phase_ok S n c w Q p" and "logged c w" and "n \<le> next_addr w"
    and "\<And>st rm. Q (Some st) rm \<Longrightarrow> R (Some st) rm"
    and "\<And>w'. logged c w' \<Longrightarrow> n \<le> next_addr w' \<Longrightarrow> Q None (rcv w' c) \<Longrightarrow> phase_ok S n c w' R (f w')"
  shows "phase_ok S n c w R (and_then p f)"
proof -
  obtain st w1 where p: "p = Some (st, w1)" "own_step S n c w w1" "Q st (rcv w1 c)"
    using assms(1) by (auto simp: phase_ok_def)
  have w1: "logged c w1" "n \<le> next_addr w1"
    using logged_own [OF assms(2) p(2)] next_addr_own [OF p(2) assms(3)] by simp_all
  show ?thesis
  proof (cases st)
    case None
    then show ?thesis using p assms(5) [OF w1] phase_ok_frame [OF p(2)] by (simp add: and_then_def)
  next
    case (Some s)
    then show ?thesis using p assms(4) by (auto simp: and_then_def phase_ok_def)
  qed
qed

text \<open>A receiving loop as a phase; one whose condition is false at the start does nothing.\<close>

lemma receive_phase:
  assumes "logged c w" and "buf_ok (rcv w c)" and "offset_in (rcv w c) \<le> B" and "B \<le> LWMP_MAX_PDU_SIZE"
    and "\<And>d. fits d (rcv w c) \<Longrightarrow> offset_in (rcv w c) + length d \<le> B \<Longrightarrow> first \<or> cond (received counted d (rcv w c)) \<Longrightarrow>
      offset_in (rcv w c) + length d + unat (len (received counted d (rcv w c))) \<le> B"
    and "\<And>st d. fits d (rcv w c) \<Longrightarrow> offset_in (rcv w c) + length d \<le> B \<Longrightarrow>
      st = Some WT_DCONN \<or> st = blocked \<or> st = None \<and> \<not> cond (received counted d (rcv w c)) \<Longrightarrow> Q st (received counted d (rcv w c))"
  shows "phase_ok S n c w Q (receive c first counted cond len blocked w)"
proof -
  from receive_ok [where n = n and blocked = blocked, OF assms(1,5,3,4,2)] obtain st d w' where
    r: "receive c first counted cond len blocked w = Some (st, w')" "inb_frame n c w w'"
      "rcv w' c = received counted d (rcv w c)" "fits d (rcv w c)" "offset_in (rcv w c) + length d \<le> B"
      "st = Some WT_DCONN \<or> st = blocked \<or> st = None \<and> \<not> cond (rcv w' c)" by blast
  have "Q st (rcv w' c)" unfolding r(3) by (rule assms(6)) (use r in auto)
  with r(1) receive_own [OF assms(1) r(1,2)] show ?thesis by (rule phase_okI)
qed

lemma receive_skip:
  assumes "\<not> cond (rcv w c)" and "Q None (rcv w c)"
  shows "phase_ok S n c w Q (receive c False counted cond len blocked w)"
proof (rule phase_okI)
  show "receive c False counted cond len blocked w =
      Some (None, set_rcv c (rcv w c) (w\<lparr>inputs := (inputs w)(c := inputs w c)\<rparr>))"
    unfolding receive_def recv_while_skip [of cond, OF assms(1)] by simp
qed (use assms(2) in \<open>simp_all add: set_rcv_def upd_cl_def own_step_refl\<close>)

lemma recv_okD: "recv_ok rm \<Longrightarrow> buf_ok rm" "recv_ok rm \<Longrightarrow> dest_ok rm"
  by (simp_all add: recv_ok_def)

lemma buf_okD:
  assumes "buf_ok rm"
  shows "offset_in rm \<le> 4096" "size_of rm = 4096" "length (rbuf (recvbuf rm)) = 4096"
  using assms by (simp_all add: buf_ok_def offset_in_off_of)

lemma unat_room:
  assumes "unat (off :: u32) \<le> unat (n :: u32)"
  shows "unat (ucast (n - off) :: u64) = unat n - unat off"
proof -
  have "unat (n - off) < 2 ^ 64" using unat_u32_less [of "n - off"] by simp
  then show ?thesis using assms by (simp add: unsigned_ucast_eq take_bit_eq_mod unat_sub word_le_nat_alt)
qed

lemma unat_min_le: "unat (min (a :: u64) b) \<le> unat b"
  by (simp add: min_def word_le_nat_alt)

text \<open>Resynchronisation.\<close>

definition resynced :: "addr \<Rightarrow> worker \<Rightarrow> phase" where
  "resynced c w =
     (case lwmp_stream_resync (rbuf (recvbuf (rcv w c))) (unat (off_of (rcv w c))) of
        None \<Rightarrow> None
      | Some (b, new_offset) \<Rightarrow>
          let rm = (rcv w c)\<lparr>recvbuf := (recvbuf (rcv w c))\<lparr>rbuf := b, buf_data_offset := of_nat new_offset\<rparr>\<rparr>
          in if new_offset \<noteq> 0 then Some (None, set_rcv c (rm\<lparr>is_desynced := False\<rparr>) w)
             else Some (Some WT_STOP_EBLK, set_rcv c rm w))"

lemma inb_resync_alt: "inb_resync c w =
    (if \<not> is_desynced (rcv w c) then Some (None, w)
     else and_then (receive c True False (\<lambda>rm. off_of rm \<noteq> size_of rm) (\<lambda>rm. ucast (size_of rm - off_of rm)) None w) (resynced c))"
  by (simp add: inb_resync_def resynced_def [abs_def])

lemma resynced_phase:
  assumes "recv_ok (rcv w c)" and "is_desynced (rcv w c)"
  shows "phase_ok S n c w (\<lambda>st rm. recv_ok rm \<and> (st = None \<longrightarrow> \<not> is_desynced rm)) (resynced c w)"
proof -
  note b = buf_okD [OF recv_okD(1) [OF assms(1)]]
  have "unat (off_of (rcv w c)) \<le> length (rbuf (recvbuf (rcv w c)))" using b by (simp add: offset_in_off_of)
  from resync_meets_spec [OF this] obtain buf' k where
    r: "lwmp_stream_resync (rbuf (recvbuf (rcv w c))) (unat (off_of (rcv w c))) = Some (buf', k)"
      "resync_spec (rbuf (recvbuf (rcv w c))) (unat (off_of (rcv w c))) buf' k" by blast
  have k: "length buf' = 4096" "k \<le> 4096"
    using r(2) b by (auto simp: resync_spec_def offset_in_off_of split: option.splits)
  define rm where "rm = (rcv w c)\<lparr>recvbuf := (recvbuf (rcv w c))\<lparr>rbuf := buf', buf_data_offset := of_nat k\<rparr>\<rparr>"
  have "recv_ok rm" "recv_ok (rm\<lparr>is_desynced := False\<rparr>)"
    using assms k by (auto simp: recv_ok_def buf_ok_def dest_ok_def rm_def off_of_def size_of_def unat_of_nat take_bit_eq_mod)
  moreover have "resynced c w =
      (if k \<noteq> 0 then Some (None, set_rcv c (rm\<lparr>is_desynced := False\<rparr>) w) else Some (Some WT_STOP_EBLK, set_rcv c rm w))"
    unfolding resynced_def r(1) by (simp add: rm_def Let_def)
  ultimately show ?thesis by (auto simp: phase_ok_def intro: set_rcv_own)
qed

lemma inb_resync_phase:
  assumes "logged c w" and "recv_ok (rcv w c)" and "n \<le> next_addr w"
  shows "phase_ok S n c w (\<lambda>st rm. recv_ok rm \<and> (st = None \<longrightarrow> \<not> is_desynced rm)) (inb_resync c w)"
proof (cases "is_desynced (rcv w c)")
  case False
  then show ?thesis
    using assms(2) by (intro phase_okI [of _ None w]) (simp_all add: inb_resync_def own_step_refl)
next
  case True
  note b = buf_okD [OF recv_okD(1) [OF assms(2)]]
  have "phase_ok S n c w (\<lambda>st rm. recv_ok rm \<and> is_desynced rm)
      (receive c True False (\<lambda>rm. off_of rm \<noteq> size_of rm) (\<lambda>rm. ucast (size_of rm - off_of rm)) None w)"
  proof (rule receive_phase [OF assms(1) recv_okD(1) [OF assms(2)] b(1)])
    fix d assume d: "fits d (rcv w c)" "offset_in (rcv w c) + length d \<le> 4096"
    note o = off_of_received [OF d(1), of False]
    have "unat (off_of (received False d (rcv w c))) \<le> unat (4096 :: u32)"
      using o d(2) by (simp add: offset_in_off_of)
    from unat_room [OF this] show "offset_in (rcv w c) + length d +
      unat (ucast (size_of (received False d (rcv w c)) - off_of (received False d (rcv w c))) :: u64) \<le> 4096"
      using o b(2) d(2) by (simp add: offset_in_off_of)
  next
    fix d assume "fits d (rcv w c)"
    from buf_ok_received [OF recv_okD(1) [OF assms(2)] this, of False]
    show "recv_ok (received False d (rcv w c)) \<and> is_desynced (received False d (rcv w c))"
      using True assms(2) by (auto simp: recv_ok_def dest_ok_def)
  qed simp
  then have "phase_ok S n c w (\<lambda>st rm. recv_ok rm \<and> (st = None \<longrightarrow> \<not> is_desynced rm))
      (and_then (receive c True False (\<lambda>rm. off_of rm \<noteq> size_of rm) (\<lambda>rm. ucast (size_of rm - off_of rm)) None w) (resynced c))"
    by (rule phase_ok_and_then [OF _ assms(1,3)]) (simp, rule resynced_phase, simp_all)
  then show ?thesis using True by (simp add: inb_resync_alt)
qed

lemma take_cong_slice:
  assumes "take n x = take n y" and "p + k \<le> n"
  shows "take k (drop p x) = take k (drop p y)"
proof -
  have "take (k + p) x = take (k + p) y"
    using arg_cong [OF assms(1), of "take (k + p)"] assms(2) by (simp add: min_def add.commute)
  then show ?thesis by (simp add: take_drop)
qed

text \<open>The header. Once it has been read, more input leaves it in place.\<close>

lemma header_read_received:
  assumes "header_read rm" and "fits d rm"
  shows "header_read (received True d rm)"
proof -
  have off: "81 \<le> unat (off_of rm)" using assms(1) by (simp add: header_read_def)
  define b where "b = rbuf (recvbuf rm)"
  have le: "unat (off_of rm) \<le> length b" using assms(2) by (simp add: fits_def b_def off_of_def)
  have pre: "take 81 (rbuf (recvbuf (received True d rm))) = take 81 b"
    using off le by (simp add: received_rbuf b_def off_of_def min_def)
  have len: "length (rbuf (recvbuf (received True d rm))) = length b"
    using length_received [OF assms(2)] by (simp add: b_def)
  have rd: "mem_read (rbuf (recvbuf (received True d rm))) p k = mem_read b p k" if "p + k \<le> 81" for p k
    using take_cong_slice [OF pre that] that len off le by (simp add: mem_read_def)
  have "rbuf (recvbuf (received True d rm)) ! 4 = b ! 4"
    using arg_cong [OF pre, of "\<lambda>l. l ! 4"] by simp
  moreover have "total_msg_data_recved (received True d rm) = of_nat (unat (off_of (received True d rm)) - 81)"
    using assms off by (simp add: received_total off_of_received header_read_def of_nat_diff)
  ultimately show ?thesis
    using assms off rd [of 69 8] len off_of_received [OF assms(2), of True]
    by (simp add: header_read_def load64_def load8_def b_def split: if_splits)
qed

lemma inb_header_phase:
  assumes "logged c w" and "recv_ok (rcv w c)" and "\<not> is_desynced (rcv w c)" and "\<not> not_msg_init_pdu (rcv w c)"
  shows "phase_ok S n c w (\<lambda>st rm. recv_ok rm \<and> \<not> is_desynced rm \<and> \<not> not_msg_init_pdu rm \<and> (st = None \<longrightarrow> LWMP_HDR_SIZE \<le> unat (off_of rm)))
    (inb_header c w)"
proof (cases "LWMP_HDR_SIZE \<le> unat (off_of (rcv w c))")
  case True
  then show ?thesis unfolding inb_header_def using assms
    by (intro receive_skip) (simp_all add: word_less_nat_alt)
next
  case False
  show ?thesis
    unfolding inb_header_def
  proof (rule receive_phase [OF assms(1) recv_okD(1) [OF assms(2)]])
    show "offset_in (rcv w c) \<le> 81" using False by (simp add: offset_in_off_of)
  next
    fix d assume d: "fits d (rcv w c)" "offset_in (rcv w c) + length d \<le> 81"
    note o = off_of_received [OF d(1), of False]
    have "unat (off_of (received False d (rcv w c))) \<le> unat (81 :: u32)"
      using o d(2) by (simp add: offset_in_off_of)
    from unat_room [OF this] show "offset_in (rcv w c) + length d +
      unat (ucast (of_nat LWMP_HDR_SIZE - off_of (received False d (rcv w c)) :: u32) :: u64) \<le> 81"
      using o d(2) by (simp add: offset_in_off_of)
  next
    fix st :: "wt_inb_data_status option" and d
    assume d: "fits d (rcv w c)" "offset_in (rcv w c) + length d \<le> 81"
      and st: "st = Some WT_DCONN \<or> st = Some WT_STOP_EBLK \<or> st = None \<and> \<not> off_of (received False d (rcv w c)) < of_nat LWMP_HDR_SIZE"
    have "\<not> header_read (rcv w c)" using False by (simp add: header_read_def)
    then have "rmsg_type (rcv w c) = 0" "expected_msg_size (rcv w c) = 0" using assms(2,4) by (auto simp: recv_ok_def)
    then show "recv_ok (received False d (rcv w c)) \<and> \<not> is_desynced (received False d (rcv w c)) \<and>
        \<not> not_msg_init_pdu (received False d (rcv w c)) \<and> (st = None \<longrightarrow> 81 \<le> unat (off_of (received False d (rcv w c))))"
      using st assms(2-4) buf_ok_received [OF recv_okD(1) [OF assms(2)] d(1), of False]
      by (auto simp: recv_ok_def dest_ok_def word_less_nat_alt)
  qed simp
qed

text \<open>Reading it into the storage.\<close>

definition parsed_ok :: "curr_recv_msg \<Rightarrow> bool" where
  "parsed_ok rm \<longleftrightarrow> buf_ok rm \<and> header_read rm \<and> \<not> is_desynced rm \<and> \<not> not_msg_init_pdu rm \<and>
     (rmsg_type rm = ucast MT_REQ \<longrightarrow> cstr (dest_uname rm) = [])"

lemma recv_ok_parsed: "parsed_ok rm \<Longrightarrow> expected_msg_size rm \<noteq> 0 \<Longrightarrow> recv_ok rm"
  by (auto simp: parsed_ok_def recv_ok_def dest_ok_def)

lemma parse_header_ok:
  assumes "recv_ok rm" and "\<not> is_desynced rm" and "\<not> not_msg_init_pdu rm" and "LWMP_HDR_SIZE \<le> unat (off_of rm)"
  shows "\<exists>rm'. parse_header rm = Some rm' \<and> parsed_ok rm'"
proof (cases "rmsg_type rm \<noteq> 0 \<or> expected_msg_size rm \<noteq> 0")
  case True
  then show ?thesis using assms by (auto simp: parse_header_def recv_ok_def parsed_ok_def dest_ok_def)
next
  case False
  have b: "length (rbuf (recvbuf rm)) = 4096" "length (dest_uname rm) = 32" "cstr (dest_uname rm) = []"
    using assms(1) False by (simp_all add: recv_ok_def buf_ok_def dest_ok_def)
  define t where "t = of_be64 (take 8 (drop 69 (rbuf (recvbuf rm))))"
  have ld: "load8 (rbuf (recvbuf rm)) 4 = Some (rbuf (recvbuf rm) ! 4)"
    "mem_read (rbuf (recvbuf rm)) 5 32 = Some (take 32 (drop 5 (rbuf (recvbuf rm))))"
    "load64 (rbuf (recvbuf rm)) 69 = Some t"
    using b(1) by (simp_all add: load8_Some load64_Some mem_read_def t_def)
  have tot: "(ucast (off_of rm) - 81 :: u64) = of_nat (unat (off_of rm) - 81)"
    using assms(4) by (simp add: of_nat_diff)
  show ?thesis
    using False ld assms b tot
    by (auto simp: parse_header_def parsed_ok_def header_read_def buf_ok_def recv_ok_def Let_def simp del: of_nat_diff)
qed

text \<open>The body of the first PDU.\<close>

lemma inb_body_phase:
  assumes "logged c w" and "parsed_ok (rcv w c)"
  shows "phase_ok S n c w (\<lambda>st rm. parsed_ok rm \<and> (st \<noteq> None \<longrightarrow> expected_msg_size rm \<noteq> 0)) (inb_body c w)"
proof (cases "ucast (off_of (rcv w c)) < min (of_nat LWMP_HDR_SIZE + expected_msg_size (rcv w c)) (ucast (size_of (rcv w c)))")
  case False
  then show ?thesis unfolding inb_body_def using assms(2) by (intro receive_skip) simp_all
next
  case True
  have p: "buf_ok (rcv w c)" "81 \<le> unat (off_of (rcv w c))"
    using assms(2) by (simp_all add: parsed_ok_def header_read_def)
  note b = buf_okD [OF p(1)]
  have e: "expected_msg_size (rcv w c) \<noteq> 0"
  proof
    assume "expected_msg_size (rcv w c) = 0"
    then have "(ucast (off_of (rcv w c)) :: u64) < 81" using True by simp
    then have "unat (ucast (off_of (rcv w c)) :: u64) < unat (81 :: u64)" by (simp only: word_less_nat_alt)
    then show False using p(2) unat_u32_less [of "off_of (rcv w c)"] by (simp add: unsigned_ucast_eq take_bit_eq_mod)
  qed
  show ?thesis
    unfolding inb_body_def
  proof (rule receive_phase [OF assms(1) p(1) b(1)])
    fix d assume d: "fits d (rcv w c)" "offset_in (rcv w c) + length d \<le> 4096"
    let ?rm = "received True d (rcv w c)"
    note o = off_of_received [OF d(1), of True]
    have "unat (off_of ?rm) \<le> unat (4096 :: u32)" using o d(2) by (simp add: offset_in_off_of)
    from unat_room [OF this] have "unat (ucast (size_of ?rm - off_of ?rm) :: u64) = 4096 - (offset_in (rcv w c) + length d)"
      using o b(2) by (simp add: offset_in_off_of)
    with unat_min_le [of "expected_msg_size ?rm - total_msg_data_recved ?rm" "ucast (size_of ?rm - off_of ?rm)"]
    show "offset_in (rcv w c) + length d + unat (min (expected_msg_size ?rm - total_msg_data_recved ?rm)
      (ucast (size_of ?rm - off_of ?rm))) \<le> 4096"
      using d(2) by linarith
  next
    fix st :: "wt_inb_data_status option" and d
    assume "fits d (rcv w c)"
    then show "parsed_ok (received True d (rcv w c)) \<and> (st \<noteq> None \<longrightarrow> expected_msg_size (received True d (rcv w c)) \<noteq> 0)"
      using assms(2) e buf_ok_received [of "rcv w c" d True] header_read_received [of "rcv w c" d]
      by (auto simp: parsed_ok_def)
  qed simp
qed

text \<open>The end of a first PDU.\<close>

lemma finish_pdu_phase:
  assumes "buf_ok (rcv w c)"
    and "total_msg_data_recved (rcv w c) \<noteq> expected_msg_size (rcv w c) \<Longrightarrow> recv_ok ((rcv w c)\<lparr>not_msg_init_pdu := True\<rparr>)"
  shows "phase_ok S n c w (\<lambda>st rm. st \<noteq> None \<and> recv_ok rm) (finish_pdu c w)"
  unfolding finish_pdu_def Let_def
  by (rule phase_okI [OF refl set_rcv_own]) (use assms recv_ok_reset in auto)

lemma phase_ok_return:
  assumes "own_step S n c w w'" and "recv_ok rm"
  shows "phase_ok S n c w (\<lambda>st rm. st \<noteq> None \<and> recv_ok rm) (Some (Some st, set_rcv c rm w'))"
  by (rule phase_okI [OF refl own_step_trans [OF assms(1) set_rcv_own]]) (use assms(2) in simp)

lemma validate_pdu:
  assumes "buf_ok rm"
  shows "\<exists>st. lwmp_validate_hdrs (rbuf (recvbuf rm)) cont dest (hvfns w) = Some st \<and>
    (st = HV_OK \<longrightarrow> pdu_acceptable (rbuf (recvbuf rm)) cont dest (hvfns w))"
proof -
  have len: "81 \<le> length (rbuf (recvbuf rm))" using buf_okD [OF assms] by simp
  then have "validate_request (rbuf (recvbuf rm)) \<noteq> None"
    by (cases "rbuf (recvbuf rm) ! 4 = MT_REQ") (simp_all add: validate_request_def load8_Some load32_Some exI [of _ False])
  then have "req_valid_fn (hvfns w) (rbuf (recvbuf rm)) \<noteq> None" by (simp add: hvfns_def)
  from validate_ok_iff [OF _ this, of cont dest] len show ?thesis by auto
qed

lemma acceptable_facts:
  assumes "pdu_acceptable (rbuf (recvbuf rm)) cont dest h" and "header_read rm" and "buf_ok rm"
  shows "rmsg_type rm \<noteq> 0" and "load32 (rbuf (recvbuf rm)) off_hdr_mark = Some PDU_SYNC_HDR_MARK"
    and "rmsg_type rm = ucast MT_REQ \<Longrightarrow> expected_msg_size rm \<le> of_nat MAX_TEXTMSG_SIZE"
proof -
  have len: "length (rbuf (recvbuf rm)) = 4096" using assms(3) by (simp add: buf_ok_def)
  have t: "expected_msg_size rm = of_be64 (take 8 (drop 69 (rbuf (recvbuf rm))))"
    "rmsg_type rm = ucast (rbuf (recvbuf rm) ! 4)"
    using assms(2) len by (simp_all add: header_read_def load64_Some)
  have a: "pdu_header_intact (rbuf (recvbuf rm))" "rbuf (recvbuf rm) ! 4 \<in> {MT_MSG, MT_FILE, MT_REQ}"
    "rbuf (recvbuf rm) ! 4 \<noteq> MT_FILE \<Longrightarrow> of_be64 (take 8 (drop 69 (rbuf (recvbuf rm)))) \<le> of_nat MAX_TEXTMSG_SIZE"
    using assms(1) by (simp_all add: pdu_acceptable_def Let_def)
  show "rmsg_type rm \<noteq> 0" using a(2) t(2) by (auto simp: msg_type_defs)
  show "load32 (rbuf (recvbuf rm)) 0 = Some PDU_SYNC_HDR_MARK" using a(1) by (simp add: pdu_header_intact_def)
  show "expected_msg_size rm \<le> of_nat MAX_TEXTMSG_SIZE" if "rmsg_type rm = ucast MT_REQ"
    using a(2,3) t that by (auto simp: msg_type_defs)
qed

lemma inb_validate_phase:
  assumes "logged c w" and "n \<le> next_addr w" and "parsed_ok (rcv w c)"
    and "expected_msg_size (rcv w c) \<le> total_msg_data_recved (rcv w c) \<or> off_of (rcv w c) = size_of (rcv w c)"
  shows "phase_ok S n c w (\<lambda>st rm. st \<noteq> None \<and> recv_ok rm) (inb_validate c w)"
proof -
  define rm where "rm = rcv w c"
  have rm: "buf_ok rm" "header_read rm" "\<not> is_desynced rm" "\<not> not_msg_init_pdu rm"
    "rmsg_type rm = ucast MT_REQ \<Longrightarrow> cstr (dest_uname rm) = []"
    using assms(3) by (simp_all add: parsed_ok_def rm_def)
  note b = buf_okD [OF rm(1)]
  obtain st where st: "lwmp_validate_hdrs (rbuf (recvbuf rm)) (std_cl_table w, nds w, cls w) (dest_uname rm) (hvfns w) = Some st"
    "st = HV_OK \<Longrightarrow> pdu_acceptable (rbuf (recvbuf rm)) (std_cl_table w, nds w, cls w) (dest_uname rm) (hvfns w)"
    using validate_pdu [OF rm(1)] by blast
  obtain w1 where w1: "respond c (resp_codes st) None w = Some w1" "own_quiet S n c w w1"
    using respond_own [OF assms(1,2), of None "resp_codes st" S] by auto
  have l1: "logged c w1" "n \<le> next_addr w1" "rcv w1 c = rm" and f1: "own_step S n c w w1"
    using own_quietD [OF w1(2)] logged_own [OF assms(1)] next_addr_own assms(2) by (auto simp: rm_def)
  show ?thesis
  proof (cases "st = HV_OK")
    case False
    have "inb_validate c w = Some (Some WT_STOP_BORDER, set_rcv c ((reset_msg rm)\<lparr>is_desynced := (st = HV_CRCERR)\<rparr>) w1)"
      using st(1) w1(1) l1(3) False unfolding inb_validate_def rm_def by simp
    then show ?thesis using phase_ok_return [OF f1] recv_ok_reset [OF rm(1)] by simp
  next
    case ok: True
    note acc = acceptable_facts [OF st(2) [OF ok] rm(2,1)]
    have eq: "inb_validate c w =
        (if rmsg_type rm = ucast MT_REQ
         then (case answer_request c w1 of None \<Rightarrow> None | Some w \<Rightarrow> finish_pdu c w)
         else (case get_connected (dest_uname rm) w1 of
             None \<Rightarrow> None
           | Some (None, w) \<Rightarrow> (case respond_unreachable c w of None \<Rightarrow> None
               | Some w \<Rightarrow> Some (Some WT_STOP_EBLK, set_rcv c (reset_msg (rcv w c)) w))
           | Some (Some rcpt, w) \<Rightarrow> (case forward_pdu c rcpt w of None \<Rightarrow> None
               | Some w \<Rightarrow> finish_pdu c (set_rcv c (set_offset 0 (rcv w c)) w))))"
      using st(1) w1(1) l1(3) ok unfolding inb_validate_def rm_def by simp
    show ?thesis
    proof (cases "rmsg_type rm = ucast MT_REQ")
      case req: True
      have le: "expected_msg_size rm \<le> total_msg_data_recved rm"
      proof (rule ccontr)
        assume neg: "\<not> ?thesis"
        then have "off_of rm = 4096" using assms(4) b by (auto simp: rm_def)
        then have "total_msg_data_recved rm = 4015" using rm(2) by (simp add: header_read_def)
        then show False using acc(3) [OF req] neg by simp
      qed
      obtain w2 where w2: "answer_request c w1 = Some w2" "own_quiet S n c w1 w2"
        using answer_request_own [OF l1(1,2), of S] b l1(3) by auto
      have "phase_ok S n c w2 (\<lambda>st rm. st \<noteq> None \<and> recv_ok rm) (finish_pdu c w2)"
      proof (rule finish_pdu_phase)
        have r: "rcv w2 c = rm" using own_quietD(2) [OF w2(2)] l1(3) by simp
        show "buf_ok (rcv w2 c)" using rm(1) r by simp
        show "recv_ok ((rcv w2 c)\<lparr>not_msg_init_pdu := True\<rparr>)"
          unfolding r using rm le req by (auto simp: recv_ok_def buf_ok_def dest_ok_def)
      qed
      then show ?thesis
        using req w2(1) phase_ok_frame [OF own_step_trans [OF f1 own_quietD(1) [OF w2(2)]]] unfolding eq by simp
    next
      case msg: False
      show ?thesis
      proof (cases "connected (dest_uname rm) w1")
        case None
        obtain w2 where w2: "respond_unreachable c w1 = Some w2" "own_quiet S n c w1 w2"
          using respond_unreachable_own [OF l1(1,2)] by blast
        have "inb_validate c w = Some (Some WT_STOP_EBLK, set_rcv c (reset_msg rm) w2)"
          using msg None w2(1) own_quietD(2) [OF w2(2)] l1(3) get_connected_cases [OF l1(1), of "dest_uname rm"] unfolding eq
          by simp
        moreover have "own_step S n c w w2" by (rule own_step_trans [OF f1 own_quietD(1) [OF w2(2)]])
        ultimately show ?thesis using phase_ok_return recv_ok_reset [OF rm(1)] by simp
      next
        case (Some r)
        have "unat (off_of rm) \<le> length (rbuf (recvbuf rm))" "81 \<le> unat (off_of rm)"
          using b rm(2) by (simp_all add: offset_in_off_of header_read_def)
        moreover from this have "load32 (take (unat (off_of rm)) (rbuf (recvbuf rm))) 0 = Some PDU_SYNC_HDR_MARK"
          using acc(2) by (simp add: load32_def mem_read_def split: if_splits)
        ultimately obtain b where fw: "forward_pdu c r (w1\<lparr>nds := node_get (nds w1) r\<rparr>) =
            Some (deliver r (message_node b (username (cls w1 c))) w1)" "length b < 2 ^ 32"
          using forward_pdu_ok [OF connected_ref [OF l1(1) Some], of "take (unat (off_of rm)) (rbuf (recvbuf rm))" c] l1(3) b
          by (auto simp: forwarded_def)
        define w2 where "w2 = deliver r (message_node b (username (cls w1 c))) w1"
        have q2: "own_quiet S n c w1 w2"
          unfolding w2_def by (rule deliver_own [OF l1(2) connected_in_table [OF Some]]) (use fw(2) in simp_all)
        then have r2: "rcv w2 c = rm" using l1(3) own_quietD(2) by simp
        have "inb_validate c w = finish_pdu c (set_rcv c (set_offset 0 rm) w2)"
          using msg Some fw(1) get_connected_cases [OF l1(1), of "dest_uname rm"] r2 unfolding eq by (simp add: w2_def)
        moreover have "phase_ok S n c (set_rcv c (set_offset 0 rm) w2) (\<lambda>st rm. st \<noteq> None \<and> recv_ok rm)
            (finish_pdu c (set_rcv c (set_offset 0 rm) w2))"
          by (rule finish_pdu_phase) (use rm acc(1) msg in \<open>auto simp: recv_ok_def buf_ok_def dest_ok_def\<close>)
        moreover have "own_step S n c w (set_rcv c (set_offset 0 rm) w2)"
          by (rule own_step_trans [OF own_step_trans [OF f1 own_quietD(1) [OF q2]] set_rcv_own])
        ultimately show ?thesis using phase_ok_frame by simp
      qed
    qed
  qed
qed

lemma inb_first_pdu_phase:
  assumes "logged c w" and "recv_ok (rcv w c)" and "\<not> is_desynced (rcv w c)" and "\<not> not_msg_init_pdu (rcv w c)"
    and "n \<le> next_addr w"
  shows "phase_ok S n c w (\<lambda>st rm. st \<noteq> None \<and> recv_ok rm) (inb_first_pdu c w)"
  unfolding inb_first_pdu_def
proof (rule phase_ok_and_then [OF inb_header_phase [OF assms(1-4)] assms(1,5)], simp)
  fix w1
  assume w1: "logged c w1" "n \<le> next_addr w1" "recv_ok (rcv w1 c) \<and> \<not> is_desynced (rcv w1 c) \<and> \<not> not_msg_init_pdu (rcv w1 c) \<and>
    (None = None \<longrightarrow> 81 \<le> unat (off_of (rcv w1 c)))"
  then obtain rm where rm: "parse_header (rcv w1 c) = Some rm" "parsed_ok rm"
    using parse_header_ok [of "rcv w1 c"] by auto
  have f: "own_step S n c w1 (set_rcv c rm w1)" by (rule set_rcv_own)
  have l: "logged c (set_rcv c rm w1)" "n \<le> next_addr (set_rcv c rm w1)"
    using logged_own [OF w1(1) f] next_addr_own [OF f w1(2)] by simp_all
  have "parsed_ok (rcv (set_rcv c rm w1) c)" using rm(2) by simp
  note body = inb_body_phase [OF l(1) this, of S n]
  let ?tail = "\<lambda>w. if expected_msg_size (rcv w c) \<le> total_msg_data_recved (rcv w c) \<or> off_of (rcv w c) = size_of (rcv w c)
    then inb_validate c w else Some (Some WT_STOP_BORDER, w)"
  have "phase_ok S n c (set_rcv c rm w1) (\<lambda>st rm. st \<noteq> None \<and> recv_ok rm) (and_then (inb_body c (set_rcv c rm w1)) ?tail)"
  proof (rule phase_ok_and_then [OF body l], use recv_ok_parsed in simp)
    fix w2
    assume w2: "logged c w2" "n \<le> next_addr w2"
      "parsed_ok (rcv w2 c) \<and> (None \<noteq> None \<longrightarrow> expected_msg_size (rcv w2 c) \<noteq> 0)"
    then have p: "parsed_ok (rcv w2 c)" by simp
    show "phase_ok S n c w2 (\<lambda>st rm. st \<noteq> None \<and> recv_ok rm) (?tail w2)"
    proof (cases "expected_msg_size (rcv w2 c) \<le> total_msg_data_recved (rcv w2 c) \<or> off_of (rcv w2 c) = size_of (rcv w2 c)")
      case True
      then show ?thesis using inb_validate_phase [OF w2(1,2) p True] by simp
    next
      case False
      then have "recv_ok (rcv w2 c)" using recv_ok_parsed [OF p] by (metis word_zero_le)
      then show ?thesis unfolding if_not_P [OF False] by (intro phase_okI [OF refl own_step_refl]) simp
    qed
  qed
  then show "phase_ok S n c w1 (\<lambda>st rm. st \<noteq> None \<and> recv_ok rm)
      (case parse_header (rcv w1 c) of None \<Rightarrow> None | Some rm \<Rightarrow> and_then (inb_body c (set_rcv c rm w1)) ?tail)"
    using rm(1) phase_ok_frame [OF f] by simp
qed

text \<open>Chunks.\<close>

definition chunk_ready :: "curr_recv_msg \<Rightarrow> bool" where
  "chunk_ready rm \<longleftrightarrow> recv_ok rm \<and> not_msg_init_pdu rm \<and> \<not> is_desynced rm"

lemma inb_chunk_data_phase:
  assumes "logged c w" and "chunk_ready (rcv w c)"
  shows "phase_ok S n c w (\<lambda>st rm. chunk_ready rm) (inb_chunk_data c w)"
proof (cases "unat (off_of (rcv w c)) \<le> 4058")
  case False
  then have "\<not> off_of (rcv w c) < 4058" by (simp add: word_less_nat_alt)
  then show ?thesis unfolding inb_chunk_data_def using assms(2) by (intro receive_skip) simp_all
next
  case True
  have ok: "recv_ok (rcv w c)" "not_msg_init_pdu (rcv w c)" "\<not> is_desynced (rcv w c)"
    using assms(2) by (simp_all add: chunk_ready_def)
  show ?thesis
    unfolding inb_chunk_data_def
  proof (rule receive_phase [OF assms(1) recv_okD(1) [OF ok(1)]])
    show "offset_in (rcv w c) \<le> 4058" using True by (simp add: offset_in_off_of)
  next
    fix d assume d: "fits d (rcv w c)" "offset_in (rcv w c) + length d \<le> 4058"
    let ?rm = "received True d (rcv w c)"
    note o = off_of_received [OF d(1), of True]
    have "unat (off_of ?rm) \<le> unat (4058 :: u32)" using o d(2) by (simp add: offset_in_off_of)
    from unat_room [OF this] have "unat (ucast (of_nat LWMP_CHUNK_BUF_SIZE - off_of ?rm :: u32) :: u64) = 4058 - (offset_in (rcv w c) + length d)"
      using o by (simp add: offset_in_off_of)
    with unat_min_le [of "expected_msg_size ?rm - total_msg_data_recved ?rm" "ucast (of_nat LWMP_CHUNK_BUF_SIZE - off_of ?rm :: u32)"]
    show "offset_in (rcv w c) + length d + unat (min (expected_msg_size ?rm - total_msg_data_recved ?rm)
      (ucast (of_nat LWMP_CHUNK_BUF_SIZE - off_of ?rm :: u32))) \<le> 4058"
      using d(2) by linarith
  next
    fix d assume d: "fits d (rcv w c)" "offset_in (rcv w c) + length d \<le> 4058"
    then show "chunk_ready (received True d (rcv w c))"
      using ok buf_ok_received [of "rcv w c" d True] off_of_received [OF d(1), of True]
      by (auto simp: chunk_ready_def recv_ok_def dest_ok_def offset_in_off_of)
  qed simp
qed

lemma connected_Nil: "cstr nm = [] \<Longrightarrow> connected nm w = None"
  by (simp add: connected_def)

lemma inb_chunk_phase:
  assumes "logged c w" and "chunk_ready (rcv w c)" and "n \<le> next_addr w"
  shows "phase_ok S n c w (\<lambda>st rm. st \<noteq> None \<and> recv_ok rm) (inb_chunk c w)"
  unfolding inb_chunk_def
proof (rule phase_ok_and_then [OF inb_chunk_data_phase [OF assms(1,2)] assms(1,3)], simp add: chunk_ready_def)
  fix w1 assume l: "logged c w1" "n \<le> next_addr w1" and ck: "chunk_ready (rcv w1 c)"
  define rm where "rm = rcv w1 c"
  have rm: "recv_ok rm" "buf_ok rm" "not_msg_init_pdu rm" "\<not> is_desynced rm"
    using ck by (simp_all add: chunk_ready_def rm_def recv_ok_def)
  let ?tail = "case get_connected (dest_uname (rcv w1 c)) w1 of
         None \<Rightarrow> None
       | Some (None, w) \<Rightarrow>
           (case respond_unreachable c w of
              None \<Rightarrow> None
            | Some w \<Rightarrow> Some (Some WT_STOP_EBLK, set_rcv c ((reset_msg (rcv w c))\<lparr>is_desynced := True\<rparr>) w))
       | Some (Some rcpt, w) \<Rightarrow>
           (case forward_chunk c rcpt w of
              None \<Rightarrow> None
            | Some w \<Rightarrow>
                let rm = set_offset 0 (rcv w c) in
                Some (Some WT_STOP_BORDER,
                  set_rcv c (if expected_msg_size rm = total_msg_data_recved rm then reset_msg rm else rm) w))"
  show "phase_ok S n c w1 (\<lambda>st rm. st \<noteq> None \<and> recv_ok rm) ?tail"
  proof (cases "connected (dest_uname rm) w1")
    case None
    obtain w2 where w2: "respond_unreachable c w1 = Some w2" "own_quiet S n c w1 w2"
      using respond_unreachable_own [OF l] by blast
    have "?tail = Some (Some WT_STOP_EBLK, set_rcv c ((reset_msg rm)\<lparr>is_desynced := True\<rparr>) w2)"
      using None w2(1) own_quietD(2) [OF w2(2)] get_connected_cases [OF l(1), of "dest_uname rm"] by (simp add: rm_def)
    then show ?thesis
      using phase_ok_return [OF own_quietD(1) [OF w2(2)]] recv_ok_reset [OF rm(2)] by simp
  next
    case (Some r)
    then have "unat (off_of rm) \<le> 4058" using rm(1,3) connected_Nil by (fastforce simp: recv_ok_def)
    then obtain b where fw: "forward_chunk c r (w1\<lparr>nds := node_get (nds w1) r\<rparr>) =
        Some (deliver r (message_node b (username (cls w1 c))) w1)" "length b < 2 ^ 32"
      using forward_chunk_ok [OF connected_ref [OF l(1) Some], of c] buf_okD [OF rm(2)] by (auto simp: rm_def chunk_of_def)
    define w2 where "w2 = deliver r (message_node b (username (cls w1 c))) w1"
    have q2: "own_quiet S n c w1 w2"
      unfolding w2_def by (rule deliver_own [OF l(2) connected_in_table [OF Some]]) (use fw(2) in simp_all)
    then have r2: "rcv w2 c = rm" using own_quietD(2) by (simp add: rm_def)
    define rm' where "rm' = set_offset 0 rm"
    have "?tail = Some (Some WT_STOP_BORDER,
        set_rcv c (if expected_msg_size rm' = total_msg_data_recved rm' then reset_msg rm' else rm') w2)"
      using Some fw(1) get_connected_cases [OF l(1), of "dest_uname rm"] r2 by (simp add: w2_def rm_def rm'_def)
    moreover have "recv_ok rm'" "buf_ok rm'" using rm by (auto simp: recv_ok_def buf_ok_def dest_ok_def rm'_def)
    ultimately show ?thesis
      using phase_ok_return [OF own_quietD(1) [OF q2]] recv_ok_reset [of rm'] by simp
  qed
qed

lemma inbound_returns:
  assumes "logged c w" and "recv_ok (rcv w c)" and "n \<le> next_addr w"
  shows "\<exists>st w'. wt_handle_inbound_data c w = Some (st, w') \<and> own_step S n c w w' \<and> logged c w' \<and> recv_ok (rcv w' c)"
proof (cases "cl_state (cls w c) = DISCONNECTED")
  case True
  then show ?thesis using assms by (auto simp: wt_handle_inbound_data_def logged_def own_step_refl)
next
  case False
  have "phase_ok S n c w (\<lambda>st rm. st \<noteq> None \<and> recv_ok rm)
      (and_then (inb_resync c w) (\<lambda>w. if \<not> not_msg_init_pdu (rcv w c) then inb_first_pdu c w else inb_chunk c w))"
  proof (rule phase_ok_and_then [OF inb_resync_phase [OF assms] assms(1,3)], simp)
    fix w1 assume l: "logged c w1" "n \<le> next_addr w1" and r: "recv_ok (rcv w1 c) \<and> (None = None \<longrightarrow> \<not> is_desynced (rcv w1 c))"
    show "phase_ok S n c w1 (\<lambda>st rm. st \<noteq> None \<and> recv_ok rm)
        (if \<not> not_msg_init_pdu (rcv w1 c) then inb_first_pdu c w1 else inb_chunk c w1)"
      using inb_first_pdu_phase [OF l(1) _ _ _ l(2)] inb_chunk_phase [OF l(1) _ l(2)] r
      by (simp add: chunk_ready_def)
  qed
  then obtain st w' where "and_then (inb_resync c w) (\<lambda>w. if \<not> not_msg_init_pdu (rcv w c) then inb_first_pdu c w else inb_chunk c w) =
      Some (Some st, w')" "own_step S n c w w'" "recv_ok (rcv w' c)"
    by (auto simp: phase_ok_def)
  then show ?thesis
    using False logged_own [OF assms(1)] assms(1) by (auto simp: wt_handle_inbound_data_def logged_def [of c w])
qed

end
