(* ===== verification/Forwarding.thy ===== *)
theory Forwarding
  imports Delivery
begin

text \<open>
  Delivery of a message by \<open>wt_handle_inbound_data\<close>: a valid message that arrives, in whatever pieces, goes
  to its recipient once and unchanged but for the sender's name, and its sender is told.
\<close>

definition got :: "addr \<Rightarrow> curr_recv_msg \<Rightarrow> recv_res list \<Rightarrow> worker \<Rightarrow> worker" where
  "got c rm inp w = set_rcv c rm (w\<lparr>inputs := (inputs w)(c := inp)\<rparr>)"

lemma got_simps [simp]:
  "rcv (got c rm inp w) c = rm" "inputs (got c rm inp w) = (inputs w)(c := inp)" "got c rm' inp' (got c rm inp w) = got c rm' inp' w"
  "set_rcv c rm' (got c rm inp w) = got c rm' inp w"
  "nds (got c rm inp w) = nds w" "std_cl_table (got c rm inp w) = std_cl_table w" "next_addr (got c rm inp w) = next_addr w"
  "msgs (got c rm inp w) = msgs w" "sent (got c rm inp w) = sent w" "cfg (got c rm inp w) = cfg w"
  "cls (got c rm inp w) = (cls w)(c := (cls w c)\<lparr>temp_recv_storage := rm\<rparr>)"
  by (simp_all add: got_def set_rcv_def upd_cl_def)

lemma got_step: "own_step S n c w (got c rm inp w)"
  by (rule own_same) (simp_all add: got_def set_rcv_def upd_cl_def cl_msgs_def frame_defs)

text \<open>A receiving phase that gets all it waits for.\<close>

lemma receive_exact:
  assumes need: "\<And>d. length d \<le> n \<Longrightarrow> fits d (rcv w c) \<and> (cond (received counted d (rcv w c)) \<longleftrightarrow> length d < n) \<and>
      (length d < n \<longrightarrow> unat (len (received counted d (rcv w c))) = n - length d)"
    and "ready (inputs w c)" and "n \<le> length (in_bytes (inputs w c))"
  shows "\<exists>inp. receive c False counted cond len blocked w =
      Some (None, got c (received counted (take n (in_bytes (inputs w c))) (rcv w c)) inp w) \<and>
    ready inp \<and> in_bytes inp = drop n (in_bytes (inputs w c))"
  using recv_while_exact [OF need assms(2)] assms(3) by (auto simp: receive_def got_def)

text \<open>Storage that waits for a new message.\<close>

definition awaiting :: "curr_recv_msg \<Rightarrow> bool" where
  "awaiting rm \<longleftrightarrow> recv_ok rm \<and> off_of rm = 0 \<and> rmsg_type rm = 0 \<and> expected_msg_size rm = 0 \<and>
     \<not> is_desynced rm \<and> \<not> not_msg_init_pdu rm"

lemma awaiting_reset: "buf_ok rm \<Longrightarrow> awaiting (reset_msg rm)"
  using recv_ok_reset [of rm] by (simp add: awaiting_def reset_msg_def set_offset_def off_of_def)

text \<open>The name a header gives as the recipient.\<close>

definition recipient_of :: "byte list \<Rightarrow> byte list" where
  "recipient_of pdu = (take UNAMESIZE (drop off_subject pdu))[UNAMESIZE - 1 := 0]"

text \<open>The first PDU of a message of \<open>K\<close> bytes for another user: the header and as much of the message as fits.\<close>

definition first_pdu :: "byte list \<Rightarrow> nat \<Rightarrow> bool" where
  "first_pdu pdu K \<longleftrightarrow> length pdu = LWMP_HDR_SIZE + min K LWMP_PDU_BUF_SIZE \<and> K < 2 ^ 64 - LWMP_HDR_SIZE \<and>
     load64 pdu off_total = Some (of_nat K) \<and> pdu ! off_msg_type \<noteq> MT_REQ"

text \<open>Storage that waits for the chunks of a message of \<open>K\<close> bytes, \<open>t\<close> of which have arrived.\<close>

definition between :: "curr_recv_msg \<Rightarrow> nat \<Rightarrow> nat \<Rightarrow> byte list \<Rightarrow> bool" where
  "between rm K t dest \<longleftrightarrow> chunk_ready rm \<and> off_of rm = 0 \<and> expected_msg_size rm = of_nat K \<and>
     total_msg_data_recved rm = of_nat t \<and> dest_uname rm = dest"

definition storage_after :: "curr_recv_msg \<Rightarrow> nat \<Rightarrow> nat \<Rightarrow> byte list \<Rightarrow> bool" where
  "storage_after rm K t dest \<longleftrightarrow> (if t = K then awaiting rm else between rm K t dest)"

lemma read_header:
  assumes "awaiting (rcv w c)" and "ready (inputs w c)" and "81 \<le> length (in_bytes (inputs w c))"
  defines "hdr \<equiv> take 81 (in_bytes (inputs w c))"
  shows "\<exists>inp. inb_header c w = Some (None, got c (received False hdr (rcv w c)) inp w) \<and>
    ready inp \<and> in_bytes inp = drop 81 (in_bytes (inputs w c)) \<and> fits hdr (rcv w c)"
proof -
  have b: "length (rbuf (recvbuf (rcv w c))) = 4096" "off_of (rcv w c) = 0"
    using assms(1) by (simp_all add: awaiting_def recv_ok_def buf_ok_def)
  have f: "fits d (rcv w c)" if "length d \<le> 81" for d using that b by (simp add: fits_def off_of_def)
  have "fits d (rcv w c) \<and> (off_of (received False d (rcv w c)) < of_nat LWMP_HDR_SIZE \<longleftrightarrow> length d < 81) \<and>
      (length d < 81 \<longrightarrow> unat (ucast (of_nat LWMP_HDR_SIZE - off_of (received False d (rcv w c)) :: u32) :: u64) = 81 - length d)"
    if d: "length d \<le> 81" for d
  proof -
    have o: "unat (off_of (received False d (rcv w c))) = length d" using off_of_received [OF f [OF d], of False] b by simp
    then show ?thesis using f [OF d] d unat_room [of "off_of (received False d (rcv w c))" 81] by (simp add: word_less_nat_alt)
  qed
  from receive_exact [OF this assms(2,3), of "Some WT_STOP_EBLK"] f [of hdr] show ?thesis
    unfolding inb_header_def hdr_def by auto
qed

lemma read_body:
  assumes "parsed_ok (rcv w c)" and "off_of (rcv w c) = 81" and "expected_msg_size (rcv w c) = of_nat K"
    and k: "k = min K 4015" "K < 2 ^ 64 - 81"
    and "ready (inputs w c)" and "k \<le> length (in_bytes (inputs w c))"
  defines "body \<equiv> take k (in_bytes (inputs w c))"
  shows "\<exists>inp. inb_body c w = Some (None, got c (received True body (rcv w c)) inp w) \<and>
    ready inp \<and> in_bytes inp = drop k (in_bytes (inputs w c)) \<and> fits body (rcv w c)"
proof -
  let ?rm = "rcv w c"
  have b: "length (rbuf (recvbuf ?rm)) = 4096" "size_of ?rm = 4096" "total_msg_data_recved ?rm = 0"
    using assms(1,2) by (simp_all add: parsed_ok_def buf_ok_def header_read_def)
  have f: "fits d ?rm" if "length d \<le> k" for d using that b assms(2) k(1) by (simp add: fits_def off_of_def)
  have need: "fits d ?rm \<and> (ucast (off_of (received True d ?rm)) <
        min (of_nat LWMP_HDR_SIZE + expected_msg_size (received True d ?rm)) (ucast (size_of (received True d ?rm)) :: u64) \<longleftrightarrow> length d < k) \<and>
      (length d < k \<longrightarrow> unat (min (expected_msg_size (received True d ?rm) - total_msg_data_recved (received True d ?rm))
        (ucast (size_of (received True d ?rm) - off_of (received True d ?rm)))) = k - length d)"
    if d: "length d \<le> k" for d
  proof -
    have o: "unat (off_of (received True d ?rm)) = 81 + length d" using off_of_received [OF f [OF d], of True] assms(2) by simp
    have uo: "unat (ucast (off_of (received True d ?rm)) :: u64) = 81 + length d"
      using o d k(1) by (simp add: unsigned_ucast_eq take_bit_eq_mod)
    have lim: "unat (81 + of_nat K :: u64) = 81 + K"
      using k(2) by (simp add: unat_word_ariths unat_of_nat take_bit_eq_mod)
    have c1: "ucast (off_of (received True d ?rm)) < (81 + of_nat K :: u64) \<longleftrightarrow> length d < K"
      unfolding word_less_nat_alt uo lim by simp
    have c2: "ucast (off_of (received True d ?rm)) < (4096 :: u64) \<longleftrightarrow> length d < 4015"
      unfolding word_less_nat_alt uo by simp
    have l1: "unat (of_nat K - of_nat (length d) :: u64) = K - length d"
    proof -
      have "(of_nat K - of_nat (length d) :: u64) = of_nat (K - length d)" using d k(1) by (simp add: of_nat_diff)
      moreover have "K - length d < 2 ^ 64" using k(2) by simp
      ultimately show ?thesis by (simp add: unat_of_nat take_bit_eq_mod del: of_nat_diff)
    qed
    have l2: "unat (ucast (size_of ?rm - off_of (received True d ?rm)) :: u64) = 4096 - (81 + length d)"
      using unat_room [of "off_of (received True d ?rm)" "size_of ?rm"] o b(2) d k(1) by simp
    have "unat (min (of_nat K - of_nat (length d) :: u64) (ucast (size_of ?rm - off_of (received True d ?rm)))) = k - length d"
      using l1 l2 k(1) unfolding min_def word_le_nat_alt by simp
    then show ?thesis
      using f [OF d] assms(3) b(2,3) c1 c2 k(1) by (auto simp: received_total)
  qed
  from receive_exact [OF need assms(6,7), of "Some WT_STOP_EBLK"] f [of body] show ?thesis
    unfolding inb_body_def body_def by (auto simp: size_of_received)
qed

lemma ucast_byte_inject: "(ucast (a :: byte) :: u32) = ucast b \<longleftrightarrow> a = b"
proof
  have u: "unat (ucast x :: u32) = unat x" for x :: byte
  proof -
    have "unat x < 2 ^ 8" using unsigned_less [of x, where ?'a = nat] by simp
    then show ?thesis by (simp add: unsigned_ucast_eq take_bit_eq_mod)
  qed
  assume "(ucast a :: u32) = ucast b"
  then have "unat (ucast a :: u32) = unat (ucast b :: u32)" by simp
  then show "a = b" unfolding u by (simp add: word_unat_eq_iff)
qed simp

lemma parse_header_fields:
  assumes "parse_header rm = Some rm'" and "rmsg_type rm = 0" and "expected_msg_size rm = 0"
    and "take 81 (rbuf (recvbuf rm)) = hdr" and "length hdr = 81" and "hdr ! 4 \<noteq> MT_REQ"
  shows "recvbuf rm' = recvbuf rm" and "rmsg_type rm' = ucast (hdr ! 4)" and "load64 hdr 69 = Some (expected_msg_size rm')"
    and "dest_uname rm' = recipient_of hdr" and "off_of rm' = off_of rm"
proof -
  define b where "b = rbuf (recvbuf rm)"
  have len: "81 \<le> length b" using assms(4,5) by (metis b_def length_take min.bounded_iff nle_le)
  have sl: "take n (drop p b) = take n (drop p hdr)" if "p + n \<le> 81" for p n
    using take_cong_slice [of 81 b hdr p n] assms(4,5) that by (simp add: b_def)
  have e: "b ! 4 = hdr ! 4" using assms(4) by (auto simp: b_def)
  have rd: "load8 b 4 = Some (hdr ! 4)" "mem_read b 5 32 = Some (take 32 (drop 5 hdr))" "load64 b 69 = load64 hdr 69"
    "load64 hdr 69 = Some (of_be64 (take 8 (drop 69 hdr)))"
    using len assms(5) sl [of 5 32] sl [of 69 8] e by (simp_all add: load8_Some load64_def mem_read_def)
  have ne: "(ucast (hdr ! 4) :: u32) \<noteq> ucast MT_REQ"
    using assms(6) by (simp add: ucast_byte_inject)
  have "parse_header rm = Some (rm\<lparr>rmsg_type := ucast (hdr ! 4), dest_uname := recipient_of hdr,
      expected_msg_size := of_be64 (take 8 (drop 69 hdr)), total_msg_data_recved := ucast (off_of rm) - 81\<rparr>)"
    using assms(2,3) rd ne by (simp add: parse_header_def Let_def b_def [symmetric] recipient_of_def)
  then have rm': "rm' = rm\<lparr>rmsg_type := ucast (hdr ! 4), dest_uname := recipient_of hdr,
      expected_msg_size := of_be64 (take 8 (drop 69 hdr)), total_msg_data_recved := ucast (off_of rm) - 81\<rparr>"
    using assms(1) by simp
  show "recvbuf rm' = recvbuf rm" "rmsg_type rm' = ucast (hdr ! 4)" "load64 hdr 69 = Some (expected_msg_size rm')"
    "dest_uname rm' = recipient_of hdr" "off_of rm' = off_of rm"
    using rd(4) by (simp_all add: rm' off_of_def)
qed

lemma read_message:
  assumes "awaiting (rcv w c)" and "ready (inputs w c)" and "in_bytes (inputs w c) = pdu @ later" and "first_pdu pdu K" and k: "k = min K 4015"
  shows "\<exists>inp rm. inb_first_pdu c w = inb_validate c (got c rm inp w) \<and> ready inp \<and> in_bytes inp = later \<and> parsed_ok rm \<and>
    take (81 + k) (rbuf (recvbuf rm)) = pdu \<and> unat (off_of rm) = 81 + k \<and>
    expected_msg_size rm = of_nat K \<and> total_msg_data_recved rm = of_nat k \<and>
    dest_uname rm = recipient_of pdu \<and> rmsg_type rm = ucast (pdu ! 4)"
proof -
  have pdu: "length pdu = 81 + k" "K < 2 ^ 64 - 81" "load64 pdu 69 = Some (of_nat K)" "pdu ! 4 \<noteq> MT_REQ"
    using assms(4) k by (simp_all add: first_pdu_def)
  define hdr where "hdr = take 81 pdu"
  define body where "body = drop 81 pdu"
  have split: "pdu = hdr @ body" "length hdr = 81" "length body = k" using pdu(1) by (simp_all add: hdr_def body_def)
  have h: "take 81 (in_bytes (inputs w c)) = hdr" "drop 81 (in_bytes (inputs w c)) = body @ later"
    using assms(3) split by simp_all
  define rm0 where "rm0 = received False hdr (rcv w c)"
  from read_header [OF assms(1,2)] assms(3) pdu(1) h obtain inp0 where
    r0: "inb_header c w = Some (None, got c rm0 inp0 w)" "ready inp0" "in_bytes inp0 = body @ later" "fits hdr (rcv w c)"
    by (auto simp: rm0_def)
  have a: "recv_ok (rcv w c)" "off_of (rcv w c) = 0" "rmsg_type (rcv w c) = 0" "expected_msg_size (rcv w c) = 0"
    "\<not> is_desynced (rcv w c)" "\<not> not_msg_init_pdu (rcv w c)"
    using assms(1) by (simp_all add: awaiting_def)
  have rm0: "recv_ok rm0" "\<not> is_desynced rm0" "\<not> not_msg_init_pdu rm0" "unat (off_of rm0) = 81" "rmsg_type rm0 = 0"
    "expected_msg_size rm0 = 0" "take 81 (rbuf (recvbuf rm0)) = hdr"
    using a buf_ok_received [OF recv_okD(1) [OF a(1)] r0(4), of False] off_of_received [OF r0(4), of False] split(2)
    by (simp_all add: rm0_def recv_ok_def dest_ok_def) (simp add: received_rbuf off_of_def)
  obtain rm1 where rm1: "parse_header rm0 = Some rm1" "parsed_ok rm1"
    using parse_header_ok [OF rm0(1-3)] rm0(4) by auto
  have p4: "hdr ! 4 = pdu ! 4" using split(2) by (simp add: hdr_def)
  have rd: "load64 hdr 69 = load64 pdu 69" "recipient_of hdr = recipient_of pdu"
    using pdu(1) by (simp_all add: load64_def mem_read_def hdr_def drop_take recipient_of_def)
  from parse_header_fields [OF rm1(1) rm0(5,6,7) split(2)] pdu(3,4) p4 rd have
    f1: "recvbuf rm1 = recvbuf rm0" "rmsg_type rm1 = ucast (pdu ! 4)" "expected_msg_size rm1 = of_nat K"
    "dest_uname rm1 = recipient_of pdu" "off_of rm1 = off_of rm0" by simp_all
  have o81: "off_of rm1 = 81" using rm0(4) f1(5) word_unat_eq_iff by fastforce
  define w1 where "w1 = got c rm1 inp0 w"
  have in1: "in_bytes (inputs w1 c) = body @ later" using r0(3) by (simp add: w1_def)
  define rm2 where "rm2 = received True body rm1"
  have "parsed_ok (rcv w1 c)" "off_of (rcv w1 c) = 81" "expected_msg_size (rcv w1 c) = of_nat K" "ready (inputs w1 c)"
    using rm1(2) o81 f1(3) r0(2) by (simp_all add: w1_def)
  from read_body [OF this(1-3) k pdu(2) this(4)] in1 split(3) obtain inp where
    r1: "inb_body c w1 = Some (None, got c rm2 inp w)" "ready inp" "in_bytes inp = later" "fits body rm1"
    by (auto simp: rm2_def w1_def)
  have tot: "total_msg_data_recved rm1 = 0" using rm1(2) o81 by (simp add: parsed_ok_def header_read_def)
  have "parsed_ok rm2"
    using rm1(2) buf_ok_received [OF _ r1(4), of True] header_read_received [OF _ r1(4)] by (simp add: parsed_ok_def rm2_def)
  moreover have "take (81 + k) (rbuf (recvbuf rm2)) = pdu"
  proof -
    have "take 81 (rbuf (recvbuf rm1)) = hdr" "81 \<le> length (rbuf (recvbuf rm1))"
      using rm0(7) f1(1) split(2) rm1(2) by (simp_all add: parsed_ok_def buf_ok_def)
    then show ?thesis using o81 split by (simp add: rm2_def received_rbuf off_of_def)
  qed
  moreover have t2: "total_msg_data_recved rm2 = of_nat k" "expected_msg_size rm2 = of_nat K"
    using tot f1(3) split(3) by (simp_all add: rm2_def received_total)
  moreover have o2: "unat (off_of rm2) = 81 + k"
    using off_of_received [OF r1(4), of True] o81 split(3) by (simp add: rm2_def)
  have fin: "of_nat K \<le> (of_nat k :: u64) \<or> off_of rm2 = size_of rm2"
  proof (cases "K \<le> 4015")
    case False
    have "size_of rm2 = 4096" using rm1(2) by (simp add: rm2_def parsed_ok_def buf_ok_def)
    then show ?thesis using False k o2 by (simp add: word_unat_eq_iff)
  qed (use k in simp)
  moreover note o2
  moreover have "dest_uname rm2 = recipient_of pdu" "rmsg_type rm2 = ucast (pdu ! 4)"
    using f1 by (simp_all add: rm2_def)
  moreover have "inb_first_pdu c w = inb_validate c (got c rm2 inp w)"
  proof -
    have b: "inb_body c (set_rcv c rm1 (got c rm0 inp0 w)) = Some (None, got c rm2 inp w)" using r1(1) by (simp add: w1_def)
    have "rcv (got c rm0 inp0 w) c = rm0" "rcv (got c rm2 inp w) c = rm2" by simp_all
    then show ?thesis
      unfolding inb_first_pdu_def r0(1) and_then_def option.case prod.case
      using rm1(1) b t2 fin by (simp only: option.case prod.case) simp
  qed
  ultimately show ?thesis using r1(2,3) by blast
qed

subsection \<open>A connection that does not fail\<close>

definition sends_ok :: "send_res list \<Rightarrow> bool" where
  "sends_ok outp \<longleftrightarrow> (\<forall>r \<in> set outp. r \<noteq> SendError \<and> r \<noteq> Sent 0)"

lemma send_fn_ok:
  assumes "sends_ok outp" and "send_fn outp len = (r, outp')" and "0 < len"
  shows "r \<noteq> SendError \<and> sends_ok outp'"
  using assms by (induction outp len rule: send_fn.induct) (auto simp: sends_ok_def)

lemma send_while_no_error:
  assumes "sends_ok outp" and "node_ok tss" and "first \<longrightarrow> buf_offset tss < buf_size tss"
    and "send_while first tss outp out = Some (e, tss', outp', out')"
  shows "e \<noteq> Serr"
  using assms
proof (induction first tss outp out rule: send_while.induct)
  case (1 first tss outp out)
  show ?case
  proof (cases "buf_offset tss < buf_size tss")
    case True
    define bs where "bs = drop (buf_offset tss) (buf tss)"
    have rd: "mem_read (buf tss) (buf_offset tss) (buf_size tss - buf_offset tss) = Some bs" "0 < length bs"
      using "1.prems"(2) True by (simp_all add: mem_read_def bs_def node_ok_def)
    obtain r outp1 where r: "send_fn outp (length bs) = (r, outp1)" by fastforce
    note ok = send_fn_ok [OF "1.prems"(1) r rd(2)]
    have c: "\<not> (\<not> first \<and> \<not> buf_offset tss < buf_size tss)" using True by simp
    show ?thesis
    proof (cases r)
      case (Sent n)
      define tss1 where "tss1 = tss\<lparr>buf_offset := (buf_offset tss + n) mod 2 ^ 32\<rparr>"
      have "n \<le> length bs" using send_fn_sent [OF r [unfolded Sent]] by simp
      then have "node_ok tss1" using "1.prems"(2) True by (auto simp: tss1_def node_ok_def bs_def)
      moreover have "send_while False tss1 outp1 (out @ take n bs) = Some (e, tss', outp', out')"
        using "1.prems"(4) rd r Sent c by (subst (asm) send_while.simps) (simp add: tss1_def)
      ultimately show ?thesis
        using "1.IH" [OF c rd(1) r [symmetric] Sent] ok by (simp add: tss1_def)
    qed (use "1.prems"(4) rd r c ok in \<open>subst (asm) send_while.simps, auto\<close>)+
  next
    case False
    then show ?thesis using "1.prems"(3,4) by (subst (asm) send_while.simps) auto
  qed
qed

lemma serve_response_connected:
  assumes "sends_ok (outputs w c)" and "node_ok (msgs w m)" and "buf_offset (msgs w m) < buf_size (msgs w m)"
    and "wt_serve_response c m w = Some w'"
  shows "cl_state (cls w' c) = cl_state (cls w c)"
proof (cases "temp_send_storage (cls w c) = 0")
  case False
  then show ?thesis
    using assms(4) by (auto simp: wt_serve_response_def enqueue_ctrl_def upd_cl_def split: if_splits prod.splits)
next
  case True
  define w0 where "w0 = upd_cl c (\<lambda>s. s\<lparr>temp_send_storage := m\<rparr>) w"
  obtain e w1 where w1: "send_storage True c w0 = Some (e, w1)"
    using assms(4) True by (auto simp: wt_serve_response_def w0_def split: if_splits option.splits)
  obtain tss outp out where sw: "send_while True (msgs w m) (outputs w c) (sent w c) = Some (e, tss, outp, out)"
    and c: "cls w1 = cls w0"
    using w1 by (auto simp: send_storage_def w0_def upd_cl_def Let_def split: if_splits option.splits)
  have "e \<noteq> Serr" by (rule send_while_no_error [OF assms(1,2) _ sw]) (use assms(3) in simp)
  moreover have "live w c" using assms(4) by (auto simp: wt_serve_response_def split: if_splits)
  ultimately have "w' = drop_storage c w1 \<or> w' = w1\<lparr>sock_events := epoll_mod c (True, True) (sock_events w1)\<rparr>"
    using assms(4) True w1 by (cases e) (simp_all add: wt_serve_response_def w0_def)
  then show ?thesis using c by (auto simp: drop_storage_def free_msg_def upd_cl_def w0_def)
qed

lemma respond_connected:
  assumes "sends_ok (outputs w c)" and "respond c code None w = Some w'"
  shows "cl_state (cls w' c) = cl_state (cls w c)"
proof -
  have sz: "response_size None \<le> 81" "(81 :: nat) < 2 ^ 32" by (simp_all add: response_size_def)
  obtain b where b: "new_response 81 MT_INFO code None w = Some (next_addr w, fresh (plain_node b) w)" "length b = 81"
    using new_response_fresh [OF sz] by blast
  then have s: "wt_serve_response c (next_addr w) (fresh (plain_node b) w) = Some w'"
    using assms(2) by (simp add: respond_def)
  have "cl_state (cls w' c) = cl_state (cls (fresh (plain_node b) w) c)"
    by (rule serve_response_connected [OF _ _ _ s]) (use assms(1) b(2) in \<open>simp_all add: fresh_def plain_node_def node_ok_def\<close>)
  then show ?thesis by simp
qed

subsection \<open>Delivery\<close>

lemma acceptable_cong:
  assumes "take 81 a = take 81 b" and "81 \<le> length a" and "81 \<le> length b" and "b ! 4 \<noteq> MT_REQ"
  shows "pdu_acceptable a cont dest h = pdu_acceptable b cont dest h"
proof -
  have sl: "take n (drop p a) = take n (drop p b)" if "p + n \<le> 81" for p n by (rule take_cong_slice [OF assms(1) that])
  have e: "a ! 4 = b ! 4" using arg_cong [OF assms(1), of "\<lambda>l. l ! 4"] by simp
  have "load32 a p = load32 b p" if "p + 4 \<le> 81" for p using that assms(2,3) sl [OF that] by (simp add: load32_def mem_read_def)
  moreover have "take 77 a = take 77 b" using sl [of 0 77] by simp
  ultimately have "pdu_header_intact a = pdu_header_intact b" by (simp add: pdu_header_intact_def)
  then show ?thesis using e sl [of 69 8] assms(4) by (simp add: pdu_acceptable_def Let_def)
qed

lemma connected_frame:
  assumes "inb_frame n c w w'" and "connected nm w = Some r" and "r \<noteq> c"
  shows "connected nm w' = Some r"
proof -
  have "nds w' = nds w" "std_cl_table w' = std_cl_table w" "cl_state (cls w' r) = cl_state (cls w r)"
    using assms(1,3) by (simp_all add: inb_frame_def kept_def cl_own_def)
  then show ?thesis
    using assms(2) by (auto simp: connected_def is_not_disconnected_def split: option.splits if_splits)
qed

lemma validate_same_clients:
  assumes "client_table ns ht" and "\<And>n. cl_state (s' n) = cl_state (s n)"
  shows "validate_recipient (ht, ns, s') nm = validate_recipient (ht, ns, s) nm"
  using validate_recipient_iff [OF assms(1)] assms(2) by simp

lemma got_flow:
  assumes "msgs_ok S C U w"
  shows "flow S C U c w C (got c rm inp w) []" and "flow S C U c w C (set_rcv c rm w) []"
  by (rule flow_same [OF assms]; simp add: cl_msgs_def set_rcv_def upd_cl_def)+

lemma deliver_message:
  assumes l: "logged c w" and ok: "msgs_ok S C U w" "c \<in> S" "idle C w c" "ht_nodes (std_cl_table w) \<subseteq> S"
    and rm: "rcv w c = rm" "parsed_ok rm" "take (81 + k) (rbuf (recvbuf rm)) = pdu" "unat (off_of rm) = 81 + k"
      "expected_msg_size rm = of_nat K" "total_msg_data_recved rm = of_nat k" "dest_uname rm = dest"
      "rmsg_type rm = ucast (pdu ! 4)"
    and K: "K < 2 ^ 64"
    and pdu: "length pdu = 81 + k" "pdu ! 4 \<noteq> MT_REQ" "pdu_acceptable pdu (std_cl_table w, nds w, cls w) dest (hvfns w)"
    and r: "connected dest w = Some r" "r \<noteq> c"
  shows "\<exists>w' C' U' b resp. inb_validate c w = Some (Some WT_STOP_BORDER, w') \<and> inputs w' = inputs w \<and> storage_after (rcv w' c) K k dest \<and>
    msgs_ok S C' U' w' \<and> forwarded pdu (username (cls w c)) b \<and>
    inbox U' w' r = inbox U w r @ [(b, strncpy_bytes (username (cls w c)) UNAMESIZE)] \<and>
    stream C' w' c = stream C w c @ resp \<and> is_response resp MT_INFO (padded_optional (Some (be32 RESP_OK)) 4) None \<and>
    (\<forall>x \<in> S. x \<noteq> r \<longrightarrow> inbox U' w' x = inbox U w x) \<and> (\<forall>x \<in> S. x \<noteq> c \<longrightarrow> stream C' w' x = stream C w x) \<and>
    own_step S (next_addr w) c w w' \<and> (sends_ok (outputs w c) \<longrightarrow> cl_state (cls w' c) = cl_state (cls w c))"
proof -
  have bo: "buf_ok rm" using rm(2) by (simp add: parsed_ok_def)
  note b4 = buf_okD [OF bo]
  have len: "81 \<le> length (rbuf (recvbuf rm))" using b4 by simp
  have t81: "take 81 (rbuf (recvbuf rm)) = take 81 pdu" using arg_cong [OF rm(3), of "take 81"] by simp
  have acc: "pdu_acceptable (rbuf (recvbuf rm)) (std_cl_table w, nds w, cls w) dest (hvfns w)"
    using pdu(1,3) by (simp add: acceptable_cong [OF t81 len _ pdu(2)])
  have "req_valid_fn (hvfns w) (rbuf (recvbuf rm)) \<noteq> None"
    using len by (cases "rbuf (recvbuf rm) ! 4 = MT_REQ")
      (simp_all add: hvfns_def validate_request_def load8_Some load32_Some exI [of _ False])
  with acc have v: "lwmp_validate_hdrs (rbuf (recvbuf rm)) (std_cl_table w, nds w, cls w) dest (hvfns w) = Some HV_OK"
    using validate_ok_iff [OF len, of "hvfns w"] by blast
  obtain w1 C1 resp where f1: "respond c RESP_OK None w = Some w1" "flow S C U c w C1 w1 resp" "idle C1 w1 c"
    "is_response resp MT_INFO (padded_optional (Some (be32 RESP_OK)) 4) None"
    using respond_flow [OF l ok(1,2,3), of None RESP_OK] by auto
  have oq1: "own_quiet S (next_addr w) c w w1" using respond_own [OF l order_refl, of None RESP_OK S] f1(1) by auto
  then have q1: "quiet_step (next_addr w) c w w1" by (simp add: own_quiet_def)
  have l1: "logged c w1" and rc1: "rcv w1 c = rm" and fr1: "inb_frame (next_addr w) c w w1" and in1: "inputs w1 = inputs w"
    using logged_quiet [OF l q1] q1 rm(1) by (simp_all add: quiet_step_def)
  have nm: "username (cls w1 c) = username (cls w c)" using fr1 by (simp add: inb_frame_def cl_kept_def)
  have c1: "connected dest w1 = Some r" by (rule connected_frame [OF fr1 r])
  have "load32 pdu 0 = Some PDU_SYNC_HDR_MARK" using pdu(3) by (simp add: pdu_acceptable_def pdu_header_intact_def Let_def)
  then obtain b where b: "forward_pdu c r (w1\<lparr>nds := node_get (nds w1) r\<rparr>) =
      Some (deliver r (message_node b (username (cls w c))) w1)" "forwarded pdu (username (cls w c)) b"
    using forward_pdu_ok [OF connected_ref [OF l1 c1], of pdu c] rm(3,4) pdu(1) rc1 nm by auto
  have ok1: "msgs_ok S C1 U w1" using f1(2) by (simp add: flow_def)
  have rS: "r \<in> S" using connected_in_table [OF r(1)] ok(4) by blast
  have "length b < 2 ^ 32" using b(2) pdu(1) rm(4) b4(1) by (simp add: forwarded_def offset_in_off_of)
  then have nd: "node_ok (message_node b (username (cls w c)))" by simp
  define w2 where "w2 = deliver r (message_node b (username (cls w c))) w1"
  define U2 where "U2 = U(r := U r @ [next_addr w1])"
  note d = deliver_inflow [OF ok1 rS nd message_node_simps(2), folded w2_def U2_def]
  have q2: "quiet_step (next_addr w1) c w1 w2" unfolding w2_def by (rule deliver_quiet) simp
  then have rc2: "rcv w2 c = rm" "inputs w2 = inputs w" using rc1 in1 by (simp_all add: quiet_step_def)
  define rm3 where "rm3 = (if k = K then reset_msg (set_offset 0 rm) else (set_offset 0 rm)\<lparr>not_msg_init_pdu := True\<rparr>)"
  have "k < 2 ^ 64" using rm(4) b4(1) by (simp add: offset_in_off_of)
  then have kK: "(of_nat k :: u64) = of_nat K \<longleftrightarrow> k = K" using K by (simp add: word_of_nat_eq_iff take_bit_eq_mod)
  define w3 where "w3 = set_rcv c rm3 w2"
  have w3: "set_rcv c rm3 (set_rcv c (set_offset 0 rm) w2) = w3" by (simp add: w3_def set_rcv_def upd_cl_def)
  have "(ucast (pdu ! 4) :: u32) \<noteq> ucast MT_REQ" using pdu(2) by (simp add: ucast_byte_inject)
  then have "inb_validate c w = Some (Some WT_STOP_BORDER, w3)"
    unfolding inb_validate_def using v f1(1) rm rc1 rc2 b(1) get_connected_cases [OF l1, of dest] c1
    by (auto simp: w2_def [symmetric] finish_pdu_def w3 [unfolded rm3_def] rm3_def kK)
  moreover have "storage_after (rcv w3 c) K k dest"
  proof (cases "k = K")
    case True
    have "awaiting (reset_msg (set_offset 0 rm))" by (rule awaiting_reset) (use bo in \<open>simp add: buf_ok_def\<close>)
    then show ?thesis using True by (simp add: storage_after_def w3_def rm3_def)
  next
    case False
    have "rmsg_type rm \<noteq> ucast MT_REQ" using rm(8) pdu(2) by (simp add: ucast_byte_inject)
    moreover have "rmsg_type rm \<noteq> 0" using acceptable_facts(1) [OF acc _ bo] rm(2) by (simp add: parsed_ok_def)
    ultimately have "chunk_ready ((set_offset 0 rm)\<lparr>not_msg_init_pdu := True\<rparr>)"
      using rm(2) bo by (simp add: chunk_ready_def recv_ok_def buf_ok_def dest_ok_def parsed_ok_def)
    then show ?thesis
      using False rm(5-7) by (simp add: storage_after_def w3_def rm3_def between_def)
  qed
  moreover have "inputs w3 = inputs w" using rc2(2) by (simp add: w3_def set_rcv_def upd_cl_def)
  moreover have f3: "flow S C1 U2 x w2 C1 w3 []" for x
    by (rule flow_same [OF d(1)]) (simp_all add: w3_def set_rcv_def upd_cl_def cl_msgs_def)
  then have s3: "stream C1 w3 x = stream C1 w1 x" if "x \<in> S" for x
    using d(3) [OF that] by (simp add: flow_def)
  moreover have "inbox U2 w3 x = inbox U2 w2 x" for x using f3 by (simp add: flow_def)
  then have "inbox U2 w3 r = inbox U w r @ [(b, strncpy_bytes (username (cls w c)) 32)]"
    and "x \<in> S \<Longrightarrow> x \<noteq> r \<Longrightarrow> inbox U2 w3 x = inbox U w x" for x
    using d(2,4) flow_inbox [OF f1(2)] rS by simp_all
  moreover have "stream C1 w3 c = stream C w c @ resp" using s3 [OF ok(2)] f1(2) by (simp add: flow_def)
  moreover have "stream C1 w3 x = stream C w x" if "x \<in> S" "x \<noteq> c" for x
    using s3 [OF that(1)] flow_others(1) [OF f1(2) that] by simp
  moreover have "msgs_ok S C1 U2 w3" using f3 by (simp add: flow_def)
  moreover have "own_step S (next_addr w) c w w3"
  proof -
    have "own_quiet S (next_addr w) c w1 w2" unfolding w2_def
      by (rule deliver_own [OF next_addr_own [OF own_quiet_step [OF oq1] order_refl] connected_in_table [OF c1]]) (use nd in simp_all)
    then show ?thesis
      unfolding w3_def by (intro own_step_trans [OF own_step_trans [OF own_quiet_step [OF oq1] own_quiet_step] set_rcv_own])
  qed
  moreover have "cl_state (cls w3 c) = cl_state (cls w c)" if "sends_ok (outputs w c)"
  proof -
    have "cl_state (cls w2 c) = cl_state (cls w1 c)"
      by (simp add: w2_def deliver_def enqueue_userdata_def upd_cl_def split: prod.splits)
    then show ?thesis using respond_connected [OF that f1(1)] by (simp add: w3_def set_rcv_def upd_cl_def)
  qed
  ultimately show ?thesis
    using b(2) f1(4) by (intro exI [of _ w3] exI [of _ C1] exI [of _ U2] exI [of _ b] exI [of _ resp]) simp
qed

subsection \<open>The chunks of a long message\<close>

lemma read_chunk:
  assumes "between (rcv w c) K t dest" and lt: "t < K" "K < 2 ^ 64" and n: "n = min (K - t) LWMP_CHUNK_BUF_SIZE"
    and "ready (inputs w c)" and "n \<le> length (in_bytes (inputs w c))"
  defines "data \<equiv> take n (in_bytes (inputs w c))"
  shows "\<exists>inp. inb_chunk_data c w = Some (None, got c (received True data (rcv w c)) inp w) \<and>
    ready inp \<and> in_bytes inp = drop n (in_bytes (inputs w c)) \<and> fits data (rcv w c)"
proof -
  let ?rm = "rcv w c"
  have a: "length (rbuf (recvbuf ?rm)) = 4096" "off_of ?rm = 0" "expected_msg_size ?rm = of_nat K"
    "total_msg_data_recved ?rm = of_nat t" "t < K" "K < 2 ^ 64"
    using assms(1) lt by (simp_all add: between_def chunk_ready_def recv_ok_def buf_ok_def)
  have f: "fits d ?rm" if "length d \<le> n" for d using that a n by (simp add: fits_def off_of_def)
  have need: "fits d ?rm \<and> (total_msg_data_recved (received True d ?rm) < expected_msg_size (received True d ?rm) \<and>
        off_of (received True d ?rm) < of_nat LWMP_CHUNK_BUF_SIZE \<longleftrightarrow> length d < n) \<and>
      (length d < n \<longrightarrow> unat (min (expected_msg_size (received True d ?rm) - total_msg_data_recved (received True d ?rm))
        (ucast (of_nat LWMP_CHUNK_BUF_SIZE - off_of (received True d ?rm) :: u32))) = n - length d)"
    if d: "length d \<le> n" for d
  proof -
    have o: "unat (off_of (received True d ?rm)) = length d" using off_of_received [OF f [OF d], of True] a(2) by simp
    have tot: "total_msg_data_recved (received True d ?rm) = of_nat (t + length d)" using a(4) by (simp add: received_total)
    have "length d \<le> K - t" using d n by simp
    then have le: "t + length d \<le> K" using a(5) by simp
    have u: "unat (of_nat (t + length d) :: u64) = t + length d" "unat (of_nat K :: u64) = K"
      using le a(6) by (simp_all add: unat_of_nat take_bit_eq_mod del: of_nat_add)
    have c1: "(of_nat (t + length d) :: u64) < of_nat K \<longleftrightarrow> t + length d < K" unfolding word_less_nat_alt u by simp
    have c2: "off_of (received True d ?rm) < 4058 \<longleftrightarrow> length d < 4058" unfolding word_less_nat_alt o by simp
    have l1: "unat (of_nat K - of_nat (t + length d) :: u64) = K - (t + length d)"
    proof -
      have "(of_nat (t + length d) :: u64) \<le> of_nat K" unfolding word_le_nat_alt u by (rule le)
      then show ?thesis using u by (simp add: unat_sub del: of_nat_add)
    qed
    have l2: "unat (ucast (4058 - off_of (received True d ?rm)) :: u64) = 4058 - length d"
      using unat_room [of "off_of (received True d ?rm)" 4058] o d n by simp
    have "unat (min (of_nat K - of_nat (t + length d) :: u64) (ucast (4058 - off_of (received True d ?rm)))) = n - length d"
      using l1 l2 n unfolding min_def word_le_nat_alt by (simp del: of_nat_add)
    then show ?thesis
      using f [OF d] a(3) tot c1 c2 n by (simp del: of_nat_add) linarith
  qed
  from receive_exact [OF need assms(5,6), of "Some WT_STOP_EBLK"] f [of data] show ?thesis
    unfolding inb_chunk_data_def data_def by auto
qed

lemma chunk_step:
  assumes "logged c w" and "cl_state (cls w c) = AUTHENTICATED" and "msgs_ok S C U w" and "ht_nodes (std_cl_table w) \<subseteq> S"
    and ck: "between (rcv w c) K t dest" and lt: "t < K" "K < 2 ^ 64" and n: "n = min (K - t) LWMP_CHUNK_BUF_SIZE"
    and "ready (inputs w c)" and "n \<le> length (in_bytes (inputs w c))" and r: "connected dest w = Some r"
  shows "\<exists>w' U' b. wt_handle_inbound_data c w = Some (WT_STOP_BORDER, w') \<and> ready (inputs w' c) \<and>
    in_bytes (inputs w' c) = drop n (in_bytes (inputs w c)) \<and> storage_after (rcv w' c) K (t + n) dest \<and> msgs_ok S C U' w' \<and>
    chunk_of (take n (in_bytes (inputs w c))) (username (cls w c)) b \<and>
    inbox U' w' r = inbox U w r @ [(b, strncpy_bytes (username (cls w c)) UNAMESIZE)] \<and>
    (\<forall>x \<in> S. x \<noteq> r \<longrightarrow> inbox U' w' x = inbox U w x) \<and> (\<forall>x \<in> S. stream C w' x = stream C w x) \<and>
    own_step S (next_addr w) c w w' \<and> cl_state (cls w' c) = AUTHENTICATED"
proof -
  define data where "data = take n (in_bytes (inputs w c))"
  define rm where "rm = received True data (rcv w c)"
  from read_chunk [OF ck lt n assms(9,10)] obtain inp where
    rd: "inb_chunk_data c w = Some (None, got c rm inp w)" "ready inp" "in_bytes inp = drop n (in_bytes (inputs w c))"
      "fits data (rcv w c)"
    unfolding data_def rm_def by blast
  have ld: "length data = n" using assms(10) by (simp add: data_def)
  have a: "recv_ok (rcv w c)" "not_msg_init_pdu (rcv w c)" "\<not> is_desynced (rcv w c)" "off_of (rcv w c) = 0"
    "total_msg_data_recved (rcv w c) = of_nat t" "expected_msg_size (rcv w c) = of_nat K" "t < K" "K < 2 ^ 64"
    "dest_uname (rcv w c) = dest" "rmsg_type (rcv w c) \<noteq> ucast MT_REQ"
    using ck lt connected_Nil [of dest w] r
    by (auto simp: between_def chunk_ready_def recv_ok_def dest_ok_def)
  have bo: "buf_ok rm" unfolding rm_def by (rule buf_ok_received [OF recv_okD(1) [OF a(1)] rd(4)])
  have rm: "unat (off_of rm) = n" "take n (rbuf (recvbuf rm)) = data" "expected_msg_size rm = of_nat K"
    "total_msg_data_recved rm = of_nat (t + n)" "dest_uname rm = dest" "not_msg_init_pdu rm" "\<not> is_desynced rm"
    "rmsg_type rm = rmsg_type (rcv w c)"
    using off_of_received [OF rd(4), of True] a ld by (simp_all add: rm_def received_total received_rbuf off_of_def)
  define w1 where "w1 = got c rm inp w"
  have s1: "own_step S (next_addr w) c w w1" unfolding w1_def by (rule got_step)
  have l1: "logged c w1" by (rule logged_own [OF assms(1) s1])
  have ok1: "msgs_ok S C U w1" using got_flow(1) [OF assms(3)] by (simp add: w1_def flow_def)
  have c1: "connected dest w1 = Some r" using r by (auto simp: connected_def w1_def is_not_disconnected_def split: option.splits if_splits)
  have rS: "r \<in> S" using connected_in_table [OF r] assms(4) by blast
  have "LWMP_CHUNK_BUF_SIZE \<le> length (rbuf (recvbuf rm))" using bo by (simp add: buf_ok_def)
  moreover have "unat (off_of rm) \<le> LWMP_CHUNK_BUF_SIZE" using rm(1) n by simp
  ultimately obtain b where b: "forward_chunk c r (w1\<lparr>nds := node_get (nds w1) r\<rparr>) =
      Some (deliver r (message_node b (username (cls w c))) w1)" "chunk_of data (username (cls w c)) b"
    using forward_chunk_ok [OF connected_ref [OF l1 c1], of c data] rm(1,2) by (auto simp: w1_def)
  have "length b < 2 ^ 32" using b(2) ld n by (simp add: chunk_of_def)
  then have nd: "node_ok (message_node b (username (cls w c)))" by simp
  define w2 where "w2 = deliver r (message_node b (username (cls w c))) w1"
  define U2 where "U2 = U(r := U r @ [next_addr w1])"
  note d = deliver_inflow [OF ok1 rS nd message_node_simps(2), folded w2_def U2_def]
  have "r \<in> ht_nodes (std_cl_table w1)" by (rule connected_in_table [OF c1])
  then have q2: "own_quiet S (next_addr w) c w1 w2"
    unfolding w2_def by (intro deliver_own) (use nd in \<open>simp_all add: w1_def\<close>)
  then have rc2: "rcv w2 c = rm" "inputs w2 c = inp" using own_quietD(2,3) [OF q2] by (simp_all add: w1_def)
  define rm3 where "rm3 = (if t + n = K then reset_msg (set_offset 0 rm) else set_offset 0 rm)"
  define w3 where "w3 = set_rcv c rm3 w2"
  have "t + n \<le> K" using n a(7) by simp
  then have kK: "(of_nat K :: u64) = of_nat (t + n) \<longleftrightarrow> t + n = K"
    using a(8) by (auto simp: word_of_nat_eq_iff take_bit_eq_mod simp del: of_nat_add)
  have "wt_handle_inbound_data c w = Some (WT_STOP_BORDER, w3)"
  proof -
    have "live w c" using assms(1) by (simp add: logged_def)
    moreover have "inb_chunk c w = Some (Some WT_STOP_BORDER, w3)"
      unfolding inb_chunk_def rd(1) w1_def [symmetric] and_then_def
      using get_connected_cases [OF l1, of dest] c1 b(1) rm(3-5) rc2(1) kK
      by (simp add: w1_def) (simp add: w1_def [symmetric] w2_def [symmetric] w3_def rm3_def eq_commute [of "_ + _" K] del: of_nat_add)
    ultimately show ?thesis using assms(2) a(2,3) by (simp add: wt_handle_inbound_data_def inb_resync_def and_then_def)
  qed
  moreover have "storage_after (rcv w3 c) K (t + n) dest"
  proof (cases "t + n = K")
    case True
    have "awaiting (reset_msg (set_offset 0 rm))" by (rule awaiting_reset) (use bo in \<open>simp add: buf_ok_def\<close>)
    then show ?thesis using True by (simp add: storage_after_def w3_def rm3_def)
  next
    case False
    have dok: "dest_ok rm" using recv_okD(2) [OF a(1)] rm(3,5,8) a(6,9) by (simp add: dest_ok_def)
    have "chunk_ready (set_offset 0 rm)"
      using bo rm(6,7) dok by (simp add: chunk_ready_def recv_ok_def dest_ok_def buf_ok_def)
    then show ?thesis
      using False \<open>t + n \<le> K\<close> a(8) rm by (simp add: storage_after_def between_def w3_def rm3_def)
  qed
  moreover have f3: "flow S C U2 x w2 C w3 []" for x
    by (rule flow_same [OF d(1)]) (simp_all add: w3_def set_rcv_def upd_cl_def cl_msgs_def)
  then have "stream C w3 x = stream C w x" if "x \<in> S" for x
    using d(3) [OF that] got_flow(1) [OF assms(3), of c rm inp] by (simp add: flow_def) (simp add: w1_def stream_def temps_def)
  moreover have i1: "inbox U w1 x = inbox U w x" for x by (simp add: w1_def inbox_def)
  have i3: "inbox U2 w3 x = inbox U2 w2 x" for x using f3 by (simp add: flow_def)
  have "inbox U2 w3 r = inbox U w r @ [(b, strncpy_bytes (username (cls w c)) 32)]"
    and "x \<in> S \<Longrightarrow> x \<noteq> r \<Longrightarrow> inbox U2 w3 x = inbox U w x" for x
    using d(2,4) by (simp_all add: i1 i3)
  moreover have "msgs_ok S C U2 w3" using f3 by (simp add: flow_def)
  moreover have "own_step S (next_addr w) c w w3"
    unfolding w3_def by (rule own_step_trans [OF own_step_trans [OF s1 own_quietD(1) [OF q2]] set_rcv_own])
  moreover have "cl_state (cls w3 c) = AUTHENTICATED"
  proof -
    have "cl_state (cls w2 c) = cl_state (cls w1 c)"
      by (simp add: w2_def deliver_def enqueue_userdata_def upd_cl_def split: prod.splits)
    then show ?thesis using assms(2) by (simp add: w3_def set_rcv_def upd_cl_def w1_def)
  qed
  moreover have "inputs w3 c = inp" using rc2(2) by (simp add: w3_def set_rcv_def upd_cl_def)
  ultimately show ?thesis
    using b(2) rd(2,3) unfolding data_def by (intro exI [of _ w3] exI [of _ U2] exI [of _ b]) simp
qed

lemma message_step:
  assumes "logged c w" and "cl_state (cls w c) = AUTHENTICATED" and "msgs_ok S C U w" and "c \<in> S" and "idle C w c"
    and "ht_nodes (std_cl_table w) \<subseteq> S"
    and "awaiting (rcv w c)" and "ready (inputs w c)" and "in_bytes (inputs w c) = pdu @ later" and "first_pdu pdu K"
    and "pdu_acceptable pdu (std_cl_table w, nds w, cls w) (recipient_of pdu) (hvfns w)"
    and "connected (recipient_of pdu) w = Some r" and "r \<noteq> c"
  shows "\<exists>w' C' U' b resp. wt_handle_inbound_data c w = Some (WT_STOP_BORDER, w') \<and> in_bytes (inputs w' c) = later \<and> ready (inputs w' c) \<and>
    storage_after (rcv w' c) K (min K LWMP_PDU_BUF_SIZE) (recipient_of pdu) \<and> msgs_ok S C' U' w' \<and>
    forwarded pdu (username (cls w c)) b \<and>
    inbox U' w' r = inbox U w r @ [(b, strncpy_bytes (username (cls w c)) UNAMESIZE)] \<and>
    stream C' w' c = stream C w c @ resp \<and> is_response resp MT_INFO (padded_optional (Some (be32 RESP_OK)) 4) None \<and>
    (\<forall>x \<in> S. x \<noteq> r \<longrightarrow> inbox U' w' x = inbox U w x) \<and> (\<forall>x \<in> S. x \<noteq> c \<longrightarrow> stream C' w' x = stream C w x) \<and>
    own_step S (next_addr w) c w w' \<and> (sends_ok (outputs w c) \<longrightarrow> cl_state (cls w' c) = AUTHENTICATED)"
proof -
  define k where "k = min K 4015"
  have K: "k = min K 4015" "K < 2 ^ 64 - 81" "K < 2 ^ 64" using assms(10) by (simp_all add: k_def first_pdu_def)
  obtain inp rm where r: "inb_first_pdu c w = inb_validate c (got c rm inp w)" "in_bytes inp = later" "parsed_ok rm" "ready inp"
    "take (81 + k) (rbuf (recvbuf rm)) = pdu" "unat (off_of rm) = 81 + k" "expected_msg_size rm = of_nat K"
    "total_msg_data_recved rm = of_nat k" "dest_uname rm = recipient_of pdu" "rmsg_type rm = ucast (pdu ! 4)"
    using read_message [OF assms(7-10) K(1)] by blast
  define w1 where "w1 = got c rm inp w"
  have f: "flow S C U c w C w1 []" unfolding w1_def by (rule got_flow(1) [OF assms(3)])
  have fr: "inb_frame (next_addr w) c w w1" unfolding w1_def by (rule own_step_frame [OF got_step [where S = S]])
  have id: "idle C w1 c" "ht_nodes (std_cl_table w1) \<subseteq> S" using assms(5,6) by (simp_all add: w1_def idle_def)
  have "client_table (nds w) (std_cl_table w)" using assms(1) by (simp add: logged_def)
  from validate_same_clients [OF this, of "cls w1" "cls w" "recipient_of pdu"]
  have v: "validate_recipient (std_cl_table w1, nds w1, cls w1) (recipient_of pdu) =
    validate_recipient (std_cl_table w, nds w, cls w) (recipient_of pdu)" by (simp add: w1_def)
  have pd: "length pdu = 81 + k" "pdu ! 4 \<noteq> MT_REQ" using assms(10) by (simp_all add: k_def first_pdu_def)
  have acc: "pdu_acceptable pdu (std_cl_table w1, nds w1, cls w1) (recipient_of pdu) (hvfns w1)"
    using assms(11) v pd(2) by (simp add: pdu_acceptable_def hvfns_def Let_def) (simp add: w1_def)
  have ok1: "msgs_ok S C U w1" using f by (simp add: flow_def)
  have rc: "rcv w1 c = rm" by (simp add: w1_def)
  from deliver_message [OF logged_frame [OF assms(1) fr] ok1 assms(4) id rc r(3,5-10) K(3) pd acc
      connected_frame [OF fr assms(12,13)] assms(13)]
  obtain w' C' U' b resp where d: "inb_validate c w1 = Some (Some WT_STOP_BORDER, w')" "inputs w' = inputs w1"
    "storage_after (rcv w' c) K k (recipient_of pdu)" "msgs_ok S C' U' w'" "forwarded pdu (username (cls w1 c)) b"
    "inbox U' w' r = inbox U w1 r @ [(b, strncpy_bytes (username (cls w1 c)) UNAMESIZE)]"
    "stream C' w' c = stream C w1 c @ resp" "is_response resp MT_INFO (padded_optional (Some (be32 RESP_OK)) 4) None"
    "\<forall>x \<in> S. x \<noteq> r \<longrightarrow> inbox U' w' x = inbox U w1 x" "\<forall>x \<in> S. x \<noteq> c \<longrightarrow> stream C' w' x = stream C w1 x"
    "own_step S (next_addr w1) c w1 w'" "sends_ok (outputs w1 c) \<longrightarrow> cl_state (cls w' c) = cl_state (cls w1 c)" by blast
  have a: "\<not> is_desynced (rcv w c)" "\<not> not_msg_init_pdu (rcv w c)" "live w c"
    using assms(1,7) by (simp_all add: awaiting_def logged_def)
  have "wt_handle_inbound_data c w = Some (WT_STOP_BORDER, w')"
    using a assms(2) r(1) d(1) by (simp add: wt_handle_inbound_data_def inb_resync_def and_then_def w1_def)
  moreover have "in_bytes (inputs w' c) = later" using d(2) r(2) by (simp add: w1_def)
  moreover have "username (cls w1 c) = username (cls w c)" by (simp add: w1_def)
  moreover have "inbox U w1 x = inbox U w x" "stream C w1 x = stream C w x" for x
    by (simp_all add: w1_def inbox_def stream_def temps_def)
  moreover have "own_step S (next_addr w) c w w'"
    using own_step_trans [OF got_step [of S "next_addr w" c w rm inp], of w'] d(11) by (simp add: w1_def)
  moreover have "sends_ok (outputs w c) \<longrightarrow> cl_state (cls w' c) = AUTHENTICATED"
    using d(12) assms(2) by (simp add: w1_def got_def set_rcv_def upd_cl_def)
  moreover have "ready (inputs w' c)" using d(2) r(4) by (simp add: w1_def)
  ultimately show ?thesis using d(3-10) unfolding k_def
    by (intro exI [of _ w'] exI [of _ C'] exI [of _ U'] exI [of _ b] exI [of _ resp]) simp
qed

subsection \<open>An example\<close>

definition example_client :: "byte \<Rightarrow> std_client" where
  "example_client ch = (fst (create_std_client 0 5 0 (replicate LWMP_MAX_PDU_SIZE 0)))
     \<lparr>username := strncpy_bytes [ch] UNAMESIZE, cl_state := AUTHENTICATED, pending_userdata_queue := example_queue\<rparr>"

text \<open>Two clients that are logged in: \<open>a\<close> at address 1 with input \<open>inp\<close>, and \<open>b\<close> at address 3.\<close>

definition example_worker :: "recv_res list \<Rightarrow> worker" where
  "example_worker inp = \<lparr>cls = (\<lambda>n. example_client (if n = 3 then 98 else 97)), nds = example_nodes, msgs = (\<lambda>_. plain_node []),
     std_cl_table = example_ht, preauth_list = [], clth = \<lparr>clients = [], num_clients = 0, num_slots = 0\<rparr>,
     dconn_clients = \<lparr>nodes = [], arr_size = DEF_STDCL_DCONARR_SIZE\<rparr>,
     std_ipblock_tbl = example_ht, ipb_recs = (\<lambda>_. std_ipb_rec_create (Timespec 0 0) 0 False), ip_whitelist_tbl = example_ht,
     wl_recs = (\<lambda>_. whitelist_rec_create 0), next_addr = 10, garbage = (\<lambda>_ _. 0), efd_ok = True,
     inputs = (\<lambda>n. if n = 1 then inp else []), outputs = (\<lambda>_. []), accepts = (\<lambda>_. []), sent = (\<lambda>_. []),
     sock_events = (\<lambda>n. if n \<in> {1, 3} then Some (True, False) else None),
     queue_events = (\<lambda>n. if n \<in> {1, 3} then Some True else None), now = Timespec 0 0, thrd_id = 0, cfg = get_default_cfg\<rparr>"

abbreviation (input) no_msgs :: "addr \<Rightarrow> addr list" where "no_msgs \<equiv> \<lambda>_. []"

lemma example_client_fields [simp]:
  "cl_state (example_client ch) = AUTHENTICATED" "username (example_client ch) = strncpy_bytes [ch] 32"
  "temp_send_storage (example_client ch) = 0" "pending_ctrl_queue (example_client ch) = zero_queue"
  "pending_userdata_queue (example_client ch) = example_queue"
  by (simp_all add: example_client_def create_std_client_def)

lemma example_storage: "awaiting (temp_recv_storage (example_client ch))"
  by (simp add: example_client_def create_std_client_def awaiting_def recv_ok_def buf_ok_def dest_ok_def off_of_def size_of_def MT_NONE_def)

lemma example_nodes_in_table: "ht_nodes example_ht = {1, 3}"
  by (auto simp: ht_nodes_def example_ht_def)

lemma example_worker_ok:
  "logged c (example_worker inp) \<longleftrightarrow> c \<noteq> 0" "msgs_ok {1, 3} no_msgs no_msgs (example_worker inp)"
  "idle no_msgs (example_worker inp) c" "owns {1, 3} (example_worker inp)"
  "rcv (example_worker inp) c = temp_recv_storage (example_client (if c = 3 then 98 else 97))"
  "cls (example_worker inp) c = example_client (if c = 3 then 98 else 97)"
  "inputs (example_worker inp) 1 = inp"
proof -
  have t: "client_table example_nodes example_ht"
    using example_ht_ok by (auto simp: client_table_def example_nodes_def)
  then show "logged c (example_worker inp) \<longleftrightarrow> c \<noteq> 0"
    by (auto simp: logged_def live_def example_worker_def example_nodes_def example_nodes_in_table) (simp_all add: example_ht_def)
  show m: "msgs_ok {1, 3} no_msgs no_msgs (example_worker inp)"
    by (auto simp: msgs_ok_def local_ok_def owned_def temps_def example_worker_def queue_is_def zero_queue_def example_queue_def)
  show i: "idle no_msgs (example_worker inp) c" for c by (simp add: idle_def)
  show "owns {1, 3} (example_worker inp)"
    using m i unfolding owns_def by (auto simp: example_worker_def example_nodes_in_table)
qed (simp_all add: example_worker_def)

text \<open>A message from \<open>a\<close> to \<open>b\<close>.\<close>

definition example_text :: "byte list" where
  "example_text = be32 PDU_SYNC_HDR_MARK @ [MT_MSG] @ 98 # replicate 31 0 @ replicate 32 0 @ be64 2 @ replicate 4 0 @ [104, 105]"

definition example_pdu :: "byte list" where
  "example_pdu = the (store_crc example_text)"

lemma example_pdu_valid:
  "first_pdu example_pdu 2" "recipient_of example_pdu = 98 # replicate 31 0"
  "pdu_acceptable example_pdu (std_cl_table (example_worker inp), nds (example_worker inp), cls (example_worker inp))
     (recipient_of example_pdu) (hvfns (example_worker inp))"
  "connected (recipient_of example_pdu) (example_worker inp) = Some 3"
proof -
  have len: "length example_text = 83" by (simp add: example_text_def)
  have "load32 example_text 0 = Some PDU_SYNC_HDR_MARK"
    by (simp add: example_text_def load32_def mem_read_def of_be32_be32)
  then obtain pdu where pdu: "store_crc example_text = Some pdu" "length pdu = length example_text" "pdu_header_intact pdu"
    "\<And>off n. off + n \<le> 77 \<or> 81 \<le> off \<Longrightarrow> mem_read pdu off n = mem_read example_text off n"
    using store_crc_correct [of example_text] len by auto
  have r: "mem_read pdu 4 1 = Some [MT_MSG]" "mem_read pdu 5 32 = Some (98 # replicate 31 0)" "mem_read pdu 69 8 = Some (be64 2)"
    by (simp_all add: pdu(4)) (simp_all add: example_text_def mem_read_def be32_def)
  have f: "pdu ! 4 = MT_MSG" "take 32 (drop 5 pdu) = 98 # replicate 31 0" "take 8 (drop 69 pdu) = be64 2"
  proof -
    have "take 1 (drop 4 pdu) = [MT_MSG]" using r(1) by (simp add: mem_read_def split: if_splits)
    then show "pdu ! 4 = MT_MSG" using pdu(2) len by (simp add: take_Suc_conv_app_nth hd_drop_conv_nth)
  qed (use r(2,3) in \<open>simp_all add: mem_read_def split: if_splits\<close>)
  have rc: "recipient_of pdu = 98 # replicate 31 0"
    unfolding recipient_of_def f(2) by (simp add: list_update_same_conv numeral_eq_Suc)
  have c: "cstr (recipient_of pdu) = [98]" unfolding rc by simp
  have m: "ht_map example_nodes example_ht [98] = Some 3" by (simp add: ht_map_def example_ht_def example_nodes_def)
  have conn: "connected (recipient_of pdu) (example_worker inp) = Some 3"
    unfolding connected_def c by (simp add: m example_worker_def is_not_disconnected_def)
  have v: "validate_recipient (example_ht, example_nodes, cls (example_worker inp)) (recipient_of pdu)"
    using example_ht_ok c m by (subst validate_recipient_iff) (auto simp: client_table_def example_nodes_def example_worker_def)
  have "pdu_acceptable pdu (std_cl_table (example_worker inp), nds (example_worker inp), cls (example_worker inp))
       (recipient_of pdu) (hvfns (example_worker inp))"
    using pdu(3) f(1,3) v
    by (simp add: pdu_acceptable_def Let_def msg_type_defs hvfns_def example_worker_def of_be64_be64 get_default_cfg_def)
  moreover have "first_pdu pdu 2"
    using f(1,3) pdu(2) len by (simp add: first_pdu_def load64_Some of_be64_be64 msg_type_defs)
  moreover have "example_pdu = pdu" using pdu(1) by (simp add: example_pdu_def)
  ultimately show "first_pdu example_pdu 2" "recipient_of example_pdu = 98 # replicate 31 0"
    "pdu_acceptable example_pdu (std_cl_table (example_worker inp), nds (example_worker inp), cls (example_worker inp))
       (recipient_of example_pdu) (hvfns (example_worker inp))"
    "connected (recipient_of example_pdu) (example_worker inp) = Some 3"
    using rc conn by simp_all
qed

lemma strncpy_twice: "strncpy_bytes (strncpy_bytes s n) n = strncpy_bytes s n"
  unfolding strncpy_bytes_def [of "strncpy_bytes s n"] Let_def cstr_strncpy_bytes by (simp add: strncpy_bytes_def Let_def)

lemma ready_data: "ready inp \<Longrightarrow> bs \<noteq> [] \<Longrightarrow> ready (RecvData bs # inp)"
  by (simp add: ready_def)

subsection \<open>The properties\<close>

text \<open>C3. Whatever a client that is logged in sends, in whatever pieces, and however its connection fails,
  \<open>wt_handle_inbound_data\<close> returns without an access outside its buffers or to a freed object: the invariants
  of the receive storage and of the ownership of all message nodes hold again, and the state of every other
  client is as before, but for the messages that its queue of user data has gained.\<close>

theorem inbound_safe:
  assumes "logged c w" and "recv_ok (rcv w c)" and "owns S w" and "c \<in> S"
  shows "\<exists>st w'. wt_handle_inbound_data c w = Some (st, w') \<and> logged c w' \<and> recv_ok (rcv w' c) \<and> owns S w' \<and>
    (\<forall>x. x \<noteq> c \<longrightarrow> temp_recv_storage (cls w' x) = temp_recv_storage (cls w x) \<and> cl_state (cls w' x) = cl_state (cls w x) \<and>
       temp_send_storage (cls w' x) = temp_send_storage (cls w x))"
proof -
  obtain st w' where r: "wt_handle_inbound_data c w = Some (st, w')" "own_step S (next_addr w) c w w'" "logged c w'"
    "recv_ok (rcv w' c)"
    using inbound_returns [OF assms(1,2) order_refl, of S] by blast
  have "\<forall>x. x \<noteq> c \<longrightarrow> cl_own (cls w' x) = cl_own (cls w x)" using own_step_frame [OF r(2)] by (simp add: inb_frame_def)
  then show ?thesis using r assms(3,4) by (simp add: own_step_def cl_own_def)
qed

theorem inbound_safe_witness:
  "\<exists>st w'. wt_handle_inbound_data 1 (example_worker [RecvData [1, 2, 3], RecvError]) = Some (st, w') \<and> recv_ok (rcv w' 1)"
proof -
  have r: "recv_ok (rcv (example_worker [RecvData [1, 2, 3], RecvError]) 1)"
    using example_storage by (simp add: example_worker_ok awaiting_def)
  have l: "logged 1 (example_worker [RecvData [1, 2, 3], RecvError])" by (simp add: example_worker_ok)
  from inbound_safe [OF l r example_worker_ok(4)] show ?thesis by auto
qed



end
