(* ===== verification/Longmsg.thy ===== *)
theory Longmsg
  imports Forwarding
begin

text \<open>
  The loop of \<open>wt_handle_clientevent\<close> around \<open>wt_handle_inbound_data\<close> (line 758 of \<open>server/worker.c\<close>): it goes
  on as long as a message border is reached. With it, long messages travel in chunks; and two inputs make it
  go on for ever.
\<close>

partial_function (option) inbound_loop :: "addr \<Rightarrow> worker \<Rightarrow> (wt_inb_data_status \<times> worker) option" where
  "inbound_loop c w =
     (case wt_handle_inbound_data c w of
        None \<Rightarrow> None
      | Some (st, w') \<Rightarrow> if st = WT_STOP_BORDER then inbound_loop c w' else Some (st, w'))"

lemma inbound_loop_border:
  "wt_handle_inbound_data c w = Some (WT_STOP_BORDER, w') \<Longrightarrow> inbound_loop c w = inbound_loop c w'"
  by (subst inbound_loop.simps) simp

text \<open>With no input left, a client that is between two messages blocks.\<close>

lemma awaiting_blocks:
  assumes "logged c w" and "cl_state (cls w c) = AUTHENTICATED" and "awaiting (rcv w c)" and "ready (inputs w c)"
    and "in_bytes (inputs w c) = []"
  shows "inbound_loop c w = Some (WT_STOP_EBLK, got c (rcv w c) [] w)"
proof -
  have "inputs w c = []"
    using assms(4,5) by (cases "inputs w c") (auto simp: ready_def)
  moreover have a: "off_of (rcv w c) = 0" "\<not> is_desynced (rcv w c)" "\<not> not_msg_init_pdu (rcv w c)" "live w c"
    using assms(1,3) by (simp_all add: awaiting_def logged_def)
  ultimately have "inb_header c w = Some (Some WT_STOP_EBLK, got c (rcv w c) [] w)"
    by (simp add: inb_header_def receive_def recv_while.simps got_def Let_def)
  then have "wt_handle_inbound_data c w = Some (WT_STOP_EBLK, got c (rcv w c) [] w)"
    using a assms(2) by (simp add: wt_handle_inbound_data_def inb_resync_def inb_first_pdu_def and_then_def)
  then show ?thesis by (subst inbound_loop.simps) simp
qed

subsection \<open>Long messages\<close>

lemma username_own: "own_step S n c w w' \<Longrightarrow> username (cls w' x) = username (cls w x)"
  by (simp add: own_step_def inb_frame_def cl_kept_def)

lemma table_own: "own_step S n c w w' \<Longrightarrow> std_cl_table w' = std_cl_table w"
  by (simp add: own_step_def inb_frame_def kept_def)

text \<open>What the recipient gets of a long message: chunks from the sender whose payloads make up the data.\<close>

definition in_chunks :: "byte list \<Rightarrow> byte list \<Rightarrow> byte list list \<Rightarrow> bool" where
  "in_chunks data sender bs \<longleftrightarrow> (\<exists>ds. concat ds = data \<and>
     (\<forall>d \<in> set ds. d \<noteq> [] \<and> length d \<le> LWMP_CHUNK_BUF_SIZE) \<and> list_all2 (\<lambda>d b. chunk_of d sender b) ds bs)"

lemma chunks_delivered:
  assumes "logged c w" and "cl_state (cls w c) = AUTHENTICATED" and "msgs_ok S C U w" and "ht_nodes (std_cl_table w) \<subseteq> S"
    and "storage_after (rcv w c) K t dest" and "t \<le> K" and "K < 2 ^ 64" and "ready (inputs w c)" and "in_bytes (inputs w c) = data @ later"
    and "length data = K - t" and "connected dest w = Some r" and "r \<noteq> c"
  shows "\<exists>w' U' bs. inbound_loop c w = inbound_loop c w' \<and> logged c w' \<and> cl_state (cls w' c) = AUTHENTICATED \<and>
    msgs_ok S C U' w' \<and> awaiting (rcv w' c) \<and> ready (inputs w' c) \<and> in_bytes (inputs w' c) = later \<and>
    in_chunks data (username (cls w c)) bs \<and>
    inbox U' w' r = inbox U w r @ map (\<lambda>b. (b, strncpy_bytes (username (cls w c)) UNAMESIZE)) bs \<and>
    (\<forall>x \<in> S. x \<noteq> r \<longrightarrow> inbox U' w' x = inbox U w x) \<and> (\<forall>x \<in> S. stream C w' x = stream C w x)"
  using assms
proof (induction "K - t" arbitrary: t w U data rule: less_induct)
  case less
  show ?case
  proof (cases "t = K")
    case True
    then show ?thesis
      using less.prems by (intro exI [of _ w] exI [of _ U] exI [of _ "[]"]) (auto simp: storage_after_def in_chunks_def)
  next
    case False
    define n where "n = min (K - t) 4058"
    have n: "0 < n" "n \<le> length data" "t + n \<le> K" using False less.prems(6,10) by (auto simp: n_def)
    have ck: "between (rcv w c) K t dest" "t < K" using False less.prems(5,6) by (simp_all add: storage_after_def)
    have tk: "take n (in_bytes (inputs w c)) = take n data" "drop n (in_bytes (inputs w c)) = drop n data @ later"
      "n \<le> length (in_bytes (inputs w c))"
      using n(2) less.prems(9) by simp_all
    from chunk_step [OF less.prems(1-4) ck less.prems(7) n_def less.prems(8) tk(3) less.prems(11)] obtain w1 U1 b where
      s: "wt_handle_inbound_data c w = Some (WT_STOP_BORDER, w1)" "ready (inputs w1 c)"
        "in_bytes (inputs w1 c) = drop n data @ later" "storage_after (rcv w1 c) K (t + n) dest" "msgs_ok S C U1 w1"
        "chunk_of (take n data) (username (cls w c)) b"
        "inbox U1 w1 r = inbox U w r @ [(b, strncpy_bytes (username (cls w c)) 32)]"
        "\<forall>x \<in> S. x \<noteq> r \<longrightarrow> inbox U1 w1 x = inbox U w x" "\<forall>x \<in> S. stream C w1 x = stream C w x"
        "own_step S (next_addr w) c w w1" "cl_state (cls w1 c) = AUTHENTICATED"
      unfolding tk by blast
    have f: "logged c w1" "username (cls w1 c) = username (cls w c)" "ht_nodes (std_cl_table w1) \<subseteq> S"
      "connected dest w1 = Some r"
      using logged_own [OF less.prems(1) s(10)] username_own [OF s(10)] table_own [OF s(10)] less.prems(4)
        connected_frame [OF own_step_frame [OF s(10)] less.prems(11,12)] by simp_all
    have "K - (t + n) < K - t" using n by simp
    moreover have "length (drop n data) = K - (t + n)" using less.prems(10) by simp
    ultimately obtain w2 U2 bs where
      ih: "inbound_loop c w1 = inbound_loop c w2" "logged c w2" "cl_state (cls w2 c) = AUTHENTICATED" "msgs_ok S C U2 w2"
        "awaiting (rcv w2 c)" "ready (inputs w2 c)" "in_bytes (inputs w2 c) = later"
        "in_chunks (drop n data) (username (cls w c)) bs"
        "inbox U2 w2 r = inbox U1 w1 r @ map (\<lambda>b. (b, strncpy_bytes (username (cls w c)) 32)) bs"
        "\<forall>x \<in> S. x \<noteq> r \<longrightarrow> inbox U2 w2 x = inbox U1 w1 x" "\<forall>x \<in> S. stream C w2 x = stream C w1 x"
      using less.hyps [OF _ f(1) s(11,5) f(3) s(4) n(3) less.prems(7) s(2,3) _ f(4) less.prems(12)] unfolding f(2) by blast
    obtain ds where ds: "concat ds = drop n data" "\<forall>d \<in> set ds. d \<noteq> [] \<and> length d \<le> 4058" "list_all2 (\<lambda>d b. chunk_of d (username (cls w c)) b) ds bs"
      using ih(8) by (auto simp: in_chunks_def)
    then have "in_chunks data (username (cls w c)) (b # bs)"
      using s(6) n n_def unfolding in_chunks_def by (intro exI [of _ "take n data # ds"]) auto
    moreover have "inbound_loop c w = inbound_loop c w2" using inbound_loop_border [OF s(1)] ih(1) by simp
    ultimately show ?thesis
      using ih(2-7,9-11) s(7-9) by (intro exI [of _ w2] exI [of _ U2] exI [of _ "b # bs"]) simp
  qed
qed

lemma got_inbox: "inbox U (got c rm inp w) x = inbox U w x" "stream C (got c rm inp w) x = stream C w x"
  by (simp_all add: inbox_def stream_def temps_def)

lemma long_message:
  assumes "logged c w" and "cl_state (cls w c) = AUTHENTICATED" and "msgs_ok S C U w" and "c \<in> S" and "idle C w c"
    and "ht_nodes (std_cl_table w) \<subseteq> S"
    and "awaiting (rcv w c)" and "ready (inputs w c)" and "sends_ok (outputs w c)" and "in_bytes (inputs w c) = pdu @ data"
    and "first_pdu pdu K" and "length data = K - min K LWMP_PDU_BUF_SIZE"
    and "pdu_acceptable pdu (std_cl_table w, nds w, cls w) (recipient_of pdu) (hvfns w)"
    and "connected (recipient_of pdu) w = Some r" and "r \<noteq> c"
  shows "\<exists>w' C' U' b bs resp. inbound_loop c w = Some (WT_STOP_EBLK, w') \<and> awaiting (rcv w' c) \<and> msgs_ok S C' U' w' \<and>
    forwarded pdu (username (cls w c)) b \<and> in_chunks data (username (cls w c)) bs \<and>
    inbox U' w' r = inbox U w r @ map (\<lambda>b. (b, strncpy_bytes (username (cls w c)) UNAMESIZE)) (b # bs) \<and>
    stream C' w' c = stream C w c @ resp \<and> is_response resp MT_INFO (padded_optional (Some (be32 RESP_OK)) 4) None \<and>
    (\<forall>x \<in> S. x \<noteq> r \<longrightarrow> inbox U' w' x = inbox U w x) \<and> (\<forall>x \<in> S. x \<noteq> c \<longrightarrow> stream C' w' x = stream C w x)"
proof -
  from message_step [OF assms(1-8,10,11,13,14,15)] assms(9) obtain w1 C1 U1 b resp where
    s: "wt_handle_inbound_data c w = Some (WT_STOP_BORDER, w1)" "in_bytes (inputs w1 c) = data" "ready (inputs w1 c)"
      "storage_after (rcv w1 c) K (min K 4015) (recipient_of pdu)" "msgs_ok S C1 U1 w1"
      "forwarded pdu (username (cls w c)) b"
      "inbox U1 w1 r = inbox U w r @ [(b, strncpy_bytes (username (cls w c)) 32)]"
      "stream C1 w1 c = stream C w c @ resp" "is_response resp MT_INFO (padded_optional (Some (be32 RESP_OK)) 4) None"
      "\<forall>x \<in> S. x \<noteq> r \<longrightarrow> inbox U1 w1 x = inbox U w x" "\<forall>x \<in> S. x \<noteq> c \<longrightarrow> stream C1 w1 x = stream C w x"
      "own_step S (next_addr w) c w w1" "cl_state (cls w1 c) = AUTHENTICATED" by blast
  have f: "logged c w1" "username (cls w1 c) = username (cls w c)" "ht_nodes (std_cl_table w1) \<subseteq> S"
    "connected (recipient_of pdu) w1 = Some r"
    using logged_own [OF assms(1) s(12)] username_own [OF s(12)] table_own [OF s(12)] assms(6)
      connected_frame [OF own_step_frame [OF s(12)] assms(14,15)] by simp_all
  have K: "K < 2 ^ 64" "min K 4015 \<le> K" using assms(11) by (simp_all add: first_pdu_def)
  have "in_bytes (inputs w1 c) = data @ []" using s(2) by simp
  from chunks_delivered [OF f(1) s(13,5) f(3) s(4) K(2,1) s(3) this assms(12) f(4) assms(15)] obtain w2 U2 bs where
    t: "inbound_loop c w1 = inbound_loop c w2" "logged c w2" "cl_state (cls w2 c) = AUTHENTICATED" "msgs_ok S C1 U2 w2"
      "awaiting (rcv w2 c)" "ready (inputs w2 c)" "in_bytes (inputs w2 c) = []" "in_chunks data (username (cls w c)) bs"
      "inbox U2 w2 r = inbox U1 w1 r @ map (\<lambda>b. (b, strncpy_bytes (username (cls w c)) 32)) bs"
      "\<forall>x \<in> S. x \<noteq> r \<longrightarrow> inbox U2 w2 x = inbox U1 w1 x" "\<forall>x \<in> S. stream C1 w2 x = stream C1 w1 x"
    unfolding f(2) by blast
  define w3 where "w3 = got c (rcv w2 c) [] w2"
  have "inbound_loop c w = Some (WT_STOP_EBLK, w3)"
    using inbound_loop_border [OF s(1)] t(1) awaiting_blocks [OF t(2,3,5,6,7)] by (simp add: w3_def)
  moreover have "msgs_ok S C1 U2 w3" using got_flow(1) [OF t(4)] by (simp add: flow_def w3_def)
  moreover have "awaiting (rcv w3 c)" using t(5) by (simp add: w3_def)
  moreover have "inbox U2 w3 x = inbox U2 w2 x" "stream C1 w3 x = stream C1 w2 x" for x by (simp_all add: w3_def got_inbox)
  ultimately show ?thesis
    using s(6-11) t(8-11) assms(4)
    by (intro exI [of _ w3] exI [of _ C1] exI [of _ U2] exI [of _ b] exI [of _ bs] exI [of _ resp]) simp
qed



subsection \<open>Inputs that keep a worker busy for ever\<close>

lemma loop_never_ends:
  assumes "P w" and step: "\<And>w. P w \<Longrightarrow> \<exists>w'. wt_handle_inbound_data c w = Some (WT_STOP_BORDER, w') \<and> P w'"
  shows "inbound_loop c w = None"
proof -
  have "c' = c \<longrightarrow> \<not> P w" if "inbound_loop c' w = Some r" for c' w r
  proof (rule inbound_loop.raw_induct [OF _ that], intro impI notI)
    fix loop c' w r
    assume ih: "\<And>c' w r. loop c' w = Some r \<Longrightarrow> c' = c \<longrightarrow> \<not> P w" and c: "c' = c" and p: "P w"
      and l: "(case wt_handle_inbound_data c' w of None \<Rightarrow> None
        | Some (st, w') \<Rightarrow> if st = WT_STOP_BORDER then loop c' w' else Some (st, w')) = Some r"
    obtain w' where "wt_handle_inbound_data c w = Some (WT_STOP_BORDER, w')" "P w'" using step [OF p] by blast
    then show False using ih [of c w' r] l c by simp
  qed
  then show ?thesis using assms(1) by (cases "inbound_loop c w") auto
qed

text \<open>A header whose size wraps around when the length of the header is added.\<close>

lemma oversized_stuck:
  assumes "live w c" and "cl_state (cls w c) = AUTHENTICATED" and "rcv w c = rm" and "\<not> is_desynced rm" and "\<not> not_msg_init_pdu rm"
    and "off_of rm = 81" and "size_of rm = 4096" and "2 ^ 64 - 81 \<le> unat (expected_msg_size rm)" and "total_msg_data_recved rm = 0"
  shows "wt_handle_inbound_data c w = Some (WT_STOP_BORDER, w)"
proof -
  have same: "set_rcv c (rcv w c) (w\<lparr>inputs := (inputs w)(c := inputs w c)\<rparr>) = w" "set_rcv c (rcv w c) w = w"
    by (simp_all add: set_rcv_def upd_cl_def)
  have skip: "receive c False cnt cond len bl w = Some (None, w)" if "\<not> cond (rcv w c)" for cnt cond len bl
    unfolding receive_def recv_while_skip [of cond, OF that] using same by simp
  have e: "expected_msg_size rm \<noteq> 0" using assms(8) by auto
  have u: "unat (81 + expected_msg_size rm) = unat (expected_msg_size rm) - (2 ^ 64 - 81)"
  proof -
    have "unat (expected_msg_size rm) < 2 ^ 64" using unsigned_less [of "expected_msg_size rm", where ?'a = nat] by simp
    then have "(81 + unat (expected_msg_size rm)) mod 2 ^ 64 = unat (expected_msg_size rm) - (2 ^ 64 - 81)"
      using assms(8) by (subst mod_if) simp
    then show ?thesis by (simp add: unat_word_ariths)
  qed
  have "\<not> (81 :: u64) < min (81 + expected_msg_size rm) 4096"
  proof -
    have "unat (expected_msg_size rm) < 2 ^ 64" using unsigned_less [of "expected_msg_size rm", where ?'a = nat] by simp
    then have "unat (81 + expected_msg_size rm) < 81" using u by linarith
    then show ?thesis by (simp add: word_less_nat_alt)
  qed
  then have "inb_header c w = Some (None, w)" "inb_body c w = Some (None, w)"
    unfolding inb_header_def inb_body_def using skip assms(3,6,7) by simp_all
  moreover have "parse_header (rcv w c) = Some (rcv w c)" using e assms(3) by (simp add: parse_header_def)
  moreover have "\<not> expected_msg_size rm \<le> total_msg_data_recved rm"
    using e assms(9) by simp
  ultimately show ?thesis
    using assms same by (simp add: wt_handle_inbound_data_def inb_resync_def inb_first_pdu_def and_then_def)
qed

text \<open>C13. A client that is logged in can stop its worker thread with 81 bytes: if the total size in a header is one of
  the 81 largest values of the 64-bit field, the sum with the header size wraps around, nothing is received and
  nothing is validated, and \<open>wt_handle_inbound_data\<close> reports a message border without any progress, so that the
  loop of \<open>wt_handle_clientevent\<close> never ends.\<close>

theorem oversized_message_hangs:
  assumes "logged c w" and "cl_state (cls w c) = AUTHENTICATED" and "awaiting (rcv w c)" and "ready (inputs w c)"
    and "in_bytes (inputs w c) = hdr @ later" and "length hdr = LWMP_HDR_SIZE" and "load64 hdr off_total = Some sz"
    and "2 ^ 64 - LWMP_HDR_SIZE \<le> unat sz"
  shows "inbound_loop c w = None"
proof -
  define rm0 where "rm0 = received False hdr (rcv w c)"
  from read_header [OF assms(3,4)] assms(5,6) obtain inp0 where
    r0: "inb_header c w = Some (None, got c rm0 inp0 w)" "fits hdr (rcv w c)"
    by (auto simp: rm0_def)
  have a: "recv_ok (rcv w c)" "off_of (rcv w c) = 0" "rmsg_type (rcv w c) = 0" "expected_msg_size (rcv w c) = 0"
    "\<not> is_desynced (rcv w c)" "\<not> not_msg_init_pdu (rcv w c)" "live w c"
    using assms(1,3) by (simp_all add: awaiting_def logged_def)
  have rm0: "recv_ok rm0" "\<not> is_desynced rm0" "\<not> not_msg_init_pdu rm0" "unat (off_of rm0) = 81"
    "take 81 (rbuf (recvbuf rm0)) = hdr"
    using a buf_ok_received [OF recv_okD(1) [OF a(1)] r0(2), of False] off_of_received [OF r0(2), of False] assms(6)
    by (simp_all add: rm0_def recv_ok_def dest_ok_def) (simp add: received_rbuf off_of_def)
  obtain rm1 where rm1: "parse_header rm0 = Some rm1" "parsed_ok rm1"
    using parse_header_ok [OF rm0(1-3)] rm0(4) by auto
  have rb: "recvbuf rm1 = recvbuf rm0"
    using rm1(1) by (auto simp: parse_header_def Let_def bind_eq_Some_conv split: if_splits)
  have len: "length (rbuf (recvbuf rm0)) = 4096" using rm0(1) by (simp add: recv_ok_def buf_ok_def)
  have "load64 (rbuf (recvbuf rm0)) 69 = load64 hdr 69"
    using take_cong_slice [of 81 "rbuf (recvbuf rm0)" hdr 69 8] rm0(5) len assms(6) by (simp add: load64_def mem_read_def)
  then have f: "expected_msg_size rm1 = sz" "off_of rm1 = 81" "total_msg_data_recved rm1 = 0" "size_of rm1 = 4096"
    "\<not> is_desynced rm1" "\<not> not_msg_init_pdu rm1"
    using rm1(2) rb assms(7) rm0(4) by (auto simp: parsed_ok_def header_read_def buf_ok_def off_of_def word_unat_eq_iff)
  define w1 where "w1 = got c rm1 inp0 w"
  have w1: "live w1 c" "cl_state (cls w1 c) = AUTHENTICATED" "rcv w1 c = rm1"
    using a(7) assms(2) by (simp_all add: w1_def live_def)
  have st: "wt_handle_inbound_data c w1 = Some (WT_STOP_BORDER, w1)"
    by (rule oversized_stuck [OF w1 f(5,6,2,4)]) (use f assms(8) in simp_all)
  have "inb_first_pdu c w = inb_first_pdu c w1"
  proof -
    have "inb_header c w1 = Some (None, w1)"
      unfolding inb_header_def receive_def using f(2)
      by (subst recv_while_skip) (simp_all add: w1_def set_rcv_def upd_cl_def got_def)
    moreover have "parse_header rm1 = Some rm1" "set_rcv c rm1 w1 = w1"
      using f(1) assms(8) by (auto simp: parse_header_def w1_def set_rcv_def upd_cl_def got_def)
    ultimately show ?thesis
      unfolding inb_first_pdu_def r0(1) and_then_def using rm1(1) by (simp add: w1_def)
  qed
  then have "wt_handle_inbound_data c w = Some (WT_STOP_BORDER, w1)"
    using st a assms(2) w1 f(5,6) by (simp add: wt_handle_inbound_data_def inb_resync_def and_then_def)
  then have "inbound_loop c w = inbound_loop c w1" by (rule inbound_loop_border)
  also have "\<dots> = None" by (rule loop_never_ends [of "\<lambda>x. x = w1"]) (use st in auto)
  finally show ?thesis .
qed

theorem oversized_message_hangs_witness:
  "inbound_loop 1 (example_worker [RecvData (replicate 69 0 @ be64 (- 1) @ replicate 4 0)]) = None"
proof (rule oversized_message_hangs)
  let ?inp = "[RecvData (replicate 69 0 @ be64 (- 1) @ replicate 4 0)]"
  show "logged 1 (example_worker ?inp)" "cl_state (cls (example_worker ?inp) 1) = AUTHENTICATED"
    "awaiting (rcv (example_worker ?inp) 1)" using example_storage by (simp_all add: example_worker_ok)
  show "ready (inputs (example_worker ?inp) 1)" unfolding example_worker_ok(7) by (simp add: ready_def)
  show "in_bytes (inputs (example_worker ?inp) 1) = (replicate 69 0 @ be64 (- 1) @ replicate 4 0) @ []"
    unfolding example_worker_ok(7) by simp
  show "load64 (replicate 69 0 @ be64 (- 1) @ replicate 4 0) 69 = Some (- 1)"
    by (simp add: load64_def mem_read_def of_be64_be64)
  show "2 ^ 64 - LWMP_HDR_SIZE \<le> unat (- 1 :: u64)" by (simp add: unsigned_minus_1_eq_mask mask_eq_exp_minus_1)
qed simp

text \<open>After the resynchronisation of a stream the buffer may hold more than one message. All of it goes out as
  the first PDU, and as more has then been received than was announced, the storage waits for chunks that never
  complete the message: empty chunks go to the recipient again and again.\<close>

lemma surplus_stuck:
  assumes "logged c w" and "cl_state (cls w c) = AUTHENTICATED" and "between (rcv w c) K t dest" and "K < t" and "t < 2 ^ 64"
    and r: "connected dest w = Some r" "r \<noteq> c"
  shows "\<exists>w'. wt_handle_inbound_data c w = Some (WT_STOP_BORDER, w') \<and> logged c w' \<and> cl_state (cls w' c) = AUTHENTICATED \<and>
    between (rcv w' c) K t dest \<and> connected dest w' = Some r"
proof -
  have a: "chunk_ready (rcv w c)" "off_of (rcv w c) = 0" "expected_msg_size (rcv w c) = of_nat K"
    "total_msg_data_recved (rcv w c) = of_nat t" "dest_uname (rcv w c) = dest" "buf_ok (rcv w c)"
    using assms(3) by (auto simp: between_def chunk_ready_def recv_ok_def)
  have u: "unat (of_nat t :: u64) = t" "unat (of_nat K :: u64) = K"
    using assms(4,5) by (simp_all add: unat_of_nat take_bit_eq_mod)
  have "\<not> (of_nat t :: u64) < of_nat K" unfolding word_less_nat_alt u using assms(4) by simp
  then have skip: "inb_chunk_data c w = Some (None, w)"
    unfolding inb_chunk_data_def receive_def using a(3,4)
    by (subst recv_while_skip) (simp_all add: set_rcv_def upd_cl_def)
  have ne: "(of_nat K :: u64) \<noteq> of_nat t" using assms(4) u by (metis less_irrefl)
  have buf: "LWMP_CHUNK_BUF_SIZE \<le> length (rbuf (recvbuf (rcv w c)))" using a(6) by (simp add: buf_ok_def)
  have "unat (off_of (rcv w c)) \<le> LWMP_CHUNK_BUF_SIZE" using a(2) by simp
  from forward_chunk_ok [OF connected_ref [OF assms(1) r(1)] this buf refl] obtain b where
    b: "forward_chunk c r (w\<lparr>nds := node_get (nds w) r\<rparr>) = Some (deliver r (message_node b (username (cls w c))) w)"
    "chunk_of [] (username (cls w c)) b" using a(2) by auto
  define w1 where "w1 = deliver r (message_node b (username (cls w c))) w"
  have q: "quiet_step (next_addr w) c w w1" unfolding w1_def by (rule deliver_quiet) simp
  then have rc: "rcv w1 c = rcv w c" and fr: "inb_frame (next_addr w) c w w1" by (simp_all add: quiet_step_def)
  have so: "set_offset 0 (rcv w c) = rcv w c" using a(2) by (simp add: set_offset_def off_of_def)
  have same: "set_rcv c (rcv w c) w1 = w1" using rc by (simp add: set_rcv_def upd_cl_def flip: rc)
  have "inb_chunk c w = Some (Some WT_STOP_BORDER, w1)"
    unfolding inb_chunk_def skip and_then_def
    using get_connected_cases [OF assms(1), of dest] r(1) b(1) a(3,4,5) rc so same ne by (simp add: w1_def [symmetric])
  then have "wt_handle_inbound_data c w = Some (WT_STOP_BORDER, w1)"
    using assms(1,2) a(1) by (simp add: wt_handle_inbound_data_def inb_resync_def and_then_def chunk_ready_def logged_def)
  moreover have "cl_state (cls w1 c) = cl_state (cls w c)"
    by (simp add: w1_def deliver_def enqueue_userdata_def upd_cl_def split: prod.splits)
  ultimately show ?thesis
    using logged_quiet [OF assms(1) q] connected_frame [OF fr r] assms(2,3) rc by simp
qed

text \<open>The first call: a stream out of step, and one message followed by other bytes in the buffer.\<close>

lemma resync_in_step:
  assumes "sz \<le> length b" and "take 4 b = be32 PDU_SYNC_HDR_MARK" and "81 \<le> sz" and "hdr_crc_matches b"
  shows "\<exists>b'. lwmp_stream_resync b sz = Some (b', sz) \<and> take sz b' = take sz b \<and> length b' = length b"
proof -
  obtain b' n where r: "lwmp_stream_resync b sz = Some (b', n)" "resync_spec b sz b' n"
    using resync_meets_spec [OF assms(1)] by blast
  have "resync_point b sz 0" using assms by (simp add: resync_point_def)
  then have "List.find (resync_point b sz) [0..<sz] = Some 0" using assms(3) by (simp add: upt_conv_Cons)
  then show ?thesis using r by (auto simp: resync_spec_def)
qed

lemma receive_burst:
  assumes "buf_ok (rcv w c)" and "off_of (rcv w c) = 0" and "inputs w c = [RecvData bs]" and "bs \<noteq> []" and "length bs \<le> 4096"
  shows "\<exists>inp. receive c True False (\<lambda>rm. off_of rm \<noteq> size_of rm) (\<lambda>rm. ucast (size_of rm - off_of rm)) None w =
      Some (None, got c (received False bs (rcv w c)) inp w)"
proof -
  have b: "length (rbuf (recvbuf (rcv w c))) = 4096" "size_of (rcv w c) = 4096" using assms(1) by (simp_all add: buf_ok_def)
  have f: "fits bs (rcv w c)" using assms(2,5) b by (simp add: fits_def off_of_def)
  have rw: "recv_while True False (\<lambda>rm. off_of rm \<noteq> size_of rm) (\<lambda>rm. ucast (size_of rm - off_of rm)) (rcv w c) [RecvData bs] =
      recv_while False False (\<lambda>rm. off_of rm \<noteq> size_of rm) (\<lambda>rm. ucast (size_of rm - off_of rm)) (received False bs (rcv w c)) []"
    using b assms(2,4,5) put_data_fits [OF f, of False] by (subst recv_while.simps) simp
  have "\<exists>e. recv_while True False (\<lambda>rm. off_of rm \<noteq> size_of rm) (\<lambda>rm. ucast (size_of rm - off_of rm)) (rcv w c) [RecvData bs] =
      Some (e, received False bs (rcv w c), []) \<and> e \<noteq> Rerr"
  proof (cases "off_of (received False bs (rcv w c)) = size_of (received False bs (rcv w c))")
    case True
    then show ?thesis unfolding rw by (subst recv_while.simps) simp
  next
    case False
    have "unat (ucast (size_of (rcv w c) - off_of (received False bs (rcv w c))) :: u64) = 4096 - length bs"
      using unat_room [of "off_of (received False bs (rcv w c))" "size_of (rcv w c)"] off_of_received [OF f, of False] b assms(2,5)
      by simp
    moreover have "length bs \<noteq> 4096"
      using False off_of_received [OF f, of False] b assms(2) by (auto simp: word_unat_eq_iff)
    ultimately show ?thesis unfolding rw using False assms(5) by (subst recv_while.simps) simp
  qed
  then obtain e where "recv_while True False (\<lambda>rm. off_of rm \<noteq> size_of rm) (\<lambda>rm. ucast (size_of rm - off_of rm)) (rcv w c) [RecvData bs] =
      Some (e, received False bs (rcv w c), [])" "e \<noteq> Rerr" by blast
  then show ?thesis using assms(3) by (cases e) (auto simp: receive_def got_def)
qed

lemma intact_in_step:
  assumes "pdu_header_intact b" and "81 \<le> length b"
  shows "take 4 b = be32 PDU_SYNC_HDR_MARK" and "hdr_crc_matches b"
proof -
  have "of_be32 (take 4 b) = PDU_SYNC_HDR_MARK" "length (take 4 b) = 4"
    using assms by (simp_all add: pdu_header_intact_def load32_Some)
  then show "take 4 b = be32 PDU_SYNC_HDR_MARK" by (metis be32_of_be32)
  show "hdr_crc_matches b" using assms by (simp add: pdu_header_intact_def hdr_crc_matches_def load32_Some)
qed

text \<open>A client can also stop its worker thread while its stream is out of step (after a header with a wrong CRC, or
  when the recipient of its chunks is gone): if a valid message of \<open>K\<close> bytes arrives together with more bytes behind
  it, all the bytes count as received, more than the message has, and the loop of \<open>wt_handle_clientevent\<close> never
  ends; each round puts another empty chunk into the recipient's queue.\<close>

lemma surplus_message_hangs:
  assumes "logged c w" and "cl_state (cls w c) = AUTHENTICATED" and "msgs_ok S C U w" and "c \<in> S" and "idle C w c"
    and "ht_nodes (std_cl_table w) \<subseteq> S" and "recv_ok (rcv w c)" and "is_desynced (rcv w c)" and "off_of (rcv w c) = 0"
    and "inputs w c = [RecvData (pdu @ extra)]" and "sends_ok (outputs w c)" and "first_pdu pdu K" and "extra \<noteq> []"
    and "length (pdu @ extra) \<le> LWMP_MAX_PDU_SIZE"
    and "pdu_acceptable pdu (std_cl_table w, nds w, cls w) (recipient_of pdu) (hvfns w)"
    and "connected (recipient_of pdu) w = Some r" and "r \<noteq> c"
  shows "inbound_loop c w = None"
proof -
  define bs where "bs = pdu @ extra"
  define dest where "dest = recipient_of pdu"
  define k where "k = length bs - 81"
  have pdu: "length pdu = 81 + K" "load64 pdu 69 = Some (of_nat K)" "pdu ! 4 \<noteq> MT_REQ" "K < 2 ^ 64"
    using assms(12,13,14) by (auto simp: first_pdu_def min_def split: if_splits)
  have bs: "length bs = 81 + k" "K < k" "k \<le> 4015" "bs \<noteq> []" "length bs \<le> 4096"
    using pdu(1) assms(13,14) by (auto simp: bs_def k_def)
  have t81: "take 81 bs = take 81 pdu" using pdu(1) by (simp add: bs_def)
  have b4: "bs ! 4 = pdu ! 4" using pdu(1) by (simp add: bs_def nth_append)
  have rec: "recipient_of bs = dest" "load64 bs 69 = Some (of_nat K)"
    using take_cong_slice [OF t81, of 5 32] take_cong_slice [OF t81, of 69 8] pdu bs(1)
    by (simp_all add: dest_def recipient_of_def load64_def mem_read_def)
  have acc: "pdu_acceptable bs cont dest h = pdu_acceptable pdu cont dest h" for cont :: "htable \<times> node_store \<times> std_store" and h
    by (rule acceptable_cong [OF t81]) (use bs(1) pdu in simp_all)
  have st: "not_msg_init_pdu (rcv w c) = False" "rmsg_type (rcv w c) = 0" "expected_msg_size (rcv w c) = 0" "buf_ok (rcv w c)"
    "live w c"
    using assms(1,7,8) by (auto simp: recv_ok_def logged_def)
  obtain inp where rb: "receive c True False (\<lambda>rm. off_of rm \<noteq> size_of rm) (\<lambda>rm. ucast (size_of rm - off_of rm)) None w =
      Some (None, got c (received False bs (rcv w c)) inp w)"
    using receive_burst [OF st(4) assms(9,10) bs(4,5) [unfolded bs_def]] unfolding bs_def by blast
  define rm0 where "rm0 = received False bs (rcv w c)"
  have f: "fits bs (rcv w c)" using st(4) assms(9) bs(5) by (simp add: fits_def off_of_def buf_ok_def)
  have rm0: "unat (off_of rm0) = length bs" "take (length bs) (rbuf (recvbuf rm0)) = bs" "buf_ok rm0"
    using off_of_received [OF f, of False] assms(9) buf_ok_received [OF st(4) f, of False]
    by (simp_all add: rm0_def received_rbuf off_of_def)
  have len0: "length (rbuf (recvbuf rm0)) = 4096" using rm0(3) by (simp add: buf_ok_def)
  have t0: "take 81 (rbuf (recvbuf rm0)) = take 81 pdu"
    using arg_cong [OF rm0(2), of "take 81"] bs(1) t81 by simp
  have "pdu_acceptable (rbuf (recvbuf rm0)) (std_cl_table w, nds w, cls w) dest (hvfns w)"
    using assms(15) unfolding dest_def
    by (subst acceptable_cong [OF t0]) (use len0 pdu in simp_all)
  then have "pdu_header_intact (rbuf (recvbuf rm0))" by (simp add: pdu_acceptable_def Let_def)
  note it = intact_in_step [OF this, unfolded len0]
  obtain b' where b': "lwmp_stream_resync (rbuf (recvbuf rm0)) (length bs) = Some (b', length bs)"
    "take (length bs) b' = bs" "length b' = 4096"
    using resync_in_step [of "length bs" "rbuf (recvbuf rm0)"] it bs len0 rm0(2) by auto
  define rm1 where "rm1 = rm0\<lparr>recvbuf := (recvbuf rm0)\<lparr>rbuf := b', buf_data_offset := of_nat (length bs)\<rparr>, is_desynced := False\<rparr>"
  have rm1: "recv_ok rm1" "\<not> is_desynced rm1" "\<not> not_msg_init_pdu rm1" "unat (off_of rm1) = length bs" "rbuf (recvbuf rm1) = b'"
    "rmsg_type rm1 = 0" "expected_msg_size rm1 = 0"
    using st(1-3) rm0 b'(3) bs(5) assms(7)
    by (auto simp: rm1_def rm0_def recv_ok_def buf_ok_def dest_ok_def off_of_def size_of_def unat_of_nat take_bit_eq_mod)
  have rs: "inb_resync c w = Some (None, got c rm1 inp w)"
    unfolding inb_resync_alt rb rm0_def [symmetric] and_then_def
    using assms(8) b'(1) rm0(1) bs(1) by (simp add: resynced_def Let_def rm1_def)
  have "LWMP_HDR_SIZE \<le> unat (off_of rm1)" using rm1(4) bs(1) by simp
  from parse_header_ok [OF rm1(1-3) this] obtain rm2 where rm2: "parse_header rm1 = Some rm2" "parsed_ok rm2" by blast
  have hd: "take 81 (rbuf (recvbuf rm1)) = take 81 bs" using arg_cong [OF b'(2), of "take 81"] bs(1) rm1(5) by simp
  have "take 81 bs ! 4 \<noteq> MT_REQ" using b4 pdu(3) by simp
  from parse_header_fields [OF rm2(1) rm1(6,7) hd _ this] bs(1) rec have
    f2: "recvbuf rm2 = recvbuf rm1" "rmsg_type rm2 = ucast (bs ! 4)" "expected_msg_size rm2 = of_nat K"
      "dest_uname rm2 = dest" "off_of rm2 = off_of rm1"
    by (simp_all add: load64_def mem_read_def drop_take recipient_of_def)
  have tot: "total_msg_data_recved rm2 = of_nat k" using rm2(2) f2(5) rm1(4) bs(1) by (simp add: parsed_ok_def header_read_def)
  define w2 where "w2 = got c rm2 inp w"
  have sz2: "size_of rm2 = 4096" using rm2(2) by (simp add: parsed_ok_def buf_ok_def)
  have uo: "unat (ucast (off_of rm2) :: u64) = 81 + k" using f2(5) rm1(4) bs(1,3) by (simp add: unsigned_ucast_eq take_bit_eq_mod)
  have uK: "unat (81 + of_nat K :: u64) = 81 + K" "unat (of_nat K :: u64) = K" "unat (of_nat k :: u64) = k"
    using bs(2,3) by (simp_all add: unat_word_ariths unat_of_nat take_bit_eq_mod)
  have nb: "\<not> ucast (off_of rm2) < (81 + of_nat K :: u64)" unfolding word_less_nat_alt uo uK using bs(2) by simp
  have ge: "(of_nat K :: u64) \<le> of_nat k" unfolding word_le_nat_alt uK using bs(2) by simp
  have fp: "inb_first_pdu c (got c rm1 inp w) = inb_validate c w2"
  proof -
    have skip: "receive c False cnt cond len bl v = Some (None, v)" if "\<not> cond (rcv v c)" for cnt cond len bl v
      unfolding receive_def recv_while_skip [of cond, OF that] by (simp add: set_rcv_def upd_cl_def)
    have "\<not> off_of rm1 < of_nat LWMP_HDR_SIZE" using rm1(4) bs(1) by (simp add: word_less_nat_alt)
    then have "inb_header c (got c rm1 inp w) = Some (None, got c rm1 inp w)"
      unfolding inb_header_def by (intro skip) simp
    moreover have "inb_body c w2 = Some (None, w2)"
      unfolding inb_body_def by (rule skip) (use nb f2(3) sz2 in \<open>simp add: w2_def\<close>)
    moreover have "set_rcv c rm2 (got c rm1 inp w) = w2" by (simp add: w2_def)
    ultimately show ?thesis
      unfolding inb_first_pdu_def and_then_def using rm2(1) ge tot f2(3) by (simp add: w2_def)
  qed
  have fr: "own_step S (next_addr w) c w w2" unfolding w2_def by (rule got_step)
  have l2: "logged c w2" by (rule logged_own [OF assms(1) fr])
  have ok2: "msgs_ok S C U w2" using got_flow(1) [OF assms(3)] by (simp add: w2_def flow_def)
  have i2: "idle C w2 c" "ht_nodes (std_cl_table w2) \<subseteq> S" "rcv w2 c = rm2" using assms(5,6) by (simp_all add: w2_def idle_def)
  have pre: "take (81 + k) (rbuf (recvbuf rm2)) = bs" "unat (off_of rm2) = 81 + k"
    using b'(2) f2(1,5) rm1(4,5) bs(1) by simp_all
  have "client_table (nds w) (std_cl_table w)" using assms(1) by (simp add: logged_def)
  from validate_same_clients [OF this, of "cls w2" "cls w" dest]
  have v: "validate_recipient (std_cl_table w2, nds w2, cls w2) dest = validate_recipient (std_cl_table w, nds w, cls w) dest"
    by (simp add: w2_def)
  have acc2: "pdu_acceptable bs (std_cl_table w2, nds w2, cls w2) dest (hvfns w2)"
    unfolding acc using assms(15) v pdu(3) by (simp add: pdu_acceptable_def hvfns_def Let_def dest_def [symmetric]) (simp add: w2_def)
  have p4: "bs ! 4 \<noteq> MT_REQ" using b4 pdu(3) by simp
  have c2: "connected dest w2 = Some r" by (rule connected_frame [OF own_step_frame [OF fr]]) (use assms(16,17) in \<open>simp_all add: dest_def\<close>)
  from deliver_message [OF l2 ok2 assms(4) i2(1,2,3) rm2(2) pre f2(3) tot f2(4,2) pdu(4) bs(1) p4 acc2 c2 assms(17)]
  obtain w3 where w3: "inb_validate c w2 = Some (Some WT_STOP_BORDER, w3)" "storage_after (rcv w3 c) K k dest"
    "own_step S (next_addr w2) c w2 w3" "sends_ok (outputs w2 c) \<longrightarrow> cl_state (cls w3 c) = cl_state (cls w2 c)" by blast
  have "sends_ok (outputs w2 c)" "cl_state (cls w2 c) = AUTHENTICATED"
    using assms(2,11) by (simp_all add: w2_def got_def set_rcv_def upd_cl_def)
  then have s3: "logged c w3" "cl_state (cls w3 c) = AUTHENTICATED" "between (rcv w3 c) K k dest" "connected dest w3 = Some r"
    using w3 logged_own [OF l2 w3(3)] connected_frame [OF own_step_frame [OF w3(3)] c2 assms(17)] bs(2)
    by (simp_all add: storage_after_def)
  have k64: "k < 2 ^ 64" using bs(3) by simp
  have "wt_handle_inbound_data c w = Some (WT_STOP_BORDER, w3)"
    using rs fp w3(1) rm1(3) assms(2) st(5) by (simp add: wt_handle_inbound_data_def and_then_def)
  then have "inbound_loop c w = inbound_loop c w3" by (rule inbound_loop_border)
  also have "\<dots> = None"
  proof (rule loop_never_ends [of "\<lambda>w. logged c w \<and> cl_state (cls w c) = AUTHENTICATED \<and> between (rcv w c) K k dest \<and> connected dest w = Some r"])
    show "logged c w3 \<and> cl_state (cls w3 c) = AUTHENTICATED \<and> between (rcv w3 c) K k dest \<and> connected dest w3 = Some r"
      using s3 by blast
  qed (use surplus_stuck [OF _ _ _ bs(2) k64 _ assms(17)] in blast)
  finally show ?thesis .
qed

lemma surplus_message_hangs_witness:
  "\<exists>w. inputs w 1 = [RecvData (example_pdu @ [7])] \<and> is_desynced (rcv w 1) \<and> inbound_loop 1 w = None"
proof -
  define v where "v = example_worker [RecvData (example_pdu @ [7])]"
  define w where "w = set_rcv 1 (rcv v 1\<lparr>is_desynced := True\<rparr>) v"
  note ex = example_worker_ok [where inp = "[RecvData (example_pdu @ [7])]", folded v_def]
  note pdu = example_pdu_valid(3,4) [of "[RecvData (example_pdu @ [7])]", folded v_def]
  have len: "length example_pdu = 83" using example_pdu_valid(1) by (simp add: first_pdu_def)
  have fr: "own_step {1, 3} 10 1 v w" unfolding w_def by (rule set_rcv_own)
  have l: "logged 1 w" by (rule logged_own [OF _ fr]) (simp add: ex)
  have m: "msgs_ok {1, 3} no_msgs no_msgs w" using got_flow(2) [OF ex(2)] by (simp add: w_def flow_def)
  have same: "inputs w = inputs v" "outputs w = outputs v" "std_cl_table w = std_cl_table v" "nds w = nds v"
    "cfg w = cfg v" "cl_state (cls w 1) = cl_state (cls v 1)" "rcv w 1 = rcv v 1\<lparr>is_desynced := True\<rparr>"
    by (simp_all add: w_def set_rcv_def upd_cl_def)
  have st: "awaiting (rcv v 1)" "cl_state (cls v 1) = AUTHENTICATED" using example_storage by (simp_all add: ex)
  have "recv_ok (rcv w 1)" "off_of (rcv w 1) = 0"
    using st(1) unfolding same(7) by (simp_all add: awaiting_def recv_ok_def buf_ok_def dest_ok_def off_of_def)
  moreover have i: "inputs w 1 = [RecvData (example_pdu @ [7])]" unfolding same(1) ex(7) ..
  moreover have "client_table (nds v) (std_cl_table v)" using ex(1) [of 1] by (simp add: logged_def)
  have "cl_state (cls w x) = cl_state (cls v x)" for x by (simp add: w_def set_rcv_def upd_cl_def)
  note va = validate_same_clients [OF \<open>client_table (nds v) (std_cl_table v)\<close> this]
  have hv: "hvfns w = hvfns v" using same(5) by (simp add: hvfns_def)
  have "pdu_acceptable example_pdu (std_cl_table w, nds w, cls w) (recipient_of example_pdu) (hvfns w)"
    using pdu(1) unfolding hv same(3,4) by (simp add: pdu_acceptable_def hvfns_def Let_def va split: if_splits)
  moreover have "connected (recipient_of example_pdu) w = Some 3" by (rule connected_frame [OF own_step_frame [OF fr] pdu(2)]) simp
  moreover have "cl_state (cls w 1) = AUTHENTICATED" "idle no_msgs w 1" "ht_nodes (std_cl_table w) \<subseteq> {1, 3}" "is_desynced (rcv w 1)"
    using st(2) unfolding same by (simp_all add: idle_def v_def) (simp add: example_worker_def example_nodes_in_table)
  moreover have "sends_ok (outputs w 1)" unfolding same by (simp add: sends_ok_def v_def example_worker_def)
  ultimately have "inbound_loop 1 w = None"
    using surplus_message_hangs [OF l _ m, where pdu = example_pdu and extra = "[7]" and K = 2 and r = 3] example_pdu_valid(1) len by simp
  then show ?thesis using i same(7) by (intro exI [of _ w]) simp
qed

end
