(* ===== verification/Outbound.thy ===== *)
theory Outbound
  imports Longmsg
begin

text \<open>
  The outbound path of \<open>server/worker.c\<close>: \<open>send_one_msg\<close>, \<open>notify_about_disconnect\<close>,
  \<open>wt_handle_outbound_data\<close> (the socket of a client can be written again) and \<open>wt_handle_queued_messages\<close>
  (the queue of a client's user data has something in it). The lemmas follow the bytes: a handler moves them
  from the queues to the socket and loses, repeats and reorders none.
\<close>

definition send_one_msg :: "addr \<Rightarrow> worker \<Rightarrow> (int \<times> worker) option" where
  "send_one_msg c w =
     (case send_storage False c w of
        None \<Rightarrow> None
      | Some (Serr, w) \<Rightarrow> map_option (Pair ERROR) (cleanup_std_client c w)
      | Some (Sblock, w) \<Rightarrow> Some (EBLOCK, w)
      | Some (Sdone, w) \<Rightarrow> Some (int (buf_offset (msgs w (temp_send_storage (cls w c)))), drop_storage c w))"

definition disconnect_text :: "byte list \<Rightarrow> byte list" where
  "disconnect_text nm = take 127 (lit ''Sender '' @ cstr nm @
     lit '' has disconnected, the latest message may have been partially delivered.'')"

definition notify_about_disconnect :: "addr \<Rightarrow> byte list \<Rightarrow> worker \<Rightarrow> worker option" where
  "notify_about_disconnect c nm w =
     (let t = disconnect_text nm in
      case new_response (LWMP_HDR_SIZE + length t + 1) MT_INFO RESP_DCONN_SUBJ (Some t) w of
        None \<Rightarrow> None
      | Some (m, w) \<Rightarrow> Some (enqueue_ctrl c m w))"

text \<open>The first part of both handlers: the sender of the message in progress may be gone; then the rest of it.\<close>

definition check_sender :: "addr \<Rightarrow> worker \<Rightarrow> worker option" where
  "check_sender c w =
     (let nm = subject_name (msgs w (temp_send_storage (cls w c))) in
      if nm ! 0 = 0 then Some w
      else case get_connected nm w of
        None \<Rightarrow> None
      | Some (None, w) \<Rightarrow> notify_about_disconnect c nm w
      | Some (Some n, w) \<Rightarrow> put_client n w)"

definition send_pending :: "addr \<Rightarrow> worker \<Rightarrow> (int \<times> worker) option" where
  "send_pending c w =
     (if temp_send_storage (cls w c) = 0 then Some (0, w)
      else case check_sender c w of None \<Rightarrow> None | Some w \<Rightarrow> send_one_msg c w)"

text \<open>The loop over the control queue; 0 if it has sent everything.\<close>

partial_function (option) send_ctrl :: "addr \<Rightarrow> worker \<Rightarrow> (int \<times> worker) option" where
  "send_ctrl c w =
     (case dequeue_ctrl c w of
        (None, w) \<Rightarrow> Some (0, w)
      | (Some m, w) \<Rightarrow>
          (case send_one_msg c (upd_cl c (\<lambda>s. s\<lparr>temp_send_storage := m\<rparr>) w) of
             None \<Rightarrow> None
           | Some (res, w) \<Rightarrow> if res < 0 then Some (res, w) else send_ctrl c w))"

definition wt_handle_outbound_data :: "addr \<Rightarrow> worker \<Rightarrow> worker option" where
  "wt_handle_outbound_data c w =
     (if \<not> live w c then None
      else if cl_state (cls w c) = DISCONNECTED then Some w
      else case send_pending c w of
        None \<Rightarrow> None
      | Some (res, w) \<Rightarrow>
          if res < 0 then Some w
          else (case send_ctrl c w of
              None \<Rightarrow> None
            | Some (res, w) \<Rightarrow>
                if res < 0 then Some w
                else Some (w\<lparr>sock_events := epoll_mod c (True, False) (sock_events w),
                             queue_events := epoll_mod c True (queue_events w)\<rparr>)))"

text \<open>When a send blocks, the events are switched from the queue to the socket.\<close>

definition wait_writable :: "addr \<Rightarrow> int \<Rightarrow> worker \<Rightarrow> worker" where
  "wait_writable c res w =
     (if res = EBLOCK
      then w\<lparr>sock_events := epoll_mod c (True, True) (sock_events w), queue_events := epoll_mod c False (queue_events w)\<rparr>
      else w)"

definition flush_userdata :: "addr \<Rightarrow> byte list \<Rightarrow> worker \<Rightarrow> worker option" where
  "flush_userdata c subject w =
     (case mpscq_flush_msgs_with_subject (pending_userdata_queue (cls w c)) (msgs w) subject of
        None \<Rightarrow> None
      | Some (q, s) \<Rightarrow> Some (upd_cl c (\<lambda>s. s\<lparr>pending_userdata_queue := q\<rparr>) (w\<lparr>msgs := s\<rparr>)))"

text \<open>The message of a user is sent only if the user is still connected; otherwise a notice goes out in place
  of all the messages of that user. \<open>temp_send_storage\<close> 0 in \<open>send_one_msg\<close> is a null pointer.\<close>

definition send_userdata :: "addr \<Rightarrow> addr \<Rightarrow> worker \<Rightarrow> worker option" where
  "send_userdata c m w =
     (let nm = subject_name (msgs w m) in
      case (case get_connected nm w of
              None \<Rightarrow> None
            | Some (Some n, w) \<Rightarrow> map_option (Pair (Some m)) (put_client n w)
            | Some (None, w) \<Rightarrow> do {
                w \<leftarrow> notify_about_disconnect c nm w;
                w \<leftarrow> flush_userdata c nm w;
                Some (dequeue_ctrl c (free_msg m w)) }) of
        None \<Rightarrow> None
      | Some (msg, w) \<Rightarrow>
          (case send_one_msg c (upd_cl c (\<lambda>s. s\<lparr>temp_send_storage := (case msg of None \<Rightarrow> 0 | Some m \<Rightarrow> m)\<rparr>) w) of
             None \<Rightarrow> None
           | Some (res, w) \<Rightarrow> Some (wait_writable c res w)))"

definition wt_handle_queued_messages :: "addr \<Rightarrow> worker \<Rightarrow> worker option" where
  "wt_handle_queued_messages c w =
     (if \<not> live w c then None
      else if cl_state (cls w c) = DISCONNECTED then Some w
      else case send_pending c w of
        None \<Rightarrow> None
      | Some (res, w) \<Rightarrow>
          if res < 0 then Some (wait_writable c res w)
          else (case send_ctrl c w of
              None \<Rightarrow> None
            | Some (res, w) \<Rightarrow>
                if res < 0 then Some (wait_writable c res w)
                else (case dequeue_userdata c w of
                    (None, w) \<Rightarrow> Some w
                  | (Some m, w) \<Rightarrow> send_userdata c m w)))"

subsection \<open>Steps that may also change the inbox\<close>

definition moved :: "addr set \<Rightarrow> (addr \<Rightarrow> addr list) \<Rightarrow> (addr \<Rightarrow> addr list) \<Rightarrow> addr \<Rightarrow> worker \<Rightarrow>
    (addr \<Rightarrow> addr list) \<Rightarrow> (addr \<Rightarrow> addr list) \<Rightarrow> worker \<Rightarrow> bool" where
  "moved S C U c w C' U' w' \<longleftrightarrow> msgs_ok S C' U' w' \<and> others_kept S C U c w w' \<and> (\<forall>x. x \<noteq> c \<longrightarrow> C' x = C x \<and> U' x = U x)"

lemma flow_moved: "flow S C U c w C' w' b \<Longrightarrow> moved S C U c w C' U w'"
  by (simp add: flow_def moved_def)

lemma moved_trans: "moved S C U c w C1 U1 w1 \<Longrightarrow> moved S C1 U1 c w1 C2 U2 w2 \<Longrightarrow> moved S C U c w C2 U2 w2"
  unfolding moved_def using others_kept_trans [of S C U c w w1 C1 U1 w2] by simp

lemma moved_others:
  assumes "moved S C U c w C' U' w'" and "x \<in> S" and "x \<noteq> c"
  shows "stream C' w' x = stream C w x" and "inbox U' w' x = inbox U w x" and "idle C' w' x = idle C w x"
  using others_streams [of S C U c w w' x C' U'] assms by (simp_all add: moved_def)

lemma moved_owns:
  assumes "moved S C U c w C' U' w'" and "\<forall>x \<in> S. idle C w x" and "idle C' w' c"
    and "ht_nodes (std_cl_table w') \<subseteq> S"
  shows "owns S w'"
proof -
  have "idle C' w' x" if "x \<in> S" for x
    using moved_others(3) [OF assms(1) that] assms(2,3) that by (cases "x = c") auto
  then show ?thesis using assms(1,4) by (auto simp: owns_def moved_def)
qed

subsection \<open>One message\<close>

text \<open>The result of sending: all has gone out and nothing is in progress, or the connection failed, or it blocks.\<close>

definition after_send :: "addr \<Rightarrow> worker \<Rightarrow> int \<Rightarrow> worker \<Rightarrow> bool" where
  "after_send c w res w' \<longleftrightarrow>
     (if 0 \<le> res then temp_send_storage (cls w' c) = 0 \<and> cl_state (cls w' c) = cl_state (cls w c)
      else temp_send_storage (cls w' c) \<noteq> 0 \<and>
        (res = ERROR \<and> cl_state (cls w' c) = DISCONNECTED \<or> res = EBLOCK \<and> cl_state (cls w' c) = cl_state (cls w c)))"

lemma after_send_from: "after_send c w1 res w' \<Longrightarrow> cl_state (cls w1 c) = cl_state (cls w c) \<Longrightarrow> after_send c w res w'"
  by (simp add: after_send_def split: if_splits)

lemma send_one_msg_flow:
  assumes "logged c w" and "msgs_ok S C U w" and "c \<in> S" and "temp_send_storage (cls w c) \<noteq> 0"
  shows "\<exists>res w'. send_one_msg c w = Some (res, w') \<and> flow S C U c w C w' [] \<and> quiet_step 0 c w w' \<and>
    after_send c w res w'"
proof -
  define m where "m = temp_send_storage (cls w c)"
  obtain e w1 where w1: "send_storage False c w = Some (e, w1)" "flow S C U c w C w1 []" "cls w1 = cls w" "nds w1 = nds w"
    "e = Sdone \<Longrightarrow> unsent (msgs w1 m) = []"
    using send_storage_flow [OF assms(2-4), of False] by (auto simp: m_def)
  have q1: "quiet_step 0 c w w1"
  proof -
    have "m \<in> set (owned C U w c)" using assms(4) by (simp add: owned_def temps_def m_def)
    then have "msg_ok w m" by (rule owned_bound [OF assms(2,3)])
    then show ?thesis
      using send_storage_quiet [of 0 w c False] w1(1) by (auto simp: msg_ok_def m_def)
  qed
  have ok1: "msgs_ok S C U w1" using w1(2) by (simp add: flow_def)
  have l1: "logged c w1" by (rule logged_quiet [OF assms(1) q1])
  have t1: "temp_send_storage (cls w1 c) \<noteq> 0" using assms(4) w1(3) by simp
  show ?thesis
  proof (cases e)
    case Serr
    from l1 have l: "live w1 c" "cl_state (cls w1 c) \<in> {AUTHENTICATED, DISCONNECTED}" by (simp_all add: logged_def)
    obtain w2 where w2: "cleanup_std_client c w1 = Some w2" "flow S C U c w1 C w2 []"
      using cleanup_flow [OF l ok1] by blast
    moreover obtain "quiet_step 0 c w1 w2" "cl_state (cls w2 c) = DISCONNECTED"
      using cleanup_logged [OF l1, of 0] w2(1) by auto
    moreover have "temp_send_storage (cls w2 c) = temp_send_storage (cls w1 c)"
      using w2(1) l by (auto simp: cleanup_std_client_def Let_def upd_cl_def forget_socket_def forget_queue_def)
    ultimately show ?thesis
      using w1(1) Serr flow_trans [OF w1(2) w2(2)] quiet_trans [OF q1] t1
      by (intro exI [of _ ERROR] exI [of _ w2]) (simp add: send_one_msg_def after_send_def)
  next
    case Sblock
    then show ?thesis using w1 q1 t1 by (intro exI [of _ EBLOCK] exI [of _ w1]) (simp add: send_one_msg_def after_send_def)
  next
    case Sdone
    have "flow S C U c w1 C (drop_storage c w1) []"
      by (rule drop_storage_flow [OF ok1 assms(3) t1]) (use w1(3,5) Sdone in \<open>simp add: m_def\<close>)
    moreover have "quiet_step 0 c w1 (drop_storage c w1)" by (rule drop_storage_quiet) simp
    moreover have "temp_send_storage (cls (drop_storage c w1) c) = 0" "cl_state (cls (drop_storage c w1) c) = cl_state (cls w c)"
      using w1(3) by (simp_all add: drop_storage_def free_msg_def upd_cl_def)
    moreover have "send_one_msg c w = Some (int (buf_offset (msgs w1 (temp_send_storage (cls w1 c)))), drop_storage c w1)"
      using w1(1) Sdone by (simp add: send_one_msg_def)
    ultimately show ?thesis using flow_trans [OF w1(2)] quiet_trans [OF q1] by (fastforce simp: after_send_def)
  qed
qed

subsection \<open>Notices about senders that are gone\<close>

definition notice :: "byte list \<Rightarrow> byte list \<Rightarrow> bool" where
  "notice nm b \<longleftrightarrow> is_response b MT_INFO (padded_optional (Some (be32 RESP_DCONN_SUBJ)) 4) (Some (disconnect_text nm))"

lemma notify_flow:
  assumes "msgs_ok S C U w" and "c \<in> S"
  shows "\<exists>b w' q. notify_about_disconnect c nm w = Some w' \<and> flow S C U c w (C(c := C c @ [next_addr w])) w' b \<and> notice nm b \<and>
    quiet_step 0 c w w' \<and> cls w' = (cls w)(c := (cls w c)\<lparr>pending_ctrl_queue := q\<rparr>)"
proof -
  define t where "t = disconnect_text nm"
  have "length t \<le> 127" by (simp add: t_def disconnect_text_def)
  then have sz: "response_size (Some t) \<le> LWMP_HDR_SIZE + length t + 1" "LWMP_HDR_SIZE + length t + 1 < 2 ^ 32"
    by (simp_all add: response_size_def response_textlen_def)
  obtain b where b: "new_response (LWMP_HDR_SIZE + length t + 1) MT_INFO RESP_DCONN_SUBJ (Some t) w =
      Some (next_addr w, fresh (plain_node b) w)" "length b = LWMP_HDR_SIZE + length t + 1"
    "is_response b MT_INFO (padded_optional (Some (be32 RESP_DCONN_SUBJ)) 4) (Some t)"
    using new_response_fresh [OF sz] by blast
  define w1 where "w1 = fresh (plain_node b) w"
  have "node_ok (plain_node b)" using b(2) sz(2) by simp
  note f = fresh_ok [OF assms(1) this plain_node_simps(2) assms(2), folded w1_def]
  have "msgs_ok S C U w1" using f(1) by (simp add: flow_def)
  note g = enqueue_ctrl_flow [OF this assms(2) f(2,3)]
  have "unsent (msgs w1 (next_addr w)) = b" by (simp add: w1_def)
  then have "flow S C U c w (C(c := C c @ [next_addr w])) (enqueue_ctrl c (next_addr w) w1) b"
    using flow_trans [OF f(1) g] by simp
  moreover have "quiet_step 0 c w w1" by (simp add: w1_def fresh_def frame_defs)
  then have "quiet_step 0 c w (enqueue_ctrl c (next_addr w) w1)" using enqueue_ctrl_quiet quiet_trans by blast
  moreover have "\<exists>q. cls (enqueue_ctrl c (next_addr w) w1) = (cls w)(c := (cls w c)\<lparr>pending_ctrl_queue := q\<rparr>)"
    by (auto simp: enqueue_ctrl_def upd_cl_def w1_def split: prod.splits)
  moreover have "notify_about_disconnect c nm w = Some (enqueue_ctrl c (next_addr w) w1)"
    using b(1) by (simp add: notify_about_disconnect_def t_def [symmetric] w1_def Let_def)
  ultimately show ?thesis using b(3) by (auto simp: notice_def t_def)
qed

text \<open>The notices that the first part of a handler adds: one if the sender of the message in progress is gone.\<close>

definition sender_gone :: "worker \<Rightarrow> addr \<Rightarrow> bool" where
  "sender_gone w c \<longleftrightarrow> temp_send_storage (cls w c) \<noteq> 0 \<and>
     subject_name (msgs w (temp_send_storage (cls w c))) ! 0 \<noteq> 0 \<and>
     connected (subject_name (msgs w (temp_send_storage (cls w c)))) w = None"

definition notices :: "worker \<Rightarrow> addr \<Rightarrow> byte list \<Rightarrow> bool" where
  "notices w c b \<longleftrightarrow>
     (if sender_gone w c then notice (subject_name (msgs w (temp_send_storage (cls w c)))) b else b = [])"

lemma get_put_connected:
  assumes "logged c w" and "connected nm w = Some n"
  shows "get_connected nm w = Some (Some n, w\<lparr>nds := node_get (nds w) n\<rparr>)"
    and "put_client n (w\<lparr>nds := node_get (nds w) n\<rparr>) = Some w"
proof -
  show "put_client n (w\<lparr>nds := node_get (nds w) n\<rparr>) = Some w"
    by (rule put_client_get) (simp_all add: connected_ref [OF assms])
qed (simp add: get_connected_cases [OF assms(1)] assms(2))

lemma check_sender_flow:
  assumes "logged c w" and "msgs_ok S C U w" and "c \<in> S" and "temp_send_storage (cls w c) \<noteq> 0"
  shows "\<exists>w' C' b. check_sender c w = Some w' \<and> flow S C U c w C' w' b \<and> notices w c b \<and> quiet_step 0 c w w' \<and>
    temp_send_storage (cls w' c) = temp_send_storage (cls w c) \<and> cl_state (cls w' c) = cl_state (cls w c)"
proof (cases "sender_gone w c")
  case True
  define nm where "nm = subject_name (msgs w (temp_send_storage (cls w c)))"
  obtain b w' q where n: "notify_about_disconnect c nm w = Some w'" "flow S C U c w (C(c := C c @ [next_addr w])) w' b" "notice nm b"
    "quiet_step 0 c w w'" "cls w' = (cls w)(c := (cls w c)\<lparr>pending_ctrl_queue := q\<rparr>)"
    using notify_flow [OF assms(2,3)] by blast
  have "check_sender c w = Some w'"
    using True n(1) get_connected_cases [OF assms(1), of nm]
    by (simp add: check_sender_def sender_gone_def nm_def [symmetric] Let_def)
  then show ?thesis using True n by (auto simp: notices_def nm_def)
next
  case False
  have "check_sender c w = Some w"
    using False assms(4) get_put_connected [OF assms(1)]
    by (auto simp: check_sender_def sender_gone_def Let_def)
  then show ?thesis using False flow_refl [OF assms(2), of c] quiet_refl [of 0 c w]
    by (intro exI [of _ w] exI [of _ C] exI [of _ "[]"]) (simp add: notices_def)
qed

lemma send_pending_flow:
  assumes "logged c w" and "msgs_ok S C U w" and "c \<in> S"
  shows "\<exists>res w' C' b. send_pending c w = Some (res, w') \<and> flow S C U c w C' w' b \<and> notices w c b \<and> quiet_step 0 c w w' \<and>
    after_send c w res w'"
proof (cases "temp_send_storage (cls w c) = 0")
  case True
  then show ?thesis using flow_refl [OF assms(2)] quiet_refl
    by (intro exI [of _ 0] exI [of _ w] exI [of _ C] exI [of _ "[]"])
      (simp add: send_pending_def notices_def sender_gone_def after_send_def)
next
  case False
  obtain w1 C1 b where w1: "check_sender c w = Some w1" "flow S C U c w C1 w1 b" "notices w c b" "quiet_step 0 c w w1"
    "temp_send_storage (cls w1 c) = temp_send_storage (cls w c)" "cl_state (cls w1 c) = cl_state (cls w c)"
    using check_sender_flow [OF assms False] by blast
  have t1: "temp_send_storage (cls w1 c) \<noteq> 0" using w1(5) False by (rule ssubst)
  have "logged c w1" by (rule logged_quiet [OF assms(1) w1(4)])
  moreover have "msgs_ok S C1 U w1" using w1(2) by (simp add: flow_def)
  ultimately obtain res w2 where w2: "send_one_msg c w1 = Some (res, w2)" "flow S C1 U c w1 C1 w2 []" "quiet_step 0 c w1 w2"
    "after_send c w1 res w2"
    using send_one_msg_flow [OF _ _ assms(3) t1] by blast
  have "send_pending c w = Some (res, w2)" using False w1(1) w2(1) by (simp add: send_pending_def)
  moreover have "flow S C U c w C1 w2 b" using flow_trans [OF w1(2) w2(2)] by simp
  moreover have "after_send c w res w2" by (rule after_send_from [OF w2(4) w1(6)])
  ultimately show ?thesis using w1(3) quiet_trans [OF w1(4) w2(3)] by blast
qed

lemma send_ctrl_flow:
  assumes "logged c w" and "msgs_ok S C U w" and "c \<in> S" and "temp_send_storage (cls w c) = 0"
  shows "\<exists>res w' C'. send_ctrl c w = Some (res, w') \<and> flow S C U c w C' w' [] \<and> quiet_step 0 c w w' \<and>
    after_send c w res w' \<and> (0 \<le> res \<longrightarrow> C' c = [])"
  using assms
proof (induction "C c" arbitrary: C w)
  case Nil
  obtain w1 where w1: "dequeue_ctrl c w = (None, w1)" "flow S C U c w C w1 []" "cl_msgs (cls w1 c) = cl_msgs (cls w c)"
    using dequeue_ctrl_empty [OF Nil.prems(2,3) Nil.hyps [symmetric]] by blast
  have "quiet_step 0 c w w1" "cl_state (cls w1 c) = cl_state (cls w c)"
    using w1(1) by (auto simp: dequeue_ctrl_def upd_cl_def frame_defs split: prod.splits)
  moreover have "send_ctrl c w = Some (0, w1)" by (subst send_ctrl.simps) (simp add: w1(1))
  ultimately show ?case using w1(2,3) Nil.hyps Nil.prems(4)
    by (intro exI [of _ 0] exI [of _ w1] exI [of _ C]) (simp add: cl_msgs_def after_send_def)
next
  case (Cons m ms)
  obtain w1 where w1: "dequeue_ctrl c w = (Some m, w1)"
    "flow S C U c w (C(c := ms)) (upd_cl c (\<lambda>s. s\<lparr>temp_send_storage := m\<rparr>) w1) []"
    using take_ctrl_flow [OF Cons.prems(2,3) Cons.hyps(2) [symmetric] Cons.prems(4)] by blast
  define w2 where "w2 = upd_cl c (\<lambda>s. s\<lparr>temp_send_storage := m\<rparr>) w1"
  have q2: "quiet_step 0 c w w2" "cl_state (cls w2 c) = cl_state (cls w c)" "temp_send_storage (cls w2 c) = m"
    using w1(1) by (auto simp: w2_def dequeue_ctrl_def upd_cl_def frame_defs split: prod.splits)
  have "m \<in> set (owned C U w c)" unfolding owned_def Cons.hyps(2) [symmetric] by simp
  then have m: "m \<noteq> 0" using owned_bound [OF Cons.prems(2,3)] by (simp add: msg_ok_def)
  have t2: "temp_send_storage (cls w2 c) \<noteq> 0" using q2(3) m by simp
  have l2: "logged c w2" by (rule logged_quiet [OF Cons.prems(1) q2(1)])
  have ok2: "msgs_ok S (C(c := ms)) U w2" using w1(2) by (simp add: flow_def w2_def)
  obtain res w3 where w3: "send_one_msg c w2 = Some (res, w3)" "flow S (C(c := ms)) U c w2 (C(c := ms)) w3 []" "quiet_step 0 c w2 w3"
    "after_send c w2 res w3"
    using send_one_msg_flow [OF l2 ok2 Cons.prems(3) t2] by blast
  have eq: "send_ctrl c w = (if res < 0 then Some (res, w3) else send_ctrl c w3)"
    using w1(1) w3(1) by (subst send_ctrl.simps) (simp add: w2_def)
  have f3: "flow S C U c w (C(c := ms)) w3 []" using flow_trans [OF w1(2) [folded w2_def] w3(2)] by simp
  have q3: "quiet_step 0 c w w3" by (rule quiet_trans [OF q2(1) w3(3)])
  have a3: "after_send c w res w3" by (rule after_send_from [OF w3(4) q2(2)])
  show ?case
  proof (cases "res < 0")
    case True
    then show ?thesis using eq f3 q3 a3 by (intro exI [of _ res] exI [of _ w3] exI [of _ "C(c := ms)"]) simp
  next
    case False
    then have t: "temp_send_storage (cls w3 c) = 0" "cl_state (cls w3 c) = cl_state (cls w c)" using a3 by (auto simp: after_send_def)
    have "ms = (C(c := ms)) c" "msgs_ok S (C(c := ms)) U w3" using f3 by (simp_all add: flow_def)
    from Cons.hyps(1) [of "C(c := ms)" w3, OF this(1) logged_quiet [OF Cons.prems(1) q3] this(2) Cons.prems(3) t(1)]
    obtain res' w' C' where
      i: "send_ctrl c w3 = Some (res', w')" "flow S (C(c := ms)) U c w3 C' w' []" "quiet_step 0 c w3 w'"
      "after_send c w3 res' w'" "0 \<le> res' \<longrightarrow> C' c = []" by blast
    have "send_ctrl c w = Some (res', w')" using eq False i(1) by simp
    moreover have "after_send c w res' w'" by (rule after_send_from [OF i(4) t(2)])
    moreover have "flow S C U c w C' w' []" using flow_trans [OF f3 i(2)] by simp
    ultimately show ?thesis using i(5) quiet_trans [OF q3 i(3)] by blast
  qed
qed

subsection \<open>Flushing the messages of a user\<close>

lemma flush_userdata_outflow:
  fixes nm :: "byte list"
  assumes "msgs_ok S C U w" and "c \<in> S"
  defines "U' \<equiv> U(c := filter (\<lambda>m. strncmp (subject_name (msgs w m)) nm 32 \<noteq> 0) (U c))"
  shows "\<exists>w' q. flush_userdata c nm w = Some w' \<and> moved S C U c w C U' w' \<and> stream C w' c = stream C w c \<and>
    inbox U' w' c = filter (\<lambda>(b, s). strncmp s nm 32 \<noteq> 0) (inbox U w c) \<and> quiet_step 0 c w w' \<and>
    cls w' = (cls w)(c := (cls w c)\<lparr>pending_userdata_queue := q\<rparr>) \<and>
    (\<forall>m. unowned S C U w m \<longrightarrow> unowned S C U' w' m)"
proof -
  note l = msgs_okD [OF assms(1,2), unfolded local_ok_def]
  obtain q' s' where f: "mpscq_flush_msgs_with_subject (pending_userdata_queue (cls w c)) (msgs w) nm = Some (q', s')"
    "qmode q' = MODE_MPSC" "queue_is q' s' (U' c)"
    "\<And>x. same_payload (msgs w x) (s' x)"
    "\<And>x. msg_freed (s' x) = (msg_freed (msgs w x) \<or> x \<in> set (U c) \<and> strncmp (subject_name (msgs w x)) nm 32 = 0)"
    using flush_lemma [of "pending_userdata_queue (cls w c)" "msgs w" "U c" nm] l by (auto simp: U'_def)
  define w' where "w' = upd_cl c (\<lambda>s. s\<lparr>pending_userdata_queue := q'\<rparr>) (w\<lparr>msgs := s'\<rparr>)"
  have w': "msgs w' = s'" "next_addr w' = next_addr w" "sent w' = sent w" "nds w' = nds w"
    "cls w' = (cls w)(c := (cls w c)\<lparr>pending_userdata_queue := q'\<rparr>)"
    by (simp_all add: w'_def upd_cl_def)
  have fr: "msgs w' x = msgs w x" if "x \<notin> set (U c)" for x
    unfolding w' by (rule flush_frame [where ms = "U c", OF _ f(1)]) (use l that in simp_all)
  have k: "others_kept S C U c w w'"
    by (rule own_nodes [where N = "set (U c)", OF assms(1,2) w'(2) _ fr]) (use w' in \<open>auto simp: owned_def\<close>)
  have t: "temps w' c = temps w c" by (simp add: temps_def w')
  have o: "owned C U' w' c = temps w c @ C c @ U' c" "set (U' c) \<subseteq> set (U c)"
    by (simp_all add: owned_def t U'_def)
  have dis: "set (U c) \<inter> set (temps w c @ C c) = {}" "distinct (temps w c @ C c)" "distinct (U c)"
    using l by (auto simp: owned_def)
  have mo: "msg_ok w' x" if "x \<in> set (owned C U' w' c)" for x
  proof -
    have x: "x \<in> set (temps w c @ C c) \<or> x \<in> set (U c) \<and> strncmp (subject_name (msgs w x)) nm 32 \<noteq> 0"
      using that unfolding o(1) by (auto simp: U'_def)
    then have "msg_ok w x" using owned_bound [OF assms(1,2)] by (auto simp: owned_def)
    moreover have "msg_freed (s' x) = msg_freed (msgs w x)" using x dis(1) f(5) by auto
    ultimately show ?thesis using same_payload_unsent [OF f(4)] by (simp add: msg_ok_def w')
  qed
  have q: "queue_is (pending_ctrl_queue (cls w c)) (msgs w') (C c)"
    by (rule queue_rest [where N = "set (U c)" and w = w, OF _ fr]) (use l dis in auto)
  have "distinct (owned C U' w' c)" using dis o(2) unfolding o(1) by (auto simp: U'_def)
  then have "local_ok C U' w' c"
    using q f(2,3) mo unfolding local_ok_def by (simp add: w'(5) w'(1))
  then have "msgs_ok S C U' w'"
    by (intro msgs_ok_step [OF assms(1) k _ _ _ assms(2)]) (use o in \<open>auto simp: U'_def owned_def\<close>)
  moreover have "stream C w' c = stream C w c"
    by (simp add: stream_def t w' same_payload_unsent [OF f(4)])
  moreover have "inbox U' w' c = filter (\<lambda>(b, s). strncmp s nm 32 \<noteq> 0) (inbox U w c)"
    by (simp add: inbox_def w' same_payload_unsent [OF f(4)] U'_def filter_map o_def)
  moreover have "quiet_step 0 c w w'" by (auto simp: w'_def upd_cl_def frame_defs)
  moreover have "unowned S C U' w' m" if "unowned S C U w m" for m
    unfolding unowned_def
  proof
    fix x assume x: "x \<in> S"
    show "m \<notin> set (owned C U' w' x)"
    proof (cases "x = c")
      case True
      then show ?thesis using that x o by (auto simp: unowned_def owned_def)
    next
      case False
      have "owned C U' w' x = owned C U w x" by (rule owned_other) (use False in \<open>simp_all add: w' U'_def\<close>)
      then show ?thesis using that x by (auto simp: unowned_def)
    qed
  qed
  moreover have "flush_userdata c nm w = Some w'" by (simp add: flush_userdata_def f(1) w'_def)
  ultimately show ?thesis using k w'(5) by (auto simp: moved_def U'_def)
qed

text \<open>Only the events change.\<close>

lemma events_flow:
  assumes "msgs_ok S C U w"
  shows "flow S C U c w C (w\<lparr>sock_events := epoll_mod c se (sock_events w), queue_events := epoll_mod c qe (queue_events w)\<rparr>) []"
    and "quiet_step 0 c w (w\<lparr>sock_events := epoll_mod c se (sock_events w), queue_events := epoll_mod c qe (queue_events w)\<rparr>)"
  by (rule flow_same [OF assms]; simp) (simp add: frame_defs)

lemma wait_writable_flow:
  assumes "msgs_ok S C U w"
  shows "flow S C U c w C (wait_writable c res w) []" and "quiet_step 0 c w (wait_writable c res w)"
    and "cls (wait_writable c res w) = cls w"
  using events_flow [OF assms, of c] flow_refl [OF assms] quiet_refl by (simp_all add: wait_writable_def)

lemma connected_same:
  assumes "quiet_step n c w w'" and "cl_state (cls w' c) = cl_state (cls w c)"
  shows "connected nm w' = connected nm w"
proof -
  have "nds w' = nds w" "std_cl_table w' = std_cl_table w" using assms(1) by (simp_all add: frame_defs)
  moreover have "cl_state (cls w' x) = cl_state (cls w x)" for x
    using assms by (cases "x = c") (auto simp: frame_defs)
  then have "is_not_disconnected (cls w') = is_not_disconnected (cls w)" by (simp add: fun_eq_iff is_not_disconnected_def)
  ultimately show ?thesis by (simp add: connected_def split: option.split)
qed

text \<open>The message that has been taken from the queue of user data.\<close>

lemma send_from_connected:
  assumes "logged c w" and "msgs_ok S C U w" and "c \<in> S" and "temp_send_storage (cls w c) = 0" and "C c = []"
    and "unowned S C U w m" and "msg_ok w m" and "connected (subject_name (msgs w m)) w \<noteq> None"
  shows "\<exists>w'. send_userdata c m w = Some w' \<and> flow S C U c w C w' (unsent (msgs w m)) \<and> quiet_step 0 c w w' \<and> idle C w' c"
proof -
  from assms(8) obtain n where n: "connected (subject_name (msgs w m)) w = Some n" by auto
  define w1 where "w1 = upd_cl c (\<lambda>s. s\<lparr>temp_send_storage := m\<rparr>) w"
  have f1: "flow S C U c w C w1 (unsent (msgs w m))"
    unfolding w1_def by (rule set_storage_flow [OF assms(2,3,6,7,4,5)])
  have q1: "quiet_step 0 c w w1" by (simp add: w1_def upd_cl_def frame_defs)
  have t1: "temp_send_storage (cls w1 c) \<noteq> 0" using assms(7) by (simp add: w1_def upd_cl_def msg_ok_def)
  have ok1: "msgs_ok S C U w1" using f1 by (simp add: flow_def)
  obtain res w2 where w2: "send_one_msg c w1 = Some (res, w2)" "flow S C U c w1 C w2 []" "quiet_step 0 c w1 w2"
    using send_one_msg_flow [OF logged_quiet [OF assms(1) q1] ok1 assms(3) t1] by blast
  have "msgs_ok S C U w2" using w2(2) by (simp add: flow_def)
  note wf = wait_writable_flow [OF this, of c res]
  have "send_userdata c m w = Some (wait_writable c res w2)"
    using get_put_connected [OF assms(1) n] w2(1) by (simp add: send_userdata_def w1_def Let_def)
  moreover have "flow S C U c w C (wait_writable c res w2) (unsent (msgs w m))"
    using flow_trans [OF flow_trans [OF f1 w2(2)] wf(1)] by simp
  ultimately show ?thesis
    using quiet_trans [OF quiet_trans [OF q1 w2(3)] wf(2)] assms(5) by (auto simp: idle_def)
qed

lemma send_from_gone:
  fixes nm :: "byte list"
  assumes "logged c w" and "msgs_ok S C U w" and "c \<in> S" and "temp_send_storage (cls w c) = 0" and "C c = []"
    and "unowned S C U w m" and "msg_ok w m" and nm: "nm = subject_name (msgs w m)" "connected nm w = None"
  shows "\<exists>w' U' b. send_userdata c m w = Some w' \<and> moved S C U c w C U' w' \<and> notice nm b \<and>
    stream C w' c = stream C w c @ b \<and> inbox U' w' c = filter (\<lambda>(b, s). strncmp s nm 32 \<noteq> 0) (inbox U w c) \<and>
    quiet_step 0 c w w' \<and> idle C w' c"
proof -
  define k where "k = next_addr w"
  define C1 where "C1 = C(c := [k])"
  have C1: "C1 c = [k]" "C1(c := []) = C" using assms(5) by (auto simp: C1_def)
  obtain b w1 q1 where w1: "notify_about_disconnect c nm w = Some w1" "flow S C U c w C1 w1 b" "notice nm b" "quiet_step 0 c w w1"
    "cls w1 = (cls w)(c := (cls w c)\<lparr>pending_ctrl_queue := q1\<rparr>)"
    using notify_flow [OF assms(2,3), of nm] assms(5) by (auto simp: C1_def k_def)
  have "m \<noteq> k" using assms(7) by (simp add: msg_ok_def k_def)
  moreover have "owned C1 U w1 x = (if x = c then temps w c @ k # U c else owned C U w x)" for x
    by (simp add: owned_def temps_def w1(5) C1_def)
  ultimately have un1: "unowned S C1 U w1 m" using assms(5,6) by (auto simp: unowned_def owned_def)
  have ok1: "msgs_ok S C1 U w1" using w1(2) by (simp add: flow_def)
  define U2 where "U2 = U(c := filter (\<lambda>x. strncmp (subject_name (msgs w1 x)) nm 32 \<noteq> 0) (U c))"
  obtain w2 q2 where w2: "flush_userdata c nm w1 = Some w2" "moved S C1 U c w1 C1 U2 w2" "stream C1 w2 c = stream C1 w1 c"
    "inbox U2 w2 c = filter (\<lambda>(b, s). strncmp s nm 32 \<noteq> 0) (inbox U w1 c)" "quiet_step 0 c w1 w2"
    "cls w2 = (cls w1)(c := (cls w1 c)\<lparr>pending_userdata_queue := q2\<rparr>)" "unowned S C1 U2 w2 m"
    using flush_userdata_outflow [OF ok1 assms(3), of nm, folded U2_def] un1 by blast
  have ok2: "msgs_ok S C1 U2 w2" using w2(2) by (simp add: moved_def)
  define w3 where "w3 = free_msg m w2"
  have f3: "flow S C1 U2 c w2 C1 w3 []" unfolding w3_def by (rule free_unowned_flow [OF ok2 assms(3) w2(7)])
  have q3: "quiet_step 0 c w2 w3" and t3: "temp_send_storage (cls w3 c) = 0"
    using assms(4) by (simp_all add: w3_def free_msg_def frame_defs w2(6) w1(5))
  have ok3: "msgs_ok S C1 U2 w3" using f3 by (simp add: flow_def)
  obtain w4 where w4: "dequeue_ctrl c w3 = (Some k, w4)" "flow S C1 U2 c w3 C (upd_cl c (\<lambda>s. s\<lparr>temp_send_storage := k\<rparr>) w4) []"
    using take_ctrl_flow [OF ok3 assms(3) C1(1) t3] unfolding C1(2) by blast
  define w5 where "w5 = upd_cl c (\<lambda>s. s\<lparr>temp_send_storage := k\<rparr>) w4"
  have q5: "quiet_step 0 c w3 w5"
    using w4(1) by (auto simp: w5_def dequeue_ctrl_def upd_cl_def frame_defs split: prod.splits)
  have t5: "temp_send_storage (cls w5 c) \<noteq> 0" using assms(1) by (simp add: w5_def upd_cl_def k_def logged_def)
  have q: "quiet_step 0 c w w5" using quiet_trans w1(4) w2(5) q3 q5 by metis
  have ok5: "msgs_ok S C U2 w5" using w4(2) by (simp add: flow_def w5_def)
  obtain res w6 where w6: "send_one_msg c w5 = Some (res, w6)" "flow S C U2 c w5 C w6 []" "quiet_step 0 c w5 w6"
    using send_one_msg_flow [OF logged_quiet [OF assms(1) q] ok5 assms(3) t5] by blast
  have "msgs_ok S C U2 w6" using w6(2) by (simp add: flow_def)
  note wf = wait_writable_flow [OF this, of c res]
  define w' where "w' = wait_writable c res w6"
  have "get_connected nm w = Some (None, w)" using get_connected_cases [OF assms(1), of nm] nm(2) by simp
  then have "send_userdata c m w = Some w'"
    using w1(1) w2(1) w4(1) w6(1) by (simp add: send_userdata_def Let_def w3_def [symmetric] w5_def w'_def flip: nm(1))
  moreover have r: "flow S C1 U2 c w2 C w' []"
    using flow_trans [OF flow_trans [OF flow_trans [OF f3 w4(2) [folded w5_def]] w6(2)] wf(1)] by (simp add: w'_def)
  have "moved S C U c w C U2 w'"
    by (rule moved_trans [OF flow_moved [OF w1(2)]]) (rule moved_trans [OF w2(2) flow_moved [OF r]])
  moreover have "stream C w' c = stream C w c @ b" "inbox U2 w' c = filter (\<lambda>(b, s). strncmp s nm 32 \<noteq> 0) (inbox U w c)"
    using r w1(2) w2(3,4) by (simp_all add: flow_def)
  moreover have "quiet_step 0 c w w'" unfolding w'_def by (rule quiet_trans [OF quiet_trans [OF q w6(3)] wf(2)])
  ultimately show ?thesis using w1(3) assms(5) by (auto simp: idle_def)
qed

subsection \<open>The handlers\<close>

text \<open>The part both handlers begin with: what was in progress, and the control queue.\<close>

lemma send_stream:
  assumes "logged c w" and "msgs_ok S C U w" and "c \<in> S"
  shows "\<exists>b. notices w c b \<and>
    ((\<exists>res w' C'. send_pending c w = Some (res, w') \<and> res < 0 \<and> flow S C U c w C' w' b \<and> quiet_step 0 c w w' \<and>
       after_send c w res w') \<or>
     (\<exists>r1 w1 res w' C'. send_pending c w = Some (r1, w1) \<and> 0 \<le> r1 \<and> send_ctrl c w1 = Some (res, w') \<and>
       flow S C U c w C' w' b \<and> quiet_step 0 c w w' \<and> after_send c w res w' \<and> (0 \<le> res \<longrightarrow> C' c = [])))"
proof -
  obtain r1 w1 C1 b where w1: "send_pending c w = Some (r1, w1)" "flow S C U c w C1 w1 b" "notices w c b" "quiet_step 0 c w w1"
    "after_send c w r1 w1"
    using send_pending_flow [OF assms] by blast
  show ?thesis
  proof (cases "r1 < 0")
    case True
    then show ?thesis using w1 by blast
  next
    case False
    then have t: "temp_send_storage (cls w1 c) = 0" "cl_state (cls w1 c) = cl_state (cls w c)"
      using w1(5) by (auto simp: after_send_def)
    have "msgs_ok S C1 U w1" using w1(2) by (simp add: flow_def)
    from send_ctrl_flow [OF logged_quiet [OF assms(1) w1(4)] this assms(3) t(1)] obtain res w' C' where
      w2: "send_ctrl c w1 = Some (res, w')" "flow S C1 U c w1 C' w' []" "quiet_step 0 c w1 w'"
      "after_send c w1 res w'" "0 \<le> res \<longrightarrow> C' c = []" by blast
    have "flow S C U c w C' w' b" using flow_trans [OF w1(2) w2(2)] by simp
    moreover have "0 \<le> r1" using False by simp
    ultimately show ?thesis
      using w1(1,3) w2(1,5) quiet_trans [OF w1(4) w2(3)] after_send_from [OF w2(4) t(2)] by blast
  qed
qed

text \<open>A client is served when nothing is left of its stream.\<close>

definition all_sent :: "(addr \<Rightarrow> addr list) \<Rightarrow> worker \<Rightarrow> addr \<Rightarrow> bool" where
  "all_sent C w c \<longleftrightarrow> temp_send_storage (cls w c) = 0 \<and> C c = []"

lemma all_sent_stream: "all_sent C w c \<Longrightarrow> stream C w c = sent w c"
  by (simp add: all_sent_def stream_def temps_def)

text \<open>The socket is watched for input, and the queue of user data for messages, if they are watched at all.\<close>

definition listens_again :: "addr \<Rightarrow> worker \<Rightarrow> bool" where
  "listens_again c w \<longleftrightarrow> sock_events w c \<in> {None, Some (True, False)} \<and> queue_events w c \<in> {None, Some True}"

lemma outbound_moves:
  assumes "logged c w" and "cl_state (cls w c) = AUTHENTICATED" and "msgs_ok S C U w" and "c \<in> S"
  shows "\<exists>w' C' b. notices w c b \<and> wt_handle_outbound_data c w = Some w' \<and> flow S C U c w C' w' b \<and> quiet_step 0 c w w' \<and> idle C' w' c \<and>
    (all_sent C' w' c \<and> listens_again c w' \<or>
     temp_send_storage (cls w' c) \<noteq> 0 \<and> (cl_state (cls w' c) = DISCONNECTED \<or> cl_state (cls w' c) = AUTHENTICATED))"
proof -
  have lv: "live w c" using assms(1) by (simp add: logged_def)
  from send_stream [OF assms(1,3,4)] obtain b where b: "notices w c b"
    "(\<exists>res w' C'. send_pending c w = Some (res, w') \<and> res < 0 \<and> flow S C U c w C' w' b \<and> quiet_step 0 c w w' \<and>
       after_send c w res w') \<or>
     (\<exists>r1 w1 res w' C'. send_pending c w = Some (r1, w1) \<and> 0 \<le> r1 \<and> send_ctrl c w1 = Some (res, w') \<and>
       flow S C U c w C' w' b \<and> quiet_step 0 c w w' \<and> after_send c w res w' \<and> (0 \<le> res \<longrightarrow> C' c = []))" by blast
  have "\<exists>w' C'. wt_handle_outbound_data c w = Some w' \<and> flow S C U c w C' w' b \<and> quiet_step 0 c w w' \<and> idle C' w' c \<and>
    (all_sent C' w' c \<and> listens_again c w' \<or>
     temp_send_storage (cls w' c) \<noteq> 0 \<and> (cl_state (cls w' c) = DISCONNECTED \<or> cl_state (cls w' c) = AUTHENTICATED))"
    using b(2)
  proof (elim disjE exE conjE)
    fix res w' C'
    assume *: "send_pending c w = Some (res, w')" "res < 0" "flow S C U c w C' w' b" "quiet_step 0 c w w'" "after_send c w res w'"
    then have "wt_handle_outbound_data c w = Some w'" using lv assms(2) by (simp add: wt_handle_outbound_data_def)
    with * show ?thesis using assms(2) by (intro exI [of _ w'] exI [of _ C']) (auto simp: after_send_def idle_def)
  next
    fix r1 w1 res w' C'
    assume *: "send_pending c w = Some (r1, w1)" "0 \<le> r1" "send_ctrl c w1 = Some (res, w')" "flow S C U c w C' w' b"
      "quiet_step 0 c w w'" "after_send c w res w'" "0 \<le> res \<longrightarrow> C' c = []"
    show ?thesis
    proof (cases "res < 0")
      case True
      then have "wt_handle_outbound_data c w = Some w'" using lv assms(2) * by (simp add: wt_handle_outbound_data_def)
      with * True show ?thesis using assms(2) by (intro exI [of _ w'] exI [of _ C']) (auto simp: after_send_def idle_def)
    next
      case False
      define w2 where "w2 = w'\<lparr>sock_events := epoll_mod c (True, False) (sock_events w'), queue_events := epoll_mod c True (queue_events w')\<rparr>"
      have "wt_handle_outbound_data c w = Some w2" using False lv assms(2) * by (simp add: wt_handle_outbound_data_def w2_def)
      moreover have "msgs_ok S C' U w'" using *(4) by (simp add: flow_def)
      from events_flow [OF this, of c] have e: "flow S C' U c w' C' w2 []" "quiet_step 0 c w' w2" by (simp_all add: w2_def)
      moreover have "flow S C U c w C' w2 b" using flow_trans [OF *(4) e(1)] by simp
      moreover have "all_sent C' w2 c" "idle C' w2 c" using * False by (auto simp: all_sent_def idle_def w2_def after_send_def)
      moreover have "listens_again c w2"
        by (cases "sock_events w' c"; cases "queue_events w' c") (simp_all add: w2_def listens_again_def epoll_mod_def)
      ultimately show ?thesis using quiet_trans [OF *(5) e(2)] by (intro exI [of _ w2] exI [of _ C']) simp
    qed
  qed
  then show ?thesis using b(1) by blast
qed


lemma idle_start:
  assumes "msgs_ok S C U w" and "c \<in> S" and "idle C w c" and "temp_send_storage (cls w c) = 0"
  shows "send_pending c w = Some (0, w)" and "\<exists>w1. send_ctrl c w = Some (0, w1)"
proof -
  show "send_pending c w = Some (0, w)" using assms(4) by (simp add: send_pending_def)
  have "C c = []" using assms(3,4) by (simp add: idle_def)
  then obtain w1 where "dequeue_ctrl c w = (None, w1)" using dequeue_ctrl_empty [OF assms(1,2)] by blast
  then show "\<exists>w1. send_ctrl c w = Some (0, w1)" by (subst send_ctrl.simps) simp
qed

text \<open>What the handler of the queue does to stream and inbox: nothing is taken from the inbox, or its first
  message is sent, or a notice in place of all messages of a user that is gone.\<close>

definition nothing_taken :: "(byte list \<times> byte list) list \<Rightarrow> byte list \<Rightarrow> (byte list \<times> byte list) list \<Rightarrow> bool" where
  "nothing_taken ib out ib' \<longleftrightarrow> ib' = ib \<and> out = []"

definition message_sent :: "worker \<Rightarrow> (byte list \<times> byte list) list \<Rightarrow> byte list \<Rightarrow> (byte list \<times> byte list) list \<Rightarrow> bool" where
  "message_sent w ib out ib' \<longleftrightarrow> (\<exists>s. ib = (out, s) # ib' \<and> connected s w \<noteq> None)"

definition messages_dropped :: "worker \<Rightarrow> (byte list \<times> byte list) list \<Rightarrow> byte list \<Rightarrow> (byte list \<times> byte list) list \<Rightarrow> bool" where
  "messages_dropped w ib out ib' \<longleftrightarrow> (\<exists>b s ms. ib = (b, s) # ms \<and> connected s w = None \<and> notice s out \<and>
     ib' = filter (\<lambda>(_, s'). strncmp s' s 32 \<noteq> 0) ms)"

lemma take_userdata:
  assumes "logged c w" and "msgs_ok S C U w" and "c \<in> S" and "temp_send_storage (cls w c) = 0" and "C c = []"
  shows "\<exists>w' U' out. (case dequeue_userdata c w of (None, w) \<Rightarrow> Some w | (Some m, w) \<Rightarrow> send_userdata c m w) = Some w' \<and>
    moved S C U c w C U' w' \<and> quiet_step 0 c w w' \<and> idle C w' c \<and> stream C w' c = stream C w c @ out \<and>
    (nothing_taken (inbox U w c) out (inbox U' w' c) \<and> inbox U w c = [] \<or> message_sent w (inbox U w c) out (inbox U' w' c) \<or>
     messages_dropped w (inbox U w c) out (inbox U' w' c))"
proof (cases "U c")
  case Nil
  obtain w1 where w1: "dequeue_userdata c w = (None, w1)" "flow S C U c w C w1 []"
    using dequeue_userdata_empty [OF assms(2,3) Nil] by blast
  moreover have "quiet_step 0 c w w1"
    using w1(1) by (auto simp: dequeue_userdata_def upd_cl_def frame_defs split: prod.splits)
  ultimately show ?thesis
    using flow_moved [OF w1(2)] assms(5) Nil
    by (intro exI [of _ w1] exI [of _ U] exI [of _ "[]"]) (simp add: idle_def flow_def nothing_taken_def inbox_def)
next
  case (Cons m ms)
  define U1 where "U1 = U(c := ms)"
  obtain w1 where w1: "dequeue_userdata c w = (Some m, w1)" "msgs_ok S C U1 w1" "others_kept S C U c w w1"
    "unowned S C U1 w1 m" "msg_ok w1 m" "unsent (msgs w1 m) = unsent (msgs w m)"
    "subject_name (msgs w1 m) = subject_name (msgs w m)" "stream C w1 c = stream C w c"
    "inbox U1 w1 c = tl (inbox U w c)" "\<forall>x. cls w1 x = (cls w x)\<lparr>pending_userdata_queue := pending_userdata_queue (cls w1 x)\<rparr>"
    using dequeue_userdata_outflow [where ms = ms, OF assms(2,3) Cons, folded U1_def] by blast
  have q1: "quiet_step 0 c w w1"
    using w1(1) by (auto simp: dequeue_userdata_def upd_cl_def frame_defs split: prod.splits)
  have f: "temp_send_storage (cls w1 c) = 0" "cl_state (cls w1 c) = cl_state (cls w c)"
    using assms(4) by (subst w1(10) [rule_format], simp)+
  have m1: "moved S C U c w C U1 w1" using w1(2,3) by (simp add: moved_def U1_def)
  define nm where "nm = subject_name (msgs w1 m)"
  have ib: "inbox U w c = (unsent (msgs w1 m), nm) # inbox U1 w1 c"
    using Cons w1(6,7,9) by (simp add: inbox_def nm_def)
  have co: "connected s w1 = connected s w" for s by (rule connected_same [OF q1 f(2)])
  note l1 = logged_quiet [OF assms(1) q1]
  show ?thesis
  proof (cases "connected nm w1 = None")
    case True
    obtain w' U' b where r: "send_userdata c m w1 = Some w'" "moved S C U1 c w1 C U' w'" "notice nm b"
      "stream C w' c = stream C w1 c @ b" "inbox U' w' c = filter (\<lambda>(b, s). strncmp s nm 32 \<noteq> 0) (inbox U1 w1 c)"
      "quiet_step 0 c w1 w'" "idle C w' c"
      using send_from_gone [OF l1 w1(2) assms(3) f(1) assms(5) w1(4,5) nm_def True] by blast
    have "messages_dropped w (inbox U w c) b (inbox U' w' c)"
      unfolding messages_dropped_def ib r(5) using True r(3) by (auto simp: co)
    then show ?thesis using r w1(1,8) moved_trans [OF m1 r(2)] quiet_trans [OF q1 r(6)] by auto
  next
    case False
    obtain w' where r: "send_userdata c m w1 = Some w'" "flow S C U1 c w1 C w' (unsent (msgs w1 m))" "quiet_step 0 c w1 w'" "idle C w' c"
      using send_from_connected [where U = U1, OF l1 w1(2) assms(3) f(1) assms(5) w1(4,5) False [unfolded nm_def]] by blast
    have "message_sent w (inbox U w c) (unsent (msgs w1 m)) (inbox U1 w' c)"
      using r(2) False by (simp add: message_sent_def ib flow_def co)
    moreover have "stream C w' c = stream C w c @ unsent (msgs w1 m)" using r(2) w1(8) by (simp add: flow_def)
    ultimately show ?thesis
      using r(1,4) w1(1) moved_trans [OF m1 flow_moved [OF r(2)]] quiet_trans [OF q1 r(3)] by auto
  qed
qed

lemma queued_moves:
  assumes "logged c w" and "cl_state (cls w c) = AUTHENTICATED" and "msgs_ok S C U w" and "c \<in> S" and "idle C w c"
  shows "\<exists>b w' C' U' out. notices w c b \<and> wt_handle_queued_messages c w = Some w' \<and> moved S C U c w C' U' w' \<and>
    quiet_step 0 c w w' \<and> idle C' w' c \<and> stream C' w' c = stream C w c @ b @ out \<and>
    (nothing_taken (inbox U w c) out (inbox U' w' c) \<and>
       (inbox U w c = [] \<or> temp_send_storage (cls w c) \<noteq> 0 \<and> temp_send_storage (cls w' c) \<noteq> 0) \<or>
     message_sent w (inbox U w c) out (inbox U' w' c) \<or> messages_dropped w (inbox U w c) out (inbox U' w' c))"
proof -
  have lv: "live w c" using assms(1) by (simp add: logged_def)
  note st = idle_start [OF assms(3-5)]
  from send_stream [OF assms(1,3,4)] obtain b where b: "notices w c b"
    "(\<exists>res w' C'. send_pending c w = Some (res, w') \<and> res < 0 \<and> flow S C U c w C' w' b \<and> quiet_step 0 c w w' \<and>
       after_send c w res w') \<or>
     (\<exists>r1 w1 res w' C'. send_pending c w = Some (r1, w1) \<and> 0 \<le> r1 \<and> send_ctrl c w1 = Some (res, w') \<and>
       flow S C U c w C' w' b \<and> quiet_step 0 c w w' \<and> after_send c w res w' \<and> (0 \<le> res \<longrightarrow> C' c = []))" by blast
  have stop: "\<exists>w' C' U' out. wt_handle_queued_messages c w = Some w' \<and> moved S C U c w C' U' w' \<and> quiet_step 0 c w w' \<and> idle C' w' c \<and>
      stream C' w' c = stream C w c @ b @ out \<and>
      (nothing_taken (inbox U w c) out (inbox U' w' c) \<and>
         (inbox U w c = [] \<or> temp_send_storage (cls w c) \<noteq> 0 \<and> temp_send_storage (cls w' c) \<noteq> 0) \<or>
       message_sent w (inbox U w c) out (inbox U' w' c) \<or> messages_dropped w (inbox U w c) out (inbox U' w' c))"
    if "wt_handle_queued_messages c w = Some (wait_writable c res w1)" "flow S C U c w C1 w1 b" "quiet_step 0 c w w1"
      "after_send c w res w1" "res < 0" "temp_send_storage (cls w c) \<noteq> 0" for res w1 C1
  proof -
    have "msgs_ok S C1 U w1" using that(2) by (simp add: flow_def)
    note wf = wait_writable_flow [OF this, of c res]
    have fl: "flow S C U c w C1 (wait_writable c res w1) b" using flow_trans [OF that(2) wf(1)] by simp
    have "temp_send_storage (cls w1 c) \<noteq> 0" using that(4,5) by (simp add: after_send_def)
    then show ?thesis
      using that(1,6) flow_moved [OF fl] fl quiet_trans [OF that(3) wf(2)]
      by (intro exI [of _ "wait_writable c res w1"] exI [of _ C1] exI [of _ U] exI [of _ "[]"])
        (simp add: wf(3) idle_def flow_def nothing_taken_def)
  qed
  have "\<exists>w' C' U' out. wt_handle_queued_messages c w = Some w' \<and> moved S C U c w C' U' w' \<and> quiet_step 0 c w w' \<and> idle C' w' c \<and>
      stream C' w' c = stream C w c @ b @ out \<and>
      (nothing_taken (inbox U w c) out (inbox U' w' c) \<and>
         (inbox U w c = [] \<or> temp_send_storage (cls w c) \<noteq> 0 \<and> temp_send_storage (cls w' c) \<noteq> 0) \<or>
       message_sent w (inbox U w c) out (inbox U' w' c) \<or> messages_dropped w (inbox U w c) out (inbox U' w' c))"
    using b(2)
  proof (elim disjE exE conjE)
    fix res w1 C1
    assume *: "send_pending c w = Some (res, w1)" "res < 0" "flow S C U c w C1 w1 b" "quiet_step 0 c w w1" "after_send c w res w1"
    have "temp_send_storage (cls w c) \<noteq> 0" using st(1) *(1,2) by auto
    moreover have "wt_handle_queued_messages c w = Some (wait_writable c res w1)"
      using lv assms(2) * by (simp add: wt_handle_queued_messages_def)
    ultimately show ?thesis using stop * by blast
  next
    fix r1 w1 res w2 C2
    assume *: "send_pending c w = Some (r1, w1)" "0 \<le> r1" "send_ctrl c w1 = Some (res, w2)" "flow S C U c w C2 w2 b"
      "quiet_step 0 c w w2" "after_send c w res w2" "0 \<le> res \<longrightarrow> C2 c = []"
    show ?thesis
    proof (cases "res < 0")
      case True
      have "temp_send_storage (cls w c) \<noteq> 0"
      proof
        assume t: "temp_send_storage (cls w c) = 0"
        then have "w1 = w" using st(1) *(1) by simp
        then show False using st(2) [OF t] *(3) True by auto
      qed
      moreover have "wt_handle_queued_messages c w = Some (wait_writable c res w2)"
        using lv assms(2) * True by (simp add: wt_handle_queued_messages_def)
      ultimately show ?thesis using stop * True by blast
    next
      case False
      have a: "temp_send_storage (cls w2 c) = 0" "C2 c = []" "cl_state (cls w2 c) = cl_state (cls w c)"
        using False *(6,7) by (auto simp: after_send_def)
      have "msgs_ok S C2 U w2" using *(4) by (simp add: flow_def)
      from take_userdata [OF logged_quiet [OF assms(1) *(5)] this assms(4) a(1,2)] obtain w' U' out where
        r: "(case dequeue_userdata c w2 of (None, w) \<Rightarrow> Some w | (Some m, w) \<Rightarrow> send_userdata c m w) = Some w'"
        "moved S C2 U c w2 C2 U' w'" "quiet_step 0 c w2 w'" "idle C2 w' c" "stream C2 w' c = stream C2 w2 c @ out"
        "nothing_taken (inbox U w2 c) out (inbox U' w' c) \<and> inbox U w2 c = [] \<or> message_sent w2 (inbox U w2 c) out (inbox U' w' c) \<or>
         messages_dropped w2 (inbox U w2 c) out (inbox U' w' c)" by blast
      have co: "connected s w2 = connected s w" for s by (rule connected_same [OF *(5) a(3)])
      have "wt_handle_queued_messages c w = Some w'"
        using lv assms(2) * False r(1) by (simp add: wt_handle_queued_messages_def)
      moreover have "moved S C U c w C2 U' w'" by (rule moved_trans [OF flow_moved [OF *(4)] r(2)])
      moreover have "inbox U w2 c = inbox U w c" "stream C2 w2 c = stream C w c @ b" using *(4) by (simp_all add: flow_def)
      moreover have "message_sent w2 = message_sent w" "messages_dropped w2 = messages_dropped w"
        by (simp_all add: fun_eq_iff message_sent_def messages_dropped_def co)
      ultimately show ?thesis
        using r(4-6) quiet_trans [OF *(5) r(3)]
        by (intro exI [of _ w'] exI [of _ C2] exI [of _ U'] exI [of _ out]) auto
    qed
  qed
  then show ?thesis using b(1) by blast
qed


subsection \<open>Examples\<close>

text \<open>Client \<open>a\<close> with a message in progress; and with a message from \<open>b\<close> in its queue.\<close>

definition sending_worker :: worker where
  "sending_worker = upd_cl 1 (\<lambda>s. s\<lparr>temp_send_storage := 10\<rparr>) (fresh (plain_node example_pdu)
     (example_worker []\<lparr>outputs := (\<lambda>_. [Sent 40, SendBlock])\<rparr>))"



end
