(* ===== verification/Iptable.thy ===== *)
theory Iptable
  imports Ipblock
begin

text \<open>
  Tables of address records: the hash table of \<open>Htable\<close> with the keys and the comparison of \<open>Ipblock\<close>, as the
  worker threads and the registration thread use it. Between two handlers the table holds the only
  reference to each of its records.
\<close>

abbreviation (input) ip_valid :: "hkey \<Rightarrow> bool" where "ip_valid \<equiv> \<lambda>k. length k = 4"

definition ip_table :: "(addr \<Rightarrow> 'a node_scheme) \<Rightarrow> htable \<Rightarrow> bool" where
  "ip_table recs ht \<longleftrightarrow> ht_ok ip_valid recs ht \<and> cmpfn ht = ip_cmp \<and>
     (\<forall>n \<in> ht_nodes ht. ref_cnt (recs n) = 1 \<and> \<not> freed (recs n))"

definition ip_find :: "(addr \<Rightarrow> 'a node_scheme) \<Rightarrow> htable \<Rightarrow> u32 \<Rightarrow> addr option" where
  "ip_find recs ht peer = ht_map recs ht (ip_key peer)"

lemma ip_tableD:
  assumes "ip_table recs ht"
  shows "ht_ok ip_valid recs ht" and "cmpfn ht = ip_cmp"
    and "n \<in> ht_nodes ht \<Longrightarrow> ref_cnt (recs n) = 1 \<and> \<not> freed (recs n)"
  using assms by (auto simp: ip_table_def)

lemma ip_find_Some:
  assumes "ip_table recs ht"
  shows "ip_find recs ht peer = Some n \<longleftrightarrow> n \<in> ht_nodes ht \<and> key (recs n) = ip_key peer"
  unfolding ip_find_def by (rule ip_order.ht_map_Some_iff [OF ip_tableD(1,2) [OF assms]])

lemma ip_get:
  assumes "ip_table recs ht"
  shows "\<exists>tr. htable_get calm_locks recs ht (ip_key peer) ref_inc =
    Some (ip_find recs ht peer,
      (case ip_find recs ht peer of None \<Rightarrow> recs | Some n \<Rightarrow> if ref_inc then node_get recs n else recs), tr)"
  using ip_order.htable_get_correct [OF ip_tableD(1,2) [OF assms] length_ip_key, of calm_locks peer ref_inc]
  by (auto simp: ip_find_def)

text \<open>Taking a reference to a record and giving it back.\<close>

lemma ip_get_put:
  assumes "ip_table recs ht" and "ip_find recs ht peer = Some n"
  shows "node_put (node_get recs n) n = recs"
  by (rule node_put_get) (use ip_tableD(3) [OF assms(1)] ip_find_Some [OF assms(1)] assms(2) in auto)

text \<open>Removing a record to which one reference more is held, and dropping that: the record is freed.\<close>

lemma ip_remove:
  assumes t: "ip_table recs ht" and f: "ip_find recs ht peer = Some n"
  shows "\<exists>ht' tr. htable_remove calm_locks (node_get recs n) ht (key (node_get recs n n)) = Some (ht', recs, tr) \<and>
    ip_table (node_put recs n) ht' \<and> ip_find (node_put recs n) ht' = (ip_find recs ht)(peer := None) \<and>
    ht_nodes ht' = ht_nodes ht - {n} \<and> freed (node_put recs n n)"
proof -
  have n: "n \<in> ht_nodes ht" "key (recs n) = ip_key peer" using f ip_find_Some [OF t] by simp_all
  define s where "s = node_get recs n"
  have ks: "key (s m) = key (recs m)" for m by (simp add: s_def)
  have ok: "ht_ok ip_valid s ht" and hm: "ht_map s ht = ht_map recs ht"
    using ip_tableD(1) [OF t] ip_order.ht_agree [OF ip_tableD(2) [OF t], of s recs] ks by simp_all
  obtain ht' s' tr where r: "htable_remove calm_locks s ht (ip_key peer) = Some (ht', s', tr)" "ht_ok ip_valid s' ht'"
    "cmpfn ht' = ip_cmp" "ht_map s' ht' = (ht_map s ht)(ip_key peer := None)"
    "s' = (case ht_map s ht (ip_key peer) of None \<Rightarrow> s | Some n \<Rightarrow> node_put s n)"
    using ip_order.htable_remove_correct [OF ok ip_tableD(2) [OF t] length_ip_key, of calm_locks peer] by auto
  have s': "s' = recs" using r(5) f ip_get_put [OF t f, folded s_def] unfolding hm ip_find_def by simp
  have nodes: "ht_nodes ht' = ht_nodes ht - {n}"
    by (rule ip_order.nodes_after_remove [OF ip_tableD(1,2) [OF t] r(2,3)]) (use r(4) n in \<open>simp_all add: hm s'\<close>)
  have rf: "node_put recs n m = recs m" if "m \<noteq> n" for m using that by (simp add: node_put_def Let_def)
  have "ht_ok ip_valid (node_put recs n) ht'" using r(2) ht_ok_cong [of "node_put recs n" recs] by (simp add: s')
  then have "ip_table (node_put recs n) ht'"
    using r(3) ip_tableD(3) [OF t] nodes rf by (auto simp: ip_table_def)
  moreover have "ht_map (node_put recs n) ht' = ht_map recs ht'" by (rule ht_map_cong) simp
  then have "ip_find (node_put recs n) ht' = (ip_find recs ht)(peer := None)"
    using r(4) by (simp add: fun_eq_iff ip_find_def s' hm ip_key_inject)
  moreover have "freed (node_put recs n n)" using ip_tableD(3) [OF t n(1)] by (simp add: node_put_def Let_def)
  ultimately show ?thesis using r(1) nodes n(2) by (simp add: s' s_def [symmetric] ks)
qed

text \<open>Adding a record at an address that the table does not use.\<close>

lemma ip_add:
  assumes t: "ip_table recs ht" and a: "a \<notin> ht_nodes ht" and f: "ip_find recs ht peer = None"
    and r: "key r = ip_key peer" "ref_cnt r = 1" "\<not> freed r"
  shows "\<exists>ht' tr. htable_add calm_locks calm_resize (recs(a := r)) ht a = Some (True, ht', tr) \<and>
    ip_table (recs(a := r)) ht' \<and> ip_find (recs(a := r)) ht' = (ip_find recs ht)(peer \<mapsto> a) \<and> ht_nodes ht' = insert a (ht_nodes ht)"
proof -
  define s where "s = recs(a := r)"
  have same: "s m = recs m" if "m \<in> ht_nodes ht" for m using that a by (auto simp: s_def)
  have ok: "ht_ok ip_valid s ht" and hm: "ht_map s ht = ht_map recs ht"
    using ip_tableD(1) [OF t] ip_order.ht_agree [OF ip_tableD(2) [OF t], of s recs] same by simp_all
  obtain result ht' tr where ad: "htable_add calm_locks calm_resize s ht a = Some (result, ht', tr)" "ht_ok ip_valid s ht'"
    "cmpfn ht' = ip_cmp" "result = (ht_map s ht (key (s a)) = None)"
    "ht_map s ht' = (if result then (ht_map s ht)(key (s a) \<mapsto> a) else ht_map s ht)"
    using ip_order.htable_add_correct [OF ok ip_tableD(2) [OF t], of a calm_resize calm_locks] r(1)
    by (auto simp: s_def calm_resize_def)
  have ka: "key (s a) = ip_key peer" by (simp add: s_def r(1))
  then have res: result and hm': "ht_map s ht' = (ht_map recs ht)(ip_key peer \<mapsto> a)"
    using ad(4,5) f by (simp_all add: hm ip_find_def)
  have nodes: "ht_nodes ht' = insert a (ht_nodes ht)"
    by (rule ip_order.nodes_after_add [OF ok ip_tableD(2) [OF t] ad(2,3)]) (use hm' ka f in \<open>simp_all add: hm ip_find_def\<close>)
  have "ip_table s ht'"
    using ad(2,3) ip_tableD(3) [OF t] nodes r(2,3) by (auto simp: ip_table_def s_def)
  moreover have "ip_find s ht' = (ip_find recs ht)(peer \<mapsto> a)"
    using hm' by (simp add: fun_eq_iff ip_find_def ip_key_inject)
  ultimately show ?thesis using ad(1) res nodes by (auto simp: s_def [symmetric])
qed

text \<open>Adding a record whose address may be in the table already, and removing one to which no other reference is
  held. Nothing is said about the number of buckets.\<close>

lemma ip_insert:
  assumes t: "ip_table recs ht" and a: "a \<notin> ht_nodes ht" and r: "key r = ip_key peer" "ref_cnt r = 1" "\<not> freed r"
  shows "\<exists>ht' tr. htable_add calm_locks calm_resize (recs(a := r)) ht a = Some (ip_find recs ht peer = None, ht', tr) \<and>
    ip_table (recs(a := r)) ht' \<and>
    ip_find (recs(a := r)) ht' = (if ip_find recs ht peer = None then (ip_find recs ht)(peer \<mapsto> a) else ip_find recs ht) \<and>
    ht_nodes ht' = (if ip_find recs ht peer = None then insert a (ht_nodes ht) else ht_nodes ht)"
proof (cases "ip_find recs ht peer")
  case None
  then show ?thesis using ip_add [OF t a None r] by simp
next
  case (Some n)
  define s where "s = recs(a := r)"
  have same: "key (s m) = key (recs m)" if "m \<in> ht_nodes ht" for m using that a by (auto simp: s_def)
  have ok: "ht_ok ip_valid s ht" and hm: "ht_map s ht = ht_map recs ht"
    using ip_tableD(1) [OF t] ip_order.ht_agree [OF ip_tableD(2) [OF t], of s recs] same by simp_all
  have k: "ht_map s ht (key (s a)) \<noteq> None" using Some by (simp only: hm) (simp add: s_def r(1) ip_find_def)
  obtain ht' tr where ad: "htable_add calm_locks calm_resize s ht a = Some (False, ht', tr)" "ht_ok ip_valid s ht'"
    "cmpfn ht' = ip_cmp" "ht_map s ht' = ht_map s ht"
    using ip_order.htable_add_correct [OF ok ip_tableD(2) [OF t], of a calm_resize calm_locks] k r(1)
    by (auto simp: s_def calm_resize_def)
  have nodes: "ht_nodes ht' = ht_nodes ht"
  proof (rule set_eqI)
    fix m
    show "m \<in> ht_nodes ht' \<longleftrightarrow> m \<in> ht_nodes ht"
      using ip_order.ht_map_Some_iff [OF ad(2,3), of "key (s m)" m] ip_order.ht_map_Some_iff [OF ok ip_tableD(2) [OF t], of "key (s m)" m]
      by (simp add: ad(4))
  qed
  have "ip_table s ht'" using ad(2,3) ip_tableD(3) [OF t] a by (auto simp: ip_table_def nodes s_def)
  moreover have "ip_find s ht' = ip_find recs ht" by (simp add: fun_eq_iff ip_find_def ad(4) hm)
  ultimately show ?thesis using ad(1) Some nodes by (simp add: s_def)
qed

lemma ip_drop:
  assumes t: "ip_table recs ht"
  shows "\<exists>ht' recs' tr. htable_remove calm_locks recs ht (ip_key peer) = Some (ht', recs', tr) \<and> ip_table recs' ht' \<and>
    ip_find recs' ht' = (ip_find recs ht)(peer := None) \<and> ht_nodes ht' \<subseteq> ht_nodes ht \<and> (\<forall>n \<in> ht_nodes ht'. recs' n = recs n)"
proof -
  obtain ht' recs' tr where r: "htable_remove calm_locks recs ht (ip_key peer) = Some (ht', recs', tr)" "ht_ok ip_valid recs' ht'"
    "cmpfn ht' = ip_cmp" "ht_map recs' ht' = (ht_map recs ht)(ip_key peer := None)"
    "recs' = (case ht_map recs ht (ip_key peer) of None \<Rightarrow> recs | Some n \<Rightarrow> node_put recs n)"
    using ip_order.htable_remove_correct [OF ip_tableD(1,2) [OF t] length_ip_key, of calm_locks peer] by auto
  have keys: "key (recs' m) = key (recs m)" for m using r(5) by (simp split: option.splits)
  have mem: "m \<in> ht_nodes ht' \<longleftrightarrow> m \<in> ht_nodes ht \<and> key (recs m) \<noteq> ip_key peer" for m
    using ip_order.ht_map_Some_iff [OF r(2,3), of "key (recs m)" m] ip_order.ht_map_Some_iff [OF ip_tableD(1,2) [OF t], of "key (recs m)" m]
    by (auto simp: r(4) keys split: if_splits)
  have unchanged: "recs' m = recs m" if "m \<in> ht_nodes ht'" for m
    using that mem [of m] ip_order.ht_map_Some_iff [OF ip_tableD(1,2) [OF t], of "ip_key peer"]
    by (auto simp: r(5) node_put_def Let_def split: option.splits)
  have "ip_table recs' ht'" using r(2,3) ip_tableD(3) [OF t] mem unchanged by (auto simp: ip_table_def)
  moreover have "ip_find recs' ht' = (ip_find recs ht)(peer := None)"
    by (auto simp: fun_eq_iff ip_find_def r(4) ip_key_inject)
  ultimately show ?thesis using r(1) mem unchanged by blast
qed

lemma ip_size:
  assumes "ip_table recs ht"
  shows "length (concat (buckets ht)) = card (ht_nodes ht)"
  using ip_order.ht_distinct [OF ip_tableD(1,2) [OF assms]] by (simp add: ht_nodes_def distinct_card [symmetric])

definition empty_ip_ht :: htable where
  "empty_ip_ht = \<lparr>buckets = [[]], cmpfn = ip_cmp, bucket_count = 1, element_count = 0, resize_thres_elem_count = 1,
     lock_count = 1, buckets_per_lock_pow2 = 0, threshold_load_factor = 100, htable_pow2_resize_factor = 1\<rparr>"

lemma empty_ip_nodes [simp]: "ht_nodes empty_ip_ht = {}"
  by (simp add: empty_ip_ht_def ht_nodes_def)

lemma empty_ip_table: "ip_table recs empty_ip_ht"
proof -
  have "ht_sizes empty_ip_ht" by (simp add: ht_sizes_def empty_ip_ht_def) (rule exI [of _ 0], simp)
  then show ?thesis
    by (simp add: ip_table_def ht_ok_def ip_order.chain_ok_def) (simp add: empty_ip_ht_def)
qed

end
