(* ===== verification/Peers.thy ===== *)
theory Peers
  imports Iptable Netwrap
begin

text \<open>
  What the worker threads and the registration thread do with the record of a peer's address: a peer that connects is
  looked up, and its record is removed when it has expired (\<open>wt_handle_new_connections\<close>,
  \<open>handle_new_connections\<close>); a request that counts is noted in its record, which is created if need be
  (\<open>wt_handle_authentication\<close>, \<open>manage_reg_ipbr\<close>). The kinds of record differ in when they block and in
  what is counted: that is the locale \<open>peer_book\<close>, with an interpretation for each kind.
\<close>

text \<open>A connection that \<open>accept\<close> delivers: the address, the socket, and what the handshake, \<open>recv\<close> and \<open>send\<close>
  will answer on it.\<close>

record incoming =
  in_peer :: u32
  in_sock :: int
  in_accepts :: "accpt list"
  in_inputs :: "recv_res list"
  in_outputs :: "send_res list"

definition first_answer :: "accpt list \<Rightarrow> accpt" where
  "first_answer as = (case as of [] \<Rightarrow> ACCPT_IN_PROGRESS | r # _ \<Rightarrow> r)"

definition check_block :: "('a node_scheme \<Rightarrow> record_status) \<Rightarrow> u32 \<Rightarrow> (addr \<Rightarrow> 'a node_scheme) \<Rightarrow> htable \<Rightarrow>
    (bool \<times> (addr \<Rightarrow> 'a node_scheme) \<times> htable) option" where
  "check_block chk peer recs ht =
     (case htable_get calm_locks recs ht (ip_key peer) True of
        None \<Rightarrow> None
      | Some (None, recs, _) \<Rightarrow> Some (True, recs, ht)
      | Some (Some n, recs, _) \<Rightarrow>
          (case chk (recs n) of
             RS_BLOCKED \<Rightarrow> Some (False, node_put recs n, ht)
           | RS_EXPIRED \<Rightarrow>
               (case htable_remove calm_locks recs ht (key (recs n)) of
                  None \<Rightarrow> None
                | Some (ht, recs, _) \<Rightarrow> Some (True, node_put recs n, ht))
           | RS_NOT_BLOCKED \<Rightarrow> Some (True, node_put recs n, ht)))"

text \<open>A new record is put at address \<open>a\<close>; \<open>discard\<close> is what happens to it when it is in the way of another.
  The first component of the result says whether \<open>a\<close> has been used.\<close>

definition note_peer :: "(u32 \<Rightarrow> 'a node_scheme) \<Rightarrow> ('a node_scheme \<Rightarrow> 'a node_scheme) \<Rightarrow>
    ((addr \<Rightarrow> 'a node_scheme) \<Rightarrow> addr \<Rightarrow> addr \<Rightarrow> 'a node_scheme) \<Rightarrow> addr \<Rightarrow> u32 \<Rightarrow> (addr \<Rightarrow> 'a node_scheme) \<Rightarrow> htable \<Rightarrow>
    (bool \<times> (addr \<Rightarrow> 'a node_scheme) \<times> htable) option" where
  "note_peer create bump discard a peer recs ht =
     (case htable_get calm_locks recs ht (ip_key peer) True of
        None \<Rightarrow> None
      | Some (Some n, recs, _) \<Rightarrow> Some (False, node_put (recs(n := bump (recs n))) n, ht)
      | Some (None, recs, _) \<Rightarrow>
          let recs = recs(a := create peer) in
          (case htable_add calm_locks calm_resize recs ht a of
             None \<Rightarrow> None
           | Some (res, ht, _) \<Rightarrow> Some (True, if res then recs else discard recs a, ht)))"

text \<open>The table as a map from addresses to records.\<close>

definition peer_record :: "(addr \<Rightarrow> 'a node_scheme) \<Rightarrow> htable \<Rightarrow> u32 \<Rightarrow> 'a node_scheme option" where
  "peer_record recs ht peer = map_option recs (ip_find recs ht peer)"

definition block_status :: "('a node_scheme \<Rightarrow> record_status) \<Rightarrow> (u32 \<Rightarrow> 'a node_scheme option) \<Rightarrow> u32 \<Rightarrow> record_status" where
  "block_status chk book peer = (case book peer of None \<Rightarrow> RS_NOT_BLOCKED | Some r \<Rightarrow> chk r)"

text \<open>A record that changes, but for its key and the state of its node.\<close>

lemma ip_update:
  assumes "ip_table recs ht" and "key r = key (recs n)" and "ref_cnt r = ref_cnt (recs n)" and "freed r = freed (recs n)"
  shows "ip_table (recs(n := r)) ht" and "ip_find (recs(n := r)) ht = ip_find recs ht"
proof -
  have k: "key ((recs(n := r)) m) = key (recs m)" for m using assms(2) by simp
  show "ip_table (recs(n := r)) ht" using assms ht_ok_cong [of "recs(n := r)" recs, OF k] by (simp add: ip_table_def)
  show "ip_find (recs(n := r)) ht = ip_find recs ht"
    unfolding ip_find_def [abs_def] ht_map_cong [of "recs(n := r)" recs, OF k] ..
qed

text \<open>One record is set.\<close>

lemma peer_record_set:
  assumes f: "ip_find (recs(n := r)) ht' = (ip_find recs ht)(peer \<mapsto> n)"
    and n: "\<And>p. ip_find recs ht p = Some n \<Longrightarrow> p = peer"
  shows "peer_record (recs(n := r)) ht' = (peer_record recs ht)(peer \<mapsto> r)"
proof
  fix p
  show "peer_record (recs(n := r)) ht' p = ((peer_record recs ht)(peer \<mapsto> r)) p"
  proof (cases "p = peer")
    case False
    then have "ip_find recs ht p \<noteq> Some n" using n by blast
    then show ?thesis using False by (cases "ip_find recs ht p") (auto simp: peer_record_def f)
  qed (simp add: peer_record_def f)
qed

subsection \<open>Making records\<close>

locale record_maker =
  fixes create :: "u32 \<Rightarrow> 'a node_scheme"
  assumes made: "key (create p) = ip_key p" "ref_cnt (create p) = 1" "\<not> freed (create p)"
begin

lemma insert_made:
  assumes t: "ip_table recs ht" and a: "a \<notin> ht_nodes ht"
  shows "\<exists>ht' tr. htable_add calm_locks calm_resize (recs(a := create peer)) ht a = Some (peer_record recs ht peer = None, ht', tr) \<and>
    ip_table (recs(a := create peer)) ht' \<and> ht_nodes ht' \<subseteq> insert a (ht_nodes ht) \<and>
    (peer_record recs ht peer \<noteq> None \<longrightarrow> a \<notin> ht_nodes ht') \<and>
    peer_record (recs(a := create peer)) ht' =
      (if peer_record recs ht peer = None then (peer_record recs ht)(peer \<mapsto> create peer) else peer_record recs ht)"
proof -
  have none: "peer_record recs ht peer = None \<longleftrightarrow> ip_find recs ht peer = None" by (simp add: peer_record_def)
  from ip_insert [OF t a made(1) [of peer] made(2,3)] obtain ht' tr where
    r: "htable_add calm_locks calm_resize (recs(a := create peer)) ht a = Some (peer_record recs ht peer = None, ht', tr)"
    "ip_table (recs(a := create peer)) ht'"
    "ip_find (recs(a := create peer)) ht' = (if ip_find recs ht peer = None then (ip_find recs ht)(peer \<mapsto> a) else ip_find recs ht)"
    "ht_nodes ht' = (if ip_find recs ht peer = None then insert a (ht_nodes ht) else ht_nodes ht)"
    unfolding none by blast
  have un: "map_option (recs(a := create peer)) (ip_find recs ht p) = map_option recs (ip_find recs ht p)" for p
    using a by (cases "ip_find recs ht p") (auto dest: ip_find_Some [OF t, THEN iffD1])
  have "peer_record (recs(a := create peer)) ht' =
      (if peer_record recs ht peer = None then (peer_record recs ht)(peer \<mapsto> create peer) else peer_record recs ht)"
    by (auto simp: fun_eq_iff peer_record_def r(3) un)
  then show ?thesis using r a none by auto
qed

end

subsection \<open>What a kind of record promises\<close>

locale peer_book =
  fixes chk :: "'a node_scheme \<Rightarrow> record_status"
    and create :: "u32 \<Rightarrow> 'a node_scheme"
    and bump :: "'a node_scheme \<Rightarrow> 'a node_scheme"
  assumes chk_ref: "chk (r\<lparr>ref_cnt := k\<rparr>) = chk r"
    and create_node: "key (create p) = ip_key p" "ref_cnt (create p) = 1" "\<not> freed (create p)"
    and bump_node: "key (bump r) = key r" "ref_cnt (bump r) = ref_cnt r" "freed (bump r) = freed r"
    and bump_ref: "bump (r\<lparr>ref_cnt := k\<rparr>) = (bump r)\<lparr>ref_cnt := k\<rparr>"
begin

lemma check_block_ok:
  assumes t: "ip_table recs ht"
  shows "\<exists>recs' ht'. check_block chk peer recs ht = Some (block_status chk (peer_record recs ht) peer \<noteq> RS_BLOCKED, recs', ht') \<and>
    ip_table recs' ht' \<and> ht_nodes ht' \<subseteq> ht_nodes ht \<and>
    ip_find recs' ht' = (if block_status chk (peer_record recs ht) peer = RS_EXPIRED then (ip_find recs ht)(peer := None) else ip_find recs ht) \<and>
    (\<forall>n \<in> ht_nodes ht'. recs' n = recs n) \<and>
    (block_status chk (peer_record recs ht) peer \<noteq> RS_EXPIRED \<longrightarrow> recs' = recs \<and> ht' = ht)"
proof (cases "ip_find recs ht peer")
  case None
  then have "check_block chk peer recs ht = Some (True, recs, ht)" "block_status chk (peer_record recs ht) peer = RS_NOT_BLOCKED"
    using ip_get [OF t, of peer True] by (auto simp: check_block_def block_status_def peer_record_def)
  then show ?thesis using t by simp
next
  case (Some n)
  have put: "node_put (node_get recs n) n = recs" by (rule ip_get_put [OF t Some])
  have st: "chk (node_get recs n n) = block_status chk (peer_record recs ht) peer"
    by (simp add: block_status_def peer_record_def Some node_get_def chk_ref)
  obtain tr where get: "htable_get calm_locks recs ht (ip_key peer) True = Some (Some n, node_get recs n, tr)"
    using ip_get [OF t, of peer True] Some by auto
  show ?thesis
  proof (cases "block_status chk (peer_record recs ht) peer")
    case RS_EXPIRED
    obtain ht' tr where r: "htable_remove calm_locks (node_get recs n) ht (key (node_get recs n n)) = Some (ht', recs, tr)"
      "ip_table (node_put recs n) ht'" "ip_find (node_put recs n) ht' = (ip_find recs ht)(peer := None)" "ht_nodes ht' = ht_nodes ht - {n}"
      using ip_remove [OF t Some] by blast
    then have "check_block chk peer recs ht = Some (True, node_put recs n, ht')"
      using get st RS_EXPIRED by (auto simp: check_block_def)
    moreover have "\<forall>m \<in> ht_nodes ht'. node_put recs n m = recs m" using r(4) by (simp add: node_put_def Let_def)
    ultimately show ?thesis using r(2-4) RS_EXPIRED by auto
  qed (use st put t in \<open>simp_all add: check_block_def get\<close>)
qed

lemma note_peer_ok:
  assumes t: "ip_table recs ht" and a: "a \<notin> ht_nodes ht"
  shows "\<exists>used recs' ht'. note_peer create bump discard a peer recs ht = Some (used, recs', ht') \<and> ip_table recs' ht' \<and>
    ht_nodes ht' \<subseteq> ht_nodes ht \<union> (if used then {a} else {}) \<and>
    peer_record recs' ht' = (peer_record recs ht)(peer \<mapsto> (case peer_record recs ht peer of None \<Rightarrow> create peer | Some r \<Rightarrow> bump r))"
proof (cases "ip_find recs ht peer")
  case (Some n)
  have n: "n \<in> ht_nodes ht" using ip_find_Some [OF t] Some by simp
  have b: "bump (node_get recs n n) = (bump (recs n))\<lparr>ref_cnt := ref_cnt (recs n) + 1\<rparr>"
    by (simp add: node_get_def bump_ref)
  have "node_put ((node_get recs n)(n := bump (node_get recs n n))) n = recs(n := bump (recs n))"
    unfolding b using ip_tableD(3) [OF t n] by (auto simp: node_put_def node_get_def Let_def bump_node)
  then have eq: "note_peer create bump discard a peer recs ht = Some (False, recs(n := bump (recs n)), ht)"
    using ip_get [OF t, of peer True] by (auto simp: note_peer_def Some)
  note u = ip_update [OF t bump_node [of "recs n"]]
  have "peer_record (recs(n := bump (recs n))) ht = (peer_record recs ht)(peer \<mapsto> bump (recs n))"
    by (rule peer_record_set) (use u(2) Some ip_find_Some [OF t] in \<open>auto simp: ip_key_inject\<close>)
  then show ?thesis using eq u(1) by (intro exI [of _ False] exI [of _ "recs(n := bump (recs n))"] exI [of _ ht]) (simp add: peer_record_def Some)
next
  case None
  obtain ht' tr where ad: "htable_add calm_locks calm_resize (recs(a := create peer)) ht a = Some (True, ht', tr)"
    "ip_table (recs(a := create peer)) ht'" "ip_find (recs(a := create peer)) ht' = (ip_find recs ht)(peer \<mapsto> a)"
    "ht_nodes ht' = insert a (ht_nodes ht)"
    using ip_add [OF t a None create_node] by blast
  have eq: "note_peer create bump discard a peer recs ht = Some (True, recs(a := create peer), ht')"
    using ip_get [OF t, of peer True] ad(1) by (auto simp: note_peer_def None Let_def)
  have "peer_record (recs(a := create peer)) ht' = (peer_record recs ht)(peer \<mapsto> create peer)"
    by (rule peer_record_set [OF ad(3)]) (use a ip_find_Some [OF t] in blast)
  then show ?thesis using eq ad(2,4)
    by (intro exI [of _ True] exI [of _ "recs(a := create peer)"] exI [of _ ht']) (auto simp: peer_record_def None)
qed

end

sublocale peer_book \<subseteq> record_maker create
  by unfold_locales (rule create_node)+

subsection \<open>The two kinds\<close>

definition bump_auth :: "std_ipb_rec \<Rightarrow> std_ipb_rec" where
  "bump_auth r = r\<lparr>failed_auths := failed_auths r + 1\<rparr>"

definition bump_reg :: "record_reason \<Rightarrow> reg_ipb_rec \<Rightarrow> reg_ipb_rec" where
  "bump_reg reason r = (if reason = RSN_REGSUCC then r\<lparr>succ_regs := succ_regs r + 1\<rparr> else r\<lparr>failed_regs := failed_regs r + 1\<rparr>)"

interpretation std_book: peer_book "chk_std_block t" "\<lambda>p. std_ipb_rec_create t p False" bump_auth for t
  by unfold_locales (simp_all add: chk_std_block_def std_ipb_rec_create_def bump_auth_def)

interpretation reg_book: peer_book "chk_reg_block t" "\<lambda>p. reg_ipb_rec_create t p reason" "bump_reg reason" for t reason
  by unfold_locales (simp_all add: chk_reg_block_def reg_ipb_rec_create_def bump_reg_def)

end
