(* ===== verification/Connect.thy ===== *)
theory Connect
  imports Outbound Peers
begin

text \<open>
  How a client comes in, \<open>server/worker.c\<close>: \<open>wt_handle_new_connections\<close>, \<open>wt_handle_accepting\<close> and
  \<open>handle_clth_timeout\<close>. A connection that \<open>accept\<close> delivers is a record of the peer's address, the
  socket, and what the TLS handshake, \<open>recv\<close> and \<open>send\<close> will answer on it; the list of them ends where
  \<open>accept\<close> fails, with \<open>EAGAIN\<close> or otherwise.
\<close>

abbreviation (input) CLTH_AUTH_MAXPERM_TIME :: int where "CLTH_AUTH_MAXPERM_TIME \<equiv> 4"

text \<open>\<open>accept_fn\<close> on a connection of the worker; a handshake that has no answer waits for the peer.\<close>

definition do_accept :: "addr \<Rightarrow> worker \<Rightarrow> accpt \<times> worker" where
  "do_accept c w =
     (case accepts w c of
        [] \<Rightarrow> (ACCPT_IN_PROGRESS, w)
      | r # rs \<Rightarrow> (r, w\<lparr>accepts := (accepts w)(c := rs)\<rparr>))"

definition set_state :: "addr \<Rightarrow> client_state \<Rightarrow> worker \<Rightarrow> worker" where
  "set_state c st w = upd_cl c (\<lambda>s. s\<lparr>cl_state := st\<rparr>) w"

text \<open>The result of \<open>cl_timerheap_add\<close> is ignored.\<close>

definition set_deadline :: "addr \<Rightarrow> worker \<Rightarrow> worker option" where
  "set_deadline c w =
     (case cl_timerheap_add (clth w) (cls w) c (now w) CLTH_AUTH_MAXPERM_TIME of
        None \<Rightarrow> None
      | Some (_, h, s) \<Rightarrow> Some (w\<lparr>clth := h, cls := s\<rparr>))"

subsection \<open>New connections\<close>

text \<open>Whether the white list and the blocking record of the address let the peer in; an expired record is removed.\<close>

definition on_whitelist :: "u32 \<Rightarrow> worker \<Rightarrow> bool option" where
  "on_whitelist peer w =
     (if Servcfg.use_ip_whitelist (cfg w) = 0 then Some True
      else map_option (\<lambda>(r, _). r \<noteq> None) (htable_get calm_locks (wl_recs w) (ip_whitelist_tbl w) (ip_key peer) False))"

definition check_record :: "u32 \<Rightarrow> worker \<Rightarrow> (bool \<times> worker) option" where
  "check_record peer w =
     (case check_block (chk_std_block (now w)) peer (ipb_recs w) (std_ipblock_tbl w) of
        None \<Rightarrow> None
      | Some (ok, recs, ht) \<Rightarrow> Some (ok, w\<lparr>std_ipblock_tbl := ht, ipb_recs := recs\<rparr>))"

definition check_peer :: "u32 \<Rightarrow> worker \<Rightarrow> (bool \<times> worker) option" where
  "check_peer peer w =
     (case on_whitelist peer w of
        None \<Rightarrow> None
      | Some False \<Rightarrow> Some (False, w)
      | Some True \<Rightarrow> check_record peer w)"

definition new_client :: "incoming \<Rightarrow> worker \<Rightarrow> addr \<times> worker" where
  "new_client conn w =
     (let a = next_addr w;
          (stdc, nd) = create_std_client (in_peer conn) (in_sock conn) (thrd_id w) (map (garbage w a) [0..<LWMP_MAX_PDU_SIZE])
      in (a, w\<lparr>next_addr := a + 1, cls := (cls w)(a := stdc), nds := (nds w)(a := nd),
               inputs := (inputs w)(a := in_inputs conn), outputs := (outputs w)(a := in_outputs conn),
               accepts := (accepts w)(a := in_accepts conn), sent := (sent w)(a := []),
               sock_events := (sock_events w)(a := None), queue_events := (queue_events w)(a := None)\<rparr>))"

definition enter :: "addr \<Rightarrow> worker \<Rightarrow> worker" where
  "enter c w = w\<lparr>preauth_list := intrusive_list_add (preauth_list w) c, sock_events := (sock_events w)(c \<mapsto> (True, False))\<rparr>"

definition handle_connection :: "incoming \<Rightarrow> worker \<Rightarrow> worker option" where
  "handle_connection conn w =
     (case check_peer (in_peer conn) w of
        None \<Rightarrow> None
      | Some (False, w) \<Rightarrow> Some w
      | Some (True, w) \<Rightarrow>
          (case new_client conn w of
             (c, w) \<Rightarrow>
               (case do_accept c w of
                  (ACCPT_DONE, w) \<Rightarrow> map_option (enter c) (set_deadline c (set_state c ACCEPTED w))
                | (ACCPT_ERROR, w) \<Rightarrow> cleanup_std_client c w
                | (ACCPT_IN_PROGRESS, w) \<Rightarrow> Some (enter c (set_state c ACCEPTING w)))))"

fun wt_handle_new_connections :: "incoming list \<Rightarrow> worker \<Rightarrow> worker option" where
  "wt_handle_new_connections [] w = Some w"
| "wt_handle_new_connections (conn # conns) w =
     (case handle_connection conn w of None \<Rightarrow> None | Some w \<Rightarrow> wt_handle_new_connections conns w)"

subsection \<open>The handshake and the deadline\<close>

definition wt_handle_accepting :: "addr \<Rightarrow> worker \<Rightarrow> worker option" where
  "wt_handle_accepting c w =
     (if \<not> live w c then None
      else case do_accept c w of
        (ACCPT_ERROR, w) \<Rightarrow> cleanup_std_client c w
      | (ACCPT_DONE, w) \<Rightarrow> map_option (set_state c ACCEPTED) (set_deadline c w)
      | (ACCPT_IN_PROGRESS, w) \<Rightarrow> Some w)"

text \<open>A null pointer is what popping an empty heap gives.\<close>

partial_function (option) handle_clth_timeout :: "worker \<Rightarrow> (int \<times> worker) option" where
  "handle_clth_timeout w =
     (case cl_timerheap_compute_root_timediff (clth w) (cls w) (now w) ACCEPTED of
        None \<Rightarrow> None
      | Some timediff \<Rightarrow>
          if timediff = CLTH_NOT_APPLICABLE
          then (case cl_timerheap_pop (clth w) (cls w) of
              None \<Rightarrow> None
            | Some (_, h, s) \<Rightarrow> handle_clth_timeout (w\<lparr>clth := h, cls := s\<rparr>))
          else if timediff = CLTH_TIMEOUT
          then (case cl_timerheap_pop (clth w) (cls w) of
              None \<Rightarrow> None
            | Some (c, h, s) \<Rightarrow>
                if c = 0 then None
                else (case cleanup_std_client c (send_auth_resp c AUTH_RESP_TIMEOUT (w\<lparr>clth := h, cls := s\<rparr>)) of
                    None \<Rightarrow> None
                  | Some w \<Rightarrow> handle_clth_timeout w))
          else if timediff = CLTH_EMPTY then Some (- 1, w)
          else Some (timediff, w))"

subsection \<open>The invariant of the clients that have not logged in\<close>

definition logging_in :: "curr_recv_msg \<Rightarrow> bool" where
  "logging_in rm \<longleftrightarrow> awaiting (set_offset 0 rm) \<and> unat (off_of rm) \<le> AUTH_REQ_SIZE"

definition visitor :: "worker \<Rightarrow> addr \<Rightarrow> bool" where
  "visitor w c \<longleftrightarrow> live w c \<and> c < next_addr w \<and> cl_state (cls w c) \<in> {ACCEPTING, ACCEPTED} \<and> logging_in (rcv w c) \<and>
     temp_send_storage (cls w c) = 0 \<and> length (username (cls w c)) = UNAMESIZE \<and> ref_cnt (nds w c) = 1 \<and>
     sock_events w c = Some (True, False)"

text \<open>The list of these clients is that of the clients whose handshake or login is under way, and the heap has
  exactly those of them that wait for a login.\<close>

definition conn_inv :: "worker \<Rightarrow> bool" where
  "conn_inv w \<longleftrightarrow> heap_ok (clth w) (cls w) \<and> distinct (preauth_list w) \<and> (\<forall>c \<in> set (preauth_list w). visitor w c) \<and>
     heap_members (clth w) = {c \<in> set (preauth_list w). cl_state (cls w c) = ACCEPTED}"

lemma conn_invD:
  assumes "conn_inv w"
  shows "heap_ok (clth w) (cls w)" and "distinct (preauth_list w)" and "c \<in> set (preauth_list w) \<Longrightarrow> visitor w c"
    and "c \<in> heap_members (clth w) \<longleftrightarrow> c \<in> set (preauth_list w) \<and> cl_state (cls w c) = ACCEPTED"
  using assms by (auto simp: conn_inv_def)

lemma list_remove1: "intrusive_list_remove xs c = remove1 c xs"
  by (induction xs) auto

lemma list_add_Cons: "intrusive_list_add xs c = c # xs"
  by (simp add: intrusive_list_add_def)

text \<open>What a step does to the watch on the clients: it ends for some, and begins only for the sockets of
  clients that are in the list.\<close>

definition listens :: "worker \<Rightarrow> worker \<Rightarrow> bool" where
  "listens w w' \<longleftrightarrow> (\<forall>x. queue_events w' x \<noteq> None \<longrightarrow> queue_events w' x = queue_events w x) \<and>
     (\<forall>x. sock_events w' x \<noteq> None \<longrightarrow>
        x \<in> set (preauth_list w') \<or> sock_events w' x = sock_events w x \<and> x \<notin> set (preauth_list w))"

lemma listens_refl: "listens w w"
  by (simp add: listens_def)

lemma listens_trans: "listens w w1 \<Longrightarrow> listens w1 w2 \<Longrightarrow> listens w w2"
  unfolding listens_def by metis

lemma listens_same:
  "preauth_list w' = preauth_list w \<Longrightarrow> sock_events w' = sock_events w \<Longrightarrow> queue_events w' = queue_events w \<Longrightarrow> listens w w'"
  by (auto simp: listens_def)

lemma visitor_pos: "visitor w c \<Longrightarrow> 0 < c"
  by (simp add: visitor_def live_def)

text \<open>A client without its place in the heap; a step on behalf of the clients \<open>A\<close> leaves the others alone up to
  that, and the parts of the state that clients share.\<close>

definition untimed :: "std_client \<Rightarrow> std_client" where
  "untimed s = s\<lparr>timerheap_index := 0, auth_deadline := Timespec 0 0\<rparr>"

definition at :: "worker \<Rightarrow> addr \<Rightarrow> _" where
  "at w c = (nds w c, sock_events w c, queue_events w c, inputs w c, outputs w c, sent w c, accepts w c)"

definition shared :: "worker \<Rightarrow> _" where
  "shared w = (std_cl_table w, dconn_clients w, msgs w, ip_whitelist_tbl w, wl_recs w, (cfg w, now w, thrd_id w, garbage w, efd_ok w))"

definition away :: "addr set \<Rightarrow> worker \<Rightarrow> worker \<Rightarrow> bool" where
  "away A w w' \<longleftrightarrow> shared w' = shared w \<and> next_addr w \<le> next_addr w' \<and>
     (\<forall>x. x \<notin> A \<longrightarrow> at w' x = at w x \<and> untimed (cls w' x) = untimed (cls w x))"

lemma away_refl: "away A w w"
  by (simp add: away_def)

lemma away_trans: "away A w w1 \<Longrightarrow> away A w1 w2 \<Longrightarrow> away A w w2"
  by (simp add: away_def)

lemma away_mono: "away A w w' \<Longrightarrow> A \<subseteq> B \<Longrightarrow> away B w w'"
  by (auto simp: away_def)

lemma untimed_fields:
  assumes "untimed s' = untimed s"
  shows "cl_state s' = cl_state s" "temp_recv_storage s' = temp_recv_storage s" "temp_send_storage s' = temp_send_storage s"
    "username s' = username s" "pending_ctrl_queue s' = pending_ctrl_queue s"
    "pending_userdata_queue s' = pending_userdata_queue s" "peer_name s' = peer_name s" "sock_fd s' = sock_fd s"
  using arg_cong [OF assms, of cl_state] arg_cong [OF assms, of temp_recv_storage] arg_cong [OF assms, of temp_send_storage]
    arg_cong [OF assms, of username] arg_cong [OF assms, of pending_ctrl_queue] arg_cong [OF assms, of pending_userdata_queue]
    arg_cong [OF assms, of peer_name] arg_cong [OF assms, of sock_fd]
  by (simp_all add: untimed_def)

lemma visitor_cong:
  assumes "visitor w c" and "untimed (cls w' c) = untimed (cls w c)" and "at w' c = at w c" and "next_addr w \<le> next_addr w'"
  shows "visitor w' c"
  using assms untimed_fields [OF assms(2)] by (simp add: visitor_def live_def at_def)

lemma reindexed_untimed: "reindexed A s s' \<Longrightarrow> untimed (s' c) = untimed (s c)"
proof -
  assume "reindexed A s s'"
  then obtain i where "s' c = (s c)\<lparr>timerheap_index := i\<rparr>" unfolding reindexed_def by blast
  then show ?thesis by (simp add: untimed_def)
qed

subsection \<open>Entering and leaving\<close>

text \<open>The invariant while the clients of \<open>D\<close> have been taken from the heap, but not yet from the list.\<close>

definition conn_but :: "addr set \<Rightarrow> worker \<Rightarrow> bool" where
  "conn_but D w \<longleftrightarrow> heap_ok (clth w) (cls w) \<and> distinct (preauth_list w) \<and> (\<forall>c \<in> set (preauth_list w). visitor w c) \<and>
     heap_members (clth w) = {c \<in> set (preauth_list w). cl_state (cls w c) = ACCEPTED} - D \<and>
     (\<forall>c \<in> D. timerheap_index (cls w c) = INVAL_TH_IND)"

lemma conn_inv_but: "conn_inv w = conn_but {} w"
  by (simp add: conn_inv_def conn_but_def)

text \<open>A client leaves the list and the heap.\<close>

lemma conn_inv_leave:
  assumes "conn_but D w" and "D \<subseteq> {c}" and "preauth_list w' = remove1 c (preauth_list w)" and "heap_ok (clth w') (cls w')"
    and "heap_members (clth w') = heap_members (clth w) - {c}" and "next_addr w \<le> next_addr w'"
    and "\<And>x. x \<noteq> c \<Longrightarrow> at w' x = at w x \<and> untimed (cls w' x) = untimed (cls w x)"
  shows "conn_inv w'"
proof -
  have d: "distinct (preauth_list w)" using assms(1) by (simp add: conn_but_def)
  have st: "cl_state (cls w' x) = cl_state (cls w x)" if "x \<noteq> c" for x
    by (rule untimed_fields(1)) (use assms(7) that in simp)
  have "visitor w' x" if "x \<in> set (preauth_list w')" for x
  proof -
    have x: "x \<in> set (preauth_list w)" "x \<noteq> c" using that d by (simp_all add: assms(3))
    then show ?thesis using visitor_cong [of w x w'] assms(1,6,7) by (simp add: conn_but_def)
  qed
  moreover have "heap_members (clth w') = {x \<in> set (preauth_list w'). cl_state (cls w' x) = ACCEPTED}"
    using assms(1,2,5) st d by (auto simp: conn_but_def assms(3))
  ultimately show ?thesis using d assms(4) by (simp add: conn_inv_def assms(3) distinct_remove1)
qed

text \<open>The clean-up of a client that has not logged in: it leaves the list and the heap and is freed.\<close>

lemma cleanup_visitor:
  assumes "conn_but D w" and "D \<subseteq> {c}" and "c \<in> set (preauth_list w)"
  shows "\<exists>w'. cleanup_std_client c w = Some w' \<and> conn_inv w' \<and> away {c} w w' \<and>
    preauth_list w' = remove1 c (preauth_list w) \<and> freed (nds w' c) \<and> sock_events w' c = None \<and> listens w w' \<and>
    next_addr w' = next_addr w \<and> std_ipblock_tbl w' = std_ipblock_tbl w \<and> ipb_recs w' = ipb_recs w \<and> sent w' = sent w \<and>
    (\<forall>x. auth_deadline (cls w' x) = auth_deadline (cls w x))"
proof -
  have v: "visitor w c" and hp: "heap_ok (clth w) (cls w)"
    using assms(1,3) by (simp_all add: conn_but_def)
  have c0: "c \<noteq> 0" "live w c" "cl_state (cls w c) = ACCEPTING \<or> cl_state (cls w c) = ACCEPTED"
    using v visitor_pos [OF v] by (auto simp: visitor_def)
  obtain h s where r: "cl_state (cls w c) = ACCEPTED \<and> cl_timerheap_remove (clth w) (cls w) c = Some (h, s) \<or> cl_state (cls w c) = ACCEPTING \<and> h = clth w \<and> s = cls w"
    "heap_ok h s" "heap_members h = heap_members (clth w) - {c}" "\<And>x. untimed (s x) = untimed (cls w x)"
    "\<And>x. auth_deadline (s x) = auth_deadline (cls w x)"
  proof (cases "c \<in> heap_members (clth w)")
    case True
    from remove_lemma [OF hp True] obtain h s where
      "cl_timerheap_remove (clth w) (cls w) c = Some (h, s)" "removed c (clth w) (cls w) h s" by blast
    moreover have "cl_state (cls w c) = ACCEPTED" using True assms(1) by (simp add: conn_but_def)
    ultimately show thesis using that [of h s] by (auto simp: removed_def intro: reindexed_untimed reindexed_fields)
  next
    case False
    show thesis
    proof (cases "cl_state (cls w c) = ACCEPTING")
      case True
      then show thesis using that [of "clth w" "cls w"] hp False by simp
    next
      case F: False
      then have "c \<in> D" using False c0 assms(1,3) by (auto simp: conn_but_def)
      then have "timerheap_index (cls w c) = INVAL_TH_IND" using assms(1) by (simp add: conn_but_def)
      then show thesis using that [of "clth w" "cls w"] hp False heap_remove_outside [OF hp c0(1)] F c0(3) by simp
    qed
  qed
  define w1 where "w1 = w\<lparr>clth := h, cls := s\<rparr>"
  define w' where "w' = cleanup_ACCEPTING c w1"
  have eq: "cleanup_std_client c w = Some w'"
    using r(1) c0 by (auto simp: cleanup_std_client_def cleanup_ACCEPTED_def w'_def w1_def)
  have w': "preauth_list w' = remove1 c (preauth_list w)" "clth w' = h" "nds w' = (nds w)(c := (nds w c)\<lparr>freed := True\<rparr>)"
    "sock_events w' = (sock_events w)(c := None)" "cls w' = s(c := (s c)\<lparr>sock_fd := - 1\<rparr>)" "next_addr w' = next_addr w"
    "std_ipblock_tbl w' = std_ipblock_tbl w" "ipb_recs w' = ipb_recs w" "shared w' = shared w" "sent w' = sent w"
    by (simp_all add: w'_def w1_def cleanup_ACCEPTING_def cleanup_INIT_def forget_socket_def upd_cl_def list_remove1 Let_def shared_def)
  have aw: "away {c} w w'"
    using r(4) w' by (simp add: away_def at_def) (simp add: w'_def w1_def cleanup_ACCEPTING_def cleanup_INIT_def forget_socket_def upd_cl_def Let_def)
  have "heap_ok (clth w') (cls w')" unfolding w'(2) by (rule heap_ok_cong [OF r(2)]) (use r(3) in \<open>auto simp: w'(5)\<close>)
  then have "conn_inv w'" using aw by (intro conn_inv_leave [OF assms(1,2) w'(1)]) (simp_all add: w'(2) r(3) away_def)
  moreover have "queue_events w' = queue_events w"
    by (simp add: w'_def w1_def cleanup_ACCEPTING_def cleanup_INIT_def forget_socket_def upd_cl_def Let_def)
  then have "listens w w'" by (auto simp: listens_def w' split: if_splits)
  ultimately show ?thesis using eq aw w' r(5) by (intro exI [of _ w']) simp
qed

text \<open>A client that has finished the handshake gets its deadline.\<close>

lemma set_deadline_ok:
  assumes "heap_ok (clth w) (cls w)" and "c \<noteq> 0" and "c \<notin> heap_members (clth w)" and "num_clients (clth w) < 2 ^ 31"
  shows "\<exists>h s. set_deadline c w = Some (w\<lparr>clth := h, cls := s\<rparr>) \<and> heap_ok h s \<and>
    heap_members h = insert c (heap_members (clth w)) \<and> (\<forall>x. untimed (s x) = untimed (cls w x)) \<and>
    auth_deadline (s c) = Timespec (tv_sec (now w) + CLTH_AUTH_MAXPERM_TIME) (tv_nsec (now w))"
proof -
  obtain h s where a: "cl_timerheap_add (clth w) (cls w) c (now w) CLTH_AUTH_MAXPERM_TIME = Some (True, h, s)" "heap_ok h s"
    "heap_members h = insert c (heap_members (clth w))"
    "reindexed (insert c (heap_members (clth w)))
      ((cls w)(c := (cls w c)\<lparr>auth_deadline := Timespec (tv_sec (now w) + CLTH_AUTH_MAXPERM_TIME) (tv_nsec (now w))\<rparr>)) s"
    using add_client [OF assms, of "now w" CLTH_AUTH_MAXPERM_TIME] by blast
  have "untimed (s x) = untimed (cls w x)" for x
    using reindexed_untimed [OF a(4), of x] by (simp add: untimed_def split: if_splits)
  then show ?thesis using a reindexed_fields(1) [OF a(4), of c] by (auto simp: set_deadline_def)
qed

subsection \<open>The address tables\<close>

definition ip_inv :: "worker \<Rightarrow> bool" where
  "ip_inv w \<longleftrightarrow> ip_table (ipb_recs w) (std_ipblock_tbl w) \<and> ip_table (wl_recs w) (ip_whitelist_tbl w) \<and>
     (\<forall>n \<in> ht_nodes (std_ipblock_tbl w). n < next_addr w)"

definition peer_status :: "u32 \<Rightarrow> worker \<Rightarrow> record_status" where
  "peer_status peer w = block_status (chk_std_block (now w)) (peer_record (ipb_recs w) (std_ipblock_tbl w)) peer"

definition admitted :: "u32 \<Rightarrow> worker \<Rightarrow> bool" where
  "admitted peer w \<longleftrightarrow>
     (Servcfg.use_ip_whitelist (cfg w) = 0 \<or> ip_find (wl_recs w) (ip_whitelist_tbl w) peer \<noteq> None) \<and>
     peer_status peer w \<noteq> RS_BLOCKED"

text \<open>Looking a peer up changes nothing, but that an expired record is removed and freed.\<close>

definition forget_expired :: "u32 \<Rightarrow> worker \<Rightarrow> worker \<Rightarrow> bool" where
  "forget_expired peer w w' \<longleftrightarrow> ip_inv w' \<and>
     (\<exists>ht recs. w' = w\<lparr>std_ipblock_tbl := ht, ipb_recs := recs\<rparr> \<and>
       ip_find recs ht = (if peer_status peer w = RS_EXPIRED then (ip_find (ipb_recs w) (std_ipblock_tbl w))(peer := None)
                          else ip_find (ipb_recs w) (std_ipblock_tbl w)) \<and>
       (\<forall>n \<in> ht_nodes ht. recs n = ipb_recs w n))"

lemma check_record_ok:
  assumes "ip_inv w"
  shows "\<exists>w'. check_record peer w = Some (peer_status peer w \<noteq> RS_BLOCKED, w') \<and> forget_expired peer w w'"
proof -
  have t: "ip_table (ipb_recs w) (std_ipblock_tbl w)" using assms by (simp add: ip_inv_def)
  obtain recs ht where r: "check_block (chk_std_block (now w)) peer (ipb_recs w) (std_ipblock_tbl w) =
      Some (peer_status peer w \<noteq> RS_BLOCKED, recs, ht)" "ip_table recs ht" "ht_nodes ht \<subseteq> ht_nodes (std_ipblock_tbl w)"
    "ip_find recs ht = (if peer_status peer w = RS_EXPIRED then (ip_find (ipb_recs w) (std_ipblock_tbl w))(peer := None)
       else ip_find (ipb_recs w) (std_ipblock_tbl w))" "\<forall>n \<in> ht_nodes ht. recs n = ipb_recs w n"
    using std_book.check_block_ok [OF t, of "now w" peer] unfolding peer_status_def by blast
  define w' where "w' = w\<lparr>std_ipblock_tbl := ht, ipb_recs := recs\<rparr>"
  have "ip_inv w'" using assms r(2,3) by (auto simp: ip_inv_def w'_def)
  then have "forget_expired peer w w'" unfolding forget_expired_def using r(4,5)
    by (intro conjI exI [of _ ht] exI [of _ recs]) (simp_all add: w'_def)
  then show ?thesis using r(1) by (simp add: check_record_def w'_def)
qed

text \<open>Of the blocking records, an expired one of a peer that is let in goes, and the others stay as they are.\<close>

definition records_kept :: "u32 \<Rightarrow> worker \<Rightarrow> worker \<Rightarrow> bool" where
  "records_kept peer w w' \<longleftrightarrow>
     ip_find (ipb_recs w') (std_ipblock_tbl w') =
       (if admitted peer w \<and> peer_status peer w = RS_EXPIRED then (ip_find (ipb_recs w) (std_ipblock_tbl w))(peer := None)
        else ip_find (ipb_recs w) (std_ipblock_tbl w)) \<and>
     (\<forall>n \<in> ht_nodes (std_ipblock_tbl w'). ipb_recs w' n = ipb_recs w n)"

lemma check_peer_ok:
  assumes "ip_inv w"
  shows "\<exists>w'. check_peer peer w = Some (admitted peer w, w') \<and> (w' = w \<and> \<not> admitted peer w \<or> forget_expired peer w w') \<and>
    records_kept peer w w'"
proof -
  have t: "ip_table (wl_recs w) (ip_whitelist_tbl w)" using assms by (simp add: ip_inv_def)
  define wl where "wl \<longleftrightarrow> Servcfg.use_ip_whitelist (cfg w) = 0 \<or> ip_find (wl_recs w) (ip_whitelist_tbl w) peer \<noteq> None"
  have wl: "on_whitelist peer w = Some wl" "admitted peer w \<longleftrightarrow> wl \<and> peer_status peer w \<noteq> RS_BLOCKED"
    using ip_get [OF t, of peer False] by (auto simp: on_whitelist_def admitted_def wl_def)
  show ?thesis
  proof (cases wl)
    case True
    obtain w' where w': "check_record peer w = Some (peer_status peer w \<noteq> RS_BLOCKED, w')" "forget_expired peer w w'"
      using check_record_ok [OF assms] by blast
    then have "records_kept peer w w'" using wl(2) True by (auto simp: records_kept_def forget_expired_def)
    then show ?thesis using w' wl True by (simp add: check_peer_def)
  next
    case False
    then show ?thesis using wl by (simp add: check_peer_def records_kept_def)
  qed
qed

lemma forget_expired_away:
  assumes "forget_expired peer w w'"
  shows "away A w w'" and "conn_inv w \<Longrightarrow> conn_inv w'" and "preauth_list w' = preauth_list w" and "clth w' = clth w"
    and "cls w' = cls w" and "next_addr w' = next_addr w" and "now w' = now w" and "ip_inv w'" and "accepts w' = accepts w" and "listens w w'"
proof -
  obtain ht recs where w': "w' = w\<lparr>std_ipblock_tbl := ht, ipb_recs := recs\<rparr>" and i: "ip_inv w'"
    using assms by (auto simp: forget_expired_def)
  show "away A w w'" "preauth_list w' = preauth_list w" "clth w' = clth w" "cls w' = cls w" "next_addr w' = next_addr w"
    "now w' = now w" "ip_inv w'" "accepts w' = accepts w"
    using i by (simp_all add: w' away_def shared_def at_def)
  show "conn_inv w'" if "conn_inv w" using that by (auto simp: conn_inv_def w' visitor_def live_def)
  show "listens w w'" by (rule listens_same) (simp_all add: w')
qed

lemma ip_inv_away: "ip_inv w \<Longrightarrow> away A w w' \<Longrightarrow> std_ipblock_tbl w' = std_ipblock_tbl w \<Longrightarrow> ipb_recs w' = ipb_recs w \<Longrightarrow> ip_inv w'"
  by (auto simp: ip_inv_def away_def shared_def)

subsection \<open>The handlers keep the invariant\<close>

lemma num_clients_bound: "conn_inv w \<Longrightarrow> num_clients (clth w) \<le> length (preauth_list w)"
  using heap_members_bound [of "clth w" "cls w" "preauth_list w"] conn_invD(1,4) by blast

text \<open>A client that is complete but for its entry in the list.\<close>

definition guest :: "worker \<Rightarrow> addr \<Rightarrow> bool" where
  "guest w c \<longleftrightarrow> live w c \<and> c < next_addr w \<and> logging_in (rcv w c) \<and> temp_send_storage (cls w c) = 0 \<and>
     length (username (cls w c)) = UNAMESIZE \<and> ref_cnt (nds w c) = 1"

lemma new_client_ok:
  assumes "new_client conn w = (c, w1)" and "0 < next_addr w"
  shows "c = next_addr w" and "guest w1 c" and "away {c} w w1" and "cl_state (cls w1 c) = INIT"
    and "accepts w1 c = in_accepts conn" and "next_addr w1 = next_addr w + 1" and "clth w1 = clth w" and "preauth_list w1 = preauth_list w"
    and "std_ipblock_tbl w1 = std_ipblock_tbl w" and "ipb_recs w1 = ipb_recs w" and "\<And>x. x \<noteq> c \<Longrightarrow> cls w1 x = cls w x" and "listens w w1"
proof -
  have "logging_in (temp_recv_storage (fst (create_std_client p sk t (map g [0..<4096]))))" for p sk t g
    by (simp add: create_std_client_def logging_in_def awaiting_def recv_ok_def buf_ok_def dest_ok_def off_of_def size_of_def
        set_offset_def MT_NONE_def)
  then show "c = next_addr w" and "guest w1 c" and "away {c} w w1" and "cl_state (cls w1 c) = INIT"
    and "accepts w1 c = in_accepts conn" and "next_addr w1 = next_addr w + 1" and "clth w1 = clth w" and "preauth_list w1 = preauth_list w"
    and "std_ipblock_tbl w1 = std_ipblock_tbl w" and "ipb_recs w1 = ipb_recs w" and "\<And>x. x \<noteq> c \<Longrightarrow> cls w1 x = cls w x"
    using assms
    by (auto simp: new_client_def Let_def guest_def away_def shared_def at_def live_def create_std_client_def)
  show "listens w w1" using assms(1) by (auto simp: new_client_def Let_def listens_def split: if_splits prod.splits)
qed

lemma do_accept_away:
  assumes "do_accept c w = (r, w1)"
  shows "away {c} w w1" and "cls w1 = cls w" and "clth w1 = clth w" and "preauth_list w1 = preauth_list w" and "next_addr w1 = next_addr w"
    and "std_ipblock_tbl w1 = std_ipblock_tbl w" and "ipb_recs w1 = ipb_recs w" and "nds w1 = nds w" and "sock_events w1 = sock_events w"
    and "now w1 = now w" and "r = (case accepts w c of [] \<Rightarrow> ACCPT_IN_PROGRESS | r # _ \<Rightarrow> r)" and "listens w w1"
  using assms by (auto simp: do_accept_def away_def shared_def at_def listens_same split: list.splits)

text \<open>Entering the list, with the state and the place in the heap that go with it.\<close>

lemma enter_ok:
  assumes "conn_inv w" and "away {c} w w'" and "preauth_list w' = preauth_list w" and "c \<notin> set (preauth_list w)"
    and "guest w' c" and "cl_state (cls w' c) = ACCEPTING \<or> cl_state (cls w' c) = ACCEPTED"
    and "heap_ok (clth w') (cls w')"
    and "heap_members (clth w') = heap_members (clth w) \<union> (if cl_state (cls w' c) = ACCEPTED then {c} else {})"
  shows "conn_inv (enter c w')" and "away {c} w (enter c w')"
proof -
  have st: "cl_state (cls w' x) = cl_state (cls w x)" if "x \<noteq> c" for x
    by (rule untimed_fields(1)) (use assms(2) that in \<open>simp add: away_def\<close>)
  show aw: "away {c} w (enter c w')" using assms(2) by (simp add: enter_def away_def shared_def at_def)
  have "visitor (enter c w') x" if "x \<in> set (c # preauth_list w)" for x
  proof (cases "x = c")
    case True
    then show ?thesis using assms(5,6) by (simp add: visitor_def guest_def enter_def live_def)
  next
    case False
    then have "visitor w x" using that conn_invD(3) [OF assms(1)] by simp
    then show ?thesis by (rule visitor_cong) (use aw False in \<open>simp_all add: away_def\<close>)
  qed
  moreover have "heap_members (clth w') = {x \<in> set (c # preauth_list w). cl_state (cls w' x) = ACCEPTED}"
  proof (rule set_eqI)
    fix x
    show "x \<in> heap_members (clth w') \<longleftrightarrow> x \<in> {x \<in> set (c # preauth_list w). cl_state (cls w' x) = ACCEPTED}"
      using assms(4,8) st [of x] conn_invD(4) [OF assms(1), of x] by (cases "x = c") auto
  qed
  ultimately show "conn_inv (enter c w')"
    using assms(3,4,7) conn_invD(2) [OF assms(1)] by (simp add: conn_inv_def enter_def list_add_Cons)
qed

lemma listens_enter: "listens w w' \<Longrightarrow> listens w (enter c w')"
  by (auto simp: listens_def enter_def list_add_Cons)



lemma guest_cong:
  assumes "guest w c" and "untimed (cls w' c) = (untimed (cls w c))\<lparr>cl_state := st\<rparr>" and "nds w' c = nds w c" and "next_addr w' = next_addr w"
  shows "guest w' c" and "cl_state (cls w' c) = st"
proof -
  have f: "temp_recv_storage (cls w' c) = temp_recv_storage (cls w c)" "temp_send_storage (cls w' c) = temp_send_storage (cls w c)"
    "username (cls w' c) = username (cls w c)" "cl_state (cls w' c) = st"
    using arg_cong [OF assms(2), of temp_recv_storage] arg_cong [OF assms(2), of temp_send_storage]
      arg_cong [OF assms(2), of username] arg_cong [OF assms(2), of cl_state]
    by (simp_all add: untimed_def)
  then show "guest w' c" "cl_state (cls w' c) = st" using assms by (simp_all add: guest_def live_def)
qed

text \<open>What a connection comes to: the peer is refused, or a new client waits for its handshake or, with a deadline,
  for its login.\<close>

definition connected_as :: "incoming \<Rightarrow> worker \<Rightarrow> worker \<Rightarrow> bool" where
  "connected_as conn w w' \<longleftrightarrow>
     (if \<not> admitted (in_peer conn) w \<or> first_answer (in_accepts conn) = ACCPT_ERROR then preauth_list w' = preauth_list w
      else preauth_list w' = next_addr w # preauth_list w \<and>
        (if first_answer (in_accepts conn) = ACCPT_DONE
         then cl_state (cls w' (next_addr w)) = ACCEPTED \<and>
           auth_deadline (cls w' (next_addr w)) = Timespec (tv_sec (now w) + CLTH_AUTH_MAXPERM_TIME) (tv_nsec (now w))
         else cl_state (cls w' (next_addr w)) = ACCEPTING))"

lemma handle_connection_ok:
  assumes "conn_inv w" and "ip_inv w" and "0 < next_addr w" and "length (preauth_list w) < 2 ^ 31"
  shows "\<exists>w'. handle_connection conn w = Some w' \<and> conn_inv w' \<and> ip_inv w' \<and> away {next_addr w} w w' \<and> connected_as conn w w' \<and>
    records_kept (in_peer conn) w w' \<and> listens w w'"
proof -
  obtain w1 where w1: "check_peer (in_peer conn) w = Some (admitted (in_peer conn) w, w1)"
    "w1 = w \<and> \<not> admitted (in_peer conn) w \<or> forget_expired (in_peer conn) w w1" "records_kept (in_peer conn) w w1"
    using check_peer_ok [OF assms(2)] by blast
  have f: "away {next_addr w} w w1" "conn_inv w1" "preauth_list w1 = preauth_list w" "clth w1 = clth w" "cls w1 = cls w"
    "next_addr w1 = next_addr w" "now w1 = now w" "ip_inv w1" "listens w w1"
    using w1(2) forget_expired_away [of "in_peer conn" w w1] assms(1,2) away_refl listens_refl by blast+
  show ?thesis
  proof (cases "admitted (in_peer conn) w")
    case False
    then show ?thesis using w1(1,3) f by (simp add: handle_connection_def connected_as_def)
  next
    case True
    define c where "c = next_addr w"
    obtain c' w2 where nc: "new_client conn w1 = (c', w2)" by fastforce
    have "0 < next_addr w1" using assms(3) f(6) by simp
    note n = new_client_ok [OF nc this]
    have c': "c' = c" using n(1) f(6) by (simp add: c_def)
    obtain r w3 where ac: "do_accept c w2 = (r, w3)" by fastforce
    note a = do_accept_away [OF ac]
    have fr: "r = first_answer (in_accepts conn)" using a(11) n(5) by (simp add: first_answer_def c')
    have notin: "c \<notin> set (preauth_list w1)" "c \<notin> heap_members (clth w1)"
      using conn_invD(3,4) [OF f(2), of c] n(1) c' by (auto simp: visitor_def)
    have aw3: "away {c} w1 w3" using away_trans [OF n(3) [unfolded c'] a(1)] .
    have eq: "handle_connection conn w = (case r of
         ACCPT_DONE \<Rightarrow> map_option (enter c) (set_deadline c (set_state c ACCEPTED w3))
       | ACCPT_ERROR \<Rightarrow> cleanup_std_client c w3
       | ACCPT_IN_PROGRESS \<Rightarrow> Some (enter c (set_state c ACCEPTING w3)))"
      using w1(1) True nc ac by (simp add: handle_connection_def c' split: accpt.splits)
    have same: "clth w3 = clth w1" "preauth_list w3 = preauth_list w1" "std_ipblock_tbl w3 = std_ipblock_tbl w1" "ipb_recs w3 = ipb_recs w1"
      "\<And>x. x \<noteq> c \<Longrightarrow> cls w3 x = cls w1 x" "next_addr w3 = next_addr w2" "nds w3 = nds w2" "cls w3 = cls w2" "now w3 = now w1"
      using n a aw3 by (simp_all add: c' away_def shared_def)
    have l3: "listens w1 w3" by (rule listens_trans [OF n(12) a(12)])
    have c0: "c \<noteq> 0" using assms(3) by (simp add: c_def)
    have g3: "guest w3 c" using n(2) c' same by (simp add: guest_def live_def)
    have fin: "\<exists>w'. handle_connection conn w = Some w' \<and> conn_inv w' \<and> ip_inv w' \<and> away {next_addr w} w w' \<and> connected_as conn w w' \<and>
        records_kept (in_peer conn) w w' \<and> listens w w'"
      if "handle_connection conn w = Some w'" "conn_inv w'" "away {c} w1 w'" "std_ipblock_tbl w' = std_ipblock_tbl w1"
        "ipb_recs w' = ipb_recs w1" "connected_as conn w w'" "listens w1 w'" for w'
      using listens_trans [OF f(9) that(7)] that(1-6) away_trans [OF f(1) that(3) [unfolded c_def]] ip_inv_away [OF f(8) that(3,4,5)] w1(3) that(4,5)
      by (intro exI [of _ w']) (simp add: records_kept_def)
    have h3: "heap_ok (clth w3) (cls w3)"
      by (rule heap_ok_other [OF conn_invD(1) [OF f(2)], of c, folded same(1)]) (use notin same in simp_all)
    show ?thesis
    proof (cases r)
      case ACCPT_ERROR
      define w' where "w' = cleanup_INIT c w3"
      have "cl_state (cls w3 c) = INIT" "live w3 c" using n(4) g3 c' same(8) by (simp_all add: guest_def)
      then have e: "handle_connection conn w = Some w'" using eq ACCPT_ERROR by (simp add: cleanup_std_client_def w'_def)
      have aw: "away {c} w1 w'"
        by (rule away_trans [OF aw3]) (simp add: w'_def cleanup_INIT_def Let_def upd_cl_def away_def shared_def at_def)
      have s: "preauth_list w' = preauth_list w1" "clth w' = clth w1" "\<And>x. x \<noteq> c \<Longrightarrow> cls w' x = cls w1 x"
        "std_ipblock_tbl w' = std_ipblock_tbl w1" "ipb_recs w' = ipb_recs w1"
        using same by (simp_all add: w'_def cleanup_INIT_def Let_def upd_cl_def)
      have "visitor w' x" if "x \<in> set (preauth_list w1)" for x
        by (rule visitor_cong [OF conn_invD(3) [OF f(2) that]]) (use aw that notin(1) in \<open>auto simp: away_def\<close>)
      moreover have "heap_ok (clth w') (cls w')"
        by (rule heap_ok_other [OF conn_invD(1) [OF f(2)], of c, folded s(2)]) (use notin s in simp_all)
      moreover have "heap_members (clth w') = {x \<in> set (preauth_list w'). cl_state (cls w' x) = ACCEPTED}"
      proof -
        have "cls w' x = cls w1 x" if "x \<in> set (preauth_list w1)" for x using that notin(1) s(3) by metis
        then show ?thesis using f(2) s(1,2) by (auto simp: conn_inv_def)
      qed
      ultimately have "conn_inv w'" using conn_invD(2) [OF f(2)] by (simp add: conn_inv_def s)
      moreover have "listens w1 w'"
        by (rule listens_trans [OF l3 listens_same]) (simp_all add: w'_def cleanup_INIT_def Let_def upd_cl_def)
      ultimately show ?thesis using ACCPT_ERROR by (intro fin [OF e _ aw s(4,5)]) (simp_all add: connected_as_def s(1) f(3) flip: fr)
    next
      case ACCPT_IN_PROGRESS
      define w4 where "w4 = set_state c ACCEPTING w3"
      have s4: "clth w4 = clth w1" "preauth_list w4 = preauth_list w1" "std_ipblock_tbl w4 = std_ipblock_tbl w1" "ipb_recs w4 = ipb_recs w1"
        "cl_state (cls w4 c) = ACCEPTING"
        using same by (simp_all add: w4_def set_state_def upd_cl_def)
      have aw4: "away {c} w1 w4"
        by (rule away_trans [OF aw3]) (simp add: w4_def set_state_def upd_cl_def away_def shared_def at_def)
      have "guest w4 c" using g3 by (simp add: w4_def set_state_def upd_cl_def guest_def live_def)
      moreover have "heap_ok (clth w4) (cls w4)"
        by (rule heap_ok_cong [of _ "cls w3"]) (use h3 same s4 notin in \<open>auto simp: w4_def set_state_def upd_cl_def\<close>)
      ultimately have "conn_inv (enter c w4)" "away {c} w1 (enter c w4)"
        using enter_ok [OF f(2) aw4 s4(2) notin(1)] s4 by simp_all
      moreover have "listens w1 (enter c w4)"
        by (rule listens_enter, rule listens_trans [OF l3 listens_same]) (simp_all add: w4_def set_state_def upd_cl_def)
      ultimately show ?thesis
        using eq ACCPT_IN_PROGRESS s4 f(3)
        by (intro fin [of "enter c w4"]) (auto simp: connected_as_def enter_def list_add_Cons True c_def [symmetric] w4_def [symmetric] fr [symmetric])
    next
      case ACCPT_DONE
      define w4 where "w4 = set_state c ACCEPTED w3"
      have s4: "clth w4 = clth w1" "now w4 = now w" using same f(7) by (simp_all add: w4_def set_state_def upd_cl_def)
      have "heap_ok (clth w4) (cls w4)"
        by (rule heap_ok_cong [of _ "cls w3"]) (use h3 same s4 notin in \<open>auto simp: w4_def set_state_def upd_cl_def\<close>)
      moreover have "num_clients (clth w4) < 2 ^ 31" using num_clients_bound [OF f(2)] assms(4) s4(1) f(3) by simp
      ultimately obtain h s where h: "set_deadline c w4 = Some (w4\<lparr>clth := h, cls := s\<rparr>)" "heap_ok h s"
        "heap_members h = insert c (heap_members (clth w1))" "\<And>x. untimed (s x) = untimed (cls w4 x)"
        "auth_deadline (s c) = Timespec (tv_sec (now w) + CLTH_AUTH_MAXPERM_TIME) (tv_nsec (now w))"
        using set_deadline_ok [of w4 c] c0 notin(2) s4 by auto
      define w5 where "w5 = w4\<lparr>clth := h, cls := s\<rparr>"
      have s5: "preauth_list w5 = preauth_list w1" "std_ipblock_tbl w5 = std_ipblock_tbl w1" "ipb_recs w5 = ipb_recs w1"
        using same by (simp_all add: w5_def w4_def set_state_def upd_cl_def)
      have aw5: "away {c} w1 w5"
        by (rule away_trans [OF aw3]) (simp add: w5_def w4_def h(4) set_state_def upd_cl_def away_def shared_def at_def)
      have "untimed (cls w5 c) = (untimed (cls w3 c))\<lparr>cl_state := ACCEPTED\<rparr>"
        by (simp add: w5_def h(4)) (simp add: w4_def set_state_def upd_cl_def untimed_def)
      from guest_cong [OF g3 this] have g5: "guest w5 c" "cl_state (cls w5 c) = ACCEPTED"
        by (simp_all add: w5_def w4_def set_state_def upd_cl_def)
      have "conn_inv (enter c w5)" "away {c} w1 (enter c w5)"
        using enter_ok [OF f(2) aw5 s5(1) notin(1) g5(1)] g5(2) h(2,3) by (simp_all add: w5_def)
      moreover have "listens w1 (enter c w5)"
        by (rule listens_enter, rule listens_trans [OF l3 listens_same]) (simp_all add: w5_def w4_def set_state_def upd_cl_def)
      ultimately show ?thesis
        using eq ACCPT_DONE s5 f(3) h(1,5) g5(2)
        by (intro fin [of "enter c w5"]) (auto simp: connected_as_def enter_def list_add_Cons True c_def [symmetric] w4_def [symmetric] w5_def fr [symmetric])
    qed
  qed
qed

lemma away_next: "away A w w' \<Longrightarrow> next_addr w \<le> next_addr w'"
  by (simp add: away_def)

lemma connections_ok:
  assumes "conn_inv w" and "ip_inv w" and "0 < next_addr w" and "length (preauth_list w) + length conns \<le> 2 ^ 31"
  shows "\<exists>w'. wt_handle_new_connections conns w = Some w' \<and> conn_inv w' \<and> ip_inv w' \<and> away {next_addr w..} w w' \<and>
    length (preauth_list w') \<le> length (preauth_list w) + length conns \<and> listens w w' \<and>
    set (preauth_list w) \<subseteq> set (preauth_list w')"
  using assms
proof (induction conns arbitrary: w)
  case Nil
  then show ?case using away_refl listens_refl by auto
next
  case (Cons conn conns)
  have "length (preauth_list w) < 2 ^ 31" using Cons.prems(4) by simp
  from handle_connection_ok [OF Cons.prems(1-3) this] obtain w1 where
    w1: "handle_connection conn w = Some w1" "conn_inv w1" "ip_inv w1" "away {next_addr w} w w1" "connected_as conn w w1" "listens w w1" by auto
  have l: "length (preauth_list w1) \<le> Suc (length (preauth_list w))" using w1(5) by (auto simp: connected_as_def split: if_splits)
  then have "length (preauth_list w1) + length conns \<le> 2 ^ 31" using Cons.prems(4) by simp
  moreover have "0 < next_addr w1" using away_next [OF w1(4)] Cons.prems(3) by simp
  ultimately obtain w2 where w2: "wt_handle_new_connections conns w1 = Some w2" "conn_inv w2" "ip_inv w2"
    "away {next_addr w1..} w1 w2" "length (preauth_list w2) \<le> length (preauth_list w1) + length conns" "listens w1 w2"
    "set (preauth_list w1) \<subseteq> set (preauth_list w2)"
    using Cons.IH [OF w1(2,3)] by blast
  have "away {next_addr w..} w w2"
    by (rule away_trans [OF away_mono [OF w1(4)] away_mono [OF w2(4)]]) (use away_next [OF w1(4)] in auto)
  moreover have "set (preauth_list w) \<subseteq> set (preauth_list w1)" using w1(5) by (auto simp: connected_as_def split: if_splits)
  ultimately show ?case using w1(1) w2 l listens_trans [OF w1(6) w2(6)] by auto
qed

text \<open>An answer of the handshake of a client in the list.\<close>

lemma accepting_ok:
  assumes "conn_inv w" and "c \<in> set (preauth_list w)" and "cl_state (cls w c) = ACCEPTING" and "length (preauth_list w) < 2 ^ 31"
  shows "\<exists>w'. wt_handle_accepting c w = Some w' \<and> conn_inv w' \<and> away {c} w w' \<and>
    std_ipblock_tbl w' = std_ipblock_tbl w \<and> ipb_recs w' = ipb_recs w \<and> next_addr w' = next_addr w \<and> listens w w' \<and>
    (case first_answer (accepts w c) of
       ACCPT_ERROR \<Rightarrow> preauth_list w' = remove1 c (preauth_list w) \<and> freed (nds w' c)
     | ACCPT_DONE \<Rightarrow> preauth_list w' = preauth_list w \<and> cl_state (cls w' c) = ACCEPTED \<and>
         auth_deadline (cls w' c) = Timespec (tv_sec (now w) + CLTH_AUTH_MAXPERM_TIME) (tv_nsec (now w))
     | ACCPT_IN_PROGRESS \<Rightarrow> preauth_list w' = preauth_list w \<and> cl_state (cls w' c) = ACCEPTING)"
proof -
  obtain r w1 where ac: "do_accept c w = (r, w1)" by fastforce
  note a = do_accept_away [OF ac]
  have v: "visitor w c" by (rule conn_invD(3) [OF assms(1,2)])
  have lv: "live w c" and c0: "c \<noteq> 0" using v visitor_pos [OF v] by (simp_all add: visitor_def)
  have v1: "visitor w1 x" if "visitor w x" for x using that by (simp add: visitor_def live_def a)
  have ci: "conn_inv w1" using assms(1) v1 by (simp add: conn_inv_def a)
  have fr: "first_answer (accepts w c) = r" using a(11) by (simp add: first_answer_def)
  show ?thesis
  proof (cases r)
    case ACCPT_ERROR
    have "conn_but {} w1" "c \<in> set (preauth_list w1)" using ci assms(2) a(4) by (simp_all add: conn_inv_but)
    from cleanup_visitor [OF this(1) _ this(2)] obtain w2 where
      w2: "cleanup_std_client c w1 = Some w2" "conn_inv w2" "away {c} w1 w2" "preauth_list w2 = remove1 c (preauth_list w1)"
      "freed (nds w2 c)" "next_addr w2 = next_addr w1" "std_ipblock_tbl w2 = std_ipblock_tbl w1" "ipb_recs w2 = ipb_recs w1"
      "listens w1 w2"
      by blast
    then show ?thesis
      using ac lv ACCPT_ERROR a away_trans [OF a(1) w2(3)] listens_trans [OF a(12) w2(9)] unfolding fr by (simp add: wt_handle_accepting_def)
  next
    case ACCPT_IN_PROGRESS
    then show ?thesis using ac lv a ci assms(3) unfolding fr by (simp add: wt_handle_accepting_def)
  next
    case ACCPT_DONE
    have "heap_ok (clth w1) (cls w1)" "c \<notin> heap_members (clth w1)" "num_clients (clth w1) < 2 ^ 31"
      using conn_invD(1,4) [OF assms(1)] assms(3,4) num_clients_bound [OF assms(1)] by (simp_all add: a)
    from set_deadline_ok [OF this(1) c0 this(2,3)] obtain h s where
      h: "set_deadline c w1 = Some (w1\<lparr>clth := h, cls := s\<rparr>)" "heap_ok h s" "heap_members h = insert c (heap_members (clth w))"
      "\<And>x. untimed (s x) = untimed (cls w x)"
      "auth_deadline (s c) = Timespec (tv_sec (now w) + CLTH_AUTH_MAXPERM_TIME) (tv_nsec (now w))"
      using a by auto
    define w2 where "w2 = set_state c ACCEPTED (w1\<lparr>clth := h, cls := s\<rparr>)"
    have w2: "clth w2 = h" "preauth_list w2 = preauth_list w" "cls w2 = s(c := (s c)\<lparr>cl_state := ACCEPTED\<rparr>)" "nds w2 = nds w"
      "sock_events w2 = sock_events w" "next_addr w2 = next_addr w" "std_ipblock_tbl w2 = std_ipblock_tbl w" "ipb_recs w2 = ipb_recs w"
      "at w2 = at w1" "shared w2 = shared w1" "queue_events w2 = queue_events w1"
      by (simp_all add: w2_def set_state_def upd_cl_def a at_def shared_def fun_eq_iff)
    have "listens w1 w2" by (rule listens_same) (simp_all add: w2 a)
    with a(12) have ls: "listens w w2" by (rule listens_trans)
    have aw: "away {c} w w2"
      by (rule away_trans [OF a(1)]) (simp add: away_def w2 a h(4))
    have st: "cl_state (s x) = cl_state (cls w x)" for x by (rule untimed_fields(1) [OF h(4)])
    have "visitor w2 x" if "x \<in> set (preauth_list w)" for x
    proof (cases "x = c")
      case True
      then show ?thesis
        using v untimed_fields [OF h(4), of c] by (simp add: visitor_def live_def w2)
    next
      case False
      show ?thesis by (rule visitor_cong [OF conn_invD(3) [OF assms(1) that]]) (use aw False in \<open>simp_all add: away_def\<close>)
    qed
    moreover have "heap_ok h (cls w2)" by (rule heap_ok_cong [OF h(2)]) (simp add: w2)
    moreover have "heap_members h = {x \<in> set (preauth_list w). cl_state (cls w2 x) = ACCEPTED}"
      using h(3) conn_invD(4) [OF assms(1)] assms(2) st by (auto simp: w2)
    ultimately have "conn_inv w2" using conn_invD(2) [OF assms(1)] by (simp add: conn_inv_def w2(1,2))
    moreover have "wt_handle_accepting c w = Some w2" using ac lv ACCPT_DONE h(1) by (simp add: wt_handle_accepting_def w2_def)
    ultimately show ?thesis using aw ls w2 h(5) ACCPT_DONE unfolding fr by simp
  qed
qed

subsection \<open>The deadline\<close>

lemma root_timediff:
  assumes "conn_inv w"
  shows "cl_timerheap_compute_root_timediff (clth w) (cls w) (now w) ACCEPTED =
    (if num_clients (clth w) = 0 then Some CLTH_EMPTY
     else let d = tv_sec (auth_deadline (cls w (clients (clth w) ! 0))) - tv_sec (now w)
       in if d \<le> 0 then Some CLTH_TIMEOUT else Some (d * 1000))"
    and "num_clients (clth w) \<noteq> 0 \<Longrightarrow> clients (clth w) ! 0 \<in> heap_members (clth w)"
proof -
  note hp = conn_invD(1) [OF assms]
  show m: "num_clients (clth w) \<noteq> 0 \<Longrightarrow> clients (clth w) ! 0 \<in> heap_members (clth w)"
    using heap_nth_member [OF hp, of 0] by simp
  have "num_slots (clth w) \<noteq> 0" using hp by (simp add: heap_ok_def)
  then show "cl_timerheap_compute_root_timediff (clth w) (cls w) (now w) ACCEPTED =
    (if num_clients (clth w) = 0 then Some CLTH_EMPTY
     else let d = tv_sec (auth_deadline (cls w (clients (clth w) ! 0))) - tv_sec (now w)
       in if d \<le> 0 then Some CLTH_TIMEOUT else Some (d * 1000))"
    using m conn_invD(4) [OF assms, of "clients (clth w) ! 0"] visitor_pos [OF conn_invD(3) [OF assms], of 0]
    by (auto simp: cl_timerheap_compute_root_timediff_def cl_timerheap_peek_def Let_def)
qed

text \<open>A client that is too late is told so, as far as the socket takes it, and cut off.\<close>

definition cut_off :: "worker \<Rightarrow> worker \<Rightarrow> addr \<Rightarrow> bool" where
  "cut_off w w' c \<longleftrightarrow> cl_state (cls w c) = ACCEPTED \<and> tv_sec (auth_deadline (cls w c)) \<le> tv_sec (now w) \<and>
     freed (nds w' c) \<and> sock_events w' c = None \<and> (\<exists>n. sent w' c = sent w c @ take n (be32 AUTH_RESP_TIMEOUT))"

lemma send_auth_resp_sent: "\<exists>k. sent (send_auth_resp c code w) = (sent w)(c := sent w c @ take k (be32 code))"
proof -
  obtain bs outp where r: "auth_send_resp (outputs w c) code = (bs, outp)" by fastforce
  then have "\<exists>n. bs = take n (be32 code)"
    by (auto simp: auth_send_resp_def split: prod.splits send_res.splits intro: exI [of _ 0])
  then show ?thesis using r by (auto simp: send_auth_resp_def)
qed

lemma timeout_step:
  assumes "conn_inv w" and "cl_timerheap_compute_root_timediff (clth w) (cls w) (now w) ACCEPTED = Some CLTH_TIMEOUT"
  shows "\<exists>c w'. c \<in> set (preauth_list w) \<and> handle_clth_timeout w = handle_clth_timeout w' \<and> conn_inv w' \<and> away {c} w w' \<and>
    preauth_list w' = remove1 c (preauth_list w) \<and> cut_off w w' c \<and> next_addr w' = next_addr w \<and>
    std_ipblock_tbl w' = std_ipblock_tbl w \<and> ipb_recs w' = ipb_recs w \<and> listens w w' \<and>
    (\<forall>x. auth_deadline (cls w' x) = auth_deadline (cls w x))"
proof -
  note rt = root_timediff [OF assms(1)]
  define c where "c = clients (clth w) ! 0"
  have n: "0 < num_clients (clth w)" using assms(2) unfolding rt(1) by (auto simp: Let_def split: if_splits)
  have late: "tv_sec (auth_deadline (cls w c)) \<le> tv_sec (now w)"
    using assms(2) n unfolding rt(1) by (auto simp: Let_def c_def split: if_splits)
  have m: "c \<in> heap_members (clth w)" using rt(2) n by (simp add: c_def)
  then have c: "c \<in> set (preauth_list w)" "cl_state (cls w c) = ACCEPTED" using conn_invD(4) [OF assms(1)] by simp_all
  have c0: "c \<noteq> 0" using visitor_pos [OF conn_invD(3) [OF assms(1) c(1)]] by simp
  obtain h s where p: "cl_timerheap_pop (clth w) (cls w) = Some (c, h, s)" "removed c (clth w) (cls w) h s"
    using pop_lemma [OF conn_invD(1) [OF assms(1)] n] by (auto simp: c_def)
  note re = p(2) [unfolded removed_def]
  have rei: "reindexed (heap_members (clth w)) (cls w) s" using re by simp
  have ut: "untimed (s x) = untimed (cls w x)" "auth_deadline (s x) = auth_deadline (cls w x)" for x
    by (rule reindexed_untimed [OF rei], rule reindexed_fields(1) [OF rei])
  define w1 where "w1 = send_auth_resp c AUTH_RESP_TIMEOUT (w\<lparr>clth := h, cls := s\<rparr>)"
  obtain k where k: "sent w1 = (sent w)(c := sent w c @ take k (be32 AUTH_RESP_TIMEOUT))"
    using send_auth_resp_sent [of c AUTH_RESP_TIMEOUT "w\<lparr>clth := h, cls := s\<rparr>"] by (auto simp: w1_def)
  have w1: "clth w1 = h" "cls w1 = s" "preauth_list w1 = preauth_list w" "next_addr w1 = next_addr w" "nds w1 = nds w"
    "sock_events w1 = sock_events w" "std_ipblock_tbl w1 = std_ipblock_tbl w" "ipb_recs w1 = ipb_recs w"
    "queue_events w1 = queue_events w"
    by (simp_all add: w1_def send_auth_resp_def split: prod.splits)
  have l1: "listens w w1" by (rule listens_same) (simp_all add: w1)
  have aw: "away {c} w w1"
    by (auto simp: away_def w1_def send_auth_resp_def shared_def at_def ut split: prod.splits)
  have st: "cl_state (s x) = cl_state (cls w x)" for x by (rule untimed_fields(1) [OF ut(1)])
  have "visitor w1 x" if "x \<in> set (preauth_list w)" for x
    using conn_invD(3) [OF assms(1) that] untimed_fields [OF ut(1), of x] by (simp add: visitor_def live_def w1)
  then have but: "conn_but {c} w1"
    using re conn_invD(2,4) [OF assms(1)] st by (auto simp: conn_but_def w1)
  obtain w2 where w2: "cleanup_std_client c w1 = Some w2" "conn_inv w2" "away {c} w1 w2"
    "preauth_list w2 = remove1 c (preauth_list w1)" "freed (nds w2 c)" "sock_events w2 c = None" "next_addr w2 = next_addr w1"
    "std_ipblock_tbl w2 = std_ipblock_tbl w1" "ipb_recs w2 = ipb_recs w1" "sent w2 = sent w1"
    "\<And>x. auth_deadline (cls w2 x) = auth_deadline (cls w1 x)" "listens w1 w2"
    using cleanup_visitor [OF but order_refl] c(1) w1(3) by auto
  have "handle_clth_timeout w = handle_clth_timeout w2"
    using assms(2) p(1) c0 w2(1) by (subst handle_clth_timeout.simps) (simp add: w1_def [symmetric])
  moreover have "cut_off w w2 c" using c(2) late w2(5,6,10) k by (auto simp: cut_off_def)
  ultimately show ?thesis
    using c(1) w2 w1 ut(2) away_trans [OF aw w2(3)] listens_trans [OF l1 w2(12)] by (intro exI [of _ c] exI [of _ w2]) simp
qed

lemma timeouts_ok:
  assumes "conn_inv w"
  shows "\<exists>t w'. handle_clth_timeout w = Some (t, w') \<and> conn_inv w' \<and> away (set (preauth_list w)) w w' \<and>
    next_addr w' = next_addr w \<and> std_ipblock_tbl w' = std_ipblock_tbl w \<and> ipb_recs w' = ipb_recs w \<and>
    listens w w' \<and> set (preauth_list w') \<subseteq> set (preauth_list w) \<and> length (preauth_list w') \<le> length (preauth_list w) \<and>
    (\<forall>x. auth_deadline (cls w' x) = auth_deadline (cls w x)) \<and>
    (\<forall>c \<in> set (preauth_list w) - set (preauth_list w'). cut_off w w' c) \<and>
    (\<forall>c \<in> set (preauth_list w'). at w' c = at w c \<and> untimed (cls w' c) = untimed (cls w c)) \<and>
    (if heap_members (clth w') = {} then t = - 1
     else 0 < t \<and> (\<exists>c \<in> heap_members (clth w'). t = 1000 * (tv_sec (auth_deadline (cls w' c)) - tv_sec (now w))))"
  using assms
proof (induction "length (preauth_list w)" arbitrary: w rule: less_induct)
  case less
  note rt = root_timediff [OF less.prems]
  consider (late) "cl_timerheap_compute_root_timediff (clth w) (cls w) (now w) ACCEPTED = Some CLTH_TIMEOUT"
    | (empty) "num_clients (clth w) = 0" "cl_timerheap_compute_root_timediff (clth w) (cls w) (now w) ACCEPTED = Some CLTH_EMPTY"
    | (wait) d where "num_clients (clth w) \<noteq> 0" "d = tv_sec (auth_deadline (cls w (clients (clth w) ! 0))) - tv_sec (now w)" "0 < d"
      "cl_timerheap_compute_root_timediff (clth w) (cls w) (now w) ACCEPTED = Some (d * 1000)"
  proof (cases "num_clients (clth w) = 0")
    case True
    then show thesis using that(2) rt(1) by simp
  next
    case False
    then show thesis
      using that(1) that(3) [OF False refl] rt(1)
      by (cases "tv_sec (auth_deadline (cls w (clients (clth w) ! 0))) - tv_sec (now w) \<le> 0") (simp_all add: Let_def)
  qed
  then show ?case
  proof cases
    case late
    from timeout_step [OF less.prems late] obtain c w1 where
      w1: "c \<in> set (preauth_list w)" "handle_clth_timeout w = handle_clth_timeout w1" "conn_inv w1" "away {c} w w1"
      "preauth_list w1 = remove1 c (preauth_list w)" "cut_off w w1 c" "next_addr w1 = next_addr w"
      "std_ipblock_tbl w1 = std_ipblock_tbl w" "ipb_recs w1 = ipb_recs w" "\<forall>x. auth_deadline (cls w1 x) = auth_deadline (cls w x)" "listens w w1"
      by blast
    have dis: "distinct (preauth_list w)" by (rule conn_invD(2) [OF less.prems])
    have sub: "set (preauth_list w1) = set (preauth_list w) - {c}" using w1(5) dis by simp
    have "length (preauth_list w1) < length (preauth_list w)"
      using w1(1,5) length_pos_if_in_set [OF w1(1)] by (simp add: length_remove1)
    from less.hyps [OF this w1(3)] obtain t w2 where w2: "handle_clth_timeout w1 = Some (t, w2)" "conn_inv w2"
      "away (set (preauth_list w1)) w1 w2" "next_addr w2 = next_addr w1" "std_ipblock_tbl w2 = std_ipblock_tbl w1" "ipb_recs w2 = ipb_recs w1"
      "set (preauth_list w2) \<subseteq> set (preauth_list w1)" "length (preauth_list w2) \<le> length (preauth_list w1)"
      "\<forall>x. auth_deadline (cls w2 x) = auth_deadline (cls w1 x)"
      "\<forall>c \<in> set (preauth_list w1) - set (preauth_list w2). cut_off w1 w2 c"
      "\<forall>c \<in> set (preauth_list w2). at w2 c = at w1 c \<and> untimed (cls w2 c) = untimed (cls w1 c)"
      "if heap_members (clth w2) = {} then t = - 1
       else 0 < t \<and> (\<exists>c \<in> heap_members (clth w2). t = 1000 * (tv_sec (auth_deadline (cls w2 c)) - tv_sec (now w1)))"
      "listens w1 w2" by blast
    have nw: "now w1 = now w" using w1(4) by (simp add: away_def shared_def)
    have other: "at w1 x = at w x" "untimed (cls w1 x) = untimed (cls w x)" if "x \<noteq> c" for x
      using w1(4) that by (simp_all add: away_def)
    have "at w2 c = at w1 c" using w2(3) sub by (simp add: away_def)
    then have "cut_off w w2 c" using w1(6) by (simp add: cut_off_def at_def)
    moreover have "cut_off w w2 x" if "cut_off w1 w2 x" "x \<noteq> c" for x
      using that other [OF that(2)] untimed_fields(1) [OF other(2) [OF that(2)]] w1(10) nw by (simp add: cut_off_def at_def)
    ultimately have "\<forall>x \<in> set (preauth_list w) - set (preauth_list w2). cut_off w w2 x" using w2(10) sub by blast
    moreover have "at w2 x = at w x \<and> untimed (cls w2 x) = untimed (cls w x)" if "x \<in> set (preauth_list w2)" for x
    proof -
      have "x \<noteq> c" using that w2(7) sub by blast
      then show ?thesis using w2(11) that other by simp
    qed
    moreover have "away (set (preauth_list w)) w w2"
      by (rule away_trans [OF away_mono [OF w1(4)] away_mono [OF w2(3)]]) (use sub w1(1) in auto)
    ultimately show ?thesis
      using listens_trans [OF w1(11) w2(13)] w1(2,7,8,9) w2(1,2,4,5,6,7,8,9,12) sub w1(5,10) length_remove1 [of c "preauth_list w"]
      unfolding nw by (intro exI [of _ t] exI [of _ w2]) (auto split: if_splits)
  next
    case empty
    have "handle_clth_timeout w = Some (- 1, w)" by (subst handle_clth_timeout.simps) (simp add: empty)
    moreover have "heap_members (clth w) = {}" using empty(1) by (simp add: heap_members_def)
    ultimately show ?thesis using less.prems away_refl listens_refl by auto
  next
    case (wait d)
    have "handle_clth_timeout w = Some (d * 1000, w)" by (subst handle_clth_timeout.simps) (use wait(3,4) in simp)
    then show ?thesis
      using less.prems away_refl listens_refl rt(2) [OF wait(1)] wait(2,3) by (intro exI [of _ "d * 1000"] exI [of _ w]) auto
  qed
qed

subsection \<open>Properties\<close>

text \<open>A worker without clients that have not logged in, with empty address tables.\<close>

definition listening_worker :: worker where
  "listening_worker = (example_worker [])\<lparr>clth := \<lparr>clients = [0], num_clients = 0, num_slots = 1\<rparr>,
     std_ipblock_tbl := empty_ip_ht,
     ip_whitelist_tbl := empty_ip_ht\<rparr>"

lemma listening_worker_ok: "conn_inv listening_worker" "ip_inv listening_worker" "0 < next_addr listening_worker"
  "length (preauth_list listening_worker) < 2 ^ 31" "admitted peer listening_worker" "next_addr listening_worker = 10"
  "preauth_list listening_worker = []" "now listening_worker = Timespec 0 0"
proof -
  show "ip_inv listening_worker" by (simp add: ip_inv_def listening_worker_def empty_ip_table)
  then have "ip_table (ipb_recs listening_worker) (std_ipblock_tbl listening_worker)" by (simp add: ip_inv_def)
  from ip_find_Some [OF this] have "ip_find (ipb_recs listening_worker) (std_ipblock_tbl listening_worker) peer = None"
    by (cases "ip_find (ipb_recs listening_worker) (std_ipblock_tbl listening_worker) peer")
      (auto simp: listening_worker_def)
  moreover have "Servcfg.use_ip_whitelist (cfg listening_worker) = 0"
    by (simp add: listening_worker_def example_worker_def get_default_cfg_def)
  ultimately show "admitted peer listening_worker" by (simp add: admitted_def peer_status_def block_status_def peer_record_def)
qed (simp_all add: conn_inv_def listening_worker_def example_worker_def heap_ok_def heap_members_def exI [of _ "0 :: nat"])

text \<open>C8. A connection never makes a worker fail, whatever the TLS handshake answers and whatever the peer's address. A
  peer that is blocked, or not on a white list in use, is refused and leaves no trace; a blocking record that has
  expired is removed and the peer let in; the new client waits for its handshake or, when that is done, for its login
  within four seconds, and one whose handshake fails is freed. The other records, and every other client of the worker,
  stay as they are up to their places in the timer heap, and the list of clients that have not logged in and the heap
  still agree.\<close>

theorem new_connection_correct:
  assumes "conn_inv w" and "ip_inv w" and "0 < next_addr w" and "length (preauth_list w) < 2 ^ 31"
  shows "\<exists>w'. wt_handle_new_connections [conn] w = Some w' \<and> conn_inv w' \<and> ip_inv w' \<and> away {next_addr w} w w' \<and>
    connected_as conn w w' \<and> records_kept (in_peer conn) w w'"
  using handle_connection_ok [OF assms, of conn] by auto

theorem new_connection_correct_witness:
  "\<exists>w'. wt_handle_new_connections [\<lparr>in_peer = 7, in_sock = 5, in_accepts = [ACCPT_DONE], in_inputs = [], in_outputs = []\<rparr>]
      listening_worker = Some w' \<and> preauth_list w' = [10] \<and> cl_state (cls w' 10) = ACCEPTED \<and> auth_deadline (cls w' 10) = Timespec 4 0"
  using new_connection_correct [OF listening_worker_ok(1-4), of "\<lparr>in_peer = 7, in_sock = 5, in_accepts = [ACCPT_DONE], in_inputs = [], in_outputs = []\<rparr>"]
  by (auto simp: connected_as_def first_answer_def listening_worker_ok)

text \<open>C9. Looking at the deadlines ends: it cuts off clients that had finished the handshake and whose deadline had
  passed, telling them so as far as the socket takes it, and no others; it keeps the worker's invariant and all other
  clients up to their places in the heap; and it answers with the time to wait, which is positive: the time the client
  at the root of the heap has left, or no limit when no client is waiting for a login.\<close>

theorem late_clients_cut_off:
  assumes "conn_inv w"
  shows "\<exists>t w'. handle_clth_timeout w = Some (t, w') \<and> conn_inv w' \<and> away (set (preauth_list w)) w w' \<and>
    set (preauth_list w') \<subseteq> set (preauth_list w) \<and> (\<forall>x. auth_deadline (cls w' x) = auth_deadline (cls w x)) \<and>
    (\<forall>c \<in> set (preauth_list w) - set (preauth_list w'). cut_off w w' c) \<and>
    (\<forall>c \<in> set (preauth_list w'). at w' c = at w c \<and> untimed (cls w' c) = untimed (cls w c)) \<and>
    (if heap_members (clth w') = {} then t = - 1
     else 0 < t \<and> (\<exists>c \<in> heap_members (clth w'). t = 1000 * (tv_sec (auth_deadline (cls w' c)) - tv_sec (now w))))"
proof -
  from timeouts_ok [OF assms] obtain t w' where r: "handle_clth_timeout w = Some (t, w')" "conn_inv w'"
    "away (set (preauth_list w)) w w'" "set (preauth_list w') \<subseteq> set (preauth_list w)"
    "\<forall>x. auth_deadline (cls w' x) = auth_deadline (cls w x)"
    "\<forall>c \<in> set (preauth_list w) - set (preauth_list w'). cut_off w w' c"
    "\<forall>c \<in> set (preauth_list w'). at w' c = at w c \<and> untimed (cls w' c) = untimed (cls w c)"
    "if heap_members (clth w') = {} then t = - 1
     else 0 < t \<and> (\<exists>c \<in> heap_members (clth w'). t = 1000 * (tv_sec (auth_deadline (cls w' c)) - tv_sec (now w)))"
    by auto
  then show ?thesis by (intro exI [of _ t] exI [of _ w'] conjI)
qed

theorem late_clients_cut_off_witness:
  "\<exists>w t w'. wt_handle_new_connections [\<lparr>in_peer = 7, in_sock = 5, in_accepts = [ACCPT_DONE], in_inputs = [], in_outputs = []\<rparr>]
      listening_worker = Some w \<and> handle_clth_timeout (w\<lparr>now := Timespec 9 0\<rparr>) = Some (t, w') \<and> t = - 1 \<and> preauth_list w' = [] \<and>
      freed (nds w' 10)"
proof -
  obtain w where w: "wt_handle_new_connections [\<lparr>in_peer = 7, in_sock = 5, in_accepts = [ACCPT_DONE], in_inputs = [], in_outputs = []\<rparr>]
      listening_worker = Some w" "conn_inv w" "preauth_list w = [10]" "cl_state (cls w 10) = ACCEPTED"
      "auth_deadline (cls w 10) = Timespec 4 0"
    using handle_connection_ok [OF listening_worker_ok(1-4), of "\<lparr>in_peer = 7, in_sock = 5, in_accepts = [ACCPT_DONE], in_inputs = [], in_outputs = []\<rparr>"]
    by (auto simp: connected_as_def first_answer_def listening_worker_ok)
  define v where "v = w\<lparr>now := Timespec 9 0\<rparr>"
  have v: "conn_inv v" "preauth_list v = [10]" "now v = Timespec 9 0" "cls v = cls w"
    using w(2,3) by (simp_all add: v_def conn_inv_def visitor_def live_def)
  obtain t w' where c: "handle_clth_timeout v = Some (t, w')" "conn_inv w'" "set (preauth_list w') \<subseteq> set (preauth_list v)"
    "\<forall>x. auth_deadline (cls w' x) = auth_deadline (cls v x)"
    "\<forall>c \<in> set (preauth_list v) - set (preauth_list w'). cut_off v w' c"
    "\<forall>c \<in> set (preauth_list w'). at w' c = at v c \<and> untimed (cls w' c) = untimed (cls v c)"
    "if heap_members (clth w') = {} then t = - 1
     else 0 < t \<and> (\<exists>c \<in> heap_members (clth w'). t = 1000 * (tv_sec (auth_deadline (cls w' c)) - tv_sec (now v)))"
    using late_clients_cut_off [OF v(1)] by blast
  have r: "handle_clth_timeout v = Some (t, w')" "conn_inv w'"
    "set (preauth_list w') \<subseteq> {10}" "auth_deadline (cls w' 10) = Timespec 4 0" "10 \<notin> set (preauth_list w') \<Longrightarrow> cut_off v w' 10"
    "\<forall>c \<in> set (preauth_list w'). untimed (cls w' c) = untimed (cls w c)"
    "if heap_members (clth w') = {} then t = - 1
     else 0 < t \<and> (\<exists>c \<in> heap_members (clth w'). t = 1000 * (tv_sec (auth_deadline (cls w' c)) - 9))"
    using c(1-6) c(7) [unfolded v(3) timespec.sel] w(5) unfolding v(2,4) by simp_all
  have "10 \<notin> set (preauth_list w')"
  proof
    assume m: "10 \<in> set (preauth_list w')"
    then have "cl_state (cls w' 10) = ACCEPTED" using r(6) untimed_fields(1) w(4) by metis
    then have "heap_members (clth w') = {10}" using conn_invD(4) [OF r(2)] m r(3) by auto
    then show False using r(4,7) by auto
  qed
  then have e: "preauth_list w' = []" using r(3) by (cases "preauth_list w'") auto
  then have "heap_members (clth w') = {}" using conn_invD(4) [OF r(2)] by auto
  then show ?thesis using w(1) r(1,5,7) e unfolding v_def cut_off_def by auto
qed

end
