(* ===== verification/Login.thy ===== *)
theory Login
  imports Connect
begin

text \<open>
  The login, \<open>wt_handle_authentication\<close> of \<open>server/worker.c\<close>. The database query and the hash function are the
  parameters of \<open>Dbops\<close>: \<open>fetch\<close>, \<open>sha\<close>, and \<open>idx_ok\<close>, whether the prepared statement has its parameter. The
  specification at the end of the definitions says what a request comes to; the properties say that the
  handler does just that, and that it keeps the invariants of the worker.
\<close>

subsection \<open>The request\<close>

definition req_name :: "auth_req_group \<Rightarrow> byte list" where
  "req_name req = take (strnlen (req_username req) UNAMESIZE) (req_username req)"

definition check_auth_req :: "(byte list \<Rightarrow> 'db \<Rightarrow> byte list option) \<Rightarrow> (byte list \<Rightarrow> byte list) \<Rightarrow> bool \<Rightarrow> 'db \<Rightarrow>
    auth_req_group \<Rightarrow> worker \<Rightarrow> (u32 \<times> auth_req_group) option" where
  "check_auth_req fetch sha idx_ok db req w =
     (if request_type req \<noteq> REQ_AUTHENTICATION then Some (AUTH_RESP_INVAL_REQ, req)
      else case htable_get calm_locks (nds w) (std_cl_table w) (req_name req) False of
        None \<Rightarrow> None
      | Some (Some _, _, _) \<Rightarrow> Some (AUTH_RESP_DUPLICATE, req)
      | Some (None, _, _) \<Rightarrow>
          (case validate_auth fetch sha (use_auth (cfg w) \<noteq> 0) idx_ok db req of
             None \<Rightarrow> None
           | Some (auth_res, req) \<Rightarrow> Some (if auth_res then AUTH_RESP_OK else AUTH_RESP_INVAL_PARAM, req)))"

subsection \<open>The answer\<close>

definition count_failure :: "u32 \<Rightarrow> worker \<Rightarrow> worker option" where
  "count_failure peer w =
     (case note_peer (\<lambda>p. std_ipb_rec_create (now w) p False) bump_auth (\<lambda>recs a. recs(a := (recs a)\<lparr>freed := True\<rparr>))
         (next_addr w) peer (ipb_recs w) (std_ipblock_tbl w) of
        None \<Rightarrow> None
      | Some (used, recs, ht) \<Rightarrow>
          Some (w\<lparr>next_addr := (if used then next_addr w + 1 else next_addr w), std_ipblock_tbl := ht, ipb_recs := recs\<rparr>))"

definition refuse :: "addr \<Rightarrow> u32 \<Rightarrow> worker \<Rightarrow> worker option" where
  "refuse c resp_code w =
     (case count_failure (peer_name (cls w c)) w of
        None \<Rightarrow> None
      | Some w \<Rightarrow> cleanup_std_client c (send_auth_resp c resp_code w))"

text \<open>The results of \<open>mpscq_create\<close> are ignored; without an event descriptor the queue has no events. A name
  that fills its array has no terminator, and \<open>normalize_string\<close> runs off its end.\<close>

definition open_queues :: "addr \<Rightarrow> worker \<Rightarrow> worker" where
  "open_queues c w =
     (upd_cl c (\<lambda>s. s\<lparr>pending_userdata_queue := snd (mpscq_create MODE_MPSC (efd_ok w) True),
                      pending_ctrl_queue := snd (mpscq_create MODE_SPSC (efd_ok w) True)\<rparr>) w)
       \<lparr>queue_events := (queue_events w)(c := if efd_ok w then Some True else None)\<rparr>"

definition take_name :: "addr \<Rightarrow> auth_req_group \<Rightarrow> worker \<Rightarrow> worker option" where
  "take_name c req w =
     (let unamelen = strnlen (req_username req) UNAMESIZE;
          name = strncpy_bytes (req_username req) UNAMESIZE
      in if 0 \<notin> set name then None
         else let name = normalize_string name in
           Some ((upd_cl c (\<lambda>s. s\<lparr>username := name\<rparr>) w)
             \<lparr>nds := (nds w)(c := (nds w c)\<lparr>key := take unamelen name\<rparr>)\<rparr>))"

definition close_queues :: "addr \<Rightarrow> worker \<Rightarrow> worker option" where
  "close_queues c w = do {
     s \<leftarrow> mpscq_destroy (pending_ctrl_queue (cls w c)) (msgs w);
     s \<leftarrow> mpscq_destroy (pending_userdata_queue (cls w c)) s;
     Some (forget_queue c (w\<lparr>msgs := s\<rparr>)) }"

definition enter_table :: "addr \<Rightarrow> worker \<Rightarrow> worker option" where
  "enter_table c w =
     (case htable_add calm_locks calm_resize (nds w) (std_cl_table w) c of
        None \<Rightarrow> None
      | Some (res, ht, _) \<Rightarrow>
          let w = w\<lparr>std_cl_table := ht\<rparr> in
          if \<not> res
          then (case close_queues c w of
              None \<Rightarrow> None
            | Some w \<Rightarrow> cleanup_std_client c (send_auth_resp c AUTH_RESP_DUPLICATE w))
          else let w = set_state c AUTHENTICATED (send_auth_resp c AUTH_RESP_OK w)
            in Some (set_rcv c (set_offset 0 (rcv w c)) w))"

definition admit :: "addr \<Rightarrow> auth_req_group \<Rightarrow> worker \<Rightarrow> worker option" where
  "admit c req w =
     (let w = open_queues c w in
      case cl_timerheap_remove (clth w) (cls w) c of
        None \<Rightarrow> None
      | Some (h, s) \<Rightarrow>
          let w = w\<lparr>clth := h, cls := s, preauth_list := intrusive_list_remove (preauth_list w) c\<rparr> in
          (case take_name c req w of None \<Rightarrow> None | Some w \<Rightarrow> enter_table c w))"

definition authenticate :: "(byte list \<Rightarrow> 'db \<Rightarrow> byte list option) \<Rightarrow> (byte list \<Rightarrow> byte list) \<Rightarrow> bool \<Rightarrow> 'db \<Rightarrow>
    addr \<Rightarrow> worker \<Rightarrow> worker option" where
  "authenticate fetch sha idx_ok db c w = do {
     req \<leftarrow> auth_req_of (rbuf (recvbuf (rcv w c)));
     (resp_code, req) \<leftarrow> check_auth_req fetch sha idx_ok db req w;
     b \<leftarrow> store_auth_req req (rbuf (recvbuf (rcv w c)));
     let w = set_rcv c ((rcv w c)\<lparr>recvbuf := (recvbuf (rcv w c))\<lparr>rbuf := b\<rparr>\<rparr>) w;
     if resp_code \<noteq> AUTH_RESP_OK then refuse c resp_code w else admit c req w }"

definition wt_handle_authentication :: "(byte list \<Rightarrow> 'db \<Rightarrow> byte list option) \<Rightarrow> (byte list \<Rightarrow> byte list) \<Rightarrow> bool \<Rightarrow> 'db \<Rightarrow>
    addr \<Rightarrow> worker \<Rightarrow> worker option" where
  "wt_handle_authentication fetch sha idx_ok db c w =
     (if \<not> live w c then None
      else case receive c True False (\<lambda>rm. off_of rm < of_nat AUTH_REQ_SIZE) (\<lambda>rm. of_nat AUTH_REQ_SIZE - ucast (off_of rm))
          (Some WT_STOP_EBLK) w of
        None \<Rightarrow> None
      | Some (Some _, w) \<Rightarrow> Some w
      | Some (None, w) \<Rightarrow> authenticate fetch sha idx_ok db c w)"

subsection \<open>What a request comes to\<close>

datatype verdict = Refused u32 | Name_taken | Admitted "byte list" | Crash

text \<open>The specification, on the map from names to clients: \<open>Crash\<close> is a failed assertion or a run off an array.\<close>

definition name_verdict :: "(hkey \<rightharpoonup> addr) \<Rightarrow> byte list \<Rightarrow> verdict" where
  "name_verdict users nm = (if users nm = None then Admitted nm else Name_taken)"

definition verdict :: "(byte list \<Rightarrow> 'db \<Rightarrow> byte list option) \<Rightarrow> (byte list \<Rightarrow> byte list) \<Rightarrow> bool \<Rightarrow> bool \<Rightarrow> 'db \<Rightarrow>
    (hkey \<rightharpoonup> addr) \<Rightarrow> auth_req_group \<Rightarrow> verdict" where
  "verdict fetch sha auth idx_ok db users req =
     (let raw = cstr (req_username req) in
      if request_type req \<noteq> REQ_AUTHENTICATION then Refused AUTH_RESP_INVAL_REQ
      else if raw = [] then Crash
      else if users raw \<noteq> None then Refused AUTH_RESP_DUPLICATE
      else if auth
      then (if \<not> idx_ok then Refused AUTH_RESP_INVAL_PARAM
            else case fetch (user_of req) db of
              None \<Rightarrow> Refused AUTH_RESP_INVAL_PARAM
            | Some h \<Rightarrow>
                if length h < 32 then Crash
                else if take 32 h \<noteq> sha (password_of req) then Refused AUTH_RESP_INVAL_PARAM
                else name_verdict users (user_of req))
      else if length raw = UNAMESIZE then Crash
      else name_verdict users (map tolower raw))"

subsection \<open>The request and its verdict\<close>

lemma req_name_cstr: "length (req_username req) = UNAMESIZE \<Longrightarrow> req_name req = cstr (req_username req)"
  unfolding req_name_def strnlen_def by (simp flip: takeWhile_eq_take)

lemma terminate_fields_ok: "req_ok req \<Longrightarrow> req_ok (terminate_fields req)"
proof -
  have "length (normalize_string s) = length s" for s
    using length_takeWhile_le [of "\<lambda>b. b \<noteq> 0" s] by (simp add: normalize_string_correct)
  then show "req_ok req \<Longrightarrow> req_ok (terminate_fields req)" by (simp add: req_ok_def terminate_fields_def)
qed

lemma check_auth_req_eq:
  assumes "client_table (nds w) (std_cl_table w)" and "req_ok req"
  shows "check_auth_req fetch sha idx_ok db req w =
    (let raw = cstr (req_username req) in
     if request_type req \<noteq> REQ_AUTHENTICATION then Some (AUTH_RESP_INVAL_REQ, req)
     else if raw = [] then None
     else if ht_map (nds w) (std_cl_table w) raw \<noteq> None then Some (AUTH_RESP_DUPLICATE, req)
     else case validate_auth fetch sha (use_auth (cfg w) \<noteq> 0) idx_ok db req of
       None \<Rightarrow> None
     | Some (auth_res, req) \<Rightarrow> Some (if auth_res then AUTH_RESP_OK else AUTH_RESP_INVAL_PARAM, req))"
proof -
  define raw where "raw = cstr (req_username req)"
  have n: "req_name req = raw" using assms(2) by (simp add: req_ok_def req_name_cstr raw_def)
  note t = client_tableD(1,2) [OF assms(1)]
  have "\<exists>tr. htable_get calm_locks (nds w) (std_cl_table w) raw False = Some (ht_map (nds w) (std_cl_table w) raw, nds w, tr)"
    if "raw \<noteq> []"
    using name_order.htable_get_correct [OF t, of raw calm_locks False] that
    by (auto simp: name_ok_def raw_def no_NUL_cstr split: option.splits)
  moreover have "htable_get calm_locks (nds w) (std_cl_table w) [] False = None" by (simp add: htable_get_def)
  ultimately show ?thesis
    unfolding check_auth_req_def n raw_def [symmetric] Let_def
    by (cases "raw = []"; cases "ht_map (nds w) (std_cl_table w) raw") auto
qed

lemma auth_resp_codes: "AUTH_RESP_OK \<noteq> AUTH_RESP_INVAL_REQ" "AUTH_RESP_OK \<noteq> AUTH_RESP_DUPLICATE" "AUTH_RESP_OK \<noteq> AUTH_RESP_INVAL_PARAM"
  by (simp_all add: AUTH_RESP_OK_def AUTH_RESP_INVAL_REQ_def AUTH_RESP_DUPLICATE_def AUTH_RESP_INVAL_PARAM_def)

text \<open>The name under which a request that passes the check is entered.\<close>

definition checked :: "bool \<Rightarrow> auth_req_group \<Rightarrow> auth_req_group" where
  "checked auth req = (if auth then terminate_fields req else req)"

definition login_name :: "bool \<Rightarrow> auth_req_group \<Rightarrow> byte list" where
  "login_name auth req = (if auth then user_of req else map tolower (cstr (req_username req)))"

lemma tolower_idem [simp]: "tolower (tolower c) = tolower c"
  by (auto simp: tolower_def word_le_nat_alt unat_word_ariths)

lemma tolower_0 [simp]: "tolower c = 0 \<longleftrightarrow> c = 0"
  by (auto simp: tolower_def word_le_nat_alt word_unat_eq_iff unat_word_ariths)

lemma login_name_checked:
  assumes "req_ok req"
  shows "map tolower (cstr (req_username (checked auth req))) = login_name auth req"
  using terminate_fields_strings(1) [OF assms] by (simp add: checked_def login_name_def user_of_def)

lemma check_by_verdict:
  assumes "client_table (nds w) (std_cl_table w)" and "req_ok req"
    and users: "users = ht_map (nds w) (std_cl_table w)" and auth: "auth \<longleftrightarrow> use_auth (cfg w) \<noteq> 0"
  shows "case verdict fetch sha auth idx_ok db users req of
      Refused code \<Rightarrow> \<exists>req'. check_auth_req fetch sha idx_ok db req w = Some (code, req') \<and> code \<noteq> AUTH_RESP_OK \<and> req_ok req'
    | Crash \<Rightarrow> check_auth_req fetch sha idx_ok db req w = None \<or>
        check_auth_req fetch sha idx_ok db req w = Some (AUTH_RESP_OK, req) \<and> length (cstr (req_username req)) = UNAMESIZE
    | Name_taken \<Rightarrow> check_auth_req fetch sha idx_ok db req w = Some (AUTH_RESP_OK, checked auth req) \<and>
        users (login_name auth req) \<noteq> None \<and> login_name auth req \<noteq> [] \<and> length (login_name auth req) < UNAMESIZE
    | Admitted nm \<Rightarrow> check_auth_req fetch sha idx_ok db req w = Some (AUTH_RESP_OK, checked auth req) \<and>
        nm = login_name auth req \<and> users nm = None \<and> nm \<noteq> [] \<and> length nm < UNAMESIZE"
proof -
  define raw where "raw = cstr (req_username req)"
  have u: "length (user_of req) < 32" "raw \<noteq> [] \<Longrightarrow> user_of req \<noteq> []"
  proof -
    have "length (user_of req) \<le> length (take 31 (req_username req))"
      using length_takeWhile_le [of "\<lambda>b. b \<noteq> 0" "take 31 (req_username req)"] by (simp add: user_of_def)
    then show "length (user_of req) < 32" by simp
    show "raw \<noteq> [] \<Longrightarrow> user_of req \<noteq> []" using assms(2) by (cases "req_username req") (auto simp: raw_def user_of_def req_ok_def)
  qed
  have l: "length raw \<le> 32" using length_takeWhile_le [of "\<lambda>b. b \<noteq> 0" "req_username req"] assms(2) by (simp add: raw_def req_ok_def)
  note tf = terminate_fields_ok [OF assms(2)]
  note eqs = check_auth_req_eq [OF assms(1,2), of fetch sha _ db, folded raw_def users auth]
    verdict_def [of fetch sha _ _ db users req, folded raw_def] Let_def
  have va: "validate_auth fetch sha True True db req =
    (case fetch (user_of req) db of
       None \<Rightarrow> Some (False, terminate_fields req)
     | Some h \<Rightarrow> if length h < 32 then None else Some (take 32 h = sha (password_of req), terminate_fields req))"
    by (rule validate_auth_eq [OF assms(2)])
  have vn: "validate_auth fetch sha False idx_ok db req = Some (True, req)" "validate_auth fetch sha True False db req = Some (False, req)"
    by (simp_all add: validate_auth_def)
  have names: "login_name True req = user_of req" "login_name False req = map tolower raw" "checked True req = terminate_fields req" "checked False req = req"
    by (simp_all add: login_name_def checked_def raw_def)
  note simps = auth_resp_codes [symmetric] assms(2) tf name_verdict_def names
  consider (early) "request_type req \<noteq> REQ_AUTHENTICATION \<or> raw = [] \<or> users raw \<noteq> None"
    | (plain) "request_type req = REQ_AUTHENTICATION" "raw \<noteq> []" "users raw = None" "auth = False"
    | (idx) "request_type req = REQ_AUTHENTICATION" "raw \<noteq> []" "users raw = None" "auth = True" "idx_ok = False"
    | (unknown) "request_type req = REQ_AUTHENTICATION" "raw \<noteq> []" "users raw = None" "auth = True" "idx_ok = True" "fetch (user_of req) db = None"
    | (known) h where "request_type req = REQ_AUTHENTICATION" "raw \<noteq> []" "users raw = None" "auth = True" "idx_ok = True" "fetch (user_of req) db = Some h"
    by (cases "fetch (user_of req) db") blast+
  then show ?thesis
  proof cases
    case early
    then show ?thesis by (cases "request_type req = REQ_AUTHENTICATION"; cases "raw = []") (simp_all add: eqs simps)
  next
    case plain
    show ?thesis
    proof (cases "length raw = 32")
      case True
      then show ?thesis by (simp add: eqs plain vn simps raw_def [symmetric])
    next
      case False
      then show ?thesis using l plain(2) by (simp add: eqs plain vn simps split: option.splits)
    qed
  next
    case idx
    show ?thesis by (simp add: eqs idx vn simps)
  next
    case unknown
    show ?thesis by (simp add: eqs unknown va simps)
  next
    case (known h)
    show ?thesis
    proof (cases "length h < 32 \<or> take 32 h \<noteq> sha (password_of req)")
      case True
      then show ?thesis by (cases "length h < 32") (simp_all add: eqs known va simps)
    next
      case False
      then show ?thesis using u(1) u(2) [OF known(2)] by (simp add: eqs known va simps split: option.splits)
    qed
  qed
qed

subsection \<open>A failure is counted\<close>

definition ip_record :: "worker \<Rightarrow> u32 \<Rightarrow> std_ipb_rec option" where
  "ip_record w = peer_record (ipb_recs w) (std_ipblock_tbl w)"

definition failure_counted :: "u32 \<Rightarrow> worker \<Rightarrow> u32 \<Rightarrow> std_ipb_rec option" where
  "failure_counted peer w = (ip_record w)(peer \<mapsto>
     (case ip_record w peer of
        None \<Rightarrow> std_ipb_rec_create (now w) peer False
      | Some r \<Rightarrow> r\<lparr>failed_auths := failed_auths r + 1\<rparr>))"

lemma count_failure_ok:
  assumes "ip_inv w"
  shows "\<exists>w'. count_failure peer w = Some w' \<and> ip_inv w' \<and>
    (\<exists>n ht recs. w' = w\<lparr>next_addr := n, std_ipblock_tbl := ht, ipb_recs := recs\<rparr> \<and> next_addr w \<le> n) \<and>
    ip_record w' = failure_counted peer w"
proof -
  have t: "ip_table (ipb_recs w) (std_ipblock_tbl w)" "next_addr w \<notin> ht_nodes (std_ipblock_tbl w)"
    using assms by (auto simp: ip_inv_def)
  obtain used recs ht where r: "note_peer (\<lambda>p. std_ipb_rec_create (now w) p False) bump_auth
      (\<lambda>recs a. recs(a := (recs a)\<lparr>freed := True\<rparr>)) (next_addr w) peer (ipb_recs w) (std_ipblock_tbl w) = Some (used, recs, ht)"
    "ip_table recs ht" "ht_nodes ht \<subseteq> ht_nodes (std_ipblock_tbl w) \<union> (if used then {next_addr w} else {})"
    "peer_record recs ht = (ip_record w)(peer \<mapsto>
       (case ip_record w peer of None \<Rightarrow> std_ipb_rec_create (now w) peer False | Some r \<Rightarrow> bump_auth r))"
    using std_book.note_peer_ok [OF t, of "now w" "\<lambda>recs a. recs(a := (recs a)\<lparr>freed := True\<rparr>)" peer]
    unfolding ip_record_def by blast
  define w' where "w' = w\<lparr>next_addr := (if used then next_addr w + 1 else next_addr w), std_ipblock_tbl := ht, ipb_recs := recs\<rparr>"
  have "count_failure peer w = Some w'" by (simp add: count_failure_def r(1) w'_def)
  moreover have "ip_inv w'"
    using assms r(2) by (auto simp: ip_inv_def w'_def dest!: subsetD [OF r(3)] split: if_splits)
  moreover have "ip_record w' = failure_counted peer w"
    unfolding failure_counted_def using r(4) by (simp add: ip_record_def w'_def bump_auth_def cong: option.case_cong)
  moreover have "w' = w\<lparr>next_addr := next_addr w', std_ipblock_tbl := ht, ipb_recs := recs\<rparr>" "next_addr w \<le> next_addr w'"
    by (simp_all add: w'_def)
  ultimately show ?thesis by blast
qed

text \<open>A refusal: the failure is counted, the client is told and freed.\<close>

definition turned_away :: "addr \<Rightarrow> u32 \<Rightarrow> worker \<Rightarrow> worker \<Rightarrow> bool" where
  "turned_away c code w w' \<longleftrightarrow> conn_inv w' \<and> ip_inv w' \<and> away {c} w w' \<and> preauth_list w' = remove1 c (preauth_list w) \<and>
     freed (nds w' c) \<and> sock_events w' c = None \<and> listens w w' \<and> (\<exists>n. sent w' c = sent w c @ take n (be32 code))"

lemma refuse_ok:
  assumes "conn_inv w" and "ip_inv w" and "c \<in> set (preauth_list w)"
  shows "\<exists>w'. refuse c code w = Some w' \<and> turned_away c code w w' \<and>
    ip_record w' = failure_counted (peer_name (cls w c)) w"
proof -
  obtain w1 m ht recs where w1: "count_failure (peer_name (cls w c)) w = Some w1" "ip_inv w1"
    "w1 = w\<lparr>next_addr := m, std_ipblock_tbl := ht, ipb_recs := recs\<rparr>" "next_addr w \<le> m"
    "ip_record w1 = failure_counted (peer_name (cls w c)) w"
    using count_failure_ok [OF assms(2)] by blast
  have a1: "away {c} w w1" using w1(4) by (simp add: w1(3) away_def shared_def at_def)
  define w2 where "w2 = send_auth_resp c code w1"
  have w2: "clth w2 = clth w" "cls w2 = cls w" "preauth_list w2 = preauth_list w" "next_addr w2 = m" "nds w2 = nds w"
    "sock_events w2 = sock_events w" "std_ipblock_tbl w2 = ht" "ipb_recs w2 = recs" "queue_events w2 = queue_events w"
    by (simp_all add: w2_def w1(3) send_auth_resp_def split: prod.splits)
  have a2: "away {c} w1 w2" by (simp add: w2_def send_auth_resp_def away_def shared_def at_def split: prod.splits)
  obtain n where n: "sent w2 = (sent w)(c := sent w c @ take n (be32 code))"
    using send_auth_resp_sent [of c code w1] by (auto simp: w2_def w1(3))
  have "visitor w2 x" if "visitor w x" for x
    using that w1(4) by (simp add: visitor_def live_def w2)
  then have "conn_but {} w2" using assms(1) by (auto simp: conn_inv_but conn_but_def w2)
  from cleanup_visitor [OF this _, of c] assms(3) obtain w3 where
    w3: "cleanup_std_client c w2 = Some w3" "conn_inv w3" "away {c} w2 w3" "preauth_list w3 = remove1 c (preauth_list w2)"
    "freed (nds w3 c)" "sock_events w3 c = None" "std_ipblock_tbl w3 = std_ipblock_tbl w2" "ipb_recs w3 = ipb_recs w2" "sent w3 = sent w2"
    "listens w2 w3"
    by (auto simp: w2(3))
  have "listens w w2" by (rule listens_same) (simp_all add: w2)
  then have ls: "listens w w3" using w3(10) by (rule listens_trans)
  have "refuse c code w = Some w3" using w1(1) w3(1) by (simp add: refuse_def w2_def)
  moreover have a3: "away {c} w1 w3" by (rule away_trans [OF a2 w3(3)])
  then have "ip_inv w3" by (rule ip_inv_away [OF w1(2)]) (simp_all add: w3(7,8) w2(7,8) w1(3))
  then have "turned_away c code w w3"
    using w3 n ls away_trans [OF a1 a3] by (auto simp: turned_away_def w2)
  moreover have "ip_record w3 = ip_record w1" by (rule ext) (simp add: ip_record_def w3(7,8) w2(7,8) w1(3))
  ultimately show ?thesis using w1(5) by (intro exI [of _ w3]) simp
qed

subsection \<open>Entering the table of users\<close>

lemma element_count_card:
  assumes "client_table ns ht"
  shows "element_count ht = card (ht_nodes ht)"
  using name_order.ht_distinct [OF client_tableD(1,2) [OF assms]] client_tableD(1) [OF assms]
  by (simp add: ht_ok_def ht_nodes_def distinct_card [symmetric])

lemma client_add:
  assumes t: "client_table ns ht" and c: "c \<notin> ht_nodes ht" and nd: "name_ok (key nd)" "ref_cnt nd \<noteq> 0"
    and free: "free \<longleftrightarrow> ht_map ns ht (key nd) = None"
  shows "\<exists>ht' tr. htable_add calm_locks calm_resize (ns(c := nd)) ht c = Some (free, ht', tr) \<and> client_table (ns(c := nd)) ht' \<and>
    ht_map (ns(c := nd)) ht' = (if free then (ht_map ns ht)(key nd \<mapsto> c) else ht_map ns ht) \<and>
    ht_nodes ht' = (if free then insert c (ht_nodes ht) else ht_nodes ht)"
proof -
  define s where "s = ns(c := nd)"
  note t12 = client_tableD(1,2) [OF t]
  have "key (s n) = key (ns n)" if "n \<in> ht_nodes ht" for n using that c by (auto simp: s_def)
  from name_order.ht_agree [OF t12(2) this] t12(1) have ok: "ht_ok name_ok s ht" and hm: "ht_map s ht = ht_map ns ht" by simp_all
  have kc: "key (s c) = key nd" by (simp add: s_def)
  obtain ht' tr where ad: "htable_add calm_locks calm_resize s ht c = Some (free, ht', tr)" "ht_ok name_ok s ht'" "cmpfn ht' = std_client_cmp"
    "ht_map s ht' = (if free then (ht_map s ht)(key nd \<mapsto> c) else ht_map s ht)"
    using name_order.htable_add_correct [OF ok t12(2), of c calm_resize calm_locks] nd(1) free
    unfolding kc hm by (auto simp: calm_resize_def)
  have nodes: "ht_nodes ht' = (if free then insert c (ht_nodes ht) else ht_nodes ht)"
  proof (cases free)
    case True
    have "ht_nodes ht' = insert c (ht_nodes ht)"
      by (rule name_order.nodes_after_add [OF ok t12(2) ad(2,3)]) (use ad(4) True free in \<open>simp_all add: kc hm\<close>)
    then show ?thesis using True by simp
  next
    case False
    have "m \<in> ht_nodes ht' \<longleftrightarrow> m \<in> ht_nodes ht" for m
      using name_order.ht_map_Some_iff [OF ad(2,3), of "key (s m)" m] name_order.ht_map_Some_iff [OF ok t12(2), of "key (s m)" m]
        ad(4) False by simp
    then show ?thesis using False by auto
  qed
  have "client_table s ht'"
    using ad(2,3) nodes client_tableD(3) [OF t] c nd(2) by (auto simp: client_table_def s_def)
  then show ?thesis using ad nodes hm by (auto simp: s_def [symmetric])
qed

text \<open>The clients in the table have logged in.\<close>

definition roster :: "worker \<Rightarrow> bool" where
  "roster w \<longleftrightarrow> client_table (nds w) (std_cl_table w) \<and> 0 < next_addr w \<and> element_count (std_cl_table w) \<le> 2 ^ 26 \<and>
     (\<forall>n \<in> ht_nodes (std_cl_table w). live w n \<and> n < next_addr w \<and> cl_state (cls w n) \<in> {AUTHENTICATED, DISCONNECTED} \<and>
        length (username (cls w n)) = UNAMESIZE)"

definition users :: "worker \<Rightarrow> hkey \<Rightarrow> addr option" where
  "users w = ht_map (nds w) (std_cl_table w)"

lemma roster_logged: "roster w \<Longrightarrow> n \<in> ht_nodes (std_cl_table w) \<Longrightarrow> logged n w"
  by (auto simp: roster_def logged_def)

lemma visitor_not_in_table: "roster w \<Longrightarrow> visitor w c \<Longrightarrow> c \<notin> ht_nodes (std_cl_table w)"
  by (auto simp: roster_def visitor_def)

text \<open>The name, in lower case and padded.\<close>

lemma take_name_eq:
  assumes "length (req_username req) = UNAMESIZE" and "nm = map tolower (cstr (req_username req))"
  shows "take_name c req w = (if length nm = UNAMESIZE then None
    else Some ((upd_cl c (\<lambda>s. s\<lparr>username := strncpy_bytes nm UNAMESIZE\<rparr>) w)\<lparr>nds := (nds w)(c := (nds w c)\<lparr>key := nm\<rparr>)\<rparr>))"
proof -
  define raw where "raw = cstr (req_username req)"
  have l: "length raw \<le> 32" using length_takeWhile_le [of "\<lambda>b. b \<noteq> 0" "req_username req"] assms(1) by (simp add: raw_def)
  have nl: "strnlen (req_username req) 32 = length raw" using assms(1) by (simp add: strnlen_def raw_def)
  have pad: "strncpy_bytes (req_username req) 32 = raw @ replicate (32 - length raw) 0"
    using l by (simp add: strncpy_bytes_def Let_def raw_def)
  have z: "0 \<notin> set (raw @ replicate (32 - length raw) 0) \<longleftrightarrow> length raw = 32"
    using l no_NUL_cstr [of "req_username req"] by (auto simp: raw_def)
  have "cstr (raw @ replicate (32 - length raw) 0) = raw"
    by (rule cstr_padded) (simp add: raw_def no_NUL_cstr)
  then have n: "normalize_string (raw @ replicate (32 - length raw) 0) = nm @ replicate (32 - length nm) 0"
    by (simp add: normalize_string_correct assms(2) raw_def)
  have z0: "0 \<notin> set nm" by (auto simp: assms(2) no_NUL_cstr)
  have len: "length nm = length raw" by (simp add: assms(2) raw_def)
  have "strncpy_bytes nm 32 = nm @ replicate (32 - length nm) 0"
    using l len unfolding strncpy_bytes_def Let_def cstr_no_NUL [OF z0] by simp
  moreover have "take (length raw) (nm @ replicate (32 - length nm) 0) = nm" by (simp add: len)
  ultimately show ?thesis
    unfolding take_name_def Let_def nl pad z n len by simp
qed

text \<open>Up to the entry in the table: the client has left the list and the heap, and has its queues and its name.\<close>

definition fresh_login :: "addr \<Rightarrow> byte list \<Rightarrow> worker \<Rightarrow> worker \<Rightarrow> bool" where
  "fresh_login c nm w w' \<longleftrightarrow>
     preauth_list w' = remove1 c (preauth_list w) \<and> username (cls w' c) = strncpy_bytes nm UNAMESIZE \<and>
     temp_send_storage (cls w' c) = 0 \<and> pending_ctrl_queue (cls w' c) = snd (mpscq_create MODE_SPSC (efd_ok w) True) \<and>
     pending_userdata_queue (cls w' c) = snd (mpscq_create MODE_MPSC (efd_ok w) True) \<and>
     queue_events w' c = (if efd_ok w then Some True else None)"

definition prepared :: "addr \<Rightarrow> byte list \<Rightarrow> worker \<Rightarrow> worker \<Rightarrow> bool" where
  "prepared c nm w p \<longleftrightarrow> conn_inv p \<and> away {c} w p \<and> fresh_login c nm w p \<and> c \<notin> set (preauth_list p) \<and>
     cl_state (cls p c) = ACCEPTED \<and> timerheap_index (cls p c) = INVAL_TH_IND \<and> rcv p c = rcv w c \<and>
     nds p = (nds w)(c := (nds w c)\<lparr>key := nm\<rparr>) \<and> next_addr p = next_addr w \<and> std_ipblock_tbl p = std_ipblock_tbl w \<and>
     ipb_recs p = ipb_recs w \<and> sent p = sent w \<and> sock_events p = sock_events w"

lemma preparedD:
  assumes "prepared c nm w p"
  shows "conn_inv p" "away {c} w p" "fresh_login c nm w p" "c \<notin> set (preauth_list p)" "cl_state (cls p c) = ACCEPTED"
    "timerheap_index (cls p c) = INVAL_TH_IND" "rcv p c = rcv w c" "nds p = (nds w)(c := (nds w c)\<lparr>key := nm\<rparr>)"
    "next_addr p = next_addr w" "std_ipblock_tbl p = std_ipblock_tbl w" "ipb_recs p = ipb_recs w" "sent p = sent w"
    "sock_events p = sock_events w"
  using assms by (simp_all add: prepared_def)

lemma prepared_ok:
  assumes "conn_inv w" and "c \<in> set (preauth_list w)" and "cl_state (cls w c) = ACCEPTED"
    and "length (req_username req) = UNAMESIZE" and "nm = map tolower (cstr (req_username req))"
  shows "if length nm = UNAMESIZE then admit c req w = None
    else \<exists>p. admit c req w = enter_table c p \<and> prepared c nm w p"
proof -
  have v: "visitor w c" by (rule conn_invD(3) [OF assms(1,2)])
  have m: "c \<in> heap_members (clth w)" using conn_invD(4) [OF assms(1)] assms(2,3) by simp
  define w1 where "w1 = open_queues c w"
  define q where "q = (snd (mpscq_create MODE_MPSC (efd_ok w) True), snd (mpscq_create MODE_SPSC (efd_ok w) True))"
  have w1: "cls w1 = (cls w)(c := (cls w c)\<lparr>pending_userdata_queue := fst q, pending_ctrl_queue := snd q\<rparr>)"
    "clth w1 = clth w"
    by (simp_all add: w1_def open_queues_def upd_cl_def q_def)
  have "heap_ok (clth w) (cls w1)" by (rule heap_ok_cong [OF conn_invD(1) [OF assms(1)]]) (simp add: w1(1))
  from remove_lemma [OF this m] obtain h s where
    r: "cl_timerheap_remove (clth w) (cls w1) c = Some (h, s)" "heap_ok h s" "heap_members h = heap_members (clth w) - {c}"
      "timerheap_index (s c) = INVAL_TH_IND" "reindexed (heap_members (clth w)) (cls w1) s"
    by (auto simp: removed_def)
  define w2 where "w2 = w1\<lparr>clth := h, cls := s, preauth_list := intrusive_list_remove (preauth_list w1) c\<rparr>"
  have ad: "admit c req w = (case take_name c req w2 of None \<Rightarrow> None | Some w \<Rightarrow> enter_table c w)"
    using r(1) w1(2) by (simp add: admit_def w1_def [symmetric] w2_def)
  show ?thesis
  proof (cases "length nm = UNAMESIZE")
    case True
    then show ?thesis using ad take_name_eq [OF assms(4,5)] by simp
  next
    case False
    define p where "p = (upd_cl c (\<lambda>s. s\<lparr>username := strncpy_bytes nm UNAMESIZE\<rparr>) w2)\<lparr>nds := (nds w2)(c := (nds w2 c)\<lparr>key := nm\<rparr>)\<rparr>"
    have "take_name c req w2 = Some p" using take_name_eq [OF assms(4,5)] False by (simp add: p_def)
    then have eq: "admit c req w = enter_table c p" using ad by simp
    have u: "untimed (s x) = untimed (cls w1 x)" for x by (rule reindexed_untimed [OF r(5)])
    have sc: "cl_state (s c) = ACCEPTED" "temp_recv_storage (s c) = rcv w c" "temp_send_storage (s c) = 0"
      "pending_userdata_queue (s c) = fst q" "pending_ctrl_queue (s c) = snd q"
      using untimed_fields [OF u [of c]] assms(3) v by (simp_all add: w1(1) visitor_def)
    have pf: "cls p = s(c := (s c)\<lparr>username := strncpy_bytes nm 32\<rparr>)" "nds p = (nds w)(c := (nds w c)\<lparr>key := nm\<rparr>)"
      "clth p = h" "preauth_list p = remove1 c (preauth_list w)" "next_addr p = next_addr w" "std_ipblock_tbl p = std_ipblock_tbl w"
      "ipb_recs p = ipb_recs w" "sent p = sent w" "sock_events p = sock_events w" "shared p = shared w"
      "queue_events p = (queue_events w)(c := if efd_ok w then Some True else None)"
      "inputs p = inputs w" "outputs p = outputs w" "accepts p = accepts w"
      by (simp_all add: p_def upd_cl_def w2_def list_remove1 shared_def w1_def open_queues_def)
    have aw: "away {c} w p" using u by (simp add: away_def pf at_def w1(1))
    have "conn_inv p"
    proof (rule conn_inv_leave [of "{}" w c])
      show "heap_ok (clth p) (cls p)" unfolding pf(3) by (rule heap_ok_cong [OF r(2)]) (simp add: pf(1))
    qed (use aw assms(1) in \<open>simp_all add: conn_inv_but pf(3,4,5) r(3) away_def\<close>)
    moreover have "fresh_login c nm w p" using sc by (simp add: fresh_login_def pf q_def)
    ultimately show ?thesis
      using False eq aw sc r(4) conn_invD(2) [OF assms(1)] by (auto simp: prepared_def pf intro!: exI [of _ p])
  qed
qed

text \<open>Away from the client, the step leaves everything but the table of users and the address records alone.\<close>

definition beside :: "addr \<Rightarrow> worker \<Rightarrow> worker \<Rightarrow> bool" where
  "beside c w w' \<longleftrightarrow> away {c} w (w'\<lparr>std_cl_table := std_cl_table w\<rparr>)"

definition joined :: "addr \<Rightarrow> byte list \<Rightarrow> worker \<Rightarrow> worker \<Rightarrow> bool" where
  "joined c nm w w' \<longleftrightarrow> conn_inv w' \<and> ip_inv w' \<and> roster w' \<and> beside c w w' \<and> fresh_login c nm w w' \<and>
     cl_state (cls w' c) = AUTHENTICATED \<and> awaiting (rcv w' c) \<and> ref_cnt (nds w' c) = 1 \<and> sock_events w' c = Some (True, False) \<and>
     (\<exists>n. sent w' c = sent w c @ take n (be32 AUTH_RESP_OK)) \<and> users w' = (users w)(nm \<mapsto> c) \<and>
     ht_nodes (std_cl_table w') = insert c (ht_nodes (std_cl_table w)) \<and> ip_record w' = ip_record w"

text \<open>A name that is taken after all: the client is told and freed, but its failure is not counted.\<close>

definition taken :: "addr \<Rightarrow> worker \<Rightarrow> worker \<Rightarrow> bool" where
  "taken c w w' \<longleftrightarrow> conn_inv w' \<and> ip_inv w' \<and> roster w' \<and> beside c w w' \<and> preauth_list w' = remove1 c (preauth_list w) \<and>
     freed (nds w' c) \<and> sock_events w' c = None \<and> queue_events w' c = None \<and>
     (\<exists>n. sent w' c = sent w c @ take n (be32 AUTH_RESP_DUPLICATE)) \<and> users w' = users w \<and>
     ht_nodes (std_cl_table w') = ht_nodes (std_cl_table w) \<and> ip_record w' = ip_record w"

lemma roster_beside:
  assumes "roster w" and "c \<notin> ht_nodes (std_cl_table w)" and "client_table (nds w') (std_cl_table w')"
    and "element_count (std_cl_table w') \<le> 2 ^ 26" and "beside c w w'"
    and "ht_nodes (std_cl_table w') \<subseteq> insert c (ht_nodes (std_cl_table w))"
    and "c \<in> ht_nodes (std_cl_table w') \<Longrightarrow> live w' c \<and> c < next_addr w' \<and> cl_state (cls w' c) = AUTHENTICATED \<and> length (username (cls w' c)) = UNAMESIZE"
  shows "roster w'"
proof -
  have aw: "next_addr w \<le> next_addr w'" "\<And>x. x \<noteq> c \<Longrightarrow> nds w' x = nds w x \<and> untimed (cls w' x) = untimed (cls w x)"
    using assms(5) by (simp_all add: beside_def away_def at_def)
  have "live w' n \<and> n < next_addr w' \<and> cl_state (cls w' n) \<in> {AUTHENTICATED, DISCONNECTED} \<and> length (username (cls w' n)) = UNAMESIZE"
    if "n \<in> ht_nodes (std_cl_table w')" for n
  proof (cases "n = c")
    case False
    then have n: "n \<in> ht_nodes (std_cl_table w)" using assms(6) that by auto
    have f: "nds w' n = nds w n" "cl_state (cls w' n) = cl_state (cls w n)" "username (cls w' n) = username (cls w n)"
      using aw(2) [OF False] untimed_fields [of "cls w' n" "cls w n"] by simp_all
    show ?thesis using assms(1) n aw(1) unfolding f live_def roster_def by auto
  qed (use assms(7) that in simp)
  then show ?thesis using assms(1,3,4) aw(1) by (simp add: roster_def)
qed

lemma empty_queue_destroyed: "mpscq_destroy (snd (mpscq_create mode e m)) s = Some s"
  by (subst mpscq_destroy_def, subst destroy_walk.simps) (simp add: mpscq_create_def Let_def)

lemma enter_leave:
  assumes "conn_inv p" and "c \<notin> set (preauth_list p)" and "preauth_list w' = preauth_list p" and "clth w' = clth p"
    and "next_addr w' = next_addr p" and "\<And>x. x \<noteq> c \<Longrightarrow> at w' x = at p x \<and> cls w' x = cls p x"
  shows "conn_inv w'"
proof (rule conn_inv_leave [of "{}" p c])
  show "heap_members (clth w') = heap_members (clth p) - {c}" using conn_invD(4) [OF assms(1), of c] assms(2,4) by auto
  show "heap_ok (clth w') (cls w')"
    unfolding assms(4) by (rule heap_ok_other [OF conn_invD(1) [OF assms(1)], of c]) (use conn_invD(4) [OF assms(1), of c] assms(2,6) in auto)
qed (use assms in \<open>simp_all add: conn_inv_but remove1_idem\<close>)

lemma ip_record_same: "std_ipblock_tbl w' = std_ipblock_tbl w \<Longrightarrow> ipb_recs w' = ipb_recs w \<Longrightarrow> ip_record w' = ip_record w"
  by (rule ext) (simp add: ip_record_def)

lemma ip_inv_beside:
  assumes "ip_inv w" and "beside c w w'" and "std_ipblock_tbl w' = std_ipblock_tbl w" and "ipb_recs w' = ipb_recs w"
  shows "ip_inv w'"
proof -
  have "ip_inv (w'\<lparr>std_cl_table := std_cl_table w\<rparr>)"
    by (rule ip_inv_away [OF assms(1) assms(2) [unfolded beside_def]]) (simp_all add: assms(3,4))
  then show ?thesis by (simp add: ip_inv_def)
qed

text \<open>The entry in the table, for a client that is prepared.\<close>

lemma table_entry:
  assumes "roster w" and v: "visitor w c" and p: "prepared c nm w p" and "name_ok nm" and room: "element_count (std_cl_table w) < 2 ^ 26"
  shows "\<exists>ht tr. htable_add calm_locks calm_resize (nds p) (std_cl_table w) c = Some (users w nm = None, ht, tr) \<and>
    client_table (nds p) ht \<and> ht_map (nds p) ht = (if users w nm = None then (users w)(nm \<mapsto> c) else users w) \<and>
    ht_nodes ht = (if users w nm = None then insert c (ht_nodes (std_cl_table w)) else ht_nodes (std_cl_table w)) \<and>
    element_count ht \<le> 2 ^ 26"
proof -
  have t: "client_table (nds w) (std_cl_table w)" using assms(1) by (simp add: roster_def)
  have np: "nds p = (nds w)(c := (nds w c)\<lparr>key := nm\<rparr>)" using p by (simp add: prepared_def)
  obtain ht tr where ad: "htable_add calm_locks calm_resize (nds p) (std_cl_table w) c = Some (users w nm = None, ht, tr)"
    "client_table (nds p) ht" "ht_map (nds p) ht = (if users w nm = None then (users w)(nm \<mapsto> c) else users w)"
    "ht_nodes ht = (if users w nm = None then insert c (ht_nodes (std_cl_table w)) else ht_nodes (std_cl_table w))"
    using client_add [OF t visitor_not_in_table [OF assms(1) v], of "(nds w c)\<lparr>key := nm\<rparr>" "users w nm = None"] v assms(4)
    by (auto simp: np users_def visitor_def)
  have fin: "finite (ht_nodes h)" for h by (simp add: ht_nodes_def)
  then have "card (ht_nodes ht) \<le> Suc (card (ht_nodes (std_cl_table w)))" by (simp add: ad(4) card_insert_if)
  then have "element_count ht \<le> 2 ^ 26"
    using room by (simp add: element_count_card [OF ad(2)] element_count_card [OF t])
  then show ?thesis using ad by blast
qed

lemma enter_free:
  assumes inv: "ip_inv w" "roster w" and v: "visitor w c" and p: "prepared c nm w p"
    and "name_ok nm" and "element_count (std_cl_table w) < 2 ^ 26" and u: "users w nm = None"
  shows "\<exists>w'. enter_table c p = Some w' \<and> joined c nm w w'"
proof -
  note p = preparedD [OF p]
  have pt: "std_cl_table p = std_cl_table w" using p(2) by (simp add: away_def shared_def)
  obtain ht tr where ad: "htable_add calm_locks calm_resize (nds p) (std_cl_table w) c = Some (True, ht, tr)"
    "client_table (nds p) ht" "ht_map (nds p) ht = (users w)(nm \<mapsto> c)" "ht_nodes ht = insert c (ht_nodes (std_cl_table w))"
    "element_count ht \<le> 2 ^ 26"
    using table_entry [OF inv(2) v assms(4,5,6)] u by auto
  define w1 where "w1 = set_state c AUTHENTICATED (send_auth_resp c AUTH_RESP_OK (p\<lparr>std_cl_table := ht\<rparr>))"
  define w' where "w' = set_rcv c (set_offset 0 (rcv w1 c)) w1"
  have eq: "enter_table c p = Some w'" using ad(1) by (simp add: enter_table_def pt w'_def w1_def Let_def)
  have f: "cls w' = (cls p)(c := (cls p c)\<lparr>cl_state := AUTHENTICATED, temp_recv_storage := set_offset 0 (rcv w c)\<rparr>)"
    "nds w' = nds p" "std_cl_table w' = ht" "preauth_list w' = preauth_list p" "clth w' = clth p" "next_addr w' = next_addr p"
    "std_ipblock_tbl w' = std_ipblock_tbl p" "ipb_recs w' = ipb_recs p" "sock_events w' = sock_events p" "queue_events w' = queue_events p"
    by (simp_all add: w'_def w1_def set_rcv_def set_state_def upd_cl_def send_auth_resp_def p(7) split: prod.splits)
  have bp: "away {c} p (w'\<lparr>std_cl_table := std_cl_table p\<rparr>)"
    by (auto simp: w'_def w1_def set_rcv_def set_state_def upd_cl_def send_auth_resp_def away_def shared_def at_def split: prod.splits)
  then have b: "beside c w w'" using away_trans [OF p(2)] by (simp add: beside_def pt)
  have ci: "conn_inv w'"
    by (rule enter_leave [OF p(1,4)]) (use bp f in \<open>simp_all add: away_def at_def\<close>)
  have ro: "roster w'"
    by (rule roster_beside [OF inv(2) visitor_not_in_table [OF inv(2) v] _ _ b])
      (use ad v p(3) in \<open>simp_all add: f p(8,9) visitor_def live_def fresh_login_def\<close>)
  have "awaiting (rcv w' c)" using v by (simp add: f visitor_def logging_in_def)
  moreover obtain n where "sent w' c = sent w c @ take n (be32 AUTH_RESP_OK)"
    using send_auth_resp_sent [of c AUTH_RESP_OK "p\<lparr>std_cl_table := ht\<rparr>"]
    by (auto simp: w'_def w1_def set_rcv_def set_state_def upd_cl_def p(12))
  moreover have "ip_inv w'" "ip_record w' = ip_record w"
    by (rule ip_inv_beside [OF inv(1) b] ip_record_same; simp add: f p(10,11))+
  ultimately have "joined c nm w w'"
    using ci ro b p(3,13) v ad(3,4)
    by (auto simp: joined_def fresh_login_def f p(8,10,11) users_def visitor_def)
  then show ?thesis using eq by blast
qed

lemma enter_taken:
  assumes inv: "ip_inv w" "roster w" and v: "visitor w c" and p: "prepared c nm w p"
    and "name_ok nm" and "element_count (std_cl_table w) < 2 ^ 26" and u: "users w nm \<noteq> None"
  shows "\<exists>w'. enter_table c p = Some w' \<and> taken c w w'"
proof -
  note p = preparedD [OF p]
  have pt: "std_cl_table p = std_cl_table w" using p(2) by (simp add: away_def shared_def)
  obtain ht tr where ad: "htable_add calm_locks calm_resize (nds p) (std_cl_table w) c = Some (False, ht, tr)"
    "client_table (nds p) ht" "ht_map (nds p) ht = users w" "ht_nodes ht = ht_nodes (std_cl_table w)" "element_count ht \<le> 2 ^ 26"
    using table_entry [OF inv(2) v assms(4,5,6)] u by auto
  define w1 where "w1 = forget_queue c (p\<lparr>std_cl_table := ht\<rparr>)"
  define w2 where "w2 = send_auth_resp c AUTH_RESP_DUPLICATE w1"
  define w' where "w' = cleanup_ACCEPTING c w2"
  have "close_queues c (p\<lparr>std_cl_table := ht\<rparr>) = Some w1"
    using p(3) by (simp add: close_queues_def fresh_login_def empty_queue_destroyed w1_def)
  then have e1: "enter_table c p = cleanup_std_client c w2" using ad(1) by (simp add: enter_table_def pt w2_def)
  have f2: "cls w2 = cls p" "clth w2 = clth p" "nds w2 = nds p" "preauth_list w2 = preauth_list p" "std_cl_table w2 = ht"
    by (simp_all add: w2_def w1_def send_auth_resp_def forget_queue_def split: prod.splits)
  have lv: "live w2 c" using v by (simp add: live_def f2 p(8) visitor_def)
  have rm: "cl_timerheap_remove (clth w2) (cls w2) c = Some (clth w2, cls w2)"
    using heap_remove_outside [OF conn_invD(1) [OF p(1)] _ p(6)] lv by (simp add: f2 live_def)
  have "w2\<lparr>clth := clth w2, cls := cls w2\<rparr> = w2" "cl_state (cls w2 c) = ACCEPTED" using p(5) f2(1) by simp_all
  then have e2: "cleanup_std_client c w2 = Some w'"
    using lv rm by (simp add: cleanup_std_client_def cleanup_ACCEPTED_def w'_def)
  have eq: "enter_table c p = Some w'" using e1 e2 by simp
  have f: "cls w' = (cls p)(c := (cls p c)\<lparr>sock_fd := - 1\<rparr>)" "nds w' = (nds p)(c := (nds p c)\<lparr>freed := True\<rparr>)" "std_cl_table w' = ht"
    "preauth_list w' = preauth_list p" "clth w' = clth p" "next_addr w' = next_addr p"
    "std_ipblock_tbl w' = std_ipblock_tbl p" "ipb_recs w' = ipb_recs p" "sock_events w' = (sock_events p)(c := None)"
    "queue_events w' = (queue_events p)(c := None)" "sent w' = sent w2"
    using p(4)
    by (simp_all add: w'_def cleanup_ACCEPTING_def cleanup_INIT_def forget_socket_def upd_cl_def Let_def list_remove1 f2 remove1_idem)
      (simp_all add: w2_def w1_def send_auth_resp_def forget_queue_def split: prod.splits)
  have bp: "away {c} p (w'\<lparr>std_cl_table := std_cl_table p\<rparr>)"
    by (auto simp: w'_def cleanup_ACCEPTING_def cleanup_INIT_def forget_socket_def upd_cl_def Let_def w2_def w1_def
        send_auth_resp_def forget_queue_def away_def shared_def at_def split: prod.splits)
  then have b: "beside c w w'" using away_trans [OF p(2)] by (simp add: beside_def pt)
  have ci: "conn_inv w'"
    by (rule enter_leave [OF p(1,4)]) (use bp f in \<open>simp_all add: away_def at_def\<close>)
  have ct: "client_table (nds w') ht" "ht_map (nds w') ht = ht_map (nds p) ht"
  proof -
    have k: "key (nds w' m) = key (nds p m)" "ref_cnt (nds w' m) = ref_cnt (nds p m)" for m by (simp_all add: f(2))
    show "client_table (nds w') ht" using ad(2) ht_ok_cong [of "nds w'" "nds p", OF k(1)] k(2) by (simp add: client_table_def)
    show "ht_map (nds w') ht = ht_map (nds p) ht" by (rule ht_map_cong) (rule k(1))
  qed
  have ro: "roster w'"
    by (rule roster_beside [OF inv(2) visitor_not_in_table [OF inv(2) v] _ _ b])
      (use ct(1) ad(4,5) visitor_not_in_table [OF inv(2) v] in \<open>auto simp: f(3)\<close>)
  moreover obtain n where "sent w' c = sent w c @ take n (be32 AUTH_RESP_DUPLICATE)"
    using send_auth_resp_sent [of c AUTH_RESP_DUPLICATE w1]
    by (auto simp: f(11) w2_def) (auto simp: w1_def forget_queue_def p(12))
  moreover have "ip_inv w'" "ip_record w' = ip_record w"
    by (rule ip_inv_beside [OF inv(1) b] ip_record_same; simp add: f p(10,11))+
  ultimately have "taken c w w'"
    using ci b p(3) ad(3,4) ct(2)
    by (auto simp: taken_def fresh_login_def f p(10,11) users_def)
  then show ?thesis using eq by blast
qed

lemma admit_ok:
  assumes "conn_inv w" and "ip_inv w" and "roster w" and c: "c \<in> set (preauth_list w)" and st: "cl_state (cls w c) = ACCEPTED"
    and req: "length (req_username req) = UNAMESIZE" "nm = map tolower (cstr (req_username req))" "nm \<noteq> []" "length nm < UNAMESIZE"
    and room: "element_count (std_cl_table w) < 2 ^ 26"
  shows "\<exists>w'. admit c req w = Some w' \<and> (if users w nm = None then joined c nm w w' else taken c w w')"
proof -
  have v: "visitor w c" by (rule conn_invD(3) [OF assms(1) c])
  have n: "name_ok nm" using req(2,3) no_NUL_cstr [of "req_username req"] by (auto simp: name_ok_def)
  from prepared_ok [OF assms(1) c st req(1,2)] req(4) obtain p where p: "admit c req w = enter_table c p" "prepared c nm w p" by auto
  show ?thesis
    using enter_free [OF assms(2,3) v p(2) n room] enter_taken [OF assms(2,3) v p(2) n room] unfolding p(1)
    by (cases "users w nm = None") auto
qed

subsection \<open>The handler\<close>

text \<open>Receiving, and writing to the receive buffer, changes nothing else.\<close>

definition only_rcv :: "addr \<Rightarrow> worker \<Rightarrow> worker \<Rightarrow> bool" where
  "only_rcv c w w' \<longleftrightarrow> (\<exists>rm i. w' = set_rcv c rm (w\<lparr>inputs := i\<rparr>) \<and> logging_in rm \<and> (\<forall>x. x \<noteq> c \<longrightarrow> i x = inputs w x))"

lemma only_rcv_trans: "only_rcv c w w1 \<Longrightarrow> only_rcv c w1 w2 \<Longrightarrow> only_rcv c w w2"
proof -
  assume "only_rcv c w w1" "only_rcv c w1 w2"
  then obtain rm i rm' i' where "w1 = set_rcv c rm (w\<lparr>inputs := i\<rparr>)" "\<forall>x. x \<noteq> c \<longrightarrow> i x = inputs w x"
    "w2 = set_rcv c rm' (w1\<lparr>inputs := i'\<rparr>)" "logging_in rm'" "\<forall>x. x \<noteq> c \<longrightarrow> i' x = inputs w1 x"
    by (auto simp: only_rcv_def)
  then show ?thesis unfolding only_rcv_def
    by (intro exI [of _ rm'] exI [of _ i']) (simp add: set_rcv_def upd_cl_def)
qed

lemma only_rcv_same:
  assumes "only_rcv c w w'"
  shows "preauth_list w' = preauth_list w" "clth w' = clth w" "nds w' = nds w" "std_cl_table w' = std_cl_table w" "next_addr w' = next_addr w"
    "std_ipblock_tbl w' = std_ipblock_tbl w" "ipb_recs w' = ipb_recs w" "sent w' = sent w" "sock_events w' = sock_events w"
    "queue_events w' = queue_events w" "efd_ok w' = efd_ok w" "now w' = now w" "cfg w' = cfg w"
    "peer_name (cls w' x) = peer_name (cls w x)" "cl_state (cls w' x) = cl_state (cls w x)" "timerheap_index (cls w' x) = timerheap_index (cls w x)"
    "username (cls w' x) = username (cls w x)" "temp_send_storage (cls w' x) = temp_send_storage (cls w x)"
    "away {c} w w'" "x \<noteq> c \<Longrightarrow> cls w' x = cls w x" "logging_in (rcv w' c)"
  using assms by (auto simp: only_rcv_def set_rcv_def upd_cl_def away_def shared_def at_def)

lemma only_rcv_listens:
  assumes "only_rcv c w w'" and "listens w' w2"
  shows "listens w w2"
  by (rule listens_trans [OF listens_same assms(2)]) (simp_all add: only_rcv_same [OF assms(1)])

lemma only_rcv_keeps:
  assumes "only_rcv c w w'"
  shows "users w' = users w" and "ip_record w' = ip_record w" and "conn_inv w \<Longrightarrow> conn_inv w'" and "ip_inv w \<Longrightarrow> ip_inv w'"
    and "roster w \<Longrightarrow> roster w'"
proof -
  note o = only_rcv_same [OF assms]
  show "users w' = users w" by (simp add: users_def o)
  show "ip_record w' = ip_record w" by (rule ip_record_same) (simp_all add: o)
  show "ip_inv w'" if "ip_inv w" by (rule ip_inv_away [OF that o(19)]) (simp_all add: o)
  show "roster w'" if "roster w" using that by (simp add: roster_def o live_def)
  have v: "visitor w' x" if "visitor w x" for x
    using that o(20,21) by (cases "x = c") (simp_all add: visitor_def live_def o)
  show "conn_inv w'" if "conn_inv w"
    using that v heap_ok_cong [of "clth w" "cls w" "cls w'"] by (auto simp: conn_inv_def o)
qed

lemma store_only_rcv:
  assumes "logging_in (rcv w c)" and "length b = length (rbuf (recvbuf (rcv w c)))"
  shows "only_rcv c w (set_rcv c ((rcv w c)\<lparr>recvbuf := (recvbuf (rcv w c))\<lparr>rbuf := b\<rparr>\<rparr>) w)"
proof -
  have "logging_in ((rcv w c)\<lparr>recvbuf := (recvbuf (rcv w c))\<lparr>rbuf := b\<rparr>\<rparr>)"
    using assms by (simp add: logging_in_def awaiting_def recv_ok_def buf_ok_def dest_ok_def off_of_def size_of_def set_offset_def)
  then show ?thesis unfolding only_rcv_def by (intro exI [of _ "inputs w"] exI conjI) simp_all
qed

text \<open>What the handler has done, by the verdict.\<close>

definition refused :: "addr \<Rightarrow> u32 \<Rightarrow> worker \<Rightarrow> worker \<Rightarrow> bool" where
  "refused c code w w' \<longleftrightarrow> turned_away c code w w' \<and> roster w' \<and> users w' = users w \<and>
     ip_record w' = failure_counted (peer_name (cls w c)) w"

definition decided :: "verdict \<Rightarrow> addr \<Rightarrow> worker \<Rightarrow> worker option \<Rightarrow> bool" where
  "decided v c w r \<longleftrightarrow>
     (case v of
        Crash \<Rightarrow> r = None
      | Refused code \<Rightarrow> \<exists>w'. r = Some w' \<and> refused c code w w'
      | Name_taken \<Rightarrow> \<exists>w'. r = Some w' \<and> taken c w w'
      | Admitted nm \<Rightarrow> \<exists>w'. r = Some w' \<and> joined c nm w w')"

lemma decided_rcv:
  assumes "only_rcv c w w1" and "decided v c w1 r"
  shows "decided v c w r"
proof -
  note o = only_rcv_same [OF assms(1)]
  have b: "beside c w1 w' \<Longrightarrow> beside c w w'" "away {c} w1 w' \<Longrightarrow> away {c} w w'" for w'
    using away_trans [OF o(19)] by (simp_all add: beside_def o(4))
  show ?thesis
  proof (cases v)
    case (Refused code)
    have "failure_counted (peer_name (cls w1 c)) w1 = failure_counted (peer_name (cls w c)) w"
      unfolding failure_counted_def only_rcv_keeps(2) [OF assms(1)] o(12,14) ..
    moreover have "turned_away c code w w'" if "turned_away c code w1 w'" for w'
      using that b(2) only_rcv_listens [OF assms(1)] by (simp add: turned_away_def o)
    ultimately show ?thesis using assms(2) Refused
      by (auto simp: decided_def refused_def only_rcv_keeps [OF assms(1)])
  next
    case Name_taken
    then show ?thesis using assms(2) b(1)
      by (auto simp: decided_def taken_def o only_rcv_keeps [OF assms(1)])
  next
    case (Admitted nm)
    then show ?thesis using assms(2) b(1)
      by (auto simp: decided_def joined_def fresh_login_def o only_rcv_keeps [OF assms(1)])
  qed (use assms(2) in \<open>simp add: decided_def\<close>)
qed

lemma roster_away:
  assumes "roster w" and "away {c} w w'" and "c \<notin> ht_nodes (std_cl_table w)"
  shows "roster w'" and "users w' = users w"
proof -
  have t: "client_table (nds w) (std_cl_table w)" using assms(1) by (simp add: roster_def)
  have a: "std_cl_table w' = std_cl_table w" "\<And>x. x \<noteq> c \<Longrightarrow> nds w' x = nds w x" using assms(2) by (simp_all add: away_def shared_def at_def)
  have b: "beside c w w'" unfolding beside_def a(1) [symmetric] using assms(2) by simp
  have n: "nds w' x = nds w x" if "x \<in> ht_nodes (std_cl_table w)" for x using a(2) that assms(3) by metis
  then have k: "key (nds w' x) = key (nds w x)" if "x \<in> ht_nodes (std_cl_table w)" for x using that by simp
  note ag = name_order.ht_agree [OF client_tableD(2) [OF t], of "nds w'" "nds w", OF k]
  show "users w' = users w" using ag(2) by (simp add: users_def a)
  have "client_table (nds w') (std_cl_table w')" using t ag(1) n by (simp add: client_table_def a)
  then show "roster w'"
    by (rule roster_beside [OF assms(1,3)]) (use assms(1,3) b in \<open>auto simp: roster_def a(1)\<close>)
qed

lemma authenticate_ok:
  assumes inv: "conn_inv w" "ip_inv w" "roster w" and c: "c \<in> set (preauth_list w)" and st: "cl_state (cls w c) = ACCEPTED"
    and room: "element_count (std_cl_table w) < 2 ^ 26" and req: "auth_req_of (rbuf (recvbuf (rcv w c))) = Some req"
  shows "decided (verdict fetch sha (use_auth (cfg w) \<noteq> 0) idx_ok db (users w) req) c w (authenticate fetch sha idx_ok db c w)"
proof -
  define auth where "auth \<longleftrightarrow> use_auth (cfg w) \<noteq> 0"
  have v: "visitor w c" by (rule conn_invD(3) [OF inv(1) c])
  note ro = auth_req_of_ok [OF req]
  have t: "client_table (nds w) (std_cl_table w)" using inv(3) by (simp add: roster_def)
  note cv = check_by_verdict [OF t ro(1) users_def auth_def, of fetch sha idx_ok db]
  have run: "\<exists>w1. only_rcv c w w1 \<and> authenticate fetch sha idx_ok db c w = (if code \<noteq> AUTH_RESP_OK then refuse c code w1 else admit c req' w1)"
    if "check_auth_req fetch sha idx_ok db req w = Some (code, req')" "req_ok req'" for code req'
  proof -
    from store_auth_req_ok [OF that(2) ro(2)] obtain b where
      b: "store_auth_req req' (rbuf (recvbuf (rcv w c))) = Some b" "length b = length (rbuf (recvbuf (rcv w c)))" by blast
    have "only_rcv c w (set_rcv c ((rcv w c)\<lparr>recvbuf := (recvbuf (rcv w c))\<lparr>rbuf := b\<rparr>\<rparr>) w)"
      by (rule store_only_rcv) (use v b(2) in \<open>simp_all add: visitor_def\<close>)
    then show ?thesis using that(1) b(1) req by (auto simp: authenticate_def Let_def)
  qed
  have ok: "req_ok (checked auth req)" using ro(1) terminate_fields_ok by (simp add: checked_def)
  have pass: "decided v c w (authenticate fetch sha idx_ok db c w)"
    if "check_auth_req fetch sha idx_ok db req w = Some (AUTH_RESP_OK, checked auth req)" "nm = login_name auth req" "nm \<noteq> []" "length nm < 32"
      "v = name_verdict (users w) nm" for v nm
  proof -
    from run [OF that(1) ok] obtain w1 where
      w1: "only_rcv c w w1" "authenticate fetch sha idx_ok db c w = admit c (checked auth req) w1" by auto
    note o = only_rcv_same [OF w1(1)]
    have "\<exists>w'. admit c (checked auth req) w1 = Some w' \<and> (if users w1 nm = None then joined c nm w1 w' else taken c w1 w')"
      by (rule admit_ok) (use inv only_rcv_keeps [OF w1(1)] c st ok that(2-4) room login_name_checked [OF ro(1)] in \<open>simp_all add: o req_ok_def\<close>)
    then have "decided v c w1 (admit c (checked auth req) w1)"
      using that(5) by (auto simp: name_verdict_def decided_def only_rcv_keeps [OF w1(1)])
    then show ?thesis using decided_rcv [OF w1(1)] w1(2) by simp
  qed
  show ?thesis
    unfolding auth_def [symmetric]
  proof (cases "verdict fetch sha auth idx_ok db (users w) req")
    case (Refused code)
    then obtain req' where ck: "check_auth_req fetch sha idx_ok db req w = Some (code, req')" "code \<noteq> AUTH_RESP_OK" "req_ok req'"
      using cv by auto
    obtain w1 where w1: "only_rcv c w w1" "authenticate fetch sha idx_ok db c w = refuse c code w1" using run [OF ck(1,3)] ck(2) by auto
    note k = only_rcv_keeps [OF w1(1)] and o = only_rcv_same [OF w1(1)]
    have "c \<in> set (preauth_list w1)" using c o(1) by simp
    from refuse_ok [OF k(3) [OF inv(1)] k(4) [OF inv(2)] this, of code] obtain w' where
      w': "refuse c code w1 = Some w'" "turned_away c code w1 w'"
      "ip_record w' = failure_counted (peer_name (cls w1 c)) w1" by blast
    have "away {c} w1 w'" using w'(2) by (simp add: turned_away_def)
    from roster_away [OF k(5) [OF inv(3)] this] visitor_not_in_table [OF inv(3) v] w' have "refused c code w1 w'"
      by (simp add: refused_def o(4))
    then have "decided (Refused code) c w1 (Some w')" by (simp add: decided_def)
    from decided_rcv [OF w1(1) this]
    show "decided (verdict fetch sha auth idx_ok db (users w) req) c w (authenticate fetch sha idx_ok db c w)"
      using w1(2) w'(1) Refused by simp
  next
    case Crash
    then consider "check_auth_req fetch sha idx_ok db req w = None"
      | "check_auth_req fetch sha idx_ok db req w = Some (AUTH_RESP_OK, req)" "length (cstr (req_username req)) = UNAMESIZE"
      using cv by auto
    then have "authenticate fetch sha idx_ok db c w = None"
    proof cases
      case 1
      then show ?thesis using req by (simp add: authenticate_def)
    next
      case 2
      obtain w1 where w1: "only_rcv c w w1" "authenticate fetch sha idx_ok db c w = admit c req w1" using run [OF 2(1) ro(1)] by auto
      note o = only_rcv_same [OF w1(1)]
      have "c \<in> set (preauth_list w1)" "cl_state (cls w1 c) = ACCEPTED" using c st by (simp_all add: o)
      from prepared_ok [OF only_rcv_keeps(3) [OF w1(1) inv(1)] this, of req] 2(2) ro(1) show ?thesis
        by (simp add: w1(2) req_ok_def)
    qed
    then show "decided (verdict fetch sha auth idx_ok db (users w) req) c w (authenticate fetch sha idx_ok db c w)"
      using Crash by (simp add: decided_def)
  next
    case Name_taken
    then show "decided (verdict fetch sha auth idx_ok db (users w) req) c w (authenticate fetch sha idx_ok db c w)"
      using cv by (intro pass) (auto simp: name_verdict_def)
  next
    case (Admitted nm)
    then show "decided (verdict fetch sha auth idx_ok db (users w) req) c w (authenticate fetch sha idx_ok db c w)"
      using cv by (intro pass) (auto simp: name_verdict_def)
  qed
qed

lemma logging_in_received:
  assumes "logging_in rm" and "fits d rm" and "offset_in rm + length d \<le> AUTH_REQ_SIZE"
  shows "logging_in (received False d rm)"
proof -
  have "unat (off_of (received False d rm)) \<le> AUTH_REQ_SIZE"
    using off_of_received [OF assms(2), of False] assms(3) by (simp add: offset_in_off_of)
  then show ?thesis
    using assms(1) length_received [OF assms(2), of False]
    by (simp add: logging_in_def awaiting_def recv_ok_def buf_ok_def dest_ok_def set_offset_def off_of_def size_of_def)
qed

lemma visitor_rcv:
  assumes "visitor w c"
  shows "length (rbuf (recvbuf (rcv w c))) = LWMP_MAX_PDU_SIZE" and "offset_in (rcv w c) \<le> AUTH_REQ_SIZE" and "logging_in (rcv w c)"
  using assms
  by (auto simp: visitor_def logging_in_def awaiting_def recv_ok_def buf_ok_def set_offset_def offset_in_def off_of_def)

lemma request_left:
  assumes "unat (off_of rm) \<le> AUTH_REQ_SIZE"
  shows "unat (of_nat AUTH_REQ_SIZE - ucast (off_of rm) :: u64) = AUTH_REQ_SIZE - unat (off_of rm)"
    and "off_of rm < of_nat AUTH_REQ_SIZE \<longleftrightarrow> unat (off_of rm) < AUTH_REQ_SIZE"
proof -
  have u: "unat (ucast (off_of rm) :: u64) = unat (off_of rm)"
    using assms by (simp add: unsigned_ucast_eq take_bit_eq_mod)
  then have "(ucast (off_of rm) :: u64) \<le> 56" using assms by (simp add: word_le_nat_alt)
  then show "unat (of_nat AUTH_REQ_SIZE - ucast (off_of rm) :: u64) = AUTH_REQ_SIZE - unat (off_of rm)"
    using u by (simp add: unat_sub)
  show "off_of rm < of_nat AUTH_REQ_SIZE \<longleftrightarrow> unat (off_of rm) < AUTH_REQ_SIZE" by (simp add: word_less_nat_alt)
qed

definition hung_up :: "addr \<Rightarrow> worker \<Rightarrow> worker \<Rightarrow> bool" where
  "hung_up c w w' \<longleftrightarrow> conn_inv w' \<and> ip_inv w' \<and> roster w' \<and> away {c} w w' \<and> preauth_list w' = remove1 c (preauth_list w) \<and>
     freed (nds w' c) \<and> sock_events w' c = None \<and> listens w w' \<and> sent w' = sent w \<and> users w' = users w"

lemma cleanup_hung_up:
  assumes "conn_inv w" "ip_inv w" "roster w" "c \<in> set (preauth_list w)"
  shows "\<exists>w'. cleanup_std_client c w = Some w' \<and> hung_up c w w'"
proof -
  have "conn_but {} w" using assms(1) by (simp add: conn_inv_but)
  from cleanup_visitor [OF this _ assms(4)] obtain w' where
    w': "cleanup_std_client c w = Some w'" "conn_inv w'" "away {c} w w'" "preauth_list w' = remove1 c (preauth_list w)" "freed (nds w' c)"
    "sock_events w' c = None" "std_ipblock_tbl w' = std_ipblock_tbl w" "ipb_recs w' = ipb_recs w" "sent w' = sent w" "listens w w'"
    by blast
  moreover have "visitor w c" by (rule conn_invD(3) [OF assms(1,4)])
  ultimately show ?thesis
    using roster_away [OF assms(3) w'(3) visitor_not_in_table [OF assms(3)]] ip_inv_away [OF assms(2) w'(3,7,8)]
    by (simp add: hung_up_def)
qed

text \<open>The bytes that the client has sent towards its request.\<close>

definition request_bytes :: "worker \<Rightarrow> addr \<Rightarrow> byte list" where
  "request_bytes w c = take AUTH_REQ_SIZE (take (offset_in (rcv w c)) (rbuf (recvbuf (rcv w c))) @ in_bytes (inputs w c))"

text \<open>In every case the client waits on, is gone, or has sent a request that is decided.\<close>

lemma login_cases:
  assumes inv: "conn_inv w" "ip_inv w" "roster w" and c: "c \<in> set (preauth_list w)" and st: "cl_state (cls w c) = ACCEPTED"
    and room: "element_count (std_cl_table w) < 2 ^ 26"
  shows "\<exists>r. wt_handle_authentication fetch sha idx_ok db c w = r \<and>
    ((\<exists>w'. r = Some w' \<and> only_rcv c w w') \<or> (\<exists>w'. r = Some w' \<and> hung_up c w w') \<or>
     (\<exists>req. auth_req_of (request_bytes w c) = Some req \<and>
        decided (verdict fetch sha (use_auth (cfg w) \<noteq> 0) idx_ok db (users w) req) c w r))"
proof -
  have v: "visitor w c" by (rule conn_invD(3) [OF inv(1) c])
  note vr = visitor_rcv [OF v]
  define cond where "cond = (\<lambda>rm. off_of rm < (of_nat AUTH_REQ_SIZE :: u32))"
  define len where "len = (\<lambda>rm. of_nat AUTH_REQ_SIZE - ucast (off_of rm) :: u64)"
  have "\<exists>e d inp'. recv_while True False cond len (rcv w c) (inputs w c) = Some (e, received False d (rcv w c), inp') \<and>
      fits d (rcv w c) \<and> offset_in (rcv w c) + length d \<le> AUTH_REQ_SIZE \<and>
      (e \<noteq> Rerr \<longrightarrow> in_bytes (inputs w c) = d @ in_bytes inp') \<and> (e = Rdone \<longrightarrow> \<not> cond (received False d (rcv w c)))"
  proof (rule recv_while_correct)
    fix d assume d: "fits d (rcv w c)" "offset_in (rcv w c) + length d \<le> AUTH_REQ_SIZE"
    show "offset_in (rcv w c) + length d + unat (len (received False d (rcv w c))) \<le> AUTH_REQ_SIZE"
      using d request_left(1) [of "received False d (rcv w c)"] off_of_received [OF d(1), of False] by (simp add: len_def offset_in_off_of)
  qed (use vr in simp_all)
  then obtain e d inp' where r: "recv_while True False cond len (rcv w c) (inputs w c) = Some (e, received False d (rcv w c), inp')"
    "fits d (rcv w c)" "offset_in (rcv w c) + length d \<le> AUTH_REQ_SIZE"
    "e \<noteq> Rerr \<longrightarrow> in_bytes (inputs w c) = d @ in_bytes inp'" "e = Rdone \<longrightarrow> \<not> cond (received False d (rcv w c))" by blast
  define w1 where "w1 = set_rcv c (received False d (rcv w c)) (w\<lparr>inputs := (inputs w)(c := inp')\<rparr>)"
  have o: "only_rcv c w w1"
    unfolding only_rcv_def w1_def
    by (intro exI [of _ "received False d (rcv w c)"] exI [of _ "(inputs w)(c := inp')"])
      (simp add: logging_in_received [OF vr(3) r(2,3)])
  note same = only_rcv_same [OF o] and keep = only_rcv_keeps [OF o]
  have eq: "wt_handle_authentication fetch sha idx_ok db c w =
      (case e of Rerr \<Rightarrow> cleanup_std_client c w1 | Rblock \<Rightarrow> Some w1 | Rdone \<Rightarrow> authenticate fetch sha idx_ok db c w1)"
    using v r(1) unfolding wt_handle_authentication_def receive_def cond_def [symmetric] len_def [symmetric]
    by (cases e; cases "cleanup_std_client c w1") (auto simp: visitor_def Let_def w1_def [symmetric])
  have c1: "c \<in> set (preauth_list w1)" "cl_state (cls w1 c) = ACCEPTED" using c st by (simp_all add: same)
  show ?thesis
  proof (cases e)
    case Rerr
    obtain w2 where w2: "cleanup_std_client c w1 = Some w2" "hung_up c w1 w2"
      using cleanup_hung_up [OF keep(3) [OF inv(1)] keep(4) [OF inv(2)] keep(5) [OF inv(3)] c1(1)] by blast
    then have "hung_up c w w2" using away_trans [OF same(19)] only_rcv_listens [OF o] by (auto simp: hung_up_def same keep)
    then show ?thesis using eq Rerr w2(1) by auto
  next
    case Rblock
    then show ?thesis using eq o by auto
  next
    case Rdone
    have "unat (off_of (received False d (rcv w c))) = offset_in (rcv w c) + length d"
      using off_of_received [OF r(2), of False] by (simp add: offset_in_off_of)
    then have ld: "offset_in (rcv w c) + length d = AUTH_REQ_SIZE"
      using request_left(2) [of "received False d (rcv w c)"] r(3,5) Rdone by (simp add: cond_def)
    have "rcv w1 c = received False d (rcv w c)" by (simp add: w1_def set_rcv_def upd_cl_def)
    then have tk: "take AUTH_REQ_SIZE (rbuf (recvbuf (rcv w1 c))) = request_bytes w c"
      using ld r(4) Rdone vr(1,2) by (simp add: received_rbuf request_bytes_def offset_in_def)
    have "AUTH_REQ_SIZE \<le> length (rbuf (recvbuf (rcv w1 c)))" using visitor_rcv(1) [OF conn_invD(3) [OF keep(3) [OF inv(1)] c1(1)]] by simp
    then obtain req where req: "auth_req_of (rbuf (recvbuf (rcv w1 c))) = Some req" using auth_req_of_exists by blast
    have "decided (verdict fetch sha (use_auth (cfg w1) \<noteq> 0) idx_ok db (users w1) req) c w1 (authenticate fetch sha idx_ok db c w1)"
      by (rule authenticate_ok [OF keep(3) [OF inv(1)] keep(4) [OF inv(2)] keep(5) [OF inv(3)] c1 _ req]) (use room in \<open>simp add: same\<close>)
    moreover have "auth_req_of (request_bytes w c) = Some req" using req auth_req_of_take tk by metis
    ultimately show ?thesis using decided_rcv [OF o] eq Rdone by (auto simp: same keep)
  qed
qed

lemma recv_while_do: "cond rm \<Longrightarrow> recv_while True counted cond len rm inp = recv_while False counted cond len rm inp"
  by (subst (1 2) recv_while.simps) simp

lemma login_exact:
  assumes inv: "conn_inv w" "ip_inv w" "roster w" and c: "c \<in> set (preauth_list w)" and st: "cl_state (cls w c) = ACCEPTED"
    and room: "element_count (std_cl_table w) < 2 ^ 26" and inp: "ready (inputs w c)" "offset_in (rcv w c) < AUTH_REQ_SIZE"
    and req: "auth_req_of (request_bytes w c) = Some req"
  shows "decided (verdict fetch sha (use_auth (cfg w) \<noteq> 0) idx_ok db (users w) req) c w (wt_handle_authentication fetch sha idx_ok db c w)"
proof -
  have v: "visitor w c" by (rule conn_invD(3) [OF inv(1) c])
  note vr = visitor_rcv [OF v]
  define n where "n = AUTH_REQ_SIZE - offset_in (rcv w c)"
  define d where "d = take n (in_bytes (inputs w c))"
  define cond where "cond = (\<lambda>rm. off_of rm < (of_nat AUTH_REQ_SIZE :: u32))"
  define len where "len = (\<lambda>rm. of_nat AUTH_REQ_SIZE - ucast (off_of rm) :: u64)"
  have rb: "request_bytes w c = take (offset_in (rcv w c)) (rbuf (recvbuf (rcv w c))) @ d"
    using inp(2) vr(1) by (simp add: request_bytes_def d_def n_def)
  then have enough: "n \<le> length (in_bytes (inputs w c))"
    using auth_req_of_ok(2) [OF req] inp(2) vr(1) by (simp add: d_def n_def)
  have need: "fits d (rcv w c) \<and> (cond (received False d (rcv w c)) \<longleftrightarrow> length d < n) \<and>
      (length d < n \<longrightarrow> unat (len (received False d (rcv w c))) = n - length d)" if "length d \<le> n" for d
  proof -
    have f: "fits d (rcv w c)" using vr(1) that inp(2) by (simp add: fits_def n_def offset_in_def)
    have o: "unat (off_of (received False d (rcv w c))) = offset_in (rcv w c) + length d"
      using off_of_received [OF f, of False] by (simp add: offset_in_off_of)
    then have "unat (off_of (received False d (rcv w c))) \<le> 56" using that inp(2) by (simp add: n_def)
    from request_left [OF this] show ?thesis using f o inp(2) by (auto simp: cond_def len_def n_def)
  qed
  have "cond (rcv w c)" using inp(2) request_left(2) [of "rcv w c"] vr(2) by (simp add: cond_def offset_in_off_of)
  then obtain inp' where r: "recv_while True False cond len (rcv w c) (inputs w c) = Some (Rdone, received False d (rcv w c), inp')"
    using recv_while_exact [OF need inp(1)] enough recv_while_do [of cond] by (auto simp: d_def)
  have ld: "length d = n" using enough by (simp add: d_def)
  have f: "fits d (rcv w c)" using need [of d] ld by simp
  define w1 where "w1 = set_rcv c (received False d (rcv w c)) (w\<lparr>inputs := (inputs w)(c := inp')\<rparr>)"
  have o: "only_rcv c w w1"
    unfolding only_rcv_def w1_def
    by (intro exI [of _ "received False d (rcv w c)"] exI [of _ "(inputs w)(c := inp')"])
      (use logging_in_received [OF vr(3) f] ld inp(2) in \<open>simp add: n_def\<close>)
  note same = only_rcv_same [OF o] and keep = only_rcv_keeps [OF o]
  have eq: "wt_handle_authentication fetch sha idx_ok db c w = authenticate fetch sha idx_ok db c w1"
    using v r unfolding wt_handle_authentication_def receive_def cond_def [symmetric] len_def [symmetric]
    by (simp add: visitor_def Let_def w1_def [symmetric])
  have "rcv w1 c = received False d (rcv w c)" by (simp add: w1_def set_rcv_def upd_cl_def)
  then have "take AUTH_REQ_SIZE (rbuf (recvbuf (rcv w1 c))) = request_bytes w c"
    using ld inp(2) vr(1) by (simp add: received_rbuf rb n_def offset_in_def)
  then have "auth_req_of (rbuf (recvbuf (rcv w1 c))) = Some req" using req auth_req_of_take by metis
  then have "decided (verdict fetch sha (use_auth (cfg w1) \<noteq> 0) idx_ok db (users w1) req) c w1 (authenticate fetch sha idx_ok db c w1)"
    by (intro authenticate_ok [OF keep(3) [OF inv(1)] keep(4) [OF inv(2)] keep(5) [OF inv(3)]]) (use c st room in \<open>simp_all add: same\<close>)
  from decided_rcv [OF o this] show ?thesis unfolding eq by (simp add: same keep)
qed

subsection \<open>Properties\<close>

text \<open>The worker of the example in \<open>Connect\<close>, on which a client waits at address 10 for its login.\<close>

definition login_worker :: "recv_res list \<Rightarrow> worker" where
  "login_worker inp = listening_worker\<lparr>next_addr := 11, preauth_list := [10], clth := \<lparr>clients = [10], num_clients = 1, num_slots = 1\<rparr>,
     cls := (cls listening_worker)(10 := (fst (create_std_client 7 5 0 (replicate LWMP_MAX_PDU_SIZE 0)))
       \<lparr>cl_state := ACCEPTED, timerheap_index := 0\<rparr>),
     nds := (nds listening_worker)(10 := \<lparr>key = [], ref_cnt = 1, freed = False\<rparr>), inputs := (inputs listening_worker)(10 := inp),
     sock_events := (sock_events listening_worker)(10 \<mapsto> (True, False))\<rparr>"

definition login_bytes :: "byte list \<Rightarrow> byte list" where
  "login_bytes nm = be32 REQ_AUTHENTICATION @ strncpy_bytes nm UNAMESIZE @ strncpy_bytes [112] PWDSIZE"

lemma login_bytes_req: "auth_req_of (login_bytes nm) =
    Some \<lparr>request_type = REQ_AUTHENTICATION, req_username = strncpy_bytes nm 32, req_password = strncpy_bytes [112] 20\<rparr>"
  by (simp add: auth_req_of_def login_bytes_def load32_def mem_read_def of_be32_be32)

lemma login_worker_ok:
  "conn_inv (login_worker inp)" "ip_inv (login_worker inp)" "roster (login_worker inp)" "10 \<in> set (preauth_list (login_worker inp))"
  "cl_state (cls (login_worker inp) 10) = ACCEPTED" "element_count (std_cl_table (login_worker inp)) < 2 ^ 26"
  "inputs (login_worker inp) 10 = inp" "offset_in (rcv (login_worker inp) 10) = 0" "cfg (login_worker inp) = get_default_cfg"
  "users (login_worker inp) [67] = None" "users (login_worker inp) [99] = None"
  "request_bytes (login_worker inp) 10 = take AUTH_REQ_SIZE (in_bytes inp)"
proof -
  define w where "w = login_worker inp"
  have f: "nds w = example_nodes(10 := \<lparr>key = [], ref_cnt = 1, freed = False\<rparr>)" "std_cl_table w = example_ht"
    "cls w = (\<lambda>n. example_client (if n = 3 then 98 else 97))(10 := (fst (create_std_client 7 5 0 (replicate 4096 0)))
       \<lparr>cl_state := ACCEPTED, timerheap_index := 0\<rparr>)"
    by (simp_all add: w_def login_worker_def listening_worker_def example_worker_def)
  have "ht_ok name_ok (nds w) example_ht = ht_ok name_ok example_nodes example_ht"
    by (rule name_order.ht_agree [OF example_ht_ok(2)]) (auto simp: f example_nodes_in_table)
  then have t: "client_table (nds w) (std_cl_table w)"
    using example_ht_ok by (auto simp: client_table_def f example_nodes_in_table example_nodes_def)
  have "logging_in (rcv w 10)"
    using new_client_ok(2) [of "\<lparr>in_peer = 0, in_sock = 5, in_accepts = [], in_inputs = [], in_outputs = []\<rparr>" "example_worker []" 10]
    by (simp add: f create_std_client_def logging_in_def awaiting_def recv_ok_def buf_ok_def dest_ok_def off_of_def size_of_def set_offset_def MT_NONE_def)
  then have "visitor w 10"
    by (simp add: visitor_def live_def f) (simp add: w_def login_worker_def create_std_client_def listening_worker_def example_worker_def)
  then show "conn_inv (login_worker inp)"
    unfolding w_def [symmetric]
    by (simp add: conn_inv_def) (simp add: w_def login_worker_def heap_ok_def heap_members_def exI [of _ "0 :: nat"])
  show "ip_inv (login_worker inp)"
    using listening_worker_ok(2) by (auto simp: login_worker_def ip_inv_def listening_worker_ok(6))
  show "roster (login_worker inp)"
    unfolding w_def [symmetric] using t
    by (auto simp: roster_def f example_nodes_in_table live_def example_nodes_def) (simp_all add: w_def login_worker_def example_ht_def)
  have u: "users w k = None" if "k \<noteq> [97]" "k \<noteq> [98]" for k
    using name_order.ht_map_Some_iff [OF client_tableD(1,2) [OF t], of k] that
    by (cases "users w k") (auto simp: users_def f example_nodes_in_table example_nodes_def)
  then show "users (login_worker inp) [67] = None" "users (login_worker inp) [99] = None" by (simp_all add: w_def)
  show "cl_state (cls (login_worker inp) 10) = ACCEPTED" "inputs (login_worker inp) 10 = inp" "10 \<in> set (preauth_list (login_worker inp))"
    "element_count (std_cl_table (login_worker inp)) < 2 ^ 26" "cfg (login_worker inp) = get_default_cfg"
    by (simp_all add: login_worker_def listening_worker_def example_worker_def example_ht_def)
  show "offset_in (rcv (login_worker inp) 10) = 0" "request_bytes (login_worker inp) 10 = take AUTH_REQ_SIZE (in_bytes inp)"
    by (simp_all add: request_bytes_def login_worker_def offset_in_def create_std_client_def)
qed



text \<open>C11. Whatever a client sends during its login, and however its connection fails, the worker keeps its invariants and
  all other clients, and no user that is connected is displaced: the only change to the table of users is that the
  client itself may have entered, under a name that was free. The server stops only for one of three requests: an empty
  name; a name of 32 bytes while logins are not checked; a stored hash that is too short.\<close>

theorem login_safe:
  assumes "conn_inv w" and "ip_inv w" and "roster w" and "c \<in> set (preauth_list w)" and "cl_state (cls w c) = ACCEPTED"
    and "element_count (std_cl_table w) < 2 ^ 26"
  shows "(\<exists>w'. wt_handle_authentication fetch sha idx_ok db c w = Some w' \<and> conn_inv w' \<and> ip_inv w' \<and> roster w' \<and> beside c w w' \<and>
      (\<forall>nm. users w' nm = users w nm \<or> users w nm = None \<and> users w' nm = Some c \<and> cl_state (cls w' c) = AUTHENTICATED)) \<or>
    (\<exists>req. auth_req_of (request_bytes w c) = Some req \<and> request_type req = REQ_AUTHENTICATION \<and>
      wt_handle_authentication fetch sha idx_ok db c w = None \<and>
      (cstr (req_username req) = [] \<or> use_auth (cfg w) = 0 \<and> length (cstr (req_username req)) = UNAMESIZE \<or>
       (\<exists>h. fetch (user_of req) db = Some h \<and> length h < 32)))"
proof -
  have b: "beside c w w'" if "away {c} w w'" for w'
  proof -
    have "std_cl_table w' = std_cl_table w" using that by (simp add: away_def shared_def)
    then show ?thesis using that by (simp add: beside_def flip: \<open>std_cl_table w' = std_cl_table w\<close>)
  qed
  from login_cases [OF assms, of fetch sha idx_ok db] consider
      (waits) w' where "wt_handle_authentication fetch sha idx_ok db c w = Some w'" "only_rcv c w w'"
    | (gone) w' where "wt_handle_authentication fetch sha idx_ok db c w = Some w'" "hung_up c w w'"
    | (sent) req where "auth_req_of (request_bytes w c) = Some req"
        "decided (verdict fetch sha (use_auth (cfg w) \<noteq> 0) idx_ok db (users w) req) c w (wt_handle_authentication fetch sha idx_ok db c w)"
    by blast
  then show ?thesis
  proof cases
    case waits
    then show ?thesis using only_rcv_keeps [OF waits(2)] assms(1-3) b [OF only_rcv_same(19) [OF waits(2)]] by simp
  next
    case gone
    then show ?thesis using b by (auto simp: hung_up_def)
  next
    case sent
    show ?thesis
    proof (cases "verdict fetch sha (use_auth (cfg w) \<noteq> 0) idx_ok db (users w) req")
      case (Refused code)
      then show ?thesis using sent b by (auto simp: decided_def refused_def turned_away_def)
    next
      case Name_taken
      then show ?thesis using sent by (auto simp: decided_def taken_def)
    next
      case (Admitted nm)
      then have "users w nm = None" by (auto simp: verdict_def name_verdict_def Let_def split: if_splits option.splits)
      moreover obtain w' where "wt_handle_authentication fetch sha idx_ok db c w = Some w'" "joined c nm w w'"
        using sent Admitted by (auto simp: decided_def)
      ultimately show ?thesis by (intro disjI1 exI [of _ w']) (simp add: joined_def)
    next
      case Crash
      then show ?thesis using sent
        by (auto simp: decided_def verdict_def name_verdict_def Let_def split: if_splits option.splits)
    qed
  qed
qed

theorem login_safe_witness:
  "\<exists>w'. wt_handle_authentication (\<lambda>u db. db u) example_sha True Map.empty 10 (login_worker [RecvData [1], RecvError]) = Some w' \<and>
    conn_inv w' \<and> roster w'"
proof -
  have "auth_req_of (request_bytes (login_worker [RecvData [1], RecvError]) 10) = None"
    by (simp add: login_worker_ok auth_req_of_def load32_def mem_read_def)
  then show ?thesis
    using login_safe [OF login_worker_ok(1-6) [of "[RecvData [1], RecvError]"], of "\<lambda>u db. db u" example_sha True Map.empty] by auto
qed

text \<open>C12. A request with an empty name stops the server, whatever its password and whether logins are checked or
  not: the lookup of the name fails an assertion of the hash table.\<close>

theorem empty_name_aborts:
  assumes "conn_inv w" and "ip_inv w" and "roster w" and "c \<in> set (preauth_list w)" and "cl_state (cls w c) = ACCEPTED"
    and "element_count (std_cl_table w) < 2 ^ 26" and "ready (inputs w c)" and "offset_in (rcv w c) < AUTH_REQ_SIZE"
    and "auth_req_of (request_bytes w c) = Some req" and "request_type req = REQ_AUTHENTICATION" and "req_username req ! 0 = 0"
  shows "wt_handle_authentication fetch sha idx_ok db c w = None"
proof -
  have "cstr (req_username req) = []"
    using assms(11) auth_req_of_ok(1) [OF assms(9)] by (cases "req_username req") (auto simp: req_ok_def)
  then have "verdict fetch sha (use_auth (cfg w) \<noteq> 0) idx_ok db (users w) req = Crash" using assms(10) by (simp add: verdict_def)
  then show ?thesis using login_exact [OF assms(1-9), of fetch sha idx_ok db] by (simp add: decided_def)
qed

theorem empty_name_aborts_witness:
  "wt_handle_authentication (\<lambda>u db. db u) example_sha True Map.empty 10 (login_worker [RecvData (login_bytes [])]) = None"
proof (rule empty_name_aborts [OF login_worker_ok(1-6)])
  define inp where "inp = [RecvData (login_bytes [])]"
  have len: "length (login_bytes []) = 56" by (simp add: login_bytes_def)
  then show "ready (inputs (login_worker [RecvData (login_bytes [])]) 10)" unfolding login_worker_ok(7) ready_def by auto
  show "offset_in (rcv (login_worker [RecvData (login_bytes [])]) 10) < AUTH_REQ_SIZE" by (simp add: login_worker_ok(8))
  show "auth_req_of (request_bytes (login_worker [RecvData (login_bytes [])]) 10) =
      Some \<lparr>request_type = REQ_AUTHENTICATION, req_username = strncpy_bytes [] 32, req_password = strncpy_bytes [112] 20\<rparr>"
    using len unfolding login_worker_ok(12) by (simp add: login_bytes_req)
qed (simp_all add: strncpy_bytes_def)

end
