(* ===== verification/Sweep.thy ===== *)
theory Sweep
  imports Login
begin

text \<open>
  The invariant of a worker thread between two events, and the sweeping of the clients that have
  disconnected (\<open>node_arr_sweep\<close> with \<open>free_std_client\<close>, as \<open>worker_thrd_routine\<close> calls it after each
  batch of events).
\<close>

subsection \<open>The invariant\<close>

text \<open>The clients in the table have one reference each and storage that is in order, and the array holds some of those
  that have disconnected, each once.\<close>

definition tended :: "worker \<Rightarrow> bool" where
  "tended w \<longleftrightarrow> (\<forall>n \<in> ht_nodes (std_cl_table w). recv_ok (rcv w n) \<and> ref_cnt (nds w n) = 1)"

definition dconn_ok :: "worker \<Rightarrow> bool" where
  "dconn_ok w \<longleftrightarrow> distinct (nodes (dconn_clients w)) \<and>
     set (nodes (dconn_clients w)) \<subseteq> {n \<in> ht_nodes (std_cl_table w). cl_state (cls w n) = DISCONNECTED}"

text \<open>What \<open>epoll\<close> has a pointer to: the sockets of clients that are in the list, and the sockets and the queues of
  those that are logged in.\<close>

definition online :: "worker \<Rightarrow> addr \<Rightarrow> bool" where
  "online w n \<longleftrightarrow> n \<in> ht_nodes (std_cl_table w) \<and> cl_state (cls w n) = AUTHENTICATED"

definition watch_ok :: "worker \<Rightarrow> bool" where
  "watch_ok w \<longleftrightarrow> (\<forall>n. (queue_events w n \<noteq> None \<longrightarrow> online w n) \<and>
     (sock_events w n \<noteq> None \<longrightarrow> n \<in> set (preauth_list w) \<or> online w n))"

definition wt_inv :: "worker \<Rightarrow> bool" where
  "wt_inv w \<longleftrightarrow> conn_inv w \<and> ip_inv w \<and> roster w \<and> owns (ht_nodes (std_cl_table w)) w \<and> tended w \<and> dconn_ok w \<and> watch_ok w"

text \<open>What the invariant of the clients that have not logged in depends on.\<close>

definition visitor_view :: "std_client \<Rightarrow> _" where
  "visitor_view s = (cl_state s, temp_recv_storage s, temp_send_storage s, username s, timerheap_index s)"

lemma conn_inv_cong:
  assumes "conn_inv w" and "preauth_list w' = preauth_list w" and "clth w' = clth w" and "next_addr w \<le> next_addr w'"
    and "\<And>x. x \<in> set (preauth_list w) \<Longrightarrow> visitor_view (cls w' x) = visitor_view (cls w x) \<and> nds w' x = nds w x \<and> sock_events w' x = sock_events w x"
  shows "conn_inv w'"
proof -
  have "visitor w' x" if "x \<in> set (preauth_list w)" for x
    using conn_invD(3) [OF assms(1) that] assms(4) assms(5) [OF that] by (simp add: visitor_def live_def visitor_view_def)
  moreover have "heap_ok (clth w) (cls w')"
    by (rule heap_ok_cong [OF conn_invD(1) [OF assms(1)]]) (use conn_invD(4) [OF assms(1)] assms(5) in \<open>simp add: visitor_view_def\<close>)
  moreover have "{x \<in> set (preauth_list w). cl_state (cls w' x) = ACCEPTED} = {x \<in> set (preauth_list w). cl_state (cls w x) = ACCEPTED}"
    using assms(5) by (auto simp: visitor_view_def)
  ultimately show ?thesis using assms(1) by (simp add: conn_inv_def assms(2,3))
qed

subsection \<open>Clients leave the table\<close>

definition dead :: "addr set \<Rightarrow> node_store \<Rightarrow> node_store" where
  "dead A s = (\<lambda>n. if n \<in> A then (s n)\<lparr>ref_cnt := 0, freed := True\<rparr> else s n)"

lemma dead_key [simp]: "key (dead A s n) = key (s n)"
  by (simp add: dead_def)

lemma valid_in_table:
  assumes "client_table s ht" and "n \<in> ht_nodes ht"
  shows "name_ok (key (s n))"
  using assms by (auto simp: client_table_def ht_ok_def in_ht_nodes name_order.chain_ok_def)

lemma remove_clients:
  assumes "client_table s ht" and "distinct ns" and "set ns \<subseteq> ht_nodes ht" and "\<And>n. n \<in> set ns \<Longrightarrow> ref_cnt (s n) = 1"
  shows "\<exists>ht'. remove_all calm_locks s ht ns = Some (ht', dead (set ns) s) \<and> client_table (dead (set ns) s) ht' \<and>
    ht_nodes ht' = ht_nodes ht - set ns"
  using assms
proof (induction ns arbitrary: s ht)
  case Nil
  have "dead {} s = s" for s by (simp add: dead_def)
  then show ?case using Nil by simp
next
  case (Cons n ns)
  note t = client_tableD [OF Cons.prems(1)]
  have n: "n \<in> ht_nodes ht" "name_ok (key (s n))" "ref_cnt (s n) = 1" using Cons.prems(3,4) valid_in_table [OF Cons.prems(1)] by auto
  have m: "ht_map s ht (key (s n)) = Some n" using n(1) name_order.ht_map_Some_iff [OF t(1,2)] by simp
  have put: "node_put s n = dead {n} s" using n(3) by (auto simp: node_put_def dead_def Let_def)
  obtain ht1 tr where r: "htable_remove calm_locks s ht (key (s n)) = Some (ht1, dead {n} s, tr)" "ht_ok name_ok (dead {n} s) ht1"
    "cmpfn ht1 = std_client_cmp" "ht_map (dead {n} s) ht1 = (ht_map s ht)(key (s n) := None)"
    using name_order.htable_remove_correct [OF t(1,2) n(2), of calm_locks] m put by auto
  have nodes: "ht_nodes ht1 = ht_nodes ht - {n}"
    by (rule name_order.nodes_after_remove [OF t(1,2) r(2,3) r(4)]) (use n(1) in simp_all)
  have "client_table (dead {n} s) ht1" using r(2,3) nodes t(3) by (simp add: client_table_def) (simp add: dead_def)
  moreover have "set ns \<subseteq> ht_nodes ht1" "distinct ns" using Cons.prems(2,3) nodes by auto
  moreover have "ref_cnt (dead {n} s m) = 1" if "m \<in> set ns" for m using Cons.prems(2,4) that by (auto simp: dead_def)
  ultimately obtain ht' where ht': "remove_all calm_locks (dead {n} s) ht1 ns = Some (ht', dead (set ns) (dead {n} s))"
    "client_table (dead (set ns) (dead {n} s)) ht'" "ht_nodes ht' = ht_nodes ht1 - set ns"
    using Cons.IH by blast
  have "dead (set ns) (dead {n} s) = dead (set (n # ns)) s" by (auto simp: dead_def)
  then show ?case using r(1) ht' nodes by auto
qed

subsection \<open>Their messages are freed\<close>

lemma freed_msgs_join: "freed_msgs A (freed_msgs B s) = freed_msgs (A \<union> B) s"
  by (auto simp: freed_msgs_def)

lemma freed_msgs_other: "x \<notin> A \<Longrightarrow> freed_msgs A s x = s x"
  by (simp add: freed_msgs_def)

lemma free_client_ok:
  assumes "local_ok C U w n"
  shows "free_std_client (cls w) (msgs w) n =
    Some ((cls w)(n := (cls w n)\<lparr>sock_fd := - 1\<rparr>), freed_msgs (set (owned C U w n)) (msgs w))"
proof -
  have q: "queue_is (pending_ctrl_queue (cls w n)) (msgs w) (C n)" "queue_is (pending_userdata_queue (cls w n)) (msgs w) (U n)"
    "set (C n) \<inter> set (U n) = {}"
    using assms by (auto simp: local_ok_def owned_def)
  have "queue_is (pending_ctrl_queue (cls w n)) (freed_msgs (set (U n)) (msgs w)) (C n)"
    by (rule queue_is_cong [OF q(1)]) (use q(3) in \<open>auto simp: freed_msgs_def\<close>)
  from destroy_exact [OF q(2)] destroy_exact [OF this] show ?thesis
    by (auto simp: free_std_client_def Let_def freed_msgs_join owned_def temps_def freed_msgs_def fun_eq_iff)
qed

lemma msgs_ok_rest:
  assumes "msgs_ok S C U w" and "S' \<subseteq> S" and "\<And>x. x \<in> S' \<Longrightarrow> set (owned C U w x) \<inter> A = {}"
    and "\<And>x. x \<in> S' \<Longrightarrow> cl_msgs (s x) = cl_msgs (cls w x)"
  shows "msgs_ok S' C U (w\<lparr>cls := s, msgs := freed_msgs A (msgs w)\<rparr>)"
proof -
  define w' where "w' = w\<lparr>cls := s, msgs := freed_msgs A (msgs w)\<rparr>"
  have o: "owned C U w' x = owned C U w x" if "x \<in> S'" for x
    by (rule owned_other) (use assms(4) that in \<open>simp_all add: w'_def\<close>)
  have l: "local_ok C U w' x" if x: "x \<in> S'" for x
  proof -
    have lx: "local_ok C U w x" using assms(1,2) x by (auto simp: msgs_ok_def)
    have e: "msgs w' m = msgs w m" if "m \<in> set (owned C U w x)" for m
      using assms(3) [OF x] that by (auto simp: w'_def freed_msgs_def)
    then have q: "queue_is q (msgs w') ms" if "queue_is q (msgs w) ms" "set ms \<subseteq> set (owned C U w x)" for q ms
      by (rule queue_is_cong [OF that(1)]) (use that(2) in auto)
    have "msg_ok w' m" if "msg_ok w m" "m \<in> set (owned C U w x)" for m
      using that e by (simp add: msg_ok_def) (simp add: w'_def)
    moreover have "set (C x) \<subseteq> set (owned C U w x)" "set (U x) \<subseteq> set (owned C U w x)" by (auto simp: owned_def)
    ultimately show ?thesis
      using lx q assms(4) [OF x] unfolding local_ok_def o [OF x] by (simp add: cl_msgs_def) (simp add: w'_def)
  qed
  have "set (owned C U w' x) \<inter> set (owned C U w' y) = {}" if "x \<in> S'" "y \<in> S'" "x \<noteq> y" for x y
    using assms(1,2) that by (simp add: o msgs_ok_def) blast
  then show ?thesis using l assms(1) unfolding w'_def [symmetric] msgs_ok_def by (simp add: w'_def)
qed

definition closed :: "addr set \<Rightarrow> std_store \<Rightarrow> std_store" where
  "closed A s = (\<lambda>n. if n \<in> A then (s n)\<lparr>sock_fd := - 1\<rparr> else s n)"

lemma free_clients_ok:
  assumes "msgs_ok S C U w" and "distinct ns" and "set ns \<subseteq> S"
  shows "free_clients ns w = Some (w\<lparr>cls := closed (set ns) (cls w), msgs := freed_msgs (\<Union>n \<in> set ns. set (owned C U w n)) (msgs w)\<rparr>)"
  using assms
proof (induction ns arbitrary: w S)
  case Nil
  then show ?case by (simp add: closed_def freed_msgs_def)
next
  case (Cons n ns)
  define w1 where "w1 = w\<lparr>cls := (cls w)(n := (cls w n)\<lparr>sock_fd := - 1\<rparr>), msgs := freed_msgs (set (owned C U w n)) (msgs w)\<rparr>"
  have n: "n \<in> S" "n \<notin> set ns" "distinct ns" "set ns \<subseteq> S - {n}" using Cons.prems(2,3) by auto
  have "local_ok C U w n" using Cons.prems(1) n(1) by (simp add: msgs_ok_def)
  from free_client_ok [OF this] have e: "free_clients (n # ns) w = free_clients ns w1" by (simp add: w1_def)
  have "msgs_ok (S - {n}) C U w1"
    unfolding w1_def by (rule msgs_ok_rest [OF Cons.prems(1)]) (use Cons.prems(1) n(1) in \<open>auto simp: msgs_ok_def cl_msgs_def\<close>)
  from Cons.IH [OF this n(3,4)] have "free_clients ns w1 =
      Some (w1\<lparr>cls := closed (set ns) (cls w1), msgs := freed_msgs (\<Union>x \<in> set ns. set (owned C U w1 x)) (msgs w1)\<rparr>)" .
  moreover have "owned C U w1 x = owned C U w x" for x by (simp add: owned_def temps_def w1_def)
  moreover have "closed (set ns) (cls w1) = closed (set (n # ns)) (cls w)" using n(2) by (auto simp: closed_def w1_def)
  moreover have "freed_msgs (\<Union>x \<in> set ns. set (owned C U w x)) (msgs w1) = freed_msgs (\<Union>x \<in> set (n # ns). set (owned C U w x)) (msgs w)"
    by (simp add: w1_def freed_msgs_join Un_commute)
  ultimately show ?case unfolding e by (simp add: w1_def)
qed

subsection \<open>The sweep\<close>

definition swept :: "worker \<Rightarrow> worker \<Rightarrow> bool" where
  "swept w w' \<longleftrightarrow>
     (let D = set (nodes (dconn_clients w)) in
      ht_nodes (std_cl_table w') = ht_nodes (std_cl_table w) - D \<and> nodes (dconn_clients w') = [] \<and>
      nds w' = dead D (nds w) \<and> cls w' = closed D (cls w) \<and>
      w'\<lparr>cls := cls w, nds := nds w, msgs := msgs w, std_cl_table := std_cl_table w, dconn_clients := dconn_clients w\<rparr> = w)"

lemma sweep_ok:
  assumes "wt_inv w"
  shows "\<exists>w'. sweep w = Some w' \<and> wt_inv w' \<and> swept w w'"
proof -
  define D where "D = nodes (dconn_clients w)"
  note inv = assms [unfolded wt_inv_def]
  have t: "client_table (nds w) (std_cl_table w)" using inv by (simp add: roster_def)
  have D: "distinct D" "set D \<subseteq> ht_nodes (std_cl_table w)" using inv by (auto simp: dconn_ok_def D_def)
  have r1: "ref_cnt (nds w n) = 1" if "n \<in> set D" for n using D(2) inv that by (auto simp: tended_def)
  obtain ht' where ht': "remove_all calm_locks (nds w) (std_cl_table w) D = Some (ht', dead (set D) (nds w))"
    "client_table (dead (set D) (nds w)) ht'" "ht_nodes ht' = ht_nodes (std_cl_table w) - set D"
    using remove_clients [OF t D r1] by blast
  obtain C U where CU: "msgs_ok (ht_nodes (std_cl_table w)) C U w" "\<And>c. c \<in> ht_nodes (std_cl_table w) \<Longrightarrow> idle C w c"
    using inv by (auto simp: owns_def)
  define w1 where "w1 = w\<lparr>std_cl_table := ht', nds := dead (set D) (nds w), dconn_clients := \<lparr>nodes = [], arr_size = DEF_STDCL_DCONARR_SIZE\<rparr>\<rparr>"
  define A where "A = (\<Union>n \<in> set D. set (owned C U w n))"
  define w' where "w' = w1\<lparr>cls := closed (set D) (cls w), msgs := freed_msgs A (msgs w)\<rparr>"
  have live: "live w n" if "n \<in> ht_nodes (std_cl_table w)" for n using inv that by (simp add: roster_def)
  then have "filter (\<lambda>n. freed (dead (set D) (nds w) n) \<and> \<not> freed (nds w n)) D = D"
    using D(2) by (auto simp: filter_id_conv dead_def live_def)
  then have "sweep w = free_clients D w1" by (simp add: sweep_def node_arr_sweep_def D_def [symmetric] ht'(1) w1_def)
  moreover have own1: "owned C U w1 x = owned C U w x" for x by (simp add: owned_def temps_def w1_def)
  have m1: "msgs_ok (ht_nodes (std_cl_table w)) C U w1"
    using CU(1) by (simp add: msgs_ok_def local_ok_def own1) (simp add: w1_def msg_ok_def)
  from free_clients_ok [OF this D] have "free_clients D w1 = Some w'"
    unfolding own1 by (simp add: w'_def A_def) (simp add: w1_def)
  ultimately have s: "sweep w = Some w'" by simp
  have sw: "swept w w'" using ht'(3) by (simp add: swept_def Let_def D_def [symmetric] w'_def w1_def)
  have outside: "x \<notin> set D" if "x \<in> set (preauth_list w)" for x
    using D(2) that inv visitor_not_in_table [of w x] conn_invD(3) [of w x] by auto
  have other: "cls w' x = cls w x" "nds w' x = nds w x" if "x \<notin> set D" for x
    using that by (simp_all add: w'_def w1_def closed_def dead_def)
  have "conn_inv w'"
    by (rule conn_inv_cong [of w]) (use inv other outside in \<open>simp_all add: visitor_view_def\<close>, simp_all add: w'_def w1_def)
  moreover have "ip_inv w'" using inv by (simp add: ip_inv_def w'_def w1_def)
  moreover have nodes': "ht_nodes (std_cl_table w') = ht_nodes (std_cl_table w) - set D" by (simp add: w'_def w1_def ht'(3))
  moreover have "roster w'"
  proof -
    have "element_count (std_cl_table w') \<le> element_count (std_cl_table w)"
      using t ht'(2) by (simp add: element_count_card w'_def w1_def ht'(3) card_Diff_subset_Int card_mono)
    then show ?thesis using inv ht'(2) other
      by (simp add: roster_def nodes' live_def) (simp add: w'_def w1_def)
  qed
  moreover have "owns (ht_nodes (std_cl_table w')) w'"
  proof -
    have "msgs_ok (ht_nodes (std_cl_table w')) C U (w1\<lparr>cls := closed (set D) (cls w), msgs := freed_msgs A (msgs w1)\<rparr>)"
    proof (rule msgs_ok_rest [OF m1])
      fix x assume x: "x \<in> ht_nodes (std_cl_table w')"
      then have "set (owned C U w x) \<inter> set (owned C U w y) = {}" if "y \<in> set D" for y
      proof -
        have "x \<in> ht_nodes (std_cl_table w)" "y \<in> ht_nodes (std_cl_table w)" "x \<noteq> y" using x that D(2) nodes' by auto
        then show ?thesis using CU(1) by (simp add: msgs_ok_def)
      qed
      then show "set (owned C U w1 x) \<inter> A = {}" by (auto simp: A_def own1)
      show "cl_msgs (closed (set D) (cls w) x) = cl_msgs (cls w1 x)" by (simp add: closed_def cl_msgs_def w1_def)
    qed (simp add: nodes')
    then have "msgs_ok (ht_nodes (std_cl_table w')) C U w'" by (simp add: w'_def) (simp add: w1_def)
    moreover have "idle C w' c" if "c \<in> ht_nodes (std_cl_table w')" for c
      using CU(2) [of c] that nodes' other by (simp add: idle_def)
    ultimately show ?thesis by (auto simp: owns_def)
  qed
  moreover have "tended w'" using inv nodes' other by (auto simp: tended_def)
  moreover have "dconn_ok w'" by (simp add: dconn_ok_def w'_def w1_def)
  moreover have "watch_ok w'"
  proof -
    have "online w' n" if "online w n" for n
    proof -
      have "n \<notin> set D" using inv that by (auto simp: dconn_ok_def online_def D_def)
      then show ?thesis using that other by (simp add: online_def nodes')
    qed
    moreover have "queue_events w' = queue_events w" "sock_events w' = sock_events w" "preauth_list w' = preauth_list w"
      by (simp_all add: w'_def w1_def)
    ultimately show ?thesis using inv unfolding watch_ok_def by metis
  qed
  ultimately show ?thesis using s sw by (auto simp: wt_inv_def)
qed

end
