(* ===== verification/Upkeep.thy ===== *)
theory Upkeep
  imports Sweep
begin

text \<open>
  Every handler of a worker thread keeps the invariant of \<open>Sweep\<close>: one lemma for what the handlers of clients
  that are logged in may change, one for those of clients that are not, and one for a client that logs in.
\<close>

subsection \<open>Clients that are logged in\<close>

lemma tended_logged:
  assumes "wt_inv w" and "n \<in> ht_nodes (std_cl_table w)"
  shows "logged n w" and "recv_ok (rcv w n)" and "n < next_addr w" and "n \<notin> set (preauth_list w)"
proof -
  show "logged n w" using assms by (auto simp: wt_inv_def intro: roster_logged)
  show "recv_ok (rcv w n)" "n < next_addr w" using assms by (simp_all add: wt_inv_def tended_def roster_def)
  have "visitor w n" if "n \<in> set (preauth_list w)" using assms(1) that conn_invD(3) by (simp add: wt_inv_def)
  then show "n \<notin> set (preauth_list w)" using assms visitor_not_in_table [of w n] by (auto simp: wt_inv_def)
qed

lemma nodes_node_arr_add: "nodes (node_arr_add a n) = nodes a @ [n]"
  by (simp add: node_arr_add_def)

lemma inv_frame:
  assumes inv: "wt_inv w" and c: "c \<in> ht_nodes (std_cl_table w)" and fr: "inb_frame n c w w'"
    and own: "owns (ht_nodes (std_cl_table w)) w'" and r: "recv_ok (rcv w' c)"
  shows "wt_inv w'" and "std_cl_table w' = std_cl_table w" and "preauth_list w' = preauth_list w"
proof -
  have k: "nds w' = nds w" "std_cl_table w' = std_cl_table w" "preauth_list w' = preauth_list w" "clth w' = clth w"
    "std_ipblock_tbl w' = std_ipblock_tbl w" "ipb_recs w' = ipb_recs w" "ip_whitelist_tbl w' = ip_whitelist_tbl w" "wl_recs w' = wl_recs w"
    "next_addr w \<le> next_addr w'"
    using fr by (simp_all add: inb_frame_def kept_def)
  show "std_cl_table w' = std_cl_table w" "preauth_list w' = preauth_list w" by (rule k)+
  have f: "username (cls w' x) = username (cls w x)" "timerheap_index (cls w' x) = timerheap_index (cls w x)" for x
    using fr by (simp_all add: inb_frame_def cl_kept_def)
  have o: "rcv w' x = rcv w x" "cl_state (cls w' x) = cl_state (cls w x)" "temp_send_storage (cls w' x) = temp_send_storage (cls w x)"
    "sock_events w' x = sock_events w x" "queue_events w' x = queue_events w x" if "x \<noteq> c" for x
    using fr that by (simp_all add: inb_frame_def cl_own_def armed_def)
  note i = inv [unfolded wt_inv_def]
  have self: "cl_state (cls w' c) = cl_state (cls w c) \<and> dconn_clients w' = dconn_clients w \<and> unwatched w' c = unwatched w c \<or>
      cl_state (cls w c) = AUTHENTICATED \<and> cl_state (cls w' c) = DISCONNECTED \<and>
      dconn_clients w' = node_arr_add (dconn_clients w) c \<and> unwatched w' c = (True, True)"
    using fr by (simp add: inb_frame_def)
  have st: "cl_state (cls w' x) \<in> {AUTHENTICATED, DISCONNECTED}" if "x \<in> ht_nodes (std_cl_table w)" for x
    using i self o(2) [of x] that by (cases "x = c") (auto simp: roster_def)
  have vis: "x \<noteq> c" if "x \<in> set (preauth_list w)" for x using tended_logged(4) [OF inv c] that by metis
  have "conn_inv w'"
    by (rule conn_inv_cong [of w]) (use i k o f vis in \<open>simp_all add: visitor_view_def\<close>)
  moreover have "ip_inv w'" using i order_less_le_trans [OF _ k(9)] by (simp add: ip_inv_def k(5-8))
  moreover have "roster w'" using i order_less_le_trans [OF _ k(9)] st by (simp add: roster_def k(1-3) live_def f)
  moreover have "tended w'" using i r o(1) by (auto simp: tended_def k) metis
  moreover have "dconn_ok w'"
  proof -
    have d: "distinct (nodes (dconn_clients w))"
      "\<And>x. x \<in> set (nodes (dconn_clients w)) \<Longrightarrow> x \<in> ht_nodes (std_cl_table w) \<and> cl_state (cls w x) = DISCONNECTED"
      using i by (auto simp: dconn_ok_def)
    have old: "x \<in> ht_nodes (std_cl_table w) \<and> cl_state (cls w' x) = DISCONNECTED" if "x \<in> set (nodes (dconn_clients w))" for x
      using d(2) [OF that] self o(2) [of x] by (cases "x = c") auto
    have "c \<notin> set (nodes (dconn_clients w))" if "cl_state (cls w c) = AUTHENTICATED" using d(2) that by auto
    then show ?thesis using self d(1) old c by (auto simp: dconn_ok_def k nodes_node_arr_add)
  qed
  moreover have "watch_ok w'"
  proof -
    have on: "online w' x = online w x" if "x \<noteq> c" for x using o(2) [OF that] by (simp add: online_def k)
    have wa: "(queue_events w x \<noteq> None \<longrightarrow> online w x) \<and> (sock_events w x \<noteq> None \<longrightarrow> x \<in> set (preauth_list w) \<or> online w x)" for x
      using i unfolding watch_ok_def by blast
    have "(queue_events w' x \<noteq> None \<longrightarrow> online w' x) \<and> (sock_events w' x \<noteq> None \<longrightarrow> x \<in> set (preauth_list w') \<or> online w' x)" for x
    proof (cases "x = c")
      case True
      then show ?thesis using self wa [of c] by (auto simp: unwatched_def online_def k)
    next
      case False
      then show ?thesis using wa [of x] o(4,5) [OF False] on [OF False] k(3) by simp
    qed
    then show ?thesis unfolding watch_ok_def by blast
  qed
  ultimately show "wt_inv w'" using own by (simp add: wt_inv_def k)
qed

subsection \<open>Clients that are not\<close>

lemma away_client:
  assumes "away A w w'" and "x \<notin> A"
  shows "nds w' x = nds w x" "cl_state (cls w' x) = cl_state (cls w x)" "username (cls w' x) = username (cls w x)"
    "rcv w' x = rcv w x" "temp_send_storage (cls w' x) = temp_send_storage (cls w x)" "cl_msgs (cls w' x) = cl_msgs (cls w x)"
    "sock_events w' x = sock_events w x" "queue_events w' x = queue_events w x"
proof -
  have a: "at w' x = at w x" and u: "untimed (cls w' x) = untimed (cls w x)" using assms by (simp_all add: away_def)
  show "nds w' x = nds w x" "sock_events w' x = sock_events w x" "queue_events w' x = queue_events w x" using a by (simp_all add: at_def)
  show "cl_state (cls w' x) = cl_state (cls w x)" "username (cls w' x) = username (cls w x)" "rcv w' x = rcv w x"
    "temp_send_storage (cls w' x) = temp_send_storage (cls w x)" "cl_msgs (cls w' x) = cl_msgs (cls w x)"
    using untimed_fields [OF u] by (simp_all add: cl_msgs_def)
qed

lemma roster_outside:
  assumes "roster w" and "away A w w'" and "A \<inter> ht_nodes (std_cl_table w) = {}"
  shows "roster w'"
proof -
  have a: "std_cl_table w' = std_cl_table w" "next_addr w \<le> next_addr w'" using assms(2) by (simp_all add: away_def shared_def)
  have o: "nds w' x = nds w x" "cl_state (cls w' x) = cl_state (cls w x)" "username (cls w' x) = username (cls w x)"
    if "x \<in> ht_nodes (std_cl_table w)" for x
    using away_client(1-3) [OF assms(2), of x] assms(3) that by blast+
  have t: "client_table (nds w) (std_cl_table w)" using assms(1) by (simp add: roster_def)
  then have "client_table (nds w') (std_cl_table w)"
    using name_order.ht_agree(1) [OF client_tableD(2) [OF t], of "nds w'" "nds w"] o(1) by (simp add: client_table_def)
  then show ?thesis using assms(1) a(2) o by (auto simp: roster_def a(1) live_def)
qed

lemma msgs_ok_same:
  assumes "msgs_ok S C U w" and "msgs w' = msgs w" and "next_addr w \<le> next_addr w'" and "\<And>x. x \<in> S \<Longrightarrow> cl_msgs (cls w' x) = cl_msgs (cls w x)"
  shows "msgs_ok S C U w'"
proof -
  have o: "owned C U w' x = owned C U w x" if "x \<in> S" for x by (rule owned_other) (use assms(4) that in simp_all)
  have "msg_ok w' m" if "msg_ok w m" for m using that assms(2,3) by (simp add: msg_ok_def)
  then show ?thesis
    using assms(1,3,4) by (simp add: msgs_ok_def local_ok_def o assms(2) cl_msgs_def)
qed

lemma owns_outside:
  assumes "owns S w" and "away A w (w'\<lparr>std_cl_table := std_cl_table w\<rparr>)" and "A \<inter> S = {}" and "ht_nodes (std_cl_table w') \<subseteq> S"
  shows "owns S w'"
proof -
  obtain C U where cu: "msgs_ok S C U w" "\<And>c. c \<in> S \<Longrightarrow> idle C w c" using assms(1) by (auto simp: owns_def)
  have m: "msgs w' = msgs w" "next_addr w \<le> next_addr w'" using assms(2) by (simp_all add: away_def shared_def)
  have u: "cl_msgs (cls w' x) = cl_msgs (cls w x)" if "x \<in> S" for x
  proof -
    have "x \<notin> A" using assms(3) that by blast
    from away_client(6) [OF assms(2) this] show ?thesis by simp
  qed
  have "msgs_ok S C U w'" by (rule msgs_ok_same [OF cu(1) m u])
  moreover have "idle C w' c" if "c \<in> S" for c using cu(2) [OF that] u [OF that] by (simp add: idle_def cl_msgs_def)
  ultimately show ?thesis using assms(4) by (auto simp: owns_def)
qed

text \<open>The table of users may be laid out anew.\<close>

lemma inv_beside:
  assumes inv: "wt_inv w" and "conn_inv w'" and "ip_inv w'" and "roster w'" and aw: "away A w (w'\<lparr>std_cl_table := std_cl_table w\<rparr>)"
    and ls: "listens w w'" and A: "A \<inter> ht_nodes (std_cl_table w) = {}" and n: "ht_nodes (std_cl_table w') = ht_nodes (std_cl_table w)"
  shows "wt_inv w'"
proof -
  note i = inv [unfolded wt_inv_def]
  have d: "dconn_clients w' = dconn_clients w" using aw by (simp add: away_def shared_def)
  have o: "nds w' x = nds w x" "cl_state (cls w' x) = cl_state (cls w x)" "rcv w' x = rcv w x" if "x \<in> ht_nodes (std_cl_table w)" for x
  proof -
    have "x \<notin> A" using A that by blast
    from away_client(1,2,4) [OF aw this]
    show "nds w' x = nds w x" "cl_state (cls w' x) = cl_state (cls w x)" "rcv w' x = rcv w x" by simp_all
  qed
  have "owns (ht_nodes (std_cl_table w')) w'"
    unfolding n using owns_outside [OF _ aw A] i n by (simp only: order_refl)
  moreover have "tended w'" using i o by (simp add: tended_def n)
  moreover have "dconn_ok w'" using i o(2) by (auto simp: dconn_ok_def d n)
  moreover have "watch_ok w'"
  proof -
    have "online w' x" if "online w x" for x using that o(2) by (simp add: online_def n)
    then show ?thesis using i ls unfolding watch_ok_def listens_def by metis
  qed
  ultimately show "wt_inv w'" using assms(2-4) by (simp add: wt_inv_def)
qed

lemma inv_away:
  assumes inv: "wt_inv w" and "conn_inv w'" and "ip_inv w'" and aw: "away A w w'" and ls: "listens w w'"
    and A: "A \<inter> ht_nodes (std_cl_table w) = {}"
  shows "wt_inv w'" and "std_cl_table w' = std_cl_table w"
proof -
  show a: "std_cl_table w' = std_cl_table w" using aw by (simp add: away_def shared_def)
  have "w'\<lparr>std_cl_table := std_cl_table w\<rparr> = w'" by (simp flip: a)
  with aw have "away A w (w'\<lparr>std_cl_table := std_cl_table w\<rparr>)" by simp
  moreover have "roster w'" using inv roster_outside [OF _ aw A] by (simp add: wt_inv_def)
  ultimately show "wt_inv w'" using inv_beside [OF inv assms(2,3) _ _ ls A] a by simp
qed

subsection \<open>A client logs in\<close>

lemma listens_leave:
  assumes "beside c w w'" and "preauth_list w' = remove1 c (preauth_list w)" and "sock_events w' c = None" and "queue_events w' c = None"
  shows "listens w w'"
proof -
  have o: "sock_events w' x = sock_events w x" "queue_events w' x = queue_events w x" if "x \<noteq> c" for x
    using assms(1) that by (simp_all add: beside_def away_def at_def)
  have "(queue_events w' x \<noteq> None \<longrightarrow> queue_events w' x = queue_events w x) \<and>
      (sock_events w' x \<noteq> None \<longrightarrow> x \<in> set (preauth_list w') \<or> sock_events w' x = sock_events w x \<and> x \<notin> set (preauth_list w))" for x
    using assms(2-4) o [of x] by (cases "x = c") auto
  then show ?thesis unfolding listens_def by blast
qed

lemma empty_queue_is: "queue_is (snd (mpscq_create md e m)) s []"
  by (simp add: queue_is_def mpscq_create_def Let_def)

lemma msgs_ok_insert:
  assumes "msgs_ok S C U w" and "c \<notin> S" and "temp_send_storage (cls w c) = 0"
    and "queue_is (pending_ctrl_queue (cls w c)) (msgs w) []" and "queue_is (pending_userdata_queue (cls w c)) (msgs w) []"
    and "qmode (pending_userdata_queue (cls w c)) = MODE_MPSC"
  shows "msgs_ok (insert c S) (C(c := [])) (U(c := [])) w"
proof -
  have o: "owned (C(c := [])) (U(c := [])) w x = (if x = c then [] else owned C U w x)" for x
    using assms(3) by (simp add: owned_def temps_def)
  have "local_ok (C(c := [])) (U(c := [])) w x" if "x \<in> insert c S" for x
  proof (cases "x = c")
    case False
    then have "local_ok C U w x" using assms(1) that by (simp add: msgs_ok_def)
    then show ?thesis using False by (simp add: local_ok_def o)
  qed (use assms(4-6) in \<open>simp add: local_ok_def o\<close>)
  then show ?thesis using assms(1) by (auto simp: msgs_ok_def o)
qed

lemma inv_joined:
  assumes inv: "wt_inv w" and c: "c \<in> set (preauth_list w)" and j: "joined c nm w w'"
  shows "wt_inv w'"
proof -
  note i = inv [unfolded wt_inv_def]
  let ?T = "ht_nodes (std_cl_table w)"
  have cT: "c \<notin> ?T" using i c visitor_not_in_table conn_invD(3) by blast
  have j': "conn_inv w'" "ip_inv w'" "roster w'" "beside c w w'" "fresh_login c nm w w'" "cl_state (cls w' c) = AUTHENTICATED"
    "awaiting (rcv w' c)" "ref_cnt (nds w' c) = 1" "ht_nodes (std_cl_table w') = insert c ?T"
    using j by (simp_all add: joined_def)
  have aw: "away {c} w (w'\<lparr>std_cl_table := std_cl_table w\<rparr>)" using j'(4) by (simp add: beside_def)
  have o: "nds w' x = nds w x" "cl_state (cls w' x) = cl_state (cls w x)" "rcv w' x = rcv w x" "temp_send_storage (cls w' x) = temp_send_storage (cls w x)"
    "cl_msgs (cls w' x) = cl_msgs (cls w x)" "sock_events w' x = sock_events w x" "queue_events w' x = queue_events w x" if "x \<noteq> c" for x
    using away_client(1,2,4-8) [OF aw, of x] that by simp_all
  have s: "msgs w' = msgs w" "next_addr w \<le> next_addr w'" "dconn_clients w' = dconn_clients w" using aw by (simp_all add: away_def shared_def)
  have l: "preauth_list w' = remove1 c (preauth_list w)" "temp_send_storage (cls w' c) = 0"
    "pending_ctrl_queue (cls w' c) = snd (mpscq_create MODE_SPSC (efd_ok w) True)"
    "pending_userdata_queue (cls w' c) = snd (mpscq_create MODE_MPSC (efd_ok w) True)"
    using j'(5) by (simp_all add: fresh_login_def)
  obtain C U where cu: "msgs_ok ?T C U w" "\<And>x. x \<in> ?T \<Longrightarrow> idle C w x" using i by (auto simp: owns_def)
  have "msgs_ok ?T C U w'" by (rule msgs_ok_same [OF cu(1) s(1,2)]) (rule o(5), use cT in auto)
  then have "msgs_ok (insert c ?T) (C(c := [])) (U(c := [])) w'"
    by (rule msgs_ok_insert [OF _ cT l(2)]) (simp_all add: l(3,4) empty_queue_is, simp add: mpscq_create_def Let_def)
  moreover have "idle (C(c := [])) w' x" if "x \<in> insert c ?T" for x
    using cu(2) [of x] o(4) [of x] that by (cases "x = c") (simp_all add: idle_def)
  ultimately have "owns (ht_nodes (std_cl_table w')) w'" by (auto simp: owns_def j'(9))
  moreover have "recv_ok (rcv w' x) \<and> ref_cnt (nds w' x) = 1" if "x \<in> insert c ?T" for x
    using i o(1,3) [of x] j'(7,8) that by (cases "x = c") (auto simp: tended_def awaiting_def)
  then have "tended w'" by (simp add: tended_def j'(9))
  moreover have "cl_state (cls w' x) = DISCONNECTED" if "x \<in> ?T" "cl_state (cls w x) = DISCONNECTED" for x
    using o(2) [of x] that cT by metis
  then have "dconn_ok w'" using i by (auto simp: dconn_ok_def s(3) j'(9))
  moreover have "watch_ok w'"
  proof -
    have wa: "(queue_events w x \<noteq> None \<longrightarrow> online w x) \<and> (sock_events w x \<noteq> None \<longrightarrow> x \<in> set (preauth_list w) \<or> online w x)" for x
      using i unfolding watch_ok_def by blast
    have "(queue_events w' x \<noteq> None \<longrightarrow> online w' x) \<and> (sock_events w' x \<noteq> None \<longrightarrow> x \<in> set (preauth_list w') \<or> online w' x)" for x
    proof (cases "x = c")
      case True
      then show ?thesis using j'(6,9) by (simp add: online_def)
    next
      case False
      then have "online w x \<Longrightarrow> online w' x" using o(2) by (simp add: online_def j'(9))
      then show ?thesis using wa [of x] o(6,7) [OF False] False l(1) by auto
    qed
    then show ?thesis unfolding watch_ok_def by blast
  qed
  ultimately show ?thesis using j'(1-3) by (simp add: wt_inv_def)
qed

end
