(* ===== verification/Worker.thy ===== *)
theory Worker
  imports Upkeep
begin

text \<open>
  The loop of a worker thread (\<open>worker.c\<close>): the handler of the events of a client (\<open>wt_handle_clientevent\<close>), the
  shutdown (\<open>wt_handle_shutdown\<close>) and a round of \<open>worker_thrd_routine\<close>: the deadlines, the wait for
  events, the events and the sweep. \<open>None\<close> is a handler that does not return, as the server is aborted or the loop of
  the inbound path does not end. What \<open>epoll_wait\<close> reports is an argument.
\<close>

subsection \<open>Events\<close>

datatype event =
    Ev_listener "incoming list"
  | Ev_client addr bool bool bool
  | Ev_queue addr
  | Ev_shutdown

text \<open>For the socket of a client: whether \<open>EPOLLHUP\<close> or \<open>EPOLLERR\<close>, \<open>EPOLLIN\<close> and \<open>EPOLLOUT\<close> are reported.\<close>

definition wt_handle_clientevent :: "(byte list \<Rightarrow> 'db \<Rightarrow> byte list option) \<Rightarrow> (byte list \<Rightarrow> byte list) \<Rightarrow> bool \<Rightarrow> 'db \<Rightarrow>
    addr \<Rightarrow> bool \<Rightarrow> bool \<Rightarrow> bool \<Rightarrow> worker \<Rightarrow> worker option" where
  "wt_handle_clientevent fetch sha idx_ok db c hup inp outp w =
     (if \<not> live w c then None
      else if hup then cleanup_std_client c w
      else let clstate = cl_state (cls w c) in
        if inp \<and> clstate = ACCEPTING then wt_handle_accepting c w
        else if inp \<and> clstate = ACCEPTED then wt_handle_authentication fetch sha idx_ok db c w
        else (case (if inp \<and> clstate = AUTHENTICATED then inbound_loop c w else Some (WT_STOP_BORDER, w)) of
            None \<Rightarrow> None
          | Some (wt_ibd_st, w) \<Rightarrow> if outp \<and> wt_ibd_st \<noteq> WT_DCONN then wt_handle_outbound_data c w else Some w))"

fun cleanup_clients :: "addr list \<Rightarrow> worker \<Rightarrow> worker option" where
  "cleanup_clients [] w = Some w"
| "cleanup_clients (c # cs) w = (case cleanup_std_client c w of None \<Rightarrow> None | Some w \<Rightarrow> cleanup_clients cs w)"

definition wt_handle_shutdown :: "worker \<Rightarrow> worker option" where
  "wt_handle_shutdown w = (case cleanup_clients (preauth_list w) w of None \<Rightarrow> None | Some w \<Rightarrow> sweep w)"

text \<open>After its shutdown the thread exits.\<close>

datatype thread = Running worker | Exited worker

fun handle_event :: "(byte list \<Rightarrow> 'db \<Rightarrow> byte list option) \<Rightarrow> (byte list \<Rightarrow> byte list) \<Rightarrow> bool \<Rightarrow> 'db \<Rightarrow>
    event \<Rightarrow> worker \<Rightarrow> thread option" where
  "handle_event fetch sha idx_ok db (Ev_listener conns) w = map_option Running (wt_handle_new_connections conns w)"
| "handle_event fetch sha idx_ok db (Ev_client c hup inp outp) w =
     map_option Running (wt_handle_clientevent fetch sha idx_ok db c hup inp outp w)"
| "handle_event fetch sha idx_ok db (Ev_queue c) w = map_option Running (wt_handle_queued_messages c w)"
| "handle_event fetch sha idx_ok db Ev_shutdown w = map_option Exited (wt_handle_shutdown w)"

fun handle_events :: "(byte list \<Rightarrow> 'db \<Rightarrow> byte list option) \<Rightarrow> (byte list \<Rightarrow> byte list) \<Rightarrow> bool \<Rightarrow> 'db \<Rightarrow>
    event list \<Rightarrow> worker \<Rightarrow> thread option" where
  "handle_events fetch sha idx_ok db [] w = Some (Running w)"
| "handle_events fetch sha idx_ok db (ev # evs) w =
     (case handle_event fetch sha idx_ok db ev w of
        Some (Running w) \<Rightarrow> handle_events fetch sha idx_ok db evs w
      | r \<Rightarrow> r)"

text \<open>A round of the loop. \<open>poll\<close> is \<open>epoll_wait\<close> with the time to wait in milliseconds; it gives the
  events, or \<open>None\<close> if a signal interrupts it, and the state of the thread after the wait, in which
  time has passed and peers have sent data.\<close>

definition worker_round :: "(byte list \<Rightarrow> 'db \<Rightarrow> byte list option) \<Rightarrow> (byte list \<Rightarrow> byte list) \<Rightarrow> bool \<Rightarrow> 'db \<Rightarrow>
    (int \<Rightarrow> worker \<Rightarrow> event list option \<times> worker) \<Rightarrow> worker \<Rightarrow> thread option" where
  "worker_round fetch sha idx_ok db poll w =
     (case handle_clth_timeout w of
        None \<Rightarrow> None
      | Some (waittime, w) \<Rightarrow>
          (case poll (sint (word_of_int waittime :: 32 word)) w of
             (None, w) \<Rightarrow> Some (Running w)
           | (Some evs, w) \<Rightarrow>
               (case handle_events fetch sha idx_ok db evs w of
                  Some (Running w) \<Rightarrow> map_option Running (sweep w)
                | r \<Rightarrow> r)))"

subsection \<open>What the handlers of a batch of events rely on\<close>

definition crowd :: "worker \<Rightarrow> nat" where
  "crowd w = length (preauth_list w) + element_count (std_cl_table w)"

definition served :: "addr set \<Rightarrow> nat \<Rightarrow> worker \<Rightarrow> worker \<Rightarrow> bool" where
  "served A k w w' \<longleftrightarrow> wt_inv w' \<and> ht_nodes (std_cl_table w) \<subseteq> ht_nodes (std_cl_table w') \<and>
     set (preauth_list w) - A \<subseteq> set (preauth_list w') \<and> crowd w' \<le> crowd w + k"

lemma served_refl: "wt_inv w \<Longrightarrow> served {} 0 w w"
  by (simp add: served_def)

lemma served_inv: "served A k w w' \<Longrightarrow> wt_inv w'"
  by (simp add: served_def)

lemma served_trans: "served A k w w1 \<Longrightarrow> served A k' w1 w2 \<Longrightarrow> served A (k + k') w w2"
  by (auto simp: served_def)

lemma served_mono: "served A k w w' \<Longrightarrow> A \<subseteq> B \<Longrightarrow> served B k w w'"
  by (auto simp: served_def)

lemma served_frame:
  assumes "wt_inv w" and "c \<in> ht_nodes (std_cl_table w)" and "inb_frame n c w w'"
    and "owns (ht_nodes (std_cl_table w)) w'" and "recv_ok (rcv w' c)"
  shows "served {} 0 w w'"
  using inv_frame [OF assms] by (simp add: served_def crowd_def)

lemma served_away:
  assumes "wt_inv w" and "conn_inv w'" and "ip_inv w'" and "away A w w'" and "listens w w'" and "A \<inter> ht_nodes (std_cl_table w) = {}"
    and "set (preauth_list w) - B \<subseteq> set (preauth_list w')" and "length (preauth_list w') \<le> length (preauth_list w) + k"
  shows "served B k w w'"
  using inv_away [OF assms(1-6)] assms(7,8) by (simp add: served_def crowd_def)

lemma visitor_outside:
  assumes "wt_inv w" and "A \<subseteq> set (preauth_list w)"
  shows "A \<inter> ht_nodes (std_cl_table w) = {}"
  using assms tended_logged(4) by fast

lemma served_leave:
  assumes "wt_inv w" and "c \<in> set (preauth_list w)" and "conn_inv w'" and "ip_inv w'" and "away {c} w w'" and "listens w w'"
    and "preauth_list w' = remove1 c (preauth_list w) \<or> preauth_list w' = preauth_list w"
  shows "served {c} 0 w w'"
proof (rule served_away [OF assms(1,3-6)])
  show "{c} \<inter> ht_nodes (std_cl_table w) = {}" using visitor_outside [OF assms(1)] assms(2) by simp
  have "set (preauth_list w) - {c} \<subseteq> set (remove1 c (preauth_list w))" by (auto intro: in_set_remove1 [THEN iffD2])
  then show "set (preauth_list w) - {c} \<subseteq> set (preauth_list w')" using assms(7) by auto
  show "length (preauth_list w') \<le> length (preauth_list w) + 0" using assms(7) by (auto simp: length_remove1)
qed

subsection \<open>The handlers\<close>

lemma logged_owns:
  assumes "wt_inv w"
  shows "owns (ht_nodes (std_cl_table w)) w"
  using assms by (simp add: wt_inv_def)

lemma inbound_step:
  assumes "wt_inv w" and "c \<in> ht_nodes (std_cl_table w)"
  shows "\<exists>st w'. wt_handle_inbound_data c w = Some (st, w') \<and> served {} 0 w w' \<and> c \<in> ht_nodes (std_cl_table w')"
proof -
  obtain st w' where r: "wt_handle_inbound_data c w = Some (st, w')" "own_step (ht_nodes (std_cl_table w)) 0 c w w'" "recv_ok (rcv w' c)"
    using inbound_returns [OF tended_logged(1,2) [OF assms], of 0] by blast
  have "served {} 0 w w'"
    by (rule served_frame [OF assms own_step_frame [OF r(2)] _ r(3)]) (use r(2) assms logged_owns in \<open>simp add: own_step_def\<close>)
  then show ?thesis using r(1) assms(2) by (auto simp: served_def)
qed

text \<open>Calls of the inbound path that all end at the border of a message: the loop does not end exactly if there are
  arbitrarily many.\<close>

fun border_calls :: "nat \<Rightarrow> addr \<Rightarrow> worker \<Rightarrow> worker option" where
  "border_calls 0 c w = Some w"
| "border_calls (Suc n) c w =
     (case wt_handle_inbound_data c w of Some (WT_STOP_BORDER, w) \<Rightarrow> border_calls n c w | _ \<Rightarrow> None)"

definition endless :: "addr \<Rightarrow> worker \<Rightarrow> bool" where
  "endless c w \<longleftrightarrow> (\<forall>n. border_calls n c w \<noteq> None)"

lemma loop_after_calls:
  assumes "wt_inv w" and "c \<in> ht_nodes (std_cl_table w)" and "border_calls n c w = None"
  shows "\<exists>st w'. inbound_loop c w = Some (st, w') \<and> served {} 0 w w' \<and> c \<in> ht_nodes (std_cl_table w')"
  using assms
proof (induction n arbitrary: w)
  case (Suc n)
  obtain st w1 where r: "wt_handle_inbound_data c w = Some (st, w1)" "served {} 0 w w1" "c \<in> ht_nodes (std_cl_table w1)"
    using inbound_step [OF Suc.prems(1,2)] by blast
  show ?case
  proof (cases "st = WT_STOP_BORDER")
    case True
    then have "border_calls n c w1 = None" using Suc.prems(3) r(1) by simp
    from Suc.IH [OF served_inv [OF r(2)] r(3) this] show ?thesis
      using inbound_loop_border [of c w w1] r(1,2) True served_trans [of "{}" 0 w w1 0] by auto
  next
    case False
    then show ?thesis using r by (subst inbound_loop.simps) simp
  qed
qed simp

lemma loop_cases:
  assumes "wt_inv w" and "c \<in> ht_nodes (std_cl_table w)"
  shows "endless c w \<or> (\<exists>st w'. inbound_loop c w = Some (st, w') \<and> served {} 0 w w' \<and> c \<in> ht_nodes (std_cl_table w'))"
  using loop_after_calls [OF assms] by (auto simp: endless_def)

lemma outbound_step:
  assumes "wt_inv w" and "c \<in> ht_nodes (std_cl_table w)"
  shows "\<exists>w'. wt_handle_outbound_data c w = Some w' \<and> served {} 0 w w'"
proof (cases "cl_state (cls w c) = AUTHENTICATED")
  case True
  note l = tended_logged [OF assms]
  obtain C U where cu: "msgs_ok (ht_nodes (std_cl_table w)) C U w" "\<forall>x \<in> ht_nodes (std_cl_table w). idle C w x"
    using logged_owns [OF assms(1)] by (auto simp: owns_def)
  obtain w' C' b where r: "wt_handle_outbound_data c w = Some w'" "flow (ht_nodes (std_cl_table w)) C U c w C' w' b" "quiet_step 0 c w w'"
    "idle C' w' c"
    using outbound_moves [OF l(1) True cu(1) assms(2)] by blast
  have fr: "inb_frame 0 c w w'" and rc: "rcv w' c = rcv w c" using r(3) by (simp_all add: quiet_step_def)
  have "owns (ht_nodes (std_cl_table w)) w'"
    by (rule moved_owns [OF flow_moved [OF r(2)] cu(2) r(4)]) (use fr in \<open>simp add: inb_frame_def kept_def\<close>)
  then show ?thesis using r(1) served_frame [OF assms fr] l(2) rc by auto
next
  case False
  then have "cl_state (cls w c) = DISCONNECTED" "live w c" using tended_logged(1) [OF assms] by (auto simp: logged_def)
  then show ?thesis using served_refl [OF assms(1)] by (simp add: wt_handle_outbound_data_def)
qed

lemma queued_step:
  assumes "wt_inv w" and "c \<in> ht_nodes (std_cl_table w)"
  shows "\<exists>w'. wt_handle_queued_messages c w = Some w' \<and> served {} 0 w w'"
proof (cases "cl_state (cls w c) = AUTHENTICATED")
  case True
  note l = tended_logged [OF assms]
  obtain C U where cu: "msgs_ok (ht_nodes (std_cl_table w)) C U w" "\<forall>x \<in> ht_nodes (std_cl_table w). idle C w x"
    using logged_owns [OF assms(1)] by (auto simp: owns_def)
  obtain w' C' U' where r: "wt_handle_queued_messages c w = Some w'" "moved (ht_nodes (std_cl_table w)) C U c w C' U' w'" "quiet_step 0 c w w'"
    "idle C' w' c"
    using queued_moves [OF l(1) True cu(1) assms(2)] cu(2) assms(2) by blast
  have fr: "inb_frame 0 c w w'" and rc: "rcv w' c = rcv w c" using r(3) by (simp_all add: quiet_step_def)
  have "owns (ht_nodes (std_cl_table w)) w'"
    by (rule moved_owns [OF r(2) cu(2) r(4)]) (use fr in \<open>simp add: inb_frame_def kept_def\<close>)
  then show ?thesis using r(1) served_frame [OF assms fr] l(2) rc by auto
next
  case False
  then have "cl_state (cls w c) = DISCONNECTED" "live w c" using tended_logged(1) [OF assms] by (auto simp: logged_def)
  then show ?thesis using served_refl [OF assms(1)] by (simp add: wt_handle_queued_messages_def)
qed

lemma cleanup_step:
  assumes "wt_inv w" and "c \<in> set (preauth_list w) \<or> c \<in> ht_nodes (std_cl_table w)"
  shows "\<exists>w'. cleanup_std_client c w = Some w' \<and> served {c} 0 w w' \<and>
    (c \<in> set (preauth_list w) \<longrightarrow> preauth_list w' = remove1 c (preauth_list w) \<and> freed (nds w' c) \<and> away {c} w w')"
proof (cases "c \<in> set (preauth_list w)")
  case True
  obtain w' where r: "cleanup_std_client c w = Some w'" "hung_up c w w'"
    using cleanup_hung_up [OF _ _ _ True] assms(1) by (auto simp: wt_inv_def)
  then have "served {c} 0 w w'" using served_leave [OF assms(1) True] by (simp add: hung_up_def)
  then show ?thesis using r by (auto simp: hung_up_def)
next
  case False
  then have c: "c \<in> ht_nodes (std_cl_table w)" using assms(2) by blast
  note l = tended_logged [OF assms(1) c]
  obtain w' where r: "cleanup_std_client c w = Some w'" "own_quiet (ht_nodes (std_cl_table w)) 0 c w w'"
    using cleanup_own [OF l(1)] by blast
  have "served {} 0 w w'"
    by (rule served_frame [OF assms(1) c, of 0]) (use r(2) c logged_owns [OF assms(1)] l(2) in \<open>simp_all add: own_quiet_def own_step_def quiet_step_def\<close>)
  then show ?thesis using r(1) False served_mono by blast
qed

lemma connections_step:
  assumes "wt_inv w" and "crowd w + length conns \<le> 2 ^ 26"
  shows "\<exists>w'. wt_handle_new_connections conns w = Some w' \<and> served {} (length conns) w w' \<and> set (preauth_list w) \<subseteq> set (preauth_list w')"
proof -
  have i: "conn_inv w" "ip_inv w" "0 < next_addr w" using assms(1) by (simp_all add: wt_inv_def roster_def)
  have "length (preauth_list w) + length conns \<le> 2 ^ 31" using assms(2) by (simp add: crowd_def)
  from connections_ok [OF i this] obtain w' where
    r: "wt_handle_new_connections conns w = Some w'" "conn_inv w'" "ip_inv w'" "away {next_addr w..} w w'"
      "length (preauth_list w') \<le> length (preauth_list w) + length conns" "listens w w'" "set (preauth_list w) \<subseteq> set (preauth_list w')" by blast
  have "{next_addr w..} \<inter> ht_nodes (std_cl_table w) = {}" using tended_logged(3) [OF assms(1)] by fastforce
  then have "served {} (length conns) w w'"
    by (rule served_away [OF assms(1) r(2-4,6) _ _ r(5)]) (use r(7) in auto)
  then show ?thesis using r(1,7) by blast
qed

lemma accepting_step:
  assumes "wt_inv w" and "c \<in> set (preauth_list w)" and "cl_state (cls w c) = ACCEPTING" and "crowd w \<le> 2 ^ 26"
  shows "\<exists>w'. wt_handle_accepting c w = Some w' \<and> served {c} 0 w w'"
proof -
  have i: "conn_inv w" "ip_inv w" using assms(1) by (simp_all add: wt_inv_def)
  have "length (preauth_list w) < 2 ^ 31" using assms(4) by (simp add: crowd_def)
  from accepting_ok [OF i(1) assms(2,3) this] obtain w' where
    r: "wt_handle_accepting c w = Some w'" "conn_inv w'" "away {c} w w'" "std_ipblock_tbl w' = std_ipblock_tbl w" "ipb_recs w' = ipb_recs w"
      "listens w w'"
      "case first_answer (accepts w c) of
         ACCPT_ERROR \<Rightarrow> preauth_list w' = remove1 c (preauth_list w) \<and> freed (nds w' c)
       | ACCPT_DONE \<Rightarrow> preauth_list w' = preauth_list w \<and> cl_state (cls w' c) = ACCEPTED \<and>
           auth_deadline (cls w' c) = Timespec (tv_sec (now w) + CLTH_AUTH_MAXPERM_TIME) (tv_nsec (now w))
       | ACCPT_IN_PROGRESS \<Rightarrow> preauth_list w' = preauth_list w \<and> cl_state (cls w' c) = ACCEPTING" by blast
  have "preauth_list w' = remove1 c (preauth_list w) \<or> preauth_list w' = preauth_list w"
    using r(7) by (cases "first_answer (accepts w c)") auto
  note l = this
  have "served {c} 0 w w'" by (rule served_leave [OF assms(1,2) r(2) ip_inv_away [OF i(2) r(3-5)] r(3,6) l])
  then show ?thesis using r(1) by blast
qed

text \<open>The requests of a login that stop the server.\<close>

definition fatal_request :: "(byte list \<Rightarrow> 'db \<Rightarrow> byte list option) \<Rightarrow> 'db \<Rightarrow> worker \<Rightarrow> auth_req_group \<Rightarrow> bool" where
  "fatal_request fetch db w req \<longleftrightarrow> request_type req = REQ_AUTHENTICATION \<and>
     (cstr (req_username req) = [] \<or> use_auth (cfg w) = 0 \<and> length (cstr (req_username req)) = UNAMESIZE \<or>
      (\<exists>h. fetch (user_of req) db = Some h \<and> length h < 32))"

definition fatal_login :: "(byte list \<Rightarrow> 'db \<Rightarrow> byte list option) \<Rightarrow> 'db \<Rightarrow> addr \<Rightarrow> worker \<Rightarrow> bool" where
  "fatal_login fetch db c w \<longleftrightarrow> c \<in> set (preauth_list w) \<and> cl_state (cls w c) = ACCEPTED \<and>
     (\<exists>req. auth_req_of (request_bytes w c) = Some req \<and> fatal_request fetch db w req)"

lemma joined_served:
  assumes "wt_inv w" and "c \<in> set (preauth_list w)" and "joined c nm w w'"
  shows "served {c} 0 w w'"
proof -
  have t: "ht_nodes (std_cl_table w') = insert c (ht_nodes (std_cl_table w))" "preauth_list w' = remove1 c (preauth_list w)" "roster w'"
    using assms(3) by (simp_all add: joined_def fresh_login_def)
  have ct: "client_table (nds w') (std_cl_table w')" "client_table (nds w) (std_cl_table w)"
    using t(3) assms(1) by (simp_all add: roster_def wt_inv_def)
  have "c \<notin> ht_nodes (std_cl_table w)" "finite (ht_nodes (std_cl_table w))"
    using visitor_outside [OF assms(1), of "{c}"] assms(2) by (auto simp: ht_nodes_def)
  then have "element_count (std_cl_table w') = Suc (element_count (std_cl_table w))"
    by (simp add: element_count_card [OF ct(1)] element_count_card [OF ct(2)] t(1))
  moreover have "length (preauth_list w') = length (preauth_list w) - 1" "0 < length (preauth_list w)"
    using assms(2) by (auto simp: t(2) length_remove1 length_pos_if_in_set)
  moreover have "set (preauth_list w) - {c} \<subseteq> set (remove1 c (preauth_list w))" by (auto intro: in_set_remove1 [THEN iffD2])
  ultimately show ?thesis using inv_joined [OF assms] by (auto simp: served_def crowd_def t(1,2))
qed

lemma taken_served:
  assumes "wt_inv w" and "c \<in> set (preauth_list w)" and "taken c w w'"
  shows "served {c} 0 w w'"
proof -
  have t: "conn_inv w'" "ip_inv w'" "roster w'" "beside c w w'" "preauth_list w' = remove1 c (preauth_list w)" "sock_events w' c = None"
    "queue_events w' c = None" "ht_nodes (std_cl_table w') = ht_nodes (std_cl_table w)"
    using assms(3) by (simp_all add: taken_def)
  have "wt_inv w'"
    by (rule inv_beside [OF assms(1) t(1-3) t(4) [unfolded beside_def] listens_leave [OF t(4-7)] _ t(8)])
      (use visitor_outside [OF assms(1), of "{c}"] assms(2) in simp)
  moreover have "set (preauth_list w) - {c} \<subseteq> set (remove1 c (preauth_list w))" by (auto intro: in_set_remove1 [THEN iffD2])
  moreover have "client_table (nds w') (std_cl_table w')" "client_table (nds w) (std_cl_table w)"
    using t(3) assms(1) by (simp_all add: roster_def wt_inv_def)
  then have "element_count (std_cl_table w') = element_count (std_cl_table w)" using t(8) by (simp add: element_count_card)
  ultimately show ?thesis by (auto simp: served_def crowd_def t(5,8) length_remove1)
qed

lemma decided_served:
  assumes "wt_inv w" and "c \<in> set (preauth_list w)" and "decided v c w r"
  shows "v = Crash \<and> r = None \<or> (\<exists>w'. r = Some w' \<and> served {c} 0 w w')"
proof (cases v)
  case (Refused code)
  then obtain w' where "r = Some w'" "turned_away c code w w'" using assms(3) by (auto simp: decided_def refused_def)
  then show ?thesis using served_leave [OF assms(1,2)] by (auto simp: turned_away_def)
next
  case Name_taken
  then obtain w' where r: "r = Some w'" "taken c w w'" using assms(3) by (auto simp: decided_def)
  show ?thesis using taken_served [OF assms(1,2) r(2)] r(1) by blast
next
  case (Admitted nm)
  then show ?thesis using joined_served [OF assms(1,2)] assms(3) by (auto simp: decided_def)
next
  case Crash
  then show ?thesis using assms(3) by (simp add: decided_def)
qed

lemma login_step:
  assumes "wt_inv w" and "c \<in> set (preauth_list w)" and "cl_state (cls w c) = ACCEPTED" and "crowd w \<le> 2 ^ 26"
  shows "fatal_login fetch db c w \<and> wt_handle_authentication fetch sha idx_ok db c w = None \<or>
    (\<exists>w'. wt_handle_authentication fetch sha idx_ok db c w = Some w' \<and> served {c} 0 w w')"
proof -
  have i: "conn_inv w" "ip_inv w" "roster w" using assms(1) by (simp_all add: wt_inv_def)
  have "0 < length (preauth_list w)" by (rule length_pos_if_in_set [OF assms(2)])
  then have room: "element_count (std_cl_table w) < 2 ^ 26" using assms(4) unfolding crowd_def by linarith
  from login_cases [OF i assms(2,3) room, of fetch sha idx_ok db] consider
      (waits) w' where "wt_handle_authentication fetch sha idx_ok db c w = Some w'" "only_rcv c w w'"
    | (gone) w' where "wt_handle_authentication fetch sha idx_ok db c w = Some w'" "hung_up c w w'"
    | (sent) req where "auth_req_of (request_bytes w c) = Some req"
        "decided (verdict fetch sha (use_auth (cfg w) \<noteq> 0) idx_ok db (users w) req) c w (wt_handle_authentication fetch sha idx_ok db c w)"
    by blast
  then show ?thesis
  proof cases
    case waits
    note o = only_rcv_same [OF waits(2)] and k = only_rcv_keeps [OF waits(2)]
    have "served {c} 0 w w'"
      by (rule served_leave [OF assms(1,2) k(3) [OF i(1)] k(4) [OF i(2)] o(19) only_rcv_listens [OF waits(2) listens_refl]]) (simp add: o)
    then show ?thesis using waits(1) by blast
  next
    case gone
    then show ?thesis using served_leave [OF assms(1,2)] by (auto simp: hung_up_def)
  next
    case sent
    have "fatal_request fetch db w req" if "verdict fetch sha (use_auth (cfg w) \<noteq> 0) idx_ok db (users w) req = Crash"
      using that by (auto simp: fatal_request_def verdict_def name_verdict_def Let_def split: if_splits option.splits)
    then show ?thesis using decided_served [OF assms(1,2) sent(2)] sent(1) assms(2,3) by (auto simp: fatal_login_def)
  qed
qed

subsection \<open>One event\<close>

lemma endless_loop:
  assumes "endless c w"
  shows "inbound_loop c w = None"
proof (rule loop_never_ends [of "endless c", OF assms])
  fix w assume e: "endless c w"
  have "border_calls 1 c w \<noteq> None" using e unfolding endless_def by blast
  then obtain w' where w': "wt_handle_inbound_data c w = Some (WT_STOP_BORDER, w')"
    by (auto split: option.splits prod.splits wt_inb_data_status.splits)
  have "border_calls n c w' \<noteq> None" for n
  proof -
    have "border_calls (Suc n) c w \<noteq> None" using e unfolding endless_def by blast
    then show ?thesis using w' by simp
  qed
  then show "\<exists>w'. wt_handle_inbound_data c w = Some (WT_STOP_BORDER, w') \<and> endless c w'"
    using w' unfolding endless_def by blast
qed

text \<open>The events that a state is ready for, and those that the thread does not return from.\<close>

fun due :: "worker \<Rightarrow> event \<Rightarrow> bool" where
  "due w (Ev_client c hup inp outp) \<longleftrightarrow> c \<in> set (preauth_list w) \<and> \<not> outp \<or> c \<in> ht_nodes (std_cl_table w)"
| "due w (Ev_queue c) \<longleftrightarrow> c \<in> ht_nodes (std_cl_table w)"
| "due w _ \<longleftrightarrow> True"

fun stuck_at :: "(byte list \<Rightarrow> 'db \<Rightarrow> byte list option) \<Rightarrow> 'db \<Rightarrow> event \<Rightarrow> worker \<Rightarrow> bool" where
  "stuck_at fetch db (Ev_client c hup inp outp) w \<longleftrightarrow> \<not> hup \<and> inp \<and> (fatal_login fetch db c w \<or> online w c \<and> endless c w)"
| "stuck_at fetch db _ w \<longleftrightarrow> False"

fun clients_of :: "event \<Rightarrow> addr list" where
  "clients_of (Ev_client c hup inp outp) = [c]"
| "clients_of _ = []"

fun arrivals :: "event \<Rightarrow> nat" where
  "arrivals (Ev_listener conns) = length conns"
| "arrivals _ = 0"

lemma visitor_event:
  assumes "wt_inv w" and "c \<in> set (preauth_list w)" and "\<not> outp" and "crowd w \<le> 2 ^ 26"
  shows "fatal_login fetch db c w \<and> \<not> hup \<and> inp \<and> wt_handle_clientevent fetch sha idx_ok db c hup inp outp w = None \<or>
    (\<exists>w'. wt_handle_clientevent fetch sha idx_ok db c hup inp outp w = Some w' \<and> served {c} 0 w w')"
proof -
  have v: "visitor w c" using assms(1,2) conn_invD(3) by (auto simp: wt_inv_def)
  then have l: "live w c" and st: "cl_state (cls w c) = ACCEPTING \<or> cl_state (cls w c) = ACCEPTED" by (auto simp: visitor_def)
  note h = wt_handle_clientevent_def [of fetch sha idx_ok db c _ _ _ w] Let_def
  consider (hup) "hup" | (quiet) "\<not> hup" "\<not> inp" | (accepting) "\<not> hup" "inp" "cl_state (cls w c) = ACCEPTING"
    | (accepted) "\<not> hup" "inp" "cl_state (cls w c) = ACCEPTED" using st by blast
  then show ?thesis
  proof cases
    case hup
    then show ?thesis using cleanup_step [OF assms(1), of c] assms(2) l by (auto simp: h)
  next
    case quiet
    then show ?thesis using served_mono [OF served_refl [OF assms(1)]] l assms(3) by (simp add: h)
  next
    case accepting
    then show ?thesis using accepting_step [OF assms(1,2) _ assms(4)] l by (simp add: h)
  next
    case accepted
    then show ?thesis using login_step [OF assms(1,2) _ assms(4), of fetch db sha idx_ok] l by (simp add: h)
  qed
qed

lemma client_event:
  assumes "wt_inv w" and "c \<in> ht_nodes (std_cl_table w)"
  shows "online w c \<and> endless c w \<and> \<not> hup \<and> inp \<and> wt_handle_clientevent fetch sha idx_ok db c hup inp outp w = None \<or>
    (\<exists>w'. wt_handle_clientevent fetch sha idx_ok db c hup inp outp w = Some w' \<and> served {c} 0 w w')"
proof -
  have l: "live w c" and st: "cl_state (cls w c) = AUTHENTICATED \<or> cl_state (cls w c) = DISCONNECTED"
    using tended_logged(1) [OF assms] by (auto simp: logged_def)
  note h = wt_handle_clientevent_def [of fetch sha idx_ok db c _ _ _ w] Let_def
  define loop where "loop = (if inp \<and> cl_state (cls w c) = AUTHENTICATED then inbound_loop c w else Some (WT_STOP_BORDER, w))"
  have eq: "\<not> hup \<Longrightarrow> wt_handle_clientevent fetch sha idx_ok db c hup inp outp w =
      (case loop of None \<Rightarrow> None | Some (st, w) \<Rightarrow> if outp \<and> st \<noteq> WT_DCONN then wt_handle_outbound_data c w else Some w)"
    using l st by (auto simp: h loop_def)
  have "inp \<and> cl_state (cls w c) = AUTHENTICATED \<and> endless c w \<or>
      (\<exists>st w1. loop = Some (st, w1) \<and> served {} 0 w w1 \<and> c \<in> ht_nodes (std_cl_table w1))"
    using loop_cases [OF assms] served_refl [OF assms(1)] assms(2)
    by (cases "inp \<and> cl_state (cls w c) = AUTHENTICATED") (auto simp: loop_def)
  then consider (hup) "hup" | (endless) "\<not> hup" "inp" "cl_state (cls w c) = AUTHENTICATED" "endless c w"
    | (returned) st w1 where "\<not> hup" "loop = Some (st, w1)" "served {} 0 w w1" "c \<in> ht_nodes (std_cl_table w1)"
    by blast
  then show ?thesis
  proof cases
    case hup
    then show ?thesis using cleanup_step [OF assms(1), of c] assms(2) l by (auto simp: h)
  next
    case endless
    then show ?thesis using eq endless_loop assms(2) by (simp add: loop_def online_def)
  next
    case returned
    obtain w2 where w2: "wt_handle_outbound_data c w1 = Some w2" "served {} 0 w1 w2"
      using outbound_step [OF served_inv [OF returned(3)] returned(4)] by blast
    have "served {} 0 w w2" using served_trans [OF returned(3) w2(2)] by simp
    then show ?thesis using eq returned w2(1) served_mono [of "{}" 0 w _ "{c}"] by auto
  qed
qed

text \<open>The shutdown.\<close>

lemma cleanup_all:
  assumes "wt_inv w" and "preauth_list w = cs"
  shows "\<exists>w'. cleanup_clients cs w = Some w' \<and> wt_inv w' \<and> preauth_list w' = [] \<and> (\<forall>c \<in> set cs. freed (nds w' c)) \<and>
    away (set cs) w w'"
  using assms
proof (induction cs arbitrary: w)
  case Nil
  then show ?case using away_refl by auto
next
  case (Cons c cs)
  have dis: "c \<notin> set cs" using Cons.prems conn_invD(2) by (fastforce simp: wt_inv_def)
  obtain w1 where w1: "cleanup_std_client c w = Some w1" "served {c} 0 w w1" "preauth_list w1 = cs" "freed (nds w1 c)" "away {c} w w1"
    using cleanup_step [OF Cons.prems(1), of c] Cons.prems(2) by auto
  obtain w2 where w2: "cleanup_clients cs w1 = Some w2" "wt_inv w2" "preauth_list w2 = []" "\<forall>c \<in> set cs. freed (nds w2 c)" "away (set cs) w1 w2"
    using Cons.IH [OF served_inv [OF w1(2)] w1(3)] by blast
  have "freed (nds w2 c)" using away_client(1) [OF w2(5) dis] w1(4) by simp
  moreover have "away (set (c # cs)) w w2" by (rule away_trans [OF away_mono [OF w1(5)] away_mono [OF w2(5)]]) auto
  ultimately show ?case using w1(1) w2 by auto
qed

definition shut_down :: "worker \<Rightarrow> worker \<Rightarrow> bool" where
  "shut_down w w' \<longleftrightarrow> wt_inv w' \<and> preauth_list w' = [] \<and> nodes (dconn_clients w') = [] \<and>
     ht_nodes (std_cl_table w') = ht_nodes (std_cl_table w) - set (nodes (dconn_clients w)) \<and>
     (\<forall>c \<in> set (preauth_list w) \<union> set (nodes (dconn_clients w)). freed (nds w' c)) \<and>
     (\<forall>c. sock_events w' c \<noteq> None \<or> queue_events w' c \<noteq> None \<longrightarrow> online w' c)"

lemma shutdown_step:
  assumes "wt_inv w"
  shows "\<exists>w'. wt_handle_shutdown w = Some w' \<and> shut_down w w'"
proof -
  obtain w1 where w1: "cleanup_clients (preauth_list w) w = Some w1" "wt_inv w1" "preauth_list w1 = []"
    "\<forall>c \<in> set (preauth_list w). freed (nds w1 c)" "away (set (preauth_list w)) w w1"
    using cleanup_all [OF assms refl] by blast
  have s1: "std_cl_table w1 = std_cl_table w" "dconn_clients w1 = dconn_clients w" using w1(5) by (simp_all add: away_def shared_def)
  obtain w' where w': "sweep w1 = Some w'" "wt_inv w'" "swept w1 w'" using sweep_ok [OF w1(2)] by blast
  have f: "nds w' = dead (set (nodes (dconn_clients w))) (nds w1)" "nodes (dconn_clients w') = []"
    "ht_nodes (std_cl_table w') = ht_nodes (std_cl_table w) - set (nodes (dconn_clients w))"
    using w'(3) by (simp_all add: swept_def Let_def s1)
  have "preauth_list w' = preauth_list (w'\<lparr>cls := cls w1, nds := nds w1, msgs := msgs w1, std_cl_table := std_cl_table w1, dconn_clients := dconn_clients w1\<rparr>)"
    by simp
  also have "\<dots> = []" using w'(3) w1(3) by (simp only: swept_def Let_def)
  finally have p: "preauth_list w' = []" .
  have "online w' c" if "sock_events w' c \<noteq> None \<or> queue_events w' c \<noteq> None" for c
    using w'(2) p that by (auto simp: wt_inv_def watch_ok_def)
  then show ?thesis using w1(1,4) w'(1,2) f p by (auto simp: wt_handle_shutdown_def shut_down_def dead_def)
qed

lemma event_step:
  assumes "wt_inv w" and "due w ev" and "crowd w + arrivals ev \<le> 2 ^ 26"
  shows "stuck_at fetch db ev w \<and> handle_event fetch sha idx_ok db ev w = None \<or>
    (\<exists>w'. handle_event fetch sha idx_ok db ev w = Some (Running w') \<and> served (set (clients_of ev)) (arrivals ev) w w') \<or>
    ev = Ev_shutdown \<and> (\<exists>w'. handle_event fetch sha idx_ok db ev w = Some (Exited w') \<and> shut_down w w')"
proof (cases ev)
  case (Ev_listener conns)
  then show ?thesis using connections_step [OF assms(1), of conns] assms(3) by auto
next
  case (Ev_client c hup inp outp)
  then show ?thesis
    using visitor_event [OF assms(1), of c outp fetch db hup inp sha idx_ok] client_event [OF assms(1), of c hup inp fetch sha idx_ok db outp] assms(2,3)
    by auto
next
  case (Ev_queue c)
  then show ?thesis using queued_step [OF assms(1), of c] assms(2) by auto
next
  case Ev_shutdown
  then show ?thesis using shutdown_step [OF assms(1)] by auto
qed

subsection \<open>A batch of events\<close>

lemma due_kept:
  assumes "due w ev" and "served A k w w'" and "set (clients_of ev) \<inter> A = {}"
  shows "due w' ev"
  using assms by (cases ev) (auto simp: served_def)

definition events_ok :: "worker \<Rightarrow> event list \<Rightarrow> bool" where
  "events_ok w evs \<longleftrightarrow> (\<forall>ev \<in> set evs. due w ev) \<and> distinct (concat (map clients_of evs)) \<and>
     crowd w + sum_list (map arrivals evs) \<le> 2 ^ 26"

text \<open>Where a batch has come to: before one of its events.\<close>

definition before :: "(byte list \<Rightarrow> 'db \<Rightarrow> byte list option) \<Rightarrow> (byte list \<Rightarrow> byte list) \<Rightarrow> bool \<Rightarrow> 'db \<Rightarrow>
    event list \<Rightarrow> worker \<Rightarrow> event \<Rightarrow> worker \<Rightarrow> bool" where
  "before fetch sha idx_ok db evs w ev w1 \<longleftrightarrow>
     (\<exists>pre post. evs = pre @ ev # post \<and> handle_events fetch sha idx_ok db pre w = Some (Running w1)) \<and> wt_inv w1"

lemma before_here: "wt_inv w \<Longrightarrow> before fetch sha idx_ok db (ev # evs) w ev w"
  unfolding before_def by (rule conjI, rule exI [of _ "[]"], rule exI [of _ evs]) simp_all

lemma before_later:
  assumes "handle_event fetch sha idx_ok db ev w = Some (Running w1)" and "before fetch sha idx_ok db evs w1 ev' w2"
  shows "before fetch sha idx_ok db (ev # evs) w ev' w2"
proof -
  obtain pre post where p: "evs = pre @ ev' # post" "handle_events fetch sha idx_ok db pre w1 = Some (Running w2)" "wt_inv w2"
    using assms(2) by (auto simp: before_def)
  have "handle_events fetch sha idx_ok db (ev # pre) w = Some (Running w2)" using assms(1) p(2) by simp
  moreover have "ev # evs = (ev # pre) @ ev' # post" using p(1) by simp
  ultimately show ?thesis unfolding before_def using p(3) by blast
qed

lemma batch_ok:
  assumes "wt_inv w" and "events_ok w evs"
  shows "(\<exists>w'. handle_events fetch sha idx_ok db evs w = Some (Running w') \<and> wt_inv w' \<and> crowd w' \<le> 2 ^ 26) \<or>
    (\<exists>w1 w'. before fetch sha idx_ok db evs w Ev_shutdown w1 \<and> handle_events fetch sha idx_ok db evs w = Some (Exited w') \<and> shut_down w1 w') \<or>
    (\<exists>ev w1. before fetch sha idx_ok db evs w ev w1 \<and> stuck_at fetch db ev w1 \<and> handle_events fetch sha idx_ok db evs w = None)"
  using assms
proof (induction evs arbitrary: w)
  case Nil
  then show ?case by (simp add: events_ok_def)
next
  case (Cons ev evs)
  have e: "due w ev" "crowd w + arrivals ev \<le> 2 ^ 26" using Cons.prems(2) by (auto simp: events_ok_def)
  note here = before_here [OF Cons.prems(1), of fetch sha idx_ok db ev evs]
  from event_step [OF Cons.prems(1) e, of fetch db sha idx_ok] consider
      (stuck) "stuck_at fetch db ev w" "handle_event fetch sha idx_ok db ev w = None"
    | (running) w1 where "handle_event fetch sha idx_ok db ev w = Some (Running w1)" "served (set (clients_of ev)) (arrivals ev) w w1"
    | (exited) w1 where "ev = Ev_shutdown" "handle_event fetch sha idx_ok db ev w = Some (Exited w1)" "shut_down w w1"
    by metis
  then show ?case
  proof cases
    case stuck
    then have "handle_events fetch sha idx_ok db (ev # evs) w = None" by simp
    then show ?thesis using here stuck(1) by blast
  next
    case running
    have "due w1 ev'" if "ev' \<in> set evs" for ev'
    proof (rule due_kept [OF _ running(2)])
      show "due w ev'" using Cons.prems(2) that by (simp add: events_ok_def)
      show "set (clients_of ev') \<inter> set (clients_of ev) = {}" using Cons.prems(2) that by (auto simp: events_ok_def)
    qed
    moreover have "crowd w1 + sum_list (map arrivals evs) \<le> 2 ^ 26"
      using Cons.prems(2) running(2) by (simp add: events_ok_def served_def)
    ultimately have "events_ok w1 evs" using Cons.prems(2) by (simp add: events_ok_def)
    note ih = Cons.IH [OF served_inv [OF running(2)] this]
    have eq: "handle_events fetch sha idx_ok db (ev # evs) w = handle_events fetch sha idx_ok db evs w1" using running(1) by simp
    show ?thesis unfolding eq using ih before_later [OF running(1)] by blast
  next
    case exited
    then have "handle_events fetch sha idx_ok db (ev # evs) w = Some (Exited w1)" by simp
    then show ?thesis using here exited(1,3) by blast
  qed
qed

subsection \<open>A round\<close>

text \<open>What \<open>epoll_wait\<close> is documented to do: it reports events of descriptors that are watched, of the kinds that
  are asked for, each descriptor once; meanwhile only the clock and the peers have moved on. A process has at most
  \<open>2 ^ 26\<close> descriptors open.\<close>

fun reported :: "worker \<Rightarrow> event \<Rightarrow> bool" where
  "reported w (Ev_client c hup inp outp) \<longleftrightarrow>
     (case sock_events w c of None \<Rightarrow> False | Some (i, out) \<Rightarrow> (inp \<longrightarrow> i) \<and> (outp \<longrightarrow> out))"
| "reported w (Ev_queue c) \<longleftrightarrow> queue_events w c = Some True"
| "reported w _ \<longleftrightarrow> True"

definition waited :: "worker \<Rightarrow> event list option \<times> worker \<Rightarrow> bool" where
  "waited w rw \<longleftrightarrow>
     (case rw of (r, w') \<Rightarrow>
        w' = w\<lparr>inputs := inputs w', outputs := outputs w', accepts := accepts w', now := now w'\<rparr> \<and>
        (case r of None \<Rightarrow> True | Some evs \<Rightarrow>
           (\<forall>ev \<in> set evs. reported w' ev) \<and> distinct (concat (map clients_of evs)) \<and> crowd w' + sum_list (map arrivals evs) \<le> 2 ^ 26))"

lemma wt_inv_env:
  assumes "wt_inv w" and "w' = w\<lparr>inputs := i, outputs := ou, accepts := ac, now := t\<rparr>"
  shows "wt_inv w'"
proof -
  note inv = assms(1) [unfolded wt_inv_def]
  have f: "cls w' = cls w" "nds w' = nds w" "msgs w' = msgs w" "std_cl_table w' = std_cl_table w" "preauth_list w' = preauth_list w"
    "clth w' = clth w" "dconn_clients w' = dconn_clients w" "std_ipblock_tbl w' = std_ipblock_tbl w" "ipb_recs w' = ipb_recs w"
    "ip_whitelist_tbl w' = ip_whitelist_tbl w" "wl_recs w' = wl_recs w" "next_addr w' = next_addr w" "sock_events w' = sock_events w"
    "queue_events w' = queue_events w"
    by (simp_all add: assms(2))
  have "conn_inv w'" by (rule conn_inv_cong [of w]) (use inv in \<open>simp_all add: f\<close>)
  moreover have "ip_inv w'" using inv by (simp add: ip_inv_def f)
  moreover have "roster w'" using inv by (simp add: roster_def live_def f)
  moreover have "owns (ht_nodes (std_cl_table w')) w'"
  proof -
    obtain C U where cu: "msgs_ok (ht_nodes (std_cl_table w)) C U w" "\<And>c. c \<in> ht_nodes (std_cl_table w) \<Longrightarrow> idle C w c"
      using inv by (auto simp: owns_def)
    have "msgs_ok (ht_nodes (std_cl_table w)) C U w'" by (rule msgs_ok_same [OF cu(1)]) (simp_all add: f)
    moreover have "idle C w' c" if "c \<in> ht_nodes (std_cl_table w)" for c using cu(2) [OF that] by (simp add: idle_def f)
    ultimately show ?thesis by (auto simp: owns_def f)
  qed
  moreover have "tended w'" "dconn_ok w'" "watch_ok w'" using inv by (simp_all add: tended_def dconn_ok_def watch_ok_def online_def f)
  ultimately show ?thesis by (simp add: wt_inv_def)
qed

lemma reported_due:
  assumes "wt_inv w" and "reported w ev"
  shows "due w ev"
proof (cases ev)
  case (Ev_client c hup inp outp)
  then obtain i out where s: "sock_events w c = Some (i, out)" "outp \<longrightarrow> out" using assms(2) by (auto split: option.splits)
  have "c \<in> set (preauth_list w) \<or> online w c" using assms(1) s(1) by (simp add: wt_inv_def watch_ok_def)
  moreover have "\<not> out" if "c \<in> set (preauth_list w)"
    using assms(1) that s(1) conn_invD(3) [of w c] by (auto simp: wt_inv_def visitor_def)
  ultimately show ?thesis using s(2) Ev_client by (auto simp: online_def)
next
  case (Ev_queue c)
  then have "queue_events w c \<noteq> None" using assms(2) by simp
  then have "online w c" using assms(1) unfolding wt_inv_def watch_ok_def by blast
  then show ?thesis using Ev_queue by (simp add: online_def)
qed simp_all

lemma waited_ok:
  assumes "wt_inv w" and "waited w (r, w')"
  shows "wt_inv w'" and "crowd w' = crowd w" and "r = Some evs \<Longrightarrow> events_ok w' evs"
proof -
  have w': "w' = w\<lparr>inputs := inputs w', outputs := outputs w', accepts := accepts w', now := now w'\<rparr>"
    using assms(2) by (simp add: waited_def)
  show inv: "wt_inv w'" by (rule wt_inv_env [OF assms(1) w'])
  show "crowd w' = crowd w" by (subst w') (simp add: crowd_def)
  show "events_ok w' evs" if "r = Some evs"
    using assms(2) that reported_due [OF inv] by (simp add: waited_def events_ok_def)
qed

lemma timeouts_step:
  assumes "wt_inv w"
  shows "\<exists>t w'. handle_clth_timeout w = Some (t, w') \<and> served (set (preauth_list w)) 0 w w'"
proof -
  have i: "conn_inv w" "ip_inv w" using assms by (simp_all add: wt_inv_def)
  obtain t w' where r: "handle_clth_timeout w = Some (t, w')" "conn_inv w'" "away (set (preauth_list w)) w w'"
    "std_ipblock_tbl w' = std_ipblock_tbl w" "ipb_recs w' = ipb_recs w" "listens w w'" "length (preauth_list w') \<le> length (preauth_list w)"
    using timeouts_ok [OF i(1)] by blast
  have "served (set (preauth_list w)) 0 w w'"
    by (rule served_away [OF assms r(2) ip_inv_away [OF i(2) r(3-5)] r(3,6) visitor_outside [OF assms order_refl]]) (use r(7) in simp_all)
  then show ?thesis using r(1) by blast
qed

lemma sweep_crowd:
  assumes "wt_inv w" and "wt_inv w'" and "swept w w'"
  shows "crowd w' \<le> crowd w"
proof -
  have ct: "client_table (nds w') (std_cl_table w')" "client_table (nds w) (std_cl_table w)"
    using assms(1,2) by (simp_all add: wt_inv_def roster_def)
  have n: "ht_nodes (std_cl_table w') \<subseteq> ht_nodes (std_cl_table w)" using assms(3) by (auto simp: swept_def Let_def)
  have "preauth_list w' = preauth_list (w'\<lparr>cls := cls w, nds := nds w, msgs := msgs w, std_cl_table := std_cl_table w, dconn_clients := dconn_clients w\<rparr>)"
    by simp
  also have "\<dots> = preauth_list w" using assms(3) by (simp only: swept_def Let_def)
  finally show ?thesis
    using card_mono [OF _ n] by (simp add: crowd_def element_count_card [OF ct(1)] element_count_card [OF ct(2)] ht_nodes_def)
qed

definition waits :: "(int \<Rightarrow> worker \<Rightarrow> event list option \<times> worker) \<Rightarrow> worker \<Rightarrow> bool" where
  "waits poll w \<longleftrightarrow> (\<forall>t w1. handle_clth_timeout w = Some (t, w1) \<longrightarrow> waited w1 (poll (sint (word_of_int t :: 32 word)) w1))"

text \<open>Where a round is stopped: in an event that it has been given.\<close>

definition reaches :: "(byte list \<Rightarrow> 'db \<Rightarrow> byte list option) \<Rightarrow> (byte list \<Rightarrow> byte list) \<Rightarrow> bool \<Rightarrow> 'db \<Rightarrow>
    (int \<Rightarrow> worker \<Rightarrow> event list option \<times> worker) \<Rightarrow> worker \<Rightarrow> event \<Rightarrow> worker \<Rightarrow> bool" where
  "reaches fetch sha idx_ok db poll w ev w3 \<longleftrightarrow>
     (\<exists>t w1 evs w2. handle_clth_timeout w = Some (t, w1) \<and> poll (sint (word_of_int t :: 32 word)) w1 = (Some evs, w2) \<and>
        before fetch sha idx_ok db evs w2 ev w3)"

lemma round_cases:
  assumes "wt_inv w" and "crowd w \<le> 2 ^ 26" and "waits poll w"
  shows "(\<exists>w'. worker_round fetch sha idx_ok db poll w = Some (Running w') \<and> wt_inv w' \<and> crowd w' \<le> 2 ^ 26) \<or>
    (\<exists>w3 w'. reaches fetch sha idx_ok db poll w Ev_shutdown w3 \<and>
       worker_round fetch sha idx_ok db poll w = Some (Exited w') \<and> shut_down w3 w') \<or>
    (\<exists>ev w3. reaches fetch sha idx_ok db poll w ev w3 \<and> stuck_at fetch db ev w3 \<and> worker_round fetch sha idx_ok db poll w = None)"
proof -
  obtain t w1 where t: "handle_clth_timeout w = Some (t, w1)" "served (set (preauth_list w)) 0 w w1" using timeouts_step [OF assms(1)] by blast
  obtain r w2 where p: "poll (sint (word_of_int t :: 32 word)) w1 = (r, w2)" by fastforce
  have wa: "waited w1 (r, w2)" using assms(3) t(1) p unfolding waits_def by metis
  note w2 = waited_ok [OF served_inv [OF t(2)] wa]
  have c2: "crowd w2 \<le> 2 ^ 26" using w2(2) t(2) assms(2) by (simp add: served_def)
  note eq = worker_round_def [of fetch sha idx_ok db poll w]
  show ?thesis
  proof (cases r)
    case None
    then show ?thesis using t(1) p w2(1) c2 by (simp add: eq)
  next
    case (Some evs)
    have re: "reaches fetch sha idx_ok db poll w ev w3" if "before fetch sha idx_ok db evs w2 ev w3" for ev w3
      using t(1) p Some that unfolding reaches_def by blast
    have eq': "worker_round fetch sha idx_ok db poll w =
        (case handle_events fetch sha idx_ok db evs w2 of Some (Running w) \<Rightarrow> map_option Running (sweep w) | r \<Rightarrow> r)"
      using t(1) p Some by (simp add: eq)
    from batch_ok [OF w2(1) w2(3) [OF Some], of fetch sha idx_ok db] show ?thesis
    proof (elim disjE exE conjE)
      fix w3 assume w3: "handle_events fetch sha idx_ok db evs w2 = Some (Running w3)" "wt_inv w3" "crowd w3 \<le> 2 ^ 26"
      obtain w' where w': "sweep w3 = Some w'" "wt_inv w'" "swept w3 w'" using sweep_ok [OF w3(2)] by blast
      then show ?thesis using eq' w3 sweep_crowd [OF w3(2) w'(2,3)] by simp
    next
      fix w3 w' assume "before fetch sha idx_ok db evs w2 Ev_shutdown w3" "handle_events fetch sha idx_ok db evs w2 = Some (Exited w')" "shut_down w3 w'"
      then show ?thesis using eq' re by auto
    next
      fix ev w3 assume "before fetch sha idx_ok db evs w2 ev w3" "stuck_at fetch db ev w3" "handle_events fetch sha idx_ok db evs w2 = None"
      then show ?thesis using eq' re by auto
    qed
  qed
qed

subsection \<open>From the start on\<close>

abbreviation (input) DEF_CLTH_SIZE :: nat where "DEF_CLTH_SIZE \<equiv> 256"

text \<open>What \<open>worker_thrd_routine\<close> sets up before its loop.\<close>

definition worker_start :: "worker \<Rightarrow> worker" where
  "worker_start w = w\<lparr>preauth_list := intrusive_list_create,
     clth := \<lparr>clients = replicate DEF_CLTH_SIZE 0, num_clients = 0, num_slots = DEF_CLTH_SIZE\<rparr>,
     dconn_clients := \<lparr>nodes = [], arr_size = DEF_STDCL_DCONARR_SIZE\<rparr>, sock_events := Map.empty, queue_events := Map.empty\<rparr>"

text \<open>The tables that the worker is given, before anybody has logged in.\<close>

definition fresh_tables :: "worker \<Rightarrow> bool" where
  "fresh_tables w \<longleftrightarrow> ip_inv w \<and> client_table (nds w) (std_cl_table w) \<and> ht_nodes (std_cl_table w) = {} \<and> 0 < next_addr w"

lemma start_inv:
  assumes "fresh_tables w"
  shows "wt_inv (worker_start w)" and "crowd (worker_start w) = 0"
proof -
  have f: "client_table (nds w) (std_cl_table w)" "ht_nodes (std_cl_table w) = {}" "0 < next_addr w" "ip_inv w"
    using assms by (simp_all add: fresh_tables_def)
  have e: "element_count (std_cl_table w) = 0" using element_count_card [OF f(1)] f(2) by simp
  have "\<exists>k. (256 :: nat) = 2 ^ k" by (rule exI [of _ 8]) simp
  then have "conn_inv (worker_start w)"
    by (simp add: conn_inv_def worker_start_def heap_ok_def heap_members_def intrusive_list_create_def)
  moreover have "ip_inv (worker_start w)" using f(4) by (simp add: ip_inv_def worker_start_def)
  moreover have "roster (worker_start w)" using f e by (simp add: roster_def worker_start_def)
  moreover have "owns {} (worker_start w)" using f by (simp add: owns_def msgs_ok_def worker_start_def)
  moreover have "tended (worker_start w)" "dconn_ok (worker_start w)" "watch_ok (worker_start w)"
    using f(2) by (simp_all add: tended_def dconn_ok_def watch_ok_def worker_start_def)
  moreover have "std_cl_table (worker_start w) = std_cl_table w" by (simp add: worker_start_def)
  ultimately show "wt_inv (worker_start w)" using f(2) by (simp add: wt_inv_def)
  show "crowd (worker_start w) = 0" using e by (simp add: crowd_def worker_start_def intrusive_list_create_def)
qed

inductive runs :: "(byte list \<Rightarrow> 'db \<Rightarrow> byte list option) \<Rightarrow> (byte list \<Rightarrow> byte list) \<Rightarrow> bool \<Rightarrow> worker \<Rightarrow> worker \<Rightarrow> bool"
  for fetch sha idx_ok w0 where
  start: "runs fetch sha idx_ok w0 (worker_start w0)"
| round: "runs fetch sha idx_ok w0 w \<Longrightarrow> waits poll w \<Longrightarrow>
    worker_round fetch sha idx_ok db poll w = Some (Running w') \<Longrightarrow> runs fetch sha idx_ok w0 w'"

lemma runs_inv:
  assumes "runs fetch sha idx_ok w0 w" and "fresh_tables w0"
  shows "wt_inv w \<and> crowd w \<le> 2 ^ 26"
  using assms(1)
proof (induction rule: runs.induct)
  case start
  then show ?case using start_inv [OF assms(2)] by simp
next
  case (round w poll db w')
  then show ?case using round_cases [of w poll fetch sha idx_ok db] by auto
qed

subsection \<open>An example\<close>

text \<open>The worker of the example in \<open>Login\<close>, and one that starts with empty tables.\<close>

lemma login_worker_inv: "wt_inv (login_worker inp)" "crowd (login_worker inp) \<le> 2 ^ 26"
proof -
  note ex = login_worker_ok [of inp]
  let ?w = "login_worker inp"
  have t: "std_cl_table ?w = example_ht" "preauth_list ?w = [10]" "dconn_clients ?w = \<lparr>nodes = [], arr_size = DEF_STDCL_DCONARR_SIZE\<rparr>"
    "sock_events ?w = (\<lambda>n. if n \<in> {1, 3} then Some (True, False) else None)(10 \<mapsto> (True, False))"
    "queue_events ?w = (\<lambda>n. if n \<in> {1, 3} then Some True else None)"
    "nds ?w = example_nodes(10 := \<lparr>key = [], ref_cnt = 1, freed = False\<rparr>)"
    "\<And>x. x \<noteq> 10 \<Longrightarrow> cls ?w x = cls (example_worker []) x" "msgs ?w = msgs (example_worker [])" "next_addr ?w = 11"
    by (simp_all add: login_worker_def listening_worker_def example_worker_def)
  have n: "ht_nodes (std_cl_table ?w) = {1, 3}" by (simp add: t example_nodes_in_table)
  have m: "msgs_ok {1, 3} no_msgs no_msgs ?w"
    by (rule msgs_ok_same [OF example_worker_ok(2) [of "[]"]]) (auto simp: t example_worker_def)
  have "idle no_msgs ?w c" for c by (simp add: idle_def)
  with m n have "owns (ht_nodes (std_cl_table ?w)) ?w" by (auto simp: owns_def)
  moreover have "cls ?w n = example_client (if n = 3 then 98 else 97)" if "n \<noteq> 10" for n using that by (simp add: t example_worker_def)
  then have "tended ?w" "online ?w 1" "online ?w 3"
    using example_storage by (auto simp: tended_def online_def t(1,6) example_nodes_in_table example_nodes_def awaiting_def)
  moreover have "dconn_ok ?w" by (simp add: dconn_ok_def t)
  moreover have "watch_ok ?w" using \<open>online ?w 1\<close> \<open>online ?w 3\<close> by (simp add: watch_ok_def t)
  ultimately show "wt_inv ?w" using ex(1-3) by (simp add: wt_inv_def)
  show "crowd ?w \<le> 2 ^ 26" by (simp add: crowd_def t example_ht_def)
qed

definition new_worker :: worker where
  "new_worker = listening_worker\<lparr>std_cl_table := example_ht\<lparr>buckets := [[]], element_count := 0\<rparr>\<rparr>"

lemma new_worker_ok: "fresh_tables new_worker"
proof -
  have "client_table s (example_ht\<lparr>buckets := [[]], element_count := 0\<rparr>)" for s
    using example_ht_ok(1) by (auto simp: client_table_def ht_ok_def ht_sizes_def example_ht_def ht_nodes_def name_order.chain_ok_def)
  then show ?thesis
    using listening_worker_ok(2,3) by (simp add: fresh_tables_def new_worker_def ip_inv_def ht_nodes_def)
qed

subsection \<open>Properties\<close>



text \<open>C2. A round of the loop (deadlines, wait, events, sweep) comes back with the invariant, or the thread has shut
  down as it was told to: all who were to log in and all who had disconnected are freed, and nothing that has been
  freed is watched. It fails to come back only in an event of a client that is stuck: a login request that stops the
  server, or a user whose input the loop of the inbound path never gets past.\<close>

theorem worker_round_returns:
  assumes "wt_inv w" and "crowd w \<le> 2 ^ 26" and "waits poll w"
  shows "(\<exists>w'. worker_round fetch sha idx_ok db poll w = Some (Running w') \<and> wt_inv w' \<and> crowd w' \<le> 2 ^ 26) \<or>
    (\<exists>w3 w'. reaches fetch sha idx_ok db poll w Ev_shutdown w3 \<and>
       worker_round fetch sha idx_ok db poll w = Some (Exited w') \<and> shut_down w3 w') \<or>
    (\<exists>ev w3. reaches fetch sha idx_ok db poll w ev w3 \<and> stuck_at fetch db ev w3 \<and> worker_round fetch sha idx_ok db poll w = None)"
  by (rule round_cases [OF assms])

theorem worker_round_returns_witness:
  "\<exists>w'. worker_round (\<lambda>u db. db u) example_sha True Map.empty (\<lambda>t w. (Some [Ev_client 1 True False False], w)) (login_worker []) = Some (Running w')
    \<and> wt_inv w'"
proof -
  define poll :: "int \<Rightarrow> worker \<Rightarrow> event list option \<times> worker" where "poll = (\<lambda>t w. (Some [Ev_client 1 True False False], w))"
  have "waits poll (login_worker [])"
  proof (unfold waits_def, intro allI impI)
    fix t w1 assume t: "handle_clth_timeout (login_worker []) = Some (t, w1)"
    have p: "preauth_list (login_worker []) = [10]" "sock_events (login_worker []) 1 = Some (True, False)"
      by (simp_all add: login_worker_def listening_worker_def example_worker_def)
    have "served {10} 0 (login_worker []) w1" using timeouts_step [OF login_worker_inv(1) [of "[]"]] t p(1) by simp
    moreover have "away {10} (login_worker []) w1" using timeouts_ok [OF login_worker_ok(1) [of "[]"]] t p(1) by auto
    ultimately have "crowd w1 \<le> 2 ^ 26" "sock_events w1 1 = Some (True, False)"
      using login_worker_inv(2) [of "[]"] away_client(7) [of "{10}" "login_worker []" w1 1] p(2) by (simp_all add: served_def)
    then show "waited w1 (poll (sint (word_of_int t :: 32 word)) w1)" by (simp add: waited_def poll_def)
  qed
  from worker_round_returns [OF login_worker_inv this, of "\<lambda>u db. db u" example_sha True Map.empty]
  show ?thesis by (auto simp: reaches_def poll_def before_def append_eq_Cons_conv Cons_eq_append_conv)
qed

end

