(* ===== verification/Registration.thy ===== *)
theory Registration
  imports Peers Workerstate
begin

text \<open>
  The registration thread, \<open>server/registration.c\<close>: it accepts connections while registrations are allowed, takes one
  request of 56 bytes from each, runs it against the database, notes the outcome in the record of the peer's address,
  answers and hangs up. Its state is one record, like that of a worker; \<open>None\<close> is undefined behaviour or a failed
  assertion. SQLite and SHA-256 are the parameters \<open>exec\<close> and \<open>sha\<close> of \<open>Dbops\<close>; what \<open>epoll_wait\<close> reports and
  what peers send are arguments.
\<close>

abbreviation (input) CLTH_REG_MAXPERM_TIME :: int where "CLTH_REG_MAXPERM_TIME \<equiv> 4"

text \<open>\<open>rg_avail\<close> is the answer of \<open>avail_data_fn\<close>, which is asked at most once on a connection. The listener is
  given by its port, and is watched as long as it is open.\<close>

record 'db regthrd =
  rg_cls :: "addr \<Rightarrow> reg_client"
  rg_freed :: "addr \<Rightarrow> bool"
  rg_list :: "addr list"
  rg_clth :: cl_timerheap
  rg_tbl :: htable
  rg_recs :: "addr \<Rightarrow> reg_ipb_rec"
  rg_wl_tbl :: htable
  rg_wl_recs :: "addr \<Rightarrow> whitelist_rec"
  rg_next :: addr
  rg_garbage :: "addr \<Rightarrow> nat \<Rightarrow> byte"
  rg_inputs :: "addr \<Rightarrow> recv_res list"
  rg_outputs :: "addr \<Rightarrow> send_res list"
  rg_accepts :: "addr \<Rightarrow> accpt list"
  rg_avail :: "addr \<Rightarrow> u32"
  rg_sent :: "addr \<Rightarrow> byte list"
  rg_events :: "addr \<Rightarrow> (bool \<times> bool) option"
  rg_listener :: "u16 option"
  rg_db :: 'db
  rg_now :: timespec
  rg_cfg :: serv_cfg

record reg_incoming = incoming +
  in_avail :: u32

definition rg_live :: "'db regthrd \<Rightarrow> addr \<Rightarrow> bool" where
  "rg_live t c \<longleftrightarrow> c \<noteq> 0 \<and> \<not> rg_freed t c"

definition rg_upd :: "addr \<Rightarrow> (reg_client \<Rightarrow> reg_client) \<Rightarrow> 'db regthrd \<Rightarrow> 'db regthrd" where
  "rg_upd c f t = t\<lparr>rg_cls := (rg_cls t)(c := f (rg_cls t c))\<rparr>"

subsection \<open>A client leaves\<close>

definition cleanup_reg_client :: "addr \<Rightarrow> 'db regthrd \<Rightarrow> 'db regthrd option" where
  "cleanup_reg_client c t =
     (if \<not> rg_live t c then None
      else let t = rg_upd c (\<lambda>s. s\<lparr>sock_fd := - 1\<rparr>) (t\<lparr>rg_events := (rg_events t)(c := None)\<rparr>) in
        case cl_timerheap_remove (rg_clth t) (rg_cls t) c of
          None \<Rightarrow> None
        | Some (h, s) \<Rightarrow>
            Some (t\<lparr>rg_clth := h, rg_cls := s, rg_list := list_remove (rg_list t) c, rg_freed := (rg_freed t)(c := True)\<rparr>))"

definition reg_send_resp :: "addr \<Rightarrow> u32 \<Rightarrow> 'db regthrd \<Rightarrow> 'db regthrd" where
  "reg_send_resp c code t =
     (case auth_send_resp (rg_outputs t c) code of
        (bs, outp) \<Rightarrow> t\<lparr>rg_outputs := (rg_outputs t)(c := outp), rg_sent := (rg_sent t)(c := rg_sent t c @ bs)\<rparr>)"

subsection \<open>The listener\<close>

text \<open>\<open>socket_ok\<close> and \<open>bind_res\<close> are the answers of \<open>socket\<close> and \<open>bind\<close> (\<open>Netwrap\<close>).\<close>

definition handle_flg_reg_changed :: "bool \<Rightarrow> (u16 \<Rightarrow> bind_result) \<Rightarrow> 'db regthrd \<Rightarrow> 'db regthrd" where
  "handle_flg_reg_changed socket_ok bind_res t =
     (let flg_reg = allow_registrations (rg_cfg t) in
      if flg_reg \<noteq> 0 \<and> rg_listener t = None
      then t\<lparr>rg_listener := server_start_tcp socket_ok bind_res (reg_port (rg_cfg t))\<rparr>
      else if flg_reg = 0 \<and> rg_listener t \<noteq> None then t\<lparr>rg_listener := None\<rparr>
      else t)"

subsection \<open>New connections\<close>

definition new_reg_client :: "reg_incoming \<Rightarrow> (nat \<Rightarrow> byte) \<Rightarrow> reg_client" where
  "new_reg_client conn fresh =
     \<lparr>sock_fd = in_sock conn, timerheap_index = INVAL_TH_IND, auth_deadline = Timespec 0 0, peer_name = in_peer conn,
      cl_state = ACCEPTING,
      tmpbuf_recv = \<lparr>rbuf = map fresh [0..<AUTH_REQ_SIZE], rbuf_size = of_nat AUTH_REQ_SIZE, buf_data_offset = 0\<rparr>\<rparr>"

text \<open>The result of \<open>cl_timerheap_add\<close> is ignored.\<close>

definition track_new_client :: "reg_incoming \<Rightarrow> accpt \<Rightarrow> 'db regthrd \<Rightarrow> 'db regthrd option" where
  "track_new_client conn acceptres t =
     (let c = rg_next t;
          t = t\<lparr>rg_next := c + 1, rg_cls := (rg_cls t)(c := new_reg_client conn (rg_garbage t c)), rg_freed := (rg_freed t)(c := False),
                rg_inputs := (rg_inputs t)(c := in_inputs conn), rg_outputs := (rg_outputs t)(c := in_outputs conn),
                rg_accepts := (rg_accepts t)(c := tl (in_accepts conn)), rg_avail := (rg_avail t)(c := in_avail conn),
                rg_sent := (rg_sent t)(c := []), rg_list := list_add (rg_list t) c\<rparr>
      in if acceptres = ACCPT_DONE
         then let t = rg_upd c (\<lambda>s. s\<lparr>cl_state := ACCEPTED\<rparr>) t in
           (case cl_timerheap_add (rg_clth t) (rg_cls t) c (rg_now t) CLTH_REG_MAXPERM_TIME of
              None \<Rightarrow> None
            | Some (_, h, s) \<Rightarrow> Some (t\<lparr>rg_clth := h, rg_cls := s, rg_events := (rg_events t)(c \<mapsto> (True, False))\<rparr>))
         else Some (t\<lparr>rg_events := (rg_events t)(c \<mapsto> (True, True))\<rparr>))"

definition check_reg_peer :: "u32 \<Rightarrow> 'db regthrd \<Rightarrow> (bool \<times> 'db regthrd) option" where
  "check_reg_peer peer t =
     (case (if Servcfg.use_ip_whitelist (rg_cfg t) = 0 then Some True
            else map_option (\<lambda>(r, _). r \<noteq> None) (htable_get calm_locks (rg_wl_recs t) (rg_wl_tbl t) (ip_key peer) False)) of
        None \<Rightarrow> None
      | Some False \<Rightarrow> Some (False, t)
      | Some True \<Rightarrow>
          (case check_block (chk_reg_block (rg_now t)) peer (rg_recs t) (rg_tbl t) of
             None \<Rightarrow> None
           | Some (ok, recs, ht) \<Rightarrow> Some (ok, t\<lparr>rg_tbl := ht, rg_recs := recs\<rparr>)))"

definition reg_connection :: "reg_incoming \<Rightarrow> 'db regthrd \<Rightarrow> 'db regthrd option" where
  "reg_connection conn t =
     (case check_reg_peer (in_peer conn) t of
        None \<Rightarrow> None
      | Some (False, t) \<Rightarrow> Some t
      | Some (True, t) \<Rightarrow>
          let cres = first_answer (in_accepts conn) in
          if cres = ACCPT_ERROR then Some t else track_new_client conn cres t)"

fun reg_connections :: "reg_incoming list \<Rightarrow> 'db regthrd \<Rightarrow> 'db regthrd option" where
  "reg_connections [] t = Some t"
| "reg_connections (conn # conns) t = (case reg_connection conn t of None \<Rightarrow> None | Some t \<Rightarrow> reg_connections conns t)"

text \<open>\<open>accept\<close> delivers the connections and then fails, with \<open>EAGAIN\<close> or otherwise (\<open>broken\<close>). On a listener that
  was closed by an earlier event of the batch it fails at once.\<close>

definition reg_handle_new_connections :: "reg_incoming list \<Rightarrow> bool \<Rightarrow> 'db regthrd \<Rightarrow> 'db regthrd option" where
  "reg_handle_new_connections conns broken t =
     (if rg_listener t = None then Some t
      else case reg_connections conns t of
        None \<Rightarrow> None
      | Some t \<Rightarrow> Some (if broken then t\<lparr>rg_listener := None\<rparr> else t))"

subsection \<open>Requests\<close>

definition manage_reg_ipbr :: "addr \<Rightarrow> record_reason \<Rightarrow> 'db regthrd \<Rightarrow> 'db regthrd option" where
  "manage_reg_ipbr c ripb_reason t =
     (case note_peer (\<lambda>p. reg_ipb_rec_create (rg_now t) p ripb_reason) (bump_reg ripb_reason) node_put
         (rg_next t) (peer_name (rg_cls t c)) (rg_recs t) (rg_tbl t) of
        None \<Rightarrow> None
      | Some (used, recs, ht) \<Rightarrow>
          Some (t\<lparr>rg_next := (if used then rg_next t + 1 else rg_next t), rg_tbl := ht, rg_recs := recs\<rparr>))"

definition request_stmt :: "u32 \<Rightarrow> sql option" where
  "request_stmt ty = (if ty = REQ_REGISTRATION then Some REG_QUERY else if ty = REQ_DELETION then Some DEL_QUERY else None)"

text \<open>What \<open>process_reg_req\<close> writes into the buffer is not kept: the buffer is freed with the client.\<close>

definition run_request :: "(sql \<Rightarrow> byte list \<Rightarrow> byte list \<Rightarrow> 'db \<Rightarrow> bool \<times> nat \<times> 'db) \<Rightarrow> (byte list \<Rightarrow> byte list) \<Rightarrow> bool \<Rightarrow>
    auth_req_group \<Rightarrow> 'db regthrd \<Rightarrow> bool \<times> 'db regthrd" where
  "run_request exec sha idx_ok req t =
     (case request_stmt (request_type req) of
        None \<Rightarrow> (False, t)
      | Some stmt \<Rightarrow> (case process_reg_req exec sha idx_ok stmt (rg_db t) req of (r, db, _) \<Rightarrow> (r, t\<lparr>rg_db := db\<rparr>)))"

definition reg_handle_request :: "(sql \<Rightarrow> byte list \<Rightarrow> byte list \<Rightarrow> 'db \<Rightarrow> bool \<times> nat \<times> 'db) \<Rightarrow> (byte list \<Rightarrow> byte list) \<Rightarrow> bool \<Rightarrow>
    addr \<Rightarrow> 'db regthrd \<Rightarrow> 'db regthrd option" where
  "reg_handle_request exec sha idx_ok c t =
     (case auth_req_of (rbuf (tmpbuf_recv (rg_cls t c))) of
        None \<Rightarrow> None
      | Some req \<Rightarrow>
          let stmt = request_stmt (request_type req);
              (request_result, t) = run_request exec sha idx_ok req t;
              ripb_reason = (if request_result then RSN_REGSUCC else RSN_REGFAIL);
              resp_code = (if request_result then AUTH_RESP_OK else if stmt \<noteq> None then AUTH_RESP_INVAL_PARAM else AUTH_RESP_INVAL_REQ)
          in case (if stmt = Some REG_QUERY \<or> \<not> request_result then manage_reg_ipbr c ripb_reason t else Some t) of
               None \<Rightarrow> None
             | Some t \<Rightarrow> cleanup_reg_client c (reg_send_resp c resp_code t))"

text \<open>The peer has hung up: a request whose last bytes are there is still carried out. The result of \<open>recv\<close> is
  ignored.\<close>

definition post_mortem :: "(sql \<Rightarrow> byte list \<Rightarrow> byte list \<Rightarrow> 'db \<Rightarrow> bool \<times> nat \<times> 'db) \<Rightarrow> (byte list \<Rightarrow> byte list) \<Rightarrow> bool \<Rightarrow>
    addr \<Rightarrow> 'db regthrd \<Rightarrow> 'db regthrd option" where
  "post_mortem exec sha idx_ok c t =
     (let buf = tmpbuf_recv (rg_cls t c); avail_data = rg_avail t c in
      if buf_data_offset buf + avail_data \<noteq> of_nat AUTH_REQ_SIZE then Some t
      else case recv_fn (rg_inputs t c) (unat avail_data) of
        (r, inp) \<Rightarrow>
          (case (case r of RecvData bs \<Rightarrow> mem_write (rbuf buf) (unat (buf_data_offset buf)) bs | _ \<Rightarrow> Some (rbuf buf)) of
             None \<Rightarrow> None
           | Some b \<Rightarrow>
               (case auth_req_of b of
                  None \<Rightarrow> None
                | Some req \<Rightarrow> Some (snd (run_request exec sha idx_ok req (t\<lparr>rg_inputs := (rg_inputs t)(c := inp)\<rparr>))))))"

definition reg_handle_disconnect :: "(sql \<Rightarrow> byte list \<Rightarrow> byte list \<Rightarrow> 'db \<Rightarrow> bool \<times> nat \<times> 'db) \<Rightarrow> (byte list \<Rightarrow> byte list) \<Rightarrow> bool \<Rightarrow>
    bool \<Rightarrow> addr \<Rightarrow> 'db regthrd \<Rightarrow> 'db regthrd option" where
  "reg_handle_disconnect exec sha idx_ok pollin c t =
     (case (if pollin then post_mortem exec sha idx_ok c t else Some t) of
        None \<Rightarrow> None
      | Some t \<Rightarrow> cleanup_reg_client c t)"

definition reg_handle_accepting :: "addr \<Rightarrow> 'db regthrd \<Rightarrow> 'db regthrd option" where
  "reg_handle_accepting c t =
     (let ares = first_answer (rg_accepts t c); t = t\<lparr>rg_accepts := (rg_accepts t)(c := tl (rg_accepts t c))\<rparr> in
      if ares = ACCPT_ERROR then cleanup_reg_client c t
      else if ares = ACCPT_DONE
      then let t = rg_upd c (\<lambda>s. s\<lparr>cl_state := ACCEPTED\<rparr>) t
           in Some (t\<lparr>rg_events := epoll_mod c (True, False) (rg_events t)\<rparr>)
      else Some t)"

definition reg_receive :: "(sql \<Rightarrow> byte list \<Rightarrow> byte list \<Rightarrow> 'db \<Rightarrow> bool \<times> nat \<times> 'db) \<Rightarrow> (byte list \<Rightarrow> byte list) \<Rightarrow> bool \<Rightarrow>
    addr \<Rightarrow> 'db regthrd \<Rightarrow> 'db regthrd option" where
  "reg_receive exec sha idx_ok c t =
     (let buf = tmpbuf_recv (rg_cls t c); curr_data_len = buf_data_offset buf in
      if curr_data_len < of_nat AUTH_REQ_SIZE
      then case recv_fn (rg_inputs t c) (AUTH_REQ_SIZE - unat curr_data_len) of
        (r, inp) \<Rightarrow>
          let t = t\<lparr>rg_inputs := (rg_inputs t)(c := inp)\<rparr> in
          (case r of
             RecvBlock \<Rightarrow> Some t
           | RecvError \<Rightarrow> cleanup_reg_client c t
           | RecvData bs \<Rightarrow>
               (case mem_write (rbuf buf) (unat curr_data_len) bs of
                  None \<Rightarrow> None
                | Some b \<Rightarrow>
                    let len = curr_data_len + of_nat (length bs);
                        t = rg_upd c (\<lambda>s. s\<lparr>tmpbuf_recv := buf\<lparr>rbuf := b, buf_data_offset := len\<rparr>\<rparr>) t
                    in if len = of_nat AUTH_REQ_SIZE then reg_handle_request exec sha idx_ok c t else Some t))
      else Some t)"

definition reg_handle_client_event :: "(sql \<Rightarrow> byte list \<Rightarrow> byte list \<Rightarrow> 'db \<Rightarrow> bool \<times> nat \<times> 'db) \<Rightarrow> (byte list \<Rightarrow> byte list) \<Rightarrow> bool \<Rightarrow>
    addr \<Rightarrow> bool \<Rightarrow> bool \<Rightarrow> 'db regthrd \<Rightarrow> 'db regthrd option" where
  "reg_handle_client_event exec sha idx_ok c hup pollin t =
     (if \<not> rg_live t c then None
      else if hup then reg_handle_disconnect exec sha idx_ok pollin c t
      else if cl_state (rg_cls t c) = ACCEPTING then reg_handle_accepting c t
      else reg_receive exec sha idx_ok c t)"

subsection \<open>Deadlines\<close>

partial_function (option) reg_handle_clth_timeout :: "'db regthrd \<Rightarrow> (int \<times> 'db regthrd) option" where
  "reg_handle_clth_timeout t =
     (case cl_timerheap_compute_root_timediff (rg_clth t) (rg_cls t) (rg_now t) ACCEPTED of
        None \<Rightarrow> None
      | Some timediff \<Rightarrow>
          if timediff = CLTH_NOT_APPLICABLE
          then (case cl_timerheap_pop (rg_clth t) (rg_cls t) of
              None \<Rightarrow> None
            | Some (_, h, s) \<Rightarrow> reg_handle_clth_timeout (t\<lparr>rg_clth := h, rg_cls := s\<rparr>))
          else if timediff = CLTH_TIMEOUT
          then (case cl_timerheap_pop (rg_clth t) (rg_cls t) of
              None \<Rightarrow> None
            | Some (c, h, s) \<Rightarrow>
                (case cleanup_reg_client c (reg_send_resp c AUTH_RESP_TIMEOUT (t\<lparr>rg_clth := h, rg_cls := s\<rparr>)) of
                   None \<Rightarrow> None
                 | Some t \<Rightarrow> reg_handle_clth_timeout t))
          else if timediff = CLTH_EMPTY then Some (- 1, t)
          else Some (timediff, t))"

subsection \<open>Shutdown and the loop\<close>

fun drop_reg_clients :: "addr list \<Rightarrow> 'db regthrd \<Rightarrow> 'db regthrd option" where
  "drop_reg_clients [] t = Some t"
| "drop_reg_clients (c # cs) t =
     (if \<not> rg_live t c then None
      else drop_reg_clients cs (rg_upd c (\<lambda>s. s\<lparr>sock_fd := - 1\<rparr>)
             (t\<lparr>rg_events := (rg_events t)(c := None), rg_freed := (rg_freed t)(c := True)\<rparr>)))"

definition reg_handle_shutdown :: "'db regthrd \<Rightarrow> 'db regthrd option" where
  "reg_handle_shutdown t =
     map_option (\<lambda>t. t\<lparr>rg_list := []\<rparr>)
       (drop_reg_clients (rg_list t)
         (t\<lparr>rg_clth := \<lparr>clients = [], num_clients = num_clients (rg_clth t), num_slots = num_slots (rg_clth t)\<rparr>, rg_listener := None\<rparr>))"

datatype reg_event =
    Rev_flag bool "u16 \<Rightarrow> bind_result"
  | Rev_shutdown
  | Rev_listener "reg_incoming list" bool
  | Rev_client addr bool bool

datatype 'db reg_thread = Reg_running "'db regthrd" | Reg_exited "'db regthrd"

fun reg_event_step :: "(sql \<Rightarrow> byte list \<Rightarrow> byte list \<Rightarrow> 'db \<Rightarrow> bool \<times> nat \<times> 'db) \<Rightarrow> (byte list \<Rightarrow> byte list) \<Rightarrow> bool \<Rightarrow>
    reg_event \<Rightarrow> 'db regthrd \<Rightarrow> 'db reg_thread option" where
  "reg_event_step exec sha idx_ok Rev_shutdown t = map_option Reg_exited (reg_handle_shutdown t)"
| "reg_event_step exec sha idx_ok (Rev_flag socket_ok bind_res) t = Some (Reg_running (handle_flg_reg_changed socket_ok bind_res t))"
| "reg_event_step exec sha idx_ok (Rev_listener conns broken) t = map_option Reg_running (reg_handle_new_connections conns broken t)"
| "reg_event_step exec sha idx_ok (Rev_client c hup pollin) t =
     map_option Reg_running (reg_handle_client_event exec sha idx_ok c hup pollin t)"

fun reg_events :: "(sql \<Rightarrow> byte list \<Rightarrow> byte list \<Rightarrow> 'db \<Rightarrow> bool \<times> nat \<times> 'db) \<Rightarrow> (byte list \<Rightarrow> byte list) \<Rightarrow> bool \<Rightarrow>
    reg_event list \<Rightarrow> 'db regthrd \<Rightarrow> 'db reg_thread option" where
  "reg_events exec sha idx_ok [] t = Some (Reg_running t)"
| "reg_events exec sha idx_ok (ev # evs) t =
     (case reg_event_step exec sha idx_ok ev t of
        Some (Reg_running t) \<Rightarrow> reg_events exec sha idx_ok evs t
      | r \<Rightarrow> r)"

text \<open>A round of the loop; \<open>poll\<close> is \<open>epoll_wait\<close> with the time to wait in milliseconds: the events, or \<open>None\<close> if a signal
  interrupts it, and the state after the wait.\<close>

definition reg_round :: "(sql \<Rightarrow> byte list \<Rightarrow> byte list \<Rightarrow> 'db \<Rightarrow> bool \<times> nat \<times> 'db) \<Rightarrow> (byte list \<Rightarrow> byte list) \<Rightarrow> bool \<Rightarrow>
    (int \<Rightarrow> 'db regthrd \<Rightarrow> reg_event list option \<times> 'db regthrd) \<Rightarrow> 'db regthrd \<Rightarrow> 'db reg_thread option" where
  "reg_round exec sha idx_ok poll t =
     (case reg_handle_clth_timeout t of
        None \<Rightarrow> None
      | Some (root_timediff, t) \<Rightarrow>
          (case poll (sint (word_of_int root_timediff :: 32 word)) t of
             (None, t) \<Rightarrow> Some (Reg_running t)
           | (Some evs, t) \<Rightarrow> reg_events exec sha idx_ok evs t))"

definition reg_start :: "bool \<Rightarrow> (u16 \<Rightarrow> bind_result) \<Rightarrow> 'db regthrd \<Rightarrow> 'db regthrd" where
  "reg_start socket_ok bind_res t = t
     \<lparr>rg_list := list_create, rg_clth := \<lparr>clients = replicate 256 0, num_clients = 0, num_slots = 256\<rparr>, rg_events := (\<lambda>_. None),
      rg_listener := (if allow_registrations (rg_cfg t) \<noteq> 0 then server_start_tcp socket_ok bind_res (reg_port (rg_cfg t)) else None)\<rparr>"

end
