(* ===== verification/Regsafe.thy ===== *)
theory Regsafe
  imports Registration
begin

text \<open>
  Properties of the registration thread: the invariant of its state, which every handler keeps, and what becomes of
  a request.
\<close>

subsection \<open>The invariant\<close>

definition offset_of :: "'db regthrd \<Rightarrow> addr \<Rightarrow> nat" where
  "offset_of t c = unat (buf_data_offset (tmpbuf_recv (rg_cls t c)))"

definition applicant :: "'db regthrd \<Rightarrow> addr \<Rightarrow> bool" where
  "applicant t c \<longleftrightarrow> rg_live t c \<and> c < rg_next t \<and> cl_state (rg_cls t c) \<in> {ACCEPTING, ACCEPTED} \<and>
     length (rbuf (tmpbuf_recv (rg_cls t c))) = AUTH_REQ_SIZE \<and> offset_of t c \<le> AUTH_REQ_SIZE \<and>
     rg_events t c = Some (True, cl_state (rg_cls t c) = ACCEPTING)"

definition reg_ip :: "'db regthrd \<Rightarrow> bool" where
  "reg_ip t \<longleftrightarrow> ip_table (rg_recs t) (rg_tbl t) \<and> ip_table (rg_wl_recs t) (rg_wl_tbl t) \<and> (\<forall>n \<in> ht_nodes (rg_tbl t). n < rg_next t)"

text \<open>The clients with a deadline are some of those that are accepted; only clients in the list are watched.\<close>

definition reg_inv :: "'db regthrd \<Rightarrow> bool" where
  "reg_inv t \<longleftrightarrow> heap_ok (rg_clth t) (rg_cls t) \<and> distinct (rg_list t) \<and> (\<forall>c \<in> set (rg_list t). applicant t c) \<and>
     (\<forall>c \<in> heap_members (rg_clth t). c \<in> set (rg_list t) \<and> cl_state (rg_cls t c) = ACCEPTED) \<and>
     (\<forall>c \<in> set (rg_list t) - heap_members (rg_clth t). timerheap_index (rg_cls t c) = INVAL_TH_IND) \<and>
     (\<forall>c. rg_events t c \<noteq> None \<longrightarrow> c \<in> set (rg_list t)) \<and> 0 < rg_next t \<and> reg_ip t"

lemma reg_invD:
  assumes "reg_inv t"
  shows "heap_ok (rg_clth t) (rg_cls t)" and "distinct (rg_list t)" and "c \<in> set (rg_list t) \<Longrightarrow> applicant t c"
    and "c \<in> heap_members (rg_clth t) \<Longrightarrow> c \<in> set (rg_list t)"
    and "c \<in> heap_members (rg_clth t) \<Longrightarrow> cl_state (rg_cls t c) = ACCEPTED"
    and "c \<in> set (rg_list t) \<Longrightarrow> c \<notin> heap_members (rg_clth t) \<Longrightarrow> timerheap_index (rg_cls t c) = INVAL_TH_IND"
    and "rg_events t c \<noteq> None \<Longrightarrow> c \<in> set (rg_list t)" and "0 < rg_next t" and "reg_ip t"
  using assms unfolding reg_inv_def by blast+

lemma reg_bound: "reg_inv t \<Longrightarrow> num_clients (rg_clth t) \<le> length (rg_list t)"
  by (rule heap_members_bound [OF reg_invD(1)]) (auto dest: reg_invD(4))

text \<open>A client but for its place in the heap, and its connection; a step on behalf of the clients \<open>A\<close> leaves the others
  alone.\<close>

definition unplaced :: "'a client_scheme \<Rightarrow> 'a client_scheme" where
  "unplaced s = s\<lparr>timerheap_index := 0\<rparr>"

definition look :: "'db regthrd \<Rightarrow> addr \<Rightarrow> _" where
  "look t c = (unplaced (rg_cls t c), rg_freed t c, rg_events t c, rg_inputs t c, rg_outputs t c, rg_accepts t c, rg_avail t c, rg_sent t c)"

definition settings :: "'db regthrd \<Rightarrow> _" where
  "settings t = (rg_wl_tbl t, rg_wl_recs t, rg_garbage t, rg_now t, rg_cfg t)"

definition reg_away :: "addr set \<Rightarrow> 'db regthrd \<Rightarrow> 'db regthrd \<Rightarrow> bool" where
  "reg_away A t t' \<longleftrightarrow> settings t' = settings t \<and> rg_next t \<le> rg_next t' \<and> (\<forall>x. x \<notin> A \<longrightarrow> look t' x = look t x)"

lemma reg_away_refl: "reg_away A t t"
  by (simp add: reg_away_def)

lemma reg_away_trans: "reg_away A t t1 \<Longrightarrow> reg_away A t1 t2 \<Longrightarrow> reg_away A t t2"
  by (simp add: reg_away_def)

lemma reg_away_mono: "reg_away A t t' \<Longrightarrow> A \<subseteq> B \<Longrightarrow> reg_away B t t'"
  by (auto simp: reg_away_def)

lemma unplaced_fields:
  assumes "unplaced s' = unplaced s"
  shows "cl_state s' = cl_state s" "auth_deadline s' = auth_deadline s" "peer_name s' = peer_name s"
    "client.more s' = client.more s"
  using arg_cong [OF assms, of cl_state] arg_cong [OF assms, of auth_deadline] arg_cong [OF assms, of peer_name]
    arg_cong [OF assms, of client.more]
  by (simp_all add: unplaced_def)

lemma reindexed_unplaced:
  assumes "reindexed A s s'"
  shows "unplaced (s' c) = unplaced (s c)"
proof -
  obtain i where "s' c = (s c)\<lparr>timerheap_index := i\<rparr>" using assms unfolding reindexed_def by blast
  then show ?thesis by (simp add: unplaced_def)
qed

lemma tmpbuf_more: "client.more s' = client.more s \<Longrightarrow> tmpbuf_recv s' = tmpbuf_recv (s :: reg_client)"
  by (cases s, cases s') simp

lemma look_fields:
  assumes "look t' c = look t c"
  shows "cl_state (rg_cls t' c) = cl_state (rg_cls t c)" "auth_deadline (rg_cls t' c) = auth_deadline (rg_cls t c)"
    "tmpbuf_recv (rg_cls t' c) = tmpbuf_recv (rg_cls t c)" "peer_name (rg_cls t' c) = peer_name (rg_cls t c)"
    "rg_freed t' c = rg_freed t c" "rg_events t' c = rg_events t c"
proof -
  have u: "unplaced (rg_cls t' c) = unplaced (rg_cls t c)" using assms by (simp add: look_def)
  show "cl_state (rg_cls t' c) = cl_state (rg_cls t c)" "auth_deadline (rg_cls t' c) = auth_deadline (rg_cls t c)"
    "peer_name (rg_cls t' c) = peer_name (rg_cls t c)"
    by (rule unplaced_fields [OF u])+
  show "tmpbuf_recv (rg_cls t' c) = tmpbuf_recv (rg_cls t c)" by (rule tmpbuf_more [OF unplaced_fields(4) [OF u]])
qed (use assms in \<open>simp_all add: look_def\<close>)

lemma applicant_cong:
  assumes "applicant t c" and "look t' c = look t c" and "rg_next t \<le> rg_next t'"
  shows "applicant t' c"
  using assms(1,3) look_fields [OF assms(2)] by (simp add: applicant_def rg_live_def offset_of_def)

lemma list_remove_remove1: "list_remove xs c = remove1 c xs"
  by (induction xs) auto

lemma list_add_eq: "list_add xs c = c # xs"
  by (simp add: list_add_def)

text \<open>The invariant after a step on behalf of one client, which stays or goes.\<close>

lemma reg_inv_step:
  assumes inv: "reg_inv t" and aw: "reg_away {c} t t'" and ip: "reg_ip t'" and hp: "heap_ok (rg_clth t') (rg_cls t')"
    and ls: "rg_list t' = rg_list t \<or> rg_list t' = remove1 c (rg_list t) \<and> rg_events t' c = None"
    and mem: "heap_members (rg_clth t') = heap_members (rg_clth t) - D" and D: "D \<subseteq> {c}"
    and ix: "\<And>x. x \<noteq> c \<Longrightarrow> x \<notin> heap_members (rg_clth t) \<Longrightarrow> timerheap_index (rg_cls t' x) = timerheap_index (rg_cls t x)"
    and c: "c \<in> set (rg_list t') \<Longrightarrow> applicant t' c \<and> (c \<in> heap_members (rg_clth t') \<longrightarrow> cl_state (rg_cls t' c) = ACCEPTED) \<and>
      (c \<notin> heap_members (rg_clth t') \<longrightarrow> timerheap_index (rg_cls t' c) = INVAL_TH_IND)"
    and cm: "c \<in> heap_members (rg_clth t') \<Longrightarrow> c \<in> set (rg_list t')" and ev: "rg_events t' c \<noteq> None \<Longrightarrow> c \<in> set (rg_list t')"
  shows "reg_inv t'"
proof -
  note i = reg_invD [OF inv]
  have lk: "look t' x = look t x" if "x \<noteq> c" for x using aw that by (simp add: reg_away_def)
  have sub: "set (rg_list t') \<subseteq> set (rg_list t)" using ls set_remove1_subset [of c "rg_list t"] by auto
  have inl: "x \<in> set (rg_list t')" if "x \<in> set (rg_list t)" "x \<noteq> c" for x using ls that by auto
  have ap: "applicant t' x" if "x \<in> set (rg_list t')" for x
  proof (cases "x = c")
    case False
    show ?thesis by (rule applicant_cong [OF i(3) lk [OF False]]) (use that sub aw in \<open>auto simp: reg_away_def\<close>)
  qed (use c that in simp)
  have hm: "x \<in> set (rg_list t') \<and> cl_state (rg_cls t' x) = ACCEPTED" if "x \<in> heap_members (rg_clth t')" for x
  proof (cases "x = c")
    case False
    then show ?thesis using that mem i(4,5) [of x] inl look_fields(1) [OF lk [OF False]] by auto
  qed (use c cm that in simp)
  have ti: "timerheap_index (rg_cls t' x) = INVAL_TH_IND" if "x \<in> set (rg_list t')" "x \<notin> heap_members (rg_clth t')" for x
  proof (cases "x = c")
    case False
    then have "x \<notin> heap_members (rg_clth t)" "x \<in> set (rg_list t)" using that mem D sub by auto
    then show ?thesis using ix [OF False] i(6) by simp
  qed (use c that in simp)
  have e: "x \<in> set (rg_list t')" if "rg_events t' x \<noteq> None" for x
  proof (cases "x = c")
    case False
    then show ?thesis using that inl i(7) [of x] look_fields(6) [OF lk [OF False]] by metis
  qed (use ev that in simp)
  have "distinct (rg_list t')" using ls i(2) distinct_remove1 by metis
  moreover have "0 < rg_next t'" using i(8) aw by (auto simp: reg_away_def)
  ultimately show ?thesis unfolding reg_inv_def using hp ap hm ti e ip by blast
qed

lemma reg_ip_away:
  assumes "reg_ip t" and "reg_away A t t'" and "rg_tbl t' = rg_tbl t" and "rg_recs t' = rg_recs t"
  shows "reg_ip t'"
  using assms by (auto simp: reg_ip_def reg_away_def settings_def)

subsection \<open>A client leaves\<close>

lemma cleanup_reg_ok:
  assumes inv: "reg_inv t" and c: "c \<in> set (rg_list t)"
  shows "\<exists>t'. cleanup_reg_client c t = Some t' \<and> reg_inv t' \<and> reg_away {c} t t' \<and> rg_list t' = remove1 c (rg_list t) \<and>
    rg_freed t' c \<and> rg_events t' c = None \<and> rg_sent t' = rg_sent t \<and> rg_db t' = rg_db t \<and> rg_tbl t' = rg_tbl t \<and>
    rg_recs t' = rg_recs t \<and> rg_listener t' = rg_listener t \<and> rg_next t' = rg_next t \<and> heap_members (rg_clth t') = heap_members (rg_clth t) - {c}"
proof -
  note i = reg_invD [OF inv]
  have lv: "rg_live t c" and c0: "c \<noteq> 0" using i(3) [OF c] by (auto simp: applicant_def rg_live_def)
  define t1 where "t1 = rg_upd c (\<lambda>s. s\<lparr>sock_fd := - 1\<rparr>) (t\<lparr>rg_events := (rg_events t)(c := None)\<rparr>)"
  have hp1: "heap_ok (rg_clth t1) (rg_cls t1)"
    by (rule heap_ok_cong [of _ "rg_cls t"]) (use i(1) in \<open>simp_all add: t1_def rg_upd_def\<close>)
  obtain h s where r: "cl_timerheap_remove (rg_clth t1) (rg_cls t1) c = Some (h, s)" "heap_ok h s"
    "heap_members h = heap_members (rg_clth t) - {c}" "reindexed (heap_members (rg_clth t)) (rg_cls t1) s"
  proof (cases "c \<in> heap_members (rg_clth t)")
    case True
    then show thesis using remove_lemma [OF hp1, of c] that by (auto simp: removed_def t1_def rg_upd_def)
  next
    case False
    then have "timerheap_index (rg_cls t1 c) = INVAL_TH_IND" using i(6) [OF c] by (simp add: t1_def rg_upd_def)
    moreover have "rg_clth t1 = rg_clth t" by (simp add: t1_def rg_upd_def)
    ultimately show thesis using that [OF heap_remove_outside [OF hp1 c0] hp1] False by simp
  qed
  define t' where "t' = t1\<lparr>rg_clth := h, rg_cls := s, rg_list := list_remove (rg_list t1) c, rg_freed := (rg_freed t1)(c := True)\<rparr>"
  have eq: "cleanup_reg_client c t = Some t'" using lv r(1) by (simp add: cleanup_reg_client_def t'_def t1_def [symmetric] Let_def)
  have f: "rg_list t' = remove1 c (rg_list t)" "rg_freed t' c" "rg_events t' c = None" "rg_clth t' = h" "rg_cls t' = s"
    "rg_sent t' = rg_sent t" "rg_db t' = rg_db t" "rg_tbl t' = rg_tbl t" "rg_recs t' = rg_recs t" "rg_listener t' = rg_listener t"
    "rg_next t' = rg_next t"
    by (simp_all add: t'_def t1_def rg_upd_def list_remove_remove1)
  have aw: "reg_away {c} t t'"
    using reindexed_unplaced [OF r(4)] by (auto simp: reg_away_def look_def settings_def t'_def t1_def rg_upd_def)
  have nin: "c \<notin> set (rg_list t')" using i(2) by (simp add: f(1))
  have "reg_inv t'"
  proof (rule reg_inv_step [OF inv aw reg_ip_away [OF i(9) aw f(8,9)]])
    show "heap_members (rg_clth t') = heap_members (rg_clth t) - {c}" by (simp add: f(4) r(3))
    show "timerheap_index (rg_cls t' x) = timerheap_index (rg_cls t x)" if "x \<noteq> c" "x \<notin> heap_members (rg_clth t)" for x
      using r(4) that by (simp add: reindexed_def f(5) t1_def rg_upd_def)
  qed (use f r nin in simp_all)
  then show ?thesis using eq aw f r(3) by blast
qed

lemma send_resp_away:
  "reg_away {c} t (reg_send_resp c code t)" "rg_list (reg_send_resp c code t) = rg_list t" "rg_clth (reg_send_resp c code t) = rg_clth t"
  "rg_cls (reg_send_resp c code t) = rg_cls t" "rg_tbl (reg_send_resp c code t) = rg_tbl t" "rg_recs (reg_send_resp c code t) = rg_recs t"
  "rg_db (reg_send_resp c code t) = rg_db t" "rg_listener (reg_send_resp c code t) = rg_listener t"
  "rg_next (reg_send_resp c code t) = rg_next t" "rg_freed (reg_send_resp c code t) = rg_freed t" "rg_events (reg_send_resp c code t) = rg_events t"
  "rg_now (reg_send_resp c code t) = rg_now t"
  by (auto simp: reg_send_resp_def reg_away_def look_def settings_def split: prod.splits)

lemma send_resp_sent: "\<exists>k. rg_sent (reg_send_resp c code t) c = rg_sent t c @ take k (be32 code)"
proof -
  obtain bs outp where r: "auth_send_resp (rg_outputs t c) code = (bs, outp)" by fastforce
  then have "\<exists>n. bs = take n (be32 code)"
    by (auto simp: auth_send_resp_def split: prod.splits send_res.splits intro: exI [of _ 0])
  then show ?thesis using r by (auto simp: reg_send_resp_def)
qed

text \<open>Nothing but connections, the database and the rest of what the invariant does not speak about has changed.\<close>

lemma reg_inv_same:
  assumes "reg_inv t" and "rg_cls t' = rg_cls t" and "rg_list t' = rg_list t" and "rg_clth t' = rg_clth t" and "rg_events t' = rg_events t"
    and "rg_freed t' = rg_freed t" and "rg_next t \<le> rg_next t'" and "reg_ip t'"
  shows "reg_inv t'"
proof -
  have "applicant t' c" if "applicant t c" for c
    using that assms by (simp add: applicant_def rg_live_def offset_of_def)
  then show ?thesis using assms by (auto simp: reg_inv_def)
qed

lemma reg_ip_same:
  "reg_ip t \<Longrightarrow> rg_tbl t' = rg_tbl t \<Longrightarrow> rg_recs t' = rg_recs t \<Longrightarrow> rg_wl_tbl t' = rg_wl_tbl t \<Longrightarrow> rg_wl_recs t' = rg_wl_recs t \<Longrightarrow>
    rg_next t \<le> rg_next t' \<Longrightarrow> reg_ip t'"
  by (auto simp: reg_ip_def)

lemma send_resp_inv:
  assumes "reg_inv t"
  shows "reg_inv (reg_send_resp c code t)"
  by (rule reg_inv_same [OF assms _ _ _ _ _ _ reg_ip_away [OF reg_invD(9) [OF assms] send_resp_away(1)]])
    (simp_all add: send_resp_away)

subsection \<open>A request\<close>

definition reg_record :: "'db regthrd \<Rightarrow> u32 \<Rightarrow> reg_ipb_rec option" where
  "reg_record t = peer_record (rg_recs t) (rg_tbl t)"

definition reg_counted :: "record_reason \<Rightarrow> u32 \<Rightarrow> 'db regthrd \<Rightarrow> u32 \<Rightarrow> reg_ipb_rec option" where
  "reg_counted reason peer t = (reg_record t)(peer \<mapsto>
     (case reg_record t peer of
        None \<Rightarrow> reg_ipb_rec_create (rg_now t) peer reason
      | Some r \<Rightarrow> if reason = RSN_REGSUCC then r\<lparr>succ_regs := succ_regs r + 1\<rparr> else r\<lparr>failed_regs := failed_regs r + 1\<rparr>))"

lemma manage_ok:
  assumes inv: "reg_inv t"
  shows "\<exists>t'. manage_reg_ipbr c reason t = Some t' \<and> reg_inv t' \<and> reg_away {} t t' \<and> rg_list t' = rg_list t \<and> rg_cls t' = rg_cls t \<and>
    rg_clth t' = rg_clth t \<and> rg_sent t' = rg_sent t \<and> rg_db t' = rg_db t \<and> rg_listener t' = rg_listener t \<and>
    reg_record t' = reg_counted reason (peer_name (rg_cls t c)) t"
proof -
  define p where "p = peer_name (rg_cls t c)"
  have t: "ip_table (rg_recs t) (rg_tbl t)" "rg_next t \<notin> ht_nodes (rg_tbl t)"
    using reg_invD(9) [OF inv] by (auto simp: reg_ip_def)
  obtain used recs ht where r: "note_peer (\<lambda>p. reg_ipb_rec_create (rg_now t) p reason) (bump_reg reason) node_put
      (rg_next t) p (rg_recs t) (rg_tbl t) = Some (used, recs, ht)"
    "ip_table recs ht" "ht_nodes ht \<subseteq> ht_nodes (rg_tbl t) \<union> (if used then {rg_next t} else {})"
    "peer_record recs ht = (reg_record t)(p \<mapsto>
       (case reg_record t p of None \<Rightarrow> reg_ipb_rec_create (rg_now t) p reason | Some r \<Rightarrow> bump_reg reason r))"
    using reg_book.note_peer_ok [OF t, of "rg_now t" reason node_put p]
    unfolding reg_record_def by blast
  define t' where "t' = t\<lparr>rg_next := (if used then rg_next t + 1 else rg_next t), rg_tbl := ht, rg_recs := recs\<rparr>"
  have f: "rg_list t' = rg_list t" "rg_cls t' = rg_cls t" "rg_clth t' = rg_clth t" "rg_sent t' = rg_sent t" "rg_db t' = rg_db t"
    "rg_listener t' = rg_listener t" "rg_tbl t' = ht" "rg_recs t' = recs"
    by (simp_all add: t'_def)
  have aw: "reg_away {} t t'" by (simp add: reg_away_def look_def settings_def t'_def)
  have "reg_ip t'"
    using reg_invD(9) [OF inv] r(2) by (auto simp: reg_ip_def t'_def dest!: subsetD [OF r(3)] split: if_splits)
  then have "reg_inv t'" by (rule reg_inv_same [OF inv, rotated -1]) (simp_all add: t'_def)
  moreover have "manage_reg_ipbr c reason t = Some t'" using r(1) by (simp add: manage_reg_ipbr_def t'_def p_def)
  moreover have "reg_record t' = reg_counted reason p t"
    using r(4) by (simp add: reg_record_def f reg_counted_def bump_reg_def cong: option.case_cong)
  ultimately show ?thesis using aw f unfolding p_def by blast
qed

text \<open>The outcome of a request according to the database: the answer, the database, and how the request counts.\<close>

definition request_outcome :: "(sql \<Rightarrow> byte list \<Rightarrow> byte list \<Rightarrow> 'db \<Rightarrow> bool \<times> nat \<times> 'db) \<Rightarrow> (byte list \<Rightarrow> byte list) \<Rightarrow>
    'db \<Rightarrow> auth_req_group \<Rightarrow> u32 \<times> 'db \<times> record_reason option" where
  "request_outcome exec sha db req =
     (if request_type req = REQ_REGISTRATION then
        (case exec REG_QUERY (user_of req) (sha (password_of req)) db of
           (res_done, n, db') \<Rightarrow> if res_done \<and> n \<noteq> 0 then (AUTH_RESP_OK, db', Some RSN_REGSUCC) else (AUTH_RESP_INVAL_PARAM, db', Some RSN_REGFAIL))
      else if request_type req = REQ_DELETION then
        (case exec DEL_QUERY (user_of req) (sha (password_of req)) db of
           (res_done, n, db') \<Rightarrow> if res_done \<and> n \<noteq> 0 then (AUTH_RESP_OK, db', None) else (AUTH_RESP_INVAL_PARAM, db', Some RSN_REGFAIL))
      else (AUTH_RESP_INVAL_REQ, db, Some RSN_REGFAIL))"

definition reg_answered :: "addr \<Rightarrow> u32 \<times> 'db \<times> record_reason option \<Rightarrow> 'db regthrd \<Rightarrow> 'db regthrd \<Rightarrow> bool" where
  "reg_answered c outcome t t' \<longleftrightarrow>
     (case outcome of (code, db, reason) \<Rightarrow>
        rg_db t' = db \<and> (\<exists>k. rg_sent t' c = rg_sent t c @ take k (be32 code)) \<and>
        reg_record t' = (case reason of None \<Rightarrow> reg_record t | Some r \<Rightarrow> reg_counted r (peer_name (rg_cls t c)) t))"

definition reg_gone :: "addr \<Rightarrow> 'db regthrd \<Rightarrow> 'db regthrd \<Rightarrow> bool" where
  "reg_gone c t t' \<longleftrightarrow> reg_inv t' \<and> reg_away {c} t t' \<and> rg_list t' = remove1 c (rg_list t) \<and> rg_freed t' c \<and> rg_events t' c = None \<and>
     rg_listener t' = rg_listener t"

lemma run_request_away:
  assumes "run_request exec sha idx_ok req t = (r, t')"
  shows "reg_away {} t t'" "t' = t\<lparr>rg_db := rg_db t'\<rparr>"
  using assms
  by (auto simp: run_request_def reg_away_def look_def settings_def split: option.splits prod.splits)

lemma record_same: "rg_tbl t' = rg_tbl t \<Longrightarrow> rg_recs t' = rg_recs t \<Longrightarrow> reg_record t' = reg_record t"
  by (simp add: reg_record_def)

lemma run_request_outcome:
  assumes "req_ok req" and "run_request exec sha True req t = (r, t1)"
  shows "request_outcome exec sha (rg_db t) req =
    (if r then AUTH_RESP_OK else if request_stmt (request_type req) \<noteq> None then AUTH_RESP_INVAL_PARAM else AUTH_RESP_INVAL_REQ,
     rg_db t1, if request_stmt (request_type req) = Some REG_QUERY \<or> \<not> r then Some (if r then RSN_REGSUCC else RSN_REGFAIL) else None)"
  using assms(2) unfolding run_request_def request_outcome_def request_stmt_def process_reg_req_def Let_def
    terminate_fields_strings [OF assms(1)]
  by (auto split: if_splits prod.splits)

lemma reg_handle_request_ok:
  assumes inv: "reg_inv t1" and c: "c \<in> set (rg_list t1)" and b: "auth_req_of (rbuf (tmpbuf_recv (rg_cls t1 c))) = Some req"
  shows "\<exists>t'. reg_handle_request exec sha idx_ok c t1 = Some t' \<and> reg_gone c t1 t' \<and>
    (idx_ok \<longrightarrow> reg_answered c (request_outcome exec sha (rg_db t1) req) t1 t')"
proof -
  obtain res t2 where r: "run_request exec sha idx_ok req t1 = (res, t2)" by fastforce
  note a2 = run_request_away [OF r]
  define code where "code = (if res then AUTH_RESP_OK else if request_stmt (request_type req) \<noteq> None then AUTH_RESP_INVAL_PARAM
    else AUTH_RESP_INVAL_REQ)"
  define reason where "reason = (if request_stmt (request_type req) = Some REG_QUERY \<or> \<not> res
    then Some (if res then RSN_REGSUCC else RSN_REGFAIL) else None)"
  have e2: "rg_list t2 = rg_list t1" "rg_cls t2 = rg_cls t1" "rg_sent t2 = rg_sent t1" "rg_listener t2 = rg_listener t1"
    "rg_now t2 = rg_now t1" "reg_record t2 = reg_record t1"
    by (subst a2(2), simp add: reg_record_def)+
  have "reg_ip t2" by (rule reg_ip_away [OF reg_invD(9) [OF inv] a2(1)]; subst a2(2); simp)
  then have i2: "reg_inv t2" by (rule reg_inv_same [OF inv, rotated -1]; subst a2(2); simp)
  obtain t3 where t3: "(case reason of None \<Rightarrow> Some t2 | Some x \<Rightarrow> manage_reg_ipbr c x t2) = Some t3" "reg_inv t3" "reg_away {} t2 t3"
    "rg_list t3 = rg_list t1" "rg_cls t3 = rg_cls t1" "rg_sent t3 = rg_sent t1" "rg_db t3 = rg_db t2" "rg_listener t3 = rg_listener t1"
    "reg_record t3 = (case reason of None \<Rightarrow> reg_record t1 | Some x \<Rightarrow> reg_counted x (peer_name (rg_cls t1 c)) t1)"
  proof (cases reason)
    case None
    then show thesis using that [of t2] i2 reg_away_refl [of "{}" t2] e2 by simp
  next
    case (Some x)
    have "reg_counted x p t2 = reg_counted x p t1" for p by (simp add: reg_counted_def e2 cong: option.case_cong)
    then show thesis using that Some manage_ok [OF i2, of c x] e2 by auto
  qed
  define t4 where "t4 = reg_send_resp c code t3"
  obtain k where k: "rg_sent t4 c = rg_sent t1 c @ take k (be32 code)"
    using send_resp_sent [of c code t3] t3(6) by (auto simp: t4_def)
  have c4: "c \<in> set (rg_list t4)" using c t3(4) by (simp add: t4_def send_resp_away)
  obtain t' where t': "cleanup_reg_client c t4 = Some t'" "reg_inv t'" "reg_away {c} t4 t'" "rg_list t' = remove1 c (rg_list t4)"
    "rg_freed t' c" "rg_events t' c = None" "rg_sent t' = rg_sent t4" "rg_db t' = rg_db t4" "rg_tbl t' = rg_tbl t4"
    "rg_recs t' = rg_recs t4" "rg_listener t' = rg_listener t4"
    using cleanup_reg_ok [OF send_resp_inv [OF t3(2), of c code, folded t4_def] c4] by blast
  have "reg_handle_request exec sha idx_ok c t1 = Some t'"
    using b r t3(1) t'(1)
    by (auto simp: reg_handle_request_def Let_def reason_def code_def t4_def split: if_splits)
  moreover have "reg_away {c} t1 t'"
    by (rule reg_away_trans [OF reg_away_mono [OF reg_away_trans [OF a2(1) t3(3)]] reg_away_trans [OF send_resp_away(1) t'(3) [unfolded t4_def]]]) simp
  then have "reg_gone c t1 t'" using t' t3 by (simp add: reg_gone_def t4_def send_resp_away)
  moreover have "reg_answered c (request_outcome exec sha (rg_db t1) req) t1 t'" if idx_ok
  proof -
    have "request_outcome exec sha (rg_db t1) req = (code, rg_db t2, reason)"
      unfolding code_def reason_def by (rule run_request_outcome [OF auth_req_of_ok(1) [OF b]]) (use r that in simp)
    moreover have "reg_record t' = reg_record t3" by (rule record_same) (simp_all add: t' t4_def send_resp_away)
    ultimately show ?thesis using k t3(7,9) t'(7,8) by (auto simp: reg_answered_def t4_def send_resp_away)
  qed
  ultimately show ?thesis by blast
qed

text \<open>A peer that hangs up: its request may be carried out, but it is not counted.\<close>

lemma applicant_buffer:
  assumes "applicant t c"
  shows "unat (buf_data_offset (tmpbuf_recv (rg_cls t c))) \<le> AUTH_REQ_SIZE" "length (rbuf (tmpbuf_recv (rg_cls t c))) = AUTH_REQ_SIZE"
    "rg_live t c"
  using assms by (simp_all add: applicant_def offset_of_def)

lemma offset_sum:
  assumes "off + n = (56 :: u32)" and "unat off \<le> 56"
  shows "unat off + unat n = 56"
proof -
  have "n = 56 - off" using assms(1) by (simp add: algebra_simps eq_diff_eq)
  moreover have "unat (56 - off) = 56 - unat off" by (rule unat_sub [of off 56, simplified]) (use assms(2) in \<open>simp add: word_le_nat_alt\<close>)
  ultimately show ?thesis using assms(2) by simp
qed

lemma post_mortem_ok:
  assumes inv: "reg_inv t" and c: "c \<in> set (rg_list t)"
  shows "\<exists>t'. post_mortem exec sha idx_ok c t = Some t' \<and> reg_inv t' \<and> reg_away {c} t t' \<and> rg_list t' = rg_list t \<and>
    rg_sent t' = rg_sent t \<and> rg_listener t' = rg_listener t \<and> rg_tbl t' = rg_tbl t \<and> rg_recs t' = rg_recs t"
proof -
  note ap = applicant_buffer [OF reg_invD(3) [OF inv c]]
  define buf where "buf = tmpbuf_recv (rg_cls t c)"
  define off where "off = unat (buf_data_offset buf)"
  show ?thesis
  proof (cases "buf_data_offset buf + rg_avail t c = of_nat AUTH_REQ_SIZE")
    case False
    then show ?thesis using inv reg_away_refl [of "{c}" t] by (simp add: post_mortem_def Let_def buf_def)
  next
    case True
    have sz: "off + unat (rg_avail t c) = AUTH_REQ_SIZE"
      using offset_sum [of "buf_data_offset buf" "rg_avail t c"] True ap(1) by (simp add: off_def buf_def)
    obtain r inp where r: "recv_fn (rg_inputs t c) (unat (rg_avail t c)) = (r, inp)" by fastforce
    obtain b where b: "(case r of RecvData bs \<Rightarrow> mem_write (rbuf buf) off bs | _ \<Rightarrow> Some (rbuf buf)) = Some b" "length b = AUTH_REQ_SIZE"
    proof (cases r)
      case (RecvData bs)
      then show thesis using that recv_fn_data [OF r [unfolded RecvData]] mem_write_exists [of off bs "rbuf buf"] sz ap(2)
        by (auto simp: buf_def)
    qed (use that ap(2) in \<open>simp_all add: buf_def\<close>)
    obtain req where q: "auth_req_of b = Some req" using auth_req_of_exists [of b] b(2) by auto
    define t1 where "t1 = t\<lparr>rg_inputs := (rg_inputs t)(c := inp)\<rparr>"
    obtain res t2 where t2: "run_request exec sha idx_ok req t1 = (res, t2)" by fastforce
    note a2 = run_request_away [OF t2]
    have f: "rg_list t2 = rg_list t" "rg_sent t2 = rg_sent t" "rg_listener t2 = rg_listener t" "rg_tbl t2 = rg_tbl t" "rg_recs t2 = rg_recs t"
      by (subst a2(2), simp add: t1_def)+
    have "reg_away {c} t t1" by (simp add: reg_away_def look_def settings_def t1_def)
    then have aw: "reg_away {c} t t2" by (rule reg_away_trans [OF _ reg_away_mono [OF a2(1)]]) simp
    have "reg_inv t2"
      by (rule reg_inv_same [OF inv _ _ _ _ _ _ reg_ip_away [OF reg_invD(9) [OF inv] aw f(4,5)]]; subst a2(2); simp add: t1_def)
    moreover have "post_mortem exec sha idx_ok c t = Some t2"
      using True r b(1) q t2 unfolding post_mortem_def Let_def buf_def [symmetric] off_def [symmetric] t1_def by (simp add: t1_def)
    ultimately show ?thesis using aw f by blast
  qed
qed

lemma reg_disconnect_ok:
  assumes inv: "reg_inv t" and c: "c \<in> set (rg_list t)"
  shows "\<exists>t'. reg_handle_disconnect exec sha idx_ok pollin c t = Some t' \<and> reg_gone c t t' \<and> reg_record t' = reg_record t \<and> rg_sent t' = rg_sent t"
proof -
  obtain t1 where t1: "(if pollin then post_mortem exec sha idx_ok c t else Some t) = Some t1" "reg_inv t1" "reg_away {c} t t1"
    "rg_list t1 = rg_list t" "rg_sent t1 = rg_sent t" "rg_listener t1 = rg_listener t" "rg_tbl t1 = rg_tbl t" "rg_recs t1 = rg_recs t"
    using post_mortem_ok [OF assms, of exec sha idx_ok] inv reg_away_refl [of "{c}" t] by (cases pollin) auto
  obtain t' where t': "cleanup_reg_client c t1 = Some t'" "reg_inv t'" "reg_away {c} t1 t'" "rg_list t' = remove1 c (rg_list t1)"
    "rg_freed t' c" "rg_events t' c = None" "rg_sent t' = rg_sent t1" "rg_tbl t' = rg_tbl t1" "rg_recs t' = rg_recs t1"
    "rg_listener t' = rg_listener t1"
    using cleanup_reg_ok [OF t1(2)] c t1(4) by auto
  have "reg_handle_disconnect exec sha idx_ok pollin c t = Some t'" by (simp add: reg_handle_disconnect_def t1(1) t'(1))
  moreover have "reg_gone c t t'" using t' t1 reg_away_trans [OF t1(3) t'(3)] by (simp add: reg_gone_def)
  ultimately show ?thesis using t' t1 record_same [of t' t] by simp
qed

text \<open>A client that stays in the list while its connection or its buffer changes.\<close>

lemma reg_inv_stays:
  assumes inv: "reg_inv t" and c: "c \<in> set (rg_list t)" and aw: "reg_away {c} t t'" and "rg_list t' = rg_list t"
    and "rg_clth t' = rg_clth t" and "rg_tbl t' = rg_tbl t" and "rg_recs t' = rg_recs t" and "applicant t' c"
    and ti: "\<And>x. timerheap_index (rg_cls t' x) = timerheap_index (rg_cls t x)"
    and st: "cl_state (rg_cls t c) = ACCEPTED \<Longrightarrow> cl_state (rg_cls t' c) = ACCEPTED"
  shows "reg_inv t'"
proof (rule reg_inv_step [OF inv aw reg_ip_away [OF reg_invD(9) [OF inv] aw assms(6,7)], where D = "{}"])
  show "heap_ok (rg_clth t') (rg_cls t')" unfolding assms(5) by (rule heap_ok_cong [OF reg_invD(1) [OF inv]]) (rule ti)
qed (use assms reg_invD(4,5,6) [OF inv, of c] in auto)

lemma reg_accepting_ok:
  assumes inv: "reg_inv t" and c: "c \<in> set (rg_list t)" and st: "cl_state (rg_cls t c) = ACCEPTING"
  shows "\<exists>t'. reg_handle_accepting c t = Some t' \<and> rg_listener t' = rg_listener t \<and>
    (case first_answer (rg_accepts t c) of
       ACCPT_ERROR \<Rightarrow> reg_gone c t t'
     | ACCPT_DONE \<Rightarrow> reg_inv t' \<and> reg_away {c} t t' \<and> rg_list t' = rg_list t \<and> rg_clth t' = rg_clth t \<and> cl_state (rg_cls t' c) = ACCEPTED
     | ACCPT_IN_PROGRESS \<Rightarrow> reg_inv t' \<and> reg_away {c} t t' \<and> rg_list t' = rg_list t \<and> rg_clth t' = rg_clth t \<and> cl_state (rg_cls t' c) = ACCEPTING)"
proof -
  define t1 where "t1 = t\<lparr>rg_accepts := (rg_accepts t)(c := tl (rg_accepts t c))\<rparr>"
  have aw: "reg_away {c} t t1" by (simp add: reg_away_def look_def settings_def t1_def)
  have ap: "applicant t c" by (rule reg_invD(3) [OF inv c])
  have i1: "reg_inv t1"
    by (rule reg_inv_same [OF inv _ _ _ _ _ _ reg_ip_away [OF reg_invD(9) [OF inv] aw]]) (simp_all add: t1_def)
  show ?thesis
  proof (cases "first_answer (rg_accepts t c)")
    case ACCPT_ERROR
    obtain t' where t': "cleanup_reg_client c t1 = Some t'" "reg_inv t'" "reg_away {c} t1 t'" "rg_list t' = remove1 c (rg_list t1)"
      "rg_freed t' c" "rg_events t' c = None" "rg_listener t' = rg_listener t1"
      using cleanup_reg_ok [OF i1, of c] c by (auto simp: t1_def)
    then have "reg_gone c t t'" using reg_away_trans [OF aw t'(3)] by (simp add: reg_gone_def t1_def)
    then show ?thesis using ACCPT_ERROR t' by (simp add: reg_handle_accepting_def Let_def t1_def)
  next
    case ACCPT_DONE
    define t' where "t' = (rg_upd c (\<lambda>s. s\<lparr>cl_state := ACCEPTED\<rparr>) t1)\<lparr>rg_events := epoll_mod c (True, False) (rg_events t1)\<rparr>"
    have f: "rg_cls t' = (rg_cls t)(c := (rg_cls t c)\<lparr>cl_state := ACCEPTED\<rparr>)" "rg_events t' = epoll_mod c (True, False) (rg_events t)"
      "rg_freed t' = rg_freed t" "rg_list t' = rg_list t" "rg_clth t' = rg_clth t" "rg_tbl t' = rg_tbl t" "rg_recs t' = rg_recs t"
      "rg_next t' = rg_next t" "rg_listener t' = rg_listener t"
      by (simp_all add: t'_def t1_def rg_upd_def)
    have aw': "reg_away {c} t t'" by (simp add: reg_away_def look_def settings_def t'_def t1_def rg_upd_def epoll_mod_def)
    have ap': "applicant t' c" using ap by (simp add: applicant_def rg_live_def offset_of_def f epoll_mod_def)
    have "reg_inv t'" by (rule reg_inv_stays [OF inv c aw' f(4-7) ap']) (simp_all add: f)
    moreover have "reg_handle_accepting c t = Some t'"
      using ACCPT_DONE by (simp add: reg_handle_accepting_def Let_def t'_def t1_def rg_upd_def)
    ultimately show ?thesis using ACCPT_DONE aw' f by simp
  next
    case ACCPT_IN_PROGRESS
    then show ?thesis using i1 aw st by (simp add: reg_handle_accepting_def Let_def t1_def)
  qed
qed

subsection \<open>Receiving\<close>

definition stored :: "addr \<Rightarrow> byte list \<Rightarrow> recv_res list \<Rightarrow> 'db regthrd \<Rightarrow> 'db regthrd" where
  "stored c bs inp t =
     (let buf = tmpbuf_recv (rg_cls t c); off = offset_of t c in
      rg_upd c (\<lambda>s. s\<lparr>tmpbuf_recv := buf\<lparr>rbuf := take off (rbuf buf) @ bs @ drop (off + length bs) (rbuf buf),
          buf_data_offset := buf_data_offset buf + of_nat (length bs)\<rparr>\<rparr>)
        (t\<lparr>rg_inputs := (rg_inputs t)(c := inp)\<rparr>))"

lemma stored_fields [simp]:
  "rg_list (stored c bs inp t) = rg_list t" "rg_clth (stored c bs inp t) = rg_clth t" "rg_tbl (stored c bs inp t) = rg_tbl t"
  "rg_recs (stored c bs inp t) = rg_recs t" "rg_db (stored c bs inp t) = rg_db t" "rg_sent (stored c bs inp t) = rg_sent t"
  "rg_listener (stored c bs inp t) = rg_listener t" "rg_inputs (stored c bs inp t) c = inp" "rg_next (stored c bs inp t) = rg_next t"
  "rg_freed (stored c bs inp t) = rg_freed t" "rg_events (stored c bs inp t) = rg_events t" "rg_now (stored c bs inp t) = rg_now t"
  "cl_state (rg_cls (stored c bs inp t) x) = cl_state (rg_cls t x)" "peer_name (rg_cls (stored c bs inp t) x) = peer_name (rg_cls t x)"
  "timerheap_index (rg_cls (stored c bs inp t) x) = timerheap_index (rg_cls t x)"
  by (simp_all add: stored_def Let_def rg_upd_def)

lemma stored_away: "reg_away {c} t (stored c bs inp t)"
  by (simp add: reg_away_def look_def settings_def stored_def Let_def rg_upd_def)

lemma stored_offset:
  assumes "offset_of t c + length bs \<le> AUTH_REQ_SIZE"
  shows "offset_of (stored c bs inp t) c = offset_of t c + length bs"
proof -
  have "buf_data_offset (tmpbuf_recv (rg_cls (stored c bs inp t) c)) = of_nat (offset_of t c + length bs)"
    by (simp add: stored_def Let_def rg_upd_def offset_of_def)
  then show ?thesis using assms by (simp add: offset_of_def [of "stored c bs inp t"] unat_of_nat take_bit_eq_mod del: of_nat_add)
qed

lemma stored_data:
  assumes "length (rbuf (tmpbuf_recv (rg_cls t c))) = AUTH_REQ_SIZE" and "offset_of t c + length bs \<le> AUTH_REQ_SIZE"
  shows "length (rbuf (tmpbuf_recv (rg_cls (stored c bs inp t) c))) = AUTH_REQ_SIZE"
    and "take (offset_of t c + length bs) (rbuf (tmpbuf_recv (rg_cls (stored c bs inp t) c))) =
      take (offset_of t c) (rbuf (tmpbuf_recv (rg_cls t c))) @ bs"
  using assms by (simp_all add: stored_def Let_def rg_upd_def)

lemma stored_inv:
  assumes "reg_inv t" and "c \<in> set (rg_list t)" and "offset_of t c + length bs \<le> AUTH_REQ_SIZE"
  shows "reg_inv (stored c bs inp t)"
proof (rule reg_inv_stays [OF assms(1,2) stored_away])
  show "applicant (stored c bs inp t) c"
    using reg_invD(3) [OF assms(1,2)] stored_offset [OF assms(3)] stored_data(1) [OF _ assms(3)] assms(3)
    by (simp add: applicant_def rg_live_def)
qed simp_all

lemma word_less_offset: "buf_data_offset (tmpbuf_recv (rg_cls t c)) < 56 \<longleftrightarrow> offset_of t c < 56"
  by (simp add: word_less_nat_alt offset_of_def)

lemma reg_receive_data:
  assumes "applicant t c" and "offset_of t c < AUTH_REQ_SIZE"
    and "recv_fn (rg_inputs t c) (AUTH_REQ_SIZE - offset_of t c) = (RecvData bs, inp)"
  shows "reg_receive exec sha idx_ok c t =
    (if offset_of t c + length bs = AUTH_REQ_SIZE then reg_handle_request exec sha idx_ok c (stored c bs inp t) else Some (stored c bs inp t))"
    and "offset_of t c + length bs \<le> AUTH_REQ_SIZE" and "bs \<noteq> []"
proof -
  note ap = applicant_buffer [OF assms(1)]
  show le: "offset_of t c + length bs \<le> AUTH_REQ_SIZE" using recv_fn_data(2) [OF assms(3)] assms(2) by simp
  show "bs \<noteq> []" using recv_fn_data(1) [OF assms(3)] by simp
  have w: "mem_write (rbuf (tmpbuf_recv (rg_cls t c))) (offset_of t c) bs =
      Some (take (offset_of t c) (rbuf (tmpbuf_recv (rg_cls t c))) @ bs @ drop (offset_of t c + length bs) (rbuf (tmpbuf_recv (rg_cls t c))))"
    using le ap(2) by (simp add: mem_write_def)
  have "buf_data_offset (tmpbuf_recv (rg_cls t c)) + of_nat (length bs) = (of_nat (offset_of t c + length bs) :: u32)"
    by (simp add: offset_of_def)
  then have len: "buf_data_offset (tmpbuf_recv (rg_cls t c)) + of_nat (length bs) = 56 \<longleftrightarrow> offset_of t c + length bs = 56"
    using le by (simp add: word_unat_eq_iff unat_of_nat take_bit_eq_mod del: of_nat_add)
  show "reg_receive exec sha idx_ok c t =
    (if offset_of t c + length bs = AUTH_REQ_SIZE then reg_handle_request exec sha idx_ok c (stored c bs inp t) else Some (stored c bs inp t))"
    using assms(2,3) w len word_less_offset [of t c]
    by (simp add: reg_receive_def Let_def flip: offset_of_def) (simp add: stored_def Let_def rg_upd_def)
qed

definition reg_stays :: "addr \<Rightarrow> 'db regthrd \<Rightarrow> 'db regthrd \<Rightarrow> bool" where
  "reg_stays c t t' \<longleftrightarrow> reg_inv t' \<and> reg_away {c} t t' \<and> rg_list t' = rg_list t \<and> rg_clth t' = rg_clth t \<and> rg_listener t' = rg_listener t"

lemma reg_gone_trans: "reg_away {c} t t1 \<Longrightarrow> rg_list t1 = rg_list t \<Longrightarrow> rg_listener t1 = rg_listener t \<Longrightarrow> reg_gone c t1 t' \<Longrightarrow> reg_gone c t t'"
  using reg_away_trans by (auto simp: reg_gone_def)

lemma reg_receive_ok:
  assumes inv: "reg_inv t" and c: "c \<in> set (rg_list t)"
  shows "\<exists>t'. reg_receive exec sha idx_ok c t = Some t' \<and> (reg_gone c t t' \<or> reg_stays c t t')"
proof (cases "offset_of t c < AUTH_REQ_SIZE")
  case False
  then show ?thesis using inv word_less_offset [of t c] reg_away_refl [of "{c}" t] by (simp add: reg_receive_def Let_def reg_stays_def)
next
  case True
  have ap: "applicant t c" by (rule reg_invD(3) [OF inv c])
  obtain r inp where r: "recv_fn (rg_inputs t c) (AUTH_REQ_SIZE - offset_of t c) = (r, inp)" by fastforce
  define t1 where "t1 = t\<lparr>rg_inputs := (rg_inputs t)(c := inp)\<rparr>"
  have aw: "reg_away {c} t t1" by (simp add: reg_away_def look_def settings_def t1_def)
  have i1: "reg_inv t1"
    by (rule reg_inv_same [OF inv _ _ _ _ _ _ reg_ip_away [OF reg_invD(9) [OF inv] aw]]) (simp_all add: t1_def)
  have eq: "reg_receive exec sha idx_ok c t = (case r of RecvBlock \<Rightarrow> Some t1 | RecvError \<Rightarrow> cleanup_reg_client c t1 | _ \<Rightarrow> reg_receive exec sha idx_ok c t)"
    using r True word_less_offset [of t c] by (cases r) (simp_all add: reg_receive_def Let_def t1_def flip: offset_of_def)
  show ?thesis
  proof (cases r)
    case RecvBlock
    then show ?thesis using eq aw i1 by (simp add: reg_stays_def t1_def)
  next
    case RecvError
    obtain t' where "cleanup_reg_client c t1 = Some t'" "reg_gone c t1 t'"
      using cleanup_reg_ok [OF i1, of c] c by (auto simp: t1_def reg_gone_def)
    then show ?thesis using eq RecvError reg_gone_trans [OF aw] by (auto simp: t1_def)
  next
    case (RecvData bs)
    note d = reg_receive_data [OF ap True r [unfolded RecvData]]
    have i2: "reg_inv (stored c bs inp t)" by (rule stored_inv [OF inv c d(2)])
    show ?thesis
    proof (cases "offset_of t c + length bs = AUTH_REQ_SIZE")
      case True
      have "length (rbuf (tmpbuf_recv (rg_cls (stored c bs inp t) c))) = AUTH_REQ_SIZE"
        by (rule stored_data(1) [OF applicant_buffer(2) [OF ap] d(2)])
      then obtain req where "auth_req_of (rbuf (tmpbuf_recv (rg_cls (stored c bs inp t) c))) = Some req"
        using auth_req_of_exists by fastforce
      from reg_handle_request_ok [OF i2 _ this, of exec sha idx_ok] obtain t' where "reg_handle_request exec sha idx_ok c (stored c bs inp t) = Some t'"
        "reg_gone c (stored c bs inp t) t'" using c by auto
      then show ?thesis using d(1) True reg_gone_trans [OF stored_away] by auto
    next
      case False
      then show ?thesis using d(1) i2 stored_away [of c t bs inp] by (simp add: reg_stays_def)
    qed
  qed
qed

lemma reg_client_event_ok:
  assumes inv: "reg_inv t" and c: "c \<in> set (rg_list t)"
  shows "\<exists>t'. reg_handle_client_event exec sha idx_ok c hup pollin t = Some t' \<and> (reg_gone c t t' \<or> reg_stays c t t')"
proof -
  have "rg_live t c" by (rule applicant_buffer(3) [OF reg_invD(3) [OF inv c]])
  then have eq: "reg_handle_client_event exec sha idx_ok c hup pollin t =
      (if hup then reg_handle_disconnect exec sha idx_ok pollin c t
       else if cl_state (rg_cls t c) = ACCEPTING then reg_handle_accepting c t else reg_receive exec sha idx_ok c t)"
    by (simp add: reg_handle_client_event_def)
  consider "hup" | "\<not> hup" "cl_state (rg_cls t c) = ACCEPTING" | "\<not> hup" "cl_state (rg_cls t c) \<noteq> ACCEPTING" by blast
  then show ?thesis
  proof cases
    case 1
    then show ?thesis unfolding eq using reg_disconnect_ok [OF assms, of exec sha idx_ok pollin] by auto
  next
    case 2
    then show ?thesis unfolding eq using reg_accepting_ok [OF assms 2(2)] by (cases "first_answer (rg_accepts t c)") (auto simp: reg_stays_def)
  next
    case 3
    then show ?thesis unfolding eq using reg_receive_ok [OF assms] by auto
  qed
qed

subsection \<open>New connections\<close>

definition reg_status :: "u32 \<Rightarrow> 'db regthrd \<Rightarrow> record_status" where
  "reg_status peer t = block_status (chk_reg_block (rg_now t)) (reg_record t) peer"

definition reg_admitted :: "u32 \<Rightarrow> 'db regthrd \<Rightarrow> bool" where
  "reg_admitted peer t \<longleftrightarrow>
     (Servcfg.use_ip_whitelist (rg_cfg t) = 0 \<or> ip_find (rg_wl_recs t) (rg_wl_tbl t) peer \<noteq> None) \<and> reg_status peer t \<noteq> RS_BLOCKED"

lemma check_reg_peer_ok:
  assumes inv: "reg_inv t"
  shows "\<exists>t'. check_reg_peer peer t = Some (reg_admitted peer t, t') \<and> reg_inv t' \<and> (\<exists>ht recs. t' = t\<lparr>rg_tbl := ht, rg_recs := recs\<rparr>)"
proof -
  have ip: "ip_table (rg_recs t) (rg_tbl t)" "ip_table (rg_wl_recs t) (rg_wl_tbl t)"
    using reg_invD(9) [OF inv] by (simp_all add: reg_ip_def)
  define wl where "wl \<longleftrightarrow> Servcfg.use_ip_whitelist (rg_cfg t) = 0 \<or> ip_find (rg_wl_recs t) (rg_wl_tbl t) peer \<noteq> None"
  have w: "(if Servcfg.use_ip_whitelist (rg_cfg t) = 0 then Some True
      else map_option (\<lambda>(r, _). r \<noteq> None) (htable_get calm_locks (rg_wl_recs t) (rg_wl_tbl t) (ip_key peer) False)) = Some wl"
    using ip_get [OF ip(2), of peer False] by (auto simp: wl_def)
  show ?thesis
  proof (cases wl)
    case False
    moreover have "t = t\<lparr>rg_tbl := rg_tbl t, rg_recs := rg_recs t\<rparr>" by simp
    moreover have "\<not> reg_admitted peer t" using False by (simp add: reg_admitted_def wl_def)
    moreover have "check_reg_peer peer t = Some (False, t)" using False w by (simp add: check_reg_peer_def)
    ultimately show ?thesis using inv by (intro exI [of _ t] conjI exI [of _ "rg_tbl t"] exI [of _ "rg_recs t"]) simp_all
  next
    case True
    obtain recs ht where r: "check_block (chk_reg_block (rg_now t)) peer (rg_recs t) (rg_tbl t) = Some (reg_status peer t \<noteq> RS_BLOCKED, recs, ht)"
      "ip_table recs ht" "ht_nodes ht \<subseteq> ht_nodes (rg_tbl t)"
      using reg_book.check_block_ok [OF ip(1), of "rg_now t" peer] unfolding reg_status_def reg_record_def by blast
    define t' where "t' = t\<lparr>rg_tbl := ht, rg_recs := recs\<rparr>"
    have "reg_ip t'" using reg_invD(9) [OF inv] r(2,3) by (auto simp: reg_ip_def t'_def)
    then have "reg_inv t'" by (rule reg_inv_same [OF inv, rotated -1]) (simp_all add: t'_def)
    moreover have "reg_admitted peer t \<longleftrightarrow> reg_status peer t \<noteq> RS_BLOCKED" using True by (simp add: reg_admitted_def wl_def)
    then have "check_reg_peer peer t = Some (reg_admitted peer t, t')"
      using w True r(1) by (simp add: check_reg_peer_def t'_def)
    ultimately show ?thesis by (auto simp: t'_def)
  qed
qed

text \<open>A client that has been accepted is in the list, with a deadline; one whose handshake goes on is in the list.\<close>

definition reg_entered :: "reg_incoming \<Rightarrow> accpt \<Rightarrow> 'db regthrd \<Rightarrow> 'db regthrd \<Rightarrow> bool" where
  "reg_entered conn acceptres t t' \<longleftrightarrow> rg_list t' = rg_next t # rg_list t \<and> peer_name (rg_cls t' (rg_next t)) = in_peer conn \<and>
     offset_of t' (rg_next t) = 0 \<and> rg_inputs t' (rg_next t) = in_inputs conn \<and>
     (if acceptres = ACCPT_DONE
      then rg_next t \<in> heap_members (rg_clth t') \<and>
        auth_deadline (rg_cls t' (rg_next t)) = Timespec (tv_sec (rg_now t) + CLTH_REG_MAXPERM_TIME) (tv_nsec (rg_now t))
      else cl_state (rg_cls t' (rg_next t)) = ACCEPTING)"

lemma track_ok:
  assumes inv: "reg_inv t" and room: "length (rg_list t) < 2 ^ 31"
  shows "\<exists>t'. track_new_client conn acceptres t = Some t' \<and> reg_inv t' \<and> reg_away {rg_next t} t t' \<and> reg_entered conn acceptres t t' \<and>
    rg_listener t' = rg_listener t \<and> rg_db t' = rg_db t"
proof -
  note i = reg_invD [OF inv]
  define c where "c = rg_next t"
  have old: "x < c" "x \<noteq> 0" if "x \<in> set (rg_list t)" for x using i(3) [OF that] by (auto simp: applicant_def rg_live_def c_def)
  then have nin: "c \<notin> set (rg_list t)" "c \<notin> heap_members (rg_clth t)" using i(4) by auto
  have c0: "c \<noteq> 0" using i(8) by (simp add: c_def)
  define t1 where "t1 = t\<lparr>rg_next := c + 1, rg_cls := (rg_cls t)(c := new_reg_client conn (rg_garbage t c)), rg_freed := (rg_freed t)(c := False),
      rg_inputs := (rg_inputs t)(c := in_inputs conn), rg_outputs := (rg_outputs t)(c := in_outputs conn),
      rg_accepts := (rg_accepts t)(c := tl (in_accepts conn)), rg_avail := (rg_avail t)(c := in_avail conn),
      rg_sent := (rg_sent t)(c := []), rg_list := list_add (rg_list t) c\<rparr>"
  have fin: "\<exists>t'. track_new_client conn acceptres t = Some t' \<and> reg_inv t' \<and> reg_away {rg_next t} t t' \<and> reg_entered conn acceptres t t' \<and>
      rg_listener t' = rg_listener t \<and> rg_db t' = rg_db t"
    if eq: "track_new_client conn acceptres t = Some t'" and t': "t' = t1\<lparr>rg_clth := h, rg_cls := s, rg_events := (rg_events t)(c \<mapsto> ev)\<rparr>"
      and h: "heap_ok h s" "heap_members h - {c} = heap_members (rg_clth t)" "\<And>x. x \<noteq> c \<Longrightarrow> unplaced (s x) = unplaced (rg_cls t x)"
      "\<And>x. x \<noteq> c \<Longrightarrow> x \<notin> heap_members (rg_clth t) \<Longrightarrow> timerheap_index (s x) = timerheap_index (rg_cls t x)"
      and sc: "unplaced (s c) = unplaced ((new_reg_client conn (rg_garbage t c))\<lparr>cl_state := st, auth_deadline := auth_deadline (s c)\<rparr>)"
      and st: "st = (if acceptres = ACCPT_DONE then ACCEPTED else ACCEPTING)" "ev = (True, st = ACCEPTING)"
      and hc: "if acceptres = ACCPT_DONE then c \<in> heap_members h \<and>
          auth_deadline (s c) = Timespec (tv_sec (rg_now t) + CLTH_REG_MAXPERM_TIME) (tv_nsec (rg_now t))
        else c \<notin> heap_members h \<and> timerheap_index (s c) = INVAL_TH_IND"
    for t' h s ev st
  proof -
    have f: "rg_cls t' = s" "rg_clth t' = h" "rg_list t' = c # rg_list t" "rg_next t' = c + 1" "rg_events t' = (rg_events t)(c \<mapsto> ev)"
      "rg_tbl t' = rg_tbl t" "rg_recs t' = rg_recs t" "\<not> rg_freed t' c"
      by (simp_all add: t' t1_def list_add_eq)
    have aw: "reg_away {c} t t'" using h(3) by (simp add: reg_away_def look_def settings_def t' t1_def c_def)
    have u: "cl_state (s c) = st" "peer_name (s c) = in_peer conn" "tmpbuf_recv (s c) = tmpbuf_recv (new_reg_client conn (rg_garbage t c))"
      using unplaced_fields [OF sc] tmpbuf_more [OF unplaced_fields(4) [OF sc]] by (simp_all add: new_reg_client_def)
    have "applicant t' c"
      using c0 u st f by (simp add: applicant_def rg_live_def offset_of_def new_reg_client_def)
    moreover have "applicant t' x" if "x \<in> set (rg_list t)" for x
      by (rule applicant_cong [OF i(3) [OF that]]) (use aw that nin(1) in \<open>auto simp: reg_away_def\<close>)
    moreover have "x \<in> set (rg_list t') \<and> cl_state (rg_cls t' x) = ACCEPTED" if "x \<in> heap_members h" for x
    proof (cases "x = c")
      case True
      then show ?thesis using that hc st u f by (auto split: if_splits)
    next
      case False
      then have "x \<in> heap_members (rg_clth t)" using that h(2) by blast
      then show ?thesis using i(4,5) unplaced_fields(1) [OF h(3) [OF False]] by (simp add: f)
    qed
    moreover have "timerheap_index (s x) = INVAL_TH_IND" if "x \<in> set (rg_list t') - heap_members h" for x
    proof (cases "x = c")
      case True
      then show ?thesis using that hc by (auto split: if_splits)
    next
      case False
      then have "x \<notin> heap_members (rg_clth t)" "x \<in> set (rg_list t)" using that h(2) f by auto
      then show ?thesis using h(4) [OF False] i(6) by simp
    qed
    moreover have "x \<in> set (rg_list t')" if "rg_events t' x \<noteq> None" for x using that i(7) [of x] by (auto simp: f split: if_splits)
    moreover have "reg_ip t'" by (rule reg_ip_away [OF i(9) aw f(6,7)])
    ultimately have "reg_inv t'" using h(1) i(2) nin(1) by (simp add: reg_inv_def f)
    moreover have "reg_entered conn acceptres t t'"
      using u st hc by (auto simp: reg_entered_def f c_def [symmetric] offset_of_def new_reg_client_def t' t1_def list_add_eq split: if_splits)
    ultimately show ?thesis using eq aw by (auto simp: t' t1_def c_def)
  qed
  show ?thesis
  proof (cases "acceptres = ACCPT_DONE")
    case False
    define t' where "t' = t1\<lparr>rg_events := (rg_events t)(c \<mapsto> (True, True))\<rparr>"
    have "track_new_client conn acceptres t = Some t'"
      using False by (simp add: track_new_client_def Let_def t'_def t1_def c_def)
    moreover have "heap_ok (rg_clth t) (rg_cls t1)"
      by (rule heap_ok_other [OF i(1) nin(2)]) (simp add: t1_def)
    ultimately show ?thesis
      using False nin by (intro fin [where t' = t' and h = "rg_clth t" and s = "rg_cls t1" and ev = "(True, True)" and st = ACCEPTING]) (simp_all add: t'_def t1_def new_reg_client_def)
  next
    case True
    define s1 where "s1 = (rg_cls t1)(c := (rg_cls t1 c)\<lparr>cl_state := ACCEPTED\<rparr>)"
    have "heap_ok (rg_clth t) s1" by (rule heap_ok_other [OF i(1) nin(2)]) (simp add: t1_def s1_def)
    moreover have "num_clients (rg_clth t) < 2 ^ 31" using reg_bound [OF inv] room by simp
    ultimately obtain h s where a: "cl_timerheap_add (rg_clth t) s1 c (rg_now t) CLTH_REG_MAXPERM_TIME = Some (True, h, s)" "heap_ok h s"
      "heap_members h = insert c (heap_members (rg_clth t))"
      "reindexed (insert c (heap_members (rg_clth t)))
        (s1(c := (s1 c)\<lparr>auth_deadline := Timespec (tv_sec (rg_now t) + CLTH_REG_MAXPERM_TIME) (tv_nsec (rg_now t))\<rparr>)) s"
      using add_client [of "rg_clth t" s1 c "rg_now t" CLTH_REG_MAXPERM_TIME] c0 nin(2) by blast
    define t' where "t' = t1\<lparr>rg_clth := h, rg_cls := s, rg_events := (rg_events t)(c \<mapsto> (True, False))\<rparr>"
    have "track_new_client conn acceptres t = Some t'"
      using True a(1) by (simp add: track_new_client_def Let_def t'_def t1_def c_def s1_def rg_upd_def)
    moreover have "timerheap_index (s x) = timerheap_index (rg_cls t x)" if "x \<noteq> c" "x \<notin> heap_members (rg_clth t)" for x
      using a(4) that by (simp add: reindexed_def s1_def t1_def)
    moreover have "unplaced (s x) = unplaced (rg_cls t x)" if "x \<noteq> c" for x
      using reindexed_unplaced [OF a(4), of x] that by (simp add: s1_def t1_def)
    moreover have "auth_deadline (s c) = Timespec (tv_sec (rg_now t) + CLTH_REG_MAXPERM_TIME) (tv_nsec (rg_now t))"
      using reindexed_fields(1) [OF a(4), of c] by simp
    moreover have "unplaced (s c) = unplaced ((new_reg_client conn (rg_garbage t c))\<lparr>cl_state := ACCEPTED, auth_deadline := auth_deadline (s c)\<rparr>)"
      using reindexed_unplaced [OF a(4), of c] reindexed_fields(1) [OF a(4), of c]
      by (simp add: s1_def t1_def unplaced_def new_reg_client_def)
    ultimately show ?thesis
      using True nin a(2,3) by (intro fin [where t' = t' and h = h and s = s and ev = "(True, False)" and st = ACCEPTED]) (simp_all add: t'_def)
  qed
qed

text \<open>What a handler keeps: the invariant, and the clients but for those of \<open>A\<close>; at most \<open>k\<close> come in.\<close>

definition reg_served :: "addr set \<Rightarrow> nat \<Rightarrow> 'db regthrd \<Rightarrow> 'db regthrd \<Rightarrow> bool" where
  "reg_served A k t t' \<longleftrightarrow> reg_inv t' \<and> set (rg_list t) - A \<subseteq> set (rg_list t') \<and> length (rg_list t') \<le> length (rg_list t) + k"

lemma reg_served_refl: "reg_inv t \<Longrightarrow> reg_served {} 0 t t"
  by (simp add: reg_served_def)

lemma reg_served_trans: "reg_served A k t t1 \<Longrightarrow> reg_served B l t1 t2 \<Longrightarrow> reg_served (A \<union> B) (k + l) t t2"
  by (auto simp: reg_served_def)

lemma reg_served_client:
  assumes "reg_gone c t t' \<or> reg_stays c t t'"
  shows "reg_served {c} 0 t t'" and "rg_listener t' = rg_listener t"
proof -
  have "set (rg_list t) - {c} \<subseteq> set (remove1 c (rg_list t))" by (auto intro: in_set_remove1 [THEN iffD2])
  then show "reg_served {c} 0 t t'"
    using assms by (auto simp: reg_served_def reg_gone_def reg_stays_def length_remove1)
qed (use assms in \<open>auto simp: reg_gone_def reg_stays_def\<close>)

lemma reg_connection_ok:
  assumes inv: "reg_inv t" and room: "length (rg_list t) < 2 ^ 31"
  shows "\<exists>t'. reg_connection conn t = Some t' \<and> reg_served {} 1 t t' \<and> rg_listener t' = rg_listener t \<and> rg_db t' = rg_db t \<and>
    (if reg_admitted (in_peer conn) t \<and> first_answer (in_accepts conn) \<noteq> ACCPT_ERROR
     then reg_entered conn (first_answer (in_accepts conn)) t t' else rg_list t' = rg_list t)"
proof -
  obtain t1 where t1: "check_reg_peer (in_peer conn) t = Some (reg_admitted (in_peer conn) t, t1)" "reg_inv t1"
    "\<exists>ht recs. t1 = t\<lparr>rg_tbl := ht, rg_recs := recs\<rparr>"
    using check_reg_peer_ok [OF inv] by blast
  have f: "rg_list t1 = rg_list t" "rg_listener t1 = rg_listener t" "rg_db t1 = rg_db t" "rg_next t1 = rg_next t" "rg_now t1 = rg_now t"
    using t1(3) by auto
  show ?thesis
  proof (cases "reg_admitted (in_peer conn) t \<and> first_answer (in_accepts conn) \<noteq> ACCPT_ERROR")
    case False
    then have "reg_connection conn t = Some t1" using t1(1) by (auto simp: reg_connection_def Let_def split: bool.splits)
    then show ?thesis using False t1(2) f by (auto simp: reg_served_def)
  next
    case True
    have "length (rg_list t1) < 2 ^ 31" using room f by simp
    from track_ok [OF t1(2) this] obtain t' where t': "track_new_client conn (first_answer (in_accepts conn)) t1 = Some t'" "reg_inv t'"
      "reg_entered conn (first_answer (in_accepts conn)) t1 t'" "rg_listener t' = rg_listener t1" "rg_db t' = rg_db t1"
      by blast
    have "reg_connection conn t = Some t'" using t1(1) t'(1) True by (simp add: reg_connection_def Let_def)
    moreover have "reg_entered conn (first_answer (in_accepts conn)) t t'" using t'(3) unfolding reg_entered_def f .
    moreover have "reg_served {} 1 t t'" using t'(2,3) f by (auto simp: reg_served_def reg_entered_def)
    ultimately show ?thesis using True t' f by auto
  qed
qed

lemma reg_connections_ok:
  assumes "reg_inv t" and "length (rg_list t) + length conns \<le> 2 ^ 31"
  shows "\<exists>t'. reg_connections conns t = Some t' \<and> reg_served {} (length conns) t t' \<and> rg_listener t' = rg_listener t"
  using assms
proof (induction conns arbitrary: t)
  case Nil
  then show ?case using reg_served_refl by simp
next
  case (Cons conn conns)
  have "length (rg_list t) < 2 ^ 31" using Cons.prems(2) by simp
  from reg_connection_ok [OF Cons.prems(1) this] obtain t1 where
    t1: "reg_connection conn t = Some t1" "reg_served {} 1 t t1" "rg_listener t1 = rg_listener t" by blast
  have "reg_inv t1" "length (rg_list t1) + length conns \<le> 2 ^ 31" using t1(2) Cons.prems(2) by (simp_all add: reg_served_def)
  from Cons.IH [OF this] obtain t2 where t2: "reg_connections conns t1 = Some t2" "reg_served {} (length conns) t1 t2"
    "rg_listener t2 = rg_listener t1" by blast
  show ?case using t1 t2 reg_served_trans [OF t1(2) t2(2)] by simp
qed

lemma reg_new_connections_ok:
  assumes "reg_inv t" and "length (rg_list t) + length conns \<le> 2 ^ 31"
  shows "\<exists>t'. reg_handle_new_connections conns broken t = Some t' \<and> reg_served {} (length conns) t t'"
proof (cases "rg_listener t = None")
  case True
  then show ?thesis using assms by (auto simp: reg_handle_new_connections_def reg_served_def)
next
  case False
  obtain t1 where t1: "reg_connections conns t = Some t1" "reg_served {} (length conns) t t1"
    using reg_connections_ok [OF assms] by blast
  have "reg_inv (t1\<lparr>rg_listener := None\<rparr>)"
    by (rule reg_inv_same [of t1]) (use t1(2) in \<open>auto simp: reg_served_def intro: reg_ip_same [OF reg_invD(9)]\<close>)
  then show ?thesis using False t1 by (auto simp: reg_handle_new_connections_def reg_served_def)
qed

lemma flg_changed_ok: "reg_inv t \<Longrightarrow> reg_served {} 0 t (handle_flg_reg_changed socket_ok bind_res t)"
proof -
  assume inv: "reg_inv t"
  have "reg_inv (t\<lparr>rg_listener := l\<rparr>)" for l
    by (rule reg_inv_same [OF inv]) (auto intro: reg_ip_same [OF reg_invD(9) [OF inv]])
  then show ?thesis using inv by (simp add: handle_flg_reg_changed_def Let_def reg_served_def)
qed

subsection \<open>Deadlines\<close>

definition reg_late :: "'db regthrd \<Rightarrow> addr \<Rightarrow> bool" where
  "reg_late t c \<longleftrightarrow> c \<in> heap_members (rg_clth t) \<and> tv_sec (auth_deadline (rg_cls t c)) \<le> tv_sec (rg_now t)"

definition reg_cut_off :: "'db regthrd \<Rightarrow> 'db regthrd \<Rightarrow> addr \<Rightarrow> bool" where
  "reg_cut_off t t' c \<longleftrightarrow> rg_freed t' c \<and> rg_events t' c = None \<and> (\<exists>k. rg_sent t' c = rg_sent t c @ take k (be32 AUTH_RESP_TIMEOUT))"

lemma reg_root:
  assumes inv: "reg_inv t"
  shows "cl_timerheap_compute_root_timediff (rg_clth t) (rg_cls t) (rg_now t) ACCEPTED =
    (if num_clients (rg_clth t) = 0 then Some CLTH_EMPTY
     else let d = tv_sec (auth_deadline (rg_cls t (clients (rg_clth t) ! 0))) - tv_sec (rg_now t)
       in if d \<le> 0 then Some CLTH_TIMEOUT else Some (d * 1000))"
    and "num_clients (rg_clth t) \<noteq> 0 \<Longrightarrow> clients (rg_clth t) ! 0 \<in> heap_members (rg_clth t)"
proof -
  note hp = reg_invD(1) [OF inv]
  show m: "num_clients (rg_clth t) \<noteq> 0 \<Longrightarrow> clients (rg_clth t) ! 0 \<in> heap_members (rg_clth t)"
    using heap_nth_member [OF hp, of 0] by simp
  have "num_slots (rg_clth t) \<noteq> 0" "clients (rg_clth t) ! 0 \<in> heap_members (rg_clth t) \<Longrightarrow> clients (rg_clth t) ! 0 \<noteq> 0"
    using hp unfolding heap_ok_def by (linarith, metis)
  then show "cl_timerheap_compute_root_timediff (rg_clth t) (rg_cls t) (rg_now t) ACCEPTED =
    (if num_clients (rg_clth t) = 0 then Some CLTH_EMPTY
     else let d = tv_sec (auth_deadline (rg_cls t (clients (rg_clth t) ! 0))) - tv_sec (rg_now t)
       in if d \<le> 0 then Some CLTH_TIMEOUT else Some (d * 1000))"
    using m reg_invD(5) [OF inv, of "clients (rg_clth t) ! 0"]
    by (cases "num_clients (rg_clth t) = 0") (auto simp: cl_timerheap_compute_root_timediff_def cl_timerheap_peek_def Let_def)
qed

lemma reg_timeout_step:
  assumes inv: "reg_inv t" and rt: "cl_timerheap_compute_root_timediff (rg_clth t) (rg_cls t) (rg_now t) ACCEPTED = Some CLTH_TIMEOUT"
  shows "\<exists>c t'. reg_late t c \<and> reg_handle_clth_timeout t = reg_handle_clth_timeout t' \<and> reg_inv t' \<and> reg_away {c} t t' \<and>
    rg_list t' = remove1 c (rg_list t) \<and> heap_members (rg_clth t') = heap_members (rg_clth t) - {c} \<and> reg_cut_off t t' c \<and>
    rg_listener t' = rg_listener t \<and> rg_db t' = rg_db t"
proof -
  note root = reg_root [OF inv]
  define c where "c = clients (rg_clth t) ! 0"
  have n: "0 < num_clients (rg_clth t)" using rt unfolding root(1) by (auto simp: Let_def split: if_splits)
  have late: "reg_late t c" using rt n root(2) unfolding root(1) by (auto simp: reg_late_def Let_def c_def split: if_splits)
  then have c: "c \<in> set (rg_list t)" using reg_invD(4) [OF inv] by (simp add: reg_late_def)
  obtain h s where p: "cl_timerheap_pop (rg_clth t) (rg_cls t) = Some (c, h, s)" "removed c (rg_clth t) (rg_cls t) h s"
    using pop_lemma [OF reg_invD(1) [OF inv] n] by (auto simp: c_def)
  note re = p(2) [unfolded removed_def]
  have ri: "reindexed (heap_members (rg_clth t)) (rg_cls t) s" using re by simp
  define t1 where "t1 = t\<lparr>rg_clth := h, rg_cls := s\<rparr>"
  have aw1: "reg_away {c} t t1" using reindexed_unplaced [OF ri] by (simp add: reg_away_def look_def settings_def t1_def)
  have lk: "look t1 c = look t c" using reindexed_unplaced [OF ri] by (simp add: look_def t1_def)
  have i1: "reg_inv t1"
  proof (rule reg_inv_step [OF inv aw1 reg_ip_away [OF reg_invD(9) [OF inv] aw1], where D = "{c}"])
    show "timerheap_index (rg_cls t1 x) = timerheap_index (rg_cls t x)" if "x \<noteq> c" "x \<notin> heap_members (rg_clth t)" for x
      using ri that by (simp add: reindexed_def t1_def)
    have "applicant t1 c" by (rule applicant_cong [OF reg_invD(3) [OF inv c] lk]) (simp add: t1_def)
    then show "applicant t1 c \<and> (c \<in> heap_members (rg_clth t1) \<longrightarrow> cl_state (rg_cls t1 c) = ACCEPTED) \<and>
        (c \<notin> heap_members (rg_clth t1) \<longrightarrow> timerheap_index (rg_cls t1 c) = INVAL_TH_IND)"
      using re by (simp add: t1_def)
  qed (use re c in \<open>auto simp: t1_def\<close>)
  define t2 where "t2 = reg_send_resp c AUTH_RESP_TIMEOUT t1"
  have i2: "reg_inv t2" unfolding t2_def by (rule send_resp_inv [OF i1])
  have f2: "rg_list t2 = rg_list t" "rg_clth t2 = h" "rg_listener t2 = rg_listener t" "rg_db t2 = rg_db t" "reg_away {c} t1 t2"
    by (simp_all add: t2_def send_resp_away t1_def [symmetric]) (simp_all add: t1_def)
  obtain k where k: "rg_sent t2 c = rg_sent t c @ take k (be32 AUTH_RESP_TIMEOUT)"
    using send_resp_sent [of c AUTH_RESP_TIMEOUT t1] by (auto simp: t2_def t1_def)
  obtain t' where t': "cleanup_reg_client c t2 = Some t'" "reg_inv t'" "reg_away {c} t2 t'" "rg_list t' = remove1 c (rg_list t2)"
    "rg_freed t' c" "rg_events t' c = None" "rg_sent t' = rg_sent t2" "rg_db t' = rg_db t2" "rg_listener t' = rg_listener t2"
    "heap_members (rg_clth t') = heap_members (rg_clth t2) - {c}"
    using cleanup_reg_ok [OF i2, of c] c f2(1) by auto
  have "reg_handle_clth_timeout t = reg_handle_clth_timeout t'"
    using rt p(1) t'(1) by (subst reg_handle_clth_timeout.simps) (simp add: t2_def t1_def)
  then show ?thesis
    using late t' f2 k re reg_away_trans [OF aw1 reg_away_trans [OF f2(5) t'(3)]]
    by (intro exI [of _ c] exI [of _ t']) (auto simp: reg_cut_off_def)
qed

lemma reg_timeouts_ok:
  assumes "reg_inv t"
  shows "\<exists>w t'. reg_handle_clth_timeout t = Some (w, t') \<and> reg_inv t' \<and> reg_away {c. reg_late t c} t t' \<and> rg_listener t' = rg_listener t \<and>
    rg_db t' = rg_db t \<and> set (rg_list t') \<subseteq> set (rg_list t) \<and> length (rg_list t') \<le> length (rg_list t) \<and>
    (\<forall>c \<in> set (rg_list t) - set (rg_list t'). reg_late t c \<and> reg_cut_off t t' c) \<and>
    (if heap_members (rg_clth t') = {} then w = - 1 else 0 < w)"
  using assms
proof (induction "length (rg_list t)" arbitrary: t rule: less_induct)
  case less
  note root = reg_root [OF less.prems]
  consider (late) "cl_timerheap_compute_root_timediff (rg_clth t) (rg_cls t) (rg_now t) ACCEPTED = Some CLTH_TIMEOUT"
    | (empty) "num_clients (rg_clth t) = 0" "cl_timerheap_compute_root_timediff (rg_clth t) (rg_cls t) (rg_now t) ACCEPTED = Some CLTH_EMPTY"
    | (wait) d where "num_clients (rg_clth t) \<noteq> 0" "0 < d"
      "cl_timerheap_compute_root_timediff (rg_clth t) (rg_cls t) (rg_now t) ACCEPTED = Some (d * 1000)"
  proof (cases "num_clients (rg_clth t) = 0")
    case True
    then show thesis using that(2) root(1) by simp
  next
    case False
    then show thesis using that(1) that(3) [of "tv_sec (auth_deadline (rg_cls t (clients (rg_clth t) ! 0))) - tv_sec (rg_now t)"] root(1)
      by (auto simp: Let_def split: if_splits)
  qed
  then show ?case
  proof cases
    case empty
    then have "reg_handle_clth_timeout t = Some (- 1, t)" by (subst reg_handle_clth_timeout.simps) simp
    moreover have "heap_members (rg_clth t) = {}" using empty(1) by (simp add: heap_members_def)
    ultimately show ?thesis using less.prems reg_away_refl by auto
  next
    case wait
    then have "reg_handle_clth_timeout t = Some (d * 1000, t)" by (subst reg_handle_clth_timeout.simps) simp
    moreover have "heap_members (rg_clth t) \<noteq> {}" using root(2) wait(1) by blast
    ultimately show ?thesis using less.prems reg_away_refl wait(2) by auto
  next
    case late
    from reg_timeout_step [OF less.prems late] obtain c t1 where
      s: "reg_late t c" "reg_handle_clth_timeout t = reg_handle_clth_timeout t1" "reg_inv t1" "reg_away {c} t t1"
      "rg_list t1 = remove1 c (rg_list t)" "heap_members (rg_clth t1) = heap_members (rg_clth t) - {c}" "reg_cut_off t t1 c"
      "rg_listener t1 = rg_listener t" "rg_db t1 = rg_db t" by blast
    have c: "c \<in> set (rg_list t)" using s(1) reg_invD(4) [OF less.prems] by (simp add: reg_late_def)
    then have "length (rg_list t1) < length (rg_list t)" using s(5) length_pos_if_in_set [OF c] by (simp add: length_remove1)
    from less.hyps [OF this s(3)] obtain w t2 where
      i: "reg_handle_clth_timeout t1 = Some (w, t2)" "reg_inv t2" "reg_away {c. reg_late t1 c} t1 t2" "rg_listener t2 = rg_listener t1"
      "rg_db t2 = rg_db t1" "set (rg_list t2) \<subseteq> set (rg_list t1)" "length (rg_list t2) \<le> length (rg_list t1)"
      "\<forall>c \<in> set (rg_list t1) - set (rg_list t2). reg_late t1 c \<and> reg_cut_off t1 t2 c"
      "if heap_members (rg_clth t2) = {} then w = - 1 else 0 < w" by blast
    have lk: "look t1 x = look t x" if "x \<noteq> c" for x using s(4) that by (simp add: reg_away_def)
    have lt: "reg_late t x" "x \<noteq> c" if "reg_late t1 x" for x
    proof -
      show x: "x \<noteq> c" using that s(6) by (auto simp: reg_late_def)
      have "rg_now t1 = rg_now t" using s(4) by (simp add: reg_away_def settings_def)
      then show "reg_late t x" using that s(6) look_fields(2) [OF lk [OF x]] by (simp add: reg_late_def)
    qed
    have aw: "reg_away {c. reg_late t c} t t2"
      by (rule reg_away_trans [OF reg_away_mono [OF s(4)] reg_away_mono [OF i(3)]]) (use s(1) lt in auto)
    have c2: "look t2 c = look t1 c" using i(3) lt(2) by (auto simp: reg_away_def)
    have "reg_late t x \<and> reg_cut_off t t2 x" if x: "x \<in> set (rg_list t) - set (rg_list t2)" for x
    proof (cases "x = c")
      case True
      then show ?thesis using s(1,7) c2 by (simp add: reg_cut_off_def look_def)
    next
      case False
      then have "x \<in> set (rg_list t1) - set (rg_list t2)" using x s(5) by (simp add: in_set_remove1)
      then have "reg_late t1 x" "reg_cut_off t1 t2 x" using i(8) by blast+
      then show ?thesis using lt(1) lk [OF False] by (simp add: reg_cut_off_def look_def)
    qed
    moreover have "set (rg_list t2) \<subseteq> set (rg_list t)" using i(6) s(5) set_remove1_subset [of c "rg_list t"] by auto
    moreover have "length (rg_list t2) \<le> length (rg_list t)" using i(7) \<open>length (rg_list t1) < length (rg_list t)\<close> by simp
    ultimately show ?thesis using s(2,8,9) i aw by (intro exI [of _ w] exI [of _ t2]) simp
  qed
qed

subsection \<open>Shutdown\<close>

lemma drop_reg_ok:
  assumes "distinct cs" and "\<And>c. c \<in> set cs \<Longrightarrow> rg_live t c"
  shows "\<exists>t'. drop_reg_clients cs t = Some t' \<and> (\<forall>c \<in> set cs. rg_freed t' c \<and> rg_events t' c = None) \<and>
    (\<forall>c. c \<notin> set cs \<longrightarrow> rg_freed t' c = rg_freed t c \<and> rg_events t' c = rg_events t c) \<and> rg_listener t' = rg_listener t"
  using assms
proof (induction cs arbitrary: t)
  case (Cons c cs)
  define t1 where "t1 = rg_upd c (\<lambda>s. s\<lparr>sock_fd := - 1\<rparr>) (t\<lparr>rg_events := (rg_events t)(c := None), rg_freed := (rg_freed t)(c := True)\<rparr>)"
  have "rg_live t1 x" if "x \<in> set cs" for x
    using Cons.prems that by (auto simp: rg_live_def t1_def rg_upd_def)
  from Cons.IH [OF _ this] Cons.prems(1) obtain t' where t': "drop_reg_clients cs t1 = Some t'"
    "\<forall>c \<in> set cs. rg_freed t' c \<and> rg_events t' c = None"
    "\<forall>c. c \<notin> set cs \<longrightarrow> rg_freed t' c = rg_freed t1 c \<and> rg_events t' c = rg_events t1 c" "rg_listener t' = rg_listener t1"
    by auto
  have "drop_reg_clients (c # cs) t = Some t'" using Cons.prems(2) [of c] t'(1) by (simp add: t1_def)
  then show ?case using t'(2-4) Cons.prems(1) by (auto simp: t1_def rg_upd_def)
qed simp

definition reg_closed :: "'db regthrd \<Rightarrow> bool" where
  "reg_closed t \<longleftrightarrow> rg_list t = [] \<and> rg_listener t = None \<and> (\<forall>c. rg_events t c = None)"

lemma reg_shutdown_ok:
  assumes inv: "reg_inv t"
  shows "\<exists>t'. reg_handle_shutdown t = Some t' \<and> reg_closed t' \<and> (\<forall>c \<in> set (rg_list t). rg_freed t' c)"
proof -
  define t1 where "t1 = t\<lparr>rg_clth := \<lparr>clients = [], num_clients = num_clients (rg_clth t), num_slots = num_slots (rg_clth t)\<rparr>, rg_listener := None\<rparr>"
  have "rg_live t1 c" if "c \<in> set (rg_list t)" for c
    using applicant_buffer(3) [OF reg_invD(3) [OF inv that]] by (simp add: rg_live_def t1_def)
  from drop_reg_ok [OF reg_invD(2) [OF inv], of t1, OF this] obtain t' where t': "drop_reg_clients (rg_list t) t1 = Some t'"
    "\<forall>c \<in> set (rg_list t). rg_freed t' c \<and> rg_events t' c = None"
    "\<forall>c. c \<notin> set (rg_list t) \<longrightarrow> rg_freed t' c = rg_freed t1 c \<and> rg_events t' c = rg_events t1 c" "rg_listener t' = rg_listener t1" by auto
  have "rg_events t' c = None" for c
  proof (cases "c \<in> set (rg_list t)")
    case False
    then have "rg_events t c = None" using reg_invD(7) [OF inv] by blast
    then show ?thesis using False t'(3) by (simp add: t1_def)
  qed (use t' in simp)
  then show ?thesis using t' by (simp add: reg_handle_shutdown_def t1_def [symmetric] reg_closed_def) (simp add: t1_def)
qed

subsection \<open>The loop\<close>

fun reg_due :: "'db regthrd \<Rightarrow> reg_event \<Rightarrow> bool" where
  "reg_due t (Rev_client c _ _) \<longleftrightarrow> c \<in> set (rg_list t)"
| "reg_due t _ \<longleftrightarrow> True"

fun reg_clients_of :: "reg_event \<Rightarrow> addr list" where
  "reg_clients_of (Rev_client c _ _) = [c]"
| "reg_clients_of _ = []"

fun reg_arrivals :: "reg_event \<Rightarrow> nat" where
  "reg_arrivals (Rev_listener conns _) = length conns"
| "reg_arrivals _ = 0"

text \<open>A batch of events: those of sockets are of watched ones, one for each, and the heap has room for those that come.\<close>

definition reg_events_ok :: "'db regthrd \<Rightarrow> reg_event list \<Rightarrow> bool" where
  "reg_events_ok t evs \<longleftrightarrow> (\<forall>ev \<in> set evs. reg_due t ev) \<and> distinct (concat (map reg_clients_of evs)) \<and>
     length (rg_list t) + sum_list (map reg_arrivals evs) \<le> 2 ^ 31"

fun reg_fine :: "'db reg_thread \<Rightarrow> bool" where
  "reg_fine (Reg_running t) \<longleftrightarrow> reg_inv t"
| "reg_fine (Reg_exited t) \<longleftrightarrow> reg_closed t"

lemma reg_event_ok:
  assumes inv: "reg_inv t" and due: "reg_due t ev" and room: "length (rg_list t) + reg_arrivals ev \<le> 2 ^ 31"
  shows "\<exists>r. reg_event_step exec sha idx_ok ev t = Some r \<and>
    (case r of Reg_running t' \<Rightarrow> reg_served (set (reg_clients_of ev)) (reg_arrivals ev) t t' | Reg_exited t' \<Rightarrow> reg_closed t')"
proof (cases ev)
  case (Rev_client c hup pollin)
  then obtain t' where "reg_handle_client_event exec sha idx_ok c hup pollin t = Some t'" "reg_gone c t t' \<or> reg_stays c t t'"
    using reg_client_event_ok [OF inv, of c exec sha idx_ok hup pollin] due by auto
  then show ?thesis using Rev_client reg_served_client(1) [of c t t'] by auto
next
  case (Rev_listener conns broken)
  then show ?thesis using reg_new_connections_ok [OF inv, of conns broken] room by auto
next
  case Rev_shutdown
  then show ?thesis using reg_shutdown_ok [OF inv] by auto
qed (use flg_changed_ok [OF inv] in simp)

lemma reg_events_safe:
  assumes "reg_inv t" and "reg_events_ok t evs"
  shows "\<exists>r. reg_events exec sha idx_ok evs t = Some r \<and> reg_fine r"
  using assms
proof (induction evs arbitrary: t)
  case (Cons ev evs)
  have ok: "reg_due t ev" "length (rg_list t) + reg_arrivals ev \<le> 2 ^ 31" using Cons.prems(2) by (simp_all add: reg_events_ok_def)
  from reg_event_ok [OF Cons.prems(1) this, of exec sha idx_ok] obtain r where r: "reg_event_step exec sha idx_ok ev t = Some r"
    "case r of Reg_running t' \<Rightarrow> reg_served (set (reg_clients_of ev)) (reg_arrivals ev) t t' | Reg_exited t' \<Rightarrow> reg_closed t'" by blast
  show ?case
  proof (cases r)
    case (Reg_running t1)
    then have s: "reg_served (set (reg_clients_of ev)) (reg_arrivals ev) t t1" using r(2) by simp
    have "reg_due t1 e" if "e \<in> set evs" for e
    proof (cases e)
      case (Rev_client c hup pollin)
      then have "c \<in> set (rg_list t)" "c \<notin> set (reg_clients_of ev)" using Cons.prems(2) that by (force simp: reg_events_ok_def)+
      then show ?thesis using s Rev_client by (auto simp: reg_served_def)
    qed simp_all
    then have "reg_events_ok t1 evs" using Cons.prems(2) s by (auto simp: reg_events_ok_def reg_served_def)
    then show ?thesis using Cons.IH [of t1] s r(1) Reg_running by (auto simp: reg_served_def)
  next
    case (Reg_exited t1)
    then show ?thesis using r by auto
  qed
qed simp

text \<open>What may happen while the thread waits: time passes, peers send, another thread changes the configuration and the
  address tables.\<close>

definition reg_waited :: "'db regthrd \<Rightarrow> reg_event list option \<times> 'db regthrd \<Rightarrow> bool" where
  "reg_waited t r \<longleftrightarrow>
     (case r of (evs, t') \<Rightarrow>
        rg_cls t' = rg_cls t \<and> rg_list t' = rg_list t \<and> rg_clth t' = rg_clth t \<and> rg_events t' = rg_events t \<and> rg_freed t' = rg_freed t \<and>
        rg_next t \<le> rg_next t' \<and> reg_ip t' \<and> (case evs of None \<Rightarrow> True | Some evs \<Rightarrow> reg_events_ok t' evs))"

definition reg_polls :: "(int \<Rightarrow> 'db regthrd \<Rightarrow> reg_event list option \<times> 'db regthrd) \<Rightarrow> bool" where
  "reg_polls poll \<longleftrightarrow> (\<forall>w t. reg_inv t \<longrightarrow> reg_waited t (poll w t))"

lemma reg_round_ok:
  assumes inv: "reg_inv t" and poll: "reg_polls poll"
  shows "\<exists>r. reg_round exec sha idx_ok poll t = Some r \<and> reg_fine r"
proof -
  obtain w t1 where t1: "reg_handle_clth_timeout t = Some (w, t1)" "reg_inv t1" using reg_timeouts_ok [OF inv] by blast
  obtain evs t2 where p: "poll (sint (word_of_int w :: 32 word)) t1 = (evs, t2)" by fastforce
  have wt: "reg_waited t1 (evs, t2)" using poll t1(2) p by (metis reg_polls_def)
  then have i2: "reg_inv t2" by (intro reg_inv_same [OF t1(2)]) (simp_all add: reg_waited_def)
  show ?thesis
  proof (cases evs)
    case None
    then show ?thesis using t1(1) p i2 by (simp add: reg_round_def)
  next
    case (Some es)
    then have "reg_events_ok t2 es" using wt by (simp add: reg_waited_def)
    from reg_events_safe [OF i2 this, of exec sha idx_ok] show ?thesis using t1(1) p Some by (simp add: reg_round_def)
  qed
qed

text \<open>The rounds of the thread up to its end.\<close>

fun reg_rounds :: "(sql \<Rightarrow> byte list \<Rightarrow> byte list \<Rightarrow> 'db \<Rightarrow> bool \<times> nat \<times> 'db) \<Rightarrow> (byte list \<Rightarrow> byte list) \<Rightarrow> bool \<Rightarrow>
    (int \<Rightarrow> 'db regthrd \<Rightarrow> reg_event list option \<times> 'db regthrd) list \<Rightarrow> 'db regthrd \<Rightarrow> 'db reg_thread option" where
  "reg_rounds exec sha idx_ok [] t = Some (Reg_running t)"
| "reg_rounds exec sha idx_ok (poll # polls) t =
     (case reg_round exec sha idx_ok poll t of
        Some (Reg_running t) \<Rightarrow> reg_rounds exec sha idx_ok polls t
      | r \<Rightarrow> r)"

lemma reg_rounds_ok:
  assumes "reg_inv t" and "\<And>poll. poll \<in> set polls \<Longrightarrow> reg_polls poll"
  shows "\<exists>r. reg_rounds exec sha idx_ok polls t = Some r \<and> reg_fine r"
  using assms
proof (induction polls arbitrary: t)
  case (Cons poll polls)
  from reg_round_ok [OF Cons.prems(1), of poll exec sha idx_ok] Cons.prems(2) obtain r where
    r: "reg_round exec sha idx_ok poll t = Some r" "reg_fine r" by auto
  show ?case
  proof (cases r)
    case (Reg_running t1)
    then show ?thesis using r Cons.IH [of t1] Cons.prems(2) by simp
  qed (use r in simp)
qed simp

lemma reg_start_inv:
  assumes "reg_ip t" and "0 < rg_next t"
  shows "reg_inv (reg_start socket_ok bind_res t)"
proof -
  have "reg_ip (reg_start socket_ok bind_res t)" by (rule reg_ip_same [OF assms(1)]) (simp_all add: reg_start_def)
  moreover have "heap_ok \<lparr>clients = replicate 256 0, num_clients = 0, num_slots = 256\<rparr> (rg_cls t)"
    by (simp add: heap_ok_def heap_members_def exI [of _ "8 :: nat"])
  ultimately show ?thesis using assms(2) by (simp add: reg_inv_def reg_start_def list_create_def heap_members_def)
qed

end
