(* ===== verification/Regprops.thy ===== *)
theory Regprops
  imports Regsafe
begin

text \<open>
  The properties of the registration thread: it never fails, a request is decided by the database and counted, a
  finished handshake without a deadline, and requests of peers that have hung up.
\<close>

subsection \<open>The request in fragments\<close>

text \<open>\<open>n\<close> events on the socket of a client.\<close>

fun reg_feed :: "(sql \<Rightarrow> byte list \<Rightarrow> byte list \<Rightarrow> 'db \<Rightarrow> bool \<times> nat \<times> 'db) \<Rightarrow> (byte list \<Rightarrow> byte list) \<Rightarrow> bool \<Rightarrow>
    addr \<Rightarrow> nat \<Rightarrow> 'db regthrd \<Rightarrow> 'db regthrd option" where
  "reg_feed exec sha idx_ok c 0 t = Some t"
| "reg_feed exec sha idx_ok c (Suc n) t =
     (case reg_handle_client_event exec sha idx_ok c False True t of None \<Rightarrow> None | Some t \<Rightarrow> reg_feed exec sha idx_ok c n t)"

definition partial_request :: "'db regthrd \<Rightarrow> addr \<Rightarrow> byte list" where
  "partial_request t c = take (offset_of t c) (rbuf (tmpbuf_recv (rg_cls t c)))"

lemma answered_stored:
  assumes "reg_answered c outcome (stored c bs inp t) t'"
  shows "reg_answered c outcome t t'"
proof -
  have "reg_record (stored c bs inp t) = reg_record t" by (rule record_same) simp_all
  then show ?thesis using assms by (simp add: reg_answered_def reg_counted_def cong: option.case_cong)
qed

lemma reg_feed_ok:
  assumes "reg_inv t" and "c \<in> set (rg_list t)" and "cl_state (rg_cls t c) = ACCEPTED" and "frags \<noteq> []" and "\<forall>f \<in> set frags. f \<noteq> []"
    and "rg_inputs t c = map RecvData frags @ inp" and "offset_of t c + length (concat frags) = AUTH_REQ_SIZE"
    and "auth_req_of (partial_request t c @ concat frags) = Some req"
  shows "\<exists>t'. reg_feed exec sha True c (length frags) t = Some t' \<and> reg_gone c t t' \<and>
    reg_answered c (request_outcome exec sha (rg_db t) req) t t'"
  using assms
proof (induction frags arbitrary: t)
  case (Cons f fs)
  note ap = reg_invD(3) [OF Cons.prems(1,2)]
  have f: "f \<noteq> []" "offset_of t c + length f \<le> AUTH_REQ_SIZE" using Cons.prems(5,7) by simp_all
  then have lt: "offset_of t c < AUTH_REQ_SIZE" by (cases f) simp_all
  have r: "recv_fn (rg_inputs t c) (AUTH_REQ_SIZE - offset_of t c) = (RecvData f, map RecvData fs @ inp)"
    using f lt Cons.prems(6) by simp
  note d = reg_receive_data [OF ap lt r]
  define t1 where "t1 = stored c f (map RecvData fs @ inp) t"
  have e: "reg_handle_client_event exec sha True c False True t = reg_receive exec sha True c t"
    using applicant_buffer(3) [OF ap] Cons.prems(3) by (simp add: reg_handle_client_event_def)
  have i1: "reg_inv t1" unfolding t1_def by (rule stored_inv [OF Cons.prems(1,2) d(2)])
  have o1: "offset_of t1 c = offset_of t c + length f" unfolding t1_def by (rule stored_offset [OF d(2)])
  have p1: "partial_request t1 c = partial_request t c @ f"
    using stored_data(2) [OF applicant_buffer(2) [OF ap] d(2)] o1 by (simp add: partial_request_def t1_def)
  have l1: "rg_list t1 = rg_list t" "rg_listener t1 = rg_listener t" "rg_db t1 = rg_db t" "reg_away {c} t t1"
    by (simp_all add: t1_def stored_away)
  show ?case
  proof (cases "fs = []")
    case True
    then have full: "offset_of t c + length f = AUTH_REQ_SIZE" using Cons.prems(7) by simp
    have "rbuf (tmpbuf_recv (rg_cls t1 c)) = partial_request t1 c"
      using stored_data(1) [OF applicant_buffer(2) [OF ap] d(2)] o1 full by (simp add: partial_request_def t1_def)
    then have "auth_req_of (rbuf (tmpbuf_recv (rg_cls t1 c))) = Some req" using Cons.prems(8) True by (simp add: p1)
    from reg_handle_request_ok [OF i1 _ this, of exec sha True] Cons.prems(2) l1 obtain t' where
      t': "reg_handle_request exec sha True c t1 = Some t'" "reg_gone c t1 t'" "reg_answered c (request_outcome exec sha (rg_db t) req) t1 t'"
      by auto
    have "reg_feed exec sha True c (length (f # fs)) t = Some t'"
      using True e d(1) full t'(1) by (simp add: t1_def)
    then show ?thesis
      using reg_gone_trans [OF l1(4,1,2) t'(2)] answered_stored [OF t'(3) [unfolded t1_def]] by blast
  next
    case False
    then obtain g gs where fs: "fs = g # gs" by (cases fs) simp_all
    have "length f + length (concat fs) + offset_of t c = AUTH_REQ_SIZE" "concat fs \<noteq> []" using Cons.prems(5,7) fs by simp_all
    then have nf: "offset_of t c + length f \<noteq> AUTH_REQ_SIZE" by (cases "concat fs") auto
    have "\<exists>t'. reg_feed exec sha True c (length fs) t1 = Some t' \<and> reg_gone c t1 t' \<and> reg_answered c (request_outcome exec sha (rg_db t1) req) t1 t'"
      using Cons.prems by (intro Cons.IH [OF i1 _ _ False]) (simp_all add: l1 o1 p1, simp_all add: t1_def)
    then obtain t' where t': "reg_feed exec sha True c (length fs) t1 = Some t'" "reg_gone c t1 t'"
      "reg_answered c (request_outcome exec sha (rg_db t) req) t1 t'" by (auto simp: l1)
    have "reg_feed exec sha True c (length (f # fs)) t = Some t'"
      using e d(1) nf t'(1) by (simp add: t1_def)
    then show ?thesis
      using reg_gone_trans [OF l1(4,1,2) t'(2)] answered_stored [OF t'(3) [unfolded t1_def]] by blast
  qed
qed simp

subsection \<open>An example\<close>

definition example_reg :: "client_state \<Rightarrow> recv_res list \<Rightarrow> (byte list \<rightharpoonup> byte list) regthrd" where
  "example_reg st inp = \<lparr>rg_cls = (\<lambda>_. \<lparr>sock_fd = 5, timerheap_index = INVAL_TH_IND, auth_deadline = Timespec 0 0, peer_name = 7,
       cl_state = st, tmpbuf_recv = \<lparr>rbuf = replicate 56 0, rbuf_size = 56, buf_data_offset = 0\<rparr>\<rparr>),
     rg_freed = (\<lambda>_. False), rg_list = [1], rg_clth = \<lparr>clients = [0], num_clients = 0, num_slots = 1\<rparr>,
     rg_tbl = empty_ip_ht,
     rg_recs = (\<lambda>_. reg_ipb_rec_create (Timespec 0 0) 0 RSN_MANUAL),
     rg_wl_tbl = empty_ip_ht, rg_wl_recs = (\<lambda>_. whitelist_rec_create 0),
     rg_next = 10, rg_garbage = (\<lambda>_ _. 0), rg_inputs = (\<lambda>_. inp), rg_outputs = (\<lambda>_. [Sent 4]), rg_accepts = (\<lambda>_. [ACCPT_DONE]),
     rg_avail = (\<lambda>_. 56), rg_sent = (\<lambda>_. []), rg_events = [1 \<mapsto> (True, st = ACCEPTING)], rg_listener = Some 6671,
     rg_db = Map.empty, rg_now = Timespec 0 0, rg_cfg = get_default_cfg\<rparr>"

lemma example_reg_ok:
  "reg_ip (example_reg st inp)" "st \<in> {ACCEPTING, ACCEPTED} \<Longrightarrow> reg_inv (example_reg st inp)"
  "rg_list (example_reg st inp) = [1]" "cl_state (rg_cls (example_reg st inp) c) = st" "offset_of (example_reg st inp) c = 0"
  "partial_request (example_reg st inp) c = []" "rg_inputs (example_reg st inp) c = inp" "rg_db (example_reg st inp) = Map.empty"
  "rg_accepts (example_reg st inp) c = [ACCPT_DONE]" "rg_sent (example_reg st inp) c = []" "rg_avail (example_reg st inp) c = 56"
  "rg_next (example_reg st inp) = 10"
proof -
  show ip: "reg_ip (example_reg st inp)" by (simp add: reg_ip_def example_reg_def empty_ip_table)
  have "applicant (example_reg st inp) 1" if "st \<in> {ACCEPTING, ACCEPTED}"
    using that by (simp add: applicant_def example_reg_def rg_live_def offset_of_def)
  moreover have "heap_ok (rg_clth (example_reg st inp)) (rg_cls (example_reg st inp))"
    by (simp add: example_reg_def heap_ok_def heap_members_def exI [of _ "0 :: nat"])
  ultimately show "reg_inv (example_reg st inp)" if "st \<in> {ACCEPTING, ACCEPTED}"
    using that ip by (auto simp: reg_inv_def) (simp_all add: example_reg_def heap_members_def split: if_splits)
qed (simp_all add: example_reg_def offset_of_def partial_request_def)

definition reg_bytes :: "u32 \<Rightarrow> byte list" where
  "reg_bytes ty = be32 ty @ strncpy_bytes [65] 32 @ strncpy_bytes [112] 20"

lemma reg_bytes_ok:
  "length (reg_bytes ty) = 56" "reg_bytes ty \<noteq> []"
  "auth_req_of (reg_bytes ty) = Some \<lparr>request_type = ty, req_username = strncpy_bytes [65] 32, req_password = strncpy_bytes [112] 20\<rparr>"
  "user_of \<lparr>request_type = ty, req_username = strncpy_bytes [65] 32, req_password = strncpy_bytes [112] 20\<rparr> = [97]"
  "password_of \<lparr>request_type = ty, req_username = strncpy_bytes [65] 32, req_password = strncpy_bytes [112] 20\<rparr> = [112]"
  by (simp_all add: reg_bytes_def auth_req_of_def load32_def mem_read_def wire_simps user_of_def password_of_def strncpy_bytes_def
      Let_def take_Cons' takeWhile_eq_Nil_iff tolower_def)

subsection \<open>Properties\<close>





text \<open>A TLS handshake that does not end at once is never timed: a client that finishes its handshake by a later event is
  not given a deadline, so that it stays connected, and keeps its place, however long it sends nothing. (A client whose
  handshake ends with the connection is cut off after four seconds.)\<close>

lemma late_handshake_untimed:
  assumes "reg_inv t" and "c \<in> set (rg_list t)" and "cl_state (rg_cls t c) = ACCEPTING" and "first_answer (rg_accepts t c) = ACCPT_DONE"
  shows "\<exists>t1. reg_handle_client_event exec sha idx_ok c False pollin t = Some t1 \<and> cl_state (rg_cls t1 c) = ACCEPTED \<and>
    (\<forall>now. \<exists>w t2. reg_handle_clth_timeout (t1\<lparr>rg_now := now\<rparr>) = Some (w, t2) \<and> c \<in> set (rg_list t2) \<and> \<not> rg_freed t2 c)"
proof -
  obtain t1 where t1: "reg_handle_accepting c t = Some t1" "reg_inv t1" "rg_list t1 = rg_list t" "rg_clth t1 = rg_clth t"
    "cl_state (rg_cls t1 c) = ACCEPTED"
    using reg_accepting_ok [OF assms(1-3)] assms(4) by auto
  have "rg_live t c" by (rule applicant_buffer(3) [OF reg_invD(3) [OF assms(1,2)]])
  then have eq: "reg_handle_client_event exec sha idx_ok c False pollin t = Some t1"
    using assms(3) t1(1) by (simp add: reg_handle_client_event_def)
  have nt: "c \<notin> heap_members (rg_clth t1)" using reg_invD(5) [OF assms(1), of c] assms(3) t1(4) by auto
  have "\<exists>w t2. reg_handle_clth_timeout (t1\<lparr>rg_now := now\<rparr>) = Some (w, t2) \<and> c \<in> set (rg_list t2) \<and> \<not> rg_freed t2 c" for now
  proof -
    define t' where "t' = t1\<lparr>rg_now := now\<rparr>"
    have i: "reg_inv t'"
      by (rule reg_inv_same [OF t1(2)]) (auto simp: t'_def intro: reg_ip_same [OF reg_invD(9) [OF t1(2)]])
    have nl: "\<not> reg_late t' c" using nt by (simp add: reg_late_def t'_def)
    from reg_timeouts_ok [OF i] obtain w t2 where
      t2: "reg_handle_clth_timeout t' = Some (w, t2)" "reg_inv t2" "\<forall>c \<in> set (rg_list t') - set (rg_list t2). reg_late t' c \<and> reg_cut_off t' t2 c"
      by blast
    then have "c \<in> set (rg_list t2)" using nl assms(2) t1(3) by (auto simp: t'_def)
    moreover from this have "\<not> rg_freed t2 c"
      using applicant_buffer(3) [OF reg_invD(3) [OF t2(2)]] by (simp add: rg_live_def)
    ultimately show ?thesis using t2(1) by (auto simp: t'_def)
  qed
  then show ?thesis using eq t1(5) by blast
qed

lemma late_handshake_untimed_witness:
  "\<exists>t1 w t2. reg_handle_client_event example_exec example_sha True 1 False True (example_reg ACCEPTING []) = Some t1 \<and>
    reg_handle_clth_timeout (t1\<lparr>rg_now := Timespec 1000000 0\<rparr>) = Some (w, t2) \<and> 1 \<in> set (rg_list t2)"
proof -
  have "\<exists>t1. reg_handle_client_event example_exec example_sha True 1 False True (example_reg ACCEPTING []) = Some t1 \<and> cl_state (rg_cls t1 1) = ACCEPTED \<and>
    (\<forall>now. \<exists>w t2. reg_handle_clth_timeout (t1\<lparr>rg_now := now\<rparr>) = Some (w, t2) \<and> 1 \<in> set (rg_list t2) \<and> \<not> rg_freed t2 1)"
    by (rule late_handshake_untimed) (simp_all add: example_reg_ok first_answer_def)
  then show ?thesis by blast
qed

text \<open>A request of a peer that hangs up after sending it is carried out like any other, but nothing counts it: when its
  last bytes are there together with the hang-up, the database is changed as the request says, and the record of the
  peer's address, by which a peer is blocked after too many registrations or failures, stays as it is.\<close>

lemma hangup_request_uncounted:
  assumes "reg_inv t" and "c \<in> set (rg_list t)" and "rg_inputs t c = RecvData d # inp" and "d \<noteq> []" and "rg_avail t c = of_nat (length d)"
    and "offset_of t c + length d = AUTH_REQ_SIZE" and "auth_req_of (partial_request t c @ d) = Some req"
  shows "\<exists>t'. reg_handle_client_event exec sha True c True True t = Some t' \<and> reg_gone c t t' \<and>
    rg_db t' = fst (snd (request_outcome exec sha (rg_db t) req)) \<and> reg_record t' = reg_record t \<and> rg_sent t' = rg_sent t"
proof -
  note ap = applicant_buffer [OF reg_invD(3) [OF assms(1,2)]]
  obtain t' where t': "reg_handle_disconnect exec sha True True c t = Some t'" "reg_gone c t t'" "reg_record t' = reg_record t" "rg_sent t' = rg_sent t"
    using reg_disconnect_ok [OF assms(1,2), of exec sha True True] by blast
  define buf where "buf = tmpbuf_recv (rg_cls t c)"
  have ld: "length d \<le> AUTH_REQ_SIZE" "unat (rg_avail t c) = length d"
    using assms(5,6) by (simp_all add: unat_of_nat take_bit_eq_mod)
  have "buf_data_offset buf + rg_avail t c = of_nat (offset_of t c + length d)" by (simp add: assms(5) offset_of_def buf_def)
  then have sum: "buf_data_offset buf + rg_avail t c = of_nat AUTH_REQ_SIZE" by (simp only: assms(6))
  have r: "recv_fn (rg_inputs t c) (unat (rg_avail t c)) = (RecvData d, inp)" using assms(3,4) ld by simp
  have w: "mem_write (rbuf buf) (unat (buf_data_offset buf)) d = Some (partial_request t c @ d)"
    using assms(6) ap(2) by (simp add: mem_write_def partial_request_def buf_def flip: offset_of_def)
  obtain res t2 where rr: "run_request exec sha True req (t\<lparr>rg_inputs := (rg_inputs t)(c := inp)\<rparr>) = (res, t2)" by fastforce
  have db: "rg_db t2 = fst (snd (request_outcome exec sha (rg_db t) req))"
    using run_request_outcome [OF auth_req_of_ok(1) [OF assms(7)] rr] by simp
  have pm: "post_mortem exec sha True c t = Some t2"
    using sum r w assms(7) rr unfolding post_mortem_def Let_def buf_def [symmetric] by simp
  then have "cleanup_reg_client c t2 = Some t'" using t'(1) by (simp add: reg_handle_disconnect_def)
  then have "rg_db t' = rg_db t2" by (auto simp: cleanup_reg_client_def Let_def rg_upd_def split: if_splits option.splits)
  moreover have "reg_handle_client_event exec sha True c True True t = Some t'"
    using t'(1) ap(3) by (simp add: reg_handle_client_event_def)
  ultimately show ?thesis using t' db by auto
qed

lemma hangup_request_uncounted_witness:
  "\<exists>t'. reg_handle_client_event example_exec example_sha True 1 True True (example_reg ACCEPTED [RecvData (reg_bytes REQ_REGISTRATION)]) = Some t' \<and>
    rg_db t' = [[97] \<mapsto> example_sha [112]] \<and> reg_record t' 7 = reg_record (example_reg ACCEPTED [RecvData (reg_bytes REQ_REGISTRATION)]) 7"
proof -
  define t where "t = example_reg ACCEPTED [RecvData (reg_bytes REQ_REGISTRATION)]"
  define req where "req = \<lparr>request_type = REQ_REGISTRATION, req_username = strncpy_bytes [65] 32, req_password = strncpy_bytes [112] 20\<rparr>"
  have "\<exists>t'. reg_handle_client_event example_exec example_sha True 1 True True t = Some t' \<and> reg_gone 1 t t' \<and>
    rg_db t' = fst (snd (request_outcome example_exec example_sha (rg_db t) req)) \<and> reg_record t' = reg_record t \<and> rg_sent t' = rg_sent t"
    by (rule hangup_request_uncounted [where d = "reg_bytes REQ_REGISTRATION" and inp = "[]"])
      (use reg_bytes_ok(1) [of REQ_REGISTRATION] in \<open>auto simp: t_def example_reg_ok reg_bytes_ok req_def\<close>)
  moreover have "request_outcome example_exec example_sha (rg_db t) req = (AUTH_RESP_OK, [[97] \<mapsto> example_sha [112]], Some RSN_REGSUCC)"
    by (simp add: request_outcome_def reg_bytes_ok req_def example_exec_def t_def example_reg_ok)
  ultimately show ?thesis by (auto simp: t_def)
qed

end
