(* ===== verification/Thrdctx.thy ===== *)
theory Thrdctx
  imports Ipblock Netwrap
begin

text \<open>
  Thread contexts and the synchronised start of the threads, \<open>server/thrdctx.c\<close>. What the initialisers take
  and the destructors give back is counted in \<open>resources\<close>: references to the TLS context, open database
  handles and event descriptors. The answers of \<open>sqlite3_open_v2\<close> and \<open>eventfd\<close> are arguments.

  The start: threads wait on a condition variable until the main thread has said whether all of them could
  be launched. Every access happens under the mutex, so the section between taking it and releasing it (or
  going to sleep) is one step.
\<close>

subsection \<open>Contexts\<close>

record resources =
  ssl_refs :: nat
  open_dbs :: nat
  open_efds :: nat
  tables :: nat

text \<open>\<open>sqlite3_open_v2\<close>: whether it succeeded, and whether it gave a handle (it may do so on failure too).\<close>

datatype db_open = Db_ok | Db_failed (handle_given: bool)

record reg_thrd_ctx =
  rt_db :: bool
  rt_ssl :: bool
  rt_ipblock_tbl :: "htable option"
  flg_reg_changed :: int
  rt_flg_shutdown :: int

record worker_thrd_ctx =
  wt_db :: bool
  wt_ssl :: bool
  wt_tables :: bool
  wt_flg_shutdown :: int
  thrd_id :: byte

definition reg_ctx_init :: "db_open \<Rightarrow> int \<Rightarrow> bool \<Rightarrow> int \<Rightarrow> resources \<Rightarrow> bool \<times> reg_thrd_ctx \<times> resources" where
  "reg_ctx_init db efd_res ssl_ctx shutdown_efd rs =
     (let dbc = (db = Db_ok);
          tbl = (case htable_create 10 1 100 10 ip_cmp True of Some t \<Rightarrow> t | None \<Rightarrow> None);
          init_ok = (dbc \<and> efd_res \<noteq> - 1);
          ctx = \<lparr>rt_db = dbc, rt_ssl = ssl_ctx, rt_ipblock_tbl = tbl, flg_reg_changed = efd_res,
                 rt_flg_shutdown = shutdown_efd\<rparr>
      in (init_ok, ctx,
          rs\<lparr>open_dbs := open_dbs rs + of_bool dbc,
             tables := tables rs + of_bool (tbl \<noteq> None),
             open_efds := open_efds rs + of_bool (efd_res \<noteq> - 1),
             ssl_refs := ssl_refs rs + of_bool ssl_ctx\<rparr>))"

definition reg_ctx_free :: "reg_thrd_ctx \<Rightarrow> resources \<Rightarrow> resources" where
  "reg_ctx_free ctx rs = rs
     \<lparr>tables := tables rs - of_bool (rt_ipblock_tbl ctx \<noteq> None),
      open_dbs := open_dbs rs - of_bool (rt_db ctx),
      open_efds := open_efds rs - of_bool (flg_reg_changed ctx \<noteq> ERROR),
      ssl_refs := ssl_refs rs - of_bool (rt_ssl ctx)\<rparr>"

text \<open>The zeroed array of contexts, the loop over it from index \<open>i\<close>, and the answers of the database.\<close>

definition zero_ctx :: worker_thrd_ctx where
  "zero_ctx = \<lparr>wt_db = False, wt_ssl = False, wt_tables = False, wt_flg_shutdown = 0, thrd_id = 0\<rparr>"

fun worker_init_loop :: "(nat \<Rightarrow> db_open) \<Rightarrow> bool \<Rightarrow> int \<Rightarrow> nat list \<Rightarrow> worker_thrd_ctx list \<Rightarrow> resources \<Rightarrow>
    nat \<times> worker_thrd_ctx list \<times> resources" where
  "worker_init_loop dbs ssl_ctx shutdown_efd [] ctx rs = (length ctx, ctx, rs)"
| "worker_init_loop dbs ssl_ctx shutdown_efd (i # is) ctx rs =
     (case dbs i of
        Db_failed _ \<Rightarrow> (i, ctx, rs)
      | Db_ok \<Rightarrow>
          let rs = rs\<lparr>open_dbs := open_dbs rs + 1\<rparr>;
              ctx = ctx[i := \<lparr>wt_db = True, wt_ssl = ssl_ctx, wt_tables = True, wt_flg_shutdown = shutdown_efd,
                              thrd_id = of_nat i\<rparr>];
              rs = (if ssl_ctx then rs\<lparr>ssl_refs := ssl_refs rs + 1\<rparr> else rs)
          in worker_init_loop dbs ssl_ctx shutdown_efd is ctx rs)"

definition worker_ctx_init :: "nat \<Rightarrow> (nat \<Rightarrow> db_open) \<Rightarrow> bool \<Rightarrow> int \<Rightarrow> resources \<Rightarrow> nat \<times> worker_thrd_ctx list \<times> resources" where
  "worker_ctx_init n dbs ssl_ctx shutdown_efd rs =
     worker_init_loop dbs ssl_ctx shutdown_efd [0..<n] (replicate n zero_ctx) rs"

fun worker_ctx_free :: "worker_thrd_ctx list \<Rightarrow> nat \<Rightarrow> resources \<Rightarrow> resources" where
  "worker_ctx_free ctx 0 rs = rs"
| "worker_ctx_free [] (Suc n) rs = rs"
| "worker_ctx_free (c # ctx) (Suc n) rs =
     (let rs = (if wt_db c then rs\<lparr>open_dbs := open_dbs rs - 1\<rparr> else rs);
          rs = (if wt_ssl c then rs\<lparr>ssl_refs := ssl_refs rs - 1\<rparr> else rs)
      in worker_ctx_free ctx n rs)"

lemma worker_free_Cons:
  assumes "wt_db c"
  shows "worker_ctx_free (c # ctx) (Suc n)
      \<lparr>ssl_refs = r + (if wt_ssl c then Suc k else 0), open_dbs = d + Suc k, open_efds = e, tables = t\<rparr> =
     worker_ctx_free ctx n \<lparr>ssl_refs = r + (if wt_ssl c then k else 0), open_dbs = d + k, open_efds = e, tables = t\<rparr>"
  using assms by simp

lemma worker_init_Db_ok:
  assumes "dbs i = Db_ok"
  shows "worker_init_loop dbs b efd (i # is) ctx
      \<lparr>ssl_refs = r + (if b then k else 0), open_dbs = d + k, open_efds = e, tables = t\<rparr> =
    worker_init_loop dbs b efd is
      (ctx[i := \<lparr>wt_db = True, wt_ssl = b, wt_tables = True, wt_flg_shutdown = efd, thrd_id = of_nat i\<rparr>])
      \<lparr>ssl_refs = r + (if b then Suc k else 0), open_dbs = d + Suc k, open_efds = e, tables = t\<rparr>"
  using assms by simp

declare worker_ctx_free.simps(3) [simp del] worker_init_loop.simps(2) [simp del]

lemma worker_free_initialised:
  assumes "\<forall>c \<in> set cs. wt_db c \<and> wt_ssl c = b"
  shows "worker_ctx_free (cs @ ds) (length cs)
      \<lparr>ssl_refs = r + (if b then length cs else 0), open_dbs = d + length cs, open_efds = e, tables = t\<rparr> =
    \<lparr>ssl_refs = r, open_dbs = d, open_efds = e, tables = t\<rparr>"
  using assms
proof (induction cs)
  case (Cons c cs)
  from Cons.prems have c: "wt_db c" "wt_ssl c = b" by auto
  have "worker_ctx_free (cs @ ds) (length cs)
      \<lparr>ssl_refs = r + (if b then length cs else 0), open_dbs = d + length cs, open_efds = e, tables = t\<rparr> =
    \<lparr>ssl_refs = r, open_dbs = d, open_efds = e, tables = t\<rparr>" by (rule Cons.IH) (use Cons.prems in simp)
  with worker_free_Cons [OF c(1), of "cs @ ds" "length cs" r "length cs" d e t] show ?case
    unfolding c(2) by (simp only: append_Cons length_Cons)
next
  case Nil
  show ?case by (simp cong: if_cong)
qed

lemma worker_init_loop_correct:
  assumes "length cs = i" and "i + m = n" and "\<forall>c \<in> set cs. wt_db c \<and> wt_ssl c = ssl_ctx" and "map thrd_id cs = map of_nat [0..<i]"
    and "worker_init_loop dbs ssl_ctx efd [i..<n] (cs @ replicate m zero_ctx)
           \<lparr>ssl_refs = r + (if ssl_ctx then i else 0), open_dbs = d + i, open_efds = e, tables = t\<rparr> = (k, ctx, rs')"
  shows "\<exists>cs'. k \<le> n \<and> (k < n \<longleftrightarrow> (\<exists>j. i \<le> j \<and> j < n \<and> dbs j \<noteq> Db_ok)) \<and>
    ctx = cs' @ replicate (n - k) zero_ctx \<and> length cs' = k \<and>
    (\<forall>c \<in> set cs'. wt_db c \<and> wt_ssl c = ssl_ctx) \<and> map thrd_id cs' = map of_nat [0..<k] \<and>
    rs' = \<lparr>ssl_refs = r + (if ssl_ctx then k else 0), open_dbs = d + k, open_efds = e, tables = t\<rparr>"
  using assms
proof (induction m arbitrary: i cs)
  case 0
  then show ?case by (auto intro!: exI [of _ cs])
next
  case (Suc m)
  then have u: "[i..<n] = i # [Suc i..<n]" by (simp add: upt_conv_Cons)
  show ?case
  proof (cases "dbs i")
    case Db_ok
    define c where "c = \<lparr>wt_db = True, wt_ssl = ssl_ctx, wt_tables = True, wt_flg_shutdown = efd, thrd_id = of_nat i\<rparr>"
    have upd: "(cs @ replicate (Suc m) zero_ctx)[i := c] = (cs @ [c]) @ replicate m zero_ctx"
      using Suc.prems(1) by (simp add: list_update_append)
    have "worker_init_loop dbs ssl_ctx efd [Suc i..<n] ((cs @ [c]) @ replicate m zero_ctx)
        \<lparr>ssl_refs = r + (if ssl_ctx then Suc i else 0), open_dbs = d + Suc i, open_efds = e, tables = t\<rparr> = (k, ctx, rs')"
      using Suc.prems(5) upd unfolding u worker_init_Db_ok [where dbs = dbs and i = i, OF Db_ok] c_def by simp
    from Suc.IH [OF _ _ _ _ this] Suc.prems(1-4) obtain cs' where
      "k \<le> n" "k < n \<longleftrightarrow> (\<exists>j. Suc i \<le> j \<and> j < n \<and> dbs j \<noteq> Db_ok)" "ctx = cs' @ replicate (n - k) zero_ctx"
      "length cs' = k" "\<forall>c \<in> set cs'. wt_db c \<and> wt_ssl c = ssl_ctx" "map thrd_id cs' = map of_nat [0..<k]"
      "rs' = \<lparr>ssl_refs = r + (if ssl_ctx then k else 0), open_dbs = d + k, open_efds = e, tables = t\<rparr>"
      by (auto simp: c_def)
    moreover have "(\<exists>j. Suc i \<le> j \<and> j < n \<and> dbs j \<noteq> Db_ok) = (\<exists>j. i \<le> j \<and> j < n \<and> dbs j \<noteq> Db_ok)"
    proof -
      have "Suc i \<le> j \<longleftrightarrow> i \<le> j" if "dbs j \<noteq> Db_ok" for j using that Db_ok by (cases "j = i") auto
      then show ?thesis by metis
    qed
    ultimately show ?thesis by auto
  next
    case Db_failed
    then show ?thesis using Suc.prems unfolding u
      by (auto simp: worker_init_loop.simps(2) intro!: exI [of _ cs] exI [of _ i])
  qed
qed

lemma reg_ctx_balanced:
  assumes "reg_ctx_init db efd_res ssl_ctx shutdown_efd rs = (ok, ctx, rs1)"
  shows "reg_ctx_free ctx rs1 = rs \<and> (ok \<longleftrightarrow> db = Db_ok \<and> efd_res \<noteq> - 1)"
  using assms by (auto simp: reg_ctx_init_def reg_ctx_free_def Let_def)

text \<open>The worker contexts are counted up to the first database failure and numbered consecutively, and freeing that many
  gives back what their initialisation took.\<close>

lemma worker_ctx_balanced:
  assumes "worker_ctx_init n dbs ssl_ctx shutdown_efd rs1 = (k, wctx, rs2)"
  shows "worker_ctx_free wctx k rs2 = rs1" and "k \<le> n" and "k < n \<longleftrightarrow> (\<exists>j<n. dbs j \<noteq> Db_ok)"
    and "map thrd_id (take k wctx) = map of_nat [0..<k]"
proof -
  obtain r d e t where rs1: "rs1 = \<lparr>ssl_refs = r, open_dbs = d, open_efds = e, tables = t\<rparr>" by (cases rs1) auto
  have "worker_init_loop dbs ssl_ctx shutdown_efd [0..<n] ([] @ replicate n zero_ctx)
      \<lparr>ssl_refs = r + (if ssl_ctx then 0 else 0), open_dbs = d + 0, open_efds = e, tables = t\<rparr> = (k, wctx, rs2)"
    using assms by (simp add: worker_ctx_init_def rs1)
  from worker_init_loop_correct [OF _ _ _ _ this] obtain cs' where w:
    "k \<le> n" "k < n \<longleftrightarrow> (\<exists>j<n. dbs j \<noteq> Db_ok)" "wctx = cs' @ replicate (n - k) zero_ctx" "length cs' = k"
    "\<forall>c \<in> set cs'. wt_db c \<and> wt_ssl c = ssl_ctx" "map thrd_id cs' = map of_nat [0..<k]"
    "rs2 = \<lparr>ssl_refs = r + (if ssl_ctx then k else 0), open_dbs = d + k, open_efds = e, tables = t\<rparr>"
    by auto
  show "worker_ctx_free wctx k rs2 = rs1"
    using worker_free_initialised [OF w(5), of "replicate (n - k) zero_ctx" r d e t] unfolding w(3,4,7) rs1 by simp
  show "k \<le> n" "k < n \<longleftrightarrow> (\<exists>j<n. dbs j \<noteq> Db_ok)" "map thrd_id (take k wctx) = map of_nat [0..<k]"
    using w(1,2,3,4,6) by simp_all
qed

subsection \<open>The synchronised start\<close>

datatype thrd_st_state = STS_NONE | STS_OK | STS_NOK

text \<open>A thread is about to enter the critical section, asleep on the condition variable, woken (it will
  take the mutex and test again), or has returned from \<open>thrd_startup_sync\<close>.\<close>

datatype thrd_pc = Entering | Sleeping | Woken | Returned bool

record sync =
  thrd_startup_state :: thrd_st_state
  thrds :: "nat \<Rightarrow> thrd_pc"
  verdict :: "bool option"

definition thrd_startup_sync :: "thrd_st_state \<Rightarrow> thrd_pc" where
  "thrd_startup_sync st = (if st = STS_NONE then Sleeping else Returned (st = STS_OK))"

definition coord_thrd_startup_sync :: "bool \<Rightarrow> sync \<Rightarrow> sync" where
  "coord_thrd_startup_sync ok s = s
     \<lparr>thrd_startup_state := (if ok then STS_OK else STS_NOK),
      thrds := (\<lambda>t. if thrds s t = Sleeping then Woken else thrds s t),
      verdict := Some ok\<rparr>"

text \<open>The steps of \<open>n\<close> threads and the coordinator, which runs once; a sleeper may wake up spuriously.\<close>

inductive sync_step :: "nat \<Rightarrow> sync \<Rightarrow> sync \<Rightarrow> bool" for n where
  check: "t < n \<Longrightarrow> thrds s t = Entering \<or> thrds s t = Woken \<Longrightarrow>
     sync_step n s (s\<lparr>thrds := (thrds s)(t := thrd_startup_sync (thrd_startup_state s))\<rparr>)"
| spurious: "t < n \<Longrightarrow> thrds s t = Sleeping \<Longrightarrow> sync_step n s (s\<lparr>thrds := (thrds s)(t := Woken)\<rparr>)"
| coordinate: "verdict s = None \<Longrightarrow> sync_step n s (coord_thrd_startup_sync ok s)"

inductive_cases sync_stepE: "sync_step n s s'"

definition sync_init :: sync where
  "sync_init = \<lparr>thrd_startup_state = STS_NONE, thrds = (\<lambda>_. Entering), verdict = None\<rparr>"

inductive sync_reachable :: "nat \<Rightarrow> sync \<Rightarrow> bool" for n where
  start: "sync_reachable n sync_init"
| step: "sync_reachable n s \<Longrightarrow> sync_step n s s' \<Longrightarrow> sync_reachable n s'"

definition sync_inv :: "sync \<Rightarrow> bool" where
  "sync_inv s \<longleftrightarrow>
     thrd_startup_state s = (case verdict s of None \<Rightarrow> STS_NONE | Some ok \<Rightarrow> if ok then STS_OK else STS_NOK) \<and>
     (\<forall>t. (verdict s \<noteq> None \<longrightarrow> thrds s t \<noteq> Sleeping) \<and> (\<forall>r. thrds s t = Returned r \<longrightarrow> verdict s = Some r))"

lemma sync_step_inv: "sync_step n s s' \<Longrightarrow> sync_inv s \<Longrightarrow> sync_inv s'"
  by (induction rule: sync_step.induct)
    (auto simp: sync_inv_def thrd_startup_sync_def coord_thrd_startup_sync_def split: option.splits if_splits)

lemma sync_reachable_inv: "sync_reachable n s \<Longrightarrow> sync_inv s"
proof (induction rule: sync_reachable.induct)
  case start
  show ?case by (simp add: sync_init_def sync_inv_def)
qed (rule sync_step_inv)

definition not_returned :: "nat \<Rightarrow> sync \<Rightarrow> nat set" where
  "not_returned n s = {t. t < n \<and> (\<forall>r. thrds s t \<noteq> Returned r)}"

lemma sync_step_progress:
  assumes "sync_step n s s'" and "sync_inv s" and "verdict s = Some ok"
  shows "\<exists>t. t \<in> not_returned n s \<and> not_returned n s' = not_returned n s - {t} \<and> verdict s' = Some ok"
  using assms(1)
proof (cases rule: sync_step.cases)
  case (check t)
  then show ?thesis using assms(2,3)
    by (intro exI [of _ t])
      (auto simp: not_returned_def sync_inv_def thrd_startup_sync_def split: if_splits)
qed (use assms(2,3) in \<open>auto simp: sync_inv_def\<close>)

text \<open>C37. The synchronised start loses no wake-up and gives every thread the same answer. In every reachable
  state of any number of threads: before the coordinator has decided, no thread has returned; after it
  has, no thread is asleep, every thread that returned got the decision, every other thread can take
  its next step and that step returns the decision, and each step taken leaves one thread fewer to return,
  so that all have returned after as many steps as there were threads left.\<close>

theorem startup_sync_correct:
  assumes "sync_reachable n s"
  shows "case verdict s of
      None \<Rightarrow> \<forall>t r. thrds s t \<noteq> Returned r
    | Some ok \<Rightarrow>
        (\<forall>t<n. thrds s t = Returned ok \<or>
           thrds s t \<in> {Entering, Woken} \<and> sync_step n s (s\<lparr>thrds := (thrds s)(t := Returned ok)\<rparr>)) \<and>
        (\<forall>s'. sync_step n s s' \<longrightarrow> card (not_returned n s') + 1 = card (not_returned n s))"
proof (cases "verdict s")
  case None
  then show ?thesis using sync_reachable_inv [OF assms] by (auto simp: sync_inv_def)
next
  case (Some ok)
  note inv = sync_reachable_inv [OF assms]
  have st: "thrd_startup_sync (thrd_startup_state s) = Returned ok"
    using inv Some by (cases ok) (auto simp: sync_inv_def thrd_startup_sync_def)
  have "thrds s t = Returned ok \<or>
      thrds s t \<in> {Entering, Woken} \<and> sync_step n s (s\<lparr>thrds := (thrds s)(t := Returned ok)\<rparr>)" if "t < n" for t
  proof (cases "thrds s t")
    case Sleeping
    then show ?thesis using inv Some by (simp add: sync_inv_def)
  next
    case (Returned r)
    then show ?thesis using inv Some by (simp add: sync_inv_def)
  qed (use sync_step.check [OF that, of s] in \<open>simp_all add: st\<close>)
  moreover have "card (not_returned n s') + 1 = card (not_returned n s)" if "sync_step n s s'" for s'
  proof -
    have "finite (not_returned n s)" by (simp add: not_returned_def)
    moreover from sync_step_progress [OF that inv Some] obtain t where
      "t \<in> not_returned n s" "not_returned n s' = not_returned n s - {t}" by blast
    ultimately show ?thesis using card_Suc_Diff1 [of "not_returned n s" t] by simp
  qed
  ultimately show ?thesis using Some by simp
qed

theorem startup_sync_correct_witness:
  "sync_step 2 (coord_thrd_startup_sync True sync_init) ((coord_thrd_startup_sync True sync_init)
     \<lparr>thrds := (thrds (coord_thrd_startup_sync True sync_init))(1 := Returned True)\<rparr>)"
proof -
  have "sync_reachable 2 (coord_thrd_startup_sync True sync_init)"
    by (rule sync_reachable.step [OF sync_reachable.start]) (rule sync_step.coordinate, simp add: sync_init_def)
  from startup_sync_correct [OF this] show ?thesis
    by (simp add: coord_thrd_startup_sync_def sync_init_def)
qed

end
