(* ===== verification/Cstdlib.thy ===== *)
theory Cstdlib
  imports Prelude
begin

text \<open>
  Further functions of the C library that the sources call: searching a string from its end, reading numbers,
  reading Internet addresses, reading a line. What is printed on the terminal or in the log is kept as the
  format and its arguments.
\<close>

text \<open>An argument of \<open>printf\<close>: a string, an integer, or a quotient (as a pair).\<close>

datatype print_arg = Str "byte list" | Num nat | Quot nat nat

type_synonym message = "string \<times> print_arg list"

subsection \<open>Strings\<close>

definition strrchr :: "byte list \<Rightarrow> byte \<Rightarrow> nat option" where
  "strrchr s c = List.find (\<lambda>i. s ! i = c) (rev [0..<length s])"

lemma strrchr_None: "strrchr s c = None \<longleftrightarrow> c \<notin> set s"
  by (auto simp: strrchr_def find_None_iff in_set_conv_nth)

lemma find_rev_upt_Some:
  "List.find P (rev [0..<n]) = Some i \<Longrightarrow> i < n \<and> P i \<and> (\<forall>j. i < j \<and> j < n \<longrightarrow> \<not> P j)"
  by (induction n) (auto split: if_splits simp: less_Suc_eq)

lemma strrchr_Some: "strrchr s c = Some p \<Longrightarrow> p < length s \<and> s ! p = c \<and> c \<notin> set (drop (Suc p) s)"
  unfolding strrchr_def by (drule find_rev_upt_Some) (auto simp: in_set_conv_nth)

lemma after_last: "case strrchr s c of Some p \<Rightarrow> set (drop (p + 1) s) \<subseteq> set s - {c} \<and> length (drop (p + 1) s) \<le> length s
    | None \<Rightarrow> c \<notin> set s"
  using strrchr_Some [of s c] strrchr_None [of s c] by (auto split: option.splits dest: in_set_dropD)

text \<open>\<open>fgets\<close> into an array of \<open>n\<close> bytes: the line with its newline, and what is left of the input; \<open>None\<close> when
  nothing can be read.\<close>

definition fgets :: "nat \<Rightarrow> byte list \<Rightarrow> (byte list \<times> byte list) option" where
  "fgets n inp =
     (if inp = [] then None
      else let k = min (n - 1) (length (takeWhile (\<lambda>b. b \<noteq> 10) inp) + 1) in Some (take k inp, drop k inp))"

subsection \<open>Numbers\<close>

definition is_space :: "byte \<Rightarrow> bool" where "is_space b \<longleftrightarrow> b = 32 \<or> 9 \<le> b \<and> b \<le> 13"
definition is_digit :: "byte \<Rightarrow> bool" where "is_digit b \<longleftrightarrow> 48 \<le> b \<and> b \<le> 57"

text \<open>The value of a digit, 99 for what is none.\<close>

definition digit_of :: "byte \<Rightarrow> nat" where
  "digit_of b =
     (if 48 \<le> b \<and> b \<le> 57 then unat b - 48
      else if 97 \<le> b \<and> b \<le> 102 then unat b - 87
      else if 65 \<le> b \<and> b \<le> 70 then unat b - 55
      else 99)"

definition digits :: "nat \<Rightarrow> byte list \<Rightarrow> byte list" where
  "digits base s = takeWhile (\<lambda>b. digit_of b < base) s"

definition digits_value :: "nat \<Rightarrow> byte list \<Rightarrow> nat" where
  "digits_value base s = foldl (\<lambda>v b. base * v + digit_of b) 0 (digits base s)"

text \<open>What \<open>strtol\<close> and its relatives read in base 10: blanks, a sign, digits. The result is the sign, the value and
  the rest of the string; \<open>None\<close> when there are no digits, in which case \<open>endptr\<close> is the start of the string.\<close>

definition read_number :: "byte list \<Rightarrow> (bool \<times> nat \<times> byte list) option" where
  "read_number s =
     (let s = dropWhile is_space s;
          (neg, s) = (case s of [] \<Rightarrow> (False, s) | b # bs \<Rightarrow> if b = 45 then (True, bs) else if b = 43 then (False, bs) else (False, s))
      in if digits 10 s = [] then None else Some (neg, digits_value 10 s, drop (length (digits 10 s)) s))"

definition strtol :: "byte list \<Rightarrow> (int \<times> byte list) option" where
  "strtol s =
     map_option (\<lambda>(neg, v, rest). (max (- (2 ^ 63)) (min (2 ^ 63 - 1) (if neg then - int v else int v)), rest)) (read_number s)"

text \<open>\<open>strtoull\<close>: \<open>errno\<close> is \<open>ERANGE\<close> when the value does not fit; a minus sign negates in 64 bits.\<close>

definition strtoull :: "byte list \<Rightarrow> (bool \<times> u64 \<times> byte list) option" where
  "strtoull s =
     map_option (\<lambda>(neg, v, rest).
       if v \<ge> 2 ^ 64 then (True, - 1, rest) else (False, if neg then - of_nat v else of_nat v, rest)) (read_number s)"

definition atoi :: "byte list \<Rightarrow> int" where
  "atoi s = (case strtol s of None \<Rightarrow> 0 | Some (v, _) \<Rightarrow> sint (word_of_int v :: 32 word))"

subsection \<open>Internet addresses\<close>

text \<open>A number as in C: hexadecimal, octal or decimal; the string begins with a digit.\<close>

definition c_number :: "byte list \<Rightarrow> nat \<times> byte list" where
  "c_number s =
     (let (base, s) =
        (case s of
           z # x # h # r \<Rightarrow>
             if z = 48 \<and> (x = 120 \<or> x = 88) \<and> digit_of h < 16 then (16, h # r) else if z = 48 then (8, s) else (10, s)
         | z # _ \<Rightarrow> if z = 48 then (8, s) else (10, s)
         | [] \<Rightarrow> (10, s))
      in (digits_value base s, drop (length (digits base s)) s))"

lemma c_number_rest: "length (snd (c_number s)) \<le> length s"
  by (auto simp: c_number_def Let_def split: list.split)

text \<open>\<open>inet_addr\<close> of the GNU C library: up to four numbers, of which all but the last are bytes of the address and the
  last fills the rest of it. The address is in network order; \<open>INADDR_NONE\<close> is returned for what is none.\<close>

function inet_loop :: "nat list \<Rightarrow> byte list \<Rightarrow> (nat list \<times> nat \<times> byte list) option" where
  "inet_loop parts s =
     (case s of
        [] \<Rightarrow> None
      | b # _ \<Rightarrow>
          if \<not> is_digit b then None
          else let (v, rest) = c_number s in
            if v \<ge> 2 ^ 32 then None
            else (case rest of
                [] \<Rightarrow> Some (parts, v, rest)
              | c # cs \<Rightarrow>
                  if c = 46 then (if length parts > 2 \<or> v > 255 then None else inet_loop (parts @ [v]) cs)
                  else Some (parts, v, rest)))"
  by pat_completeness auto
termination
proof (relation "measure (\<lambda>(parts, s). length s)", simp)
  fix parts :: "nat list" and s b bs p v rest c cs
  assume "p = c_number s" and "(v, rest) = p" and "rest = c # cs"
  then show "((parts @ [v], cs), parts, s) \<in> measure (\<lambda>(parts, s). length s)"
    using c_number_rest [of s] by (metis case_prod_conv in_measure length_Cons less_eq_Suc_le snd_conv)
qed

declare inet_loop.simps [simp del]

abbreviation (input) INADDR_NONE :: u32 where "INADDR_NONE \<equiv> 0xFFFFFFFF"

definition inet_addr :: "byte list \<Rightarrow> u32" where
  "inet_addr s =
     (case inet_loop [] s of
        None \<Rightarrow> INADDR_NONE
      | Some (parts, v, rest) \<Rightarrow>
          if (rest \<noteq> [] \<and> \<not> is_space (hd rest)) \<or> v \<ge> 2 ^ (32 - 8 * length parts) then INADDR_NONE
          else of_be32 (rev (be32 (of_nat (foldr (\<lambda>(i, p) n. p * 2 ^ (24 - 8 * i) + n) (enumerate 0 parts) v)))))"

end
