(* ===== verification/Servctrl.thy ===== *)
theory Servctrl
  imports Peers Clhandle Servcfg Cstdlib
begin

text \<open>
  The control interface of the server, \<open>server/servctrl.c\<close>, and the loop of \<open>server/server.c\<close> that serves it: lines
  that an administrator writes into a FIFO are commands that change the configuration, the tables of addresses and the
  log level, list what the tables hold, and stop the server. The state is what \<open>ctrl_ctx\<close> points to; \<open>None\<close>
  is undefined behaviour, a failed assertion or a loop that does not end. The log lines of this interface are kept as
  formats with their arguments.
\<close>

abbreviation (input) MAX_TOKENS_PER_LINE :: int where "MAX_TOKENS_PER_LINE \<equiv> 20"
abbreviation (input) CTRL_LINE_SIZE :: nat where "CTRL_LINE_SIZE \<equiv> 1024"
abbreviation (input) CMD_STRSIZE :: nat where "CMD_STRSIZE \<equiv> 256"
abbreviation (input) NEWLINE :: string where "NEWLINE \<equiv> [CHR 0x0A]"

datatype cmds = C_help | C_shutdown_server | C_registrations | C_show | C_std_ipblock | C_std_unblock | C_reg_ipblock |
  C_reg_unblock | C_whitelist | C_unwhitelist | C_filesize | C_filetransfers | C_whitelist_use | C_set_log

definition commands :: "(cmds \<times> string \<times> string) list" where
  "commands =
     [(C_help, ''help'', ''help'' @ NEWLINE),
      (C_shutdown_server, ''shutdown_server'', ''shutdown_server'' @ NEWLINE),
      (C_registrations, ''registrations'', ''registrations <bool>'' @ NEWLINE),
      (C_show, ''show'', ''show <object(users, loadfactor, std_ipblock_list, reg_ipblock_list, whitelist)>'' @ NEWLINE),
      (C_std_ipblock, ''std_ipblock'', ''std_ipblock <users...(max 19)>'' @ NEWLINE),
      (C_std_unblock, ''std_unblock'', ''std_unblock <users...(max 19)>'' @ NEWLINE),
      (C_reg_ipblock, ''reg_ipblock'', ''reg_ipblock <users...(max 19)>'' @ NEWLINE),
      (C_reg_unblock, ''reg_unblock'', ''reg_unblock <users...(max 19)>'' @ NEWLINE),
      (C_whitelist, ''whitelist'', ''whitelist <users...(max 19)>'' @ NEWLINE),
      (C_unwhitelist, ''unwhitelist'', ''unwhitelist <users...(max 19)>'' @ NEWLINE),
      (C_filesize, ''filesize'', ''filesize <UINT64>'' @ NEWLINE),
      (C_filetransfers, ''filetransfers'', ''filetransfers <bool>'' @ NEWLINE),
      (C_whitelist_use, ''whitelist_use'', ''whitelist_use <bool>'' @ NEWLINE),
      (C_set_log, ''set_log'', ''set_log <level(DEBUG/INFO/NOTICE/WARN/ERROR/FATAL)>'' @ NEWLINE)]"

datatype log_level = ZLOG_DEBUG | ZLOG_INFO | ZLOG_NOTICE | ZLOG_WARN | ZLOG_ERROR | ZLOG_FATAL

text \<open>The event descriptors are the values that were written to them.\<close>

record ctrl =
  ct_cfg :: serv_cfg
  ct_cls :: std_store
  ct_nds :: node_store
  std_cl_tbl :: htable
  std_ipblock_tbl :: htable
  std_recs :: "addr \<Rightarrow> std_ipb_rec"
  reg_ipblock_tbl :: htable
  reg_recs :: "addr \<Rightarrow> reg_ipb_rec"
  ip_whitelist_tbl :: htable
  wl_recs :: "addr \<Rightarrow> whitelist_rec"
  ct_next :: addr
  ct_now :: timespec
  flg_reg_changed :: nat
  flg_shutdown :: nat
  zct :: log_level
  ct_log :: "message list"

definition dzlog_ctrl :: "string \<Rightarrow> print_arg list \<Rightarrow> ctrl \<Rightarrow> ctrl" where
  "dzlog_ctrl fmt args c = c\<lparr>ct_log := ct_log c @ [(fmt, args)]\<rparr>"

definition log_all :: "message list \<Rightarrow> ctrl \<Rightarrow> ctrl" where
  "log_all ms c = c\<lparr>ct_log := ct_log c @ ms\<rparr>"

definition invalid_count :: "byte list list \<Rightarrow> ctrl \<Rightarrow> ctrl" where
  "invalid_count tokens = dzlog_ctrl ''Invalid number of arguments for %s.'' [Str (tokens ! 0)]"

subsection \<open>Reading a command\<close>

text \<open>The text of \<open>errno\<close> is left out.\<close>

definition ctrl_parse_input :: "byte list \<Rightarrow> ctrl \<Rightarrow> byte list list option \<times> byte list \<times> ctrl" where
  "ctrl_parse_input inp c =
     (case fgets CTRL_LINE_SIZE inp of
        None \<Rightarrow> (None, inp, dzlog_ctrl ''Error parsing input. Cause: %s'' [] c)
      | Some (line, inp) \<Rightarrow>
          let line = cstr line;
              line = (case strrchr line 10 of Some newline \<Rightarrow> take newline line | None \<Rightarrow> line);
              (line', toks) = cmdparse_tokenize (cstr (normalize_string (line @ [0]))) MAX_TOKENS_PER_LINE
          in (Some (map (cstr_at line') toks), inp, c))"

subsection \<open>Commands\<close>

text \<open>The loop copies the manual lines into an array of \<open>num_commands * CMD_STRSIZE\<close> bytes.\<close>

definition handle_ctrl_help :: "ctrl \<Rightarrow> ctrl option" where
  "handle_ctrl_help c =
     (let helpbuf = lit (concat (map (\<lambda>(_, _, man). man) commands)) in
      if length helpbuf + 1 > length commands * CMD_STRSIZE then None
      else Some (dzlog_ctrl (''List of commands and usage:'' @ NEWLINE @ ''%s'') [Str helpbuf] c))"

definition handle_ctrl_shutdown_server :: "ctrl \<Rightarrow> ctrl" where
  "handle_ctrl_shutdown_server c = dzlog_ctrl ''Shutdown command sent'' [] (c\<lparr>flg_shutdown := flg_shutdown c + 1\<rparr>)"

text \<open>The result \<open>- 1\<close> is \<open>ERROR\<close>.\<close>

definition handle_generic_flag_change :: "byte \<Rightarrow> byte list list \<Rightarrow> ctrl \<Rightarrow> int \<times> ctrl" where
  "handle_generic_flag_change flag tokens c =
     (if length tokens < 2 then (- 1, invalid_count tokens c)
      else
        let (tok_at_end, arg) = (case strtol (tokens ! 1) of None \<Rightarrow> (True, 0) | Some (v, _) \<Rightarrow> (False, v)) in
        if tok_at_end \<or> arg \<noteq> 0 \<and> arg \<noteq> 1
        then (- 1, dzlog_ctrl ''Invalid argument for %s. Expected a bool (0 or 1).'' [Str (tokens ! 0)] c)
        else if arg = uint flag
        then (- 1, dzlog_ctrl ''[%s] Argument is equal to the current state of the flag, having no effect.'' [Str (tokens ! 0)] c)
        else (arg, c))"

definition handle_ctrl_registrations :: "byte list list \<Rightarrow> ctrl \<Rightarrow> ctrl" where
  "handle_ctrl_registrations tokens c =
     (let (arg, c) = handle_generic_flag_change (allow_registrations (ct_cfg c)) tokens c in
      if arg = - 1 then c
      else dzlog_ctrl ''%s registrations.'' [Str (lit (if arg \<noteq> 0 then ''Enabled'' else ''Disabled''))]
        (c\<lparr>ct_cfg := (ct_cfg c)\<lparr>allow_registrations := word_of_int arg\<rparr>, flg_reg_changed := flg_reg_changed c + 1\<rparr>))"

definition handle_ctrl_filetransfers :: "byte list list \<Rightarrow> ctrl \<Rightarrow> ctrl" where
  "handle_ctrl_filetransfers tokens c =
     (let (res, c) = handle_generic_flag_change (allow_file_transfers_flag (ct_cfg c)) tokens c in
      if res = - 1 then c
      else dzlog_ctrl ''%s file transfers.'' [Str (lit (if res \<noteq> 0 then ''Enabled'' else ''Disabled''))]
        (c\<lparr>ct_cfg := (ct_cfg c)\<lparr>allow_file_transfers_flag := word_of_int res\<rparr>\<rparr>))"

definition handle_ctrl_whitelist_use :: "byte list list \<Rightarrow> ctrl \<Rightarrow> ctrl" where
  "handle_ctrl_whitelist_use tokens c =
     (let (res, c) = handle_generic_flag_change (use_ip_whitelist (ct_cfg c)) tokens c in
      if res = - 1 then c
      else dzlog_ctrl ''%s whitelist.'' [Str (lit (if res \<noteq> 0 then ''Using'' else ''Not using''))]
        (c\<lparr>ct_cfg := (ct_cfg c)\<lparr>use_ip_whitelist := word_of_int res\<rparr>\<rparr>))"

text \<open>The list that \<open>htable_copy_all_keys\<close> returns: the NULs become newlines, the last one ends the text.\<close>

definition list_lines :: "byte list \<Rightarrow> nat \<times> byte list" where
  "list_lines keys =
     (length (filter (\<lambda>b. b = 0) keys), cstr ((map (\<lambda>b. if b = 0 then 10 else b) keys)[length keys - 1 := 0]))"

definition show_connected :: "ctrl \<Rightarrow> ctrl option" where
  "show_connected c = do {
     (users, _) \<leftarrow> htable_copy_all_keys (node_copy_username (ct_cls c)) (std_cl_tbl c);
     Some (if users \<noteq> []
       then let (i, lines) = list_lines users in
         dzlog_ctrl (''Connected and authenticated users (%lu):'' @ NEWLINE @ ''%s'') [Num i, Str lines] c
       else dzlog_ctrl ''There are no connected users.'' [] c) }"

definition show_peers :: "byte list \<Rightarrow> (addr \<Rightarrow> 'a ip_rec_scheme) \<Rightarrow> htable \<Rightarrow> ctrl \<Rightarrow> ctrl option" where
  "show_peers name recs iptbl c = do {
     (peernames, _) \<leftarrow> htable_copy_all_keys (\<lambda>n. node_copy_peername (recs n)) iptbl;
     Some (if peernames \<noteq> []
       then let (i, lines) = list_lines peernames in
         dzlog_ctrl (''%s records (%lu):'' @ NEWLINE @ ''%s'') [Str name, Num i, Str lines] c
       else dzlog_ctrl ''There are no records in %s'' [Str name] c) }"

definition handle_ctrl_show :: "byte list list \<Rightarrow> ctrl \<Rightarrow> ctrl option" where
  "handle_ctrl_show tokens c =
     (if length tokens < 2 then Some (invalid_count tokens c)
      else let object = tokens ! 1 in
        if object = lit ''users'' then show_connected c
        else if object = lit ''loadfactor''
        then Some (dzlog_ctrl ''Client table load factor: %.4lf''
          [case htable_get_ldfactor (std_cl_tbl c) of None \<Rightarrow> Quot 0 1 | Some (n, d) \<Rightarrow> Quot n d] c)
        else if object = lit ''std_ipblock_list'' then show_peers object (std_recs c) (std_ipblock_tbl c) c
        else if object = lit ''reg_ipblock_list'' then show_peers object (reg_recs c) (reg_ipblock_tbl c) c
        else if object = lit ''whitelist'' then show_peers object (wl_recs c) (ip_whitelist_tbl c) c
        else Some (dzlog_ctrl ''Unsupported argument for show: %s'' [Str object] c))"

subsection \<open>Commands on the address tables\<close>

definition bad_peer :: "byte list \<Rightarrow> byte list \<Rightarrow> message" where
  "bad_peer cmd tok = (''[%s] Invalid peer name: %s'', [Str cmd, Str tok])"

text \<open>The loops over the arguments. A new record is allocated at \<open>a\<close>; one that is in the way of another is freed by
  \<open>node_put\<close>. The messages are returned.\<close>

fun block_all :: "(u32 \<Rightarrow> 'a node_scheme) \<Rightarrow> byte list \<Rightarrow> byte list list \<Rightarrow> addr \<Rightarrow> (addr \<Rightarrow> 'a node_scheme) \<Rightarrow> htable \<Rightarrow>
    (addr \<times> (addr \<Rightarrow> 'a node_scheme) \<times> htable \<times> message list) option" where
  "block_all create cmd [] a recs ht = Some (a, recs, ht, [])"
| "block_all create cmd (t # ts) a recs ht =
     (let peername = inet_addr t in
      if peername = INADDR_NONE
      then map_option (\<lambda>(a, recs, ht, ms). (a, recs, ht, bad_peer cmd t # ms)) (block_all create cmd ts a recs ht)
      else case htable_add calm_locks calm_resize (recs(a := create peername)) ht a of
        None \<Rightarrow> None
      | Some (add_res, ht, _) \<Rightarrow>
          map_option (\<lambda>(a, recs, ht, ms). (a, recs, ht,
              (if add_res then (''Added record %s to %s table.'', [Str t, Str cmd])
               else (''Record %s already present in %s table.'', [Str t, Str cmd])) # ms))
            (block_all create cmd ts (a + 1)
              (if add_res then recs(a := create peername) else node_put (recs(a := create peername)) a) ht))"

fun unblock_all :: "byte list \<Rightarrow> byte list list \<Rightarrow> (addr \<Rightarrow> 'a node_scheme) \<Rightarrow> htable \<Rightarrow>
    ((addr \<Rightarrow> 'a node_scheme) \<times> htable \<times> message list) option" where
  "unblock_all cmd [] recs ht = Some (recs, ht, [])"
| "unblock_all cmd (t # ts) recs ht =
     (let peername = inet_addr t in
      if peername = INADDR_NONE
      then map_option (\<lambda>(recs, ht, ms). (recs, ht, bad_peer cmd t # ms)) (unblock_all cmd ts recs ht)
      else case htable_remove calm_locks recs ht (ip_key peername) of
        None \<Rightarrow> None
      | Some (ht, recs, _) \<Rightarrow>
          map_option (\<lambda>(recs, ht, ms). (recs, ht, (''Removed record %s from %s if it was present.'', [Str t, Str cmd]) # ms))
            (unblock_all cmd ts recs ht))"

definition handle_ctrl_std_ipblock :: "byte list list \<Rightarrow> ctrl \<Rightarrow> ctrl option" where
  "handle_ctrl_std_ipblock tokens c =
     (if length tokens < 2 then Some (invalid_count tokens c)
      else map_option (\<lambda>(a, recs, ht, ms). log_all ms (c\<lparr>ct_next := a, std_recs := recs, std_ipblock_tbl := ht\<rparr>))
        (block_all (\<lambda>p. std_ipb_rec_create (ct_now c) p True) (tokens ! 0) (tl tokens) (ct_next c) (std_recs c) (std_ipblock_tbl c)))"

definition handle_ctrl_reg_ipblock :: "byte list list \<Rightarrow> ctrl \<Rightarrow> ctrl option" where
  "handle_ctrl_reg_ipblock tokens c =
     (if length tokens < 2 then Some (invalid_count tokens c)
      else map_option (\<lambda>(a, recs, ht, ms). log_all ms (c\<lparr>ct_next := a, reg_recs := recs, reg_ipblock_tbl := ht\<rparr>))
        (block_all (\<lambda>p. reg_ipb_rec_create (ct_now c) p RSN_MANUAL) (tokens ! 0) (tl tokens) (ct_next c) (reg_recs c) (reg_ipblock_tbl c)))"

definition handle_ctrl_whitelist :: "byte list list \<Rightarrow> ctrl \<Rightarrow> ctrl option" where
  "handle_ctrl_whitelist tokens c =
     (if length tokens < 2 then Some (invalid_count tokens c)
      else map_option (\<lambda>(a, recs, ht, ms). log_all ms (c\<lparr>ct_next := a, wl_recs := recs, ip_whitelist_tbl := ht\<rparr>))
        (block_all whitelist_rec_create (tokens ! 0) (tl tokens) (ct_next c) (wl_recs c) (ip_whitelist_tbl c)))"

definition handle_ctrl_std_unblock :: "byte list list \<Rightarrow> ctrl \<Rightarrow> ctrl option" where
  "handle_ctrl_std_unblock tokens c =
     (if length tokens < 2 then Some (invalid_count tokens c)
      else map_option (\<lambda>(recs, ht, ms). log_all ms (c\<lparr>std_recs := recs, std_ipblock_tbl := ht\<rparr>))
        (unblock_all (tokens ! 0) (tl tokens) (std_recs c) (std_ipblock_tbl c)))"

definition handle_ctrl_reg_unblock :: "byte list list \<Rightarrow> ctrl \<Rightarrow> ctrl option" where
  "handle_ctrl_reg_unblock tokens c =
     (if length tokens < 2 then Some (invalid_count tokens c)
      else map_option (\<lambda>(recs, ht, ms). log_all ms (c\<lparr>reg_recs := recs, reg_ipblock_tbl := ht\<rparr>))
        (unblock_all (tokens ! 0) (tl tokens) (reg_recs c) (reg_ipblock_tbl c)))"

definition handle_ctrl_unwhitelist :: "byte list list \<Rightarrow> ctrl \<Rightarrow> ctrl option" where
  "handle_ctrl_unwhitelist tokens c =
     (if length tokens < 2 then Some (invalid_count tokens c)
      else map_option (\<lambda>(recs, ht, ms). log_all ms (c\<lparr>wl_recs := recs, ip_whitelist_tbl := ht\<rparr>))
        (unblock_all (tokens ! 0) (tl tokens) (wl_recs c) (ip_whitelist_tbl c)))"

subsection \<open>Limits and logging\<close>

definition handle_ctrl_filesize :: "byte list list \<Rightarrow> ctrl \<Rightarrow> ctrl" where
  "handle_ctrl_filesize tokens c =
     (if length tokens < 2 then dzlog_ctrl ''Invalid number of arguments for %s'' [Str (tokens ! 0)] c
      else case strtoull (tokens ! 1) of
        Some (False, arg, []) \<Rightarrow>
          dzlog_ctrl ''Changed max filesize to %lu'' [Num (unat arg)] (c\<lparr>ct_cfg := (ct_cfg c)\<lparr>max_filesize_b := arg\<rparr>\<rparr>)
      | _ \<Rightarrow> dzlog_ctrl ''Invalid argument for %s. Expected a UINT64'' [Str (tokens ! 0)] c)"

definition log_level_of :: "byte list \<Rightarrow> log_level option" where
  "log_level_of s =
     (if s = lit ''debug'' then Some ZLOG_DEBUG
      else if s = lit ''info'' then Some ZLOG_INFO
      else if s = lit ''notice'' then Some ZLOG_NOTICE
      else if s = lit ''warn'' then Some ZLOG_WARN
      else if s = lit ''error'' then Some ZLOG_ERROR
      else if s = lit ''fatal'' then Some ZLOG_FATAL
      else None)"

definition handle_ctrl_set_log :: "byte list list \<Rightarrow> ctrl \<Rightarrow> ctrl" where
  "handle_ctrl_set_log tokens c =
     (if length tokens < 2 then dzlog_ctrl ''Invalid number of arguments for %s'' [Str (tokens ! 0)] c
      else case log_level_of (tokens ! 1) of
        None \<Rightarrow> dzlog_ctrl ''Invalid log level'' [] c
      | Some lv \<Rightarrow> (dzlog_ctrl ''Setting log level to %s'' [Str (tokens ! 1)] c)\<lparr>zct := lv\<rparr>)"

subsection \<open>The interface\<close>

definition run_cmd :: "cmds \<Rightarrow> byte list list \<Rightarrow> ctrl \<Rightarrow> ctrl option" where
  "run_cmd cmd tokens c =
     (case cmd of
        C_help \<Rightarrow> handle_ctrl_help c
      | C_shutdown_server \<Rightarrow> Some (handle_ctrl_shutdown_server c)
      | C_registrations \<Rightarrow> Some (handle_ctrl_registrations tokens c)
      | C_show \<Rightarrow> handle_ctrl_show tokens c
      | C_std_ipblock \<Rightarrow> handle_ctrl_std_ipblock tokens c
      | C_std_unblock \<Rightarrow> handle_ctrl_std_unblock tokens c
      | C_reg_ipblock \<Rightarrow> handle_ctrl_reg_ipblock tokens c
      | C_reg_unblock \<Rightarrow> handle_ctrl_reg_unblock tokens c
      | C_whitelist \<Rightarrow> handle_ctrl_whitelist tokens c
      | C_unwhitelist \<Rightarrow> handle_ctrl_unwhitelist tokens c
      | C_filesize \<Rightarrow> Some (handle_ctrl_filesize tokens c)
      | C_filetransfers \<Rightarrow> Some (handle_ctrl_filetransfers tokens c)
      | C_whitelist_use \<Rightarrow> Some (handle_ctrl_whitelist_use tokens c)
      | C_set_log \<Rightarrow> Some (handle_ctrl_set_log tokens c))"

definition ctrl_process_cmd :: "byte list list \<Rightarrow> ctrl \<Rightarrow> (bool \<times> ctrl) option" where
  "ctrl_process_cmd tokens c =
     (if tokens = [] then Some (True, dzlog_ctrl ''Invalid ctrl input.'' [] c)
      else case List.find (\<lambda>(_, name, _). tokens ! 0 = lit name) commands of
        None \<Rightarrow> Some (True, dzlog_ctrl ''Invalid command: %s'' [Str (tokens ! 0)] c)
      | Some (cmd, _, _) \<Rightarrow> map_option (\<lambda>c. (cmd \<noteq> C_shutdown_server, c)) (run_cmd cmd tokens c))"

text \<open>The loop of \<open>main\<close>. \<open>inp\<close> is what is written to the FIFO, up to where reading it fails. Between two commands
  the other threads run: \<open>env\<close> is what they do to the shared state.\<close>

function ctrl_loop :: "(ctrl \<Rightarrow> ctrl) list \<Rightarrow> byte list \<Rightarrow> ctrl \<Rightarrow> ctrl option" where
  "ctrl_loop env inp c =
     (let c = (case env of [] \<Rightarrow> c | e # _ \<Rightarrow> e c) in
      case ctrl_parse_input inp c of
        (None, inp', c) \<Rightarrow>
          Some ((dzlog_ctrl ''Control interface read failure. Shutting down.'' [] c)\<lparr>flg_shutdown := flg_shutdown c + 1\<rparr>)
      | (Some tokens, inp', c) \<Rightarrow>
          (case ctrl_process_cmd tokens c of
             None \<Rightarrow> None
           | Some (should_continue, c) \<Rightarrow> if should_continue then ctrl_loop (tl env) inp' c else Some c))"
  by pat_completeness auto
termination
  by (relation "measure (\<lambda>(env, inp, c). length inp)")
    (auto simp: ctrl_parse_input_def fgets_def Let_def split: if_splits option.splits prod.splits)

declare ctrl_loop.simps [simp del]

end
