(* ===== verification/Ctrlsafe.thy ===== *)
theory Ctrlsafe
  imports Servctrl
begin

text \<open>
  What the commands of the control interface do to the tables of addresses, seen as maps from addresses to records,
  and the invariant that every command keeps.
\<close>

subsection \<open>Printed addresses can be typed\<close>

lemma unat_byte: "unat (b :: byte) < 256"
  using unsigned_less [of b] by simp

abbreviation (input) dig :: "nat \<Rightarrow> byte" where "dig m \<equiv> of_nat (48 + m)"

lemma dig_facts:
  assumes "m < 10"
  shows "digit_of (dig m) = m" and "is_digit (dig m)" and "dig m = 48 \<longleftrightarrow> m = 0"
proof -
  have m: "m \<in> {0, 1, 2, 3, 4, 5, 6, 7, 8, 9}" using assms by auto
  show "digit_of (dig m) = m" using m by (elim insertE emptyE) (simp_all add: digit_of_def)
  show "is_digit (dig m)" using m by (elim insertE emptyE) (simp_all add: is_digit_def)
  show "dig m = 48 \<longleftrightarrow> m = 0" using m by (elim insertE emptyE) simp_all
qed

text \<open>The rest of the string behind a printed number.\<close>

definition number_ends :: "byte list \<Rightarrow> bool" where
  "number_ends rest \<longleftrightarrow> rest = [] \<or> hd rest = 46"

lemma digits_printed:
  assumes "number_ends rest" and "\<forall>m \<in> set ms. m < 10"
  shows "digits 10 (map dig ms @ rest) = map dig ms"
proof -
  have "takeWhile (\<lambda>b. digit_of b < 10) rest = []"
    using assms(1) by (cases rest) (auto simp: number_ends_def digit_of_def)
  moreover have "\<forall>b \<in> set (map dig ms). digit_of b < 10" using assms(2) by (auto simp: dig_facts simp del: of_nat_add)
  ultimately show ?thesis unfolding digits_def by (simp add: takeWhile_append2 del: of_nat_add set_map)
qed

lemma value_printed:
  assumes "\<forall>m \<in> set ms. m < 10"
  shows "foldl (\<lambda>v b. 10 * v + digit_of b) v (map dig ms) = foldl (\<lambda>v m. 10 * v + m) v ms"
  using assms by (induction ms arbitrary: v) (simp_all add: dig_facts del: of_nat_add)

lemma c_number_plain: "s \<noteq> [] \<Longrightarrow> hd s \<noteq> 48 \<Longrightarrow> c_number s = (digits_value 10 s, drop (length (digits 10 s)) s)"
  by (auto simp: c_number_def split: list.splits)

lemma c_number_printed:
  assumes "number_ends rest" and "\<forall>m \<in> set (m # ms). m < 10" and "m \<noteq> 0"
  shows "c_number (map dig (m # ms) @ rest) = (foldl (\<lambda>v m. 10 * v + m) 0 (m # ms), rest)"
proof -
  have "hd (map dig (m # ms) @ rest) \<noteq> 48" using dig_facts(3) [of m] assms(2,3) by (simp del: of_nat_add)
  then have "c_number (map dig (m # ms) @ rest) =
      (digits_value 10 (map dig (m # ms) @ rest), drop (length (digits 10 (map dig (m # ms) @ rest))) (map dig (m # ms) @ rest))"
    by (intro c_number_plain) simp_all
  then show ?thesis using value_printed [OF assms(2), of 0]
    unfolding digits_value_def digits_printed [OF assms(1,2)] by (simp del: of_nat_add)
qed

lemma c_number_zero: "number_ends rest \<Longrightarrow> c_number (48 # rest) = (0, rest)"
proof -
  have d: "digit_of 46 = 99" "digit_of 48 = 0" by (simp_all add: digit_of_def)
  assume "number_ends rest"
  then consider "rest = []" | r where "rest = 46 # r" by (cases rest) (auto simp: number_ends_def)
  then show "c_number (48 # rest) = (0, rest)"
  proof cases
    case (2 r)
    then show ?thesis using d by (cases r) (simp_all add: c_number_def digits_def digits_value_def)
  qed (use d in \<open>simp add: c_number_def digits_def digits_value_def\<close>)
qed

text \<open>The digits that \<open>inet_ntop\<close> prints.\<close>

definition decimal_digits :: "nat \<Rightarrow> nat list" where
  "decimal_digits n =
     (if n \<ge> 100 then [n div 100, n div 10 mod 10, n mod 10] else if n \<ge> 10 then [n div 10, n mod 10] else [n])"

lemma decimal_digits_correct:
  assumes "n < 256"
  shows "\<forall>m \<in> set (decimal_digits n). m < 10" and "foldl (\<lambda>v m. 10 * v + m) 0 (decimal_digits n) = n"
    and "\<exists>m ms. decimal_digits n = m # ms \<and> (m = 0 \<longrightarrow> ms = [] \<and> n = 0)"
proof -
  show "\<forall>m \<in> set (decimal_digits n). m < 10" using assms by (auto simp: decimal_digits_def)
  have tens: "10 * (n div 10) + n mod 10 = n" by (rule mult_div_mod_eq)
  have "10 * (n div 10 div 10) + n div 10 mod 10 = n div 10" by (rule mult_div_mod_eq)
  then have "10 * (n div 100) + n div 10 mod 10 = n div 10" by (simp only: div_mult2_eq [of n 10 10, symmetric] mult_numeral_1 semiring_norm num.simps)
  then show "foldl (\<lambda>v m. 10 * v + m) 0 (decimal_digits n) = n" using tens by (simp add: decimal_digits_def)
  show "\<exists>m ms. decimal_digits n = m # ms \<and> (m = 0 \<longrightarrow> ms = [] \<and> n = 0)" by (auto simp: decimal_digits_def)
qed

lemma decimal_printed: "decimal b = map dig (decimal_digits (unat b))"
proof -
  have "unat b div 10 mod 10 = unat b div 10" if "unat b < 100" using that by simp
  then show ?thesis by (simp add: decimal_def decimal_digits_def Let_def del: of_nat_add)
qed

lemma c_number_decimal:
  assumes "number_ends rest"
  shows "c_number (decimal b @ rest) = (unat b, rest)"
proof -
  obtain m ms where m: "decimal_digits (unat b) = m # ms" "m = 0 \<longrightarrow> ms = [] \<and> unat b = 0"
    using decimal_digits_correct(3) [OF unat_byte [of b]] by blast
  have lt: "\<forall>m \<in> set (m # ms). m < 10" using decimal_digits_correct(1) [OF unat_byte [of b]] m(1) by simp
  show ?thesis
  proof (cases "m = 0")
    case True
    then show ?thesis using m c_number_zero [OF assms] by (simp add: decimal_printed)
  next
    case False
    have "foldl (\<lambda>v m. 10 * v + m) 0 (m # ms) = unat b" using decimal_digits_correct(2) [OF unat_byte [of b]] m(1) by simp
    then show ?thesis using c_number_printed [OF assms lt False] by (simp only: decimal_printed m(1))
  qed
qed

lemma decimal_first: "\<exists>x xs. decimal b = x # xs \<and> is_digit x"
proof -
  obtain m ms where m: "decimal_digits (unat b) = m # ms" using decimal_digits_correct(3) [OF unat_byte [of b]] by blast
  then have "m < 10" using decimal_digits_correct(1) [OF unat_byte [of b]] by simp
  then show ?thesis using dig_facts(2) m by (simp add: decimal_printed del: of_nat_add)
qed

lemma inet_loop_byte:
  "inet_loop parts (decimal b @ 46 # cs) = (if length parts > 2 then None else inet_loop (parts @ [unat b]) cs)"
  "inet_loop parts (decimal b) = Some (parts, unat b, [])"
proof -
  obtain x xs where x: "decimal b = x # xs" "is_digit x" using decimal_first by blast
  have b: "unat b < 256" using unat_byte [of b] by simp
  have c: "c_number (x # xs @ 46 # cs) = (unat b, 46 # cs)" "c_number (x # xs) = (unat b, [])"
    using c_number_decimal [of "46 # cs" b] c_number_decimal [of "[]" b] x(1) by (simp_all add: number_ends_def)
  show "inet_loop parts (decimal b @ 46 # cs) = (if length parts > 2 then None else inet_loop (parts @ [unat b]) cs)"
    using x b c by (subst inet_loop.simps) simp
  show "inet_loop parts (decimal b) = Some (parts, unat b, [])"
    using x b c by (subst inet_loop.simps) simp
qed

lemma of_be32_rev: "length k = 4 \<Longrightarrow> of_be32 (rev k) = ip_of_key k"
proof -
  assume "length k = 4"
  then obtain a b c d where k: "k = [a, b, c, d]" by (auto simp: length_Suc_conv numeral_eq_Suc)
  show ?thesis by (simp add: k of_be32_def ip_of_key_def ac_simps)
qed

lemma be32_of_bytes:
  "be32 (of_nat (unat a * 2 ^ 24 + (unat b * 2 ^ 16 + (unat c * 2 ^ 8 + unat d)))) = [a, b, c, d :: byte]"
proof -
  have low: "bit (ucast x :: u32) n \<Longrightarrow> n < 8" for x :: byte and n by (auto simp: bit_simps dest: bit_imp_le_length)
  have "of_be32 [a, b, c, d] = push_bit 24 (ucast a) + (push_bit 16 (ucast b) + (push_bit 8 (ucast c) + ucast d))"
    unfolding of_be32_def
    by (subst (1 2 3) disjunctive_add) (use low in \<open>force simp: bit_simps ac_simps\<close>)+
  also have "\<dots> = of_nat (unat a * 2 ^ 24 + (unat b * 2 ^ 16 + (unat c * 2 ^ 8 + unat d)))"
    by (simp add: push_bit_eq_mult)
  finally have "of_be32 [a, b, c, d] = of_nat (unat a * 2 ^ 24 + (unat b * 2 ^ 16 + (unat c * 2 ^ 8 + unat d)))" .
  then show ?thesis using be32_of_be32 [of "[a, b, c, d]"] by simp
qed

lemma inet_addr_ntop: "inet_addr (inet_ntop ip) = ip"
proof -
  obtain a b c d where k: "ip_key ip = [a, b, c, d]" by (simp add: ip_key_def)
  have lt: "unat d < 2 ^ 8" using unat_byte [of d] by simp
  have three: "(32 :: nat) - 8 * length [unat a, unat b, unat c] = 8" by simp
  have "inet_addr (inet_ntop ip) = of_be32 (rev [a, b, c, d])"
    using lt by (simp add: inet_addr_def inet_ntop_def k inet_loop_byte be32_of_bytes [simplified])
  then show ?thesis using of_be32_rev [of "ip_key ip"] ip_of_key_ip_key [of ip] k by simp
qed

subsection \<open>The tables\<close>

text \<open>The addresses among the arguments.\<close>

definition arg_peers :: "byte list list \<Rightarrow> u32 list" where
  "arg_peers ts = filter (\<lambda>p. p \<noteq> INADDR_NONE) (map inet_addr ts)"

lemma arg_peers_printed: "INADDR_NONE \<notin> set ps \<Longrightarrow> arg_peers (map inet_ntop ps) = ps"
  by (induction ps) (auto simp: arg_peers_def inet_addr_ntop)

text \<open>A table whose records lie below the next free address, at most \<open>K\<close> of them.\<close>

definition book_ok :: "nat \<Rightarrow> (addr \<Rightarrow> 'a node_scheme) \<Rightarrow> htable \<Rightarrow> addr \<Rightarrow> bool" where
  "book_ok K recs ht nxt \<longleftrightarrow> ip_table recs ht \<and> (\<forall>n \<in> ht_nodes ht. n < nxt) \<and> card (ht_nodes ht) \<le> K"

lemma book_ok_mono: "book_ok K recs ht nxt \<Longrightarrow> K \<le> K' \<Longrightarrow> nxt \<le> nxt' \<Longrightarrow> book_ok K' recs ht nxt'"
  by (fastforce simp: book_ok_def)

lemma finite_ht_nodes [simp]: "finite (ht_nodes ht)"
  by (simp add: ht_nodes_def)

lemma book_ok_outside:
  assumes "book_ok K recs ht nxt" and "a \<notin> ht_nodes ht"
  shows "book_ok K (node_put recs a) ht nxt" and "peer_record (node_put recs a) ht = peer_record recs ht"
proof -
  have same: "node_put recs a m = recs m" if "m \<in> ht_nodes ht" for m using that assms(2) by (auto simp: node_put_def Let_def)
  have keys: "key (node_put recs a m) = key (recs m)" for m by (simp add: node_put_def Let_def)
  have t: "ip_table recs ht" using assms(1) by (simp add: book_ok_def)
  then have t': "ip_table (node_put recs a) ht" using same ht_ok_cong [of "node_put recs a" recs, OF keys] by (simp add: ip_table_def)
  then show "book_ok K (node_put recs a) ht nxt" using assms(1) by (simp add: book_ok_def)
  have "ip_find (node_put recs a) ht = ip_find recs ht"
    unfolding ip_find_def [abs_def] ht_map_cong [of "node_put recs a" recs, OF keys] ..
  moreover have "map_option (node_put recs a) (ip_find recs ht p) = map_option recs (ip_find recs ht p)" for p
    using same by (cases "ip_find recs ht p") (auto dest: ip_find_Some [OF t, THEN iffD1])
  ultimately show "peer_record (node_put recs a) ht = peer_record recs ht" by (simp add: fun_eq_iff peer_record_def)
qed

definition blocked_book :: "(u32 \<Rightarrow> 'a node_scheme) \<Rightarrow> u32 list \<Rightarrow> (u32 \<Rightarrow> 'a node_scheme option) \<Rightarrow> u32 \<Rightarrow> 'a node_scheme option" where
  "blocked_book create ps book = (\<lambda>p. if book p = None \<and> p \<in> set ps then Some (create p) else book p)"

context record_maker
begin

lemma add_made:
  assumes b: "book_ok K recs ht a"
  shows "\<exists>recs' ht' tr. htable_add calm_locks calm_resize (recs(a := create peer)) ht a = Some (peer_record recs ht peer = None, ht', tr) \<and>
    recs' = (if peer_record recs ht peer = None then recs(a := create peer) else node_put (recs(a := create peer)) a) \<and>
    book_ok (K + 1) recs' ht' (a + 1) \<and> peer_record recs' ht' = blocked_book create [peer] (peer_record recs ht)"
proof -
  have t: "ip_table recs ht" and a: "a \<notin> ht_nodes ht" using b by (auto simp: book_ok_def)
  obtain ht' tr where r: "htable_add calm_locks calm_resize (recs(a := create peer)) ht a = Some (peer_record recs ht peer = None, ht', tr)"
    "ip_table (recs(a := create peer)) ht'" "ht_nodes ht' \<subseteq> insert a (ht_nodes ht)" "peer_record recs ht peer \<noteq> None \<longrightarrow> a \<notin> ht_nodes ht'"
    "peer_record (recs(a := create peer)) ht' =
      (if peer_record recs ht peer = None then (peer_record recs ht)(peer \<mapsto> create peer) else peer_record recs ht)"
    using insert_made [OF t a] by blast
  have "card (ht_nodes ht') \<le> card (insert a (ht_nodes ht))" by (rule card_mono) (use r(3) in simp_all)
  also have "\<dots> \<le> K + 1" using b by (simp add: book_ok_def a)
  finally have ok: "book_ok (K + 1) (recs(a := create peer)) ht' (a + 1)"
    using r(2,3) b by (fastforce simp: book_ok_def)
  have bk: "peer_record (recs(a := create peer)) ht' = blocked_book create [peer] (peer_record recs ht)"
    by (auto simp: fun_eq_iff r(5) blocked_book_def)
  show ?thesis
  proof (cases "peer_record recs ht peer = None")
    case True
    then show ?thesis using r(1) ok bk by simp
  next
    case False
    then obtain y where y: "peer_record recs ht peer = Some y" by auto
    then show ?thesis using r(1,4) book_ok_outside [OF ok, of a] bk by simp
  qed
qed

lemma block_all_ok:
  assumes "book_ok K recs ht a"
  shows "\<exists>a' recs' ht' ms. block_all create cmd ts a recs ht = Some (a', recs', ht', ms) \<and> book_ok (K + length ts) recs' ht' a' \<and> a \<le> a' \<and>
    peer_record recs' ht' = blocked_book create (arg_peers ts) (peer_record recs ht)"
  using assms
proof (induction ts arbitrary: K recs ht a)
  case Nil
  then show ?case by (simp add: blocked_book_def arg_peers_def)
next
  case (Cons t ts)
  show ?case
  proof (cases "inet_addr t = INADDR_NONE")
    case True
    from Cons.IH [OF book_ok_mono [OF Cons.prems, of "K + 1" a]] True show ?thesis by (auto simp: arg_peers_def)
  next
    case False
    obtain recs1 ht1 tr where r: "htable_add calm_locks calm_resize (recs(a := create (inet_addr t))) ht a =
        Some (peer_record recs ht (inet_addr t) = None, ht1, tr)"
      "recs1 = (if peer_record recs ht (inet_addr t) = None then recs(a := create (inet_addr t)) else node_put (recs(a := create (inet_addr t))) a)"
      "book_ok (K + 1) recs1 ht1 (a + 1)" "peer_record recs1 ht1 = blocked_book create [inet_addr t] (peer_record recs ht)"
      using add_made [OF Cons.prems] by blast
    obtain a' recs' ht' ms where i: "block_all create cmd ts (a + 1) recs1 ht1 = Some (a', recs', ht', ms)"
      "book_ok (K + 1 + length ts) recs' ht' a'" "a + 1 \<le> a'" "peer_record recs' ht' = blocked_book create (arg_peers ts) (peer_record recs1 ht1)"
      using Cons.IH [OF r(3)] by blast
    have "blocked_book create (arg_peers ts) (blocked_book create [inet_addr t] b) = blocked_book create (arg_peers (t # ts)) b" for b
      using False by (auto simp: blocked_book_def arg_peers_def)
    then show ?thesis using False r(1,2,4) i by (simp add: Let_def)
  qed
qed

end

lemma unblock_all_ok:
  assumes "book_ok K recs ht a"
  shows "\<exists>recs' ht' ms. unblock_all cmd ts recs ht = Some (recs', ht', ms) \<and> book_ok K recs' ht' a \<and>
    peer_record recs' ht' = (\<lambda>p. if p \<in> set (arg_peers ts) then None else peer_record recs ht p)"
  using assms
proof (induction ts arbitrary: recs ht)
  case Nil
  then show ?case by (simp add: arg_peers_def)
next
  case (Cons t ts)
  show ?case
  proof (cases "inet_addr t = INADDR_NONE")
    case True
    from Cons.IH [OF Cons.prems] True show ?thesis by (auto simp: arg_peers_def)
  next
    case False
    have tb: "ip_table recs ht" using Cons.prems by (simp add: book_ok_def)
    obtain ht1 recs1 tr where r: "htable_remove calm_locks recs ht (ip_key (inet_addr t)) = Some (ht1, recs1, tr)" "ip_table recs1 ht1"
      "ip_find recs1 ht1 = (ip_find recs ht)(inet_addr t := None)" "ht_nodes ht1 \<subseteq> ht_nodes ht" "\<forall>n \<in> ht_nodes ht1. recs1 n = recs n"
      using ip_drop [OF tb] by blast
    have "card (ht_nodes ht1) \<le> card (ht_nodes ht)" by (rule card_mono) (use r(4) in simp_all)
    then have ok: "book_ok K recs1 ht1 a" using Cons.prems r(2,4) by (auto simp: book_ok_def)
    have "map_option recs1 (ip_find recs1 ht1 p) = map_option recs (ip_find recs1 ht1 p)" for p
      using r(5) by (cases "ip_find recs1 ht1 p") (auto dest: ip_find_Some [OF r(2), THEN iffD1])
    then have bk: "peer_record recs1 ht1 = (peer_record recs ht)(inet_addr t := None)"
      by (auto simp: fun_eq_iff peer_record_def r(3))
    obtain recs' ht' ms where i: "unblock_all cmd ts recs1 ht1 = Some (recs', ht', ms)" "book_ok K recs' ht' a"
      "peer_record recs' ht' = (\<lambda>p. if p \<in> set (arg_peers ts) then None else peer_record recs1 ht1 p)"
      using Cons.IH [OF ok] by blast
    then show ?thesis using False r(1) by (auto simp: bk arg_peers_def)
  qed
qed

interpretation std_maker: record_maker "\<lambda>p. std_ipb_rec_create t p True" for t
  by unfold_locales (simp_all add: std_ipb_rec_create_def)

interpretation wl_maker: record_maker whitelist_rec_create
  by unfold_locales (simp_all add: whitelist_rec_create_def)

end
