(* ===== verification/Ctrlprops.thy ===== *)
theory Ctrlprops
  imports Ctrlsafe
begin

text \<open>
  The properties of the control interface: it cannot be made to fail and always tells the threads to stop, the block
  commands do to the tables what their names say, and the case in which an address cannot be blocked.
\<close>

subsection \<open>Listing\<close>

lemma copies_peernames: "copies_upto (2 ^ 32 - 1) (\<lambda>n. node_copy_peername (recs n)) (\<lambda>n. Some (inet_ntop (ip_addr (recs n)) @ [0]))"
  by (simp add: copies_upto_def node_copy_peername_spec)

lemma length_listing: "length (concat (map (\<lambda>n. inet_ntop (ip_addr (recs n)) @ [0]) ns)) \<le> 16 * length ns"
proof (induction ns)
  case (Cons n ns)
  have "length (inet_ntop (ip_addr (recs n))) \<le> 15" by (rule length_inet_ntop)
  then show ?case using Cons by simp
qed simp

lemma show_peers_returns:
  assumes "book_ok K recs ht nxt" and "K \<le> 2 ^ 26"
  shows "\<exists>fmt args. show_peers name recs ht c = Some (dzlog_ctrl fmt args c)"
proof -
  have t: "ip_table recs ht" and "card (ht_nodes ht) \<le> 2 ^ 26" using assms by (simp_all add: book_ok_def)
  then have "length (concat (buckets ht)) \<le> 2 ^ 26" by (simp add: ip_size [OF t])
  then have "2 * length (concat (map (\<lambda>n. inet_ntop (ip_addr (recs n)) @ [0]) (concat (buckets ht)))) \<le> 2 ^ 32 - 1"
    using length_listing [of recs "concat (buckets ht)"] by simp
  then obtain tr where "htable_copy_all_keys (\<lambda>n. node_copy_peername (recs n)) ht =
      Some (concat (map (\<lambda>n. inet_ntop (ip_addr (recs n)) @ [0]) (concat (buckets ht))), tr)"
    using htable_copy_all_keys_upto [OF ip_tableD(1) [OF t] copies_peernames, where recs1 = recs] by auto
  then show ?thesis by (auto simp: show_peers_def split: prod.split)
qed

subsection \<open>The invariant\<close>

definition flags_ok :: "serv_cfg \<Rightarrow> bool" where
  "flags_ok g \<longleftrightarrow> allow_registrations g \<le> 1 \<and> allow_file_transfers_flag g \<le> 1 \<and> use_ip_whitelist g \<le> 1"

text \<open>\<open>K\<close> bounds the number of records of each table.\<close>

definition ctrl_ok :: "nat \<Rightarrow> ctrl \<Rightarrow> bool" where
  "ctrl_ok K c \<longleftrightarrow> book_ok K (std_recs c) (std_ipblock_tbl c) (ct_next c) \<and> book_ok K (reg_recs c) (reg_ipblock_tbl c) (ct_next c) \<and>
     book_ok K (wl_recs c) (ip_whitelist_tbl c) (ct_next c) \<and> ht_ok name_ok (ct_nds c) (std_cl_tbl c) \<and> flags_ok (ct_cfg c)"

lemma ctrl_ok_mono: "ctrl_ok K c \<Longrightarrow> K \<le> K' \<Longrightarrow> ctrl_ok K' c"
  by (auto simp: ctrl_ok_def intro: book_ok_mono)

lemma log_fields [simp]:
  "ctrl_ok K (dzlog_ctrl fmt args c) = ctrl_ok K c" "flg_shutdown (dzlog_ctrl fmt args c) = flg_shutdown c"
  "ctrl_ok K (log_all ms c) = ctrl_ok K c" "flg_shutdown (log_all ms c) = flg_shutdown c"
  "ctrl_ok K (invalid_count tokens c) = ctrl_ok K c" "flg_shutdown (invalid_count tokens c) = flg_shutdown c"
  by (simp_all add: dzlog_ctrl_def log_all_def invalid_count_def ctrl_ok_def)

text \<open>What a command other than \<open>shutdown_server\<close> comes to.\<close>

definition cmd_ok :: "nat \<Rightarrow> ctrl \<Rightarrow> ctrl option \<Rightarrow> bool" where
  "cmd_ok K c r \<longleftrightarrow> (\<exists>c'. r = Some c' \<and> ctrl_ok K c' \<and> flg_shutdown c' = flg_shutdown c)"

lemma cmd_ok_Some [simp]: "cmd_ok K c (Some c') \<longleftrightarrow> ctrl_ok K c' \<and> flg_shutdown c' = flg_shutdown c"
  by (simp add: cmd_ok_def)

lemma set_books:
  assumes "ctrl_ok K c" and "K \<le> K'" and "ct_next c \<le> a"
  shows "book_ok K' s ht a \<Longrightarrow> ctrl_ok K' (c\<lparr>ct_next := a, std_recs := s, std_ipblock_tbl := ht\<rparr>)"
    and "book_ok K' r ht a \<Longrightarrow> ctrl_ok K' (c\<lparr>ct_next := a, reg_recs := r, reg_ipblock_tbl := ht\<rparr>)"
    and "book_ok K' w ht a \<Longrightarrow> ctrl_ok K' (c\<lparr>ct_next := a, wl_recs := w, ip_whitelist_tbl := ht\<rparr>)"
  using assms(1) by (auto simp: ctrl_ok_def intro: book_ok_mono [OF _ assms(2,3)])

lemma set_books_same:
  assumes "ctrl_ok K c"
  shows "book_ok K s ht (ct_next c) \<Longrightarrow> ctrl_ok K (c\<lparr>std_recs := s, std_ipblock_tbl := ht\<rparr>)"
    and "book_ok K r ht (ct_next c) \<Longrightarrow> ctrl_ok K (c\<lparr>reg_recs := r, reg_ipblock_tbl := ht\<rparr>)"
    and "book_ok K w ht (ct_next c) \<Longrightarrow> ctrl_ok K (c\<lparr>wl_recs := w, ip_whitelist_tbl := ht\<rparr>)"
  using assms by (simp_all add: ctrl_ok_def)

lemma block_commands_ok:
  assumes "ctrl_ok K c" and "length tokens \<le> 20"
  shows "cmd_ok (K + 19) c (handle_ctrl_std_ipblock tokens c)" and "cmd_ok (K + 19) c (handle_ctrl_reg_ipblock tokens c)"
    and "cmd_ok (K + 19) c (handle_ctrl_whitelist tokens c)"
proof -
  have b: "book_ok K (std_recs c) (std_ipblock_tbl c) (ct_next c)" "book_ok K (reg_recs c) (reg_ipblock_tbl c) (ct_next c)"
    "book_ok K (wl_recs c) (ip_whitelist_tbl c) (ct_next c)" using assms(1) by (simp_all add: ctrl_ok_def)
  have c': "ctrl_ok (K + 19) c" by (rule ctrl_ok_mono [OF assms(1)]) simp
  have le: "K + length (tl tokens) \<le> K + 19" using assms(2) by (cases tokens) simp_all
  obtain a1 recs1 ht1 ms1 where r1: "block_all (\<lambda>p. std_ipb_rec_create (ct_now c) p True) (tokens ! 0) (tl tokens) (ct_next c) (std_recs c) (std_ipblock_tbl c) = Some (a1, recs1, ht1, ms1)"
    "book_ok (K + length (tl tokens)) recs1 ht1 a1" "ct_next c \<le> a1"
    using std_maker.block_all_ok [OF b(1)] by blast
  have "book_ok (K + 19) recs1 ht1 a1" by (rule book_ok_mono [OF r1(2) le]) simp
  then show "cmd_ok (K + 19) c (handle_ctrl_std_ipblock tokens c)"
    using r1 c' set_books(1) [OF assms(1) _ r1(3), of "K + 19"] by (simp add: handle_ctrl_std_ipblock_def)
  obtain a2 recs2 ht2 ms2 where r2: "block_all (\<lambda>p. reg_ipb_rec_create (ct_now c) p RSN_MANUAL) (tokens ! 0) (tl tokens) (ct_next c) (reg_recs c) (reg_ipblock_tbl c) = Some (a2, recs2, ht2, ms2)"
    "book_ok (K + length (tl tokens)) recs2 ht2 a2" "ct_next c \<le> a2"
    using reg_book.block_all_ok [OF b(2)] by blast
  have "book_ok (K + 19) recs2 ht2 a2" by (rule book_ok_mono [OF r2(2) le]) simp
  then show "cmd_ok (K + 19) c (handle_ctrl_reg_ipblock tokens c)"
    using r2 c' set_books(2) [OF assms(1) _ r2(3), of "K + 19"] by (simp add: handle_ctrl_reg_ipblock_def)
  obtain a3 recs3 ht3 ms3 where r3: "block_all whitelist_rec_create (tokens ! 0) (tl tokens) (ct_next c) (wl_recs c) (ip_whitelist_tbl c) = Some (a3, recs3, ht3, ms3)"
    "book_ok (K + length (tl tokens)) recs3 ht3 a3" "ct_next c \<le> a3"
    using wl_maker.block_all_ok [OF b(3)] by blast
  have "book_ok (K + 19) recs3 ht3 a3" by (rule book_ok_mono [OF r3(2) le]) simp
  then show "cmd_ok (K + 19) c (handle_ctrl_whitelist tokens c)"
    using r3 c' set_books(3) [OF assms(1) _ r3(3), of "K + 19"] by (simp add: handle_ctrl_whitelist_def)
qed

lemma unblock_commands_ok:
  assumes "ctrl_ok K c"
  shows "cmd_ok K c (handle_ctrl_std_unblock tokens c)" and "cmd_ok K c (handle_ctrl_reg_unblock tokens c)"
    and "cmd_ok K c (handle_ctrl_unwhitelist tokens c)"
proof -
  have b: "book_ok K (std_recs c) (std_ipblock_tbl c) (ct_next c)" "book_ok K (reg_recs c) (reg_ipblock_tbl c) (ct_next c)"
    "book_ok K (wl_recs c) (ip_whitelist_tbl c) (ct_next c)" using assms by (simp_all add: ctrl_ok_def)
  show "cmd_ok K c (handle_ctrl_std_unblock tokens c)"
    using unblock_all_ok [OF b(1), of "tokens ! 0" "tl tokens"] assms set_books_same(1) [OF assms] by (auto simp: handle_ctrl_std_unblock_def)
  show "cmd_ok K c (handle_ctrl_reg_unblock tokens c)"
    using unblock_all_ok [OF b(2), of "tokens ! 0" "tl tokens"] assms set_books_same(2) [OF assms] by (auto simp: handle_ctrl_reg_unblock_def)
  show "cmd_ok K c (handle_ctrl_unwhitelist tokens c)"
    using unblock_all_ok [OF b(3), of "tokens ! 0" "tl tokens"] assms set_books_same(3) [OF assms] by (auto simp: handle_ctrl_unwhitelist_def)
qed

lemma flag_change:
  assumes "handle_generic_flag_change flag tokens c = (arg, c')"
  shows "arg = - 1 \<or> arg = 0 \<or> arg = 1" and "ctrl_ok K c' = ctrl_ok K c" and "flg_shutdown c' = flg_shutdown c"
  using assms by (auto simp: handle_generic_flag_change_def Let_def split: if_splits option.splits prod.splits)

lemma set_flag_ok:
  assumes "ctrl_ok K c" and "flags_ok (ct_cfg c) \<Longrightarrow> flags_ok g"
  shows "ctrl_ok K (c\<lparr>ct_cfg := g\<rparr>)" and "ctrl_ok K (c\<lparr>ct_cfg := g, flg_reg_changed := n\<rparr>)" and "ctrl_ok K (c\<lparr>zct := lv\<rparr>)"
  using assms by (simp_all add: ctrl_ok_def)

lemma flag_commands_ok:
  assumes "ctrl_ok K c"
  shows "cmd_ok K c (Some (handle_ctrl_registrations tokens c))" and "cmd_ok K c (Some (handle_ctrl_filetransfers tokens c))"
    and "cmd_ok K c (Some (handle_ctrl_whitelist_use tokens c))" and "cmd_ok K c (Some (handle_ctrl_filesize tokens c))"
    and "cmd_ok K c (Some (handle_ctrl_set_log tokens c))"
proof -
  have bit: "(word_of_int arg :: byte) \<le> 1" if "arg = 0 \<or> arg = 1" for arg using that by auto
  obtain a1 c1 where h1: "handle_generic_flag_change (allow_registrations (ct_cfg c)) tokens c = (a1, c1)" by fastforce
  show "cmd_ok K c (Some (handle_ctrl_registrations tokens c))"
    using flag_change [OF h1] assms bit [of a1]
    by (auto simp: handle_ctrl_registrations_def h1 flags_ok_def intro!: set_flag_ok)
  obtain a2 c2 where h2: "handle_generic_flag_change (allow_file_transfers_flag (ct_cfg c)) tokens c = (a2, c2)" by fastforce
  show "cmd_ok K c (Some (handle_ctrl_filetransfers tokens c))"
    using flag_change [OF h2] assms bit [of a2]
    by (auto simp: handle_ctrl_filetransfers_def h2 flags_ok_def intro!: set_flag_ok)
  obtain a3 c3 where h3: "handle_generic_flag_change (use_ip_whitelist (ct_cfg c)) tokens c = (a3, c3)" by fastforce
  show "cmd_ok K c (Some (handle_ctrl_whitelist_use tokens c))"
    using flag_change [OF h3] assms bit [of a3]
    by (auto simp: handle_ctrl_whitelist_use_def h3 flags_ok_def intro!: set_flag_ok)
  show "cmd_ok K c (Some (handle_ctrl_filesize tokens c))"
    using assms by (auto simp: handle_ctrl_filesize_def flags_ok_def split: option.split list.split bool.split intro!: set_flag_ok)
  show "cmd_ok K c (Some (handle_ctrl_set_log tokens c))"
    using assms by (auto simp: handle_ctrl_set_log_def dzlog_ctrl_def split: option.split intro!: set_flag_ok)
      (simp_all add: ctrl_ok_def)
qed

lemma show_ok:
  assumes "ctrl_ok K c" and "K \<le> 2 ^ 26"
  shows "cmd_ok K c (handle_ctrl_show tokens c)"
proof -
  have b: "book_ok K (std_recs c) (std_ipblock_tbl c) (ct_next c)" "book_ok K (reg_recs c) (reg_ipblock_tbl c) (ct_next c)"
    "book_ok K (wl_recs c) (ip_whitelist_tbl c) (ct_next c)" "ht_ok name_ok (ct_nds c) (std_cl_tbl c)"
    using assms(1) by (simp_all add: ctrl_ok_def)
  have logged: "cmd_ok K c (Some (dzlog_ctrl fmt args c))" for fmt args using assms(1) by auto
  have peers: "cmd_ok K c (show_peers name recs ht c)" if "book_ok K recs ht nxt" for name recs ht nxt
    using show_peers_returns [OF that assms(2), of name c] logged by auto
  have "cmd_ok K c (show_connected c)"
    using user_list_copied [OF b(4), of "ct_cls c"] logged by (auto simp: show_connected_def split: prod.split)
  then show ?thesis
    using assms(1) logged peers [OF b(1)] peers [OF b(2)] peers [OF b(3)] by (auto simp: handle_ctrl_show_def Let_def)
qed

lemma help_ok: "handle_ctrl_help c = Some (dzlog_ctrl (''List of commands and usage:'' @ NEWLINE @ ''%s'')
    [Str (lit (concat (map (\<lambda>(_, _, man). man) commands)))] c)"
proof -
  have "length (concat (map (\<lambda>(_, _, man). man) commands)) + 1 \<le> length commands * 256" by code_simp
  then show ?thesis by (simp add: handle_ctrl_help_def lit_def)
qed

lemma run_cmd_ok:
  assumes "ctrl_ok K c" and "K \<le> 2 ^ 26" and "length tokens \<le> 20" and "cmd \<noteq> C_shutdown_server"
  shows "cmd_ok (K + 19) c (run_cmd cmd tokens c)"
proof -
  have more: "cmd_ok (K + 19) c r" if "cmd_ok K c r" for r
    using that ctrl_ok_mono [where K = K and K' = "K + 19"] by (auto simp: cmd_ok_def)
  have "cmd_ok K c (handle_ctrl_help c)" using assms(1) by (auto simp: help_ok)
  then show ?thesis
    using assms(4) more ctrl_ok_mono [where K = K and K' = "K + 19"] block_commands_ok [OF assms(1,3)] unblock_commands_ok [OF assms(1)] flag_commands_ok [OF assms(1)]
      show_ok [OF assms(1,2)]
    by (cases cmd) (simp_all add: run_cmd_def)
qed

lemma process_cmd_ok:
  assumes "ctrl_ok K c" and "K \<le> 2 ^ 26" and "length tokens \<le> 20"
  shows "\<exists>r c'. ctrl_process_cmd tokens c = Some (r, c') \<and> ctrl_ok (K + 19) c' \<and>
    flg_shutdown c' = (if r then flg_shutdown c else Suc (flg_shutdown c))"
proof -
  have c: "ctrl_ok (K + 19) c" by (rule ctrl_ok_mono [OF assms(1)]) simp
  define found where "found = List.find (\<lambda>(_, name, _). tokens ! 0 = lit name) commands"
  have e: "ctrl_process_cmd tokens c =
      (if tokens = [] then Some (True, dzlog_ctrl ''Invalid ctrl input.'' [] c)
       else case found of
         None \<Rightarrow> Some (True, dzlog_ctrl ''Invalid command: %s'' [Str (tokens ! 0)] c)
       | Some (cmd, _, _) \<Rightarrow> map_option (\<lambda>c. (cmd \<noteq> C_shutdown_server, c)) (run_cmd cmd tokens c))"
    by (simp only: ctrl_process_cmd_def found_def)
  show ?thesis
  proof (cases found)
    case None
    then show ?thesis using c unfolding e by auto
  next
    case (Some f)
    obtain cmd nm man where f: "found = Some (cmd, nm, man)" using Some by (cases f) simp
    show ?thesis
    proof (cases "cmd = C_shutdown_server")
      case True
      have "ctrl_ok (K + 19) (handle_ctrl_shutdown_server c)" using c by (simp add: handle_ctrl_shutdown_server_def ctrl_ok_def dzlog_ctrl_def)
      then show ?thesis using c True unfolding e f by (auto simp: run_cmd_def handle_ctrl_shutdown_server_def)
    next
      case False
      from run_cmd_ok [OF assms False] show ?thesis using c False unfolding e f by (auto simp: cmd_ok_def)
    qed
  qed
qed

subsection \<open>The loop\<close>

lemma parsed_input:
  assumes "ctrl_parse_input inp c = (r, inp', c')"
  shows "ctrl_ok K c' = ctrl_ok K c" and "flg_shutdown c' = flg_shutdown c"
    and "r = Some tokens \<Longrightarrow> length tokens \<le> 20 \<and> length inp' < length inp"
proof -
  show "ctrl_ok K c' = ctrl_ok K c" "flg_shutdown c' = flg_shutdown c"
    using assms by (auto simp: ctrl_parse_input_def Let_def split: option.splits prod.splits)
  assume r: "r = Some tokens"
  obtain line rest where f: "fgets CTRL_LINE_SIZE inp = Some (line, rest)"
    using assms r by (auto simp: ctrl_parse_input_def split: option.splits)
  define l where "l = cstr (normalize_string ((case strrchr (cstr line) 10 of Some newline \<Rightarrow> take newline (cstr line) | None \<Rightarrow> cstr line) @ [0]))"
  obtain line' toks where t: "cmdparse_tokenize l MAX_TOKENS_PER_LINE = (line', toks)" by fastforce
  have "0 \<notin> set l" unfolding l_def by (rule no_NUL_cstr)
  then have "int (length toks) \<le> max 0 20" using tokenize_texts [of l 20] t by simp
  moreover have "tokens = map (cstr_at line') toks" "inp' = rest"
    using assms r by (simp_all add: ctrl_parse_input_def f Let_def l_def [symmetric] t)
  moreover have "length rest < length inp" using f by (auto simp: fgets_def Let_def split: if_splits)
  ultimately show "length tokens \<le> 20 \<and> length inp' < length inp" by simp
qed

text \<open>What other threads do: they add at most \<open>d\<close> records to each table, keep the invariant and do not stop the server.\<close>

definition others_behave :: "nat \<Rightarrow> (ctrl \<Rightarrow> ctrl) list \<Rightarrow> bool" where
  "others_behave d env \<longleftrightarrow> (\<forall>e \<in> set env. \<forall>K c. ctrl_ok K c \<longrightarrow> ctrl_ok (K + d) (e c) \<and> flg_shutdown (e c) = flg_shutdown c)"

lemma ctrl_loop_ok:
  assumes "ctrl_ok K c" and "others_behave d env" and "K + (d + 19) * Suc (length inp) \<le> 2 ^ 26"
  shows "\<exists>c'. ctrl_loop env inp c = Some c' \<and> ctrl_ok (K + (d + 19) * Suc (length inp)) c' \<and> flg_shutdown c' = Suc (flg_shutdown c)"
  using assms
proof (induction "length inp" arbitrary: env inp c K rule: less_induct)
  case less
  define c0 where "c0 = (case env of [] \<Rightarrow> c | e # _ \<Rightarrow> e c)"
  have c0: "ctrl_ok (K + d) c0" "flg_shutdown c0 = flg_shutdown c"
    using less.prems(1,2) ctrl_ok_mono [OF less.prems(1), of "K + d"] by (auto simp: c0_def others_behave_def split: list.split)
  have env: "others_behave d (tl env)" using less.prems(2) by (cases env) (auto simp: others_behave_def)
  obtain r inp' c1 where p: "ctrl_parse_input inp c0 = (r, inp', c1)" by (cases "ctrl_parse_input inp c0") auto
  note q = parsed_input [OF p]
  have c1: "ctrl_ok (K + d) c1" "flg_shutdown c1 = flg_shutdown c" using q(1) c0 q(2) by simp_all
  show ?case
  proof (cases r)
    case None
    define c' where "c' = (dzlog_ctrl ''Control interface read failure. Shutting down.'' [] c1)\<lparr>flg_shutdown := flg_shutdown c1 + 1\<rparr>"
    have "ctrl_loop env inp c = Some c'"
      using p None by (subst ctrl_loop.simps) (simp add: c0_def [symmetric] c'_def)
    moreover have "ctrl_ok (K + d) c'" using c1 by (simp add: c'_def ctrl_ok_def dzlog_ctrl_def)
    then have "ctrl_ok (K + (d + 19) * Suc (length inp)) c'" by (rule ctrl_ok_mono) simp
    ultimately show ?thesis using c1 by (simp add: c'_def)
  next
    case (Some tokens)
    have bound: "K + d \<le> 2 ^ 26" using less.prems(3) by simp
    obtain go c2 where run: "ctrl_process_cmd tokens c1 = Some (go, c2)" "ctrl_ok (K + d + 19) c2"
      "flg_shutdown c2 = (if go then flg_shutdown c1 else Suc (flg_shutdown c1))"
      using process_cmd_ok [OF c1(1) bound, of tokens] q(3) [OF Some] by blast
    have step: "ctrl_loop env inp c = (if go then ctrl_loop (tl env) inp' c2 else Some c2)"
      using p Some run(1) by (subst ctrl_loop.simps) (simp add: c0_def [symmetric])
    show ?thesis
    proof (cases go)
      case True
      have "(d + 19) * Suc (length inp') \<le> (d + 19) * length inp" using q(3) [OF Some] by (intro mult_le_mono2) simp
      then have le: "K + d + 19 + (d + 19) * Suc (length inp') \<le> K + (d + 19) * Suc (length inp)" by simp
      then have "K + d + 19 + (d + 19) * Suc (length inp') \<le> 2 ^ 26" using less.prems(3) by (rule le_trans)
      from less.hyps [OF _ run(2) env this] obtain c' where
        "ctrl_loop (tl env) inp' c2 = Some c'" "ctrl_ok (K + d + 19 + (d + 19) * Suc (length inp')) c'"
        "flg_shutdown c' = Suc (flg_shutdown c2)" using q(3) [OF Some] by blast
      then show ?thesis using step True run(3) c1(2) ctrl_ok_mono [OF _ le] by auto
    next
      case False
      have "ctrl_ok (K + (d + 19) * Suc (length inp)) c2" by (rule ctrl_ok_mono [OF run(2)]) simp
      then show ?thesis using step False run(3) c1(2) by auto
    qed
  qed
qed

subsection \<open>Examples\<close>

definition idle_ctrl :: ctrl where
  "idle_ctrl = \<lparr>ct_cfg = get_default_cfg, ct_cls = example_clients, ct_nds = example_nodes, std_cl_tbl = example_ht,
     std_ipblock_tbl = empty_ip_ht, std_recs = (\<lambda>_. std_ipb_rec_create (Timespec 0 0) 0 False),
     reg_ipblock_tbl = empty_ip_ht, reg_recs = (\<lambda>_. reg_ipb_rec_create (Timespec 0 0) 0 RSN_MANUAL),
     ip_whitelist_tbl = empty_ip_ht, wl_recs = (\<lambda>_. whitelist_rec_create 0), ct_next = 1, ct_now = Timespec 0 0,
     flg_reg_changed = 0, flg_shutdown = 0, zct = ZLOG_DEBUG, ct_log = []\<rparr>"

lemma idle_ctrl_ok: "ctrl_ok 0 idle_ctrl"
  using example_ht_ok
  by (simp add: ctrl_ok_def idle_ctrl_def book_ok_def empty_ip_table flags_ok_def get_default_cfg_def)

subsection \<open>The properties\<close>

text \<open>C28. The control interface is safe: whatever bytes are written into the FIFO and whatever the other threads do to
  the tables between two commands, the loop of the main thread comes to its end without a failure, the tables and the
  flags of the configuration keep their invariants, and the threads have been told once to stop, by the command
  \<open>shutdown_server\<close> or because the FIFO cannot be read any more. The tables are bounded so that a listing fits into
  4 GiB, as \<open>node_copy_peername\<close> needs it.\<close>

theorem control_interface_safe:
  assumes "ctrl_ok K c" and "others_behave d env" and "K + (d + 19) * Suc (length inp) \<le> 2 ^ 26"
  shows "\<exists>c'. ctrl_loop env inp c = Some c' \<and> ctrl_ok (K + (d + 19) * Suc (length inp)) c' \<and> flg_shutdown c' = Suc (flg_shutdown c)"
  by (rule ctrl_loop_ok [OF assms])

theorem control_interface_safe_witness:
  "\<exists>c'. ctrl_loop [id] (lit ''std_ipblock 10.0.0.7'' @ [10] @ lit ''show std_ipblock_list'') idle_ctrl = Some c' \<and> flg_shutdown c' = 1"
proof -
  let ?inp = "lit ''std_ipblock 10.0.0.7'' @ [10] @ lit ''show std_ipblock_list''"
  have "others_behave 0 [id]" by (simp add: others_behave_def)
  moreover have "0 + (0 + 19) * Suc (length ?inp) \<le> 2 ^ 26" by (simp add: lit_def)
  ultimately have "\<exists>c'. ctrl_loop [id] ?inp idle_ctrl = Some c' \<and> ctrl_ok (0 + (0 + 19) * Suc (length ?inp)) c' \<and>
      flg_shutdown c' = Suc (flg_shutdown idle_ctrl)"
    by (rule control_interface_safe [OF idle_ctrl_ok])
  then show ?thesis by (auto simp: idle_ctrl_def)
qed

text \<open>The addresses blocked from logging in.\<close>

abbreviation (input) std_book_of :: "ctrl \<Rightarrow> u32 \<Rightarrow> std_ipb_rec option" where
  "std_book_of c \<equiv> peer_record (std_recs c) (std_ipblock_tbl c)"

lemma std_block_returns:
  assumes "ctrl_ok K c" and "ts \<noteq> []"
  shows "\<exists>c'. handle_ctrl_std_ipblock (cmd # ts) c = Some c' \<and> ctrl_ok (K + length ts) c' \<and>
    std_book_of c' = blocked_book (\<lambda>p. std_ipb_rec_create (ct_now c) p True) (arg_peers ts) (std_book_of c)"
proof -
  have b: "book_ok K (std_recs c) (std_ipblock_tbl c) (ct_next c)" using assms(1) by (simp add: ctrl_ok_def)
  have l: "\<not> length (cmd # ts) < 2" using assms(2) by (cases ts) simp_all
  obtain a recs ht ms where r: "block_all (\<lambda>p. std_ipb_rec_create (ct_now c) p True) cmd ts (ct_next c) (std_recs c) (std_ipblock_tbl c) =
      Some (a, recs, ht, ms)" "book_ok (K + length ts) recs ht a" "ct_next c \<le> a"
    "peer_record recs ht = blocked_book (\<lambda>p. std_ipb_rec_create (ct_now c) p True) (arg_peers ts) (std_book_of c)"
    using std_maker.block_all_ok [OF b] by blast
  have "ctrl_ok (K + length ts) (c\<lparr>ct_next := a, std_recs := recs, std_ipblock_tbl := ht\<rparr>)"
    by (rule set_books(1) [OF assms(1) _ r(3,2)]) simp
  then show ?thesis using r(1,4) l by (simp add: handle_ctrl_std_ipblock_def) (simp add: log_all_def)
qed

lemma std_unblock_returns:
  assumes "ctrl_ok K c" and "ts \<noteq> []"
  shows "\<exists>c'. handle_ctrl_std_unblock (cmd # ts) c = Some c' \<and>
    std_book_of c' = (\<lambda>p. if p \<in> set (arg_peers ts) then None else std_book_of c p)"
proof -
  have b: "book_ok K (std_recs c) (std_ipblock_tbl c) (ct_next c)" using assms(1) by (simp add: ctrl_ok_def)
  have l: "\<not> length (cmd # ts) < 2" using assms(2) by (cases ts) simp_all
  from unblock_all_ok [OF b, of cmd ts] l show ?thesis by (auto simp: handle_ctrl_std_unblock_def log_all_def)
qed

text \<open>C29. The commands \<open>std_ipblock\<close> and \<open>std_unblock\<close> do what they say: on arguments as \<open>show\<close> prints them, the first
  gives every address that has no record one that blocks it at all times, and changes no other record; the second
  then removes the records of the addresses and leaves all others. (The address 255.255.255.255 cannot be named.)\<close>

theorem block_commands_correct:
  assumes "ctrl_ok K c" and "ps \<noteq> []" and "INADDR_NONE \<notin> set ps"
  shows "\<exists>c' c''. handle_ctrl_std_ipblock (cmd # map inet_ntop ps) c = Some c' \<and> handle_ctrl_std_unblock (cmd' # map inet_ntop ps) c' = Some c'' \<and>
    (\<forall>p. std_book_of c p \<noteq> None \<or> p \<notin> set ps \<longrightarrow> std_book_of c' p = std_book_of c p) \<and>
    (\<forall>p \<in> set ps. std_book_of c p = None \<longrightarrow> (\<forall>t. block_status (chk_std_block t) (std_book_of c') p = RS_BLOCKED)) \<and>
    std_book_of c'' = (\<lambda>p. if p \<in> set ps then None else std_book_of c p)"
proof -
  have ts: "map inet_ntop ps \<noteq> []" using assms(2) by simp
  obtain c' where c': "handle_ctrl_std_ipblock (cmd # map inet_ntop ps) c = Some c'" "ctrl_ok (K + length (map inet_ntop ps)) c'"
    "std_book_of c' = blocked_book (\<lambda>p. std_ipb_rec_create (ct_now c) p True) ps (std_book_of c)"
    using std_block_returns [OF assms(1) ts, of cmd] arg_peers_printed [OF assms(3)] by auto
  obtain c'' where c'': "handle_ctrl_std_unblock (cmd' # map inet_ntop ps) c' = Some c''"
    "std_book_of c'' = (\<lambda>p. if p \<in> set ps then None else std_book_of c' p)"
    using std_unblock_returns [OF c'(2) ts, of cmd'] arg_peers_printed [OF assms(3)] by auto
  have "std_book_of c'' = (\<lambda>p. if p \<in> set ps then None else std_book_of c p)"
    by (auto simp: fun_eq_iff c''(2) c'(3) blocked_book_def)
  then show ?thesis using c'(1) c''(1)
    by (intro exI [of _ c'] exI [of _ c'']) (auto simp: c'(3) blocked_book_def block_status_def chk_std_block_def std_ipb_rec_create_def)
qed

theorem block_commands_correct_witness:
  "\<exists>c'. handle_ctrl_std_ipblock [lit ''std_ipblock'', inet_ntop 7] idle_ctrl = Some c' \<and>
     block_status (chk_std_block (Timespec 1000000 0)) (std_book_of c') 7 = RS_BLOCKED"
proof -
  have "std_book_of idle_ctrl 7 = None"
    by (simp add: idle_ctrl_def peer_record_def ip_find_def ht_map_def empty_ip_ht_def)
  then show ?thesis
    using block_commands_correct [OF idle_ctrl_ok, of "[7]" "lit ''std_ipblock''" "lit ''std_unblock''"] by auto
qed

text \<open>C30. An address that has a record cannot be blocked: after one failed login an address has a record that does not
  block; \<open>std_ipblock\<close> then changes nothing (it reports that the record is present), and the address is let in as before.\<close>

theorem manual_block_ignored:
  assumes "ctrl_ok K c" and "p \<noteq> INADDR_NONE" and "std_book_of c p = Some r" and "chk_std_block t r \<noteq> RS_BLOCKED"
  shows "\<exists>c'. handle_ctrl_std_ipblock [cmd, inet_ntop p] c = Some c' \<and> std_book_of c' = std_book_of c \<and>
    (\<exists>recs ht. check_block (chk_std_block t) p (std_recs c') (std_ipblock_tbl c') = Some (True, recs, ht))"
proof -
  obtain c' where c': "handle_ctrl_std_ipblock [cmd, inet_ntop p] c = Some c'" "ctrl_ok (K + 1) c'"
    "std_book_of c' = blocked_book (\<lambda>p. std_ipb_rec_create (ct_now c) p True) [p] (std_book_of c)"
    using std_block_returns [OF assms(1), of "[inet_ntop p]" cmd] arg_peers_printed [of "[p]"] assms(2) by auto
  then have same: "std_book_of c' = std_book_of c" using assms(3) by (auto simp: fun_eq_iff blocked_book_def)
  have "ip_table (std_recs c') (std_ipblock_tbl c')" using c'(2) by (simp add: ctrl_ok_def book_ok_def)
  from std_book.check_block_ok [OF this, of t p] have
    "\<exists>recs ht. check_block (chk_std_block t) p (std_recs c') (std_ipblock_tbl c') = Some (True, recs, ht)"
    using assms(3,4) by (auto simp: same block_status_def)
  then show ?thesis using c'(1) same by blast
qed

theorem manual_block_ignored_witness:
  "\<exists>c c'. std_book_of c 7 = Some (std_ipb_rec_create (Timespec 0 0) 7 False) \<and>
     handle_ctrl_std_ipblock [lit ''std_ipblock'', inet_ntop 7] c = Some c' \<and>
     (\<exists>recs ht. check_block (chk_std_block (Timespec 60 0)) 7 (std_recs c') (std_ipblock_tbl c') = Some (True, recs, ht))"
proof -
  obtain used recs ht where n: "ip_table recs ht" "ht_nodes ht \<subseteq> ht_nodes empty_ip_ht \<union> (if used then {1} else {})"
    "peer_record recs ht = (peer_record (std_recs idle_ctrl) empty_ip_ht)(7 \<mapsto>
      (case peer_record (std_recs idle_ctrl) empty_ip_ht 7 of None \<Rightarrow> std_ipb_rec_create (Timespec 0 0) 7 False | Some r \<Rightarrow> bump_auth r))"
    using std_book.note_peer_ok [where recs = "std_recs idle_ctrl" and ht = empty_ip_ht and a = 1 and peer = 7 and
      t = "Timespec 0 0" and discard = "\<lambda>s _. s", OF empty_ip_table] by auto
  define c where "c = idle_ctrl\<lparr>ct_next := 2, std_recs := recs, std_ipblock_tbl := ht\<rparr>"
  have none: "peer_record (std_recs idle_ctrl) empty_ip_ht 7 = None"
    by (simp add: peer_record_def ip_find_def ht_map_def empty_ip_ht_def)
  have sub: "ht_nodes ht \<subseteq> {1}" using n(2) by (auto split: if_splits)
  then have "card (ht_nodes ht) \<le> card {1 :: nat}" by (intro card_mono) simp_all
  then have "book_ok 1 recs ht 2" using n(1) sub by (auto simp: book_ok_def)
  then have ok: "ctrl_ok 1 c" unfolding c_def by (intro set_books(1) [OF idle_ctrl_ok]) (simp_all add: idle_ctrl_def)
  have r: "std_book_of c 7 = Some (std_ipb_rec_create (Timespec 0 0) 7 False)" by (simp add: c_def n(3) none)
  have "chk_std_block (Timespec 60 0) (std_ipb_rec_create (Timespec 0 0) 7 False) \<noteq> RS_BLOCKED"
    by (simp add: chk_std_block_def std_ipb_rec_create_def word_le_nat_alt)
  from manual_block_ignored [OF ok _ r this, of "lit ''std_ipblock''"] r show ?thesis by auto
qed

end
