(* ===== verification/Servmain.thy ===== *)
theory Servmain
  imports Thrdctx Ctrlprops
begin

text \<open>
  The life of the server, \<open>main\<close> of \<open>server/server.c\<close>: the start in its order, the control interface, and the end, which
  undoes what has been done up to the point where a failure occurred. The labels of the cleanup are functions, each of
  which falls through to the next. What the libraries and the system answer is a record of answers; what the commands
  and the other threads do while the server runs are \<open>ctrl_loop\<close> and its arguments.
\<close>

subsection \<open>The program\<close>

record answers =
  a_config :: "json_object option"
  a_zlog :: bool
  a_alpn :: int
  a_chain :: int
  a_key :: int
  a_check :: int
  a_ssl_ctx :: addr
  a_interfaces :: "u32 option list option"
  a_shutdown_efd :: int
  a_nprocs :: int
  a_whitelist_locks :: bool
  a_std_locks :: bool
  a_client_locks :: bool
  a_reg_db :: db_open
  a_reg_efd :: int
  a_worker_db :: "nat \<Rightarrow> db_open"
  a_reg_thrd :: bool
  a_worker_thrd :: "nat \<Rightarrow> bool"
  a_ctrl_if :: bool
  a_others :: "(ctrl \<Rightarrow> ctrl) list"
  a_commands :: "byte list"
  a_memory :: ctrl

record server =
  sv_cfg :: serv_cfg
  sv_zlog :: bool
  sv_res :: resources
  sv_thrds :: nat
  sv_verdict :: "bool option"
  sv_stop :: nat
  sv_saved :: "json_object option"

definition upd_res :: "(resources \<Rightarrow> resources) \<Rightarrow> server \<Rightarrow> server" where
  "upd_res f s = s\<lparr>sv_res := f (sv_res s)\<rparr>"

text \<open>The labels, from the last to the first. \<open>htable_delete\<close> asserts that it gets a table.\<close>

definition zlog_init_fail :: "int \<Rightarrow> server \<Rightarrow> (int \<times> server) option" where
  "zlog_init_fail ret s = Some (ret, s\<lparr>sv_saved := Some (save_cfg (sv_cfg s))\<rparr>)"

definition cfg_init_fail :: "int \<Rightarrow> addr option \<Rightarrow> server \<Rightarrow> (int \<times> server) option" where
  "cfg_init_fail ret ssl_ctx s =
     (let s = s\<lparr>sv_zlog := False\<rparr>;
          s = (if ssl_ctx \<noteq> None then upd_res (ssl_refs_update (\<lambda>n. n - 1)) s else s)
      in zlog_init_fail ret s)"

definition delete_table :: "htable option \<Rightarrow> server \<Rightarrow> server option" where
  "delete_table tbl s = (case tbl of None \<Rightarrow> None | Some _ \<Rightarrow> Some (upd_res (tables_update (\<lambda>n. n - 1)) s))"

definition reg_thrd_ctx_init_fail :: "int \<Rightarrow> addr option \<Rightarrow> reg_thrd_ctx \<Rightarrow> htable option \<Rightarrow> server \<Rightarrow> (int \<times> server) option" where
  "reg_thrd_ctx_init_fail ret ssl_ctx rt_ctx whitelist s = do {
     s \<leftarrow> delete_table whitelist (upd_res (reg_ctx_free rt_ctx) s);
     cfg_init_fail ret ssl_ctx (upd_res (open_efds_update (\<lambda>n. n - 1)) s) }"

definition wrk_thrd_ctx_init_fail ::
  "int \<Rightarrow> addr option \<Rightarrow> reg_thrd_ctx \<Rightarrow> htable option \<Rightarrow> htable option \<Rightarrow> htable option \<Rightarrow> worker_thrd_ctx list \<Rightarrow> nat \<Rightarrow>
    server \<Rightarrow> (int \<times> server) option" where
  "wrk_thrd_ctx_init_fail ret ssl_ctx rt_ctx whitelist std_tbl client_tbl wt_ctx init_cnt s = do {
     s \<leftarrow> delete_table client_tbl (upd_res (worker_ctx_free wt_ctx init_cnt) s);
     s \<leftarrow> delete_table std_tbl s;
     reg_thrd_ctx_init_fail ret ssl_ctx rt_ctx whitelist s }"

text \<open>\<open>pthread_join\<close> returns when the thread has returned: a thread does when the synchronised start has failed or when it
  has been told to stop; otherwise the server would hang here.\<close>

definition join_thrds :: "server \<Rightarrow> server option" where
  "join_thrds s = (if sv_thrds s = 0 \<or> sv_verdict s = Some False \<or> 0 < sv_stop s then Some (s\<lparr>sv_thrds := 0\<rparr>) else None)"

text \<open>The threads that \<open>pthread_create\<close> launches: the registration thread, and workers up to the first failure.\<close>

definition launched_workers :: "answers \<Rightarrow> nat \<Rightarrow> nat" where
  "launched_workers a n = length (takeWhile (a_worker_thrd a) [0..<n])"

text \<open>The control interface: the context of the commands has the tables of the threads.\<close>

definition serve_ctrl :: "answers \<Rightarrow> reg_thrd_ctx \<Rightarrow> htable option \<Rightarrow> htable option \<Rightarrow> htable option \<Rightarrow> server \<Rightarrow> server option" where
  "serve_ctrl a rt_ctx whitelist std_tbl client_tbl s =
     (if a_ctrl_if a
      then do {
        wl \<leftarrow> whitelist; std \<leftarrow> std_tbl; cl \<leftarrow> client_tbl; rt \<leftarrow> rt_ipblock_tbl rt_ctx;
        c \<leftarrow> ctrl_loop (a_others a) (a_commands a) ((a_memory a)
          \<lparr>ct_cfg := sv_cfg s, std_cl_tbl := cl, std_ipblock_tbl := std, reg_ipblock_tbl := rt, ip_whitelist_tbl := wl,
           ctrl.flg_reg_changed := 0, flg_shutdown := 0, zct := ZLOG_DEBUG\<rparr>);
        Some (s\<lparr>sv_cfg := ct_cfg c, sv_stop := flg_shutdown c\<rparr>) }
      else Some (s\<lparr>sv_stop := 1\<rparr>))"

definition run_thrds ::
  "answers \<Rightarrow> addr option \<Rightarrow> reg_thrd_ctx \<Rightarrow> htable option \<Rightarrow> htable option \<Rightarrow> htable option \<Rightarrow> worker_thrd_ctx list \<Rightarrow> nat \<Rightarrow>
    server \<Rightarrow> (int \<times> server) option" where
  "run_thrds a ssl_ctx rt_ctx whitelist std_tbl client_tbl wt_ctx n s =
     (let i = launched_workers a n;
          ok = (a_reg_thrd a \<and> i = n);
          s = s\<lparr>sv_thrds := of_bool (a_reg_thrd a) + i,
                sv_verdict := verdict (coord_thrd_startup_sync ok sync_init)\<rparr>
      in do {
        s \<leftarrow> (if ok then serve_ctrl a rt_ctx whitelist std_tbl client_tbl s else Some s);
        s \<leftarrow> join_thrds s;
        wrk_thrd_ctx_init_fail (if ok then 0 else ERROR) ssl_ctx rt_ctx whitelist std_tbl client_tbl wt_ctx n s })"

text \<open>The number of processors is stored in eight bits.\<close>

definition num_worker_threads :: "answers \<Rightarrow> serv_cfg \<Rightarrow> nat" where
  "num_worker_threads a cfg =
     unat (if autoconf_nr_threads cfg \<noteq> 0 then word_of_int (a_nprocs a) :: byte else nr_worker_threads cfg)"

definition start_contexts :: "answers \<Rightarrow> addr option \<Rightarrow> server \<Rightarrow> (int \<times> server) option" where
  "start_contexts a ssl_ctx s =
     (let cfg = sv_cfg s; n = num_worker_threads a cfg; efd = a_shutdown_efd a in do {
        whitelist \<leftarrow> htable_create 10 1 100 10 ip_cmp (a_whitelist_locks a);
        std_tbl \<leftarrow> htable_create 10 1 100 10 ip_cmp (a_std_locks a);
        client_tbl \<leftarrow> htable_create (unat (cl_htable_size_pow2 cfg)) (unat (cl_htable_expansion_pow2 cfg))
          (unat (cl_htable_loadfactor_exp_thres cfg)) (unat (cl_htable_locks_pow2 cfg)) std_client_cmp (a_client_locks a);
        let s = upd_res (\<lambda>rs. rs\<lparr>open_efds := open_efds rs + 1,
          tables := tables rs + of_bool (whitelist \<noteq> None) + of_bool (std_tbl \<noteq> None) + of_bool (client_tbl \<noteq> None)\<rparr>) s;
        let (res, rt_ctx, rs) = reg_ctx_init (a_reg_db a) (a_reg_efd a) (ssl_ctx \<noteq> None) efd (sv_res s);
        let s = s\<lparr>sv_res := rs\<rparr>;
        if \<not> res then reg_thrd_ctx_init_fail ERROR ssl_ctx rt_ctx whitelist s
        else
          let (init_cnt, wt_ctx, rs) = worker_ctx_init n (a_worker_db a) (ssl_ctx \<noteq> None) efd (sv_res s);
              s = s\<lparr>sv_res := rs\<rparr>
          in if init_cnt < n then wrk_thrd_ctx_init_fail ERROR ssl_ctx rt_ctx whitelist std_tbl client_tbl wt_ctx init_cnt s
             else run_thrds a ssl_ctx rt_ctx whitelist std_tbl client_tbl wt_ctx init_cnt s })"

definition server_main :: "answers \<Rightarrow> (int \<times> server) option" where
  "server_main a =
     (let s = \<lparr>sv_cfg = load_cfg (a_config a), sv_zlog = False, sv_res = \<lparr>ssl_refs = 0, open_dbs = 0, open_efds = 0, tables = 0\<rparr>,
              sv_thrds = 0, sv_verdict = None, sv_stop = 0, sv_saved = None\<rparr>
      in if \<not> a_zlog a then zlog_init_fail ERROR s
         else
           let ssl_ctx = setup_tls (sv_cfg s) (a_alpn a) (a_chain a) (a_key a) (a_check a) (a_ssl_ctx a);
               s = s\<lparr>sv_zlog := True, sv_cfg := load_netfns (sv_cfg s)\<rparr>;
               s = upd_res (\<lambda>rs. rs\<lparr>ssl_refs := of_bool (ssl_ctx \<noteq> None)\<rparr>) s
           in if serv_cfg.use_tls (sv_cfg s) \<noteq> 0 \<and> ssl_ctx = None then cfg_init_fail ERROR ssl_ctx s
              else if \<not> is_if_valid (a_interfaces a) (inet_addr (cstr (gen_interface (sv_cfg s)))) then cfg_init_fail ERROR ssl_ctx s
              else if a_shutdown_efd a = ERROR then cfg_init_fail ERROR ssl_ctx s
              else start_contexts a ssl_ctx s)"

subsection \<open>What is left at the end\<close>

definition ended :: "nat \<Rightarrow> server \<Rightarrow> bool" where
  "ended lost s \<longleftrightarrow> sv_thrds s = 0 \<and> \<not> sv_zlog s \<and> sv_res s = \<lparr>ssl_refs = 0, open_dbs = 0, open_efds = 0, tables = lost\<rparr> \<and>
     sv_saved s = Some (save_cfg (sv_cfg s))"

text \<open>What the registration context and \<open>main\<close> hold, besides \<open>t\<close> tables.\<close>

definition held_res :: "reg_thrd_ctx \<Rightarrow> addr option \<Rightarrow> nat \<Rightarrow> resources" where
  "held_res rt_ctx ssl_ctx t =
     \<lparr>ssl_refs = of_bool (ssl_ctx \<noteq> None) + of_bool (ssl_ctx \<noteq> None), open_dbs = of_bool (rt_db rt_ctx),
      open_efds = 1 + of_bool (reg_thrd_ctx.flg_reg_changed rt_ctx \<noteq> ERROR), tables = Suc (Suc t)\<rparr>"

lemma cfg_end:
  assumes "sv_thrds s = 0" and "sv_res s = \<lparr>ssl_refs = of_bool (ssl_ctx \<noteq> None), open_dbs = 0, open_efds = 0, tables = t\<rparr>"
  shows "\<exists>s'. cfg_init_fail ret ssl_ctx s = Some (ret, s') \<and> ended t s' \<and> sv_cfg s' = sv_cfg s"
  using assms by (cases ssl_ctx) (auto simp: cfg_init_fail_def zlog_init_fail_def upd_res_def ended_def Let_def)

lemma reg_end:
  assumes "sv_thrds s = 0" and "sv_res s = held_res rt_ctx ssl_ctx t" and "rt_ipblock_tbl rt_ctx \<noteq> None" and "rt_ssl rt_ctx = (ssl_ctx \<noteq> None)"
  shows "\<exists>s'. reg_thrd_ctx_init_fail ret ssl_ctx rt_ctx (Some wl) s = Some (ret, s') \<and> ended t s' \<and> sv_cfg s' = sv_cfg s"
proof -
  define s1 where "s1 = s\<lparr>sv_res := \<lparr>ssl_refs = of_bool (ssl_ctx \<noteq> None), open_dbs = 0, open_efds = 0, tables = t\<rparr>\<rparr>"
  have "reg_thrd_ctx_init_fail ret ssl_ctx rt_ctx (Some wl) s = cfg_init_fail ret ssl_ctx s1"
    using assms by (simp add: reg_thrd_ctx_init_fail_def delete_table_def upd_res_def held_res_def reg_ctx_free_def s1_def)
  then show ?thesis using cfg_end [of s1 ssl_ctx t ret] assms(1) by (simp add: s1_def)
qed

lemma wrk_end:
  assumes "sv_thrds s = 0" and "worker_ctx_free wt_ctx k (sv_res s) = held_res rt_ctx ssl_ctx 2"
    and "rt_ipblock_tbl rt_ctx \<noteq> None" and "rt_ssl rt_ctx = (ssl_ctx \<noteq> None)"
  shows "\<exists>s'. wrk_thrd_ctx_init_fail ret ssl_ctx rt_ctx (Some wl) (Some std) (Some cl) wt_ctx k s = Some (ret, s') \<and> ended 0 s' \<and>
    sv_cfg s' = sv_cfg s"
proof -
  define s1 where "s1 = s\<lparr>sv_res := held_res rt_ctx ssl_ctx 0\<rparr>"
  have "wrk_thrd_ctx_init_fail ret ssl_ctx rt_ctx (Some wl) (Some std) (Some cl) wt_ctx k s = reg_thrd_ctx_init_fail ret ssl_ctx rt_ctx (Some wl) s1"
    using assms(2) by (simp add: wrk_thrd_ctx_init_fail_def delete_table_def upd_res_def held_res_def s1_def numeral_2_eq_2)
  then show ?thesis using reg_end [of s1 rt_ctx ssl_ctx 0 ret wl] assms by (simp add: s1_def)
qed

text \<open>The tables that \<open>main\<close> creates are empty and well formed.\<close>

lemma new_ip_table:
  "\<exists>ht. htable_create 10 1 100 10 ip_cmp True = Some (Some ht) \<and> book_ok 0 recs ht nxt"
proof -
  obtain ht where h: "htable_create 10 1 100 10 ip_cmp True = Some (Some ht)" "ht_ok ip_valid recs ht" "cmpfn ht = ip_cmp"
    using htable_create_correct [OF ip_order.key_order_axioms, of 100 10 10 1 recs] by auto
  have "ht_nodes ht = {}" using h(1) by (auto simp: htable_create_def ht_nodes_def Let_def)
  then show ?thesis using h by (simp add: book_ok_def ip_table_def)
qed

lemma new_client_table:
  assumes "cfg_in_range cfg"
  shows "\<exists>ht. htable_create (unat (cl_htable_size_pow2 cfg)) (unat (cl_htable_expansion_pow2 cfg))
      (unat (cl_htable_loadfactor_exp_thres cfg)) (unat (cl_htable_locks_pow2 cfg)) std_client_cmp True = Some (Some ht) \<and> ht_ok name_ok nds ht"
proof -
  have b: "unat (cl_htable_size_pow2 cfg) < 64" "unat (cl_htable_expansion_pow2 cfg) < 64" "unat (cl_htable_expansion_pow2 cfg) \<noteq> 0"
    "unat (cl_htable_loadfactor_exp_thres cfg) \<noteq> 0" "unat (cl_htable_locks_pow2 cfg) \<le> unat (cl_htable_size_pow2 cfg)"
    using assms by (auto simp: cfg_in_range_def word_le_nat_alt unat_eq_0)
  show ?thesis using htable_create_correct [OF name_order.key_order_axioms b(4,5,1,3,2)] by blast
qed

text \<open>The registration context.\<close>

lemma reg_init_made:
  assumes "reg_ctx_init db efd_res (ssl_ctx \<noteq> None) shutdown_efd
      \<lparr>ssl_refs = of_bool (ssl_ctx \<noteq> None), open_dbs = 0, open_efds = 1, tables = Suc t\<rparr> = (ok, rt_ctx, rs)"
  shows "ok \<longleftrightarrow> db = Db_ok \<and> efd_res \<noteq> ERROR" and "rs = held_res rt_ctx ssl_ctx t" and "rt_ssl rt_ctx = (ssl_ctx \<noteq> None)"
    and "\<exists>ht. rt_ipblock_tbl rt_ctx = Some ht \<and> book_ok 0 recs ht nxt"
proof -
  obtain ht where h: "htable_create 10 1 100 10 ip_cmp True = Some (Some ht)" "book_ok 0 recs ht nxt" using new_ip_table by blast
  show "ok \<longleftrightarrow> db = Db_ok \<and> efd_res \<noteq> ERROR" "rs = held_res rt_ctx ssl_ctx t" "rt_ssl rt_ctx = (ssl_ctx \<noteq> None)"
    "\<exists>ht. rt_ipblock_tbl rt_ctx = Some ht \<and> book_ok 0 recs ht nxt"
    using assms h by (auto simp: reg_ctx_init_def held_res_def Let_def)
qed

text \<open>The threads run and are joined.\<close>

definition others_harmless :: "answers \<Rightarrow> bool" where
  "others_harmless a \<longleftrightarrow> (\<exists>d. others_behave d (a_others a) \<and> (d + 19) * Suc (length (a_commands a)) \<le> 2 ^ 26)"

definition launched :: "answers \<Rightarrow> nat \<Rightarrow> bool" where
  "launched a n \<longleftrightarrow> a_reg_thrd a \<and> (\<forall>i<n. a_worker_thrd a i)"

lemma launched_all: "launched_workers a n = n \<longleftrightarrow> (\<forall>i<n. a_worker_thrd a i)"
proof -
  have "launched_workers a n = n \<longleftrightarrow> takeWhile (a_worker_thrd a) [0..<n] = [0..<n]"
    unfolding launched_workers_def by (metis diff_zero length_upt takeWhile_eq_take take_all_iff order_refl)
  then show ?thesis by (auto simp: takeWhile_eq_all_conv)
qed

lemma serve_end:
  assumes "others_harmless a" and "flags_ok (sv_cfg s)" and "rt_ipblock_tbl rt_ctx = Some rt"
    and "book_ok 0 (wl_recs (a_memory a)) wl (ct_next (a_memory a))" "book_ok 0 (std_recs (a_memory a)) std (ct_next (a_memory a))"
    and "book_ok 0 (reg_recs (a_memory a)) rt (ct_next (a_memory a))" "ht_ok name_ok (ct_nds (a_memory a)) cl"
  shows "\<exists>s'. serve_ctrl a rt_ctx (Some wl) (Some std) (Some cl) s = Some s' \<and> 0 < sv_stop s' \<and> sv_res s' = sv_res s"
proof (cases "a_ctrl_if a")
  case True
  obtain d where d: "others_behave d (a_others a)" "0 + (d + 19) * Suc (length (a_commands a)) \<le> 2 ^ 26"
    using assms(1) by (auto simp: others_harmless_def)
  define c where "c = (a_memory a)\<lparr>ct_cfg := sv_cfg s, std_cl_tbl := cl, std_ipblock_tbl := std, reg_ipblock_tbl := rt, ip_whitelist_tbl := wl,
    ctrl.flg_reg_changed := 0, flg_shutdown := 0, zct := ZLOG_DEBUG\<rparr>"
  have "ctrl_ok 0 c" using assms(2,4-7) by (simp add: ctrl_ok_def c_def)
  from ctrl_loop_ok [OF this d] show ?thesis
    using True assms(3) unfolding serve_ctrl_def by (auto simp: c_def)
qed (simp add: serve_ctrl_def)

lemma run_end:
  assumes "others_harmless a" and "flags_ok (sv_cfg s)" and "rt_ipblock_tbl rt_ctx = Some rt" and "rt_ssl rt_ctx = (ssl_ctx \<noteq> None)"
    and "book_ok 0 (wl_recs (a_memory a)) wl (ct_next (a_memory a))" "book_ok 0 (std_recs (a_memory a)) std (ct_next (a_memory a))"
    and "book_ok 0 (reg_recs (a_memory a)) rt (ct_next (a_memory a))" "ht_ok name_ok (ct_nds (a_memory a)) cl"
    and "worker_ctx_free wt_ctx n (sv_res s) = held_res rt_ctx ssl_ctx 2"
  shows "\<exists>ret s'. run_thrds a ssl_ctx rt_ctx (Some wl) (Some std) (Some cl) wt_ctx n s = Some (ret, s') \<and> ended 0 s' \<and>
    ret = (if launched a n then 0 else ERROR)"
proof -
  define ok where "ok = (a_reg_thrd a \<and> launched_workers a n = n)"
  have l: "launched a n = ok" by (simp add: launched_def ok_def launched_all)
  define s1 where "s1 = s\<lparr>sv_thrds := of_bool (a_reg_thrd a) + launched_workers a n, sv_verdict := Some ok\<rparr>"
  have "flags_ok (sv_cfg s1)" using assms(2) by (simp add: s1_def)
  from serve_end [OF assms(1) this assms(3,5-8)] obtain s2 where
    s2: "serve_ctrl a rt_ctx (Some wl) (Some std) (Some cl) s1 = Some s2" "0 < sv_stop s2" "sv_res s2 = sv_res s1" by blast
  define s3 where "s3 = (if ok then s2 else s1)\<lparr>sv_thrds := 0\<rparr>"
  have j: "join_thrds (if ok then s2 else s1) = Some s3" using s2(2) by (simp add: join_thrds_def s3_def s1_def)
  have e: "run_thrds a ssl_ctx rt_ctx (Some wl) (Some std) (Some cl) wt_ctx n s =
      wrk_thrd_ctx_init_fail (if ok then 0 else ERROR) ssl_ctx rt_ctx (Some wl) (Some std) (Some cl) wt_ctx n s3"
  proof -
    have v: "verdict (coord_thrd_startup_sync ok sync_init) = Some ok" by (simp add: coord_thrd_startup_sync_def)
    show ?thesis unfolding run_thrds_def Let_def ok_def [symmetric] v s1_def [symmetric] using s2(1) j by (cases ok) simp_all
  qed
  have "sv_res s3 = sv_res s" using s2(3) by (simp add: s3_def s1_def)
  then show ?thesis unfolding e l using wrk_end [of s3 wt_ctx n rt_ctx ssl_ctx] assms(3,4,9) by (fastforce simp: s3_def)
qed

text \<open>How far the start comes.\<close>

definition tls_ready :: "answers \<Rightarrow> bool" where
  "tls_ready a \<longleftrightarrow> serv_cfg.use_tls (load_cfg (a_config a)) = 0 \<or> a_alpn a = 0 \<and> a_chain a = 1 \<and> a_key a = 1 \<and> a_check a = 1"

definition prepared :: "answers \<Rightarrow> bool" where
  "prepared a \<longleftrightarrow> a_zlog a \<and> tls_ready a \<and> is_if_valid (a_interfaces a) (inet_addr (cstr (gen_interface (load_cfg (a_config a))))) \<and>
     a_shutdown_efd a \<noteq> ERROR"

definition reg_ready :: "answers \<Rightarrow> bool" where
  "reg_ready a \<longleftrightarrow> a_reg_db a = Db_ok \<and> a_reg_efd a \<noteq> ERROR"

definition workers_ready :: "answers \<Rightarrow> bool" where
  "workers_ready a \<longleftrightarrow> (\<forall>i < num_worker_threads a (load_cfg (a_config a)). a_worker_db a i = Db_ok)"

lemma contexts_end:
  assumes "others_harmless a" and "a_whitelist_locks a" "a_std_locks a" "a_client_locks a"
    and "cfg_in_range (sv_cfg s)" and "sv_thrds s = 0"
    and "sv_res s = \<lparr>ssl_refs = of_bool (ssl_ctx \<noteq> None), open_dbs = 0, open_efds = 0, tables = 0\<rparr>"
  shows "\<exists>ret s'. start_contexts a ssl_ctx s = Some (ret, s') \<and> ended (if reg_ready a then 0 else 2) s' \<and>
    ret = (if reg_ready a \<and> (\<forall>i < num_worker_threads a (sv_cfg s). a_worker_db a i = Db_ok) \<and>
      launched a (num_worker_threads a (sv_cfg s)) then 0 else ERROR)"
proof -
  define m where "m = a_memory a"
  define n where "n = num_worker_threads a (sv_cfg s)"
  obtain wl where wl: "htable_create 10 1 100 10 ip_cmp True = Some (Some wl)" "book_ok 0 (wl_recs m) wl (ct_next m)" using new_ip_table by blast
  have std: "book_ok 0 (std_recs m) wl (ct_next m)" using new_ip_table [of "std_recs m" "ct_next m"] wl(1) by simp
  obtain cl where cl: "htable_create (unat (cl_htable_size_pow2 (sv_cfg s))) (unat (cl_htable_expansion_pow2 (sv_cfg s)))
      (unat (cl_htable_loadfactor_exp_thres (sv_cfg s))) (unat (cl_htable_locks_pow2 (sv_cfg s))) std_client_cmp True = Some (Some cl)"
    "ht_ok name_ok (ct_nds m) cl" using new_client_table [OF assms(5)] by blast
  have flags: "flags_ok (sv_cfg s)" using assms(5) by (simp add: cfg_in_range_def flags_ok_def)
  obtain ok rt_ctx rs1 where r: "reg_ctx_init (a_reg_db a) (a_reg_efd a) (ssl_ctx \<noteq> None) (a_shutdown_efd a)
      \<lparr>ssl_refs = of_bool (ssl_ctx \<noteq> None), open_dbs = 0, open_efds = 1, tables = Suc 2\<rparr> = (ok, rt_ctx, rs1)" by (metis prod_cases3)
  note made = reg_init_made [OF r]
  obtain rt where rt: "rt_ipblock_tbl rt_ctx = Some rt" "book_ok 0 (reg_recs m) rt (ct_next m)" using made(4) by blast
  obtain k wt_ctx rs2 where w: "worker_ctx_init n (a_worker_db a) (ssl_ctx \<noteq> None) (a_shutdown_efd a) rs1 = (k, wt_ctx, rs2)" by (metis prod_cases3)
  note wrk = worker_ctx_balanced [OF w]
  have rr: "ok = reg_ready a" using made(1) by (simp add: reg_ready_def)
  define s1 where "s1 = s\<lparr>sv_res := rs1\<rparr>"
  define s2 where "s2 = s\<lparr>sv_res := rs2\<rparr>"
  have e: "start_contexts a ssl_ctx s =
     (if \<not> ok then reg_thrd_ctx_init_fail ERROR ssl_ctx rt_ctx (Some wl) s1
      else if k < n then wrk_thrd_ctx_init_fail ERROR ssl_ctx rt_ctx (Some wl) (Some wl) (Some cl) wt_ctx k s2
      else run_thrds a ssl_ctx rt_ctx (Some wl) (Some wl) (Some cl) wt_ctx k s2)"
    unfolding start_contexts_def using assms(2-4,7) wl(1) cl(1) r w
    by (simp add: Let_def upd_res_def n_def [symmetric] s1_def s2_def numeral_3_eq_3 numeral_2_eq_2)
  consider (reg) "\<not> ok" | (workers) "ok" "k < n" | (run) "ok" "k = n" using wrk(2) by linarith
  then show ?thesis
  proof cases
    case reg
    then show ?thesis unfolding e using reg_end [of s1 rt_ctx ssl_ctx 2 ERROR wl] made(2,3) rt(1) rr assms(6) by (auto simp: s1_def)
  next
    case workers
    then have "\<not> (\<forall>i<n. a_worker_db a i = Db_ok)" using wrk(3) by simp
    moreover have "worker_ctx_free wt_ctx k (sv_res s2) = held_res rt_ctx ssl_ctx 2" using wrk(1) made(2) by (simp add: s2_def)
    ultimately show ?thesis unfolding e n_def [symmetric]
      using workers wrk_end [of s2 wt_ctx k rt_ctx ssl_ctx ERROR wl wl cl] made(3) rt(1) rr assms(6) by (auto simp: s2_def)
  next
    case run
    then have db: "\<forall>i<n. a_worker_db a i = Db_ok" using wrk(3) by simp
    have f: "worker_ctx_free wt_ctx k (sv_res s2) = held_res rt_ctx ssl_ctx 2" using wrk(1) made(2) by (simp add: s2_def)
    have fl: "flags_ok (sv_cfg s2)" using flags by (simp add: s2_def)
    from run_end [OF assms(1) fl rt(1) made(3) wl(2) [unfolded m_def] std [unfolded m_def] rt(2) [unfolded m_def] cl(2) [unfolded m_def] f]
    show ?thesis unfolding e n_def [symmetric] using run db rr by auto
  qed
qed

subsection \<open>The property\<close>


definition sample_answers :: answers where
  "sample_answers = \<lparr>a_config = None, a_zlog = True, a_alpn = 0, a_chain = 1, a_key = 1, a_check = 1, a_ssl_ctx = 9, a_interfaces = Some [],
     a_shutdown_efd = 4, a_nprocs = 8, a_whitelist_locks = True, a_std_locks = True, a_client_locks = True, a_reg_db = Db_ok, a_reg_efd = 5,
     a_worker_db = (\<lambda>_. Db_ok), a_reg_thrd = True, a_worker_thrd = (\<lambda>i. i < 3), a_ctrl_if = True, a_others = [],
     a_commands = lit ''show'', a_memory = idle_ctrl\<rparr>"


end
