(* ===== verification/Setup.thy ===== *)
theory Setup
  imports Worker Registration Thrdctx
begin

text \<open>
  What the routines of the threads do before their loops: \<open>worker_thrd_routine\<close> of \<open>server/worker.c\<close> and
  \<open>reg_thrd_routine\<close> of \<open>server/registration.c\<close>. What a thread opens for itself is counted; the answers of the calls
  are arguments. A thread that cannot be set up ends without having told anybody: the synchronised start is over.
\<close>

record opened =
  o_listeners :: nat
  o_epolls :: nat
  o_stmts :: nat

text \<open>A thread has ended, or is at the beginning of its loop; with what it has open.\<close>

datatype 's thread_setup = Ended opened | Looping opened 's

abbreviation (input) nothing_open :: opened where
  "nothing_open \<equiv> \<lparr>o_listeners = 0, o_epolls = 0, o_stmts = 0\<rparr>"

text \<open>The verdict of the start, the answers of \<open>socket\<close> and \<open>bind\<close>, and whether \<open>epoll_create1\<close>, the first \<open>epoll_ctl\<close> and
  \<open>sqlite3_prepare_v2\<close> succeed.\<close>

definition worker_setup :: "thrd_pc \<Rightarrow> bool \<Rightarrow> (u16 \<Rightarrow> bind_result) \<Rightarrow> bool \<Rightarrow> bool \<Rightarrow> bool \<Rightarrow> worker \<Rightarrow> worker thread_setup" where
  "worker_setup start socket_ok bind_res epoll_ok add_ok prepare_ok w =
     (if start \<noteq> Returned True then Ended nothing_open
      else case server_start_tcp socket_ok bind_res (gen_port (cfg w)) of
        None \<Rightarrow> Ended nothing_open
      | Some _ \<Rightarrow>
          let fds = nothing_open\<lparr>o_listeners := 1\<rparr> in
          if \<not> epoll_ok then Ended (fds\<lparr>o_listeners := 0\<rparr>)
          else let fds = fds\<lparr>o_epolls := 1\<rparr> in
            if \<not> add_ok then Ended (fds\<lparr>o_epolls := 0, o_listeners := 0\<rparr>)
            else if \<not> prepare_ok then Ended (fds\<lparr>o_epolls := 0, o_listeners := 0\<rparr>)
            else Looping (fds\<lparr>o_stmts := 1\<rparr>) (worker_start w))"

definition reg_setup ::
  "thrd_pc \<Rightarrow> bool \<Rightarrow> bool \<Rightarrow> bool \<Rightarrow> bool \<Rightarrow> (u16 \<Rightarrow> bind_result) \<Rightarrow> 'db regthrd \<Rightarrow> 'db regthrd thread_setup" where
  "reg_setup start epoll_ok prepare_reg_ok prepare_del_ok socket_ok bind_res t =
     (if start \<noteq> Returned True then Ended nothing_open
      else if \<not> epoll_ok then Ended nothing_open
      else let fds = nothing_open\<lparr>o_epolls := 1\<rparr> in
        if \<not> prepare_reg_ok then Ended fds
        else let fds = fds\<lparr>o_stmts := 1\<rparr> in
          if \<not> prepare_del_ok then Ended (fds\<lparr>o_stmts := 0\<rparr>)
          else let t = reg_start socket_ok bind_res t
               in Looping (fds\<lparr>o_stmts := 2, o_listeners := of_bool (rg_listener t \<noteq> None)\<rparr>) t)"

text \<open>A worker that cannot be set up has closed what it had opened; one that can has everything its loop uses, and its
  state is the start of the runs for which the invariant holds.\<close>

lemma worker_setup_balanced:
  "worker_setup start socket_ok bind_res epoll_ok add_ok prepare_ok w = Ended fds \<Longrightarrow> fds = nothing_open"
  by (auto simp: worker_setup_def Let_def split: if_splits option.splits)

lemma worker_setup_starts:
  assumes "worker_setup start socket_ok bind_res epoll_ok add_ok prepare_ok w0 = Looping fds w" and "fresh_tables w0"
  shows "runs fetch sha idx_ok w0 w" and "wt_inv w" and "fds = \<lparr>o_listeners = 1, o_epolls = 1, o_stmts = 1\<rparr>"
proof -
  have w: "w = worker_start w0" using assms(1) by (auto simp: worker_setup_def Let_def split: if_splits option.splits)
  show "runs fetch sha idx_ok w0 w" unfolding w by (rule runs.start)
  show "wt_inv w" unfolding w by (rule start_inv(1) [OF assms(2)])
  show "fds = \<lparr>o_listeners = 1, o_epolls = 1, o_stmts = 1\<rparr>"
    using assms(1) by (auto simp: worker_setup_def Let_def split: if_splits option.splits)
qed

text \<open>The registration thread leaves its \<open>epoll\<close> instance open when a statement cannot be prepared.\<close>

lemma reg_setup_leaks:
  "reg_setup start epoll_ok prepare_reg_ok prepare_del_ok socket_ok bind_res t = Ended fds \<Longrightarrow>
   fds = nothing_open\<lparr>o_epolls := of_bool (start = Returned True \<and> epoll_ok)\<rparr>"
  by (auto simp: reg_setup_def Let_def split: if_splits)

end
