(* ===== verification/Clfiles.thy ===== *)
theory Clfiles
  imports Lwmp Cstdlib
begin

text \<open>
  The first half of \<open>client/clrecv.c\<close>: the part of the client's state (\<open>client_ctx\<close> of \<open>client/client.h\<close>)
  that received messages change, the names under which received files are stored, and the transfers that
  are under way. A file system is a map from names to contents; a stream that \<open>fopen\<close> has returned is the
  name of its file and the position of the next write. \<open>None\<close> as the result of an operation is undefined
  behaviour (here the use of a stream that is NULL).
\<close>

abbreviation (input) MAX_ACTIVE_TRANSFERS :: nat where "MAX_ACTIVE_TRANSFERS \<equiv> 8"
abbreviation (input) USER_CACHE_MAX :: nat where "USER_CACHE_MAX \<equiv> 25600"
abbreviation (input) MAX_DEDUP_ATTEMPTS :: nat where "MAX_DEDUP_ATTEMPTS \<equiv> 10000"
text \<open>The size of \<open>destname\<close>: \<open>OPTDATA_LEN + 1\<close>.\<close>

abbreviation (input) DESTNAME_SIZE :: nat where "DESTNAME_SIZE \<equiv> 33"

abbreviation (input) SLASH :: byte where "SLASH \<equiv> 47"
abbreviation (input) BACKSLASH :: byte where "BACKSLASH \<equiv> 92"
abbreviation (input) DOT :: byte where "DOT \<equiv> 46"

subsection \<open>State\<close>

type_synonym file_store = "byte list \<Rightarrow> byte list option"
type_synonym wstream = "byte list \<times> nat"

record file_transfer =
  ft_active :: bool
  ft_fp :: "wstream option"
  expected_size :: u64
  ft_received :: u64
  ft_sender :: "byte list"
  ft_filename :: "byte list"

text \<open>\<open>shown\<close> is the terminal: the formats of the calls of \<open>clio_print\<close>, without the newline, and the arguments.\<close>

record client_core =
  transfers :: "file_transfer list"
  files :: file_store
  can_create :: "byte list \<Rightarrow> bool"
  user_cache :: "byte list list"
  awaiting_resp :: bool
  last_resp_code :: u32
  sending_chunks :: bool
  transfer_error :: bool
  shown :: "message list"

definition clio_print :: "string \<Rightarrow> print_arg list \<Rightarrow> client_core \<Rightarrow> client_core" where
  "clio_print fmt args k = k\<lparr>shown := shown k @ [(fmt, args)]\<rparr>"

subsection \<open>Names of received files\<close>

definition sanitize_filename :: "byte list \<Rightarrow> byte list" where
  "sanitize_filename raw =
     (let base = (case strrchr raw SLASH of Some p \<Rightarrow> drop (p + 1) raw | None \<Rightarrow> raw);
          base = (case strrchr base BACKSLASH of Some p \<Rightarrow> drop (p + 1) base | None \<Rightarrow> base)
      in if base = [] \<or> base = [DOT] \<or> base = [DOT, DOT] then lit ''received_file'' else base)"

fun udec :: "nat \<Rightarrow> byte list" where
  "udec n = (if n < 10 then [of_nat (48 + n)] else udec (n div 10) @ [of_nat (48 + n mod 10)])"

declare udec.simps [simp del]

text \<open>The \<open>n\<close>-th name that is tried: \<open>snprintf(out, out_cap, "%.*s%s%s", ...)\<close>.\<close>

definition split_ext :: "byte list \<Rightarrow> nat \<times> byte list" where
  "split_ext desired =
     (case strrchr desired DOT of
        Some dot \<Rightarrow> if dot \<noteq> 0 then (dot, drop dot desired) else (length desired, [])
      | None \<Rightarrow> (length desired, []))"

definition numbered_name :: "byte list \<Rightarrow> nat \<Rightarrow> nat \<Rightarrow> byte list" where
  "numbered_name desired out_cap n =
     (let (stem_len, ext) = split_ext desired;
          maxlen = (if OPTDATA_LEN > out_cap - 1 then out_cap - 1 else OPTDATA_LEN);
          suffix = [40] @ udec n @ [41];
          fixed = length ext + length suffix;
          avail_stem = (if maxlen > fixed then maxlen - fixed else 0);
          use_stem = (if stem_len < avail_stem then stem_len else avail_stem)
      in take (out_cap - 1) (take use_stem desired @ suffix @ ext))"

function dedup_loop :: "file_store \<Rightarrow> byte list \<Rightarrow> nat \<Rightarrow> nat \<Rightarrow> byte list \<Rightarrow> byte list" where
  "dedup_loop fs desired out_cap n out =
     (if n \<le> MAX_DEDUP_ATTEMPTS
      then let out = numbered_name desired out_cap n in
        if fs out = None then out else dedup_loop fs desired out_cap (n + 1) out
      else out)"
  by pat_completeness auto
termination by (relation "measure (\<lambda>(fs, desired, out_cap, n, out). MAX_DEDUP_ATTEMPTS + 1 - n)") auto

declare dedup_loop.simps [simp del]

definition make_unique_filename :: "file_store \<Rightarrow> byte list \<Rightarrow> nat \<Rightarrow> byte list" where
  "make_unique_filename fs desired out_cap =
     (let out = take (out_cap - 1) desired in
      if fs out = None then out else dedup_loop fs desired out_cap 1 out)"

subsection \<open>Transfers\<close>

text \<open>Senders are NUL-terminated strings of at most \<open>UNAMESIZE\<close> characters, so that \<open>strncmp\<close> over
  \<open>UNAMESIZE\<close> characters compares them whole.\<close>

definition find_transfer :: "client_core \<Rightarrow> byte list \<Rightarrow> nat option" where
  "find_transfer k sender =
     List.find (\<lambda>i. ft_active (transfers k ! i) \<and> ft_sender (transfers k ! i) = sender) [0..<MAX_ACTIVE_TRANSFERS]"

definition alloc_transfer :: "client_core \<Rightarrow> nat option" where
  "alloc_transfer k = List.find (\<lambda>i. \<not> ft_active (transfers k ! i)) [0..<MAX_ACTIVE_TRANSFERS]"

definition set_transfer :: "nat \<Rightarrow> file_transfer \<Rightarrow> client_core \<Rightarrow> client_core" where
  "set_transfer i t k = k\<lparr>transfers := (transfers k)[i := t]\<rparr>"

text \<open>\<open>fclose(ft->fp)\<close> and the resets that follow it.\<close>

definition end_transfer :: "nat \<Rightarrow> client_core \<Rightarrow> client_core option" where
  "end_transfer i k =
     (case ft_fp (transfers k ! i) of
        None \<Rightarrow> None
      | Some fp \<Rightarrow> Some (set_transfer i ((transfers k ! i)\<lparr>ft_fp := None, ft_active := False\<rparr>) k))"

definition close_all_transfers :: "client_core \<Rightarrow> client_core" where
  "close_all_transfers k =
     k\<lparr>transfers := map (\<lambda>t. (if ft_active t \<and> ft_fp t \<noteq> None then t\<lparr>ft_fp := None\<rparr> else t)\<lparr>ft_active := False\<rparr>) (transfers k)\<rparr>"

text \<open>Writing \<open>bs\<close> at position \<open>pos\<close>.\<close>

definition write_at :: "byte list \<Rightarrow> nat \<Rightarrow> byte list \<Rightarrow> byte list" where
  "write_at content pos bs =
     take pos (content @ replicate (pos - length content) 0) @ bs @ drop (pos + length bs) content"

definition fwrite :: "byte list \<Rightarrow> wstream \<Rightarrow> file_store \<Rightarrow> wstream \<times> file_store" where
  "fwrite bs fp fs =
     (let (name, pos) = fp; content = (case fs name of None \<Rightarrow> [] | Some c \<Rightarrow> c)
      in ((name, pos + length bs), fs(name \<mapsto> write_at content pos bs)))"

text \<open>The case \<open>MT_FILE\<close> of \<open>process_received_pdu\<close>: \<open>raw_name\<close> is the optional data of the PDU,
  \<open>data\<close> the part of the file that it carries.\<close>

definition start_transfer :: "byte list \<Rightarrow> byte list \<Rightarrow> u64 \<Rightarrow> wstream \<Rightarrow> byte list \<Rightarrow> nat \<Rightarrow> client_core \<Rightarrow> client_core" where
  "start_transfer sender destname file_size fp data i k =
     clio_print ''[%s] receiving file %s (%lu bytes)...'' [Str sender, Str destname, Num (unat file_size)]
       (set_transfer i \<lparr>ft_active = True, ft_fp = Some fp, expected_size = file_size,
          ft_received = of_nat (length data), ft_sender = sender, ft_filename = destname\<rparr> k)"

definition store_file :: "byte list \<Rightarrow> byte list \<Rightarrow> u64 \<Rightarrow> byte list \<Rightarrow> nat \<Rightarrow> client_core \<Rightarrow> client_core" where
  "store_file sender filename file_size data i k =
     (let destname = make_unique_filename (files k) filename DESTNAME_SIZE in
      if \<not> can_create k destname then clio_print ''Failed to create file: %s'' [Str destname] k
      else
        let k = k\<lparr>files := (files k)(destname \<mapsto> [])\<rparr>;
            (fp, fs) = (if data \<noteq> [] then fwrite data (destname, 0) (files k) else ((destname, 0), files k));
            k = k\<lparr>files := fs\<rparr>
        in if of_nat (length data) \<ge> file_size
           then clio_print ''[%s] received file %s (%lu bytes)'' [Str sender, Str destname, Num (unat file_size)] k
           else start_transfer sender destname file_size fp data i k)"

definition receive_file :: "byte list \<Rightarrow> byte list \<Rightarrow> u64 \<Rightarrow> byte list \<Rightarrow> client_core \<Rightarrow> client_core option" where
  "receive_file sender raw_name file_size data k = do {
     k \<leftarrow> (case find_transfer k sender of Some i \<Rightarrow> end_transfer i k | None \<Rightarrow> Some k);
     case alloc_transfer k of
       None \<Rightarrow> Some (clio_print ''Too many concurrent file transfers'' [] k)
     | Some i \<Rightarrow> Some (store_file sender (sanitize_filename (cstr raw_name)) file_size data i k) }"

text \<open>A chunk, from the middle of \<open>clrecv_parse\<close>.\<close>

definition receive_chunk :: "byte list \<Rightarrow> byte list \<Rightarrow> client_core \<Rightarrow> client_core option" where
  "receive_chunk sender data k =
     (if data = [] then Some k
      else case find_transfer k sender of
        None \<Rightarrow> Some k
      | Some i \<Rightarrow>
          (case ft_fp (transfers k ! i) of
             None \<Rightarrow> None
           | Some fp \<Rightarrow>
               let (fp, fs) = fwrite data fp (files k);
                   t = (transfers k ! i)\<lparr>ft_fp := Some fp, ft_received := ft_received (transfers k ! i) + of_nat (length data)\<rparr>;
                   k = set_transfer i t (k\<lparr>files := fs\<rparr>)
               in if ft_received t \<ge> expected_size t
                  then Some (clio_print ''[%s] received file %s (%lu bytes)''
                      [Str (ft_sender t), Str (ft_filename t), Num (unat (expected_size t))]
                      (set_transfer i (t\<lparr>ft_fp := None, ft_active := False\<rparr>) k))
                  else Some k))"

subsection \<open>What the names can be\<close>

text \<open>A name that stays in the current directory: no separator, and neither empty nor one of the two
  directory entries.\<close>

definition plain_name :: "byte list \<Rightarrow> bool" where
  "plain_name s \<longleftrightarrow> SLASH \<notin> set s \<and> BACKSLASH \<notin> set s \<and> s \<noteq> [] \<and> s \<noteq> [DOT] \<and> s \<noteq> [DOT, DOT] \<and>
     length s \<le> OPTDATA_LEN \<and> 0 \<notin> set s"

lemma sanitize_plain:
  assumes "length raw \<le> OPTDATA_LEN" and "0 \<notin> set raw"
  shows "plain_name (sanitize_filename raw)"
proof -
  define a where "a = (case strrchr raw SLASH of Some p \<Rightarrow> drop (p + 1) raw | None \<Rightarrow> raw)"
  define b where "b = (case strrchr a BACKSLASH of Some p \<Rightarrow> drop (p + 1) a | None \<Rightarrow> a)"
  have a: "set a \<subseteq> set raw - {SLASH}" "length a \<le> length raw"
    using after_last [where s = raw and c = SLASH] by (auto simp: a_def split: option.splits)
  have b: "set b \<subseteq> set a - {BACKSLASH}" "length b \<le> length a"
    using after_last [where s = a and c = BACKSLASH] by (auto simp: b_def split: option.splits)
  have s: "sanitize_filename raw = (if b = [] \<or> b = [DOT] \<or> b = [DOT, DOT] then lit ''received_file'' else b)"
    by (simp only: sanitize_filename_def Let_def a_def b_def)
  have "plain_name (lit ''received_file'')" by (simp add: plain_name_def lit_def of_char_def)
  moreover have "plain_name b" if "\<not> (b = [] \<or> b = [DOT] \<or> b = [DOT, DOT])"
    using that a b assms unfolding plain_name_def by auto
  ultimately show ?thesis unfolding s by simp
qed

lemma udec_digits: "set (udec n) \<subseteq> {48..57} \<and> udec n \<noteq> []"
proof (induction n rule: udec.induct)
  case (1 n)
  have digit: "(of_nat (48 + m) :: byte) \<in> {48..57}" if "m < 10" for m
  proof -
    have "(48 :: byte) \<le> of_nat (48 + m)" "(of_nat (48 + m) :: byte) \<le> 57"
      using that by (simp_all add: word_le_nat_alt unat_of_nat take_bit_eq_mod del: of_nat_add)
    then show ?thesis by simp
  qed
  show ?case
  proof (cases "n < 10")
    case True
    then show ?thesis using digit [of n] by (subst (1 2) udec.simps) simp
  next
    case False
    then show ?thesis using digit [of "n mod 10"] 1 by (subst (1 2) udec.simps) auto
  qed
qed

lemma length_udec: "n < 10 ^ m \<Longrightarrow> 0 < m \<Longrightarrow> length (udec n) \<le> m"
proof (induction n arbitrary: m rule: udec.induct)
  case (1 n)
  show ?case
  proof (cases "n < 10")
    case True
    then show ?thesis using 1 by (subst udec.simps) simp
  next
    case False
    then have "m \<noteq> 1" using 1(2) by auto
    then have "1 < m" using 1(3) by simp
    then have "n div 10 < 10 ^ (m - 1)" using 1(2) by (cases m) (auto simp: less_mult_imp_div_less)
    then show ?thesis using 1(1) [OF False, of "m - 1"] False \<open>1 < m\<close> by (subst udec.simps) auto
  qed
qed

lemma split_ext_parts:
  "split_ext d = (m, e) \<Longrightarrow> m \<le> length d \<and> length e \<le> length d \<and> set e \<subseteq> set d"
  by (auto simp: split_ext_def split: option.splits if_splits dest: strrchr_Some in_set_dropD)

lemma positive_part: "(if b < a then a - b else 0) = a - (b :: nat)"
  by simp

lemma numbered_shape:
  assumes "split_ext d = (m, e)"
  shows "\<exists>u. numbered_name d DESTNAME_SIZE n = take OPTDATA_LEN (take u d @ ([40] @ udec n @ [41]) @ e) \<and>
    u \<le> OPTDATA_LEN - length ([40] @ udec n @ [41])"
proof -
  define s where "s = [40] @ udec n @ [41]"
  define u where "u = (if m < 32 - (length e + length s) then m else 32 - (length e + length s))"
  have one: "(33 :: nat) - 1 = 32" by simp
  have "numbered_name d 33 n = take 32 (take u d @ s @ e)"
    unfolding numbered_name_def assms Let_def prod.case s_def [symmetric] one positive_part u_def if_cancel by (rule refl)
  moreover have "u \<le> 32 - length s" by (auto simp: u_def)
  ultimately show ?thesis unfolding s_def by blast
qed

lemma numbered_plain:
  assumes "plain_name d" and "n \<le> MAX_DEDUP_ATTEMPTS"
  shows "plain_name (numbered_name d DESTNAME_SIZE n)"
proof -
  obtain m e where e: "split_ext d = (m, e)" by (cases "split_ext d")
  note parts = split_ext_parts [OF e]
  define s where "s = [40] @ udec n @ [41]"
  obtain u where nm: "numbered_name d 33 n = take 32 (take u d @ s @ e)" and u: "u \<le> 32 - length s"
    using numbered_shape [OF e, of n] by (auto simp: s_def)
  define D where "D = {48..57 :: byte}"
  have dig: "set (udec n) \<subseteq> D" using udec_digits [of n] by (simp add: D_def)
  have "length (udec n) \<le> 5" by (rule length_udec) (use assms(2) in simp_all)
  then have "length s \<le> 7" by (simp add: s_def)
  then have fit: "length (take u d) + length s \<le> 32" using u by simp
  have nm2: "numbered_name d 33 n = take u d @ s @ take (32 - length (take u d) - length s) e"
    unfolding nm take_append using fit by (subst (1 2) take_all) auto
  then have paren: "40 \<in> set (numbered_name d 33 n)" by (simp add: s_def)
  have sub: "set (numbered_name d 33 n) \<subseteq> set d \<union> ({40, 41} \<union> D)"
    unfolding nm2 set_append using parts dig set_take_subset [of u d] set_take_subset [of _ e]
    by (force simp: s_def)
  have no: "(47 :: byte) \<notin> D" "(92 :: byte) \<notin> D" "(0 :: byte) \<notin> D"
    by (simp_all add: word_le_nat_alt D_def)
  have bad: "x \<notin> set (numbered_name d 33 n)" if "x = 0 \<or> x = 47 \<or> x = 92" for x
    using sub that no assms(1) by (auto simp: plain_name_def)
  have ne: "numbered_name d 33 n \<noteq> x" if "40 \<notin> set x" for x using paren that by auto
  have "length (numbered_name d 33 n) \<le> 32" unfolding nm by simp
  then show ?thesis unfolding plain_name_def using bad ne [of "[]"] ne [of "[46]"] ne [of "[46, 46]"] by simp
qed

lemma dedup_loop_result:
  assumes "n \<le> MAX_DEDUP_ATTEMPTS + 1"
  shows "(\<exists>m. n \<le> m \<and> m \<le> MAX_DEDUP_ATTEMPTS \<and> dedup_loop fs d cap n out = numbered_name d cap m \<and>
      fs (numbered_name d cap m) = None) \<or>
    (\<forall>m. n \<le> m \<and> m \<le> MAX_DEDUP_ATTEMPTS \<longrightarrow> fs (numbered_name d cap m) \<noteq> None) \<and>
      dedup_loop fs d cap n out = (if n \<le> MAX_DEDUP_ATTEMPTS then numbered_name d cap MAX_DEDUP_ATTEMPTS else out)"
  using assms
proof (induction fs d cap n out rule: dedup_loop.induct)
  case (1 fs d cap n out)
  show ?case
  proof (cases "n \<le> 10000 \<and> fs (numbered_name d cap n) \<noteq> None")
    case True
    then have eq: "dedup_loop fs d cap n out = dedup_loop fs d cap (n + 1) (numbered_name d cap n)"
      by (subst dedup_loop.simps) auto
    show ?thesis
    proof (cases "n = 10000")
      case last: True
      have "dedup_loop fs d cap 10001 (numbered_name d cap 10000) = numbered_name d cap 10000"
        by (subst dedup_loop.simps) simp
      then show ?thesis using True last eq by (intro disjI2) (auto dest: le_antisym)
    next
      case False
      then have n: "n + 1 \<le> 10000" using True by auto
      have "(\<exists>m. n + 1 \<le> m \<and> m \<le> 10000 \<and> dedup_loop fs d cap (n + 1) (numbered_name d cap n) = numbered_name d cap m \<and>
            fs (numbered_name d cap m) = None) \<or>
          (\<forall>m. n + 1 \<le> m \<and> m \<le> 10000 \<longrightarrow> fs (numbered_name d cap m) \<noteq> None) \<and>
          dedup_loop fs d cap (n + 1) (numbered_name d cap n) =
            (if n + 1 \<le> 10000 then numbered_name d cap 10000 else numbered_name d cap n)"
        by (rule "1.IH") (use True n in auto)
      then show ?thesis
      proof
        assume "\<exists>m. n + 1 \<le> m \<and> m \<le> 10000 \<and> dedup_loop fs d cap (n + 1) (numbered_name d cap n) = numbered_name d cap m \<and>
            fs (numbered_name d cap m) = None"
        then show ?thesis unfolding eq by (intro disjI1) (metis add_leD1)
      next
        assume r: "(\<forall>m. n + 1 \<le> m \<and> m \<le> 10000 \<longrightarrow> fs (numbered_name d cap m) \<noteq> None) \<and>
          dedup_loop fs d cap (n + 1) (numbered_name d cap n) =
            (if n + 1 \<le> 10000 then numbered_name d cap 10000 else numbered_name d cap n)"
        have "fs (numbered_name d cap m) \<noteq> None" if "n \<le> m" "m \<le> 10000" for m
          using that r True by (cases "m = n") auto
        then show ?thesis unfolding eq using r n by (intro disjI2) auto
      qed
    qed
  next
    case False
    then show ?thesis using "1.prems" by (subst (1 2) dedup_loop.simps) auto
  qed
qed

text \<open>The names that are tried for a file, in order, and whether one of them is free.\<close>

definition name_choices :: "byte list \<Rightarrow> byte list list" where
  "name_choices d = d # map (numbered_name d DESTNAME_SIZE) [1..<MAX_DEDUP_ATTEMPTS + 1]"

definition has_free_name :: "file_store \<Rightarrow> byte list \<Rightarrow> bool" where
  "has_free_name fs d \<longleftrightarrow> (\<exists>name \<in> set (name_choices d). fs name = None)"

lemma unique_name:
  fixes fs :: file_store
  assumes "plain_name d"
  defines "name \<equiv> make_unique_filename fs d DESTNAME_SIZE"
  shows "plain_name name" and "has_free_name fs d \<Longrightarrow> fs name = None" and "name \<in> set (name_choices d)"
proof -
  have d: "take 32 d = d" using assms(1) by (simp add: plain_name_def)
  have "plain_name name \<and> (has_free_name fs d \<longrightarrow> fs name = None) \<and> name \<in> set (name_choices d)"
  proof (cases "fs d = None")
    case True
    then show ?thesis using assms(1) d by (simp add: name_def make_unique_filename_def name_choices_def)
  next
    case False
    then have nm: "name = dedup_loop fs d 33 1 d" by (simp add: name_def make_unique_filename_def d del: not_None_eq)
    have c: "numbered_name d 33 m \<in> set (name_choices d)" if "1 \<le> m" "m \<le> 10000" for m
      using that by (auto simp: name_choices_def)
    have one: "(1 :: nat) \<le> 10000 + 1" by simp
    from dedup_loop_result [OF one, of fs d 33 d] show ?thesis
    proof
      assume "\<exists>m. 1 \<le> m \<and> m \<le> 10000 \<and> dedup_loop fs d 33 1 d = numbered_name d 33 m \<and> fs (numbered_name d 33 m) = None"
      then show ?thesis using numbered_plain [OF assms(1)] c unfolding nm by auto
    next
      assume r: "(\<forall>m. 1 \<le> m \<and> m \<le> 10000 \<longrightarrow> fs (numbered_name d 33 m) \<noteq> None) \<and>
        dedup_loop fs d 33 1 d = (if (1 :: nat) \<le> 10000 then numbered_name d 33 10000 else d)"
      then have "name = numbered_name d 33 10000" unfolding nm by simp
      moreover have "\<not> has_free_name fs d" using r False by (auto simp: has_free_name_def name_choices_def)
      ultimately show ?thesis using numbered_plain [OF assms(1), of 10000] c [of 10000] by simp
    qed
  qed
  then show "plain_name name" "has_free_name fs d \<Longrightarrow> fs name = None" "name \<in> set (name_choices d)" by auto
qed

end
