(* ===== verification/Clrecv.thy ===== *)
theory Clrecv
  imports Clfiles Netwrap
begin

text \<open>
  The second half of \<open>client/clrecv.c\<close>: what the client does with the bytes that its connection delivers.
  \<open>client_ctx\<close> is the context of \<open>client/client.h\<close>; the fields that messages change are its part \<open>core\<close>.
  The array \<open>recv_buf\<close> is kept as its bytes, so that a store behind the end of a message, or a read of what
  the next message has put there, is what it is in the code. The terminal, the \<open>epoll\<close> set, the answers of
  \<open>poll\<close> and of the socket are fields as well.

  \<open>None\<close> is undefined behaviour, and for \<open>clrecv_parse\<close> and the loops around it also a loop that does not end.
\<close>

abbreviation (input) RECV_BUF_SIZE :: nat where "RECV_BUF_SIZE \<equiv> 16384"

datatype link_state = ST_DISCONNECTED | ST_CONNECTED

datatype poll_res = PollIntr | Poll int

record client_ctx =
  core :: client_core
  cc_state :: link_state
  connection :: conn
  use_tls :: bool
  cc_username :: "byte list"
  server_host :: "byte list"
  recv_buf :: "byte list"
  recv_len :: nat
  running :: bool
  watched :: bool
  prompt :: "byte list"
  cc_inputs :: "recv_res list"
  cc_outputs :: "send_res list"
  cc_sent :: "byte list"
  polls :: "poll_res list"
  pendings :: "nat list"

definition upd_core :: "(client_core \<Rightarrow> client_core) \<Rightarrow> client_ctx \<Rightarrow> client_ctx" where
  "upd_core f c = c\<lparr>core := f (core c)\<rparr>"

definition on_core :: "(client_core \<Rightarrow> client_core option) \<Rightarrow> client_ctx \<Rightarrow> client_ctx option" where
  "on_core f c = map_option (\<lambda>k. c\<lparr>core := k\<rparr>) (f (core c))"

definition say :: "string \<Rightarrow> print_arg list \<Rightarrow> client_ctx \<Rightarrow> client_ctx" where
  "say fmt args = upd_core (clio_print fmt args)"

text \<open>Reading a NUL-terminated string from the buffer; one that does not end is read over the array's end.\<close>

definition cstr_read :: "byte list \<Rightarrow> nat \<Rightarrow> byte list option" where
  "cstr_read b off = (if off \<le> length b \<and> 0 \<in> set (drop off b) then Some (cstr_at b off) else None)"

definition store_at :: "nat \<Rightarrow> byte list \<Rightarrow> client_ctx \<Rightarrow> client_ctx option" where
  "store_at off bs c = map_option (\<lambda>b. c\<lparr>recv_buf := b\<rparr>) (mem_write (recv_buf c) off bs)"

subsection \<open>Messages\<close>

text \<open>The loop of \<open>cache_userlist\<close> over \<open>payload\<close> bytes at \<open>off\<close> of the buffer. A name of more than
  \<open>UNAMESIZE\<close> characters is skipped.\<close>

function cache_loop :: "byte list \<Rightarrow> nat \<Rightarrow> nat \<Rightarrow> byte list list \<Rightarrow> byte list list option" where
  "cache_loop b off payload cache =
     (if 0 < payload \<and> length cache < USER_CACHE_MAX
      then let uname = drop off b; len = strnlen uname payload in
        if len < payload \<and> length uname \<le> len then None
        else let cache = (if 0 < len \<and> len \<le> UNAMESIZE then cache @ [take len uname] else cache)
          in cache_loop b (off + len + 1) (payload - (len + 1)) cache
      else Some cache)"
  by pat_completeness auto
termination by (relation "measure (\<lambda>(b, off, payload, cache). payload)") auto

declare cache_loop.simps [simp del]

definition cache_userlist :: "byte list \<Rightarrow> nat \<Rightarrow> client_core \<Rightarrow> client_core option" where
  "cache_userlist b payload k = map_option (\<lambda>cache. k\<lparr>user_cache := cache\<rparr>) (cache_loop b off_buf payload [])"

definition resp_friendly :: "u32 \<Rightarrow> string" where
  "resp_friendly code =
     (if code = RESP_OK then ''OK.''
      else if code = RESP_DISALLOWED_FILE then ''The server does not allow file transfers.''
      else if code = RESP_TOOBIG_FILE then ''The file is larger than the server allows.''
      else if code = RESP_TOOBIG_MSG then ''The message is too large.''
      else if code = RESP_INVAL_CRC then ''The message failed integrity validation (CRC mismatch).''
      else if code = RESP_INVAL_REQ then ''The server rejected the request as invalid.''
      else if code = RESP_INVAL_PDU then ''The server received a malformed message.''
      else if code = RESP_DCONN_SUBJ then ''The recipient is offline or has disconnected.''
      else ''Unknown server response.'')"

definition print_server_resp :: "u64 \<Rightarrow> u32 \<Rightarrow> client_ctx \<Rightarrow> client_ctx option" where
  "print_server_resp pay code c =
     (if code = RESP_OK then Some c
      else if 0 < pay \<and> pay \<le> of_nat LWMP_PDU_BUF_SIZE
      then do {
        c \<leftarrow> store_at (off_buf + unat pay - 1) [0] c;
        t \<leftarrow> cstr_read (recv_buf c) off_buf;
        Some (say ''[server] %s (%s)'' [Str t, Str (lit (strresp code))] c) }
      else Some (say ''[server] %s (%s)'' [Str (lit (resp_friendly code)), Str (lit (strresp code))] c))"

text \<open>The cases of \<open>process_received_pdu\<close>.\<close>

definition process_msg :: "byte list \<Rightarrow> u64 \<Rightarrow> client_ctx \<Rightarrow> client_ctx option" where
  "process_msg sender pay c = do {
     c \<leftarrow> store_at (if 0 < pay \<and> pay \<le> of_nat LWMP_PDU_BUF_SIZE then off_buf + unat pay - 1 else off_buf) [0] c;
     t \<leftarrow> cstr_read (recv_buf c) off_buf;
     Some (say ''[%s]: %s'' [Str sender, Str t] c) }"

definition note_resp :: "u32 \<Rightarrow> client_core \<Rightarrow> client_core" where
  "note_resp code k =
     (let k = (if awaiting_resp k then k\<lparr>last_resp_code := code, awaiting_resp := False\<rparr> else k)
      in if sending_chunks k \<and> code \<noteq> RESP_OK then k\<lparr>transfer_error := True\<rparr> else k)"

definition process_info :: "u64 \<Rightarrow> client_ctx \<Rightarrow> client_ctx option" where
  "process_info pay c = do {
     code \<leftarrow> load32 (recv_buf c) off_optional;
     c \<leftarrow> print_server_resp pay code c;
     Some (upd_core (note_resp code) c) }"

definition show_users :: "client_core \<Rightarrow> client_core" where
  "show_users k =
     fold (\<lambda>u. clio_print ''  %s'' [Str u]) (user_cache k) (clio_print ''Online users (%d):'' [Num (length (user_cache k))] k)"

definition process_req :: "u64 \<Rightarrow> client_ctx \<Rightarrow> client_ctx option" where
  "process_req pay c = do {
     code \<leftarrow> load32 (recv_buf c) off_optional;
     if code = RESP_OK \<and> 0 < pay
     then do {
       c \<leftarrow> on_core (cache_userlist (recv_buf c) (unat pay)) c;
       Some (upd_core show_users c) }
     else print_server_resp pay code c }"

definition process_file :: "byte list \<Rightarrow> u64 \<Rightarrow> client_ctx \<Rightarrow> client_ctx option" where
  "process_file sender pay c = do {
     file_size \<leftarrow> load64 (recv_buf c) off_total;
     raw_name \<leftarrow> mem_read (recv_buf c) off_optional OPTDATA_LEN;
     data \<leftarrow> mem_read (recv_buf c) off_buf (unat pay);
     on_core (receive_file sender raw_name file_size data) c }"

definition process_received_pdu :: "u64 \<Rightarrow> client_ctx \<Rightarrow> client_ctx option" where
  "process_received_pdu pay c = do {
     subject \<leftarrow> mem_read (recv_buf c) off_subject UNAMESIZE;
     msg_type \<leftarrow> load8 (recv_buf c) off_msg_type;
     let sender = cstr subject;
     if msg_type = MT_MSG then process_msg sender pay c
     else if msg_type = MT_INFO then process_info pay c
     else if msg_type = MT_REQ then process_req pay c
     else if msg_type = MT_FILE then process_file sender pay c
     else Some (say ''[unknown msg_type %u]'' [Num (unat msg_type)] c) }"

subsection \<open>Taking messages from the buffer\<close>

definition consume :: "nat \<Rightarrow> client_ctx \<Rightarrow> client_ctx" where
  "consume n c =
     c\<lparr>recv_buf := (if n < recv_len c
                    then take (recv_len c - n) (drop n (recv_buf c)) @ drop (recv_len c - n) (recv_buf c)
                    else recv_buf c),
       recv_len := recv_len c - n\<rparr>"

definition resync :: "client_ctx \<Rightarrow> client_ctx option" where
  "resync c = map_option (\<lambda>(b, n). c\<lparr>recv_buf := b, recv_len := n\<rparr>) (lwmp_stream_resync (recv_buf c) (recv_len c))"

text \<open>One round of the loop: the new context, and whether the loop goes on.\<close>

definition parse_pdu :: "client_ctx \<Rightarrow> (bool \<times> client_ctx) option" where
  "parse_pdu c =
     (if recv_len c < LWMP_HDR_SIZE then Some (False, c)
      else do {
        orig_crc \<leftarrow> load32 (recv_buf c) off_crc32;
        hdr \<leftarrow> mem_read (recv_buf c) 0 off_crc32;
        if crc32 hdr \<noteq> orig_crc
        then do {
          c \<leftarrow> store_at 0 [0] c;
          c \<leftarrow> resync c;
          Some (True, c) }
        else do {
          payload_size \<leftarrow> load64 (recv_buf c) off_total;
          msg_type \<leftarrow> load8 (recv_buf c) off_msg_type;
          let wire_payload = (if msg_type = MT_FILE \<and> payload_size > of_nat LWMP_PDU_BUF_SIZE
            then of_nat LWMP_PDU_BUF_SIZE else payload_size);
          let total_needed = (of_nat LWMP_HDR_SIZE :: u64) + wire_payload;
          if of_nat (recv_len c) < total_needed then Some (False, c)
          else do {
            c \<leftarrow> process_received_pdu wire_payload c;
            Some (True, consume (unat total_needed) c) } } })"

definition parse_chunk :: "client_ctx \<Rightarrow> (bool \<times> client_ctx) option" where
  "parse_chunk c =
     (if recv_len c < LWMP_CHUNK_HDR_SIZE then Some (False, c)
      else do {
        chunk_size \<leftarrow> load16 (recv_buf c) off_chunk_size;
        let total_needed = LWMP_CHUNK_HDR_SIZE + unat chunk_size;
        if recv_len c < total_needed then Some (False, c)
        else do {
          subject \<leftarrow> mem_read (recv_buf c) off_chunk_subject UNAMESIZE;
          data \<leftarrow> mem_read (recv_buf c) off_chunk_payload (unat chunk_size);
          c \<leftarrow> on_core (receive_chunk (cstr subject) data) c;
          Some (True, consume total_needed c) } })"

definition parse_step :: "client_ctx \<Rightarrow> (bool \<times> client_ctx) option" where
  "parse_step c =
     (if recv_len c < 4 then Some (False, c)
      else do {
        mark \<leftarrow> load32 (recv_buf c) off_hdr_mark;
        if mark = PDU_SYNC_HDR_MARK then parse_pdu c
        else if mark = CHUNK_SYNC_HDR_MARK then parse_chunk c
        else do {
          c \<leftarrow> resync c;
          Some (recv_len c \<noteq> 0, c) } })"

partial_function (option) clrecv_parse :: "client_ctx \<Rightarrow> client_ctx option" where
  "clrecv_parse c =
     (case parse_step c of
        None \<Rightarrow> None
      | Some (goes_on, c) \<Rightarrow> if goes_on then clrecv_parse c else Some c)"

subsection \<open>Reading the socket\<close>

definition DEFAULT_PROMPT :: "bool \<Rightarrow> byte list" where
  "DEFAULT_PROMPT tls = lit (''lwmsg'' @ (if tls then ''(TLS)'' else '''') @ ''> '')"

definition clio_reset_prompt :: "client_ctx \<Rightarrow> client_ctx" where
  "clio_reset_prompt c = c\<lparr>prompt := DEFAULT_PROMPT (use_tls c)\<rparr>"

text \<open>What follows an error or the end of the connection. The functions of the connection were loaded by
  \<open>load_tls_fns\<close> or \<open>load_tcp_fns\<close>.\<close>

definition disconnect_fn :: "bool \<Rightarrow> conn \<Rightarrow> conn" where
  "disconnect_fn tls = (if tls then disconnect_tls else disconnect_tcp)"

definition connection_lost :: "client_ctx \<Rightarrow> client_ctx" where
  "connection_lost c =
     (let c = c\<lparr>watched := False, connection := (disconnect_fn (use_tls c) (connection c))\<lparr>conn_fd := ERROR\<rparr>,
        cc_state := ST_DISCONNECTED, recv_len := 0,
        core := (core c)\<lparr>awaiting_resp := False, sending_chunks := False\<rparr>, cc_username := [], server_host := []\<rparr>
      in say ''Disconnected from server.'' [] (clio_reset_prompt (upd_core close_all_transfers c)))"

function clrecv_fill :: "client_ctx \<Rightarrow> (int \<times> client_ctx) option" where
  "clrecv_fill c =
     (if recv_len c < RECV_BUF_SIZE
      then case recv_fn (cc_inputs c) (RECV_BUF_SIZE - recv_len c) of
          (RecvBlock, inp) \<Rightarrow> Some (0, c\<lparr>cc_inputs := inp\<rparr>)
        | (RecvError, inp) \<Rightarrow> Some (- 1, connection_lost (c\<lparr>cc_inputs := inp\<rparr>))
        | (RecvData bs, inp) \<Rightarrow>
            (case mem_write (recv_buf c) (recv_len c) bs of
               None \<Rightarrow> None
             | Some b \<Rightarrow> clrecv_fill (c\<lparr>cc_inputs := inp, recv_buf := b, recv_len := recv_len c + length bs\<rparr>))
      else Some (0, c))"
  by pat_completeness auto
termination by (relation "measure (\<lambda>c. input_size (cc_inputs c))") (auto dest: recv_fn_size [OF sym])

declare clrecv_fill.simps [simp del]

definition handle_socket_data :: "client_ctx \<Rightarrow> client_ctx option" where
  "handle_socket_data c = do {
     (r, c) \<leftarrow> clrecv_fill c;
     if r < 0 then Some c else clrecv_parse c }"

subsection \<open>Waiting for the server\<close>

text \<open>\<open>poll\<close> is called again when a signal has interrupted it. \<open>pendings\<close> are the answers of
  \<open>avail_data_fn\<close>; exhausted answers are those of a socket on which nothing happens.\<close>

fun poll_loop :: "poll_res list \<Rightarrow> int \<times> poll_res list" where
  "poll_loop [] = (0, [])"
| "poll_loop (PollIntr # ps) = poll_loop ps"
| "poll_loop (Poll r # ps) = (r, ps)"

definition wait_readable :: "client_ctx \<Rightarrow> int \<times> client_ctx" where
  "wait_readable c =
     (let avail = (case pendings c of [] \<Rightarrow> 0 | n # _ \<Rightarrow> n); c = c\<lparr>pendings := tl (pendings c)\<rparr> in
      if avail > 0 then (1, c)
      else let (r, ps) = poll_loop (polls c) in (r, c\<lparr>polls := ps\<rparr>))"

text \<open>The result and the code stored in \<open>*out_code\<close>.\<close>

partial_function (option) await_loop :: "client_ctx \<Rightarrow> (int \<times> client_ctx) option" where
  "await_loop c =
     (if awaiting_resp (core c) \<and> cc_state c = ST_CONNECTED
      then let (r, c) = wait_readable c in
        if r = 0 then Some (- 1, upd_core (awaiting_resp_update (\<lambda>_. False)) c)
        else if r < 0 then Some (- 2, c)
        else (case clrecv_fill c of
            None \<Rightarrow> None
          | Some (r, c) \<Rightarrow>
              if r < 0 then Some (- 2, c)
              else (case clrecv_parse c of None \<Rightarrow> None | Some c \<Rightarrow> await_loop c))
      else Some (if cc_state c \<noteq> ST_CONNECTED then - 2 else 0, c))"

definition await_resp :: "client_ctx \<Rightarrow> (int \<times> u32 option \<times> client_ctx) option" where
  "await_resp c = do {
     c \<leftarrow> clrecv_parse (upd_core (awaiting_resp_update (\<lambda>_. True)) c);
     (r, c) \<leftarrow> await_loop c;
     Some (r, if r = 0 then Some (last_resp_code (core c)) else None, c) }"

definition pump_socket_once :: "client_ctx \<Rightarrow> client_ctx option" where
  "pump_socket_once c =
     (let (r, c) = wait_readable c in
      if r \<le> 0 then Some c
      else do {
        (r, c) \<leftarrow> clrecv_fill c;
        if r < 0 then Some c else clrecv_parse c })"

end
