(* ===== verification/Clcmd.thy ===== *)
theory Clcmd
  imports Clrecv Cmdparse
begin

text \<open>
  The sending side of the client: \<open>client/clnet.c\<close> (blocking send and receive, the login exchange) and the
  commands of \<open>client/clcmd.c\<close>. What the client meets outside is passed as arguments: \<open>dial\<close> says for a host and
  a port how the resolver, \<open>connect\<close> and the TLS handshake answer and what the new connection does; \<open>disk\<close> what
  \<open>open\<close> answers for the (tilde-expanded) path of a file and what reading the file gives. Messages to \<open>stderr\<close>
  are lines on the terminal like those of \<open>clio_print\<close>.
\<close>

subsection \<open>clnet.c\<close>

text \<open>A connection: the answers of \<open>recv_fn\<close> and \<open>send_fn\<close> to come, and the bytes that were sent. The two
  loops call again at once when the socket would block; if it blocks forever they do not return (\<open>None\<close>).\<close>

record link =
  lk_in :: "recv_res list"
  lk_out :: "send_res list"
  lk_sent :: "byte list"

partial_function (option) send_loop :: "byte list \<Rightarrow> nat \<Rightarrow> link \<Rightarrow> (int \<times> link) option" where
  "send_loop data sent l =
     (if sent < length data
      then case send_fn (lk_out l) (length data - sent) of
          (SendBlock, outp) \<Rightarrow> send_loop data sent (l\<lparr>lk_out := outp\<rparr>)
        | (SendError, outp) \<Rightarrow> Some (- 1, l\<lparr>lk_out := outp\<rparr>)
        | (Sent n, outp) \<Rightarrow>
            send_loop data (sent + n) (l\<lparr>lk_out := outp, lk_sent := lk_sent l @ take n (drop sent data)\<rparr>)
      else Some (0, l))"

definition send_all :: "byte list \<Rightarrow> link \<Rightarrow> (int \<times> link) option" where
  "send_all data l = send_loop data 0 l"

partial_function (option) recv_loop :: "nat \<Rightarrow> byte list \<Rightarrow> link \<Rightarrow> (int \<times> byte list \<times> link) option" where
  "recv_loop len data l =
     (if length data < len
      then case recv_fn (lk_in l) (len - length data) of
          (RecvBlock, inp) \<Rightarrow> recv_loop len data (l\<lparr>lk_in := inp\<rparr>)
        | (RecvError, inp) \<Rightarrow> Some (- 1, data, l\<lparr>lk_in := inp\<rparr>)
        | (RecvData bs, inp) \<Rightarrow> recv_loop len (data @ bs) (l\<lparr>lk_in := inp\<rparr>)
      else Some (0, data, l))"

definition recv_all :: "nat \<Rightarrow> link \<Rightarrow> (int \<times> byte list \<times> link) option" where
  "recv_all len l = recv_loop len [] l"

definition auth_resp_text :: "u32 \<Rightarrow> string" where
  "auth_resp_text code =
     (if code = AUTH_RESP_INVAL_REQ then ''Server: invalid request.''
      else if code = AUTH_RESP_INVAL_PARAM then ''Server: invalid parameters.''
      else if code = AUTH_RESP_TIMEOUT then ''Server: auth timeout.''
      else if code = AUTH_RESP_DUPLICATE then ''Server: user already exists/logged in.''
      else ''Server: unknown response 0x%08X.'')"

text \<open>The bytes of \<open>auth_req_group\<close>: the last byte of each of the two arrays stays 0. \<open>do_auth\<close> returns the
  result, the complaint on \<open>stderr\<close> and the connection.\<close>

definition auth_request :: "u32 \<Rightarrow> byte list \<Rightarrow> byte list \<Rightarrow> byte list" where
  "auth_request req_type uname password =
     be32 req_type @ (strncpy_bytes uname (UNAMESIZE - 1) @ [0]) @ (strncpy_bytes password (PWDSIZE - 1) @ [0])"

definition do_auth :: "u32 \<Rightarrow> byte list \<Rightarrow> byte list \<Rightarrow> link \<Rightarrow> (int \<times> message list \<times> link) option" where
  "do_auth req_type uname password l = do {
     (r, l) \<leftarrow> send_all (auth_request req_type uname password) l;
     if r < 0 then Some (- 1, [(''Failed to send auth request.'', [])], l)
     else do {
       (r, resp, l) \<leftarrow> recv_all 4 l;
       if r < 0 then Some (- 1, [(''Failed to receive auth response.'', [])], l)
       else
         let code = of_be32 resp in
         if code = AUTH_RESP_OK then Some (0, [], l)
         else Some (- 1, [(auth_resp_text code,
           if auth_resp_text code = ''Server: unknown response 0x%08X.'' then [Num (unat code)] else [])], l) } }"

text \<open>How the world answers when the client dials.\<close>

record dial_answer =
  resolve_error :: "byte list option"
  d_sock :: int
  d_connected :: bool
  d_ssl_new :: bool
  d_ssl_set :: bool
  d_ssl_connect :: int
  d_link :: link

definition connect_fn :: "bool \<Rightarrow> conn \<Rightarrow> dial_answer \<Rightarrow> conn \<times> int" where
  "connect_fn tls cn a =
     (if tls then connect_tls cn (d_sock a) (d_connected a) (d_ssl_new a) (d_ssl_set a) (d_ssl_connect a)
      else connect_tcp cn (d_sock a) (d_connected a))"

subsection \<open>Connecting\<close>

definition DEFAULT_HOST :: "byte list" where "DEFAULT_HOST = lit ''lwmsg.duckdns.org''"
abbreviation (input) DEFAULT_PORT_CONNECT :: u16 where "DEFAULT_PORT_CONNECT \<equiv> 7228"
abbreviation (input) DEFAULT_PORT_REGISTER :: u16 where "DEFAULT_PORT_REGISTER \<equiv> 6671"

text \<open>Host, port, name and password.\<close>

definition parse_target :: "byte list list \<Rightarrow> u16 \<Rightarrow> (byte list \<times> u16 \<times> byte list \<times> byte list) option" where
  "parse_target tokens default_port =
     (if length tokens \<ge> 2 \<and> tokens ! 1 = lit ''defaulthost''
      then if length tokens < 4 then None else Some (DEFAULT_HOST, default_port, tokens ! 2, tokens ! 3)
      else if length tokens < 5 then None
      else let p = atoi (tokens ! 2) in
        if p \<le> 0 \<or> p > 65535 then None else Some (tokens ! 1, word_of_int p, tokens ! 3, tokens ! 4))"

definition say_all :: "message list \<Rightarrow> client_ctx \<Rightarrow> client_ctx" where
  "say_all ls c = fold (\<lambda>(fmt, args). say fmt args) ls c"

definition set_prompt :: "byte list \<Rightarrow> client_ctx \<Rightarrow> client_ctx" where
  "set_prompt p c = c\<lparr>prompt := take 319 p\<rparr>"

definition uname_buf :: "byte list \<Rightarrow> byte list" where
  "uname_buf s = cstr (normalize_string (strncpy_bytes s (UNAMESIZE - 1) @ [0]))"

text \<open>The end of \<open>cmd_connect\<close>, after the login.\<close>

definition enter_session :: "byte list \<Rightarrow> byte list \<Rightarrow> client_ctx \<Rightarrow> client_ctx" where
  "enter_session host uname c =
     (let c = c\<lparr>cc_username := uname_buf uname, watched := True, cc_state := ST_CONNECTED, recv_len := 0, server_host := take 255 host\<rparr>;
          c = set_prompt (cc_username c @ [64] @ server_host c @ lit ''> '') c
      in say ''Connected as %s.'' [Str (cc_username c)] c)"

definition set_link :: "link \<Rightarrow> client_ctx \<Rightarrow> client_ctx" where
  "set_link l c = c\<lparr>cc_inputs := lk_in l, cc_outputs := lk_out l, cc_sent := lk_sent l\<rparr>"

definition link_of :: "client_ctx \<Rightarrow> link" where
  "link_of c = \<lparr>lk_in = cc_inputs c, lk_out = cc_outputs c, lk_sent = cc_sent c\<rparr>"

type_synonym dialer = "byte list \<Rightarrow> u16 \<Rightarrow> dial_answer"

definition cmd_connect :: "dialer \<Rightarrow> byte list list \<Rightarrow> client_ctx \<Rightarrow> client_ctx option" where
  "cmd_connect dial tokens c =
     (if cc_state c \<noteq> ST_DISCONNECTED then Some (say ''Already connected. Disconnect first.'' [] c)
      else case parse_target tokens DEFAULT_PORT_CONNECT of
        None \<Rightarrow> Some (say (''Usage: connect <host> <port> <username> <password>'' @ [CHR 0x0A] @
          ''   or: connect defaulthost <username> <password>'') [] c)
      | Some (host, port, uname, password) \<Rightarrow>
          let a = dial host port in
          case resolve_error a of
            Some e \<Rightarrow> Some (say ''DNS resolution failed: %s'' [Str e] c)
          | None \<Rightarrow>
              let c = say ''Connecting to %s:%u...'' [Str host, Num (unat port)] c;
                  (cn, r) = connect_fn (use_tls c) (connection c) a;
                  c = c\<lparr>connection := cn\<rparr>
              in if r < 0 then Some (say ''Connection failed.'' [] c)
                 else
                   let c = (if use_tls c then say ''TLS handshake OK.'' [] c else c);
                       c = say ''Authenticating as %s...'' [Str uname] c
                   in do {
                     (r, msgs_out, l) \<leftarrow> do_auth REQ_AUTHENTICATION uname password (d_link a);
                     let c = say_all msgs_out (set_link l c);
                     if r < 0 then Some (c\<lparr>connection := disconnect_fn (use_tls c) (connection c)\<rparr>)
                     else Some (enter_session host uname c) })"

text \<open>\<open>cmd_register\<close> and \<open>cmd_delete_account\<close> work on a connection of their own.\<close>

definition account_request ::
  "u32 \<Rightarrow> string \<Rightarrow> string \<Rightarrow> string \<Rightarrow> dialer \<Rightarrow> byte list list \<Rightarrow> client_ctx \<Rightarrow> (link option \<times> client_ctx) option" where
  "account_request req usage connecting success dial tokens c =
     (case parse_target tokens DEFAULT_PORT_REGISTER of
        None \<Rightarrow> Some (None, say usage [] c)
      | Some (host, port, uname, password) \<Rightarrow>
          let a = dial host port in
          case resolve_error a of
            Some e \<Rightarrow> Some (None, say ''DNS resolution failed: %s'' [Str e] c)
          | None \<Rightarrow>
              let c = say connecting [Str host, Num (unat port)] c;
                  (cn, r) = connect_fn (use_tls c) \<lparr>conn_fd = ERROR, ssl = False\<rparr> a
              in if r < 0 then Some (None, say ''Connection failed.'' [] c)
                 else do {
                   (r, msgs_out, l) \<leftarrow> do_auth req uname password (d_link a);
                   let c = say_all msgs_out c;
                   Some (Some l, if r = 0 then say success [] c else c) })"

definition cmd_register :: "dialer \<Rightarrow> byte list list \<Rightarrow> client_ctx \<Rightarrow> (link option \<times> client_ctx) option" where
  "cmd_register = account_request REQ_REGISTRATION (''Usage: register <host> <port> <username> <password>'' @ [CHR 0x0A] @
       ''   or: register defaulthost <username> <password>'')
     ''Connecting to %s:%u for registration...'' ''Registration successful.''"

definition cmd_delete_account :: "dialer \<Rightarrow> byte list list \<Rightarrow> client_ctx \<Rightarrow> (link option \<times> client_ctx) option" where
  "cmd_delete_account = account_request REQ_DELETION (''Usage: delete_account <host> <port> <username> <password>'' @ [CHR 0x0A] @
       ''   or: delete_account defaulthost <username> <password>'')
     ''Connecting to %s:%u for account deletion...'' ''Successfully deleted account.''"

definition cmd_disconnect :: "client_ctx \<Rightarrow> client_ctx" where
  "cmd_disconnect c =
     (if cc_state c = ST_DISCONNECTED then say ''Not connected.'' [] c
      else
        let c = c\<lparr>watched := False, connection := (disconnect_fn (use_tls c) (connection c))\<lparr>conn_fd := ERROR\<rparr>,
              cc_state := ST_DISCONNECTED, recv_len := 0, cc_username := [], server_host := []\<rparr>
        in say ''Disconnected.'' [] (clio_reset_prompt (upd_core close_all_transfers c)))"

subsection \<open>Sending\<close>

definition client_send :: "byte list \<Rightarrow> client_ctx \<Rightarrow> (int \<times> client_ctx) option" where
  "client_send data c = map_option (\<lambda>(r, l). (r, set_link l c)) (send_all data (link_of c))"

text \<open>The stores into a zeroed \<open>lwmp_pdu\<close>.\<close>

definition zero_pdu :: "byte list" where "zero_pdu = replicate LWMP_MAX_PDU_SIZE 0"

definition recipient_buf :: "byte list \<Rightarrow> byte list" where
  "recipient_buf s = normalize_string (strncpy_bytes s (UNAMESIZE - 1) @ [0])"

definition text_pdu :: "byte list \<Rightarrow> byte list \<Rightarrow> byte list option" where
  "text_pdu recipient msg_text = do {
     pdu \<leftarrow> mem_write zero_pdu off_hdr_mark (be32 PDU_SYNC_HDR_MARK);
     pdu \<leftarrow> mem_write pdu off_msg_type [MT_MSG];
     pdu \<leftarrow> mem_write pdu off_subject (strncpy_bytes recipient UNAMESIZE);
     pdu \<leftarrow> mem_write pdu off_total (be64 (of_nat (length msg_text + 1)));
     pdu \<leftarrow> mem_write pdu off_buf (msg_text @ [0]);
     store_crc pdu }"

definition cmd_msg :: "byte list \<Rightarrow> client_ctx \<Rightarrow> client_ctx option" where
  "cmd_msg orig_line c =
     (if cc_state c \<noteq> ST_CONNECTED then Some (say ''Not connected.'' [] c)
      else
        let (tmp, toks) = cmdparse_tokenize (take 4095 orig_line) 2 in
        if length toks < 2 then Some (say ''Usage: msg <recipient> <message>'' [] c)
        else
          let recipient = recipient_buf (cstr_at tmp (toks ! 1));
              msg_text = drop (cmdparse_rest_after_tokens orig_line 2) orig_line
          in if msg_text = [] then Some (say ''Usage: msg <recipient> <message>'' [] c)
             else if length msg_text + 1 > LWMP_PDU_BUF_SIZE
             then Some (say ''Message too long (max %d bytes).'' [Num (LWMP_PDU_BUF_SIZE - 1)] c)
             else do {
               pdu \<leftarrow> text_pdu recipient msg_text;
               data \<leftarrow> mem_read pdu 0 (LWMP_HDR_SIZE + (length msg_text + 1));
               (r, c) \<leftarrow> client_send data c;
               Some (if r < 0 then say ''Failed to send message.'' [] c else c) })"

definition userlist_pdu :: "byte list option" where
  "userlist_pdu = do {
     pdu \<leftarrow> mem_write zero_pdu off_hdr_mark (be32 PDU_SYNC_HDR_MARK);
     pdu \<leftarrow> mem_write pdu off_msg_type [MT_REQ];
     pdu \<leftarrow> mem_write pdu off_optional (be32 REQ_USER_LIST);
     pdu \<leftarrow> mem_write pdu off_total (be64 0);
     store_crc pdu }"

definition cmd_userlist :: "client_ctx \<Rightarrow> client_ctx option" where
  "cmd_userlist c =
     (if cc_state c \<noteq> ST_CONNECTED then Some (say ''Not connected.'' [] c)
      else do {
        pdu \<leftarrow> userlist_pdu;
        data \<leftarrow> mem_read pdu 0 LWMP_HDR_SIZE;
        (r, c) \<leftarrow> client_send data c;
        Some (if r < 0 then say ''Failed to send userlist request.'' [] c else c) })"

subsection \<open>Sending a file\<close>

text \<open>A file that \<open>open\<close> has opened: whether \<open>fstat\<close> says that it is a regular file, the error if \<open>fdopen\<close> gives no
  stream, what \<open>ftell\<close> says at its end, and the bytes that can be read. The size and the bytes need not agree:
  the file can shrink, and a read can fail.\<close>

record local_file =
  lf_regular :: bool
  lf_stream_error :: "byte list option"
  lf_size :: int
  lf_bytes :: "byte list"

datatype open_answer = Open_error "byte list" | Opened local_file

type_synonym local_disk = "byte list \<Rightarrow> open_answer"

definition fread :: "local_file \<Rightarrow> nat \<Rightarrow> nat \<Rightarrow> byte list" where
  "fread f pos n = take n (drop pos (lf_bytes f))"

definition file_pdu :: "byte list \<Rightarrow> byte list \<Rightarrow> u64 \<Rightarrow> byte list \<Rightarrow> byte list option" where
  "file_pdu recipient name file_size first = do {
     pdu \<leftarrow> mem_write zero_pdu off_hdr_mark (be32 PDU_SYNC_HDR_MARK);
     pdu \<leftarrow> mem_write pdu off_msg_type [MT_FILE];
     pdu \<leftarrow> mem_write pdu off_subject (strncpy_bytes recipient UNAMESIZE);
     pdu \<leftarrow> mem_write pdu off_total (be64 file_size);
     pdu \<leftarrow> mem_write pdu off_optional (strncpy_bytes name (OPTDATA_LEN - 1));
     pdu \<leftarrow> mem_write pdu off_buf first;
     store_crc pdu }"

text \<open>The loop over the rest of the file. The result: whether it was broken off.\<close>

function send_chunks :: "local_file \<Rightarrow> nat \<Rightarrow> nat \<Rightarrow> client_ctx \<Rightarrow> (bool \<times> client_ctx) option" where
  "send_chunks f pos remaining c =
     (if 0 < remaining
      then let chunk_sz = (if remaining < LWMP_MAX_PDU_SIZE then remaining else LWMP_MAX_PDU_SIZE); data = fread f pos chunk_sz in
        if length data \<noteq> chunk_sz then Some (True, say ''Failed to read file.'' [] c)
        else case client_send data c of
          None \<Rightarrow> None
        | Some (r, c) \<Rightarrow>
            if r < 0 then Some (True, say ''Failed to send file data.'' [] c)
            else (case pump_socket_once c of
                None \<Rightarrow> None
              | Some c \<Rightarrow>
                  if cc_state c \<noteq> ST_CONNECTED \<or> transfer_error (core c) then Some (True, c)
                  else send_chunks f (pos + chunk_sz) (remaining - chunk_sz) c)
      else Some (False, c))"
  by pat_completeness auto
termination by (relation "measure (\<lambda>(f, pos, remaining, c). remaining)") auto

declare send_chunks.simps [simp del]

definition say_sent :: "byte list \<Rightarrow> int \<Rightarrow> byte list \<Rightarrow> client_ctx \<Rightarrow> client_ctx" where
  "say_sent name file_size recipient = say ''File %s (%ld bytes) sent to %s.'' [Str name, Num (nat file_size), Str recipient]"

text \<open>\<open>cmd_sendfile\<close> after the first PDU of a file that needs more than one.\<close>

definition sendfile_rest :: "local_file \<Rightarrow> byte list \<Rightarrow> byte list \<Rightarrow> client_ctx \<Rightarrow> client_ctx option" where
  "sendfile_rest f name recipient c = do {
     (ar, resp_code, c) \<leftarrow> await_resp (upd_core (transfer_error_update (\<lambda>_. False)) c);
     if ar = - 2 then Some c
     else if ar = - 1 then Some (say ''No response from server; aborting transfer.'' [] c)
     else if resp_code \<noteq> Some RESP_OK then Some (say ''Server rejected the file; aborting transfer.'' [] c)
     else do {
       (aborted, c) \<leftarrow> send_chunks f LWMP_PDU_BUF_SIZE (nat (lf_size f) - LWMP_PDU_BUF_SIZE)
         (upd_core (sending_chunks_update (\<lambda>_. True)) c);
       let c = upd_core (sending_chunks_update (\<lambda>_. False)) c;
       Some (if aborted then say ''File transfer to %s aborted.'' [Str recipient] c
             else say_sent name (lf_size f) recipient c) } }"

definition send_file :: "local_file \<Rightarrow> byte list \<Rightarrow> byte list \<Rightarrow> client_ctx \<Rightarrow> client_ctx option" where
  "send_file f name recipient c =
     (if lf_size f \<le> 0 then Some (say ''File is empty or unreadable.'' [] c)
      else
        let first_chunk = (if nat (lf_size f) < LWMP_PDU_BUF_SIZE then nat (lf_size f) else LWMP_PDU_BUF_SIZE);
            first = fread f 0 first_chunk
        in if length first \<noteq> first_chunk then Some (say ''Failed to read file.'' [] c)
           else do {
             pdu \<leftarrow> file_pdu recipient name (word_of_int (lf_size f)) first;
             data \<leftarrow> mem_read pdu 0 (LWMP_HDR_SIZE + first_chunk);
             (r, c) \<leftarrow> client_send data c;
             if r < 0 then Some (say ''Failed to send file header.'' [] c)
             else if \<not> nat (lf_size f) > LWMP_PDU_BUF_SIZE then Some (say_sent name (lf_size f) (cstr recipient) c)
             else sendfile_rest f name (cstr recipient) c })"

definition base_name :: "byte list \<Rightarrow> byte list" where
  "base_name filepath = (case strrchr filepath SLASH of None \<Rightarrow> filepath | Some p \<Rightarrow> drop (p + 1) filepath)"

definition cmd_sendfile :: "local_disk \<Rightarrow> byte list list \<Rightarrow> client_ctx \<Rightarrow> client_ctx option" where
  "cmd_sendfile disk tokens c =
     (if cc_state c \<noteq> ST_CONNECTED then Some (say ''Not connected.'' [] c)
      else if length tokens < 3 then Some (say ''Usage: sendfile <recipient> <filepath>'' [] c)
      else
        let recipient = recipient_buf (tokens ! 1);
            filepath = tokens ! 2;
            name = base_name filepath
        in case disk filepath of
            Open_error e \<Rightarrow> Some (say ''Cannot open file: %s'' [Str e] c)
          | Opened f \<Rightarrow>
              if \<not> lf_regular f then Some (say ''Cannot send %s: Not a file.'' [Str filepath] c)
              else (case lf_stream_error f of
                  Some e \<Rightarrow> Some (say ''Error opening file: %s'' [Str e] c)
                | None \<Rightarrow> send_file f name recipient c))"

subsection \<open>The command line\<close>

definition cmd_clear :: "client_ctx \<Rightarrow> client_ctx" where
  "cmd_clear c = say ([CHR 0x1B] @ ''[2J'' @ [CHR 0x1B] @ ''[H'') [] c"

text \<open>Name, description and usage of the commands.\<close>

definition or_line :: "string \<Rightarrow> string" where
  "or_line u = u @ '' <host> <port> <username> <password>'' @ [CHR 0x0A] @ ''     or: '' @ u @ '' defaulthost <username> <password>''"

definition help_table :: "(string \<times> string \<times> string) list" where
  "help_table =
     [(''connect'', ''Connect and authenticate to a server.'', or_line ''connect''),
      (''register'', ''Register a new account on a server.'', or_line ''register''),
      (''delete_account'', ''Delete an existing account on a server.'', or_line ''delete_account''),
      (''disconnect'', ''Disconnect from the current server.'', ''disconnect''),
      (''msg'', ''Send a text message to a user.'', ''msg <recipient> <message>''),
      (''sendfile'', ''Send a file to a user.'', ''sendfile <recipient> <filepath>''),
      (''userlist'', ''List all online users.'', ''userlist''),
      (''clear'', ''Clears the screen.'', ''clear''),
      (''help'', ''Displays all available commands and their usage.'', ''help [command]''),
      (''quit'', ''Exit the client.'', ''quit  (or q)'')]"

definition print_help_entry :: "string \<times> string \<times> string \<Rightarrow> client_ctx \<Rightarrow> client_ctx" where
  "print_help_entry e c =
     (case e of (name, desc, usage) \<Rightarrow>
        say ''  Usage: %s'' [Str (lit usage)] (say ''%s - %s'' [Str (lit name), Str (lit desc)] c))"

definition cmd_help :: "byte list list \<Rightarrow> client_ctx \<Rightarrow> client_ctx" where
  "cmd_help tokens c =
     (if length tokens < 2 then fold print_help_entry help_table c
      else
        let cmd = (if tokens ! 1 = lit ''q'' then lit ''quit'' else tokens ! 1) in
        case List.find (\<lambda>e. cmd = lit (fst e)) help_table of
          Some e \<Rightarrow> print_help_entry e c
        | None \<Rightarrow> say ''Unknown command: %s'' [Str cmd] c)"

definition handle_command_line :: "dialer \<Rightarrow> local_disk \<Rightarrow> byte list \<Rightarrow> client_ctx \<Rightarrow> client_ctx option" where
  "handle_command_line dial disk line c =
     (if line = [] then Some c
      else
        let line_copy = take 4095 line;
            (line', toks) = cmdparse_tokenize line 32;
            tokens = map (cstr_at line') toks
        in if tokens = [] then Some c
           else let cmd = tokens ! 0 in
             if cmd = lit ''connect'' then cmd_connect dial tokens c
             else if cmd = lit ''register'' then map_option snd (cmd_register dial tokens c)
             else if cmd = lit ''disconnect'' then Some (cmd_disconnect c)
             else if cmd = lit ''delete_account'' then map_option snd (cmd_delete_account dial tokens c)
             else if cmd = lit ''quit'' \<or> cmd = lit ''q'' then Some (c\<lparr>running := False\<rparr>)
             else if cmd = lit ''msg'' then cmd_msg line_copy c
             else if cmd = lit ''sendfile'' then cmd_sendfile disk tokens c
             else if cmd = lit ''userlist'' then cmd_userlist c
             else if cmd = lit ''clear'' then Some (cmd_clear c)
             else if cmd = lit ''help'' then Some (cmd_help tokens c)
             else Some (say ''Unknown command: %s. Type 'help' for commands.'' [Str cmd] c))"

end
