(* ===== verification/Clframes.thy ===== *)
theory Clframes
  imports Clrecv
begin

text \<open>
  What the client's receiving path is for: the stream of bytes from the server is a sequence of frames, and
  each of them is handled once, whole and in order, however the network cuts the stream. A frame is a value
  here, \<open>frame_bytes\<close> its encoding and \<open>deliver_frame\<close> what it means for the state of the client; the code works on
  one array from which it takes a frame when enough bytes have come.
\<close>

datatype frame =
    Pdu (pdu_type: byte) (pdu_subject: "byte list") (pdu_optional: "byte list") (pdu_total: u64) (pdu_body: "byte list")
  | Chunk (chunk_subject: "byte list") (chunk_data: "byte list")

definition pdu_fields :: "byte \<Rightarrow> byte list \<Rightarrow> byte list \<Rightarrow> u64 \<Rightarrow> byte list" where
  "pdu_fields mt subj opt msize = be32 PDU_SYNC_HDR_MARK @ [mt] @ subj @ opt @ be64 msize"

fun frame_bytes :: "frame \<Rightarrow> byte list" where
  "frame_bytes (Pdu mt subj opt msize body) =
     pdu_fields mt subj opt msize @ be32 (crc32 (pdu_fields mt subj opt msize)) @ body"
| "frame_bytes (Chunk subj data) = be32 CHUNK_SYNC_HDR_MARK @ be16 (of_nat (length data)) @ subj @ data"

text \<open>The frames the client can take: a frame fits into the receive buffer, and a text has at least the byte
  of its terminator.\<close>

fun frame_ok :: "frame \<Rightarrow> bool" where
  "frame_ok (Pdu mt subj opt msize body) \<longleftrightarrow>
     length subj = UNAMESIZE \<and> length opt = OPTDATA_LEN \<and> LWMP_HDR_SIZE + length body \<le> RECV_BUF_SIZE \<and>
     (if mt = MT_FILE then length body = min (unat msize) LWMP_PDU_BUF_SIZE else msize = of_nat (length body)) \<and>
     (mt = MT_MSG \<longrightarrow> body \<noteq> [])"
| "frame_ok (Chunk subj data) \<longleftrightarrow> length subj = UNAMESIZE \<and> LWMP_CHUNK_HDR_SIZE + length data \<le> RECV_BUF_SIZE"

subsection \<open>What a frame means\<close>

text \<open>The names in a list of users: the strings between the NULs, without those that are empty or too long.\<close>

function nul_split :: "byte list \<Rightarrow> byte list list" where
  "nul_split bs = (if bs = [] then [] else cstr bs # nul_split (drop (length (cstr bs) + 1) bs))"
  by pat_completeness auto
termination by (relation "measure length") auto

declare nul_split.simps [simp del]

definition user_names :: "byte list \<Rightarrow> byte list list" where
  "user_names body = take USER_CACHE_MAX (filter (\<lambda>u. 0 < length u \<and> length u \<le> UNAMESIZE) (nul_split body))"

definition server_says :: "u32 \<Rightarrow> byte list \<Rightarrow> client_core \<Rightarrow> client_core" where
  "server_says code body k =
     (if code = RESP_OK then k
      else clio_print ''[server] %s (%s)''
        [Str (if 0 < length body \<and> length body \<le> LWMP_PDU_BUF_SIZE then cstr (butlast body) else lit (resp_friendly code)),
         Str (lit (strresp code))] k)"

definition deliver_pdu :: "byte \<Rightarrow> byte list \<Rightarrow> byte list \<Rightarrow> u64 \<Rightarrow> byte list \<Rightarrow> client_core \<Rightarrow> client_core option" where
  "deliver_pdu mt subj opt msize body k =
     (let sender = cstr subj; code = of_be32 (take 4 opt) in
      if mt = MT_MSG
      then Some (clio_print ''[%s]: %s''
        [Str sender, Str (if length body \<le> LWMP_PDU_BUF_SIZE then cstr (butlast body) else [])] k)
      else if mt = MT_INFO then Some (note_resp code (server_says code body k))
      else if mt = MT_REQ
      then Some (if code = RESP_OK \<and> body \<noteq> [] then show_users (k\<lparr>user_cache := user_names body\<rparr>) else server_says code body k)
      else if mt = MT_FILE then receive_file sender opt msize body k
      else Some (clio_print ''[unknown msg_type %u]'' [Num (unat mt)] k))"

fun deliver_frame :: "frame \<Rightarrow> client_core \<Rightarrow> client_core option" where
  "deliver_frame (Pdu mt subj opt msize body) k = deliver_pdu mt subj opt msize body k"
| "deliver_frame (Chunk subj data) k = receive_chunk (cstr subj) data k"

fun deliver_all :: "frame list \<Rightarrow> client_core \<Rightarrow> client_core option" where
  "deliver_all [] k = Some k"
| "deliver_all (f # fs) k = (case deliver_frame f k of None \<Rightarrow> None | Some k \<Rightarrow> deliver_all fs k)"

lemma deliver_all_append:
  "deliver_all (fs @ gs) k = (case deliver_all fs k of None \<Rightarrow> None | Some k \<Rightarrow> deliver_all gs k)"
  by (induction fs arbitrary: k) (auto split: option.splits)

subsection \<open>The bytes of a frame\<close>

lemma mem_read_mid: "mem_read (a @ b @ c) (length a) (length b) = Some b"
  by (simp add: mem_read_def)

lemma mem_read_midI: "buf = a @ b @ c \<Longrightarrow> off = length a \<Longrightarrow> n = length b \<Longrightarrow> mem_read buf off n = Some b"
  by (simp add: mem_read_def)

lemma length_pdu_fields: "length subj = UNAMESIZE \<Longrightarrow> length opt = OPTDATA_LEN \<Longrightarrow> length (pdu_fields mt subj opt msize) = off_crc32"
  by (simp add: pdu_fields_def)

lemma pdu_reads:
  assumes "length subj = UNAMESIZE" "length opt = OPTDATA_LEN"
    and buf: "buf = frame_bytes (Pdu mt subj opt msize body) @ tail"
  shows "mem_read buf 0 off_crc32 = Some (pdu_fields mt subj opt msize)"
    "load32 buf off_hdr_mark = Some PDU_SYNC_HDR_MARK"
    "load32 buf off_crc32 = Some (crc32 (pdu_fields mt subj opt msize))"
    "load64 buf off_total = Some msize" "load8 buf off_msg_type = Some mt"
    "mem_read buf off_subject UNAMESIZE = Some subj" "mem_read buf off_optional OPTDATA_LEN = Some opt"
    "load32 buf off_optional = Some (of_be32 (take 4 opt))"
    "mem_read buf off_buf (length body) = Some body"
proof -
  note len = length_pdu_fields [OF assms(1,2), of mt msize]
  have b: "buf = be32 PDU_SYNC_HDR_MARK @ [mt] @ subj @ opt @ be64 msize @ be32 (crc32 (pdu_fields mt subj opt msize)) @ body @ tail"
    by (simp add: buf pdu_fields_def)
  show "mem_read buf 0 77 = Some (pdu_fields mt subj opt msize)" using len by (simp add: buf mem_read_def)
  have "mem_read buf 0 4 = Some (be32 PDU_SYNC_HDR_MARK)" by (rule mem_read_midI [where a = "[]"]) (simp_all add: b)
  then show "load32 buf 0 = Some PDU_SYNC_HDR_MARK" by (simp add: load32_def of_be32_be32)
  have "mem_read buf 77 4 = Some (be32 (crc32 (pdu_fields mt subj opt msize)))"
    by (rule mem_read_midI [where a = "pdu_fields mt subj opt msize" and c = "body @ tail"]) (simp_all add: buf len)
  then show "load32 buf 77 = Some (crc32 (pdu_fields mt subj opt msize))" by (simp add: load32_def of_be32_be32)
  have "mem_read buf 69 8 = Some (be64 msize)"
    by (rule mem_read_midI [where a = "be32 PDU_SYNC_HDR_MARK @ [mt] @ subj @ opt" and
        c = "be32 (crc32 (pdu_fields mt subj opt msize)) @ body @ tail"]) (simp_all add: b assms)
  then show "load64 buf 69 = Some msize" by (simp add: load64_def of_be64_be64)
  show "load8 buf 4 = Some mt" by (simp add: b load8_def nth_append)
  show "mem_read buf 5 32 = Some subj"
    by (rule mem_read_midI [where a = "be32 PDU_SYNC_HDR_MARK @ [mt]" and
        c = "opt @ be64 msize @ be32 (crc32 (pdu_fields mt subj opt msize)) @ body @ tail"]) (simp_all add: b assms)
  show "mem_read buf 37 32 = Some opt"
    by (rule mem_read_midI [where a = "be32 PDU_SYNC_HDR_MARK @ [mt] @ subj" and
        c = "be64 msize @ be32 (crc32 (pdu_fields mt subj opt msize)) @ body @ tail"]) (simp_all add: b assms)
  have "mem_read buf 37 4 = Some (take 4 opt)"
    by (rule mem_read_midI [where a = "be32 PDU_SYNC_HDR_MARK @ [mt] @ subj" and
        c = "drop 4 opt @ be64 msize @ be32 (crc32 (pdu_fields mt subj opt msize)) @ body @ tail"])
      (simp_all add: b assms flip: append_assoc)
  then show "load32 buf 37 = Some (of_be32 (take 4 opt))" by (simp add: load32_def)
  show "mem_read buf 81 (length body) = Some body"
    by (rule mem_read_midI [where a = "pdu_fields mt subj opt msize @ be32 (crc32 (pdu_fields mt subj opt msize))" and c = tail])
      (simp_all add: buf len)
qed

lemma chunk_reads:
  assumes "length subj = UNAMESIZE" "length data < 2 ^ 16"
    and buf: "buf = frame_bytes (Chunk subj data) @ tail"
  shows "load32 buf off_hdr_mark = Some CHUNK_SYNC_HDR_MARK"
    "load16 buf off_chunk_size = Some (of_nat (length data))"
    "mem_read buf off_chunk_subject UNAMESIZE = Some subj"
    "mem_read buf off_chunk_payload (length data) = Some data"
proof -
  have "mem_read buf 0 4 = Some (be32 CHUNK_SYNC_HDR_MARK)" by (rule mem_read_midI [where a = "[]"]) (simp_all add: buf)
  then show "load32 buf 0 = Some CHUNK_SYNC_HDR_MARK" by (simp add: load32_def of_be32_be32)
  have "mem_read buf 4 2 = Some (be16 (of_nat (length data)))"
    by (rule mem_read_midI [where a = "be32 CHUNK_SYNC_HDR_MARK" and c = "subj @ data @ tail"]) (simp_all add: buf)
  then show "load16 buf 4 = Some (of_nat (length data))" by (simp add: load16_def of_be16_be16)
  show "mem_read buf 6 32 = Some subj"
    by (rule mem_read_midI [where a = "be32 CHUNK_SYNC_HDR_MARK @ be16 (of_nat (length data))" and c = "data @ tail"])
      (simp_all add: buf assms)
  show "mem_read buf 38 (length data) = Some data"
    by (rule mem_read_midI [where a = "be32 CHUNK_SYNC_HDR_MARK @ be16 (of_nat (length data)) @ subj" and c = tail])
      (simp_all add: buf assms)
qed

lemma frame_length:
  "frame_ok f \<Longrightarrow> length (frame_bytes f) \<le> RECV_BUF_SIZE \<and>
     (case f of Pdu mt subj opt msize body \<Rightarrow> length (frame_bytes f) = LWMP_HDR_SIZE + length body
      | Chunk subj data \<Rightarrow> length (frame_bytes f) = LWMP_CHUNK_HDR_SIZE + length data)"
  by (cases f) (simp_all add: pdu_fields_def)

subsection \<open>Handling a frame at the front of the buffer\<close>

definition window :: "client_ctx \<Rightarrow> byte list" where
  "window c = take (recv_len c) (recv_buf c)"

definition buffer_ok :: "client_ctx \<Rightarrow> bool" where
  "buffer_ok c \<longleftrightarrow> length (recv_buf c) = RECV_BUF_SIZE \<and> recv_len c \<le> RECV_BUF_SIZE"

text \<open>The context in which only the state and the buffer have changed.\<close>

definition with_buf :: "client_core \<Rightarrow> byte list \<Rightarrow> nat \<Rightarrow> client_ctx \<Rightarrow> client_ctx" where
  "with_buf k b n c = c\<lparr>core := k, recv_buf := b, recv_len := n\<rparr>"

lemma with_buf_simps [simp]:
  "core (with_buf k b n c) = k" "recv_buf (with_buf k b n c) = b" "recv_len (with_buf k b n c) = n"
  "cc_inputs (with_buf k b n c) = cc_inputs c" "cc_state (with_buf k b n c) = cc_state c"
  "with_buf k' b' n' (with_buf k b n c) = with_buf k' b' n' c" "with_buf k b n (c\<lparr>cc_inputs := inp\<rparr>) = (with_buf k b n c)\<lparr>cc_inputs := inp\<rparr>"
  by (simp_all add: with_buf_def)

lemma with_buf_same: "with_buf (core c) (recv_buf c) (recv_len c) c = c"
  by (simp add: with_buf_def)

lemma say_with_buf: "say fmt args (with_buf k b n c) = with_buf (clio_print fmt args k) b n c"
  by (simp add: say_def upd_core_def with_buf_def)

lemma upd_core_with_buf: "upd_core f (with_buf k b n c) = with_buf (f k) b n c"
  by (simp add: upd_core_def with_buf_def)

lemma on_core_with_buf: "on_core f (with_buf k b n c) = map_option (\<lambda>k. with_buf k b n c) (f k)"
  by (cases c) (simp add: on_core_def with_buf_def)

lemma store_at_with_buf: "store_at off bs (with_buf k b n c) = map_option (\<lambda>b. with_buf k b n c) (mem_write b off bs)"
  by (cases c) (simp add: store_at_def with_buf_def)

lemmas with_buf_ops = say_with_buf upd_core_with_buf on_core_with_buf store_at_with_buf

lemma consume_with_buf:
  assumes "b = pre @ more_bytes @ tail" and "n = length pre + length more_bytes"
  shows "\<exists>b'. consume (length pre) (with_buf k b n c) = with_buf k b' (length more_bytes) c \<and> length b' = length b \<and>
    take (length more_bytes) b' = more_bytes"
proof (cases "more_bytes = []")
  case True
  then show ?thesis using assms by (auto simp: consume_def with_buf_def)
next
  case False
  then have "consume (length pre) (with_buf k b n c) =
      with_buf k (more_bytes @ drop (length more_bytes) b) (length more_bytes) c"
    using assms by (simp add: consume_def with_buf_def)
  then show ?thesis using assms by (auto intro!: exI [of _ "more_bytes @ drop (length more_bytes) b"])
qed

text \<open>The text of a message: the NUL that is stored over its last byte ends it.\<close>

lemma cstr_ended: "cstr (xs @ 0 # ys) = cstr xs"
  by (induction xs) auto

lemma end_text:
  assumes "b = hdr @ body @ tail" and "length hdr = off_buf" and "body \<noteq> []"
  shows "mem_write b (off_buf + length body - 1) [0] = Some (hdr @ (butlast body @ [0]) @ tail)"
    and "cstr_read (hdr @ (butlast body @ [0]) @ tail) off_buf = Some (cstr (butlast body))"
proof -
  obtain xs x where "body = xs @ [x]" using assms(3) by (metis append_butlast_last_id)
  then show "mem_write b (81 + length body - 1) [0] = Some (hdr @ (butlast body @ [0]) @ tail)"
    using assms(1,2) by (simp add: mem_write_def)
  show "cstr_read (hdr @ (butlast body @ [0]) @ tail) 81 = Some (cstr (butlast body))"
    using assms(2) by (simp add: cstr_read_def cstr_at_def cstr_ended)
qed

lemma cut_text:
  assumes "b = hdr @ body @ tail" and "length hdr = off_buf" and "body \<noteq> []"
  shows "mem_write b off_buf [0] = Some (hdr @ (0 # tl body) @ tail)" and "cstr_read (hdr @ (0 # tl body) @ tail) off_buf = Some []"
  using assms by (cases body; simp add: mem_write_def cstr_read_def cstr_at_def)+

lemma print_resp_frame:
  fixes pay :: u64
  assumes b: "b = hdr @ body @ tail" and hdr: "length hdr = off_buf" and pay: "pay = of_nat (length body)" "length body \<le> RECV_BUF_SIZE"
  shows "\<exists>body'. print_server_resp pay code (with_buf k b n c) = Some (with_buf (server_says code body k) (hdr @ body' @ tail) n c) \<and>
    length body' = length body"
proof -
  have u: "unat pay = length body" using pay by (simp add: unat_of_nat take_bit_eq_mod)
  then have z: "0 < pay \<longleftrightarrow> body \<noteq> []" "pay \<le> of_nat 4015 \<longleftrightarrow> length body \<le> 4015"
    by (simp_all add: word_less_nat_alt word_le_nat_alt)
  note unfold = print_server_resp_def z server_says_def u
  show ?thesis
  proof (cases "code \<noteq> RESP_OK \<and> body \<noteq> [] \<and> length body \<le> 4015")
    case True
    then show ?thesis using end_text [OF b hdr] unfolding unfold
      by (intro exI [of _ "butlast body @ [0]"]) (simp add: with_buf_ops)
  next
    case False
    then show ?thesis unfolding unfold by (intro exI [of _ body]) (auto simp: with_buf_ops b)
  qed
qed

lemma cache_loop_names:
  assumes "body = take payload (drop off b)" and "length body = payload" and "length cache \<le> USER_CACHE_MAX"
  shows "cache_loop b off payload cache =
    Some (take USER_CACHE_MAX (cache @ filter (\<lambda>u. 0 < length u \<and> length u \<le> UNAMESIZE) (nul_split body)))"
  using assms
proof (induction b off payload cache arbitrary: body rule: cache_loop.induct)
  case (1 b off payload cache)
  show ?case
  proof (cases "0 < payload \<and> length cache < 25600")
    case False
    then show ?thesis using "1.prems" by (subst cache_loop.simps) (auto simp: nul_split.simps [of "[]"])
  next
    case True
    define uname where "uname = drop off b"
    define len where "len = strnlen uname payload"
    define cache' where "cache' = (if 0 < len \<and> len \<le> 32 then cache @ [take len uname] else cache)"
    define body' where "body' = drop (len + 1) body"
    have len: "len = length (cstr body)" by (simp add: len_def strnlen_def uname_def "1.prems"(1))
    have le: "len \<le> payload" using "1.prems"(2) length_takeWhile_le [of "\<lambda>b. b \<noteq> 0" body] by (simp add: len)
    have name: "take len uname = cstr body"
    proof -
      have "take len uname = take len body" using le by (simp add: "1.prems"(1) uname_def)
      then show ?thesis unfolding len by (simp add: takeWhile_eq_take [symmetric])
    qed
    have no: "\<not> (len < payload \<and> length uname \<le> len)"
      using "1.prems"(1,2) by (auto simp: uname_def)
    have ne: "body \<noteq> []" using True "1.prems"(2) by auto
    have b': "body' = take (payload - (len + 1)) (drop (off + len + 1) b)" "length body' = payload - (len + 1)"
      using "1.prems"(1,2) by (simp_all add: body'_def drop_take add.commute)
    have c': "length cache' \<le> 25600" using True by (simp add: cache'_def)
    have "cache_loop b (off + len + 1) (payload - (len + 1)) cache' =
        Some (take 25600 (cache' @ filter (\<lambda>u. 0 < length u \<and> length u \<le> 32) (nul_split body')))"
      using "1.IH" [OF True uname_def len_def no cache'_def b' c'] .
    moreover have "cache_loop b off payload cache = cache_loop b (off + len + 1) (payload - (len + 1)) cache'"
      unfolding cache_loop.simps [of b off payload cache] Let_def uname_def [symmetric] len_def [symmetric] cache'_def [symmetric]
      using True no by auto
    moreover have "cache' @ filter (\<lambda>u. 0 < length u \<and> length u \<le> 32) (nul_split body') =
        cache @ filter (\<lambda>u. 0 < length u \<and> length u \<le> 32) (nul_split body)"
      using ne name by (subst nul_split.simps [of body]) (auto simp: cache'_def body'_def len)
    ultimately show ?thesis by (simp only:)
  qed
qed

text \<open>\<open>process_received_pdu\<close> on a buffer that begins with a PDU: it does what the PDU means, and writes at most
  over the PDU itself.\<close>

lemma process_pdu_frame:
  fixes pay :: u64
  assumes ok: "frame_ok (Pdu mt subj opt msize body)" and b: "b = frame_bytes (Pdu mt subj opt msize body) @ tail"
    and pay: "pay = of_nat (length body)" and del: "deliver_pdu mt subj opt msize body k = Some k'"
  shows "\<exists>pre. process_received_pdu pay (with_buf k b n c) = Some (with_buf k' (pre @ tail) n c) \<and>
    length pre = LWMP_HDR_SIZE + length body"
proof -
  define hdr where "hdr = pdu_fields mt subj opt msize @ be32 (crc32 (pdu_fields mt subj opt msize))"
  have l: "length subj = 32" "length opt = 32" "length body \<le> 16303" using ok by simp_all
  have hdr: "b = hdr @ body @ tail" "length hdr = 81" using length_pdu_fields [OF l(1,2)] by (simp_all add: b hdr_def)
  have u: "unat pay = length body" using pay l(3) by (simp add: unat_of_nat take_bit_eq_mod)
  have z: "0 < pay \<longleftrightarrow> body \<noteq> []" "pay \<le> of_nat 4015 \<longleftrightarrow> length body \<le> 4015"
    using u by (simp_all add: word_less_nat_alt word_le_nat_alt)
  note rd = pdu_reads [OF l(1,2) b]
  define code where "code = of_be32 (take 4 opt)"
  have start: "process_received_pdu pay (with_buf k b n c) =
      (if mt = MT_MSG then process_msg (cstr subj) pay (with_buf k b n c)
       else if mt = MT_INFO then process_info pay (with_buf k b n c)
       else if mt = MT_REQ then process_req pay (with_buf k b n c)
       else if mt = MT_FILE then process_file (cstr subj) pay (with_buf k b n c)
       else Some (say ''[unknown msg_type %u]'' [Num (unat mt)] (with_buf k b n c)))"
    using rd by (simp add: process_received_pdu_def)
  have says: "\<exists>body'. print_server_resp pay code (with_buf k b n c) = Some (with_buf (server_says code body k) (hdr @ body' @ tail) n c) \<and>
      length body' = length body"
    by (rule print_resp_frame [OF hdr pay]) (use l(3) in simp)
  consider "mt = MT_MSG" | "mt = MT_INFO" | "mt = MT_REQ" "code = RESP_OK \<and> body \<noteq> []"
    | "mt = MT_REQ" "\<not> (code = RESP_OK \<and> body \<noteq> [])" | "mt = MT_FILE"
    | "mt \<notin> {MT_MSG, MT_INFO, MT_REQ, MT_FILE}" by blast
  then show ?thesis
  proof cases
    case 1
    then have ne: "body \<noteq> []" using ok by simp
    have k': "k' = clio_print ''[%s]: %s'' [Str (cstr subj), Str (if length body \<le> 4015 then cstr (butlast body) else [])] k"
      using del 1 by (simp add: deliver_pdu_def)
    show ?thesis
    proof (cases "length body \<le> 4015")
      case True
      have off: "(if 0 < pay \<and> pay \<le> of_nat 4015 then 81 + unat pay - 1 else 81) = 81 + length body - 1" using z ne True u by simp
      have "process_msg (cstr subj) pay (with_buf k b n c) = Some (with_buf k' (hdr @ (butlast body @ [0]) @ tail) n c)"
        unfolding process_msg_def off using end_text [OF hdr ne] True by (simp add: with_buf_ops k')
      then show ?thesis using start 1 hdr(2) ne by (intro exI [of _ "hdr @ (butlast body @ [0])"]) simp
    next
      case False
      have off: "(if 0 < pay \<and> pay \<le> of_nat 4015 then 81 + unat pay - 1 else 81) = 81" using z False by simp
      have "process_msg (cstr subj) pay (with_buf k b n c) = Some (with_buf k' (hdr @ (0 # tl body) @ tail) n c)"
        unfolding process_msg_def off using cut_text [OF hdr ne] False by (simp add: with_buf_ops k')
      then show ?thesis using start 1 hdr(2) ne by (intro exI [of _ "hdr @ (0 # tl body)"]) simp
    qed
  next
    case 2
    obtain body' where "print_server_resp pay code (with_buf k b n c) = Some (with_buf (server_says code body k) (hdr @ body' @ tail) n c)"
      "length body' = length body" using says by blast
    then show ?thesis using start 2 rd(8) del hdr(2)
      by (intro exI [of _ "hdr @ body'"]) (simp add: process_info_def deliver_pdu_def msg_type_defs code_def with_buf_ops Let_def)
  next
    case 3
    have "cache_userlist b (unat pay) k = Some (k\<lparr>user_cache := user_names body\<rparr>)"
      using cache_loop_names [of body "length body" 81 b "[]"] hdr u
      by (simp add: cache_userlist_def user_names_def)
    then have "process_req pay (with_buf k b n c) = Some (with_buf k' b n c)"
      using 3 rd(8) z(1) del by (simp add: process_req_def deliver_pdu_def msg_type_defs code_def with_buf_ops Let_def)
    then show ?thesis using start 3(1) hdr by (intro exI [of _ "hdr @ body"]) (simp add: msg_type_defs)
  next
    case 4
    obtain body' where "print_server_resp pay code (with_buf k b n c) = Some (with_buf (server_says code body k) (hdr @ body' @ tail) n c)"
      "length body' = length body" using says by blast
    then have "process_req pay (with_buf k b n c) = Some (with_buf k' (hdr @ body' @ tail) n c)"
      using 4 rd(8) z(1) del by (auto simp: process_req_def deliver_pdu_def msg_type_defs code_def Let_def)
    then show ?thesis using start 4(1) hdr(2) \<open>length body' = length body\<close> by (intro exI [of _ "hdr @ body'"]) (simp add: msg_type_defs)
  next
    case 5
    then have "process_file (cstr subj) pay (with_buf k b n c) = Some (with_buf k' b n c)"
      using rd(4,7,9) u del by (simp add: process_file_def deliver_pdu_def msg_type_defs with_buf_ops Let_def)
    then show ?thesis using start 5 hdr by (intro exI [of _ "hdr @ body"]) (simp add: msg_type_defs)
  next
    case 6
    then show ?thesis using start del hdr by (intro exI [of _ "hdr @ body"]) (simp add: deliver_pdu_def with_buf_ops Let_def)
  qed
qed

text \<open>The number of bytes that follow a header, as the code computes it.\<close>

definition wire_of :: "byte \<Rightarrow> u64 \<Rightarrow> u64" where
  "wire_of mt msize = (if mt = MT_FILE \<and> msize > of_nat LWMP_PDU_BUF_SIZE then of_nat LWMP_PDU_BUF_SIZE else msize)"

lemma parse_pdu_intact:
  assumes "mem_read (recv_buf c) 0 off_crc32 = Some h" "load32 (recv_buf c) off_crc32 = Some (crc32 h)"
    "load64 (recv_buf c) off_total = Some msize" "load8 (recv_buf c) off_msg_type = Some mt" "LWMP_HDR_SIZE \<le> recv_len c"
  shows "parse_pdu c =
    (if of_nat (recv_len c) < of_nat LWMP_HDR_SIZE + wire_of mt msize then Some (False, c)
     else case process_received_pdu (wire_of mt msize) c of
        None \<Rightarrow> None
      | Some c \<Rightarrow> Some (True, consume (unat (of_nat LWMP_HDR_SIZE + wire_of mt msize)) c))"
  using assms unfolding parse_pdu_def wire_of_def Let_def by (auto split: option.splits bind_splits)

lemma parse_pdu_frame:
  assumes ok: "frame_ok (Pdu mt subj opt msize body)" and b: "b = frame_bytes (Pdu mt subj opt msize body) @ more_bytes @ tail"
    and n: "n = length (frame_bytes (Pdu mt subj opt msize body)) + length more_bytes" "n \<le> RECV_BUF_SIZE"
    and del: "deliver_frame (Pdu mt subj opt msize body) k = Some k'"
  shows "\<exists>b'. parse_step (with_buf k b n c) = Some (True, with_buf k' b' (length more_bytes) c) \<and> length b' = length b \<and>
    take (length more_bytes) b' = more_bytes"
proof -
  have l: "length subj = 32" "length opt = 32" "length body \<le> 16303" using ok by simp_all
  note rd = pdu_reads [OF l(1,2) b]
  have len: "length (frame_bytes (Pdu mt subj opt msize body)) = 81 + length body" using frame_length [OF ok] by simp
  define wire where "wire = wire_of mt msize"
  have wire: "wire = of_nat (length body)"
    using ok by (auto simp: wire_def wire_of_def word_less_nat_alt word_less_iff_unsigned min_def split: if_splits)
  have "unat wire = length body" using l(3) by (simp add: wire unat_of_nat take_bit_eq_mod)
  then have u: "unat (of_nat 81 + wire) = 81 + length body" using l(3) by (simp add: unat_plus_if')
  have un: "unat (of_nat n :: u64) = n" using n(2) by (simp add: unat_of_nat take_bit_eq_mod)
  have enough: "\<not> of_nat n < of_nat 81 + wire"
    unfolding word_less_nat_alt u un using n(1) len by simp
  obtain pre where p: "process_received_pdu wire (with_buf k b n c) = Some (with_buf k' (pre @ more_bytes @ tail) n c)"
    "length pre = 81 + length body"
    using process_pdu_frame [OF ok b wire, of k k' n c] del by auto
  obtain b' where b': "consume (length pre) (with_buf k' (pre @ more_bytes @ tail) n c) = with_buf k' b' (length more_bytes) c"
    "length b' = length (pre @ more_bytes @ tail)" "take (length more_bytes) b' = more_bytes"
    using consume_with_buf [where b = "pre @ more_bytes @ tail" and pre = pre and more_bytes = more_bytes and tail = tail and n = n and k = k' and c = c] n(1) len p(2) by auto
  have "parse_pdu (with_buf k b n c) = Some (True, consume (81 + length body) (with_buf k' (pre @ more_bytes @ tail) n c))"
  proof -
    have "81 \<le> n" using n(1) len by simp
    note eq = parse_pdu_intact [of "with_buf k b n c", unfolded with_buf_simps, OF rd(1,3-5) this, folded wire_def, unfolded u p(1)]
    show ?thesis unfolding eq using enough by (simp only: if_False option.case)
  qed
  then have "parse_step (with_buf k b n c) = Some (True, with_buf k' b' (length more_bytes) c)"
    using rd(2) n(1) len b'(1) p(2) by (simp add: parse_step_def)
  moreover have "length b' = length b" using b'(2) p(2) len b by (simp del: frame_bytes.simps)
  ultimately show ?thesis using b'(3) by blast
qed

lemma parse_chunk_frame:
  assumes ok: "frame_ok (Chunk subj data)" and b: "b = frame_bytes (Chunk subj data) @ more_bytes @ tail"
    and n: "n = length (frame_bytes (Chunk subj data)) + length more_bytes"
    and del: "deliver_frame (Chunk subj data) k = Some k'"
  shows "\<exists>b'. parse_step (with_buf k b n c) = Some (True, with_buf k' b' (length more_bytes) c) \<and> length b' = length b \<and>
    take (length more_bytes) b' = more_bytes"
proof -
  have l: "length subj = 32" "length data < 2 ^ 16" using ok by simp_all
  note rd = chunk_reads [OF l b]
  have len: "length (frame_bytes (Chunk subj data)) = 38 + length data" using frame_length [OF ok] by simp
  have u: "unat (of_nat (length data) :: u16) = length data" using l(2) by (simp add: unat_of_nat take_bit_eq_mod)
  obtain b' where b': "consume (length (frame_bytes (Chunk subj data))) (with_buf k' b n c) = with_buf k' b' (length more_bytes) c"
    "length b' = length b" "take (length more_bytes) b' = more_bytes"
    using consume_with_buf [OF b n] by blast
  have "parse_chunk (with_buf k b n c) = Some (True, consume (38 + length data) (with_buf k' b n c))"
    using rd(2-4) n len u del unfolding parse_chunk_def by (simp add: with_buf_ops)
  moreover have "CHUNK_SYNC_HDR_MARK \<noteq> PDU_SYNC_HDR_MARK" by (simp add: CHUNK_SYNC_HDR_MARK_def PDU_SYNC_HDR_MARK_def)
  ultimately have "parse_step (with_buf k b n c) = Some (True, with_buf k' b' (length more_bytes) c)"
    using rd(1) n len b'(1) by (simp add: parse_step_def del: frame_bytes.simps)
  then show ?thesis using b'(2,3) by blast
qed

end
