(* ===== verification/Clstream.thy ===== *)
theory Clstream
  imports Clframes
begin

text \<open>
  The loops of the receiving path over a stream of frames, and what the properties of the client's receiving
  side are: a frame is handled when it is complete and not before, reading the socket loses nothing, and the
  state of the transfers stays such that no stream is used after it has been closed.
\<close>

subsection \<open>The state of the transfers\<close>

text \<open>An active transfer has its stream; no sender has two; the streams write to different files.\<close>

definition transfer_ok :: "file_transfer \<Rightarrow> bool" where
  "transfer_ok t \<longleftrightarrow> (ft_active t \<longrightarrow> ft_fp t \<noteq> None \<and> ft_received t < expected_size t)"

definition senders_differ :: "file_transfer list \<Rightarrow> bool" where
  "senders_differ ts \<longleftrightarrow> (\<forall>i < length ts. \<forall>j < length ts. ft_active (ts ! i) \<and> ft_active (ts ! j) \<and>
     ft_sender (ts ! i) = ft_sender (ts ! j) \<longrightarrow> i = j)"

definition core_ok :: "client_core \<Rightarrow> bool" where
  "core_ok k \<longleftrightarrow> length (transfers k) = MAX_ACTIVE_TRANSFERS \<and> list_all transfer_ok (transfers k) \<and>
     senders_differ (transfers k) \<and> length (user_cache k) \<le> USER_CACHE_MAX"

lemma core_ok_cong:
  "transfers k' = transfers k \<Longrightarrow> length (user_cache k') \<le> USER_CACHE_MAX \<Longrightarrow> core_ok k \<Longrightarrow> core_ok k'"
  by (simp add: core_ok_def)

lemma find_transfer_Some:
  "find_transfer k s = Some i \<Longrightarrow> i < MAX_ACTIVE_TRANSFERS \<and> ft_active (transfers k ! i) \<and> ft_sender (transfers k ! i) = s"
  by (simp add: find_transfer_def find_upt_Some_iff)

lemma find_transfer_None:
  "find_transfer k s = None \<longleftrightarrow> (\<forall>i < MAX_ACTIVE_TRANSFERS. ft_active (transfers k ! i) \<longrightarrow> ft_sender (transfers k ! i) \<noteq> s)"
  by (auto simp: find_transfer_def find_upt_None_iff)

lemma alloc_transfer_Some: "alloc_transfer k = Some i \<Longrightarrow> i < MAX_ACTIVE_TRANSFERS \<and> \<not> ft_active (transfers k ! i)"
  by (simp add: alloc_transfer_def find_upt_Some_iff)

lemma core_ok_transfer:
  "core_ok k \<Longrightarrow> i < MAX_ACTIVE_TRANSFERS \<Longrightarrow> transfer_ok (transfers k ! i)"
  by (simp add: core_ok_def list_all_length)

lemma core_ok_update:
  assumes "core_ok k" and "i < MAX_ACTIVE_TRANSFERS" and "transfer_ok t"
    and "ft_active t \<Longrightarrow> \<forall>j < MAX_ACTIVE_TRANSFERS. j \<noteq> i \<and> ft_active (transfers k ! j) \<longrightarrow> ft_sender (transfers k ! j) \<noteq> ft_sender t"
  shows "core_ok (set_transfer i t k)"
  using assms by (auto simp: core_ok_def set_transfer_def list_all_length senders_differ_def nth_list_update)

lemma core_ok_print [simp]: "core_ok (clio_print fmt args k) = core_ok k"
  by (simp add: core_ok_def clio_print_def)

lemma core_ok_files [simp]: "core_ok (k\<lparr>files := fs\<rparr>) = core_ok k"
  by (simp add: core_ok_def)

lemma print_fields [simp]:
  "transfers (clio_print fmt args k) = transfers k" "files (clio_print fmt args k) = files k"
  "user_cache (clio_print fmt args k) = user_cache k" "can_create (clio_print fmt args k) = can_create k"
  "shown (clio_print fmt args k) = shown k @ [(fmt, args)]"
  by (simp_all add: clio_print_def)

lemma end_transfer_returns:
  assumes "core_ok k" and "i < MAX_ACTIVE_TRANSFERS" and "ft_active (transfers k ! i)"
  shows "end_transfer i k = Some (set_transfer i ((transfers k ! i)\<lparr>ft_fp := None, ft_active := False\<rparr>) k) \<and>
    core_ok (set_transfer i ((transfers k ! i)\<lparr>ft_fp := None, ft_active := False\<rparr>) k)"
  using core_ok_transfer [OF assms(1,2)] assms
  by (auto simp: end_transfer_def transfer_ok_def intro!: core_ok_update)

text \<open>The part of \<open>receive_file\<close> before a slot is looked for: afterwards the sender has no transfer.\<close>

definition drop_transfer :: "byte list \<Rightarrow> client_core \<Rightarrow> client_core" where
  "drop_transfer s k =
     (case find_transfer k s of None \<Rightarrow> k
      | Some i \<Rightarrow> set_transfer i ((transfers k ! i)\<lparr>ft_fp := None, ft_active := False\<rparr>) k)"

lemma drop_transfer_ok:
  assumes "core_ok k"
  shows "core_ok (drop_transfer s k)" and "find_transfer (drop_transfer s k) s = None"
    and "(case find_transfer k s of Some i \<Rightarrow> end_transfer i k | None \<Rightarrow> Some k) = Some (drop_transfer s k)"
proof -
  have "core_ok (drop_transfer s k) \<and> find_transfer (drop_transfer s k) s = None \<and>
    (case find_transfer k s of Some i \<Rightarrow> end_transfer i k | None \<Rightarrow> Some k) = Some (drop_transfer s k)"
  proof (cases "find_transfer k s")
    case None
    then show ?thesis using assms by (simp add: drop_transfer_def)
  next
    case (Some i)
    note f = find_transfer_Some [OF Some]
    have "find_transfer (drop_transfer s k) s = None"
      using assms f unfolding find_transfer_None
      by (auto simp: drop_transfer_def Some set_transfer_def nth_list_update core_ok_def senders_differ_def)
    then show ?thesis using end_transfer_returns [OF assms] f by (simp add: drop_transfer_def Some)
  qed
  then show "core_ok (drop_transfer s k)" "find_transfer (drop_transfer s k) s = None"
    "(case find_transfer k s of Some i \<Rightarrow> end_transfer i k | None \<Rightarrow> Some k) = Some (drop_transfer s k)" by blast+
qed

lemma receive_file_unfold:
  assumes "core_ok k"
  shows "receive_file s raw_name file_size data k =
    (case alloc_transfer (drop_transfer s k) of
       None \<Rightarrow> Some (clio_print ''Too many concurrent file transfers'' [] (drop_transfer s k))
     | Some i \<Rightarrow> Some (store_file s (sanitize_filename (cstr raw_name)) file_size data i (drop_transfer s k)))"
  by (simp add: receive_file_def drop_transfer_ok(3) [OF assms])

text \<open>\<open>store_file\<close> without the steps: the contents of the new file, the transfer that is started, the line
  that is shown.\<close>

lemma store_file_unfold:
  fixes file_size :: u64
  defines "name d k \<equiv> make_unique_filename (files k) d DESTNAME_SIZE"
  shows "store_file s d file_size data i k =
    (if \<not> can_create k (name d k) then clio_print ''Failed to create file: %s'' [Str (name d k)] k
     else if of_nat (length data) \<ge> file_size
     then clio_print ''[%s] received file %s (%lu bytes)'' [Str s, Str (name d k), Num (unat file_size)]
       (k\<lparr>files := (files k)(name d k \<mapsto> data)\<rparr>)
     else start_transfer s (name d k) file_size (name d k, length data) data i (k\<lparr>files := (files k)(name d k \<mapsto> data)\<rparr>))"
  by (simp add: store_file_def name_def Let_def fwrite_def write_at_def)

lemma receive_file_ok:
  assumes "core_ok k"
  shows "\<exists>k'. receive_file s raw_name file_size data k = Some k' \<and> core_ok k'"
proof (cases "alloc_transfer (drop_transfer s k)")
  case None
  then show ?thesis using receive_file_unfold [OF assms] drop_transfer_ok(1) [OF assms] by simp
next
  case (Some i)
  note i = alloc_transfer_Some [OF Some]
  have "core_ok (store_file s (sanitize_filename (cstr raw_name)) file_size data i (drop_transfer s k))"
    using drop_transfer_ok(1,2) [OF assms, of s] i unfolding find_transfer_None
    by (auto simp: store_file_unfold start_transfer_def transfer_ok_def intro!: core_ok_update)
  then show ?thesis using receive_file_unfold [OF assms] Some by simp
qed

lemma receive_chunk_ok:
  assumes "core_ok k"
  shows "\<exists>k'. receive_chunk s data k = Some k' \<and> core_ok k'"
proof (cases "data = [] \<or> find_transfer k s = None")
  case True
  then show ?thesis using assms by (auto simp: receive_chunk_def)
next
  case False
  then obtain i where f: "data \<noteq> []" "find_transfer k s = Some i" by auto
  note i = find_transfer_Some [OF f(2)]
  obtain fp where fp: "ft_fp (transfers k ! i) = Some fp"
    using core_ok_transfer [OF assms, of i] i by (auto simp: transfer_ok_def)
  have other: "\<forall>j < 8. j \<noteq> i \<and> ft_active (transfers k ! j) \<longrightarrow> ft_sender (transfers k ! j) \<noteq> ft_sender (transfers k ! i)"
    using assms i by (auto simp: core_ok_def senders_differ_def)
  have "set_transfer i t' (set_transfer i t k) = set_transfer i t' k" for t t' k
    by (simp add: set_transfer_def)
  then show ?thesis using assms f fp i other
    by (auto simp: receive_chunk_def Let_def split_beta fwrite_def transfer_ok_def not_le intro!: core_ok_update)
qed

lemma note_resp_fields [simp]:
  "transfers (note_resp code k) = transfers k" "user_cache (note_resp code k) = user_cache k" "files (note_resp code k) = files k"
  "shown (note_resp code k) = shown k" "can_create (note_resp code k) = can_create k"
  by (simp_all add: note_resp_def Let_def)

lemma show_users_fields [simp]:
  "transfers (show_users k) = transfers k" "user_cache (show_users k) = user_cache k" "files (show_users k) = files k"
  "can_create (show_users k) = can_create k"
proof -
  have "transfers (fold (\<lambda>u. clio_print fmt [Str u]) us k) = transfers k \<and> user_cache (fold (\<lambda>u. clio_print fmt [Str u]) us k) = user_cache k \<and>
     files (fold (\<lambda>u. clio_print fmt [Str u]) us k) = files k \<and> can_create (fold (\<lambda>u. clio_print fmt [Str u]) us k) = can_create k" for us fmt k
    by (induction us arbitrary: k) simp_all
  then show "transfers (show_users k) = transfers k" "user_cache (show_users k) = user_cache k" "files (show_users k) = files k"
    "can_create (show_users k) = can_create k"
    by (simp_all add: show_users_def)
qed

lemma deliver_ok:
  assumes "core_ok k"
  shows "\<exists>k'. deliver_frame f k = Some k' \<and> core_ok k'"
proof (cases f)
  case (Pdu mt subj opt msize body)
  have says: "core_ok (server_says code body k)" for code using assms by (simp add: server_says_def)
  have users: "core_ok (show_users (k\<lparr>user_cache := user_names body\<rparr>))"
    using assms by (simp add: core_ok_def user_names_def)
  have noted: "core_ok (note_resp code (server_says code body k))" for code using says [of code] by (simp add: core_ok_def)
  show ?thesis using assms says users noted receive_file_ok [OF assms] by (simp add: Pdu deliver_pdu_def Let_def)
next
  case (Chunk subj data)
  then show ?thesis using receive_chunk_ok [OF assms] by simp
qed

lemma deliver_all_ok: "core_ok k \<Longrightarrow> \<exists>k'. deliver_all fs k = Some k' \<and> core_ok k'"
proof (induction fs arbitrary: k)
  case (Cons f fs)
  obtain k' where "deliver_frame f k = Some k'" "core_ok k'" using deliver_ok [OF Cons.prems] by blast
  then show ?case using Cons.IH by simp
qed simp

subsection \<open>Parsing what has arrived\<close>

text \<open>A part of a frame that is not the whole of it.\<close>

definition part_of :: "byte list \<Rightarrow> frame \<Rightarrow> bool" where
  "part_of part f \<longleftrightarrow> (\<exists>z. z \<noteq> [] \<and> part @ z = frame_bytes f)"

lemma buffer_window: "buffer_ok c \<Longrightarrow> recv_buf c = window c @ drop (recv_len c) (recv_buf c) \<and> length (window c) = recv_len c"
  by (simp add: buffer_ok_def window_def)

lemma prefix_beyond: "xs @ z = ys @ zs \<Longrightarrow> length ys \<le> length xs \<Longrightarrow> \<exists>us. xs = ys @ us \<and> us @ z = zs"
  by (auto simp: append_eq_append_conv2)

lemma front_mark: "b = be32 m @ rest_bytes \<Longrightarrow> load32 b 0 = Some m"
  by (simp add: load32_def mem_read_def of_be32_be32)

lemma chunk_part_waits:
  assumes buf: "buffer_ok c" and ok: "frame_ok (Chunk subj data)" and part: "part_of (window c) (Chunk subj data)"
    and len: "4 \<le> recv_len c"
  shows "parse_step c = Some (False, c)"
proof -
  define m :: u16 where "m = of_nat (length data)"
  obtain z where z: "window c @ z = be32 CHUNK_SYNC_HDR_MARK @ be16 m @ subj @ data" "z \<noteq> []"
    using part by (auto simp: part_of_def m_def)
  have l: "length subj = 32" "length data < 2 ^ 16" using ok by simp_all
  have m: "unat m = length data" using l(2) by (simp add: m_def unat_of_nat take_bit_eq_mod)
  have tot: "recv_len c < 38 + length data"
    using arg_cong [OF z(1), of length] z(2) l(1) buffer_window [OF buf] by (cases z) simp_all
  obtain us where us: "window c = be32 CHUNK_SYNC_HDR_MARK @ us" "us @ z = be16 m @ subj @ data"
    using prefix_beyond [OF z(1)] len buffer_window [OF buf] by auto
  have mark: "load32 (recv_buf c) 0 = Some CHUNK_SYNC_HDR_MARK"
    using buffer_window [OF buf] us(1) by (intro front_mark [where rest_bytes = "us @ drop (recv_len c) (recv_buf c)"]) simp
  have parse: "parse_chunk c = Some (False, c)"
  proof (cases "recv_len c < 38")
    case False
    then have "length (be16 m) \<le> length us" using us(1) buffer_window [OF buf] by auto
    then obtain vs where "us = be16 m @ vs" using prefix_beyond [OF us(2)] by blast
    then have "recv_buf c = be32 CHUNK_SYNC_HDR_MARK @ be16 m @ (vs @ drop (recv_len c) (recv_buf c))"
      using buffer_window [OF buf] us(1) by simp
    then have "mem_read (recv_buf c) 4 2 = Some (be16 m)"
      by (rule mem_read_midI) simp_all
    then show ?thesis using tot m False by (simp add: parse_chunk_def load16_def of_be16_be16)
  qed (simp add: parse_chunk_def)
  have "CHUNK_SYNC_HDR_MARK \<noteq> PDU_SYNC_HDR_MARK" by (simp add: CHUNK_SYNC_HDR_MARK_def PDU_SYNC_HDR_MARK_def)
  then show ?thesis using mark parse len by (simp add: parse_step_def)
qed

lemma pdu_part_waits:
  assumes buf: "buffer_ok c" and ok: "frame_ok (Pdu mt subj opt msize body)" and part: "part_of (window c) (Pdu mt subj opt msize body)"
    and len: "4 \<le> recv_len c"
  shows "parse_step c = Some (False, c)"
proof -
  define hdr where "hdr = pdu_fields mt subj opt msize @ be32 (crc32 (pdu_fields mt subj opt msize))"
  obtain z where z: "window c @ z = hdr @ body" "z \<noteq> []" using part by (auto simp: part_of_def hdr_def)
  have l: "length subj = 32" "length opt = 32" "length body \<le> 16303" using ok by simp_all
  have hl: "length hdr = 81" using length_pdu_fields [OF l(1,2)] by (simp add: hdr_def)
  have tot: "recv_len c < 81 + length body"
    using arg_cong [OF z(1), of length] z(2) hl buffer_window [OF buf] by (cases z) simp_all
  have mark: "load32 (recv_buf c) 0 = Some PDU_SYNC_HDR_MARK"
  proof -
    have "window c @ z = be32 PDU_SYNC_HDR_MARK @ (drop 4 hdr @ body)" using z(1) by (simp add: hdr_def pdu_fields_def)
    then obtain us where "window c = be32 PDU_SYNC_HDR_MARK @ us"
      using prefix_beyond [of "window c" z "be32 PDU_SYNC_HDR_MARK"] len buffer_window [OF buf] by auto
    then show ?thesis
      using buffer_window [OF buf] by (intro front_mark [where rest_bytes = "us @ drop (recv_len c) (recv_buf c)"]) simp
  qed
  have parse: "parse_pdu c = Some (False, c)"
  proof (cases "recv_len c < 81")
    case False
    then obtain us where us: "window c = hdr @ us" using prefix_beyond [OF z(1)] hl buffer_window [OF buf] by auto
    have b: "recv_buf c = frame_bytes (Pdu mt subj opt msize us) @ drop (recv_len c) (recv_buf c)"
      using buffer_window [OF buf] us by (simp add: hdr_def)
    have rl: "81 \<le> recv_len c" using False by simp
    note rd = pdu_reads [OF l(1,2) b]
    have wire: "wire_of mt msize = of_nat (length body)"
      using ok by (auto simp: wire_of_def word_less_nat_alt min_def split: if_splits)
    have "unat (of_nat 81 + wire_of mt msize) = 81 + length body"
      using l(3) by (simp add: wire unat_plus_if' unat_of_nat take_bit_eq_mod)
    moreover have "unat (of_nat (recv_len c) :: u64) = recv_len c" using buf by (simp add: buffer_ok_def unat_of_nat take_bit_eq_mod)
    ultimately have "of_nat (recv_len c) < of_nat 81 + wire_of mt msize" using tot unfolding word_less_nat_alt by (simp only:)
    then show ?thesis using parse_pdu_intact [OF rd(1,3,4,5) rl] by (simp only: if_True)
  qed (simp add: parse_pdu_def)
  show ?thesis using mark parse len by (simp add: parse_step_def)
qed

lemma part_waits:
  assumes "buffer_ok c" and "window c = [] \<or> (\<exists>f. frame_ok f \<and> part_of (window c) f)"
  shows "parse_step c = Some (False, c)"
proof (cases "recv_len c < 4")
  case False
  then have "window c \<noteq> []" using buffer_window [OF assms(1)] by auto
  then obtain f where f: "frame_ok f" "part_of (window c) f" using assms(2) by blast
  then show ?thesis
    using False chunk_part_waits [OF assms(1)] pdu_part_waits [OF assms(1)] by (cases f) (simp_all add: not_less)
qed (simp add: parse_step_def)

lemma parse_frame:
  assumes buf: "buffer_ok c" and w: "window c = frame_bytes f @ more_bytes" and ok: "frame_ok f"
    and del: "deliver_frame f (core c) = Some k'"
  shows "\<exists>b. parse_step c = Some (True, with_buf k' b (length more_bytes) c) \<and> length b = RECV_BUF_SIZE \<and>
    take (length more_bytes) b = more_bytes"
proof -
  define tail where "tail = drop (recv_len c) (recv_buf c)"
  have b: "recv_buf c = frame_bytes f @ more_bytes @ tail" using buffer_window [OF buf] w by (simp add: tail_def)
  have n: "recv_len c = length (frame_bytes f) + length more_bytes" using buffer_window [OF buf] w by simp
  have l: "length (recv_buf c) = 16384" "recv_len c \<le> 16384" using buf by (simp_all add: buffer_ok_def)
  show ?thesis
  proof (cases f)
    case (Pdu mt subj opt msize body)
    from parse_pdu_frame [OF ok [unfolded Pdu] b [unfolded Pdu] n [unfolded Pdu] l(2) del [unfolded Pdu], where c = c]
    show ?thesis unfolding with_buf_same l(1) .
  next
    case (Chunk subj data)
    from parse_chunk_frame [OF ok [unfolded Chunk] b [unfolded Chunk] n [unfolded Chunk] del [unfolded Chunk], where c = c]
    show ?thesis unfolding with_buf_same l(1) .
  qed
qed

lemma parse_frames:
  assumes "buffer_ok c" and "window c = concat (map frame_bytes fs) @ part" and "\<forall>f \<in> set fs. frame_ok f"
    and "part = [] \<or> (\<exists>f. frame_ok f \<and> part_of part f)" and "deliver_all fs (core c) = Some k'"
  shows "\<exists>b. clrecv_parse c = Some (with_buf k' b (length part) c) \<and> length b = RECV_BUF_SIZE \<and> take (length part) b = part"
  using assms
proof (induction fs arbitrary: c)
  case Nil
  then have "parse_step c = Some (False, c)" by (intro part_waits) simp_all
  then have "clrecv_parse c = Some c" by (subst clrecv_parse.simps) simp
  moreover have "c = with_buf k' (recv_buf c) (length part) c"
    using Nil buffer_window [OF Nil(1)] by (simp add: with_buf_def)
  ultimately show ?case using Nil buffer_window [OF Nil(1)] by (metis append_Nil append_eq_conv_conj buffer_ok_def concat.simps(1) list.map_disc_iff)
next
  case (Cons f fs)
  obtain k1 where k1: "deliver_frame f (core c) = Some k1" "deliver_all fs k1 = Some k'"
    using Cons.prems(5) by (auto split: option.splits)
  define more_bytes where "more_bytes = concat (map frame_bytes fs) @ part"
  have w: "window c = frame_bytes f @ more_bytes" using Cons.prems(2) by (simp add: more_bytes_def)
  obtain b where b: "parse_step c = Some (True, with_buf k1 b (length more_bytes) c)" "length b = 16384" "take (length more_bytes) b = more_bytes"
    using parse_frame [OF Cons.prems(1) w _ k1(1)] Cons.prems(3) by auto
  define c1 where "c1 = with_buf k1 b (length more_bytes) c"
  have len: "length more_bytes \<le> 16384" using w buffer_window [OF Cons.prems(1)] Cons.prems(1) by (simp add: buffer_ok_def)
  have c1: "buffer_ok c1" "window c1 = concat (map frame_bytes fs) @ part"
    using b(2,3) len by (simp_all add: c1_def buffer_ok_def window_def more_bytes_def [symmetric])
  obtain b' where b': "clrecv_parse c1 = Some (with_buf k' b' (length part) c1)" "length b' = 16384" "take (length part) b' = part"
    using Cons.IH [OF c1] Cons.prems(3,4) k1(2) by (auto simp: c1_def)
  have "clrecv_parse c = clrecv_parse c1" using b(1) by (subst clrecv_parse.simps) (simp add: c1_def)
  then show ?case using b' by (auto simp: c1_def)
qed

subsection \<open>Reading the socket\<close>

text \<open>Input from a connection that stays up.\<close>

definition alive :: "recv_res list \<Rightarrow> bool" where
  "alive inp \<longleftrightarrow> RecvError \<notin> set inp \<and> RecvData [] \<notin> set inp"

lemma recv_fn_alive:
  assumes "alive inp" and "0 < len"
  shows "\<exists>inp'. alive inp' \<and> input_size inp' \<le> input_size inp \<and> (inp \<noteq> [] \<longrightarrow> input_size inp' < input_size inp) \<and>
    (recv_fn inp len = (RecvBlock, inp') \<and> in_bytes inp' = in_bytes inp \<or>
     (\<exists>bs. recv_fn inp len = (RecvData bs, inp') \<and> bs \<noteq> [] \<and> length bs \<le> len \<and> in_bytes inp = bs @ in_bytes inp'))"
  using assms by (induction inp len rule: recv_fn.induct) (auto simp: alive_def input_size_def)

lemma fill_alive:
  assumes "buffer_ok c" and "alive (cc_inputs c)"
  shows "\<exists>b n inp. clrecv_fill c = Some (0, (with_buf (core c) b n c)\<lparr>cc_inputs := inp\<rparr>) \<and> length b = RECV_BUF_SIZE \<and>
    n \<le> RECV_BUF_SIZE \<and> take n b @ in_bytes inp = window c @ in_bytes (cc_inputs c) \<and> alive inp \<and>
    input_size inp \<le> input_size (cc_inputs c) \<and>
    (recv_len c < RECV_BUF_SIZE \<and> cc_inputs c \<noteq> [] \<longrightarrow> input_size inp < input_size (cc_inputs c))"
  using assms
proof (induction c rule: clrecv_fill.induct)
  case (1 c)
  have cu: "c\<lparr>cc_inputs := cc_inputs c\<rparr> = c" by simp
  show ?case
  proof (cases "recv_len c < 16384")
    case False
    have "c = (with_buf (core c) (recv_buf c) (recv_len c) c)\<lparr>cc_inputs := cc_inputs c\<rparr>" by (simp add: with_buf_def)
    moreover have "clrecv_fill c = Some (0, c)" using False by (subst clrecv_fill.simps) simp
    ultimately show ?thesis using 1(2,3) False
      by (intro exI [of _ "recv_buf c"] exI [of _ "recv_len c"] exI [of _ "cc_inputs c"]) (simp add: buffer_ok_def window_def)
  next
    case True
    obtain inp' where inp': "alive inp'" "input_size inp' \<le> input_size (cc_inputs c)"
      "cc_inputs c \<noteq> [] \<longrightarrow> input_size inp' < input_size (cc_inputs c)"
      "recv_fn (cc_inputs c) (16384 - recv_len c) = (RecvBlock, inp') \<and> in_bytes inp' = in_bytes (cc_inputs c) \<or>
       (\<exists>bs. recv_fn (cc_inputs c) (16384 - recv_len c) = (RecvData bs, inp') \<and> bs \<noteq> [] \<and> length bs \<le> 16384 - recv_len c \<and>
         in_bytes (cc_inputs c) = bs @ in_bytes inp')"
      using recv_fn_alive [OF 1(3), of "16384 - recv_len c"] True by auto
    from inp'(4) show ?thesis
    proof
      assume r: "recv_fn (cc_inputs c) (16384 - recv_len c) = (RecvBlock, inp') \<and> in_bytes inp' = in_bytes (cc_inputs c)"
      then have "clrecv_fill c = Some (0, c\<lparr>cc_inputs := inp'\<rparr>)" using True by (subst clrecv_fill.simps) simp
      moreover have "c\<lparr>cc_inputs := inp'\<rparr> = (with_buf (core c) (recv_buf c) (recv_len c) c)\<lparr>cc_inputs := inp'\<rparr>" by (simp add: with_buf_def)
      ultimately show ?thesis using 1(2) inp'(1-3) r
        by (intro exI [of _ "recv_buf c"] exI [of _ "recv_len c"] exI [of _ inp']) (simp add: buffer_ok_def window_def)
    next
      assume "\<exists>bs. recv_fn (cc_inputs c) (16384 - recv_len c) = (RecvData bs, inp') \<and> bs \<noteq> [] \<and> length bs \<le> 16384 - recv_len c \<and>
         in_bytes (cc_inputs c) = bs @ in_bytes inp'"
      then obtain bs where r: "recv_fn (cc_inputs c) (16384 - recv_len c) = (RecvData bs, inp')" "bs \<noteq> []"
        "length bs \<le> 16384 - recv_len c" "in_bytes (cc_inputs c) = bs @ in_bytes inp'" by blast
      define b where "b = take (recv_len c) (recv_buf c) @ bs @ drop (recv_len c + length bs) (recv_buf c)"
      have l: "length (recv_buf c) = 16384" using 1(2) by (simp add: buffer_ok_def)
      then have w: "mem_write (recv_buf c) (recv_len c) bs = Some b" using r(3) True by (simp add: mem_write_def b_def)
      define c1 where "c1 = c\<lparr>cc_inputs := inp', recv_buf := b, recv_len := recv_len c + length bs\<rparr>"
      have lb: "length b = 16384" using mem_write_length [OF w] l by simp
      have ne: "cc_inputs c \<noteq> []" using r(2,4) by auto
      have c1: "buffer_ok c1" "alive (cc_inputs c1)" "window c1 = window c @ bs"
        using lb r(3) True inp'(1) l by (simp_all add: c1_def buffer_ok_def window_def b_def)
      have "\<exists>b n inp. clrecv_fill c1 = Some (0, (with_buf (core c1) b n c1)\<lparr>cc_inputs := inp\<rparr>) \<and> length b = 16384 \<and>
          n \<le> 16384 \<and> take n b @ in_bytes inp = window c1 @ in_bytes (cc_inputs c1) \<and> alive inp \<and> input_size inp \<le> input_size (cc_inputs c1) \<and>
          (recv_len c1 < 16384 \<and> cc_inputs c1 \<noteq> [] \<longrightarrow> input_size inp < input_size (cc_inputs c1))"
        using "1.IH" [OF True r(1) [symmetric] refl w] c1(1,2) by (simp only: c1_def [symmetric])
      then obtain b' n inp where ih: "clrecv_fill c1 = Some (0, (with_buf (core c1) b' n c1)\<lparr>cc_inputs := inp\<rparr>)" "length b' = 16384"
          "n \<le> 16384" "take n b' @ in_bytes inp = window c1 @ in_bytes (cc_inputs c1)" "alive inp" "input_size inp \<le> input_size (cc_inputs c1)"
        by blast
      have "clrecv_fill c = clrecv_fill c1" using True r(1) w by (subst clrecv_fill.simps) (simp add: c1_def)
      moreover have "(with_buf (core c1) b' n c1)\<lparr>cc_inputs := inp\<rparr> = (with_buf (core c) b' n c)\<lparr>cc_inputs := inp\<rparr>"
        by (simp add: c1_def with_buf_def)
      moreover have "cc_inputs c1 = inp'" by (simp add: c1_def)
      ultimately show ?thesis using ih c1(3) r(4) inp'(2,3) ne
        by (intro exI [of _ b'] exI [of _ n] exI [of _ inp]) auto
    qed
  qed
qed

text \<open>The frames at the front of a stream that have arrived whole, and the part of the next one.\<close>

lemma frame_nonempty: "frame_bytes f \<noteq> []"
  by (cases f) (simp_all add: pdu_fields_def be32_def)

lemma split_frames:
  assumes "w @ z = concat (map frame_bytes fs)"
  shows "\<exists>done todo part. fs = done @ todo \<and> w = concat (map frame_bytes done) @ part \<and> part @ z = concat (map frame_bytes todo) \<and>
    (part = [] \<or> (\<exists>f \<in> set todo. part_of part f)) \<and> (todo \<noteq> [] \<longrightarrow> length part < length (frame_bytes (hd todo)))"
  using assms
proof (induction fs arbitrary: w)
  case (Cons f fs)
  show ?case
  proof (cases "length (frame_bytes f) \<le> length w")
    case True
    have "w @ z = frame_bytes f @ concat (map frame_bytes fs)" using Cons.prems by simp
    then obtain us where us: "w = frame_bytes f @ us" "us @ z = concat (map frame_bytes fs)" using prefix_beyond True by blast
    obtain "done" todo part where ih: "fs = done @ todo" "us = concat (map frame_bytes done) @ part" "part @ z = concat (map frame_bytes todo)"
      "part = [] \<or> (\<exists>f \<in> set todo. part_of part f)" "todo \<noteq> [] \<longrightarrow> length part < length (frame_bytes (hd todo))"
      using Cons.IH [OF us(2)] by blast
    then show ?thesis using us(1) by (intro exI [of _ "f # done"] exI [of _ todo] exI [of _ part]) simp
  next
    case False
    obtain us where us: "frame_bytes f = w @ us"
      using prefix_beyond [of "frame_bytes f" "concat (map frame_bytes fs)" w z] Cons.prems False by auto
    then have "us \<noteq> []" using False by auto
    then have "part_of w f" using us by (auto simp: part_of_def)
    then show ?thesis using Cons.prems False by (intro exI [of _ "[]"] exI [of _ "f # fs"] exI [of _ w]) simp
  qed
qed simp

lemma socket_data_frames:
  assumes buf: "buffer_ok c" and core: "core_ok (core c)" and ok: "\<forall>f \<in> set fs. frame_ok f" and up: "alive (cc_inputs c)"
    and str: "window c @ in_bytes (cc_inputs c) = concat (map frame_bytes fs)" and room: "recv_len c < RECV_BUF_SIZE"
  shows "\<exists>done todo c'. handle_socket_data c = Some c' \<and> fs = done @ todo \<and> deliver_all done (core c) = Some (core c') \<and>
    core_ok (core c') \<and> buffer_ok c' \<and> recv_len c' < RECV_BUF_SIZE \<and> alive (cc_inputs c') \<and> cc_state c' = cc_state c \<and>
    window c' @ in_bytes (cc_inputs c') = concat (map frame_bytes todo) \<and>
    (todo \<noteq> [] \<longrightarrow> recv_len c' < length (frame_bytes (hd todo))) \<and>
    input_size (cc_inputs c') \<le> input_size (cc_inputs c) \<and> (cc_inputs c \<noteq> [] \<longrightarrow> input_size (cc_inputs c') < input_size (cc_inputs c))"
proof -
  obtain b n inp where f: "clrecv_fill c = Some (0, (with_buf (core c) b n c)\<lparr>cc_inputs := inp\<rparr>)" "length b = 16384" "n \<le> 16384"
    "take n b @ in_bytes inp = concat (map frame_bytes fs)" "alive inp" "input_size inp \<le> input_size (cc_inputs c)"
    "cc_inputs c \<noteq> [] \<longrightarrow> input_size inp < input_size (cc_inputs c)"
    using fill_alive [OF buf up] str room by auto
  define c1 where "c1 = (with_buf (core c) b n c)\<lparr>cc_inputs := inp\<rparr>"
  have c1: "buffer_ok c1" "window c1 = take n b" "core c1 = core c" using f(2,3) by (simp_all add: c1_def buffer_ok_def window_def)
  obtain "done" todo part where s: "fs = done @ todo" "window c1 = concat (map frame_bytes done) @ part"
    "part @ in_bytes inp = concat (map frame_bytes todo)" "part = [] \<or> (\<exists>f \<in> set todo. part_of part f)"
    "todo \<noteq> [] \<longrightarrow> length part < length (frame_bytes (hd todo))"
    using split_frames [of "window c1"] f(4) c1(2) by metis
  obtain k' where k': "deliver_all done (core c) = Some k'" "core_ok k'" using deliver_all_ok [OF core] by blast
  obtain b' where b': "clrecv_parse c1 = Some (with_buf k' b' (length part) c1)" "length b' = 16384" "take (length part) b' = part"
    using parse_frames [OF c1(1) s(2)] ok s(1,4) k'(1) c1(3) by auto
  have short: "length part < 16384"
  proof (cases "todo = []")
    case False
    then have "frame_ok (hd todo)" using ok s(1) by simp
    then show ?thesis using frame_length [of "hd todo"] s(5) False by simp
  qed (use s(3) in simp)
  have "handle_socket_data c = Some (with_buf k' b' (length part) c1)"
    using f(1) b'(1) by (simp add: handle_socket_data_def c1_def)
  then show ?thesis using s(1,3,5) k' b'(2,3) short f(5-7)
    by (intro exI [of _ "done"] exI [of _ todo] exI [of _ "with_buf k' b' (length part) c1"])
      (simp add: c1_def buffer_ok_def window_def)
qed

lemma input_size_eq_0: "input_size inp = 0 \<longleftrightarrow> inp = []"
  by (cases inp) (auto simp: input_size_def split: recv_res.splits)

text \<open>\<open>n\<close> events of the socket.\<close>

fun serve :: "nat \<Rightarrow> client_ctx \<Rightarrow> client_ctx option" where
  "serve 0 c = Some c"
| "serve (Suc n) c = (case handle_socket_data c of None \<Rightarrow> None | Some c \<Rightarrow> serve n c)"

lemma serve_frames:
  assumes "buffer_ok c" and "core_ok (core c)" and "\<forall>f \<in> set fs. frame_ok f" and "alive (cc_inputs c)"
    and "window c @ in_bytes (cc_inputs c) = concat (map frame_bytes fs)" and "recv_len c < RECV_BUF_SIZE"
    and "input_size (cc_inputs c) < n"
  shows "\<exists>c'. serve n c = Some c' \<and> deliver_all fs (core c) = Some (core c') \<and> core_ok (core c') \<and> recv_len c' = 0 \<and>
    in_bytes (cc_inputs c') = [] \<and> cc_state c' = cc_state c"
  using assms
proof (induction n arbitrary: c fs)
  case (Suc n)
  obtain "done" todo c1 where s: "handle_socket_data c = Some c1" "fs = done @ todo" "deliver_all done (core c) = Some (core c1)"
    "core_ok (core c1)" "buffer_ok c1" "recv_len c1 < 16384" "alive (cc_inputs c1)" "cc_state c1 = cc_state c"
    "window c1 @ in_bytes (cc_inputs c1) = concat (map frame_bytes todo)" "input_size (cc_inputs c1) \<le> input_size (cc_inputs c)"
    "cc_inputs c \<noteq> [] \<longrightarrow> input_size (cc_inputs c1) < input_size (cc_inputs c)"
    "todo \<noteq> [] \<longrightarrow> recv_len c1 < length (frame_bytes (hd todo))"
    using socket_data_frames [OF Suc.prems(1-6)] by blast
  have all: "deliver_all fs (core c) = deliver_all todo (core c1)" using s(2,3) by (simp add: deliver_all_append)
  show ?case
  proof (cases "input_size (cc_inputs c1) < n")
    case True
    then obtain c' where "serve n c1 = Some c'" "deliver_all todo (core c1) = Some (core c')" "core_ok (core c')" "recv_len c' = 0"
      "in_bytes (cc_inputs c') = []" "cc_state c' = cc_state c1"
      using Suc.IH [OF s(5,4) _ s(7,9,6)] Suc.prems(3) s(2) by auto
    then show ?thesis using s(1,8) all by simp
  next
    case False
    then have "n = 0" "cc_inputs c1 = []"
      using Suc.prems(7) s(10,11) input_size_eq_0 [of "cc_inputs c"] input_size_eq_0 [of "cc_inputs c1"] by auto
    moreover have "todo = []"
    proof (rule ccontr)
      assume "todo \<noteq> []"
      then obtain f fs' where t: "todo = f # fs'" by (cases todo) auto
      then have "length (window c1) = length (concat (map frame_bytes todo))" using s(9) \<open>cc_inputs c1 = []\<close> by simp
      then show False using s(12) t buffer_window [OF s(5)] by simp
    qed
    ultimately show ?thesis using s(1,3,4,8,9) all buffer_window [OF s(5)] by simp
  qed
qed simp

end
