(* ===== verification/Clprops.thy ===== *)
theory Clprops
  imports Clstream
begin

text \<open>
  The properties of the client's receiving side: frames are delivered in order, files arrive whole and stay
  where they belong, and three ways in which messages are lost.
\<close>

subsection \<open>The files that a frame leaves alone\<close>

text \<open>\<open>at_rest k name content\<close>: the file has this content, and no transfer writes to it.\<close>

definition writes_to :: "file_transfer \<Rightarrow> byte list \<Rightarrow> bool" where
  "writes_to t name \<longleftrightarrow> ft_active t \<and> (\<exists>pos. ft_fp t = Some (name, pos))"

definition file_kept :: "nat set \<Rightarrow> client_core \<Rightarrow> byte list \<Rightarrow> byte list \<Rightarrow> bool" where
  "file_kept I k name content \<longleftrightarrow> files k name = Some content \<and>
     (\<forall>j < MAX_ACTIVE_TRANSFERS. j \<notin> I \<longrightarrow> \<not> writes_to (transfers k ! j) name)"

lemma kept_update:
  assumes "file_kept I k name content" and "transfers k' = (transfers k)[j := t]" and "files k' name = Some content"
    and "\<not> writes_to t name" and "j \<notin> I"
  shows "file_kept I k' name content \<and> (\<forall>i \<in> I. transfers k' ! i = transfers k ! i)"
  using assms by (cases "j < length (transfers k)") (auto simp: file_kept_def nth_list_update list_update_beyond not_less)

text \<open>A name is free for the file that a frame begins.\<close>

fun names_free :: "client_core \<Rightarrow> frame \<Rightarrow> bool" where
  "names_free k (Pdu mt subj opt msize body) \<longleftrightarrow> (mt = MT_FILE \<longrightarrow> has_free_name (files k) (sanitize_filename (cstr opt)))"
| "names_free k (Chunk subj data) \<longleftrightarrow> True"

fun all_names_free :: "client_core \<Rightarrow> frame list \<Rightarrow> bool" where
  "all_names_free k [] \<longleftrightarrow> True"
| "all_names_free k (f # fs) \<longleftrightarrow> names_free k f \<and> (case deliver_frame f k of None \<Rightarrow> True | Some k \<Rightarrow> all_names_free k fs)"

lemma sanitize_optional_plain: "length opt = OPTDATA_LEN \<Longrightarrow> plain_name (sanitize_filename (cstr opt))"
  using length_takeWhile_le [of "\<lambda>b. b \<noteq> 0" opt] by (intro sanitize_plain) (auto simp: no_NUL_cstr)

lemma drop_transfer_fields [simp]:
  "files (drop_transfer s k) = files k" "can_create (drop_transfer s k) = can_create k" "shown (drop_transfer s k) = shown k"
  by (simp_all add: drop_transfer_def set_transfer_def split: option.split)

lemma drop_transfer_nth:
  "j < MAX_ACTIVE_TRANSFERS \<Longrightarrow> core_ok k \<Longrightarrow> transfers (drop_transfer s k) ! j =
    (if find_transfer k s = Some j then (transfers k ! j)\<lparr>ft_fp := None, ft_active := False\<rparr> else transfers k ! j)"
  by (auto simp: drop_transfer_def set_transfer_def core_ok_def split: option.split)

lemma store_file_effect:
  fixes s data :: "byte list" and msize :: u64 and i :: nat
  assumes "length opt = OPTDATA_LEN" and "has_free_name (files k) (sanitize_filename (cstr opt))"
  defines "dest \<equiv> make_unique_filename (files k) (sanitize_filename (cstr opt)) DESTNAME_SIZE"
  defines "k' \<equiv> store_file s (sanitize_filename (cstr opt)) msize data i k"
  shows "files k dest = None" "plain_name dest" "files k' = (if can_create k dest then (files k)(dest \<mapsto> data) else files k)"
    "transfers k' = transfers k \<or> (\<exists>t. transfers k' = (transfers k)[i := t] \<and> writes_to t dest \<and> ft_sender t = s)"
    "can_create k' = can_create k"
proof -
  note plain = sanitize_optional_plain [OF assms(1)]
  show "files k dest = None" "plain_name dest"
    using unique_name(1,2) [OF plain, where fs = "files k"] assms(2) by (simp_all add: dest_def)
  show "files k' = (if can_create k dest then (files k)(dest \<mapsto> data) else files k)" "can_create k' = can_create k"
    "transfers k' = transfers k \<or> (\<exists>t. transfers k' = (transfers k)[i := t] \<and> writes_to t dest \<and> ft_sender t = s)"
    by (auto simp: k'_def store_file_unfold dest_def start_transfer_def set_transfer_def writes_to_def)
qed

text \<open>A PDU that begins a file touches no file there is, and its transfer takes a slot that is free.\<close>

lemma receive_file_keeps:
  assumes ok: "core_ok k" and opt: "length opt = OPTDATA_LEN" and free: "has_free_name (files k) (sanitize_filename (cstr opt))"
    and keep: "file_kept I k name content" and I: "\<forall>i \<in> I. i < MAX_ACTIVE_TRANSFERS \<and> ft_active (transfers k ! i) \<and> ft_sender (transfers k ! i) \<noteq> s"
    and r: "receive_file s opt msize data k = Some k'"
  shows "file_kept I k' name content \<and> (\<forall>i \<in> I. transfers k' ! i = transfers k ! i)"
proof -
  let ?k = "drop_transfer s k"
  have len: "length (transfers k) = 8" "length (transfers ?k) = 8" using ok drop_transfer_ok(1) [OF ok] by (simp_all add: core_ok_def)
  have same: "\<forall>i \<in> I. transfers ?k ! i = transfers k ! i"
    using I find_transfer_Some [of k s] by (auto simp: drop_transfer_nth [OF _ ok])
  have k1: "file_kept I ?k name content"
    using keep by (auto simp: file_kept_def drop_transfer_nth [OF _ ok] writes_to_def)
  show ?thesis
  proof (cases "alloc_transfer ?k")
    case None
    then show ?thesis using r k1 same receive_file_unfold [OF ok, of s opt msize data] by (auto simp: file_kept_def)
  next
    case (Some j)
    note j = alloc_transfer_Some [OF Some]
    have nI: "j \<notin> I" using I j same by auto
    have k': "k' = store_file s (sanitize_filename (cstr opt)) msize data j ?k"
      using r Some receive_file_unfold [OF ok, of s opt msize data] by simp
    have free': "has_free_name (files ?k) (sanitize_filename (cstr opt))" using free by simp
    note e = store_file_effect(1) [OF opt free']
      store_file_effect(3,4) [OF opt free', where s = s and msize = msize and data = data and i = j, folded k']
    have ne: "make_unique_filename (files ?k) (sanitize_filename (cstr opt)) 33 \<noteq> name"
      using e(1) k1 by (auto simp: file_kept_def)
    then have fk: "files k' name = Some content" using e(2) k1 by (simp add: file_kept_def)
    have nw: "\<not> writes_to t name" if "writes_to t (make_unique_filename (files ?k) (sanitize_filename (cstr opt)) 33)" for t
      using that ne by (auto simp: writes_to_def)
    from e(3) show ?thesis
    proof
      assume "transfers k' = transfers ?k"
      then show ?thesis using fk k1 same by (simp add: file_kept_def)
    next
      assume "\<exists>t. transfers k' = (transfers ?k)[j := t] \<and> writes_to t (make_unique_filename (files ?k) (sanitize_filename (cstr opt)) 33) \<and> ft_sender t = s"
      then obtain t where t: "transfers k' = (transfers ?k)[j := t]" "\<not> writes_to t name" using nw by blast
      show ?thesis using kept_update [OF k1 t(1) fk t(2) nI] same by simp
    qed
  qed
qed

lemma receive_chunk_other:
  assumes ok: "core_ok k" and keep: "file_kept I k name content"
    and I: "\<forall>i \<in> I. i < MAX_ACTIVE_TRANSFERS \<and> ft_active (transfers k ! i) \<and> ft_sender (transfers k ! i) \<noteq> s"
    and r: "receive_chunk s data k = Some k'"
  shows "file_kept I k' name content \<and> (\<forall>i \<in> I. transfers k' ! i = transfers k ! i)"
proof (cases "data = [] \<or> find_transfer k s = None")
  case True
  then show ?thesis using r keep by (auto simp: receive_chunk_def split: if_splits)
next
  case False
  then obtain j where f: "data \<noteq> []" "find_transfer k s = Some j" by auto
  note j = find_transfer_Some [OF f(2)]
  obtain nm pos where fp: "ft_fp (transfers k ! j) = Some (nm, pos)"
    using core_ok_transfer [OF ok, of j] j by (auto simp: transfer_ok_def)
  have nI: "j \<notin> I" using I j by auto
  then have ne: "nm \<noteq> name" using keep j fp by (auto simp: file_kept_def writes_to_def)
  have len: "length (transfers k) = 8" using ok by (simp add: core_ok_def)
  obtain t fs where k': "transfers k' = (transfers k)[j := t]" "files k' name = files k name" "\<not> writes_to t name"
    using r f fp ne by (auto simp: receive_chunk_def Let_def fwrite_def set_transfer_def writes_to_def split: if_splits)
  have "files k' name = Some content" using k'(2) keep by (simp add: file_kept_def)
  then show ?thesis by (rule kept_update [OF keep k'(1) _ k'(3) nI])
qed

subsection \<open>A file on its way\<close>

fun from_chunk :: "byte list \<Rightarrow> frame \<Rightarrow> byte list" where
  "from_chunk s (Chunk subj data) = (if cstr subj = s then data else [])"
| "from_chunk s (Pdu mt subj opt msize body) = []"

fun begins_file :: "byte list \<Rightarrow> frame \<Rightarrow> bool" where
  "begins_file s (Pdu mt subj opt msize body) \<longleftrightarrow> mt = MT_FILE \<and> cstr subj = s"
| "begins_file s (Chunk subj data) \<longleftrightarrow> False"

definition arrived :: "byte list \<Rightarrow> byte list \<Rightarrow> nat \<Rightarrow> byte list \<Rightarrow> client_core \<Rightarrow> bool" where
  "arrived s dest N content k \<longleftrightarrow> length content = N \<and> file_kept {} k dest content \<and> find_transfer k s = None \<and>
     (''[%s] received file %s (%lu bytes)'', [Str s, Str dest, Num N]) \<in> set (shown k)"

definition arriving :: "byte list \<Rightarrow> byte list \<Rightarrow> nat \<Rightarrow> byte list \<Rightarrow> client_core \<Rightarrow> bool" where
  "arriving s dest N got k \<longleftrightarrow> (\<exists>i < MAX_ACTIVE_TRANSFERS. file_kept {i} k dest got \<and> length got < N \<and> N < 2 ^ 64 \<and>
     transfers k ! i = \<lparr>ft_active = True, ft_fp = Some (dest, length got), expected_size = of_nat N,
       ft_received = of_nat (length got), ft_sender = s, ft_filename = dest\<rparr>)"

lemma shown_grows: "deliver_frame f k = Some k' \<Longrightarrow> set (shown k) \<subseteq> set (shown k')"
proof -
  have users: "set (shown k) \<subseteq> set (shown (fold (\<lambda>u. clio_print fmt [Str u]) us k))" for us fmt and k :: client_core
    by (induction us arbitrary: k) (simp, fastforce)
  have showing: "set (shown k) \<subseteq> set (shown (show_users (k\<lparr>user_cache := us\<rparr>)))" for us
    using users [where k = "clio_print ''Online users (%d):'' [Num (length us)] (k\<lparr>user_cache := us\<rparr>)"]
    by (simp add: show_users_def)
  have stored: "set (shown k) \<subseteq> set (shown k')" if "receive_file s raw msize data k = Some k'" for s raw msize data
  proof -
    have e: "shown k1 = shown k" if "end_transfer i k = Some k1" for i k1
      using that by (auto simp: end_transfer_def set_transfer_def split: option.splits)
    have st: "set (shown k1) \<subseteq> set (shown (store_file s d msize data i k1))" for d i k1
      by (auto simp: store_file_unfold start_transfer_def set_transfer_def)
    then show ?thesis using that e by (auto simp: receive_file_def bind_eq_Some_conv split: option.splits) (metis e st subsetD)+
  qed
  assume r: "deliver_frame f k = Some k'"
  show ?thesis
  proof (cases f)
    case (Pdu mt subj opt msize body)
    show ?thesis
      using r stored showing [of "user_names body"]
      by (auto simp: Pdu deliver_pdu_def Let_def server_says_def split: if_splits)
  next
    case (Chunk subj data)
    then show ?thesis using r
      by (auto simp: receive_chunk_def Let_def fwrite_def set_transfer_def split: if_splits option.splits)
  qed
qed

text \<open>Frames that neither carry nor begin a file of the sender.\<close>

lemma deliver_keeps:
  assumes ok: "core_ok k" and f: "frame_ok f" "names_free k f" and keep: "file_kept I k name content"
    and I: "\<forall>i \<in> I. i < MAX_ACTIVE_TRANSFERS \<and> ft_active (transfers k ! i) \<and> ft_sender (transfers k ! i) = s"
    and other: "\<not> begins_file s f" "from_chunk s f = [] \<or> I = {} " and r: "deliver_frame f k = Some k'"
  shows "file_kept I k' name content \<and> (\<forall>i \<in> I. transfers k' ! i = transfers k ! i)"
proof (cases f)
  case (Pdu mt subj opt msize body)
  show ?thesis
  proof (cases "mt = MT_FILE")
    case True
    then have ne: "cstr subj \<noteq> s" using other by (simp add: Pdu)
    then have I': "\<forall>i \<in> I. i < 8 \<and> ft_active (transfers k ! i) \<and> ft_sender (transfers k ! i) \<noteq> cstr subj" using I by simp
    have r': "receive_file (cstr subj) opt msize body k = Some k'"
      using r True by (simp add: Pdu deliver_pdu_def Let_def msg_type_defs)
    show ?thesis by (rule receive_file_keeps [OF ok _ _ keep I' r']) (use f True in \<open>simp_all add: Pdu\<close>)
  next
    case False
    then have "transfers k' = transfers k \<and> files k' = files k"
      using r by (auto simp: Pdu deliver_pdu_def Let_def server_says_def split: if_splits)
    then show ?thesis using keep by (auto simp: file_kept_def)
  qed
next
  case (Chunk subj data)
  then have r': "receive_chunk (cstr subj) data k = Some k'" using r by simp
  show ?thesis
  proof (cases "cstr subj = s \<and> data = []")
    case True
    then show ?thesis using r' keep by (simp add: receive_chunk_def)
  next
    case False
    then have "\<forall>i \<in> I. i < 8 \<and> ft_active (transfers k ! i) \<and> ft_sender (transfers k ! i) \<noteq> cstr subj"
      using I other(2) by (auto simp: Chunk split: if_splits)
    then show ?thesis by (rule receive_chunk_other [OF ok keep _ r'])
  qed
qed

lemma of_nat_less_u64: "n < N \<Longrightarrow> N < 2 ^ 64 \<Longrightarrow> \<not> (of_nat N :: u64) \<le> of_nat n"
  by (simp add: word_le_nat_alt unat_of_nat take_bit_eq_mod)

text \<open>A chunk of the file.\<close>

lemma chunk_arrives:
  assumes ok: "core_ok k" and A: "arriving s dest N got k" and data: "data \<noteq> []" "length got + length data \<le> N"
    and r: "receive_chunk s data k = Some k'"
  shows "if length got + length data = N then arrived s dest N (got @ data) k' else arriving s dest N (got @ data) k'"
proof -
  obtain i where i: "i < 8" "file_kept {i} k dest got" "length got < N" "N < 2 ^ 64"
    "transfers k ! i = \<lparr>ft_active = True, ft_fp = Some (dest, length got), expected_size = of_nat N,
       ft_received = of_nat (length got), ft_sender = s, ft_filename = dest\<rparr>"
    using A by (auto simp: arriving_def)
  have len: "length (transfers k) = 8" using ok by (simp add: core_ok_def)
  have others: "\<forall>j < 8. j \<noteq> i \<longrightarrow> \<not> writes_to (transfers k ! j) dest" "files k dest = Some got" using i(2) by (auto simp: file_kept_def)
  have none: "\<forall>j < 8. j \<noteq> i \<and> ft_active (transfers k ! j) \<longrightarrow> ft_sender (transfers k ! j) \<noteq> s"
    using i(1,5) ok by (force simp: core_ok_def senders_differ_def)
  have find: "find_transfer k s = Some i"
    using i(1,5) none by (auto simp: find_transfer_def find_upt_Some_iff)
  define t where "t = (transfers k ! i)\<lparr>ft_fp := Some (dest, length got + length data), ft_received := of_nat (length got + length data)\<rparr>"
  define k1 where "k1 = set_transfer i t (k\<lparr>files := (files k)(dest \<mapsto> got @ data)\<rparr>)"
  have w: "write_at got (length got) data = got @ data" by (simp add: write_at_def)
  have full: "of_nat (length got + length data) \<ge> (of_nat N :: u64) \<longleftrightarrow> length got + length data = N"
    using data(2) i(4) of_nat_less_u64 [of "length got + length data" N] by (cases "length got + length data = N") auto
  have "receive_chunk s data k = Some (if length got + length data = N
      then clio_print ''[%s] received file %s (%lu bytes)'' [Str s, Str dest, Num (unat (of_nat N :: u64))]
        (set_transfer i (t\<lparr>ft_fp := None, ft_active := False\<rparr>) k1) else k1)"
    using data(1) find i(5) others(2) w full
    by (simp add: receive_chunk_def fwrite_def Let_def k1_def t_def of_nat_add [symmetric] del: of_nat_add)
  then have k': "k' = (if length got + length data = N
      then clio_print ''[%s] received file %s (%lu bytes)'' [Str s, Str dest, Num N]
        (set_transfer i (t\<lparr>ft_fp := None, ft_active := False\<rparr>) k1) else k1)"
    using r i(4) by (simp add: unat_of_nat take_bit_eq_mod split: if_splits)
  show ?thesis
  proof (cases "length got + length data = N")
    case True
    have "find_transfer k' s = None"
      using none i(1) len k' True by (auto simp: find_transfer_None set_transfer_def k1_def nth_list_update)
    then show ?thesis using True k' others i(1) len
      by (auto simp: arrived_def file_kept_def set_transfer_def k1_def nth_list_update writes_to_def)
  next
    case False
    then show ?thesis using k' others i len data(2)
      by (auto simp: arriving_def file_kept_def set_transfer_def k1_def t_def intro!: exI [of _ i])
  qed
qed

text \<open>Nothing else that arrives disturbs the file.\<close>

lemma others_leave_arriving:
  assumes ok: "core_ok k" and A: "arriving s dest N got k" and f: "frame_ok f" "names_free k f" "\<not> begins_file s f" "from_chunk s f = []"
    and r: "deliver_frame f k = Some k'"
  shows "arriving s dest N got k'"
proof -
  obtain i where i: "i < 8" "file_kept {i} k dest got" "length got < N" "N < 2 ^ 64"
    "transfers k ! i = \<lparr>ft_active = True, ft_fp = Some (dest, length got), expected_size = of_nat N,
       ft_received = of_nat (length got), ft_sender = s, ft_filename = dest\<rparr>"
    using A by (auto simp: arriving_def)
  have "file_kept {i} k' dest got \<and> (\<forall>j \<in> {i}. transfers k' ! j = transfers k ! j)"
    by (rule deliver_keeps [OF ok f(1,2) i(2) _ f(3) _ r]) (use i f(4) in simp_all)
  then show ?thesis using i by (auto simp: arriving_def)
qed

lemma find_none_stays:
  assumes ok: "core_ok k" and none: "find_transfer k s = None" and f: "\<not> begins_file s f" and r: "deliver_frame f k = Some k'"
  shows "find_transfer k' s = None"
proof -
  have same: "find_transfer k' s = None" if "transfers k' = transfers k" using none that by (simp add: find_transfer_None)
  have upd: "find_transfer k' s = None" if "transfers k' = (transfers k1)[j := t]" "find_transfer k1 s = None" "ft_active t \<Longrightarrow> ft_sender t \<noteq> s"
    for k1 t j using that by (cases "j < length (transfers k1)") (auto simp: find_transfer_None nth_list_update list_update_beyond not_less)
  show ?thesis
  proof (cases f)
    case (Pdu mt subj opt msize body)
    show ?thesis
    proof (cases "mt = MT_FILE")
      case True
      then have ne: "cstr subj \<noteq> s" using f by (simp add: Pdu)
      have r': "receive_file (cstr subj) opt msize body k = Some k'"
        using r True by (simp add: Pdu deliver_pdu_def Let_def msg_type_defs)
      let ?k = "drop_transfer (cstr subj) k"
      have nk: "find_transfer ?k s = None"
        using none ok unfolding find_transfer_None by (auto simp: drop_transfer_nth)
      show ?thesis
      proof (cases "alloc_transfer ?k")
        case None
        then show ?thesis using r' receive_file_unfold [OF ok, of "cstr subj" opt msize body] nk by (auto simp: find_transfer_None)
      next
        case (Some j)
        then have "k' = store_file (cstr subj) (sanitize_filename (cstr opt)) msize body j ?k"
          using r' receive_file_unfold [OF ok, of "cstr subj" opt msize body] by simp
        then have "transfers k' = transfers ?k \<or> (\<exists>t. transfers k' = (transfers ?k)[j := t] \<and> ft_sender t \<noteq> s)"
          using ne by (auto simp: store_file_unfold start_transfer_def set_transfer_def)
        then show ?thesis
        proof
          assume "transfers k' = transfers ?k"
          then show ?thesis using nk by (simp add: find_transfer_None)
        next
          assume "\<exists>t. transfers k' = (transfers ?k)[j := t] \<and> ft_sender t \<noteq> s"
          then show ?thesis using upd [OF _ nk] by blast
        qed
      qed
    next
      case False
      then have "transfers k' = transfers k"
        using r by (auto simp: Pdu deliver_pdu_def Let_def server_says_def split: if_splits)
      then show ?thesis by (rule same)
    qed
  next
    case (Chunk subj data)
    then have r': "receive_chunk (cstr subj) data k = Some k'" using r by simp
    show ?thesis
    proof (cases "data = [] \<or> find_transfer k (cstr subj) = None")
      case True
      then have "k' = k" using r' by (auto simp: receive_chunk_def split: if_splits)
      then show ?thesis using none by simp
    next
      case False
      then obtain j where j: "data \<noteq> []" "find_transfer k (cstr subj) = Some j" by auto
      have ne: "ft_sender (transfers k ! j) \<noteq> s" using none find_transfer_Some [OF j(2)] by (auto simp: find_transfer_None)
      obtain fp where fp: "ft_fp (transfers k ! j) = Some fp" using r' j by (auto simp: receive_chunk_def split: option.splits)
      define t where "t = (transfers k ! j)\<lparr>ft_fp := Some (fst (fwrite data fp (files k))),
        ft_received := ft_received (transfers k ! j) + of_nat (length data)\<rparr>"
      have "transfers k' = (transfers k)[j := t] \<or> transfers k' = (transfers k)[j := t\<lparr>ft_fp := None, ft_active := False\<rparr>]"
        using r' j fp by (auto simp: receive_chunk_def Let_def split_beta set_transfer_def t_def split: if_splits)
      then show ?thesis using upd [OF _ none] ne by (auto simp: t_def)
    qed
  qed
qed

lemma others_leave_arrived:
  assumes ok: "core_ok k" and A: "arrived s dest N got k" and f: "frame_ok f" "names_free k f" "\<not> begins_file s f"
    and r: "deliver_frame f k = Some k'"
  shows "arrived s dest N got k'"
proof -
  have "file_kept {} k' dest got \<and> (\<forall>j \<in> {}. transfers k' ! j = transfers k ! j)"
    by (rule deliver_keeps [OF ok f(1,2) _ _ f(3) _ r]) (use A in \<open>simp_all add: arrived_def\<close>)
  moreover have "find_transfer k' s = None"
    using find_none_stays [OF ok _ f(3) r] A by (simp add: arrived_def)
  moreover have "set (shown k) \<subseteq> set (shown k')" by (rule shown_grows [OF r])
  ultimately show ?thesis using A by (auto simp: arrived_def)
qed

lemma arrived_stays:
  assumes "core_ok k" and "arrived s dest N content k" and "\<forall>f \<in> set fs. frame_ok f \<and> \<not> begins_file s f" and "all_names_free k fs"
    and "deliver_all fs k = Some k'"
  shows "arrived s dest N content k'"
  using assms
proof (induction fs arbitrary: k)
  case (Cons f fs)
  obtain k1 where k1: "deliver_frame f k = Some k1" "core_ok k1" using deliver_ok [OF Cons.prems(1)] by blast
  have "arrived s dest N content k1"
    by (rule others_leave_arrived [OF Cons.prems(1,2) _ _ _ k1(1)]) (use Cons.prems(3,4) in simp_all)
  then show ?case using Cons.IH [OF k1(2)] Cons.prems(3-5) k1(1) by simp
qed simp

lemma file_stream:
  assumes "core_ok k" and "arriving s dest N got k" and "\<forall>f \<in> set fs. frame_ok f \<and> \<not> begins_file s f" and "all_names_free k fs"
    and "deliver_all fs k = Some k'" and "length got + length (concat (map (from_chunk s) fs)) = N"
  shows "arrived s dest N (got @ concat (map (from_chunk s) fs)) k'"
  using assms
proof (induction fs arbitrary: k got)
  case Nil
  then show ?case by (auto simp: arriving_def)
next
  case (Cons f fs)
  obtain k1 where k1: "deliver_frame f k = Some k1" "core_ok k1" using deliver_ok [OF Cons.prems(1)] by blast
  have later: "deliver_all fs k1 = Some k'" "all_names_free k1 fs" "\<forall>f \<in> set fs. frame_ok f \<and> \<not> begins_file s f"
    using Cons.prems(3-5) k1(1) by simp_all
  show ?case
  proof (cases "from_chunk s f = []")
    case True
    have "arriving s dest N got k1"
      by (rule others_leave_arriving [OF Cons.prems(1,2) _ _ _ True k1(1)]) (use Cons.prems(3,4) in simp_all)
    then show ?thesis using Cons.IH [OF k1(2) _ later(3,2,1)] Cons.prems(6) True by simp
  next
    case False
    then obtain subj data where f: "f = Chunk subj data" "cstr subj = s" "data \<noteq> []" by (cases f) (auto split: if_splits)
    then have r: "receive_chunk s data k = Some k1" using k1(1) by simp
    have fit: "length got + length data \<le> N" using Cons.prems(6) f by simp
    note step = chunk_arrives [OF Cons.prems(1,2) f(3) fit r]
    show ?thesis
    proof (cases "length got + length data = N")
      case True
      then have none: "concat (map (from_chunk s) fs) = []" using Cons.prems(6) f by auto
      have "arrived s dest N (got @ data) k'"
        using step True arrived_stays [OF k1(2) _ later(3,2,1)] by simp
      then show ?thesis using f by (simp add: none)
    next
      case False
      then show ?thesis using step Cons.IH [OF k1(2) _ later(3,2,1), of "got @ data"] Cons.prems(6) f by simp
    qed
  qed
qed

text \<open>The streams that are open write to files that exist.\<close>

definition streams_exist :: "client_core \<Rightarrow> bool" where
  "streams_exist k \<longleftrightarrow> (\<forall>j < MAX_ACTIVE_TRANSFERS. \<forall>name. writes_to (transfers k ! j) name \<longrightarrow> files k name \<noteq> None)"

lemma file_begins:
  assumes ok: "core_ok k" and ex: "streams_exist k" and opt: "length opt = OPTDATA_LEN"
    and free: "has_free_name (files k) (sanitize_filename (cstr opt))" and N: "N < 2 ^ 64" "length data \<le> N"
    and slot: "alloc_transfer (drop_transfer s k) = Some i"
  defines "dest \<equiv> make_unique_filename (files k) (sanitize_filename (cstr opt)) DESTNAME_SIZE"
  assumes can: "can_create k dest" and r: "receive_file s opt (of_nat N) data k = Some k'"
  shows "if length data = N then arrived s dest N data k' else arriving s dest N data k'"
proof -
  let ?k = "drop_transfer s k"
  note i = alloc_transfer_Some [OF slot]
  have len: "length (transfers ?k) = 8" using drop_transfer_ok(1) [OF ok] by (simp add: core_ok_def)
  have new: "files k dest = None" using store_file_effect(1) [OF opt free] by (simp add: dest_def)
  have nw: "\<forall>j < 8. \<not> writes_to (transfers ?k ! j) dest"
    using ex new by (auto simp: streams_exist_def drop_transfer_nth [OF _ ok] writes_to_def split: if_splits)
  have full: "of_nat (length data) \<ge> (of_nat N :: u64) \<longleftrightarrow> length data = N"
    using N of_nat_less_u64 [of "length data" N] by (cases "length data = N") auto
  have "k' = store_file s (sanitize_filename (cstr opt)) (of_nat N) data i ?k"
    using r slot receive_file_unfold [OF ok, of s opt "of_nat N" data] by simp
  then have k': "k' = (if length data = N
      then clio_print ''[%s] received file %s (%lu bytes)'' [Str s, Str dest, Num N] (?k\<lparr>files := (files k)(dest \<mapsto> data)\<rparr>)
      else start_transfer s dest (of_nat N) (dest, length data) data i (?k\<lparr>files := (files k)(dest \<mapsto> data)\<rparr>))"
    using can full N(1) by (simp add: store_file_unfold dest_def unat_of_nat take_bit_eq_mod)
  show ?thesis
  proof (cases "length data = N")
    case True
    then show ?thesis using k' nw drop_transfer_ok(2) [OF ok, of s]
      by (simp add: arrived_def file_kept_def find_transfer_None)
  next
    case False
    then show ?thesis using k' nw i len N
      by (auto simp: arriving_def file_kept_def start_transfer_def set_transfer_def intro!: exI [of _ i])
  qed
qed

text \<open>An idle client.\<close>

definition idle_transfer :: file_transfer where
  "idle_transfer = \<lparr>ft_active = False, ft_fp = None, expected_size = 0, ft_received = 0, ft_sender = [], ft_filename = []\<rparr>"

definition idle_core :: client_core where
  "idle_core = \<lparr>transfers = replicate MAX_ACTIVE_TRANSFERS idle_transfer, files = Map.empty, can_create = (\<lambda>_. True), user_cache = [],
     awaiting_resp = False, last_resp_code = 0, sending_chunks = False, transfer_error = False, shown = []\<rparr>"

definition idle_client :: "recv_res list \<Rightarrow> client_ctx" where
  "idle_client inp = \<lparr>core = idle_core, cc_state = ST_CONNECTED, connection = \<lparr>conn_fd = 5, ssl = False\<rparr>, use_tls = False, cc_username = [97], server_host = [],
     recv_buf = replicate RECV_BUF_SIZE 0, recv_len = 0, running = True, watched = True, prompt = [], cc_inputs = inp, cc_outputs = [],
     cc_sent = [], polls = [], pendings = []\<rparr>"

lemma idle_core_ok: "core_ok idle_core" "streams_exist idle_core" "alloc_transfer (drop_transfer s idle_core) = Some 0"
  "has_free_name (files idle_core) d" "can_create idle_core d" "find_transfer idle_core s = None" "files idle_core = Map.empty"
proof -
  have t: "transfers idle_core ! j = idle_transfer" if "j < 8" for j using that by (simp add: idle_core_def)
  show n: "find_transfer idle_core s = None" by (simp add: find_transfer_None t idle_transfer_def)
  show "core_ok idle_core" by (simp add: core_ok_def idle_core_def list_all_length transfer_ok_def idle_transfer_def senders_differ_def)
  show "streams_exist idle_core" by (simp add: streams_exist_def t idle_transfer_def writes_to_def)
  show "alloc_transfer (drop_transfer s idle_core) = Some 0"
    by (simp add: alloc_transfer_def drop_transfer_def n find_upt_Some_iff t idle_transfer_def)
  show "has_free_name (files idle_core) d" "can_create idle_core d" "files idle_core = Map.empty"
    by (auto simp: has_free_name_def idle_core_def name_choices_def)
qed

lemma idle_client_ok: "buffer_ok (idle_client inp)" "core (idle_client inp) = idle_core" "cc_inputs (idle_client inp) = inp"
  "recv_len (idle_client inp) = 0" "window (idle_client inp) = []"
  by (simp_all add: idle_client_def buffer_ok_def window_def)

subsection \<open>Messages that are lost\<close>

lemma of_be32_first:
  assumes "length bs = 4" and "of_be32 bs = m"
  shows "hd bs = hd (be32 m)"
  using be32_of_be32 [OF assms(1)] assms(2) by simp

lemma no_mark_after_zero:
  assumes "b = 0 # bs" and "3 \<le> length bs"
  shows "\<exists>m. load32 b 0 = Some m \<and> m \<noteq> PDU_SYNC_HDR_MARK \<and> m \<noteq> CHUNK_SYNC_HDR_MARK"
proof -
  have l: "length (take 4 b) = 4" "hd (take 4 b) = 0" using assms by simp_all
  have "of_be32 (take 4 b) \<noteq> m" if "hd (be32 m) \<noteq> 0" for m using of_be32_first [OF l(1), of m] l(2) that by auto
  moreover have "hd (be32 PDU_SYNC_HDR_MARK) \<noteq> 0" "hd (be32 CHUNK_SYNC_HDR_MARK) \<noteq> 0"
    by (simp_all add: be32_def PDU_SYNC_HDR_MARK_def CHUNK_SYNC_HDR_MARK_def)
  ultimately show ?thesis using assms by (simp add: load32_Some)
qed

lemma resync_drops_all:
  assumes "sz \<le> length b" and "\<forall>p. p + 3 < sz \<longrightarrow> take 4 (drop p b) \<noteq> be32 PDU_SYNC_HDR_MARK"
  shows "lwmp_stream_resync b sz = Some (b, 0)"
proof -
  have "memmem_mark b sz = None" using assms(2) by (auto simp: memmem_mark_def find_upt_None_iff)
  then show ?thesis using assms(1) by (subst lwmp_stream_resync.simps) simp
qed

text \<open>A text without a payload: the NUL that ends it is stored over the first byte behind it.\<close>

lemma empty_text_step:
  assumes buf: "buffer_ok c" and subj: "length subj = UNAMESIZE" and opt: "length opt = OPTDATA_LEN"
    and w: "window c = frame_bytes (Pdu MT_MSG subj opt 0 []) @ x # xs"
  shows "\<exists>b. parse_step c = Some (True, with_buf (clio_print ''[%s]: %s'' [Str (cstr subj), Str []] (core c)) b (length (x # xs)) c) \<and>
    length b = RECV_BUF_SIZE \<and> take (length (x # xs)) b = 0 # xs"
proof -
  let ?hdr = "frame_bytes (Pdu MT_MSG subj opt 0 [])"
  define tail where "tail = drop (recv_len c) (recv_buf c)"
  have hl: "length ?hdr = 81" using length_pdu_fields [OF subj opt] by simp
  have b: "recv_buf c = ?hdr @ (x # xs) @ tail" and n: "recv_len c = 81 + length (x # xs)"
    using buffer_window [OF buf] w hl by (simp_all add: tail_def)
  have lb: "length (recv_buf c) = 16384" "recv_len c \<le> 16384" using buf by (simp_all add: buffer_ok_def)
  note rd = pdu_reads [OF subj opt b]
  have wire: "wire_of MT_MSG 0 = 0" by (simp add: wire_of_def msg_type_defs)
  have st: "mem_write (recv_buf c) 81 [0] = Some (?hdr @ (0 # xs) @ tail)"
    unfolding b using hl by (simp add: mem_write_def del: frame_bytes.simps)
  have cr: "cstr_read (?hdr @ (0 # xs) @ tail) 81 = Some []"
    using hl by (simp add: cstr_read_def cstr_at_def del: frame_bytes.simps)
  let ?k = "clio_print ''[%s]: %s'' [Str (cstr subj), Str []] (core c)"
  have proc: "process_received_pdu 0 c = Some (with_buf ?k (?hdr @ (0 # xs) @ tail) (recv_len c) c)"
    using rd(5,6) st cr
    by (simp add: process_received_pdu_def process_msg_def store_at_def say_def upd_core_def with_buf_def del: frame_bytes.simps)
  obtain b' where b': "consume 81 (with_buf ?k (?hdr @ (0 # xs) @ tail) (recv_len c) c) = with_buf ?k b' (length (0 # xs)) c"
    "length b' = length (?hdr @ (0 # xs) @ tail)" "take (length (0 # xs)) b' = 0 # xs"
    using consume_with_buf [of "?hdr @ (0 # xs) @ tail" ?hdr "0 # xs" tail "recv_len c" ?k c] n unfolding hl by auto
  have un: "unat (of_nat (recv_len c) :: u64) = recv_len c" using lb(2) by (simp add: unat_of_nat take_bit_eq_mod)
  have "\<not> of_nat (recv_len c) < of_nat 81 + (0 :: u64)" unfolding word_less_nat_alt un using n by simp
  moreover have "unat (of_nat 81 + (0 :: u64)) = 81" by simp
  moreover have "81 \<le> recv_len c" using n by simp
  ultimately have "parse_pdu c = Some (True, consume 81 (with_buf ?k (?hdr @ (0 # xs) @ tail) (recv_len c) c))"
    using parse_pdu_intact [OF rd(1,3,4,5)] unfolding wire proc by (simp only: if_False option.case)
  then have "parse_step c = Some (True, with_buf ?k b' (length (x # xs)) c)"
    using rd(2) n b'(1) by (simp add: parse_step_def)
  moreover have "length b' = 16384" using b'(2) lb(1) unfolding b by simp
  ultimately show ?thesis using b'(3) by auto
qed

lemma zeroed_frame_dropped:
  assumes buf: "buffer_ok c" and w: "window c = 0 # xs" and len: "3 \<le> length xs"
    and no: "\<forall>p. p + 3 < length (0 # xs) \<longrightarrow> take 4 (drop p (0 # xs)) \<noteq> be32 PDU_SYNC_HDR_MARK"
  shows "clrecv_parse c = Some (c\<lparr>recv_len := 0\<rparr>)"
proof -
  have b: "recv_buf c = 0 # xs @ drop (recv_len c) (recv_buf c)" and n: "recv_len c = length (0 # xs)"
    using buffer_window [OF buf] w by auto
  obtain m where m: "load32 (recv_buf c) 0 = Some m" "m \<noteq> PDU_SYNC_HDR_MARK" "m \<noteq> CHUNK_SYNC_HDR_MARK"
    using no_mark_after_zero [OF b] len by auto
  have "take 4 (drop p (recv_buf c)) = take 4 (drop p (0 # xs))" if "p + 3 < recv_len c" for p
  proof -
    have "take 4 (drop p (0 # xs @ drop (recv_len c) (recv_buf c))) = take 4 (drop p ((0 # xs) @ drop (recv_len c) (recv_buf c)))" by simp
    also have "\<dots> = take 4 (drop p (0 # xs))" using that n by (subst drop_append) simp
    finally show ?thesis by (subst b)
  qed
  then have "lwmp_stream_resync (recv_buf c) (recv_len c) = Some (recv_buf c, 0)"
    using no n buf by (intro resync_drops_all) (auto simp: buffer_ok_def)
  then have "resync c = Some (c\<lparr>recv_len := 0\<rparr>)" by (simp add: resync_def)
  then have "parse_step c = Some (False, c\<lparr>recv_len := 0\<rparr>)"
    using m n len by (simp add: parse_step_def)
  then show ?thesis by (subst clrecv_parse.simps) simp
qed

subsection \<open>The properties\<close>

text \<open>C14. Frames are delivered in order: however the network cuts the stream of well-formed frames, and wherever
  reads have to wait in between, once the events of the socket have been handled every frame has been handled
  exactly once, whole and in the order in which the server sent it, with the effect that \<open>deliver_frame\<close> gives to it; the
  buffer is empty again, and neither an access outside it nor an endless loop has occurred.\<close>

theorem frames_delivered_in_order:
  assumes "buffer_ok c" and "recv_len c = 0" and "core_ok (core c)" and "\<forall>f \<in> set fs. frame_ok f" and "alive (cc_inputs c)"
    and "in_bytes (cc_inputs c) = concat (map frame_bytes fs)" and "input_size (cc_inputs c) < n"
  shows "\<exists>c'. serve n c = Some c' \<and> deliver_all fs (core c) = Some (core c') \<and> core_ok (core c') \<and> recv_len c' = 0 \<and>
    in_bytes (cc_inputs c') = [] \<and> cc_state c' = cc_state c"
  using serve_frames [of c fs n] assms by (simp add: window_def)

definition sample_text :: frame where
  "sample_text = Pdu MT_MSG (98 # replicate 31 0) (replicate 32 0) 3 [104, 105, 0]"

definition sample_chunk :: frame where
  "sample_chunk = Chunk (98 # replicate 31 0) [1, 2]"

lemma sample_frames_ok: "frame_ok sample_text" "frame_ok sample_chunk"
  by (simp_all add: sample_text_def sample_chunk_def msg_type_defs)

theorem frames_delivered_in_order_witness:
  "\<exists>c' inp. inp = [RecvData (take 7 (frame_bytes sample_text @ frame_bytes sample_chunk)), RecvBlock,
       RecvData (drop 7 (frame_bytes sample_text @ frame_bytes sample_chunk))] \<and>
     serve (input_size inp + 1) (idle_client inp) = Some c' \<and> shown (core c') = [(''[%s]: %s'', [Str [98], Str [104, 105]])]"
proof -
  define bs where "bs = frame_bytes sample_text @ frame_bytes sample_chunk"
  define inp where "inp = [RecvData (take 7 bs), RecvBlock, RecvData (drop 7 bs)]"
  have len: "length bs = 124" by (simp add: bs_def sample_text_def sample_chunk_def pdu_fields_def)
  then have ne: "take 7 bs \<noteq> []" "drop 7 bs \<noteq> []" by (auto dest: arg_cong [where f = length])
  have inp: "alive inp" "in_bytes inp = concat (map frame_bytes [sample_text, sample_chunk])"
  proof -
    show "alive inp" using ne by (simp add: inp_def alive_def)
    have "in_bytes inp = bs" by (simp add: inp_def)
    then show "in_bytes inp = concat (map frame_bytes [sample_text, sample_chunk])" by (simp add: bs_def)
  qed
  have d: "deliver_all [sample_text, sample_chunk] idle_core = Some (clio_print ''[%s]: %s'' [Str [98], Str [104, 105]] idle_core)"
    using idle_core_ok(6) by (simp add: sample_text_def sample_chunk_def deliver_pdu_def receive_chunk_def find_transfer_def)
  have h: "recv_len (idle_client inp) = 0" "core_ok (core (idle_client inp))" "\<forall>f \<in> set [sample_text, sample_chunk]. frame_ok f"
    "alive (cc_inputs (idle_client inp))" "in_bytes (cc_inputs (idle_client inp)) = concat (map frame_bytes [sample_text, sample_chunk])"
    "input_size (cc_inputs (idle_client inp)) < input_size inp + 1"
    using inp sample_frames_ok idle_core_ok(1) unfolding idle_client_ok by simp_all
  from frames_delivered_in_order [OF idle_client_ok(1) h] obtain c' where c': "serve (input_size inp + 1) (idle_client inp) = Some c'"
    "deliver_all [sample_text, sample_chunk] idle_core = Some (core c')" unfolding idle_client_ok by blast
  have "shown (core c') = [(''[%s]: %s'', [Str [98], Str [104, 105]])]"
  proof -
    have "core c' = clio_print ''[%s]: %s'' [Str [98], Str [104, 105]] idle_core" using c'(2) unfolding d by simp
    then show ?thesis by (simp add: idle_core_def)
  qed
  then show ?thesis using c'(1) unfolding inp_def bs_def by blast
qed

text \<open>C15. A received file stays where it belongs: whatever name the sender gives, every file that exists keeps its
  content, and what is new is at most one file, whose name has no separator, is neither empty nor a directory entry
  and is one of the choices for the sanitized name, provided that one of these choices is free.\<close>

theorem received_file_contained:
  assumes "core_ok k" and "length raw_name = OPTDATA_LEN" and "has_free_name (files k) (sanitize_filename (cstr raw_name))"
  shows "\<exists>k' dest. receive_file s raw_name msize data k = Some k' \<and> files k dest = None \<and> plain_name dest \<and>
    dest \<in> set (name_choices (sanitize_filename (cstr raw_name))) \<and> (\<forall>name. name \<noteq> dest \<longrightarrow> files k' name = files k name) \<and>
    (files k' dest = None \<or> files k' dest = Some data)"
proof -
  let ?d = "sanitize_filename (cstr raw_name)"
  define dest where "dest = make_unique_filename (files k) ?d 33"
  have free: "has_free_name (files (drop_transfer s k)) ?d" using assms(3) by simp
  note e = store_file_effect(1,2) [OF assms(2) free, unfolded drop_transfer_fields, folded dest_def]
    store_file_effect(3) [OF assms(2) free, where s = s and msize = msize and data = data, unfolded drop_transfer_fields, folded dest_def]
  have c: "dest \<in> set (name_choices ?d)" using unique_name(3) [OF sanitize_optional_plain [OF assms(2)]] by (simp add: dest_def)
  show ?thesis
  proof (cases "alloc_transfer (drop_transfer s k)")
    case None
    then show ?thesis using receive_file_unfold [OF assms(1)] e(1,2) c by (intro exI [of _ dest] exI) auto
  next
    case (Some i)
    then show ?thesis using receive_file_unfold [OF assms(1)] e c
      by (intro exI [of _ "store_file s ?d msize data i (drop_transfer s k)"] exI [of _ dest]) simp
  qed
qed

theorem received_file_contained_witness:
  "\<exists>k' dest. receive_file [98] (strncpy_bytes [46, 46, 47, 120, 47, 46, 46] OPTDATA_LEN) 1 [7] idle_core = Some k' \<and> plain_name dest \<and>
     (\<forall>name. name \<noteq> dest \<longrightarrow> files k' name = None)"
proof -
  have "length (strncpy_bytes [46, 46, 47, 120, 47, 46, 46] 32 :: byte list) = 32" by simp
  from received_file_contained [OF idle_core_ok(1) this idle_core_ok(4), of "[98]" 1 "[7]"] show ?thesis
    unfolding idle_core_ok(7) by blast
qed

text \<open>C16. Files arrive whole: when the PDU that begins a file of \<open>N\<close> bytes is followed by frames among which
  the chunks of its sender carry the remaining bytes, then, whatever texts, lists, answers and files of others come in
  between, at the end the file is stored under the name that was chosen for it, a name that no file had, with
  exactly the bytes that were sent, and it has been reported as received.\<close>

theorem received_file_complete:
  assumes "core_ok k" and "streams_exist k" and "frame_ok (Pdu MT_FILE subj opt (of_nat N) body)"
    and "\<forall>f \<in> set fs. frame_ok f \<and> \<not> begins_file (cstr subj) f"
    and "all_names_free k (Pdu MT_FILE subj opt (of_nat N) body # fs)"
    and "N = length (body @ concat (map (from_chunk (cstr subj)) fs))" and "N < 2 ^ 64"
    and "alloc_transfer (drop_transfer (cstr subj) k) = Some i"
    and "can_create k (make_unique_filename (files k) (sanitize_filename (cstr opt)) DESTNAME_SIZE)"
  shows "\<exists>k' dest. deliver_all (Pdu MT_FILE subj opt (of_nat N) body # fs) k = Some k' \<and>
    dest = make_unique_filename (files k) (sanitize_filename (cstr opt)) DESTNAME_SIZE \<and> files k dest = None \<and> plain_name dest \<and>
    files k' dest = Some (body @ concat (map (from_chunk (cstr subj)) fs)) \<and>
    (''[%s] received file %s (%lu bytes)'', [Str (cstr subj), Str dest, Num N]) \<in> set (shown k')"
proof -
  let ?f = "Pdu MT_FILE subj opt (of_nat N) body"
  define dest where "dest = make_unique_filename (files k) (sanitize_filename (cstr opt)) 33"
  have opt: "length opt = 32" and free: "has_free_name (files k) (sanitize_filename (cstr opt))" using assms(3,5) by simp_all
  obtain k1 where k1: "deliver_frame ?f k = Some k1" "core_ok k1" using deliver_ok [OF assms(1)] by blast
  then have r: "receive_file (cstr subj) opt (of_nat N) body k = Some k1" by (simp add: deliver_pdu_def Let_def msg_type_defs)
  obtain k' where k': "deliver_all fs k1 = Some k'" using deliver_all_ok [OF k1(2)] by blast
  have names: "all_names_free k1 fs" using assms(5) k1(1) by simp
  have le: "length body \<le> N" using assms(6) by simp
  note b = file_begins [OF assms(1,2) opt free assms(7) le assms(8,9) r, folded dest_def]
  have "arrived (cstr subj) dest N (body @ concat (map (from_chunk (cstr subj)) fs)) k'"
  proof (cases "length body = N")
    case True
    then have none: "concat (map (from_chunk (cstr subj)) fs) = []" using assms(6) by auto
    show ?thesis using b True arrived_stays [OF k1(2) _ assms(4) names k'] by (simp add: none)
  next
    case False
    then have "arriving (cstr subj) dest N body k1" using b by (simp only: if_False)
    then show ?thesis by (rule file_stream [OF k1(2) _ assms(4) names k']) (use assms(6) in simp)
  qed
  moreover have "files k dest = None" "plain_name dest"
    using unique_name(1,2) [OF sanitize_optional_plain [OF opt], where fs = "files k"] free by (simp_all add: dest_def)
  ultimately show ?thesis using k1(1) k'
    by (intro exI [of _ k'] exI [of _ dest]) (simp add: arrived_def file_kept_def dest_def)
qed

theorem received_file_complete_witness:
  "\<exists>k'. deliver_all [Pdu MT_FILE (98 # replicate 31 0) (120 # replicate 31 0) 4017 (replicate 4015 7), sample_text, sample_chunk] idle_core = Some k' \<and>
     files k' [120] = Some (replicate 4015 7 @ [1, 2])"
proof -
  let ?subj = "98 # replicate 31 0 :: byte list" and ?opt = "120 # replicate 31 0 :: byte list" and ?body = "replicate 4015 7 :: byte list"
  have s: "sanitize_filename (cstr ?opt) = [120]" by (simp add: sanitize_filename_def strrchr_def)
  have d: "make_unique_filename (files idle_core) [120] 33 = [120]" by (simp add: make_unique_filename_def idle_core_ok)
  have c: "concat (map (from_chunk (cstr ?subj)) [sample_text, sample_chunk]) = [1, 2]"
    by (simp add: sample_text_def sample_chunk_def)
  have f1: "frame_ok (Pdu MT_FILE ?subj ?opt (of_nat 4017) ?body)" by (simp add: msg_type_defs)
  have f2: "\<forall>f \<in> set [sample_text, sample_chunk]. frame_ok f \<and> \<not> begins_file (cstr ?subj) f"
    using sample_frames_ok by (simp add: sample_text_def sample_chunk_def msg_type_defs)
  have names: "names_free k sample_text" "names_free k sample_chunk" for k
    by (simp_all add: sample_text_def sample_chunk_def msg_type_defs)
  then have later: "all_names_free k [sample_text, sample_chunk]" for k
    by (simp del: deliver_frame.simps split: option.split)
  have f3: "all_names_free idle_core (Pdu MT_FILE ?subj ?opt (of_nat 4017) ?body # [sample_text, sample_chunk])"
    using idle_core_ok(4) later by (simp del: deliver_frame.simps all_names_free.simps(1) split: option.split)
  have f4: "4017 = length (?body @ concat (map (from_chunk (cstr ?subj)) [sample_text, sample_chunk]))" unfolding c by simp
  have lt: "(4017 :: nat) < 2 ^ 64" by simp
  have r: "\<exists>k' dest. deliver_all (Pdu MT_FILE ?subj ?opt (of_nat 4017) ?body # [sample_text, sample_chunk]) idle_core = Some k' \<and>
      dest = [120] \<and> files idle_core dest = None \<and> plain_name dest \<and> files k' dest = Some (?body @ [1, 2]) \<and>
      (''[%s] received file %s (%lu bytes)'', [Str (cstr ?subj), Str dest, Num 4017]) \<in> set (shown k')"
    by (rule received_file_complete [OF idle_core_ok(1,2) f1 f2 f3 f4 lt idle_core_ok(3,5), unfolded c s d])
  have "(of_nat 4017 :: u64) = 4017" by simp
  then show ?thesis using r unfolding \<open>of_nat 4017 = 4017\<close> by blast
qed

text \<open>C17. An empty text destroys the message behind it: the server accepts texts without a byte; when one has
  arrived together with the next frame, the NUL that should end it is stored over the first byte of that frame,
  and the frame is thrown away unseen (unless its bytes contain the mark of another header). The only thing that
  changes in the state of the client is the line for the empty text.\<close>

theorem empty_text_loses_next:
  assumes "buffer_ok c" and "length subj = UNAMESIZE" and "length opt = OPTDATA_LEN" and "frame_ok f"
    and "window c = frame_bytes (Pdu MT_MSG subj opt 0 []) @ frame_bytes f"
    and "\<forall>p > 0. p + 3 < length (frame_bytes f) \<longrightarrow> take 4 (drop p (frame_bytes f)) \<noteq> be32 PDU_SYNC_HDR_MARK"
  shows "\<exists>c'. clrecv_parse c = Some c' \<and> core c' = clio_print ''[%s]: %s'' [Str (cstr subj), Str []] (core c) \<and>
    recv_len c' = 0 \<and> cc_inputs c' = cc_inputs c"
proof -
  obtain x xs where x: "frame_bytes f = x # xs" using frame_nonempty [of f] by (cases "frame_bytes f") auto
  have len: "3 \<le> length xs" using arg_cong [OF x, of length] by (cases f) (simp_all add: pdu_fields_def)
  have w: "window c = frame_bytes (Pdu MT_MSG subj opt 0 []) @ x # xs" using assms(5) x by simp
  obtain b where b: "parse_step c = Some (True, with_buf (clio_print ''[%s]: %s'' [Str (cstr subj), Str []] (core c)) b (length (x # xs)) c)"
    "length b = 16384" "take (length (x # xs)) b = 0 # xs"
    using empty_text_step [OF assms(1-3) w] by blast
  define c1 where "c1 = with_buf (clio_print ''[%s]: %s'' [Str (cstr subj), Str []] (core c)) b (length (x # xs)) c"
  have "length (x # xs) \<le> 16384" using buffer_window [OF assms(1)] w assms(1) by (simp add: buffer_ok_def)
  then have c1: "buffer_ok c1" "window c1 = 0 # xs" using b(2,3) by (simp_all add: c1_def buffer_ok_def window_def)
  have no: "take 4 (drop p (0 # xs)) \<noteq> be32 PDU_SYNC_HDR_MARK" if "p + 3 < length (0 # xs)" for p
  proof (cases p)
    case 0
    then show ?thesis by (simp add: be32_def PDU_SYNC_HDR_MARK_def)
  next
    case (Suc q)
    then show ?thesis using that assms(6) [rule_format, of p] x by simp
  qed
  have "clrecv_parse c = clrecv_parse c1" using b(1) by (subst clrecv_parse.simps) (simp add: c1_def)
  also have "\<dots> = Some (c1\<lparr>recv_len := 0\<rparr>)" using zeroed_frame_dropped [OF c1 len] no by blast
  finally show ?thesis by (simp add: c1_def)
qed

theorem empty_text_loses_next_witness:
  "\<exists>c c'. window c = frame_bytes (Pdu MT_MSG (replicate 32 0) (replicate 32 0) 0 []) @ frame_bytes sample_chunk \<and>
     clrecv_parse c = Some c' \<and> recv_len c' = 0 \<and> shown (core c') = [(''[%s]: %s'', [Str [], Str []])]"
proof -
  define w where "w = frame_bytes (Pdu MT_MSG (replicate 32 0) (replicate 32 0) 0 []) @ frame_bytes sample_chunk"
  define c where "c = (idle_client [])\<lparr>recv_buf := w @ replicate (RECV_BUF_SIZE - 121) 0, recv_len := 121\<rparr>"
  have len: "length w = 121" by (simp add: w_def sample_chunk_def pdu_fields_def)
  have c: "buffer_ok c" "window c = w" "core c = idle_core" using len by (simp_all add: c_def buffer_ok_def window_def idle_client_def)
  have no: "\<forall>p > 0. p + 3 < length (frame_bytes sample_chunk) \<longrightarrow> take 4 (drop p (frame_bytes sample_chunk)) \<noteq> be32 PDU_SYNC_HDR_MARK"
  proof (intro allI impI)
    fix p assume "0 < p" "p + 3 < length (frame_bytes sample_chunk)"
    have "0xF7 \<notin> set (frame_bytes sample_chunk)"
      by (simp add: sample_chunk_def be32_def be16_def CHUNK_SYNC_HDR_MARK_def)
    then have "0xF7 \<notin> set (take 4 (drop p (frame_bytes sample_chunk)))" by (auto dest: in_set_takeD in_set_dropD)
    moreover have "0xF7 \<in> set (be32 PDU_SYNC_HDR_MARK)" by (simp add: be32_def PDU_SYNC_HDR_MARK_def)
    ultimately show "take 4 (drop p (frame_bytes sample_chunk)) \<noteq> be32 PDU_SYNC_HDR_MARK" by metis
  qed
  obtain c' where "clrecv_parse c = Some c'" "core c' = clio_print ''[%s]: %s'' [Str (cstr (replicate 32 0)), Str []] idle_core" "recv_len c' = 0"
    using empty_text_loses_next [OF c(1) _ _ sample_frames_ok(2) c(2) [unfolded w_def] no] unfolding c(3) by auto
  then show ?thesis using c(2) unfolding w_def by (intro exI [of _ c] exI [of _ c']) (simp add: idle_core_def)
qed

text \<open>C18. A message that does not fit stalls the client: once the receive buffer is full with the beginning of a PDU
  that is no file and says more bytes than the buffer can hold, every further event of the socket leaves the client
  as it is, whatever arrives. The list of users is such a message as soon as it has more than 16303 bytes.\<close>

theorem oversized_message_stalls:
  assumes "length (recv_buf c) = RECV_BUF_SIZE" and "recv_len c = RECV_BUF_SIZE" and "pdu_header_intact (recv_buf c)"
    and "load8 (recv_buf c) off_msg_type = Some mt" and "mt \<noteq> MT_FILE" and "load64 (recv_buf c) off_total = Some sz"
    and "RECV_BUF_SIZE < LWMP_HDR_SIZE + unat sz" and "LWMP_HDR_SIZE + unat sz < 2 ^ 64"
  shows "serve n c = Some c"
proof -
  have hdr: "mem_read (recv_buf c) 0 77 = Some (take 77 (recv_buf c))" using assms(1) by (simp add: mem_read_def)
  have h: "load32 (recv_buf c) 0 = Some PDU_SYNC_HDR_MARK" "load32 (recv_buf c) 77 = Some (crc32 (take 77 (recv_buf c)))"
    using assms(3) by (simp_all add: pdu_header_intact_def)
  have wire: "wire_of mt sz = sz" using assms(5) by (simp add: wire_of_def)
  have "unat (of_nat 81 + sz) = 81 + unat sz" using assms(8) by (simp add: unat_plus_if')
  moreover have "unat (of_nat (recv_len c) :: u64) = 16384" using assms(2) by simp
  ultimately have small: "of_nat (recv_len c) < of_nat 81 + sz" using assms(7) unfolding word_less_nat_alt by (simp only:)
  have le: "81 \<le> recv_len c" using assms(2) by simp
  have "parse_pdu c = Some (False, c)"
    using parse_pdu_intact [OF hdr h(2) assms(6,4) le] small unfolding wire by (simp only: if_True)
  then have "parse_step c = Some (False, c)" using h(1) assms(2) by (simp add: parse_step_def)
  then have "clrecv_parse c = Some c" by (subst clrecv_parse.simps) simp
  moreover have "clrecv_fill c = Some (0, c)" using assms(2) by (subst clrecv_fill.simps) simp
  ultimately have "handle_socket_data c = Some c" by (simp add: handle_socket_data_def)
  then show ?thesis by (induction n) simp_all
qed

theorem oversized_message_stalls_witness:
  "\<exists>c. window c = take RECV_BUF_SIZE (frame_bytes (Pdu MT_REQ (replicate 32 0) (be32 RESP_OK @ replicate 28 0) 16304 (replicate 16304 97))) \<and>
     serve 5 c = Some c"
proof -
  define b where "b = frame_bytes (Pdu MT_REQ (replicate 32 0) (be32 RESP_OK @ replicate 28 0) 16304 (replicate 16303 97))"
  define c where "c = (idle_client [RecvData [97]])\<lparr>recv_buf := b, recv_len := RECV_BUF_SIZE\<rparr>"
  have len: "length b = 16384" by (simp add: b_def pdu_fields_def)
  have l: "length (replicate 32 0 :: byte list) = 32" "length (be32 RESP_OK @ replicate 28 0) = 32" by simp_all
  have bt: "b = frame_bytes (Pdu MT_REQ (replicate 32 0) (be32 RESP_OK @ replicate 28 0) 16304 (replicate 16303 97)) @ []" by (simp add: b_def)
  note rd = pdu_reads [OF l bt]
  have "take 77 b = pdu_fields MT_REQ (replicate 32 0) (be32 RESP_OK @ replicate 28 0) 16304"
    using rd(1) by (simp add: mem_read_def split: if_splits)
  then have intact: "pdu_header_intact b" using rd(2,3) by (simp add: pdu_header_intact_def)
  have c: "recv_buf c = b" "recv_len c = 16384" by (simp_all add: c_def)
  have s: "serve 5 c = Some c"
    by (rule oversized_message_stalls [where mt = MT_REQ and sz = 16304]) (use c len intact rd(4,5) in \<open>simp_all add: msg_type_defs\<close>)
  have "replicate 16304 97 = replicate 16303 97 @ [97 :: byte]"
    using replicate_add [of 16303 1 "97 :: byte"] by simp
  then have "take 16384 (frame_bytes (Pdu MT_REQ (replicate 32 0) (be32 RESP_OK @ replicate 28 0) 16304 (replicate 16304 97))) = b"
    using len by (simp add: b_def)
  then show ?thesis using s c len by (intro exI [of _ c]) (simp add: window_def)
qed

end
