(* ===== verification/Clsend.thy ===== *)
theory Clsend
  imports Clcmd Clprops Dbops Forwarding
begin

text \<open>
  The properties of the client's sending side: what a command puts on the wire, and that the other end, the server
  or another client, reads it as it was meant.
\<close>

subsection \<open>PDUs that are built field by field\<close>

lemma frame_from_reads:
  assumes r: "mem_read pdu 0 4 = Some (be32 PDU_SYNC_HDR_MARK)" "mem_read pdu 4 1 = Some [mt]" "mem_read pdu 5 32 = Some subj"
    "mem_read pdu 37 32 = Some opt" "mem_read pdu 69 8 = Some (be64 msize)" "mem_read pdu 81 n = Some body"
    and crc: "pdu_header_intact pdu"
  shows "mem_read pdu 0 (81 + n) = Some (frame_bytes (Pdu mt subj opt msize body))"
proof -
  have l: "81 \<le> length pdu" using r(6) by (simp add: mem_read_def split: if_splits)
  have "mem_read pdu 0 (4 + 1 + 32 + 32 + 8) = Some (pdu_fields mt subj opt msize)"
    using mem_read_append [OF mem_read_append [OF mem_read_append [OF mem_read_append [OF r(1), of 1 "[mt]"], of 32 subj], of 32 opt], of 8 "be64 msize"]
      r(2-5) by (simp add: pdu_fields_def)
  then have h: "mem_read pdu 0 77 = Some (pdu_fields mt subj opt msize)" by simp
  then have t: "take 77 pdu = pdu_fields mt subj opt msize" by (simp add: mem_read_def split: if_splits)
  have "of_be32 (take 4 (drop 77 pdu)) = crc32 (take 77 pdu)"
    using crc l by (simp add: pdu_header_intact_def load32_Some)
  then have "take 4 (drop 77 pdu) = be32 (crc32 (take 77 pdu))"
    using be32_of_be32 [of "take 4 (drop 77 pdu)"] l by simp
  then have c: "mem_read pdu 77 4 = Some (be32 (crc32 (pdu_fields mt subj opt msize)))" using l t by (simp add: mem_read_def)
  have "mem_read pdu 0 (77 + 4 + n) = Some (frame_bytes (Pdu mt subj opt msize body))"
    using mem_read_append [OF mem_read_append [OF h, of 4 "be32 (crc32 (pdu_fields mt subj opt msize))"], of n body] c r(6) by simp
  then show ?thesis by (simp del: frame_bytes.simps)
qed

text \<open>Reading through a write elsewhere, for the numbers that occur.\<close>

lemma zero_reads: "off + n \<le> LWMP_MAX_PDU_SIZE \<Longrightarrow> mem_read zero_pdu off n = Some (replicate n 0)"
  by (simp add: zero_pdu_def mem_read_def min_def)

lemma length_zero_pdu: "length zero_pdu = LWMP_MAX_PDU_SIZE"
  by (simp add: zero_pdu_def)

text \<open>Three fields, a header field, and the body, in the order in which the commands store them.\<close>

lemma built_pdu:
  assumes p1: "mem_write zero_pdu 0 (be32 PDU_SYNC_HDR_MARK) = Some p1" and p2: "mem_write p1 4 [mt] = Some p2"
    and later: "length p3 = LWMP_MAX_PDU_SIZE" "mem_read p3 0 4 = mem_read p2 0 4" "mem_read p3 4 1 = mem_read p2 4 1"
    and f: "mem_read p3 5 32 = Some subj" "mem_read p3 37 32 = Some opt" "mem_read p3 69 8 = Some (be64 msize)" "mem_read p3 81 n = Some body"
  shows "\<exists>pdu. store_crc p3 = Some pdu \<and> length pdu = LWMP_MAX_PDU_SIZE \<and> mem_read pdu 0 (81 + n) = Some (frame_bytes (Pdu mt subj opt msize body))"
proof -
  have m: "mem_read p3 0 4 = Some (be32 PDU_SYNC_HDR_MARK)"
    using later(2) mem_read_write_other [OF p2, of 0 4] mem_read_write_same [OF p1, of 4] by simp
  have t: "mem_read p3 4 1 = Some [mt]" using later(3) mem_read_write_same [OF p2, of 1] by simp
  have "load32 p3 0 = Some PDU_SYNC_HDR_MARK" using m by (simp add: load32_def of_be32_be32)
  then obtain pdu where pdu: "store_crc p3 = Some pdu" "length pdu = length p3" "pdu_header_intact pdu"
    "\<And>off k. off + k \<le> 77 \<or> 81 \<le> off \<Longrightarrow> mem_read pdu off k = mem_read p3 off k"
    using store_crc_correct [of p3] later(1) by auto
  have "mem_read pdu 0 (81 + n) = Some (frame_bytes (Pdu mt subj opt msize body))"
    by (rule frame_from_reads) (use pdu(3,4) m t f in simp_all)
  then show ?thesis using pdu(1,2) later(1) by auto
qed

lemma text_pdu_frame:
  assumes "length msg_text + 1 \<le> LWMP_PDU_BUF_SIZE"
  shows "\<exists>pdu. text_pdu recipient msg_text = Some pdu \<and> mem_read pdu 0 (LWMP_HDR_SIZE + (length msg_text + 1)) =
    Some (frame_bytes (Pdu MT_MSG (strncpy_bytes recipient UNAMESIZE) (replicate OPTDATA_LEN 0) (of_nat (length msg_text + 1)) (msg_text @ [0])))"
proof -
  obtain p1 where p1: "mem_write zero_pdu 0 (be32 PDU_SYNC_HDR_MARK) = Some p1" "length p1 = 4096"
    using mem_write_exists [of 0 "be32 PDU_SYNC_HDR_MARK" zero_pdu] by (auto simp: length_zero_pdu)
  obtain p2 where p2: "mem_write p1 4 [MT_MSG] = Some p2" "length p2 = 4096"
    using mem_write_exists [of 4 "[MT_MSG]" p1] p1(2) by auto
  obtain p3 where p3: "mem_write p2 5 (strncpy_bytes recipient 32) = Some p3" "length p3 = 4096"
    using mem_write_exists [of 5 "strncpy_bytes recipient 32" p2] p2(2) by auto
  obtain p4 where p4: "mem_write p3 69 (be64 (of_nat (length msg_text + 1))) = Some p4" "length p4 = 4096"
    using mem_write_exists [of 69 "be64 (of_nat (length msg_text + 1))" p3] p3(2) by auto
  obtain p5 where p5: "mem_write p4 81 (msg_text @ [0]) = Some p5" "length p5 = 4096"
    using mem_write_exists [of 81 "msg_text @ [0]" p4] p4(2) assms by auto
  note o = mem_read_write_other [OF p5(1)] mem_read_write_other [OF p4(1)] mem_read_write_other [OF p3(1)]
    mem_read_write_other [OF p2(1)] mem_read_write_other [OF p1(1)]
  have r: "mem_read p5 5 32 = Some (strncpy_bytes recipient 32)" "mem_read p5 37 32 = Some (replicate 32 0)"
    "mem_read p5 69 8 = Some (be64 (of_nat (length msg_text + 1)))" "mem_read p5 81 (length msg_text + 1) = Some (msg_text @ [0])"
    using mem_read_write_same [OF p3(1), of 32] mem_read_write_same [OF p4(1), of 8] mem_read_write_same [OF p5(1)]
    by (simp_all add: o zero_reads)
  have "mem_read p5 0 4 = mem_read p2 0 4" "mem_read p5 4 1 = mem_read p2 4 1" by (simp_all add: o(1-3))
  from built_pdu [OF p1(1) p2(1) p5(2) this r] show ?thesis
    using p1(1) p2(1) p3(1) p4(1) p5(1) by (auto simp: text_pdu_def)
qed

lemma file_pdu_frame:
  assumes "length first \<le> LWMP_PDU_BUF_SIZE"
  shows "\<exists>pdu. file_pdu recipient name msize first = Some pdu \<and> mem_read pdu 0 (LWMP_HDR_SIZE + length first) =
    Some (frame_bytes (Pdu MT_FILE (strncpy_bytes recipient UNAMESIZE) (strncpy_bytes name (OPTDATA_LEN - 1) @ [0]) msize first))"
proof -
  obtain p1 where p1: "mem_write zero_pdu 0 (be32 PDU_SYNC_HDR_MARK) = Some p1" "length p1 = 4096"
    using mem_write_exists [of 0 "be32 PDU_SYNC_HDR_MARK" zero_pdu] by (auto simp: length_zero_pdu)
  obtain p2 where p2: "mem_write p1 4 [MT_FILE] = Some p2" "length p2 = 4096"
    using mem_write_exists [of 4 "[MT_FILE]" p1] p1(2) by auto
  obtain p3 where p3: "mem_write p2 5 (strncpy_bytes recipient 32) = Some p3" "length p3 = 4096"
    using mem_write_exists [of 5 "strncpy_bytes recipient 32" p2] p2(2) by auto
  obtain p4 where p4: "mem_write p3 69 (be64 msize) = Some p4" "length p4 = 4096"
    using mem_write_exists [of 69 "be64 msize" p3] p3(2) by auto
  obtain p5 where p5: "mem_write p4 37 (strncpy_bytes name 31) = Some p5" "length p5 = 4096"
    using mem_write_exists [of 37 "strncpy_bytes name 31" p4] p4(2) by auto
  obtain p6 where p6: "mem_write p5 81 first = Some p6" "length p6 = 4096"
    using mem_write_exists [of 81 first p5] p5(2) assms by auto
  note o = mem_read_write_other [OF p6(1)] mem_read_write_other [OF p5(1)] mem_read_write_other [OF p4(1)]
    mem_read_write_other [OF p3(1)] mem_read_write_other [OF p2(1)] mem_read_write_other [OF p1(1)]
  have n: "mem_read p5 37 31 = Some (strncpy_bytes name 31)" by (rule mem_read_write_same [OF p5(1)]) simp
  have z: "mem_read p5 (37 + 31) 1 = Some [0]" by (simp add: o(2-6) zero_reads)
  have "mem_read p5 37 (31 + 1) = Some (strncpy_bytes name 31 @ [0])" by (rule mem_read_append [OF n z])
  then have "mem_read p6 37 32 = Some (strncpy_bytes name 31 @ [0])" by (simp add: o(1))
  moreover have "mem_read p6 5 32 = Some (strncpy_bytes recipient 32)" "mem_read p6 69 8 = Some (be64 msize)"
    "mem_read p6 81 (length first) = Some first"
    using mem_read_write_same [OF p3(1), of 32] mem_read_write_same [OF p4(1), of 8] mem_read_write_same [OF p6(1)]
    by (simp_all add: o(1-3))
  moreover have "mem_read p6 0 4 = mem_read p2 0 4" "mem_read p6 4 1 = mem_read p2 4 1" by (simp_all add: o(1-4))
  ultimately show ?thesis
    using built_pdu [OF p1(1) p2(1) p6(2), of "strncpy_bytes recipient 32" "strncpy_bytes name 31 @ [0]" msize "length first" first]
      p1(1) p2(1) p3(1) p4(1) p5(1) p6(1) by (auto simp: file_pdu_def simp del: frame_bytes.simps)
qed

subsection \<open>Sending and receiving whole buffers\<close>

text \<open>Answers of \<open>send_fn\<close> that neither fail nor accept nothing; \<open>takes outp n\<close>: they take \<open>n\<close> bytes in the end.\<close>

fun takes :: "send_res list \<Rightarrow> nat \<Rightarrow> bool" where
  "takes outp 0 \<longleftrightarrow> True"
| "takes [] (Suc n) \<longleftrightarrow> False"
| "takes (SendError # outp) (Suc n) \<longleftrightarrow> False"
| "takes (SendBlock # outp) (Suc n) \<longleftrightarrow> takes outp (Suc n)"
| "takes (Sent k # outp) (Suc n) \<longleftrightarrow> 0 < k \<and> takes outp (Suc n - min k (Suc n))"

lemma send_loop_takes:
  assumes "takes (lk_out l) (length data - done)"
  shows "\<exists>outp. send_loop data done l = Some (0, l\<lparr>lk_out := outp, lk_sent := lk_sent l @ drop done data\<rparr>)"
  using assms
proof (induction "lk_out l" arbitrary: l "done")
  case Nil
  then have "length data \<le> done" by (cases "length data - done") (simp_all flip: Nil.hyps)
  then show ?case by (subst send_loop.simps) (auto intro!: exI [of _ "lk_out l"])
next
  case (Cons r outp)
  show ?case
  proof (cases "done < length data")
    case False
    then show ?thesis by (subst send_loop.simps) (auto intro!: exI [of _ "lk_out l"])
  next
    case True
    then obtain n where n: "length data - done = Suc n" by (cases "length data - done") auto
    have t: "takes (r # outp) (Suc n)" using Cons.prems n by (simp flip: Cons.hyps(2))
    show ?thesis
    proof (cases r)
      case SendBlock
      then have "send_loop data done l = send_loop data done (l\<lparr>lk_out := outp\<rparr>)"
        using True by (subst send_loop.simps) (simp flip: Cons.hyps(2))
      moreover have "takes (lk_out (l\<lparr>lk_out := outp\<rparr>)) (length data - done)" using t SendBlock n by simp
      ultimately show ?thesis using Cons.hyps(1) [of "l\<lparr>lk_out := outp\<rparr>" "done"] by simp
    next
      case (Sent k)
      define m where "m = min k (Suc n)"
      define l1 where "l1 = l\<lparr>lk_out := outp, lk_sent := lk_sent l @ take m (drop done data)\<rparr>"
      have "send_fn (lk_out l) (length data - done) = (Sent m, outp)"
        using t Sent n by (simp add: m_def flip: Cons.hyps(2))
      then have "send_loop data done l = send_loop data (done + m) l1"
        using True by (subst send_loop.simps) (simp add: l1_def)
      moreover have "takes (lk_out l1) (length data - (done + m))"
      proof -
        have "takes outp (Suc n - m)" using t Sent by (simp add: m_def)
        moreover have "length data - (done + m) = Suc n - m" using n by simp
        ultimately show ?thesis by (simp add: l1_def)
      qed
      ultimately obtain outp' where "send_loop data done l = Some (0, l1\<lparr>lk_out := outp', lk_sent := lk_sent l1 @ drop (done + m) data\<rparr>)"
        using Cons.hyps(1) [of l1 "done + m"] by (auto simp: l1_def)
      moreover have "take m (drop done data) @ drop (done + m) data = drop done data"
        by (metis append_take_drop_id drop_drop add.commute)
      ultimately show ?thesis by (auto simp: l1_def)
    next
      case SendError
      then show ?thesis using t by simp
    qed
  qed
qed

definition sent_right :: "byte list \<Rightarrow> nat \<Rightarrow> link \<Rightarrow> int \<times> link \<Rightarrow> bool" where
  "sent_right data done l y \<longleftrightarrow> lk_in (snd y) = lk_in l \<and> (fst y = 0 \<or> fst y = - 1) \<and>
     (fst y = 0 \<longrightarrow> lk_sent (snd y) = lk_sent l @ drop done data)"

lemma send_loop_result:
  assumes "send_loop data done l = Some y"
  shows "sent_right data done l y"
proof (rule send_loop.raw_induct [OF _ assms])
  fix loop data "done" l y
  assume ih: "\<And>data done l y. loop data done l = Some y \<Longrightarrow> sent_right data done l y"
    and b: "(if done < length data
      then case send_fn (lk_out l) (length data - done) of
          (SendError, outp) \<Rightarrow> Some (- 1, l\<lparr>lk_out := outp\<rparr>)
        | (SendBlock, outp) \<Rightarrow> loop data done (l\<lparr>lk_out := outp\<rparr>)
        | (Sent n, outp) \<Rightarrow> loop data (done + n) (l\<lparr>lk_out := outp, lk_sent := lk_sent l @ take n (drop done data)\<rparr>)
      else Some (0, l)) = Some y"
  have step: "take n (drop done data) @ drop (done + n) data = drop done data" for n
    by (metis append_take_drop_id drop_drop add.commute)
  show "sent_right data done l y"
  proof (cases "done < length data")
    case True
    obtain a outp where s: "send_fn (lk_out l) (length data - done) = (a, outp)" by fastforce
    show ?thesis
    proof (cases a)
      case SendBlock
      then show ?thesis using ih [of data "done" "l\<lparr>lk_out := outp\<rparr>" y] b True s by (simp add: sent_right_def)
    next
      case (Sent n)
      then have "sent_right data (done + n) (l\<lparr>lk_out := outp, lk_sent := lk_sent l @ take n (drop done data)\<rparr>) y"
        using ih b True s by simp
      then show ?thesis using step [of n] by (simp add: sent_right_def)
    qed (use b True s in \<open>auto simp: sent_right_def\<close>)
  qed (use b in \<open>auto simp: sent_right_def\<close>)
qed

definition got_right :: "nat \<Rightarrow> byte list \<Rightarrow> link \<Rightarrow> int \<times> byte list \<times> link \<Rightarrow> bool" where
  "got_right len data l y \<longleftrightarrow> (length data \<le> len \<longrightarrow> (case y of (r, bs, l') \<Rightarrow> lk_sent l' = lk_sent l \<and> (r = 0 \<or> r = - 1) \<and>
     (r = 0 \<longrightarrow> length bs = len \<and> data @ in_bytes (lk_in l) = bs @ in_bytes (lk_in l'))))"

lemma recv_loop_result:
  assumes "recv_loop len data l = Some y"
  shows "got_right len data l y"
proof (rule recv_loop.raw_induct [OF _ assms])
  fix loop len data l y
  assume ih: "\<And>len data l y. loop len data l = Some y \<Longrightarrow> got_right len data l y"
    and b: "(if length data < len
      then case recv_fn (lk_in l) (len - length data) of
          (RecvError, inp) \<Rightarrow> Some (- 1, data, l\<lparr>lk_in := inp\<rparr>)
        | (RecvBlock, inp) \<Rightarrow> loop len data (l\<lparr>lk_in := inp\<rparr>)
        | (RecvData bs, inp) \<Rightarrow> loop len (data @ bs) (l\<lparr>lk_in := inp\<rparr>)
      else Some (0, data, l)) = Some y"
  obtain a inp where s: "recv_fn (lk_in l) (len - length data) = (a, inp)" by fastforce
  show "got_right len data l y"
  proof (cases "length data < len")
    case True
    show ?thesis
    proof (cases a)
      case RecvBlock
      then show ?thesis using ih [of len data "l\<lparr>lk_in := inp\<rparr>" y] b True s recv_fn_block [OF s [unfolded RecvBlock]]
        by (simp add: got_right_def)
    next
      case (RecvData d)
      then have "got_right len (data @ d) (l\<lparr>lk_in := inp\<rparr>) y" using ih b True s by simp
      moreover have "length data + length d \<le> len" using recv_fn_data [OF s [unfolded RecvData]] True by simp
      ultimately show ?thesis using recv_fn_bytes [OF s [unfolded RecvData]] by (simp add: got_right_def)
    qed (use b True s in \<open>auto simp: got_right_def\<close>)
  qed (use b in \<open>auto simp: got_right_def\<close>)
qed

lemma client_send_takes:
  assumes "takes (cc_outputs c) (length data)"
  shows "\<exists>outp. client_send data c = Some (0, c\<lparr>cc_outputs := outp, cc_sent := cc_sent c @ data\<rparr>)"
  using send_loop_takes [of "link_of c" data 0] assms
  by (auto simp: client_send_def send_all_def link_of_def set_link_def)

subsection \<open>Texts, from the command line to the other terminal\<close>

lemma cstr_take: "cstr (take n xs) = take n (cstr xs)"
  by (induction xs arbitrary: n) (auto simp: take_Cons split: nat.split)

lemma subject_of_name:
  assumes "0 \<notin> set nm"
  shows "cstr (recipient_buf nm) = map tolower (take (UNAMESIZE - 1) nm)"
proof -
  have "cstr (strncpy_bytes nm 31 @ [0]) = cstr (strncpy_bytes nm 31)" by (rule cstr_ended)
  also have "\<dots> = take 31 nm" using cstr_strncpy_bytes [of nm 31] by (simp only: cstr_no_NUL [OF assms])
  finally show ?thesis unfolding recipient_buf_def cstr_normalize_string by simp
qed

text \<open>What the server has made of a text comes out of the other client's parser as that text.\<close>

lemma forwarded_text_frame:
  assumes pdu: "pdu = frame_bytes (Pdu MT_MSG subj (replicate OPTDATA_LEN 0) (of_nat (length msg_text + 1)) (msg_text @ [0]))"
    and l: "length subj = UNAMESIZE" "length msg_text + 1 \<le> LWMP_PDU_BUF_SIZE" "0 \<notin> set msg_text" and fwd: "forwarded pdu sender b"
  shows "\<exists>f. frame_bytes f = b \<and> frame_ok f \<and>
    (\<forall>k. deliver_frame f k = Some (clio_print ''[%s]: %s'' [Str (take UNAMESIZE (cstr sender)), Str msg_text] k))"
proof -
  let ?f = "Pdu MT_MSG (strncpy_bytes sender 32) (replicate 32 0) (of_nat (length msg_text + 1)) (msg_text @ [0])"
  have o: "length (replicate 32 0 :: byte list) = 32" by simp
  have p: "pdu = frame_bytes (Pdu MT_MSG subj (replicate 32 0) (of_nat (length msg_text + 1)) (msg_text @ [0])) @ []" using pdu by simp
  note rd = pdu_reads [OF l(1) o p]
  have fb: "mem_read b q n = mem_read pdu q n" if "q + n \<le> 5 \<or> 37 \<le> q \<and> q + n \<le> 77 \<or> 81 \<le> q" for q n
    using fwd that by (auto simp: forwarded_def)
  have "mem_read pdu 0 77 = Some (pdu_fields MT_MSG subj (replicate 32 0) (of_nat (length msg_text + 1)))" by (rule rd(1))
  then have t: "take 77 pdu = pdu_fields MT_MSG subj (replicate 32 0) (of_nat (length msg_text + 1))" and le: "81 \<le> length pdu"
    using length_pdu_fields [OF l(1) o] pdu by (simp_all add: mem_read_def split: if_splits)
  have "mem_read pdu 0 4 = Some (be32 PDU_SYNC_HDR_MARK)"
    using pdu by (intro mem_read_midI [where a = "[]"]) (simp_all add: pdu_fields_def)
  moreover have "mem_read pdu 4 1 = Some [MT_MSG]"
    using pdu by (intro mem_read_midI [where a = "be32 PDU_SYNC_HDR_MARK"]) (simp_all add: pdu_fields_def)
  moreover have "mem_read pdu 69 8 = Some (be64 (of_nat (length msg_text + 1)))"
  proof -
    have "pdu = (be32 PDU_SYNC_HDR_MARK @ [MT_MSG] @ subj @ replicate 32 0) @ be64 (of_nat (length msg_text + 1)) @ drop 77 pdu"
      using append_take_drop_id [of 77 pdu] unfolding t by (simp add: pdu_fields_def)
    then show ?thesis by (rule mem_read_midI) (simp_all add: l(1))
  qed
  moreover have "mem_read b 5 32 = Some (strncpy_bytes sender 32)" "pdu_header_intact b" "length b = length pdu"
    using fwd by (simp_all add: forwarded_def)
  ultimately have "mem_read b 0 (81 + length (msg_text @ [0])) = Some (frame_bytes ?f)"
    using rd(7,9) by (intro frame_from_reads) (simp_all add: fb)
  moreover have "length b = 81 + length (msg_text @ [0])"
    using \<open>length b = length pdu\<close> pdu length_pdu_fields [OF l(1) o] by simp
  ultimately have "frame_bytes ?f = b" by (simp add: mem_read_def)
  moreover have "frame_ok ?f" using l by (simp add: msg_type_defs)
  moreover have "deliver_frame ?f k = Some (clio_print ''[%s]: %s'' [Str (take 32 (cstr sender)), Str msg_text] k)" for k
    using l by (simp add: deliver_pdu_def cstr_strncpy_bytes cstr_no_NUL)
  ultimately show ?thesis by blast
qed

lemma typed_text:
  assumes up: "cc_state c = ST_CONNECTED" and line: "0 \<notin> set line" "length line \<le> 4095"
    and toks: "split_tokens 2 line = [cmd, nm]" and tx: "msg_text = drop (cmdparse_rest_after_tokens line 2) line"
    and fit: "msg_text \<noteq> []" "length msg_text + 1 \<le> LWMP_PDU_BUF_SIZE" and out: "takes (cc_outputs c) (LWMP_HDR_SIZE + (length msg_text + 1))"
  shows "\<exists>pdu outp. cmd_msg line c = Some (c\<lparr>cc_outputs := outp, cc_sent := cc_sent c @ pdu\<rparr>) \<and>
    pdu = frame_bytes (Pdu MT_MSG (strncpy_bytes (recipient_buf nm) UNAMESIZE) (replicate OPTDATA_LEN 0)
      (of_nat (length msg_text + 1)) (msg_text @ [0]))"
proof -
  obtain tmp idx where t: "cmdparse_tokenize line 2 = (tmp, idx)" "map (cstr_at tmp) idx = [cmd, nm]"
    using tokenize_texts [OF line(1), of 2] toks by (auto split: prod.splits)
  then have idx: "length idx = 2" "cstr_at tmp (idx ! 1) = nm" by auto
  have ln: "take 4095 line = line" using line(2) by simp
  obtain pdu where pdu: "text_pdu (recipient_buf nm) msg_text = Some pdu"
    "mem_read pdu 0 (81 + (length msg_text + 1)) = Some (frame_bytes (Pdu MT_MSG (strncpy_bytes (recipient_buf nm) 32) (replicate 32 0)
      (of_nat (length msg_text + 1)) (msg_text @ [0])))"
    using text_pdu_frame [OF fit(2)] by blast
  then have len: "length (frame_bytes (Pdu MT_MSG (strncpy_bytes (recipient_buf nm) 32) (replicate 32 0)
      (of_nat (length msg_text + 1)) (msg_text @ [0]))) = 81 + (length msg_text + 1)"
    using mem_read_length by blast
  obtain outp where "client_send (frame_bytes (Pdu MT_MSG (strncpy_bytes (recipient_buf nm) 32) (replicate 32 0)
      (of_nat (length msg_text + 1)) (msg_text @ [0]))) c = Some (0, c\<lparr>cc_outputs := outp, cc_sent := cc_sent c @
      frame_bytes (Pdu MT_MSG (strncpy_bytes (recipient_buf nm) 32) (replicate 32 0) (of_nat (length msg_text + 1)) (msg_text @ [0]))\<rparr>)"
    using client_send_takes [of c] out unfolding len [symmetric] by blast
  then show ?thesis
    using up t(1) idx pdu fit unfolding cmd_msg_def ln tx [symmetric] by (auto simp: tx [symmetric] simp del: frame_bytes.simps)
qed

lemma text_frame_first_pdu:
  assumes "pdu = frame_bytes (Pdu MT_MSG subj (replicate OPTDATA_LEN 0) (of_nat (length msg_text + 1)) (msg_text @ [0]))"
    and "length subj = UNAMESIZE" and "length msg_text + 1 \<le> LWMP_PDU_BUF_SIZE"
  shows "first_pdu pdu (length msg_text + 1)" "pdu_header_intact pdu" "recipient_of pdu = subj[UNAMESIZE - 1 := 0]"
proof -
  have o: "length (replicate 32 0 :: byte list) = 32" by simp
  have p: "pdu = frame_bytes (Pdu MT_MSG subj (replicate 32 0) (of_nat (length msg_text + 1)) (msg_text @ [0])) @ []" using assms(1) by simp
  note rd = pdu_reads [OF assms(2) o p]
  have len: "length pdu = 81 + (length msg_text + 1)" using p length_pdu_fields [OF assms(2) o] by simp
  have "pdu ! 4 = MT_MSG" using rd(5) by (simp add: load8_def split: if_splits)
  then show "first_pdu pdu (length msg_text + 1)" using rd(4) len assms(3) by (simp add: first_pdu_def msg_type_defs)
  have "take 77 pdu = pdu_fields MT_MSG subj (replicate 32 0) (of_nat (length msg_text + 1))"
    using rd(1) by (simp add: mem_read_def split: if_splits)
  then show "pdu_header_intact pdu" using rd(2,3) by (simp add: pdu_header_intact_def)
  show "recipient_of pdu = subj[32 - 1 := 0]" using rd(6) by (simp add: recipient_of_def mem_read_def split: if_splits)
qed

subsection \<open>Receiving sends nothing\<close>

text \<open>The line that reports that a file has been sent, and what has been sent and reported so far.\<close>

definition SENT_LINE :: string where "SENT_LINE = ''File %s (%ld bytes) sent to %s.''"

definition reports :: "client_core \<Rightarrow> message list" where
  "reports k = filter (\<lambda>l. fst l = SENT_LINE) (shown k)"

definition obs :: "client_ctx \<Rightarrow> byte list \<times> message list" where
  "obs c = (cc_sent c, reports (core c))"

named_theorems sent_simps \<open>operations of the receiving side leave alone what has been sent and reported\<close>

lemma reports_print [simp]: "fmt \<noteq> SENT_LINE \<Longrightarrow> reports (clio_print fmt args k) = reports k"
  by (simp add: reports_def)

lemma reports_same: "shown k' = shown k \<Longrightarrow> reports k' = reports k"
  by (simp add: reports_def)

lemma reports_updates [simp]:
  "reports (k\<lparr>files := fs\<rparr>) = reports k" "reports (set_transfer i t k) = reports k" "reports (note_resp code k) = reports k"
  "reports (k\<lparr>user_cache := us\<rparr>) = reports k" "reports (close_all_transfers k) = reports k" "reports (drop_transfer s k) = reports k"
  "reports (k\<lparr>awaiting_resp := a\<rparr>) = reports k" "reports (k\<lparr>sending_chunks := a\<rparr>) = reports k" "reports (k\<lparr>transfer_error := a\<rparr>) = reports k"
  by (rule reports_same; simp add: set_transfer_def close_all_transfers_def)+

lemma reports_users [simp]: "reports (show_users k) = reports k"
proof -
  have "reports (fold (\<lambda>u. clio_print ''  %s'' [Str u]) us k) = reports k" for us k
    by (induction us arbitrary: k) (simp_all add: SENT_LINE_def)
  then show ?thesis by (simp add: show_users_def SENT_LINE_def)
qed

lemma reports_file: "receive_file s raw_name msize data k = Some k' \<Longrightarrow> reports k' = reports k"
proof -
  have "reports (store_file s d msize data i k) = reports k" for d i k
    by (simp add: store_file_unfold start_transfer_def SENT_LINE_def)
  then show "receive_file s raw_name msize data k = Some k' \<Longrightarrow> reports k' = reports k"
    by (auto simp: receive_file_def end_transfer_def bind_eq_Some_conv SENT_LINE_def split: option.splits)
qed

lemma reports_chunk: "receive_chunk s data k = Some k' \<Longrightarrow> reports k' = reports k"
  by (auto simp: receive_chunk_def Let_def SENT_LINE_def split: if_splits option.splits prod.splits)

lemma reports_list: "cache_userlist b n k = Some k' \<Longrightarrow> reports k' = reports k"
  by (auto simp: cache_userlist_def)

lemma basic_sent [simp]:
  "fmt \<noteq> SENT_LINE \<Longrightarrow> obs (say fmt args c) = obs c" "reports (f (core c)) = reports (core c) \<Longrightarrow> obs (upd_core f c) = obs c"
  "obs (consume n c) = obs c" "obs (clio_reset_prompt c) = obs c" "obs (snd (wait_readable c)) = obs c"
  "obs (c\<lparr>recv_buf := b, recv_len := n\<rparr>) = obs c" "obs (c\<lparr>cc_inputs := inp\<rparr>) = obs c"
  "obs (c\<lparr>cc_inputs := inp, recv_buf := b, recv_len := n\<rparr>) = obs c"
  by (simp_all add: obs_def say_def upd_core_def consume_def clio_reset_prompt_def wait_readable_def Let_def split_beta)

lemma lost_sent [simp]: "obs (connection_lost c) = obs c"
  by (simp add: connection_lost_def obs_def say_def upd_core_def clio_reset_prompt_def Let_def SENT_LINE_def)

lemma store_sent [sent_simps]: "store_at off bs c = Some c' \<Longrightarrow> obs c' = obs c"
  by (auto simp: store_at_def obs_def)

lemma on_core_sent:
  "on_core f c = Some c' \<Longrightarrow> (\<And>k. f (core c) = Some k \<Longrightarrow> reports k = reports (core c)) \<Longrightarrow> obs c' = obs c"
  by (auto simp: on_core_def obs_def)

lemma core_parts_sent [sent_simps]:
  "on_core (receive_file s raw_name msize data) c = Some c' \<Longrightarrow> obs c' = obs c"
  "on_core (receive_chunk s data) c = Some c' \<Longrightarrow> obs c' = obs c"
  "on_core (cache_userlist b n) c = Some c' \<Longrightarrow> obs c' = obs c"
  by (erule on_core_sent, simp add: reports_file reports_chunk reports_list)+

lemma resync_sent [sent_simps]: "resync c = Some c' \<Longrightarrow> obs c' = obs c"
  by (auto simp: resync_def)

lemma print_resp_sent [sent_simps]: "print_server_resp pay code c = Some c' \<Longrightarrow> obs c' = obs c"
  by (auto simp: SENT_LINE_def print_server_resp_def bind_eq_Some_conv split: if_splits dest!: sent_simps)

lemma process_parts_sent [sent_simps]:
  "process_msg sender pay c = Some c' \<Longrightarrow> obs c' = obs c" "process_info pay c = Some c' \<Longrightarrow> obs c' = obs c"
  "process_req pay c = Some c' \<Longrightarrow> obs c' = obs c" "process_file sender pay c = Some c' \<Longrightarrow> obs c' = obs c"
  by (auto simp: SENT_LINE_def process_msg_def process_info_def process_req_def process_file_def bind_eq_Some_conv split: if_splits dest!: sent_simps)

lemma process_sent [sent_simps]: "process_received_pdu pay c = Some c' \<Longrightarrow> obs c' = obs c"
  by (auto simp: SENT_LINE_def process_received_pdu_def bind_eq_Some_conv Let_def split: if_splits dest!: sent_simps)

lemma parse_parts_sent [sent_simps]:
  "parse_pdu c = Some (g, c') \<Longrightarrow> obs c' = obs c" "parse_chunk c = Some (g, c') \<Longrightarrow> obs c' = obs c"
  by (auto simp: parse_pdu_def parse_chunk_def bind_eq_Some_conv Let_def split: if_splits dest!: sent_simps)

lemma parse_step_sent: "parse_step c = Some (g, c') \<Longrightarrow> obs c' = obs c"
  by (auto simp: parse_step_def bind_eq_Some_conv split: if_splits dest!: sent_simps)

lemma parse_sent [sent_simps]:
  assumes "clrecv_parse c = Some c'"
  shows "obs c' = obs c"
proof (rule clrecv_parse.raw_induct [OF _ assms])
  fix loop c c'
  assume ih: "\<And>c c'. loop c = Some c' \<Longrightarrow> obs c' = obs c"
    and b: "(case parse_step c of None \<Rightarrow> None | Some (goes_on, c) \<Rightarrow> if goes_on then loop c else Some c) = Some c'"
  obtain g c1 where s: "parse_step c = Some (g, c1)" using b by (auto split: option.splits prod.splits)
  then show "obs c' = obs c" using b ih [of c1 c'] parse_step_sent [OF s] by (auto split: if_splits)
qed

lemma fill_sent [sent_simps]: "clrecv_fill c = Some (r, c') \<Longrightarrow> obs c' = obs c"
proof (induction c rule: clrecv_fill.induct)
  case (1 c)
  obtain a inp where s: "recv_fn (cc_inputs c) (16384 - recv_len c) = (a, inp)" by fastforce
  show ?case
  proof (cases "recv_len c < 16384")
    case True
    show ?thesis
    proof (cases a)
      case (RecvData bs)
      then obtain b where b: "mem_write (recv_buf c) (recv_len c) bs = Some b"
        using "1.prems" True s by (subst (asm) clrecv_fill.simps) (auto split: option.splits)
      then have "clrecv_fill (c\<lparr>cc_inputs := inp, recv_buf := b, recv_len := recv_len c + length bs\<rparr>) = Some (r, c')"
        using "1.prems" True s RecvData by (subst (asm) clrecv_fill.simps) simp
      then show ?thesis using "1.IH" [OF True s [symmetric] RecvData b] by simp
    qed (use "1.prems" True s in \<open>subst (asm) clrecv_fill.simps, auto\<close>)+
  qed (use "1.prems" in \<open>subst (asm) clrecv_fill.simps, auto\<close>)
qed

lemma pump_sent: "pump_socket_once c = Some c' \<Longrightarrow> obs c' = obs c"
proof -
  assume p: "pump_socket_once c = Some c'"
  obtain r c1 where w: "wait_readable c = (r, c1)" by fastforce
  have "obs c1 = obs c" using basic_sent(5) [of c] by (simp add: w)
  then show ?thesis using p by (auto simp: pump_socket_once_def w bind_eq_Some_conv split: if_splits dest!: sent_simps)
qed

lemma await_loop_sent:
  assumes "await_loop c = Some y"
  shows "obs (snd y) = obs c"
proof (rule await_loop.raw_induct [OF _ assms])
  fix loop c and y :: "int \<times> client_ctx"
  assume ih: "\<And>c y. loop c = Some y \<Longrightarrow> obs (snd y) = obs c"
    and b: "(if awaiting_resp (core c) \<and> cc_state c = ST_CONNECTED
      then let (r, c) = wait_readable c in
        if r = 0 then Some (- 1, upd_core (awaiting_resp_update (\<lambda>_. False)) c)
        else if r < 0 then Some (- 2, c)
        else (case clrecv_fill c of None \<Rightarrow> None
          | Some (r, c) \<Rightarrow> if r < 0 then Some (- 2, c) else (case clrecv_parse c of None \<Rightarrow> None | Some c \<Rightarrow> loop c))
      else Some (if cc_state c \<noteq> ST_CONNECTED then - 2 else 0, c)) = Some y"
  obtain r c1 where w: "wait_readable c = (r, c1)" by fastforce
  have "obs c1 = obs c" using basic_sent(5) [of c] by (simp add: w)
  then show "obs (snd y) = obs c"
    using b ih by (cases y) (auto simp: w split: if_splits option.splits dest!: sent_simps)
qed

lemma await_resp_sent: "await_resp c = Some (r, code, c') \<Longrightarrow> obs c' = obs c"
  by (auto simp: await_resp_def bind_eq_Some_conv dest!: sent_simps await_loop_sent)

lemma client_send_result:
  "client_send data c = Some (r, c') \<Longrightarrow> (r = 0 \<or> r = - 1) \<and> core c' = core c \<and> (r = 0 \<longrightarrow> cc_sent c' = cc_sent c @ data)"
  by (auto simp: client_send_def send_all_def link_of_def set_link_def dest!: send_loop_result simp: sent_right_def)

text \<open>When the loop over the rest of a file comes to its end, it has sent exactly these bytes.\<close>

lemma send_chunks_sent:
  "send_chunks f pos remaining c = Some (False, c') \<Longrightarrow>
   cc_sent c' = cc_sent c @ take remaining (drop pos (lf_bytes f)) \<and> length (take remaining (drop pos (lf_bytes f))) = remaining"
proof (induction f pos remaining c rule: send_chunks.induct)
  case (1 f pos remaining c)
  show ?case
  proof (cases "0 < remaining")
    case True
    define n where "n = (if remaining < 4096 then remaining else 4096)"
    define d where "d = fread f pos n"
    note eq = "1.prems" [unfolded send_chunks.simps [of f pos remaining c] Let_def, folded n_def, folded d_def]
    have len: "length d = n" using eq True by (auto split: if_splits)
    obtain r c1 where c1: "client_send d c = Some (r, c1)" using eq True len by (auto split: option.splits)
    then have r: "\<not> r < 0" "cc_sent c1 = cc_sent c @ d"
      using eq True len client_send_result [OF c1] by (auto split: if_splits)
    obtain c2 where c2: "pump_socket_once c1 = Some c2" using eq True len c1 r by (auto split: option.splits if_splits)
    have go: "\<not> (cc_state c2 \<noteq> ST_CONNECTED \<or> transfer_error (core c2))" "send_chunks f (pos + n) (remaining - n) c2 = Some (False, c')"
      using eq True len c1 r c2 by (auto split: if_splits)
    have nd: "\<not> length d \<noteq> n" using len by simp
    have ih: "cc_sent c' = cc_sent c2 @ take (remaining - n) (drop (pos + n) (lf_bytes f)) \<and>
        length (take (remaining - n) (drop (pos + n) (lf_bytes f))) = remaining - n"
      using "1.IH" [OF True n_def d_def nd c1 refl r(1) c2 go(1) go(2)] .
    have "cc_sent c2 = cc_sent c @ d" using pump_sent [OF c2] r(2) by (simp add: obs_def)
    moreover have "n \<le> remaining" by (simp add: n_def)
    moreover have "take remaining (drop pos (lf_bytes f)) = take n (drop pos (lf_bytes f)) @ take (remaining - n) (drop (pos + n) (lf_bytes f))"
      using \<open>n \<le> remaining\<close> by (metis add.commute drop_drop le_add_diff_inverse take_add)
    ultimately show ?thesis using ih len by (simp add: d_def fread_def)
  next
    case False
    then show ?thesis using "1.prems" by (subst (asm) send_chunks.simps) simp
  qed
qed

lemma send_chunks_reports: "send_chunks f pos remaining c = Some (aborted, c') \<Longrightarrow> reports (core c') = reports (core c)"
proof (induction f pos remaining c rule: send_chunks.induct)
  case (1 f pos remaining c)
  show ?case
  proof (cases "0 < remaining")
    case True
    define n where "n = (if remaining < 4096 then remaining else 4096)"
    define d where "d = fread f pos n"
    note eq = "1.prems" [unfolded send_chunks.simps [of f pos remaining c] Let_def, folded n_def, folded d_def]
    show ?thesis
    proof (cases "length d = n")
      case False
      then show ?thesis using eq True by (auto simp: say_def upd_core_def SENT_LINE_def)
    next
      case len: True
      obtain r c1 where c1: "client_send d c = Some (r, c1)" using eq True len by (auto split: option.splits)
      have k1: "core c1 = core c" using client_send_result [OF c1] by simp
      show ?thesis
      proof (cases "r < 0")
        case True
        then show ?thesis using eq \<open>0 < remaining\<close> len c1 k1 by (auto simp: say_def upd_core_def SENT_LINE_def)
      next
        case r: False
        obtain c2 where c2: "pump_socket_once c1 = Some c2" using eq True len c1 r by (auto split: option.splits)
        have k2: "reports (core c2) = reports (core c)" using pump_sent [OF c2] k1 by (simp add: obs_def)
        have nd: "\<not> length d \<noteq> n" using len by simp
        show ?thesis
        proof (cases "cc_state c2 \<noteq> ST_CONNECTED \<or> transfer_error (core c2)")
          case True
          then show ?thesis using eq \<open>0 < remaining\<close> len c1 r c2 k2 by auto
        next
          case False
          then have "send_chunks f (pos + n) (remaining - n) c2 = Some (aborted, c')" using eq True len c1 r c2 by auto
          then show ?thesis using "1.IH" [OF True n_def d_def nd c1 refl r c2 False] k2 by simp
        qed
      qed
    qed
  next
    case False
    then show ?thesis using "1.prems" by (subst (asm) send_chunks.simps) simp
  qed
qed

lemma say_other [simp]: "fmt \<noteq> SENT_LINE \<Longrightarrow> reports (core (say fmt args c)) = reports (core c)"
  by (simp add: say_def upd_core_def)

lemma say_link [simp]: "cc_sent (say_sent name n r c) = cc_sent c"
  by (simp add: say_sent_def say_def upd_core_def)

lemma sendfile_rest_sent:
  assumes "sendfile_rest f name recipient c = Some c'" and "reports (core c') \<noteq> reports (core c)"
  shows "cc_sent c' = cc_sent c @ take (nat (lf_size f) - LWMP_PDU_BUF_SIZE) (drop LWMP_PDU_BUF_SIZE (lf_bytes f)) \<and>
    length (take (nat (lf_size f) - LWMP_PDU_BUF_SIZE) (drop LWMP_PDU_BUF_SIZE (lf_bytes f))) = nat (lf_size f) - LWMP_PDU_BUF_SIZE"
proof -
  define c0 where "c0 = upd_core (transfer_error_update (\<lambda>_. False)) c"
  obtain ar code c1 where a: "await_resp c0 = Some (ar, code, c1)"
    using assms(1) by (auto simp: sendfile_rest_def bind_eq_Some_conv c0_def)
  have "obs c0 = obs c" by (simp add: c0_def)
  then have k1: "cc_sent c1 = cc_sent c" "reports (core c1) = reports (core c)"
    using await_resp_sent [OF a] by (simp_all add: obs_def)
  have ok: "ar \<noteq> - 2" "ar \<noteq> - 1" "code = Some RESP_OK"
    using assms a k1(2) by (auto simp: sendfile_rest_def c0_def [symmetric] SENT_LINE_def split: if_splits)
  obtain ab c2 where b: "send_chunks f 4015 (nat (lf_size f) - 4015) (upd_core (sending_chunks_update (\<lambda>_. True)) c1) = Some (ab, c2)"
    "c' = (if ab then say ''File transfer to %s aborted.'' [Str recipient] (upd_core (sending_chunks_update (\<lambda>_. False)) c2)
       else say_sent name (lf_size f) recipient (upd_core (sending_chunks_update (\<lambda>_. False)) c2))"
    using assms(1) a ok by (auto simp: sendfile_rest_def c0_def [symmetric] bind_eq_Some_conv Let_def)
  have "reports (core c2) = reports (core c)"
    using send_chunks_reports [OF b(1)] k1(2) by (simp add: upd_core_def)
  then have "\<not> ab" using assms(2) b(2) by (auto simp: SENT_LINE_def upd_core_def)
  then show ?thesis using send_chunks_sent [of f 4015 "nat (lf_size f) - 4015" "upd_core (sending_chunks_update (\<lambda>_. True)) c1" c2] b k1(1)
    by (simp add: upd_core_def)
qed

lemma send_file_sent:
  assumes "send_file f name recipient c = Some c'" and "reports (core c') \<noteq> reports (core c)"
  defines "data \<equiv> take (nat (lf_size f)) (lf_bytes f)"
  shows "0 < lf_size f" and "length data = nat (lf_size f)"
    and "cc_sent c' = cc_sent c @ frame_bytes (Pdu MT_FILE (strncpy_bytes recipient UNAMESIZE) (strncpy_bytes name (OPTDATA_LEN - 1) @ [0])
      (word_of_int (lf_size f)) (take LWMP_PDU_BUF_SIZE data)) @ drop LWMP_PDU_BUF_SIZE data"
proof -
  define n where "n = (if nat (lf_size f) < 4015 then nat (lf_size f) else 4015)"
  define first where "first = fread f 0 n"
  show pos: "0 < lf_size f" using assms(1,2) by (auto simp: send_file_def SENT_LINE_def split: if_splits)
  note eq = assms(1) [unfolded send_file_def Let_def, folded n_def, folded first_def]
  have len: "length first = n"
    using eq pos assms(2) by (auto simp: SENT_LINE_def split: if_splits)
  have "length first \<le> 4015" by (simp add: len n_def)
  from file_pdu_frame [OF this, of recipient name "word_of_int (lf_size f)"] obtain pdu where
    pdu: "file_pdu recipient name (word_of_int (lf_size f)) first = Some pdu" "mem_read pdu 0 (81 + n) =
      Some (frame_bytes (Pdu MT_FILE (strncpy_bytes recipient 32) (strncpy_bytes name (32 - 1) @ [0]) (word_of_int (lf_size f)) first))"
    unfolding len by blast
  define fb where "fb = frame_bytes (Pdu MT_FILE (strncpy_bytes recipient 32) (strncpy_bytes name (32 - 1) @ [0]) (word_of_int (lf_size f)) first)"
  note pdu2 = pdu(2) [folded fb_def]
  obtain r c1 where c1: "client_send fb c = Some (r, c1)"
    using eq pos len pdu(1) pdu2 by (auto simp: bind_eq_Some_conv)
  note sr = client_send_result [OF c1]
  have r: "\<not> r < 0" using eq pos len pdu(1) pdu2 c1 assms(2) sr by (auto simp: SENT_LINE_def)
  then have s1: "cc_sent c1 = cc_sent c @ fb" using sr by auto
  have fst: "first = take n (lf_bytes f)" by (simp add: first_def fread_def)
  show "length data = nat (lf_size f)" "cc_sent c' = cc_sent c @ frame_bytes (Pdu MT_FILE (strncpy_bytes recipient 32) (strncpy_bytes name (32 - 1) @ [0])
      (word_of_int (lf_size f)) (take 4015 data)) @ drop 4015 data"
  proof -
    have "length data = nat (lf_size f) \<and> first = take 4015 data \<and> cc_sent c' = cc_sent c @ fb @ drop 4015 data"
    proof (cases "nat (lf_size f) > 4015")
      case False
      then have n: "n = nat (lf_size f)" by (simp add: n_def)
      have "c' = say_sent name (lf_size f) (cstr recipient) c1"
        using eq pos len pdu(1) pdu2 c1 r False by (simp del: say_sent_def)
      then show ?thesis using s1 fst len n False by (simp add: data_def)
    next
      case True
      then have n: "n = 4015" by (simp add: n_def)
      have "sendfile_rest f name (cstr recipient) c1 = Some c'"
        using eq pos len pdu(1) pdu2 c1 r True by simp
      from sendfile_rest_sent [OF this] have rest: "cc_sent c' = cc_sent c1 @ take (nat (lf_size f) - 4015) (drop 4015 (lf_bytes f))"
        "length (take (nat (lf_size f) - 4015) (drop 4015 (lf_bytes f))) = nat (lf_size f) - 4015"
        using assms(2) sr by auto
      have "length (lf_bytes f) \<ge> nat (lf_size f)" using rest(2) len fst n True by simp
      moreover have "drop 4015 data = take (nat (lf_size f) - 4015) (drop 4015 (lf_bytes f))" by (simp add: data_def drop_take)
      moreover have "first = take 4015 data" using fst n True by (simp add: data_def min_def)
      ultimately show ?thesis using rest(1) s1 by (simp add: data_def)
    qed
    then show "length data = nat (lf_size f)" "cc_sent c' = cc_sent c @ frame_bytes (Pdu MT_FILE (strncpy_bytes recipient 32) (strncpy_bytes name (32 - 1) @ [0])
      (word_of_int (lf_size f)) (take 4015 data)) @ drop 4015 data" by (simp_all add: fb_def)
  qed
qed

subsection \<open>The answer a file waits for\<close>

definition answer :: "client_core \<Rightarrow> bool \<times> u32" where
  "answer k = (awaiting_resp k, last_resp_code k)"

lemma answer_updates [simp]:
  "answer (clio_print fmt args k) = answer k" "answer (set_transfer i t k) = answer k" "answer (k\<lparr>files := fs\<rparr>) = answer k"
  "answer (k\<lparr>user_cache := us\<rparr>) = answer k" "answer (server_says code body k) = answer k"
  by (simp_all add: answer_def clio_print_def set_transfer_def server_says_def)

lemma answer_users [simp]: "answer (show_users k) = answer k"
proof -
  have "answer (fold (\<lambda>u. clio_print ''  %s'' [Str u]) us k) = answer k" for us k
    by (induction us arbitrary: k) simp_all
  then show ?thesis by (simp add: show_users_def)
qed

lemma answer_file: "receive_file s raw_name msize data k = Some k' \<Longrightarrow> answer k' = answer k"
proof -
  have "answer (store_file s d msize data i k) = answer k" for d i k
    by (simp add: store_file_unfold start_transfer_def)
  then show "receive_file s raw_name msize data k = Some k' \<Longrightarrow> answer k' = answer k"
    by (auto simp: receive_file_def end_transfer_def bind_eq_Some_conv split: option.splits)
qed

lemma answer_chunk: "receive_chunk s data k = Some k' \<Longrightarrow> answer k' = answer k"
  by (auto simp: receive_chunk_def Let_def split: if_splits option.splits prod.splits)

lemma answer_stays:
  assumes "\<not> awaiting_resp k" and "deliver_frame f k = Some k'"
  shows "answer k' = answer k"
proof -
  have "answer (note_resp code k) = answer k" if "\<not> awaiting_resp k" for code k
    using that by (simp add: note_resp_def answer_def)
  moreover have "\<not> awaiting_resp (server_says code body k)" for code body
    using assms(1) answer_updates(5) [of code body k] by (simp add: answer_def)
  ultimately show ?thesis using assms(2)
    by (cases f) (auto simp: deliver_pdu_def Let_def answer_file answer_chunk split: if_splits)
qed

lemma answer_stays_all: "\<not> awaiting_resp k \<Longrightarrow> deliver_all fs k = Some k' \<Longrightarrow> answer k' = answer k"
proof (induction fs arbitrary: k)
  case (Cons f fs)
  obtain k1 where k1: "deliver_frame f k = Some k1" "deliver_all fs k1 = Some k'" using Cons.prems(2) by (auto split: option.splits)
  have "answer k1 = answer k" by (rule answer_stays [OF Cons.prems(1) k1(1)])
  then show ?case using Cons.IH [OF _ k1(2)] Cons.prems(1) by (simp add: answer_def)
qed simp

lemma await_takes_first:
  assumes up: "cc_state c = ST_CONNECTED" and buf: "buffer_ok c" and core: "core_ok (core c)"
    and ok: "\<forall>f \<in> set (Pdu MT_INFO subj opt msize body # fs). frame_ok f"
    and w: "window c = concat (map frame_bytes (Pdu MT_INFO subj opt msize body # fs))"
  shows "\<exists>c'. await_resp c = Some (0, Some (of_be32 (take 4 opt)), c')"
proof -
  let ?f = "Pdu MT_INFO subj opt msize body" and ?code = "of_be32 (take 4 opt)"
  define c0 where "c0 = upd_core (awaiting_resp_update (\<lambda>_. True)) c"
  have c0: "buffer_ok c0" "window c0 = window c" "core_ok (core c0)" "awaiting_resp (core c0)" "cc_state c0 = ST_CONNECTED"
    using buf core up by (simp_all add: c0_def upd_core_def buffer_ok_def window_def core_ok_def)
  define k1 where "k1 = note_resp ?code (server_says ?code body (core c0))"
  have k1: "deliver_frame ?f (core c0) = Some k1" by (simp add: deliver_pdu_def k1_def msg_type_defs Let_def)
  have "awaiting_resp (server_says ?code body (core c0))"
    using c0(4) answer_updates(5) [of ?code body "core c0"] by (simp add: answer_def)
  then have a1: "answer k1 = (False, ?code)" by (simp add: k1_def note_resp_def answer_def Let_def)
  obtain k' where k': "deliver_all fs k1 = Some k'" using deliver_ok [OF c0(3), of ?f] deliver_all_ok k1 by auto
  have "answer k' = answer k1" using a1 by (intro answer_stays_all [OF _ k']) (simp add: answer_def)
  then have a': "awaiting_resp k' = False" "last_resp_code k' = ?code" using a1 by (simp_all add: answer_def)
  obtain b where b: "clrecv_parse c0 = Some (with_buf k' b 0 c0)"
    using parse_frames [OF c0(1), of "?f # fs" "[]" k'] w c0(2) ok k1 k' by auto
  have "await_loop (with_buf k' b 0 c0) = Some (0, with_buf k' b 0 c0)"
    using a' c0(5) by (subst await_loop.simps) simp
  then show ?thesis using b a' by (simp add: await_resp_def c0_def [symmetric])
qed

subsection \<open>The properties\<close>

text \<open>C19. A typed text is read by the other user: the command \<open>msg\<close> on a line whose text fits into a PDU sends
  exactly one PDU, whose header is intact and whose length, type and recipient are what the server's path for a
  message expects; and whatever the server makes of it for the recipient, the other client's parser takes it as a
  whole frame and shows the text as it was typed, behind the name of the sender.\<close>

theorem typed_message_shown:
  assumes "cc_state c = ST_CONNECTED" and "0 \<notin> set line" and "length line \<le> 4095"
    and "split_tokens 2 line = [cmd, nm]" and "0 \<notin> set nm" and "msg_text = drop (cmdparse_rest_after_tokens line 2) line"
    and "msg_text \<noteq> []" and "length msg_text + 1 \<le> LWMP_PDU_BUF_SIZE" and "takes (cc_outputs c) (LWMP_HDR_SIZE + (length msg_text + 1))"
  shows "\<exists>pdu outp. cmd_msg line c = Some (c\<lparr>cc_outputs := outp, cc_sent := cc_sent c @ pdu\<rparr>) \<and>
    first_pdu pdu (length msg_text + 1) \<and> pdu_header_intact pdu \<and>
    cstr (recipient_of pdu) = map tolower (take (UNAMESIZE - 1) nm) \<and>
    (\<forall>sender b. forwarded pdu sender b \<longrightarrow> (\<exists>f. frame_bytes f = b \<and> frame_ok f \<and>
       (\<forall>k. deliver_frame f k = Some (clio_print ''[%s]: %s'' [Str (take UNAMESIZE (cstr sender)), Str msg_text] k))))"
proof -
  let ?subj = "strncpy_bytes (recipient_buf nm) 32"
  obtain pdu outp where p: "cmd_msg line c = Some (c\<lparr>cc_outputs := outp, cc_sent := cc_sent c @ pdu\<rparr>)"
    "pdu = frame_bytes (Pdu MT_MSG ?subj (replicate 32 0) (of_nat (length msg_text + 1)) (msg_text @ [0]))"
    using typed_text [OF assms(1-4,6-9)] by blast
  have l: "length ?subj = 32" by simp
  note fp = text_frame_first_pdu [OF p(2) l assms(8)]
  have nul: "0 \<notin> set msg_text" using assms(2,6) by (auto dest: in_set_dropD)
  have "cstr (recipient_of pdu) = cstr (take 31 ?subj)" unfolding fp(3) using cstr_update_0 [of 31 ?subj] by simp
  moreover have "cstr (take 31 ?subj) = map tolower (take 31 nm)"
  proof -
    have s: "cstr ?subj = map tolower (take 31 nm)"
      unfolding cstr_strncpy_bytes subject_of_name [OF assms(5)] by simp
    have "cstr (take 31 ?subj) = take 31 (cstr ?subj)" by (rule cstr_take)
    then show ?thesis using s by simp
  qed
  ultimately have rc: "cstr (recipient_of pdu) = map tolower (take (32 - 1) nm)" by simp
  then show ?thesis using p(1) fp(1,2) forwarded_text_frame [OF p(2) l assms(8) nul] by blast
qed

lemma takes_one: "n \<le> k \<Longrightarrow> 0 < n \<Longrightarrow> takes [Sent k] n"
  by (cases n) simp_all

definition typed_line :: "byte list" where
  "typed_line = [109, 115, 103, 32, 66, 111, 98, 32, 104, 105]"

lemma typed_line_parts:
  "split_tokens 2 typed_line = [[109, 115, 103], [66, 111, 98]]" "drop (cmdparse_rest_after_tokens typed_line 2) typed_line = [104, 105]"
proof -
  have two: "(2 :: nat) = Suc (Suc 0)" by simp
  show "split_tokens 2 typed_line = [[109, 115, 103], [66, 111, 98]]"
    unfolding two by (simp add: typed_line_def is_ws_def)
  show "drop (cmdparse_rest_after_tokens typed_line 2) typed_line = [104, 105]"
    by code_simp
qed

theorem typed_message_shown_witness:
  "\<exists>pdu c'. cmd_msg typed_line ((idle_client [])\<lparr>cc_outputs := [Sent 84]\<rparr>) = Some c' \<and> cc_sent c' = pdu \<and>
     first_pdu pdu 3 \<and> cstr (recipient_of pdu) = [98, 111, 98]"
proof -
  let ?c = "(idle_client [])\<lparr>cc_outputs := [Sent 84]\<rparr>"
  have c: "cc_state ?c = ST_CONNECTED" "cc_sent ?c = []" by (simp_all add: idle_client_def)
  have l: "0 \<notin> set typed_line" "length typed_line \<le> 4095" by (simp_all add: typed_line_def)
  have nm: "0 \<notin> set [66, 111, 98 :: byte]" by simp
  have t: "takes (cc_outputs ?c) (81 + (length [104, 105 :: byte] + 1))" by (simp add: takes_one)
  have lower: "map tolower (take (32 - 1) [66, 111, 98]) = [98, 111, 98]" by (simp add: tolower_def)
  from typed_message_shown [OF c(1) l typed_line_parts(1) nm typed_line_parts(2) [symmetric] _ _ t] show ?thesis
    unfolding lower c(2) by (auto simp: numeral_3_eq_3)
qed

text \<open>C20. A reported file was sent: when \<open>sendfile\<close> reports that a file has been sent, the file was regular and not empty,
  all its bytes could be read, and what the connection has taken is exactly one PDU with the name and the size of the
  file and its first bytes, followed by all its other bytes, whatever arrived from the server in the meantime.\<close>

theorem reported_file_sent:
  assumes "cmd_sendfile disk tokens c = Some c'" and "reports (core c') \<noteq> reports (core c)"
  shows "\<exists>f data. disk (tokens ! 2) = Opened f \<and> lf_regular f \<and> 0 < lf_size f \<and> data = take (nat (lf_size f)) (lf_bytes f) \<and>
    length data = nat (lf_size f) \<and>
    cc_sent c' = cc_sent c @ frame_bytes (Pdu MT_FILE (strncpy_bytes (recipient_buf (tokens ! 1)) UNAMESIZE)
      (strncpy_bytes (base_name (tokens ! 2)) (OPTDATA_LEN - 1) @ [0]) (word_of_int (lf_size f)) (take LWMP_PDU_BUF_SIZE data)) @
      drop LWMP_PDU_BUF_SIZE data"
proof -
  obtain f where f: "disk (tokens ! 2) = Opened f" "lf_regular f"
    "send_file f (base_name (tokens ! 2)) (recipient_buf (tokens ! 1)) c = Some c'"
    using assms by (auto simp: cmd_sendfile_def Let_def SENT_LINE_def split: if_splits open_answer.splits option.splits)
  then show ?thesis using send_file_sent [OF f(3) assms(2)] by blast
qed

definition small_file :: local_file where
  "small_file = \<lparr>lf_regular = True, lf_stream_error = None, lf_size = 2, lf_bytes = [1, 2]\<rparr>"

theorem reported_file_sent_witness:
  "\<exists>c'. cmd_sendfile (\<lambda>_. Opened small_file) [[115], [98], [47, 120]] ((idle_client [])\<lparr>cc_outputs := [Sent 83]\<rparr>) = Some c' \<and>
     cc_sent c' = frame_bytes (Pdu MT_FILE (strncpy_bytes (recipient_buf [98]) 32) (strncpy_bytes [120] 31 @ [0]) 2 [1, 2])"
proof -
  let ?c = "(idle_client [])\<lparr>cc_outputs := [Sent 83]\<rparr>" and ?d = "\<lambda>_. Opened small_file" and ?t = "[[115], [98], [47, 120 :: byte]]"
  have b: "base_name (?t ! 2) = [120]" by (simp add: base_name_def strrchr_def)
  have r: "fread small_file 0 2 = [1, 2]" by (simp add: fread_def small_file_def)
  obtain pdu where pdu: "file_pdu (recipient_buf [98]) [120] 2 [1, 2] = Some pdu" "mem_read pdu 0 83 =
      Some (frame_bytes (Pdu MT_FILE (strncpy_bytes (recipient_buf [98]) 32) (strncpy_bytes [120] 31 @ [0]) 2 [1, 2]))"
    using file_pdu_frame [of "[1, 2]" "recipient_buf [98]" "[120]" 2] by auto
  have len: "length (frame_bytes (Pdu MT_FILE (strncpy_bytes (recipient_buf [98]) 32) (strncpy_bytes [120] 31 @ [0]) 2 [1, 2])) = 83"
    using mem_read_length [OF pdu(2)] .
  obtain c1 where c1: "client_send (frame_bytes (Pdu MT_FILE (strncpy_bytes (recipient_buf [98]) 32) (strncpy_bytes [120] 31 @ [0]) 2 [1, 2])) ?c =
      Some (0, c1)"
  proof -
    have "takes (cc_outputs ?c) (length (frame_bytes (Pdu MT_FILE (strncpy_bytes (recipient_buf [98]) 32) (strncpy_bytes [120] 31 @ [0]) 2 [1, 2])))"
      unfolding len by (simp add: takes_one)
    from client_send_takes [OF this] show thesis using that by blast
  qed
  have run: "cmd_sendfile ?d ?t ?c = Some (say_sent [120] 2 (cstr (recipient_buf [98])) c1)"
    using r b pdu c1 unfolding cmd_sendfile_def Let_def b
    by (simp add: send_file_def small_file_def idle_client_def Let_def del: frame_bytes.simps)
  have "core c1 = core ?c" using client_send_result [OF c1] by simp
  then have "reports (core (say_sent [120] 2 (cstr (recipient_buf [98])) c1)) \<noteq> reports (core ?c)"
    by (simp add: say_sent_def say_def upd_core_def reports_def SENT_LINE_def)
  from reported_file_sent [OF run this] show ?thesis using run b
    by (auto simp: small_file_def idle_client_def simp del: frame_bytes.simps)
qed

text \<open>C21. The request that the client sends at login, registration and deletion is the one the server reads: when
  \<open>do_auth\<close> returns 0, exactly 56 bytes have been sent, in which the server finds the type of the request, the name
  (in lower case, at most 31 characters) and the password (at most 19), and the four bytes that were received are
  \<open>AUTH_RESP_OK\<close>.\<close>

theorem login_request_understood:
  assumes "do_auth req_type nm pw l = Some (0, ls, l')" and "0 \<notin> set nm" and "0 \<notin> set pw"
  shows "\<exists>bs req. lk_sent l' = lk_sent l @ bs \<and> length bs = 56 \<and> auth_req_of bs = Some req \<and> request_type req = req_type \<and>
    req_ok req \<and> user_of req = map tolower (take (UNAMESIZE - 1) nm) \<and> password_of req = take (PWDSIZE - 1) pw \<and>
    in_bytes (lk_in l) = be32 AUTH_RESP_OK @ in_bytes (lk_in l')"
proof -
  let ?u = "strncpy_bytes nm 31 @ [0]" and ?p = "strncpy_bytes pw 19 @ [0]"
  define bs where "bs = auth_request req_type nm pw"
  obtain l1 resp l2 where s: "send_all bs l = Some (0, l1)" "recv_all 4 l1 = Some (0, resp, l2)" "of_be32 resp = AUTH_RESP_OK" "l' = l2"
  proof -
    obtain r l1 where s: "send_all bs l = Some (r, l1)" using assms(1) by (auto simp: do_auth_def bs_def bind_eq_Some_conv)
    then have r: "r = 0" using assms(1) send_loop_result [of bs 0 l "(r, l1)"] by (auto simp: do_auth_def bs_def [symmetric] send_all_def sent_right_def)
    obtain r2 resp l2 where t: "recv_all 4 l1 = Some (r2, resp, l2)"
      using assms(1) s r by (auto simp: do_auth_def bs_def [symmetric] bind_eq_Some_conv)
    then have "r2 = 0" using assms(1) s r recv_loop_result [of 4 "[]" l1 "(r2, resp, l2)"]
      by (auto simp: do_auth_def bs_def [symmetric] recv_all_def got_right_def)
    then show thesis using that [of l1 resp l2] assms(1) s r t
      by (auto simp: do_auth_def bs_def [symmetric] Let_def split: if_splits)
  qed
  have snt: "lk_sent l1 = lk_sent l @ bs" "lk_in l1 = lk_in l"
    using send_loop_result [of bs 0 l "(0, l1)"] s(1) by (simp_all add: send_all_def sent_right_def)
  have rcv: "length resp = 4" "in_bytes (lk_in l1) = resp @ in_bytes (lk_in l2)" "lk_sent l2 = lk_sent l1"
    using recv_loop_result [of 4 "[]" l1 "(0, resp, l2)"] s(2) by (simp_all add: recv_all_def got_right_def)
  have rr: "resp = be32 AUTH_RESP_OK" using be32_of_be32 [OF rcv(1)] s(3) by simp
  have b: "bs = be32 req_type @ ?u @ ?p" by (simp add: bs_def auth_request_def)
  have "mem_read bs 0 4 = Some (be32 req_type)" by (rule mem_read_midI [where a = "[]"]) (simp_all add: b)
  moreover have "mem_read bs 4 32 = Some ?u" by (rule mem_read_midI [OF b]) simp_all
  moreover have "mem_read bs 36 20 = Some ?p"
    by (rule mem_read_midI [where a = "be32 req_type @ ?u" and c = "[]"]) (simp_all add: b)
  ultimately have req: "auth_req_of bs = Some \<lparr>request_type = req_type, req_username = ?u, req_password = ?p\<rparr>"
    by (simp add: auth_req_of_def load32_def of_be32_be32)
  have u: "cstr (take 31 ?u) = take 31 nm" "cstr (take 19 ?p) = take 19 pw"
    using cstr_strncpy_bytes [of nm 31] cstr_strncpy_bytes [of pw 19] by (simp_all add: cstr_no_NUL [OF assms(2)] cstr_no_NUL [OF assms(3)])
  show ?thesis
    by (intro exI [of _ bs] exI [of _ "\<lparr>request_type = req_type, req_username = ?u, req_password = ?p\<rparr>"])
      (use snt rcv rr s(4) req u in \<open>simp add: user_of_def password_of_def req_ok_def, simp add: b\<close>)
qed

theorem login_request_understood_witness:
  "\<exists>ls l'. do_auth REQ_AUTHENTICATION [65, 110] [112] \<lparr>lk_in = [RecvData (be32 AUTH_RESP_OK)], lk_out = [Sent 56], lk_sent = []\<rparr> = Some (0, ls, l') \<and>
     (\<exists>req. auth_req_of (lk_sent l') = Some req \<and> user_of req = [97, 110])"
proof -
  let ?l = "\<lparr>lk_in = [RecvData (be32 AUTH_RESP_OK)], lk_out = [Sent 56], lk_sent = []\<rparr>"
  have len: "length (auth_request REQ_AUTHENTICATION [65, 110] [112]) = 56" by (simp add: auth_request_def)
  obtain outp where s: "send_all (auth_request REQ_AUTHENTICATION [65, 110] [112]) ?l =
      Some (0, ?l\<lparr>lk_out := outp, lk_sent := auth_request REQ_AUTHENTICATION [65, 110] [112]\<rparr>)"
    using send_loop_takes [of ?l "auth_request REQ_AUTHENTICATION [65, 110] [112]" 0] len by (auto simp: send_all_def takes_one)
  have "recv_all 4 (?l\<lparr>lk_out := outp, lk_sent := b\<rparr>) = Some (0, be32 AUTH_RESP_OK, (?l\<lparr>lk_out := outp, lk_sent := b\<rparr>)\<lparr>lk_in := []\<rparr>)" for b
    unfolding recv_all_def by (subst recv_loop.simps, simp add: be32_def, subst recv_loop.simps, simp)
  then have run: "\<exists>l'. do_auth REQ_AUTHENTICATION [65, 110] [112] ?l = Some (0, [], l')"
    using s by (simp add: do_auth_def of_be32_be32)
  then obtain l' where l': "do_auth REQ_AUTHENTICATION [65, 110] [112] ?l = Some (0, [], l')" by blast
  have n: "0 \<notin> set [65, 110 :: byte]" "0 \<notin> set [112 :: byte]" by simp_all
  from login_request_understood [OF l' n] l' show ?thesis by (auto simp: tolower_def)
qed

text \<open>C22. Any answer is taken for the answer: \<open>await_resp\<close>, which \<open>sendfile\<close> calls after the first PDU of a long file,
  returns the code of the first response in the stream, also when that response was sent for an earlier message, so
  that a file is aborted because a text before it could not be delivered, or is sent without having been accepted.\<close>

theorem stale_answer_taken:
  assumes "cc_state c = ST_CONNECTED" and "buffer_ok c" and "core_ok (core c)"
    and "\<forall>f \<in> set (Pdu MT_INFO subj opt msize body # fs). frame_ok f"
    and "window c = concat (map frame_bytes (Pdu MT_INFO subj opt msize body # fs))"
  shows "\<exists>c'. await_resp c = Some (0, Some (of_be32 (take 4 opt)), c')"
  by (rule await_takes_first [OF assms])

theorem stale_answer_taken_witness:
  "\<exists>c c'. window c = frame_bytes (Pdu MT_INFO (replicate 32 0) (be32 RESP_DCONN_SUBJ @ replicate 28 0) 0 []) \<and>
     await_resp c = Some (0, Some RESP_DCONN_SUBJ, c')"
proof -
  let ?f = "Pdu MT_INFO (replicate 32 0) (be32 RESP_DCONN_SUBJ @ replicate 28 0) 0 []"
  define c where "c = (idle_client [])\<lparr>recv_buf := frame_bytes ?f @ replicate (RECV_BUF_SIZE - 81) 0, recv_len := 81\<rparr>"
  have len: "length (frame_bytes ?f) = 81" by (simp add: pdu_fields_def)
  have ok: "\<forall>f \<in> set [?f]. frame_ok f" by (simp add: msg_type_defs)
  have c: "buffer_ok c" "window c = frame_bytes ?f" "core c = idle_core" "cc_state c = ST_CONNECTED"
    using len by (simp_all add: c_def buffer_ok_def window_def idle_client_def del: frame_bytes.simps)
  have "core_ok (core c)" "window c = concat (map frame_bytes [?f])" using c idle_core_ok(1) by simp_all
  from stale_answer_taken [OF c(4,1) this(1) ok this(2)] show ?thesis
    using c(2) by (auto simp: of_be32_be32 simp del: frame_bytes.simps)
qed

end
