(* ===== verification/Clio.thy ===== *)
theory Clio
  imports Clcmd
begin

text \<open>
  The terminal of the client and its main loop: the completion of words and the handler of lines of
  \<open>client/clio.c\<close>, and the loop of \<open>client/client.c\<close>. The readline library edits the line; what the code relies on is
  that it calls the handler with each finished line (NULL at the end of the input), and that it collects the results of
  a generator until that returns NULL.
\<close>

subsection \<open>Completion\<close>

definition command_names :: "string list" where
  "command_names = [''connect'', ''register'', ''delete_account'', ''disconnect'', ''msg'', ''sendfile'', ''userlist'', ''clear'', ''help'', ''quit'', ''q'']"

text \<open>The two inner loops of \<open>word_index\<close>: to the end of the blanks, or of the word, at \<open>i\<close>.\<close>

function skip_while :: "(byte \<Rightarrow> bool) \<Rightarrow> byte list \<Rightarrow> nat \<Rightarrow> nat \<Rightarrow> nat" where
  "skip_while P line start i = (if i < start \<and> P (line ! i) then skip_while P line start (i + 1) else i)"
  by pat_completeness auto
termination by (relation "measure (\<lambda>(P, line, start, i). start - i)") auto

declare skip_while.simps [simp del]

lemma skip_while_ge: "i \<le> skip_while P line start i"
  by (induction P line start i rule: skip_while.induct) (subst skip_while.simps, auto)

lemma skip_while_progress: "i < start \<Longrightarrow> P (line ! i) \<Longrightarrow> i < skip_while P line start i"
  using skip_while_ge [of "i + 1" P line start] by (subst skip_while.simps) auto

lemma skip_while_stops: "skip_while P line start i < start \<Longrightarrow> \<not> P (line ! skip_while P line start i)"
  by (induction P line start i rule: skip_while.induct) (subst (asm) skip_while.simps, subst skip_while.simps, auto split: if_splits)

function word_loop :: "byte list \<Rightarrow> nat \<Rightarrow> nat \<Rightarrow> nat \<Rightarrow> nat" where
  "word_loop line start i idx =
     (if i < start
      then let i = skip_while is_space line start i in
        if i \<ge> start then idx
        else word_loop line start (skip_while (\<lambda>b. \<not> is_space b) line start i) (idx + 1)
      else idx)"
  by pat_completeness auto
termination
proof (relation "measure (\<lambda>(line, start, i, idx). start - i)", simp)
  fix line start i idx x
  assume i: "i < start" and x: "x = skip_while is_space line start i" "\<not> start \<le> x"
  then have "x < skip_while (\<lambda>b. \<not> is_space b) line start x" using skip_while_stops [of is_space line start i] by (intro skip_while_progress) auto
  moreover have "i \<le> x" unfolding x(1) by (rule skip_while_ge)
  ultimately show "((line, start, skip_while (\<lambda>b. \<not> is_space b) line start x, idx + 1), line, start, i, idx) \<in>
      measure (\<lambda>(line, start, i, idx). start - i)"
    using i by simp
qed

declare word_loop.simps [simp del]

definition word_index :: "byte list \<Rightarrow> nat \<Rightarrow> nat" where
  "word_index line start = word_loop line start 0 0"

text \<open>A generator goes through a table from its index on; it returns the next name that begins with \<open>text\<close>.\<close>

function next_match :: "byte list list \<Rightarrow> byte list \<Rightarrow> nat \<Rightarrow> byte list option \<times> nat" where
  "next_match names word idx =
     (if idx < length names
      then if take (length word) (names ! idx) = word then (Some (names ! idx), idx + 1) else next_match names word (idx + 1)
      else (None, idx))"
  by pat_completeness auto
termination by (relation "measure (\<lambda>(names, word, idx). length names - idx)") auto

declare next_match.simps [simp del]

definition command_generator :: "byte list \<Rightarrow> nat \<Rightarrow> byte list option \<times> nat" where
  "command_generator word idx = next_match (map lit command_names) word idx"

definition username_generator :: "client_core \<Rightarrow> byte list \<Rightarrow> nat \<Rightarrow> byte list option \<times> nat" where
  "username_generator k word idx = next_match (user_cache k) word idx"

definition defaulthost_generator :: "byte list \<Rightarrow> nat \<Rightarrow> byte list option \<times> nat" where
  "defaulthost_generator word done_yet =
     (if done_yet = 0 \<and> take (length word) (lit ''defaulthost'') = word then (Some (lit ''defaulthost''), 1) else (None, done_yet))"

text \<open>\<open>rl_completion_matches\<close>: the static variable of the generator starts at 0.\<close>

partial_function (option) collect :: "(nat \<Rightarrow> byte list option \<times> nat) \<Rightarrow> nat \<Rightarrow> byte list list option" where
  "collect gen idx =
     (case fst (gen idx) of
        None \<Rightarrow> Some []
      | Some name \<Rightarrow> do { names \<leftarrow> collect gen (snd (gen idx)); Some (name # names) })"

definition rl_completion_matches :: "(nat \<Rightarrow> byte list option \<times> nat) \<Rightarrow> byte list list option" where
  "rl_completion_matches gen = collect gen 0"

text \<open>The first word, at most 31 characters of it.\<close>

definition first_word :: "byte list \<Rightarrow> byte list" where
  "first_word line = take 31 (takeWhile (\<lambda>b. \<not> is_space b) (dropWhile is_space line))"

text \<open>The matches, and whether the library may go on and complete file names.\<close>

definition lwmsg_completion :: "client_core \<Rightarrow> byte list \<Rightarrow> byte list \<Rightarrow> nat \<Rightarrow> (byte list list \<times> bool) option" where
  "lwmsg_completion k line word start =
     (let widx = word_index line start; first = first_word line; only = map_option (\<lambda>ms. (ms, False)) in
      if widx = 0 then only (rl_completion_matches (command_generator word))
      else if first = lit ''help'' \<and> widx = 1 then only (rl_completion_matches (command_generator word))
      else if (first = lit ''connect'' \<or> first = lit ''register'' \<or> first = lit ''delete_account'') \<and> widx = 1
      then only (rl_completion_matches (defaulthost_generator word))
      else if (first = lit ''msg'' \<or> first = lit ''sendfile'') \<and> widx = 1
      then only (rl_completion_matches (username_generator k word))
      else if first = lit ''sendfile'' \<and> widx = 2 then Some ([], True)
      else Some ([], False))"

subsection \<open>Lines\<close>

text \<open>The history is left out.\<close>

definition clio_line_handler :: "dialer \<Rightarrow> local_disk \<Rightarrow> byte list option \<Rightarrow> client_ctx \<Rightarrow> client_ctx option" where
  "clio_line_handler dial disk line c =
     (case line of None \<Rightarrow> Some (c\<lparr>running := False\<rparr>) | Some l \<Rightarrow> handle_command_line dial disk l c)"

definition clio_init :: "client_ctx \<Rightarrow> client_ctx" where
  "clio_init c = c\<lparr>prompt := DEFAULT_PROMPT (use_tls c)\<rparr>"

subsection \<open>The main loop\<close>

text \<open>An event on the terminal is a character; with the last one of a line the handler is called. What the world answers
  to the handler (\<open>dial\<close>, \<open>disk\<close>) and what happens on the socket meanwhile are part of the events.\<close>

datatype client_event = Typing | Line dialer local_disk "byte list option" | Readable "recv_res list"

datatype waited = Wait_interrupted | Wait_failed | Events "client_event list"

text \<open>Input that has arrived is appended to the answers of the socket; a socket that has been closed since \<open>epoll_wait\<close>
  reported it gives an error.\<close>

definition dispatch_event :: "client_event \<Rightarrow> client_ctx \<Rightarrow> client_ctx option" where
  "dispatch_event ev c =
     (case ev of
        Typing \<Rightarrow> Some c
      | Line dial disk line \<Rightarrow> clio_line_handler dial disk line c
      | Readable inp \<Rightarrow>
          handle_socket_data (c\<lparr>cc_inputs := (if cc_state c = ST_CONNECTED then cc_inputs c @ inp else [RecvError])\<rparr>))"

fun client_events :: "client_event list \<Rightarrow> client_ctx \<Rightarrow> client_ctx option" where
  "client_events [] c = Some c"
| "client_events (ev # evs) c = (case dispatch_event ev c of None \<Rightarrow> None | Some c \<Rightarrow> client_events evs c)"

text \<open>The loop ends when the client is told to quit or when \<open>epoll_wait\<close> fails; the list of its answers stands for
  a run of any length.\<close>

fun client_loop :: "waited list \<Rightarrow> client_ctx \<Rightarrow> client_ctx option" where
  "client_loop [] c = Some c"
| "client_loop (w # ws) c =
     (if \<not> running c then Some c
      else case w of
        Wait_interrupted \<Rightarrow> client_loop ws c
      | Wait_failed \<Rightarrow> Some c
      | Events evs \<Rightarrow> (case client_events evs c of None \<Rightarrow> None | Some c \<Rightarrow> client_loop ws c))"

definition client_start :: "bool \<Rightarrow> file_store \<Rightarrow> (byte list \<Rightarrow> bool) \<Rightarrow> client_ctx" where
  "client_start tls disk_files creatable = clio_init
     \<lparr>core = \<lparr>transfers = replicate MAX_ACTIVE_TRANSFERS \<lparr>ft_active = False, ft_fp = None, expected_size = 0, ft_received = 0,
          ft_sender = [], ft_filename = []\<rparr>,
        files = disk_files, can_create = creatable, user_cache = [], awaiting_resp = False, last_resp_code = 0,
        sending_chunks = False, transfer_error = False, shown = []\<rparr>,
      cc_state = ST_DISCONNECTED, connection = \<lparr>conn_fd = ERROR, ssl = False\<rparr>, use_tls = tls, cc_username = [], server_host = [],
      recv_buf = replicate RECV_BUF_SIZE 0, recv_len = 0, running = True, watched = False, prompt = [], cc_inputs = [],
      cc_outputs = [], cc_sent = [], polls = [], pendings = []\<rparr>"

definition client_end :: "client_ctx \<Rightarrow> client_ctx" where
  "client_end c =
     (let c = upd_core close_all_transfers c in
      if cc_state c = ST_CONNECTED
      then c\<lparr>watched := False, connection := disconnect_fn (use_tls c) (connection c)\<rparr>
      else c)"

end
