(* ===== verification/Clsession.thy ===== *)
theory Clsession
  imports Clsend Clio
begin

text \<open>
  A session at the client's terminal: what completion offers, and the invariant of the client's context, which every
  typed line and every event of the socket keep, whatever the server sends.
\<close>

subsection \<open>Completion\<close>

text \<open>The words of a line.\<close>

function blank_words :: "byte list \<Rightarrow> byte list list" where
  "blank_words s =
     (let s = dropWhile is_space s in
      if s = [] then [] else takeWhile (\<lambda>b. \<not> is_space b) s # blank_words (dropWhile (\<lambda>b. \<not> is_space b) s))"
  by pat_completeness auto
termination
proof (relation "measure length", simp)
  fix s x :: "byte list"
  assume x: "x = dropWhile is_space s" "x \<noteq> []"
  then have "\<not> is_space (hd x)" using hd_dropWhile [of is_space s] by simp
  then have "length (dropWhile (\<lambda>b. \<not> is_space b) x) < length x"
    using x(2) length_dropWhile_le [of "\<lambda>b. \<not> is_space b" "tl x"] by (cases x) (auto simp: less_Suc_eq_le)
  also have "\<dots> \<le> length s" using x(1) by (simp add: length_dropWhile_le)
  finally show "(dropWhile (\<lambda>b. \<not> is_space b) x, s) \<in> measure length" by simp
qed

declare blank_words.simps [simp del]

lemma skip_while_takeWhile:
  assumes "start \<le> length line" and "i \<le> start"
  shows "skip_while P line start i = i + length (takeWhile P (drop i (take start line)))"
  using assms
proof (induction P line start i rule: skip_while.induct)
  case (1 P line start i)
  show ?case
  proof (cases "i < start")
    case True
    then have "drop i (take start line) = line ! i # drop (i + 1) (take start line)"
      using "1.prems" by (simp add: Cons_nth_drop_Suc [symmetric])
    then show ?thesis using 1 True by (subst skip_while.simps) simp
  qed (use "1.prems" in \<open>subst skip_while.simps, simp\<close>)
qed

lemma word_loop_words:
  assumes "start \<le> length line" and "i \<le> start"
  shows "word_loop line start i idx = idx + length (blank_words (drop i (take start line)))"
  using assms
proof (induction line start i idx rule: word_loop.induct)
  case (1 line start i idx)
  define s where "s = drop i (take start line)"
  define x where "x = dropWhile is_space s"
  have len: "length s = start - i" using "1.prems" by (simp add: s_def)
  show ?case
  proof (cases "i < start")
    case False
    then show ?thesis using "1.prems" by (subst word_loop.simps) (simp add: blank_words.simps [of "[]"])
  next
    case True
    define j where "j = skip_while is_space line start i"
    have j: "j = i + length (takeWhile is_space s)" using skip_while_takeWhile [OF "1.prems"] by (simp add: j_def s_def)
    have jx: "drop j (take start line) = x"
      by (simp add: x_def dropWhile_eq_drop j s_def add.commute)
    have lx: "length x = start - j" using arg_cong [OF jx, of length] "1.prems" by simp
    show ?thesis
    proof (cases "j \<ge> start")
      case True
      then have "x = []" using lx by simp
      then have "blank_words s = []" by (subst blank_words.simps) (simp add: x_def [symmetric])
      then show ?thesis using True \<open>i < start\<close> by (subst word_loop.simps) (simp add: j_def [symmetric] s_def [symmetric])
    next
      case False
      define k where "k = skip_while (\<lambda>b. \<not> is_space b) line start j"
      have k: "k = j + length (takeWhile (\<lambda>b. \<not> is_space b) x)"
        using skip_while_takeWhile [of start line j "\<lambda>b. \<not> is_space b"] False "1.prems"(1) by (simp add: k_def jx)
      have le: "k \<le> start" using k lx length_takeWhile_le [of "\<lambda>b. \<not> is_space b" x] False by simp
      have "drop k (take start line) = drop (length (takeWhile (\<lambda>b. \<not> is_space b) x)) (drop j (take start line))"
        by (simp add: k add.commute)
      then have kx: "drop k (take start line) = dropWhile (\<lambda>b. \<not> is_space b) x"
        unfolding jx by (simp add: dropWhile_eq_drop)
      have "x \<noteq> []" using lx False by auto
      then have "blank_words s = takeWhile (\<lambda>b. \<not> is_space b) x # blank_words (dropWhile (\<lambda>b. \<not> is_space b) x)"
        by (subst blank_words.simps) (simp add: x_def [symmetric])
      moreover have "word_loop line start i idx = word_loop line start k (idx + 1)"
        using \<open>i < start\<close> False by (subst word_loop.simps) (simp add: j_def [symmetric] k_def [symmetric])
      moreover have "word_loop line start k (idx + 1) = idx + 1 + length (blank_words (drop k (take start line)))"
        using "1.IH" [OF \<open>i < start\<close> j_def] False "1.prems"(1) le by (simp add: k_def)
      ultimately show ?thesis unfolding kx s_def [symmetric] by simp
    qed
  qed
qed

abbreviation (input) begins :: "byte list \<Rightarrow> byte list \<Rightarrow> bool" where "begins word name \<equiv> take (length word) name = word"

lemma next_match_filter:
  "filter (begins word) (drop i names) =
     (case fst (next_match names word i) of
        None \<Rightarrow> [] | Some n \<Rightarrow> n # filter (begins word) (drop (snd (next_match names word i)) names))"
proof (induction names word i rule: next_match.induct)
  case (1 names word i)
  show ?case
  proof (cases "i < length names")
    case True
    then have d: "drop i names = names ! i # drop (i + 1) names" by (simp add: Cons_nth_drop_Suc)
    show ?thesis using 1 True d by (subst (1 2) next_match.simps) auto
  qed (subst (1 2) next_match.simps, simp)
qed

lemma next_match_later: "next_match names word i = (Some n, j) \<Longrightarrow> i < j \<and> i < length names"
  by (induction names word i rule: next_match.induct) (subst (asm) next_match.simps, auto split: if_splits)

lemma collect_matches: "collect (next_match names word) i = Some (filter (begins word) (drop i names))"
proof (induction "length names - i" arbitrary: i rule: less_induct)
  case less
  obtain r j where r: "next_match names word i = (r, j)" by fastforce
  show ?case
  proof (cases r)
    case None
    then show ?thesis using next_match_filter [where names = names and word = word and i = i] by (subst collect.simps) (simp add: r)
  next
    case (Some n)
    have "length names - j < length names - i" using next_match_later r Some by fastforce
    then have "collect (next_match names word) j = Some (filter (begins word) (drop j names))" by (rule less)
    then show ?thesis using next_match_filter [where names = names and word = word and i = i] Some by (subst collect.simps) (simp add: r)
  qed
qed

lemma collect_defaulthost: "collect (defaulthost_generator word) 0 = Some (filter (begins word) [lit ''defaulthost''])"
  by (subst collect.simps, simp add: defaulthost_generator_def, subst collect.simps, simp add: defaulthost_generator_def)

subsection \<open>Parsing keeps the buffer and the transfers\<close>

text \<open>What parsing does not change.\<close>

definition outer :: "client_ctx \<Rightarrow> _" where
  "outer c = (cc_state c, connection c, client_ctx.use_tls c, cc_username c, server_host c, watched c, prompt c)"

definition held :: "client_ctx \<Rightarrow> client_ctx \<Rightarrow> bool" where
  "held c0 c \<longleftrightarrow> outer c = outer c0 \<and> core_ok (core c) \<and> length (recv_buf c) = RECV_BUF_SIZE \<and> recv_len c \<le> RECV_BUF_SIZE"

named_theorems held_rules \<open>operations of the receiving side that keep the buffer and the transfers\<close>

lemma held_say [simp]: "held c0 (say fmt args c) = held c0 c"
  by (simp add: held_def outer_def say_def upd_core_def)

lemma held_consume [intro]: "held c0 c \<Longrightarrow> held c0 (consume n c)"
  by (auto simp: held_def outer_def consume_def)

lemma held_core [intro]: "held c0 c \<Longrightarrow> (core_ok (core c) \<Longrightarrow> core_ok (f (core c))) \<Longrightarrow> held c0 (upd_core f c)"
  by (simp add: held_def outer_def upd_core_def)

lemma held_store [held_rules]: "store_at off bs c = Some c' \<Longrightarrow> held c0 c \<Longrightarrow> held c0 c'"
  by (auto simp: store_at_def held_def outer_def mem_write_length)

lemma held_on_core:
  "on_core f c = Some c' \<Longrightarrow> held c0 c \<Longrightarrow> (\<And>k. f (core c) = Some k \<Longrightarrow> core_ok (core c) \<Longrightarrow> core_ok k) \<Longrightarrow> held c0 c'"
  by (auto simp: on_core_def held_def outer_def)

lemma cache_loop_bound:
  "cache_loop b off payload cache = Some r \<Longrightarrow> length cache \<le> USER_CACHE_MAX \<Longrightarrow> length r \<le> USER_CACHE_MAX"
proof (induction b off payload cache rule: cache_loop.induct)
  case (1 b off payload cache)
  then show ?case by (subst (asm) (2) cache_loop.simps) (auto simp: Let_def split: if_splits)
qed

lemma held_core_parts [held_rules]:
  "on_core (receive_file s raw_name msize data) c = Some c' \<Longrightarrow> held c0 c \<Longrightarrow> held c0 c'"
  "on_core (receive_chunk s data) c = Some c' \<Longrightarrow> held c0 c \<Longrightarrow> held c0 c'"
  "on_core (cache_userlist b n) c = Some c' \<Longrightarrow> held c0 c \<Longrightarrow> held c0 c'"
proof -
  have fil: "core_ok k'" if "receive_file s raw_name msize data k = Some k'" "core_ok k" for k k'
    using that receive_file_ok [of k s raw_name msize data] by auto
  have chunk: "core_ok k'" if "receive_chunk s data k = Some k'" "core_ok k" for k k'
    using that receive_chunk_ok [of k s data] by auto
  have users: "core_ok k'" if "cache_userlist b n k = Some k'" "core_ok k" for k k'
    using that cache_loop_bound [of b 81 n "[]"] by (auto simp: cache_userlist_def core_ok_def)
  show "on_core (receive_file s raw_name msize data) c = Some c' \<Longrightarrow> held c0 c \<Longrightarrow> held c0 c'"
    by (rule held_on_core) (auto intro: fil)
  show "on_core (receive_chunk s data) c = Some c' \<Longrightarrow> held c0 c \<Longrightarrow> held c0 c'"
    by (rule held_on_core) (auto intro: chunk)
  show "on_core (cache_userlist b n) c = Some c' \<Longrightarrow> held c0 c \<Longrightarrow> held c0 c'"
    by (rule held_on_core) (auto intro: users)
qed

lemma held_resync [held_rules]: "resync c = Some c' \<Longrightarrow> held c0 c \<Longrightarrow> held c0 c'"
proof -
  assume r: "resync c = Some c'" and h: "held c0 c"
  then have "recv_len c \<le> length (recv_buf c)" by (simp add: held_def)
  from resync_meets_spec [OF this] obtain b n where b: "lwmp_stream_resync (recv_buf c) (recv_len c) = Some (b, n)"
    "resync_spec (recv_buf c) (recv_len c) b n" by blast
  then have "length b = length (recv_buf c) \<and> n \<le> recv_len c" by (auto simp: resync_spec_def split: option.splits)
  then show "held c0 c'" using r h b(1) by (auto simp: resync_def held_def outer_def)
qed

lemma held_print_resp [held_rules]: "print_server_resp pay code c = Some c' \<Longrightarrow> held c0 c \<Longrightarrow> held c0 c'"
  by (auto simp: print_server_resp_def bind_eq_Some_conv split: if_splits dest: held_rules)

lemma held_process_parts [held_rules]:
  "process_msg sender pay c = Some c' \<Longrightarrow> held c0 c \<Longrightarrow> held c0 c'"
  "process_info pay c = Some c' \<Longrightarrow> held c0 c \<Longrightarrow> held c0 c'"
  "process_req pay c = Some c' \<Longrightarrow> held c0 c \<Longrightarrow> held c0 c'"
  "process_file sender pay c = Some c' \<Longrightarrow> held c0 c \<Longrightarrow> held c0 c'"
proof -
  have note_ok: "core_ok k \<Longrightarrow> core_ok (note_resp code k)" for code k by (simp add: core_ok_def)
  have show_ok: "core_ok k \<Longrightarrow> core_ok (show_users k)" for k by (simp add: core_ok_def)
  show "process_msg sender pay c = Some c' \<Longrightarrow> held c0 c \<Longrightarrow> held c0 c'"
    by (auto simp: process_msg_def bind_eq_Some_conv dest: held_rules)
  show "process_info pay c = Some c' \<Longrightarrow> held c0 c \<Longrightarrow> held c0 c'"
    by (auto simp: process_info_def bind_eq_Some_conv dest: held_rules intro!: held_core note_ok)
  show "process_req pay c = Some c' \<Longrightarrow> held c0 c \<Longrightarrow> held c0 c'"
    by (auto simp: process_req_def bind_eq_Some_conv split: if_splits dest: held_rules intro!: held_core show_ok)
  show "process_file sender pay c = Some c' \<Longrightarrow> held c0 c \<Longrightarrow> held c0 c'"
    by (auto simp: process_file_def bind_eq_Some_conv dest: held_rules)
qed

lemma held_process [held_rules]: "process_received_pdu pay c = Some c' \<Longrightarrow> held c0 c \<Longrightarrow> held c0 c'"
  by (auto simp: process_received_pdu_def bind_eq_Some_conv Let_def split: if_splits dest: held_rules)

lemma held_parse_parts [held_rules]:
  "parse_pdu c = Some (g, c') \<Longrightarrow> held c0 c \<Longrightarrow> held c0 c'" "parse_chunk c = Some (g, c') \<Longrightarrow> held c0 c \<Longrightarrow> held c0 c'"
  by (auto simp: parse_pdu_def parse_chunk_def bind_eq_Some_conv Let_def split: if_splits dest: held_rules)

lemma held_parse_step: "parse_step c = Some (g, c') \<Longrightarrow> held c0 c \<Longrightarrow> held c0 c'"
  by (auto simp: parse_step_def bind_eq_Some_conv split: if_splits dest: held_rules)

lemma held_parse [held_rules]:
  assumes "clrecv_parse c = Some c'" and "held c0 c"
  shows "held c0 c'"
proof -
  have "held c0 c \<longrightarrow> held c0 c'"
  proof (rule clrecv_parse.raw_induct [OF _ assms(1)])
    fix loop c c'
    assume ih: "\<And>c c'. loop c = Some c' \<Longrightarrow> held c0 c \<longrightarrow> held c0 c'"
      and b: "(case parse_step c of None \<Rightarrow> None | Some (goes_on, c) \<Rightarrow> if goes_on then loop c else Some c) = Some c'"
    obtain g c1 where s: "parse_step c = Some (g, c1)" using b by (auto split: option.splits prod.splits)
    then show "held c0 c \<longrightarrow> held c0 c'" using b ih [of c1 c'] held_parse_step [OF s] by (auto split: if_splits)
  qed
  then show ?thesis using assms(2) by simp
qed

subsection \<open>The invariant of a session\<close>

text \<open>The client is connected exactly as long as its socket is watched; when it is not, nothing of a session is left:
  no socket, no name, no bytes, no transfer, and the prompt says so.\<close>

definition session_ok :: "client_ctx \<Rightarrow> bool" where
  "session_ok c \<longleftrightarrow> core_ok (core c) \<and> length (recv_buf c) = RECV_BUF_SIZE \<and> recv_len c \<le> RECV_BUF_SIZE \<and>
     (watched c \<longleftrightarrow> cc_state c = ST_CONNECTED) \<and>
     (cc_state c = ST_DISCONNECTED \<longrightarrow> conn_fd (connection c) = ERROR \<and> cc_username c = [] \<and> server_host c = [] \<and> recv_len c = 0 \<and>
       prompt c = DEFAULT_PROMPT (client_ctx.use_tls c) \<and> (\<forall>t \<in> set (transfers (core c)). \<not> ft_active t))"

text \<open>The context after an operation that a connected client has run.\<close>

definition connected_ok :: "client_ctx \<Rightarrow> bool" where
  "connected_ok c \<longleftrightarrow> session_ok c \<and> cc_state c = ST_CONNECTED"

lemma held_connected: "connected_ok c \<Longrightarrow> held c c' \<Longrightarrow> connected_ok c'"
  by (auto simp: connected_ok_def session_ok_def held_def outer_def)

lemma connected_held: "connected_ok c \<Longrightarrow> held c c"
  by (simp add: connected_ok_def session_ok_def held_def)

lemma session_say [simp]: "session_ok (say fmt args c) = session_ok c" "connected_ok (say fmt args c) = connected_ok c"
  "cc_state (say fmt args c) = cc_state c" "cc_state (upd_core f c) = cc_state c"
  by (simp_all add: session_ok_def connected_ok_def say_def upd_core_def)

lemma session_flags [simp]:
  "session_ok (upd_core (awaiting_resp_update f) c) = session_ok c" "connected_ok (upd_core (awaiting_resp_update f) c) = connected_ok c"
  "session_ok (upd_core (sending_chunks_update f) c) = session_ok c" "connected_ok (upd_core (sending_chunks_update f) c) = connected_ok c"
  "session_ok (upd_core (transfer_error_update f) c) = session_ok c" "connected_ok (upd_core (transfer_error_update f) c) = connected_ok c"
  "session_ok (set_link l c) = session_ok c" "connected_ok (set_link l c) = connected_ok c"
  "session_ok (c\<lparr>cc_inputs := inp\<rparr>) = session_ok c" "connected_ok (c\<lparr>cc_inputs := inp\<rparr>) = connected_ok c"
  "session_ok (c\<lparr>running := b\<rparr>) = session_ok c"
  by (simp_all add: session_ok_def connected_ok_def upd_core_def set_link_def core_ok_def)

lemma connected_session: "connected_ok c \<Longrightarrow> session_ok c"
  by (simp add: connected_ok_def)

lemma closed_core_ok: "core_ok k \<Longrightarrow> core_ok (close_all_transfers k) \<and> (\<forall>t \<in> set (transfers (close_all_transfers k)). \<not> ft_active t)"
  by (auto simp: core_ok_def close_all_transfers_def list_all_length transfer_ok_def senders_differ_def)

text \<open>Losing the connection and giving it up.\<close>

lemma lost_ok: "core_ok (core c) \<Longrightarrow> length (recv_buf c) = RECV_BUF_SIZE \<Longrightarrow>
    session_ok (connection_lost c) \<and> cc_state (connection_lost c) = ST_DISCONNECTED"
  using closed_core_ok [of "(core c)\<lparr>awaiting_resp := False, sending_chunks := False\<rparr>"]
  by (auto simp: connection_lost_def Let_def say_def upd_core_def clio_reset_prompt_def session_ok_def core_ok_def)

lemma disconnect_ok: "session_ok c \<Longrightarrow> session_ok (cmd_disconnect c)"
  using closed_core_ok [of "core c"]
  by (auto simp: cmd_disconnect_def Let_def say_def upd_core_def clio_reset_prompt_def session_ok_def)

lemma fill_ok:
  assumes "clrecv_fill c = Some (r, c')" and "core_ok (core c)" and "length (recv_buf c) = RECV_BUF_SIZE" and "recv_len c \<le> RECV_BUF_SIZE"
  shows "r < 0 \<and> session_ok c' \<and> cc_state c' = ST_DISCONNECTED \<or> r = 0 \<and> held c c'"
  using assms
proof (induction c rule: clrecv_fill.induct)
  case (1 c)
  obtain a inp where s: "recv_fn (cc_inputs c) (16384 - recv_len c) = (a, inp)" by fastforce
  show ?case
  proof (cases "recv_len c < 16384")
    case True
    show ?thesis
    proof (cases a)
      case (RecvData bs)
      then obtain b where b: "mem_write (recv_buf c) (recv_len c) bs = Some b"
        using "1.prems"(1) True s by (subst (asm) clrecv_fill.simps) (auto split: option.splits)
      define c1 where "c1 = c\<lparr>cc_inputs := inp, recv_buf := b, recv_len := recv_len c + length bs\<rparr>"
      have "clrecv_fill c1 = Some (r, c')"
        using "1.prems"(1) True s RecvData b unfolding c1_def by (subst (asm) clrecv_fill.simps) simp
      moreover have "length b = RECV_BUF_SIZE" "recv_len c + length bs \<le> RECV_BUF_SIZE"
        using mem_write_length [OF b] b "1.prems"(3) by (auto simp: mem_write_def split: if_splits)
      ultimately show ?thesis using "1.IH" [OF True s [symmetric] RecvData b] "1.prems"(2)
        by (auto simp: c1_def held_def outer_def)
    next
      case RecvBlock
      then have "r = 0" "c' = c\<lparr>cc_inputs := inp\<rparr>" using "1.prems"(1) True s by (subst (asm) clrecv_fill.simps, simp)+
      then show ?thesis using "1.prems" by (simp add: held_def outer_def)
    next
      case RecvError
      then have "r = - 1" "c' = connection_lost (c\<lparr>cc_inputs := inp\<rparr>)"
        using "1.prems"(1) True s by (subst (asm) clrecv_fill.simps, simp)+
      then show ?thesis using "1.prems" lost_ok [of "c\<lparr>cc_inputs := inp\<rparr>"] by simp
    qed
  next
    case False
    then have "r = 0" "c' = c" using "1.prems"(1) by (subst (asm) clrecv_fill.simps, simp)+
    then show ?thesis using "1.prems" by (simp add: held_def)
  qed
qed

lemma fill_connected:
  assumes "clrecv_fill c = Some (r, c')" and "connected_ok c"
  shows "r < 0 \<and> session_ok c' \<and> cc_state c' = ST_DISCONNECTED \<or> r = 0 \<and> connected_ok c'"
  using fill_ok [OF assms(1)] assms(2) held_connected [OF assms(2)] by (auto simp: connected_ok_def session_ok_def)

lemma parse_connected: "clrecv_parse c = Some c' \<Longrightarrow> connected_ok c \<Longrightarrow> connected_ok c'"
  using held_parse [OF _ connected_held] held_connected by blast

lemma wait_connected: "wait_readable c = (r, c') \<Longrightarrow> connected_ok c' = connected_ok c \<and> session_ok c' = session_ok c"
proof -
  assume "wait_readable c = (r, c')"
  then obtain p q where "c' = c\<lparr>polls := p, pendings := q\<rparr>"
    by (auto simp: wait_readable_def Let_def split: if_splits prod.splits intro: that [where p = "polls c'" and q = "pendings c'"])
  then show ?thesis by (simp add: connected_ok_def session_ok_def)
qed

lemma state_cases: "session_ok c \<Longrightarrow> connected_ok c \<or> cc_state c = ST_DISCONNECTED"
  by (cases "cc_state c") (simp_all add: connected_ok_def)

lemma socket_data_session:
  assumes "handle_socket_data c = Some c'" and "connected_ok c"
  shows "session_ok c'"
proof -
  obtain r c1 where f: "clrecv_fill c = Some (r, c1)" "(if r < 0 then Some c1 else clrecv_parse c1) = Some c'"
    using assms(1) by (auto simp: handle_socket_data_def bind_eq_Some_conv)
  then show ?thesis using fill_connected [OF f(1) assms(2)] parse_connected [of c1 c'] connected_session by (auto split: if_splits)
qed

lemma pump_session: "pump_socket_once c = Some c' \<Longrightarrow> connected_ok c \<Longrightarrow> session_ok c'"
proof -
  assume p: "pump_socket_once c = Some c'" and ok: "connected_ok c"
  obtain r c1 where w: "wait_readable c = (r, c1)" by fastforce
  have c1: "connected_ok c1" using wait_connected [OF w] ok by simp
  show "session_ok c'"
  proof (cases "r \<le> 0")
    case False
    then have "handle_socket_data c1 = Some c'" using p by (simp add: pump_socket_once_def w handle_socket_data_def)
    then show ?thesis using c1 by (rule socket_data_session)
  qed (use p c1 in \<open>simp add: pump_socket_once_def w connected_session\<close>)
qed

lemma await_loop_session:
  assumes "await_loop c = Some y" and "session_ok c"
  shows "session_ok (snd y) \<and> (fst y = 0 \<longrightarrow> connected_ok (snd y)) \<and> fst y \<in> {0, - 1, - 2}"
proof -
  define P where "P = (\<lambda>y. session_ok (snd y) \<and> (fst y = (0 :: int) \<longrightarrow> connected_ok (snd y)) \<and> fst y \<in> {0, - 1, - 2})"
  have "session_ok c \<longrightarrow> P y"
  proof (rule await_loop.raw_induct [OF _ assms(1)])
    fix loop c and y :: "int \<times> client_ctx"
    assume ih: "\<And>c y. loop c = Some y \<Longrightarrow> session_ok c \<longrightarrow> P y"
      and b: "(if awaiting_resp (core c) \<and> cc_state c = ST_CONNECTED
        then let (r, c) = wait_readable c in
          if r = 0 then Some (- 1, upd_core (awaiting_resp_update (\<lambda>_. False)) c)
          else if r < 0 then Some (- 2, c)
          else (case clrecv_fill c of None \<Rightarrow> None
            | Some (r, c) \<Rightarrow> if r < 0 then Some (- 2, c) else (case clrecv_parse c of None \<Rightarrow> None | Some c \<Rightarrow> loop c))
        else Some (if cc_state c \<noteq> ST_CONNECTED then - 2 else 0, c)) = Some y"
    obtain r c1 where w: "wait_readable c = (r, c1)" by fastforce
    show "session_ok c \<longrightarrow> P y"
    proof
      assume ok: "session_ok c"
      show "P y"
      proof (cases "awaiting_resp (core c) \<and> cc_state c = ST_CONNECTED \<and> 0 < r")
        case True
        then have c1: "connected_ok c1" using wait_connected [OF w] ok by (simp add: connected_ok_def)
        obtain r2 c2 where f: "clrecv_fill c1 = Some (r2, c2)" using b True by (auto simp: w split: option.splits)
        show ?thesis
        proof (cases "r2 < 0")
          case r2: True
          then show ?thesis using b True fill_connected [OF f c1] by (auto simp: w f P_def)
        next
          case False
          then have c2: "connected_ok c2" using fill_connected [OF f c1] by auto
          obtain c3 where p: "clrecv_parse c2 = Some c3" "loop c3 = Some y" using b True False by (auto simp: w f split: option.splits)
          then show ?thesis using ih [OF p(2)] parse_connected [OF p(1) c2] connected_session by blast
        qed
      next
        case False
        then show ?thesis using b ok wait_connected [OF w] state_cases [OF ok] by (auto simp: w P_def connected_ok_def split: if_splits)
      qed
    qed
  qed
  then show ?thesis using assms(2) by (simp add: P_def)
qed

lemma await_session:
  assumes "await_resp c = Some (r, code, c')" and "connected_ok c"
  shows "session_ok c' \<and> (r = 0 \<longrightarrow> connected_ok c') \<and> r \<in> {0, - 1, - 2}"
proof -
  obtain c1 where p: "clrecv_parse (upd_core (awaiting_resp_update (\<lambda>_. True)) c) = Some c1" "await_loop c1 = Some (r, c')"
    using assms(1) by (auto simp: await_resp_def bind_eq_Some_conv)
  have "connected_ok c1" by (rule parse_connected [OF p(1)]) (simp add: assms(2))
  then show ?thesis using await_loop_session [OF p(2)] connected_session by auto
qed

subsection \<open>Commands\<close>

lemma send_session:
  assumes "client_send data c = Some (r, c')"
  shows "session_ok c' = session_ok c" and "connected_ok c' = connected_ok c"
  using assms by (auto simp: client_send_def)

lemma say_all_session [simp]: "session_ok (say_all ls c) = session_ok c"
proof (induction ls arbitrary: c)
  case (Cons l ls)
  have "session_ok (say_all (l # ls) c) = session_ok (say_all ls (say (fst l) (snd l) c))" by (simp add: say_all_def split_beta)
  also have "\<dots> = session_ok c" unfolding Cons.IH by (rule session_say(1))
  finally show ?case .
qed (simp add: say_all_def)

lemma account_session: "account_request req usage connecting success dial tokens c = Some (l, c') \<Longrightarrow> session_ok c \<Longrightarrow> session_ok c'"
  by (auto simp: account_request_def Let_def bind_eq_Some_conv split: option.splits prod.splits if_splits)

lemma failed_connect:
  "connect_fn tls cn a = (cn', r) \<Longrightarrow> r < 0 \<Longrightarrow> conn_fd cn = ERROR \<Longrightarrow> conn_fd cn' = ERROR"
  by (auto simp: connect_fn_def connect_tls_def connect_tcp_def Let_def split: if_splits)

text \<open>Between sessions; the connection is left open here.\<close>

definition offline :: "client_ctx \<Rightarrow> bool" where
  "offline c \<longleftrightarrow> session_ok (c\<lparr>connection := \<lparr>conn_fd = ERROR, ssl = False\<rparr>\<rparr>) \<and> cc_state c = ST_DISCONNECTED"

lemma offline_session: "cc_state c = ST_DISCONNECTED \<Longrightarrow> session_ok c \<longleftrightarrow> offline c \<and> conn_fd (connection c) = ERROR"
  by (auto simp: offline_def session_ok_def)

lemma offline_simps [simp]:
  "offline (say fmt args c) = offline c" "offline (c\<lparr>connection := x\<rparr>) = offline c" "offline (set_link l c) = offline c"
  by (simp_all add: offline_def session_ok_def say_def upd_core_def set_link_def)

lemma kept_fields [simp]:
  "connection (say fmt args c) = connection c" "client_ctx.use_tls (say fmt args c) = client_ctx.use_tls c"
  "connection (set_link l c) = connection c" "client_ctx.use_tls (set_link l c) = client_ctx.use_tls c" "cc_state (set_link l c) = cc_state c"
  by (simp_all add: say_def upd_core_def set_link_def)

lemma say_all_offline [simp]:
  "offline (say_all ls c) = offline c" "connection (say_all ls c) = connection c" "client_ctx.use_tls (say_all ls c) = client_ctx.use_tls c"
  "cc_state (say_all ls c) = cc_state c"
  by (induction ls arbitrary: c) (auto simp: say_all_def)

lemma disconnected_fd [simp]: "conn_fd (disconnect_fn tls cn) = ERROR"
  by (simp add: disconnect_fn_def disconnect_tls_def disconnect_tcp_def)

lemma entered_session:
  assumes "offline c"
  shows "session_ok (enter_session host uname c)"
  using assms unfolding enter_session_def Let_def session_say set_prompt_def offline_def
  by (simp add: session_ok_def)

text \<open>The part of \<open>cmd_connect\<close> after the connection has been made.\<close>

definition log_in :: "byte list \<Rightarrow> byte list \<Rightarrow> byte list \<Rightarrow> link \<Rightarrow> client_ctx \<Rightarrow> client_ctx option" where
  "log_in host uname password lk c = do {
     (r, msgs_out, l) \<leftarrow> do_auth REQ_AUTHENTICATION uname password lk;
     let c = say_all msgs_out (set_link l c);
     if r < 0 then Some (c\<lparr>connection := disconnect_fn (client_ctx.use_tls c) (connection c)\<rparr>)
     else Some (enter_session host uname c) }"

lemma log_in_session: "log_in host uname password lk c = Some c' \<Longrightarrow> offline c \<Longrightarrow> session_ok c'"
proof -
  assume l: "log_in host uname password lk c = Some c'" and off: "offline c"
  obtain r ls l where d: "do_auth REQ_AUTHENTICATION uname password lk = Some (r, ls, l)"
    using l by (auto simp: log_in_def bind_eq_Some_conv)
  define c1 where "c1 = say_all ls (set_link l c)"
  have off1: "offline c1" unfolding c1_def say_all_offline(1) offline_simps(3) by (rule off)
  have e: "log_in host uname password lk c =
      (if r < 0 then Some (c1\<lparr>connection := disconnect_fn (client_ctx.use_tls c1) (connection c1)\<rparr>) else Some (enter_session host uname c1))"
    by (simp only: log_in_def d Option.bind.bind_lunit prod.case Let_def c1_def)
  have "session_ok (c1\<lparr>connection := disconnect_fn (client_ctx.use_tls c1) (connection c1)\<rparr>)"
    using off1 by (subst offline_session) (simp_all add: offline_def)
  then show "session_ok c'" using l entered_session [OF off1] unfolding e by (auto split: if_splits)
qed

lemma connect_session:
  assumes "cmd_connect dial tokens c = Some c'" and ok: "session_ok c"
  shows "session_ok c'"
proof (cases "cc_state c = ST_DISCONNECTED")
  case False
  then show ?thesis using assms by (simp add: cmd_connect_def) auto
next
  case True
  have off: "offline c" "conn_fd (connection c) = ERROR" using offline_session [OF True] ok by simp_all
  show ?thesis
  proof (cases "parse_target tokens DEFAULT_PORT_CONNECT")
    case None
    then show ?thesis using assms True by (simp add: cmd_connect_def) auto
  next
    case (Some t)
    then obtain host port uname password where t: "parse_target tokens DEFAULT_PORT_CONNECT = Some (host, port, uname, password)"
      by (cases t) auto
    show ?thesis
    proof (cases "resolve_error (dial host port)")
      case (Some e)
      then show ?thesis using assms True t by (simp add: cmd_connect_def) auto
    next
      case None
      define c0 where "c0 = say ''Connecting to %s:%u...'' [Str host, Num (unat port)] c"
      obtain cn r where cn: "connect_fn (client_ctx.use_tls c) (connection c) (dial host port) = (cn, r)" by fastforce
      have c0: "offline c0" "client_ctx.use_tls c0 = client_ctx.use_tls c" "connection c0 = connection c" using off by (simp_all add: c0_def)
      have e: "cmd_connect dial tokens c = (if r < 0 then Some (say ''Connection failed.'' [] (c0\<lparr>connection := cn\<rparr>))
          else log_in host uname password (d_link (dial host port)) (say ''Authenticating as %s...'' [Str uname]
            (if client_ctx.use_tls c then say ''TLS handshake OK.'' [] (c0\<lparr>connection := cn\<rparr>) else c0\<lparr>connection := cn\<rparr>)))"
        using True t None cn c0(2,3) unfolding cmd_connect_def log_in_def by (simp add: Let_def c0_def [symmetric])
      show ?thesis
      proof (cases "r < 0")
        case r: True
        have "session_ok (c0\<lparr>connection := cn\<rparr>)"
          using failed_connect [OF cn r off(2)] c0(1) by (subst offline_session) (simp_all add: offline_def)
        then show ?thesis using assms(1) r unfolding e by auto
      next
        case False
        then show ?thesis using assms(1) c0(1) unfolding e by (auto intro!: log_in_session)
      qed
    qed
  qed
qed

lemma sent_session:
  assumes "client_send data c = Some (r, c')" and "connected_ok c"
  shows "connected_ok c'" and "session_ok c'"
  using send_session [OF assms(1)] assms(2) connected_session by auto

lemma msg_session: "cmd_msg line c = Some c' \<Longrightarrow> session_ok c \<Longrightarrow> session_ok c'"
  by (auto simp: cmd_msg_def Let_def bind_eq_Some_conv send_session split: if_splits prod.splits)

lemma userlist_session: "cmd_userlist c = Some c' \<Longrightarrow> session_ok c \<Longrightarrow> session_ok c'"
  by (auto simp: cmd_userlist_def bind_eq_Some_conv send_session split: if_splits)

lemma chunks_session:
  assumes "send_chunks f pos remaining c = Some (aborted, c')" and "connected_ok c"
  shows "session_ok c'"
  using assms
proof (induction f pos remaining c rule: send_chunks.induct)
  case (1 f pos remaining c)
  define n where "n = (if remaining < LWMP_MAX_PDU_SIZE then remaining else LWMP_MAX_PDU_SIZE)"
  show ?case
  proof (cases "0 < remaining \<and> length (fread f pos n) = n")
    case False
    then show ?thesis using "1.prems"(1) connected_session [OF "1.prems"(2)]
      by (subst (asm) send_chunks.simps) (auto simp: Let_def n_def split: if_splits)
  next
    case True
    obtain r c1 where s: "client_send (fread f pos n) c = Some (r, c1)"
      using "1.prems"(1) True by (subst (asm) send_chunks.simps) (auto simp: Let_def n_def [symmetric] split: option.splits)
    have c1: "connected_ok c1" by (rule sent_session [OF s "1.prems"(2)])
    show ?thesis
    proof (cases "r < 0")
      case r: True
      then show ?thesis using "1.prems"(1) True s connected_session [OF c1]
        by (subst (asm) send_chunks.simps) (auto simp: Let_def n_def [symmetric])
    next
      case False
      then obtain c2 where p: "pump_socket_once c1 = Some c2"
        using "1.prems"(1) True s by (subst (asm) send_chunks.simps) (auto simp: Let_def n_def [symmetric] split: option.splits)
      have c2: "session_ok c2" by (rule pump_session [OF p c1])
      show ?thesis
      proof (cases "cc_state c2 \<noteq> ST_CONNECTED \<or> transfer_error (core c2)")
        case stop: True
        then show ?thesis using "1.prems"(1) True s False p c2
          by (subst (asm) send_chunks.simps) (auto simp: Let_def n_def [symmetric])
      next
        case go: False
        then have "send_chunks f (pos + n) (remaining - n) c2 = Some (aborted, c')"
          using "1.prems"(1) True s False p by (subst (asm) send_chunks.simps) (auto simp: Let_def n_def [symmetric])
        then show ?thesis using "1.IH" [OF _ n_def refl _ s refl False p] True go c2 by (simp add: connected_ok_def)
      qed
    qed
  qed
qed

lemma rest_session:
  assumes "sendfile_rest f name recipient c = Some c'" and "connected_ok c"
  shows "session_ok c'"
proof -
  obtain ar code c1 where a: "await_resp (upd_core (transfer_error_update (\<lambda>_. False)) c) = Some (ar, code, c1)"
    using assms(1) by (auto simp: sendfile_rest_def bind_eq_Some_conv)
  have c1: "session_ok c1" "ar = 0 \<Longrightarrow> connected_ok c1" using await_session [OF a] assms(2) by simp_all
  show ?thesis
  proof (cases "ar = - 2 \<or> ar = - 1 \<or> code \<noteq> Some RESP_OK")
    case True
    then show ?thesis using assms(1) c1 by (auto simp: sendfile_rest_def a split: if_splits)
  next
    case False
    then obtain ab c2 where s: "send_chunks f LWMP_PDU_BUF_SIZE (nat (lf_size f) - LWMP_PDU_BUF_SIZE)
        (upd_core (sending_chunks_update (\<lambda>_. True)) c1) = Some (ab, c2)"
      "c' = (let c = upd_core (sending_chunks_update (\<lambda>_. False)) c2 in
        if ab then say ''File transfer to %s aborted.'' [Str recipient] c else say_sent name (lf_size f) recipient c)"
      using assms(1) by (auto simp: sendfile_rest_def a Let_def bind_eq_Some_conv)
    have "ar = 0" using await_session [OF a] assms(2) False by auto
    then have "session_ok c2" using chunks_session [OF s(1)] c1(2) by simp
    then show ?thesis by (simp add: s(2) Let_def say_sent_def)
  qed
qed

lemma send_file_session: "send_file f name recipient c = Some c' \<Longrightarrow> connected_ok c \<Longrightarrow> session_ok c'"
  by (auto simp: send_file_def Let_def bind_eq_Some_conv say_sent_def connected_session dest: sent_session intro: rest_session split: if_splits)

lemma sendfile_session: "cmd_sendfile disk tokens c = Some c' \<Longrightarrow> session_ok c \<Longrightarrow> session_ok c'"
  by (auto simp: cmd_sendfile_def Let_def connected_ok_def split: if_splits open_answer.splits option.splits intro: send_file_session)

lemma help_session [simp]: "session_ok (cmd_help tokens c) = session_ok c"
proof -
  have "session_ok (print_help_entry e c) = session_ok c" for e c by (cases e) (simp add: print_help_entry_def)
  moreover from this have "session_ok (fold print_help_entry es c) = session_ok c" for es by (induction es arbitrary: c) auto
  ultimately show ?thesis by (auto simp: cmd_help_def Let_def split: option.splits)
qed

lemma line_session: "handle_command_line dial disk line c = Some c' \<Longrightarrow> session_ok c \<Longrightarrow> session_ok c'"
  unfolding handle_command_line_def cmd_register_def cmd_delete_account_def cmd_clear_def Let_def
  by (auto split: if_splits prod.splits intro: connect_session account_session msg_session sendfile_session userlist_session disconnect_ok)

subsection \<open>The loop\<close>

lemma event_session:
  assumes "dispatch_event ev c = Some c'" and "session_ok c"
  shows "session_ok c'"
proof (cases ev)
  case (Readable inp)
  show ?thesis
  proof (cases "cc_state c = ST_CONNECTED")
    case True
    then show ?thesis using assms Readable socket_data_session [of "c\<lparr>cc_inputs := cc_inputs c @ inp\<rparr>"]
      by (simp add: dispatch_event_def connected_ok_def)
  next
    case False
    define c1 where "c1 = c\<lparr>cc_inputs := [RecvError]\<rparr>"
    have off: "recv_len c = 0" using state_cases [OF assms(2)] False assms(2) by (auto simp: connected_ok_def session_ok_def)
    have f: "clrecv_fill c1 = Some (- 1, connection_lost (c1\<lparr>cc_inputs := []\<rparr>))"
      by (subst clrecv_fill.simps) (simp add: c1_def off)
    have "handle_socket_data c1 = Some c'" using assms(1) Readable False by (simp add: dispatch_event_def c1_def)
    then have "c' = connection_lost (c1\<lparr>cc_inputs := []\<rparr>)" by (simp add: handle_socket_data_def f)
    moreover have "core_ok (core c)" "length (recv_buf c) = RECV_BUF_SIZE" using assms(2) by (simp_all add: session_ok_def)
    ultimately show ?thesis using lost_ok [of "c1\<lparr>cc_inputs := []\<rparr>"] by (simp add: c1_def)
  qed
qed (use assms in \<open>auto simp: dispatch_event_def clio_line_handler_def split: option.splits intro: line_session\<close>)

lemma events_session: "client_events evs c = Some c' \<Longrightarrow> session_ok c \<Longrightarrow> session_ok c'"
  by (induction evs arbitrary: c) (auto split: option.splits dest: event_session)

lemma loop_session: "client_loop ws c = Some c' \<Longrightarrow> session_ok c \<Longrightarrow> session_ok c'"
  by (induction ws arbitrary: c) (auto split: if_splits option.splits waited.splits dest: events_session)

lemma start_session: "session_ok (client_start tls disk_files creatable)"
  by (simp add: session_ok_def client_start_def clio_init_def core_ok_def transfer_ok_def senders_differ_def list_all_length)

text \<open>What is left when \<open>main\<close> returns.\<close>

definition all_closed :: "client_ctx \<Rightarrow> bool" where
  "all_closed c \<longleftrightarrow> conn_fd (connection c) = ERROR \<and> \<not> watched c \<and> (\<forall>t \<in> set (transfers (core c)). \<not> ft_active t)"

lemma end_closed: "session_ok c \<Longrightarrow> all_closed (client_end c)"
  using closed_core_ok [of "core c"] state_cases [of c]
  by (auto simp: all_closed_def client_end_def Let_def upd_core_def session_ok_def connected_ok_def)

subsection \<open>Properties\<close>

text \<open>What the user is offered in the place of word \<open>n\<close> of a line.\<close>

definition offered :: "client_core \<Rightarrow> byte list \<Rightarrow> nat \<Rightarrow> byte list list" where
  "offered k command n =
     (if n = 0 \<or> n = 1 \<and> command = lit ''help'' then map lit command_names
      else if n = 1 \<and> command \<in> {lit ''connect'', lit ''register'', lit ''delete_account''} then [lit ''defaulthost'']
      else if n = 1 \<and> command \<in> {lit ''msg'', lit ''sendfile''} then user_cache k
      else [])"

definition command_of :: "byte list \<Rightarrow> byte list" where
  "command_of line = (case blank_words line of [] \<Rightarrow> [] | w # ws \<Rightarrow> w)"

lemma first_word_command: "first_word line = take 31 (command_of line)"
  by (cases "dropWhile is_space line = []")
    (simp_all add: first_word_def command_of_def blank_words.simps [of line] Let_def del: dropWhile_eq_Nil_conv)

lemma first_word_is: "length s < 31 \<Longrightarrow> first_word line = s \<longleftrightarrow> command_of line = s"
  unfolding first_word_command by auto

lemma word_index_words: "start \<le> length line \<Longrightarrow> word_index line start = length (blank_words (take start line))"
  using word_loop_words [of start line 0 0] by (simp add: word_index_def)

text \<open>C24. Completion offers exactly the names that fit the place of the word: the commands for the first word and
  after \<open>help\<close>, the default host for the commands that take one, the users of the last list after \<open>msg\<close> and \<open>sendfile\<close>,
  each in the order of its table and only those that begin with what has been typed; file names are offered for the
  third word of \<open>sendfile\<close> alone. Repeated calls of a generator come to an end.\<close>

theorem completion_offers:
  assumes "start \<le> length line"
  shows "lwmsg_completion k line word start =
    Some (filter (\<lambda>name. take (length word) name = word) (offered k (command_of line) (length (blank_words (take start line)))),
      length (blank_words (take start line)) = 2 \<and> command_of line = lit ''sendfile'')"
proof -
  have gens: "rl_completion_matches (command_generator word) = Some (filter (begins word) (map lit command_names))"
    "rl_completion_matches (username_generator k word) = Some (filter (begins word) (user_cache k))"
    "rl_completion_matches (defaulthost_generator word) = Some (filter (begins word) [lit ''defaulthost''])"
    unfolding rl_completion_matches_def command_generator_def [abs_def] username_generator_def [abs_def]
    using collect_matches [of _ word 0] collect_defaulthost by simp_all
  have first: "first_word line = lit ''help'' \<longleftrightarrow> command_of line = lit ''help''"
    "first_word line = lit ''connect'' \<longleftrightarrow> command_of line = lit ''connect''"
    "first_word line = lit ''register'' \<longleftrightarrow> command_of line = lit ''register''"
    "first_word line = lit ''delete_account'' \<longleftrightarrow> command_of line = lit ''delete_account''"
    "first_word line = lit ''msg'' \<longleftrightarrow> command_of line = lit ''msg''"
    "first_word line = lit ''sendfile'' \<longleftrightarrow> command_of line = lit ''sendfile''"
    by (rule first_word_is, simp add: lit_def)+
  have lits: "lit ''help'' \<noteq> lit ''sendfile''" "lit ''connect'' \<noteq> lit ''sendfile''" "lit ''register'' \<noteq> lit ''sendfile''"
    "lit ''delete_account'' \<noteq> lit ''sendfile''" by (simp_all add: lit_def)
  show ?thesis
    unfolding lwmsg_completion_def Let_def first gens word_index_words [OF assms] offered_def option.map
    using lits by auto
qed

theorem completion_offers_witness:
  "lwmsg_completion idle_core (lit ''help  dis'') (lit ''dis'') 6 = Some ([lit ''disconnect''], False)"
proof -
  have "blank_words (take 6 (lit ''help  dis'')) = [lit ''help'']" "blank_words (lit ''help  dis'') = [lit ''help'', lit ''dis'']" by code_simp+
  then show ?thesis using completion_offers [of 6 "lit ''help  dis''" idle_core "lit ''dis''"]
    by (simp add: offered_def command_of_def lit_def command_names_def)
qed


definition sample_dialer :: dialer where
  "sample_dialer host port = \<lparr>resolve_error = None, d_sock = 5, d_connected = True, d_ssl_new = False, d_ssl_set = False, d_ssl_connect = 0,
     d_link = \<lparr>lk_in = [RecvData (be32 AUTH_RESP_OK)], lk_out = [Sent 56], lk_sent = []\<rparr>\<rparr>"

lemma sample_tokens:
  "(case cmdparse_tokenize (lit ''connect h 1 An p'') 32 of (l, toks) \<Rightarrow> map (cstr_at l) toks) =
     [lit ''connect'', lit ''h'', lit ''1'', lit ''An'', lit ''p'']"
  by code_simp


end
