(* ===== verification/Spec2Isabelle.thy ===== *)
theory Spec2Isabelle
  imports Worker Regprops Servmain Setup Clsession
begin

text \<open>
  LWMSG, a messaging server with a terminal client, in C. This development models the code of \<open>common/\<close>, \<open>server/\<close>
  and \<open>client/\<close>, and proves what makes it correct, or where it is not.

  The program. Users register with a name and a password, log in, and send texts and files to each other. On the wire
  a message is a PDU: a packed header with a CRC of its own, whose length field says how many bytes follow; what does
  not fit into the PDU follows as raw chunks, and it is up to the receiver to know which chunk belongs to which message.
  The server has one thread that registers and deletes accounts, several worker threads that serve the users (each has a
  listening socket on the same port, an \<open>epoll\<close> instance, a heap of deadlines and a list of those who have yet to log in),
  and the main thread, which reads the commands of an administrator from a FIFO. The threads share the table of
  connected users, a hash table with striped locks, and tables of addresses (blocked ones, the white list). A worker
  that forwards a message puts it into a queue of the recipient, which may belong to another worker and learns of it
  through an event counter. The client is one loop over the terminal and the socket.

  Conventions (\<open>Prelude\<close>, \<open>Cstdlib\<close>). A C array is a \<open>byte list\<close> of its length, machine integers are words where their
  width matters, an object is reached by its address in a store (a function from addresses to records) when the code
  shares it, and 0 is NULL. \<open>None\<close> as the result of an operation is undefined behaviour, a failed assertion, or
  a loop that does not end; a theorem with \<open>= Some\<close> is therefore also one about memory safety and termination. The
  answers of the system, of OpenSSL, SQLite, SHA-256 and readline are arguments or lists of answers that the operations
  use up; an exhausted list of input means that nothing has arrived (\<open>EBLOCK\<close>).

  \<^bold>\<open>Shared parts\<close>

  \<^item> \<open>Crc\<close>, \<open>Lwmp\<close>: \<open>common/lwmp.c\<close> and \<open>lwmp.h\<close>. The table driven CRC against the shift register, fields of a PDU at their
    offsets, validation of headers (any changed byte is noticed), resynchronisation, responses and chunks.
  \<^item> \<open>Cmdparse\<close>: \<open>common/cmdparse.c\<close>, \<open>util.c\<close>. \<open>Netwrap\<close>: \<open>common/netwrap.c\<close>, the wrappers of sockets and OpenSSL, and the
    streams of answers that the handlers see of a connection.

  \<^bold>\<open>Containers of the server\<close>

  \<^item> \<open>Timerheap\<close>: \<open>server/cltimerheap.c\<close>. Every client knows its place in the heap, nobody is lost; the order of deadlines can be
    broken by a pop (\<open>pop_breaks_order\<close>).
  \<^item> \<open>Htable\<close>, \<open>Clhandle\<close>: \<open>server/htable.c\<close>, \<open>clhandle.c\<close>. The locale \<open>key_order\<close> says what the comparison function must
    satisfy; within it the table refines a finite map through every resize, and the trace of locks is well formed. It is
    interpreted with \<open>std_client_cmp\<close> for users and, in \<open>Ipblock\<close>, with \<open>ip_cmp\<close> for addresses.
  \<^item> \<open>Ipblock\<close>, \<open>Iptable\<close>, \<open>Peers\<close>: \<open>server/ipblock.c\<close> and the uses of the address tables in \<open>worker.c\<close> and
    \<open>registration.c\<close>; the locales \<open>record_maker\<close> and \<open>peer_book\<close> are interpreted for each kind of record.
  \<^item> \<open>Mpscq\<close>: \<open>server/thrdmsg_mpscq.c\<close>; the doubly linked queue is first in, first out (locale \<open>fifo\<close>).
  \<^item> \<open>Servcfg\<close>, \<open>Dbops\<close>, \<open>Thrdctx\<close>: \<open>server/servcfg.c\<close>, \<open>dbops.c\<close>, \<open>thrdctx.c\<close>; loading and saving, the SQL statements as
    functions on the table of users, contexts and the synchronised start as a step relation.

  \<^bold>\<open>A worker thread\<close> (\<open>server/worker.c\<close>)

  \<^item> \<open>Workerstate\<close>: the state of a worker, one record. \<open>Inbound\<close>: \<open>wt_handle_inbound_data\<close> in its phases. \<open>Ownership\<close>,
    \<open>Delivery\<close>, \<open>Forwarding\<close>: who owns a message, that the inbound path stays within its buffers on every input, and that a
    valid message reaches its recipient once. \<open>Longmsg\<close>: the loop around it and messages in chunks; its result is
    \<open>None\<close> when the loop does not end, which two inputs bring about.
  \<^item> \<open>Outbound\<close>: what is queued goes out in order. \<open>Connect\<close>, \<open>Login\<close>: accepting, the handshake, deadlines, the login request.
  \<^item> \<open>Sweep\<close>, \<open>Upkeep\<close>, \<open>Worker\<close>: the invariant \<open>wt_inv\<close> of a worker between two events, that every handler and the sweep
    keep it, the event handler, the shutdown and the loop. The invariant bounds the users and the list of those who log in
    by \<open>2 ^ 26\<close>, so that the sizes of user lists, 32-bit numbers in the code, cannot wrap. \<open>Setup\<close>: what the thread opens
    before its loop.

  \<^bold>\<open>The other threads of the server\<close>

  \<^item> \<open>Registration\<close>, \<open>Regsafe\<close>, \<open>Regprops\<close>: \<open>server/registration.c\<close>, its invariant \<open>reg_inv\<close>, and that a request is decided
    by its content however it is fragmented.
  \<^item> \<open>Servctrl\<close>, \<open>Ctrlsafe\<close>, \<open>Ctrlprops\<close>: \<open>server/servctrl.c\<close>, every command, and the loop of \<open>main\<close> with other threads
    between two commands. A listing has to fit into 4 GiB, hence the bound \<open>2 ^ 26\<close> on records.
  \<^item> \<open>Servmain\<close>: \<open>server/server.c\<close>, from the start to the end with every label of its cleanup.

  \<^bold>\<open>The client\<close>

  \<^item> \<open>Clfiles\<close>, \<open>Clrecv\<close>: \<open>client/clrecv.c\<close>, received files and the receive buffer at its real size of 16384 bytes.
    \<open>Clframes\<close> is the specification, a stream as a sequence of frames and what a frame means; \<open>Clstream\<close> shows that the
    code refines it. \<open>Clprops\<close>: every frame is handled once, files are complete and stay in the directory, and where
    messages are lost.
  \<^item> \<open>Clcmd\<close>, \<open>Clsend\<close>: \<open>client/clcmd.c\<close>, \<open>clnet.c\<close>; what is sent is what was typed, and the server or another client
    reads it so.
  \<^item> \<open>Clio\<close>, \<open>Clsession\<close>: \<open>client/clio.c\<close>, \<open>client.c\<close>; completion, the main loop and the invariant of a session.

  Not modelled: the log (the lines of the control interface apart, which the administrator reads) and the vendored logging
  library; failures of \<open>xmalloc\<close>, which end the program (where the code calls \<open>realloc\<close> itself, its answer is an
  argument); opening the FIFO, the resolver and the TLS context of the client, which only call libraries; the options of the
  command lines. Handlers of different threads are atomic steps with respect to each other: the shared containers are
  locked for each operation, and the locking is part of the model of the containers, but no weaker interleaving
  within a handler is. The loops of the threads are functions or inductive runs over lists of answers, so that every
  finite run is covered; no fuel is used: loops that may not end are \<open>partial_function\<close>s.
\<close>

end
